(* ===== verification/Prelude.thy ===== *)
theory Prelude
  imports Main "HOL-Library.Multiset" "HOL-Library.Word" "HOL-Library.While_Combinator"
begin

text \<open>
  Shared base of the development: how a C function is written as a HOL function.

  \<^item> A run of C code ends in a value or in an error of \<^verbatim>\<open>cerr\<close>: a failed \<^verbatim>\<open>assert\<close>,
    a self-deadlock on a mutex, or undefined behaviour (a bad pointer, an index outside its
    buffer, a read of uninitialised memory, a signed overflow). \<^verbatim>\<open>rbind\<close> sequences two steps.
  \<^item> \<^verbatim>\<open>cmem\<close> is the part of the C heap every component needs: which blocks are allocated, and
    which of the calls that can fail do fail (\<^verbatim>\<open>calloc\<close>, \<^verbatim>\<open>realloc\<close>,
    \<^verbatim>\<open>pthread_mutex_init\<close>). Components extend the record with the contents of their blocks.
  \<^item> \<^verbatim>\<open>rfor\<close> is a counted \<^verbatim>\<open>for\<close> loop whose body can fail, and \<^verbatim>\<open>cwhile\<close> a
    \<^verbatim>\<open>while\<close> loop: when it never ends its value is the error \<^verbatim>\<open>Diverges\<close>.
\<close>

named_theorems run_simps \<open>evaluation rules for the steps of the model\<close>
named_theorems frame_simps \<open>what an operation leaves unchanged\<close>

section \<open>Outcomes\<close>

datatype cerr =
    Assert_Failed
  | Deadlock
  | Null_Deref
  | Bad_Access
  | Bad_Free
  | Out_Of_Bounds
  | Uninitialised
  | Int_Overflow
  | Div_By_Zero
  | Bad_Unlock
  | Diverges

type_synonym 'a res = "cerr + 'a"

definition rbind :: "'e + 'a \<Rightarrow> ('a \<Rightarrow> 'e + 'b) \<Rightarrow> 'e + 'b" where
  "rbind m f = (case m of Inl e \<Rightarrow> Inl e | Inr x \<Rightarrow> f x)"

lemma rbind_Inr [simp, run_simps]: "rbind (Inr x) f = f x"
  by (simp add: rbind_def)

lemma rbind_Inl [simp, run_simps]: "rbind (Inl e) f = Inl e"
  by (simp add: rbind_def)

lemma rbind_eq_Inr: "rbind m f = Inr y \<longleftrightarrow> (\<exists>x. m = Inr x \<and> f x = Inr y)"
  by (cases m) auto

lemma rbind_Inr_right [simp]: "rbind m Inr = m"
  by (cases m) auto

lemma rbind_assoc: "rbind (rbind m f) g = rbind m (\<lambda>x. rbind (f x) g)"
  by (cases m) auto

lemma rbind_cong [fundef_cong]:
  "m = m' \<Longrightarrow> (\<And>x. m' = Inr x \<Longrightarrow> f x = f' x) \<Longrightarrow> rbind m f = rbind m' f'"
  by (cases m') auto

section \<open>Counted loops\<close>

fun rfor :: "nat list \<Rightarrow> (nat \<Rightarrow> 's \<Rightarrow> 's res) \<Rightarrow> 's \<Rightarrow> 's res" where
  "rfor [] f s = Inr s"
| "rfor (i # is) f s = rbind (f i s) (\<lambda>s'. rfor is f s')"

lemma rfor_append: "rfor (is @ js) f s = rbind (rfor is f s) (rfor js f)"
proof (induction "is" arbitrary: s)
  case Nil
  show ?case by simp
next
  case (Cons i "is")
  then show ?case by (cases "f i s") auto
qed

lemma rfor_single [simp]: "rfor [i] f = f i"
proof
  fix s
  show "rfor [i] f s = f i s" by (cases "f i s") auto
qed

lemma rfor_invariant:
  assumes "P lo s"
    and "\<And>i s. lo \<le> i \<Longrightarrow> i < hi \<Longrightarrow> P i s \<Longrightarrow> \<exists>s'. f i s = Inr s' \<and> P (Suc i) s'"
    and "lo \<le> hi"
  shows "\<exists>s'. rfor [lo..<hi] f s = Inr s' \<and> P hi s'"
  using assms
proof (induction "hi - lo" arbitrary: lo s)
  case 0
  then show ?case by simp
next
  case (Suc n)
  then have "lo < hi" by simp
  with Suc.prems obtain s1 where s1: "f lo s = Inr s1" "P (Suc lo) s1" by blast
  have "\<exists>s'. rfor [Suc lo..<hi] f s1 = Inr s' \<and> P hi s'"
    using Suc.hyps \<open>lo < hi\<close> s1(2) Suc.prems(2) by (intro Suc.hyps(1)) auto
  with s1(1) \<open>lo < hi\<close> show ?case by (simp add: upt_conv_Cons)
qed

lemma rfor_cong:
  "(\<And>i s. i \<in> set is \<Longrightarrow> f i s = g i s) \<Longrightarrow> rfor is f s = rfor is g s"
proof (induction "is" arbitrary: s)
  case Nil
  then show ?case by simp
next
  case (Cons i "is")
  then show ?case by (cases "g i s") auto
qed

section \<open>Searching\<close>

text \<open>The index of the first match, the length of the list when there is none.\<close>

definition first_hit :: "('a \<Rightarrow> bool) \<Rightarrow> 'a list \<Rightarrow> nat" where
  "first_hit P xs = length (takeWhile (\<lambda>x. \<not> P x) xs)"

lemma first_hit_le: "first_hit P xs \<le> length xs"
  by (simp add: first_hit_def length_takeWhile_le)

lemma first_hit_nth: "first_hit P xs < length xs \<Longrightarrow> P (xs ! first_hit P xs)"
  using nth_length_takeWhile [of "\<lambda>x. \<not> P x" xs] by (simp add: first_hit_def)

lemma first_hit_find:
  "List.find P xs = (if first_hit P xs < length xs then Some (xs ! first_hit P xs) else None)"
  by (induction xs) (auto simp: first_hit_def)

lemma first_hit_none: "first_hit P xs = length xs \<longleftrightarrow> (\<forall>x \<in> set xs. \<not> P x)"
  by (induction xs) (auto simp: first_hit_def)

text \<open>Taking an element out by moving the last one to its place.\<close>

definition swap_out :: "nat \<Rightarrow> 'a list \<Rightarrow> 'a list" where
  "swap_out j xs = (if Suc j = length xs then butlast xs else (butlast xs)[j := last xs])"

lemma map_swap_out: "xs \<noteq> [] \<Longrightarrow> map f (swap_out j xs) = swap_out j (map f xs)"
  by (simp add: swap_out_def map_butlast map_update last_map)

lemma mset_swap_out:
  assumes "j < length xs"
  shows "mset (swap_out j xs) = mset xs - {#xs ! j#}"
proof -
  obtain zs l where xs: "xs = zs @ [l]" using assms by (cases xs rule: rev_cases) auto
  show ?thesis
  proof (cases "j < length zs")
    case True
    then have "zs ! j \<in># mset zs" by (simp add: nth_mem_mset)
    then obtain M where M: "mset zs = add_mset (zs ! j) M" by (rule that [OF insert_DiffM [symmetric]])
    have "add_mset l (add_mset x M) - {#x#} = add_mset l M" for x
      unfolding add_mset_commute [of l x M] by (rule add_mset_remove_trivial)
    then have "add_mset l (mset zs - {#zs ! j#}) = add_mset l (mset zs) - {#zs ! j#}" unfolding M by simp
    then show ?thesis using True by (simp add: swap_out_def xs nth_append mset_update)
  next
    case False
    then have "j = length zs" using assms xs by simp
    then show ?thesis by (simp add: swap_out_def xs)
  qed
qed

lemma swap_out_set:
  assumes "j < length xs" and "distinct xs"
  shows "distinct (swap_out j xs)" "set (swap_out j xs) = set xs - {xs ! j}"
proof -
  have "mset xs = add_mset (xs ! j) (mset (swap_out j xs))"
    using mset_swap_out [OF assms(1)] assms(1) by (simp add: insert_DiffM nth_mem_mset)
  then have m: "mset xs = mset (xs ! j # swap_out j xs)" by simp
  have "distinct (xs ! j # swap_out j xs)" using assms(2) mset_eq_imp_distinct_iff [OF m] by simp
  moreover have "set xs = set (xs ! j # swap_out j xs)" using m by (rule mset_eq_setD)
  ultimately show "distinct (swap_out j xs)" "set (swap_out j xs) = set xs - {xs ! j}" by auto
qed

section \<open>While loops\<close>

text \<open>
  The loop runs while the condition holds and the body does not fail. \<^const>\<open>while_option\<close> of the
  library is \<^term>\<open>None\<close> exactly when that never stops.
\<close>

definition wgoes :: "('s \<Rightarrow> bool) \<Rightarrow> 's res \<Rightarrow> bool" where
  "wgoes b r = (case r of Inl e \<Rightarrow> False | Inr s \<Rightarrow> b s)"

definition cwhile :: "('s \<Rightarrow> bool) \<Rightarrow> ('s \<Rightarrow> 's res) \<Rightarrow> 's \<Rightarrow> 's res" where
  "cwhile b f s =
     (case while_option (wgoes b) (\<lambda>r. rbind r f) (Inr s) of
        None \<Rightarrow> Inl Diverges
      | Some r \<Rightarrow> r)"

lemma cwhile_unfold [code]: "cwhile b f s = (if b s then rbind (f s) (cwhile b f) else Inr s)"
proof (cases "b s")
  case True
  have "while_option (wgoes b) (\<lambda>r. rbind r f) (Inr s) = while_option (wgoes b) (\<lambda>r. rbind r f) (f s)"
    by (subst while_option_unfold) (simp add: wgoes_def True)
  moreover have "while_option (wgoes b) (\<lambda>r. rbind r f) (Inl e) = Some (Inl e)" for e
    by (subst while_option_unfold) (simp add: wgoes_def)
  ultimately show ?thesis using True
    by (cases "f s") (simp_all add: cwhile_def)
next
  case False
  then show ?thesis by (simp add: cwhile_def while_option_unfold wgoes_def)
qed

lemma cwhile_stop [simp]: "\<not> b s \<Longrightarrow> cwhile b f s = Inr s"
  by (simp add: cwhile_unfold [of b f s])

lemma cwhile_go: "b s \<Longrightarrow> cwhile b f s = rbind (f s) (cwhile b f)"
  by (simp add: cwhile_unfold [of b f s])

text \<open>A loop with a measure: it ends, and establishes its invariant without the condition.\<close>

lemma cwhile_measure:
  fixes m :: "'s \<Rightarrow> nat"
  assumes "I s"
    and "\<And>s. I s \<Longrightarrow> b s \<Longrightarrow> \<exists>s'. f s = Inr s' \<and> I s' \<and> m s' < m s"
  shows "\<exists>s'. cwhile b f s = Inr s' \<and> I s' \<and> \<not> b s'"
  using assms(1)
proof (induction "m s" arbitrary: s rule: less_induct)
  case less
  show ?case
  proof (cases "b s")
    case True
    then obtain s' where "f s = Inr s'" "I s'" "m s' < m s" using assms(2) less.prems by blast
    with less.hyps [of s'] True show ?thesis by (auto simp: cwhile_go)
  next
    case False
    with less.prems show ?thesis by auto
  qed
qed

text \<open>A loop that can be kept going forever diverges.\<close>

lemma cwhile_diverges:
  assumes "I s" and "\<And>s. I s \<Longrightarrow> b s \<and> (\<exists>s'. f s = Inr s' \<and> I s')"
  shows "cwhile b f s = Inl Diverges"
proof -
  define P where "P r = (\<exists>s. r = Inr s \<and> I s)" for r :: "'a res"
  have "while_option (wgoes b) (\<lambda>r. rbind r f) (Inr s) = None"
  proof (rule ccontr)
    assume "while_option (wgoes b) (\<lambda>r. rbind r f) (Inr s) \<noteq> None"
    then obtain t where t: "while_option (wgoes b) (\<lambda>r. rbind r f) (Inr s) = Some t" by auto
    have "P t"
    proof (rule while_option_rule [OF _ t])
      show "P (Inr s)" using assms(1) by (simp add: P_def)
      fix r assume "P r" "wgoes b r"
      then show "P (rbind r f)" using assms(2) by (fastforce simp: P_def)
    qed
    then have "wgoes b t" using assms(2) by (auto simp: P_def wgoes_def)
    then show False using while_option_stop [OF t] by simp
  qed
  then show ?thesis by (simp add: cwhile_def)
qed

section \<open>Machine integers\<close>

text \<open>
  A C \<^verbatim>\<open>int\<close> is an \<^typ>\<open>int\<close> between \<^verbatim>\<open>INT_MIN\<close> and \<^verbatim>\<open>INT_MAX\<close>; a \<^verbatim>\<open>size_t\<close> is a
  \<^typ>\<open>nat\<close> below \<open>2 ^ 64\<close>. The implicit conversions of the code wrap.
\<close>

definition INT_MAX :: int where "INT_MAX = 2147483647"

definition INT_MIN :: int where "INT_MIN = - 2147483648"

definition int_of_size_t :: "nat \<Rightarrow> int" where
  "int_of_size_t n = (int n + 2147483648) mod 4294967296 - 2147483648"

definition size_t_of_int :: "int \<Rightarrow> nat" where
  "size_t_of_int i = nat (i mod 18446744073709551616)"

lemma int_of_size_t_id [simp, run_simps]:
  "int n \<le> INT_MAX \<Longrightarrow> int_of_size_t n = int n"
  by (simp add: int_of_size_t_def INT_MAX_def)

lemma size_t_of_int_id [simp, run_simps]:
  "0 \<le> i \<Longrightarrow> i < 18446744073709551616 \<Longrightarrow> size_t_of_int i = nat i"
  by (simp add: size_t_of_int_def)

text \<open>Signed addition that overflows is undefined behaviour.\<close>

definition c_add :: "int \<Rightarrow> int \<Rightarrow> int res" where
  "c_add a b = (if INT_MIN \<le> a + b \<and> a + b \<le> INT_MAX then Inr (a + b) else Inl Int_Overflow)"

lemma c_add_ok [run_simps]:
  "INT_MIN \<le> a + b \<Longrightarrow> a + b \<le> INT_MAX \<Longrightarrow> c_add a b = Inr (a + b)"
  by (simp add: c_add_def)

section \<open>The heap: blocks and failing calls\<close>

type_synonym ptr = nat

abbreviation (input) NULL :: ptr where "NULL \<equiv> 0"

record cmem =
  calls :: nat
  fails :: "nat \<Rightarrow> bool"
  live :: "ptr set"

text \<open>
  Every call that can fail consumes one number; \<open>fails\<close> says which numbers fail. A successful
  allocation returns the address one above its number, which no earlier call returned.
\<close>

definition c_alloc :: "'s cmem_scheme \<Rightarrow> ptr \<times> 's cmem_scheme" where
  "c_alloc s =
     (if fails s (calls s) then (NULL, s\<lparr>calls := Suc (calls s)\<rparr>)
      else (Suc (calls s),
            s\<lparr>calls := Suc (calls s), live := insert (Suc (calls s)) (live s)\<rparr>))"

definition c_free :: "ptr \<Rightarrow> 's cmem_scheme \<Rightarrow> 's cmem_scheme res" where
  "c_free p s =
     (if p = NULL then Inr s
      else if p \<in> live s then Inr (s\<lparr>live := live s - {p}\<rparr>)
      else Inl Bad_Free)"

definition c_realloc :: "ptr \<Rightarrow> 's cmem_scheme \<Rightarrow> (ptr \<times> 's cmem_scheme) res" where
  "c_realloc p s =
     (if p \<noteq> NULL \<and> p \<notin> live s then Inl Bad_Free
      else if fails s (calls s) then Inr (NULL, s\<lparr>calls := Suc (calls s)\<rparr>)
      else Inr (Suc (calls s),
            s\<lparr>calls := Suc (calls s), live := insert (Suc (calls s)) (live s - {p})\<rparr>))"

text \<open>\<^verbatim>\<open>pthread_mutex_init\<close> returns 0 or a positive error number, never -1.\<close>

definition ENOMEM :: int where "ENOMEM = 12"

definition c_mutex_init :: "'s cmem_scheme \<Rightarrow> int \<times> 's cmem_scheme" where
  "c_mutex_init s =
     (if fails s (calls s) then ENOMEM else 0, s\<lparr>calls := Suc (calls s)\<rparr>)"

definition mem_ok :: "'s cmem_scheme \<Rightarrow> bool" where
  "mem_ok s \<longleftrightarrow> NULL \<notin> live s \<and> (\<forall>p \<in> live s. p \<le> calls s)"

definition ample :: "'s cmem_scheme \<Rightarrow> bool" where
  "ample s \<longleftrightarrow> (\<forall>n \<ge> calls s. \<not> fails s n)"

lemma ample_now [simp, run_simps]: "ample s \<Longrightarrow> \<not> fails s (calls s)"
  by (simp add: ample_def)

lemma ample_mono: "ample s \<Longrightarrow> calls s \<le> calls t \<Longrightarrow> fails t = fails s \<Longrightarrow> ample t"
  by (simp add: ample_def)

lemma mem_ok_fresh: "mem_ok s \<Longrightarrow> Suc (calls s) \<notin> live s"
  by (auto simp: mem_ok_def)

lemma mem_ok_nz: "mem_ok s \<Longrightarrow> p \<in> live s \<Longrightarrow> p \<noteq> NULL"
  by (metis mem_ok_def)

lemma mem_ok_bound: "mem_ok s \<Longrightarrow> p \<in> live s \<Longrightarrow> p \<le> calls s"
  by (simp add: mem_ok_def)

lemma mem_ok_alloc: "mem_ok s \<Longrightarrow> mem_ok (snd (c_alloc s))"
  by (auto simp: mem_ok_def c_alloc_def)

lemma c_free_fresh [run_simps]:
  "p \<noteq> NULL \<Longrightarrow> p \<in> live s \<Longrightarrow> c_free p s = Inr (s\<lparr>live := live s - {p}\<rparr>)"
  by (simp add: c_free_def)

lemma c_free_NULL [simp, run_simps]: "c_free NULL s = Inr s"
  by (simp add: c_free_def)

lemma c_free_twice:
  "c_free p s = Inr s' \<Longrightarrow> p \<noteq> NULL \<Longrightarrow> c_free p s' = Inl Bad_Free"
  by (auto simp: c_free_def split: if_splits)

end
