(* ===== verification/Darray.thy ===== *)
theory Darray
  imports Prelude
begin

text \<open>
  The dynamic array of pointers of \<^verbatim>\<open>lib/ds/darray.h\<close> and \<^verbatim>\<open>lib/ds/darray.c\<close>.

  The record is the struct: \<^verbatim>\<open>end\<close> and \<^verbatim>\<open>max\<close> are C ints, \<^verbatim>\<open>contents\<close> is the buffer behind
  the pointer (a list of slots as long as the allocation), \<open>d_addr\<close>, \<open>d_buf\<close> and
  \<open>d_mtx\<close> are the addresses of the struct, of the buffer and of the mutex, and
  \<open>d_locked\<close> is the state of the mutex. An element is a \<^verbatim>\<open>void *\<close>: \<^term>\<open>None\<close> is NULL.
  A slot that \<^verbatim>\<open>realloc\<close> added and nothing has written is \<open>Junk\<close>.
  A receiver is the struct a non-NULL pointer points to; the \<^verbatim>\<open>assert(array)\<close> of each
  function then holds.
\<close>

section \<open>Data\<close>

datatype 'a slot = Junk | Val "'a option"

record 'a darray =
  d_addr :: ptr
  d_buf :: ptr
  d_mtx :: ptr
  d_end :: int
  d_max :: int
  elementSize :: nat
  expandRate :: nat
  contents :: "'a slot list"
  d_locked :: bool

definition DEFAULT_EXPAND_RATE :: nat where "DEFAULT_EXPAND_RATE = 300"

definition DARRAY_DEFAULT_SIZE :: nat where "DARRAY_DEFAULT_SIZE = 100"

fun slot_ptr :: "'a slot \<Rightarrow> 'a option" where
  "slot_ptr Junk = None"
| "slot_ptr (Val v) = v"

text \<open>Reading and writing \<^verbatim>\<open>array->contents[i]\<close>.\<close>

definition slot_read :: "'a darray \<Rightarrow> int \<Rightarrow> 'a option res" where
  "slot_read d i =
     (if i < 0 \<or> int (length (contents d)) \<le> i then Inl Out_Of_Bounds
      else case contents d ! nat i of Junk \<Rightarrow> Inl Uninitialised | Val v \<Rightarrow> Inr v)"

definition slot_write :: "'a darray \<Rightarrow> int \<Rightarrow> 'a option \<Rightarrow> 'a darray res" where
  "slot_write d i v =
     (if i < 0 \<or> int (length (contents d)) \<le> i then Inl Out_Of_Bounds
      else Inr (d\<lparr>contents := (contents d)[nat i := Val v]\<rparr>))"

text \<open>
  The mutex is not recursive: a second lock by the same thread never returns. The
  functions assert that locking and unlocking return 0.
\<close>

definition d_lock :: "'a darray \<Rightarrow> 'a darray res" where
  "d_lock d = (if d_locked d then Inl Deadlock else Inr (d\<lparr>d_locked := True\<rparr>))"

definition d_unlock :: "'a darray \<Rightarrow> 'a darray res" where
  "d_unlock d = (if d_locked d then Inr (d\<lparr>d_locked := False\<rparr>) else Inl Bad_Unlock)"

section \<open>Operations of darray.h\<close>

definition Darray_count :: "'a darray \<Rightarrow> int" where
  "Darray_count d = d_end d"

definition Darray_set :: "'a darray \<Rightarrow> int \<Rightarrow> 'a option \<Rightarrow> 'a darray res" where
  "Darray_set d i el =
     (if \<not> d_max d > i then Inl Assert_Failed
      else rbind (d_lock d) (\<lambda>d1.
        let d2 = (if i > d_end d1 then d1\<lparr>d_end := i\<rparr> else d1) in
        rbind (slot_write d2 i el) d_unlock))"

text \<open>The lock is taken and released, so the array itself is returned to its old state.\<close>

definition Darray_get :: "'a darray \<Rightarrow> int \<Rightarrow> 'a option res" where
  "Darray_get d i =
     (if \<not> d_max d > i then Inl Assert_Failed
      else rbind (d_lock d) (\<lambda>d1.
        rbind (slot_read d1 i) (\<lambda>el. rbind (d_unlock d1) (\<lambda>_. Inr el))))"

definition Darray_remove :: "'a darray \<Rightarrow> int \<Rightarrow> ('a option \<times> 'a darray) res" where
  "Darray_remove d i =
     (if \<not> d_end d \<ge> i then Inl Assert_Failed
      else rbind (slot_read d i) (\<lambda>el.
        rbind (slot_write d i None) (\<lambda>d1. Inr (el, d1))))"

section \<open>Operations of darray.c\<close>

definition Darray_create ::
  "nat \<Rightarrow> nat \<Rightarrow> 's cmem_scheme \<Rightarrow> ('a darray option \<times> 's cmem_scheme) res" where
  "Darray_create elSize initialMax s =
     (if \<not> elSize > 0 then Inl Assert_Failed
      else if \<not> initialMax > 0 then Inl Assert_Failed
      else let (array, s1) = c_alloc s in
        if array = NULL then Inr (None, s1)
        else let (buf, s2) = c_alloc s1 in
          if buf = NULL then rbind (c_free array s2) (\<lambda>s3. Inr (None, s3))
          else let (mtx, s3) = c_alloc s2 in
            if mtx = NULL
            then rbind (c_free buf s3) (\<lambda>s4. rbind (c_free array s4) (\<lambda>s5. Inr (None, s5)))
            else let (rc, s4) = c_mutex_init s3 in
              if rc \<noteq> 0
              then \<comment> \<open>\<^verbatim>\<open>array->mtx\<close> is still the NULL that \<^verbatim>\<open>calloc\<close> left there\<close>
                rbind (c_free buf s4) (\<lambda>s5. rbind (c_free NULL s5) (\<lambda>s6.
                  rbind (c_free array s6) (\<lambda>s7. Inr (None, s7))))
              else Inr (Some \<lparr>d_addr = array, d_buf = buf, d_mtx = mtx,
                              d_end = 0, d_max = int_of_size_t initialMax,
                              elementSize = elSize, expandRate = DEFAULT_EXPAND_RATE,
                              contents = replicate initialMax (Val None),
                              d_locked = False\<rparr>, s4))"

definition Darray_clear :: "ptr darray \<Rightarrow> 's cmem_scheme \<Rightarrow> 's cmem_scheme res" where
  "Darray_clear d s =
     (if elementSize d > 0
      then rfor [0..<nat (d_max d)] (\<lambda>i s'.
             rbind (slot_read d (int i)) (\<lambda>el.
               case el of None \<Rightarrow> Inr s' | Some p \<Rightarrow> c_free p s')) s
      else Inr s)"

definition Darray_resize ::
  "'a darray \<Rightarrow> nat \<Rightarrow> 's cmem_scheme \<Rightarrow> (int \<times> 'a darray \<times> 's cmem_scheme) res" where
  "Darray_resize d newSize s =
     (if \<not> newSize > 0 then Inl Assert_Failed
      else rbind (c_realloc (d_buf d) s) (\<lambda>(p, s1).
        if p = NULL then Inr (-1, d, s1)
        else Inr (0, d\<lparr>d_max := int_of_size_t newSize,
                       contents := take newSize (contents d)
                         @ replicate (newSize - length (contents d)) Junk,
                       d_buf := p\<rparr>, s1)))"

text \<open>\<^verbatim>\<open>memset(array->contents + from, 0, n * sizeof(void *))\<close>\<close>

definition slots_zero :: "'a darray \<Rightarrow> nat \<Rightarrow> nat \<Rightarrow> 'a darray res" where
  "slots_zero d from n =
     (if length (contents d) < from + n then Inl Out_Of_Bounds
      else Inr (d\<lparr>contents := take from (contents d) @ replicate n (Val None)
                  @ drop (from + n) (contents d)\<rparr>))"

definition Darray_expand ::
  "'a darray \<Rightarrow> 's cmem_scheme \<Rightarrow> (int \<times> 'a darray \<times> 's cmem_scheme) res" where
  "Darray_expand d s =
     (let oldMax = size_t_of_int (d_max d) in
      rbind (Darray_resize d ((size_t_of_int (d_max d) + expandRate d) mod 18446744073709551616) s)
        (\<lambda>(rc, d1, s1).
          if rc = -1 then Inr (-1, d1, s1)
          else rbind (slots_zero d1 oldMax (expandRate d1)) (\<lambda>d2. Inr (0, d2, s1))))"

definition Darray_contract ::
  "'a darray \<Rightarrow> 's cmem_scheme \<Rightarrow> (int \<times> 'a darray \<times> 's cmem_scheme) res" where
  "Darray_contract d s =
     (let newSize = (if d_end d < int_of_size_t (expandRate d)
                     then int_of_size_t (expandRate d) else d_end d) in
      rbind (c_add newSize 1) (\<lambda>n. Darray_resize d (size_t_of_int n) s))"

definition Darray_destroy :: "'a darray \<Rightarrow> 's cmem_scheme \<Rightarrow> 's cmem_scheme res" where
  "Darray_destroy d s =
     rbind (if d_buf d \<noteq> NULL then c_free (d_buf d) s else Inr s) (\<lambda>s1.
       rbind (c_free (d_mtx d) s1) (\<lambda>s2. c_free (d_addr d) s2))"

definition Darray_clear_destroy :: "ptr darray \<Rightarrow> 's cmem_scheme \<Rightarrow> 's cmem_scheme res" where
  "Darray_clear_destroy d s = rbind (Darray_clear d s) (Darray_destroy d)"

definition Darray_push ::
  "'a darray \<Rightarrow> 'a option \<Rightarrow> 's cmem_scheme \<Rightarrow> (int \<times> 'a darray \<times> 's cmem_scheme) res" where
  "Darray_push d element s =
     (if element = None then Inl Assert_Failed
      else rbind (d_lock d) (\<lambda>d1.
        rbind (slot_write d1 (d_end d1) element) (\<lambda>d2.
          rbind (c_add (d_end d2) 1) (\<lambda>e.
            let d3 = d2\<lparr>d_end := e\<rparr> in
            rbind (if d_end d3 \<ge> d_max d3 then Darray_expand d3 s else Inr (0, d3, s))
              (\<lambda>(rc, d4, s1). rbind (d_unlock d4) (\<lambda>d5. Inr (rc, d5, s1)))))))"

definition Darray_pop ::
  "'a darray \<Rightarrow> 's cmem_scheme \<Rightarrow> ('a option \<times> 'a darray \<times> 's cmem_scheme) res" where
  "Darray_pop d s =
     (if d_end d = 0 then Inr (None, d, s)
      else rbind (d_lock d) (\<lambda>d1.
        rbind (Darray_remove d1 (d_end d1 - 1)) (\<lambda>(element, d2).
          let d3 = d2\<lparr>d_end := d_end d2 - 1\<rparr> in
          rbind (if d_end d3 > int_of_size_t (expandRate d3)
                 then if expandRate d3 = 0 then Inl Div_By_Zero
                   else if size_t_of_int (d_end d3) mod expandRate d3 \<noteq> 0
                   then rbind (Darray_contract d3 s) (\<lambda>(rc, d4, s1). Inr (d4, s1))
                   else Inr (d3, s)
                 else Inr (d3, s))
            (\<lambda>(d4, s1). rbind (d_unlock d4) (\<lambda>d5. Inr (element, d5, s1))))))"

definition Darray_copy ::
  "'a darray \<Rightarrow> 's cmem_scheme \<Rightarrow> ('a darray option \<times> 'a darray \<times> 's cmem_scheme) res" where
  "Darray_copy d s =
     rbind (Darray_create (elementSize d) (size_t_of_int (d_max d)) s) (\<lambda>(new, s1).
       case new of
         None \<Rightarrow> Inr (None, d, s1)
       | Some n \<Rightarrow>
           rbind (d_lock d) (\<lambda>d1.
             rbind (rfor [0..<nat (d_end d1)] (\<lambda>i n'.
                      if i < length (contents d1) \<and> i < length (contents n')
                      then Inr (n'\<lparr>contents := (contents n')[i := contents d1 ! i]\<rparr>)
                      else Inl Out_Of_Bounds)
                    (n\<lparr>d_end := d_end d1\<rparr>))
               (\<lambda>n2. rbind (d_unlock d1) (\<lambda>d2. Inr (Some n2, d2, s1)))))"

definition Darray_filter ::
  "'a darray \<Rightarrow> ('a \<Rightarrow> int) \<Rightarrow> 's cmem_scheme
    \<Rightarrow> ('a darray option \<times> 'a darray \<times> 's cmem_scheme) res" where
  "Darray_filter d cb s =
     rbind (d_lock d) (\<lambda>d1.
       rbind (Darray_create (elementSize d1) DARRAY_DEFAULT_SIZE s) (\<lambda>(new, s1).
         case new of
           None \<Rightarrow> rbind (d_unlock d1) (\<lambda>d2. Inr (None, d2, s1))
         | Some n \<Rightarrow>
             rbind (rfor [0..<nat (d_end d1)] (\<lambda>i (n', s').
                      rbind (slot_read d1 (int i)) (\<lambda>value.
                        case value of
                          None \<Rightarrow> Inr (n', s')
                        | Some v \<Rightarrow>
                            if cb v \<noteq> 0
                            then rbind (Darray_push n' (Some v) s') (\<lambda>(rc, n2, s2). Inr (n2, s2))
                            else Inr (n', s')))
                    (n, s1))
               (\<lambda>(n2, s2). rbind (d_unlock d1) (\<lambda>d2. Inr (Some n2, d2, s2)))))"


section \<open>Abstraction and invariant\<close>

text \<open>
  The array stands for the list of its first \<^verbatim>\<open>end\<close> pointers. Every function of the two files
  but a \<^verbatim>\<open>Darray_expand\<close> that runs out of memory keeps a free slot behind the last element,
  which is what makes the unchecked store of \<^verbatim>\<open>Darray_push\<close> safe.
\<close>

definition darray_list :: "'a darray \<Rightarrow> 'a option list" where
  "darray_list d = map slot_ptr (take (nat (d_end d)) (contents d))"

definition darray_ok :: "'a darray \<Rightarrow> bool" where
  "darray_ok d \<longleftrightarrow>
     0 \<le> d_end d \<and> d_end d < d_max d \<and> d_max d \<le> INT_MAX \<and>
     length (contents d) = nat (d_max d) \<and> Junk \<notin> set (contents d) \<and>
     expandRate d = DEFAULT_EXPAND_RATE \<and> \<not> d_locked d"

definition darray_inv :: "'a darray \<Rightarrow> 's cmem_scheme \<Rightarrow> bool" where
  "darray_inv d s \<longleftrightarrow> darray_ok d \<and> mem_ok s \<and> d_buf d \<in> live s"

text \<open>Room for \<open>n\<close> more pushes before \<^verbatim>\<open>max\<close> would pass \<^verbatim>\<open>INT_MAX\<close>.\<close>

definition room :: "'a darray \<Rightarrow> nat \<Rightarrow> bool" where
  "room d n \<longleftrightarrow> d_end d + int n + int DEFAULT_EXPAND_RATE \<le> INT_MAX"

text \<open>
  What the operations of one array may do to memory: they only replace its buffer by a fresh
  block, and leave the contents of every other block alone.
\<close>

definition darray_step ::
  "'a darray \<Rightarrow> 's cmem_scheme \<Rightarrow> 'a darray \<Rightarrow> 's cmem_scheme \<Rightarrow> bool" where
  "darray_step d s d' s' \<longleftrightarrow>
     fails s' = fails s \<and> cmem.more s' = cmem.more s \<and> calls s \<le> calls s' \<and>
     d_addr d' = d_addr d \<and> d_mtx d' = d_mtx d \<and> elementSize d' = elementSize d \<and>
     live s' - {d_buf d'} = live s - {d_buf d} \<and>
     (d_buf d' = d_buf d \<or> calls s < d_buf d')"

lemma darray_step_refl [simp]: "darray_step d s d s"
  by (simp add: darray_step_def)

lemma darray_step_trans:
  assumes a: "darray_step d s d' s'" and b: "darray_step d' s' d'' s''"
  shows "darray_step d s d'' s''"
proof -
  have "live s'' - {d_buf d''} = live s - {d_buf d}"
    using a b unfolding darray_step_def by (elim conjE) (rule trans)
  moreover have "d_buf d'' = d_buf d \<or> calls s < d_buf d''"
    using a b unfolding darray_step_def by (elim conjE) linarith
  moreover have "calls s \<le> calls s''"
    using a b unfolding darray_step_def by (elim conjE) linarith
  ultimately show ?thesis using a b unfolding darray_step_def by simp
qed

lemma darray_step_fails [frame_simps]: "darray_step d s d' s' \<Longrightarrow> fails s' = fails s"
  by (simp add: darray_step_def)

lemma darray_step_ample: "darray_step d s d' s' \<Longrightarrow> ample s \<Longrightarrow> ample s'"
  by (simp add: ample_def darray_step_def)

lemma darray_step_live:
  assumes "darray_step d s d' s'" and "mem_ok s" and "p \<in> live s" and "p \<noteq> d_buf d"
  shows "p \<in> live s'" and "p \<noteq> d_buf d'"
  using assms by (auto simp: darray_step_def mem_ok_def)

lemma darray_ok_end:
  "darray_ok d \<Longrightarrow> 0 \<le> d_end d" "darray_ok d \<Longrightarrow> d_end d < d_max d"
  by (simp_all add: darray_ok_def)

lemma length_darray_list [simp]:
  "darray_ok d \<Longrightarrow> length (darray_list d) = nat (d_end d)"
  unfolding darray_list_def darray_ok_def by (auto simp: min_def)

lemma darray_count_list: "darray_ok d \<Longrightarrow> Darray_count d = int (length (darray_list d))"
  by (simp add: Darray_count_def darray_ok_end)

lemma slot_not_Junk:
  assumes "darray_ok d" and "i < length (contents d)"
  shows "\<exists>v. contents d ! i = Val v"
  using assms by (metis darray_ok_def nth_mem slot.exhaust)

lemma d_lock_ok [run_simps]: "darray_ok d \<Longrightarrow> d_lock d = Inr (d\<lparr>d_locked := True\<rparr>)"
  by (simp add: d_lock_def darray_ok_def)

lemma d_unlock_locked [run_simps]: "d_locked d \<Longrightarrow> d_unlock d = Inr (d\<lparr>d_locked := False\<rparr>)"
  by (simp add: d_unlock_def)

lemma unlocked_id [simp]: "\<not> d_locked d \<Longrightarrow> d\<lparr>d_locked := False\<rparr> = d"
  by simp

text \<open>The lock flag is kept outermost, so that unlocking meets it.\<close>

lemma lock_last [simp]:
  "d\<lparr>d_locked := b, contents := cs\<rparr> = d\<lparr>contents := cs, d_locked := b\<rparr>"
  "d\<lparr>d_locked := b, d_end := e\<rparr> = d\<lparr>d_end := e, d_locked := b\<rparr>"
  "d\<lparr>d_locked := b, d_max := m\<rparr> = d\<lparr>d_max := m, d_locked := b\<rparr>"
  "d\<lparr>d_locked := b, d_buf := p\<rparr> = d\<lparr>d_buf := p, d_locked := b\<rparr>"
  by simp_all

section \<open>Correctness of the operations\<close>

lemma Darray_get_ok [run_simps]:
  assumes "darray_ok d" and "0 \<le> i" and "i < d_end d"
  shows "Darray_get d i = Inr (darray_list d ! nat i)"
proof -
  have i: "nat i < length (contents d)" using assms by (simp add: darray_ok_def)
  then obtain v where v: "contents d ! nat i = Val v" using assms(1) slot_not_Junk by blast
  have "darray_list d ! nat i = v"
    using assms i v by (simp add: darray_list_def)
  moreover have "i < d_max d" using assms darray_ok_end(2) [of d] by linarith
  ultimately show ?thesis using assms i v
    by (simp add: Darray_get_def slot_read_def run_simps)
qed

lemma Darray_set_ok [run_simps]:
  assumes "darray_ok d" and "0 \<le> i" and "i < d_end d"
  shows "Darray_set d i v = Inr (d\<lparr>contents := (contents d)[nat i := Val v]\<rparr>)"
proof -
  have "i < d_max d" using assms darray_ok_end(2) [of d] by linarith
  then show ?thesis using assms
    by (auto simp: Darray_set_def d_lock_def d_unlock_def slot_write_def darray_ok_def)
qed

lemma darray_ok_set [simp]:
  "darray_ok d \<Longrightarrow> darray_ok (d\<lparr>contents := (contents d)[i := Val v]\<rparr>)"
  by (auto simp: darray_ok_def dest: set_update_subset_insert [THEN subsetD])

lemma darray_inv_set [simp]:
  "darray_inv d s \<Longrightarrow> darray_inv (d\<lparr>contents := (contents d)[i := Val v]\<rparr>) s"
  by (simp add: darray_inv_def)

lemma darray_list_set [simp]:
  "darray_list (d\<lparr>contents := (contents d)[i := Val v]\<rparr>) = (darray_list d)[i := v]"
  by (simp add: darray_list_def take_update_swap map_update)

lemma darray_step_set [simp]:
  "darray_step d s (d\<lparr>contents := cs\<rparr>) s"
  by (simp add: darray_step_def)

lemma room_set [simp]: "room (d\<lparr>contents := cs\<rparr>) n = room d n"
  by (simp add: room_def)

lemma darray_list_bound:
  "darray_ok d \<Longrightarrow> take (nat (d_end d) + 1) (contents d)
     = take (nat (d_end d)) (contents d) @ [contents d ! nat (d_end d)]"
  by (simp add: darray_ok_def take_Suc_conv_app_nth)

lemma darray_list_push:
  assumes "darray_ok d"
  shows "map slot_ptr (take (nat (d_end d + 1)) ((contents d)[nat (d_end d) := Val x]))
    = darray_list d @ [x]"
proof -
  have "nat (d_end d + 1) = Suc (nat (d_end d))" using assms by (simp add: darray_ok_def nat_add_distrib)
  moreover have "nat (d_end d) < length (contents d)" using assms by (simp add: darray_ok_def)
  ultimately show ?thesis
    by (simp add: darray_list_def take_Suc_conv_app_nth)
qed

text \<open>The store and the increment that every push starts with.\<close>

lemma Darray_push_store:
  assumes "darray_ok d"
  shows "Darray_push d (Some x) s =
    (let d3 = d\<lparr>d_locked := True, contents := (contents d)[nat (d_end d) := Val (Some x)],
                d_end := d_end d + 1\<rparr>
     in rbind (if d_end d3 \<ge> d_max d3 then Darray_expand d3 s else Inr (0, d3, s))
          (\<lambda>(rc, d4, s1). rbind (d_unlock d4) (\<lambda>d5. Inr (rc, d5, s1))))"
  using assms
  by (simp add: Darray_push_def d_lock_def slot_write_def c_add_def darray_ok_def
      INT_MAX_def INT_MIN_def Let_def)

lemma Darray_push_no_expand:
  fixes d :: "'a darray" and x :: 'a
  assumes "darray_inv d s" and "d_end d + 1 < d_max d"
  defines "d' \<equiv> d\<lparr>contents := (contents d)[nat (d_end d) := Val (Some x)], d_end := d_end d + 1\<rparr>"
  shows "Darray_push d (Some x) s = Inr (0, d', s)" and "darray_inv d' s"
proof -
  show "Darray_push d (Some x) s = Inr (0, d', s)"
    using assms by (simp add: Darray_push_store darray_inv_def d_unlock_def darray_ok_def)
  have "Junk \<notin> set ((contents d)[nat (d_end d) := Val (Some x)])"
    using assms(1) by (auto simp: darray_inv_def darray_ok_def dest: set_update_subset_insert [THEN subsetD])
  then show "darray_inv d' s" using assms by (auto simp: darray_inv_def darray_ok_def)
qed

lemma Darray_push_expand:
  fixes d :: "'a darray" and x :: 'a and s :: "'s cmem_scheme"
  assumes "darray_inv d s" and "\<not> d_end d + 1 < d_max d" and "\<not> fails s (calls s)"
    and "room d 1"
  defines "s' \<equiv> s\<lparr>calls := Suc (calls s), live := insert (Suc (calls s)) (live s - {d_buf d})\<rparr>"
    and "d' \<equiv> d\<lparr>contents := (contents d)[nat (d_end d) := Val (Some x)]
                 @ replicate DEFAULT_EXPAND_RATE (Val None),
               d_end := d_end d + 1, d_max := d_end d + 1 + int DEFAULT_EXPAND_RATE,
               d_buf := Suc (calls s)\<rparr>"
  shows "Darray_push d (Some x) s = Inr (0, d', s')" and "darray_inv d' s'"
proof -
  let ?cs = "(contents d)[nat (d_end d) := Val (Some x)]"
  have ok: "darray_ok d" and mem: "mem_ok s" "d_buf d \<in> live s"
    using assms(1) by (auto simp: darray_inv_def)
  have e: "d_max d = d_end d + 1" using ok assms(2) by (auto simp: darray_ok_def)
  have le: "d_end d + 301 \<le> INT_MAX" using assms(4) by (simp add: room_def DEFAULT_EXPAND_RATE_def)
  have len: "length ?cs = nat (d_end d + 1)" using ok e by (simp add: darray_ok_def)
  have n: "(nat (d_end d + 1) + 300) mod 18446744073709551616 = nat (d_end d + 301)"
    using ok le by (simp add: darray_ok_def INT_MAX_def nat_add_distrib)
  have m: "int_of_size_t (nat (d_end d + 301)) = d_end d + 301"
    using ok le by (simp add: darray_ok_def)
  have k: "nat (d_end d + 301) - nat (d_end d + 1) = 300"
    using darray_ok_end(1) [OF ok] by arith
  let ?d3 = "d\<lparr>d_locked := True, contents := ?cs, d_end := d_end d + 1\<rparr>"
  have r: "Darray_resize ?d3 (nat (d_end d + 301)) s
      = Inr (0, ?d3\<lparr>d_max := d_end d + 301,
                   contents := ?cs @ replicate DEFAULT_EXPAND_RATE Junk,
                   d_buf := Suc (calls s)\<rparr>, s')"
    using mem assms(3) len m k ok
    by (simp add: Darray_resize_def c_realloc_def s'_def DEFAULT_EXPAND_RATE_def darray_ok_def)
  have "Darray_expand ?d3 s = Inr (0, d'\<lparr>d_locked := True\<rparr>, s')"
    using r n len ok e le
    by (simp add: Darray_expand_def slots_zero_def d'_def DEFAULT_EXPAND_RATE_def darray_ok_def
      Let_def INT_MAX_def)
  then show "Darray_push d (Some x) s = Inr (0, d', s')"
    using ok e by (simp add: Darray_push_store d_unlock_def d'_def darray_ok_def)
  have "Junk \<notin> set ?cs"
    using ok by (auto simp: darray_ok_def dest: set_update_subset_insert [THEN subsetD])
  then have "Junk \<notin> set (contents d')"
    by (auto simp: d'_def)
  moreover have "length (contents d') = nat (d_max d')"
    using len darray_ok_end(1) [OF ok] by (simp add: d'_def DEFAULT_EXPAND_RATE_def)
  ultimately show "darray_inv d' s'"
    using ok mem le by (auto simp: darray_inv_def darray_ok_def d'_def s'_def mem_ok_def
        DEFAULT_EXPAND_RATE_def)
qed

lemma Darray_push_ok:
  fixes d :: "'a darray" and s :: "'s cmem_scheme"
  assumes "darray_inv d s" and "ample s" and "room d (Suc n)"
  shows "\<exists>d' s'. Darray_push d (Some x) s = Inr (0, d', s') \<and> darray_inv d' s' \<and>
    darray_list d' = darray_list d @ [Some x] \<and> d_end d' = d_end d + 1 \<and>
    darray_step d s d' s' \<and> ample s' \<and> room d' n"
proof (cases "d_end d + 1 < d_max d")
  case True
  have ok: "darray_ok d" using assms(1) by (simp add: darray_inv_def)
  show ?thesis
    using Darray_push_no_expand [OF assms(1) True, of x] darray_list_push [OF ok, of "Some x"] assms(2,3)
    by (auto simp: darray_list_def darray_step_def room_def)
next
  case False
  have ok: "darray_ok d" and mem: "mem_ok s" "d_buf d \<in> live s"
    using assms(1) by (auto simp: darray_inv_def)
  have room: "room d 1" using assms(3) by (simp add: room_def)
  have len: "nat (d_end d + 1) \<le> length (contents d)"
    using ok by (auto simp: darray_ok_def)
  have fresh: "Suc (calls s) \<notin> live s" using mem(1) by (rule mem_ok_fresh)
  then have "live s - {d_buf d} = insert (Suc (calls s)) (live s - {d_buf d}) - {Suc (calls s)}"
    by blast
  then show ?thesis
    using Darray_push_expand [OF assms(1) False ample_now [OF assms(2)] room, of x]
      darray_list_push [OF ok, of "Some x"] assms(2,3) len
    by (auto simp: darray_list_def darray_step_def room_def ample_def)
qed

lemma darray_list_pop:
  assumes "darray_ok d" and "0 < d_end d"
  shows "map slot_ptr (take (nat (d_end d - 1)) ((contents d)[nat (d_end d - 1) := Val v]))
    = butlast (darray_list d)"
proof -
  have "nat (d_end d - 1) = nat (d_end d) - 1" by simp
  moreover have "nat (d_end d) \<le> length (contents d)" using assms by (auto simp: darray_ok_def)
  ultimately show ?thesis
    by (simp add: darray_list_def butlast_take map_butlast [symmetric])
qed

lemma Darray_remove_last:
  assumes "darray_ok d" and "0 < d_end d"
  shows "Darray_remove (d\<lparr>d_locked := b\<rparr>) (d_end d - 1) =
    Inr (last (darray_list d),
         d\<lparr>d_locked := b, contents := (contents d)[nat (d_end d - 1) := Val None]\<rparr>)"
proof -
  have i: "nat (d_end d - 1) < length (contents d)" using assms by (simp add: darray_ok_def)
  then obtain v where v: "contents d ! nat (d_end d - 1) = Val v"
    using assms(1) slot_not_Junk by blast
  have ne: "darray_list d \<noteq> []" using assms by (metis length_darray_list length_0_conv nat_0_iff not_le)
  have "nat (d_end d) - 1 = nat (d_end d - 1)" by simp
  then have "last (darray_list d) = darray_list d ! nat (d_end d - 1)"
    using ne assms by (simp add: last_conv_nth)
  also have "\<dots> = v"
    using assms i v by (simp add: darray_list_def)
  finally show ?thesis
    using assms i v by (simp add: Darray_remove_def slot_read_def slot_write_def)
qed

lemma Darray_contract_ok:
  assumes "darray_ok d" and "mem_ok s" and "d_buf d \<in> live s"
    and "int DEFAULT_EXPAND_RATE < d_end d"
  defines "d1 \<equiv> d\<lparr>d_locked := True\<rparr>"
  shows "\<exists>rc d' s'. Darray_contract d1 s = Inr (rc, d'\<lparr>d_locked := True\<rparr>, s') \<and> darray_inv d' s' \<and>
    darray_list d' = darray_list d \<and> d_end d' = d_end d \<and> darray_step d s d' s'"
proof -
  let ?n = "nat (d_end d + 1)"
  have e: "300 < d_end d" using assms(4) by (simp add: DEFAULT_EXPAND_RATE_def)
  have le: "d_end d + 1 \<le> INT_MAX" using assms(1) by (simp add: darray_ok_def)
  have c: "Darray_contract d1 s = Darray_resize d1 ?n s"
    using assms(1) e le
    by (simp add: Darray_contract_def d1_def darray_ok_def DEFAULT_EXPAND_RATE_def c_add_def
        INT_MAX_def INT_MIN_def Let_def)
  have "length (contents d) = nat (d_max d)" using assms(1) by (simp add: darray_ok_def)
  then have len: "?n \<le> length (contents d)" using darray_ok_end [OF assms(1)] by simp
  have fresh: "Suc (calls s) \<notin> live s" using assms(2) by (rule mem_ok_fresh)
  then have live: "live s - {d_buf d} = insert (Suc (calls s)) (live s - {d_buf d}) - {Suc (calls s)}"
    by blast
  show ?thesis
  proof (cases "fails s (calls s)")
    case True
    then have "Darray_contract d1 s = Inr (-1, d\<lparr>d_locked := True\<rparr>, s\<lparr>calls := Suc (calls s)\<rparr>)"
      using c assms e by (simp add: Darray_resize_def c_realloc_def d1_def)
    moreover have "darray_inv d (s\<lparr>calls := Suc (calls s)\<rparr>)"
      using assms by (auto simp: darray_inv_def mem_ok_def)
    ultimately show ?thesis by (auto simp: darray_step_def)
  next
    case False
    let ?d' = "d\<lparr>d_max := d_end d + 1, contents := take ?n (contents d), d_buf := Suc (calls s)\<rparr>"
    let ?s' = "s\<lparr>calls := Suc (calls s), live := insert (Suc (calls s)) (live s - {d_buf d})\<rparr>"
    have "Darray_contract d1 s = Inr (0, ?d'\<lparr>d_locked := True\<rparr>, ?s')"
      using c False assms e le len by (simp add: Darray_resize_def c_realloc_def d1_def)
    moreover have "darray_inv ?d' ?s'"
      using assms e le len
      by (auto simp: darray_inv_def darray_ok_def mem_ok_def dest: in_set_takeD)
    moreover have "min (nat (d_end d)) ?n = nat (d_end d)" by simp
    then have "darray_list ?d' = darray_list d" by (simp add: darray_list_def)
    moreover have "darray_step d s ?d' ?s'" using live by (simp add: darray_step_def)
    ultimately show ?thesis by (metis darray.select_convs(4) darray.surjective darray.update_convs(2,5,8))
  qed
qed

lemma Darray_pop_ok:
  fixes d :: "'a darray" and s :: "'s cmem_scheme"
  assumes inv: "darray_inv d s" and ne: "0 < d_end d"
  shows "\<exists>d' s'. Darray_pop d s = Inr (last (darray_list d), d', s') \<and> darray_inv d' s' \<and>
    darray_list d' = butlast (darray_list d) \<and> d_end d' = d_end d - 1 \<and> darray_step d s d' s'"
proof -
  let ?d2 = "d\<lparr>contents := (contents d)[nat (d_end d - 1) := Val None], d_end := d_end d - 1\<rparr>"
  let ?d3 = "?d2\<lparr>d_locked := True\<rparr>"
  have ok: "darray_ok d" and mem: "mem_ok s" "d_buf d \<in> live s"
    using inv by (auto simp: darray_inv_def)
  have "Junk \<notin> set ((contents d)[nat (d_end d - 1) := Val None])"
    using ok by (auto simp: darray_ok_def dest: set_update_subset_insert [THEN subsetD])
  then have ok2: "darray_ok ?d2" using ok ne by (auto simp: darray_ok_def)
  have inv2: "darray_inv ?d2 s" using ok2 mem by (simp add: darray_inv_def)
  have list2: "darray_list ?d2 = butlast (darray_list d)"
    using darray_list_pop [OF ok ne, of None] by (simp add: darray_list_def)
  have step2: "darray_step d s ?d2 s" by (simp add: darray_step_def)
  have rate: "expandRate d = DEFAULT_EXPAND_RATE" using ok by (simp add: darray_ok_def)
  have run: "Darray_pop d s =
    rbind (if d_end ?d3 > int_of_size_t (expandRate ?d3)
           then if size_t_of_int (d_end ?d3) mod expandRate ?d3 \<noteq> 0
             then rbind (Darray_contract ?d3 s) (\<lambda>(rc, d4, s1). Inr (d4, s1))
             else Inr (?d3, s)
           else Inr (?d3, s))
      (\<lambda>(d4, s1). rbind (d_unlock d4) (\<lambda>d5. Inr (last (darray_list d), d5, s1)))"
    using ne Darray_remove_last [OF ok ne, of True] rate
    by (simp add: Darray_pop_def d_lock_ok [OF ok] DEFAULT_EXPAND_RATE_def Let_def)
  show ?thesis
  proof (cases "d_end ?d3 > int_of_size_t (expandRate ?d3) \<and>
      size_t_of_int (d_end ?d3) mod expandRate ?d3 \<noteq> 0")
    case True
    have "int_of_size_t DEFAULT_EXPAND_RATE = int DEFAULT_EXPAND_RATE"
      by (simp add: DEFAULT_EXPAND_RATE_def INT_MAX_def)
    then have big: "int DEFAULT_EXPAND_RATE < d_end ?d2" using True rate by simp
    obtain rc d' s' where c: "Darray_contract ?d3 s = Inr (rc, d'\<lparr>d_locked := True\<rparr>, s')"
      and d': "darray_inv d' s'" "darray_list d' = darray_list ?d2" "d_end d' = d_end ?d2"
        "darray_step ?d2 s d' s'"
      using Darray_contract_ok [OF ok2 mem(1) _ big] mem(2) by auto
    have "\<not> d_locked d'" using d'(1) by (simp add: darray_inv_def darray_ok_def)
    then have "Darray_pop d s = Inr (last (darray_list d), d', s')"
      unfolding run if_P [OF True [THEN conjunct1]] if_P [OF True [THEN conjunct2]]
      by (simp add: c d_unlock_def)
    then show ?thesis
      using d' list2 darray_step_trans [OF step2 d'(4)] by auto
  next
    case False
    have "\<not> d_locked d" using ok by (simp add: darray_ok_def)
    then have "Darray_pop d s = Inr (last (darray_list d), ?d2, s)"
      unfolding run using False by (auto simp: d_unlock_def)
    then show ?thesis using inv2 list2 step2 by auto
  qed
qed

lemma Darray_pop_empty [run_simps]: "d_end d = 0 \<Longrightarrow> Darray_pop d s = Inr (None, d, s)"
  by (simp add: Darray_pop_def)

section \<open>Creating and destroying\<close>

definition darray_blocks :: "'a darray \<Rightarrow> ptr set" where
  "darray_blocks d = {d_addr d, d_buf d, d_mtx d}"

definition darray_owned :: "'a darray \<Rightarrow> 's cmem_scheme \<Rightarrow> bool" where
  "darray_owned d s \<longleftrightarrow> darray_inv d s \<and> darray_blocks d \<subseteq> live s \<and>
     distinct [d_addr d, d_buf d, d_mtx d]"

definition mem_grow :: "'s cmem_scheme \<Rightarrow> 's cmem_scheme \<Rightarrow> bool" where
  "mem_grow s s' \<longleftrightarrow> fails s' = fails s \<and> cmem.more s' = cmem.more s \<and> calls s \<le> calls s'"

lemma Darray_create_ok:
  fixes s :: "'s cmem_scheme"
  assumes "mem_ok s" and "ample s" and "0 < el" and "0 < n" and "int n \<le> INT_MAX"
  shows "\<exists>(d :: 'a darray) s'. Darray_create el n s = Inr (Some d, s') \<and> darray_owned d s' \<and>
    darray_list d = [] \<and> d_end d = 0 \<and> d_max d = int n \<and> elementSize d = el \<and>
    contents d = replicate n (Val None) \<and>
    live s' = live s \<union> darray_blocks d \<and> darray_blocks d \<inter> live s = {} \<and>
    mem_grow s s' \<and> ample s'"
proof -
  let ?c = "calls s"
  let ?s' = "s\<lparr>calls := ?c + 4, live := live s \<union> {?c + 1, ?c + 2, ?c + 3}\<rparr>"
  let ?d = "\<lparr>d_addr = ?c + 1, d_buf = ?c + 2, d_mtx = ?c + 3, d_end = 0, d_max = int n,
    elementSize = el, expandRate = DEFAULT_EXPAND_RATE, contents = replicate n (Val None),
    d_locked = False\<rparr> :: 'a darray"
  have nf: "\<not> fails s (?c + k)" for k using assms(2) by (simp add: ample_def)
  have "Darray_create el n s = Inr (Some ?d, ?s')"
    using assms nf [of 0] nf [of 1] nf [of 2] nf [of 3]
    by (simp add: Darray_create_def c_alloc_def c_mutex_init_def Let_def numeral_eq_Suc
        insert_commute)
  moreover have "p \<le> ?c" if "p \<in> live s" for p using assms(1) that by (simp add: mem_ok_def)
  then have "darray_blocks ?d \<inter> live s = {}" by (fastforce simp: darray_blocks_def)
  moreover have "darray_owned ?d ?s'"
    using assms by (force simp: darray_owned_def darray_inv_def darray_ok_def darray_blocks_def
        mem_ok_def)
  moreover have "ample ?s'" using assms(2) by (simp add: ample_def)
  ultimately show ?thesis
    by (auto simp: mem_grow_def darray_list_def darray_blocks_def)
qed

text \<open>When creation fails, the blocks taken so far are released, but one.\<close>

lemma Darray_create_fails:
  assumes "mem_ok s" and "Darray_create el n s = Inr (None, s')"
  shows "live s' = live s \<or>
    (fails s (calls s + 3) \<and> live s' = insert (calls s + 3) (live s))"
proof -
  have f: "Suc (calls s) \<notin> live s" "Suc (Suc (calls s)) \<notin> live s" "Suc (Suc (Suc (calls s))) \<notin> live s"
    using assms(1) by (auto simp: mem_ok_def)
  show ?thesis
    using assms(2) f
    by (simp add: Darray_create_def c_alloc_def c_mutex_init_def c_free_def Let_def ENOMEM_def
        numeral_eq_Suc insert_Diff_if split: if_splits) auto
qed

lemma Darray_destroy_ok:
  assumes "darray_owned d s"
  shows "Darray_destroy d s = Inr (s\<lparr>live := live s - darray_blocks d\<rparr>)"
proof -
  have "live s - {d_buf d} - {d_mtx d} - {d_addr d} = live s - darray_blocks d"
    by (auto simp: darray_blocks_def)
  moreover have "d_addr d \<noteq> 0" "d_buf d \<noteq> 0" "d_mtx d \<noteq> 0"
    using assms unfolding darray_owned_def darray_blocks_def darray_inv_def mem_ok_def
    by (metis insert_subset)+
  ultimately show ?thesis
    using assms
    by (simp add: Darray_destroy_def c_free_def darray_owned_def darray_inv_def
        mem_ok_def darray_blocks_def del: Diff_insert)
qed

text \<open>An array that is pushed to keeps owning its blocks, and nothing else is taken.\<close>

lemma darray_step_owned:
  assumes "darray_owned d s" and "darray_step d s d' s'" and "darray_inv d' s'"
  shows "darray_owned d' s'" and "live s' - darray_blocks d' = live s - darray_blocks d"
proof -
  have eq: "d_addr d' = d_addr d" "d_mtx d' = d_mtx d" and l: "live s' - {d_buf d'} = live s - {d_buf d}"
    and b: "d_buf d' = d_buf d \<or> calls s < d_buf d'"
    using assms(2) by (auto simp: darray_step_def)
  have o: "d_addr d \<in> live s" "d_mtx d \<in> live s" "distinct [d_addr d, d_buf d, d_mtx d]" "mem_ok s"
    using assms(1) by (auto simp: darray_owned_def darray_blocks_def darray_inv_def)
  then have "d_addr d \<le> calls s" "d_mtx d \<le> calls s" by (auto simp: mem_ok_def)
  then have ne: "d_addr d \<noteq> d_buf d'" "d_mtx d \<noteq> d_buf d'" using b o(3) by auto
  have "d_addr d \<in> live s - {d_buf d}" "d_mtx d \<in> live s - {d_buf d}" using o(1-3) by auto
  then have "d_addr d \<in> live s'" "d_mtx d \<in> live s'" using l by blast+
  then show "darray_owned d' s'" using assms(3) eq ne o(3)
    by (auto simp: darray_owned_def darray_blocks_def darray_inv_def)
  have "X - darray_blocks e = (X - {d_buf e}) - {d_addr e, d_mtx e}" for X and e :: "'a darray"
    by (auto simp: darray_blocks_def)
  then show "live s' - darray_blocks d' = live s - darray_blocks d"
    by (simp only: l eq)
qed

lemma darray_created_step:
  assumes "live s1 = live s \<union> darray_blocks d" and "darray_blocks d \<inter> live s = {}"
    and "mem_ok s" and "calls s \<le> calls s1" and "darray_owned d s1"
    and "darray_step d s1 d' s'" and "darray_inv d' s'"
  shows "live s' = live s \<union> darray_blocks d'" and "darray_blocks d' \<inter> live s = {}"
proof -
  have own: "darray_owned d' s'" "live s' - darray_blocks d' = live s1 - darray_blocks d"
    using darray_step_owned [OF assms(5-7)] by auto
  have "d_buf d' \<in> darray_blocks d \<or> calls s1 < d_buf d'" "d_addr d' = d_addr d" "d_mtx d' = d_mtx d"
    using assms(6) by (auto simp: darray_step_def darray_blocks_def)
  moreover from this(1) have "d_buf d' \<notin> live s"
    using assms(2,3,4) by (elim disjE) (auto simp: mem_ok_def)
  ultimately show d: "darray_blocks d' \<inter> live s = {}"
    using assms(2) by (simp add: darray_blocks_def)
  have "darray_blocks d' \<subseteq> live s'" using own(1) by (simp add: darray_owned_def)
  then show "live s' = live s \<union> darray_blocks d'" using own(2) assms(1,2) d by blast
qed

section \<open>Releasing the elements\<close>

text \<open>
  \<^verbatim>\<open>Darray_clear\<close> frees what every slot points at, those behind \<^verbatim>\<open>end\<close> included, and leaves the
  pointers where they are.
\<close>

definition slot_ptrs :: "ptr darray \<Rightarrow> ptr list" where
  "slot_ptrs d = [p. Val (Some p) \<leftarrow> contents d]"

fun free_all :: "ptr list \<Rightarrow> 's cmem_scheme \<Rightarrow> 's cmem_scheme res" where
  "free_all [] s = Inr s"
| "free_all (p # ps) s = rbind (c_free p s) (free_all ps)"

lemma free_all_append: "free_all (ps @ qs) s = rbind (free_all ps s) (free_all qs)"
proof (induction ps arbitrary: s)
  case Nil
  show ?case by simp
next
  case (Cons p ps)
  then show ?case by (cases "c_free p s") auto
qed

lemma free_all_distinct:
  "distinct ps \<Longrightarrow> set ps \<subseteq> live s \<Longrightarrow> 0 \<notin> set ps
    \<Longrightarrow> free_all ps s = Inr (s\<lparr>live := live s - set ps\<rparr>)"
proof (induction ps arbitrary: s)
  case Nil
  show ?case by simp
next
  case (Cons p ps)
  have "set ps \<subseteq> live s - {p}" using Cons.prems by auto
  then have "free_all ps (s\<lparr>live := live s - {p}\<rparr>) = Inr (s\<lparr>live := live s - {p} - set ps\<rparr>)"
    using Cons.prems Cons.IH [of "s\<lparr>live := live s - {p}\<rparr>"] by simp
  moreover have "live s - {p} - set ps = live s - set (p # ps)" by auto
  ultimately show ?case using Cons.prems by (simp add: c_free_def del: Diff_insert)
qed

lemma rfor_slots:
  fixes s :: "'s cmem_scheme"
  assumes "Junk \<notin> set (contents d)" and "n \<le> length (contents d)"
  shows "rfor [0..<n] (\<lambda>i s'. rbind (slot_read d (int i)) (\<lambda>el.
           case el of None \<Rightarrow> Inr s' | Some p \<Rightarrow> c_free p s')) s
    = free_all [p. Val (Some p) \<leftarrow> take n (contents d)] s"
  using assms(2)
proof (induction n)
  case 0
  show ?case by simp
next
  case (Suc n)
  then have n: "n < length (contents d)" by simp
  then obtain v where v: "contents d ! n = Val v"
    using assms(1) by (metis nth_mem slot.exhaust)
  have "rbind (slot_read d (int n)) (\<lambda>el. case el of None \<Rightarrow> Inr s' | Some p \<Rightarrow> c_free p s')
      = free_all [p. Val (Some p) \<leftarrow> [contents d ! n]] s'" for s' :: "'s cmem_scheme"
    using n v by (cases v; cases "c_free (the v) s'") (auto simp: slot_read_def)
  then show ?case
    using Suc n by (simp add: rfor_append take_Suc_conv_app_nth free_all_append)
qed

lemma Darray_clear_free_all:
  assumes "darray_ok d" and "0 < elementSize d"
  shows "Darray_clear d s = free_all (slot_ptrs d) s"
  using assms rfor_slots [of d "nat (d_max d)" s]
  by (simp add: Darray_clear_def darray_ok_def slot_ptrs_def)

section \<open>Collecting values one push at a time\<close>

text \<open>
  What the loops that fill a container rely on: a push succeeds while there is space and
  memory, keeps the invariant, adds its value, and only touches memory in allowed ways.
  \<open>add\<close> says what adding means for the container's abstraction.
\<close>

locale collector =
  fixes push :: "'d \<Rightarrow> 'a \<Rightarrow> 'm \<Rightarrow> ('d \<times> 'm) res"
    and inv :: "'d \<Rightarrow> 'm \<Rightarrow> bool"
    and abs :: "'d \<Rightarrow> 'c"
    and add :: "'c \<Rightarrow> 'a \<Rightarrow> 'c"
    and space :: "'d \<Rightarrow> nat \<Rightarrow> bool"
    and good :: "'m \<Rightarrow> bool"
    and step :: "'d \<Rightarrow> 'm \<Rightarrow> 'd \<Rightarrow> 'm \<Rightarrow> bool"
  assumes push_ok: "inv d m \<Longrightarrow> good m \<Longrightarrow> space d (Suc n) \<Longrightarrow>
      \<exists>d' m'. push d x m = Inr (d', m') \<and> inv d' m' \<and> abs d' = add (abs d) x \<and>
        step d m d' m' \<and> good m' \<and> space d' n"
    and step_refl: "step d m d m"
    and step_trans: "step d m d' m' \<Longrightarrow> step d' m' d'' m'' \<Longrightarrow> step d m d'' m''"
begin

lemma push_list:
  assumes "inv d m" and "good m" and "space d (length xs + k)"
  shows "\<exists>d' m'. rfor [0..<length xs] (\<lambda>i (d, m). push d (xs ! i) m) (d, m) = Inr (d', m') \<and>
    inv d' m' \<and> abs d' = foldl add (abs d) xs \<and> step d m d' m' \<and> good m' \<and> space d' k"
proof -
  define P where "P i s \<longleftrightarrow> (case s of (d', m') \<Rightarrow> inv d' m' \<and> abs d' = foldl add (abs d) (take i xs)
    \<and> step d m d' m' \<and> good m' \<and> space d' (length xs - i + k))" for i s
  have "\<exists>s'. rfor [0..<length xs] (\<lambda>i (d, m). push d (xs ! i) m) (d, m) = Inr s' \<and> P (length xs) s'"
  proof (rule rfor_invariant)
    show "P 0 (d, m)" using assms by (simp add: P_def step_refl)
    fix i s assume i: "i < length xs" and "P i s"
    then obtain d1 m1 where s: "s = (d1, m1)" and P: "P i (d1, m1)" by (cases s) auto
    have "length xs - i + k = Suc (length xs - Suc i + k)" using i by simp
    then obtain d2 m2 where p: "push d1 (xs ! i) m1 = Inr (d2, m2)" and 2: "inv d2 m2"
      "abs d2 = add (abs d1) (xs ! i)" "step d1 m1 d2 m2" "good m2" "space d2 (length xs - Suc i + k)"
      using push_ok [of d1 m1 "length xs - Suc i + k" "xs ! i"] P by (auto simp: P_def)
    have "step d m d2 m2" using P 2(3) step_trans by (fastforce simp: P_def)
    then have "P (Suc i) (d2, m2)"
      using P 2 i by (simp add: P_def take_Suc_conv_app_nth)
    then show "\<exists>s'. (\<lambda>i (d, m). push d (xs ! i) m) i s = Inr s' \<and> P (Suc i) s'"
      using p s by auto
  qed simp
  then show ?thesis by (auto simp: P_def)
qed

end

text \<open>A push whose return code the caller ignores, as all callers in the library do.\<close>

definition push_ignore ::
  "'a darray \<Rightarrow> 'a \<Rightarrow> 's cmem_scheme \<Rightarrow> ('a darray \<times> 's cmem_scheme) res" where
  "push_ignore d x s = rbind (Darray_push d (Some x) s) (\<lambda>(rc, d', s'). Inr (d', s'))"

interpretation dp: collector push_ignore darray_inv darray_list "\<lambda>xs x. xs @ [Some x]" room ample darray_step
proof unfold_locales
  fix d :: "'a darray" and m :: "'b cmem_scheme" and n x
  assume "darray_inv d m" "ample m" "room d (Suc n)"
  from Darray_push_ok [OF this, of x] show "\<exists>d' m'. push_ignore d x m = Inr (d', m') \<and> darray_inv d' m' \<and>
      darray_list d' = darray_list d @ [Some x] \<and> darray_step d m d' m' \<and> ample m' \<and> room d' n"
    by (fastforce simp: push_ignore_def)
qed (auto intro: darray_step_trans)

lemma foldl_snoc_Some: "foldl (\<lambda>xs x. xs @ [Some x]) ys xs = ys @ map Some xs"
  by (induction xs arbitrary: ys) auto

section \<open>Copies and filters\<close>

lemma Darray_copy_ok:
  fixes d :: "'a darray" and s :: "'s cmem_scheme"
  assumes inv: "darray_inv d s" and "ample s" and "0 < elementSize d"
  shows "\<exists>n s'. Darray_copy d s = Inr (Some n, d, s') \<and> darray_owned n s' \<and>
    darray_list n = darray_list d \<and> d_end n = d_end d \<and> elementSize n = elementSize d \<and>
    live s' = live s \<union> darray_blocks n \<and> darray_blocks n \<inter> live s = {} \<and> ample s'"
proof -
  have ok: "darray_ok d" and mem: "mem_ok s" using inv by (auto simp: darray_inv_def)
  have max: "0 < d_max d" "d_max d \<le> INT_MAX" "size_t_of_int (d_max d) = nat (d_max d)"
    using ok by (auto simp: darray_ok_def INT_MAX_def)
  obtain n :: "'a darray" and s' where
    c: "Darray_create (elementSize d) (nat (d_max d)) s = Inr (Some n, s')"
    and n: "darray_owned n s'" "d_max n = d_max d" "elementSize n = elementSize d"
      "contents n = replicate (nat (d_max d)) (Val None)"
      "live s' = live s \<union> darray_blocks n" "darray_blocks n \<inter> live s = {}" "ample s'"
    using Darray_create_ok [OF mem assms(2,3), of "nat (d_max d)"] max by auto
  let ?body = "\<lambda>i n'. if i < length (contents d) \<and> i < length (contents n')
      then Inr (n'\<lparr>contents := (contents n')[i := contents d ! i]\<rparr>) else Inl Out_Of_Bounds"
  have len: "length (contents d) = nat (d_max d)" "nat (d_end d) \<le> nat (d_max d)"
    using ok by (auto simp: darray_ok_def)
  have loop: "rfor [0..<k] ?body (n\<lparr>d_end := d_end d\<rparr>) =
      Inr (n\<lparr>d_end := d_end d, contents := take k (contents d) @ drop k (contents n)\<rparr>)"
    if "k \<le> nat (d_max d)" for k
    using that
  proof (induction k)
    case 0
    show ?case by simp
  next
    case (Suc k)
    then show ?case using len n(4)
      by (simp add: rfor_append list_update_append take_Suc_conv_app_nth Cons_nth_drop_Suc [symmetric]
        del: drop_replicate)
  qed
  let ?n = "n\<lparr>d_end := d_end d, contents := take (nat (d_end d)) (contents d) @ drop (nat (d_end d)) (contents n)\<rparr>"
  have "Darray_copy d s = Inr (Some ?n, d, s')"
    using c max ok len loop [of "nat (d_end d)"]
    by (simp add: Darray_copy_def d_lock_def d_unlock_def darray_ok_def cong: if_cong)
  moreover have "darray_owned ?n s'"
    using n ok len
    by (auto simp: darray_owned_def darray_inv_def darray_ok_def darray_blocks_def
        dest!: in_set_takeD)
  moreover have "darray_list ?n = darray_list d"
    using len by (simp add: darray_list_def)
  ultimately show ?thesis using n by (auto simp: darray_blocks_def)
qed

definition keeps :: "('a \<Rightarrow> int) \<Rightarrow> 'a option \<Rightarrow> bool" where
  "keeps cb p = (case p of None \<Rightarrow> False | Some v \<Rightarrow> cb v \<noteq> 0)"

lemma Darray_filter_ok:
  fixes d :: "'a darray" and s :: "'s cmem_scheme"
  assumes inv: "darray_inv d s" and am: "ample s" and "0 < elementSize d" and "room d 0"
  shows "\<exists>n s'. Darray_filter d cb s = Inr (Some n, d, s') \<and> darray_inv n s' \<and>
    darray_list n = filter (keeps cb) (darray_list d) \<and> ample s'"
proof -
  let ?d1 = "d\<lparr>d_locked := True\<rparr>"
  have ok: "darray_ok d" and mem: "mem_ok s" using inv by (auto simp: darray_inv_def)
  obtain n :: "'a darray" and s1 where
    c: "Darray_create (elementSize d) DARRAY_DEFAULT_SIZE s = Inr (Some n, s1)"
    and n: "darray_owned n s1" "darray_list n = []" "d_end n = 0" "ample s1"
    using Darray_create_ok [OF mem am assms(3), of DARRAY_DEFAULT_SIZE]
    by (auto simp: DARRAY_DEFAULT_SIZE_def INT_MAX_def)
  let ?xs = "darray_list d"
  let ?body = "\<lambda>i (n', s'). rbind (slot_read ?d1 (int i)) (\<lambda>value.
      case value of None \<Rightarrow> Inr (n', s')
      | Some v \<Rightarrow> if cb v \<noteq> 0
          then rbind (Darray_push n' (Some v) s') (\<lambda>(rc, n2, s2). Inr (n2, s2))
          else Inr (n', s'))"
  define P where "P i st \<longleftrightarrow> (case st of (n', s') \<Rightarrow> darray_inv n' s' \<and> ample s' \<and>
      darray_list n' = filter (keeps cb) (take i ?xs) \<and> room n' (length ?xs - i))"
    for i and st :: "'a darray \<times> 's cmem_scheme"
  have "\<exists>st. rfor [0..<length ?xs] ?body (n, s1) = Inr st \<and> P (length ?xs) st"
  proof (rule rfor_invariant)
    show "P 0 (n, s1)"
      using n assms(4) ok by (simp add: P_def darray_owned_def room_def darray_ok_end)
    fix i st assume i: "i < length ?xs" and "P i st"
    then obtain n' s' where st: "st = (n', s')" and P: "P i (n', s')" by (cases st) auto
    have "i < length (contents d)" using i ok by (auto simp: darray_ok_def)
    then obtain v where v: "contents d ! i = Val v" using ok slot_not_Junk by blast
    have xi: "?xs ! i = v" using i v ok by (simp add: darray_list_def)
    have rd: "slot_read ?d1 (int i) = Inr v"
      using v \<open>i < length (contents d)\<close> by (simp add: slot_read_def)
    have k: "length ?xs - i = Suc (length ?xs - Suc i)" using i by simp
    have tk: "take (Suc i) ?xs = take i ?xs @ [v]" using i xi by (simp add: take_Suc_conv_app_nth)
    show "\<exists>s'. ?body i st = Inr s' \<and> P (Suc i) s'"
    proof (cases "keeps cb v")
      case True
      then obtain w where w: "v = Some w" "cb w \<noteq> 0" by (auto simp: keeps_def split: option.splits)
      have "darray_inv n' s'" "ample s'" "room n' (Suc (length ?xs - Suc i))"
        using P k by (auto simp: P_def)
      from Darray_push_ok [OF this, of w] show ?thesis
        using w rd st tk True P by (auto simp: P_def)
    next
      case False
      then have "?body i st = Inr (n', s')"
        using rd st by (auto simp: keeps_def split: option.splits)
      moreover have "P (Suc i) (n', s')" using P False tk k by (auto simp: P_def room_def)
      ultimately show ?thesis by blast
    qed
  qed simp
  then obtain n2 s2 where "rfor [0..<length ?xs] ?body (n, s1) = Inr (n2, s2)" "P (length ?xs) (n2, s2)"
    by auto
  moreover have "\<not> d_locked d" using ok by (simp add: darray_ok_def)
  ultimately show ?thesis using c ok
    by (auto simp: Darray_filter_def d_lock_ok d_unlock_def P_def)
qed

section \<open>What goes wrong outside the contract\<close>

text \<open>A store at or past \<^verbatim>\<open>end\<close> moves \<^verbatim>\<open>end\<close> to the index, not behind it.\<close>

lemma Darray_set_past_end:
  assumes "darray_ok d" and "d_end d \<le> i" and "i < d_max d"
  shows "Darray_set d i v = Inr (d\<lparr>d_end := i, contents := (contents d)[nat i := Val v]\<rparr>)"
proof -
  have "0 \<le> i" "i < int (length (contents d))" using assms by (auto simp: darray_ok_def)
  moreover have "\<not> d_locked d" using assms by (simp add: darray_ok_def)
  moreover have "d\<lparr>d_end := i\<rparr> = d" if "i = d_end d" using that by simp
  ultimately show ?thesis
    using assms by (cases "i = d_end d") (simp_all add: Darray_set_def d_lock_def d_unlock_def slot_write_def)
qed

lemma Darray_push_expand_fails:
  assumes "darray_inv d s" and "d_end d + 1 = d_max d" and "fails s (calls s)"
  shows "Darray_push d (Some x) s =
    Inr (-1, d\<lparr>contents := (contents d)[nat (d_end d) := Val (Some x)], d_end := d_end d + 1\<rparr>,
         s\<lparr>calls := Suc (calls s)\<rparr>)"
proof -
  have ok: "darray_ok d" and mem: "mem_ok s" "d_buf d \<in> live s"
    using assms(1) by (auto simp: darray_inv_def)
  have "nat (d_max d) \<le> 2147483647" using ok by (auto simp: darray_ok_def INT_MAX_def)
  then have "(nat (d_max d) + 300) mod 18446744073709551616 = nat (d_max d) + 300" by simp
  moreover have "size_t_of_int (d_max d) = nat (d_max d)"
    using ok by (simp add: darray_ok_def INT_MAX_def)
  moreover have "\<not> d_locked d" "expandRate d = 300"
    using ok by (auto simp: darray_ok_def DEFAULT_EXPAND_RATE_def)
  ultimately show ?thesis
    using mem assms(2,3)
    by (simp add: Darray_push_store [OF ok] Darray_expand_def Darray_resize_def c_realloc_def
        d_unlock_def Let_def)
qed

section \<open>Properties\<close>

text \<open>A one-element array whose next push expands the buffer, for the witnesses.\<close>

definition ex_mem :: cmem where
  "ex_mem = \<lparr>calls = 4, fails = (\<lambda>_. False), live = {1, 2, 3}\<rparr>"

definition ex_darray :: "nat darray" where
  "ex_darray = \<lparr>d_addr = 1, d_buf = 2, d_mtx = 3, d_end = 1, d_max = 2, elementSize = 8,
     expandRate = 300, contents = [Val (Some 10), Val None], d_locked = False\<rparr>"

lemma ex_darray_inv: "darray_inv ex_darray ex_mem" "ample ex_mem" "room ex_darray 1" "mem_ok ex_mem"
  by (auto simp: darray_inv_def darray_ok_def ex_darray_def ex_mem_def mem_ok_def ample_def room_def
      DEFAULT_EXPAND_RATE_def INT_MAX_def)

lemma ex_darray_list: "darray_list ex_darray = [Some 10]"
  by (simp add: darray_list_def ex_darray_def)

text \<open>C7: \<^verbatim>\<open>Darray_push\<close> appends its element, whether or not the buffer has to be expanded, and
  keeps the array well-formed; it touches no memory but the array's own buffer.\<close>

theorem darray_push_appends:
  assumes "darray_inv d s" and "ample s" and "room d 1"
  shows "\<exists>d' s'. Darray_push d (Some x) s = Inr (0, d', s') \<and> darray_inv d' s' \<and>
    darray_list d' = darray_list d @ [Some x] \<and> darray_step d s d' s'"
  using Darray_push_ok [of d s 0 x] assms by auto

theorem darray_push_appends_witness:
  "\<exists>d' s'. Darray_push ex_darray (Some 20) ex_mem = Inr (0, d', s') \<and> darray_inv d' s' \<and>
    darray_list d' = [Some 10, Some 20] \<and> darray_step ex_darray ex_mem d' s'"
  using darray_push_appends [OF ex_darray_inv(1-3), of 20] by (simp add: ex_darray_list)

text \<open>A push followed by a pop gives the element back and leaves the same list, with any
  outcome of the \<^verbatim>\<open>realloc\<close> that the pop's contraction may do.\<close>

theorem darray_push_pop_roundtrip:
  assumes "darray_inv d s" and "ample s" and "room d 1"
  shows "\<exists>d1 s1 d2 s2. Darray_push d (Some x) s = Inr (0, d1, s1) \<and>
    Darray_pop d1 s1 = Inr (Some x, d2, s2) \<and> darray_list d2 = darray_list d \<and> darray_inv d2 s2"
proof -
  obtain d1 s1 where p: "Darray_push d (Some x) s = Inr (0, d1, s1)" "darray_inv d1 s1"
    "darray_list d1 = darray_list d @ [Some x]" "d_end d1 = d_end d + 1"
    using Darray_push_ok [of d s 0 x] assms by auto
  have "0 < d_end d1" using p(4) assms(1) darray_ok_end(1) [of d] by (simp add: darray_inv_def)
  from Darray_pop_ok [OF p(2) this] p show ?thesis by auto
qed

theorem darray_push_pop_roundtrip_witness:
  "\<exists>d1 s1 d2 s2. Darray_push ex_darray (Some 20) ex_mem = Inr (0, d1, s1) \<and>
    Darray_pop d1 s1 = Inr (Some 20, d2, s2) \<and> darray_list d2 = [Some 10] \<and> darray_inv d2 s2"
  using darray_push_pop_roundtrip [OF ex_darray_inv(1-3), of 20] by (simp add: ex_darray_list)

text \<open>Creating an array and destroying it gives back exactly the memory it took.\<close>

theorem darray_create_destroy:
  assumes "mem_ok s" and "ample s" and "0 < el" and "0 < n" and "int n \<le> INT_MAX"
  shows "\<exists>(d :: 'a darray) s1 s2. Darray_create el n s = Inr (Some d, s1) \<and> darray_owned d s1 \<and>
    darray_list d = [] \<and> Darray_destroy d s1 = Inr s2 \<and> live s2 = live s"
proof -
  obtain d :: "'a darray" and s1 where c: "Darray_create el n s = Inr (Some d, s1)"
    "darray_owned d s1" "darray_list d = []" "live s1 = live s \<union> darray_blocks d"
    "darray_blocks d \<inter> live s = {}"
    using Darray_create_ok [OF assms] by blast
  then have "live s1 - darray_blocks d = live s" by blast
  with c Darray_destroy_ok [OF c(2)] show ?thesis by auto
qed

theorem darray_create_destroy_witness:
  "\<exists>(d :: nat darray) s1 s2. Darray_create 8 5 ex_mem = Inr (Some d, s1) \<and> darray_owned d s1 \<and>
    darray_list d = [] \<and> Darray_destroy d s1 = Inr s2 \<and> live s2 = live ex_mem"
  using darray_create_destroy [OF ex_darray_inv(4,2), of 8 5] by (simp add: INT_MAX_def)

text \<open>When only \<^verbatim>\<open>pthread_mutex_init\<close> fails, \<^verbatim>\<open>Darray_create\<close> returns NULL and the mutex's
  block stays allocated: the error path frees \<^verbatim>\<open>array->mtx\<close>, which is still NULL.\<close>

theorem darray_create_leaks_mutex:
  assumes "mem_ok s" and "0 < el" and "0 < n"
    and "\<not> fails s (calls s)" and "\<not> fails s (calls s + 1)" and "\<not> fails s (calls s + 2)"
    and "fails s (calls s + 3)"
  shows "\<exists>s'. (Darray_create el n s :: ('a darray option \<times> 's cmem_scheme) res) = Inr (None, s') \<and>
    live s' = insert (calls s + 3) (live s) \<and> calls s + 3 \<notin> live s"
proof -
  have "Suc (calls s) \<notin> live s" "Suc (Suc (calls s)) \<notin> live s" "Suc (Suc (Suc (calls s))) \<notin> live s"
    using assms(1) by (auto simp: mem_ok_def)
  then show ?thesis using assms
    by (auto simp: Darray_create_def c_alloc_def c_mutex_init_def c_free_def Let_def ENOMEM_def
        numeral_eq_Suc)
qed

theorem darray_create_leaks_mutex_witness:
  "\<exists>s'. (Darray_create 8 5 \<lparr>calls = 0, fails = (\<lambda>k. k = 3), live = {}\<rparr> :: (nat darray option \<times> cmem) res)
      = Inr (None, s') \<and> live s' = {3} \<and> (3::nat) \<notin> {}"
  using darray_create_leaks_mutex [of "\<lparr>calls = 0, fails = (\<lambda>k. k = 3), live = {}\<rparr> :: cmem" 8 5]
  by (simp add: mem_ok_def)

text \<open>\<^verbatim>\<open>Darray_filter\<close> returns, in order, the non-NULL elements the callback accepts, in a new
  array, and leaves its argument as it was.\<close>

theorem darray_filter_correct:
  assumes "darray_inv d s" and "ample s" and "0 < elementSize d" and "room d 0"
  shows "\<exists>n s'. Darray_filter d cb s = Inr (Some n, d, s') \<and> darray_inv n s' \<and>
    darray_list n = filter (keeps cb) (darray_list d)"
  using Darray_filter_ok [OF assms, of cb] by blast

theorem darray_filter_correct_witness:
  "\<exists>n s'. Darray_filter ex_darray (\<lambda>v. if v = 10 then 1 else 0) ex_mem = Inr (Some n, ex_darray, s') \<and>
    darray_inv n s' \<and> darray_list n = [Some 10]"
proof -
  have "0 < elementSize ex_darray" "room ex_darray 0"
    by (simp_all add: ex_darray_def room_def DEFAULT_EXPAND_RATE_def INT_MAX_def)
  from darray_filter_correct [OF ex_darray_inv(1,2) this, of "\<lambda>v. if v = 10 then 1 else 0"]
  show ?thesis by (simp add: ex_darray_list keeps_def)
qed

text \<open>A \<^verbatim>\<open>Darray_set\<close> at or behind \<^verbatim>\<open>end\<close> (but inside the buffer) stores its element at an index
  that \<^verbatim>\<open>Darray_count\<close> does not cover, so the next push overwrites it.\<close>

theorem darray_set_past_end_lost:
  assumes "darray_ok d" and "d_end d \<le> i" and "i < d_max d"
  shows "\<exists>d'. Darray_set d i (Some v) = Inr d' \<and> Darray_count d' = i \<and>
    contents d' ! nat i = Val (Some v) \<and>
    (\<forall>w rc d'' s s'. Darray_push d' (Some w) s = Inr (rc, d'', s') \<and> i + 1 < d_max d \<longrightarrow>
       contents d'' ! nat i = Val (Some w))"
proof -
  let ?d' = "d\<lparr>d_end := i, contents := (contents d)[nat i := Val (Some v)]\<rparr>"
  have i: "0 \<le> i" "nat i < length (contents d)" using assms by (auto simp: darray_ok_def)
  have "\<not> d_locked d" using assms by (simp add: darray_ok_def)
  then have "contents d'' ! nat i = Val (Some w)"
    if "Darray_push ?d' (Some w) s = Inr (rc, d'', s')" "i + 1 < d_max d" for w rc d'' s s'
    using that i by (auto simp: Darray_push_def d_lock_def d_unlock_def slot_write_def c_add_def
        Let_def split: if_splits)
  with Darray_set_past_end [OF assms, of "Some v"] i show ?thesis
    by (auto simp: Darray_count_def)
qed

theorem darray_set_past_end_lost_witness:
  "\<exists>d'. Darray_set ex_darray 1 (Some 99) = Inr d' \<and> Darray_count d' = 1"
  using darray_set_past_end_lost [of ex_darray 1 99] ex_darray_inv(1)
  by (auto simp: darray_inv_def ex_darray_def)

text \<open>After a push whose \<^verbatim>\<open>realloc\<close> fails (it returns -1, with the element stored), the next push
  writes past the end of the buffer.\<close>

theorem darray_push_after_failed_expand:
  assumes "darray_inv d s" and "d_end d + 1 = d_max d" and "fails s (calls s)"
  shows "\<exists>d' s'. Darray_push d (Some x) s = Inr (-1, d', s') \<and>
    darray_list d' = darray_list d @ [Some x] \<and> Darray_push d' (Some y) s' = Inl Out_Of_Bounds"
proof -
  let ?d' = "d\<lparr>contents := (contents d)[nat (d_end d) := Val (Some x)], d_end := d_end d + 1\<rparr>"
  have ok: "darray_ok d" using assms(1) by (simp add: darray_inv_def)
  have "length (contents d) = nat (d_end d + 1)" "0 \<le> d_end d" "\<not> d_locked d"
    using ok assms(2) by (auto simp: darray_ok_def)
  then have "Darray_push ?d' (Some y) t = Inl Out_Of_Bounds" for t :: "'b cmem_scheme"
    by (simp add: Darray_push_def d_lock_def slot_write_def)
  with Darray_push_expand_fails [OF assms, of x] darray_list_push [OF ok, of "Some x"]
  show ?thesis by (simp add: darray_list_def)
qed

theorem darray_push_after_failed_expand_witness:
  "\<exists>d' s'. Darray_push ex_darray (Some 20) (ex_mem\<lparr>fails := (\<lambda>_. True)\<rparr>) = Inr (-1, d', s') \<and>
    darray_list d' = [Some 10, Some 20] \<and> Darray_push d' (Some 30) s' = Inl Out_Of_Bounds"
proof -
  have "darray_inv ex_darray (ex_mem\<lparr>fails := (\<lambda>_. True)\<rparr>)"
    using ex_darray_inv(1) by (simp add: darray_inv_def mem_ok_def ex_mem_def)
  from darray_push_after_failed_expand [OF this, of 20 30] show ?thesis
    by (simp add: ex_darray_list) (simp add: ex_darray_def)
qed

text \<open>\<^verbatim>\<open>Darray_clear\<close> leaves the freed pointers in the array: clearing a non-empty array a second
  time frees a block twice.\<close>

theorem darray_clear_twice:
  assumes "darray_ok d" and "0 < elementSize d" and "slot_ptrs d \<noteq> []"
    and "distinct (slot_ptrs d)" and "set (slot_ptrs d) \<subseteq> live s" and "0 \<notin> set (slot_ptrs d)"
  shows "\<exists>s'. Darray_clear d s = Inr s' \<and> live s' = live s - set (slot_ptrs d) \<and>
    Darray_clear d s' = Inl Bad_Free"
proof -
  have "free_all (slot_ptrs d) (s\<lparr>live := live s - set (slot_ptrs d)\<rparr>) = Inl Bad_Free"
    using assms(3,6) by (cases "slot_ptrs d") (auto simp: c_free_def)
  then show ?thesis
    using free_all_distinct [OF assms(4-6)] by (simp add: Darray_clear_free_all [OF assms(1,2)])
qed

theorem darray_clear_twice_witness:
  "\<exists>s'. Darray_clear ex_darray (ex_mem\<lparr>live := {1, 2, 3, 10}\<rparr>) = Inr s' \<and> live s' = {1, 2, 3} \<and>
    Darray_clear ex_darray s' = Inl Bad_Free"
proof -
  have p: "slot_ptrs ex_darray = [10]" by (simp add: slot_ptrs_def ex_darray_def)
  have "darray_ok ex_darray" using ex_darray_inv(1) by (simp add: darray_inv_def)
  moreover have "0 < elementSize ex_darray" by (simp add: ex_darray_def)
  ultimately show ?thesis
    using darray_clear_twice [of ex_darray "ex_mem\<lparr>live := {1, 2, 3, 10}\<rparr>"] by (auto simp: p)
qed

end
