(* ===== verification/Linked_List.thy ===== *)
theory Linked_List
  imports Darray
begin

text \<open>
  The doubly linked list of \<^verbatim>\<open>lib/ds/list.h\<close> and \<^verbatim>\<open>lib/ds/list.c\<close>.

  Nodes live in an explicit store \<open>lnodes\<close> from addresses to nodes, so that the pointer
  surgery of the code (and what happens to a dangling node) is modelled as it is written. The
  objects a value points to, which the deep copies duplicate, live in \<open>objs\<close>. The record
  \<open>clist\<close> is the struct; \<open>l_addr\<close> and \<open>l_mtx\<close> are the addresses of its two blocks.
  The traversals \<^verbatim>\<open>while (node != NULL)\<close> are \<^const>\<open>cwhile\<close> loops: nothing bounds them but the
  shape of the list.
\<close>

section \<open>Data\<close>

record 'a lnode =
  lnext :: ptr
  lprev :: ptr
  lval :: "'a option"

record ('a, 'o) lmem = cmem +
  lnodes :: "ptr \<Rightarrow> 'a lnode option"
  objs :: "ptr \<Rightarrow> 'o option"

record clist =
  l_addr :: ptr
  l_mtx :: ptr
  l_count :: int
  l_first :: ptr
  l_last :: ptr
  l_elementSize :: nat
  l_locked :: bool

definition DARRAY_INITIAL_MAX :: nat where "DARRAY_INITIAL_MAX = 300"

definition node_get :: "ptr \<Rightarrow> ('a, 'o, 's) lmem_scheme \<Rightarrow> 'a lnode res" where
  "node_get p s =
     (if p = NULL then Inl Null_Deref
      else case lnodes s p of None \<Rightarrow> Inl Bad_Access | Some n \<Rightarrow> Inr n)"

definition node_upd ::
  "ptr \<Rightarrow> ('a lnode \<Rightarrow> 'a lnode) \<Rightarrow> ('a, 'o, 's) lmem_scheme \<Rightarrow> ('a, 'o, 's) lmem_scheme res" where
  "node_upd p f s = rbind (node_get p s) (\<lambda>n. Inr (s\<lparr>lnodes := (lnodes s)(p := Some (f n))\<rparr>))"

text \<open>\<^verbatim>\<open>calloc(1, sizeof(ListNode))\<close> and \<^verbatim>\<open>free(node)\<close>\<close>

definition node_alloc :: "('a, 'o, 's) lmem_scheme \<Rightarrow> ptr \<times> ('a, 'o, 's) lmem_scheme" where
  "node_alloc s =
     (let (p, s1) = c_alloc s in
      if p = NULL then (p, s1)
      else (p, s1\<lparr>lnodes := (lnodes s1)(p := Some \<lparr>lnext = NULL, lprev = NULL, lval = None\<rparr>)\<rparr>))"

definition node_free :: "ptr \<Rightarrow> ('a, 'o, 's) lmem_scheme \<Rightarrow> ('a, 'o, 's) lmem_scheme res" where
  "node_free p s = rbind (c_free p s) (\<lambda>s1. Inr (s1\<lparr>lnodes := (lnodes s1)(p := None)\<rparr>))"

definition l_lock :: "clist \<Rightarrow> clist res" where
  "l_lock l = (if l_locked l then Inl Deadlock else Inr (l\<lparr>l_locked := True\<rparr>))"

definition l_unlock :: "clist \<Rightarrow> clist res" where
  "l_unlock l = (if l_locked l then Inr (l\<lparr>l_locked := False\<rparr>) else Inl Bad_Unlock)"

section \<open>Operations\<close>

definition List_count :: "clist \<Rightarrow> int" where
  "List_count l = l_count l"

text \<open>\<^verbatim>\<open>List_first\<close> and \<^verbatim>\<open>List_last\<close>\<close>

definition List_first :: "clist \<Rightarrow> ('a, 'o, 's) lmem_scheme \<Rightarrow> 'a option res" where
  "List_first l s =
     (if l_first l \<noteq> NULL then rbind (node_get (l_first l) s) (\<lambda>n. Inr (lval n)) else Inr None)"

definition List_last :: "clist \<Rightarrow> ('a, 'o, 's) lmem_scheme \<Rightarrow> 'a option res" where
  "List_last l s =
     (if l_last l \<noteq> NULL then rbind (node_get (l_last l) s) (\<lambda>n. Inr (lval n)) else Inr None)"

text \<open>A failing \<^verbatim>\<open>calloc\<close> of the mutex returns without freeing the struct.\<close>

definition List_create :: "nat \<Rightarrow> 's cmem_scheme \<Rightarrow> (clist option \<times> 's cmem_scheme) res" where
  "List_create elSize s =
     (if \<not> elSize > 0 then Inl Assert_Failed
      else let (list, s1) = c_alloc s in
        if list = NULL then Inr (None, s1)
        else let (mtx, s2) = c_alloc s1 in
          if mtx = NULL then Inr (None, s2)
          else let (rc, s3) = c_mutex_init s2 in
            if rc \<noteq> 0
            then rbind (c_free list s3) (\<lambda>s4. rbind (c_free mtx s4) (\<lambda>s5. Inr (None, s5)))
            else Inr (Some \<lparr>l_addr = list, l_mtx = mtx, l_count = 0, l_first = NULL, l_last = NULL,
                            l_elementSize = elSize, l_locked = False\<rparr>, s3))"

text \<open>
  \<^verbatim>\<open>List_remove\<close> unlinks a node, in four cases, frees it and returns its value. It takes no
  lock; it is called with the lock held.
\<close>

definition list_unlink ::
  "clist \<Rightarrow> ptr \<Rightarrow> ('a, 'o, 's) lmem_scheme \<Rightarrow> (clist \<times> ('a, 'o, 's) lmem_scheme) res" where
  "list_unlink l node s =
     (if node = l_first l \<and> node = l_last l then Inr (l\<lparr>l_first := NULL, l_last := NULL\<rparr>, s)
      else if node = l_first l then
        rbind (node_get node s) (\<lambda>n.
          let l1 = l\<lparr>l_first := lnext n\<rparr> in
          if l_first l1 = NULL then Inl Assert_Failed
          else rbind (node_upd (l_first l1) (\<lambda>m. m\<lparr>lprev := NULL\<rparr>) s) (\<lambda>s1. Inr (l1, s1)))
      else if node = l_last l then
        rbind (node_get node s) (\<lambda>n.
          let l1 = l\<lparr>l_last := lprev n\<rparr> in
          if l_last l1 = NULL then Inl Assert_Failed
          else rbind (node_upd (l_last l1) (\<lambda>m. m\<lparr>lnext := NULL\<rparr>) s) (\<lambda>s1. Inr (l1, s1)))
      else
        rbind (node_get node s) (\<lambda>n.
          let next = lnext n; prev = lprev n in
          rbind (node_upd next (\<lambda>m. m\<lparr>lprev := prev\<rparr>) s) (\<lambda>s1.
          rbind (node_upd prev (\<lambda>m. m\<lparr>lnext := next\<rparr>) s1) (\<lambda>s2. Inr (l, s2)))))"

definition List_remove ::
  "clist \<Rightarrow> ptr \<Rightarrow> ('a, 'o, 's) lmem_scheme
    \<Rightarrow> ('a option \<times> clist \<times> ('a, 'o, 's) lmem_scheme) res" where
  "List_remove l node s =
     (if node = NULL then Inl Assert_Failed
      else if \<not> (l_first l \<noteq> NULL \<and> l_last l \<noteq> NULL) then Inl Assert_Failed
      else rbind (list_unlink l node s) (\<lambda>(l1, s1).
        rbind (c_add (l_count l1) (-1)) (\<lambda>c.
        rbind (node_get node s1) (\<lambda>n.
        rbind (node_free node s1) (\<lambda>s2. Inr (lval n, l1\<lparr>l_count := c\<rparr>, s2))))))"

text \<open>The values are freed, so here they are addresses of blocks.\<close>

definition List_clear ::
  "clist \<Rightarrow> (ptr, 'o, 's) lmem_scheme \<Rightarrow> (clist \<times> (ptr, 'o, 's) lmem_scheme) res" where
  "List_clear l s =
     rbind (cwhile (\<lambda>st. fst st \<noteq> NULL)
              (\<lambda>(node, l, s).
                 rbind (node_get node s) (\<lambda>n.
                 rbind (List_remove l node s) (\<lambda>(value, l1, s1).
                 rbind (case value of None \<Rightarrow> Inr s1 | Some p \<Rightarrow> c_free p s1) (\<lambda>s2.
                   Inr (lnext n, l1, s2)))))
              (l_first l, l, s))
       (\<lambda>(node, l1, s1). Inr (l1, s1))"

definition List_destroy ::
  "clist \<Rightarrow> (ptr, 'o, 's) lmem_scheme \<Rightarrow> (ptr, 'o, 's) lmem_scheme res" where
  "List_destroy l s =
     rbind (List_clear l s) (\<lambda>(l1, s1).
     rbind (c_free (l_mtx l1) s1) (\<lambda>s2. c_free (l_addr l1) s2))"

text \<open>The part \<^verbatim>\<open>List_push\<close> and \<^verbatim>\<open>List_push_deep\<close> share: appending an allocated node.\<close>

definition list_append ::
  "clist \<Rightarrow> ptr \<Rightarrow> ('a, 'o, 's) lmem_scheme \<Rightarrow> (clist \<times> ('a, 'o, 's) lmem_scheme) res" where
  "list_append l node s =
     rbind (if l_last l = NULL then Inr (l\<lparr>l_first := node, l_last := node\<rparr>, s)
            else rbind (node_upd (l_last l) (\<lambda>m. m\<lparr>lnext := node\<rparr>) s) (\<lambda>s1.
                 rbind (node_upd node (\<lambda>m. m\<lparr>lprev := l_last l\<rparr>) s1) (\<lambda>s2.
                   Inr (l\<lparr>l_last := node\<rparr>, s2))))
       (\<lambda>(l1, s1). rbind (c_add (l_count l1) 1) (\<lambda>c. Inr (l1\<lparr>l_count := c\<rparr>, s1)))"

definition List_push ::
  "clist \<Rightarrow> 'a option \<Rightarrow> ('a, 'o, 's) lmem_scheme \<Rightarrow> (clist \<times> ('a, 'o, 's) lmem_scheme) res" where
  "List_push l value s =
     rbind (l_lock l) (\<lambda>l1.
     let (node, s1) = node_alloc s in
     if node = NULL then Inl Assert_Failed
     else rbind (node_upd node (\<lambda>m. m\<lparr>lval := value\<rparr>) s1) (\<lambda>s2.
          rbind (list_append l1 node s2) (\<lambda>(l2, s3).
          rbind (l_unlock l2) (\<lambda>l3. Inr (l3, s3)))))"

definition List_push_deep ::
  "clist \<Rightarrow> ptr \<Rightarrow> (ptr, 'o, 's) lmem_scheme \<Rightarrow> (clist \<times> (ptr, 'o, 's) lmem_scheme) res" where
  "List_push_deep l value s =
     rbind (l_lock l) (\<lambda>l1.
     let (node, s1) = node_alloc s in
     if node = NULL then Inl Assert_Failed
     else let (copy, s2) = c_alloc s1 in
       if copy = NULL then Inl Assert_Failed
       else rbind (node_upd node (\<lambda>m. m\<lparr>lval := Some copy\<rparr>) s2) (\<lambda>s3.
         if value = NULL then Inl Null_Deref
         else case objs s3 value of None \<Rightarrow> Inl Bad_Access
         | Some v \<Rightarrow>
             rbind (list_append l1 node (s3\<lparr>objs := (objs s3)(copy := Some v)\<rparr>)) (\<lambda>(l2, s4).
             rbind (l_unlock l2) (\<lambda>l3. Inr (l3, s4)))))"

definition List_pop ::
  "clist \<Rightarrow> ('a, 'o, 's) lmem_scheme \<Rightarrow> ('a option \<times> clist \<times> ('a, 'o, 's) lmem_scheme) res" where
  "List_pop l s =
     rbind (l_lock l) (\<lambda>l1.
     rbind (if l_last l1 \<noteq> NULL then List_remove l1 (l_last l1) s else Inr (None, l1, s))
       (\<lambda>(value, l2, s1). rbind (l_unlock l2) (\<lambda>l3. Inr (value, l3, s1))))"

definition List_pop_left ::
  "clist \<Rightarrow> ('a, 'o, 's) lmem_scheme \<Rightarrow> ('a option \<times> clist \<times> ('a, 'o, 's) lmem_scheme) res" where
  "List_pop_left l s =
     rbind (l_lock l) (\<lambda>l1.
     rbind (if l_first l1 \<noteq> NULL then List_remove l1 (l_first l1) s else Inr (None, l1, s))
       (\<lambda>(value, l2, s1). rbind (l_unlock l2) (\<lambda>l3. Inr (value, l3, s1))))"

text \<open>When \<^verbatim>\<open>List_create\<close> fails the copied list stays locked.\<close>

definition List_copy ::
  "clist \<Rightarrow> (ptr, 'o, 's) lmem_scheme
    \<Rightarrow> (clist option \<times> clist \<times> (ptr, 'o, 's) lmem_scheme) res" where
  "List_copy l s =
     rbind (l_lock l) (\<lambda>l1.
     rbind (List_create (l_elementSize l1) s) (\<lambda>(copy, s1).
       case copy of
         None \<Rightarrow> Inr (None, l1, s1)
       | Some c \<Rightarrow>
           rbind (cwhile (\<lambda>st. fst st \<noteq> NULL)
                    (\<lambda>(node, c, s).
                       rbind (node_get node s) (\<lambda>n.
                       rbind (List_push_deep c (case lval n of None \<Rightarrow> NULL | Some p \<Rightarrow> p) s)
                         (\<lambda>(c1, s1). Inr (lnext n, c1, s1))))
                    (l_first l1, c, s1))
             (\<lambda>(node, c1, s2). rbind (l_unlock l1) (\<lambda>l2. Inr (Some c1, l2, s2)))))"

text \<open>
  \<^verbatim>\<open>List_split\<close> cuts the list before index \<open>index\<close>. The early returns leave the list locked.
  The middle case walks from the second node.
\<close>

definition split_seek :: "ptr \<Rightarrow> int \<Rightarrow> ('a, 'o, 's) lmem_scheme \<Rightarrow> ptr res" where
  "split_seek node index s =
     rfor [1..<nat index] (\<lambda>i node.
       rbind (node_get node s) (\<lambda>n. if lnext n = NULL then Inl Assert_Failed else Inr (lnext n))) node"

definition list_cut_second ::
  "clist \<Rightarrow> clist \<Rightarrow> int \<Rightarrow> ('a, 'o, 's) lmem_scheme
    \<Rightarrow> (clist \<times> clist \<times> ('a, 'o, 's) lmem_scheme) res" where
  "list_cut_second l new index s =
     rbind (node_get (l_first l) s) (\<lambda>f.
     rbind (node_upd (lnext f) (\<lambda>m. m\<lparr>lprev := NULL\<rparr>) s) (\<lambda>s1.
     rbind (c_add (l_count l) (- index)) (\<lambda>c.
     rbind (node_upd (l_first l) (\<lambda>m. m\<lparr>lnext := NULL\<rparr>) s1) (\<lambda>s2.
       Inr (new\<lparr>l_first := lnext f, l_last := l_last l, l_count := c\<rparr>,
            l\<lparr>l_last := l_first l, l_count := index\<rparr>, s2)))))"

definition list_cut_last ::
  "clist \<Rightarrow> clist \<Rightarrow> int \<Rightarrow> ('a, 'o, 's) lmem_scheme
    \<Rightarrow> (clist \<times> clist \<times> ('a, 'o, 's) lmem_scheme) res" where
  "list_cut_last l new index s =
     rbind (node_get (l_last l) s) (\<lambda>n.
     rbind (node_upd (l_last l) (\<lambda>m. m\<lparr>lnext := NULL\<rparr>) s) (\<lambda>s1.
     rbind (node_upd (l_last l) (\<lambda>m. m\<lparr>lprev := NULL\<rparr>) s1) (\<lambda>s2.
     rbind (node_upd (lprev n) (\<lambda>m. m\<lparr>lnext := NULL\<rparr>) s2) (\<lambda>s3.
       Inr (new\<lparr>l_first := l_last l, l_last := l_last l, l_count := 1\<rparr>,
            l\<lparr>l_last := lprev n, l_count := index\<rparr>, s3)))))"

definition list_cut_middle ::
  "clist \<Rightarrow> clist \<Rightarrow> int \<Rightarrow> ('a, 'o, 's) lmem_scheme
    \<Rightarrow> (clist \<times> clist \<times> ('a, 'o, 's) lmem_scheme) res" where
  "list_cut_middle l new index s =
     rbind (node_get (l_first l) s) (\<lambda>f.
     rbind (split_seek (lnext f) index s) (\<lambda>node.
     rbind (c_add (l_count l) (- index)) (\<lambda>c.
     rbind (node_get node s) (\<lambda>n.
     rbind (node_upd (lprev n) (\<lambda>m. m\<lparr>lnext := NULL\<rparr>) s) (\<lambda>s1.
     rbind (node_upd node (\<lambda>m. m\<lparr>lprev := NULL\<rparr>) s1) (\<lambda>s2.
       Inr (new\<lparr>l_count := c, l_first := node, l_last := l_last l\<rparr>,
            l\<lparr>l_count := index, l_last := lprev n\<rparr>, s2)))))))"

definition List_split ::
  "clist \<Rightarrow> int \<Rightarrow> ('a, 'o, 's) lmem_scheme
    \<Rightarrow> (clist option \<times> clist \<times> ('a, 'o, 's) lmem_scheme) res" where
  "List_split l index s =
     (if \<not> index \<ge> 0 then Inl Assert_Failed
      else rbind (l_lock l) (\<lambda>l1.
        if index = 0 \<or> index \<ge> l_count l1 then Inr (None, l1, s)
        else rbind (List_create (l_elementSize l1) s) (\<lambda>(new, s1).
          case new of
            None \<Rightarrow> Inr (None, l1, s1)
          | Some new \<Rightarrow>
              rbind (if index = 1 then list_cut_second l1 new index s1
                     else if index = l_count l1 - 1 then list_cut_last l1 new index s1
                     else list_cut_middle l1 new index s1)
                (\<lambda>(new1, l2, s2). rbind (l_unlock l2) (\<lambda>l3. Inr (Some new1, l3, s2))))))"

text \<open>The right-hand struct and its mutex are freed; its nodes now belong to the left list.\<close>

definition List_join ::
  "clist \<Rightarrow> clist \<Rightarrow> ('a, 'o, 's) lmem_scheme \<Rightarrow> (clist \<times> ('a, 'o, 's) lmem_scheme) res" where
  "List_join left right s =
     (if l_addr left = l_addr right then Inr (left, s)
      else rbind (l_lock left) (\<lambda>left1.
        rbind (node_upd (l_first right) (\<lambda>m. m\<lparr>lprev := l_last left1\<rparr>) s) (\<lambda>s1.
        rbind (node_upd (l_last left1) (\<lambda>m. m\<lparr>lnext := l_first right\<rparr>) s1) (\<lambda>s2.
        rbind (c_add (l_count left1) (l_count right)) (\<lambda>c.
        let left2 = left1\<lparr>l_last := l_last right, l_count := c\<rparr> in
        rbind (c_free (l_mtx right) s2) (\<lambda>s3.
        rbind (c_free (l_addr right) s3) (\<lambda>s4.
        rbind (l_unlock left2) (\<lambda>left3. Inr (left3, s4)))))))))"

text \<open>The results of the pushes are ignored; a NULL value fails the assertion of \<^verbatim>\<open>Darray_push\<close>.\<close>

definition List_to_darray ::
  "clist \<Rightarrow> ('a, 'o, 's) lmem_scheme \<Rightarrow> ('a darray option \<times> ('a, 'o, 's) lmem_scheme) res" where
  "List_to_darray l s =
     rbind (Darray_create (l_elementSize l) DARRAY_INITIAL_MAX s) (\<lambda>(array, s1).
       case array of
         None \<Rightarrow> Inr (None, s1)
       | Some a \<Rightarrow>
           rbind (cwhile (\<lambda>st. fst st \<noteq> NULL)
                    (\<lambda>(node, a, s).
                       rbind (node_get node s) (\<lambda>n.
                       rbind (Darray_push a (lval n) s) (\<lambda>(rc, a1, s1). Inr (lnext n, a1, s1))))
                    (l_first l, a, s1))
             (\<lambda>(node, a1, s2). Inr (Some a1, s2)))"

section \<open>Doubly linked segments\<close>

text \<open>
  \<open>lseg N pv xs nx\<close>: in the store \<open>N\<close> the addresses of \<open>xs\<close> hold nodes with the values of
  \<open>xs\<close>, linked in this order both ways; the first one points back to \<open>pv\<close>, the last one on to
  \<open>nx\<close>.
\<close>

fun first_of :: "(ptr \<times> 'v) list \<Rightarrow> ptr \<Rightarrow> ptr" where
  "first_of [] nx = nx"
| "first_of ((p, v) # xs) nx = p"

fun last_of :: "ptr \<Rightarrow> (ptr \<times> 'v) list \<Rightarrow> ptr" where
  "last_of pv [] = pv"
| "last_of pv ((p, v) # xs) = last_of p xs"

fun lseg :: "(ptr \<Rightarrow> 'a lnode option) \<Rightarrow> ptr \<Rightarrow> (ptr \<times> 'a option) list \<Rightarrow> ptr \<Rightarrow> bool" where
  "lseg N pv [] nx \<longleftrightarrow> True"
| "lseg N pv ((p, v) # xs) nx \<longleftrightarrow>
     N p = Some \<lparr>lnext = first_of xs nx, lprev = pv, lval = v\<rparr> \<and> lseg N p xs nx"

abbreviation addrs :: "(ptr \<times> 'v) list \<Rightarrow> ptr set" where
  "addrs xs \<equiv> fst ` set xs"

lemma first_of_append [simp]: "first_of (xs @ ys) nx = first_of xs (first_of ys nx)"
  by (cases xs) auto

lemma last_of_append [simp]: "last_of pv (xs @ ys) = last_of (last_of pv xs) ys"
  by (induction pv xs rule: last_of.induct) auto

lemma first_of_in: "xs \<noteq> [] \<Longrightarrow> first_of xs nx \<in> addrs xs"
  by (cases xs) auto

lemma last_of_in: "xs \<noteq> [] \<Longrightarrow> last_of pv xs \<in> addrs xs"
  by (induction pv xs rule: last_of.induct) (auto split: if_splits, metis image_eqI last_of.simps(1))

lemma first_of_notin: "p \<notin> addrs xs \<Longrightarrow> first_of xs nx = p \<longleftrightarrow> xs = [] \<and> nx = p"
  by (metis first_of.simps(1) first_of_in)

lemma last_of_notin: "p \<notin> addrs xs \<Longrightarrow> last_of pv xs = p \<longleftrightarrow> xs = [] \<and> pv = p"
  by (metis last_of.simps(1) last_of_in)

lemma lseg_append:
  "lseg N pv (xs @ ys) nx \<longleftrightarrow> lseg N pv xs (first_of ys nx) \<and> lseg N (last_of pv xs) ys nx"
  by (induction N pv xs nx rule: lseg.induct) auto

lemma lseg_cong: "(\<And>p. p \<in> addrs xs \<Longrightarrow> N p = N' p) \<Longrightarrow> lseg N pv xs nx = lseg N' pv xs nx"
  by (induction N pv xs nx rule: lseg.induct) auto

lemma lseg_upd_other [simp]: "p \<notin> addrs xs \<Longrightarrow> lseg (N(p := m)) pv xs nx = lseg N pv xs nx"
  by (intro lseg_cong) auto

lemma lseg_node:
  "lseg N pv (xs @ (p, v) # ys) nx \<Longrightarrow>
    N p = Some \<lparr>lnext = first_of ys nx, lprev = last_of pv xs, lval = v\<rparr>"
  by (simp add: lseg_append)

text \<open>Redirecting the two ends of a segment.\<close>

lemma lseg_set_next:
  assumes "lseg (lnodes s) pv xs nx" and "distinct (map fst xs)" and "NULL \<notin> addrs xs" and "xs \<noteq> []"
  shows "\<exists>N. node_upd (last_of pv xs) (\<lambda>m. m\<lparr>lnext := nx'\<rparr>) s = Inr (s\<lparr>lnodes := N\<rparr>) \<and>
    lseg N pv xs nx' \<and> (\<forall>p. p \<noteq> last_of pv xs \<longrightarrow> N p = lnodes s p)"
proof -
  obtain ys q v where xs: "xs = ys @ [(q, v)]" using assms(4) by (metis rev_exhaust surj_pair)
  have "lnodes s q = Some \<lparr>lnext = nx, lprev = last_of pv ys, lval = v\<rparr>"
    using lseg_node [of "lnodes s" pv ys q v "[]" nx] assms(1) by (simp add: xs)
  then show ?thesis using assms
    by (intro exI [of _ "(lnodes s)(q := Some \<lparr>lnext = nx', lprev = last_of pv ys, lval = v\<rparr>)"])
      (auto simp: xs lseg_append node_upd_def node_get_def)
qed

lemma lseg_set_prev:
  assumes "lseg (lnodes s) pv xs nx" and "distinct (map fst xs)" and "NULL \<notin> addrs xs" and "xs \<noteq> []"
  shows "\<exists>N. node_upd (first_of xs nx) (\<lambda>m. m\<lparr>lprev := pv'\<rparr>) s = Inr (s\<lparr>lnodes := N\<rparr>) \<and>
    lseg N pv' xs nx \<and> (\<forall>p. p \<noteq> first_of xs nx \<longrightarrow> N p = lnodes s p)"
proof -
  obtain ys q v where xs: "xs = (q, v) # ys" using assms(4) by (cases xs) auto
  then show ?thesis using assms
    by (intro exI [of _ "(lnodes s)(q := Some \<lparr>lnext = first_of ys nx, lprev = pv', lval = v\<rparr>)"])
      (auto simp: node_upd_def node_get_def)
qed

section \<open>Abstraction and invariant\<close>

text \<open>
  \<open>list_shape l s xs\<close>: the struct \<open>l\<close> is the list of the nodes \<open>xs\<close> in memory \<open>s\<close>; it stands for
  the list of values \<^term>\<open>map snd xs\<close>. \<open>list_inv\<close> adds that nobody holds the mutex.
\<close>

definition list_shape :: "clist \<Rightarrow> ('a, 'o, 's) lmem_scheme \<Rightarrow> (ptr \<times> 'a option) list \<Rightarrow> bool" where
  "list_shape l s xs \<longleftrightarrow>
     lseg (lnodes s) NULL xs NULL \<and> distinct (map fst xs) \<and> NULL \<notin> addrs xs \<and>
     l_first l = first_of xs NULL \<and> l_last l = last_of NULL xs \<and>
     l_count l = int (length xs) \<and> int (length xs) \<le> INT_MAX \<and>
     addrs xs \<subseteq> live s \<and> mem_ok s"

definition list_inv :: "clist \<Rightarrow> ('a, 'o, 's) lmem_scheme \<Rightarrow> (ptr \<times> 'a option) list \<Rightarrow> bool" where
  "list_inv l s xs \<longleftrightarrow> list_shape l s xs \<and> \<not> l_locked l"

text \<open>What may change besides: nothing but the nodes of the list itself and fresh blocks.\<close>

definition list_frame ::
  "ptr set \<Rightarrow> ('a, 'o, 's) lmem_scheme \<Rightarrow> ('a, 'o, 's) lmem_scheme \<Rightarrow> bool" where
  "list_frame A s s' \<longleftrightarrow>
     fails s' = fails s \<and> calls s \<le> calls s' \<and>
     (\<forall>p. p \<notin> A \<longrightarrow> p \<in> live s \<longrightarrow> p \<in> live s' \<and> lnodes s' p = lnodes s p \<and> objs s' p = objs s p)"

lemma list_frame_ample: "list_frame A s s' \<Longrightarrow> ample s \<Longrightarrow> ample s'"
  by (simp add: list_frame_def ample_def)

lemma list_frame_shape:
  assumes "list_frame A s s'" and "list_shape l s ys" and "A \<inter> addrs ys = {}" and "mem_ok s'"
  shows "list_shape l s' ys"
proof -
  have k: "p \<in> live s'" "lnodes s p = lnodes s' p" if "p \<in> addrs ys" for p
  proof -
    have "p \<notin> A" "p \<in> live s" using that assms(2,3) by (auto simp only: list_shape_def disjoint_iff)
    then show "p \<in> live s'" "lnodes s p = lnodes s' p" using assms(1) by (auto simp only: list_frame_def)
  qed
  have "lseg (lnodes s) NULL ys NULL = lseg (lnodes s') NULL ys NULL"
    by (rule lseg_cong) (rule k(2))
  then show ?thesis using assms(2,4) k(1) by (auto simp: list_shape_def)
qed

lemma l_lock_ok [run_simps]: "list_inv l s xs \<Longrightarrow> l_lock l = Inr (l\<lparr>l_locked := True\<rparr>)"
  by (simp add: l_lock_def list_inv_def)

lemma l_unlock_ok [simp, run_simps]: "l_locked l \<Longrightarrow> l_unlock l = Inr (l\<lparr>l_locked := False\<rparr>)"
  by (simp add: l_unlock_def)

lemma list_shape_locked [simp]: "list_shape (l\<lparr>l_locked := b\<rparr>) s xs = list_shape l s xs"
  by (simp add: list_shape_def)

lemma list_shape_empty: "list_shape l s xs \<Longrightarrow> l_first l = NULL \<longleftrightarrow> xs = []"
    "list_shape l s xs \<Longrightarrow> l_last l = NULL \<longleftrightarrow> xs = []"
  by (auto simp: list_shape_def first_of_notin last_of_notin)

section \<open>Removing a node\<close>

lemma list_unlink_ok:
  assumes "list_shape l s (xs @ (p, v) # ys)"
  shows "\<exists>l' N. list_unlink l p s = Inr (l', s\<lparr>lnodes := N\<rparr>) \<and> lseg N NULL (xs @ ys) NULL \<and>
    l_first l' = first_of (xs @ ys) NULL \<and> l_last l' = last_of NULL (xs @ ys) \<and>
    l_count l' = l_count l \<and> l_locked l' = l_locked l \<and> l_addr l' = l_addr l \<and> l_mtx l' = l_mtx l \<and>
    l_elementSize l' = l_elementSize l \<and>
    (\<exists>m. N p = Some m \<and> lval m = v) \<and> (\<forall>q. q \<notin> addrs (xs @ ys) \<longrightarrow> N q = lnodes s q)"
proof -
  let ?N = "lnodes s"
  have seg: "lseg ?N NULL xs p" "lseg ?N p ys NULL"
    and p: "?N p = Some \<lparr>lnext = first_of ys NULL, lprev = last_of NULL xs, lval = v\<rparr>"
    and d: "distinct (map fst xs)" "distinct (map fst ys)" "p \<notin> addrs xs" "p \<notin> addrs ys"
      "addrs xs \<inter> addrs ys = {}" "NULL \<notin> addrs xs" "NULL \<notin> addrs ys" "p \<noteq> NULL"
    and l: "l_first l = first_of xs p" "l_last l = last_of p ys"
    using assms by (auto simp: list_shape_def lseg_append)
  have get: "node_get p s = Inr \<lparr>lnext = first_of ys NULL, lprev = last_of NULL xs, lval = v\<rparr>"
    using p d(8) by (simp add: node_get_def)
  have pf: "p = l_first l \<longleftrightarrow> xs = []" using l(1) first_of_notin [OF d(3), of p] by metis
  have pl: "p = l_last l \<longleftrightarrow> ys = []" using l(2) last_of_notin [OF d(4), of p] by metis
  show ?thesis
  proof (cases "xs = []")
    case xs: True
    show ?thesis
    proof (cases "ys = []")
      case True
      then show ?thesis using xs pf pl p by (intro exI) (auto simp: list_unlink_def)
    next
      case False
      then have ne: "first_of ys NULL \<noteq> NULL" using d(7) by (simp add: first_of_notin)
      obtain N where N: "node_upd (first_of ys NULL) (\<lambda>m. m\<lparr>lprev := NULL\<rparr>) s = Inr (s\<lparr>lnodes := N\<rparr>)"
        "lseg N NULL ys NULL" "\<forall>q. q \<noteq> first_of ys NULL \<longrightarrow> N q = ?N q"
        using lseg_set_prev [OF seg(2) d(2,7) False] by blast
      have "N p = ?N p" using N(3) d(4) first_of_in [OF False] by metis
      moreover have "last_of NULL ys = last_of p ys" using False by (cases ys) auto
      moreover have "\<forall>q. q \<notin> addrs ys \<longrightarrow> N q = ?N q" using N(3) first_of_in [OF False] by metis
      ultimately show ?thesis using N(1,2) xs False pf pl get ne l p
        by (intro exI [of _ "l\<lparr>l_first := first_of ys NULL\<rparr>"] exI [of _ N])
          (auto simp: list_unlink_def Let_def)
    qed
  next
    case xs: False
    have nx: "last_of NULL xs \<noteq> NULL" using d(6) xs by (simp add: last_of_notin)
    show ?thesis
    proof (cases "ys = []")
      case True
      obtain N where N: "node_upd (last_of NULL xs) (\<lambda>m. m\<lparr>lnext := NULL\<rparr>) s = Inr (s\<lparr>lnodes := N\<rparr>)"
        "lseg N NULL xs NULL" "\<forall>q. q \<noteq> last_of NULL xs \<longrightarrow> N q = ?N q"
        using lseg_set_next [OF seg(1) d(1,6) xs] by blast
      have "N p = ?N p" using N(3) d(3) last_of_in [OF xs] by metis
      moreover have "first_of xs NULL = first_of xs p" using xs by (cases xs) auto
      moreover have "\<forall>q. q \<notin> addrs xs \<longrightarrow> N q = ?N q" using N(3) last_of_in [OF xs] by metis
      ultimately show ?thesis using N(1,2) xs True pf pl get nx l p
        by (intro exI [of _ "l\<lparr>l_last := last_of NULL xs\<rparr>"] exI [of _ N])
          (auto simp: list_unlink_def Let_def)
    next
      case False
      obtain N1 where N1: "node_upd (first_of ys NULL) (\<lambda>m. m\<lparr>lprev := last_of NULL xs\<rparr>) s
          = Inr (s\<lparr>lnodes := N1\<rparr>)"
        "lseg N1 (last_of NULL xs) ys NULL" "\<forall>q. q \<noteq> first_of ys NULL \<longrightarrow> N1 q = ?N q"
        using lseg_set_prev [OF seg(2) d(2,7) False] by blast
      have fy: "first_of ys NULL \<in> addrs ys" by (rule first_of_in [OF False])
      have lx: "last_of NULL xs \<in> addrs xs" by (rule last_of_in [OF xs])
      have "lseg N1 NULL xs p = lseg ?N NULL xs p"
        by (rule lseg_cong) (metis N1(3) fy d(5) disjoint_iff)
      then obtain N2 where N2: "node_upd (last_of NULL xs) (\<lambda>m. m\<lparr>lnext := first_of ys NULL\<rparr>)
          (s\<lparr>lnodes := N1\<rparr>) = Inr (s\<lparr>lnodes := N2\<rparr>)"
        "lseg N2 NULL xs (first_of ys NULL)" "\<forall>q. q \<noteq> last_of NULL xs \<longrightarrow> N2 q = N1 q"
        using lseg_set_next [of "s\<lparr>lnodes := N1\<rparr>" NULL xs p "first_of ys NULL"] d(1,6) xs seg(1) by auto
      have "lseg N2 (last_of NULL xs) ys NULL"
        using lseg_cong [of ys N2 N1 "last_of NULL xs" NULL] N1(2) N2(3) lx d(5)
        by (metis disjoint_iff)
      moreover have "first_of xs (first_of ys NULL) = l_first l" using xs l(1) by (cases xs) auto
      moreover have "last_of (last_of NULL xs) ys = l_last l" using False l(2) by (cases ys) auto
      moreover have "N2 p = ?N p" using N1(3) N2(3) fy lx d(3,4) by metis
      moreover have "\<forall>q. q \<notin> addrs (xs @ ys) \<longrightarrow> N2 q = ?N q"
        using N1(3) N2(3) fy lx by (metis UnCI image_Un set_append)
      ultimately show ?thesis using N1(1) N2(1,2) xs False pf pl get p
        by (intro exI [of _ l] exI [of _ N2]) (auto simp: list_unlink_def Let_def lseg_append)
    qed
  qed
qed

lemma List_remove_ok:
  fixes s :: "('a, 'o, 's) lmem_scheme"
  assumes "list_shape l s (xs @ (p, v) # ys)"
  shows "\<exists>l' s'. List_remove l p s = Inr (v, l', s') \<and> list_shape l' s' (xs @ ys) \<and>
    l_locked l' = l_locked l \<and> l_addr l' = l_addr l \<and> l_mtx l' = l_mtx l \<and>
    l_elementSize l' = l_elementSize l \<and> live s' = live s - {p} \<and>
    list_frame (addrs (xs @ (p, v) # ys)) s s' \<and> objs s' = objs s \<and> calls s' = calls s"
proof -
  obtain l' N where u: "list_unlink l p s = Inr (l', s\<lparr>lnodes := N\<rparr>)" "lseg N NULL (xs @ ys) NULL"
    "l_first l' = first_of (xs @ ys) NULL" "l_last l' = last_of NULL (xs @ ys)"
    "l_count l' = l_count l" "l_locked l' = l_locked l" "l_addr l' = l_addr l" "l_mtx l' = l_mtx l"
    "l_elementSize l' = l_elementSize l"
    "\<exists>m. N p = Some m \<and> lval m = v" "\<forall>q. q \<notin> addrs (xs @ ys) \<longrightarrow> N q = lnodes s q"
    using list_unlink_ok [OF assms] by blast
  obtain m where m: "N p = Some m" "lval m = v" using u(10) by blast
  have sh: "distinct (map fst (xs @ (p, v) # ys))" "NULL \<notin> addrs (xs @ (p, v) # ys)"
    "l_count l = int (length (xs @ (p, v) # ys))" "int (length (xs @ (p, v) # ys)) \<le> INT_MAX"
    "addrs (xs @ (p, v) # ys) \<subseteq> live s" "mem_ok s"
    using assms by (auto simp: list_shape_def)
  have ne: "l_first l \<noteq> NULL" "l_last l \<noteq> NULL" using list_shape_empty [OF assms] by auto
  let ?s' = "s\<lparr>live := live s - {p}, lnodes := N(p := None)\<rparr>"
  have "p \<noteq> NULL" "p \<in> live s" "p \<notin> addrs (xs @ ys)" using sh by auto
  moreover from this have "List_remove l p s = Inr (v, l'\<lparr>l_count := l_count l - 1\<rparr>, ?s')"
    using ne u(1,5) m sh(3,4) by (simp add: List_remove_def c_add_ok INT_MIN_def node_get_def
        node_free_def c_free_def)
  moreover have "list_shape (l'\<lparr>l_count := l_count l - 1\<rparr>) ?s' (xs @ ys)"
    using u(2,3,4) sh \<open>p \<notin> addrs (xs @ ys)\<close>
    by (auto simp: list_shape_def mem_ok_def)
  moreover have "list_frame (addrs (xs @ (p, v) # ys)) s ?s'"
    using u(11) by (auto simp: list_frame_def)
  ultimately show ?thesis using u(6-9) by auto
qed

definition same_list :: "clist \<Rightarrow> clist \<Rightarrow> bool" where
  "same_list l l' \<longleftrightarrow> l_addr l' = l_addr l \<and> l_mtx l' = l_mtx l \<and> l_elementSize l' = l_elementSize l"

section \<open>Pushing and popping\<close>

lemma list_append_ok:
  assumes "list_shape l s xs" and "p \<notin> addrs xs" and "p \<noteq> NULL" and "p \<in> live s"
    and "lnodes s p = Some \<lparr>lnext = NULL, lprev = NULL, lval = v\<rparr>"
    and "int (length xs) + 1 \<le> INT_MAX"
  shows "\<exists>l' N. list_append l p s = Inr (l', s\<lparr>lnodes := N\<rparr>) \<and>
    list_shape l' (s\<lparr>lnodes := N\<rparr>) (xs @ [(p, v)]) \<and> same_list l l' \<and> l_locked l' = l_locked l \<and>
    (\<forall>q. q \<noteq> p \<longrightarrow> q \<notin> addrs xs \<longrightarrow> N q = lnodes s q)"
proof -
  have sh: "lseg (lnodes s) NULL xs NULL" "distinct (map fst xs)" "NULL \<notin> addrs xs"
    "l_first l = first_of xs NULL" "l_last l = last_of NULL xs" "l_count l = int (length xs)"
    "addrs xs \<subseteq> live s" "mem_ok s"
    using assms(1) by (auto simp: list_shape_def)
  have add: "c_add (l_count l) 1 = Inr (l_count l + 1)"
    using sh(6) assms(6) by (simp add: c_add_ok INT_MIN_def)
  show ?thesis
  proof (cases "xs = []")
    case True
    then show ?thesis using assms sh add
      by (intro exI [of _ "l\<lparr>l_first := p, l_last := p, l_count := l_count l + 1\<rparr>"]
          exI [of _ "lnodes s"]) (auto simp: list_append_def list_shape_def same_list_def)
  next
    case False
    have nz: "last_of NULL xs \<noteq> NULL" using sh(3) False by (simp add: last_of_notin)
    have lx: "last_of NULL xs \<in> addrs xs" by (rule last_of_in [OF False])
    obtain N where N: "node_upd (last_of NULL xs) (\<lambda>m. m\<lparr>lnext := p\<rparr>) s = Inr (s\<lparr>lnodes := N\<rparr>)"
      "lseg N NULL xs p" "\<forall>q. q \<noteq> last_of NULL xs \<longrightarrow> N q = lnodes s q"
      using lseg_set_next [OF sh(1-3) False] by blast
    have Np: "N p = Some \<lparr>lnext = NULL, lprev = NULL, lval = v\<rparr>" using N(3) lx assms(2,5) by metis
    let ?N = "N(p := Some \<lparr>lnext = NULL, lprev = last_of NULL xs, lval = v\<rparr>)"
    let ?l = "l\<lparr>l_last := p, l_count := l_count l + 1\<rparr>"
    have "list_append l p s = Inr (?l, s\<lparr>lnodes := ?N\<rparr>)"
      using N(1) Np assms(3) nz sh(5) add
      by (simp add: list_append_def node_upd_def [of p] node_get_def)
    moreover have "first_of xs NULL = first_of xs p" using False by (cases xs) auto
    then have "list_shape ?l (s\<lparr>lnodes := ?N\<rparr>) (xs @ [(p, v)])"
      using N(2) sh assms by (auto simp: list_shape_def lseg_append mem_ok_def)
    moreover have "\<forall>q. q \<noteq> p \<longrightarrow> q \<notin> addrs xs \<longrightarrow> ?N q = lnodes s q"
      using N(3) lx by (metis fun_upd_other)
    ultimately show ?thesis by (intro exI [of _ ?l] exI [of _ ?N]) (simp add: same_list_def)
  qed
qed

text \<open>A node that was just allocated, with its value.\<close>

abbreviation new_node_mem ::
  "('a, 'o, 's) lmem_scheme \<Rightarrow> 'a option \<Rightarrow> ('a, 'o, 's) lmem_scheme" where
  "new_node_mem s v \<equiv> s\<lparr>calls := Suc (calls s), live := insert (Suc (calls s)) (live s),
     lnodes := (lnodes s)(Suc (calls s) := Some \<lparr>lnext = NULL, lprev = NULL, lval = v\<rparr>)\<rparr>"

lemma node_alloc_ok:
  "\<not> fails s (calls s) \<Longrightarrow> node_alloc s = (Suc (calls s), new_node_mem s None)"
  by (simp add: node_alloc_def c_alloc_def)

lemma new_node_shape:
  assumes "list_shape l s xs"
  shows "list_shape l (new_node_mem s v) xs" "Suc (calls s) \<notin> addrs xs"
proof -
  have "Suc (calls s) \<notin> live s" using assms by (simp add: list_shape_def mem_ok_fresh)
  then show n: "Suc (calls s) \<notin> addrs xs" using assms by (auto simp only: list_shape_def)
  show "list_shape l (new_node_mem s v) xs"
    using assms n by (auto simp: list_shape_def mem_ok_def)
qed

lemma List_push_ok:
  fixes s :: "('a, 'o, 's) lmem_scheme"
  assumes "list_inv l s xs" and "\<not> fails s (calls s)" and "int (length xs) + 1 \<le> INT_MAX"
  shows "\<exists>l' s' p. List_push l v s = Inr (l', s') \<and> list_inv l' s' (xs @ [(p, v)]) \<and>
    same_list l l' \<and> p = Suc (calls s) \<and> live s' = insert p (live s) \<and> calls s' = Suc (calls s) \<and>
    list_frame (addrs xs) s s' \<and> objs s' = objs s"
proof -
  let ?p = "Suc (calls s)"
  let ?s1 = "new_node_mem s v"
  let ?l1 = "l\<lparr>l_locked := True\<rparr>"
  have sh: "list_shape l s xs" using assms(1) by (simp add: list_inv_def)
  have 1: "list_shape ?l1 ?s1 xs" "?p \<notin> addrs xs" using new_node_shape [OF sh] by auto
  obtain l2 N where a: "list_append ?l1 ?p ?s1 = Inr (l2, ?s1\<lparr>lnodes := N\<rparr>)"
    "list_shape l2 (?s1\<lparr>lnodes := N\<rparr>) (xs @ [(?p, v)])" "same_list ?l1 l2" "l_locked l2"
    "\<forall>q. q \<noteq> ?p \<longrightarrow> q \<notin> addrs xs \<longrightarrow> N q = lnodes s q"
    using list_append_ok [OF 1, of v] assms(3) by auto
  have "List_push l v s = Inr (l2\<lparr>l_locked := False\<rparr>, ?s1\<lparr>lnodes := N\<rparr>)"
    using a(1,4) assms(1,2) l_lock_ok [OF assms(1)]
    by (simp add: List_push_def node_alloc_ok node_upd_def node_get_def)
  moreover have "list_inv (l2\<lparr>l_locked := False\<rparr>) (?s1\<lparr>lnodes := N\<rparr>) (xs @ [(?p, v)])"
    using a(2) by (simp add: list_inv_def)
  moreover have "?p \<notin> live s" using sh by (simp add: list_shape_def mem_ok_fresh)
  then have "list_frame (addrs xs) s (?s1\<lparr>lnodes := N\<rparr>)"
    using a(5) by (simp add: list_frame_def) metis
  ultimately show ?thesis using a(3) by (auto simp: same_list_def)
qed

lemma List_pop_ok:
  fixes s :: "('a, 'o, 's) lmem_scheme"
  assumes "list_inv l s (xs @ [(p, v)])"
  shows "\<exists>l' s'. List_pop l s = Inr (v, l', s') \<and> list_inv l' s' xs \<and> same_list l l' \<and>
    live s' = live s - {p} \<and> list_frame (addrs (xs @ [(p, v)])) s s'"
proof -
  have sh: "list_shape (l\<lparr>l_locked := True\<rparr>) s (xs @ (p, v) # [])"
    using assms by (simp add: list_inv_def)
  then have "l_last l = p" "p \<noteq> NULL" by (auto simp: list_shape_def)
  with List_remove_ok [OF sh] l_lock_ok [OF assms] show ?thesis
    by (auto simp: List_pop_def list_inv_def same_list_def)
qed

lemma List_pop_left_ok:
  fixes s :: "('a, 'o, 's) lmem_scheme"
  assumes "list_inv l s ((p, v) # xs)"
  shows "\<exists>l' s'. List_pop_left l s = Inr (v, l', s') \<and> list_inv l' s' xs \<and> same_list l l' \<and>
    live s' = live s - {p} \<and> list_frame (addrs ((p, v) # xs)) s s'"
proof -
  have sh: "list_shape (l\<lparr>l_locked := True\<rparr>) s ([] @ (p, v) # xs)"
    using assms by (simp add: list_inv_def)
  then have "l_first l = p" "p \<noteq> NULL" by (auto simp: list_shape_def)
  with List_remove_ok [OF sh] l_lock_ok [OF assms] show ?thesis
    by (auto simp: List_pop_left_def list_inv_def same_list_def)
qed

lemma List_pop_empty:
  assumes "list_inv l s []"
  shows "List_pop l s = Inr (None, l, s)" "List_pop_left l s = Inr (None, l, s)"
  using assms l_lock_ok [OF assms]
  by (auto simp: List_pop_def List_pop_left_def list_inv_def list_shape_def)

section \<open>Clearing\<close>

text \<open>The blocks the values point to.\<close>

fun val_ptrs :: "(ptr \<times> ptr option) list \<Rightarrow> ptr list" where
  "val_ptrs [] = []"
| "val_ptrs ((p, None) # xs) = val_ptrs xs"
| "val_ptrs ((p, Some q) # xs) = q # val_ptrs xs"

text \<open>Every value is a block of its own, distinct from the nodes.\<close>

definition vals_owned :: "('a, 'o, 's) lmem_scheme \<Rightarrow> (ptr \<times> ptr option) list \<Rightarrow> bool" where
  "vals_owned s xs \<longleftrightarrow> distinct (val_ptrs xs) \<and> set (val_ptrs xs) \<subseteq> live s \<and>
     set (val_ptrs xs) \<inter> addrs xs = {}"

lemma lval_freed:
  assumes "list_shape l s xs" and "q \<notin> addrs xs"
  shows "list_shape l (s\<lparr>live := live s - {q}\<rparr>) xs"
  using assms by (auto simp: list_shape_def mem_ok_def)

lemma List_clear_ok:
  fixes s :: "(ptr, 'o, 's) lmem_scheme"
  assumes "list_shape l s xs" and "vals_owned s xs"
  shows "\<exists>l' s'. List_clear l s = Inr (l', s') \<and> list_shape l' s' [] \<and> same_list l l' \<and>
    l_locked l' = l_locked l \<and> live s' = live s - addrs xs - set (val_ptrs xs)"
proof -
  let ?body = "\<lambda>(node, l, s :: (ptr, 'o, 's) lmem_scheme).
    rbind (node_get node s) (\<lambda>n. rbind (List_remove l node s) (\<lambda>(value, l1, s1).
      rbind (case value of None \<Rightarrow> Inr s1 | Some p \<Rightarrow> c_free p s1) (\<lambda>s2. Inr (lnext n, l1, s2))))"
  have "\<exists>l' s'. cwhile (\<lambda>st. fst st \<noteq> NULL) ?body (first_of xs NULL, l, s) = Inr (NULL, l', s') \<and>
    list_shape l' s' [] \<and> same_list l l' \<and> l_locked l' = l_locked l \<and>
    live s' = live s - addrs xs - set (val_ptrs xs)"
    using assms
  proof (induction xs arbitrary: l s)
    case Nil
    then show ?case by (simp add: same_list_def)
  next
    case (Cons x xs)
    obtain p v where x: "x = (p, v)" by (cases x)
    have sh: "list_shape l s ([] @ (p, v) # xs)" using Cons.prems(1) x by simp
    have p: "p \<noteq> NULL" and get: "node_get p s = Inr \<lparr>lnext = first_of xs NULL, lprev = NULL, lval = v\<rparr>"
      using sh by (auto simp: list_shape_def node_get_def)
    obtain l1 s1 where r: "List_remove l p s = Inr (v, l1, s1)" "list_shape l1 s1 xs"
      "l_locked l1 = l_locked l" "same_list l l1" "live s1 = live s - {p}"
      using List_remove_ok [OF sh] by (auto simp: same_list_def)
    have "\<exists>s2. (case v of None \<Rightarrow> Inr s1 | Some q \<Rightarrow> c_free q s1) = Inr s2 \<and> list_shape l1 s2 xs \<and>
      vals_owned s2 xs \<and> live s2 = live s - {p} - set (val_ptrs [(p, v)])"
    proof (cases v)
      case None
      then show ?thesis using r Cons.prems(2) x by (auto simp: vals_owned_def)
    next
      case (Some q)
      have q: "q \<in> live s1" "q \<noteq> NULL" "q \<notin> addrs xs"
        using Some r(5) Cons.prems x by (auto simp: vals_owned_def list_shape_def mem_ok_def)
      then show ?thesis using Some r Cons.prems(2) x lval_freed [OF r(2) q(3)]
        by (auto simp: c_free_def vals_owned_def)
    qed
    then obtain s2 where s2: "(case v of None \<Rightarrow> Inr s1 | Some q \<Rightarrow> c_free q s1) = Inr s2"
      "list_shape l1 s2 xs" "vals_owned s2 xs" "live s2 = live s - {p} - set (val_ptrs [(p, v)])" by blast
    have "cwhile (\<lambda>st. fst st \<noteq> NULL) ?body (p, l, s)
        = cwhile (\<lambda>st. fst st \<noteq> NULL) ?body (first_of xs NULL, l1, s2)"
      using p by (subst cwhile_go) (simp_all add: get r(1) s2(1))
    moreover have "set (val_ptrs (x # xs)) = set (val_ptrs [(p, v)]) \<union> set (val_ptrs xs)"
      by (cases v) (auto simp: x)
    moreover obtain l' s' where "list_shape l' s' []" "same_list l1 l'" "l_locked l' = l_locked l1"
      "live s' = live s2 - addrs xs - set (val_ptrs xs)"
      "cwhile (\<lambda>st. fst st \<noteq> NULL) ?body (first_of xs NULL, l1, s2) = Inr (NULL, l', s')"
      using Cons.IH [OF s2(2,3)] by blast
    moreover have "addrs (x # xs) = insert p (addrs xs)" "first_of (x # xs) NULL = p" by (simp_all add: x)
    ultimately show ?case
      using r(3,4) s2(4) by (intro exI [of _ l'] exI [of _ s']) (auto simp: same_list_def)
  qed
  then show ?thesis using assms(1) by (auto simp: List_clear_def list_shape_def)
qed

lemma List_destroy_ok:
  fixes s :: "(ptr, 'o, 's) lmem_scheme"
  assumes "list_shape l s xs" and "vals_owned s xs" and "{l_addr l, l_mtx l} \<subseteq> live s"
    and "l_addr l \<noteq> l_mtx l" and "{l_addr l, l_mtx l} \<inter> (addrs xs \<union> set (val_ptrs xs)) = {}"
  shows "\<exists>s'. List_destroy l s = Inr s' \<and>
    live s' = live s - addrs xs - set (val_ptrs xs) - {l_addr l, l_mtx l}"
proof -
  obtain l1 s1 where c: "List_clear l s = Inr (l1, s1)" "same_list l l1"
    "live s1 = live s - addrs xs - set (val_ptrs xs)"
    using List_clear_ok [OF assms(1,2)] by blast
  have "l_addr l \<noteq> NULL" "l_mtx l \<noteq> NULL" using assms(1,3) by (auto simp: list_shape_def mem_ok_def)
  then show ?thesis using c assms(3-5)
    by (auto simp: List_destroy_def same_list_def c_free_def)
qed

section \<open>Creating and walking\<close>

lemma List_create_ok:
  fixes s :: "('a, 'o, 's) lmem_scheme"
  assumes "mem_ok s" and "ample s" and "0 < el"
  shows "\<exists>l s'. List_create el s = Inr (Some l, s') \<and> list_inv l s' [] \<and> l_elementSize l = el \<and>
    l_addr l \<noteq> l_mtx l \<and> {l_addr l, l_mtx l} \<inter> live s = {} \<and>
    live s' = live s \<union> {l_addr l, l_mtx l} \<and> list_frame {} s s' \<and> ample s' \<and>
    lnodes s' = lnodes s \<and> objs s' = objs s \<and> calls s < l_addr l \<and> calls s < l_mtx l"
proof -
  have nf: "\<not> fails s (calls s)" "\<not> fails s (Suc (calls s))" "\<not> fails s (Suc (Suc (calls s)))"
    using assms(2) by (auto simp: ample_def)
  have "Suc (calls s) \<notin> live s" "Suc (Suc (calls s)) \<notin> live s"
    using assms(1) by (auto simp: mem_ok_def)
  then show ?thesis using nf assms
    by (auto simp: List_create_def c_alloc_def c_mutex_init_def Let_def list_inv_def list_shape_def
        list_frame_def mem_ok_def ample_def INT_MAX_def)
qed

lemma lseg_nth:
  "lseg N pv xs nx \<Longrightarrow> i < length xs \<Longrightarrow>
    N (fst (xs ! i)) = Some \<lparr>lnext = first_of (drop (Suc i) xs) nx,
      lprev = last_of pv (take i xs), lval = snd (xs ! i)\<rparr>"
proof -
  assume a: "lseg N pv xs nx" "i < length xs"
  have "xs = take i xs @ (fst (xs ! i), snd (xs ! i)) # drop (Suc i) xs"
    using a(2) by (simp add: id_take_nth_drop)
  with a(1) lseg_node show ?thesis by metis
qed

text \<open>
  A traversal \<^verbatim>\<open>while (node != NULL) { ...; node = node->next; }\<close> visits the nodes in order,
  as long as its body steps to the next one.
\<close>

lemma cwhile_walk:
  assumes "NULL \<notin> addrs xs" and "I 0 a"
    and step: "\<And>i a. i < length xs \<Longrightarrow> I i a \<Longrightarrow>
      \<exists>a'. body (fst (xs ! i), a) = Inr (first_of (drop (Suc i) xs) NULL, a') \<and> I (Suc i) a'"
  shows "\<exists>a'. cwhile (\<lambda>st. fst st \<noteq> NULL) body (first_of xs NULL, a) = Inr (NULL, a') \<and> I (length xs) a'"
proof -
  have "\<exists>a'. cwhile (\<lambda>st. fst st \<noteq> NULL) body (first_of (drop i xs) NULL, a) = Inr (NULL, a') \<and>
    I (length xs) a'" if "I i a" "i \<le> length xs" for i a
    using that
  proof (induction "length xs - i" arbitrary: i a)
    case 0
    then show ?case by simp
  next
    case (Suc n)
    then have i: "i < length xs" by simp
    then obtain a' where a': "body (fst (xs ! i), a) = Inr (first_of (drop (Suc i) xs) NULL, a')"
      "I (Suc i) a'" using step Suc.prems(1) by blast
    have "drop i xs = (fst (xs ! i), snd (xs ! i)) # drop (Suc i) xs"
      using i by (simp add: Cons_nth_drop_Suc)
    then have f: "first_of (drop i xs) NULL = fst (xs ! i)" by (simp only: first_of.simps)
    have "fst (xs ! i) \<noteq> NULL" using assms(1) i by (metis image_eqI nth_mem)
    then have "cwhile (\<lambda>st. fst st \<noteq> NULL) body (fst (xs ! i), a)
        = cwhile (\<lambda>st. fst st \<noteq> NULL) body (first_of (drop (Suc i) xs) NULL, a')"
      using a'(1) by (subst cwhile_go) simp_all
    moreover have "n = length xs - Suc i" "Suc i \<le> length xs" using Suc.hyps(2) i by auto
    ultimately show ?case using Suc.hyps(1) [of "Suc i" a'] a'(2) f by simp
  qed
  from this [of 0 a] assms(2) show ?thesis by simp
qed

context collector
begin

lemma push_walk:
  assumes "inv d m" and "good m" and "space d (length xs + k)" and "NULL \<notin> addrs xs"
    and body: "\<And>i d' m'. i < length xs \<Longrightarrow> step d m d' m' \<Longrightarrow>
      body (fst (xs ! i), d', m') =
        rbind (push d' (ys ! i) m') (\<lambda>(d2, m2). Inr (first_of (drop (Suc i) xs) NULL, d2, m2))"
    and len: "length ys = length xs"
  shows "\<exists>d' m'. cwhile (\<lambda>st. fst st \<noteq> NULL) body (first_of xs NULL, d, m) = Inr (NULL, d', m') \<and>
    inv d' m' \<and> abs d' = foldl add (abs d) ys \<and> step d m d' m' \<and> good m' \<and> space d' k"
proof -
  define P where "P i s \<longleftrightarrow> (case s of (d', m') \<Rightarrow> inv d' m' \<and> abs d' = foldl add (abs d) (take i ys)
    \<and> step d m d' m' \<and> good m' \<and> space d' (length xs - i + k))" for i s
  have "\<exists>s'. cwhile (\<lambda>st. fst st \<noteq> NULL) body (first_of xs NULL, d, m) = Inr (NULL, s') \<and> P (length xs) s'"
  proof (rule cwhile_walk [OF assms(4)])
    show "P 0 (d, m)" using assms by (simp add: P_def step_refl)
    fix i s assume i: "i < length xs" and "P i s"
    then obtain d1 m1 where s: "s = (d1, m1)" and P: "P i (d1, m1)" by (cases s) auto
    have "length xs - i + k = Suc (length xs - Suc i + k)" using i by simp
    then obtain d2 m2 where p: "push d1 (ys ! i) m1 = Inr (d2, m2)" and 2: "inv d2 m2"
      "abs d2 = add (abs d1) (ys ! i)" "step d1 m1 d2 m2" "good m2" "space d2 (length xs - Suc i + k)"
      using push_ok [of d1 m1 "length xs - Suc i + k" "ys ! i"] P by (auto simp: P_def)
    have "step d m d2 m2" using P 2(3) step_trans by (fastforce simp: P_def)
    then have "P (Suc i) (d2, m2)"
      using P 2 i len by (simp add: P_def take_Suc_conv_app_nth)
    moreover have "body (fst (xs ! i), s) = Inr (first_of (drop (Suc i) xs) NULL, d2, m2)"
      using body [OF i, of d1 m1] P p by (simp add: s P_def)
    ultimately show "\<exists>a'. body (fst (xs ! i), s) = Inr (first_of (drop (Suc i) xs) NULL, a') \<and> P (Suc i) a'"
      by blast
  qed
  then show ?thesis using len by (auto simp: P_def)
qed

end

text \<open>The traversal of \<^verbatim>\<open>List_to_darray\<close>; NULL values fail an assertion, so there are none.\<close>

lemma walk_node:
  assumes "list_shape l s xs" and "i < length xs" and "lnodes s' = lnodes s"
  shows "node_get (fst (xs ! i)) s' = Inr \<lparr>lnext = first_of (drop (Suc i) xs) NULL,
      lprev = last_of NULL (take i xs), lval = snd (xs ! i)\<rparr>"
proof -
  have "fst (xs ! i) \<noteq> NULL" using assms by (metis image_eqI list_shape_def nth_mem)
  then show ?thesis using assms lseg_nth [of "lnodes s" NULL xs NULL i]
    by (simp add: node_get_def list_shape_def)
qed

lemma darray_step_nodes:
  fixes s s' :: "('a, 'o, 's) lmem_scheme"
  shows "darray_step d s d' s' \<Longrightarrow> lnodes s' = lnodes s \<and> objs s' = objs s"
  by (cases s; cases s') (simp add: darray_step_def)

lemma List_to_darray_ok:
  fixes s :: "('a, 'o, 's) lmem_scheme"
  assumes "list_shape l s xs" and "ample s" and "0 < l_elementSize l"
    and "\<And>x. x \<in> set xs \<Longrightarrow> snd x \<noteq> None" and "int (length xs) + int DEFAULT_EXPAND_RATE \<le> INT_MAX"
  shows "\<exists>d s'. List_to_darray l s = Inr (Some d, s') \<and> darray_owned d s' \<and>
    darray_list d = map snd xs \<and> lnodes s' = lnodes s \<and> objs s' = objs s \<and> ample s' \<and>
    live s' = live s \<union> darray_blocks d \<and> darray_blocks d \<inter> live s = {} \<and>
    elementSize d = l_elementSize l"
proof -
  let ?ys = "map (\<lambda>x. the (snd x)) xs"
  let ?body = "\<lambda>(node, a, s :: ('a, 'o, 's) lmem_scheme). rbind (node_get node s) (\<lambda>n.
    rbind (Darray_push a (lval n) s) (\<lambda>(rc, a1, s1). Inr (lnext n, a1, s1)))"
  have mem: "mem_ok s" and z: "NULL \<notin> addrs xs" using assms(1) by (auto simp: list_shape_def)
  obtain d0 :: "'a darray" and s1 where c: "Darray_create (l_elementSize l) DARRAY_INITIAL_MAX s = Inr (Some d0, s1)"
    "darray_owned d0 s1" "darray_list d0 = []" "d_end d0 = 0" "live s1 = live s \<union> darray_blocks d0"
    "darray_blocks d0 \<inter> live s = {}" "mem_grow s s1" "ample s1"
    "elementSize d0 = l_elementSize l"
    using Darray_create_ok [OF mem assms(2,3), of DARRAY_INITIAL_MAX]
    by (auto simp: DARRAY_INITIAL_MAX_def INT_MAX_def)
  have n1: "lnodes s1 = lnodes s" "objs s1 = objs s" "calls s \<le> calls s1"
    using c(7) by (cases s; cases s1; simp add: mem_grow_def)+
  have inv: "darray_inv d0 s1" "room d0 (length xs + 0)"
    using c(2,4) assms(5) by (simp_all add: darray_owned_def room_def)
  have body: "?body (fst (xs ! i), d', m') = rbind (push_ignore d' (?ys ! i) m')
      (\<lambda>(d2, m2). Inr (first_of (drop (Suc i) xs) NULL, d2, m2))"
    if "i < length xs" "darray_step d0 s1 d' m'" for i d' m'
  proof -
    have "snd (xs ! i) = Some (?ys ! i)" using that(1) assms(4) [of "xs ! i"] by auto
    moreover have "lnodes m' = lnodes s" using darray_step_nodes [OF that(2)] n1(1) by simp
    ultimately show ?thesis using walk_node [OF assms(1) that(1), of m']
      by (simp add: push_ignore_def rbind_assoc split_def)
  qed
  obtain d s' where w: "cwhile (\<lambda>st. fst st \<noteq> NULL) ?body (first_of xs NULL, d0, s1) = Inr (NULL, d, s')"
    "darray_inv d s'" "darray_list d = foldl (\<lambda>xs x. xs @ [Some x]) (darray_list d0) ?ys"
    "darray_step d0 s1 d s'" "ample s'"
    using dp.push_walk [OF inv(1) c(8) inv(2) z body length_map] by blast
  have "map Some ?ys = map snd xs" using assms(4) by (auto simp: list_eq_iff_nth_eq)
  then have "darray_list d = map snd xs" using w(3) c(3) by (simp add: foldl_snoc_Some comp_def)
  moreover have "List_to_darray l s = Inr (Some d, s')"
    using c(1) w(1) assms(1) by (simp add: List_to_darray_def list_shape_def)
  moreover have "elementSize d = l_elementSize l" using w(4) c(9) by (simp add: darray_step_def)
  ultimately show ?thesis
    using darray_step_nodes [OF w(4)] n1 w(5) darray_step_owned [OF c(2) w(4,2)]
      darray_created_step [OF c(5,6) mem n1(3) c(2) w(4,2)] by auto
qed

section \<open>Splitting and joining\<close>

text \<open>Cutting a segment: the node before and the node after the cut lose their link.\<close>

lemma lseg_cut:
  assumes "lseg N NULL (xs @ ys) NULL" and "distinct (map fst (xs @ ys))" and "xs \<noteq> []" and "ys \<noteq> []"
  shows "\<exists>m n. N (last_of NULL xs) = Some m \<and> N (first_of ys NULL) = Some n \<and>
    lnext m = first_of ys NULL \<and> lprev n = last_of NULL xs \<and> last_of NULL xs \<noteq> first_of ys NULL \<and>
    (let N' = N(last_of NULL xs := Some (m\<lparr>lnext := NULL\<rparr>), first_of ys NULL := Some (n\<lparr>lprev := NULL\<rparr>))
     in lseg N' NULL xs NULL \<and> lseg N' NULL ys NULL)"
proof -
  obtain xs' p v where xs: "xs = xs' @ [(p, v)]" using assms(3) by (metis rev_exhaust surj_pair)
  obtain q w ys' where ys: "ys = (q, w) # ys'" using assms(4) by (cases ys) auto
  have "p \<noteq> q" "p \<notin> addrs xs'" "q \<notin> addrs xs'" "p \<notin> addrs ys'" "q \<notin> addrs ys'"
    using assms(2) by (auto simp: xs ys)
  then show ?thesis using assms(1)
    by (auto simp: xs ys lseg_append Let_def fun_upd_twist)
qed

lemma lseg_last:
  "lseg N NULL xs NULL \<Longrightarrow> xs \<noteq> [] \<Longrightarrow>
    \<exists>m. N (last_of NULL xs) = Some m \<and> lnext m = NULL \<and> lprev m = last_of NULL (butlast xs)"
proof -
  assume a: "lseg N NULL xs NULL" "xs \<noteq> []"
  then obtain xs' p v where xs: "xs = xs' @ [(p, v)]" by (metis rev_exhaust surj_pair)
  show ?thesis using a(1) by (auto simp: xs lseg_append)
qed

definition cut_store ::
  "ptr \<Rightarrow> ptr \<Rightarrow> (ptr \<Rightarrow> 'a lnode option) \<Rightarrow> (ptr \<Rightarrow> 'a lnode option)" where
  "cut_store p q N =
     N(p := map_option (\<lambda>m. m\<lparr>lnext := NULL\<rparr>) (N p), q := map_option (\<lambda>m. m\<lparr>lprev := NULL\<rparr>) (N q))"

text \<open>The two lists of a cut, whichever of the three branches makes it.\<close>

lemma cut_shapes:
  assumes "list_shape l s (xs @ ys)" and "xs \<noteq> []" and "ys \<noteq> []"
    and "l_first l' = l_first l" and "l_last l' = last_of NULL xs" and "l_count l' = int (length xs)"
    and "l_first n = first_of ys NULL" and "l_last n = l_last l" and "l_count n = int (length ys)"
  shows "list_shape l' (s\<lparr>lnodes := cut_store (last_of NULL xs) (first_of ys NULL) (lnodes s)\<rparr>) xs"
    and "list_shape n (s\<lparr>lnodes := cut_store (last_of NULL xs) (first_of ys NULL) (lnodes s)\<rparr>) ys"
proof -
  let ?N = "cut_store (last_of NULL xs) (first_of ys NULL) (lnodes s)"
  have sh: "lseg (lnodes s) NULL (xs @ ys) NULL" "distinct (map fst (xs @ ys))"
    using assms(1) by (auto simp: list_shape_def)
  have cut: "lseg ?N NULL xs NULL" "lseg ?N NULL ys NULL"
    using lseg_cut [OF sh assms(2,3)] by (auto simp: cut_store_def Let_def)
  have f: "first_of (xs @ ys) NULL = first_of xs NULL" using assms(2) by (cases xs) auto
  have e: "last_of NULL (xs @ ys) = last_of NULL ys" using assms(3) by (cases ys) auto
  show "list_shape l' (s\<lparr>lnodes := ?N\<rparr>) xs" "list_shape n (s\<lparr>lnodes := ?N\<rparr>) ys"
    using assms(1) cut f e assms(4-9) by (auto simp: list_shape_def mem_ok_def)
qed

lemma split_seek_ok:
  assumes "list_shape l s xs" and "0 < k" and "k < length xs"
  shows "split_seek (fst (xs ! 1)) (int k) s = Inr (fst (xs ! k))"
proof -
  let ?body = "\<lambda>i :: nat. \<lambda>node. rbind (node_get node s) (\<lambda>n.
    if lnext n = NULL then Inl Assert_Failed else Inr (lnext n))"
  have "\<exists>p. rfor [1..<k] ?body (fst (xs ! 1)) = Inr p \<and> p = fst (xs ! k)"
  proof (rule rfor_invariant)
    show "fst (xs ! 1) = fst (xs ! 1)" by simp
    fix i p assume i: "1 \<le> i" "i < k" and p: "p = fst (xs ! i)"
    have "Suc i < length xs" using i assms(3) by simp
    then have f: "first_of (drop (Suc i) xs) NULL = fst (xs ! Suc i)"
      by (metis Cons_nth_drop_Suc first_of.simps(2) surjective_pairing)
    have "fst (xs ! Suc i) \<noteq> NULL"
      using assms(1) \<open>Suc i < length xs\<close> by (metis image_eqI list_shape_def nth_mem)
    then show "\<exists>s'. ?body i p = Inr s' \<and> s' = fst (xs ! Suc i)"
      using walk_node [OF assms(1), of i s] p f \<open>Suc i < length xs\<close> by simp
  qed (use assms(2) in simp)
  then show ?thesis by (simp add: split_seek_def)
qed

lemma nth_first_of: "k < length xs \<Longrightarrow> fst (xs ! k) = first_of (drop k xs) nx"
  by (metis Cons_nth_drop_Suc first_of.simps(2) surjective_pairing)

text \<open>Each branch, with the list of index \<open>length xs\<close> in front of the cut.\<close>

lemma cut_second:
  assumes "list_shape l s (xs @ ys)" and "ys \<noteq> []" and "length xs = 1"
  shows "list_cut_second l new (int (length xs)) s =
    Inr (new\<lparr>l_first := first_of ys NULL, l_last := l_last l, l_count := int (length ys)\<rparr>,
         l\<lparr>l_last := last_of NULL xs, l_count := int (length xs)\<rparr>,
         s\<lparr>lnodes := cut_store (last_of NULL xs) (first_of ys NULL) (lnodes s)\<rparr>)"
proof -
  obtain p v where xs: "xs = [(p, v)]" using assms(3) by (cases xs) auto
  have sh: "lseg (lnodes s) NULL (xs @ ys) NULL" "distinct (map fst (xs @ ys))"
    "l_first l = p" "p \<noteq> NULL" "first_of ys NULL \<noteq> NULL" "l_count l = 1 + int (length ys)"
    "int (length (xs @ ys)) \<le> INT_MAX"
    using assms(1,2) by (auto simp: list_shape_def xs first_of_notin)
  then show ?thesis
    using lseg_cut [OF sh(1,2) _ assms(2)]
    by (auto simp: list_cut_second_def node_get_def node_upd_def c_add_def xs cut_store_def
        INT_MIN_def fun_upd_twist)
qed

lemma cut_last:
  assumes "list_shape l s (xs @ ys)" and "xs \<noteq> []" and "length ys = 1"
  shows "list_cut_last l new (int (length xs)) s =
    Inr (new\<lparr>l_first := first_of ys NULL, l_last := l_last l, l_count := int (length ys)\<rparr>,
         l\<lparr>l_last := last_of NULL xs, l_count := int (length xs)\<rparr>,
         s\<lparr>lnodes := cut_store (last_of NULL xs) (first_of ys NULL) (lnodes s)\<rparr>)"
proof -
  obtain p v where ys: "ys = [(p, v)]" using assms(3) by (cases ys) auto
  have sh: "lseg (lnodes s) NULL (xs @ ys) NULL" "distinct (map fst (xs @ ys))"
    "l_last l = p" "p \<noteq> NULL" "last_of NULL xs \<noteq> NULL"
    using assms(1,2) by (auto simp: list_shape_def ys last_of_notin)
  have "lnodes s p = Some \<lparr>lnext = NULL, lprev = last_of NULL xs, lval = v\<rparr>"
    using sh(1) by (simp add: lseg_append ys)
  then show ?thesis
    using lseg_cut [OF sh(1,2) assms(2)] sh(3-5)
    by (auto simp: list_cut_last_def node_get_def node_upd_def ys cut_store_def fun_upd_twist)
qed

lemma cut_middle:
  assumes "list_shape l s (xs @ ys)" and "xs \<noteq> []" and "ys \<noteq> []"
  shows "list_cut_middle l new (int (length xs)) s =
    Inr (new\<lparr>l_first := first_of ys NULL, l_last := l_last l, l_count := int (length ys)\<rparr>,
         l\<lparr>l_last := last_of NULL xs, l_count := int (length xs)\<rparr>,
         s\<lparr>lnodes := cut_store (last_of NULL xs) (first_of ys NULL) (lnodes s)\<rparr>)"
proof -
  let ?zs = "xs @ ys"
  have len: "1 < length ?zs" "0 < length xs" "length xs < length ?zs"
    using assms(2,3) by (cases xs; cases ys; simp)+
  have "NULL \<notin> addrs xs" "NULL \<notin> addrs ys" using assms(1) by (auto simp: list_shape_def)
  then have nz: "last_of NULL xs \<noteq> NULL" "first_of ys NULL \<noteq> NULL"
    using assms(2,3) by (simp_all add: last_of_notin first_of_notin)
  have sh: "lseg (lnodes s) NULL ?zs NULL" "distinct (map fst ?zs)" "l_count l = int (length xs) + int (length ys)"
    "int (length ?zs) \<le> INT_MAX" "l_first l = fst (?zs ! 0)"
    using assms nth_first_of [of 0 ?zs NULL] len by (auto simp: list_shape_def)
  have "node_get (l_first l) s = Inr \<lparr>lnext = fst (?zs ! 1), lprev = NULL, lval = snd (?zs ! 0)\<rparr>"
    using walk_node [OF assms(1), of 0 s] len(1) sh(5) assms(2) nth_first_of [of 1 ?zs NULL]
    by (simp del: drop_append)
  moreover have "split_seek (fst (?zs ! 1)) (int (length xs)) s = Inr (first_of ys NULL)"
    using split_seek_ok [OF assms(1) len(2,3)] nth_first_of [of "length xs" ?zs NULL] len(3) by simp
  ultimately show ?thesis
    using lseg_cut [OF sh(1,2) assms(2,3)] sh(3,4) nz
    by (auto simp: list_cut_middle_def c_add_def node_get_def node_upd_def cut_store_def INT_MIN_def)
qed

lemma List_split_ok:
  fixes s :: "('a, 'o, 's) lmem_scheme"
  assumes "list_inv l s (xs @ ys)" and "ample s" and "xs \<noteq> []" and "ys \<noteq> []" and "0 < l_elementSize l"
  shows "\<exists>n l' s'. List_split l (int (length xs)) s = Inr (Some n, l', s') \<and>
    list_inv l' s' xs \<and> list_inv n s' ys \<and> same_list l l' \<and> l_elementSize n = l_elementSize l \<and>
    {l_addr n, l_mtx n} \<inter> live s = {} \<and> live s' = live s \<union> {l_addr n, l_mtx n} \<and>
    l_addr n \<noteq> l_mtx n \<and> ample s' \<and> objs s' = objs s"
proof -
  let ?l = "l\<lparr>l_locked := True\<rparr>"
  have mem: "mem_ok s" using assms(1) by (simp add: list_inv_def list_shape_def)
  obtain n s1 where c: "List_create (l_elementSize l) s = Inr (Some n, s1)" "list_inv n s1 []"
    "l_elementSize n = l_elementSize l" "l_addr n \<noteq> l_mtx n" "{l_addr n, l_mtx n} \<inter> live s = {}"
    "live s1 = live s \<union> {l_addr n, l_mtx n}" "list_frame {} s s1" "ample s1" "objs s1 = objs s"
    using List_create_ok [OF mem assms(2,5)] by blast
  have sh: "list_shape ?l s1 (xs @ ys)"
    using list_frame_shape [OF c(7), of ?l "xs @ ys"] assms(1) c(2)
    by (simp add: list_inv_def list_shape_def)
  let ?s = "s1\<lparr>lnodes := cut_store (last_of NULL xs) (first_of ys NULL) (lnodes s1)\<rparr>"
  let ?n = "n\<lparr>l_first := first_of ys NULL, l_last := l_last l, l_count := int (length ys)\<rparr>"
  let ?l' = "?l\<lparr>l_last := last_of NULL xs, l_count := int (length xs)\<rparr>"
  have cut: "(if int (length xs) = 1 then list_cut_second ?l n (int (length xs)) s1
      else if int (length xs) = l_count ?l - 1 then list_cut_last ?l n (int (length xs)) s1
      else list_cut_middle ?l n (int (length xs)) s1) = Inr (?n, ?l', ?s)"
  proof -
    have "l_count ?l = int (length xs) + int (length ys)" using sh by (simp add: list_shape_def)
    then show ?thesis
      using cut_second [OF sh assms(4)] cut_last [OF sh assms(3)] cut_middle [OF sh assms(3,4)] by auto
  qed
  have shapes: "list_shape ?l' ?s xs" "list_shape ?n ?s ys"
    using cut_shapes [OF sh assms(3,4), of ?l' ?n] by simp_all
  have "l_count l = int (length xs) + int (length ys)" "0 < length xs" "0 < length ys"
    using assms(1,3,4) by (auto simp: list_inv_def list_shape_def)
  then have "List_split l (int (length xs)) s = Inr (Some ?n, ?l'\<lparr>l_locked := False\<rparr>, ?s)"
    using l_lock_ok [OF assms(1)] c(1) cut by (simp add: List_split_def)
  moreover have "list_inv (?l'\<lparr>l_locked := False\<rparr>) ?s xs" "list_inv ?n ?s ys"
    using shapes c(2) by (auto simp: list_inv_def list_shape_def)
  ultimately show ?thesis using c by (auto simp: same_list_def ample_def)
qed

lemma List_join_ok:
  assumes "list_inv l s xs" and "list_shape r s ys" and "xs \<noteq> []" and "ys \<noteq> []"
    and "addrs xs \<inter> addrs ys = {}" and "l_addr l \<noteq> l_addr r" and "l_addr r \<noteq> l_mtx r"
    and "{l_addr r, l_mtx r} \<subseteq> live s" and "{l_addr r, l_mtx r} \<inter> (addrs xs \<union> addrs ys) = {}"
    and "int (length xs + length ys) \<le> INT_MAX"
  shows "\<exists>l' s'. List_join l r s = Inr (l', s') \<and> list_inv l' s' (xs @ ys) \<and> same_list l l' \<and>
    live s' = live s - {l_addr r, l_mtx r} \<and> objs s' = objs s"
proof -
  let ?l = "l\<lparr>l_locked := True\<rparr>"
  have lsh: "lseg (lnodes s) NULL xs NULL" "distinct (map fst xs)" "NULL \<notin> addrs xs" "l_last l = last_of NULL xs"
    "l_count l = int (length xs)" "l_first l = first_of xs NULL" "addrs xs \<subseteq> live s" "mem_ok s"
    using assms(1) by (auto simp: list_inv_def list_shape_def)
  have rsh: "lseg (lnodes s) NULL ys NULL" "distinct (map fst ys)" "NULL \<notin> addrs ys"
    "l_first r = first_of ys NULL" "l_count r = int (length ys)" "l_last r = last_of NULL ys" "addrs ys \<subseteq> live s"
    using assms(2) by (auto simp: list_shape_def)
  obtain N1 where N1: "node_upd (first_of ys NULL) (\<lambda>m. m\<lparr>lprev := last_of NULL xs\<rparr>) s
      = Inr (s\<lparr>lnodes := N1\<rparr>)" "lseg N1 (last_of NULL xs) ys NULL"
      "\<forall>q. q \<noteq> first_of ys NULL \<longrightarrow> N1 q = lnodes s q"
    using lseg_set_prev [OF rsh(1-3) assms(4)] by blast
  have fy: "first_of ys NULL \<in> addrs ys" and lx: "last_of NULL xs \<in> addrs xs"
    using first_of_in [OF assms(4)] last_of_in [OF assms(3)] by auto
  have "lseg N1 NULL xs NULL"
    using lseg_cong [of xs N1 "lnodes s"] lsh(1) N1(3) fy assms(5) by (metis disjoint_iff)
  then obtain N2 where N2: "node_upd (last_of NULL xs) (\<lambda>m. m\<lparr>lnext := first_of ys NULL\<rparr>)
      (s\<lparr>lnodes := N1\<rparr>) = Inr (s\<lparr>lnodes := N2\<rparr>)" "lseg N2 NULL xs (first_of ys NULL)"
      "\<forall>q. q \<noteq> last_of NULL xs \<longrightarrow> N2 q = N1 q"
    using lseg_set_next [of "s\<lparr>lnodes := N1\<rparr>" NULL xs NULL "first_of ys NULL"] lsh(2,3) assms(3) by auto
  have "lseg N2 (last_of NULL xs) ys NULL"
    using lseg_cong [of ys N2 N1] N1(2) N2(3) lx assms(5) by (metis disjoint_iff)
  then have seg: "lseg N2 NULL (xs @ ys) NULL" using N2(2) by (simp add: lseg_append)
  let ?s' = "s\<lparr>lnodes := N2, live := live s - {l_addr r, l_mtx r}\<rparr>"
  let ?l' = "l\<lparr>l_last := l_last r, l_count := l_count l + l_count r\<rparr>"
  have nz: "l_addr r \<noteq> NULL" "l_mtx r \<noteq> NULL" using assms(8) lsh(8) by (metis insert_subset mem_ok_def)+
  have "\<not> l_locked l" using assms(1) by (simp add: list_inv_def)
  moreover have "live s - {l_mtx r} - {l_addr r} = live s - {l_addr r, l_mtx r}" by auto
  ultimately have "List_join l r s = Inr (?l', ?s')"
    using assms(6-8,10) N1(1) N2(1) lsh(4,5) rsh(4,5) nz l_lock_ok [OF assms(1)]
    by (simp add: List_join_def c_add_ok INT_MIN_def c_free_def)
  moreover have "first_of xs (first_of ys NULL) = first_of xs NULL" using assms(3) by (cases xs) auto
  moreover have "last_of (last_of NULL xs) ys = last_of NULL ys" using assms(4) by (cases ys) auto
  moreover have "addrs (xs @ ys) \<subseteq> live ?s'" using lsh(7) rsh(7) assms(9) by (simp add: image_Un) blast
  moreover have "NULL \<notin> addrs (xs @ ys)" "distinct (map fst (xs @ ys))"
    using lsh(2,3) rsh(2,3) assms(5) by (simp_all add: image_Un)
  ultimately show ?thesis
    using seg lsh(4-6,8) rsh(4-6) assms(10) \<open>\<not> l_locked l\<close>
    by (intro exI [of _ ?l'] exI [of _ ?s'])
      (simp add: list_inv_def list_shape_def same_list_def mem_ok_def)
qed

section \<open>Deep copies\<close>

lemma List_push_deep_ok:
  fixes s :: "(ptr, 'o, 's) lmem_scheme"
  assumes "list_inv l s xs" and "ample s" and "int (length xs) + 1 \<le> INT_MAX"
    and "q \<in> live s" and "objs s q = Some ob"
  shows "\<exists>l' s'. List_push_deep l q s = Inr (l', s') \<and>
    list_inv l' s' (xs @ [(Suc (calls s), Some (Suc (Suc (calls s))))]) \<and> same_list l l' \<and>
    live s' = live s \<union> {Suc (calls s), Suc (Suc (calls s))} \<and> list_frame (addrs xs) s s' \<and> ample s' \<and>
    objs s' = (objs s)(Suc (Suc (calls s)) := Some ob) \<and> calls s' = Suc (Suc (calls s))"
proof -
  let ?p = "Suc (calls s)" and ?c = "Suc (Suc (calls s))"
  let ?s2 = "s\<lparr>calls := ?c, live := insert ?c (insert ?p (live s)),
    lnodes := (lnodes s)(?p := Some \<lparr>lnext = NULL, lprev = NULL, lval = Some ?c\<rparr>),
    objs := (objs s)(?c := Some ob)\<rparr>"
  let ?l1 = "l\<lparr>l_locked := True\<rparr>"
  have sh: "list_shape l s xs" and mem: "mem_ok s"
    using assms(1) by (auto simp: list_inv_def list_shape_def)
  have fresh: "?p \<notin> live s" "?c \<notin> live s" "q \<noteq> NULL" "q \<noteq> ?c"
    using mem_ok_bound [OF mem] mem_ok_nz [OF mem assms(4)] assms(4) by (fastforce, fastforce, simp, fastforce)
  have 1: "list_shape ?l1 ?s2 xs" "?p \<notin> addrs xs"
    using new_node_shape(1) [OF sh, of "Some ?c"] new_node_shape(2) [OF sh]
    by (auto simp: list_shape_def mem_ok_def)
  obtain l2 N where a: "list_append ?l1 ?p ?s2 = Inr (l2, ?s2\<lparr>lnodes := N\<rparr>)"
    "list_shape l2 (?s2\<lparr>lnodes := N\<rparr>) (xs @ [(?p, Some ?c)])" "same_list ?l1 l2" "l_locked l2"
    "\<forall>q. q \<noteq> ?p \<longrightarrow> q \<notin> addrs xs \<longrightarrow> N q = lnodes s q"
    using list_append_ok [OF 1, of "Some ?c"] assms(3) by auto
  have nf: "\<not> fails s (calls s)" "\<not> fails s (Suc (calls s))" using assms(2) by (auto simp: ample_def)
  have "List_push_deep l q s = Inr (l2\<lparr>l_locked := False\<rparr>, ?s2\<lparr>lnodes := N\<rparr>)"
    using a(1,4) fresh assms(5) nf l_lock_ok [OF assms(1)]
    by (simp add: List_push_deep_def node_alloc_ok node_upd_def node_get_def c_alloc_def)
  moreover have "list_inv (l2\<lparr>l_locked := False\<rparr>) (?s2\<lparr>lnodes := N\<rparr>) (xs @ [(?p, Some ?c)])"
    using a(2) by (simp add: list_inv_def)
  moreover have "N q = lnodes s q \<and> ((objs s)(?c := Some ob)) q = objs s q"
    if "q \<notin> addrs xs" "q \<in> live s" for q
  proof -
    have "q \<noteq> ?p" "q \<noteq> ?c" using that(2) fresh(1,2) by metis+
    then show ?thesis using a(5) that(1) by simp
  qed
  then have "list_frame (addrs xs) s (?s2\<lparr>lnodes := N\<rparr>)" by (simp add: list_frame_def)
  moreover have "ample (?s2\<lparr>lnodes := N\<rparr>)" using assms(2) by (simp add: ample_def)
  ultimately show ?thesis using a(3)
    by (intro exI [of _ "l2\<lparr>l_locked := False\<rparr>"] exI [of _ "?s2\<lparr>lnodes := N\<rparr>"])
      (simp add: same_list_def insert_commute)
qed

lemma val_ptrs_append [simp]: "val_ptrs (xs @ ys) = val_ptrs xs @ val_ptrs ys"
  by (induction xs rule: val_ptrs.induct) auto

lemma list_frame_fresh_trans:
  "list_frame {} s m \<Longrightarrow> list_frame A m m' \<Longrightarrow> A \<inter> live s = {} \<Longrightarrow> list_frame {} s m'"
  unfolding list_frame_def disjoint_iff by simp (metis le_trans)

text \<open>What a copy \<open>zs\<close> holds so far of the objects of \<open>xs\<close>, in blocks of its own.\<close>

definition copies ::
  "('a, 'o, 's) lmem_scheme \<Rightarrow> (ptr \<times> ptr option) list \<Rightarrow> ('a, 'o, 's) lmem_scheme
    \<Rightarrow> (ptr \<times> ptr option) list \<Rightarrow> bool" where
  "copies s xs m zs \<longleftrightarrow> map (objs m) (val_ptrs zs) = map (objs s) (val_ptrs xs) \<and>
     length zs = length xs \<and> vals_owned m zs \<and> (addrs zs \<union> set (val_ptrs zs)) \<inter> live s = {}"

lemma copies_snoc:
  assumes "copies s xs m zs" and "mem_ok m" and "calls s \<le> calls m" and "mem_ok s"
    and "objs m' = (objs m)(Suc (Suc (calls m)) := objs s q)" and "addrs zs \<subseteq> live m"
    and "live m' = live m \<union> {Suc (calls m), Suc (Suc (calls m))}"
  shows "copies s (xs @ [(p, Some q)]) m' (zs @ [(Suc (calls m), Some (Suc (Suc (calls m))))])"
proof -
  have le: "x \<le> calls m" if "x \<in> live m" for x using that assms(2) by (simp add: mem_ok_def)
  have les: "x \<le> calls m" if "x \<in> live s" for x
    using that assms(3,4) by (auto simp: mem_ok_def)
  have "set (val_ptrs zs) \<subseteq> live m" using assms(1) by (simp add: copies_def vals_owned_def)
  then have v: "x \<le> calls m" if "x \<in> set (val_ptrs zs)" for x using that le by blast
  have a: "x \<le> calls m" if "x \<in> addrs zs" for x using that le assms(6) by blast
  have "map (objs m') (val_ptrs zs) = map (objs m) (val_ptrs zs)"
    using v by (fastforce simp: assms(5))
  then have "map (objs m') (val_ptrs zs) = map (objs s) (val_ptrs xs)"
    using assms(1) by (simp only: copies_def)
  moreover have "vals_owned m' (zs @ [(Suc (calls m), Some (Suc (Suc (calls m))))])"
    using assms(1,7) v a by (fastforce simp: copies_def vals_owned_def)
  moreover have "Suc (calls m) \<notin> live s" "Suc (Suc (calls m)) \<notin> live s" using les by fastforce+
  ultimately show ?thesis using assms(1)
    by (simp add: copies_def Int_Un_distrib2) (simp add: assms(5))
qed

lemma List_copy_ok:
  fixes s :: "(ptr, 'o, 's) lmem_scheme"
  assumes "list_inv l s xs" and "ample s" and "0 < l_elementSize l"
    and "\<And>x. x \<in> set xs \<Longrightarrow> \<exists>q. snd x = Some q \<and> q \<in> live s \<and> objs s q \<noteq> None"
    and "set (val_ptrs xs) \<inter> addrs xs = {}"
  shows "\<exists>c s' zs. List_copy l s = Inr (Some c, l, s') \<and> list_inv c s' zs \<and> list_inv l s' xs \<and>
    copies s xs s' zs \<and> list_frame {} s s' \<and> ample s'"
proof -
  let ?body = "\<lambda>(node, c, s :: (ptr, 'o, 's) lmem_scheme). rbind (node_get node s) (\<lambda>n.
    rbind (List_push_deep c (case lval n of None \<Rightarrow> NULL | Some p \<Rightarrow> p) s)
      (\<lambda>(c1, s1). Inr (lnext n, c1, s1)))"
  have sh: "list_shape l s xs" and mem: "mem_ok s" and z: "NULL \<notin> addrs xs"
    and len: "int (length xs) \<le> INT_MAX" and lv: "addrs xs \<subseteq> live s"
    using assms(1) by (auto simp: list_inv_def list_shape_def)
  obtain c0 s1 where c: "List_create (l_elementSize l) s = Inr (Some c0, s1)" "list_inv c0 s1 []"
    "list_frame {} s s1" "ample s1"
    using List_create_ok [OF mem assms(2,3)] by blast
  define P where "P i a \<longleftrightarrow> (case a of (c, m) \<Rightarrow> \<exists>zs. list_inv c m zs \<and> copies s (take i xs) m zs \<and>
    list_frame {} s m \<and> ample m)" for i and a :: "clist \<times> (ptr, 'o, 's) lmem_scheme"
  have "\<exists>a. cwhile (\<lambda>st. fst st \<noteq> NULL) ?body (first_of xs NULL, c0, s1) = Inr (NULL, a) \<and> P (length xs) a"
  proof (rule cwhile_walk [OF z])
    have "copies s [] s1 []" by (simp add: copies_def vals_owned_def)
    then show "P 0 (c0, s1)" using c by (auto simp: P_def intro!: exI [of _ "[]"])
    fix i a assume i: "i < length xs" and "P i a"
    then obtain c1 m zs where a: "a = (c1, m)" and m: "list_inv c1 m zs" "copies s (take i xs) m zs"
      "list_frame {} s m" "ample m" by (auto simp: P_def)
    obtain p q where x: "xs ! i = (p, Some q)" and q: "q \<in> live s" "objs s q \<noteq> None"
      using assms(4) [of "xs ! i"] i by (metis nth_mem prod.collapse)
    have mm: "mem_ok m" "addrs zs \<subseteq> live m" using m(1) by (auto simp: list_inv_def list_shape_def)
    have "list_shape l m xs" using list_frame_shape [OF m(3) sh] mm(1) by simp
    then have get: "node_get p m = Inr \<lparr>lnext = first_of (drop (Suc i) xs) NULL,
        lprev = last_of NULL (take i xs), lval = Some q\<rparr>"
      using walk_node [of l m xs i m] i x by simp
    have "length zs = i" using m(2) i by (simp add: copies_def)
    then have "int (length zs) + 1 \<le> INT_MAX" using i len by simp
    moreover have fr: "q \<in> live m" "objs m q = objs s q" "calls s \<le> calls m"
      using m(3) q(1) by (auto simp: list_frame_def)
    moreover obtain ob where ob: "objs s q = Some ob" using q(2) by blast
    ultimately obtain c2 m2 where d: "List_push_deep c1 q m = Inr (c2, m2)"
      "list_inv c2 m2 (zs @ [(Suc (calls m), Some (Suc (Suc (calls m))))])"
      "live m2 = live m \<union> {Suc (calls m), Suc (Suc (calls m))}" "list_frame (addrs zs) m m2" "ample m2"
      "objs m2 = (objs m)(Suc (Suc (calls m)) := objs s q)"
      using List_push_deep_ok [OF m(1,4), of q ob] by auto
    have "addrs zs \<inter> live s = {}" using m(2) by (auto simp: copies_def)
    then have "list_frame {} s m2" by (rule list_frame_fresh_trans [OF m(3) d(4)])
    moreover have "copies s (take (Suc i) xs) m2 (zs @ [(Suc (calls m), Some (Suc (Suc (calls m))))])"
      using copies_snoc [OF m(2) mm(1) fr(3) mem d(6) mm(2) d(3), of p] i x
      by (simp add: take_Suc_conv_app_nth)
    ultimately have "P (Suc i) (c2, m2)" using d(2,5) by (auto simp: P_def)
    then show "\<exists>a'. ?body (fst (xs ! i), a) = Inr (first_of (drop (Suc i) xs) NULL, a') \<and> P (Suc i) a'"
      using get d(1) by (simp add: a x)
  qed
  then obtain c1 s' zs where w: "cwhile (\<lambda>st. fst st \<noteq> NULL) ?body (first_of xs NULL, c0, s1) = Inr (NULL, c1, s')"
    "list_inv c1 s' zs" "copies s xs s' zs" "list_frame {} s s'" "ample s'"
    by (auto simp: P_def)
  have "list_shape l s' xs" using list_frame_shape [OF w(4) sh] w(2) by (simp add: list_inv_def list_shape_def)
  then have "list_inv l s' xs" using assms(1) by (simp add: list_inv_def)
  moreover have "l_first l = first_of xs NULL" "\<not> l_locked l"
    using assms(1) by (auto simp: list_inv_def list_shape_def)
  then have "List_copy l s = Inr (Some c1, l, s')"
    using c(1) w(1) l_lock_ok [OF assms(1)] by (simp add: List_copy_def)
  ultimately show ?thesis using w by blast
qed

section \<open>Properties\<close>

text \<open>A list of two nodes at 1 and 2 whose values are the blocks 5 and 6, for the witnesses.\<close>

definition ex_lmem :: "(ptr, int) lmem" where
  "ex_lmem = \<lparr>calls = 10, fails = (\<lambda>_. False), live = {1, 2, 3, 4, 5, 6},
     lnodes = [1 \<mapsto> \<lparr>lnext = 2, lprev = 0, lval = Some 5\<rparr>, 2 \<mapsto> \<lparr>lnext = 0, lprev = 1, lval = Some 6\<rparr>],
     objs = [5 \<mapsto> 50, 6 \<mapsto> 60]\<rparr>"

definition ex_list :: clist where
  "ex_list = \<lparr>l_addr = 3, l_mtx = 4, l_count = 2, l_first = 1, l_last = 2, l_elementSize = 4,
     l_locked = False\<rparr>"

definition ex_nodes :: "(ptr \<times> ptr option) list" where
  "ex_nodes = [(1, Some 5), (2, Some 6)]"

lemma ex_list_inv: "list_inv ex_list ex_lmem ex_nodes" "ample ex_lmem" "mem_ok ex_lmem"
  by (auto simp: list_inv_def list_shape_def ex_list_def ex_lmem_def ex_nodes_def ample_def mem_ok_def
      INT_MAX_def)

text \<open>\<^verbatim>\<open>List_push\<close> links one new node behind the last one: the list's values are the old ones
  and the pushed one, and no other block changes.\<close>

theorem list_push_appends:
  assumes "list_inv l s xs" and "\<not> fails s (calls s)" and "int (length xs) + 1 \<le> INT_MAX"
  shows "\<exists>l' s' ys. List_push l v s = Inr (l', s') \<and> list_inv l' s' ys \<and>
    map snd ys = map snd xs @ [v] \<and> List_count l' = List_count l + 1 \<and> list_frame (addrs xs) s s'"
proof -
  obtain l' s' p where "List_push l v s = Inr (l', s')" "list_inv l' s' (xs @ [(p, v)])"
    "list_frame (addrs xs) s s'"
    using List_push_ok [OF assms] by blast
  then show ?thesis using assms(1)
    by (intro exI [of _ l'] exI [of _ s'] exI [of _ "xs @ [(p, v)]"])
      (auto simp: list_inv_def list_shape_def List_count_def)
qed

theorem list_push_appends_witness:
  "\<exists>l' s' ys. List_push ex_list (Some 9) ex_lmem = Inr (l', s') \<and> list_inv l' s' ys \<and>
    map snd ys = [Some 5, Some 6, Some 9] \<and> List_count l' = 3 \<and> list_frame {1, 2} ex_lmem s'"
  using list_push_appends [OF ex_list_inv(1), of "Some 9"]
  by (simp add: ex_nodes_def ex_list_def ex_lmem_def INT_MAX_def List_count_def)

text \<open>\<^verbatim>\<open>List_pop\<close> returns the last value and \<^verbatim>\<open>List_pop_left\<close> the first one; each unlinks exactly
  that node, frees its block and leaves a well-formed list of the others.\<close>

theorem list_pop_both_ends:
  assumes "list_inv l s xs" and "xs \<noteq> []"
  shows "(\<exists>l' s'. List_pop l s = Inr (snd (last xs), l', s') \<and> list_inv l' s' (butlast xs) \<and>
      live s' = live s - {fst (last xs)}) \<and>
    (\<exists>l' s'. List_pop_left l s = Inr (snd (hd xs), l', s') \<and> list_inv l' s' (tl xs) \<and>
      live s' = live s - {fst (hd xs)})"
proof (intro conjI)
  have "xs = butlast xs @ [(fst (last xs), snd (last xs))]" using assms(2) by simp
  with assms(1) have "list_inv l s (butlast xs @ [(fst (last xs), snd (last xs))])" by metis
  from List_pop_ok [OF this] show "\<exists>l' s'. List_pop l s = Inr (snd (last xs), l', s') \<and>
    list_inv l' s' (butlast xs) \<and> live s' = live s - {fst (last xs)}" by blast
  have "xs = (fst (hd xs), snd (hd xs)) # tl xs" using assms(2) by simp
  with assms(1) have "list_inv l s ((fst (hd xs), snd (hd xs)) # tl xs)" by metis
  from List_pop_left_ok [OF this] show "\<exists>l' s'. List_pop_left l s = Inr (snd (hd xs), l', s') \<and>
    list_inv l' s' (tl xs) \<and> live s' = live s - {fst (hd xs)}" by blast
qed

theorem list_pop_both_ends_witness:
  "(\<exists>l' s'. List_pop ex_list ex_lmem = Inr (Some 6, l', s') \<and> list_inv l' s' [(1, Some 5)] \<and>
      live s' = live ex_lmem - {2}) \<and>
    (\<exists>l' s'. List_pop_left ex_list ex_lmem = Inr (Some 5, l', s') \<and> list_inv l' s' [(2, Some 6)] \<and>
      live s' = live ex_lmem - {1})"
  using list_pop_both_ends [OF ex_list_inv(1)] by (simp add: ex_nodes_def)

text \<open>C6: \<^verbatim>\<open>List_split\<close> at an index inside the list cuts it in two well-formed lists, and
  \<^verbatim>\<open>List_join\<close> of the two gives the original list back and frees the blocks of the second struct.\<close>

theorem list_split_join:
  assumes "list_inv l s xs" and "ample s" and "0 < k" and "k < length xs" and "0 < l_elementSize l"
    and "l_addr l \<in> live s"
  shows "\<exists>n l1 s1 l2 s2. List_split l (int k) s = Inr (Some n, l1, s1) \<and>
    list_inv l1 s1 (take k xs) \<and> list_inv n s1 (drop k xs) \<and>
    List_join l1 n s1 = Inr (l2, s2) \<and> list_inv l2 s2 xs \<and> live s2 = live s"
proof -
  let ?xs = "take k xs" and ?ys = "drop k xs"
  have k: "?xs \<noteq> []" "?ys \<noteq> []" "length ?xs = k" using assms(3,4) by auto
  have xs: "list_inv l s (?xs @ ?ys)" using assms(1) by simp
  obtain n l1 s1 where sp: "List_split l (int k) s = Inr (Some n, l1, s1)" "list_inv l1 s1 ?xs"
    "list_inv n s1 ?ys" "same_list l l1" "{l_addr n, l_mtx n} \<inter> live s = {}"
    "live s1 = live s \<union> {l_addr n, l_mtx n}" "l_addr n \<noteq> l_mtx n"
    using List_split_ok [OF xs assms(2) k(1,2) assms(5)] k(3) by auto
  have sub: "addrs ?xs \<union> addrs ?ys \<subseteq> live s" and dis: "addrs ?xs \<inter> addrs ?ys = {}"
    and len: "int (length ?xs + length ?ys) \<le> INT_MAX"
  proof -
    have "addrs (?xs @ ?ys) \<subseteq> live s" "distinct (map fst (?xs @ ?ys))"
      "int (length (?xs @ ?ys)) \<le> INT_MAX"
      using xs by (simp_all only: list_inv_def list_shape_def)
    then show "addrs ?xs \<union> addrs ?ys \<subseteq> live s" "addrs ?xs \<inter> addrs ?ys = {}"
      "int (length ?xs + length ?ys) \<le> INT_MAX"
      by (simp_all only: set_append image_Un map_append distinct_append set_map length_append)
  qed
  have ne: "l_addr l1 \<noteq> l_addr n" using assms(6) sp(4,5) by (auto simp: same_list_def)
  have fresh: "{l_addr n, l_mtx n} \<inter> (addrs ?xs \<union> addrs ?ys) = {}" using sub sp(5) by blast
  have own: "{l_addr n, l_mtx n} \<subseteq> live s1" using sp(6) by simp
  have "list_shape n s1 ?ys" using sp(3) by (simp add: list_inv_def)
  from List_join_ok [OF sp(2) this k(1,2) dis ne sp(7) own fresh len]
  obtain l2 s2 where j: "List_join l1 n s1 = Inr (l2, s2)" "list_inv l2 s2 (?xs @ ?ys)"
    "live s2 = live s1 - {l_addr n, l_mtx n}"
    by blast
  have "live s2 = live s" using j(3) sp(5,6) by blast
  then show ?thesis using sp(1-3) j(1,2) by (metis append_take_drop_id)
qed

theorem list_split_join_witness:
  "\<exists>n l1 s1 l2 s2. List_split ex_list 1 ex_lmem = Inr (Some n, l1, s1) \<and>
    list_inv l1 s1 [(1, Some 5)] \<and> list_inv n s1 [(2, Some 6)] \<and>
    List_join l1 n s1 = Inr (l2, s2) \<and> list_inv l2 s2 ex_nodes \<and> live s2 = live ex_lmem"
proof -
  have "1 < length ex_nodes" "0 < l_elementSize ex_list" "l_addr ex_list \<in> live ex_lmem"
    by (simp_all add: ex_nodes_def ex_list_def ex_lmem_def)
  from list_split_join [OF ex_list_inv(1,2) _ this] show ?thesis
    by (simp add: ex_nodes_def)
qed

text \<open>\<^verbatim>\<open>List_copy\<close> builds a list of the same length whose values are fresh blocks with the same
  contents, in the same order, and leaves the copied list as it was.\<close>

theorem list_copy_deep:
  fixes s :: "(ptr, 'o, 's) lmem_scheme"
  assumes "list_inv l s xs" and "ample s" and "0 < l_elementSize l"
    and "\<forall>x \<in> set xs. \<exists>q. snd x = Some q \<and> q \<in> live s \<and> objs s q \<noteq> None"
    and "set (val_ptrs xs) \<inter> addrs xs = {}"
  shows "\<exists>c s' zs. List_copy l s = Inr (Some c, l, s') \<and> list_inv c s' zs \<and> list_inv l s' xs \<and>
    map (objs s') (val_ptrs zs) = map (objs s) (val_ptrs xs) \<and> length zs = length xs \<and>
    (addrs zs \<union> set (val_ptrs zs)) \<inter> live s = {}"
  using List_copy_ok [OF assms(1-3) _ assms(5)] assms(4) by (fastforce simp: copies_def)

theorem list_copy_deep_witness:
  "\<exists>c s' zs. List_copy ex_list ex_lmem = Inr (Some c, ex_list, s') \<and> list_inv c s' zs \<and>
    list_inv ex_list s' ex_nodes \<and> map (objs s') (val_ptrs zs) = [Some 50, Some 60] \<and> length zs = 2 \<and>
    (addrs zs \<union> set (val_ptrs zs)) \<inter> live ex_lmem = {}"
proof -
  have "0 < l_elementSize ex_list" by (simp add: ex_list_def)
  moreover have "\<forall>x \<in> set ex_nodes. \<exists>q. snd x = Some q \<and> q \<in> live ex_lmem \<and> objs ex_lmem q \<noteq> None"
    "set (val_ptrs ex_nodes) \<inter> addrs ex_nodes = {}"
    by (simp_all add: ex_nodes_def ex_lmem_def)
  ultimately have "\<exists>c s' zs. List_copy ex_list ex_lmem = Inr (Some c, ex_list, s') \<and> list_inv c s' zs \<and>
    list_inv ex_list s' ex_nodes \<and> map (objs s') (val_ptrs zs) = map (objs ex_lmem) (val_ptrs ex_nodes) \<and>
    length zs = length ex_nodes \<and> (addrs zs \<union> set (val_ptrs zs)) \<inter> live ex_lmem = {}"
    by (rule list_copy_deep [OF ex_list_inv(1,2)])
  moreover have "map (objs ex_lmem) (val_ptrs ex_nodes) = [Some 50, Some 60]" "length ex_nodes = 2"
    by (simp_all add: ex_nodes_def ex_lmem_def)
  ultimately show ?thesis by simp
qed

text \<open>C10: \<^verbatim>\<open>List_destroy\<close> frees every node, every value, the mutex and the struct, and nothing else.\<close>

theorem list_destroy_frees_all:
  fixes s :: "(ptr, 'o, 's) lmem_scheme"
  assumes "list_inv l s xs" and "vals_owned s xs" and "{l_addr l, l_mtx l} \<subseteq> live s"
    and "l_addr l \<noteq> l_mtx l" and "{l_addr l, l_mtx l} \<inter> (addrs xs \<union> set (val_ptrs xs)) = {}"
  shows "\<exists>s'. List_destroy l s = Inr s' \<and>
    live s' = live s - (addrs xs \<union> set (val_ptrs xs) \<union> {l_addr l, l_mtx l})"
proof -
  have "list_shape l s xs" using assms(1) by (simp add: list_inv_def)
  then obtain s' where "List_destroy l s = Inr s'"
    "live s' = live s - addrs xs - set (val_ptrs xs) - {l_addr l, l_mtx l}"
    using List_destroy_ok [OF _ assms(2-5)] by blast
  moreover have "A - B - C - D = A - (B \<union> C \<union> D)" for A B C D :: "ptr set" by blast
  ultimately show ?thesis by metis
qed

theorem list_destroy_frees_all_witness:
  "\<exists>s'. List_destroy ex_list ex_lmem = Inr s' \<and> live s' = {}"
  using list_destroy_frees_all [OF ex_list_inv(1)]
  by (simp add: ex_nodes_def ex_list_def ex_lmem_def vals_owned_def)

text \<open>\<^verbatim>\<open>List_split\<close> at 0 or behind the end returns NULL with the mutex still held, so the next push
  on the list never returns.\<close>

theorem list_split_keeps_lock:
  assumes "list_inv l s xs" and "i = 0 \<or> int (length xs) \<le> i"
  shows "\<exists>l'. List_split l i s = Inr (None, l', s) \<and> list_shape l' s xs \<and>
    (\<forall>v. List_push l' v s = Inl Deadlock)"
proof -
  have "l_count l = int (length xs)" "0 \<le> i" using assms by (auto simp: list_inv_def list_shape_def)
  then have "List_split l i s = Inr (None, l\<lparr>l_locked := True\<rparr>, s)"
    using assms l_lock_ok [OF assms(1)] by (auto simp: List_split_def)
  then show ?thesis using assms(1) by (simp add: List_push_def l_lock_def list_inv_def)
qed

theorem list_split_keeps_lock_witness:
  "\<exists>l'. List_split ex_list 2 ex_lmem = Inr (None, l', ex_lmem) \<and> list_shape l' ex_lmem ex_nodes \<and>
    List_push l' (Some 9) ex_lmem = Inl Deadlock"
  using list_split_keeps_lock [OF ex_list_inv(1), of 2] by (auto simp: ex_nodes_def)

text \<open>\<^verbatim>\<open>List_join\<close> dereferences the first node of the right list and the last one of the left list
  without a test: joining with an empty list is undefined.\<close>

theorem list_join_empty_undefined:
  assumes "list_inv l s xs" and "list_inv r s []" and "l_addr l \<noteq> l_addr r"
  shows "List_join l r s = Inl Null_Deref"
  using assms l_lock_ok [OF assms(1)]
  by (simp add: List_join_def list_inv_def list_shape_def node_upd_def node_get_def)

theorem list_join_empty_undefined_witness:
  "List_join ex_list \<lparr>l_addr = 5, l_mtx = 6, l_count = 0, l_first = 0, l_last = 0, l_elementSize = 4,
     l_locked = False\<rparr> ex_lmem = Inl Null_Deref"
proof (rule list_join_empty_undefined [OF ex_list_inv(1)])
  show "list_inv \<lparr>l_addr = 5, l_mtx = 6, l_count = 0, l_first = 0, l_last = 0, l_elementSize = 4,
     l_locked = False\<rparr> ex_lmem []"
    using ex_list_inv(3) by (simp add: list_inv_def list_shape_def INT_MAX_def)
qed (simp add: ex_list_def)

text \<open>When the \<^verbatim>\<open>calloc\<close> of the mutex fails, \<^verbatim>\<open>List_create\<close> returns NULL and leaks the struct.\<close>

theorem list_create_leaks_struct:
  assumes "mem_ok s" and "0 < el" and "\<not> fails s (calls s)" and "fails s (calls s + 1)"
  shows "\<exists>s'. List_create el s = Inr (None, s') \<and> live s' = insert (calls s + 1) (live s) \<and>
    calls s + 1 \<notin> live s"
  using assms mem_ok_fresh [OF assms(1)] by (auto simp: List_create_def c_alloc_def Let_def)

theorem list_create_leaks_struct_witness:
  "\<exists>s'. List_create 8 \<lparr>calls = 0, fails = (\<lambda>k. k = 1), live = {}\<rparr> = Inr (None, s') \<and> live s' = {1} \<and>
    (1 :: nat) \<notin> {}"
  using list_create_leaks_struct [of "\<lparr>calls = 0, fails = (\<lambda>k. k = 1), live = {}\<rparr>" 8]
  by (simp add: mem_ok_def)

end
