(* ===== verification/Sifting.thy ===== *)
theory Sifting
  imports Prelude
begin

text \<open>
  The list-level reading of the two sifting loops of \<^verbatim>\<open>lib/ds/heap.c\<close>, and why they repair a
  heap with one defect. Theory Binary_Heap shows that the C loops compute these functions.

  \<open>sw p c\<close> is the code's test for exchanging a parent with its child, \<open>pick a b\<close> its test
  for preferring the second child, and \<open>ok p c\<close> the order a parent and its child should be in.
\<close>

definition parent_of :: "nat \<Rightarrow> nat" where
  "parent_of i = (i - 1) div 2"

definition swap_at :: "'a list \<Rightarrow> nat \<Rightarrow> nat \<Rightarrow> 'a list" where
  "swap_at xs i j = xs[i := xs ! j, j := xs ! i]"

fun up_list :: "('a \<Rightarrow> 'a \<Rightarrow> bool) \<Rightarrow> 'a list \<Rightarrow> nat \<Rightarrow> 'a list" where
  "up_list sw xs i =
     (if i = 0 then xs
      else if sw (xs ! ((i - 1) div 2)) (xs ! i)
      then up_list sw (swap_at xs i ((i - 1) div 2)) ((i - 1) div 2)
      else xs)"

declare up_list.simps [simp del]

definition child_at :: "('a \<Rightarrow> 'a \<Rightarrow> bool) \<Rightarrow> 'a list \<Rightarrow> nat \<Rightarrow> nat" where
  "child_at pick xs i =
     (if 2 * i + 2 \<ge> length xs then 2 * i + 1
      else if pick (xs ! (2 * i + 1)) (xs ! (2 * i + 2)) then 2 * i + 2 else 2 * i + 1)"

lemma child_at_gt: "i < child_at pick xs i"
  by (simp add: child_at_def)

lemma length_swap_at [simp]: "length (swap_at xs i j) = length xs"
  by (simp add: swap_at_def)

function down_list :: "('a \<Rightarrow> 'a \<Rightarrow> bool) \<Rightarrow> ('a \<Rightarrow> 'a \<Rightarrow> bool) \<Rightarrow> 'a list \<Rightarrow> nat \<Rightarrow> 'a list" where
  "down_list sw pick xs i =
     (if 2 * i + 1 \<ge> length xs then xs
      else if sw (xs ! i) (xs ! child_at pick xs i)
      then down_list sw pick (swap_at xs i (child_at pick xs i)) (child_at pick xs i)
      else xs)"
  by pat_completeness auto
termination
  by (relation "measure (\<lambda>(sw, pick, xs, i). length xs - i)")
    (auto simp: child_at_def)

declare down_list.simps [simp del]

lemma swap_at_nth:
  "i < length xs \<Longrightarrow> j < length xs \<Longrightarrow> k < length xs \<Longrightarrow>
    swap_at xs i j ! k = (if k = j then xs ! i else if k = i then xs ! j else xs ! k)"
  by (simp add: swap_at_def nth_list_update)

lemma mset_swap_at [simp]:
  "i < length xs \<Longrightarrow> j < length xs \<Longrightarrow> mset (swap_at xs i j) = mset xs"
  unfolding swap_at_def by (rule mset_swap)

lemma mset_up_list: "i < length xs \<Longrightarrow> mset (up_list sw xs i) = mset xs"
proof (induction sw xs i rule: up_list.induct)
  case (1 sw xs i)
  then have "(i - 1) div 2 < length xs" by auto
  with 1 show ?case by (subst up_list.simps) auto
qed

lemma length_up_list: "i < length xs \<Longrightarrow> length (up_list sw xs i) = length xs"
  by (metis mset_up_list size_mset)

lemma child_at_less: "2 * i + 1 < length xs \<Longrightarrow> child_at pick xs i < length xs"
  by (simp add: child_at_def)

lemma mset_down_list: "mset (down_list sw pick xs i) = mset xs"
proof (induction sw pick xs i rule: down_list.induct)
  case (1 sw pick xs i)
  show ?case
  proof (cases "2 * i + 1 < length xs")
    case True
    then have "child_at pick xs i < length xs" "i < length xs"
      by (auto intro: child_at_less)
    with 1 True show ?thesis by (subst down_list.simps) auto
  next
    case False
    then show ?thesis by (subst down_list.simps) simp
  qed
qed

lemma length_down_list [simp]: "length (down_list sw pick xs i) = length xs"
  by (metis mset_down_list size_mset)

section \<open>The heap order\<close>

definition heap_on :: "('a \<Rightarrow> 'a \<Rightarrow> bool) \<Rightarrow> 'a list \<Rightarrow> bool" where
  "heap_on ok xs \<longleftrightarrow> (\<forall>j. 0 < j \<longrightarrow> j < length xs \<longrightarrow> ok (xs ! parent_of j) (xs ! j))"

text \<open>One defect, between \<open>i\<close> and its parent, or between \<open>i\<close> and its children.\<close>

definition up_defect :: "('a \<Rightarrow> 'a \<Rightarrow> bool) \<Rightarrow> 'a list \<Rightarrow> nat \<Rightarrow> bool" where
  "up_defect ok xs i \<longleftrightarrow> i < length xs \<and>
     (\<forall>j. 0 < j \<longrightarrow> j < length xs \<longrightarrow> j \<noteq> i \<longrightarrow> ok (xs ! parent_of j) (xs ! j)) \<and>
     (\<forall>j. 0 < i \<longrightarrow> 0 < j \<longrightarrow> j < length xs \<longrightarrow> parent_of j = i \<longrightarrow> ok (xs ! parent_of i) (xs ! j))"

definition down_defect :: "('a \<Rightarrow> 'a \<Rightarrow> bool) \<Rightarrow> 'a list \<Rightarrow> nat \<Rightarrow> bool" where
  "down_defect ok xs i \<longleftrightarrow>
     (\<forall>j. 0 < j \<longrightarrow> j < length xs \<longrightarrow> parent_of j \<noteq> i \<longrightarrow> ok (xs ! parent_of j) (xs ! j)) \<and>
     (\<forall>j. 0 < i \<longrightarrow> 0 < j \<longrightarrow> j < length xs \<longrightarrow> parent_of j = i \<longrightarrow> ok (xs ! parent_of i) (xs ! j))"

lemma parent_of_less: "0 < i \<Longrightarrow> parent_of i < i"
  by (simp add: parent_of_def)

lemma parent_of_eq: "0 < j \<Longrightarrow> parent_of j = i \<longleftrightarrow> j = 2 * i + 1 \<or> j = 2 * i + 2"
  by (auto simp: parent_of_def)

locale sift_order =
  fixes ok :: "'a \<Rightarrow> 'a \<Rightarrow> bool" and sw :: "'a \<Rightarrow> 'a \<Rightarrow> bool"
  assumes ok_trans: "ok x y \<Longrightarrow> ok y z \<Longrightarrow> ok x z"
    and stay: "\<not> sw p c \<Longrightarrow> ok p c"
    and swap: "sw p c \<Longrightarrow> ok c p"
begin

lemma ok_total: "ok x y \<or> ok y x"
  using stay swap by blast

lemma ok_refl: "ok x x"
  using ok_total by blast

lemma up_defect_swap:
  assumes d: "up_defect ok xs i" and i: "0 < i" and s: "sw (xs ! parent_of i) (xs ! i)"
  shows "up_defect ok (swap_at xs i (parent_of i)) (parent_of i)"
proof -
  let ?p = "parent_of i" and ?ys = "swap_at xs i (parent_of i)"
  have p: "?p < i" "i < length xs" using i d by (auto simp: parent_of_less up_defect_def)
  have nth: "?ys ! k = (if k = ?p then xs ! i else if k = i then xs ! ?p else xs ! k)"
    if "k < length xs" for k using p that by (simp add: swap_at_nth)
  have ok: "ok (xs ! i) (xs ! ?p)" using s by (rule swap)
  have other: "ok (xs ! parent_of j) (xs ! j)" if "0 < j" "j < length xs" "j \<noteq> i" for j
    using d that by (simp add: up_defect_def)
  have grand: "ok (xs ! ?p) (xs ! j)" if "0 < j" "j < length xs" "parent_of j = i" for j
    using d that i by (simp add: up_defect_def)
  have A: "ok (?ys ! parent_of j) (?ys ! j)" if j: "0 < j" "j < length xs" "j \<noteq> ?p" for j
  proof -
    have pj: "parent_of j < length xs" "parent_of j < j" using parent_of_less [OF j(1)] j(2) by auto
    consider "j = i" | "j \<noteq> i" "parent_of j = i" | "j \<noteq> i" "parent_of j = ?p"
      | "j \<noteq> i" "parent_of j \<noteq> i" "parent_of j \<noteq> ?p" by blast
    then show ?thesis
    proof cases
      case 1 then show ?thesis using nth p ok by simp
    next
      case 2 then show ?thesis using nth [OF pj(1)] nth [OF j(2)] grand [OF j(1,2)] j(3) p by auto
    next
      case 3
      have "ok (xs ! ?p) (xs ! j)" using other [OF j(1,2) 3(1)] 3(2) by simp
      then have "ok (xs ! i) (xs ! j)" using ok ok_trans by blast
      then show ?thesis using nth [OF pj(1)] nth [OF j(2)] 3 j(3) by simp
    next
      case 4
      then show ?thesis using nth [OF pj(1)] nth [OF j(2)] other [OF j(1,2)] j(3) by simp
    qed
  qed
  have B: "ok (?ys ! parent_of ?p) (?ys ! j)"
    if j: "0 < ?p" "0 < j" "j < length xs" "parent_of j = ?p" for j
  proof -
    have pp: "parent_of ?p < ?p" using parent_of_less [OF j(1)] .
    then have g: "?ys ! parent_of ?p = xs ! parent_of ?p" using nth [of "parent_of ?p"] p by simp
    have 1: "ok (xs ! parent_of ?p) (xs ! ?p)" using other [of ?p] j(1) p by simp
    have "j \<noteq> ?p" using parent_of_less [OF j(2)] j(4) by simp
    then have "?ys ! j = (if j = i then xs ! ?p else xs ! j)" using nth [OF j(3)] by simp
    moreover have "ok (xs ! ?p) (xs ! j)" if "j \<noteq> i" using other [OF j(2,3) that] j(4) by simp
    ultimately show ?thesis using 1 g ok_trans by auto
  qed
  show ?thesis unfolding up_defect_def using A B p by simp
qed

lemma up_defect_done:
  "up_defect ok xs i \<Longrightarrow> i = 0 \<or> ok (xs ! parent_of i) (xs ! i) \<Longrightarrow> heap_on ok xs"
  by (auto simp: up_defect_def heap_on_def)

lemma up_list_heap: "up_defect ok xs i \<Longrightarrow> heap_on ok (up_list sw xs i)"
proof (induction i arbitrary: xs rule: less_induct)
  case (less i)
  show ?case
  proof (cases "0 < i \<and> sw (xs ! parent_of i) (xs ! i)")
    case True
    then have "heap_on ok (up_list sw (swap_at xs i (parent_of i)) (parent_of i))"
      using less.IH less.prems up_defect_swap parent_of_less by blast
    then show ?thesis using True by (subst up_list.simps) (simp add: parent_of_def)
  next
    case False
    then have "i = 0 \<or> ok (xs ! parent_of i) (xs ! i)" using stay by auto
    with less.prems have "heap_on ok xs" by (rule up_defect_done)
    then show ?thesis using False by (subst up_list.simps) (auto simp: parent_of_def)
  qed
qed

lemma heap_root_top:
  assumes "heap_on ok xs"
  shows "i < length xs \<Longrightarrow> ok (xs ! 0) (xs ! i)"
proof (induction i rule: less_induct)
  case (less i)
  show ?case
  proof (cases "i = 0")
    case True
    then show ?thesis by (simp add: ok_refl)
  next
    case False
    then have p: "parent_of i < i" by (simp add: parent_of_less)
    then have "ok (xs ! 0) (xs ! parent_of i)" using less by simp
    moreover have "ok (xs ! parent_of i) (xs ! i)"
      using assms less.prems False by (simp add: heap_on_def)
    ultimately show ?thesis by (rule ok_trans)
  qed
qed

lemma up_defect_append:
  assumes "heap_on ok xs"
  shows "up_defect ok (xs @ [x]) (length xs)"
proof -
  have "ok ((xs @ [x]) ! parent_of j) ((xs @ [x]) ! j)" if "0 < j" "j < length xs" for j
    using assms that parent_of_less [of j] by (simp add: heap_on_def nth_append)
  moreover have "parent_of j \<noteq> length xs" if "0 < j" "j < Suc (length xs)" for j
    using parent_of_less [OF that(1)] that(2) by linarith
  ultimately show ?thesis unfolding up_defect_def by auto
qed

end

lemma heap_on_butlast:
  assumes "heap_on ok xs"
  shows "heap_on ok (butlast xs)"
  unfolding heap_on_def
proof (intro allI impI)
  fix j assume j: "0 < j" "j < length (butlast xs)"
  then have "parent_of j < length (butlast xs)" using parent_of_less [of j] by linarith
  moreover have "ok (xs ! parent_of j) (xs ! j)"
    using assms j unfolding heap_on_def by (metis length_butlast less_imp_diff_less less_le_trans diff_le_self)
  ultimately show "ok (butlast xs ! parent_of j) (butlast xs ! j)"
    using j(2) by (simp only: nth_butlast)
qed

lemma down_defect_root: "heap_on ok xs \<Longrightarrow> down_defect ok (xs[0 := v]) 0"
  by (simp add: heap_on_def down_defect_def)

locale sift_down_order = sift_order +
  fixes pick :: "'a \<Rightarrow> 'a \<Rightarrow> bool"
  assumes pick_second: "pick a b \<Longrightarrow> ok b a"
    and pick_first: "\<not> pick a b \<Longrightarrow> ok a b"
begin

lemma child_at_best:
  assumes "0 < j" and "j < length xs" and "parent_of j = i"
  shows "ok (xs ! child_at pick xs i) (xs ! j)"
proof -
  have "j = 2 * i + 1 \<or> j = 2 * i + 2" using assms parent_of_eq by blast
  then show ?thesis
    using assms(2) pick_first pick_second ok_refl by (auto simp: child_at_def)
qed

lemma child_at_parent: "parent_of (child_at pick xs i) = i"
  by (simp add: child_at_def parent_of_def)

lemma down_defect_swap:
  assumes d: "down_defect ok xs i" and c: "2 * i + 1 < length xs"
    and s: "sw (xs ! i) (xs ! child_at pick xs i)"
  shows "down_defect ok (swap_at xs i (child_at pick xs i)) (child_at pick xs i)"
proof -
  let ?c = "child_at pick xs i"
  let ?ys = "swap_at xs i ?c"
  have cl: "?c < length xs" "i < ?c" "i < length xs"
    using child_at_less [OF c, of pick] child_at_gt [of i pick xs] by auto
  have nth: "?ys ! k = (if k = ?c then xs ! i else if k = i then xs ! ?c else xs ! k)"
    if "k < length xs" for k using cl that by (simp add: swap_at_nth)
  have top: "ok (xs ! ?c) (xs ! i)" using s by (rule swap)
  have old: "ok (xs ! parent_of j) (xs ! j)" if "0 < j" "j < length xs" "parent_of j \<noteq> i" for j
    using d that by (simp add: down_defect_def)
  have grand: "ok (xs ! parent_of i) (xs ! j)" if "0 < i" "0 < j" "j < length xs" "parent_of j = i" for j
    using d that by (simp add: down_defect_def)
  have pc: "parent_of ?c = i" by (rule child_at_parent)
  have A: "ok (?ys ! parent_of j) (?ys ! j)"
    if j: "0 < j" "j < length xs" "parent_of j \<noteq> ?c" for j
  proof -
    have pj: "parent_of j < length xs" "parent_of j < j" using parent_of_less [OF j(1)] j(2) by auto
    consider "j = i" | "parent_of j = i" | "j \<noteq> i" "parent_of j \<noteq> i" by blast
    then show ?thesis
    proof cases
      case 1
      have "ok (xs ! parent_of i) (xs ! ?c)" using grand [of ?c] 1 j(1) cl pc by simp
      then show ?thesis using nth [OF pj(1)] nth [OF j(2)] 1 pj(2) cl by auto
    next
      case 2
      then have "?ys ! parent_of j = xs ! ?c" using nth [OF pj(1)] cl by simp
      moreover have "?ys ! j = (if j = ?c then xs ! i else xs ! j)" using nth [OF j(2)] 2 pj(2) by simp
      ultimately show ?thesis using top child_at_best [OF j(1,2) 2] by simp
    next
      case 3
      then show ?thesis using nth [OF pj(1)] nth [OF j(2)] old [OF j(1,2)] j(3) pc by auto
    qed
  qed
  have B: "ok (?ys ! parent_of ?c) (?ys ! j)"
    if j: "0 < j" "j < length xs" "parent_of j = ?c" for j
  proof -
    have "?c < j" using parent_of_less [OF j(1)] j(3) by simp
    then have "?ys ! j = xs ! j" using nth [OF j(2)] cl by simp
    moreover have "?ys ! parent_of ?c = xs ! ?c" using nth [of i] pc cl by simp
    moreover have "ok (xs ! ?c) (xs ! j)" using old [OF j(1,2)] j(3) cl by simp
    ultimately show ?thesis by simp
  qed
  show ?thesis unfolding down_defect_def using A B by simp
qed

lemma down_defect_done:
  assumes d: "down_defect ok xs i"
    and e: "2 * i + 1 < length xs \<Longrightarrow> ok (xs ! i) (xs ! child_at pick xs i)"
  shows "heap_on ok xs"
  unfolding heap_on_def
proof (intro allI impI)
  fix j assume j: "0 < j" "j < length xs"
  show "ok (xs ! parent_of j) (xs ! j)"
  proof (cases "parent_of j = i")
    case True
    then have "j = 2 * i + 1 \<or> j = 2 * i + 2" using parent_of_eq [OF j(1)] by simp
    then have "2 * i + 1 < length xs" using j(2) by linarith
    then have "ok (xs ! i) (xs ! child_at pick xs i)" by (rule e)
    then show ?thesis using child_at_best [OF j True] ok_trans True by simp
  next
    case False
    then show ?thesis using d j by (simp add: down_defect_def)
  qed
qed

lemma down_list_heap: "down_defect ok xs i \<Longrightarrow> heap_on ok (down_list sw pick xs i)"
proof (induction "length xs - i" arbitrary: xs i rule: less_induct)
  case less
  let ?c = "child_at pick xs i"
  show ?case
  proof (cases "2 * i + 1 < length xs \<and> sw (xs ! i) (xs ! ?c)")
    case True
    have "length xs - ?c < length xs - i"
      using True child_at_gt [of i pick xs] by (intro diff_less_mono2) auto
    then have "heap_on ok (down_list sw pick (swap_at xs i ?c) ?c)"
      using less.hyps [of "swap_at xs i ?c" ?c] down_defect_swap [OF less.prems] True by simp
    then show ?thesis using True by (subst down_list.simps) simp
  next
    case False
    then have "heap_on ok xs" using down_defect_done [OF less.prems] stay by simp
    then show ?thesis using False by (subst down_list.simps) auto
  qed
qed

end

end
