(* ===== verification/Callbacks.thy ===== *)
theory Callbacks
  imports Prelude
begin

text \<open>
  The comparison callbacks the containers take: their contract as a locale, and the callbacks of
  the repository that meet it (\<^verbatim>\<open>default_compare\<close> of \<^verbatim>\<open>lib/ds/hashmap.c\<close>, which is \<^verbatim>\<open>strcmp\<close>,
  and \<^verbatim>\<open>heap_cmp\<close> of \<^verbatim>\<open>tests/src/heap_tests.c\<close>).
  A callback gets two \<^verbatim>\<open>void *\<close> and dereferences both, so the model hands it the objects and
  makes a NULL argument an error.
\<close>

definition call_cmp :: "('a \<Rightarrow> 'b \<Rightarrow> int) \<Rightarrow> 'a option \<Rightarrow> 'b option \<Rightarrow> int res" where
  "call_cmp cmp a b =
     (case a of None \<Rightarrow> Inl Null_Deref
      | Some x \<Rightarrow> (case b of None \<Rightarrow> Inl Null_Deref | Some y \<Rightarrow> Inr (cmp x y)))"

lemma call_cmp_Some [simp, run_simps]: "call_cmp cmp (Some x) (Some y) = Inr (cmp x y)"
  by (simp add: call_cmp_def)

text \<open>
  The code only tests the sign of a comparison for \<^verbatim>\<open>> 0\<close>. Reading \<open>cmp x y > 0\<close> as
  ``\<open>x\<close> belongs after \<open>y\<close>'', the contract is that this is a strict weak order.
\<close>

locale comparator =
  fixes cmp :: "'a \<Rightarrow> 'a \<Rightarrow> int"
  assumes cmp_asym: "0 < cmp x y \<Longrightarrow> \<not> 0 < cmp y x"
    and cmp_trans: "\<not> 0 < cmp x y \<Longrightarrow> \<not> 0 < cmp y z \<Longrightarrow> \<not> 0 < cmp x z"
begin

lemma cmp_irrefl: "\<not> 0 < cmp x x"
  using cmp_asym by blast

lemma cmp_total: "\<not> 0 < cmp x y \<or> \<not> 0 < cmp y x"
  using cmp_asym by blast

end

text \<open>A container that looks up keys only needs to know which keys are equal.\<close>

locale key_equality =
  fixes compare :: "'a \<Rightarrow> 'a \<Rightarrow> int"
  assumes compare_eq: "compare x y = 0 \<longleftrightarrow> x = y"
begin

lemma compare_refl [simp]: "compare x x = 0"
  by (simp add: compare_eq)

end

section \<open>The callbacks of the repository\<close>

definition heap_cmp :: "int \<Rightarrow> int \<Rightarrow> int" where
  "heap_cmp x y = (if x < y then 1 else 0)"

interpretation heap_cmp_order: comparator heap_cmp
  by unfold_locales (auto simp: heap_cmp_def split: if_splits)

text \<open>
  A C string is the list of its characters before the terminating NUL. \<^verbatim>\<open>strcmp\<close> compares
  them as unsigned characters; only the sign of its result is specified.
\<close>

definition uchar :: "char \<Rightarrow> int" where
  "uchar c = int (of_char c)"

fun strcmp :: "string \<Rightarrow> string \<Rightarrow> int" where
  "strcmp [] [] = 0"
| "strcmp [] (b # bs) = - 1"
| "strcmp (a # as) [] = 1"
| "strcmp (a # as) (b # bs) =
     (if uchar a < uchar b then - 1 else if uchar b < uchar a then 1 else strcmp as bs)"

lemma uchar_inject [simp]: "uchar a = uchar b \<longleftrightarrow> a = b"
  by (simp add: uchar_def)

lemma strcmp_eq_0 [simp]: "strcmp a b = 0 \<longleftrightarrow> a = b"
proof (induction a b rule: strcmp.induct)
  case (4 a as b bs)
  have "a = b" if "\<not> uchar a < uchar b" "\<not> uchar b < uchar a"
    using that uchar_inject [of a b] by linarith
  with 4 show ?case by auto
qed auto

lemma strcmp_anti: "strcmp b a = - strcmp a b"
  by (induction a b rule: strcmp.induct) auto

lemma strcmp_Cons_le:
  "strcmp (a # as) (b # bs) \<le> 0 \<longleftrightarrow> uchar a < uchar b \<or> a = b \<and> strcmp as bs \<le> 0"
  by (cases rule: linorder_cases [of "uchar a" "uchar b"]) auto

lemma strcmp_le_trans: "strcmp a b \<le> 0 \<Longrightarrow> strcmp b c \<le> 0 \<Longrightarrow> strcmp a c \<le> 0"
proof (induction a b arbitrary: c rule: strcmp.induct)
  case (2 b bs)
  then show ?case by (cases c) auto
next
  case (4 a as b bs)
  then obtain x xs where c: "c = x # xs" by (cases c) auto
  have 1: "uchar a < uchar b \<or> a = b \<and> strcmp as bs \<le> 0"
    using "4.prems"(1) strcmp_Cons_le by blast
  have 2: "uchar b < uchar x \<or> b = x \<and> strcmp bs xs \<le> 0"
    using "4.prems"(2) strcmp_Cons_le c by blast
  have IH: "strcmp as xs \<le> 0" if "a = b" "strcmp as bs \<le> 0" "strcmp bs xs \<le> 0"
    using "4.IH" that by simp
  show ?case unfolding c strcmp_Cons_le using 1 2 IH by (elim disjE conjE) auto
qed auto

definition default_compare :: "string option \<Rightarrow> string option \<Rightarrow> int res" where
  "default_compare a b =
     (case a of None \<Rightarrow> Inl Assert_Failed
      | Some x \<Rightarrow> (case b of None \<Rightarrow> Inl Assert_Failed | Some y \<Rightarrow> Inr (strcmp x y)))"

interpretation strcmp_order: comparator strcmp
proof unfold_locales
  fix x y z
  show "0 < strcmp x y \<Longrightarrow> \<not> 0 < strcmp y x" using strcmp_anti [of x y] by simp
  show "\<not> 0 < strcmp x y \<Longrightarrow> \<not> 0 < strcmp y z \<Longrightarrow> \<not> 0 < strcmp x z"
    using strcmp_le_trans [of x y z] by simp
qed

interpretation strcmp_keys: key_equality strcmp
  by unfold_locales simp

end
