(* ===== verification/Binary_Heap.thy ===== *)
theory Binary_Heap
  imports Linked_List Sifting Callbacks
begin

text \<open>
  The generic binary heap of \<^verbatim>\<open>lib/ds/heap.h\<close> and \<^verbatim>\<open>lib/ds/heap.c\<close>: an array laid out as a
  complete tree, a comparison callback, and a flag \<open>htype\<close> (0: max heap, otherwise min heap).
  Both sifting loops are written as the code has them, with the array accesses that can fail, and
  shown to compute the list functions of theory Sifting.
\<close>

section \<open>Data\<close>

definition HEAP_INITIAL_ARRAY_SIZE :: nat where "HEAP_INITIAL_ARRAY_SIZE = 300"

record 'a heap =
  h_addr :: ptr
  h_mtx :: ptr
  htype :: int
  hcontents :: "'a darray"
  hcmp :: "'a \<Rightarrow> 'a \<Rightarrow> int"
  h_elementSize :: nat

definition Heap_count :: "'a heap \<Rightarrow> int" where
  "Heap_count h = Darray_count (hcontents h)"

definition Heap_end :: "'a heap \<Rightarrow> int" where
  "Heap_end h = Heap_count h"

definition Heap_get :: "'a heap \<Rightarrow> int \<Rightarrow> 'a option res" where
  "Heap_get h index = Darray_get (hcontents h) index"

definition Heap_empty :: "'a heap \<Rightarrow> bool" where
  "Heap_empty h \<longleftrightarrow> Heap_count h = 0"

definition Heap_root :: "'a heap \<Rightarrow> 'a option res" where
  "Heap_root h = Heap_get h 0"

definition Heap_set :: "'a heap \<Rightarrow> int \<Rightarrow> 'a option \<Rightarrow> 'a heap res" where
  "Heap_set h index v =
     rbind (Darray_set (hcontents h) index v) (\<lambda>d. Inr (h\<lparr>hcontents := d\<rparr>))"

section \<open>Sifting\<close>

function heap_up_loop :: "'a heap \<Rightarrow> nat \<Rightarrow> 'a heap res" where
  "heap_up_loop h i =
     (if \<not> i > 0 then Inr h
      else let p = (i - 1) div 2 in
        rbind (Heap_get h (int i)) (\<lambda>child.
        rbind (Heap_get h (int p)) (\<lambda>parent.
        rbind (call_cmp (hcmp h) parent child) (\<lambda>cmp.
          if cmp > 0 \<and> htype h = 0 then
            rbind (Heap_set h (int i) parent) (\<lambda>h1.
            rbind (Heap_set h1 (int p) child) (\<lambda>h2. heap_up_loop h2 ((i - 1) div 2)))
          else if cmp \<le> 0 \<and> htype h \<noteq> 0 then
            rbind (Heap_set h (int i) parent) (\<lambda>h1.
            rbind (Heap_set h1 (int p) child) (\<lambda>h2. heap_up_loop h2 ((i - 1) div 2)))
          else Inr h))))"
  by pat_completeness auto
termination
  by (relation "measure snd") auto

declare heap_up_loop.simps [simp del]

definition Heap_sift_up :: "'a heap \<Rightarrow> 'a heap res" where
  "Heap_sift_up h =
     (if Heap_count h \<le> 1 then Inr h
      else heap_up_loop h (nat (Heap_end h - 1)))"

text \<open>The child the parent is compared with, and its index: the last child has no sibling.\<close>

definition heap_pick_child :: "'a heap \<Rightarrow> nat \<Rightarrow> nat \<Rightarrow> ('a option \<times> nat) res" where
  "heap_pick_child h p end' =
     (if p + 1 \<ge> end' then rbind (Heap_get h (int p)) (\<lambda>g. Inr (g, p))
      else
        rbind (Heap_get h (int p)) (\<lambda>child1.
        rbind (Heap_get h (int (p + 1))) (\<lambda>child2.
        rbind (call_cmp (hcmp h) child1 child2) (\<lambda>cmp.
          if htype h = 0
          then (if cmp > 0 then Inr (child2, p + 1) else Inr (child1, p))
          else (if cmp > 0 then Inr (child2, p + 1) else Inr (child1, p))))))"

lemma heap_pick_child_index: "heap_pick_child h p e = Inr (g, q) \<Longrightarrow> p \<le> q"
  by (auto simp: heap_pick_child_def rbind_eq_Inr split: if_splits)

function heap_down_loop :: "'a heap \<Rightarrow> nat \<Rightarrow> nat \<Rightarrow> 'a heap res" where
  "heap_down_loop h i end' =
     (if \<not> i < end' then Inr h
      else if int i * 2 + 1 > INT_MAX then Inl Int_Overflow
      else
        rbind (Heap_get h (int i)) (\<lambda>parent.
          if i * 2 + 1 \<ge> end' then Inr h
          else rbind (heap_pick_child h (i * 2 + 1) end') (\<lambda>(greaterChild, p).
            rbind (call_cmp (hcmp h) parent greaterChild) (\<lambda>cmp.
              if cmp > 0 \<and> htype h = 0 then
                rbind (Heap_set h (int i) greaterChild) (\<lambda>h1.
                rbind (Heap_set h1 (int p) parent) (\<lambda>h2. heap_down_loop h2 p end'))
              else if cmp \<le> 0 \<and> htype h \<noteq> 0 then
                rbind (Heap_set h (int i) greaterChild) (\<lambda>h1.
                rbind (Heap_set h1 (int p) parent) (\<lambda>h2. heap_down_loop h2 p end'))
              else Inr h))))"
  by pat_completeness auto
termination
  by (relation "measure (\<lambda>(h, i, e). e - i)") (auto dest!: heap_pick_child_index)

declare heap_down_loop.simps [simp del]

definition Heap_sift_down :: "'a heap \<Rightarrow> 'a heap res" where
  "Heap_sift_down h =
     (if Heap_count h \<le> 1 then Inr h
      else heap_down_loop h 0 (nat (Heap_end h)))"

section \<open>Operations\<close>

definition Heap_push :: "'a heap \<Rightarrow> 'a option \<Rightarrow> 's cmem_scheme \<Rightarrow> ('a heap \<times> 's cmem_scheme) res" where
  "Heap_push h value s =
     (if value = None then Inl Assert_Failed
      else rbind (Darray_push (hcontents h) value s) (\<lambda>(rc, d, s1).
        rbind (Heap_sift_up (h\<lparr>hcontents := d\<rparr>)) (\<lambda>h1. Inr (h1, s1))))"

definition Heap_pop :: "'a heap \<Rightarrow> 's cmem_scheme \<Rightarrow> ('a option \<times> 'a heap \<times> 's cmem_scheme) res" where
  "Heap_pop h s =
     rbind (Darray_get (hcontents h) 0) (\<lambda>oldRoot.
     rbind (Darray_pop (hcontents h) s) (\<lambda>(last, d, s1).
     rbind (Darray_set d 0 last) (\<lambda>d2.
     rbind (Heap_sift_down (h\<lparr>hcontents := d2\<rparr>)) (\<lambda>h2. Inr (oldRoot, h2, s1)))))"

definition Heap_pop_replace :: "'a heap \<Rightarrow> 'a option \<Rightarrow> ('a option \<times> 'a heap) res" where
  "Heap_pop_replace h value =
     rbind (Darray_get (hcontents h) 0) (\<lambda>root.
     rbind (Darray_set (hcontents h) 0 value) (\<lambda>d.
     rbind (Heap_sift_down (h\<lparr>hcontents := d\<rparr>)) (\<lambda>h1. Inr (root, h1))))"

text \<open>
  \<^verbatim>\<open>pthread_mutex_init\<close> is compared with -1, which it never returns. When \<^verbatim>\<open>calloc\<close> of the
  mutex fails, \<^verbatim>\<open>Darray_destroy\<close> and \<^verbatim>\<open>free\<close> release what was built.
\<close>

definition Heap_create ::
  "nat \<Rightarrow> int \<Rightarrow> ('a \<Rightarrow> 'a \<Rightarrow> int) option \<Rightarrow> 's cmem_scheme
    \<Rightarrow> ('a heap option \<times> 's cmem_scheme) res" where
  "Heap_create elSize type cmp s =
     (case cmp of None \<Rightarrow> Inl Assert_Failed
      | Some c \<Rightarrow>
        if \<not> elSize > 0 then Inl Assert_Failed
        else let (heap, s1) = c_alloc s in
          if heap = NULL then Inr (None, s1)
          else rbind (Darray_create elSize HEAP_INITIAL_ARRAY_SIZE s1) (\<lambda>(arr, s2).
            case arr of
              None \<Rightarrow> rbind (c_free heap s2) (\<lambda>s3. Inr (None, s3))
            | Some d \<Rightarrow>
                let (mtx, s3) = c_alloc s2 in
                if mtx = NULL
                then rbind (Darray_destroy d s3) (\<lambda>s4. rbind (c_free heap s4) (\<lambda>s5. Inr (None, s5)))
                else let (rc, s4) = c_mutex_init s3 in
                  if rc = -1
                  then rbind (Darray_destroy d s4) (\<lambda>s5. rbind (c_free heap s5) (\<lambda>s6.
                         rbind (c_free mtx s6) (\<lambda>s7. Inr (None, s7))))
                  else Inr (Some \<lparr>h_addr = heap, h_mtx = mtx, htype = type, hcontents = d,
                                   hcmp = c, h_elementSize = elSize\<rparr>, s4)))"

definition Heap_clear :: "ptr heap \<Rightarrow> 's cmem_scheme \<Rightarrow> 's cmem_scheme res" where
  "Heap_clear h s = Darray_clear (hcontents h) s"

definition Heap_destroy :: "ptr heap \<Rightarrow> 's cmem_scheme \<Rightarrow> 's cmem_scheme res" where
  "Heap_destroy h s =
     rbind (Darray_clear_destroy (hcontents h) s) (\<lambda>s1.
     rbind (c_free (h_mtx h) s1) (\<lambda>s2. c_free (h_addr h) s2))"

definition Heap_free :: "'a heap \<Rightarrow> 's cmem_scheme \<Rightarrow> 's cmem_scheme res" where
  "Heap_free h s =
     rbind (Darray_destroy (hcontents h) s) (\<lambda>s1.
     rbind (c_free (h_mtx h) s1) (\<lambda>s2. c_free (h_addr h) s2))"

text \<open>The C array argument is the list of its elements; reading past it is undefined.\<close>

definition Heap_from_array ::
  "'a option list \<Rightarrow> int \<Rightarrow> nat \<Rightarrow> int \<Rightarrow> ('a \<Rightarrow> 'a \<Rightarrow> int) option \<Rightarrow> 's cmem_scheme
    \<Rightarrow> ('a heap option \<times> 's cmem_scheme) res" where
  "Heap_from_array array size' elSize type cmp s =
     (if cmp = None then Inl Assert_Failed
      else if size' = 0 then Inl Assert_Failed
      else rbind (Heap_create elSize type cmp s) (\<lambda>(heap, s1).
        case heap of
          None \<Rightarrow> Inr (None, s1)
        | Some h \<Rightarrow>
            rbind (rfor [0..<nat size'] (\<lambda>i (h', s').
                     if i < length array then Heap_push h' (array ! i) s' else Inl Out_Of_Bounds)
                   (h, s1))
              (\<lambda>(h2, s2). Inr (Some h2, s2))))"

definition Heap_from_list ::
  "clist \<Rightarrow> int \<Rightarrow> ('a \<Rightarrow> 'a \<Rightarrow> int) option \<Rightarrow> ('a, 'o, 's) lmem_scheme
    \<Rightarrow> ('a heap option \<times> ('a, 'o, 's) lmem_scheme) res" where
  "Heap_from_list list type cmp s =
     rbind (Heap_create (l_elementSize list) type cmp s) (\<lambda>(heap, s1).
       case heap of
         None \<Rightarrow> Inr (None, s1)
       | Some h \<Rightarrow>
           rbind (cwhile (\<lambda>st. fst st \<noteq> NULL)
                    (\<lambda>(node, h, s).
                       rbind (node_get node s) (\<lambda>n.
                       rbind (Heap_push h (lval n) s) (\<lambda>(h1, s1). Inr (lnext n, h1, s1))))
                    (l_first list, h, s1))
             (\<lambda>(node, h1, s2). Inr (Some h1, s2)))"

definition Heap_from_darray ::
  "'a darray \<Rightarrow> int \<Rightarrow> ('a \<Rightarrow> 'a \<Rightarrow> int) option \<Rightarrow> 's cmem_scheme
    \<Rightarrow> ('a heap option \<times> 's cmem_scheme) res" where
  "Heap_from_darray array type cmp s =
     rbind (Heap_create (elementSize array) type cmp s) (\<lambda>(heap, s1).
       case heap of
         None \<Rightarrow> Inr (None, s1)
       | Some h \<Rightarrow>
           rbind (rfor [0..<nat (Darray_count array)] (\<lambda>i (h', s').
                    rbind (Darray_get array (int i)) (\<lambda>el. Heap_push h' el s'))
                  (h, s1))
             (\<lambda>(h2, s2). Inr (Some h2, s2)))"

definition Heap_merge ::
  "'a heap \<Rightarrow> 'a heap \<Rightarrow> 's cmem_scheme \<Rightarrow> ('a heap option \<times> 's cmem_scheme) res" where
  "Heap_merge left right s =
     (if h_elementSize left \<noteq> h_elementSize right then Inl Assert_Failed
      else rbind (Heap_create (h_elementSize left) (htype left) (Some (hcmp left)) s) (\<lambda>(heap, s1).
        case heap of
          None \<Rightarrow> Inr (None, s1)
        | Some h \<Rightarrow>
            rbind (rfor [0..<nat (Heap_count left)] (\<lambda>i (h', s').
                     rbind (Darray_get (hcontents left) (int i)) (\<lambda>el. Heap_push h' el s'))
                   (h, s1)) (\<lambda>(h2, s2).
            rbind (rfor [0..<nat (Heap_count right)] (\<lambda>i (h', s').
                     rbind (Darray_get (hcontents right) (int i)) (\<lambda>el. Heap_push h' el s'))
                   (h2, s2)) (\<lambda>(h3, s3). Inr (Some h3, s3)))))"

definition Heap_meld ::
  "'a heap \<Rightarrow> 'a heap \<Rightarrow> 's cmem_scheme \<Rightarrow> ('a heap option \<times> 's cmem_scheme) res" where
  "Heap_meld left right s =
     rbind (Heap_merge left right s) (\<lambda>(newHeap, s1).
       case newHeap of
         None \<Rightarrow> Inr (None, s1)
       | Some h \<Rightarrow>
           rbind (Heap_free left s1) (\<lambda>s2. rbind (Heap_free right s2) (\<lambda>s3. Inr (Some h, s3))))"

section \<open>The loops compute the list functions\<close>

definition swaps :: "'a heap \<Rightarrow> 'a \<Rightarrow> 'a \<Rightarrow> bool" where
  "swaps h p c \<longleftrightarrow> (if htype h = 0 then 0 < hcmp h p c else hcmp h p c \<le> 0)"

definition picks :: "'a heap \<Rightarrow> 'a \<Rightarrow> 'a \<Rightarrow> bool" where
  "picks h a b \<longleftrightarrow> 0 < hcmp h a b"

text \<open>\<open>holds h xs\<close>: the array of \<open>h\<close> is in order and holds the non-NULL elements \<open>xs\<close>.\<close>

definition holds :: "'a heap \<Rightarrow> 'a list \<Rightarrow> bool" where
  "holds h xs \<longleftrightarrow> darray_ok (hcontents h) \<and> darray_list (hcontents h) = map Some xs"

text \<open>\<open>h\<close> with other slots in its buffer.\<close>

abbreviation recontent :: "'a heap \<Rightarrow> 'a slot list \<Rightarrow> 'a heap" where
  "recontent h cs \<equiv> h\<lparr>hcontents := (hcontents h)\<lparr>contents := cs\<rparr>\<rparr>"

lemma swaps_recontent [simp]: "swaps (h\<lparr>hcontents := d\<rparr>) = swaps h"
  by (intro ext) (simp add: swaps_def)

lemma picks_recontent [simp]: "picks (h\<lparr>hcontents := d\<rparr>) = picks h"
  by (intro ext) (simp add: picks_def)

lemma holds_count:
  assumes "holds h xs"
  shows "d_end (hcontents h) = int (length xs)"
  using assms length_darray_list [of "hcontents h"] darray_ok_end(1) [of "hcontents h"]
  by (auto simp: holds_def)

lemma holds_get [run_simps]:
  "holds h xs \<Longrightarrow> i < length xs \<Longrightarrow> Heap_get h (int i) = Inr (Some (xs ! i))"
  using holds_count [of h xs] by (simp add: Heap_get_def holds_def Darray_get_ok)

lemma holds_set:
  assumes "holds h xs" and "i < length xs"
  shows "\<exists>cs. Heap_set h (int i) (Some v) = Inr (recontent h cs) \<and> holds (recontent h cs) (xs[i := v])"
proof -
  let ?d = "hcontents h"
  let ?cs = "(contents ?d)[i := Val (Some v)]"
  have ok: "darray_ok ?d" and l: "darray_list ?d = map Some xs" using assms by (auto simp: holds_def)
  have "Darray_set ?d (int i) (Some v) = Inr (?d\<lparr>contents := ?cs\<rparr>)"
    using Darray_set_ok [OF ok, of "int i" "Some v"] holds_count [OF assms(1)] assms(2) by simp
  moreover have "holds (recontent h ?cs) (xs[i := v])"
    using ok l by (simp add: holds_def map_update)
  ultimately show ?thesis by (auto simp: Heap_set_def)
qed

text \<open>The two stores of an exchange.\<close>

lemma holds_exchange:
  assumes "holds h xs" and "i < length xs" and "j < length xs"
  shows "\<exists>cs. rbind (Heap_set h (int i) (Some (xs ! j))) (\<lambda>h1. rbind (Heap_set h1 (int j) (Some (xs ! i))) f)
      = f (recontent h cs) \<and> holds (recontent h cs) (swap_at xs i j)"
proof -
  obtain cs where 1: "Heap_set h (int i) (Some (xs ! j)) = Inr (recontent h cs)"
    "holds (recontent h cs) (xs[i := xs ! j])" using holds_set [OF assms(1,2)] by blast
  obtain cs' where 2: "Heap_set (recontent h cs) (int j) (Some (xs ! i)) = Inr (recontent h cs')"
    "holds (recontent h cs') (swap_at xs i j)"
    using holds_set [OF 1(2), of j "xs ! i"] assms(3) by (auto simp: swap_at_def)
  show ?thesis using 1 2 by auto
qed

lemma heap_up_loop_ok:
  "holds h xs \<Longrightarrow> i < length xs \<Longrightarrow>
    \<exists>cs. heap_up_loop h i = Inr (recontent h cs) \<and> holds (recontent h cs) (up_list (swaps h) xs i)"
proof (induction i arbitrary: h xs rule: less_induct)
  case (less i)
  show ?case
  proof (cases "0 < i")
    case False
    then have "i = 0" by simp
    then show ?thesis using less.prems
      by (intro exI [of _ "contents (hcontents h)"])
        (simp add: heap_up_loop.simps [of h 0] up_list.simps [of _ xs 0])
  next
    case True
    let ?p = "(i - 1) div 2"
    have p: "?p < i" "?p < length xs" using True less.prems by auto
    have run: "heap_up_loop h i =
      (if swaps h (xs ! ?p) (xs ! i)
       then rbind (Heap_set h (int i) (Some (xs ! ?p))) (\<lambda>h1.
              rbind (Heap_set h1 (int ?p) (Some (xs ! i))) (\<lambda>h2. heap_up_loop h2 ?p))
       else Inr h)"
      using True p less.prems
      by (subst heap_up_loop.simps) (auto simp: run_simps Let_def swaps_def)
    show ?thesis
    proof (cases "swaps h (xs ! ?p) (xs ! i)")
      case False
      then show ?thesis using run less.prems True
        by (intro exI [of _ "contents (hcontents h)"])
          (simp add: up_list.simps [of _ xs i])
    next
      case sw: True
      obtain cs where cs: "heap_up_loop h i = heap_up_loop (recontent h cs) ?p"
        "holds (recontent h cs) (swap_at xs i ?p)"
        using holds_exchange [OF less.prems p(2), of "\<lambda>h2. heap_up_loop h2 ?p"] run sw by auto
      obtain cs' where "heap_up_loop (recontent h cs) ?p = Inr (recontent h cs')"
        "holds (recontent h cs') (up_list (swaps h) (swap_at xs i ?p) ?p)"
        using less.IH [OF p(1) cs(2)] p(2) by auto
      then show ?thesis using cs(1) sw True by (subst up_list.simps) auto
    qed
  qed
qed

lemma heap_pick_child_ok:
  assumes "holds h xs" and "2 * i + 1 < length xs"
  shows "heap_pick_child h (i * 2 + 1) (length xs) =
    Inr (Some (xs ! child_at (picks h) xs i), child_at (picks h) xs i)"
proof -
  have c: "i * 2 + 1 = 2 * i + 1" by simp
  show ?thesis
  proof (cases "2 * i + 2 < length xs")
    case True
    have "Heap_get h (int (2 * i + 1 + 1)) = Inr (Some (xs ! (2 * i + 2)))"
      using holds_get [OF assms(1) True] by simp
    then show ?thesis
      using holds_get [OF assms] True unfolding c
      by (simp add: heap_pick_child_def child_at_def picks_def)
  next
    case False
    then show ?thesis using holds_get [OF assms] assms(2) unfolding c
      by (simp add: heap_pick_child_def child_at_def)
  qed
qed

text \<open>The index arithmetic \<open>2 * i + 1\<close> stays an \<^verbatim>\<open>int\<close> up to \<open>2 ^ 30\<close> elements.\<close>

definition heap_small :: "nat \<Rightarrow> bool" where
  "heap_small n \<longleftrightarrow> n \<le> 1073741824"

lemma heap_down_loop_ok:
  "holds h xs \<Longrightarrow> i < length xs \<Longrightarrow> heap_small (length xs) \<Longrightarrow>
    \<exists>cs. heap_down_loop h i (length xs) = Inr (recontent h cs) \<and>
      holds (recontent h cs) (down_list (swaps h) (picks h) xs i)"
proof (induction "length xs - i" arbitrary: h xs i rule: less_induct)
  case less
  let ?c = "child_at (picks h) xs i"
  have small: "\<not> INT_MAX < int i * 2 + 1"
    using less.prems by (simp add: heap_small_def INT_MAX_def)
  show ?case
  proof (cases "2 * i + 1 < length xs")
    case False
    then show ?thesis
      using less.prems small
      by (intro exI [of _ "contents (hcontents h)"])
        (simp add: heap_down_loop.simps [of h i] down_list.simps [of _ _ xs i] holds_get)
  next
    case True
    have c: "?c < length xs" "i < ?c" using True child_at_less child_at_gt by auto
    have run: "heap_down_loop h i (length xs) =
      (if swaps h (xs ! i) (xs ! ?c)
       then rbind (Heap_set h (int i) (Some (xs ! ?c))) (\<lambda>h1.
              rbind (Heap_set h1 (int ?c) (Some (xs ! i))) (\<lambda>h2. heap_down_loop h2 ?c (length xs)))
       else Inr h)"
      using True less.prems small heap_pick_child_ok [OF less.prems(1) True]
      by (subst heap_down_loop.simps) (auto simp: holds_get swaps_def)
    show ?thesis
    proof (cases "swaps h (xs ! i) (xs ! ?c)")
      case False
      then show ?thesis using run less.prems True
        by (intro exI [of _ "contents (hcontents h)"])
          (simp add: down_list.simps [of _ _ xs i])
    next
      case sw: True
      obtain cs where cs: "heap_down_loop h i (length xs) = heap_down_loop (recontent h cs) ?c (length xs)"
        "holds (recontent h cs) (swap_at xs i ?c)"
        using holds_exchange [OF less.prems(1,2) c(1), of "\<lambda>h2. heap_down_loop h2 ?c (length xs)"]
          run sw by auto
      have "length (swap_at xs i ?c) - ?c < length xs - i"
        using c less.prems(2) by (simp add: diff_less_mono2)
      then obtain cs' where "heap_down_loop (recontent h cs) ?c (length xs) = Inr (recontent h cs')"
        "holds (recontent h cs') (down_list (swaps h) (picks h) (swap_at xs i ?c) ?c)"
        using less.hyps [of "swap_at xs i ?c" ?c "recontent h cs"] cs(2) c(1) less.prems(3) by auto
      then show ?thesis using cs(1) sw True by (subst down_list.simps) auto
    qed
  qed
qed

section \<open>Invariant and heap order\<close>

definition heap_list :: "'a heap \<Rightarrow> 'a list" where
  "heap_list h = map the (darray_list (hcontents h))"

definition heap_inv :: "'a heap \<Rightarrow> 's cmem_scheme \<Rightarrow> bool" where
  "heap_inv h s \<longleftrightarrow> darray_inv (hcontents h) s \<and> None \<notin> set (darray_list (hcontents h))"

text \<open>The order between a parent and its child, for either kind of heap.\<close>

definition heap_ord :: "'a heap \<Rightarrow> 'a \<Rightarrow> 'a \<Rightarrow> bool" where
  "heap_ord h p c \<longleftrightarrow> (if htype h = 0 then \<not> 0 < hcmp h p c else \<not> 0 < hcmp h c p)"

definition is_heap :: "'a heap \<Rightarrow> bool" where
  "is_heap h \<longleftrightarrow> heap_on (heap_ord h) (heap_list h)"

definition same_kind :: "'a heap \<Rightarrow> 'a heap \<Rightarrow> bool" where
  "same_kind h h' \<longleftrightarrow> htype h' = htype h \<and> hcmp h' = hcmp h \<and> h_addr h' = h_addr h \<and>
     h_mtx h' = h_mtx h \<and> h_elementSize h' = h_elementSize h"

lemma heap_inv_holds: "heap_inv h s \<Longrightarrow> holds h (heap_list h)"
proof -
  assume i: "heap_inv h s"
  have "map Some (map the ys) = ys" if "None \<notin> set ys" for ys :: "'a option list"
    using that by (induction ys) auto
  with i show ?thesis by (simp add: heap_inv_def darray_inv_def holds_def heap_list_def)
qed

lemma holds_heap_list: "holds h xs \<Longrightarrow> heap_list h = xs"
  by (simp add: holds_def heap_list_def comp_def)

lemma holds_heap_inv: "holds h xs \<Longrightarrow> darray_inv (hcontents h) s \<Longrightarrow> heap_inv h s"
  by (auto simp: holds_def heap_inv_def)

lemma Heap_sift_up_ok:
  assumes "holds h xs" and "xs \<noteq> []"
  shows "\<exists>cs. Heap_sift_up h = Inr (recontent h cs) \<and>
    holds (recontent h cs) (up_list (swaps h) xs (length xs - 1))"
proof (cases "length xs = 1")
  case True
  then show ?thesis using assms holds_count [OF assms(1)]
    by (intro exI [of _ "contents (hcontents h)"])
      (simp add: Heap_sift_up_def Heap_count_def Darray_count_def up_list.simps [of _ xs 0])
next
  case False
  then have l: "1 < length xs" using assms(2) by (cases xs) auto
  have "nat (int (length xs) - 1) = length xs - 1" by simp
  then have "Heap_sift_up h = heap_up_loop h (length xs - 1)"
    using l holds_count [OF assms(1)]
    by (simp add: Heap_sift_up_def Heap_end_def Heap_count_def Darray_count_def)
  then show ?thesis using heap_up_loop_ok [OF assms(1), of "length xs - 1"] l by simp
qed

lemma Heap_sift_down_ok:
  assumes "holds h xs" and "heap_small (length xs)"
  shows "\<exists>cs. Heap_sift_down h = Inr (recontent h cs) \<and>
    holds (recontent h cs) (down_list (swaps h) (picks h) xs 0)"
proof (cases "1 < length xs")
  case False
  then show ?thesis using assms holds_count [OF assms(1)]
    by (intro exI [of _ "contents (hcontents h)"])
      (simp add: Heap_sift_down_def Heap_count_def Darray_count_def down_list.simps [of _ _ xs 0])
next
  case True
  then have "Heap_sift_down h = heap_down_loop h 0 (length xs)"
    using holds_count [OF assms(1)]
    by (simp add: Heap_sift_down_def Heap_end_def Heap_count_def Darray_count_def)
  moreover have "0 < length xs" using True by linarith
  ultimately show ?thesis using heap_down_loop_ok [OF assms(1) _ assms(2), of 0] by simp
qed

lemma Heap_push_run:
  fixes h :: "'a heap" and s :: "'s cmem_scheme"
  assumes inv: "heap_inv h s" and "ample s" and "room (hcontents h) (Suc n)"
  shows "\<exists>h' s'. Heap_push h (Some x) s = Inr (h', s') \<and> heap_inv h' s' \<and>
    heap_list h' = up_list (swaps h) (heap_list h @ [x]) (length (heap_list h)) \<and>
    same_kind h h' \<and> darray_step (hcontents h) s (hcontents h') s' \<and> ample s' \<and>
    room (hcontents h') n"
proof -
  have hold: "holds h (heap_list h)" using inv by (rule heap_inv_holds)
  obtain d s' where p: "Darray_push (hcontents h) (Some x) s = Inr (0, d, s')" and
    d: "darray_inv d s'" "darray_list d = darray_list (hcontents h) @ [Some x]"
    "darray_step (hcontents h) s d s'" "ample s'" "room d n"
    using Darray_push_ok [of "hcontents h" s n x] assms by (auto simp: heap_inv_def)
  have hold1: "holds (h\<lparr>hcontents := d\<rparr>) (heap_list h @ [x])"
    using d hold by (simp add: holds_def darray_inv_def)
  obtain cs where u: "Heap_sift_up (h\<lparr>hcontents := d\<rparr>) = Inr (h\<lparr>hcontents := d\<lparr>contents := cs\<rparr>\<rparr>)"
    "holds (h\<lparr>hcontents := d\<lparr>contents := cs\<rparr>\<rparr>)
      (up_list (swaps h) (heap_list h @ [x]) (length (heap_list h)))"
    using Heap_sift_up_ok [OF hold1] by auto
  let ?h' = "h\<lparr>hcontents := d\<lparr>contents := cs\<rparr>\<rparr>"
  have "darray_inv (d\<lparr>contents := cs\<rparr>) s'"
    using u(2) d(1) by (simp add: darray_inv_def holds_def)
  then have "heap_inv ?h' s'" using holds_heap_inv [OF u(2), of s'] by simp
  moreover have "darray_step (hcontents h) s (hcontents ?h') s'"
    using darray_step_trans [OF d(3) darray_step_set [of d s' cs]] by simp
  ultimately show ?thesis
    using p u d(4,5) holds_heap_list [OF u(2)]
    by (auto simp: Heap_push_def same_kind_def)
qed

lemma Heap_pop_run:
  fixes h :: "'a heap" and s :: "'s cmem_scheme"
  assumes inv: "heap_inv h s" and ne: "heap_list h \<noteq> []" and small: "heap_small (length (heap_list h))"
  shows "\<exists>h' s'. Heap_pop h s = Inr (Some (hd (heap_list h)), h', s') \<and> heap_inv h' s' \<and>
    heap_list h' = down_list (swaps h) (picks h) ((butlast (heap_list h))[0 := last (heap_list h)]) 0 \<and>
    same_kind h h' \<and> darray_step (hcontents h) s (hcontents h') s'"
proof -
  let ?xs = "heap_list h" and ?d = "hcontents h"
  let ?ys = "(butlast ?xs)[0 := last ?xs]"
  have hold: "holds h ?xs" using inv by (rule heap_inv_holds)
  have ok: "darray_ok ?d" and l: "darray_list ?d = map Some ?xs" using hold by (auto simp: holds_def)
  have dinv: "darray_inv ?d s" using inv by (simp add: heap_inv_def)
  have e: "d_end ?d = int (length ?xs)" using hold by (rule holds_count)
  have g: "Darray_get ?d 0 = Inr (Some (hd ?xs))"
    using Darray_get_ok [OF ok, of 0] e ne l by (simp add: hd_conv_nth)
  obtain d s' where p: "Darray_pop ?d s = Inr (Some (last ?xs), d, s')" and
    d: "darray_inv d s'" "darray_list d = map Some (butlast ?xs)" "d_end d = int (length ?xs) - 1"
    "darray_step ?d s d s'"
    using Darray_pop_ok [OF dinv] e ne l by (auto simp: last_map map_butlast)
  have dok: "darray_ok d" using d(1) by (simp add: darray_inv_def)
  let ?d2 = "d\<lparr>contents := (contents d)[0 := Val (Some (last ?xs))]\<rparr>"
  have set0: "Darray_set d 0 (Some (last ?xs)) = Inr ?d2"
  proof (cases "0 < d_end d")
    case True
    then show ?thesis using Darray_set_ok [OF dok, of 0] by simp
  next
    case False
    then have "d_end d = 0" using dok darray_ok_end(1) [of d] by simp
    moreover from this have "d\<lparr>d_end := 0\<rparr> = d" by simp
    ultimately show ?thesis
      using Darray_set_past_end [OF dok, of 0 "Some (last ?xs)"] darray_ok_end(2) [OF dok] by simp
  qed
  have hold2: "holds (h\<lparr>hcontents := ?d2\<rparr>) ?ys"
    using d(2) dok by (simp add: holds_def map_update)
  have "heap_small (length ?ys)" using small by (simp add: heap_small_def)
  then obtain cs where u: "Heap_sift_down (h\<lparr>hcontents := ?d2\<rparr>)
      = Inr (h\<lparr>hcontents := ?d2\<lparr>contents := cs\<rparr>\<rparr>)"
    "holds (h\<lparr>hcontents := ?d2\<lparr>contents := cs\<rparr>\<rparr>) (down_list (swaps h) (picks h) ?ys 0)"
    using Heap_sift_down_ok [OF hold2] by auto
  let ?h' = "h\<lparr>hcontents := ?d2\<lparr>contents := cs\<rparr>\<rparr>"
  have "darray_inv (?d2\<lparr>contents := cs\<rparr>) s'"
    using u(2) d(1) by (simp add: darray_inv_def holds_def)
  then have "heap_inv ?h' s'" using holds_heap_inv [OF u(2), of s'] by simp
  moreover have "darray_step ?d s (hcontents ?h') s'"
    using darray_step_trans [OF d(4) darray_step_set [of d s' cs]] by simp
  ultimately show ?thesis
    using g p set0 u holds_heap_list [OF u(2)]
    by (auto simp: Heap_pop_def same_kind_def)
qed

text \<open>The two kinds of heap as instances of the sifting contract.\<close>

sublocale comparator \<subseteq> max_sift:
  sift_down_order "\<lambda>p c. \<not> 0 < cmp p c" "\<lambda>p c. 0 < cmp p c" "\<lambda>a b. 0 < cmp a b"
  using cmp_asym cmp_trans by unfold_locales blast+

sublocale comparator \<subseteq> min_sift:
  sift_order "\<lambda>p c. \<not> 0 < cmp c p" "\<lambda>p c. cmp p c \<le> 0"
proof unfold_locales
  fix x y z
  show "\<not> 0 < cmp y x \<Longrightarrow> \<not> 0 < cmp z y \<Longrightarrow> \<not> 0 < cmp z x" using cmp_trans by blast
  show "\<not> cmp x y \<le> 0 \<Longrightarrow> \<not> 0 < cmp y x" using cmp_asym [of x y] by simp
  show "cmp x y \<le> 0 \<Longrightarrow> \<not> 0 < cmp x y" by simp
qed

context comparator
begin

lemma max_push:
  "heap_on (\<lambda>p c. \<not> 0 < cmp p c) xs \<Longrightarrow>
    heap_on (\<lambda>p c. \<not> 0 < cmp p c) (up_list (\<lambda>p c. 0 < cmp p c) (xs @ [x]) (length xs))"
  by (intro max_sift.up_list_heap max_sift.up_defect_append)

lemma min_push:
  "heap_on (\<lambda>p c. \<not> 0 < cmp c p) xs \<Longrightarrow>
    heap_on (\<lambda>p c. \<not> 0 < cmp c p) (up_list (\<lambda>p c. cmp p c \<le> 0) (xs @ [x]) (length xs))"
  by (intro min_sift.up_list_heap min_sift.up_defect_append)

lemma max_replace:
  "heap_on (\<lambda>p c. \<not> 0 < cmp p c) xs \<Longrightarrow>
    heap_on (\<lambda>p c. \<not> 0 < cmp p c)
      (down_list (\<lambda>p c. 0 < cmp p c) (\<lambda>a b. 0 < cmp a b) (xs[0 := v]) 0)"
  by (intro max_sift.down_list_heap down_defect_root)

lemma max_top: "heap_on (\<lambda>p c. \<not> 0 < cmp p c) xs \<Longrightarrow> y \<in> set xs \<Longrightarrow> \<not> 0 < cmp (hd xs) y"
  by (metis hd_conv_nth in_set_conv_nth length_pos_if_in_set length_greater_0_conv
      max_sift.heap_root_top)

lemma min_top: "heap_on (\<lambda>p c. \<not> 0 < cmp c p) xs \<Longrightarrow> y \<in> set xs \<Longrightarrow> \<not> 0 < cmp y (hd xs)"
  by (metis hd_conv_nth in_set_conv_nth length_pos_if_in_set length_greater_0_conv
      min_sift.heap_root_top)

end

lemma heap_ord_same: "same_kind h h' \<Longrightarrow> heap_ord h' = heap_ord h"
  by (intro ext) (simp add: same_kind_def heap_ord_def)

lemma max_kind:
  "htype h = 0 \<Longrightarrow> heap_ord h = (\<lambda>p c. \<not> 0 < hcmp h p c)"
  "htype h = 0 \<Longrightarrow> swaps h = (\<lambda>p c. 0 < hcmp h p c)"
  "picks h = (\<lambda>a b. 0 < hcmp h a b)"
  by (auto simp: heap_ord_def swaps_def picks_def fun_eq_iff)

lemma min_kind:
  "htype h \<noteq> 0 \<Longrightarrow> heap_ord h = (\<lambda>p c. \<not> 0 < hcmp h c p)"
  "htype h \<noteq> 0 \<Longrightarrow> swaps h = (\<lambda>p c. hcmp h p c \<le> 0)"
  by (auto simp: heap_ord_def swaps_def fun_eq_iff)

lemma up_list_is_heap:
  assumes "comparator (hcmp h)" and "heap_on (heap_ord h) xs"
  shows "heap_on (heap_ord h) (up_list (swaps h) (xs @ [x]) (length xs))"
  using assms comparator.max_push [OF assms(1)] comparator.min_push [OF assms(1)]
  by (cases "htype h = 0") (simp_all add: max_kind min_kind)

lemma heap_top:
  assumes "comparator (hcmp h)" and "is_heap h" and "y \<in> set (heap_list h)"
  shows "heap_ord h (hd (heap_list h)) y"
  using assms comparator.max_top [OF assms(1)] comparator.min_top [OF assms(1)]
  by (cases "htype h = 0") (auto simp: is_heap_def max_kind min_kind)

text \<open>What popping leaves behind, in either kind of heap.\<close>

lemma heap_pop_mset:
  assumes "xs \<noteq> []"
  shows "mset ((butlast xs)[0 := last xs]) = mset xs - {#hd xs#}"
proof (cases "butlast xs")
  case Nil
  then have "xs = [last xs]" using assms append_butlast_last_id [of xs] by simp
  then show ?thesis by (metis Nil diff_empty diff_union_cancelR hd_Cons_tl list.sel(1)
      list_update_nonempty mset.simps(1) mset_single_iff_right add_mset_remove_trivial
      list.distinct(1) mset_single_iff)
next
  case (Cons y ys)
  then have "xs = y # ys @ [last xs]" using assms append_butlast_last_id [of xs] by simp
  then show ?thesis using Cons
    by (metis add_mset_remove_trivial list.sel(1) list_update_code(2) mset.simps(2) mset_append
        union_mset_add_mset_right add.right_neutral mset.simps(1))
qed

lemma Heap_pop_max:
  fixes h :: "'a heap" and s :: "'s cmem_scheme"
  assumes "comparator (hcmp h)" and "htype h = 0" and "is_heap h"
    and "heap_inv h s" and "heap_list h \<noteq> []" and "heap_small (length (heap_list h))"
  shows "\<exists>h' s'. Heap_pop h s = Inr (Some (hd (heap_list h)), h', s') \<and> heap_inv h' s' \<and>
    mset (heap_list h') = mset (heap_list h) - {#hd (heap_list h)#} \<and> is_heap h' \<and>
    same_kind h h' \<and> darray_step (hcontents h) s (hcontents h') s'"
proof -
  let ?xs = "heap_list h"
  obtain h' s' where p: "Heap_pop h s = Inr (Some (hd ?xs), h', s')" and 1: "heap_inv h' s'"
    "heap_list h' = down_list (swaps h) (picks h) ((butlast ?xs)[0 := last ?xs]) 0"
    "same_kind h h'" "darray_step (hcontents h) s (hcontents h') s'"
    using Heap_pop_run [OF assms(4,5,6)] by blast
  have "mset (heap_list h') = mset ?xs - {#hd ?xs#}"
    using 1(2) heap_pop_mset [OF assms(5)] by (simp add: mset_down_list)
  moreover have "is_heap h'"
    using 1(2,3) comparator.max_replace [OF assms(1) heap_on_butlast, of ?xs "last ?xs"] assms(2,3)
    by (simp add: is_heap_def heap_ord_same max_kind)
  ultimately show ?thesis using p 1 by blast
qed

lemma Heap_create_ok:
  fixes s :: "'s cmem_scheme" and c :: "'a \<Rightarrow> 'a \<Rightarrow> int"
  assumes "mem_ok s" and "ample s" and "0 < el"
  shows "\<exists>h s'. Heap_create el ty (Some c) s = Inr (Some h, s') \<and> heap_inv h s' \<and>
    heap_list h = [] \<and> d_end (hcontents h) = 0 \<and> htype h = ty \<and> hcmp h = c \<and>
    h_elementSize h = el \<and> darray_owned (hcontents h) s' \<and> ample s' \<and>
    live s \<subseteq> live s' \<and> d_buf (hcontents h) \<notin> live s \<and> fails s' = fails s \<and>
    cmem.more s' = cmem.more s"
proof -
  let ?s1 = "s\<lparr>calls := Suc (calls s), live := insert (Suc (calls s)) (live s)\<rparr>"
  have "mem_ok ?s1" "ample ?s1" using assms by (auto simp: mem_ok_def ample_def)
  then obtain d :: "'a darray" and s2 where
    c: "Darray_create el HEAP_INITIAL_ARRAY_SIZE ?s1 = Inr (Some d, s2)"
    and d: "darray_owned d s2" "darray_list d = []" "d_end d = 0"
      "live s2 = live ?s1 \<union> darray_blocks d" "darray_blocks d \<inter> live ?s1 = {}"
      "mem_grow ?s1 s2" "ample s2"
    using Darray_create_ok [of ?s1 el HEAP_INITIAL_ARRAY_SIZE] assms(3)
    by (auto simp: HEAP_INITIAL_ARRAY_SIZE_def INT_MAX_def)
  let ?s3 = "s2\<lparr>calls := Suc (Suc (calls s2)), live := insert (Suc (calls s2)) (live s2)\<rparr>"
  have nf: "\<not> fails s (calls s)" "\<not> fails s2 (calls s2)" "\<not> fails s2 (Suc (calls s2))"
    using assms(2) d(7) by (auto simp: ample_def)
  let ?h = "\<lparr>h_addr = Suc (calls s), h_mtx = Suc (calls s2), htype = ty, hcontents = d,
    hcmp = c, h_elementSize = el\<rparr>"
  have "Heap_create el ty (Some c) s = Inr (Some ?h, ?s3)"
    using nf assms(3) c by (simp add: Heap_create_def c_alloc_def c_mutex_init_def Let_def)
  moreover have "mem_ok ?s3" using d(1) by (auto simp: darray_owned_def darray_inv_def mem_ok_def)
  then have "heap_inv ?h ?s3" "darray_owned d ?s3"
    using d(1,2) by (auto simp: heap_inv_def darray_owned_def darray_inv_def)
  moreover have "ample ?s3" using d(7) by (simp add: ample_def)
  ultimately show ?thesis
    using d by (auto simp: heap_list_def darray_blocks_def mem_grow_def)
qed

section \<open>Filling and draining\<close>

definition heap_put :: "'a heap \<Rightarrow> 'a \<Rightarrow> 's cmem_scheme \<Rightarrow> ('a heap \<times> 's cmem_scheme) res" where
  "heap_put h x s = Heap_push h (Some x) s"

definition heap_space :: "'a heap \<Rightarrow> nat \<Rightarrow> bool" where
  "heap_space h n \<longleftrightarrow> room (hcontents h) n"

definition heap_step :: "'a heap \<Rightarrow> 's cmem_scheme \<Rightarrow> 'a heap \<Rightarrow> 's cmem_scheme \<Rightarrow> bool" where
  "heap_step h s h' s' \<longleftrightarrow> same_kind h h' \<and> darray_step (hcontents h) s (hcontents h') s'"

lemma heap_step_refl: "heap_step h s h s"
  by (simp add: heap_step_def same_kind_def)

lemma heap_step_trans: "heap_step h s h1 s1 \<Longrightarrow> heap_step h1 s1 h2 s2 \<Longrightarrow> heap_step h s h2 s2"
  using darray_step_trans by (fastforce simp: heap_step_def same_kind_def)

definition heap_wf :: "('a \<Rightarrow> 'a \<Rightarrow> int) \<Rightarrow> 'a heap \<Rightarrow> 's cmem_scheme \<Rightarrow> bool" where
  "heap_wf cmp h s \<longleftrightarrow> heap_inv h s \<and> hcmp h = cmp \<and> is_heap h"

lemma heap_put_wf:
  assumes "comparator cmp" and "heap_wf cmp h s" and "ample s" and "heap_space h (Suc n)"
  shows "\<exists>h' s'. heap_put h x s = Inr (h', s') \<and> heap_wf cmp h' s' \<and>
    mset (heap_list h') = add_mset x (mset (heap_list h)) \<and> heap_step h s h' s' \<and>
    ample s' \<and> heap_space h' n"
proof -
  have i: "heap_inv h s" and c: "hcmp h = cmp" and o: "is_heap h"
    using assms(2) by (auto simp: heap_wf_def)
  obtain h' s' where p: "Heap_push h (Some x) s = Inr (h', s')" and 1: "heap_inv h' s'"
    "heap_list h' = up_list (swaps h) (heap_list h @ [x]) (length (heap_list h))"
    "same_kind h h'" "darray_step (hcontents h) s (hcontents h') s'" "ample s'" "room (hcontents h') n"
    using Heap_push_run [OF i assms(3), of n x] assms(4) by (auto simp: heap_space_def)
  have "is_heap h'"
    using up_list_is_heap [of h "heap_list h" x] assms(1) c o 1(2,3)
    by (simp add: is_heap_def heap_ord_same)
  moreover have "mset (heap_list h') = add_mset x (mset (heap_list h))"
    using 1(2) by (simp add: mset_up_list)
  ultimately show ?thesis
    using p 1 c by (auto simp: heap_put_def heap_wf_def heap_step_def heap_space_def same_kind_def)
qed

sublocale comparator \<subseteq> fill: collector heap_put "heap_wf cmp" "\<lambda>h. mset (heap_list h)"
  "\<lambda>M x. add_mset x M" heap_space ample heap_step
proof unfold_locales
  fix d :: "'a heap" and m :: "'b cmem_scheme" and n x
  assume "heap_wf cmp d m" "ample m" "heap_space d (Suc n)"
  then show "\<exists>d' m'. heap_put d x m = Inr (d', m') \<and> heap_wf cmp d' m' \<and>
      mset (heap_list d') = add_mset x (mset (heap_list d)) \<and> heap_step d m d' m' \<and> ample m' \<and>
      heap_space d' n"
    by (rule heap_put_wf [OF comparator_axioms])
qed (auto intro: heap_step_refl heap_step_trans)

context comparator
begin

text \<open>A loop that pushes the elements of \<open>xs\<close>, whatever it reads them from.\<close>

lemma push_loop:
  assumes "heap_wf cmp h s" and "ample s" and "heap_space h (length xs + k)"
    and "\<And>i h' s'. i < length xs \<Longrightarrow> body i (h', s') = Heap_push h' (Some (xs ! i)) s'"
  shows "\<exists>h' s'. rfor [0..<length xs] body (h, s) = Inr (h', s') \<and> heap_wf cmp h' s' \<and>
    mset (heap_list h') = mset (heap_list h) + mset xs \<and> heap_step h s h' s' \<and> ample s' \<and>
    heap_space h' k"
proof -
  have "rfor [0..<length xs] body (h, s)
      = rfor [0..<length xs] (\<lambda>i (h, s). heap_put h (xs ! i) s) (h, s)"
    using assms(4) by (intro rfor_cong) (auto simp: heap_put_def)
  moreover have "foldl (\<lambda>M x. add_mset x M) M xs = M + mset xs" for M :: "'a multiset"
    by (induction xs arbitrary: M) auto
  ultimately show ?thesis using fill.push_list [OF assms(1-3)] by simp
qed

lemmas put_walk = fill.push_walk

end

text \<open>The client's loop that empties a heap (\<^verbatim>\<open>test_heap_pop\<close> of \<^verbatim>\<open>tests/src/heap_tests.c\<close>).\<close>

fun heap_drain ::
  "nat \<Rightarrow> 'a heap \<Rightarrow> 's cmem_scheme \<Rightarrow> ('a option list \<times> 'a heap \<times> 's cmem_scheme) res" where
  "heap_drain 0 h s = Inr ([], h, s)"
| "heap_drain (Suc n) h s =
     rbind (Heap_pop h s) (\<lambda>(val, h1, s1).
     rbind (heap_drain n h1 s1) (\<lambda>(vals, h2, s2). Inr (val # vals, h2, s2)))"

lemma heap_drain_sorted:
  fixes h :: "'a heap" and s :: "'s cmem_scheme"
  assumes "comparator (hcmp h)" and "htype h = 0" and "is_heap h" and "heap_inv h s"
    and "length (heap_list h) = n" and "heap_small n"
  shows "\<exists>ys h' s'. heap_drain n h s = Inr (map Some ys, h', s') \<and>
    mset ys = mset (heap_list h) \<and> sorted_wrt (\<lambda>a b. \<not> 0 < hcmp h a b) ys \<and> heap_list h' = []"
  using assms
proof (induction n arbitrary: h s)
  case 0
  then show ?case by auto
next
  case (Suc n)
  let ?xs = "heap_list h"
  have ne: "?xs \<noteq> []" using Suc.prems(5) by auto
  obtain h1 s1 where p: "Heap_pop h s = Inr (Some (hd ?xs), h1, s1)" and 1: "heap_inv h1 s1"
    "mset (heap_list h1) = mset ?xs - {#hd ?xs#}" "is_heap h1" "same_kind h h1"
    using Heap_pop_max [OF Suc.prems(1-4) ne] Suc.prems(5,6) by auto
  have k: "hcmp h1 = hcmp h" "htype h1 = htype h" using 1(4) by (auto simp: same_kind_def)
  have hd: "hd ?xs \<in># mset ?xs" using ne by simp
  have len: "length (heap_list h1) = n"
    using 1(2) hd Suc.prems(5) by (metis size_mset size_Diff_singleton diff_Suc_1)
  have "heap_small n" using Suc.prems(6) by (simp add: heap_small_def)
  then obtain ys h2 s2 where d: "heap_drain n h1 s1 = Inr (map Some ys, h2, s2)"
    "mset ys = mset (heap_list h1)" "sorted_wrt (\<lambda>a b. \<not> 0 < hcmp h a b) ys" "heap_list h2 = []"
    using Suc.IH [of h1 s1] Suc.prems 1 k len by auto
  have "\<not> 0 < hcmp h (hd ?xs) y" if "y \<in> set ys" for y
  proof -
    have "y \<in># mset ?xs - {#hd ?xs#}" using that d(2) 1(2) by (metis set_mset_mset)
    then have "y \<in> set ?xs" by (metis in_diffD set_mset_mset)
    then show ?thesis using heap_top [OF Suc.prems(1,3)] Suc.prems(2) by (simp add: heap_ord_def)
  qed
  moreover have "mset (hd ?xs # ys) = mset ?xs" using d(2) 1(2) hd by simp
  ultimately show ?case using p d
    by (intro exI [of _ "hd ?xs # ys"] exI [of _ h2] exI [of _ s2]) simp
qed

section \<open>Popping the last element\<close>

text \<open>\<^verbatim>\<open>Heap_pop\<close> writes the popped last element back to slot 0, also when nothing is left.\<close>

lemma Heap_pop_single:
  assumes "heap_inv h s" and "heap_list h = [x]"
  shows "Heap_pop h s = Inr (Some x,
    h\<lparr>hcontents := (hcontents h)\<lparr>contents := (contents (hcontents h))[0 := Val (Some x)], d_end := 0\<rparr>\<rparr>, s)"
proof -
  let ?d = "hcontents h"
  have hold: "holds h [x]" using heap_inv_holds [OF assms(1)] assms(2) by simp
  have ok: "darray_ok ?d" and l: "darray_list ?d = [Some x]" using hold by (auto simp: holds_def)
  have e: "d_end ?d = 1" using holds_count [OF hold] by simp
  have g: "Darray_get ?d 0 = Inr (Some x)" using Darray_get_ok [OF ok, of 0] e l by simp
  have nl: "\<not> d_locked ?d" "0 < d_max ?d" "contents ?d \<noteq> []"
    using ok e by (auto simp: darray_ok_def)
  have r: "int_of_size_t (expandRate ?d) = 300"
    using ok by (simp add: darray_ok_def DEFAULT_EXPAND_RATE_def INT_MAX_def)
  have "Darray_remove (?d\<lparr>d_locked := True\<rparr>) 0
      = Inr (Some x, ?d\<lparr>contents := (contents ?d)[0 := Val None], d_locked := True\<rparr>)"
    using Darray_remove_last [OF ok, of True] e l by simp
  then have p: "Darray_pop ?d s = Inr (Some x, ?d\<lparr>contents := (contents ?d)[0 := Val None], d_end := 0\<rparr>, s)"
    using e r nl by (simp add: Darray_pop_def d_lock_def d_unlock_def Let_def)
  show ?thesis using g p nl
    by (simp add: Heap_pop_def Darray_set_def d_lock_def d_unlock_def slot_write_def
        Heap_sift_down_def Heap_count_def Darray_count_def)
qed

lemma Heap_pop_emptied:
  assumes "heap_inv h s" and "heap_list h = [x]"
    and "Heap_pop h s = Inr (v, h1, s1)"
  shows "\<exists>h2. Heap_pop h1 s1 = Inr (Some x, h2, s1)"
proof -
  have hold: "holds h [x]" using heap_inv_holds [OF assms(1)] assms(2) by simp
  then have ok: "darray_ok (hcontents h)" by (simp add: holds_def)
  then have "\<not> d_locked (hcontents h)" "0 < d_max (hcontents h)" "contents (hcontents h) \<noteq> []"
    using holds_count [OF hold] by (auto simp: darray_ok_def)
  then show ?thesis using assms(3) Heap_pop_single [OF assms(1,2)]
    by (auto simp: Heap_pop_def Darray_get_def Darray_set_def d_lock_def d_unlock_def slot_read_def
        slot_write_def Darray_pop_def Heap_sift_down_def Heap_count_def Darray_count_def)
qed

section \<open>Building a heap from other containers\<close>

definition heap_capacity :: "nat \<Rightarrow> bool" where
  "heap_capacity n \<longleftrightarrow> heap_small n \<and> int n + int DEFAULT_EXPAND_RATE \<le> INT_MAX"

lemma heap_capacity_small: "heap_capacity n \<longleftrightarrow> n \<le> 1073741824"
  by (auto simp: heap_capacity_def heap_small_def DEFAULT_EXPAND_RATE_def INT_MAX_def)

lemma heap_on_Nil [simp]: "heap_on R []"
  by (simp add: heap_on_def)

text \<open>Creating a heap and pushing \<open>xs\<close> in a loop.\<close>

lemma heap_create_fill:
  fixes s :: "'s cmem_scheme" and cmp :: "'a \<Rightarrow> 'a \<Rightarrow> int"
  assumes "comparator cmp" and "mem_ok s" and "ample s" and "0 < el" and "heap_capacity (length xs + k)"
    and body: "\<And>i (h' :: 'a heap) (s' :: 's cmem_scheme).
      i < length xs \<Longrightarrow> body i (h', s') = Heap_push h' (Some (xs ! i)) s'"
  shows "\<exists>h0 s0 h s'. Heap_create el ty (Some cmp) s = Inr (Some h0, s0) \<and>
    rfor [0..<length xs] body (h0, s0) = Inr (h, s') \<and> heap_wf cmp h s' \<and> htype h = ty \<and>
    h_elementSize h = el \<and> mset (heap_list h) = mset xs \<and> ample s' \<and> heap_space h k"
proof -
  obtain h0 s0 where c: "Heap_create el ty (Some cmp) s = Inr (Some h0, s0)" "heap_inv h0 s0"
    "heap_list h0 = []" "d_end (hcontents h0) = 0" "htype h0 = ty" "hcmp h0 = cmp"
    "h_elementSize h0 = el" "ample s0"
    using Heap_create_ok [OF assms(2-4), of ty cmp] by blast
  have "heap_wf cmp h0 s0" using c by (simp add: heap_wf_def is_heap_def)
  moreover have "heap_space h0 (length xs + k)"
    using assms(5) c(4) by (simp add: heap_space_def room_def heap_capacity_def)
  ultimately obtain h s' where "rfor [0..<length xs] body (h0, s0) = Inr (h, s')" "heap_wf cmp h s'"
    "mset (heap_list h) = mset xs" "heap_step h0 s0 h s'" "ample s'" "heap_space h k"
    using comparator.push_loop [OF assms(1) _ c(8), of h0 xs k body] body c(3) by auto
  then show ?thesis using c by (auto simp: heap_step_def same_kind_def)
qed

lemma heap_inv_get [run_simps]:
  assumes "heap_inv h s" and "i < length (heap_list h)"
  shows "Darray_get (hcontents h) (int i) = Inr (Some (heap_list h ! i))"
  using holds_get [OF heap_inv_holds [OF assms(1)] assms(2)] by (simp add: Heap_get_def)

lemma heap_inv_count: "heap_inv h s \<Longrightarrow> nat (Heap_count h) = length (heap_list h)"
  using holds_count [OF heap_inv_holds, of h s] by (simp add: Heap_count_def Darray_count_def)

text \<open>\<^verbatim>\<open>Heap_from_list\<close> pushes the values of the nodes; the list is only read.\<close>

lemma Heap_from_list_ok:
  fixes s :: "('a, 'o, 's) lmem_scheme"
  assumes "comparator cmp" and "list_shape l s xs" and "ample s" and "0 < l_elementSize l"
    and "\<And>x. x \<in> set xs \<Longrightarrow> snd x \<noteq> None" and "heap_capacity (length xs)"
  shows "\<exists>h s'. Heap_from_list l ty (Some cmp) s = Inr (Some h, s') \<and> heap_wf cmp h s' \<and>
    htype h = ty \<and> mset (heap_list h) = mset (map (the \<circ> snd) xs)"
proof -
  let ?ys = "map (the \<circ> snd) xs"
  let ?body = "\<lambda>(node, h, s :: ('a, 'o, 's) lmem_scheme). rbind (node_get node s) (\<lambda>n.
    rbind (Heap_push h (lval n) s) (\<lambda>(h1, s1). Inr (lnext n, h1, s1)))"
  have mem: "mem_ok s" and z: "NULL \<notin> addrs xs" using assms(2) by (auto simp: list_shape_def)
  obtain h0 s0 where c: "Heap_create (l_elementSize l) ty (Some cmp) s = Inr (Some h0, s0)"
    "heap_inv h0 s0" "heap_list h0 = []" "d_end (hcontents h0) = 0" "htype h0 = ty" "hcmp h0 = cmp"
    "ample s0" "cmem.more s0 = cmem.more s"
    using Heap_create_ok [OF mem assms(3,4), of ty cmp] by blast
  have wf: "heap_wf cmp h0 s0" using c by (simp add: heap_wf_def is_heap_def)
  have sp: "heap_space h0 (length xs + 0)"
    using assms(6) c(4) by (simp add: heap_space_def room_def heap_capacity_def)
  have n0: "lnodes s0 = lnodes s" using c(8) by (cases s; cases s0) simp
  have body: "?body (fst (xs ! i), h', s') =
      rbind (heap_put h' (?ys ! i) s') (\<lambda>(h2, s2). Inr (first_of (drop (Suc i) xs) NULL, h2, s2))"
    if "i < length xs" "heap_step h0 s0 h' s'" for i h' s'
  proof -
    have "snd (xs ! i) = Some (?ys ! i)" using that(1) assms(5) [of "xs ! i"] by auto
    moreover have "lnodes s' = lnodes s"
      using that(2) darray_step_nodes n0 unfolding heap_step_def by metis
    ultimately show ?thesis using walk_node [OF assms(2) that(1), of s'] by (simp add: heap_put_def)
  qed
  obtain h s' where w: "cwhile (\<lambda>st. fst st \<noteq> NULL) ?body (first_of xs NULL, h0, s0) = Inr (NULL, h, s')"
    "heap_wf cmp h s'" "mset (heap_list h) = foldl (\<lambda>M x. add_mset x M) (mset (heap_list h0)) ?ys"
    "heap_step h0 s0 h s'"
    using comparator.put_walk [OF assms(1) wf c(7) sp z body length_map] by blast
  have "foldl (\<lambda>M x. add_mset x M) M ys = M + mset ys" for M :: "'a multiset" and ys
    by (induction ys arbitrary: M) auto
  then have "mset (heap_list h) = mset ?ys" using w(3) c(3) by simp
  moreover have "Heap_from_list l ty (Some cmp) s = Inr (Some h, s')"
    using c(1) w(1) assms(2) by (simp add: Heap_from_list_def list_shape_def)
  ultimately show ?thesis using w(2,4) c(5) by (auto simp: heap_step_def same_kind_def)
qed

section \<open>Properties\<close>

text \<open>A max heap and a min heap of a few elements for the witnesses.\<close>

definition ex_heap :: "int \<Rightarrow> int list \<Rightarrow> int heap" where
  "ex_heap ty xs = \<lparr>h_addr = 4, h_mtx = 5, htype = ty,
     hcontents = \<lparr>d_addr = 1, d_buf = 2, d_mtx = 3, d_end = int (length xs), d_max = int (length xs) + 1,
       elementSize = 4, expandRate = 300, contents = map (Val \<circ> Some) xs @ [Val None], d_locked = False\<rparr>,
     hcmp = heap_cmp, h_elementSize = 4\<rparr>"

lemma ex_heap_list [simp]: "heap_list (ex_heap ty xs) = xs"
proof -
  have "take (length xs) (map (Val \<circ> Some) xs @ [Val None]) = map (Val \<circ> Some) xs" by simp
  then show ?thesis by (simp add: heap_list_def ex_heap_def darray_list_def comp_def)
qed

lemma ex_heap_sel [simp]: "hcmp (ex_heap ty xs) = heap_cmp" "htype (ex_heap ty xs) = ty"
  "h_elementSize (ex_heap ty xs) = 4"
  by (simp_all add: ex_heap_def)

lemma ex_heap_inv:
  assumes "length xs < 1000"
  shows "heap_inv (ex_heap ty xs) ex_mem"
proof -
  have "darray_list (hcontents (ex_heap ty xs)) = map Some xs"
    by (simp add: ex_heap_def darray_list_def comp_def)
  moreover have "darray_inv (hcontents (ex_heap ty xs)) ex_mem"
    using assms by (auto simp: darray_inv_def darray_ok_def ex_heap_def ex_mem_def mem_ok_def
        DEFAULT_EXPAND_RATE_def INT_MAX_def)
  ultimately show ?thesis by (auto simp: heap_inv_def)
qed

lemma ex_heap_space: "length xs < 1000 \<Longrightarrow> heap_space (ex_heap ty xs) 5"
  by (simp add: heap_space_def room_def ex_heap_def DEFAULT_EXPAND_RATE_def INT_MAX_def)

text \<open>\<^verbatim>\<open>Heap_push\<close> on a heap of either kind, with any comparison callback that is a strict weak
  order, adds exactly the pushed element and keeps the heap order.\<close>

theorem heap_push_correct:
  assumes "comparator (hcmp h)" and "heap_inv h s" and "is_heap h" and "ample s"
    and "heap_space h 1"
  shows "\<exists>h' s'. Heap_push h (Some x) s = Inr (h', s') \<and> heap_inv h' s' \<and> is_heap h' \<and>
    mset (heap_list h') = add_mset x (mset (heap_list h)) \<and> same_kind h h'"
  using heap_put_wf [of "hcmp h" h s 0 x] assms
  by (auto simp: heap_wf_def heap_put_def heap_step_def)

theorem heap_push_correct_witness:
  "\<exists>h' s'. Heap_push (ex_heap 1 [3, 5, 4]) (Some 1) ex_mem = Inr (h', s') \<and> heap_inv h' s' \<and>
    is_heap h' \<and> mset (heap_list h') = {#1, 3, 5, 4#} \<and> same_kind (ex_heap 1 [3, 5, 4]) h'"
proof -
  have "is_heap (ex_heap 1 [3, 5, 4])"
    by (auto simp: is_heap_def heap_on_def heap_ord_def parent_of_def heap_cmp_def less_Suc_eq
        numeral_eq_Suc)
  then show ?thesis
    using heap_push_correct [of "ex_heap 1 [3, 5, 4]" ex_mem 1] ex_heap_inv [of "[3, 5, 4]" 1]
      ex_heap_space [of "[3, 5, 4]" 1] ex_darray_inv(2)
      heap_cmp_order.comparator_axioms
    by (simp add: heap_space_def room_def add_mset_commute)
qed

text \<open>C5: \<^verbatim>\<open>Heap_pop\<close> on a non-empty max heap returns the root, which no element exceeds, removes
  exactly that element and keeps the heap order.\<close>

theorem heap_pop_max_correct:
  assumes "comparator (hcmp h)" and "htype h = 0" and "is_heap h" and "heap_inv h s"
    and "heap_list h \<noteq> []" and "heap_capacity (length (heap_list h))"
  shows "\<exists>m h' s'. Heap_pop h s = Inr (Some m, h', s') \<and> m \<in># mset (heap_list h) \<and>
    (\<forall>y. y \<in># mset (heap_list h) \<longrightarrow> \<not> 0 < hcmp h m y) \<and>
    mset (heap_list h') = mset (heap_list h) - {#m#} \<and> heap_inv h' s' \<and> is_heap h'"
proof -
  obtain h' s' where "Heap_pop h s = Inr (Some (hd (heap_list h)), h', s')" "heap_inv h' s'"
    "mset (heap_list h') = mset (heap_list h) - {#hd (heap_list h)#}" "is_heap h'"
    using Heap_pop_max [OF assms(1-5)] assms(6) by (auto simp: heap_capacity_def)
  moreover have "\<not> 0 < hcmp h (hd (heap_list h)) y" if "y \<in># mset (heap_list h)" for y
    using heap_top [OF assms(1,3), of y] that assms(2) by (simp add: heap_ord_def)
  ultimately show ?thesis using assms(5) by (intro exI [of _ "hd (heap_list h)"]) auto
qed

theorem heap_pop_max_correct_witness:
  "\<exists>m h' s'. Heap_pop (ex_heap 0 [9, 5, 7, 1]) ex_mem = Inr (Some m, h', s') \<and>
    m \<in># {#9, 5, 7, 1#} \<and> \<not> 0 < heap_cmp m 9 \<and> mset (heap_list h') = {#9, 5, 7, 1#} - {#m#} \<and>
    heap_inv h' s' \<and> is_heap h'"
proof -
  let ?h = "ex_heap 0 [9, 5, 7, 1]"
  have "is_heap ?h"
    by (auto simp: is_heap_def heap_on_def heap_ord_def parent_of_def heap_cmp_def less_Suc_eq
        numeral_eq_Suc)
  then have "\<exists>m h' s'. Heap_pop ?h ex_mem = Inr (Some m, h', s') \<and> m \<in># mset (heap_list ?h) \<and>
    (\<forall>y. y \<in># mset (heap_list ?h) \<longrightarrow> \<not> 0 < hcmp ?h m y) \<and>
    mset (heap_list h') = mset (heap_list ?h) - {#m#} \<and> heap_inv h' s' \<and> is_heap h'"
    using ex_heap_inv [of "[9, 5, 7, 1]" 0] heap_cmp_order.comparator_axioms
    by (intro heap_pop_max_correct) (simp_all add: heap_capacity_small)
  then show ?thesis by (fastforce simp: ex_heap_list)
qed

text \<open>Building a max heap with \<^verbatim>\<open>Heap_from_array\<close> and popping until it is empty returns the
  elements of the array sorted, largest first.\<close>

theorem heap_from_array_drain_sorts:
  fixes cmp :: "'a \<Rightarrow> 'a \<Rightarrow> int" and s :: "'s cmem_scheme"
  assumes "comparator cmp" and "mem_ok s" and "ample s" and "0 < el" and "xs \<noteq> []"
    and "heap_capacity (length xs)"
  shows "\<exists>h s1 ys h2 s2. Heap_from_array (map Some xs) (int (length xs)) el 0 (Some cmp) s
      = Inr (Some h, s1) \<and> heap_drain (length xs) h s1 = Inr (map Some ys, h2, s2) \<and>
    mset ys = mset xs \<and> sorted_wrt (\<lambda>a b. \<not> 0 < cmp a b) ys \<and> heap_list h2 = []"
proof -
  let ?body = "\<lambda>i (h' :: 'a heap, s' :: 's cmem_scheme).
    if i < length (map Some xs) then Heap_push h' (map Some xs ! i) s' else Inl Out_Of_Bounds"
  obtain h0 s0 h s1 where c: "Heap_create el 0 (Some cmp) s = Inr (Some h0, s0)"
    "rfor [0..<length xs] ?body (h0, s0) = Inr (h, s1)" "heap_wf cmp h s1" "htype h = 0"
    "mset (heap_list h) = mset xs"
    using heap_create_fill [OF assms(1-4), of xs 0 ?body 0] assms(6) by auto
  then have h: "Heap_from_array (map Some xs) (int (length xs)) el 0 (Some cmp) s = Inr (Some h, s1)"
    using assms(5) by (simp add: Heap_from_array_def)
  have "length (heap_list h) = length xs" using c(5) by (metis size_mset)
  then obtain ys h2 s2 where "heap_drain (length xs) h s1 = Inr (map Some ys, h2, s2)"
    "mset ys = mset (heap_list h)" "sorted_wrt (\<lambda>a b. \<not> 0 < hcmp h a b) ys" "heap_list h2 = []"
    using heap_drain_sorted [of h s1 "length xs"] c(3,4) assms(1,6)
    by (auto simp: heap_wf_def heap_capacity_def)
  then show ?thesis using h c(3,5) by (auto simp: heap_wf_def)
qed

theorem heap_from_array_drain_sorts_witness:
  "\<exists>h s1 ys h2 s2. Heap_from_array (map Some [3, 1, 2]) 3 4 0 (Some heap_cmp) ex_mem
      = Inr (Some h, s1) \<and> heap_drain 3 h s1 = Inr (map Some ys, h2, s2) \<and>
    mset ys = {#3, 1, 2#} \<and> sorted_wrt (\<lambda>a b. \<not> 0 < heap_cmp a b) ys \<and> heap_list h2 = []"
  using heap_from_array_drain_sorts [OF heap_cmp_order.comparator_axioms ex_darray_inv(4,2),
      of 4 "[3, 1, 2]"]
  by (simp add: heap_capacity_small numeral_3_eq_3)

text \<open>\<^verbatim>\<open>Heap_merge\<close> of two heaps with the same element size is a heap of the left one's kind
  that holds the elements of both.\<close>

theorem heap_merge_correct:
  fixes s :: "'s cmem_scheme" and l r :: "'a heap"
  assumes "comparator (hcmp l)" and "heap_inv l s" and "heap_inv r s" and "ample s"
    and "h_elementSize l = h_elementSize r" and "0 < h_elementSize l"
    and "heap_capacity (length (heap_list l) + length (heap_list r))"
  shows "\<exists>h s'. Heap_merge l r s = Inr (Some h, s') \<and> heap_inv h s' \<and> is_heap h \<and>
    htype h = htype l \<and> hcmp h = hcmp l \<and>
    mset (heap_list h) = mset (heap_list l) + mset (heap_list r)"
proof -
  let ?take = "\<lambda>(d :: 'a heap) i (h' :: 'a heap, s' :: 's cmem_scheme).
    rbind (Darray_get (hcontents d) (int i)) (\<lambda>el. Heap_push h' el s')"
  have "mem_ok s" using assms(2) by (simp add: heap_inv_def darray_inv_def)
  then obtain h0 s0 h1 s1 where
    c: "Heap_create (h_elementSize l) (htype l) (Some (hcmp l)) s = Inr (Some h0, s0)"
    "rfor [0..<length (heap_list l)] (?take l) (h0, s0) = Inr (h1, s1)" "heap_wf (hcmp l) h1 s1"
    "htype h1 = htype l" "mset (heap_list h1) = mset (heap_list l)" "ample s1"
    "heap_space h1 (length (heap_list r) + 0)"
    using heap_create_fill [OF assms(1) _ assms(4,6), of "heap_list l" "length (heap_list r)"
        "?take l" "htype l"] assms(2,7) by (auto simp: heap_inv_get)
  obtain h s' where "rfor [0..<length (heap_list r)] (?take r) (h1, s1) = Inr (h, s')"
    "heap_wf (hcmp l) h s'" "mset (heap_list h) = mset (heap_list h1) + mset (heap_list r)"
    "heap_step h1 s1 h s'"
    using comparator.push_loop [OF assms(1) c(3,6,7), of "?take r"] assms(3)
    by (auto simp: heap_inv_get)
  then show ?thesis
    using c(1,2,4,5) assms(5) heap_inv_count [OF assms(2)] heap_inv_count [OF assms(3)]
    by (auto simp: Heap_merge_def heap_wf_def heap_step_def same_kind_def)
qed

theorem heap_merge_correct_witness:
  "\<exists>h s'. Heap_merge (ex_heap 1 [2, 3]) (ex_heap 0 [5]) ex_mem = Inr (Some h, s') \<and> heap_inv h s' \<and>
    is_heap h \<and> htype h = 1 \<and> hcmp h = heap_cmp \<and> mset (heap_list h) = {#5, 2, 3#}"
  using heap_merge_correct [of "ex_heap 1 [2, 3]" ex_mem "ex_heap 0 [5]"] ex_heap_inv
    ex_darray_inv(2) heap_cmp_order.comparator_axioms
  by (simp add: heap_capacity_small)

text \<open>Popping the last element of a heap leaves a stale pointer in slot 0, and popping the now
  empty heap returns the same element a second time.\<close>

theorem heap_pop_empty_repeats:
  assumes "heap_inv h s" and "heap_list h = [x]"
  shows "\<exists>h1 s1 h2 s2. Heap_pop h s = Inr (Some x, h1, s1) \<and> Heap_count h1 = 0 \<and>
    Heap_pop h1 s1 = Inr (Some x, h2, s2)"
  using Heap_pop_single [OF assms] Heap_pop_emptied [OF assms]
  by (auto simp: Heap_count_def Darray_count_def)

theorem heap_pop_empty_repeats_witness:
  "\<exists>h1 s1 h2 s2. Heap_pop (ex_heap 0 [7]) ex_mem = Inr (Some 7, h1, s1) \<and> Heap_count h1 = 0 \<and>
    Heap_pop h1 s1 = Inr (Some 7, h2, s2)"
  using heap_pop_empty_repeats [OF ex_heap_inv] by simp

text \<open>C27: in a min heap \<^verbatim>\<open>Heap_sift_down\<close> moves up the larger child: popping twice from a well-formed
  min heap \<open>[a, b, c, d]\<close> with \<open>a < b < c < d\<close> returns \<open>a\<close> and then \<open>c\<close>, before the smaller \<open>b\<close>.\<close>

theorem heap_min_pop_wrong:
  assumes "heap_inv h s" and "hcmp h = heap_cmp" and "htype h \<noteq> 0"
    and "heap_list h = [a, b, c, d]" and "a < b" and "b < c" and "c < d"
  shows "is_heap h \<and> (\<exists>h1 s1 h2 s2. Heap_pop h s = Inr (Some a, h1, s1) \<and> \<not> is_heap h1 \<and>
    Heap_pop h1 s1 = Inr (Some c, h2, s2))"
proof -
  have "is_heap h" using assms
    by (auto simp: is_heap_def heap_on_def heap_ord_def parent_of_def heap_cmp_def less_Suc_eq
        numeral_eq_Suc)
  moreover obtain h1 s1 where p: "Heap_pop h s = Inr (Some a, h1, s1)" "heap_inv h1 s1"
    "heap_list h1 = down_list (swaps h) (picks h) [d, b, c] 0" "same_kind h h1"
    using Heap_pop_run [OF assms(1)] assms(4) by (auto simp: heap_small_def)
  moreover have l: "heap_list h1 = [c, b, d]"
    using assms p(3)
    by (simp add: down_list.simps [of _ _ "[d, b, c]" 0] down_list.simps [of _ _ "[c, b, d]" "Suc (Suc 0)"]
        child_at_def swaps_def picks_def heap_cmp_def swap_at_def)
  moreover have "\<not> is_heap h1"
  proof -
    have "\<not> heap_ord h1 c b"
      using assms(2,3,6) p(4) by (simp add: heap_ord_def heap_cmp_def same_kind_def)
    then show ?thesis using l by (auto simp: is_heap_def heap_on_def parent_of_def)
  qed
  moreover obtain h2 s2 where "Heap_pop h1 s1 = Inr (Some c, h2, s2)"
    using Heap_pop_run [OF p(2)] l by (auto simp: heap_small_def)
  ultimately show ?thesis by blast
qed

theorem heap_min_pop_wrong_witness:
  "\<exists>h1 s1 h2 s2. Heap_pop (ex_heap 1 [1, 2, 3, 4]) ex_mem = Inr (Some 1, h1, s1) \<and>
    Heap_pop h1 s1 = Inr (Some 3, h2, s2)"
  using heap_min_pop_wrong [OF ex_heap_inv [of "[1, 2, 3, 4]" 1], of 1 2 3 4] by auto

end
