(* ===== verification/C_Text.thy ===== *)
theory C_Text
  imports Prelude
begin

unbundle bit_operations_syntax

text \<open>
  Characters and strings as the C library treats them, and the parts of it the code relies on:
  \<^verbatim>\<open>strtol\<close>, \<^verbatim>\<open>strstr\<close>, \<^verbatim>\<open>strncmp\<close>, \<^verbatim>\<open>strchr\<close>, \<^verbatim>\<open>strncpy\<close> and the decimal conversions of
  \<^verbatim>\<open>printf\<close>. A string is the list of its characters before the NUL; a character buffer is the list
  of all its bytes.
\<close>

section \<open>Characters\<close>

definition NUL :: char where "NUL = CHR 0x00"

definition code :: "char \<Rightarrow> nat" where
  "code c = of_char c"

definition is_space :: "char \<Rightarrow> bool" where
  "is_space c \<longleftrightarrow> code c = 32 \<or> 9 \<le> code c \<and> code c \<le> 13"

definition is_digit :: "char \<Rightarrow> bool" where
  "is_digit c \<longleftrightarrow> 48 \<le> code c \<and> code c \<le> 57"

definition digit_value :: "char \<Rightarrow> nat" where
  "digit_value c =
     (if is_digit c then code c - 48
      else if 97 \<le> code c \<and> code c \<le> 122 then code c - 87
      else if 65 \<le> code c \<and> code c \<le> 90 then code c - 55
      else 36)"

definition digit_char :: "nat \<Rightarrow> char" where
  "digit_char d = char_of (48 + d)"

lemma code_inject [simp]: "code a = code b \<longleftrightarrow> a = b"
  by (simp add: code_def)

lemma code_digit_char [simp]: "d < 10 \<Longrightarrow> code (digit_char d) = 48 + d"
  by (simp add: code_def digit_char_def)

lemma digit_char_0 [simp]: "digit_char 0 = CHR ''0''"
proof -
  have "code (digit_char 0) = code (CHR ''0'')" by (simp add: code_def digit_char_def)
  then show ?thesis by (simp only: code_inject)
qed

lemma digit_char_literals:
  "digit_char 1 = CHR ''1''" "digit_char 2 = CHR ''2''" "digit_char 3 = CHR ''3''" "digit_char 4 = CHR ''4''"
  "digit_char 5 = CHR ''5''" "digit_char 6 = CHR ''6''" "digit_char 7 = CHR ''7''" "digit_char 8 = CHR ''8''"
  "digit_char 9 = CHR ''9''"
  by (simp_all only: code_inject [symmetric]) (simp_all add: code_def digit_char_def)

lemma is_digit_digit_char [simp]: "d < 10 \<Longrightarrow> is_digit (digit_char d)"
  by (simp add: is_digit_def)

lemma digit_value_digit_char [simp]: "d < 10 \<Longrightarrow> digit_value (digit_char d) = d"
  by (simp add: digit_value_def)

lemma digit_not_space: "is_digit c \<Longrightarrow> \<not> is_space c"
  by (auto simp: is_digit_def is_space_def)

lemma digit_value_less: "digit_value c < 10 \<longleftrightarrow> is_digit c"
  by (auto simp: digit_value_def is_digit_def)

section \<open>Decimal output\<close>

fun nat_text :: "nat \<Rightarrow> string" where
  "nat_text n = (if n < 10 then [digit_char n] else nat_text (n div 10) @ [digit_char (n mod 10)])"

declare nat_text.simps [simp del]

definition int_text :: "int \<Rightarrow> string" where
  "int_text i = (if i < 0 then CHR ''-'' # nat_text (nat (- i)) else nat_text (nat i))"

lemma nat_text_digits: "c \<in> set (nat_text n) \<Longrightarrow> is_digit c"
proof (induction n rule: nat_text.induct)
  case (1 n)
  then show ?case by (subst (asm) nat_text.simps) (auto split: if_splits)
qed

lemma nat_text_nonempty [simp]: "nat_text n \<noteq> []"
  by (subst nat_text.simps) simp

lemma nat_text_hd: "is_digit (hd (nat_text n))"
  by (rule nat_text_digits [of _ n]) simp

text \<open>The conversions \<^verbatim>\<open>%o\<close> and \<^verbatim>\<open>%x\<close>: digits of a base up to 16.\<close>

definition base_digit :: "nat \<Rightarrow> char" where
  "base_digit d = (if d < 10 then digit_char d else char_of (87 + d))"

fun base_text :: "nat \<Rightarrow> nat \<Rightarrow> string" where
  "base_text b n = (if b < 2 \<or> n < b then [base_digit n] else base_text b (n div b) @ [base_digit (n mod b)])"

declare base_text.simps [simp del]

definition newline :: string where "newline = [CHR 0x0A]"

text \<open>\<^verbatim>\<open>snprintf\<close> writes at most \<open>n - 1\<close> characters and the NUL.\<close>

definition snprintf :: "nat \<Rightarrow> string \<Rightarrow> string" where
  "snprintf n text = take (n - 1) text"

lemma length_snprintf: "length (snprintf n text) \<le> n - 1"
  by (simp add: snprintf_def)

lemma snprintf_id [simp]: "length text < n \<Longrightarrow> snprintf n text = text"
  by (simp add: snprintf_def)

text \<open>The longest pathname of the system.\<close>

definition PATH_MAX :: nat where "PATH_MAX = 4096"

section \<open>strtol\<close>

definition LONG_MAX :: int where "LONG_MAX = 9223372036854775807"

definition LONG_MIN :: int where "LONG_MIN = - 9223372036854775808"

definition digits_value :: "nat \<Rightarrow> string \<Rightarrow> nat" where
  "digits_value b ds = foldl (\<lambda>a c. a * b + digit_value c) 0 ds"

definition in_base :: "nat \<Rightarrow> char \<Rightarrow> bool" where
  "in_base b c \<longleftrightarrow> digit_value c < b"

text \<open>The prefix \<^verbatim>\<open>0x\<close> only counts when a hexadecimal digit follows it.\<close>

definition strtol_prefix :: "nat \<Rightarrow> string \<Rightarrow> nat \<times> string" where
  "strtol_prefix base s =
     (case s of
        z # x # d # r \<Rightarrow>
          if (base = 0 \<or> base = 16) \<and> z = CHR ''0'' \<and> (x = CHR ''x'' \<or> x = CHR ''X'') \<and> in_base 16 d
          then (16, d # r)
          else (if base = 0 then (if z = CHR ''0'' then 8 else 10) else base, s)
      | z # r \<Rightarrow> (if base = 0 then (if z = CHR ''0'' then 8 else 10) else base, s)
      | [] \<Rightarrow> (if base = 0 then 10 else base, s))"

definition strtol_sign :: "string \<Rightarrow> bool \<times> string" where
  "strtol_sign s =
     (case s of
        [] \<Rightarrow> (False, [])
      | c # r \<Rightarrow> if c = CHR ''-'' then (True, r) else if c = CHR ''+'' then (False, r) else (False, s))"

text \<open>The value, the rest of the string behind the digits, and whether \<^verbatim>\<open>errno\<close> is set to \<^verbatim>\<open>ERANGE\<close>.\<close>

definition strtol :: "string \<Rightarrow> nat \<Rightarrow> int \<times> string \<times> bool" where
  "strtol s base =
     (let (neg, s1) = strtol_sign (dropWhile is_space s);
          (b, s2) = strtol_prefix base s1;
          ds = takeWhile (in_base b) s2;
          v = int (digits_value b ds);
          v' = (if neg then - v else v)
      in if ds = [] then (0, s, False)
         else if v' > LONG_MAX then (LONG_MAX, dropWhile (in_base b) s2, True)
         else if v' < LONG_MIN then (LONG_MIN, dropWhile (in_base b) s2, True)
         else (v', dropWhile (in_base b) s2, False))"

lemma in_base_10: "in_base 10 = is_digit"
  by (intro ext) (simp add: in_base_def digit_value_less)

lemma digits_value_snoc: "digits_value b (ds @ [c]) = digits_value b ds * b + digit_value c"
  by (simp add: digits_value_def)

lemma digits_value_nat_text [simp]: "digits_value 10 (nat_text n) = n"
proof (induction n rule: nat_text.induct)
  case (1 n)
  show ?case
  proof (cases "n < 10")
    case True
    then show ?thesis by (simp add: nat_text.simps [of n] digits_value_def)
  next
    case False
    then show ?thesis using 1 by (subst nat_text.simps) (simp add: digits_value_snoc)
  qed
qed

lemma nat_text_inject [simp]: "nat_text a = nat_text b \<longleftrightarrow> a = b"
  by (metis digits_value_nat_text)

lemma strtol_prefix_10 [simp]: "strtol_prefix 10 s = (10, s)"
  by (auto simp: strtol_prefix_def split: list.splits)

lemma takeWhile_digits:
  assumes "\<forall>c \<in> set ds. is_digit c" and "rest = [] \<or> \<not> is_digit (hd rest)"
  shows "takeWhile is_digit (ds @ rest) = ds" "dropWhile is_digit (ds @ rest) = rest"
proof -
  have t: "takeWhile is_digit rest = []" "dropWhile is_digit rest = rest"
    using assms(2) by (cases rest; simp)+
  show "takeWhile is_digit (ds @ rest) = ds" using assms(1) t(1) by (simp add: takeWhile_append2)
  show "dropWhile is_digit (ds @ rest) = rest" using assms(1) t(2) by (simp add: dropWhile_append2)
qed

lemma strtol_digits:
  assumes "\<forall>c \<in> set ds. is_digit c" and "ds \<noteq> []" and "rest = [] \<or> \<not> is_digit (hd rest)"
    and "int (digits_value 10 ds) \<le> LONG_MAX"
  shows "strtol (ds @ rest) 10 = (int (digits_value 10 ds), rest, False)"
proof -
  obtain d r where ds: "ds = d # r" using assms(2) by (cases ds) auto
  have d: "is_digit d" using assms(1) ds by simp
  then have sg: "strtol_sign (ds @ rest) = (False, ds @ rest)"
    using ds by (auto simp: strtol_sign_def is_digit_def code_def)
  have sp: "dropWhile is_space (ds @ rest) = ds @ rest" using ds d digit_not_space by simp
  show ?thesis
    using takeWhile_digits [OF assms(1,3)] assms(2,4) sg sp
    by (simp add: strtol_def in_base_10 LONG_MIN_def)
qed

lemma strtol_nat_text:
  assumes "rest = [] \<or> \<not> is_digit (hd rest)" and "int n \<le> LONG_MAX"
  shows "strtol (nat_text n @ rest) 10 = (int n, rest, False)"
  using strtol_digits [of "nat_text n" rest] assms nat_text_digits by simp

lemma strtol_int_text:
  assumes "LONG_MIN \<le> i" and "i \<le> LONG_MAX"
  shows "strtol (int_text i) 10 = (i, [], False)"
proof (cases "i < 0")
  case True
  have m: "\<not> is_space (CHR ''-'')" by (simp add: is_space_def code_def)
  have t: "takeWhile (in_base 10) (nat_text (nat (- i))) = nat_text (nat (- i))"
    "dropWhile (in_base 10) (nat_text (nat (- i))) = []"
    unfolding in_base_10 using nat_text_digits
    by (simp_all add: takeWhile_eq_all_conv dropWhile_eq_Nil_conv)
  show ?thesis using True assms m
    by (simp add: int_text_def strtol_def strtol_sign_def Let_def t LONG_MAX_def LONG_MIN_def)
next
  case False
  then show ?thesis using strtol_nat_text [of "[]" "nat i"] assms by (simp add: int_text_def)
qed

text \<open>\<^verbatim>\<open>atoi\<close> converts the \<^verbatim>\<open>long\<close> of \<^verbatim>\<open>strtol\<close> to an \<^verbatim>\<open>int\<close>.\<close>

definition atoi :: "string \<Rightarrow> int" where
  "atoi s = (fst (strtol s 10) + 2147483648) mod 4294967296 - 2147483648"

lemma atoi_nat_text [simp]: "int n \<le> INT_MAX \<Longrightarrow> atoi (nat_text n) = int n"
  using strtol_nat_text [of "[]" n] by (simp add: atoi_def INT_MAX_def LONG_MAX_def)

lemma strtol_space: "is_space c \<Longrightarrow> strtol s b = (v, r, e) \<Longrightarrow> r \<noteq> s \<Longrightarrow> strtol (c # s) b = (v, r, e)"
  by (auto simp: strtol_def Let_def case_prod_unfold split: if_splits)

text \<open>What \<^verbatim>\<open>strtol\<close> returns is a \<^verbatim>\<open>long\<close>.\<close>

lemma strtol_bounds: "strtol s b = (v, r, e) \<Longrightarrow> LONG_MIN \<le> v \<and> v \<le> LONG_MAX"
  by (auto simp: strtol_def Let_def LONG_MIN_def LONG_MAX_def split: prod.splits if_splits)

section \<open>Searching and copying\<close>

fun strstr :: "string \<Rightarrow> string \<Rightarrow> string option" where
  "strstr [] needle = (if needle = [] then Some [] else None)"
| "strstr (c # cs) needle =
     (if take (length needle) (c # cs) = needle then Some (c # cs) else strstr cs needle)"

definition strncmp_eq :: "string \<Rightarrow> string \<Rightarrow> nat \<Rightarrow> bool" where
  "strncmp_eq a b n \<longleftrightarrow> take n a = take n b"

text \<open>\<^verbatim>\<open>strncpy\<close> pads with NULs and leaves no NUL when the source is too long.\<close>

definition strncpy :: "string \<Rightarrow> nat \<Rightarrow> string" where
  "strncpy src n = take n (src @ replicate n NUL)"

lemma length_strncpy [simp]: "length (strncpy src n) = n"
  by (simp add: strncpy_def)

definition buf_text :: "string \<Rightarrow> string" where
  "buf_text buf = takeWhile (\<lambda>c. c \<noteq> NUL) buf"

lemma buf_text_strncpy:
  assumes "NUL \<notin> set src" and "length src < n"
  shows "buf_text (strncpy src n) = src" "NUL \<in> set (strncpy src n)"
proof -
  have s: "strncpy src n = src @ NUL # replicate (n - length src - 1) NUL"
  proof -
    have "take (n - length src) (replicate n NUL) = replicate (n - length src) NUL" by simp
    also have "\<dots> = NUL # replicate (n - length src - 1) NUL"
      using assms(2) by (cases "n - length src") simp_all
    finally show ?thesis using assms(2) by (simp add: strncpy_def)
  qed
  have "takeWhile (\<lambda>c. c \<noteq> NUL) (src @ NUL # r) = src" for r
    using assms(1) by (induction src) auto
  then show "buf_text (strncpy src n) = src" by (simp add: buf_text_def s)
  show "NUL \<in> set (strncpy src n)" by (simp add: s)
qed

end
