(* ===== verification/Byte_Order.thy ===== *)
theory Byte_Order
  imports Prelude
begin

unbundle bit_operations_syntax

text \<open>
  Integers as the bytes they have in memory and in files, on a little-endian machine, and writing at an offset.
\<close>

section \<open>Integers in memory\<close>

fun le_word :: "8 word list \<Rightarrow> 'a::len word" where
  "le_word [] = 0"
| "le_word (b # bs) = ucast b OR push_bit 8 (le_word bs)"

fun le_bytes :: "nat \<Rightarrow> 'a::len word \<Rightarrow> 8 word list" where
  "le_bytes 0 w = []"
| "le_bytes (Suc n) w = ucast w # le_bytes n (drop_bit 8 w)"

lemma length_le_bytes [simp]: "length (le_bytes n w) = n"
  by (induction n arbitrary: w) auto

lemma le_word_bytes: "(le_word (le_bytes n (w :: 'a::len word)) :: 'b::len word) = ucast (take_bit (8 * n) w)"
proof (induction n arbitrary: w)
  case (Suc n)
  show ?case
    unfolding le_bytes.simps le_word.simps Suc.IH
    by (rule bit_word_eqI) (auto simp: bit_simps)
qed simp

lemma le_bytes_add: "le_bytes (m + n) w = le_bytes m w @ le_bytes n (drop_bit (8 * m) w)"
  by (induction m arbitrary: w) (simp_all add: ac_simps)

lemma le_word_bytes_id: "le_word (le_bytes 4 w) = (w :: 32 word)"
  unfolding le_word_bytes by (rule bit_word_eqI) (simp add: bit_simps)

section \<open>Files\<close>

text \<open>What \<^verbatim>\<open>write\<close> makes of the contents of a file; a hole reads as zeros.\<close>

definition write_at :: "nat \<Rightarrow> 8 word list \<Rightarrow> 8 word list \<Rightarrow> 8 word list" where
  "write_at off bs file = take off file @ replicate (off - length file) 0 @ bs @ drop (off + length bs) file"

lemma write_at_start: "length file \<le> length bs \<Longrightarrow> write_at 0 bs file = bs"
  by (simp add: write_at_def)

lemma write_at_replace: "write_at 0 bs file = bs @ drop (length bs) file"
  by (simp add: write_at_def)

lemma write_at_end: "off = length file \<Longrightarrow> write_at off bs file = file @ bs"
  by (simp add: write_at_def)

end
