(* ===== verification/Sequence_Server.thy ===== *)
theory Sequence_Server
  imports C_Text Byte_Order
begin

text \<open>
  The server of sequence numbers over FIFOs, \<^verbatim>\<open>44-pipes-and-fifos/exercises/44-6.c\<close>, and its client,
  \<^verbatim>\<open>44-pipes-and-fifos/pipes/fifo_seqnum_client.c\<close>.

  The server and any number of clients are the states between their system calls; \<open>seq_step\<close> interleaves them. A
  message is shorter than \<^verbatim>\<open>PIPE_BUF\<close>, so a FIFO holds whole messages. A client is its process id. \<open>seq_life\<close> counts
  the FIFOs the server has made, since a client may still have an older one open.
\<close>

section \<open>State\<close>

text \<open>The server between its calls, with the request it serves and \<^verbatim>\<open>clientError\<close>.\<close>

datatype serving =
    Reading
  | Opening nat "32 word"
  | Answering nat "32 word"
  | Closing nat "32 word" bool
  | Saving
  | Seeking
  | Down int

text \<open>A client between its calls; at the end, what it has printed or that it has failed.\<close>

datatype asking =
    Starting
  | Connecting
  | Sending nat
  | Awaiting
  | Printed int
  | Failed

record cfifo =
  cf_reader :: bool
  cf_writer :: bool
  cf_data :: "32 word list"

record seqsys =
  seq_pc :: serving
  seq_num :: "32 word"
  seq_backup :: "8 word list"
  seq_off :: nat
  seq_name :: bool
  seq_life :: nat
  seq_fifo :: "(nat \<times> 32 word) list"
  seq_client :: "nat \<Rightarrow> asking"
  seq_reply :: "nat \<Rightarrow> cfifo option"
  seq_log :: "string list"

text \<open>Whether a call that can fail at any time does.\<close>

datatype luck = Works | Fails

section \<open>The server\<close>

definition clientFifo :: "nat \<Rightarrow> string" where
  "clientFifo pid = ''/tmp/seqnum_cl.'' @ nat_text pid"

text \<open>The start: a new backup file is written with 0, an existing one is read.\<close>

definition server_begin :: "8 word list option \<Rightarrow> seqsys \<Rightarrow> seqsys" where
  "server_begin backup s =
     (let s1 = s\<lparr>seq_name := True\<rparr> in
      case backup of
        None \<Rightarrow> s1\<lparr>seq_pc := Reading, seq_num := 0, seq_backup := le_bytes 4 (0 :: 32 word), seq_off := 4, seq_life := Suc (seq_life s)\<rparr>
      | Some bytes \<Rightarrow>
          if length bytes < 4 then s1\<lparr>seq_pc := Down 1\<rparr>
          else s1\<lparr>seq_pc := Reading, seq_num := le_word (take 4 bytes), seq_backup := bytes, seq_off := 4, seq_life := Suc (seq_life s)\<rparr>)"

text \<open>Closing the server's end of the FIFOs of the clients, as the end of the process does.\<close>

definition server_gone :: "int \<Rightarrow> seqsys \<Rightarrow> seqsys" where
  "server_gone status s =
     s\<lparr>seq_pc := Down status, seq_fifo := [], seq_reply := (\<lambda>p. map_option (\<lambda>f. f\<lparr>cf_writer := False\<rparr>) (seq_reply s p))\<rparr>"

definition handler :: "luck \<Rightarrow> seqsys \<Rightarrow> seqsys" where
  "handler l s = (if l = Fails then server_gone 1 s else server_gone 0 (s\<lparr>seq_name := False\<rparr>))"

text \<open>The calls of the loop. None: the call blocks.\<close>

definition seq_server :: "luck \<Rightarrow> seqsys \<Rightarrow> seqsys option" where
  "seq_server l s =
     (case seq_pc s of
        Reading \<Rightarrow>
          if l = Fails then Some (s\<lparr>seq_log := seq_log s @ [''Error reading requestl discarding'']\<rparr>)
          else (case seq_fifo s of [] \<Rightarrow> None
                | (pid, len) # q \<Rightarrow> Some (s\<lparr>seq_fifo := q, seq_pc := Opening pid len\<rparr>))
      | Opening pid len \<Rightarrow>
          (case seq_reply s pid of
             Some f \<Rightarrow>
               if l = Works \<and> cf_reader f
               then Some (s\<lparr>seq_reply := (seq_reply s)(pid \<mapsto> f\<lparr>cf_writer := True\<rparr>), seq_pc := Answering pid len\<rparr>)
               else Some (s\<lparr>seq_log := seq_log s @ [''open '' @ clientFifo pid], seq_pc := Reading\<rparr>)
           | None \<Rightarrow> Some (s\<lparr>seq_log := seq_log s @ [''open '' @ clientFifo pid], seq_pc := Reading\<rparr>))
      | Answering pid len \<Rightarrow>
          (case seq_reply s pid of
             Some f \<Rightarrow>
               if l = Works \<and> cf_reader f
               then Some (s\<lparr>seq_reply := (seq_reply s)(pid \<mapsto> f\<lparr>cf_data := cf_data f @ [seq_num s]\<rparr>), seq_pc := Closing pid len False\<rparr>)
               else Some (s\<lparr>seq_log := seq_log s @ [''Error writing to FIFO '' @ clientFifo pid], seq_pc := Closing pid len True\<rparr>)
           | None \<Rightarrow> Some (s\<lparr>seq_log := seq_log s @ [''Error writing to FIFO '' @ clientFifo pid], seq_pc := Closing pid len True\<rparr>))
      | Closing pid len clientError \<Rightarrow>
          let s1 = s\<lparr>seq_reply := (seq_reply s)(pid := map_option (\<lambda>f. f\<lparr>cf_writer := False\<rparr>) (seq_reply s pid))\<rparr> in
          if l = Fails then Some (s1\<lparr>seq_log := seq_log s1 @ [''close''], seq_pc := Reading\<rparr>)
          else if clientError then Some (s1\<lparr>seq_pc := Reading\<rparr>)
          else Some (s1\<lparr>seq_num := seq_num s + len, seq_pc := Saving\<rparr>)
      | Saving \<Rightarrow>
          if l = Fails then Some (server_gone 1 s)
          else Some (s\<lparr>seq_backup := write_at (seq_off s) (le_bytes 4 (seq_num s)) (seq_backup s), seq_off := seq_off s + 4, seq_pc := Seeking\<rparr>)
      | Seeking \<Rightarrow>
          if l = Fails then Some (server_gone 1 s) else Some (s\<lparr>seq_off := 0, seq_pc := Reading\<rparr>)
      | Down status \<Rightarrow> None)"

section \<open>The clients\<close>

text \<open>\<^verbatim>\<open>removeFifo\<close> runs at every \<^verbatim>\<open>exit\<close> but not when a signal ends the process.\<close>

definition client_ends :: "nat \<Rightarrow> asking \<Rightarrow> seqsys \<Rightarrow> seqsys" where
  "client_ends pid pc s = s\<lparr>seq_reply := (seq_reply s)(pid := None), seq_client := (seq_client s)(pid := pc)\<rparr>"

definition client_killed :: "nat \<Rightarrow> seqsys \<Rightarrow> seqsys" where
  "client_killed pid s =
     s\<lparr>seq_reply := (seq_reply s)(pid := map_option (\<lambda>f. f\<lparr>cf_reader := False\<rparr>) (seq_reply s pid)),
       seq_client := (seq_client s)(pid := Failed)\<rparr>"

definition alive :: "seqsys \<Rightarrow> bool" where
  "alive s = (case seq_pc s of Down status \<Rightarrow> False | _ \<Rightarrow> True)"

text \<open>\<open>want\<close> is the length of the sequence each client asks for. The FIFO keeps a client blocked that opens it while the
  server is gone, and kills one that writes to a FIFO without a reader.\<close>

definition seq_ask :: "(nat \<Rightarrow> 32 word) \<Rightarrow> luck \<Rightarrow> nat \<Rightarrow> seqsys \<Rightarrow> seqsys option" where
  "seq_ask want l pid s =
     (case seq_client s pid of
        Starting \<Rightarrow>
          if l = Fails then Some (s\<lparr>seq_client := (seq_client s)(pid := Failed)\<rparr>)
          else Some (s\<lparr>seq_reply := (seq_reply s)(pid \<mapsto>
                         (case seq_reply s pid of None \<Rightarrow> \<lparr>cf_reader = True, cf_writer = False, cf_data = []\<rparr>
                          | Some f \<Rightarrow> f\<lparr>cf_reader := True\<rparr>)),
                       seq_client := (seq_client s)(pid := Connecting)\<rparr>)
      | Connecting \<Rightarrow>
          if l = Fails \<or> \<not> seq_name s then Some (client_ends pid Failed s)
          else if alive s then Some (s\<lparr>seq_client := (seq_client s)(pid := Sending (seq_life s))\<rparr>)
          else None
      | Sending life \<Rightarrow>
          if l = Fails then Some (client_ends pid Failed s)
          else if alive s \<and> life = seq_life s
          then Some (s\<lparr>seq_fifo := seq_fifo s @ [(pid, want pid)], seq_client := (seq_client s)(pid := Awaiting)\<rparr>)
          else Some (client_killed pid s)
      | Awaiting \<Rightarrow>
          (case seq_reply s pid of None \<Rightarrow> Some (client_ends pid Failed s)
           | Some f \<Rightarrow>
               if l = Fails then Some (client_ends pid Failed s)
               else (case cf_data f of n # ns \<Rightarrow> Some (client_ends pid (Printed (sint n)) s)
                     | [] \<Rightarrow> if cf_writer f then None else Some (client_ends pid Failed s)))
      | Printed n \<Rightarrow> None
      | Failed \<Rightarrow> None)"

section \<open>The system\<close>

text \<open>\<open>bad_close\<close>: the server's \<^verbatim>\<open>close\<close> may fail; \<open>again\<close>: a server that ended by a signal may be started again.\<close>

inductive seq_step :: "(nat \<Rightarrow> 32 word) \<Rightarrow> bool \<Rightarrow> bool \<Rightarrow> seqsys \<Rightarrow> seqsys \<Rightarrow> bool" for want bad_close again where
  server: "seq_server l s = Some t \<Longrightarrow> bad_close \<or> l = Works \<or> (\<forall>p len e. seq_pc s \<noteq> Closing p len e) \<Longrightarrow> seq_step want bad_close again s t"
| client: "seq_ask want l pid s = Some t \<Longrightarrow> seq_step want bad_close again s t"
| signal: "alive s \<Longrightarrow> seq_step want bad_close again s (handler l s)"
| kill: "seq_client s pid \<noteq> Starting \<Longrightarrow> (\<And>n. seq_client s pid \<noteq> Printed n) \<Longrightarrow> seq_step want bad_close again s (client_killed pid s)"
| restart: "again \<Longrightarrow> seq_pc s = Down 0 \<Longrightarrow> seq_step want bad_close again s (server_begin (Some (seq_backup s)) s)"

definition seq_init :: seqsys where
  "seq_init = \<lparr>seq_pc = Down 0, seq_num = 0, seq_backup = [], seq_off = 0, seq_name = False, seq_life = 0, seq_fifo = [],
     seq_client = (\<lambda>p. Starting), seq_reply = (\<lambda>p. None), seq_log = []\<rparr>"

inductive seq_reached :: "(nat \<Rightarrow> 32 word) \<Rightarrow> bool \<Rightarrow> bool \<Rightarrow> 8 word list option \<Rightarrow> seqsys \<Rightarrow> bool"
  for want bad_close again backup where
  start: "seq_reached want bad_close again backup (server_begin backup seq_init)"
| step: "seq_reached want bad_close again backup s \<Longrightarrow> seq_step want bad_close again s t \<Longrightarrow> seq_reached want bad_close again backup t"

section \<open>No number is given twice\<close>

text \<open>What has been sent and not answered yet, and whether a client's request has left it.\<close>

definition in_service :: "seqsys \<Rightarrow> (nat \<times> 32 word) list" where
  "in_service s = (case seq_pc s of Opening p len \<Rightarrow> [(p, len)] | Answering p len \<Rightarrow> [(p, len)] | _ \<Rightarrow> [])"

definition sent :: "seqsys \<Rightarrow> nat \<Rightarrow> bool" where
  "sent s p = (case seq_client s p of Starting \<Rightarrow> False | Connecting \<Rightarrow> False | Sending life \<Rightarrow> False | _ \<Rightarrow> True)"

text \<open>The ledger \<open>off\<close> has the offset at which each answered client's numbers begin: the answers do not overlap and
  use up \<open>U\<close> numbers.\<close>

definition ledger :: "(nat \<Rightarrow> 32 word) \<Rightarrow> (nat \<rightharpoonup> nat) \<Rightarrow> nat \<Rightarrow> bool" where
  "ledger want off U \<longleftrightarrow> finite (dom off) \<and> U = (\<Sum>p\<in>dom off. unat (want p)) \<and>
     (\<forall>p a. off p = Some a \<longrightarrow> a + unat (want p) \<le> U) \<and>
     (\<forall>p q a b. off p = Some a \<longrightarrow> off q = Some b \<longrightarrow> p \<noteq> q \<longrightarrow> a + unat (want p) \<le> b \<or> b + unat (want q) \<le> a)"

lemma ledger_add:
  assumes "ledger want off U" and "off p = None"
  shows "ledger want (off(p \<mapsto> U)) (U + unat (want p))"
  using assms unfolding ledger_def by (auto simp: domIff intro: trans_le_add1)

text \<open>The next number, which the server still has to advance while it closes.\<close>

definition counted :: "32 word \<Rightarrow> nat \<Rightarrow> seqsys \<Rightarrow> bool" where
  "counted base U s =
     (case seq_pc s of Down status \<Rightarrow> True
      | Closing p len e \<Rightarrow> seq_num s + (if e then 0 else len) = base + of_nat U
      | _ \<Rightarrow> seq_num s = base + of_nat U)"

lemma counted_cong: "seq_pc t = seq_pc s \<Longrightarrow> seq_num t = seq_num s \<Longrightarrow> counted base U t = counted base U s"
  by (simp only: counted_def)

definition queued :: "(nat \<Rightarrow> 32 word) \<Rightarrow> (nat \<rightharpoonup> nat) \<Rightarrow> seqsys \<Rightarrow> bool" where
  "queued want off s \<longleftrightarrow> distinct (map fst (in_service s @ seq_fifo s)) \<and>
     (\<forall>p len. (p, len) \<in> set (in_service s @ seq_fifo s) \<longrightarrow> len = want p \<and> off p = None \<and> sent s p)"

definition answered :: "32 word \<Rightarrow> (nat \<rightharpoonup> nat) \<Rightarrow> seqsys \<Rightarrow> bool" where
  "answered base off s \<longleftrightarrow> (\<forall>p. off p \<noteq> None \<longrightarrow> sent s p) \<and>
     (\<forall>p f n. seq_reply s p = Some f \<longrightarrow> n \<in> set (cf_data f) \<longrightarrow> (\<exists>a. off p = Some a \<and> n = base + of_nat a)) \<and>
     (\<forall>p n. seq_client s p = Printed n \<longrightarrow> (\<exists>a. off p = Some a \<and> n = sint (base + of_nat a)))"

definition seq_inv :: "(nat \<Rightarrow> 32 word) \<Rightarrow> 32 word \<Rightarrow> seqsys \<Rightarrow> bool" where
  "seq_inv want base s \<longleftrightarrow> finite {p. seq_client s p \<noteq> Starting} \<and>
     (\<exists>off U. ledger want off U \<and> counted base U s \<and> queued want off s \<and> answered base off s)"

lemma seq_invI:
  "finite {p. seq_client s p \<noteq> Starting} \<Longrightarrow> ledger want off U \<Longrightarrow> counted base U s \<Longrightarrow> queued want off s \<Longrightarrow>
    answered base off s \<Longrightarrow> seq_inv want base s"
  by (auto simp: seq_inv_def)

lemmas seq_books = counted_def queued_def answered_def in_service_def sent_def

lemmas server_steps = seq_server_def server_gone_def Let_def

lemma server_frame:
  assumes "seq_server l s = Some t"
  shows "seq_client t = seq_client s"
    and "in_service t @ seq_fifo t = [] \<or> (\<exists>xs. in_service s @ seq_fifo s = xs @ in_service t @ seq_fifo t)"
  by (cases "seq_pc s"; use assms in \<open>auto simp: server_steps in_service_def split: if_splits option.splits list.splits\<close>)+

text \<open>Every step but a successful answer leaves the data in the clients' FIFOs alone.\<close>

definition answers :: "luck \<Rightarrow> seqsys \<Rightarrow> bool" where
  "answers l s = (case seq_pc s of
     Answering p len \<Rightarrow> (case seq_reply s p of Some f \<Rightarrow> l = Works \<and> cf_reader f | None \<Rightarrow> False) | _ \<Rightarrow> False)"

lemma server_data:
  assumes "seq_server l s = Some t" and "\<not> answers l s"
  shows "seq_reply t p = Some f \<Longrightarrow> \<exists>g. seq_reply s p = Some g \<and> cf_data f = cf_data g"
  by (cases "seq_pc s"; use assms in \<open>auto simp: server_steps answers_def split: if_splits option.splits list.splits\<close>)

lemma server_counted:
  assumes "seq_server l s = Some t" and "\<not> answers l s" and "counted base U s"
    and "l = Works \<or> (\<forall>p len e. seq_pc s \<noteq> Closing p len e)"
  shows "counted base U t"
proof (cases "seq_pc s")
  case (Opening p len)
  then show ?thesis using assms(1, 3) by (auto simp: seq_server_def counted_def split: if_splits option.splits)
next
  case (Answering p len)
  then show ?thesis using assms(1-3) by (auto simp: seq_server_def answers_def counted_def split: if_splits option.splits)
next
  case (Closing p len e)
  then show ?thesis using assms(1, 3, 4) by (auto simp: seq_server_def Let_def counted_def split: if_splits)
next
  case Reading
  then show ?thesis using assms(1, 3) by (auto simp: seq_server_def counted_def split: if_splits list.splits)
next
  case Saving
  then show ?thesis using assms(1, 3) by (auto simp: server_steps counted_def split: if_splits)
next
  case Seeking
  then show ?thesis using assms(1, 3) by (auto simp: server_steps counted_def split: if_splits)
next
  case (Down status)
  then show ?thesis using assms(1) by (simp add: seq_server_def)
qed

lemma queued_shrink:
  assumes "queued want off s" and "seq_client t = seq_client s"
    and "in_service t @ seq_fifo t = [] \<or> (\<exists>xs. in_service s @ seq_fifo s = xs @ in_service t @ seq_fifo t)"
  shows "queued want off t"
proof -
  have shrink: "distinct (map fst ys) \<and> set ys \<subseteq> set zs" if "distinct (map fst zs)" "ys = [] \<or> (\<exists>xs. zs = xs @ ys)" for ys zs :: "(nat \<times> 32 word) list"
    using that by auto
  have "distinct (map fst (in_service t @ seq_fifo t)) \<and> set (in_service t @ seq_fifo t) \<subseteq> set (in_service s @ seq_fifo s)"
    using assms(1, 3) unfolding queued_def by (intro shrink) blast+
  then show ?thesis using assms(1) unfolding queued_def sent_def assms(2) by blast
qed

lemma server_keeps:
  assumes "seq_inv want base s" and "seq_server l s = Some t" and "l = Works \<or> (\<forall>p len e. seq_pc s \<noteq> Closing p len e)"
  shows "seq_inv want base t"
proof -
  obtain off U where inv: "finite {p. seq_client s p \<noteq> Starting}" "ledger want off U" "counted base U s" "queued want off s" "answered base off s"
    using assms(1) by (auto simp: seq_inv_def)
  show ?thesis
  proof (cases "answers l s")
    case True
    then obtain p len f where st: "seq_pc s = Answering p len" "seq_reply s p = Some f" "l = Works" "cf_reader f"
      by (auto simp: answers_def split: serving.splits option.splits)
    then have t: "t = s\<lparr>seq_reply := (seq_reply s)(p \<mapsto> f\<lparr>cf_data := cf_data f @ [seq_num s]\<rparr>), seq_pc := Closing p len False\<rparr>"
      using assms(2) by (simp add: seq_server_def)
    have q: "len = want p" "off p = None" "sent s p" "p \<notin> fst ` set (seq_fifo s)"
      using inv(4) st(1) by (auto simp: queued_def in_service_def)
    show ?thesis
    proof (rule seq_invI [where off = "off(p \<mapsto> U)" and U = "U + unat (want p)"])
      show "finite {p. seq_client t p \<noteq> Starting}" using inv(1) t by simp
      show "ledger want (off(p \<mapsto> U)) (U + unat (want p))" by (rule ledger_add [OF inv(2) q(2)])
      show "counted base (U + unat (want p)) t" using inv(3) q(1) by (simp add: t counted_def st(1))
      have same: "sent t r = sent s r" "in_service t = []" "seq_fifo t = seq_fifo s" "seq_client t = seq_client s" for r
        by (simp_all add: t sent_def in_service_def)
      have "r \<noteq> p" if "(r, n) \<in> set (seq_fifo s)" for r n using q(4) that by force
      then show "queued want (off(p \<mapsto> U)) t" using inv(4) unfolding queued_def same by auto
      have num: "seq_num s = base + of_nat U" using inv(3) by (simp add: counted_def st(1))
      have keep: "\<exists>a. (off(p \<mapsto> U)) r = Some a \<and> P a" if "\<exists>a. off r = Some a \<and> P a" for r P using that q(2) by auto
      show "answered base (off(p \<mapsto> U)) t" unfolding answered_def same
      proof (intro conjI allI impI)
        fix r g n assume "seq_reply t r = Some g" "n \<in> set (cf_data g)"
        then have "(\<exists>a. off r = Some a \<and> n = base + of_nat a) \<or> r = p \<and> n = seq_num s"
          using st(2) inv(5) unfolding answered_def by (auto simp: t split: if_splits)
        then show "\<exists>a. (off(p \<mapsto> U)) r = Some a \<and> n = base + of_nat a"
          by (elim disjE) (rule keep, assumption, simp add: num)
      next
        fix r n assume "seq_client s r = Printed n"
        then show "\<exists>a. (off(p \<mapsto> U)) r = Some a \<and> n = sint (base + of_nat a)"
          using inv(5) unfolding answered_def by (intro keep) blast
      qed (use inv(5) q(3) in \<open>auto simp: answered_def split: if_splits\<close>)
    qed
  next
    case False
    note frame = server_frame [OF assms(2)]
    have "answered base off t"
      using inv(5) server_data [OF assms(2) False] unfolding answered_def sent_def frame(1) by (metis (no_types, lifting))
    then show ?thesis
      using inv frame server_counted [OF assms(2) False inv(3) assms(3)] queued_shrink [OF inv(4) frame] by (intro seq_invI) simp_all
  qed
qed

lemma server_gone_keeps: "seq_inv want base s \<Longrightarrow> seq_inv want base (server_gone status s)"
  unfolding seq_inv_def
  by (auto simp: server_gone_def counted_def queued_def in_service_def answered_def sent_def)

lemma name_keeps: "seq_inv want base s \<Longrightarrow> seq_inv want base (s\<lparr>seq_name := b\<rparr>)"
proof -
  have "sent (s\<lparr>seq_name := b\<rparr>) = sent s" "in_service (s\<lparr>seq_name := b\<rparr>) = in_service s"
    "counted base U (s\<lparr>seq_name := b\<rparr>) = counted base U s" for U
    by (cases "seq_pc s"; simp add: sent_def in_service_def counted_def fun_eq_iff)+
  then show "seq_inv want base s \<Longrightarrow> seq_inv want base (s\<lparr>seq_name := b\<rparr>)"
    by (simp add: seq_inv_def queued_def answered_def)
qed

lemma handler_keeps: "seq_inv want base s \<Longrightarrow> seq_inv want base (handler l s)"
  unfolding handler_def by (simp add: server_gone_keeps name_keeps)

text \<open>A step of a client that keeps what has been sent, or sends more.\<close>

lemma client_frame:
  assumes "seq_inv want base s" and "\<And>q. sent s q \<Longrightarrow> sent t q" and "\<And>q. q \<noteq> p \<Longrightarrow> seq_client t q = seq_client s q"
    and "seq_pc t = seq_pc s" "seq_fifo t = seq_fifo s" "seq_num t = seq_num s"
    and "\<And>q f. seq_reply t q = Some f \<Longrightarrow> cf_data f \<noteq> [] \<Longrightarrow> \<exists>g. seq_reply s q = Some g \<and> cf_data f = cf_data g"
    and "\<And>n. seq_client t p = Printed n \<Longrightarrow> \<exists>f m. seq_reply s p = Some f \<and> m \<in> set (cf_data f) \<and> n = sint m"
  shows "seq_inv want base t"
proof -
  obtain off U where inv: "finite {p. seq_client s p \<noteq> Starting}" "ledger want off U" "counted base U s" "queued want off s" "answered base off s"
    using assms(1) by (auto simp: seq_inv_def)
  have "{q. seq_client t q \<noteq> Starting} \<subseteq> insert p {q. seq_client s q \<noteq> Starting}" using assms(3) by auto
  then have fin: "finite {q. seq_client t q \<noteq> Starting}" using inv(1) by (meson finite.insertI finite_subset)
  have svc: "in_service t = in_service s" using assms(4) by (simp add: in_service_def)
  have "answered base off t" unfolding answered_def
  proof (intro conjI allI impI)
    fix q n assume n: "seq_client t q = Printed n"
    show "\<exists>a. off q = Some a \<and> n = sint (base + of_nat a)"
    proof (cases "q = p")
      case True
      then obtain f m where "seq_reply s p = Some f" "m \<in> set (cf_data f)" "n = sint m" using assms(8) n by blast
      then show ?thesis using inv(5) True unfolding answered_def by metis
    next
      case False
      then show ?thesis using inv(5) n assms(3) unfolding answered_def by simp
    qed
  next
    fix q f n assume "seq_reply t q = Some f" "n \<in> set (cf_data f)"
    then show "\<exists>a. off q = Some a \<and> n = base + of_nat a"
      using inv(5) assms(7) [of q f] unfolding answered_def by (metis empty_iff list.set(1))
  qed (use inv(5) assms(2) in \<open>auto simp: answered_def\<close>)
  moreover have "counted base U t" using inv(3) unfolding counted_def assms(4, 6) .
  moreover have "queued want off t" using inv(4) assms(2) unfolding queued_def svc assms(5) by blast
  ultimately show ?thesis by (intro seq_invI [OF fin inv(2)])
qed

lemma client_ends_keeps:
  assumes "seq_inv want base s" and "\<And>life. pc \<noteq> Sending life" "pc \<noteq> Starting" "pc \<noteq> Connecting"
    and "\<And>n. pc = Printed n \<Longrightarrow> \<exists>f m. seq_reply s p = Some f \<and> m \<in> set (cf_data f) \<and> n = sint m"
  shows "seq_inv want base (client_ends p pc s)"
  by (rule client_frame [OF assms(1), of _ p])
    (use assms(2-5) in \<open>auto simp: client_ends_def sent_def split: if_splits asking.splits\<close>)

lemma client_killed_keeps: "seq_inv want base s \<Longrightarrow> seq_inv want base (client_killed p s)"
  by (rule client_frame [of want base s _ p]) (auto simp: client_killed_def sent_def split: if_splits asking.splits)

lemma client_keeps:
  assumes "seq_inv want base s" and "seq_ask want l p s = Some t"
  shows "seq_inv want base t"
proof (cases "seq_client s p")
  case Starting
  show ?thesis
    by (rule client_frame [OF assms(1), of _ p])
      (use assms(2) Starting in \<open>auto simp: seq_ask_def sent_def split: if_splits option.splits asking.splits\<close>)
next
  case Connecting
  have "t = client_ends p Failed s \<or> t = s\<lparr>seq_client := (seq_client s)(p := Sending (seq_life s))\<rparr>"
    using assms(2) Connecting by (auto simp: seq_ask_def split: if_splits)
  moreover have "seq_inv want base (s\<lparr>seq_client := (seq_client s)(p := Sending (seq_life s))\<rparr>)"
    by (rule client_frame [OF assms(1), of _ p]) (use Connecting in \<open>auto simp: sent_def split: if_splits asking.splits\<close>)
  ultimately show ?thesis using client_ends_keeps [OF assms(1), of Failed p] by auto
next
  case (Sending life)
  consider "t = client_ends p Failed s" | "t = client_killed p s" |
    "t = s\<lparr>seq_fifo := seq_fifo s @ [(p, want p)], seq_client := (seq_client s)(p := Awaiting)\<rparr>"
    using assms(2) Sending by (auto simp: seq_ask_def split: if_splits)
  then show ?thesis
  proof cases
    case 3
    obtain off U where inv: "finite {p. seq_client s p \<noteq> Starting}" "ledger want off U" "counted base U s" "queued want off s" "answered base off s"
      using assms(1) by (auto simp: seq_inv_def)
    have not: "\<not> sent s p" using Sending by (simp add: sent_def)
    have st: "sent t q = (q = p \<or> sent s q)" "in_service t = in_service s" "seq_fifo t = seq_fifo s @ [(p, want p)]"
      "seq_reply t = seq_reply s" for q
      by (simp_all add: 3 sent_def in_service_def)
    have "off p = None" using inv(5) not unfolding answered_def by auto
    moreover have "p \<notin> fst ` set (in_service s @ seq_fifo s)" using inv(4) not unfolding queued_def by force
    ultimately have "queued want off t" using inv(4) unfolding queued_def st by auto
    moreover have "answered base off t"
      using inv(5) unfolding answered_def st by (auto simp: 3)
    moreover have "counted base U t" using inv(3) counted_cong [of t s] by (simp add: 3)
    moreover have "finite {p. seq_client t p \<noteq> Starting}"
      by (rule finite_subset [OF _ finite.insertI [OF inv(1), of p]]) (auto simp: 3)
    ultimately show ?thesis using inv(2) by (intro seq_invI)
  qed (use client_ends_keeps [OF assms(1), of Failed p] client_killed_keeps [OF assms(1)] in auto)
next
  case Awaiting
  show ?thesis
  proof (cases "t = client_ends p Failed s")
    case True
    then show ?thesis using client_ends_keeps [OF assms(1), of Failed p] by auto
  next
    case False
    then obtain f n ns where f: "seq_reply s p = Some f" "cf_data f = n # ns" "t = client_ends p (Printed (sint n)) s"
      using assms(2) Awaiting by (auto simp: seq_ask_def split: if_splits option.splits list.splits)
    have "\<exists>g m. seq_reply s p = Some g \<and> m \<in> set (cf_data g) \<and> sint n = sint m"
      using f by auto
    then show ?thesis unfolding f(3) by (intro client_ends_keeps [OF assms(1)]) auto
  qed
qed (use assms(2) in \<open>auto simp: seq_ask_def\<close>)

definition base_of :: "8 word list option \<Rightarrow> 32 word" where
  "base_of backup = (case backup of None \<Rightarrow> 0 | Some bytes \<Rightarrow> le_word (take 4 bytes))"

lemma begin_inv: "seq_inv want (base_of backup) (server_begin backup seq_init)"
proof -
  have "counted (base_of backup) 0 (server_begin backup seq_init) \<and> seq_client (server_begin backup seq_init) = (\<lambda>p. Starting) \<and>
    seq_reply (server_begin backup seq_init) = (\<lambda>p. None) \<and> in_service (server_begin backup seq_init) = [] \<and>
    seq_fifo (server_begin backup seq_init) = []"
    by (cases backup; cases "length (the backup) < 4")
      (simp_all add: base_of_def server_begin_def seq_init_def Let_def counted_def in_service_def)
  then show ?thesis
    by (intro seq_invI [where off = "\<lambda>p. None" and U = 0]) (simp_all add: ledger_def queued_def answered_def)
qed

lemma seq_reached_inv:
  assumes "seq_reached want False False backup s"
  shows "seq_inv want (base_of backup) s"
  using assms
proof induction
  case start
  show ?case by (rule begin_inv)
next
  case (step s t)
  from step(2, 3) show ?case
  proof cases
    case (server l)
    then show ?thesis using server_keeps [OF step(3)] by auto
  qed (auto intro: client_keeps handler_keeps client_killed_keeps)
qed

lemma offsets_apart:
  assumes "ledger want off U" and "U \<le> 2 ^ 32" and "off p = Some a" "off q = Some b" "p \<noteq> q" "i < unat (want p)" "j < unat (want q)"
  shows "base + of_nat a + of_nat i \<noteq> (base + of_nat b + of_nat j :: 32 word)"
proof
  assume "base + of_nat a + of_nat i = (base + of_nat b + of_nat j :: 32 word)"
  then have eq: "(of_nat (a + i) :: 32 word) = of_nat (b + j)" by (simp add: add.assoc)
  have "a + unat (want p) \<le> U" "b + unat (want q) \<le> U" using assms(1, 3, 4) by (auto simp: ledger_def)
  then have "a + i < 2 ^ LENGTH(32)" "b + j < 2 ^ LENGTH(32)" using assms(2, 6, 7) by simp_all
  then have "a + i = b + j" using eq unfolding word_of_nat_eq_iff by (simp only: take_bit_nat_eq_self)
  moreover have "a + unat (want p) \<le> b \<or> b + unat (want q) \<le> a" using assms(1, 3-5) unfolding ledger_def by blast
  ultimately show False using assms(6, 7) by linarith
qed

section \<open>Schedules\<close>

text \<open>A schedule says who makes the next call; every call works.\<close>

datatype turn = Server | Client nat | Signal | Restart

fun seq_turn :: "(nat \<Rightarrow> 32 word) \<Rightarrow> turn \<Rightarrow> seqsys \<Rightarrow> seqsys option" where
  "seq_turn want Server s = seq_server Works s"
| "seq_turn want (Client p) s = seq_ask want Works p s"
| "seq_turn want Signal s = (if alive s then Some (handler Works s) else None)"
| "seq_turn want Restart s = (if seq_pc s = Down 0 then Some (server_begin (Some (seq_backup s)) s) else None)"

fun seq_play :: "(nat \<Rightarrow> 32 word) \<Rightarrow> turn list \<Rightarrow> seqsys \<Rightarrow> seqsys option" where
  "seq_play want [] s = Some s"
| "seq_play want (x # xs) s = (case seq_turn want x s of None \<Rightarrow> None | Some t \<Rightarrow> seq_play want xs t)"

lemma turn_step: "seq_turn want x s = Some t \<Longrightarrow> Restart \<noteq> x \<or> again \<Longrightarrow> seq_step want False again s t"
  by (cases x) (auto split: if_splits intro: seq_step.intros)

lemma play_reached:
  assumes "seq_reached want False again backup s" and "seq_play want xs s = Some t" and "Restart \<notin> set xs \<or> again"
  shows "seq_reached want False again backup t"
  using assms
proof (induction xs arbitrary: s)
  case (Cons x xs)
  then obtain u where "seq_turn want x s = Some u" "seq_play want xs u = Some t" by (auto split: option.splits)
  then show ?case using Cons turn_step [of want x s u again] by (metis list.set_intros(1,2) seq_reached.step)
qed simp

text \<open>The calls of a client and of the server for one request, up to the server's next \<^verbatim>\<open>read\<close>; and a stop and a start.\<close>

definition request_turns :: "nat \<Rightarrow> turn list" where
  "request_turns p = [Client p, Client p, Client p, Server, Server, Server, Client p, Server, Server, Server]"

definition life_turns :: "nat \<Rightarrow> turn list" where
  "life_turns p = request_turns p @ [Signal, Restart]"

text \<open>A server that has read \<open>n\<close> at its start and has not served anyone yet.\<close>

definition begun :: "32 word \<Rightarrow> seqsys \<Rightarrow> bool" where
  "begun n s \<longleftrightarrow> seq_pc s = Reading \<and> seq_num s = n \<and> seq_off s = 4 \<and> 4 \<le> length (seq_backup s) \<and> le_word (take 4 (seq_backup s)) = n \<and>
     seq_name s \<and> seq_fifo s = [] \<and> seq_reply s = (\<lambda>p. None)"

lemma seq_play_append: "seq_play want (xs @ ys) s = (case seq_play want xs s of None \<Rightarrow> None | Some t \<Rightarrow> seq_play want ys t)"
  by (induction xs arbitrary: s) (auto split: option.split)

lemma begin_begun:
  assumes "\<forall>bytes. backup = Some bytes \<longrightarrow> 4 \<le> length bytes"
  shows "begun (base_of backup) (server_begin backup seq_init)" "seq_client (server_begin backup seq_init) = (\<lambda>p. Starting)"
  using assms by (auto simp: begun_def server_begin_def seq_init_def base_of_def Let_def le_word_bytes_id split: option.splits)

lemma one_served:
  assumes "begun n s" and "seq_client s p = Starting"
  shows "\<exists>t. seq_play want (request_turns p) s = Some t \<and> seq_pc t = Reading \<and> seq_num t = n + want p \<and>
    seq_backup t = write_at 4 (le_bytes 4 (n + want p)) (seq_backup s) \<and> seq_off t = 0 \<and> seq_name t \<and> seq_fifo t = [] \<and>
    seq_reply t = (\<lambda>q. None) \<and> seq_client t = (seq_client s)(p := Printed (sint n))"
  using assms
  by (simp add: begun_def request_turns_def seq_ask_def seq_server_def alive_def client_ends_def fun_eq_iff)

lemma write_behind:
  assumes "4 \<le> length bytes" and "length bs = 4"
  shows "take 4 (write_at 4 bs bytes) = take 4 bytes" "take 4 (drop 4 (write_at 4 bs bytes)) = bs" "4 \<le> length (write_at 4 bs bytes)"
  using assms by (simp_all add: write_at_def)

lemma one_life:
  assumes "begun n s" and "seq_client s p = Starting"
  shows "\<exists>t. seq_play want (life_turns p) s = Some t \<and> begun n t \<and> seq_client t = (seq_client s)(p := Printed (sint n))"
proof -
  obtain t where t: "seq_play want (request_turns p) s = Some t" "seq_pc t = Reading" "seq_off t = 0" "seq_name t" "seq_fifo t = []"
    "seq_backup t = write_at 4 (le_bytes 4 (n + want p)) (seq_backup s)" "seq_reply t = (\<lambda>q. None)"
    "seq_client t = (seq_client s)(p := Printed (sint n))"
    using one_served [OF assms, of want] by blast
  have b: "4 \<le> length (seq_backup s)" "le_word (take 4 (seq_backup s)) = n" using assms(1) by (simp_all add: begun_def)
  have w: "4 \<le> length (seq_backup t)" "le_word (take 4 (seq_backup t)) = n"
    using write_behind [OF b(1), of "le_bytes 4 (n + want p)"] b(2) by (simp_all add: t(6))
  have "seq_play want (life_turns p) s = Some (server_begin (Some (seq_backup t)) (handler Works t))"
    using t(1, 2) by (simp add: life_turns_def seq_play_append alive_def handler_def server_gone_def)
  moreover have "begun n (server_begin (Some (seq_backup t)) (handler Works t))"
    using w t(7) by (simp add: begun_def server_begin_def handler_def server_gone_def Let_def)
  moreover have "seq_client (server_begin (Some (seq_backup t)) (handler Works t)) = seq_client t"
    using w(1) by (simp add: server_begin_def handler_def server_gone_def Let_def)
  ultimately show ?thesis using t(8) by auto
qed

lemma many_lives:
  assumes "begun n s" and "distinct ps" and "\<forall>p \<in> set ps. seq_client s p = Starting"
  shows "\<exists>t. seq_play want (concat (map life_turns ps)) s = Some t \<and> begun n t \<and>
    (\<forall>p. seq_client t p = (if p \<in> set ps then Printed (sint n) else seq_client s p))"
  using assms
proof (induction ps arbitrary: s)
  case (Cons p ps)
  obtain u where u: "seq_play want (life_turns p) s = Some u" "begun n u" "seq_client u = (seq_client s)(p := Printed (sint n))"
    using one_life [of n s p want] Cons.prems by auto
  have "\<forall>q \<in> set ps. seq_client u q = Starting" using Cons.prems by (auto simp: u(3))
  with Cons.IH [OF u(2)] Cons.prems(2) obtain t where t: "seq_play want (concat (map life_turns ps)) u = Some t" "begun n t"
    "\<forall>q. seq_client t q = (if q \<in> set ps then Printed (sint n) else seq_client u q)" by auto
  then show ?case using u(1, 3) by (auto simp: seq_play_append)
qed simp

section \<open>The properties\<close>

text \<open>C15: While the server runs and its \<^verbatim>\<open>close\<close> does not fail, the sequences it hands out do not overlap: no number of
  one client's sequence is a number of another's, whatever else fails and whoever dies, as long as not more than 2 ^ 32 numbers
  are asked for.\<close>

theorem seq_numbers_unique:
  assumes "seq_reached want False False backup s" and "(\<Sum>p | seq_client s p \<noteq> Starting. unat (want p)) \<le> 2 ^ 32"
    and "seq_client s p = Printed m" "seq_client s q = Printed n" "p \<noteq> q" "i < unat (want p)" "j < unat (want q)"
  shows "word_of_int m + of_nat i \<noteq> (word_of_int n + of_nat j :: 32 word)"
proof -
  obtain off U where inv: "finite {p. seq_client s p \<noteq> Starting}" "ledger want off U" "answered (base_of backup) off s"
    using seq_reached_inv [OF assms(1)] by (auto simp: seq_inv_def)
  have "dom off \<subseteq> {p. seq_client s p \<noteq> Starting}" using inv(3) by (auto simp: answered_def sent_def)
  then have "U \<le> 2 ^ 32"
    using inv(1, 2) assms(2) sum_mono2 [of "{p. seq_client s p \<noteq> Starting}" "dom off" "\<lambda>p. unat (want p)"] by (auto simp: ledger_def)
  moreover obtain a b where "off p = Some a" "m = sint (base_of backup + of_nat a)" "off q = Some b" "n = sint (base_of backup + of_nat b)"
    using inv(3) assms(3, 4) unfolding answered_def by blast
  ultimately show ?thesis using offsets_apart [OF inv(2) _ _ _ assms(5-7)] by simp
qed

definition ex_play :: "turn list" where
  "ex_play = [Client 1, Client 2, Client 1, Client 2, Client 1, Client 2, Server, Server, Server, Client 1, Server, Server, Server,
     Server, Server, Server, Client 2]"

theorem seq_numbers_unique_witness:
  "\<exists>s. seq_play (\<lambda>p. 5) ex_play (server_begin None seq_init) = Some s \<and> seq_client s 1 = Printed 0 \<and> seq_client s 2 = Printed 5 \<and>
    word_of_int 0 + of_nat 4 \<noteq> (word_of_int 5 + of_nat 0 :: 32 word)"
proof -
  obtain s where s: "seq_play (\<lambda>p. 5) ex_play (server_begin None seq_init) = Some s" "seq_client s 1 = Printed 0" "seq_client s 2 = Printed 5"
    "seq_client s = (\<lambda>p. Starting)(1 := Printed 0, 2 := Printed 5)"
    by (simp add: ex_play_def server_begin_def seq_init_def seq_ask_def seq_server_def alive_def client_ends_def write_at_end)
  have "seq_reached (\<lambda>p. 5) False False None s"
    using play_reached [OF seq_reached.start s(1)] by (simp add: ex_play_def)
  moreover have started: "{p. seq_client s p \<noteq> Starting} = {1, 2}" by (auto simp: s(4))
  have "(\<Sum>p | seq_client s p \<noteq> Starting. unat (5 :: 32 word)) \<le> 2 ^ 32" unfolding started by simp
  ultimately have "word_of_int 0 + of_nat 4 \<noteq> (word_of_int 5 + of_nat 0 :: 32 word)"
    by (rule seq_numbers_unique [of _ _ _ 1 _ 2, OF _ _ s(2, 3)]) simp_all
  then show ?thesis using s by blast
qed

text \<open>C36: The first backup of a server's life goes to the wrong place: when its first request is completely served, with every call
  working, the server waits for the next one with the advanced number, this number is in the bytes 4 to 7 of the backup file, and
  only then the file offset is 0; the bytes 0 to 3, which the next start reads, still have the number of the last start. So a server
  that serves one request in each of its lives gives all its clients the same numbers, however many there are.\<close>

theorem seq_restart_repeats:
  assumes "\<forall>bytes. backup = Some bytes \<longrightarrow> 4 \<le> length bytes" and "distinct ps"
  shows "(\<forall>p. \<exists>s. seq_play want (request_turns p) (server_begin backup seq_init) = Some s \<and>
      seq_client s p = Printed (sint (base_of backup)) \<and> seq_pc s = Reading \<and> seq_fifo s = [] \<and> seq_num s = base_of backup + want p \<and>
      seq_off s = 0 \<and> take 4 (drop 4 (seq_backup s)) = le_bytes 4 (seq_num s) \<and> le_word (take 4 (seq_backup s)) = base_of backup) \<and>
    (\<exists>t. seq_play want (concat (map life_turns ps)) (server_begin backup seq_init) = Some t \<and> seq_reached want False True backup t \<and>
      seq_num t = base_of backup \<and> (\<forall>p \<in> set ps. seq_client t p = Printed (sint (base_of backup))))"
proof (intro conjI allI)
  note b = begin_begun [OF assms(1)]
  fix p
  obtain s where s: "seq_play want (request_turns p) (server_begin backup seq_init) = Some s" "seq_pc s = Reading" "seq_fifo s = []"
    "seq_num s = base_of backup + want p" "seq_off s = 0" "seq_client s p = Printed (sint (base_of backup))"
    "seq_backup s = write_at 4 (le_bytes 4 (base_of backup + want p)) (seq_backup (server_begin backup seq_init))"
    using one_served [OF b(1), of p want] b(2) by auto
  have l: "4 \<le> length (seq_backup (server_begin backup seq_init))" "le_word (take 4 (seq_backup (server_begin backup seq_init))) = base_of backup"
    using b(1) by (simp_all add: begun_def)
  from s l(2) write_behind [OF l(1), of "le_bytes 4 (base_of backup + want p)"]
  show "\<exists>s. seq_play want (request_turns p) (server_begin backup seq_init) = Some s \<and>
      seq_client s p = Printed (sint (base_of backup)) \<and> seq_pc s = Reading \<and> seq_fifo s = [] \<and> seq_num s = base_of backup + want p \<and>
      seq_off s = 0 \<and> take 4 (drop 4 (seq_backup s)) = le_bytes 4 (seq_num s) \<and> le_word (take 4 (seq_backup s)) = base_of backup"
    by auto
next
  obtain t where t: "seq_play want (concat (map life_turns ps)) (server_begin backup seq_init) = Some t" "begun (base_of backup) t"
    "\<forall>p \<in> set ps. seq_client t p = Printed (sint (base_of backup))"
    using many_lives [OF begin_begun(1) [OF assms(1)] assms(2), where want = want] begin_begun(2) [OF assms(1)] by auto
  moreover have "seq_reached want False True backup t" using play_reached [OF seq_reached.start t(1)] by simp
  ultimately show "\<exists>t. seq_play want (concat (map life_turns ps)) (server_begin backup seq_init) = Some t \<and> seq_reached want False True backup t \<and>
      seq_num t = base_of backup \<and> (\<forall>p \<in> set ps. seq_client t p = Printed (sint (base_of backup)))"
    by (auto simp: begun_def)
qed

theorem seq_restart_repeats_witness:
  "\<exists>t. seq_play (\<lambda>p. 5) (concat (map life_turns [1, 2, 3])) (server_begin None seq_init) = Some t \<and> seq_num t = 0 \<and>
    seq_client t 1 = Printed 0 \<and> seq_client t 2 = Printed 0 \<and> seq_client t 3 = Printed 0"
proof -
  have "distinct [1, 2, 3 :: nat]" "\<forall>bytes. None = Some bytes \<longrightarrow> 4 \<le> length (bytes :: 8 word list)" by simp_all
  from seq_restart_repeats [OF this(2, 1), of "\<lambda>p. 5"] show ?thesis by (auto simp: base_of_def)
qed

text \<open>A client that reads before the server has opened its FIFO finds no writer, takes this for the end of the
  input and fails, with every call working; its request stays in the server's FIFO.\<close>

theorem seq_client_reads_early:
  assumes "seq_client s p = Starting" and "seq_reply s p = None" and "seq_name s" and "alive s"
  shows "\<exists>t. seq_play want [Client p, Client p, Client p, Client p] s = Some t \<and> seq_client t p = Failed \<and>
    seq_reply t p = None \<and> seq_fifo t = seq_fifo s @ [(p, want p)]"
  using assms by (simp add: seq_ask_def client_ends_def alive_def)

theorem seq_client_reads_early_witness:
  "\<exists>t. seq_play (\<lambda>p. 5) [Client 7, Client 7, Client 7, Client 7] (server_begin None seq_init) = Some t \<and> seq_client t 7 = Failed \<and>
    seq_fifo t = [(7, 5)]"
  using seq_client_reads_early [of "server_begin None seq_init" 7 "\<lambda>p. 5"] by (auto simp: server_begin_def seq_init_def alive_def)

end
