(* ===== verification/Node_Lists.thy ===== *)
theory Node_Lists
  imports Linked_List
begin

text \<open>
  Doubly linked nodes without a list struct, as the exercises keep them: a program holds a pointer to one of the nodes,
  goes back to the first one and walks on from there. The store and the segments are those of \<^verbatim>\<open>Linked_List\<close>; the
  fields of a node besides its links are its \<open>lval\<close>.
\<close>

section \<open>Chains\<close>

definition chain :: "('a, 'o, 's) lmem_scheme \<Rightarrow> (ptr \<times> 'a option) list \<Rightarrow> bool" where
  "chain s xs \<longleftrightarrow> lseg (lnodes s) NULL xs NULL \<and> distinct (map fst xs) \<and> NULL \<notin> addrs xs \<and> addrs xs \<subseteq> live s \<and> mem_ok s"

lemma chainD:
  assumes "chain s xs"
  shows "lseg (lnodes s) NULL xs NULL" and "distinct (map fst xs)" and "NULL \<notin> addrs xs" and "addrs xs \<subseteq> live s" and "mem_ok s"
  using assms unfolding chain_def by blast+

lemma chain_mid:
  assumes "chain s (xs @ (p, v) # ys)"
  shows "p \<notin> addrs xs" and "p \<notin> addrs ys" and "p \<noteq> NULL" and "p \<in> live s"
  using assms by (auto simp: chain_def)

lemma chain_nil: "chain s [] \<longleftrightarrow> mem_ok s"
  by (simp add: chain_def)

lemma chain_node:
  assumes "chain s (xs @ (p, v) # ys)"
  shows "node_get p s = Inr \<lparr>lnext = first_of ys NULL, lprev = last_of NULL xs, lval = v\<rparr>"
proof -
  have "p \<noteq> NULL" using chainD(3) [OF assms] by auto
  then show ?thesis using lseg_node [OF chainD(1) [OF assms]] by (simp add: node_get_def)
qed

lemma chain_cong:
  assumes "chain s xs" and "\<And>p. p \<in> addrs xs \<Longrightarrow> lnodes t p = lnodes s p" and "addrs xs \<subseteq> live t" and "mem_ok t"
  shows "chain t xs"
  using assms lseg_cong [of xs "lnodes t" "lnodes s" NULL NULL] unfolding chain_def by blast

text \<open>Chains whose nodes all have their fields.\<close>

abbreviation cells :: "(ptr \<times> 'a) list \<Rightarrow> (ptr \<times> 'a option) list" where
  "cells es \<equiv> map (\<lambda>x. (fst x, Some (snd x))) es"

lemma addrs_cells: "addrs (cells es) = fst ` set es"
  by force

lemma fst_cells [simp]: "fst ` (\<lambda>x. (fst x, Some (snd x))) ` A = fst ` A"
  by force

lemma cells_split: "x \<in> set xs \<Longrightarrow> \<exists>ys zs. xs = ys @ (fst x, snd x) # zs"
  by (metis prod.collapse split_list)

section \<open>Back to the first node\<close>

text \<open>\<^verbatim>\<open>while (p->prev != NULL) p = p->prev;\<close> with the node the loop looks at.\<close>

definition rewind_node :: "ptr \<Rightarrow> ('a, 'o, 's) lmem_scheme \<Rightarrow> ptr res" where
  "rewind_node p s =
     rbind (node_get p s) (\<lambda>n.
     rbind (cwhile (\<lambda>(q, n). lprev n \<noteq> NULL) (\<lambda>(q, n). rbind (node_get (lprev n) s) (\<lambda>m. Inr (lprev n, m))) (p, n))
       (\<lambda>(q, n). Inr q))"

lemma rewind_node_ok:
  assumes "chain s (xs @ (p, v) # ys)"
  shows "rewind_node p s = Inr (first_of (xs @ (p, v) # ys) NULL)"
  using assms
proof (induction xs arbitrary: p v ys rule: rev_induct)
  case Nil
  then show ?case using chain_node [OF Nil] by (simp add: rewind_node_def)
next
  case (snoc x xs)
  obtain q w where x: "x = (q, w)" by (cases x)
  have "chain s (xs @ (q, w) # (p, v) # ys)" using snoc.prems x by simp
  note IH = snoc.IH [OF this] and q = chain_node [OF this]
  have "q \<noteq> NULL" using chainD(3) [OF snoc.prems] x by auto
  then have "rewind_node p s = rewind_node q s"
    using chain_node [OF snoc.prems] q x unfolding rewind_node_def by (simp add: cwhile_go)
  then show ?case using IH x by simp
qed

lemma rewind_addr:
  assumes "chain s xs" and "p \<in> addrs xs"
  shows "rewind_node p s = Inr (first_of xs NULL)"
proof -
  obtain v where "(p, v) \<in> set xs" using assms(2) by auto
  then obtain ys zs where xs: "xs = ys @ (p, v) # zs" using split_list by fastforce
  show ?thesis unfolding xs by (rule rewind_node_ok) (use assms(1) xs in simp)
qed

text \<open>On to the last node, in the same way.\<close>

definition forward_node :: "ptr \<Rightarrow> ('a, 'o, 's) lmem_scheme \<Rightarrow> ptr res" where
  "forward_node p s =
     rbind (node_get p s) (\<lambda>n.
     rbind (cwhile (\<lambda>(q, n). lnext n \<noteq> NULL) (\<lambda>(q, n). rbind (node_get (lnext n) s) (\<lambda>m. Inr (lnext n, m))) (p, n))
       (\<lambda>(q, n). Inr q))"

lemma forward_node_ok:
  assumes "chain s (xs @ (p, v) # ys)"
  shows "forward_node p s = Inr (last_of NULL (xs @ (p, v) # ys))"
  using assms
proof (induction ys arbitrary: p v xs)
  case Nil
  then show ?case using chain_node [OF Nil] by (simp add: forward_node_def)
next
  case (Cons y ys)
  obtain q w where y: "y = (q, w)" by (cases y)
  have ch: "chain s ((xs @ [(p, v)]) @ (q, w) # ys)" using Cons.prems y by simp
  note IH = Cons.IH [OF ch] and q = chain_node [OF ch]
  have "q \<noteq> NULL" using chainD(3) [OF ch] by auto
  then have "forward_node p s = forward_node q s"
    using chain_node [OF Cons.prems] q y unfolding forward_node_def by (simp add: cwhile_go)
  then show ?case using IH y by simp
qed

section \<open>Walks\<close>

text \<open>A walk that computes from the nodes it visits, and one that stops at the first hit.\<close>

lemma walk_fold:
  assumes "chain s xs"
  shows "cwhile (\<lambda>st. fst st \<noteq> NULL) (\<lambda>(p, a). rbind (node_get p s) (\<lambda>n. Inr (lnext n, f p (lval n) a))) (first_of xs NULL, a)
    = Inr (NULL, foldl (\<lambda>a (p, v). f p v a) a xs)"
proof -
  have "lseg (lnodes s) pv xs NULL \<Longrightarrow> NULL \<notin> addrs xs \<Longrightarrow>
    cwhile (\<lambda>st. fst st \<noteq> NULL) (\<lambda>(p, a). rbind (node_get p s) (\<lambda>n. Inr (lnext n, f p (lval n) a))) (first_of xs NULL, a)
      = Inr (NULL, foldl (\<lambda>a (p, v). f p v a) a xs)" for pv
  proof (induction xs arbitrary: pv a)
    case (Cons x xs)
    obtain p v where x: "x = (p, v)" by (cases x)
    show ?case using Cons x by (subst cwhile_go) (auto simp: node_get_def)
  qed simp
  then show ?thesis using chainD(1,3) [OF assms] by blast
qed

text \<open>The same when the body may fail but does not.\<close>

lemma walk_fold_res:
  assumes "chain s xs" and "\<forall>p v. (p, v) \<in> set xs \<longrightarrow> (\<forall>n a. lval n = v \<longrightarrow> g p n a = Inr (f p v a))"
  shows "cwhile (\<lambda>st. fst st \<noteq> NULL) (\<lambda>(p, a). rbind (node_get p s) (\<lambda>n. rbind (g p n a) (\<lambda>b. Inr (lnext n, b)))) (first_of xs NULL, a)
    = Inr (NULL, foldl (\<lambda>a (p, v). f p v a) a xs)"
proof -
  have "lseg (lnodes s) pv ys NULL \<Longrightarrow> NULL \<notin> addrs ys \<Longrightarrow> set ys \<subseteq> set xs \<Longrightarrow>
    cwhile (\<lambda>st. fst st \<noteq> NULL) (\<lambda>(p, a). rbind (node_get p s) (\<lambda>n. rbind (g p n a) (\<lambda>b. Inr (lnext n, b)))) (first_of ys NULL, a)
      = Inr (NULL, foldl (\<lambda>a (p, v). f p v a) a ys)" for ys pv
  proof (induction ys arbitrary: pv a)
    case (Cons y ys)
    obtain p v where y: "y = (p, v)" by (cases y)
    have "\<forall>n a. lval n = v \<longrightarrow> g p n a = Inr (f p v a)" using assms(2) Cons.prems(3) y by simp
    then show ?case using Cons y by (subst cwhile_go) (auto simp: node_get_def)
  qed simp
  then show ?thesis using chainD(1,3) [OF assms(1)] by blast
qed

lemma walk_find:
  assumes "chain s xs"
  shows "cwhile (\<lambda>(p, hit). p \<noteq> NULL \<and> \<not> hit)
      (\<lambda>(p, hit). rbind (node_get p s) (\<lambda>n. if P p (lval n) then Inr (p, True) else Inr (lnext n, False))) (first_of xs NULL, False)
    = Inr (case List.find (\<lambda>x. P (fst x) (snd x)) xs of None \<Rightarrow> (NULL, False) | Some x \<Rightarrow> (fst x, True))"
proof -
  have "lseg (lnodes s) pv xs NULL \<Longrightarrow> NULL \<notin> addrs xs \<Longrightarrow>
    cwhile (\<lambda>(p, hit). p \<noteq> NULL \<and> \<not> hit)
      (\<lambda>(p, hit). rbind (node_get p s) (\<lambda>n. if P p (lval n) then Inr (p, True) else Inr (lnext n, False))) (first_of xs NULL, False)
      = Inr (case List.find (\<lambda>x. P (fst x) (snd x)) xs of None \<Rightarrow> (NULL, False) | Some x \<Rightarrow> (fst x, True))" for pv
  proof (induction xs arbitrary: pv)
    case (Cons x xs)
    obtain p v where x: "x = (p, v)" by (cases x)
    show ?case using Cons x by (subst cwhile_go) (auto simp: node_get_def)
  qed simp
  then show ?thesis using chainD(1,3) [OF assms] by blast
qed

section \<open>Changing nodes\<close>

lemma chain_set_val:
  assumes "chain s (xs @ (p, v) # ys)"
  shows "\<exists>N. node_upd p (\<lambda>n. n\<lparr>lval := f (lval n)\<rparr>) s = Inr (s\<lparr>lnodes := N\<rparr>) \<and>
    chain (s\<lparr>lnodes := N\<rparr>) (xs @ (p, f v) # ys) \<and> (\<forall>q. q \<noteq> p \<longrightarrow> N q = lnodes s q)"
proof -
  let ?n = "\<lparr>lnext = first_of ys NULL, lprev = last_of NULL xs, lval = v\<rparr>"
  have get: "node_get p s = Inr ?n" by (rule chain_node [OF assms])
  have out: "p \<notin> addrs xs" "p \<notin> addrs ys" using chainD(2) [OF assms] by auto
  have "lseg ((lnodes s)(p := Some (?n\<lparr>lval := f v\<rparr>))) NULL (xs @ (p, f v) # ys) NULL"
    using chainD(1) [OF assms] out by (simp add: lseg_append)
  then have "chain (s\<lparr>lnodes := (lnodes s)(p := Some (?n\<lparr>lval := f v\<rparr>))\<rparr>) (xs @ (p, f v) # ys)"
    using chainD(2-5) [OF assms] by (simp add: chain_def mem_ok_def)
  then show ?thesis using get by (intro exI [of _ "(lnodes s)(p := Some (?n\<lparr>lval := f v\<rparr>))"]) (simp add: node_upd_def)
qed

text \<open>Hanging a node on behind the last one.\<close>

lemma chain_link:
  assumes "chain s xs" and "xs \<noteq> []" and "p \<notin> addrs xs" and "lnodes s p = Some \<lparr>lnext = NULL, lprev = pv, lval = v\<rparr>"
    and "p \<in> live s" and "p \<noteq> NULL"
  shows "\<exists>N. rbind (node_upd (last_of NULL xs) (\<lambda>m. m\<lparr>lnext := p\<rparr>) s) (node_upd p (\<lambda>m. m\<lparr>lprev := last_of NULL xs\<rparr>))
      = Inr (s\<lparr>lnodes := N\<rparr>) \<and>
    chain (s\<lparr>lnodes := N\<rparr>) (xs @ [(p, v)]) \<and> (\<forall>q. q \<noteq> p \<longrightarrow> q \<notin> addrs xs \<longrightarrow> N q = lnodes s q)"
proof -
  obtain N where N: "node_upd (last_of NULL xs) (\<lambda>m. m\<lparr>lnext := p\<rparr>) s = Inr (s\<lparr>lnodes := N\<rparr>)" "lseg N NULL xs p"
    "\<forall>q. q \<noteq> last_of NULL xs \<longrightarrow> N q = lnodes s q"
    using lseg_set_next [OF chainD(1-3) [OF assms(1)] assms(2), of p] by blast
  have last: "last_of NULL xs \<in> addrs xs" by (rule last_of_in [OF assms(2)])
  then have Np: "N p = Some \<lparr>lnext = NULL, lprev = pv, lval = v\<rparr>" using N(3) assms(3, 4) by metis
  let ?N = "N(p := Some \<lparr>lnext = NULL, lprev = last_of NULL xs, lval = v\<rparr>)"
  have "rbind (node_upd (last_of NULL xs) (\<lambda>m. m\<lparr>lnext := p\<rparr>) s) (node_upd p (\<lambda>m. m\<lparr>lprev := last_of NULL xs\<rparr>))
      = Inr (s\<lparr>lnodes := ?N\<rparr>)"
    using N(1) Np assms(6) by (simp add: node_upd_def [of p] node_get_def)
  moreover have "chain (s\<lparr>lnodes := ?N\<rparr>) (xs @ [(p, v)])"
    using N(2) chainD [OF assms(1)] assms(3, 5, 6) by (simp add: chain_def lseg_append mem_ok_def)
  moreover have "\<forall>q. q \<noteq> p \<longrightarrow> q \<notin> addrs xs \<longrightarrow> ?N q = lnodes s q" using N(3) last by (metis fun_upd_other)
  ultimately show ?thesis by blast
qed

text \<open>Taking a node out: its neighbours are linked to each other.\<close>

lemma chain_bypass:
  assumes "chain s (xs @ (p, v) # ys)"
  shows "\<exists>N1 N. (if xs = [] then Inr s else node_upd (last_of NULL xs) (\<lambda>m. m\<lparr>lnext := first_of ys NULL\<rparr>) s) = Inr (s\<lparr>lnodes := N1\<rparr>) \<and>
    (if ys = [] then Inr (s\<lparr>lnodes := N1\<rparr>) else node_upd (first_of ys NULL) (\<lambda>m. m\<lparr>lprev := last_of NULL xs\<rparr>) (s\<lparr>lnodes := N1\<rparr>))
      = Inr (s\<lparr>lnodes := N\<rparr>) \<and>
    chain (s\<lparr>lnodes := N\<rparr>) (xs @ ys) \<and> (\<forall>q. q \<notin> addrs (xs @ ys) \<longrightarrow> N q = lnodes s q)"
proof -
  have seg: "lseg (lnodes s) NULL xs p" "lseg (lnodes s) p ys NULL" using chainD(1) [OF assms] by (auto simp: lseg_append)
  have d: "distinct (map fst xs)" "distinct (map fst ys)" "addrs xs \<inter> addrs ys = {}" "NULL \<notin> addrs xs" "NULL \<notin> addrs ys"
    using chainD(2, 3) [OF assms] by auto
  have "\<exists>N1. (if xs = [] then Inr s else node_upd (last_of NULL xs) (\<lambda>m. m\<lparr>lnext := first_of ys NULL\<rparr>) s) = Inr (s\<lparr>lnodes := N1\<rparr>) \<and>
    lseg N1 NULL xs (first_of ys NULL) \<and> (\<forall>q. q \<notin> addrs xs \<longrightarrow> N1 q = lnodes s q)"
  proof (cases "xs = []")
    case False
    show ?thesis using lseg_set_next [OF seg(1) d(1, 4) False, of "first_of ys NULL"] last_of_in [OF False, of NULL] False by (simp only: if_False) metis
  qed (auto intro!: exI [of _ "lnodes s"])
  then obtain N1 where N1: "(if xs = [] then Inr s else node_upd (last_of NULL xs) (\<lambda>m. m\<lparr>lnext := first_of ys NULL\<rparr>) s) = Inr (s\<lparr>lnodes := N1\<rparr>)"
    "lseg N1 NULL xs (first_of ys NULL)" "\<forall>q. q \<notin> addrs xs \<longrightarrow> N1 q = lnodes s q" by blast
  have "lseg N1 p ys NULL = lseg (lnodes s) p ys NULL" by (rule lseg_cong) (use N1(3) d(3) in blast)
  then have seg2: "lseg (lnodes (s\<lparr>lnodes := N1\<rparr>)) p ys NULL" using seg(2) by simp
  have "\<exists>N. (if ys = [] then Inr (s\<lparr>lnodes := N1\<rparr>) else node_upd (first_of ys NULL) (\<lambda>m. m\<lparr>lprev := last_of NULL xs\<rparr>) (s\<lparr>lnodes := N1\<rparr>))
      = Inr (s\<lparr>lnodes := N\<rparr>) \<and> lseg N (last_of NULL xs) ys NULL \<and> (\<forall>q. q \<notin> addrs ys \<longrightarrow> N q = N1 q)"
  proof (cases "ys = []")
    case False
    obtain N where "node_upd (first_of ys NULL) (\<lambda>m. m\<lparr>lprev := last_of NULL xs\<rparr>) (s\<lparr>lnodes := N1\<rparr>) = Inr (s\<lparr>lnodes := N\<rparr>)"
      "lseg N (last_of NULL xs) ys NULL" "\<forall>q. q \<noteq> first_of ys NULL \<longrightarrow> N q = N1 q"
      using lseg_set_prev [OF seg2 d(2, 5) False, of "last_of NULL xs"] by auto
    then show ?thesis using False first_of_in [OF False, of NULL] by (simp only: if_False) metis
  qed (auto intro!: exI [of _ N1])
  then obtain N where N: "(if ys = [] then Inr (s\<lparr>lnodes := N1\<rparr>) else node_upd (first_of ys NULL) (\<lambda>m. m\<lparr>lprev := last_of NULL xs\<rparr>) (s\<lparr>lnodes := N1\<rparr>))
      = Inr (s\<lparr>lnodes := N\<rparr>)" "lseg N (last_of NULL xs) ys NULL" "\<forall>q. q \<notin> addrs ys \<longrightarrow> N q = N1 q" by blast
  have "lseg N NULL xs (first_of ys NULL) = lseg N1 NULL xs (first_of ys NULL)" by (rule lseg_cong) (use N(3) d(3) in blast)
  then have "lseg N NULL (xs @ ys) NULL" using N(2) N1(2) by (simp add: lseg_append)
  then have "chain (s\<lparr>lnodes := N\<rparr>) (xs @ ys)" using chainD(2-5) [OF assms] by (simp add: chain_def mem_ok_def)
  moreover have "\<forall>q. q \<notin> addrs (xs @ ys) \<longrightarrow> N q = lnodes s q" using N(3) N1(3) by (simp add: image_Un)
  ultimately show ?thesis using N(1) N1(1) by blast
qed

text \<open>A new node.\<close>

lemma chain_alloc:
  assumes "chain s xs" and "\<not> fails s (calls s)"
  shows "node_alloc s = (Suc (calls s), new_node_mem s None)" and "chain (new_node_mem s v) xs" and "Suc (calls s) \<notin> addrs xs"
    and "Suc (calls s) \<notin> live s" and "mem_ok (new_node_mem s v)"
proof -
  show "node_alloc s = (Suc (calls s), new_node_mem s None)" by (rule node_alloc_ok [OF assms(2)])
  show f: "Suc (calls s) \<notin> live s" by (rule mem_ok_fresh [OF chainD(5) [OF assms(1)]])
  then show g: "Suc (calls s) \<notin> addrs xs" using chainD(4) [OF assms(1)] by blast
  show m: "mem_ok (new_node_mem s v)" using chainD(5) [OF assms(1)] by (auto simp: mem_ok_def)
  show "chain (new_node_mem s v) xs"
  proof (rule chain_cong [OF assms(1) _ _ m])
    fix q assume "q \<in> addrs xs"
    then have "q \<noteq> Suc (calls s)" using g by blast
    then show "lnodes (new_node_mem s v) q = lnodes s q" by simp
  qed (use chainD(4) [OF assms(1)] in auto)
qed

text \<open>Freeing all nodes.\<close>

definition freed :: "ptr set \<Rightarrow> ('a, 'o, 's) lmem_scheme \<Rightarrow> ('a, 'o, 's) lmem_scheme" where
  "freed A s = s\<lparr>live := live s - A, lnodes := (\<lambda>p. if p \<in> A then None else lnodes s p)\<rparr>"

lemma freed_empty [simp]: "freed {} s = s"
  by (simp add: freed_def)

lemma freed_freed: "freed A (freed B s) = freed (A \<union> B) s"
proof -
  have "live s - B - A = live s - (A \<union> B)" by blast
  moreover have "(if p \<in> A then None else if p \<in> B then None else lnodes s p) = (if p \<in> A \<union> B then None else lnodes s p)" for p
    by simp
  ultimately show ?thesis by (simp add: freed_def cong: if_cong)
qed

lemma node_free_freed: "p \<in> live s \<Longrightarrow> p \<noteq> NULL \<Longrightarrow> node_free p s = Inr (freed {p} s)"
  by (simp add: node_free_def c_free_def freed_def fun_upd_def cong: if_cong)

lemma chain_freed:
  assumes "chain s xs" and "p \<notin> addrs xs"
  shows "chain (freed {p} s) xs"
proof (rule chain_cong [OF assms(1)])
  fix q assume "q \<in> addrs xs"
  then have "q \<noteq> p" using assms(2) by metis
  then show "lnodes (freed {p} s) q = lnodes s q" by (simp add: freed_def)
next
  show "addrs xs \<subseteq> live (freed {p} s)" "mem_ok (freed {p} s)"
    using chainD(4, 5) [OF assms(1)] assms(2) unfolding freed_def mem_ok_def by (simp_all add: subset_Diff_insert)
qed

lemma free_walk_seg:
  assumes "lseg (lnodes s) pv xs NULL" and "distinct (map fst xs)" and "NULL \<notin> addrs xs" and "addrs xs \<subseteq> live s"
  shows "cwhile (\<lambda>st. fst st \<noteq> NULL) (\<lambda>(p, s). rbind (node_get p s) (\<lambda>n. rbind (node_free p s) (\<lambda>s1. Inr (lnext n, s1))))
      (first_of xs NULL, s) = Inr (NULL, freed (addrs xs) s)"
  using assms
proof (induction xs arbitrary: pv s)
  case (Cons x xs)
  obtain p v where x: "x = (p, v)" by (cases x)
  have out: "p \<notin> addrs xs" using Cons.prems(2) x by auto
  have p: "p \<noteq> NULL" "p \<in> live s" using Cons.prems(3, 4) x by auto
  have seg: "lseg (lnodes (freed {p} s)) p xs NULL"
    using Cons.prems(1) x out lseg_upd_other [of p xs "lnodes s" None p NULL] by (simp add: freed_def fun_upd_def cong: if_cong)
  have "addrs xs \<subseteq> live (freed {p} s)" using Cons.prems(4) x out by (auto simp: freed_def)
  note IH = Cons.IH [OF seg _ _ this]
  show ?case using Cons.prems x p IH
    by (subst cwhile_go) (auto simp: node_get_def node_free_freed freed_freed Un_commute)
qed simp

lemma free_walk:
  assumes "chain s xs"
  shows "cwhile (\<lambda>st. fst st \<noteq> NULL) (\<lambda>(p, s). rbind (node_get p s) (\<lambda>n. rbind (node_free p s) (\<lambda>s1. Inr (lnext n, s1))))
      (first_of xs NULL, s) = Inr (NULL, freed (addrs xs) s)"
  by (rule free_walk_seg [OF chainD(1-4) [OF assms]])

end
