(* ===== verification/Lib_Text.thy ===== *)
theory Lib_Text
  imports C_Text
begin

unbundle bit_operations_syntax

text \<open>
  The text helpers of \<^verbatim>\<open>lib/lib.c\<close> (\<^verbatim>\<open>_strtok\<close>, \<^verbatim>\<open>isNumericString\<close>, \<^verbatim>\<open>startswith\<close>, \<^verbatim>\<open>endswith\<close>, the
  user and group lookups, \<^verbatim>\<open>getProcessStatus\<close>) and the number parsing of \<^verbatim>\<open>lib/get_num.c\<close>.
\<close>

section \<open>Tokens\<close>

text \<open>
  \<^verbatim>\<open>_strtok\<close> keeps a copy of the text and two positions in static variables. Its \<^verbatim>\<open>memcpy\<close> always
  reads the full buffer size, so the object passed in must be that large.
\<close>

definition STRTOK_CONTENT_BUFFER_MAX :: nat where "STRTOK_CONTENT_BUFFER_MAX = 4084"

definition STRTOK_TOKENR_MAX :: nat where "STRTOK_TOKENR_MAX = 1024"

record strtok_state =
  tok_content :: string
  tok_token :: "nat option"
  tok_tbp :: nat

definition strtok_initial :: strtok_state where
  "strtok_initial = \<lparr>tok_content = replicate STRTOK_CONTENT_BUFFER_MAX NUL, tok_token = None, tok_tbp = 0\<rparr>"

fun strtok_scan :: "char \<Rightarrow> nat \<Rightarrow> string \<Rightarrow> nat res" where
  "strtok_scan delim i [] = Inl Out_Of_Bounds"
| "strtok_scan delim i (c # cs) = (if c \<noteq> NUL \<and> c \<noteq> delim then strtok_scan delim (Suc i) cs else Inr i)"

definition strtok :: "string option \<Rightarrow> char \<Rightarrow> strtok_state \<Rightarrow> (string option \<times> strtok_state) res" where
  "strtok content delim st =
     rbind (case content of
              None \<Rightarrow> Inr st
            | Some obj \<Rightarrow>
                if length obj < STRTOK_CONTENT_BUFFER_MAX then Inl Out_Of_Bounds
                else Inr \<lparr>tok_content = take STRTOK_CONTENT_BUFFER_MAX obj, tok_token = None, tok_tbp = 0\<rparr>)
       (\<lambda>st0.
          let st1 = (case tok_token st0 of None \<Rightarrow> st0\<lparr>tok_token := Some 0, tok_tbp := 0\<rparr> | Some _ \<Rightarrow> st0);
              start = the (tok_token st1)
          in rbind (strtok_scan delim (tok_tbp st1) (drop (tok_tbp st1) (tok_content st1))) (\<lambda>p.
               if tok_content st1 ! p = NUL then Inr (None, st1\<lparr>tok_tbp := p\<rparr>)
               else Inr (Some (take (STRTOK_TOKENR_MAX - 2) (take (p - start) (drop start (tok_content st1)))),
                         st1\<lparr>tok_tbp := Suc p, tok_token := Some (Suc p)\<rparr>)))"

text \<open>Successive calls, the first with the text and the others with NULL.\<close>

fun strtok_more :: "nat \<Rightarrow> char \<Rightarrow> strtok_state \<Rightarrow> string option list res" where
  "strtok_more 0 delim st = Inr []"
| "strtok_more (Suc n) delim st =
     rbind (strtok None delim st) (\<lambda>(t, st1). rbind (strtok_more n delim st1) (\<lambda>ts. Inr (t # ts)))"

definition strtok_calls :: "nat \<Rightarrow> string \<Rightarrow> char \<Rightarrow> strtok_state \<Rightarrow> string option list res" where
  "strtok_calls n content delim st =
     rbind (strtok (Some content) delim st) (\<lambda>(t, st1). rbind (strtok_more n delim st1) (\<lambda>ts. Inr (t # ts)))"

section \<open>Predicates on strings\<close>

fun all_digits :: "string \<Rightarrow> int" where
  "all_digits [] = 1"
| "all_digits (c # cs) = (if \<not> is_digit c then 0 else all_digits cs)"

definition isNumericString :: "string option \<Rightarrow> int" where
  "isNumericString str =
     (case str of None \<Rightarrow> 0 | Some s \<Rightarrow> if s = [] then 0 else all_digits s)"

definition endswith :: "string option \<Rightarrow> string option \<Rightarrow> int" where
  "endswith buffer suffix =
     (case (buffer, suffix) of
        (Some b, Some s) \<Rightarrow>
          if b = [] \<or> s = [] then 0
          else (case strstr b s of None \<Rightarrow> 0
                | Some substring \<Rightarrow> if drop (length s) substring = [] then 1 else 0)
      | _ \<Rightarrow> 0)"

definition startswith :: "string option \<Rightarrow> string option \<Rightarrow> int" where
  "startswith buffer prefix =
     (case (buffer, prefix) of
        (Some b, Some p) \<Rightarrow>
          if b = [] \<or> p = [] then 0 else if strncmp_eq b p (length p) then 1 else 0
      | _ \<Rightarrow> 0)"

section \<open>Users and groups\<close>

text \<open>
  The password and group files are read by the C library; the lookups are arguments. A \<^verbatim>\<open>uid_t\<close> is
  32 bits wide, so \<^verbatim>\<open>-1\<close> is the largest one.
\<close>

record passwd =
  pw_name :: string
  pw_uid :: "32 word"

record group =
  gr_name :: string
  gr_gid :: "32 word"

definition userNameFromId :: "(32 word \<Rightarrow> passwd option) \<Rightarrow> 32 word \<Rightarrow> string option" where
  "userNameFromId getpwuid uid = (case getpwuid uid of None \<Rightarrow> None | Some pwd \<Rightarrow> Some (pw_name pwd))"

definition userIdFromName :: "(string \<Rightarrow> passwd option) \<Rightarrow> string option \<Rightarrow> 32 word" where
  "userIdFromName getpwnam name =
     (case name of None \<Rightarrow> - 1
      | Some n \<Rightarrow> if n = [] then - 1
                  else (case getpwnam n of None \<Rightarrow> - 1 | Some pwd \<Rightarrow> pw_uid pwd))"

definition groupNameFromId :: "(32 word \<Rightarrow> group option) \<Rightarrow> 32 word \<Rightarrow> string option" where
  "groupNameFromId getgrgid gid = (case getgrgid gid of None \<Rightarrow> None | Some grp \<Rightarrow> Some (gr_name grp))"

definition groupIdFromName :: "(string \<Rightarrow> group option) \<Rightarrow> string option \<Rightarrow> 32 word" where
  "groupIdFromName getgrnam name =
     (case name of None \<Rightarrow> - 1
      | Some n \<Rightarrow> if n = [] then - 1
                  else (case getgrnam n of None \<Rightarrow> - 1 | Some grp \<Rightarrow> gr_gid grp))"

section \<open>Numbers\<close>

text \<open>
  \<^verbatim>\<open>gnFail\<close> writes to \<^verbatim>\<open>stderr\<close> and exits: the left value is the exit status and the text. The flags
  are octal constants.
\<close>

type_synonym 'a run = "int \<times> string + 'a"

definition GN_NONNEG :: int where "GN_NONNEG = 1"

definition GN_GT_0 :: int where "GN_GT_0 = 2"

definition GN_ANY_BASE :: int where "GN_ANY_BASE = 64"

definition GN_BASE_8 :: int where "GN_BASE_8 = 128"

definition GN_BASE_16 :: int where "GN_BASE_16 = 256"

definition gnFail :: "string \<Rightarrow> string \<Rightarrow> string option \<Rightarrow> string option \<Rightarrow> 'a run" where
  "gnFail fname msg arg name =
     Inl (1, fname @ '' error'' @
             (case name of None \<Rightarrow> [] | Some n \<Rightarrow> '' (in '' @ n @ '')'') @
             '': '' @ msg @ newline @
             (case arg of None \<Rightarrow> []
              | Some a \<Rightarrow> if a = [] then [] else ''        offending text: '' @ a @ newline))"

definition num_base :: "int \<Rightarrow> nat" where
  "num_base flags =
     (if flags AND GN_ANY_BASE \<noteq> 0 then 0
      else if flags AND GN_BASE_8 \<noteq> 0 then 8
      else if flags AND GN_BASE_16 \<noteq> 0 then 16 else 10)"

definition getNum :: "string \<Rightarrow> string option \<Rightarrow> int \<Rightarrow> string option \<Rightarrow> int run" where
  "getNum fname arg flags name =
     (case arg of
        None \<Rightarrow> gnFail fname ''null or empty string'' arg name
      | Some a \<Rightarrow>
          if a = [] then gnFail fname ''null or empty string'' arg name
          else (case strtol a (num_base flags) of (num, endptr, erange) \<Rightarrow>
            if erange then gnFail fname ''strtol() failed'' arg name
            else if endptr \<noteq> [] then gnFail fname ''non-numeric characters'' arg name
            else if flags AND GN_NONNEG \<noteq> 0 \<and> num < 0
              then gnFail fname ''negative values are not allowed'' arg name
            else if flags AND GN_GT_0 \<noteq> 0 \<and> num \<le> 0
              then gnFail fname ''value must be > 0'' arg name
            else Inr num))"

definition getLong :: "string option \<Rightarrow> int \<Rightarrow> string option \<Rightarrow> int run" where
  "getLong arg flags name = getNum ''getLong'' arg flags name"

definition getInt :: "string option \<Rightarrow> int \<Rightarrow> string option \<Rightarrow> int run" where
  "getInt arg flags name =
     rbind (getNum ''getInt'' arg flags name) (\<lambda>num.
       if num > INT_MAX \<or> num < INT_MIN then gnFail ''getInt'' ''integer out of range'' arg name
       else Inr num)"

section \<open>Lemmas\<close>

lemma strtok_scan_token:
  assumes "NUL \<notin> set t" and "delim \<notin> set t" and "c = NUL \<or> c = delim"
  shows "strtok_scan delim i (t @ c # r) = Inr (i + length t)"
  using assms by (induction t arbitrary: i) auto

text \<open>A call in the middle of the text, whether a token or the end of the text follows.\<close>

lemma strtok_next:
  assumes "content = pre @ t @ c # r" and "NUL \<notin> set t" and "delim \<notin> set t"
    and "c = NUL \<or> c = delim"
  shows "strtok None delim \<lparr>tok_content = content, tok_token = Some (length pre), tok_tbp = length pre\<rparr> =
    Inr (if c = NUL
         then (None, \<lparr>tok_content = content, tok_token = Some (length pre), tok_tbp = length pre + length t\<rparr>)
         else (Some (take (STRTOK_TOKENR_MAX - 2) t),
               \<lparr>tok_content = content, tok_token = Some (length (pre @ t @ [c])),
                tok_tbp = length (pre @ t @ [c])\<rparr>))"
proof -
  have "content ! (length pre + length t) = c"
    using assms(1) by (metis append_assoc length_append nth_append_length)
  moreover have "drop (length pre) content = t @ c # r" using assms(1) by simp
  ultimately show ?thesis
    using strtok_scan_token [OF assms(2-4), of "length pre" r] by (simp add: strtok_def Let_def)
qed

lemma strtok_more_tokens:
  assumes "content = pre @ concat (map (\<lambda>t. t @ [delim]) ts) @ rest @ NUL # pad"
    and "\<forall>t \<in> set (rest # ts). NUL \<notin> set t \<and> delim \<notin> set t \<and> length t \<le> STRTOK_TOKENR_MAX - 2"
    and "delim \<noteq> NUL"
  shows "strtok_more (Suc (length ts)) delim
      \<lparr>tok_content = content, tok_token = Some (length pre), tok_tbp = length pre\<rparr> =
    Inr (map Some ts @ [None])"
  using assms
proof (induction ts arbitrary: pre)
  case Nil
  then show ?case using strtok_next [of content pre rest NUL pad delim] by simp
next
  case (Cons t ts)
  have c: "content = pre @ t @ delim # (concat (map (\<lambda>t. t @ [delim]) ts) @ rest @ NUL # pad)"
    using Cons.prems(1) by simp
  have t: "take (STRTOK_TOKENR_MAX - 2) t = t" using Cons.prems(2) by simp
  have "content = (pre @ t @ [delim]) @ concat (map (\<lambda>t. t @ [delim]) ts) @ rest @ NUL # pad"
    using c by simp
  from Cons.IH [OF this] Cons.prems(2,3)
  have "strtok_more (Suc (length ts)) delim \<lparr>tok_content = content,
      tok_token = Some (length (pre @ t @ [delim])), tok_tbp = length (pre @ t @ [delim])\<rparr> =
    Inr (map Some ts @ [None])" by simp
  then show ?case
    using strtok_next [OF c, of delim] Cons.prems(2,3) t
    by (simp only: list.size strtok_more.simps(2) [of "Suc _"] One_nat_def) simp
qed

lemma strtok_first:
  assumes "STRTOK_CONTENT_BUFFER_MAX \<le> length obj"
  shows "strtok (Some obj) delim st = strtok None delim
    \<lparr>tok_content = take STRTOK_CONTENT_BUFFER_MAX obj, tok_token = Some 0, tok_tbp = 0\<rparr>"
  using assms by (simp add: strtok_def Let_def cong: if_cong)

lemma strstr_Some: "strstr b s = Some r \<Longrightarrow> \<exists>pre. b = pre @ r \<and> take (length s) r = s"
proof (induction b)
  case Nil
  then show ?case by (auto split: if_splits)
next
  case (Cons c cs)
  then show ?case
    by (cases "take (length s) (c # cs) = s") (auto intro: exI [of _ "c # _"] exI [of _ "[]"])
qed

lemma all_digits_iff: "all_digits s = (if \<forall>c \<in> set s. is_digit c then 1 else 0)"
  by (induction s) auto

lemma getNum_Inr:
  "getNum f arg flags name = Inr v \<longleftrightarrow>
    (\<exists>a. arg = Some a \<and> a \<noteq> [] \<and> strtol a (num_base flags) = (v, [], False) \<and>
      (flags AND GN_NONNEG \<noteq> 0 \<longrightarrow> 0 \<le> v) \<and> (flags AND GN_GT_0 \<noteq> 0 \<longrightarrow> 0 < v))"
  by (auto simp: getNum_def gnFail_def split: option.splits prod.splits if_splits)

lemma getNum_Inl: "getNum f arg flags name = Inl e \<Longrightarrow> fst e = 1"
  by (auto simp: getNum_def gnFail_def split: option.splits prod.splits if_splits)

lemma getInt_Inr:
  "getInt arg flags name = Inr v \<longleftrightarrow>
    getNum ''getInt'' arg flags name = Inr v \<and> INT_MIN \<le> v \<and> v \<le> INT_MAX"
  by (cases "getNum ''getInt'' arg flags name") (auto simp: getInt_def gnFail_def)

lemma int_text_nonempty [simp]: "int_text i \<noteq> []"
  by (simp add: int_text_def)

section \<open>Properties\<close>

text \<open>C17: \<^verbatim>\<open>_strtok\<close> returns, in order, the tokens that a delimiter ends, and then NULL: the text behind
  the last delimiter is never returned.\<close>

theorem strtok_tokens:
  assumes "STRTOK_CONTENT_BUFFER_MAX \<le> length obj"
    and "take STRTOK_CONTENT_BUFFER_MAX obj = concat (map (\<lambda>t. t @ [delim]) ts) @ rest @ NUL # pad"
    and "\<forall>t \<in> set (rest # ts). NUL \<notin> set t \<and> delim \<notin> set t \<and> length t \<le> STRTOK_TOKENR_MAX - 2"
    and "delim \<noteq> NUL"
  shows "strtok_calls (length ts) obj delim st = Inr (map Some ts @ [None])"
  using strtok_more_tokens [of _ "[]", OF _ assms(3,4)] assms(2)
  by (simp add: strtok_calls_def strtok_first [OF assms(1)])

theorem strtok_tokens_witness:
  "strtok_calls 2 (''ab:c:d'' @ replicate 5000 NUL) (CHR '':'') strtok_initial = Inr [Some ''ab'', Some ''c'', None]"
proof -
  have "take STRTOK_CONTENT_BUFFER_MAX (''ab:c:d'' @ replicate 5000 NUL) =
    concat (map (\<lambda>t. t @ '':'') [''ab'', ''c'']) @ ''d'' @ NUL # replicate 4077 NUL"
    by (simp add: STRTOK_CONTENT_BUFFER_MAX_def flip: replicate_Suc)
  from strtok_tokens [OF _ this] show ?thesis
    by (simp add: STRTOK_CONTENT_BUFFER_MAX_def STRTOK_TOKENR_MAX_def NUL_def numeral_2_eq_2)
qed

text \<open>\<^verbatim>\<open>startswith\<close> decides prefixes of non-empty strings. What \<^verbatim>\<open>endswith\<close> accepts is a suffix, but it
  only looks at the first occurrence and rejects \<^verbatim>\<open>abcab\<close> with the suffix \<^verbatim>\<open>ab\<close>.\<close>

theorem startswith_endswith:
  "(startswith (Some b) (Some s) = 1 \<longleftrightarrow> s \<noteq> [] \<and> (\<exists>r. b = s @ r)) \<and>
    (endswith (Some b) (Some s) = 1 \<longrightarrow> (\<exists>r. b = r @ s)) \<and>
    endswith (Some ''abcab'') (Some ''ab'') = 0"
proof (intro conjI impI)
  show "startswith (Some b) (Some s) = 1 \<longleftrightarrow> s \<noteq> [] \<and> (\<exists>r. b = s @ r)"
    by (auto simp: startswith_def strncmp_eq_def) (metis append_take_drop_id)
  show "endswith (Some ''abcab'') (Some ''ab'') = 0" by (simp add: endswith_def)
  assume "endswith (Some b) (Some s) = 1"
  then obtain r where r: "strstr b s = Some r" "drop (length s) r = []"
    by (auto simp: endswith_def split: if_splits option.splits)
  then show "\<exists>r. b = r @ s" using strstr_Some [OF r(1)] by (metis append.right_neutral append_take_drop_id)
qed

theorem startswith_endswith_witness:
  "(\<exists>r. ''main.c'' = r @ ''.c'') \<and> startswith (Some ''main.c'') (Some ''main'') = 1"
proof -
  have "endswith (Some ''main.c'') (Some ''.c'') = 1" by (simp add: endswith_def)
  with startswith_endswith [of "''main.c''" "''.c''"] have "\<exists>r. ''main.c'' = r @ ''.c''" by blast
  then show ?thesis by (simp add: startswith_def strncmp_eq_def)
qed

text \<open>C18: what \<^verbatim>\<open>getInt\<close> returns fits an \<^verbatim>\<open>int\<close>, meets the flags, and is what \<^verbatim>\<open>strtol\<close> reads from the whole
  argument; in every other case the program ends with status 1.\<close>

theorem get_int_sound:
  assumes "getInt arg flags name = r"
  shows "(\<forall>v. r = Inr v \<longrightarrow> INT_MIN \<le> v \<and> v \<le> INT_MAX \<and>
      (flags AND GN_NONNEG \<noteq> 0 \<longrightarrow> 0 \<le> v) \<and> (flags AND GN_GT_0 \<noteq> 0 \<longrightarrow> 0 < v) \<and>
      (\<exists>a. arg = Some a \<and> strtol a (num_base flags) = (v, [], False))) \<and>
    (\<forall>e. r = Inl e \<longrightarrow> fst e = 1)"
proof (intro conjI allI impI)
  fix v assume "r = Inr v"
  then have i: "getInt arg flags name = Inr v" using assms by simp
  show "INT_MIN \<le> v" "v \<le> INT_MAX" using i by (simp_all add: getInt_Inr)
  obtain a where a: "arg = Some a" "strtol a (num_base flags) = (v, [], False)"
    "flags AND GN_NONNEG \<noteq> 0 \<longrightarrow> 0 \<le> v" "flags AND GN_GT_0 \<noteq> 0 \<longrightarrow> 0 < v"
    using i by (auto simp: getInt_Inr getNum_Inr)
  then show "\<exists>a. arg = Some a \<and> strtol a (num_base flags) = (v, [], False)" by blast
  show "flags AND GN_NONNEG \<noteq> 0 \<Longrightarrow> 0 \<le> v" "flags AND GN_GT_0 \<noteq> 0 \<Longrightarrow> 0 < v" using a by auto
next
  fix e assume "r = Inl e"
  then show "fst e = 1" using assms getNum_Inl [of "''getInt''" arg flags name]
    by (cases "getNum ''getInt'' arg flags name") (auto simp: getInt_def gnFail_def split: if_splits)
qed

theorem get_int_sound_witness:
  "fst (projl (getInt (Some ''12x'') GN_NONNEG None)) = 1"
proof -
  have "strtol ''12x'' 10 = (12, ''x'', False)"
    using strtol_digits [of "''12''" "''x''"]
    by (simp add: is_digit_def code_def digits_value_def digit_value_def LONG_MAX_def)
  then have "getInt (Some ''12x'') GN_NONNEG None = Inl (1, ''getInt error: non-numeric characters'' @ newline @
      ''        offending text: 12x'' @ newline)"
    by (simp add: getInt_def getNum_def num_base_def GN_NONNEG_def GN_ANY_BASE_def GN_BASE_8_def
        GN_BASE_16_def gnFail_def)
  from get_int_sound [OF this] show ?thesis using \<open>getInt _ _ _ = _\<close> by simp
qed

text \<open>In base 10 \<^verbatim>\<open>getInt\<close> reads back every printed \<^verbatim>\<open>int\<close> that meets the flags.\<close>

theorem get_int_roundtrip:
  assumes "INT_MIN \<le> i" and "i \<le> INT_MAX" and "num_base flags = 10"
    and "flags AND GN_NONNEG \<noteq> 0 \<Longrightarrow> 0 \<le> i" and "flags AND GN_GT_0 \<noteq> 0 \<Longrightarrow> 0 < i"
  shows "getInt (Some (int_text i)) flags name = Inr i"
  using assms strtol_int_text [of i]
  by (auto simp: getInt_Inr getNum_Inr LONG_MIN_def LONG_MAX_def INT_MIN_def INT_MAX_def)

theorem get_int_roundtrip_witness: "getInt (Some (int_text (- 42))) 0 None = Inr (- 42)"
  by (rule get_int_roundtrip)
    (simp_all add: INT_MIN_def INT_MAX_def num_base_def)

end
