(* ===== verification/File_Names.thy ===== *)
theory File_Names
  imports Node_Lists Lib_Text
begin

text \<open>
  The program \<^verbatim>\<open>14-file-systems/exercises/14-1.c\<close>: it creates files with random numbers in their names and removes
  them in the order of the numbers. The names are doubly linked nodes, of which the program holds the last one.

  The values of \<^verbatim>\<open>rand\<close> are a parameter \<open>rnd\<close>, as is whether \<^verbatim>\<open>open\<close> can create a path. The file system is
  the set of paths that exist; \<open>cr_removed\<close> lists what was removed, in order.
\<close>

section \<open>Data\<close>

record fname =
  fn_path :: string
  fn_num :: int
  fn_status :: int

type_synonym fmem = "(fname, unit) lmem"

record creator =
  cr_mem :: fmem
  cr_rand :: nat
  cr_files :: "string set"
  cr_removed :: "string list"

datatype ending = Exited int | Died string | Usage string

text \<open>The fields of a node; those of a fresh one are the zeros of \<^verbatim>\<open>calloc\<close>.\<close>

definition fields_of :: "fname option \<Rightarrow> fname" where
  "fields_of v = (case v of Some f \<Rightarrow> f | None \<Rightarrow> \<lparr>fn_path = [], fn_num = 0, fn_status = 0\<rparr>)"

definition fn_fields :: "fname lnode \<Rightarrow> fname" where
  "fn_fields n = fields_of (lval n)"

section \<open>The functions\<close>

definition rewindFileName :: "ptr \<Rightarrow> fmem \<Rightarrow> ptr res" where
  "rewindFileName fn s = (if fn = NULL then Inr NULL else rewind_node fn s)"

definition isDuplicate :: "ptr \<Rightarrow> string \<Rightarrow> fmem \<Rightarrow> bool res" where
  "isDuplicate fn num s =
     rbind (rewindFileName fn s) (\<lambda>fnp.
     rbind (cwhile (\<lambda>(p, hit). p \<noteq> NULL \<and> \<not> hit)
              (\<lambda>(p, hit). rbind (node_get p s) (\<lambda>n.
                 if fn_num (fn_fields n) = atoi num then Inr (p, True) else Inr (lnext n, False)))
              (fnp, False))
       (\<lambda>(p, hit). Inr hit))"

definition file_name :: "int \<Rightarrow> string" where
  "file_name num = snprintf 8 (''x'' @ int_text num)"

text \<open>The new node is linked in before its name is chosen. The loop draws numbers until one is not taken.\<close>

definition link_name :: "ptr \<Rightarrow> ptr \<Rightarrow> fmem \<Rightarrow> fmem res" where
  "link_name fn newfn s =
     (if fn \<noteq> NULL
      then rbind (node_upd fn (\<lambda>n. n\<lparr>lnext := newfn\<rparr>) s) (\<lambda>s1.
           rbind (node_upd newfn (\<lambda>n. n\<lparr>lprev := fn\<rparr>) s1) (node_upd newfn (\<lambda>n. n\<lparr>lnext := NULL\<rparr>)))
      else rbind (node_upd newfn (\<lambda>n. n\<lparr>lnext := NULL\<rparr>) s) (node_upd newfn (\<lambda>n. n\<lparr>lprev := NULL\<rparr>)))"

definition draw_name :: "(nat \<Rightarrow> int) \<Rightarrow> ptr \<Rightarrow> fmem \<Rightarrow> nat \<Rightarrow> (nat \<times> string) res" where
  "draw_name rnd fn s k =
     rbind (isDuplicate fn (tl (file_name (rnd k))) s) (\<lambda>dup.
     rbind (cwhile (\<lambda>(k, name, dup). dup)
              (\<lambda>(k, name, dup). rbind (isDuplicate fn (tl (file_name (rnd k))) s) (\<lambda>dup. Inr (Suc k, file_name (rnd k), dup)))
              (Suc k, file_name (rnd k), dup))
       (\<lambda>(k, name, dup). Inr (k, name)))"

definition generateFilename :: "(nat \<Rightarrow> int) \<Rightarrow> ptr \<Rightarrow> string \<Rightarrow> creator \<Rightarrow> (ptr \<times> creator) res" where
  "generateFilename rnd fn dir st =
     (let (newfn, s1) = node_alloc (cr_mem st) in
      rbind (link_name fn newfn s1) (\<lambda>s2.
      rbind (draw_name rnd fn s2 (cr_rand st)) (\<lambda>(k, name).
      rbind (node_upd newfn (\<lambda>n. n\<lparr>lval := Some \<lparr>fn_path = snprintf (PATH_MAX - 1) (dir @ ''/'' @ name),
               fn_num = atoi (tl name), fn_status = 0\<rparr>\<rparr>) s2) (\<lambda>s3.
        Inr (newfn, st\<lparr>cr_mem := s3, cr_rand := k\<rparr>)))))"

definition getMinFn :: "ptr \<Rightarrow> fmem \<Rightarrow> ptr res" where
  "getMinFn fn s =
     rbind (rewindFileName fn s) (\<lambda>fnp.
     rbind (cwhile (\<lambda>st. fst st \<noteq> NULL)
              (\<lambda>(p, min). rbind (node_get p s) (\<lambda>n.
                 if fn_status (fn_fields n) = 0
                 then if min = NULL then Inr (lnext n, p)
                      else rbind (node_get min s) (\<lambda>m.
                             Inr (lnext n, if fn_num (fn_fields n) < fn_num (fn_fields m) then p else min))
                 else Inr (lnext n, min)))
              (fnp, NULL))
       (\<lambda>(p, min). Inr min))"

definition freeAll :: "ptr \<Rightarrow> fmem \<Rightarrow> fmem res" where
  "freeAll fn s =
     rbind (rewindFileName fn s) (\<lambda>fnp.
     rbind (cwhile (\<lambda>st. fst st \<noteq> NULL)
              (\<lambda>(p, s). rbind (node_get p s) (\<lambda>n. rbind (node_free p s) (\<lambda>s1. Inr (lnext n, s1)))) (fnp, s))
       (\<lambda>(p, s). Inr s))"

text \<open>The body of the \<^verbatim>\<open>do\<close> loop; the result is whether \<^verbatim>\<open>remove\<close> worked.\<close>

definition remove_step :: "ptr \<times> creator \<times> bool \<Rightarrow> (ptr \<times> creator \<times> bool) res" where
  "remove_step = (\<lambda>(min, st, ok).
     rbind (node_get min (cr_mem st)) (\<lambda>m. let path = fn_path (fn_fields m) in
       if path \<notin> cr_files st then Inr (min, st, False)
       else rbind (node_upd min (\<lambda>n. n\<lparr>lval := Some (fn_fields n\<lparr>fn_status := 1\<rparr>)\<rparr>) (cr_mem st)) (\<lambda>s1.
            rbind (getMinFn min s1) (\<lambda>min1.
              Inr (min1, st\<lparr>cr_mem := s1, cr_files := cr_files st - {path}, cr_removed := cr_removed st @ [path]\<rparr>, True)))))"

definition removeAll_fn :: "ptr \<Rightarrow> creator \<Rightarrow> (creator \<times> bool) res" where
  "removeAll_fn fn st =
     rbind (getMinFn fn (cr_mem st)) (\<lambda>min.
     rbind (remove_step (min, st, True)) (\<lambda>r.
     rbind (cwhile (\<lambda>(min, st, ok). min \<noteq> NULL \<and> ok) remove_step r) (\<lambda>(min, st, ok). Inr (st, ok))))"

definition create_step :: "(nat \<Rightarrow> int) \<Rightarrow> (string \<Rightarrow> bool) \<Rightarrow> string \<Rightarrow> int \<times> ptr \<times> creator \<times> bool \<Rightarrow> (int \<times> ptr \<times> creator \<times> bool) res" where
  "create_step rnd can_create dirname = (\<lambda>(k, fn, st, ok).
     rbind (c_add k (-1)) (\<lambda>k1.
     rbind (generateFilename rnd fn dirname st) (\<lambda>(fn1, st1).
     rbind (node_get fn1 (cr_mem st1)) (\<lambda>n. let path = fn_path (fn_fields n) in
       if \<not> can_create path then Inr (k1, fn1, st1, False)
       else Inr (k1, fn1, st1\<lparr>cr_files := insert path (cr_files st1)\<rparr>, True)))))"

definition names_main :: "(nat \<Rightarrow> int) \<Rightarrow> (string \<Rightarrow> bool) \<Rightarrow> string list \<Rightarrow> creator \<Rightarrow> (ending \<times> creator) res" where
  "names_main rnd can_create args st =
     (case args of [] \<Rightarrow> Inr (Usage ''./program dir fstype [numfiles]'', st)
      | dirname # opts \<Rightarrow>
          if opts \<noteq> [] \<and> isNumericString (Some (hd opts)) = 0 then Inr (Died ''[numfiles] argument is not numeric'', st)
          else let numFiles = (if opts = [] then 10 else atoi (hd opts)) in
            rbind (cwhile (\<lambda>(k, fn, st, ok). k \<noteq> 0 \<and> ok) (create_step rnd can_create dirname) (numFiles, NULL, st, True))
              (\<lambda>(k, fn, st1, ok).
                if \<not> ok then Inr (Died ''open()'', st1)
                else rbind (removeAll_fn fn st1) (\<lambda>(st2, ok).
                  if \<not> ok then Inr (Died ''remove()'', st2)
                  else rbind (freeAll fn (cr_mem st2)) (\<lambda>s. Inr (Exited 0, st2\<lparr>cr_mem := s\<rparr>)))))"

section \<open>Names\<close>

definition number :: "int \<Rightarrow> int" where
  "number r = atoi (tl (file_name r))"

definition path_of :: "string \<Rightarrow> int \<Rightarrow> string" where
  "path_of dir k = dir @ ''/x'' @ int_text k"

lemma take_nat_text: "0 < k \<Longrightarrow> \<exists>m \<le> n. take k (nat_text n) = nat_text m"
proof (induction n rule: nat_text.induct)
  case (1 n)
  show ?case
  proof (cases "length (nat_text n) \<le> k")
    case True
    then show ?thesis by (intro exI [of _ n]) simp
  next
    case False
    then have n: "\<not> n < 10" using 1(2) by (auto simp: nat_text.simps [of n])
    then have "take k (nat_text n) = take k (nat_text (n div 10))" using False by (simp add: nat_text.simps [of n])
    then show ?thesis using 1(1) [OF n 1(2)] div_le_dividend [of n 10] by (metis le_trans)
  qed
qed

lemma file_name_text:
  assumes "0 \<le> r" and "r \<le> INT_MAX"
  shows "file_name r = ''x'' @ int_text (number r)" and "0 \<le> number r" and "length (file_name r) \<le> 7"
proof -
  obtain m where m: "m \<le> nat r" "take 6 (nat_text (nat r)) = nat_text m" using take_nat_text [of 6 "nat r"] by auto
  have f: "file_name r = CHR ''x'' # nat_text m" using assms(1) m(2) by (simp add: file_name_def snprintf_def int_text_def)
  have "int m \<le> INT_MAX" using m(1) assms by simp
  then have "number r = int m" by (simp add: number_def f)
  then show "file_name r = ''x'' @ int_text (number r)" "0 \<le> number r" by (simp_all add: f int_text_def)
  show "length (file_name r) \<le> 7" by (simp add: file_name_def snprintf_def)
qed

section \<open>The nodes\<close>

lemma rewind_chain: "chain s xs \<Longrightarrow> p \<in> addrs xs \<Longrightarrow> rewindFileName p s = Inr (first_of xs NULL)"
proof -
  assume a: "chain s xs" "p \<in> addrs xs"
  then obtain x where x: "x \<in> set xs" "fst x = p" by auto
  then obtain ys zs where "xs = ys @ (p, snd x) # zs" using cells_split by blast
  then show ?thesis using a rewind_node_ok [of s ys p "snd x" zs] chainD(3) [OF a(1)] by (auto simp: rewindFileName_def)
qed

lemma isDuplicate_chain:
  assumes "chain s xs" and "p \<in> addrs xs"
  shows "isDuplicate p num s = Inr (\<exists>x \<in> set xs. fn_num (fields_of (snd x)) = atoi num)"
proof -
  let ?P = "\<lambda>x. fn_num (fields_of (snd x)) = atoi num"
  have "isDuplicate p num s = Inr (List.find ?P xs \<noteq> None)"
    using rewind_chain [OF assms] walk_find [OF assms(1), of "\<lambda>p v. fn_num (fields_of v) = atoi num"]
    by (cases "List.find ?P xs") (simp_all add: isDuplicate_def fn_fields_def)
  then show ?thesis unfolding find_None_iff by (simp add: Bex_def)
qed

lemma draw_name_ok:
  assumes "\<And>nm. isDuplicate fn nm s = Inr (P (atoi nm))" and "k \<le> j" and "\<not> P (number (rnd j))"
  shows "\<exists>i. draw_name rnd fn s k = Inr (Suc i, file_name (rnd i)) \<and> \<not> P (number (rnd i))"
proof -
  let ?loop = "cwhile (\<lambda>(k, name, dup). dup)
    (\<lambda>(k, name, dup). rbind (isDuplicate fn (tl (file_name (rnd k))) s) (\<lambda>dup. Inr (Suc k, file_name (rnd k), dup)))"
  have "\<exists>i. ?loop (Suc k, file_name (rnd k), P (number (rnd k))) = Inr (Suc i, file_name (rnd i), False) \<and> \<not> P (number (rnd i))" if "k \<le> j" for k
    using that
  proof (induction "j - k" arbitrary: k)
    case 0
    then show ?case using assms(3) by auto
  next
    case (Suc d)
    show ?case
    proof (cases "P (number (rnd k))")
      case True
      then have "?loop (Suc k, file_name (rnd k), P (number (rnd k))) = ?loop (Suc (Suc k), file_name (rnd (Suc k)), P (number (rnd (Suc k))))"
        by (subst cwhile_go) (simp_all add: assms(1) number_def)
      then show ?thesis using Suc.hyps(1) [of "Suc k"] Suc.hyps(2) by simp
    qed auto
  qed
  from this [OF assms(2)] show ?thesis by (auto simp: draw_name_def assms(1) number_def)
qed

section \<open>Creating\<close>

lemma node_upd_id: "lnodes s p = Some n \<Longrightarrow> p \<noteq> NULL \<Longrightarrow> f n = n \<Longrightarrow> node_upd p f s = Inr s"
  by (cases s) (simp add: node_upd_def node_get_def fun_upd_idem)

text \<open>A fresh node behind the last one, still without its fields.\<close>

lemma link_name_ok:
  assumes "chain s xs" and "\<not> fails s (calls s)"
  shows "\<exists>N. link_name (last_of NULL xs) (Suc (calls s)) (new_node_mem s None) = Inr ((new_node_mem s None)\<lparr>lnodes := N\<rparr>) \<and>
    chain ((new_node_mem s None)\<lparr>lnodes := N\<rparr>) (xs @ [(Suc (calls s), None)])"
proof -
  let ?p = "Suc (calls s)" and ?s = "new_node_mem s None"
  note new = chain_alloc [OF assms]
  have node: "lnodes ?s ?p = Some \<lparr>lnext = NULL, lprev = NULL, lval = None\<rparr>" by simp
  show ?thesis
  proof (cases "xs = []")
    case True
    have "node_upd ?p f ?s = Inr ?s" if "f \<lparr>lnext = NULL, lprev = NULL, lval = None\<rparr> = \<lparr>lnext = NULL, lprev = NULL, lval = None\<rparr>" for f
      by (rule node_upd_id, rule node, simp, rule that)
    then have "link_name NULL ?p ?s = Inr ?s" by (simp add: link_name_def)
    moreover have "chain ?s [(?p, None)]" using new(5) by (simp add: chain_def)
    ultimately show ?thesis using True by (intro exI [of _ "lnodes ?s"]) simp
  next
    case False
    obtain N where N: "rbind (node_upd (last_of NULL xs) (\<lambda>m. m\<lparr>lnext := ?p\<rparr>) ?s) (node_upd ?p (\<lambda>m. m\<lparr>lprev := last_of NULL xs\<rparr>))
        = Inr (?s\<lparr>lnodes := N\<rparr>)" "chain (?s\<lparr>lnodes := N\<rparr>) (xs @ [(?p, None)])"
      using chain_link [OF new(2) False new(3) node] by auto
    have last: "last_of NULL xs \<noteq> NULL" using chainD(3) [OF assms(1)] last_of_in [OF False] by metis
    have "N ?p = Some \<lparr>lnext = NULL, lprev = last_of NULL xs, lval = None\<rparr>"
      using lseg_node [of N NULL xs ?p None "[]" NULL] chainD(1) [OF N(2)] by simp
    then have "node_upd ?p (\<lambda>n. n\<lparr>lnext := NULL\<rparr>) (?s\<lparr>lnodes := N\<rparr>) = Inr (?s\<lparr>lnodes := N\<rparr>)"
      by (intro node_upd_id [where n = "\<lparr>lnext = NULL, lprev = last_of NULL xs, lval = None\<rparr>"]) auto
    then have "link_name (last_of NULL xs) ?p ?s = Inr (?s\<lparr>lnodes := N\<rparr>)"
      using N(1) last by (auto simp: link_name_def rbind_eq_Inr)
    then show ?thesis using N(2) by blast
  qed
qed

lemma generate_ok:
  assumes "chain (cr_mem st) (cells es)" and "ample (cr_mem st)"
    and "\<exists>j \<ge> cr_rand st. number (rnd j) \<notin> insert 0 (fn_num ` snd ` set es)" and "\<And>j. 0 \<le> rnd j \<and> rnd j \<le> INT_MAX"
    and "length dir + 8 < PATH_MAX - 1"
  shows "\<exists>p st' k. generateFilename rnd (last_of NULL (cells es)) dir st = Inr (p, st') \<and>
    chain (cr_mem st') (cells (es @ [(p, \<lparr>fn_path = path_of dir k, fn_num = k, fn_status = 0\<rparr>)])) \<and> 0 \<le> k \<and> k \<notin> fn_num ` snd ` set es \<and>
    p \<notin> live (cr_mem st) \<and> live (cr_mem st') = insert p (live (cr_mem st)) \<and> ample (cr_mem st') \<and> cr_files st' = cr_files st \<and>
    cr_removed st' = cr_removed st"
proof -
  let ?s = "cr_mem st"
  let ?p = "Suc (calls ?s)"
  have nf: "\<not> fails ?s (calls ?s)" using assms(2) by simp
  obtain N where N: "link_name (last_of NULL (cells es)) ?p (new_node_mem ?s None) = Inr ((new_node_mem ?s None)\<lparr>lnodes := N\<rparr>)"
    "chain ((new_node_mem ?s None)\<lparr>lnodes := N\<rparr>) (cells es @ [(?p, None)])"
    using link_name_ok [OF assms(1) nf] by blast
  let ?s2 = "(new_node_mem ?s None)\<lparr>lnodes := N\<rparr>"
  define P where "P n \<longleftrightarrow> es \<noteq> [] \<and> n \<in> insert 0 (fn_num ` snd ` set es)" for n :: int
  have dup: "isDuplicate (last_of NULL (cells es)) nm ?s2 = Inr (P (atoi nm))" for nm
  proof (cases "es = []")
    case True
    then show ?thesis by (simp add: isDuplicate_def rewindFileName_def P_def)
  next
    case False
    then have "last_of NULL (cells es) \<in> addrs (cells es @ [(?p, None)])" using last_of_in [of "cells es"] by simp
    then have "isDuplicate (last_of NULL (cells es)) nm ?s2
        = Inr (\<exists>x \<in> set (cells es @ [(?p, None)]). fn_num (fields_of (snd x)) = atoi nm)" by (rule isDuplicate_chain [OF N(2)])
    moreover have "(\<exists>x \<in> set (cells es @ [(?p, None)]). fn_num (fields_of (snd x)) = a) = (a \<in> insert 0 (fn_num ` snd ` set es))" for a
      by (simp add: fields_of_def image_image image_iff) metis
    ultimately show ?thesis using False by (simp add: P_def)
  qed
  obtain j where j: "cr_rand st \<le> j" "\<not> P (number (rnd j))" using assms(3) by (auto simp: P_def)
  obtain i where i: "draw_name rnd (last_of NULL (cells es)) ?s2 (cr_rand st) = Inr (Suc i, file_name (rnd i))" "\<not> P (number (rnd i))"
    using draw_name_ok [where P = P and fn = "last_of NULL (cells es)" and s = ?s2 and rnd = rnd and j = j, OF dup j] by blast
  have name: "file_name (rnd i) = ''x'' @ int_text (number (rnd i))" "length (file_name (rnd i)) \<le> 7"
    using file_name_text [of "rnd i"] assms(4) by auto
  have path: "snprintf (PATH_MAX - 1) (dir @ ''/'' @ file_name (rnd i)) = path_of dir (number (rnd i))"
    using assms(5) name by (simp add: path_of_def)
  let ?f = "\<lparr>fn_path = path_of dir (number (rnd i)), fn_num = number (rnd i), fn_status = 0\<rparr>"
  obtain N' where N': "node_upd ?p (\<lambda>n. n\<lparr>lval := Some ?f\<rparr>) ?s2 = Inr (?s2\<lparr>lnodes := N'\<rparr>)"
    "chain (?s2\<lparr>lnodes := N'\<rparr>) (cells es @ [(?p, Some ?f)])"
    using chain_set_val [OF N(2), of "\<lambda>v. Some ?f"] by blast
  have "generateFilename rnd (last_of NULL (cells es)) dir st = Inr (?p, st\<lparr>cr_mem := ?s2\<lparr>lnodes := N'\<rparr>, cr_rand := Suc i\<rparr>)"
    using N(1) i(1) N'(1) path by (simp add: generateFilename_def chain_alloc(1) [OF assms(1) nf] number_def)
  moreover have "number (rnd i) \<notin> fn_num ` snd ` set es" using i(2) by (auto simp: P_def)
  moreover have "ample (?s2\<lparr>lnodes := N'\<rparr>)" using assms(2) by (simp add: ample_def)
  moreover have "0 \<le> number (rnd i)" using file_name_text [of "rnd i"] assms(4) by auto
  ultimately show ?thesis using N'(2) chain_alloc(4) [OF assms(1) nf]
    by (intro exI [of _ ?p] exI [of _ "st\<lparr>cr_mem := ?s2\<lparr>lnodes := N'\<rparr>, cr_rand := Suc i\<rparr>"] exI [of _ "number (rnd i)"]) simp
qed

section \<open>The smallest name left\<close>

definition smallest :: "(ptr \<times> fname) list \<Rightarrow> ptr \<Rightarrow> bool" where
  "smallest es p \<longleftrightarrow> (p = NULL \<and> (\<forall>x \<in> set es. fn_status (snd x) \<noteq> 0)) \<or>
     (\<exists>f. (p, f) \<in> set es \<and> fn_status f = 0 \<and> (\<forall>x \<in> set es. fn_status (snd x) = 0 \<longrightarrow> fn_num f \<le> fn_num (snd x)))"

lemma smallest_add:
  "fn_status f \<noteq> 0 \<Longrightarrow> smallest es m \<Longrightarrow> smallest (es @ [(p, f)]) m"
  "fn_status f = 0 \<Longrightarrow> \<forall>x \<in> set es. fn_status (snd x) \<noteq> 0 \<Longrightarrow> smallest (es @ [(p, f)]) p"
  "fn_status f = 0 \<Longrightarrow> (m, g) \<in> set es \<Longrightarrow> fn_status g = 0 \<Longrightarrow>
    \<forall>x \<in> set es. fn_status (snd x) = 0 \<longrightarrow> fn_num g \<le> fn_num (snd x) \<Longrightarrow>
    smallest (es @ [(p, f)]) (if fn_num f < fn_num g then p else m)"
proof -
  show "fn_status f \<noteq> 0 \<Longrightarrow> smallest es m \<Longrightarrow> smallest (es @ [(p, f)]) m"
    unfolding smallest_def by (elim disjE exE conjE) (simp, rule disjI2, rule exI, auto)
  show "fn_status f = 0 \<Longrightarrow> \<forall>x \<in> set es. fn_status (snd x) \<noteq> 0 \<Longrightarrow> smallest (es @ [(p, f)]) p"
    unfolding smallest_def by (intro disjI2 exI [of _ f]) simp
  assume a: "fn_status f = 0" "(m, g) \<in> set es" "fn_status g = 0" "\<forall>x \<in> set es. fn_status (snd x) = 0 \<longrightarrow> fn_num g \<le> fn_num (snd x)"
  show "smallest (es @ [(p, f)]) (if fn_num f < fn_num g then p else m)"
  proof (cases "fn_num f < fn_num g")
    case True
    then have "\<forall>x \<in> set es. fn_status (snd x) = 0 \<longrightarrow> fn_num f \<le> fn_num (snd x)" using a(4) by (meson less_imp_le order_trans)
    then show ?thesis using a(1) True unfolding smallest_def by (intro disjI2 exI [of _ f]) simp
  next
    case False
    then show ?thesis using a unfolding smallest_def by (intro disjI2 exI [of _ g]) simp
  qed
qed

lemma cell_node:
  assumes "chain s (cells es)" and "(p, f) \<in> set es"
  shows "\<exists>n. node_get p s = Inr n \<and> fn_fields n = f \<and> p \<noteq> NULL"
proof -
  obtain ys zs where es: "es = ys @ (p, f) # zs" using assms(2) by (auto simp: in_set_conv_decomp)
  then have "chain s (cells ys @ (p, Some f) # cells zs)" using assms(1) by simp
  moreover have "p \<noteq> NULL" using chainD(3) [OF assms(1)] es by auto
  ultimately show ?thesis using chain_node by (fastforce simp: fn_fields_def fields_of_def)
qed

lemma getMinFn_ok:
  assumes "chain s (cells es)" and "q \<in> fst ` set es"
  shows "\<exists>p. getMinFn q s = Inr p \<and> smallest es p"
proof -
  let ?body = "\<lambda>(p, min). rbind (node_get p s) (\<lambda>n.
     if fn_status (fn_fields n) = 0
     then if min = NULL then Inr (lnext n, p)
          else rbind (node_get min s) (\<lambda>m. Inr (lnext n, if fn_num (fn_fields n) < fn_num (fn_fields m) then p else min))
     else Inr (lnext n, min))"
  have "\<exists>a'. cwhile (\<lambda>st. fst st \<noteq> NULL) ?body (first_of (cells es) NULL, NULL) = Inr (NULL, a') \<and> smallest (take (length (cells es)) es) a'"
  proof (rule cwhile_walk)
    show "NULL \<notin> addrs (cells es)" by (rule chainD(3) [OF assms(1)])
    show "smallest (take 0 es) NULL" by (simp add: smallest_def)
    fix i min assume i: "i < length (cells es)" and min: "smallest (take i es) min"
    obtain p f where pf: "es ! i = (p, f)" by fastforce
    have split: "take (Suc i) es = take i es @ [(p, f)]" using i pf by (simp add: take_Suc_conv_app_nth)
    have "es = take i es @ (p, f) # drop (Suc i) es" using i pf id_take_nth_drop [of i es] by simp
    from arg_cong [OF this, of cells] have "cells es = cells (take i es) @ (p, Some f) # cells (drop (Suc i) es)" by simp
    then have "node_get p s = Inr \<lparr>lnext = first_of (cells (drop (Suc i) es)) NULL, lprev = last_of NULL (cells (take i es)), lval = Some f\<rparr>"
      using assms(1) by (intro chain_node) simp
    then have n: "node_get p s = Inr \<lparr>lnext = first_of (drop (Suc i) (cells es)) NULL, lprev = last_of NULL (cells (take i es)), lval = Some f\<rparr>"
      by (simp add: drop_map)
    have f: "fst (cells es ! i) = p" using i pf by simp
    show "\<exists>a'. ?body (fst (cells es ! i), min) = Inr (first_of (drop (Suc i) (cells es)) NULL, a') \<and> smallest (take (Suc i) es) a'"
    proof (cases "fn_status f = 0")
      case False
      then show ?thesis using smallest_add(1) [OF False min] n f unfolding split
        by (intro exI [of _ min]) (simp add: fn_fields_def fields_of_def)
    next
      case st: True
      show ?thesis
      proof (cases "min = NULL")
        case True
        have "NULL \<notin> fst ` set es" using chainD(3) [OF assms(1)] by (simp add: addrs_cells)
        moreover have "fst ` set (take i es) \<subseteq> fst ` set es" by (intro image_mono set_take_subset)
        ultimately have "(min, g) \<notin> set (take i es)" for g using True by (metis fst_conv image_eqI subsetD)
        then have "\<forall>x \<in> set (take i es). fn_status (snd x) \<noteq> 0" using min unfolding smallest_def by blast
        then show ?thesis using smallest_add(2) [OF st] True n f st unfolding split
          by (intro exI [of _ p]) (simp add: fn_fields_def fields_of_def)
      next
        case False
        then obtain g where g: "(min, g) \<in> set (take i es)" "fn_status g = 0" "\<forall>x \<in> set (take i es). fn_status (snd x) = 0 \<longrightarrow> fn_num g \<le> fn_num (snd x)"
          using min by (auto simp: smallest_def)
        then obtain m where "node_get min s = Inr m" "fn_fields m = g" using cell_node [OF assms(1)] in_set_takeD by metis
        then show ?thesis using False n f st smallest_add(3) [OF st g] unfolding split
          by (intro exI [of _ "if fn_num f < fn_num g then p else min"]) (simp add: fn_fields_def fields_of_def)
      qed
    qed
  qed
  moreover have "q \<in> addrs (cells es)" using assms(2) by (simp add: addrs_cells)
  ultimately show ?thesis using rewind_chain [OF assms(1)] by (auto simp: getMinFn_def)
qed

section \<open>Removing\<close>

lemma path_of_inject: "0 \<le> a \<Longrightarrow> 0 \<le> b \<Longrightarrow> path_of dir a = path_of dir b \<longleftrightarrow> a = b"
  by (simp add: path_of_def int_text_def eq_nat_nat_iff)

lemma remove_step_ok:
  assumes "chain (cr_mem st) (cells (ys @ (p, f) # zs))" and "fn_path f \<in> cr_files st"
  shows "\<exists>q N. remove_step (p, st, ok) = Inr (q, st\<lparr>cr_mem := (cr_mem st)\<lparr>lnodes := N\<rparr>, cr_files := cr_files st - {fn_path f},
      cr_removed := cr_removed st @ [fn_path f]\<rparr>, True) \<and>
    chain ((cr_mem st)\<lparr>lnodes := N\<rparr>) (cells (ys @ (p, f\<lparr>fn_status := 1\<rparr>) # zs)) \<and> smallest (ys @ (p, f\<lparr>fn_status := 1\<rparr>) # zs) q"
proof -
  have ch: "chain (cr_mem st) (cells ys @ (p, Some f) # cells zs)" using assms(1) by simp
  let ?upd = "\<lambda>v. Some (fields_of v\<lparr>fn_status := 1\<rparr>)"
  obtain N where N: "node_upd p (\<lambda>n. n\<lparr>lval := ?upd (lval n)\<rparr>) (cr_mem st) = Inr ((cr_mem st)\<lparr>lnodes := N\<rparr>)"
    "chain ((cr_mem st)\<lparr>lnodes := N\<rparr>) (cells ys @ (p, ?upd (Some f)) # cells zs)"
    using chain_set_val [OF ch, of ?upd] by blast
  have ch2: "chain ((cr_mem st)\<lparr>lnodes := N\<rparr>) (cells (ys @ (p, f\<lparr>fn_status := 1\<rparr>) # zs))" using N(2) by (simp add: fields_of_def)
  obtain q where q: "getMinFn p ((cr_mem st)\<lparr>lnodes := N\<rparr>) = Inr q" "smallest (ys @ (p, f\<lparr>fn_status := 1\<rparr>) # zs) q"
    using getMinFn_ok [OF ch2, of p] by auto
  have "remove_step (p, st, ok) = Inr (q, st\<lparr>cr_mem := (cr_mem st)\<lparr>lnodes := N\<rparr>, cr_files := cr_files st - {fn_path f},
      cr_removed := cr_removed st @ [fn_path f]\<rparr>, True)"
    using chain_node [OF ch] N(1) q(1) assms(2) by (simp add: remove_step_def Let_def fn_fields_def fields_of_def)
  then show ?thesis using ch2 q(2) by blast
qed

text \<open>While files are removed: \<open>R\<close> are the numbers removed so far, in order; the rest are larger and still exist.\<close>

definition removing :: "string \<Rightarrow> creator \<Rightarrow> (ptr \<times> fname) list \<Rightarrow> int list \<Rightarrow> creator \<Rightarrow> bool" where
  "removing dir st0 es R st \<longleftrightarrow> chain (cr_mem st) (cells es) \<and>
     (\<forall>x \<in> set es. fn_path (snd x) = path_of dir (fn_num (snd x)) \<and> 0 \<le> fn_num (snd x)) \<and> distinct (map (\<lambda>x. fn_num (snd x)) es) \<and>
     cr_removed st = cr_removed st0 @ map (path_of dir) R \<and> sorted_wrt (<) R \<and>
     set R = (\<lambda>x. fn_num (snd x)) ` {x \<in> set es. fn_status (snd x) \<noteq> 0} \<and>
     (\<forall>x \<in> set es. fn_status (snd x) = 0 \<longrightarrow> (\<forall>r \<in> set R. r < fn_num (snd x)) \<and> fn_path (snd x) \<in> cr_files st) \<and>
     cr_files st = cr_files st0 - path_of dir ` set R \<and> live (cr_mem st) = live (cr_mem st0)"

lemma removing_step:
  assumes "removing dir st0 es R st" and "smallest es p" and "p \<noteq> NULL"
  shows "\<exists>q st1 es1 k. remove_step (p, st, ok) = Inr (q, st1, True) \<and> removing dir st0 es1 (R @ [k]) st1 \<and> smallest es1 q \<and>
    map fst es1 = map fst es \<and> map (\<lambda>x. fn_num (snd x)) es1 = map (\<lambda>x. fn_num (snd x)) es"
proof -
  obtain f where f: "(p, f) \<in> set es" "fn_status f = 0" "\<forall>x \<in> set es. fn_status (snd x) = 0 \<longrightarrow> fn_num f \<le> fn_num (snd x)"
    using assms(2, 3) by (auto simp: smallest_def)
  obtain ys zs where es: "es = ys @ (p, f) # zs" using f(1) by (auto simp: in_set_conv_decomp)
  have inv: "chain (cr_mem st) (cells es)" "\<forall>x \<in> set es. fn_path (snd x) = path_of dir (fn_num (snd x)) \<and> 0 \<le> fn_num (snd x)"
    "distinct (map (\<lambda>x. fn_num (snd x)) es)" "cr_removed st = cr_removed st0 @ map (path_of dir) R" "sorted_wrt (<) R"
    "set R = (\<lambda>x. fn_num (snd x)) ` {x \<in> set es. fn_status (snd x) \<noteq> 0}"
    "\<forall>x \<in> set es. fn_status (snd x) = 0 \<longrightarrow> (\<forall>r \<in> set R. r < fn_num (snd x)) \<and> fn_path (snd x) \<in> cr_files st"
    "cr_files st = cr_files st0 - path_of dir ` set R" "live (cr_mem st) = live (cr_mem st0)"
    using assms(1) unfolding removing_def by - (elim conjE, assumption)+
  have pf: "fn_path f = path_of dir (fn_num f)" "fn_path f \<in> cr_files st" "0 \<le> fn_num f" "\<forall>r \<in> set R. r < fn_num f"
    using inv(2, 7) f by (metis snd_conv)+
  let ?es = "ys @ (p, f\<lparr>fn_status := 1\<rparr>) # zs"
  obtain q N where step: "remove_step (p, st, ok) = Inr (q, st\<lparr>cr_mem := (cr_mem st)\<lparr>lnodes := N\<rparr>, cr_files := cr_files st - {fn_path f},
      cr_removed := cr_removed st @ [fn_path f]\<rparr>, True)" "chain ((cr_mem st)\<lparr>lnodes := N\<rparr>) (cells ?es)" "smallest ?es q"
    using remove_step_ok [of st ys p f zs ok] inv(1) pf(2) unfolding es by blast
  have "fn_num f \<notin> (\<lambda>x. fn_num (snd x)) ` (set ys \<union> set zs)" using inv(3) unfolding es by (simp add: image_Un)
  then have others: "fn_num (snd x) \<noteq> fn_num f" if "x \<in> set ys \<union> set zs" for x using that by (metis imageI)
  have larger: "fn_num f < fn_num (snd x)" if "x \<in> set ys \<union> set zs" "fn_status (snd x) = 0" for x
    using f(3) that others [OF that(1)] unfolding es by fastforce
  have "{x \<in> set ?es. fn_status (snd x) \<noteq> 0} = insert (p, f\<lparr>fn_status := 1\<rparr>) {x \<in> set es. fn_status (snd x) \<noteq> 0}"
    using f(2) unfolding es by auto
  then have R: "set (R @ [fn_num f]) = (\<lambda>x. fn_num (snd x)) ` {x \<in> set ?es. fn_status (snd x) \<noteq> 0}"
    using inv(6) by simp
  have left: "\<forall>x \<in> set ?es. fn_status (snd x) = 0 \<longrightarrow> (\<forall>r \<in> set (R @ [fn_num f]). r < fn_num (snd x)) \<and> fn_path (snd x) \<in> cr_files st - {fn_path f}"
  proof (intro ballI impI)
    fix x assume x: "x \<in> set ?es" "fn_status (snd x) = 0"
    then have xs: "x \<in> set ys \<union> set zs" "x \<in> set es" by (auto simp: es)
    have "fn_path (snd x) \<noteq> fn_path f" using inv(2) xs(2) others [OF xs(1)] pf(1, 3) path_of_inject by metis
    then show "(\<forall>r \<in> set (R @ [fn_num f]). r < fn_num (snd x)) \<and> fn_path (snd x) \<in> cr_files st - {fn_path f}"
      using inv(7) xs(2) x(2) larger [OF xs(1) x(2)] by auto
  qed
  let ?st = "st\<lparr>cr_mem := (cr_mem st)\<lparr>lnodes := N\<rparr>, cr_files := cr_files st - {fn_path f}, cr_removed := cr_removed st @ [fn_path f]\<rparr>"
  have "removing dir st0 ?es (R @ [fn_num f]) ?st"
    unfolding removing_def
  proof (intro conjI)
    show "\<forall>x \<in> set ?es. fn_path (snd x) = path_of dir (fn_num (snd x)) \<and> 0 \<le> fn_num (snd x)" using inv(2) unfolding es by auto
    show "distinct (map (\<lambda>x. fn_num (snd x)) ?es)" using inv(3) unfolding es by simp
    show "sorted_wrt (<) (R @ [fn_num f])" using inv(5) pf(4) by (simp add: sorted_wrt_append)
    show "cr_files ?st = cr_files st0 - path_of dir ` set (R @ [fn_num f])" using inv(8) pf(1) by auto
    have files: "cr_files ?st = cr_files st - {fn_path f}" by simp
    show "\<forall>x \<in> set ?es. fn_status (snd x) = 0 \<longrightarrow> (\<forall>r \<in> set (R @ [fn_num f]). r < fn_num (snd x)) \<and> fn_path (snd x) \<in> cr_files ?st"
      unfolding files by (rule left)
    show "set (R @ [fn_num f]) = (\<lambda>x. fn_num (snd x)) ` {x \<in> set ?es. fn_status (snd x) \<noteq> 0}" by (rule R)
    show "cr_removed ?st = cr_removed st0 @ map (path_of dir) (R @ [fn_num f])" using inv(4) pf(1) by simp
    show "live (cr_mem ?st) = live (cr_mem st0)" using inv(9) by simp
    show "chain (cr_mem ?st) (cells ?es)" using step(2) by simp
  qed
  moreover have "map fst ?es = map fst es" "map (\<lambda>x. fn_num (snd x)) ?es = map (\<lambda>x. fn_num (snd x)) es" by (simp_all add: es)
  ultimately show ?thesis using step(1, 3) by blast
qed

lemma removing_done:
  assumes "removing dir st0 es R st" and "smallest es NULL" and "NULL \<notin> fst ` set es"
  shows "set R = (\<lambda>x. fn_num (snd x)) ` set es"
proof -
  have "\<forall>x \<in> set es. fn_status (snd x) \<noteq> 0" using assms(2, 3) unfolding smallest_def by (metis fst_conv image_eqI)
  then have "{x \<in> set es. fn_status (snd x) \<noteq> 0} = set es" by blast
  then show ?thesis using assms(1) unfolding removing_def by metis
qed

lemma removing_length:
  assumes "removing dir st0 es R st" and "smallest es p" and "p \<noteq> NULL"
  shows "length R < length es"
proof -
  let ?num = "\<lambda>x. fn_num (snd x)"
  obtain f where f: "(p, f) \<in> set es" "fn_status f = 0" using assms(2, 3) by (auto simp: smallest_def)
  have R: "sorted_wrt (<) R" "set R = ?num ` {x \<in> set es. fn_status (snd x) \<noteq> 0}"
    "\<forall>x \<in> set es. fn_status (snd x) = 0 \<longrightarrow> (\<forall>r \<in> set R. r < ?num x) \<and> fn_path (snd x) \<in> cr_files st"
    using assms(1) unfolding removing_def by - (elim conjE, assumption)+
  have "fn_num f \<notin> set R" using R(3) f by fastforce
  moreover have "insert (fn_num f) (set R) \<subseteq> ?num ` set es" using R(2) f(1) by force
  ultimately have "Suc (card (set R)) \<le> card (?num ` set es)"
    using card_mono [of "?num ` set es" "insert (fn_num f) (set R)"] by simp
  moreover have "card (?num ` set es) \<le> length es" by (meson card_image_le card_length finite_set le_trans)
  moreover have "distinct R" using R(1) strict_sorted_iff by blast
  ultimately show ?thesis by (simp add: distinct_card)
qed

lemma removeAll_ok:
  assumes "chain (cr_mem st) (cells es)" and "es \<noteq> []" and "fn \<in> fst ` set es"
    and "\<forall>x \<in> set es. fn_status (snd x) = 0 \<and> fn_path (snd x) = path_of dir (fn_num (snd x)) \<and> 0 \<le> fn_num (snd x) \<and> fn_path (snd x) \<in> cr_files st"
    and "distinct (map (\<lambda>x. fn_num (snd x)) es)"
  shows "\<exists>st' es' R. removeAll_fn fn st = Inr (st', True) \<and> removing dir st es' R st' \<and> map fst es' = map fst es \<and>
    set R = (\<lambda>x. fn_num (snd x)) ` set es"
proof -
  have start: "removing dir st es [] st" using assms(1, 4, 5) by (auto simp: removing_def)
  obtain p where p: "getMinFn fn (cr_mem st) = Inr p" "smallest es p" using getMinFn_ok [OF assms(1, 3)] by blast
  obtain a b where x: "(a, b) \<in> set es" using assms(2) by (cases es) auto
  have p0: "p \<noteq> NULL"
  proof
    assume "p = NULL"
    then obtain f where "(NULL, f) \<in> set es" using p(2) x assms(4) by (auto simp: smallest_def)
    then show False using chainD(3) [OF assms(1)] by force
  qed
  let ?I = "\<lambda>(q, st', ok). ok \<and> (\<exists>es' R. removing dir st es' R st' \<and> smallest es' q \<and> map fst es' = map fst es \<and>
    map (\<lambda>x. fn_num (snd x)) es' = map (\<lambda>x. fn_num (snd x)) es)"
  let ?m = "\<lambda>(q, st', ok). length (cr_removed st) + length es - length (cr_removed st')"
  have "\<exists>r. cwhile (\<lambda>(min, st, ok). min \<noteq> NULL \<and> ok) remove_step (p, st, True) = Inr r \<and> ?I r \<and> \<not> (\<lambda>(min, st, ok). min \<noteq> NULL \<and> ok) r"
  proof (rule cwhile_measure [where m = ?m])
    show "?I (p, st, True)" using start p(2) by auto
    fix r assume I: "?I r" and b: "(\<lambda>(min, st, ok). min \<noteq> NULL \<and> ok) r"
    obtain q st1 ok where r: "r = (q, st1, ok)" by (cases r) auto
    obtain es1 R where inv: "removing dir st es1 R st1" "smallest es1 q" "map fst es1 = map fst es"
      "map (\<lambda>x. fn_num (snd x)) es1 = map (\<lambda>x. fn_num (snd x)) es" and q: "q \<noteq> NULL" using I b r by auto
    obtain q' st2 es2 k where step: "remove_step (q, st1, ok) = Inr (q', st2, True)" "removing dir st es2 (R @ [k]) st2" "smallest es2 q'"
      "map fst es2 = map fst es1" "map (\<lambda>x. fn_num (snd x)) es2 = map (\<lambda>x. fn_num (snd x)) es1"
      using removing_step [OF inv(1, 2) q] by blast
    have "length R < length es" using removing_length [OF inv(1, 2) q] inv(3) by (metis length_map)
    moreover have "cr_removed st1 = cr_removed st @ map (path_of dir) R" "cr_removed st2 = cr_removed st @ map (path_of dir) (R @ [k])"
      using inv(1) step(2) unfolding removing_def by blast+
    ultimately have "?m (q', st2, True) < ?m r" using r by simp
    moreover have "?I (q', st2, True)" using step inv(3, 4) by auto
    ultimately show "\<exists>r'. remove_step r = Inr r' \<and> ?I r' \<and> ?m r' < ?m r" using step(1) r by blast
  qed
  then obtain r where r: "cwhile (\<lambda>(min, st, ok). min \<noteq> NULL \<and> ok) remove_step (p, st, True) = Inr r" "?I r"
    "\<not> (\<lambda>(min, st, ok). min \<noteq> NULL \<and> ok) r" by blast
  obtain q st1 ok where rr: "r = (q, st1, ok)" by (cases r) auto
  then have loop: "cwhile (\<lambda>(min, st, ok). min \<noteq> NULL \<and> ok) remove_step (p, st, True) = Inr (q, st1, ok)" "ok"
    and I: "?I (q, st1, ok)" and q: "q = NULL" using r by auto
  obtain es1 R where inv: "removing dir st es1 R st1" "smallest es1 NULL" "map fst es1 = map fst es"
    "map (\<lambda>x. fn_num (snd x)) es1 = map (\<lambda>x. fn_num (snd x)) es" using I q by auto
  have "fst ` set es1 = fst ` set es" "(\<lambda>x. fn_num (snd x)) ` set es1 = (\<lambda>x. fn_num (snd x)) ` set es"
    using inv(3, 4) by (metis list.set_map)+
  moreover have "NULL \<notin> fst ` set es" using chainD(3) [OF assms(1)] by simp
  ultimately have "set R = (\<lambda>x. fn_num (snd x)) ` set es" using removing_done [OF inv(1, 2)] by simp
  moreover have "removeAll_fn fn st = Inr (st1, True)" using loop p p0 by (simp add: removeAll_fn_def cwhile_go flip: rbind_assoc)
  ultimately show ?thesis using inv(1, 3) by blast
qed

lemma freeAll_ok:
  assumes "chain s xs" and "p \<in> addrs xs"
  shows "freeAll p s = Inr (freed (addrs xs) s)"
  using rewind_chain [OF assms] free_walk [OF assms(1)] by (simp add: freeAll_def)

section \<open>The program\<close>

definition creating :: "string \<Rightarrow> creator \<Rightarrow> (ptr \<times> fname) list \<Rightarrow> creator \<Rightarrow> bool" where
  "creating dir st0 es st \<longleftrightarrow> chain (cr_mem st) (cells es) \<and> ample (cr_mem st) \<and> distinct (map (\<lambda>x. fn_num (snd x)) es) \<and>
     (\<forall>x \<in> set es. fn_status (snd x) = 0 \<and> fn_path (snd x) = path_of dir (fn_num (snd x)) \<and> 0 \<le> fn_num (snd x)) \<and>
     live (cr_mem st) = live (cr_mem st0) \<union> fst ` set es \<and> fst ` set es \<inter> live (cr_mem st0) = {} \<and>
     cr_files st = cr_files st0 \<union> (\<lambda>x. fn_path (snd x)) ` set es \<and> cr_removed st = cr_removed st0"

lemma creatingD:
  assumes "creating dir st0 es st"
  shows "chain (cr_mem st) (cells es)" "ample (cr_mem st)" "distinct (map (\<lambda>x. fn_num (snd x)) es)"
    "\<forall>x \<in> set es. fn_status (snd x) = 0 \<and> fn_path (snd x) = path_of dir (fn_num (snd x)) \<and> 0 \<le> fn_num (snd x)"
    "live (cr_mem st) = live (cr_mem st0) \<union> fst ` set es" "fst ` set es \<inter> live (cr_mem st0) = {}"
    "cr_files st = cr_files st0 \<union> (\<lambda>x. fn_path (snd x)) ` set es" "cr_removed st = cr_removed st0"
  using assms unfolding creating_def by - (elim conjE, assumption)+

text \<open>\<open>rnd\<close> keeps giving new numbers: none of at most \<open>n\<close> numbers is all it gives from some point on.\<close>

definition fresh_numbers :: "(nat \<Rightarrow> int) \<Rightarrow> nat \<Rightarrow> bool" where
  "fresh_numbers rnd n \<longleftrightarrow> (\<forall>j. 0 \<le> rnd j \<and> rnd j \<le> INT_MAX) \<and>
     (\<forall>k F. finite F \<longrightarrow> card F \<le> n \<longrightarrow> (\<exists>j \<ge> k. number (rnd j) \<notin> F))"

lemma create_step_ok:
  assumes "creating dir st0 es st" and "fresh_numbers rnd n" and "length es < n" and "length dir + 8 < PATH_MAX - 1"
    and "\<forall>p. can_create p" and "0 < k" and "k \<le> INT_MAX"
  shows "\<exists>fn st' x. create_step rnd can_create dir (k, last_of NULL (cells es), st, ok) = Inr (k - 1, fn, st', True) \<and>
    creating dir st0 (es @ [x]) st' \<and> fn = last_of NULL (cells (es @ [x]))"
proof -
  note inv = creatingD [OF assms(1)]
  have "finite (insert 0 (fn_num ` snd ` set es))" by simp
  moreover have "card (insert 0 (fn_num ` snd ` set es)) \<le> n"
    using card_insert_le_m1 [of n "fn_num ` snd ` set es" 0] assms(3) card_image_le [of "set es" "\<lambda>x. fn_num (snd x)"] card_length [of es]
    by (simp add: image_image)
  ultimately have lucky: "\<exists>j \<ge> cr_rand st. number (rnd j) \<notin> insert 0 (fn_num ` snd ` set es)"
    using assms(2) unfolding fresh_numbers_def by blast
  have bounds: "\<And>j. 0 \<le> rnd j \<and> rnd j \<le> INT_MAX" using assms(2) unfolding fresh_numbers_def by blast
  obtain p st1 m where g: "generateFilename rnd (last_of NULL (cells es)) dir st = Inr (p, st1)"
    "chain (cr_mem st1) (cells (es @ [(p, \<lparr>fn_path = path_of dir m, fn_num = m, fn_status = 0\<rparr>)]))" "0 \<le> m" "m \<notin> fn_num ` snd ` set es"
    "p \<notin> live (cr_mem st)" "live (cr_mem st1) = insert p (live (cr_mem st))" "ample (cr_mem st1)" "cr_files st1 = cr_files st"
    "cr_removed st1 = cr_removed st"
    using generate_ok [OF inv(1, 2) lucky bounds assms(4)] by (elim exE conjE) (rule that)
  let ?f = "\<lparr>fn_path = path_of dir m, fn_num = m, fn_status = 0\<rparr>"
  let ?st = "st1\<lparr>cr_files := insert (path_of dir m) (cr_files st1)\<rparr>"
  obtain n where n: "node_get p (cr_mem st1) = Inr n" "fn_fields n = ?f" using cell_node [OF g(2), of p ?f] by auto
  have "create_step rnd can_create dir (k, last_of NULL (cells es), st, ok) = Inr (k - 1, p, ?st, True)"
    using assms(5-7) g(1) n c_add_ok [of k "-1"] by (simp add: create_step_def Let_def INT_MIN_def)
  moreover have "creating dir st0 (es @ [(p, ?f)]) ?st"
    unfolding creating_def
  proof (intro conjI)
    show "distinct (map (\<lambda>x. fn_num (snd x)) (es @ [(p, ?f)]))" using inv(3) g(4) by (simp add: image_image)
    show "fst ` set (es @ [(p, ?f)]) \<inter> live (cr_mem st0) = {}" using inv(5, 6) g(5) by auto
    show "\<forall>x \<in> set (es @ [(p, ?f)]). fn_status (snd x) = 0 \<and> fn_path (snd x) = path_of dir (fn_num (snd x)) \<and> 0 \<le> fn_num (snd x)"
      using inv(4) g(3) by simp
    show "cr_files ?st = cr_files st0 \<union> (\<lambda>x. fn_path (snd x)) ` set (es @ [(p, ?f)])" using inv(7) g(8) by simp
    show "live (cr_mem ?st) = live (cr_mem st0) \<union> fst ` set (es @ [(p, ?f)])" using inv(5) g(6) by simp
    show "chain (cr_mem ?st) (cells (es @ [(p, ?f)]))" using g(2) by simp
    show "ample (cr_mem ?st)" "cr_removed ?st = cr_removed st0" using inv(8) g(7, 9) by simp_all
  qed
  ultimately show ?thesis by (intro exI [of _ p] exI [of _ ?st] exI [of _ "(p, ?f)"]) simp
qed

lemma create_loop_ok:
  assumes "mem_ok (cr_mem st)" and "ample (cr_mem st)" and "fresh_numbers rnd n" and "int n \<le> INT_MAX"
    and "length dir + 8 < PATH_MAX - 1" and "\<forall>p. can_create p"
  shows "\<exists>st' es. cwhile (\<lambda>(k, fn, st, ok). k \<noteq> 0 \<and> ok) (create_step rnd can_create dir) (int n, NULL, st, True)
      = Inr (0, last_of NULL (cells es), st', True) \<and> creating dir st es st' \<and> length es = n"
proof -
  let ?I = "\<lambda>(k, fn, st', ok). ok \<and> 0 \<le> k \<and> (\<exists>es. creating dir st es st' \<and> fn = last_of NULL (cells es) \<and> int (length es) + k = int n)"
  have "\<exists>r. cwhile (\<lambda>(k, fn, st, ok). k \<noteq> 0 \<and> ok) (create_step rnd can_create dir) (int n, NULL, st, True) = Inr r \<and> ?I r \<and>
    \<not> (\<lambda>(k, fn, st, ok). k \<noteq> 0 \<and> ok) r"
  proof (rule cwhile_measure [where m = "\<lambda>(k, fn, st, ok). nat k"])
    show "?I (int n, NULL, st, True)" using assms(1, 2) by (auto simp: creating_def chain_nil intro!: exI [of _ "[]"])
    fix r assume I: "?I r" and b: "(\<lambda>(k, fn, st, ok). k \<noteq> 0 \<and> ok) r"
    obtain k fn st1 ok where r: "r = (k, fn, st1, ok)" by (cases r) auto
    obtain es where es: "creating dir st es st1" "fn = last_of NULL (cells es)" "int (length es) + k = int n" and k: "0 < k"
      using I b r by auto
    have "length es < n" "k \<le> INT_MAX" using es(3) k assms(4) by auto
    then obtain fn' st2 x where "create_step rnd can_create dir (k, fn, st1, ok) = Inr (k - 1, fn', st2, True)"
      "creating dir st (es @ [x]) st2" "fn' = last_of NULL (cells (es @ [x]))"
      using create_step_ok [OF es(1) assms(3) _ assms(5, 6) k] es(2) by blast
    then show "\<exists>r'. create_step rnd can_create dir r = Inr r' \<and> ?I r' \<and> (\<lambda>(k, fn, st, ok). nat k) r' < (\<lambda>(k, fn, st, ok). nat k) r"
      using r es(3) k by (intro exI [of _ "(k - 1, fn', st2, True)"]) (auto intro!: exI [of _ "es @ [x]"])
  qed
  then show ?thesis by fastforce
qed

text \<open>C37: Started with a directory and a number of files, the program creates that many files and removes them in
  strictly increasing order of their numbers; a file that had one of the names before is gone too; all memory is released.\<close>

theorem create_then_remove_sorted:
  assumes "mem_ok (cr_mem st)" and "ample (cr_mem st)" and "0 < n" and "int n \<le> INT_MAX" and "fresh_numbers rnd n"
    and "length dir + 8 < PATH_MAX - 1" and "\<forall>p. can_create p"
  shows "\<exists>st' ks. names_main rnd can_create [dir, nat_text n] st = Inr (Exited 0, st') \<and> length ks = n \<and> sorted_wrt (<) ks \<and>
    cr_removed st' = cr_removed st @ map (path_of dir) ks \<and> cr_files st' = cr_files st - path_of dir ` set ks \<and>
    live (cr_mem st') = live (cr_mem st)"
proof -
  obtain st1 es where c: "cwhile (\<lambda>(k, fn, st, ok). k \<noteq> 0 \<and> ok) (create_step rnd can_create dir) (int n, NULL, st, True)
      = Inr (0, last_of NULL (cells es), st1, True)" "creating dir st es st1" "length es = n"
    using create_loop_ok [OF assms(1, 2, 5, 4, 6, 7)] by blast
  note inv = creatingD [OF c(2)]
  have ne: "es \<noteq> []" using assms(3) c(3) by auto
  then have last: "last_of NULL (cells es) \<in> fst ` set es" using last_of_in [of "cells es"] by simp
  obtain st2 es2 R where r: "removeAll_fn (last_of NULL (cells es)) st1 = Inr (st2, True)" "removing dir st1 es2 R st2" "map fst es2 = map fst es"
    "set R = (\<lambda>x. fn_num (snd x)) ` set es"
    using removeAll_ok [OF inv(1) ne last] inv(3, 4, 7) by blast
  have rem: "chain (cr_mem st2) (cells es2)" "cr_removed st2 = cr_removed st1 @ map (path_of dir) R" "sorted_wrt (<) R"
    "cr_files st2 = cr_files st1 - path_of dir ` set R" "live (cr_mem st2) = live (cr_mem st1)"
    using r(2) unfolding removing_def by - (elim conjE, assumption)+
  have fst2: "fst ` set es2 = fst ` set es" using r(3) by (metis list.set_map)
  then have f: "freeAll (last_of NULL (cells es)) (cr_mem st2) = Inr (freed (fst ` set es) (cr_mem st2))"
    using freeAll_ok [OF rem(1)] last by simp
  have num: "isNumericString (Some (nat_text n)) = 1" using nat_text_digits by (simp add: isNumericString_def all_digits_iff)
  have "names_main rnd can_create [dir, nat_text n] st = Inr (Exited 0, st2\<lparr>cr_mem := freed (fst ` set es) (cr_mem st2)\<rparr>)"
    using c(1) r(1) f num assms(4) by (simp add: names_main_def)
  moreover have "length R = n"
  proof -
    have "set R = set (map (\<lambda>x. fn_num (snd x)) es)" using r(4) by simp
    then have "card (set R) = length es" using distinct_card [OF inv(3)] by (simp only: length_map)
    moreover have "distinct R" using rem(3) strict_sorted_iff by blast
    ultimately show ?thesis using c(3) by (simp add: distinct_card)
  qed
  moreover have "(\<lambda>x. fn_path (snd x)) ` set es = path_of dir ` set R" unfolding r(4) image_image using inv(4) by (intro image_cong) auto
  then have "cr_files st2 = cr_files st - path_of dir ` set R" using rem(4) inv(7) by auto
  moreover have "live (freed (fst ` set es) (cr_mem st2)) = live (cr_mem st)" using rem(5) inv(5, 6) by (auto simp: freed_def)
  ultimately show ?thesis using rem(2, 3) inv(8)
    by (intro exI [of _ "st2\<lparr>cr_mem := freed (fst ` set es) (cr_mem st2)\<rparr>"] exI [of _ R]) simp
qed

definition ex_creator :: creator where
  "ex_creator = \<lparr>cr_mem = \<lparr>calls = 0, fails = (\<lambda>_. False), live = {}, lnodes = (\<lambda>_. None), objs = (\<lambda>_. None)\<rparr>, cr_rand = 0,
     cr_files = {}, cr_removed = []\<rparr>"

lemma ex_fresh: "fresh_numbers (\<lambda>j. int (j mod 3)) 2"
  unfolding fresh_numbers_def
proof (intro conjI allI impI)
  have num: "number (int v) = int v" if "v \<in> {0, 1, 2}" for v
  proof -
    have "v < 10" using that by auto
    then have "nat_text v = [digit_char v]" by (simp add: nat_text.simps)
    then have "number (int v) = atoi (nat_text v)" by (simp add: number_def file_name_def int_text_def)
    then show ?thesis using \<open>v < 10\<close> by (simp add: INT_MAX_def)
  qed
  fix k F assume F: "finite (F :: int set)" "card F \<le> 2"
  show "\<exists>j \<ge> k. number (int (j mod 3)) \<notin> F"
  proof (rule ccontr)
    assume none: "\<not> (\<exists>j \<ge> k. number (int (j mod 3)) \<notin> F)"
    have in_F: "int v \<in> F" if "v \<in> {0, 1, 2}" for v
    proof -
      have "k \<le> 3 * k + v" by simp
      then have "number (int ((3 * k + v) mod 3)) \<in> F" using none by blast
      moreover have "(3 * k + v) mod 3 = v" using that by auto
      ultimately show ?thesis using num [OF that] by simp
    qed
    have "{0, 1, 2} \<subseteq> F" using in_F [of 0] in_F [of 1] in_F [of 2] by simp
    from card_mono [OF F(1) this] show False using F(2) by simp
  qed
qed (simp_all add: INT_MAX_def)

theorem create_then_remove_sorted_witness:
  "\<exists>st' ks. names_main (\<lambda>j. int (j mod 3)) (\<lambda>p. True) [''/tmp'', ''2''] ex_creator = Inr (Exited 0, st') \<and> length ks = 2 \<and>
    sorted_wrt (<) ks \<and> cr_removed st' = map (path_of ''/tmp'') ks \<and> cr_files st' = {} \<and> live (cr_mem st') = {}"
  using create_then_remove_sorted [where st = ex_creator and can_create = "\<lambda>p. True" and dir = "''/tmp''", OF _ _ _ _ ex_fresh]
  by (simp add: ex_creator_def mem_ok_def ample_def INT_MAX_def PATH_MAX_def nat_text.simps [of 2] digit_char_literals)

text \<open>Asked for no files, the program removes through the name it does not have: a NULL pointer is read.\<close>

theorem no_files_no_name: "names_main rnd can_create [dir, ''0''] st = Inl Null_Deref"
proof -
  have "''0'' = nat_text 0" by (simp add: nat_text.simps)
  then have "atoi ''0'' = 0" using atoi_nat_text [of 0] by (simp add: INT_MAX_def)
  then show ?thesis
    by (simp add: names_main_def isNumericString_def is_digit_def code_def removeAll_fn_def getMinFn_def rewindFileName_def
        remove_step_def node_get_def)
qed

end
