(* ===== verification/Popen_Streams.thy ===== *)
theory Popen_Streams
  imports Node_Lists
begin

text \<open>
  \<^verbatim>\<open>popen2\<close> and \<^verbatim>\<open>pclose2\<close> of \<^verbatim>\<open>44-pipes-and-fifos/exercises/44-2.c\<close>.

  The state is that of the process: its memory, the table of file descriptors (as long as the limit on open files),
  the \<^verbatim>\<open>FILE\<close> objects with their descriptor and the output that waits in their buffer, and the list of streams.
  What has been written to a pipe is shared with the children. A child is a copy of the state that runs up to its
  \<^verbatim>\<open>execl\<close>; \<open>ps_children\<close> keeps the table it leaves behind. \<^verbatim>\<open>fork\<close> and \<^verbatim>\<open>waitpid\<close> are parameters, and \<open>broken\<close>
  tells the pipes no one reads any more.
\<close>

section \<open>Processes and streams\<close>

datatype pend = Tty | Rd nat | Wr nat

record snode =
  sn_stream :: ptr
  sn_fd :: int
  sn_pid :: int

datatype child = Execs string "pend option list" | Ends int

record proc =
  ps_mem :: "(snode, unit) lmem"
  ps_fds :: "pend option list"
  ps_file :: "ptr \<Rightarrow> (nat \<times> string) option"
  ps_pipe :: "nat \<Rightarrow> string"
  ps_pipes :: nat
  ps_base :: ptr
  ps_count :: int
  ps_children :: "(int \<times> child) list"

definition sn_fields :: "snode lnode \<Rightarrow> snode" where
  "sn_fields n = (case lval n of Some v \<Rightarrow> v | None \<Rightarrow> \<lparr>sn_stream = NULL, sn_fd = 0, sn_pid = 0\<rparr>)"

section \<open>Descriptors and buffered output\<close>

definition first_free :: "pend option list \<Rightarrow> nat" where
  "first_free fds = first_hit (\<lambda>x. x = None) fds"

definition sys_pipe :: "proc \<Rightarrow> ((nat \<times> nat) \<times> proc) option" where
  "sys_pipe st =
     (let i = first_free (ps_fds st); fds1 = (ps_fds st)[i := Some (Rd (ps_pipes st))]; j = first_free fds1 in
      if i < length (ps_fds st) \<and> j < length fds1
      then Some ((i, j), st\<lparr>ps_fds := fds1[j := Some (Wr (ps_pipes st))], ps_pipes := Suc (ps_pipes st)\<rparr>)
      else None)"

definition sys_close :: "nat \<Rightarrow> proc \<Rightarrow> bool \<times> proc" where
  "sys_close fd st =
     (if fd < length (ps_fds st) \<and> ps_fds st ! fd \<noteq> None then (True, st\<lparr>ps_fds := (ps_fds st)[fd := None]\<rparr>) else (False, st))"

definition sys_dup2 :: "nat \<Rightarrow> nat \<Rightarrow> proc \<Rightarrow> bool \<times> proc" where
  "sys_dup2 a b st =
     (if a < length (ps_fds st) \<and> b < length (ps_fds st) \<and> ps_fds st ! a \<noteq> None
      then (True, st\<lparr>ps_fds := (ps_fds st)[b := ps_fds st ! a]\<rparr>) else (False, st))"

definition c_fdopen :: "nat \<Rightarrow> proc \<Rightarrow> ptr \<times> proc" where
  "c_fdopen fd st =
     (let (f, m) = c_alloc (ps_mem st) in
      if f = NULL then (NULL, st\<lparr>ps_mem := m\<rparr>) else (f, st\<lparr>ps_mem := m, ps_file := (ps_file st)(f \<mapsto> (fd, []))\<rparr>))"

definition get_file :: "ptr \<Rightarrow> proc \<Rightarrow> (nat \<times> string) res" where
  "get_file f st = (if f = NULL then Inl Null_Deref else case ps_file st f of None \<Rightarrow> Inl Bad_Access | Some x \<Rightarrow> Inr x)"

text \<open>\<^verbatim>\<open>fwrite\<close> of less than a buffer's size only fills the buffer; \<^verbatim>\<open>fflush\<close> writes it.\<close>

definition c_fwrite :: "string \<Rightarrow> ptr \<Rightarrow> proc \<Rightarrow> proc res" where
  "c_fwrite text f st = rbind (get_file f st) (\<lambda>(fd, buf). Inr (st\<lparr>ps_file := (ps_file st)(f \<mapsto> (fd, buf @ text))\<rparr>))"

definition c_fflush :: "(nat \<Rightarrow> bool) \<Rightarrow> ptr \<Rightarrow> proc \<Rightarrow> (bool \<times> proc) res" where
  "c_fflush broken f st =
     rbind (get_file f st) (\<lambda>(fd, buf).
       if buf = [] then Inr (True, st)
       else case (if fd < length (ps_fds st) then ps_fds st ! fd else None) of
              Some (Wr p) \<Rightarrow>
                if broken p then Inr (False, st)
                else Inr (True, st\<lparr>ps_file := (ps_file st)(f \<mapsto> (fd, [])), ps_pipe := (ps_pipe st)(p := ps_pipe st p @ buf)\<rparr>)
            | _ \<Rightarrow> Inr (False, st))"

definition c_fclose :: "(nat \<Rightarrow> bool) \<Rightarrow> ptr \<Rightarrow> proc \<Rightarrow> (bool \<times> proc) res" where
  "c_fclose broken f st =
     rbind (c_fflush broken f st) (\<lambda>(ok, st1).
     rbind (get_file f st1) (\<lambda>(fd, buf).
       case sys_close fd st1 of (ok2, st2) \<Rightarrow>
         rbind (c_free f (ps_mem st2)) (\<lambda>m. Inr (ok \<and> ok2, st2\<lparr>ps_mem := m, ps_file := (ps_file st2)(f := None)\<rparr>))))"

section \<open>The list of streams\<close>

definition add_popen_node :: "int \<Rightarrow> ptr \<Rightarrow> proc \<Rightarrow> proc res" where
  "add_popen_node childPid stream st =
     (let (node, m) = node_alloc (ps_mem st) in
      rbind (node_upd node (\<lambda>n. n\<lparr>lval := Some (sn_fields n\<lparr>sn_pid := childPid\<rparr>)\<rparr>) m) (\<lambda>m1.
      rbind (node_upd node (\<lambda>n. n\<lparr>lval := Some (sn_fields n\<lparr>sn_stream := stream\<rparr>)\<rparr>) m1) (\<lambda>m2.
      rbind (if ps_base st = NULL then Inr (node, m2)
             else rbind (forward_node (ps_base st) m2) (\<lambda>np.
                  rbind (node_upd np (\<lambda>n. n\<lparr>lnext := node\<rparr>) m2) (\<lambda>m3.
                  rbind (node_upd node (\<lambda>n. n\<lparr>lprev := np\<rparr>) m3) (\<lambda>m4. Inr (ps_base st, m4)))))
        (\<lambda>(base, m3). rbind (c_add (ps_count st) 1) (\<lambda>count. Inr (st\<lparr>ps_mem := m3, ps_base := base, ps_count := count\<rparr>))))))"

definition unlink_popen_node :: "ptr \<Rightarrow> proc \<Rightarrow> proc res" where
  "unlink_popen_node node st =
     rbind (node_get node (ps_mem st)) (\<lambda>n.
       if node = ps_base st
       then if lnext n \<noteq> NULL
            then rbind (node_upd (lnext n) (\<lambda>m. m\<lparr>lprev := NULL\<rparr>) (ps_mem st)) (\<lambda>m. Inr (st\<lparr>ps_mem := m, ps_base := lnext n\<rparr>))
            else Inr (st\<lparr>ps_base := NULL\<rparr>)
       else rbind (if lprev n \<noteq> NULL then node_upd (lprev n) (\<lambda>m. m\<lparr>lnext := lnext n\<rparr>) (ps_mem st) else Inr (ps_mem st)) (\<lambda>m1.
            rbind (if lnext n \<noteq> NULL then node_upd (lnext n) (\<lambda>m. m\<lparr>lprev := lprev n\<rparr>) m1 else Inr m1) (\<lambda>m2.
              Inr (st\<lparr>ps_mem := m2\<rparr>))))"

definition destroy_popen_node :: "(nat \<Rightarrow> bool) \<Rightarrow> (int \<Rightarrow> int option) \<Rightarrow> ptr \<Rightarrow> proc \<Rightarrow> (int \<times> proc) res" where
  "destroy_popen_node broken wait node st =
     (if node = NULL then Inr (-1, st)
      else rbind (node_get node (ps_mem st)) (\<lambda>n. let pid = sn_pid (sn_fields n); stream = sn_stream (sn_fields n) in
        rbind (c_fflush broken stream st) (\<lambda>(ok0, st1).
        rbind (c_fclose broken stream st1) (\<lambda>(ok, st2).
          if \<not> ok then Inr (-1, st2)
          else rbind (unlink_popen_node node st2) (\<lambda>st3.
               rbind (node_free node (ps_mem st3)) (\<lambda>m.
               rbind (c_add (ps_count st3) (-1)) (\<lambda>count.
                 Inr (case wait pid of None \<Rightarrow> -1 | Some status \<Rightarrow> status, st3\<lparr>ps_mem := m, ps_count := count\<rparr>))))))))"

definition pclose2 :: "(nat \<Rightarrow> bool) \<Rightarrow> (int \<Rightarrow> int option) \<Rightarrow> ptr \<Rightarrow> proc \<Rightarrow> (int \<times> proc) res" where
  "pclose2 broken wait stream st =
     (if stream = NULL then Inr (-1, st)
      else rbind (cwhile (\<lambda>(p, hit). p \<noteq> NULL \<and> \<not> hit)
                    (\<lambda>(p, hit). rbind (node_get p (ps_mem st)) (\<lambda>n.
                       if sn_stream (sn_fields n) = stream then Inr (p, True) else Inr (lnext n, False)))
                    (ps_base st, False))
        (\<lambda>(node, hit). destroy_popen_node broken wait node st))"

section \<open>popen2\<close>

text \<open>The child, which works on its copy of the state; only what it writes to the pipes is seen outside.\<close>

definition close_streams :: "(nat \<Rightarrow> bool) \<Rightarrow> proc \<Rightarrow> proc res" where
  "close_streams broken st =
     rbind (cwhile (\<lambda>s. fst s \<noteq> NULL)
              (\<lambda>(np, st). rbind (node_get np (ps_mem st)) (\<lambda>n.
                 rbind (c_fclose broken (sn_stream (sn_fields n)) st) (\<lambda>(ok, st1).
                 rbind (node_get np (ps_mem st1)) (\<lambda>n1. Inr (lnext n1, st1)))))
              (ps_base st, st))
       (\<lambda>(np, st). Inr st)"

definition popen_child :: "(nat \<Rightarrow> bool) \<Rightarrow> nat \<Rightarrow> nat \<times> nat \<Rightarrow> string \<Rightarrow> proc \<Rightarrow> (child \<times> proc) res" where
  "popen_child broken read_or_write fds command st =
     (let (mine, other, std) = (if read_or_write = 0 then (snd fds, fst fds, 1) else (fst fds, snd fds, 0));
          (ok1, st1) = sys_close other st; (ok2, st2) = sys_dup2 mine std st1 in
      if \<not> ok1 then Inr (Ends 1, st1)
      else if \<not> ok2 then Inr (Ends 1, st2)
      else rbind (close_streams broken st2) (\<lambda>st3. Inr (Execs command (ps_fds st3), st3)))"

text \<open>An argument that is NULL is None. The result of \<^verbatim>\<open>fork\<close> is the child's process id, or -1.\<close>

definition popen2 :: "(nat \<Rightarrow> bool) \<Rightarrow> int \<Rightarrow> string option \<Rightarrow> string option \<Rightarrow> proc \<Rightarrow> (ptr \<times> proc) res" where
  "popen2 broken forked command ptype st =
     (case (command, ptype) of
        (Some cmd, Some t) \<Rightarrow>
          if t = [] \<or> cmd = [] then Inr (NULL, st)
          else (case sys_pipe st of None \<Rightarrow> Inr (NULL, st)
           | Some (fds, st1) \<Rightarrow>
               if t \<noteq> ''r'' \<and> t \<noteq> ''w'' then Inr (NULL, st1)
               else let read_or_write = (if t = ''r'' then 0 else 1) in
                 if forked = -1 then Inr (NULL, st1)
                 else rbind (popen_child broken read_or_write fds cmd st1) (\<lambda>(ch, stc).
                   let st2 = st1\<lparr>ps_pipe := ps_pipe stc, ps_children := ps_children st1 @ [(forked, ch)]\<rparr>;
                       (mine, other) = (if read_or_write = 0 then fds else (snd fds, fst fds));
                       (ok, st3) = sys_close other st2 in
                   if \<not> ok then Inr (NULL, snd (sys_close mine st3))
                   else case c_fdopen mine st3 of (stream, st4) \<Rightarrow>
                     rbind (add_popen_node forked stream st4) (\<lambda>st5. Inr (stream, st5))))
      | _ \<Rightarrow> Inr (NULL, st))"

section \<open>Well-formed lists of streams\<close>

text \<open>An entry is a node, its fields, the descriptor of its stream and the end of a pipe behind it.\<close>

type_synonym entry = "ptr \<times> snode \<times> nat \<times> pend"

definition node_of :: "entry \<Rightarrow> ptr \<times> snode" where
  "node_of x = (fst x, fst (snd x))"

definition stream_of :: "entry \<Rightarrow> ptr" where
  "stream_of x = sn_stream (fst (snd x))"

definition fd_of :: "entry \<Rightarrow> nat" where
  "fd_of x = fst (snd (snd x))"

definition end_of :: "entry \<Rightarrow> pend" where
  "end_of x = snd (snd (snd x))"

lemma entry_simps [simp]:
  "node_of (p, v, fd, e) = (p, v)" "stream_of (p, v, fd, e) = sn_stream v" "fd_of (p, v, fd, e) = fd" "end_of (p, v, fd, e) = e"
  by (simp_all add: node_of_def stream_of_def fd_of_def end_of_def)

fun pipe_of :: "pend \<Rightarrow> nat option" where
  "pipe_of Tty = None"
| "pipe_of (Rd p) = Some p"
| "pipe_of (Wr p) = Some p"

definition open_entry :: "proc \<Rightarrow> entry \<Rightarrow> bool" where
  "open_entry st x \<longleftrightarrow> (\<exists>buf. ps_file st (stream_of x) = Some (fd_of x, buf) \<and> (end_of x \<noteq> Tty) \<and>
     (\<forall>p. end_of x = Rd p \<longrightarrow> buf = [])) \<and> 2 < fd_of x \<and> fd_of x < length (ps_fds st) \<and> ps_fds st ! fd_of x = Some (end_of x) \<and>
     stream_of x \<noteq> NULL \<and> stream_of x \<in> live (ps_mem st)"

definition streams_ok :: "proc \<Rightarrow> entry list \<Rightarrow> bool" where
  "streams_ok st xs \<longleftrightarrow> chain (ps_mem st) (cells (map node_of xs)) \<and> ps_base st = first_of (cells (map node_of xs)) NULL \<and>
     ps_count st = int (length xs) \<and> (\<forall>x \<in> set xs. open_entry st x) \<and> distinct (map stream_of xs) \<and> distinct (map fd_of xs) \<and>
     distinct (map (\<lambda>x. pipe_of (end_of x)) xs) \<and> (\<forall>x \<in> set xs. \<forall>p. pipe_of (end_of x) = Some p \<longrightarrow> p < ps_pipes st) \<and>
     stream_of ` set xs \<inter> fst ` node_of ` set xs = {} \<and> int (length xs) \<le> INT_MAX"

lemma node_addrs: "addrs (cells (map node_of xs)) = fst ` node_of ` set xs"
  by (simp add: image_image)

lemma streams_okD:
  assumes "streams_ok st xs"
  shows "chain (ps_mem st) (cells (map node_of xs))" "ps_base st = first_of (cells (map node_of xs)) NULL"
    "ps_count st = int (length xs)" "\<forall>x \<in> set xs. open_entry st x" "distinct (map stream_of xs)" "distinct (map fd_of xs)"
    "distinct (map (\<lambda>x. pipe_of (end_of x)) xs)" "\<forall>x \<in> set xs. \<forall>p. pipe_of (end_of x) = Some p \<longrightarrow> p < ps_pipes st"
    "stream_of ` set xs \<inter> fst ` node_of ` set xs = {}" "int (length xs) \<le> INT_MAX"
  using assms unfolding streams_ok_def by - (elim conjE, assumption)+

section \<open>Closing a stream\<close>

text \<open>What closing a stream leaves: its buffer goes to its pipe, unless that is broken.\<close>

definition flushed :: "(nat \<Rightarrow> bool) \<Rightarrow> pend \<Rightarrow> string \<Rightarrow> (nat \<Rightarrow> string) \<Rightarrow> (nat \<Rightarrow> string)" where
  "flushed broken e buf pipe = (case e of Wr p \<Rightarrow> if broken p then pipe else pipe(p := pipe p @ buf) | _ \<Rightarrow> pipe)"

lemma c_fclose_ok:
  assumes "ps_file st f = Some (fd, buf)" and "f \<noteq> NULL" and "f \<in> live (ps_mem st)" and "fd < length (ps_fds st)"
    and "ps_fds st ! fd = Some e" and "e \<noteq> Tty" and "\<forall>p. e = Rd p \<longrightarrow> buf = []"
  shows "\<exists>ok F. c_fclose broken f st = Inr (ok, st\<lparr>ps_mem := (ps_mem st)\<lparr>live := live (ps_mem st) - {f}\<rparr>,
      ps_fds := (ps_fds st)[fd := None], ps_file := F, ps_pipe := flushed broken e buf (ps_pipe st)\<rparr>) \<and>
    (\<forall>g. g \<noteq> f \<longrightarrow> F g = ps_file st g) \<and> F f = None \<and> (ok \<longleftrightarrow> buf = [] \<or> (\<forall>p. e = Wr p \<longrightarrow> \<not> broken p))"
proof -
  have get: "get_file f st = Inr (fd, buf)" using assms(1, 2) by (simp add: get_file_def)
  have free: "c_free f (ps_mem st) = Inr ((ps_mem st)\<lparr>live := live (ps_mem st) - {f}\<rparr>)" using assms(2, 3) by (simp add: c_free_def)
  have close: "sys_close fd st = (True, st\<lparr>ps_fds := (ps_fds st)[fd := None]\<rparr>)" using assms(4, 5) by (simp add: sys_close_def)
  consider "buf = []" | p where "e = Wr p" "buf \<noteq> []" using assms(6, 7) by (cases e) auto
  then show ?thesis
  proof cases
    case 1
    have "flushed broken e buf (ps_pipe st) = ps_pipe st" using 1 by (simp add: flushed_def fun_upd_idem split: pend.split)
    then have "c_fclose broken f st = Inr (True, st\<lparr>ps_mem := (ps_mem st)\<lparr>live := live (ps_mem st) - {f}\<rparr>,
        ps_fds := (ps_fds st)[fd := None], ps_file := (ps_file st)(f := None), ps_pipe := flushed broken e buf (ps_pipe st)\<rparr>)"
      using 1 get free close by (simp add: c_fclose_def c_fflush_def)
    then show ?thesis using 1 by (intro exI [of _ True] exI [of _ "(ps_file st)(f := None)"]) simp
  next
    case (2 p)
    show ?thesis
    proof (cases "broken p")
      case True
      then have "c_fclose broken f st = Inr (False, st\<lparr>ps_mem := (ps_mem st)\<lparr>live := live (ps_mem st) - {f}\<rparr>,
          ps_fds := (ps_fds st)[fd := None], ps_file := (ps_file st)(f := None), ps_pipe := flushed broken e buf (ps_pipe st)\<rparr>)"
        using 2 get free close assms(4, 5) by (simp add: c_fclose_def c_fflush_def flushed_def)
      then show ?thesis using 2 True by (intro exI [of _ False] exI [of _ "(ps_file st)(f := None)"]) simp
    next
      case False
      let ?st = "st\<lparr>ps_file := (ps_file st)(f \<mapsto> (fd, [])), ps_pipe := (ps_pipe st)(p := ps_pipe st p @ buf)\<rparr>"
      have "c_fflush broken f st = Inr (True, ?st)" using 2 False get assms(4, 5) by (simp add: c_fflush_def)
      moreover have "get_file f ?st = Inr (fd, [])" using assms(2) by (simp add: get_file_def)
      moreover have "sys_close fd ?st = (True, ?st\<lparr>ps_fds := (ps_fds st)[fd := None]\<rparr>)" using assms(4, 5) by (simp add: sys_close_def)
      ultimately have "c_fclose broken f st = Inr (True, st\<lparr>ps_mem := (ps_mem st)\<lparr>live := live (ps_mem st) - {f}\<rparr>,
          ps_fds := (ps_fds st)[fd := None], ps_file := (ps_file st)(f := None), ps_pipe := flushed broken e buf (ps_pipe st)\<rparr>)"
        using 2 False free by (simp add: c_fclose_def flushed_def)
      then show ?thesis using 2 False by (intro exI [of _ True] exI [of _ "(ps_file st)(f := None)"]) simp
    qed
  qed
qed

section \<open>The child\<close>

definition buf_of :: "proc \<Rightarrow> entry \<Rightarrow> string" where
  "buf_of st x = snd (the (ps_file st (stream_of x)))"

definition flush_all :: "(nat \<Rightarrow> bool) \<Rightarrow> proc \<Rightarrow> entry list \<Rightarrow> (nat \<Rightarrow> string) \<Rightarrow> (nat \<Rightarrow> string)" where
  "flush_all broken st xs pipe = foldl (\<lambda>pipe x. flushed broken (end_of x) (buf_of st x) pipe) pipe xs"

lemma flush_all_other: "(\<forall>x \<in> set xs. end_of x \<noteq> Wr p) \<Longrightarrow> flush_all broken st xs pipe p = pipe p"
  by (induction xs arbitrary: pipe) (auto simp: flush_all_def flushed_def split: pend.splits)

lemma flush_all_hit:
  assumes "distinct (map (\<lambda>x. pipe_of (end_of x)) xs)" and "x \<in> set xs" and "end_of x = Wr p" and "\<not> broken p"
  shows "flush_all broken st xs pipe p = pipe p @ buf_of st x"
  using assms(1, 2)
proof (induction xs arbitrary: pipe)
  case (Cons y ys)
  have step: "flush_all broken st (y # ys) pipe = flush_all broken st ys (flushed broken (end_of y) (buf_of st y) pipe)"
    by (simp add: flush_all_def)
  show ?case
  proof (cases "y = x")
    case True
    have "\<forall>z \<in> set ys. end_of z \<noteq> Wr p" using Cons.prems(1) True assms(3) by (auto simp: image_iff)
    then show ?thesis unfolding step using flush_all_other [of ys p] True assms(3, 4) by (simp add: flushed_def)
  next
    case False
    then have "x \<in> set ys" using Cons.prems(2) by simp
    moreover have "end_of y \<noteq> Wr p" using Cons.prems(1) \<open>x \<in> set ys\<close> assms(3) by (auto simp: image_iff)
    ultimately show ?thesis unfolding step using Cons by (auto simp: flushed_def split: pend.split)
  qed
qed simp

lemma node_get_live [simp]: "node_get p (s\<lparr>live := L\<rparr>) = node_get p s"
  by (simp add: node_get_def)

lemma chain_less_live:
  assumes "chain s xs" and "f \<notin> addrs xs"
  shows "chain (s\<lparr>live := live s - {f}\<rparr>) xs"
  using assms by (auto simp: chain_def mem_ok_def)

definition closing :: "(nat \<Rightarrow> bool) \<Rightarrow> proc \<Rightarrow> entry list \<Rightarrow> nat \<Rightarrow> proc \<Rightarrow> bool" where
  "closing broken st xs i t \<longleftrightarrow> chain (ps_mem t) (cells (map node_of xs)) \<and> length (ps_fds t) = length (ps_fds st) \<and>
     (\<forall>k < length (ps_fds st). ps_fds t ! k = (if k \<in> fd_of ` set (take i xs) then None else ps_fds st ! k)) \<and>
     (\<forall>x \<in> set (drop i xs). ps_file t (stream_of x) = ps_file st (stream_of x) \<and> stream_of x \<in> live (ps_mem t)) \<and>
     ps_pipe t = flush_all broken st (take i xs) (ps_pipe st)"

lemma closing_step:
  assumes "streams_ok st xs" and "closing broken st xs i t" and "i < length xs"
  shows "\<exists>ok t'. c_fclose broken (stream_of (xs ! i)) t = Inr (ok, t') \<and> closing broken st xs (Suc i) t' \<and>
    (\<forall>p. node_get p (ps_mem t') = node_get p (ps_mem t))"
proof -
  let ?x = "xs ! i"
  note ok = streams_okD [OF assms(1)]
  have inv: "chain (ps_mem t) (cells (map node_of xs))" "length (ps_fds t) = length (ps_fds st)"
    "\<forall>k < length (ps_fds st). ps_fds t ! k = (if k \<in> fd_of ` set (take i xs) then None else ps_fds st ! k)"
    "\<forall>x \<in> set (drop i xs). ps_file t (stream_of x) = ps_file st (stream_of x) \<and> stream_of x \<in> live (ps_mem t)"
    "ps_pipe t = flush_all broken st (take i xs) (ps_pipe st)"
    using assms(2) unfolding closing_def by - (elim conjE, assumption)+
  have xs: "xs = take i xs @ ?x # drop (Suc i) xs" by (rule id_take_nth_drop [OF assms(3)])
  have x: "?x \<in> set xs" "?x \<in> set (drop i xs)" using assms(3) by (auto simp: Cons_nth_drop_Suc [symmetric])
  have op: "open_entry st ?x" using ok(4) x(1) by blast
  then obtain buf where f: "ps_file st (stream_of ?x) = Some (fd_of ?x, buf)" "end_of ?x \<noteq> Tty" "\<forall>p. end_of ?x = Rd p \<longrightarrow> buf = []"
    "fd_of ?x < length (ps_fds st)" "ps_fds st ! fd_of ?x = Some (end_of ?x)" "stream_of ?x \<noteq> NULL"
    unfolding open_entry_def by blast
  have dfd: "distinct (map fd_of (take i xs @ ?x # drop (Suc i) xs))" using ok(6) xs by simp
  then have nfd: "fd_of ?x \<notin> fd_of ` set (take i xs)" by (simp add: image_iff)
  have ft: "ps_file t (stream_of ?x) = Some (fd_of ?x, buf)" "stream_of ?x \<in> live (ps_mem t)" using inv(4) x(2) f(1) by auto
  have fdt: "fd_of ?x < length (ps_fds t)" "ps_fds t ! fd_of ?x = Some (end_of ?x)" using inv(2, 3) f(4, 5) nfd by auto
  obtain b F where c: "c_fclose broken (stream_of ?x) t = Inr (b, t\<lparr>ps_mem := (ps_mem t)\<lparr>live := live (ps_mem t) - {stream_of ?x}\<rparr>,
      ps_fds := (ps_fds t)[fd_of ?x := None], ps_file := F, ps_pipe := flushed broken (end_of ?x) buf (ps_pipe t)\<rparr>)"
    "\<forall>g. g \<noteq> stream_of ?x \<longrightarrow> F g = ps_file t g"
    using c_fclose_ok [OF ft(1) f(6) ft(2) fdt f(2, 3)] by blast
  let ?t = "t\<lparr>ps_mem := (ps_mem t)\<lparr>live := live (ps_mem t) - {stream_of ?x}\<rparr>,
      ps_fds := (ps_fds t)[fd_of ?x := None], ps_file := F, ps_pipe := flushed broken (end_of ?x) buf (ps_pipe t)\<rparr>"
  have take: "take (Suc i) xs = take i xs @ [?x]" by (rule take_Suc_conv_app_nth [OF assms(3)])
  have "stream_of ?x \<in> stream_of ` set xs" using x(1) by blast
  then have "stream_of ?x \<notin> addrs (cells (map node_of xs))" using ok(9) by (auto simp: image_image)
  then have "chain (ps_mem ?t) (cells (map node_of xs))" using chain_less_live [OF inv(1)] by simp
  moreover have "\<forall>k < length (ps_fds st). ps_fds ?t ! k = (if k \<in> fd_of ` set (take (Suc i) xs) then None else ps_fds st ! k)"
  proof (intro allI impI)
    fix k assume "k < length (ps_fds st)"
    then show "ps_fds ?t ! k = (if k \<in> fd_of ` set (take (Suc i) xs) then None else ps_fds st ! k)"
      using inv(2, 3) unfolding take by (cases "k = fd_of ?x") simp_all
  qed
  moreover have "\<forall>y \<in> set (drop (Suc i) xs). ps_file ?t (stream_of y) = ps_file st (stream_of y) \<and> stream_of y \<in> live (ps_mem ?t)"
  proof
    fix y assume y: "y \<in> set (drop (Suc i) xs)"
    have "distinct (map stream_of (take i xs @ ?x # drop (Suc i) xs))" using ok(5) xs by simp
    then have "stream_of y \<noteq> stream_of ?x" using y by (metis distinct.simps(2) distinct_append image_eqI list.simps(9) list.set_map map_append)
    moreover have "y \<in> set (drop i xs)" using y assms(3) by (simp add: Cons_nth_drop_Suc [symmetric])
    ultimately show "ps_file ?t (stream_of y) = ps_file st (stream_of y) \<and> stream_of y \<in> live (ps_mem ?t)" using inv(4) c(2) by simp
  qed
  moreover have "ps_pipe ?t = flush_all broken st (take (Suc i) xs) (ps_pipe st)"
    unfolding take using inv(5) f(1) by (simp add: flush_all_def buf_of_def)
  ultimately have "closing broken st xs (Suc i) ?t" using inv(2) by (simp add: closing_def)
  then show ?thesis using c(1) by (intro exI [of _ b] exI [of _ ?t]) simp
qed

lemma close_streams_ok:
  assumes "streams_ok st xs"
  shows "\<exists>t. close_streams broken st = Inr t \<and> closing broken st xs (length xs) t"
proof -
  note ok = streams_okD [OF assms]
  let ?cs = "cells (map node_of xs)"
  let ?body = "\<lambda>(np, st). rbind (node_get np (ps_mem st)) (\<lambda>n.
    rbind (c_fclose broken (sn_stream (sn_fields n)) st) (\<lambda>(ok, st1). rbind (node_get np (ps_mem st1)) (\<lambda>n1. Inr (lnext n1, st1))))"
  have "\<exists>t. cwhile (\<lambda>st. fst st \<noteq> NULL) ?body (first_of ?cs NULL, st) = Inr (NULL, t) \<and> closing broken st xs (length ?cs) t"
  proof (rule cwhile_walk)
    show "NULL \<notin> addrs ?cs" by (rule chainD(3) [OF ok(1)])
    show "closing broken st xs 0 st" using ok(1, 4) by (auto simp: closing_def flush_all_def open_entry_def)
    fix i t assume i: "i < length ?cs" and t: "closing broken st xs i t"
    obtain p v fd e where x: "xs ! i = (p, v, fd, e)" by (metis surj_pair)
    have "xs = take i xs @ (p, v, fd, e) # drop (Suc i) xs" using id_take_nth_drop [of i xs] i x by simp
    from arg_cong [OF this, of "\<lambda>xs. cells (map node_of xs)"]
    have "?cs = cells (map node_of (take i xs)) @ (p, Some v) # cells (map node_of (drop (Suc i) xs))" by simp
    moreover have ch: "chain (ps_mem t) ?cs" using t by (simp add: closing_def)
    ultimately have "node_get p (ps_mem t) = Inr \<lparr>lnext = first_of (cells (map node_of (drop (Suc i) xs))) NULL,
        lprev = last_of NULL (cells (map node_of (take i xs))), lval = Some v\<rparr>"
      by (intro chain_node) metis
    moreover have "cells (map node_of (drop (Suc i) xs)) = drop (Suc i) ?cs" by (simp add: drop_map)
    ultimately have n: "node_get p (ps_mem t) = Inr \<lparr>lnext = first_of (drop (Suc i) ?cs) NULL,
        lprev = last_of NULL (cells (map node_of (take i xs))), lval = Some v\<rparr>" by metis
    obtain b t' where c: "c_fclose broken (stream_of (xs ! i)) t = Inr (b, t')" "closing broken st xs (Suc i) t'"
      "node_get p (ps_mem t') = node_get p (ps_mem t)"
      using closing_step [OF assms t] i by auto
    have p: "fst (?cs ! i) = p" using i x by simp
    have s: "stream_of (xs ! i) = sn_stream v" using x by simp
    show "\<exists>t'. ?body (fst (?cs ! i), t) = Inr (first_of (drop (Suc i) ?cs) NULL, t') \<and> closing broken st xs (Suc i) t'"
      unfolding p using c n s by (intro exI [of _ t']) (simp add: sn_fields_def)
  qed
  then show ?thesis using ok(2) by (auto simp: close_streams_def)
qed

section \<open>Making a stream\<close>

text \<open>Two descriptors are free and none of them is a standard one.\<close>

definition room :: "pend option list \<Rightarrow> bool" where
  "room fds \<longleftrightarrow> (\<exists>a b. a \<noteq> b \<and> a < length fds \<and> b < length fds \<and> fds ! a = None \<and> fds ! b = None) \<and>
     3 \<le> length fds \<and> (\<forall>k < 3. fds ! k \<noteq> None)"

lemma first_free_ok:
  assumes "a < length fds" and "fds ! a = None"
  shows "first_free fds < length fds" and "fds ! first_free fds = None"
proof -
  have "first_free fds \<noteq> length fds"
    unfolding first_free_def using assms first_hit_none [of "\<lambda>x. x = None" fds] nth_mem by fastforce
  then show "first_free fds < length fds" using first_hit_le [of "\<lambda>x. x = None" fds] by (simp add: first_free_def)
  then show "fds ! first_free fds = None" using first_hit_nth [of "\<lambda>x. x = None" fds] by (simp add: first_free_def)
qed

lemma sys_pipe_ok:
  assumes "room (ps_fds st)"
  shows "\<exists>i j. sys_pipe st = Some ((i, j), st\<lparr>ps_fds := (ps_fds st)[i := Some (Rd (ps_pipes st)), j := Some (Wr (ps_pipes st))],
      ps_pipes := Suc (ps_pipes st)\<rparr>) \<and> i \<noteq> j \<and> i < length (ps_fds st) \<and> j < length (ps_fds st) \<and>
    ps_fds st ! i = None \<and> ps_fds st ! j = None \<and> 2 < i \<and> 2 < j"
proof -
  let ?fds = "ps_fds st"
  obtain a b where ab: "a \<noteq> b" "a < length ?fds" "b < length ?fds" "?fds ! a = None" "?fds ! b = None" and std: "\<forall>k < 3. ?fds ! k \<noteq> None"
    using assms by (auto simp: room_def)
  define i where "i = first_free ?fds"
  define fds1 where "fds1 = ?fds[i := Some (Rd (ps_pipes st))]"
  define j where "j = first_free fds1"
  have i: "i < length ?fds" "?fds ! i = None" using first_free_ok [OF ab(2, 4)] by (simp_all add: i_def)
  obtain c where c: "c \<noteq> i" "c < length ?fds" "?fds ! c = None" using ab by metis
  have j: "j < length fds1" "fds1 ! j = None" using first_free_ok [of c fds1] c by (simp_all add: fds1_def j_def)
  then have ij: "i \<noteq> j" using i(1) by (auto simp: fds1_def)
  then have "?fds ! j = None" using j by (simp add: fds1_def)
  moreover have "2 < k" if "?fds ! k = None" for k
  proof (rule ccontr)
    assume "\<not> 2 < k"
    then have "k < 3" by simp
    then show False using std that by blast
  qed
  moreover have "sys_pipe st = Some ((i, j), st\<lparr>ps_fds := fds1[j := Some (Wr (ps_pipes st))], ps_pipes := Suc (ps_pipes st)\<rparr>)"
  proof -
    have "j < length ?fds" using j(1) by (simp add: fds1_def)
    then show ?thesis using i(1) j(1) unfolding sys_pipe_def Let_def by (simp flip: i_def fds1_def j_def)
  qed
  ultimately show ?thesis using i ij j(1) by (auto simp: fds1_def)
qed

lemma streams_ok_cong:
  assumes "streams_ok st xs" and "ps_mem t = ps_mem st" "ps_base t = ps_base st" "ps_count t = ps_count st" "ps_file t = ps_file st"
    and "length (ps_fds t) = length (ps_fds st)" and "\<forall>x \<in> set xs. ps_fds t ! fd_of x = ps_fds st ! fd_of x" and "ps_pipes st \<le> ps_pipes t"
  shows "streams_ok t xs"
proof -
  note ok = streams_okD [OF assms(1)]
  have "\<forall>x \<in> set xs. open_entry t x" using ok(4) assms(2, 5-7) by (simp add: open_entry_def)
  moreover have "\<forall>x \<in> set xs. \<forall>p. pipe_of (end_of x) = Some p \<longrightarrow> p < ps_pipes t" using ok(8) assms(8) by (meson less_le_trans)
  ultimately show ?thesis using ok(1-3, 5-7, 9, 10) assms(2-4) unfolding streams_ok_def by metis
qed

lemma flush_all_cong: "ps_file t = ps_file st \<Longrightarrow> flush_all broken t xs pipe = flush_all broken st xs pipe"
  by (simp add: flush_all_def buf_of_def)

lemma entry_open: "streams_ok st xs \<Longrightarrow> x \<in> set xs \<Longrightarrow> 2 < fd_of x \<and> fd_of x < length (ps_fds st) \<and> ps_fds st ! fd_of x \<noteq> None"
  using streams_okD(4) by (fastforce simp: open_entry_def)

text \<open>The child of a new pipe between the descriptors \<open>i\<close> and \<open>j\<close>.\<close>

lemma popen_child_ok:
  assumes "streams_ok st xs" and "fds = (i, j)" and "rw = 0 \<and> mine = j \<and> other = i \<and> std = 1 \<or> rw = 1 \<and> mine = i \<and> other = j \<and> std = 0"
    and "i \<noteq> j" "2 < i" "2 < j" "i < length (ps_fds st)" "j < length (ps_fds st)" "ps_fds st ! i \<noteq> None" "ps_fds st ! j \<noteq> None"
    and "\<forall>x \<in> set xs. fd_of x \<noteq> i \<and> fd_of x \<noteq> j"
  shows "\<exists>tab stc. popen_child broken rw fds cmd st = Inr (Execs cmd tab, stc) \<and> tab ! std = ps_fds st ! mine \<and>
    (\<forall>x \<in> set xs. tab ! fd_of x = None) \<and> ps_pipe stc = flush_all broken st xs (ps_pipe st)"
proof -
  have mo: "mine \<noteq> other" "other < length (ps_fds st)" "mine < length (ps_fds st)" "ps_fds st ! other \<noteq> None" "ps_fds st ! mine \<noteq> None"
    "std < 2" "2 < other" "2 < mine" using assms(3-10) by auto
  let ?st1 = "st\<lparr>ps_fds := (ps_fds st)[other := None]\<rparr>"
  let ?st2 = "?st1\<lparr>ps_fds := (ps_fds ?st1)[std := ps_fds ?st1 ! mine]\<rparr>"
  have c: "sys_close other st = (True, ?st1)" using mo by (simp add: sys_close_def)
  have d: "sys_dup2 mine std ?st1 = (True, ?st2)" using mo by (simp add: sys_dup2_def)
  have other: "\<forall>x \<in> set xs. fd_of x \<noteq> other \<and> fd_of x \<noteq> std"
    using assms(3, 11) entry_open [OF assms(1)] by (metis less_numeral_extra(3) not_less_iff_gr_or_eq numeral_2_eq_2 Suc_1 less_trans mo(6) nat_neq_iff)
  have ok2: "streams_ok ?st2 xs"
    by (rule streams_ok_cong [OF assms(1)]) (use other in auto)
  obtain t where t: "close_streams broken ?st2 = Inr t" "closing broken ?st2 xs (length xs) t" using close_streams_ok [OF ok2] by blast
  have tf: "\<forall>k < length (ps_fds ?st2). ps_fds t ! k = (if k \<in> fd_of ` set xs then None else ps_fds ?st2 ! k)"
    "ps_pipe t = flush_all broken ?st2 xs (ps_pipe ?st2)" using t(2) unfolding closing_def by simp_all
  have std: "std \<notin> fd_of ` set xs" "std < length (ps_fds ?st2)" using other mo by auto
  have "ps_fds t ! std = ps_fds ?st2 ! std" using tf(1) std by simp
  then have 1: "ps_fds t ! std = ps_fds st ! mine" using mo std(2) by simp
  have 2: "\<forall>x \<in> set xs. ps_fds t ! fd_of x = None" using tf(1) entry_open [OF ok2] by auto
  have "popen_child broken rw fds cmd st = Inr (Execs cmd (ps_fds t), t)"
    using assms(3) c d t(1) unfolding assms(2) by (auto simp: popen_child_def Let_def)
  moreover have "ps_pipe t = flush_all broken st xs (ps_pipe st)" using tf(2) flush_all_cong [of ?st2 st] by simp
  ultimately show ?thesis using 1 2 by blast
qed

lemma add_popen_node_ok:
  assumes "chain (ps_mem st) (cells ns)" and "ps_base st = first_of (cells ns) NULL" and "\<not> fails (ps_mem st) (calls (ps_mem st))"
    and "0 \<le> ps_count st" and "ps_count st + 1 \<le> INT_MAX"
  shows "\<exists>N. add_popen_node pid f st = Inr (st\<lparr>ps_mem := (new_node_mem (ps_mem st) None)\<lparr>lnodes := N\<rparr>,
      ps_base := first_of (cells (ns @ [(Suc (calls (ps_mem st)), \<lparr>sn_stream = f, sn_fd = 0, sn_pid = pid\<rparr>)])) NULL,
      ps_count := ps_count st + 1\<rparr>) \<and>
    chain ((new_node_mem (ps_mem st) None)\<lparr>lnodes := N\<rparr>) (cells (ns @ [(Suc (calls (ps_mem st)), \<lparr>sn_stream = f, sn_fd = 0, sn_pid = pid\<rparr>)]))"
proof -
  let ?s = "ps_mem st" and ?v = "\<lparr>sn_stream = f, sn_fd = 0, sn_pid = pid\<rparr>"
  let ?p = "Suc (calls ?s)"
  let ?m = "new_node_mem ?s (Some ?v)"
  note new = chain_alloc [OF assms(1, 3)]
  have u1: "node_upd ?p (\<lambda>n. n\<lparr>lval := Some (sn_fields n\<lparr>sn_pid := pid\<rparr>)\<rparr>) (new_node_mem ?s None)
      = Inr (new_node_mem ?s (Some \<lparr>sn_stream = NULL, sn_fd = 0, sn_pid = pid\<rparr>))"
    by (simp add: node_upd_def node_get_def sn_fields_def)
  have u2: "node_upd ?p (\<lambda>n. n\<lparr>lval := Some (sn_fields n\<lparr>sn_stream := f\<rparr>)\<rparr>) (new_node_mem ?s (Some \<lparr>sn_stream = NULL, sn_fd = 0, sn_pid = pid\<rparr>))
      = Inr ?m"
    by (simp add: node_upd_def node_get_def sn_fields_def)
  have cnt: "c_add (ps_count st) 1 = Inr (ps_count st + 1)" using assms(4, 5) by (intro c_add_ok) (auto simp: INT_MIN_def)
  have chm: "chain ?m (cells ns)" by (rule new(2))
  show ?thesis
  proof (cases "ns = []")
    case True
    have "chain ?m (cells [(?p, ?v)])" using new(5) [of "Some ?v"] by (simp add: chain_def)
    then show ?thesis using True assms(2) new(1) u1 u2 cnt
      by (intro exI [of _ "lnodes ?m"]) (simp add: add_popen_node_def)
  next
    case False
    obtain p v ns' where ns: "ns = (p, v) # ns'" using False by (cases ns) auto
    have fw: "forward_node (ps_base st) ?m = Inr (last_of NULL (cells ns))"
      using forward_node_ok [of ?m "[]" p "Some v" "cells ns'"] chm ns assms(2) by simp
    have ne: "cells ns \<noteq> []" "ps_base st \<noteq> NULL" using ns assms(2) chainD(3) [OF assms(1)] by auto
    obtain N where N: "rbind (node_upd (last_of NULL (cells ns)) (\<lambda>m. m\<lparr>lnext := ?p\<rparr>) ?m) (node_upd ?p (\<lambda>m. m\<lparr>lprev := last_of NULL (cells ns)\<rparr>))
        = Inr (?m\<lparr>lnodes := N\<rparr>)" "chain (?m\<lparr>lnodes := N\<rparr>) (cells ns @ [(?p, Some ?v)])"
      using chain_link [OF chm ne(1) new(3), of NULL "Some ?v"] by auto
    have "rbind (node_upd (last_of NULL (cells ns)) (\<lambda>n. n\<lparr>lnext := ?p\<rparr>) ?m)
        (\<lambda>m3. rbind (node_upd ?p (\<lambda>n. n\<lparr>lprev := last_of NULL (cells ns)\<rparr>) m3) (\<lambda>m4. Inr (ps_base st, m4))) = Inr (ps_base st, ?m\<lparr>lnodes := N\<rparr>)"
      using N(1) by (auto simp: rbind_eq_Inr)
    then have "add_popen_node pid f st = Inr (st\<lparr>ps_mem := ?m\<lparr>lnodes := N\<rparr>, ps_count := ps_count st + 1\<rparr>)"
      using new(1) u1 u2 fw ne cnt by (simp add: add_popen_node_def)
    moreover have "ps_base st = first_of (cells (ns @ [(?p, ?v)])) NULL" using assms(2) ns by simp
    moreover have "?m\<lparr>lnodes := N\<rparr> = (new_node_mem ?s None)\<lparr>lnodes := N\<rparr>" by simp
    ultimately show ?thesis using N(2) by (intro exI [of _ N]) simp
  qed
qed

text \<open>What \<^verbatim>\<open>popen2\<close> does with a pipe it has made.\<close>

lemma popen2_ok:
  assumes "streams_ok st xs" and "room (ps_fds st)" and "ample (ps_mem st)" and "int (length xs) + 1 \<le> INT_MAX"
    and "cmd \<noteq> []" and "forked \<noteq> -1" and "t = ''r'' \<or> t = ''w''"
  shows "\<exists>f p fd e tab st1. popen2 broken forked (Some cmd) (Some t) st = Inr (f, st1) \<and>
    streams_ok st1 (xs @ [(p, \<lparr>sn_stream = f, sn_fd = 0, sn_pid = forked\<rparr>, fd, e)]) \<and> f \<noteq> NULL \<and>
    ps_file st1 = (ps_file st)(f \<mapsto> (fd, [])) \<and> f \<notin> stream_of ` set xs \<and> ps_pipe st1 = flush_all broken st xs (ps_pipe st) \<and>
    ps_children st1 = ps_children st @ [(forked, Execs cmd tab)] \<and> ps_fds st1 = (ps_fds st)[fd := Some e] \<and>
    fd < length (ps_fds st) \<and> ps_fds st ! fd = None \<and>
    (if t = ''r'' then e = Rd (ps_pipes st) \<and> tab ! 1 = Some (Wr (ps_pipes st)) else e = Wr (ps_pipes st) \<and> tab ! 0 = Some (Rd (ps_pipes st))) \<and>
    (\<forall>x \<in> set xs. tab ! fd_of x = None) \<and> live (ps_mem st1) = live (ps_mem st) \<union> {f, p} \<and> f \<notin> live (ps_mem st) \<and>
    p \<notin> live (ps_mem st)"
proof -
  note ok = streams_okD [OF assms(1)]
  let ?n = "ps_pipes st"
  let ?m = "ps_mem st"
  obtain i j where ij: "sys_pipe st = Some ((i, j), st\<lparr>ps_fds := (ps_fds st)[i := Some (Rd ?n), j := Some (Wr ?n)], ps_pipes := Suc ?n\<rparr>)"
    "i \<noteq> j" "i < length (ps_fds st)" "j < length (ps_fds st)" "ps_fds st ! i = None" "ps_fds st ! j = None" "2 < i" "2 < j"
    using sys_pipe_ok [OF assms(2)] by (elim exE conjE) (rule that)
  let ?st1 = "st\<lparr>ps_fds := (ps_fds st)[i := Some (Rd ?n), j := Some (Wr ?n)], ps_pipes := Suc ?n\<rparr>"
  define rw :: nat where "rw = (if t = ''r'' then 0 else 1)"
  define mine other std where "mine = (if rw = 0 then i else j)" and "other = (if rw = 0 then j else i)" and "std = (if rw = 0 then 1 else 0 :: nat)"
  define e where "e = (if rw = 0 then Rd ?n else Wr ?n)"
  have away: "\<forall>x \<in> set xs. fd_of x \<noteq> i \<and> fd_of x \<noteq> j" using entry_open [OF assms(1)] ij(5, 6) by metis
  have ok1: "streams_ok ?st1 xs" by (rule streams_ok_cong [OF assms(1)]) (use away in auto)
  have child: "\<exists>tab stc. popen_child broken rw (i, j) cmd ?st1 = Inr (Execs cmd tab, stc) \<and> tab ! std = ps_fds ?st1 ! other \<and>
      (\<forall>x \<in> set xs. tab ! fd_of x = None) \<and> ps_pipe stc = flush_all broken ?st1 xs (ps_pipe ?st1)"
    by (rule popen_child_ok [OF ok1 refl, where other = mine]) (use ij away in \<open>auto simp: rw_def mine_def other_def std_def\<close>)
  then obtain tab stc where ch: "popen_child broken rw (i, j) cmd ?st1 = Inr (Execs cmd tab, stc)" "tab ! std = ps_fds ?st1 ! other"
    "\<forall>x \<in> set xs. tab ! fd_of x = None" "ps_pipe stc = flush_all broken ?st1 xs (ps_pipe ?st1)" by blast
  have pipe: "ps_pipe stc = flush_all broken st xs (ps_pipe st)" using ch(4) flush_all_cong [of ?st1 st] by simp
  let ?f = "Suc (calls ?m)"
  let ?p = "Suc ?f"
  let ?mf = "?m\<lparr>calls := ?f, live := insert ?f (live ?m)\<rparr>"
  let ?st4 = "?st1\<lparr>ps_pipe := ps_pipe stc, ps_children := ps_children st @ [(forked, Execs cmd tab)],
    ps_fds := (ps_fds ?st1)[other := None], ps_mem := ?mf, ps_file := (ps_file st)(?f \<mapsto> (mine, []))\<rparr>"
  have fresh: "?f \<notin> live ?m" "?p \<notin> live ?m" using chainD(5) [OF ok(1)] by (auto simp: mem_ok_def)
  have mmf: "mem_ok ?mf" using chainD(5) [OF ok(1)] by (auto simp: mem_ok_def)
  have chf: "chain (ps_mem ?st4) (cells (map node_of xs))"
    by (rule chain_cong [OF ok(1)]) (use mmf chainD(4) [OF ok(1)] in auto)
  have cnt: "0 \<le> ps_count ?st4" "ps_count ?st4 + 1 \<le> INT_MAX" using ok(3) assms(4) by auto
  have nf: "\<not> fails (ps_mem ?st4) (calls (ps_mem ?st4))" using assms(3) by (simp add: ample_def)
  have base4: "ps_base ?st4 = first_of (cells (map node_of xs)) NULL" using ok(2) by simp
  let ?v = "\<lparr>sn_stream = ?f, sn_fd = 0, sn_pid = forked\<rparr>"
  obtain N where N: "add_popen_node forked ?f ?st4 = Inr (?st4\<lparr>ps_mem := (new_node_mem ?mf None)\<lparr>lnodes := N\<rparr>,
      ps_base := first_of (cells (map node_of xs @ [(?p, ?v)])) NULL, ps_count := ps_count st + 1\<rparr>)"
    "chain ((new_node_mem ?mf None)\<lparr>lnodes := N\<rparr>) (cells (map node_of xs @ [(?p, ?v)]))"
    using add_popen_node_ok [OF chf base4 nf cnt, of forked ?f] by auto
  let ?st5 = "?st4\<lparr>ps_mem := (new_node_mem ?mf None)\<lparr>lnodes := N\<rparr>,
      ps_base := first_of (cells (map node_of xs @ [(?p, ?v)])) NULL, ps_count := ps_count st + 1\<rparr>"
  have close: "sys_close other (?st1\<lparr>ps_pipe := ps_pipe stc, ps_children := ps_children st @ [(forked, Execs cmd tab)]\<rparr>)
      = (True, ?st1\<lparr>ps_pipe := ps_pipe stc, ps_children := ps_children st @ [(forked, Execs cmd tab)], ps_fds := (ps_fds ?st1)[other := None]\<rparr>)"
    using ij(2-4) by (auto simp: sys_close_def other_def)
  have run: "popen2 broken forked (Some cmd) (Some t) st = Inr (?f, ?st5)"
    using assms(3, 5-7) ij(1) ch(1) close N(1)
    by (auto simp: popen2_def rw_def mine_def other_def c_fdopen_def c_alloc_def)
  have same: "(ps_fds st)[k := None] = ps_fds st" if "ps_fds st ! k = None" for k using that by (metis list_update_id)
  have fds: "ps_fds ?st5 = (ps_fds st)[mine := Some e]"
    using ij by (auto simp: mine_def other_def e_def list_update_swap same)
  have mine: "mine < length (ps_fds st)" "ps_fds st ! mine = None" "2 < mine" using ij by (auto simp: mine_def)
  have fstr: "?f \<notin> stream_of ` set xs" using ok(4) fresh(1) unfolding open_entry_def by (metis image_iff)
  have out: "?p \<notin> fst ` node_of ` set xs" "?f \<notin> fst ` node_of ` set xs" "?p \<notin> stream_of ` set xs"
  proof -
    have "fst ` node_of ` set xs \<subseteq> live ?m" using chainD(4) [OF ok(1)] unfolding node_addrs .
    then show "?p \<notin> fst ` node_of ` set xs" "?f \<notin> fst ` node_of ` set xs" using fresh by blast+
    show "?p \<notin> stream_of ` set xs" using ok(4) fresh(2) unfolding open_entry_def by (metis image_iff)
  qed
  let ?x = "(?p, ?v, mine, e)"
  have pe: "pipe_of e = Some ?n" by (simp add: e_def)
  have "streams_ok ?st5 (xs @ [?x])"
    unfolding streams_ok_def
  proof (intro conjI)
    show "\<forall>y \<in> set (xs @ [?x]). open_entry ?st5 y"
    proof
      fix y assume y: "y \<in> set (xs @ [?x])"
      show "open_entry ?st5 y"
      proof (cases "y = ?x")
        case True
        show ?thesis unfolding True open_entry_def fds using mine by (simp add: e_def)
      next
        case False
        then have y: "y \<in> set xs" "open_entry st y" using y ok(4) by auto
        have "fd_of y \<noteq> mine" using entry_open [OF assms(1) y(1)] mine(2) by auto
        moreover have "stream_of y \<noteq> ?f" using fstr imageI [OF y(1), of stream_of] by metis
        ultimately have "fd_of y \<noteq> mine" "stream_of y \<noteq> ?f" by blast+
        then show ?thesis using y(2) unfolding open_entry_def fds by simp
      qed
    qed
    have "mine \<notin> fd_of ` set xs" using entry_open [OF assms(1)] mine(2) by (metis imageE)
    then show "distinct (map fd_of (xs @ [?x]))" using ok(6) by simp
    show "distinct (map (\<lambda>x. pipe_of (end_of x)) (xs @ [?x]))" 
    proof -
      have "\<forall>x \<in> set xs. pipe_of (end_of x) \<noteq> Some ?n" using ok(8) by (metis less_irrefl)
      then have "Some ?n \<notin> (\<lambda>x. pipe_of (end_of x)) ` set xs" by (metis imageE)
      then show ?thesis using ok(7) pe by simp
    qed
    show "\<forall>x \<in> set (xs @ [?x]). \<forall>p. pipe_of (end_of x) = Some p \<longrightarrow> p < ps_pipes ?st5" using ok(8) pe by auto
    show "stream_of ` set (xs @ [?x]) \<inter> fst ` node_of ` set (xs @ [?x]) = {}" using ok(9) out by auto
  qed (use ok N(2) assms(4) fstr in \<open>simp_all\<close>)
  then have ok5: "streams_ok ?st5 (xs @ [?x])" .
  define s5 where "s5 = ?st5"
  have res: "popen2 broken forked (Some cmd) (Some t) st = Inr (?f, s5)" "streams_ok s5 (xs @ [?x])" "ps_fds s5 = (ps_fds st)[mine := Some e]"
    unfolding s5_def by (rule run ok5 fds)+
  have res2: "ps_file s5 = (ps_file st)(?f \<mapsto> (mine, []))" "ps_pipe s5 = flush_all broken st xs (ps_pipe st)"
    "ps_children s5 = ps_children st @ [(forked, Execs cmd tab)]" "live (ps_mem s5) = live ?m \<union> {?f, ?p}"
    unfolding s5_def using pipe by (simp_all add: insert_commute)
  have ends: "if t = ''r'' then e = Rd ?n \<and> tab ! 1 = Some (Wr ?n) else e = Wr ?n \<and> tab ! 0 = Some (Rd ?n)"
    using ch(2) ij(2-4) assms(7) by (auto simp: e_def rw_def std_def other_def)
  show ?thesis
    by (rule exI [of _ ?f], rule exI [of _ ?p], rule exI [of _ mine], rule exI [of _ e], rule exI [of _ tab], rule exI [of _ s5], intro conjI)
      (rule res res2 ends mine fstr fresh ch(3) | simp)+
qed

section \<open>Closing a stream of the list\<close>

lemma c_fflush_ok:
  assumes "ps_file st f = Some (fd, buf)" and "f \<noteq> NULL" and "fd < length (ps_fds st)"
    and "ps_fds st ! fd = Some e" and "e \<noteq> Tty" and "\<forall>p. e = Rd p \<longrightarrow> buf = []" and "buf = [] \<or> (\<forall>p. e = Wr p \<longrightarrow> \<not> broken p)"
  shows "c_fflush broken f st = Inr (True, st\<lparr>ps_file := (ps_file st)(f \<mapsto> (fd, [])), ps_pipe := flushed broken e buf (ps_pipe st)\<rparr>)"
proof (cases "buf = []")
  case True
  have "flushed broken e buf (ps_pipe st) = ps_pipe st" using True by (simp add: flushed_def fun_upd_idem split: pend.split)
  moreover have "(ps_file st)(f \<mapsto> (fd, [])) = ps_file st" using assms(1) True by (simp add: fun_upd_idem)
  ultimately show ?thesis using True assms(1, 2) by (simp add: c_fflush_def get_file_def)
next
  case False
  then obtain p where "e = Wr p" "\<not> broken p" using assms(5-7) by (cases e) auto
  then show ?thesis using False assms(1-4) by (simp add: c_fflush_def get_file_def flushed_def)
qed

lemma unlink_popen_node_ok:
  assumes "chain (ps_mem st) (cells (ns @ (p, v) # ms))" and "ps_base st = first_of (cells (ns @ (p, v) # ms)) NULL"
  shows "\<exists>N. unlink_popen_node p st = Inr (st\<lparr>ps_mem := (ps_mem st)\<lparr>lnodes := N\<rparr>, ps_base := first_of (cells (ns @ ms)) NULL\<rparr>) \<and>
    chain ((ps_mem st)\<lparr>lnodes := N\<rparr>) (cells (ns @ ms)) \<and> (\<forall>q. q \<notin> fst ` set (ns @ ms) \<longrightarrow> N q = lnodes (ps_mem st) q)"
proof -
  let ?s = "ps_mem st"
  have ch: "chain ?s (cells ns @ (p, Some v) # cells ms)" using assms(1) by simp
  obtain N1 N where N1: "(if cells ns = [] then Inr ?s else node_upd (last_of NULL (cells ns)) (\<lambda>m. m\<lparr>lnext := first_of (cells ms) NULL\<rparr>) ?s) = Inr (?s\<lparr>lnodes := N1\<rparr>)"
    and N: "(if cells ms = [] then Inr (?s\<lparr>lnodes := N1\<rparr>) else node_upd (first_of (cells ms) NULL) (\<lambda>m. m\<lparr>lprev := last_of NULL (cells ns)\<rparr>) (?s\<lparr>lnodes := N1\<rparr>))
      = Inr (?s\<lparr>lnodes := N\<rparr>)"
    and out: "chain (?s\<lparr>lnodes := N\<rparr>) (cells ns @ cells ms)" "\<forall>q. q \<notin> addrs (cells ns @ cells ms) \<longrightarrow> N q = lnodes ?s q"
    using chain_bypass [OF ch] by (elim exE conjE) (rule that)
  have n: "node_get p ?s = Inr \<lparr>lnext = first_of (cells ms) NULL, lprev = last_of NULL (cells ns), lval = Some v\<rparr>" by (rule chain_node [OF ch])
  have "addrs (cells ns @ (p, Some v) # cells ms) = addrs (cells ns) \<union> insert p (addrs (cells ms))" by (simp add: image_Un)
  then have nz: "NULL \<notin> addrs (cells ns)" "NULL \<notin> addrs (cells ms)" using chainD(3) [OF ch] by blast+
  have nz3: "p \<notin> addrs (cells ns)" by (rule chain_mid(1) [OF ch])
  have mz: "first_of (cells ms) NULL = NULL \<longleftrightarrow> ms = []" using first_of_notin [OF nz(2), of NULL] by simp
  have lz: "last_of NULL (cells ns) = NULL \<longleftrightarrow> ns = []" using last_of_notin [OF nz(1), of NULL] by simp
  have base: "p = ps_base st \<longleftrightarrow> ns = []" using assms(2) first_of_notin [OF nz3, of p] by (auto simp: eq_commute)
  have "unlink_popen_node p st = Inr (st\<lparr>ps_mem := ?s\<lparr>lnodes := N\<rparr>, ps_base := first_of (cells (ns @ ms)) NULL\<rparr>)"
  proof (cases "ns = []")
    case True
    then have s1: "?s\<lparr>lnodes := N1\<rparr> = ?s" using N1 by simp
    show ?thesis
    proof (cases "ms = []")
      case True
      then have "?s\<lparr>lnodes := N\<rparr> = ?s" using N s1 by simp
      then show ?thesis using n base mz \<open>ns = []\<close> True by (cases st) (simp add: unlink_popen_node_def)
    next
      case False
      then show ?thesis using n base mz True N s1 by (simp add: unlink_popen_node_def)
    qed
  next
    case False
    obtain q w ns' where ns: "ns = (q, w) # ns'" using False by (cases ns) auto
    have b: "st\<lparr>ps_mem := m, ps_base := first_of (cells (ns @ ms)) NULL\<rparr> = st\<lparr>ps_mem := m\<rparr>" for m
      using assms(2) ns by (cases st) simp
    show ?thesis using n base mz lz False N1 N unfolding b by (cases "ms = []") (simp_all add: unlink_popen_node_def)
  qed
  moreover have "addrs (cells ns @ cells ms) = fst ` set (ns @ ms)" by (simp add: image_Un)
  ultimately show ?thesis using out by (intro exI [of _ N]) auto
qed

lemma pclose2_ok:
  assumes "streams_ok st (xs @ (p, v, fd, e) # ys)" and "ps_file st (sn_stream v) = Some (fd, buf)" and "buf = [] \<or> (\<forall>q. e = Wr q \<longrightarrow> \<not> broken q)"
    and "wait (sn_pid v) = Some status"
  shows "\<exists>st'. pclose2 broken wait (sn_stream v) st = Inr (status, st') \<and> streams_ok st' (xs @ ys) \<and> ps_fds st' = (ps_fds st)[fd := None] \<and>
    live (ps_mem st') = live (ps_mem st) - {p, sn_stream v} \<and> ps_pipe st' = flushed broken e buf (ps_pipe st)"
proof -
  let ?x = "(p, v, fd, e)" and ?f = "sn_stream v"
  let ?zs = "xs @ ?x # ys"
  note ok = streams_okD [OF assms(1)]
  have "open_entry st ?x" using ok(4) by simp
  then have op: "e \<noteq> Tty" "\<forall>q. e = Rd q \<longrightarrow> buf = []" "fd < length (ps_fds st)" "ps_fds st ! fd = Some e" "?f \<noteq> NULL" "?f \<in> live (ps_mem st)"
    using assms(2) by (auto simp: open_entry_def)
  have ch: "chain (ps_mem st) (cells (map node_of xs @ (p, v) # map node_of ys))" using ok(1) by simp
  have n: "node_get p (ps_mem st) = Inr \<lparr>lnext = first_of (cells (map node_of ys)) NULL, lprev = last_of NULL (cells (map node_of xs)), lval = Some v\<rparr>"
    using ch by (intro chain_node) simp
  have before: "\<forall>y \<in> set xs. stream_of y \<noteq> ?f" using ok(5) by (auto simp: image_iff)
  have "List.find (\<lambda>x. sn_stream (case snd x of Some v \<Rightarrow> v | None \<Rightarrow> \<lparr>sn_stream = NULL, sn_fd = 0, sn_pid = 0\<rparr>) = ?f) (cells (map node_of ?zs)) = Some (p, Some v)"
    using before by (induction xs) (auto simp: node_of_def stream_of_def)
  then have seek: "cwhile (\<lambda>(p, hit). p \<noteq> NULL \<and> \<not> hit) (\<lambda>(p, hit). rbind (node_get p (ps_mem st)) (\<lambda>n.
      if sn_stream (sn_fields n) = ?f then Inr (p, True) else Inr (lnext n, False))) (ps_base st, False) = Inr (p, True)"
    using walk_find [OF ok(1), of "\<lambda>p v'. sn_stream (case v' of Some v \<Rightarrow> v | None \<Rightarrow> \<lparr>sn_stream = NULL, sn_fd = 0, sn_pid = 0\<rparr>) = ?f"] ok(2)
    by (simp add: sn_fields_def)
  let ?st1 = "st\<lparr>ps_file := (ps_file st)(?f \<mapsto> (fd, [])), ps_pipe := flushed broken e buf (ps_pipe st)\<rparr>"
  have fl: "c_fflush broken ?f st = Inr (True, ?st1)"
    by (rule c_fflush_ok [OF assms(2) op(5, 3, 4, 1, 2) assms(3)])
  have file1: "ps_file ?st1 ?f = Some (fd, [])" by simp
  obtain b F where cl: "c_fclose broken ?f ?st1 = Inr (b, ?st1\<lparr>ps_mem := (ps_mem ?st1)\<lparr>live := live (ps_mem ?st1) - {?f}\<rparr>,
      ps_fds := (ps_fds ?st1)[fd := None], ps_file := F, ps_pipe := flushed broken e [] (ps_pipe ?st1)\<rparr>)"
    "\<forall>g. g \<noteq> ?f \<longrightarrow> F g = ps_file ?st1 g" "b"
    using c_fclose_ok [OF file1, of e broken] op by auto
  have pipe: "flushed broken e [] (ps_pipe ?st1) = flushed broken e buf (ps_pipe st)"
    by (simp add: flushed_def fun_upd_idem split: pend.split)
  let ?m = "(ps_mem st)\<lparr>live := live (ps_mem st) - {?f}\<rparr>"
  let ?st2 = "st\<lparr>ps_mem := ?m, ps_fds := (ps_fds st)[fd := None], ps_file := F, ps_pipe := flushed broken e buf (ps_pipe st)\<rparr>"
  have cl2: "c_fclose broken ?f ?st1 = Inr (True, ?st2)" using cl pipe by simp
  have "?f \<in> stream_of ` set ?zs" by simp
  then have fout: "?f \<notin> fst ` node_of ` set ?zs" using ok(9) by blast
  then have "?f \<notin> addrs (cells (map node_of ?zs))" unfolding node_addrs .
  then have chm: "chain (ps_mem ?st2) (cells (map node_of xs @ (p, v) # map node_of ys))" using chain_less_live [OF ok(1)] by simp
  have base2: "ps_base ?st2 = first_of (cells (map node_of xs @ (p, v) # map node_of ys)) NULL" using ok(2) by simp
  obtain N where N: "unlink_popen_node p ?st2 = Inr (?st2\<lparr>ps_mem := ?m\<lparr>lnodes := N\<rparr>, ps_base := first_of (cells (map node_of xs @ map node_of ys)) NULL\<rparr>)"
    "chain (?m\<lparr>lnodes := N\<rparr>) (cells (map node_of xs @ map node_of ys))"
    using unlink_popen_node_ok [OF chm base2] by auto
  have ch3: "chain (ps_mem st) (cells (map node_of xs) @ (p, Some v) # cells (map node_of ys))" using ok(1) by simp
  have pz: "p \<noteq> NULL" "p \<in> live (ps_mem st)" by (rule chain_mid [OF ch3])+
  have "p \<in> fst ` node_of ` set ?zs" by simp
  then have pf: "p \<noteq> ?f" using fout by metis
  have pout: "p \<notin> fst ` node_of ` (set xs \<union> set ys)" using chain_mid(1, 2) [OF ch3] unfolding node_addrs by blast
  let ?st3 = "?st2\<lparr>ps_mem := ?m\<lparr>lnodes := N\<rparr>, ps_base := first_of (cells (map node_of xs @ map node_of ys)) NULL\<rparr>"
  let ?m4 = "freed {p} (?m\<lparr>lnodes := N\<rparr>)"
  have fr: "node_free p (ps_mem ?st3) = Inr ?m4" using pz pf by (simp add: node_free_freed)
  have cnt: "c_add (ps_count st) (- 1) = Inr (ps_count st - 1)" using ok(3, 10) by (simp add: c_add_def INT_MIN_def)
  let ?st4 = "?st3\<lparr>ps_mem := ?m4, ps_count := ps_count st - 1\<rparr>"
  have run: "pclose2 broken wait ?f st = Inr (status, ?st4)"
    using seek n op(5) pz(1) fl cl2 N(1) fr cnt assms(4)
    by (simp add: pclose2_def destroy_popen_node_def Let_def sn_fields_def)
  have "chain ?m4 (cells (map node_of (xs @ ys)))"
    using chain_freed [of "?m\<lparr>lnodes := N\<rparr>" "cells (map node_of (xs @ ys))" p] N(2) pout unfolding node_addrs by (simp add: image_Un)
  moreover have "open_entry ?st4 y" if y: "y \<in> set (xs @ ys)" for y
  proof -
    have o: "open_entry st y" using ok(4) y by auto
    have "fd \<notin> fd_of ` (set xs \<union> set ys)" "?f \<notin> stream_of ` (set xs \<union> set ys)" using ok(5, 6) by (simp_all add: image_Un)
    moreover have "y \<in> set xs \<union> set ys" using y by simp
    ultimately have "fd_of y \<noteq> fd" "stream_of y \<noteq> ?f" by (metis imageI)+
    moreover have "y \<in> set ?zs" using y by auto
    then have "stream_of y \<noteq> p" using ok(9) \<open>p \<in> fst ` node_of ` set ?zs\<close> by (metis IntI empty_iff imageI)
    ultimately show ?thesis using o cl(2) unfolding open_entry_def by (auto simp: freed_def)
  qed
  ultimately have "streams_ok ?st4 (xs @ ys)"
    using ok unfolding streams_ok_def by (auto simp: image_Un)
  then show ?thesis using run by (intro exI [of _ ?st4]) (auto simp: freed_def)
qed

section \<open>Writing to a stream\<close>

lemma c_fwrite_ok:
  assumes "streams_ok st (xs @ (p, v, fd, e) # ys)" and "ps_file st (sn_stream v) = Some (fd, buf)" and "sent \<noteq> [] \<longrightarrow> (\<exists>n. e = Wr n)"
  shows "\<exists>st'. c_fwrite sent (sn_stream v) st = Inr st' \<and> streams_ok st' (xs @ (p, v, fd, e) # ys) \<and>
    ps_file st' (sn_stream v) = Some (fd, buf @ sent) \<and> ps_fds st' = ps_fds st \<and> live (ps_mem st') = live (ps_mem st) \<and> ps_pipe st' = ps_pipe st"
proof -
  let ?f = "sn_stream v" and ?x = "(p, v, fd, e)"
  let ?zs = "xs @ ?x # ys"
  let ?st = "st\<lparr>ps_file := (ps_file st)(?f \<mapsto> (fd, buf @ sent))\<rparr>"
  note ok = streams_okD [OF assms(1)]
  have "open_entry st ?x" using ok(4) by simp
  then have f: "?f \<noteq> NULL" "\<forall>n. e = Rd n \<longrightarrow> buf = []" using assms(2) by (auto simp: open_entry_def)
  have out: "?f \<notin> stream_of ` (set xs \<union> set ys)" using ok(5) by (simp add: image_Un)
  have "\<forall>y \<in> set ?zs. open_entry ?st y"
  proof
    fix y assume y: "y \<in> set ?zs"
    show "open_entry ?st y"
    proof (cases "y = ?x")
      case True
      then show ?thesis using \<open>open_entry st ?x\<close> f(2) assms(3) by (auto simp: open_entry_def)
    next
      case False
      then have "y \<in> set xs \<union> set ys" using y by simp
      then have "stream_of y \<noteq> ?f" using out by (metis imageI)
      moreover have "open_entry st y" using ok(4) y by blast
      ultimately show ?thesis by (simp add: open_entry_def)
    qed
  qed
  then have "streams_ok ?st ?zs" using ok(1-3, 5-10) unfolding streams_ok_def by simp
  then show ?thesis using assms(2) f(1) by (intro exI [of _ ?st]) (simp add: c_fwrite_def get_file_def)
qed

section \<open>Properties\<close>

text \<open>C23: After \<^verbatim>\<open>popen2\<close> the child runs the command with its end of the pipe as standard output or input and with the
  streams of the earlier calls closed, and what is written to the stream is in the pipe when \<^verbatim>\<open>pclose2\<close> has returned the
  status of the child: the descriptors, the memory and the list are then as before.\<close>

theorem popen2_pclose2:
  assumes "streams_ok st xs" and "room (ps_fds st)" and "ample (ps_mem st)" and "int (length xs) + 1 \<le> INT_MAX"
    and "cmd \<noteq> []" and "forked \<noteq> -1" and "t = ''r'' \<and> sent = [] \<or> t = ''w''" and "\<not> broken (ps_pipes st)"
    and "wait forked = Some status"
  shows "\<exists>f st1 st2 st3 tab. popen2 broken forked (Some cmd) (Some t) st = Inr (f, st1) \<and>
    ps_children st1 = ps_children st @ [(forked, Execs cmd tab)] \<and>
    (if t = ''r'' then tab ! 1 = Some (Wr (ps_pipes st)) else tab ! 0 = Some (Rd (ps_pipes st))) \<and> (\<forall>x \<in> set xs. tab ! fd_of x = None) \<and>
    c_fwrite sent f st1 = Inr st2 \<and> pclose2 broken wait f st2 = Inr (status, st3) \<and> ps_pipe st3 (ps_pipes st) = ps_pipe st (ps_pipes st) @ sent \<and>
    ps_fds st3 = ps_fds st \<and> live (ps_mem st3) = live (ps_mem st) \<and> streams_ok st3 xs"
proof -
  let ?n = "ps_pipes st"
  have t: "t = ''r'' \<or> t = ''w''" using assms(7) by auto
  obtain f p fd e tab st1 where o: "popen2 broken forked (Some cmd) (Some t) st = Inr (f, st1)"
    "streams_ok st1 (xs @ [(p, \<lparr>sn_stream = f, sn_fd = 0, sn_pid = forked\<rparr>, fd, e)])" "ps_file st1 = (ps_file st)(f \<mapsto> (fd, []))"
    "ps_pipe st1 = flush_all broken st xs (ps_pipe st)" "ps_children st1 = ps_children st @ [(forked, Execs cmd tab)]"
    "ps_fds st1 = (ps_fds st)[fd := Some e]" "fd < length (ps_fds st)" "ps_fds st ! fd = None"
    "if t = ''r'' then e = Rd ?n \<and> tab ! 1 = Some (Wr ?n) else e = Wr ?n \<and> tab ! 0 = Some (Rd ?n)"
    "\<forall>x \<in> set xs. tab ! fd_of x = None" "live (ps_mem st1) = live (ps_mem st) \<union> {f, p}" "f \<notin> live (ps_mem st)" "p \<notin> live (ps_mem st)"
    using popen2_ok [OF assms(1-6) t, of broken] by (elim exE conjE) (rule that)
  obtain st2 where w: "c_fwrite sent f st1 = Inr st2" "streams_ok st2 (xs @ [(p, \<lparr>sn_stream = f, sn_fd = 0, sn_pid = forked\<rparr>, fd, e)])"
    "ps_file st2 f = Some (fd, sent)" "ps_fds st2 = ps_fds st1" "live (ps_mem st2) = live (ps_mem st1)" "ps_pipe st2 = ps_pipe st1"
    using c_fwrite_ok [OF o(2), of "[]" sent] o(3, 9) assms(7) by auto
  have fine: "sent = [] \<or> (\<forall>q. e = Wr q \<longrightarrow> \<not> broken q)" using o(9) assms(8) t by (auto split: if_splits)
  obtain st3 where c: "pclose2 broken wait f st2 = Inr (status, st3)" "streams_ok st3 xs" "ps_fds st3 = (ps_fds st2)[fd := None]"
    "live (ps_mem st3) = live (ps_mem st2) - {p, f}" "ps_pipe st3 = flushed broken e sent (ps_pipe st2)"
    using pclose2_ok [OF w(2), of sent broken wait status] w(3) fine assms(9) by auto
  have "\<forall>x \<in> set xs. end_of x \<noteq> Wr ?n" using streams_okD(8) [OF assms(1)] by (metis less_irrefl pipe_of.simps(3))
  then have "ps_pipe st1 ?n = ps_pipe st ?n" unfolding o(4) by (rule flush_all_other)
  then have "ps_pipe st3 ?n = ps_pipe st ?n @ sent"
    using c(5) w(6) o(9) assms(7, 8) by (auto simp: flushed_def split: if_splits)
  moreover have "ps_fds st3 = ps_fds st" using c(3) w(4) o(6, 8) by (metis list_update_id list_update_overwrite)
  moreover have "live (ps_mem st3) = live (ps_mem st)" using c(4) w(5) o(11-13) by auto
  ultimately show ?thesis using o(1, 5, 9, 10) w(1) c(1, 2) by (intro exI conjI) (assumption | simp split: if_splits)+
qed

text \<open>C33: A child that \<^verbatim>\<open>popen2\<close> makes closes its copies of the earlier streams with \<^verbatim>\<open>fclose\<close>, which writes the output that
  still waits in their buffers; the parent writes it again, so that it arrives twice.\<close>

theorem popen2_repeats_output:
  assumes "streams_ok st (xs @ (p, v, fd, Wr n) # ys)" and "ps_file st (sn_stream v) = Some (fd, buf)" and "\<not> broken n"
    and "room (ps_fds st)" and "ample (ps_mem st)" and "int (length xs + length ys) + 2 \<le> INT_MAX" and "cmd \<noteq> []" and "forked \<noteq> -1"
    and "t = ''r'' \<or> t = ''w''" and "wait (sn_pid v) = Some status"
  shows "\<exists>f st1 st2. popen2 broken forked (Some cmd) (Some t) st = Inr (f, st1) \<and> pclose2 broken wait (sn_stream v) st1 = Inr (status, st2) \<and>
    ps_pipe st2 n = ps_pipe st n @ buf @ buf"
proof -
  let ?x = "(p, v, fd, Wr n)"
  let ?zs = "xs @ ?x # ys"
  have len: "int (length ?zs) + 1 \<le> INT_MAX" using assms(6) by simp
  obtain f q fd' e tab st1 where o: "popen2 broken forked (Some cmd) (Some t) st = Inr (f, st1)"
    "streams_ok st1 (?zs @ [(q, \<lparr>sn_stream = f, sn_fd = 0, sn_pid = forked\<rparr>, fd', e)])" "ps_file st1 = (ps_file st)(f \<mapsto> (fd', []))"
    "f \<notin> stream_of ` set ?zs" "ps_pipe st1 = flush_all broken st ?zs (ps_pipe st)"
    using popen2_ok [OF assms(1, 4, 5) len assms(7-9), of broken] by (elim exE conjE) (rule that)
  have "f \<noteq> sn_stream v" using o(4) by auto
  then have buffered: "ps_file st1 (sn_stream v) = Some (fd, buf)" using o(3) assms(2) by simp
  have "flush_all broken st ?zs (ps_pipe st) n = ps_pipe st n @ buf_of st ?x"
    using streams_okD(7) [OF assms(1)] assms(3) by (intro flush_all_hit) simp_all
  then have pipe: "ps_pipe st1 n = ps_pipe st n @ buf" using o(5) assms(2) by (simp add: buf_of_def)
  have "streams_ok st1 (xs @ ?x # (ys @ [(q, \<lparr>sn_stream = f, sn_fd = 0, sn_pid = forked\<rparr>, fd', e)]))" using o(2) by simp
  then obtain st2 where "pclose2 broken wait (sn_stream v) st1 = Inr (status, st2)" "ps_pipe st2 = flushed broken (Wr n) buf (ps_pipe st1)"
    using pclose2_ok [OF _ buffered, where broken = broken and wait = wait and status = status] assms(3, 10) by blast
  then show ?thesis using o(1) pipe assms(3) by (intro exI conjI) (assumption | simp add: flushed_def)+
qed

text \<open>When the type is neither of the two letters, or \<^verbatim>\<open>fork\<close> fails, \<^verbatim>\<open>popen2\<close> returns NULL and the two descriptors of
  the new pipe stay open.\<close>

theorem popen2_leaks_pipe:
  assumes "room (ps_fds st)" and "cmd \<noteq> []" and "t \<noteq> []" and "t \<noteq> ''r'' \<and> t \<noteq> ''w'' \<or> forked = -1"
  shows "\<exists>i j st1. popen2 broken forked (Some cmd) (Some t) st = Inr (NULL, st1) \<and> i \<noteq> j \<and> ps_fds st ! i = None \<and> ps_fds st ! j = None \<and>
    ps_fds st1 ! i = Some (Rd (ps_pipes st)) \<and> ps_fds st1 ! j = Some (Wr (ps_pipes st)) \<and> ps_base st1 = ps_base st"
proof -
  obtain i j where "sys_pipe st = Some ((i, j), st\<lparr>ps_fds := (ps_fds st)[i := Some (Rd (ps_pipes st)), j := Some (Wr (ps_pipes st))],
      ps_pipes := Suc (ps_pipes st)\<rparr>)" "i \<noteq> j" "i < length (ps_fds st)" "j < length (ps_fds st)" "ps_fds st ! i = None" "ps_fds st ! j = None"
    using sys_pipe_ok [OF assms(1)] by (elim exE conjE) (rule that)
  then show ?thesis using assms(2-4)
    by (intro exI [of _ i] exI [of _ j]) (auto simp: popen2_def)
qed

definition ex_proc :: proc where
  "ex_proc = \<lparr>ps_mem = \<lparr>calls = 0, fails = (\<lambda>_. False), live = {}, lnodes = (\<lambda>_. None), objs = (\<lambda>_. None)\<rparr>,
     ps_fds = [Some Tty, Some Tty, Some Tty, None, None], ps_file = (\<lambda>_. None), ps_pipe = (\<lambda>_. []), ps_pipes = 0,
     ps_base = NULL, ps_count = 0, ps_children = []\<rparr>"

definition ex_stream :: snode where
  "ex_stream = \<lparr>sn_stream = 1, sn_fd = 0, sn_pid = 41\<rparr>"

definition ex_writing :: proc where
  "ex_writing = ex_proc\<lparr>ps_mem := \<lparr>calls = 2, fails = (\<lambda>_. False), live = {1, 2}, lnodes = [2 \<mapsto> \<lparr>lnext = NULL, lprev = NULL, lval = Some ex_stream\<rparr>],
     objs = (\<lambda>_. None)\<rparr>, ps_fds := [Some Tty, Some Tty, Some Tty, Some (Wr 0), None, None], ps_file := [1 \<mapsto> (3, ''hello'')],
     ps_pipes := 1, ps_base := 2, ps_count := 1\<rparr>"

lemma roomI: "a \<noteq> b \<Longrightarrow> a < length fds \<Longrightarrow> b < length fds \<Longrightarrow> fds ! a = None \<Longrightarrow> fds ! b = None \<Longrightarrow> 3 \<le> length fds \<Longrightarrow>
    \<forall>k < 3. fds ! k \<noteq> None \<Longrightarrow> room fds"
  unfolding room_def by blast

lemma ex_proc_ok: "streams_ok ex_proc []" "room (ps_fds ex_proc)" "ample (ps_mem ex_proc)"
proof -
  show "room (ps_fds ex_proc)"
    by (rule roomI [of 3 4]) (simp_all add: ex_proc_def numeral_eq_Suc less_Suc_eq all_conj_distrib)
qed (simp_all add: streams_ok_def ex_proc_def chain_nil mem_ok_def ample_def INT_MAX_def)

lemma ex_writing_ok: "streams_ok ex_writing [(2, ex_stream, 3, Wr 0)]" "room (ps_fds ex_writing)" "ample (ps_mem ex_writing)"
proof -
  show "room (ps_fds ex_writing)"
    by (rule roomI [of 4 5]) (simp_all add: ex_writing_def numeral_eq_Suc less_Suc_eq all_conj_distrib)
qed (auto simp: streams_ok_def ex_writing_def ex_proc_def ex_stream_def chain_def mem_ok_def ample_def open_entry_def INT_MAX_def)

theorem popen2_pclose2_witness:
  "\<exists>f st1 st2 st3. popen2 (\<lambda>_. False) 41 (Some ''cat'') (Some ''w'') ex_proc = Inr (f, st1) \<and> c_fwrite ''hi'' f st1 = Inr st2 \<and>
    pclose2 (\<lambda>_. False) (\<lambda>pid. Some 0) f st2 = Inr (0, st3) \<and> ps_pipe st3 0 = ''hi'' \<and> ps_fds st3 = ps_fds ex_proc"
proof -
  have "ps_pipes ex_proc = 0" "ps_pipe ex_proc 0 = []" by (simp_all add: ex_proc_def)
  then show ?thesis
    using popen2_pclose2 [OF ex_proc_ok, where cmd = "''cat''" and t = "''w''" and sent = "''hi''" and forked = 41 and
      broken = "\<lambda>_. False" and wait = "\<lambda>pid. Some 0" and status = 0] by (auto simp: INT_MAX_def)
qed

theorem popen2_repeats_output_witness:
  "\<exists>f st1 st2. popen2 (\<lambda>_. False) 42 (Some ''ls'') (Some ''r'') ex_writing = Inr (f, st1) \<and>
    pclose2 (\<lambda>_. False) (\<lambda>pid. Some 0) 1 st1 = Inr (0, st2) \<and> ps_pipe st2 0 = ''hellohello''"
proof -
  have "ps_file ex_writing (sn_stream ex_stream) = Some (3, ''hello'')" "ps_pipe ex_writing 0 = []" "sn_stream ex_stream = 1"
    by (simp_all add: ex_writing_def ex_proc_def ex_stream_def)
  then show ?thesis
    using popen2_repeats_output [where st = ex_writing and xs = "[]" and ys = "[]" and p = 2 and v = ex_stream and fd = 3 and n = 0 and
      buf = "''hello''" and cmd = "''ls''" and t = "''r''" and forked = 42 and broken = "\<lambda>_. False" and wait = "\<lambda>pid. Some 0" and status = 0]
      ex_writing_ok by (simp add: INT_MAX_def)
qed

theorem popen2_leaks_pipe_witness:
  "\<exists>i j st1. popen2 (\<lambda>_. False) 41 (Some ''cat'') (Some ''rw'') ex_proc = Inr (NULL, st1) \<and> i \<noteq> j \<and> ps_fds ex_proc ! i = None \<and>
    ps_fds ex_proc ! j = None \<and> ps_fds st1 ! i = Some (Rd 0) \<and> ps_fds st1 ! j = Some (Wr 0)"
proof -
  have "ps_pipes ex_proc = 0" by (simp add: ex_proc_def)
  then show ?thesis
    using popen2_leaks_pipe [OF ex_proc_ok(2), where cmd = "''cat''" and t = "''rw''" and forked = 41 and broken = "\<lambda>_. False"] by auto
qed

end
