(* ===== verification/Reports.thy ===== *)
theory Reports
  imports C_Text
begin

text \<open>
  What the support library prints about files and processes: \<^verbatim>\<open>lib/file_perms.c\<close>,
  \<^verbatim>\<open>displayStatInfo\<close> and \<^verbatim>\<open>getProcessStatus\<close> of \<^verbatim>\<open>lib/lib.c\<close>,
  \<^verbatim>\<open>lib/print_wait_status.c\<close> and \<^verbatim>\<open>lib/print_rlimit.c\<close>. A printing function is the text it writes.
  Mode bits are a 32-bit word, device numbers are 64-bit words; \<^verbatim>\<open>ctime\<close>, \<^verbatim>\<open>strsignal\<close> and
  \<^verbatim>\<open>getrlimit\<close> are parameters.
\<close>

unbundle bit_operations_syntax

section \<open>File status\<close>

record stat =
  st_dev :: "64 word"
  st_ino :: int
  st_mode :: "32 word"
  st_nlink :: int
  st_uid :: "32 word"
  st_gid :: "32 word"
  st_rdev :: "64 word"
  st_size :: int
  st_blksize :: int
  st_blocks :: int
  st_atime :: int
  st_mtime :: int
  st_ctime :: int

definition S_IFMT :: "32 word" where "S_IFMT = 0xF000"

definition S_IFSOCK :: "32 word" where "S_IFSOCK = 0xC000"

definition S_IFLNK :: "32 word" where "S_IFLNK = 0xA000"

definition S_IFREG :: "32 word" where "S_IFREG = 0x8000"

definition S_IFBLK :: "32 word" where "S_IFBLK = 0x6000"

definition S_IFDIR :: "32 word" where "S_IFDIR = 0x4000"

definition S_IFCHR :: "32 word" where "S_IFCHR = 0x2000"

definition S_IFIFO :: "32 word" where "S_IFIFO = 0x1000"

definition S_ISUID :: "32 word" where "S_ISUID = 2048"

definition S_ISGID :: "32 word" where "S_ISGID = 1024"

definition S_ISVTX :: "32 word" where "S_ISVTX = 512"

lemmas mode_types = S_IFMT_def S_IFSOCK_def S_IFLNK_def S_IFREG_def S_IFBLK_def S_IFDIR_def S_IFCHR_def S_IFIFO_def

text \<open>The macros \<^verbatim>\<open>major\<close> and \<^verbatim>\<open>minor\<close> of the C library.\<close>

definition dev_major :: "64 word \<Rightarrow> int" where
  "dev_major d = uint ((drop_bit 8 d AND 0xFFF) OR (drop_bit 32 d AND 0xFFFFF000))"

definition dev_minor :: "64 word \<Rightarrow> int" where
  "dev_minor d = uint ((d AND 0xFF) OR (drop_bit 12 d AND 0xFFFFFF00))"

section \<open>Permissions\<close>

definition FP_SPECIAL :: int where "FP_SPECIAL = 1"

text \<open>The mask of one permission, \<^verbatim>\<open>S_IRUSR\<close> to \<^verbatim>\<open>S_IXOTH\<close>, is a single bit.\<close>

definition perm_set :: "32 word \<Rightarrow> 32 word \<Rightarrow> bool" where
  "perm_set perm m \<longleftrightarrow> perm AND m \<noteq> 0"

definition exec_char :: "32 word \<Rightarrow> 32 word \<Rightarrow> 32 word \<Rightarrow> int \<Rightarrow> char \<Rightarrow> char \<Rightarrow> char" where
  "exec_char perm x special flags low up =
     (if perm_set perm x
      then (if perm_set perm special \<and> flags AND FP_SPECIAL \<noteq> 0 then low else CHR ''x'')
      else (if perm_set perm special \<and> flags AND FP_SPECIAL \<noteq> 0 then up else CHR ''-''))"

definition filePermStr :: "32 word \<Rightarrow> int \<Rightarrow> string" where
  "filePermStr perm flags = snprintf 10
     [if perm_set perm 256 then CHR ''r'' else CHR ''-'',
      if perm_set perm 128 then CHR ''w'' else CHR ''-'',
      exec_char perm 64 S_ISUID flags (CHR ''s'') (CHR ''S''),
      if perm_set perm 32 then CHR ''r'' else CHR ''-'',
      if perm_set perm 16 then CHR ''w'' else CHR ''-'',
      exec_char perm 8 S_ISGID flags (CHR ''s'') (CHR ''S''),
      if perm_set perm 4 then CHR ''r'' else CHR ''-'',
      if perm_set perm 2 then CHR ''w'' else CHR ''-'',
      exec_char perm 1 S_ISVTX flags (CHR ''t'') (CHR ''T'')]"

section \<open>displayStatInfo\<close>

definition file_type_text :: "32 word \<Rightarrow> string" where
  "file_type_text mode =
     (let t = mode AND S_IFMT in
      if t = S_IFREG then ''regular file''
      else if t = S_IFDIR then ''directory''
      else if t = S_IFCHR then ''character device''
      else if t = S_IFBLK then ''block device''
      else if t = S_IFLNK then ''symbolic (soft) link''
      else if t = S_IFIFO then ''FIFO or pipe''
      else if t = S_IFSOCK then ''socket''
      else ''?unknown?'') @ newline"

definition displayStatInfo :: "(int \<Rightarrow> string) \<Rightarrow> stat \<Rightarrow> string" where
  "displayStatInfo ctime sb =
     ''File type:                   '' @ file_type_text (st_mode sb) @
     ''Device containing i-node:    major='' @ int_text (dev_major (st_dev sb)) @ ''   minor='' @
       int_text (dev_minor (st_dev sb)) @ newline @
     ''I-node number:               '' @ int_text (st_ino sb) @ newline @
     ''Mode:                        '' @ base_text 8 (unat (st_mode sb)) @ '' ('' @ filePermStr (st_mode sb) 0 @ '')'' @ newline @
     (if st_mode sb AND (S_ISUID OR S_ISGID OR S_ISVTX) \<noteq> 0
      then ''    special bits set: '' @
        (if st_mode sb AND S_ISUID \<noteq> 0 then ''set-UID '' else []) @
        (if st_mode sb AND S_ISGID \<noteq> 0 then ''set-GID '' else []) @
        (if st_mode sb AND S_ISVTX \<noteq> 0 then ''sticky '' else []) @ newline
      else []) @
     ''Number of (hard) links:      '' @ int_text (st_nlink sb) @ newline @
     ''Ownership:                   UID='' @ int_text (uint (st_uid sb)) @ ''   GID='' @ int_text (uint (st_gid sb)) @ newline @
     (if st_mode sb AND S_IFMT = S_IFCHR \<or> st_mode sb AND S_IFMT = S_IFBLK
      then ''Device number (st_rdev):     major='' @ int_text (dev_major (st_rdev sb)) @ ''; minor='' @
        int_text (dev_minor (st_rdev sb)) @ newline
      else []) @
     ''File size:                   '' @ int_text (st_size sb) @ '' bytes'' @ newline @
     ''Optimal I/O block size:      '' @ int_text (st_blksize sb) @ '' bytes'' @ newline @
     ''512B blocks allocated:       '' @ int_text (st_blocks sb) @ newline @
     ''Last file access:            '' @ ctime (st_atime sb) @
     ''Last file modification:      '' @ ctime (st_mtime sb) @
     ''Last status change:          '' @ ctime (st_ctime sb)"

section \<open>The status of a process\<close>

definition STATUS_FILE_MAX :: nat where "STATUS_FILE_MAX = 1024"

definition PATH_MAX :: nat where "PATH_MAX = 4096"

record proc_status =
  ps_pid :: int
  ps_comm :: string
  ps_state :: char
  ps_ppid :: int
  ps_pgrp :: int

text \<open>The conversions of \<^verbatim>\<open>sscanf\<close>: \<^verbatim>\<open>%d\<close> and \<^verbatim>\<open>%s\<close> skip white space, \<^verbatim>\<open> %c\<close> does because of the space.\<close>

definition scan_int :: "string \<Rightarrow> (int \<times> string) option" where
  "scan_int s =
     (case strtol s 10 of (v, r, e) \<Rightarrow>
        if r = s then None else Some (sint (word_of_int v :: 32 word), r))"

definition scan_word :: "string \<Rightarrow> (string \<times> string) option" where
  "scan_word s =
     (let r = dropWhile is_space s in
      if r = [] then None else Some (takeWhile (\<lambda>c. \<not> is_space c) r, dropWhile (\<lambda>c. \<not> is_space c) r))"

definition scan_char :: "string \<Rightarrow> (char \<times> string) option" where
  "scan_char s = (case dropWhile is_space s of [] \<Rightarrow> None | c # r \<Rightarrow> Some (c, r))"

definition scan_status :: "string \<Rightarrow> proc_status \<Rightarrow> proc_status res" where
  "scan_status s0 ps0 =
     (case scan_int s0 of None \<Rightarrow> Inr ps0
      | Some (pid, s1) \<Rightarrow> let ps1 = ps0\<lparr>ps_pid := pid\<rparr> in
     (case scan_word s1 of None \<Rightarrow> Inr ps1
      | Some (comm, s2) \<Rightarrow> if length comm \<ge> 128 then Inl Out_Of_Bounds
        else let ps2 = ps1\<lparr>ps_comm := comm\<rparr> in
     (case scan_char s2 of None \<Rightarrow> Inr ps2
      | Some (state, s3) \<Rightarrow> let ps3 = ps2\<lparr>ps_state := state\<rparr> in
     (case scan_int s3 of None \<Rightarrow> Inr ps3
      | Some (ppid, s4) \<Rightarrow> let ps4 = ps3\<lparr>ps_ppid := ppid\<rparr> in
     (case scan_int s4 of None \<Rightarrow> Inr ps4
      | Some (pgrp, s5) \<Rightarrow> Inr (ps4\<lparr>ps_pgrp := pgrp\<rparr>))))))"

definition empty_status :: proc_status where
  "empty_status = \<lparr>ps_pid = 0, ps_comm = [], ps_state = NUL, ps_ppid = 0, ps_pgrp = 0\<rparr>"

text \<open>
  \<open>files\<close> gives for a path whether it can be opened, and then what a read of it returns. The function
  neither frees the struct nor closes the file on its error paths, and does not look at the
  result of \<^verbatim>\<open>calloc\<close>.
\<close>

definition getProcessStatus ::
  "(string \<Rightarrow> string option option) \<Rightarrow> int \<Rightarrow> 's cmem_scheme \<Rightarrow> (ptr \<times> proc_status \<times> 's cmem_scheme) res" where
  "getProcessStatus files pid s =
     (let (status, s1) = c_alloc s;
          filename = snprintf PATH_MAX (''/proc/'' @ int_text pid @ ''/stat'') in
      case files filename of None \<Rightarrow> Inr (NULL, empty_status, s1)
      | Some None \<Rightarrow> Inr (NULL, empty_status, s1)
      | Some (Some content) \<Rightarrow>
          let stat_file = take STATUS_FILE_MAX content in
          if length stat_file = STATUS_FILE_MAX \<and> NUL \<notin> set stat_file then Inl Out_Of_Bounds
          else if status = NULL then Inl Null_Deref
          else rbind (scan_status (buf_text stat_file) empty_status) (\<lambda>ps. Inr (status, ps, s1)))"

section \<open>Wait status\<close>

definition WTERMSIG :: "int \<Rightarrow> int" where "WTERMSIG s = s AND 127"

definition WEXITSTATUS :: "int \<Rightarrow> int" where "WEXITSTATUS s = drop_bit 8 (s AND 65280)"

definition WIFEXITED :: "int \<Rightarrow> bool" where "WIFEXITED s \<longleftrightarrow> WTERMSIG s = 0"

definition WIFSIGNALED :: "int \<Rightarrow> bool" where
  "WIFSIGNALED s \<longleftrightarrow> 0 < drop_bit 1 (sint (word_of_int ((s AND 127) + 1) :: 8 word))"

definition WCOREDUMP :: "int \<Rightarrow> bool" where "WCOREDUMP s \<longleftrightarrow> s AND 128 \<noteq> 0"

definition WIFSTOPPED :: "int \<Rightarrow> bool" where "WIFSTOPPED s \<longleftrightarrow> s AND 255 = 127"

definition WIFCONTINUED :: "int \<Rightarrow> bool" where "WIFCONTINUED s \<longleftrightarrow> s = 65535"

definition printWaitStatus :: "(int \<Rightarrow> string) \<Rightarrow> string option \<Rightarrow> int \<Rightarrow> string" where
  "printWaitStatus strsignal msg status =
     (case msg of None \<Rightarrow> [] | Some m \<Rightarrow> m) @
     (if WIFEXITED status
      then ''Child exited wuth status='' @ int_text (WEXITSTATUS status) @ newline
      else if WIFSIGNALED status
      then ''Child killed by signal '' @ int_text (WTERMSIG status) @ '' ('' @ strsignal (WTERMSIG status) @ '')'' @
           (if WCOREDUMP status then '' (core dumped)'' else [])
      else if WIFSTOPPED status
      then ''Child stopped by signal '' @ int_text (WEXITSTATUS status) @ '' ('' @ strsignal (WEXITSTATUS status) @ '')'' @ newline
      else if WIFCONTINUED status
      then ''Child continued'' @ newline
      else ''What happened to this child? status='' @ base_text 16 (nat (status mod 4294967296)) @ newline)"

section \<open>Resource limits\<close>

text \<open>
  \<^verbatim>\<open>RLIM_SAVED_CUR\<close> and \<^verbatim>\<open>RLIM_SAVED_MAX\<close> are \<^verbatim>\<open>RLIM_INFINITY\<close> on Linux, so their branches are
  never taken.
\<close>

definition RLIM_INFINITY :: "64 word" where "RLIM_INFINITY = - 1"

definition limit_text :: "64 word \<Rightarrow> string" where
  "limit_text v = (if v = RLIM_INFINITY then ''infinite'' else int_text (sint v))"

definition printRlimit :: "(int \<Rightarrow> (64 word \<times> 64 word) option) \<Rightarrow> string \<Rightarrow> int \<Rightarrow> int \<times> string" where
  "printRlimit getrlimit msg resource =
     (case getrlimit resource of None \<Rightarrow> (- 1, [])
      | Some (cur, mx) \<Rightarrow>
          (0, msg @ '' soft='' @ limit_text cur @ ''; hard='' @ limit_text mx @ newline))"

section \<open>Reading a permission string\<close>

text \<open>The mode a string of \<^verbatim>\<open>ls -l\<close> stands for.\<close>

definition perm_of :: "string \<Rightarrow> 32 word" where
  "perm_of t =
     (if t ! 0 = CHR ''r'' then 256 else 0) + (if t ! 1 = CHR ''w'' then 128 else 0) +
     (if t ! 2 \<in> {CHR ''x'', CHR ''s''} then 64 else 0) + (if t ! 2 \<in> {CHR ''s'', CHR ''S''} then 2048 else 0) +
     (if t ! 3 = CHR ''r'' then 32 else 0) + (if t ! 4 = CHR ''w'' then 16 else 0) +
     (if t ! 5 \<in> {CHR ''x'', CHR ''s''} then 8 else 0) + (if t ! 5 \<in> {CHR ''s'', CHR ''S''} then 1024 else 0) +
     (if t ! 6 = CHR ''r'' then 4 else 0) + (if t ! 7 = CHR ''w'' then 2 else 0) +
     (if t ! 8 \<in> {CHR ''x'', CHR ''t''} then 1 else 0) + (if t ! 8 \<in> {CHR ''t'', CHR ''T''} then 512 else 0)"

lemma perm_set_bit:
  "perm_set p 256 \<longleftrightarrow> bit p 8" "perm_set p 128 \<longleftrightarrow> bit p 7" "perm_set p 64 \<longleftrightarrow> bit p 6"
  "perm_set p 32 \<longleftrightarrow> bit p 5" "perm_set p 16 \<longleftrightarrow> bit p 4" "perm_set p 8 \<longleftrightarrow> bit p 3"
  "perm_set p 4 \<longleftrightarrow> bit p 2" "perm_set p 2 \<longleftrightarrow> bit p 1" "perm_set p 1 \<longleftrightarrow> bit p 0"
  "perm_set p S_ISUID \<longleftrightarrow> bit p 11" "perm_set p S_ISGID \<longleftrightarrow> bit p 10" "perm_set p S_ISVTX \<longleftrightarrow> bit p 9"
  by (simp_all add: perm_set_def bit_iff_and_push_bit_not_eq_0 [of p] S_ISUID_def S_ISGID_def S_ISVTX_def)

lemma take_bits_12: "take_bit 12 p = (p :: 32 word) AND 4095"
  by (simp add: take_bit_eq_mask mask_eq_exp_minus_1)

lemma take_bits_9: "take_bit 9 p = (p :: 32 word) AND 511"
  by (simp add: take_bit_eq_mask mask_eq_exp_minus_1)

lemma perm_of_special: "perm_of (filePermStr p FP_SPECIAL) = p AND 4095"
proof -
  have "p AND 4095 = horner_sum of_bool 2 (map (bit p) [0..<12])"
    by (simp add: horner_sum_bit_eq_take_bit take_bits_12)
  then show ?thesis
    by (simp add: upt_rec numeral_2_eq_2 [symmetric] perm_of_def filePermStr_def exec_char_def FP_SPECIAL_def perm_set_bit snprintf_def
        of_bool_def)
qed

lemma perm_of_plain: "perm_of (filePermStr p 0) = p AND 511"
proof -
  have "p AND 511 = horner_sum of_bool 2 (map (bit p) [0..<9])"
    by (simp add: horner_sum_bit_eq_take_bit take_bits_9)
  then show ?thesis
    by (simp add: upt_rec numeral_2_eq_2 [symmetric] perm_of_def filePermStr_def exec_char_def FP_SPECIAL_def perm_set_bit snprintf_def
        of_bool_def)
qed

section \<open>What can happen to a child\<close>

text \<open>The events of a child and the status \<^verbatim>\<open>wait\<close> delivers for each.\<close>

datatype child_event = Exited_With nat | Killed nat bool | Stopped_By nat | Continued

definition event_ok :: "child_event \<Rightarrow> bool" where
  "event_ok ev = (case ev of Exited_With e \<Rightarrow> e < 256 | Killed sig core \<Rightarrow> 0 < sig \<and> sig < 127
     | Stopped_By sig \<Rightarrow> 0 < sig \<and> sig < 127 | Continued \<Rightarrow> True)"

definition wait_status :: "child_event \<Rightarrow> int" where
  "wait_status ev = (case ev of Exited_With e \<Rightarrow> int e * 256 | Killed sig core \<Rightarrow> int sig + (if core then 128 else 0)
     | Stopped_By sig \<Rightarrow> int sig * 256 + 127 | Continued \<Rightarrow> 65535)"

definition event_text :: "(int \<Rightarrow> string) \<Rightarrow> child_event \<Rightarrow> string" where
  "event_text strsignal ev = (case ev of
       Exited_With e \<Rightarrow> ''Child exited wuth status='' @ nat_text e @ newline
     | Killed sig core \<Rightarrow> ''Child killed by signal '' @ nat_text sig @ '' ('' @ strsignal (int sig) @ '')'' @
         (if core then '' (core dumped)'' else [])
     | Stopped_By sig \<Rightarrow> ''Child stopped by signal '' @ nat_text sig @ '' ('' @ strsignal (int sig) @ '')'' @ newline
     | Continued \<Rightarrow> ''Child continued'' @ newline)"

lemma and_mask_int: "x AND 127 = x mod 128" "x AND 255 = x mod 256" for x :: int
  using take_bit_eq_mask [of 7 x] take_bit_eq_mask [of 8 x]
  by (simp_all add: take_bit_eq_mod mask_eq_exp_minus_1)

lemma wexitstatus_mod: "WEXITSTATUS s = (s div 256) mod 256"
proof -
  have "drop_bit 8 (s AND 65280) = drop_bit 8 s AND drop_bit 8 65280" by (rule drop_bit_and)
  also have "drop_bit 8 (65280 :: int) = 255" by (simp add: drop_bit_eq_div)
  finally show ?thesis using and_mask_int(2) [of "s div 256"] by (simp add: WEXITSTATUS_def drop_bit_eq_div)
qed

lemma wcoredump_odd: "WCOREDUMP s \<longleftrightarrow> odd (s div 128)"
  using bit_iff_and_push_bit_not_eq_0 [of s 7] by (simp add: WCOREDUMP_def bit_iff_odd push_bit_eq_mult)

lemma wifsignaled: "WIFSIGNALED s \<longleftrightarrow> 0 < s mod 128 \<and> s mod 128 < 127"
proof -
  have t: "0 \<le> s mod 128" "s mod 128 < 128" by simp_all
  have "sint (word_of_int (t + 1) :: 8 word) = (if t = 127 then - 128 else t + 1)" if "0 \<le> t" "t < 128" for t
    unfolding int_word_sint using that by (cases "t = 127") simp_all
  from this [OF t] have "WIFSIGNALED s \<longleftrightarrow> 0 < drop_bit 1 (if s mod 128 = 127 then - 128 else s mod 128 + 1)"
    unfolding WIFSIGNALED_def and_mask_int by simp
  then show ?thesis using t by (auto simp: drop_bit_eq_div)
qed

lemma wait_status_mods:
  "wait_status (Exited_With e) mod 128 = 0" "wait_status (Exited_With e) mod 256 = 0"
  "sig < 127 \<Longrightarrow> wait_status (Killed sig core) mod 128 = int sig"
  "sig < 127 \<Longrightarrow> wait_status (Killed sig core) mod 256 \<noteq> 127"
  "sig < 127 \<Longrightarrow> wait_status (Killed sig core) div 128 = (if core then 1 else 0)"
  "wait_status (Stopped_By sig) mod 128 = 127" "wait_status (Stopped_By sig) mod 256 = 127"
  "wait_status Continued mod 128 = 127" "wait_status Continued mod 256 = 255"
proof -
  show "wait_status (Exited_With e) mod 128 = 0" "wait_status (Exited_With e) mod 256 = 0"
    using mod_mult_left_eq [of "int e" 128 256] by (simp_all add: wait_status_def mod_mult_eq [symmetric, of "int e" 256 128] dvd_imp_mod_0)
  show "sig < 127 \<Longrightarrow> wait_status (Killed sig core) mod 128 = int sig"
    by (cases core) (simp_all add: wait_status_def)
  show "sig < 127 \<Longrightarrow> wait_status (Killed sig core) mod 256 \<noteq> 127"
    by (cases core) (simp_all add: wait_status_def)
  show "sig < 127 \<Longrightarrow> wait_status (Killed sig core) div 128 = (if core then 1 else 0)"
    by (cases core) (simp_all add: wait_status_def)
  have "int sig * 256 + 127 = 127 + (int sig * 2) * 128" by simp
  then have "(int sig * 256 + 127) mod 128 = 127" by (simp only: mod_mult_self1) simp
  then show "wait_status (Stopped_By sig) mod 128 = 127" unfolding wait_status_def by (simp only: child_event.case)
  show "wait_status (Stopped_By sig) mod 256 = 127" by (simp add: wait_status_def)
  show "wait_status Continued mod 128 = 127" "wait_status Continued mod 256 = 255" by (simp_all add: wait_status_def)
qed

lemma wait_status_macros:
  assumes "event_ok ev"
  shows "WIFEXITED (wait_status ev) \<longleftrightarrow> (\<exists>e. ev = Exited_With e)"
    and "WIFSIGNALED (wait_status ev) \<longleftrightarrow> (\<exists>sig core. ev = Killed sig core)"
    and "WIFSTOPPED (wait_status ev) \<longleftrightarrow> (\<exists>sig. ev = Stopped_By sig)"
  using assms
  by (cases ev; simp add: WIFEXITED_def WTERMSIG_def WIFSTOPPED_def and_mask_int event_ok_def wifsignaled wait_status_mods)+

lemma wait_status_parts:
  "event_ok (Killed sig core) \<Longrightarrow> WTERMSIG (wait_status (Killed sig core)) = int sig"
  "event_ok (Killed sig core) \<Longrightarrow> WCOREDUMP (wait_status (Killed sig core)) = core"
  "event_ok (Exited_With e) \<Longrightarrow> WEXITSTATUS (wait_status (Exited_With e)) = int e"
  "event_ok (Stopped_By sig) \<Longrightarrow> WEXITSTATUS (wait_status (Stopped_By sig)) = int sig"
proof -
  show "event_ok (Killed sig core) \<Longrightarrow> WTERMSIG (wait_status (Killed sig core)) = int sig"
    by (simp add: WTERMSIG_def and_mask_int event_ok_def wait_status_mods)
  show "event_ok (Killed sig core) \<Longrightarrow> WCOREDUMP (wait_status (Killed sig core)) = core"
    by (simp add: wcoredump_odd event_ok_def wait_status_mods)
  show "event_ok (Exited_With e) \<Longrightarrow> WEXITSTATUS (wait_status (Exited_With e)) = int e"
    by (simp add: event_ok_def wexitstatus_mod wait_status_def)
  show "event_ok (Stopped_By sig) \<Longrightarrow> WEXITSTATUS (wait_status (Stopped_By sig)) = int sig"
    by (simp add: event_ok_def wexitstatus_mod wait_status_def)
qed

lemma int_text_nat: "int_text (int n) = nat_text n"
  by (simp add: int_text_def)

section \<open>Properties\<close>

text \<open>The permission string of \<^verbatim>\<open>filePermStr\<close> stands for exactly the nine permission bits of the mode, and with
  \<^verbatim>\<open>FP_SPECIAL\<close> for the set-user-ID, set-group-ID and sticky bits as well.\<close>

theorem file_perm_str_roundtrip:
  "perm_of (filePermStr perm 0) = perm AND 0x1FF \<and> perm_of (filePermStr perm FP_SPECIAL) = perm AND 0xFFF \<and>
   length (filePermStr perm flags) = 9"
  using perm_of_plain [of perm] perm_of_special [of perm] by (simp add: filePermStr_def snprintf_def)

text \<open>\<^verbatim>\<open>printWaitStatus\<close> prints the message and what happened to the child, for every status \<^verbatim>\<open>wait\<close> delivers.
  The line of a killed child has no newline.\<close>

theorem wait_status_printed:
  assumes "event_ok ev"
  shows "printWaitStatus strsignal (Some msg) (wait_status ev) = msg @ event_text strsignal ev \<and>
    (ev = Killed sig False \<longrightarrow> last (printWaitStatus strsignal (Some msg) (wait_status ev)) = CHR '')'')"
proof -
  have "printWaitStatus strsignal (Some msg) (wait_status ev) = msg @ event_text strsignal ev"
  proof (cases ev)
    case Continued
    then have "\<not> WIFEXITED (wait_status ev)" "\<not> WIFSIGNALED (wait_status ev)" "\<not> WIFSTOPPED (wait_status ev)"
      using wait_status_macros [OF assms] by simp_all
    then show ?thesis using Continued by (simp add: printWaitStatus_def WIFCONTINUED_def wait_status_def event_text_def)
  qed (use assms wait_status_macros [OF assms] wait_status_parts in
      \<open>simp_all add: printWaitStatus_def event_text_def int_text_nat\<close>)
  moreover have "last (msg @ event_text strsignal (Killed sig False)) = CHR '')''" by (simp add: event_text_def)
  ultimately show ?thesis by auto
qed

theorem wait_status_printed_witness:
  "printWaitStatus (\<lambda>_. ''Killed'') (Some ''> '') 9 = ''> Child killed by signal '' @ nat_text 9 @ '' (Killed)''"
  using wait_status_printed [of "Killed 9 False" "\<lambda>_. ''Killed''" "''> ''"]
  by (simp add: event_ok_def wait_status_def event_text_def)

lemma scan_int_nat:
  assumes "rest = [] \<or> \<not> is_digit (hd rest)" and "n < 2147483648"
  shows "scan_int (nat_text n @ rest) = Some (int n, rest)" "scan_int (CHR '' '' # nat_text n @ rest) = Some (int n, rest)"
proof -
  have st: "strtol (nat_text n @ rest) 10 = (int n, rest, False)"
    using assms strtol_nat_text [of rest n] by (simp add: LONG_MAX_def)
  moreover have "sint (word_of_int (int n) :: 32 word) = int n"
    using assms(2) by (simp add: int_word_sint del: of_int_of_nat_eq)
  moreover have "rest \<noteq> nat_text n @ rest" by simp
  ultimately show "scan_int (nat_text n @ rest) = Some (int n, rest)"
    unfolding scan_int_def by (simp del: of_int_of_nat_eq)
  have sp: "is_space (CHR '' '')" by (simp add: is_space_def code_def)
  have "strtol (CHR '' '' # nat_text n @ rest) 10 = (int n, rest, False)"
    by (rule strtol_space [OF sp st]) simp
  moreover have "rest \<noteq> CHR '' '' # nat_text n @ rest" using impossible_Cons by fastforce
  ultimately show "scan_int (CHR '' '' # nat_text n @ rest) = Some (int n, rest)"
    unfolding scan_int_def using \<open>sint (word_of_int (int n) :: 32 word) = int n\<close> by (simp del: of_int_of_nat_eq)
qed

lemma space_chars: "is_space (CHR '' '')" "\<not> is_digit (CHR '' '')" "\<not> is_space (CHR ''('')" "\<not> is_space (CHR '')'')"
  by (simp_all add: is_space_def is_digit_def code_def)

lemma skip_one_space: "\<not> is_space c \<Longrightarrow> dropWhile is_space (CHR '' '' # c # cs) = c # cs"
  using space_chars(1) by simp

lemma scan_word_token:
  assumes "\<forall>c \<in> set w. \<not> is_space c" and "w \<noteq> []"
  shows "scan_word (CHR '' '' # w @ CHR '' '' # rest) = Some (w, CHR '' '' # rest)"
proof -
  have d: "dropWhile is_space (CHR '' '' # w @ CHR '' '' # rest) = w @ CHR '' '' # rest"
    using assms space_chars by (cases w) simp_all
  have "takeWhile (\<lambda>c. \<not> is_space c) (w @ CHR '' '' # rest) = w"
    "dropWhile (\<lambda>c. \<not> is_space c) (w @ CHR '' '' # rest) = CHR '' '' # rest"
    using assms(1) space_chars(1) by (simp_all add: takeWhile_append2 dropWhile_append2)
  then show ?thesis unfolding scan_word_def Let_def d using assms(2) by simp
qed

text \<open>The start of \<^verbatim>\<open>/proc/PID/stat\<close>: the number, the name in parentheses, the state, parent and group.\<close>

definition stat_line :: "nat \<Rightarrow> string \<Rightarrow> char \<Rightarrow> nat \<Rightarrow> nat \<Rightarrow> string \<Rightarrow> string" where
  "stat_line pid name state ppid pgrp rest =
     nat_text pid @ '' ('' @ name @ '') '' @ [state] @ '' '' @ nat_text ppid @ '' '' @ nat_text pgrp @ '' '' @ rest"

lemma scan_status_line:
  assumes "\<forall>c \<in> set name. \<not> is_space c" and "length name < 126" and "\<not> is_space state"
    and "pid < 2147483648" and "ppid < 2147483648" and "pgrp < 2147483648"
  shows "scan_status (stat_line pid name state ppid pgrp rest) ps = Inr \<lparr>ps_pid = int pid, ps_comm = ''('' @ name @ '')'',
    ps_state = state, ps_ppid = int ppid, ps_pgrp = int pgrp\<rparr>"
proof -
  let ?e = "CHR '' '' # rest"
  let ?d = "CHR '' '' # nat_text pgrp @ ?e"
  let ?c = "CHR '' '' # nat_text ppid @ ?d"
  let ?b = "CHR '' '' # state # ?c"
  let ?w = "''('' @ name @ '')''"
  have l: "stat_line pid name state ppid pgrp rest = nat_text pid @ CHR '' '' # ?w @ ?b" by (simp add: stat_line_def)
  have 1: "scan_int (nat_text pid @ CHR '' '' # ?w @ ?b) = Some (int pid, CHR '' '' # ?w @ ?b)"
    by (rule scan_int_nat) (use assms(4) space_chars in simp_all)
  have 2: "scan_word (CHR '' '' # ?w @ ?b) = Some (?w, ?b)"
    by (rule scan_word_token) (use assms(1) space_chars in auto)
  have 3: "scan_char ?b = Some (state, ?c)" using skip_one_space [OF assms(3)] by (simp add: scan_char_def)
  have 4: "scan_int ?c = Some (int ppid, ?d)" by (rule scan_int_nat) (use assms(5) space_chars in simp_all)
  have 5: "scan_int ?d = Some (int pgrp, ?e)" by (rule scan_int_nat) (use assms(6) space_chars in simp_all)
  show ?thesis
    unfolding l scan_status_def 1 option.case prod.case Let_def 2 3 4 5 using assms(2) by simp
qed

lemma scan_status_spaced:
  assumes "\<forall>c \<in> set a. \<not> is_space c" and "length a < 127" and "\<not> is_space c" and "\<not> is_digit (hd b)" and "b \<noteq> []"
    and "\<not> is_space (hd b)" and "hd b \<noteq> CHR ''-''" and "hd b \<noteq> CHR ''+''" and "pid < 2147483648"
  shows "scan_status (stat_line pid (a @ '' '' @ c # b) state ppid pgrp rest) empty_status = Inr \<lparr>ps_pid = int pid,
    ps_comm = CHR ''('' # a, ps_state = c, ps_ppid = 0, ps_pgrp = 0\<rparr>"
proof -
  let ?c = "b @ '') '' @ [state] @ '' '' @ nat_text ppid @ '' '' @ nat_text pgrp @ '' '' @ rest"
  let ?b = "CHR '' '' # c # ?c"
  let ?w = "CHR ''('' # a"
  have l: "stat_line pid (a @ '' '' @ c # b) state ppid pgrp rest = nat_text pid @ CHR '' '' # ?w @ ?b"
    by (simp add: stat_line_def)
  have 1: "scan_int (nat_text pid @ CHR '' '' # ?w @ ?b) = Some (int pid, CHR '' '' # ?w @ ?b)"
    by (rule scan_int_nat) (use assms(9) space_chars in simp_all)
  have 2: "scan_word (CHR '' '' # ?w @ ?b) = Some (?w, ?b)"
    by (rule scan_word_token) (use assms(1) space_chars in auto)
  have 3: "scan_char ?b = Some (c, ?c)" using skip_one_space [OF assms(3)] by (simp add: scan_char_def)
  obtain d r where b: "b = d # r" using assms(5) by (cases b) auto
  have "strtol ?c 10 = (0, ?c, False)"
    using assms(4,6-8) b by (simp add: strtol_def strtol_sign_def in_base_10)
  then have 4: "scan_int ?c = None" by (simp add: scan_int_def)
  show ?thesis
    unfolding l scan_status_def 1 option.case prod.case Let_def 2 3 4 using assms(2) by (simp add: empty_status_def)
qed

lemma buf_text_id: "NUL \<notin> set t \<Longrightarrow> buf_text t = t"
  by (induction t) (auto simp: buf_text_def)

text \<open>For a process whose name has no white space \<^verbatim>\<open>getProcessStatus\<close> returns a new struct with the five fields
  \<^verbatim>\<open>/proc/PID/stat\<close> starts with. A name with a space is cut at the space, the state is the character behind it, and
  parent and group stay 0.\<close>

theorem process_status_fields:
  assumes "ample s" and "0 \<le> pid" and "pid < 2147483648" and "ppid < 2147483648" and "pgrp < 2147483648"
    and "files (''/proc/'' @ nat_text (nat pid) @ ''/stat'') = Some (Some (stat_line (nat pid) name state ppid pgrp rest))"
    and "length (stat_line (nat pid) name state ppid pgrp rest) < STATUS_FILE_MAX"
    and "NUL \<notin> set (stat_line (nat pid) name state ppid pgrp rest)" and "\<not> is_space state"
    and "length (nat_text (nat pid)) < 4000"
  shows "((\<forall>c \<in> set name. \<not> is_space c) \<and> length name < 126 \<longrightarrow>
      getProcessStatus files pid s = Inr (Suc (calls s), \<lparr>ps_pid = pid, ps_comm = ''('' @ name @ '')'', ps_state = state,
        ps_ppid = int ppid, ps_pgrp = int pgrp\<rparr>, snd (c_alloc s))) \<and>
    (name = a @ CHR '' '' # c # d # b \<and> (\<forall>x \<in> set a. \<not> is_space x) \<and> length a < 127 \<and> \<not> is_space c \<and>
      \<not> is_space d \<and> \<not> is_digit d \<and> d \<noteq> CHR ''-'' \<and> d \<noteq> CHR ''+'' \<longrightarrow>
      getProcessStatus files pid s = Inr (Suc (calls s), \<lparr>ps_pid = pid, ps_comm = CHR ''('' # a, ps_state = c,
        ps_ppid = 0, ps_pgrp = 0\<rparr>, snd (c_alloc s)))"
proof -
  let ?l = "stat_line (nat pid) name state ppid pgrp rest"
  have fn: "snprintf PATH_MAX (''/proc/'' @ int_text pid @ ''/stat'') = ''/proc/'' @ nat_text (nat pid) @ ''/stat''"
    using assms(2,10) by (simp add: snprintf_def PATH_MAX_def int_text_def)
  have run: "getProcessStatus files pid s = rbind (scan_status ?l empty_status) (\<lambda>ps. Inr (Suc (calls s), ps, snd (c_alloc s)))"
    using assms(1,6-8) fn
    by (simp add: getProcessStatus_def c_alloc_def Let_def buf_text_id ample_def)
  have p: "int (nat pid) = pid" "nat pid < 2147483648" using assms(2,3) by auto
  show ?thesis
  proof (intro conjI impI; elim conjE)
    assume a: "\<forall>c \<in> set name. \<not> is_space c" "length name < 126"
    show "getProcessStatus files pid s = Inr (Suc (calls s), \<lparr>ps_pid = pid, ps_comm = ''('' @ name @ '')'',
        ps_state = state, ps_ppid = int ppid, ps_pgrp = int pgrp\<rparr>, snd (c_alloc s))"
      unfolding run scan_status_line [OF a assms(9) p(2) assms(4,5)] using p(1) by simp
  next
    assume n: "name = a @ CHR '' '' # c # d # b" and a: "\<forall>x \<in> set a. \<not> is_space x" "length a < 127" "\<not> is_space c"
      and d: "\<not> is_space d" "\<not> is_digit d" "d \<noteq> CHR ''-''" "d \<noteq> CHR ''+''"
    have "scan_status (stat_line (nat pid) (a @ '' '' @ c # d # b) state ppid pgrp rest) empty_status =
        Inr \<lparr>ps_pid = int (nat pid), ps_comm = CHR ''('' # a, ps_state = c, ps_ppid = 0, ps_pgrp = 0\<rparr>"
      by (rule scan_status_spaced [OF a]) (use d p(2) in simp_all)
    then show "getProcessStatus files pid s = Inr (Suc (calls s), \<lparr>ps_pid = pid, ps_comm = CHR ''('' # a, ps_state = c,
        ps_ppid = 0, ps_pgrp = 0\<rparr>, snd (c_alloc s))"
      unfolding run n using p(1) by simp
  qed
qed

theorem process_status_fields_witness:
  "\<exists>s' :: cmem. getProcessStatus (\<lambda>f. Some (Some (''7 (tmux: server) S 7 7 7'')))
      7 \<lparr>calls = 0, fails = (\<lambda>_. False), live = {}\<rparr> =
    Inr (1, \<lparr>ps_pid = 7, ps_comm = ''(tmux:'', ps_state = CHR ''s'', ps_ppid = 0, ps_pgrp = 0\<rparr>, s')"
proof -
  let ?s = "\<lparr>calls = 0, fails = (\<lambda>_. False), live = {}\<rparr> :: cmem"
  let ?f = "\<lambda>f :: string. Some (Some (''7 (tmux: server) S 7 7 7''))"
  have t: "nat_text 7 = ''7''" by (simp add: nat_text.simps digit_char_literals)
  have l: "stat_line 7 ''tmux: server'' (CHR ''S'') 7 7 ''7'' = ''7 (tmux: server) S 7 7 7''" by (simp add: stat_line_def t)
  have "getProcessStatus ?f 7 ?s = Inr (Suc (calls ?s), \<lparr>ps_pid = 7, ps_comm = CHR ''('' # ''tmux:'', ps_state = CHR ''s'',
      ps_ppid = 0, ps_pgrp = 0\<rparr>, snd (c_alloc ?s))"
    by (rule process_status_fields [THEN conjunct2, THEN mp, of ?s 7 7 7 ?f "''tmux: server''" "CHR ''S''" "''7''" "''tmux:''"
          "CHR ''s''" "CHR ''e''" "''rver''"])
      (simp_all add: l t ample_def STATUS_FILE_MAX_def NUL_def is_space_def is_digit_def code_def)
  then show ?thesis by simp
qed

end
