(* ===== verification/Process_Tree.thy ===== *)
theory Process_Tree
  imports Node_Lists Reports Lib_Text
begin

text \<open>
  The process tree of \<^verbatim>\<open>12-system-process-info/exercises/12-2.c\<close>: the processes of \<^verbatim>\<open>/proc\<close> in a doubly linked list, drawn
  as the forest of their parent numbers.

  Output is the text written. \<open>files\<close> gives for a path whether it can be opened and then what a read of it returns;
  \<open>me\<close> is the process's own number. The recursion of \<^verbatim>\<open>drawChildren\<close> has fuel, because two processes that are
  each other's parent have no end. The format of \<^verbatim>\<open>sscanf\<close> and the struct are those of \<open>Reports\<close>.
\<close>

section \<open>The list of processes\<close>

type_synonym pmem = "(proc_status, unit) lmem"

definition FILE_PATH_MAX :: nat where "FILE_PATH_MAX = 1024"

definition st_fields :: "proc_status lnode \<Rightarrow> proc_status" where
  "st_fields n = (case lval n of Some v \<Rightarrow> v | None \<Rightarrow> empty_status)"

definition rewindStatus :: "ptr \<Rightarrow> pmem \<Rightarrow> ptr res" where
  "rewindStatus status s = rewind_node status s"

definition insertProcess :: "ptr \<Rightarrow> ptr \<Rightarrow> pmem \<Rightarrow> pmem res" where
  "insertProcess previous current s =
     (if current \<noteq> NULL
      then rbind (if previous \<noteq> NULL then node_upd previous (\<lambda>n. n\<lparr>lnext := current\<rparr>) s else Inr s)
             (node_upd current (\<lambda>n. n\<lparr>lprev := previous\<rparr>))
      else Inr s)"

definition freeAllStatus :: "ptr \<Rightarrow> pmem \<Rightarrow> pmem res" where
  "freeAllStatus status s =
     (if status \<noteq> NULL
      then rbind (rewindStatus status s) (\<lambda>prev.
           rbind (node_get prev s) (\<lambda>n.
           rbind (cwhile (\<lambda>st. fst st \<noteq> NULL)
                    (\<lambda>(sptr, prev, s). rbind (node_free prev s) (\<lambda>s1. rbind (node_get sptr s1) (\<lambda>n. Inr (lnext n, sptr, s1))))
                    (lnext n, prev, s))
             (\<lambda>(sptr, prev, s). node_free prev s)))
      else Inr s)"

definition readStatus :: "(string \<Rightarrow> string option option) \<Rightarrow> int \<Rightarrow> pmem \<Rightarrow> (ptr \<times> pmem) res" where
  "readStatus files pid s =
     (let (status, s1) = node_alloc s;
          filename = snprintf FILE_PATH_MAX (''/proc/'' @ int_text pid @ ''/stat'') in
      case files filename of None \<Rightarrow> Inr (NULL, s1)
      | Some None \<Rightarrow> Inr (NULL, s1)
      | Some (Some content) \<Rightarrow>
          let stat_file = take STATUS_FILE_MAX content in
          if length stat_file = STATUS_FILE_MAX \<and> NUL \<notin> set stat_file then Inl Out_Of_Bounds
          else if status = NULL then Inl Null_Deref
          else rbind (scan_status (buf_text stat_file) empty_status) (\<lambda>ps.
               rbind (node_upd status (\<lambda>n. n\<lparr>lval := Some ps, lprev := NULL, lnext := NULL\<rparr>) s1) (\<lambda>s2. Inr (status, s2))))"

section \<open>Drawing\<close>

definition ansi :: "string \<Rightarrow> string" where "ansi digits = CHR 0x1B # ''['' @ digits @ ''m''"

definition ANSI_COLOR_RED :: string where "ANSI_COLOR_RED = ansi ''31''"

definition ANSI_COLOR_GREEN :: string where "ANSI_COLOR_GREEN = ansi ''32''"

definition ANSI_COLOR_YELLOW :: string where "ANSI_COLOR_YELLOW = ansi ''33''"

definition ANSI_COLOR_CYAN :: string where "ANSI_COLOR_CYAN = ansi ''36''"

definition ANSI_BACKGROUND_CYAN :: string where "ANSI_BACKGROUND_CYAN = ansi ''46''"

definition ANSI_COLOR_RESET :: string where "ANSI_COLOR_RESET = ansi ''0''"

text \<open>The conversions with a minimal width and the flag \<^verbatim>\<open>-\<close>.\<close>

definition pad_left :: "nat \<Rightarrow> string \<Rightarrow> string" where
  "pad_left w cs = cs @ replicate (w - length cs) (CHR '' '')"

definition levelPadding :: "nat \<Rightarrow> string" where
  "levelPadding level = concat (replicate level ''    '')"

definition pChild :: "int \<Rightarrow> proc_status \<Rightarrow> string" where
  "pChild me child =
     (if me = ps_pid child
      then ANSI_BACKGROUND_CYAN @ ''['' @ pad_left 20 (ps_comm child) @ ''PID: '' @ pad_left 10 (int_text (ps_pid child)) @
           ''PPID: '' @ int_text (ps_ppid child) @ '']'' @ ANSI_COLOR_RESET @ [CHR 0x0A]
      else ''['' @ ANSI_COLOR_CYAN @ pad_left 20 (ps_comm child) @ ANSI_COLOR_RESET @ ''PID: '' @ ANSI_COLOR_YELLOW @
           pad_left 10 (int_text (ps_pid child)) @ ANSI_COLOR_RESET @ ''PPID: '' @ ANSI_COLOR_GREEN @ int_text (ps_ppid child) @
           ANSI_COLOR_RESET @ '']'' @ [CHR 0x0A])"

definition pParent :: "proc_status \<Rightarrow> string" where
  "pParent parent =
     ANSI_COLOR_RED @ ''['' @ pad_left 20 (ps_comm parent) @ ''PID: '' @ pad_left 10 (int_text (ps_pid parent)) @ ''PPID: '' @
     int_text (ps_ppid parent) @ '']'' @ ANSI_COLOR_RESET @ [CHR 0x0A]"

definition hasChildren :: "ptr \<Rightarrow> pmem \<Rightarrow> bool res" where
  "hasChildren status s =
     rbind (rewindStatus status s) (\<lambda>sp.
     rbind (cwhile (\<lambda>(sp, hit). sp \<noteq> NULL \<and> \<not> hit)
              (\<lambda>(sp, hit). rbind (node_get sp s) (\<lambda>n. rbind (node_get status s) (\<lambda>m.
                 if ps_ppid (st_fields n) = ps_pid (st_fields m) \<and> sp \<noteq> status then Inr (sp, True) else Inr (lnext n, False))))
              (sp, False))
       (\<lambda>(sp, hit). Inr hit))"

fun drawChildren :: "int \<Rightarrow> nat \<Rightarrow> ptr \<Rightarrow> ptr \<Rightarrow> nat \<Rightarrow> pmem \<Rightarrow> string res" where
  "drawChildren me 0 parent all level s = Inl Diverges"
| "drawChildren me (Suc k) parent all level s =
     rbind (rewindStatus all s) (\<lambda>ap.
     rbind (cwhile (\<lambda>st. fst st \<noteq> NULL)
              (\<lambda>(ap, out). rbind (node_get ap s) (\<lambda>n.
                 rbind (rbind (node_get parent s) (\<lambda>m.
                        if ps_ppid (st_fields n) = ps_pid (st_fields m) \<and> ap \<noteq> parent
                        then rbind (hasChildren ap s) (\<lambda>h.
                             if h then rbind (drawChildren me k ap all (level + 1) s) (\<lambda>sub.
                                       Inr (out @ levelPadding level @ pParent (st_fields n) @ sub))
                             else Inr (out @ levelPadding level @ pChild me (st_fields n)))
                        else Inr out))
                   (\<lambda>out1. Inr (lnext n, out1))))
              (ap, []))
       (\<lambda>(ap, out). Inr out))"

definition draw :: "int \<Rightarrow> nat \<Rightarrow> ptr \<Rightarrow> pmem \<Rightarrow> string res" where
  "draw me fuel status s =
     rbind (rewindStatus status s) (\<lambda>sptr.
     rbind (cwhile (\<lambda>st. fst st \<noteq> NULL)
              (\<lambda>(sptr, out). rbind (node_get sptr s) (\<lambda>n.
                 rbind (if ps_ppid (st_fields n) = 0
                        then rbind (drawChildren me fuel sptr status 1 s) (\<lambda>sub. Inr (out @ pParent (st_fields n) @ sub))
                        else Inr out)
                   (\<lambda>out1. Inr (lnext n, out1))))
              (sptr, []))
       (\<lambda>(sptr, out). Inr out))"

section \<open>The program\<close>

text \<open>The body of the loop over \<^verbatim>\<open>/proc\<close>; \<open>status\<close> is None before its first assignment.\<close>

definition proc_step ::
  "(string \<Rightarrow> string option option) \<Rightarrow> string \<Rightarrow> ptr option \<times> ptr \<times> pmem \<Rightarrow> (ptr option \<times> ptr \<times> pmem) res" where
  "proc_step files d_name = (\<lambda>(status, previous, s).
     if isNumericString (Some d_name) \<noteq> 0
     then rbind (readStatus files (atoi d_name) s) (\<lambda>(status1, s1).
          if status1 \<noteq> NULL then rbind (insertProcess previous status1 s1) (\<lambda>s2. Inr (Some status1, status1, s2))
          else Inr (Some status1, previous, s1))
     else Inr (status, previous, s))"

fun proc_loop ::
  "(string \<Rightarrow> string option option) \<Rightarrow> string list \<Rightarrow> ptr option \<times> ptr \<times> pmem \<Rightarrow> (ptr option \<times> ptr \<times> pmem) res" where
  "proc_loop files [] st = Inr st"
| "proc_loop files (d # ds) st = rbind (proc_step files d st) (proc_loop files ds)"

definition tree_main :: "(string \<Rightarrow> string option option) \<Rightarrow> string list option \<Rightarrow> int \<Rightarrow> nat \<Rightarrow> pmem \<Rightarrow> (string \<times> pmem) res" where
  "tree_main files dir me fuel s =
     (case dir of None \<Rightarrow> Inl Null_Deref
      | Some names \<Rightarrow>
          rbind (proc_loop files names (None, NULL, s)) (\<lambda>(status, previous, s1).
            case status of None \<Rightarrow> Inl Uninitialised
            | Some status \<Rightarrow>
                rbind (draw me fuel status s1) (\<lambda>out.
                rbind (freeAllStatus previous s1) (\<lambda>s2. Inr (out, s2)))))"

section \<open>The forest\<close>

datatype ptree = PNode (proot: proc_status) (psubs: "ptree list")

definition children :: "proc_status list \<Rightarrow> proc_status \<Rightarrow> proc_status list" where
  "children vs v = filter (\<lambda>w. ps_ppid w = ps_pid v \<and> ps_pid w \<noteq> ps_pid v) vs"

text \<open>A tree whose nodes have all their children, in the order of the list.\<close>

fun tree_in :: "proc_status list \<Rightarrow> ptree \<Rightarrow> bool" where
  "tree_in vs (PNode v ts) \<longleftrightarrow> v \<in> set vs \<and> map proot ts = children vs v \<and> (\<forall>t \<in> set ts. tree_in vs t)"

fun tree_text :: "int \<Rightarrow> nat \<Rightarrow> ptree \<Rightarrow> string" where
  "tree_text me level (PNode v ts) = levelPadding level @ (if ts = [] then pChild me v else pParent v @ concat (map (tree_text me (Suc level)) ts))"

definition root_text :: "int \<Rightarrow> ptree \<Rightarrow> string" where
  "root_text me t = pParent (proot t) @ concat (map (tree_text me 1) (psubs t))"

fun pdepth :: "ptree \<Rightarrow> nat" where
  "pdepth (PNode v ts) = Suc (foldr (\<lambda>t m. max (pdepth t) m) ts 0)"

lemma pdepth_subs: "t \<in> set (psubs u) \<Longrightarrow> pdepth t < pdepth u"
proof -
  have "t \<in> set ts \<Longrightarrow> pdepth t \<le> foldr (\<lambda>t m. max (pdepth t) m) ts 0" for ts
    by (induction ts) auto
  then show "t \<in> set (psubs u) \<Longrightarrow> pdepth t < pdepth u" by (cases u) (simp add: less_Suc_eq_le)
qed

lemma tree_inD: "tree_in vs t \<Longrightarrow> proot t \<in> set vs \<and> map proot (psubs t) = children vs (proot t) \<and> (\<forall>u \<in> set (psubs t). tree_in vs u)"
  by (cases t) simp

lemma find_hit: "List.find P xs = Some x \<Longrightarrow> x \<in> set xs \<and> P x"
  by (induction xs) (auto split: if_splits)

lemma concat_trees:
  assumes "distinct vs" and "map proot ts = filter P vs"
  shows "concat (map (\<lambda>w. case List.find (\<lambda>t. proot t = w) ts of Some t \<Rightarrow> F t | None \<Rightarrow> []) vs) = concat (map F ts)"
  using assms
proof (induction vs arbitrary: ts)
  case (Cons w vs)
  show ?case
  proof (cases "P w")
    case True
    then obtain t ts' where ts: "ts = t # ts'" "proot t = w" "map proot ts' = filter P vs" using Cons.prems(2) by (cases ts) auto
    have eq: "map (\<lambda>x. case List.find (\<lambda>t. proot t = x) ts of Some t \<Rightarrow> F t | None \<Rightarrow> []) vs
        = map (\<lambda>x. case List.find (\<lambda>t. proot t = x) ts' of Some t \<Rightarrow> F t | None \<Rightarrow> []) vs"
      using Cons.prems(1) ts(1, 2) by (intro map_cong) auto
    have hd: "(case List.find (\<lambda>t. proot t = w) ts of Some t \<Rightarrow> F t | None \<Rightarrow> []) = F t" using ts(1, 2) by simp
    have "distinct vs" using Cons.prems(1) by simp
    from Cons.IH [OF this ts(3)] show ?thesis unfolding list.map concat.simps eq hd by (simp add: ts(1))
  next
    case False
    have "set (map proot ts) = set (filter P (w # vs))" using Cons.prems(2) by simp
    then have "\<forall>t \<in> set ts. proot t \<noteq> w" using False by auto
    then have "List.find (\<lambda>t. proot t = w) ts = None" by (simp add: find_None_iff)
    then show ?thesis using Cons False by simp
  qed
qed simp

lemma foldl_append_concat: "foldl (\<lambda>out (p, v). out @ F v) a xs = a @ concat (map (\<lambda>x. F (snd x)) xs)"
  by (induction xs arbitrary: a) auto

text \<open>The entries of the list: distinct addresses and distinct process numbers.\<close>

definition listed :: "pmem \<Rightarrow> (ptr \<times> proc_status) list \<Rightarrow> bool" where
  "listed s es \<longleftrightarrow> chain s (cells es) \<and> distinct (map (\<lambda>x. ps_pid (snd x)) es)"

lemma listed_same:
  assumes "listed s es" and "(p, v) \<in> set es" and "(q, w) \<in> set es"
  shows "p = q \<longleftrightarrow> ps_pid v = ps_pid w"
proof -
  have "distinct (map fst es)" using chainD(2) [of s "cells es"] assms(1) by (simp add: listed_def comp_def)
  moreover have "distinct (map (\<lambda>x. ps_pid (snd x)) es)" using assms(1) by (simp add: listed_def)
  ultimately have "fst x = fst y \<longleftrightarrow> ps_pid (snd x) = ps_pid (snd y)" if "x \<in> set es" "y \<in> set es" for x y
    using that unfolding distinct_map inj_on_def by metis
  from this [OF assms(2, 3)] show ?thesis by simp
qed

lemma listed_rewind: "listed s es \<Longrightarrow> (p, v) \<in> set es \<Longrightarrow> rewindStatus p s = Inr (first_of (cells es) NULL)"
  unfolding rewindStatus_def listed_def by (rule rewind_addr) (force simp: addrs_cells)+

lemma listed_node:
  assumes "listed s es" and "(p, v) \<in> set es"
  shows "\<exists>n. node_get p s = Inr n \<and> st_fields n = v \<and> lval n = Some v"
proof -
  obtain xs ys where es: "es = xs @ (p, v) # ys" using split_list [OF assms(2)] by blast
  then have "chain s (cells xs @ (p, Some v) # cells ys)" using assms(1) by (simp add: listed_def)
  from chain_node [OF this] show ?thesis by (simp add: st_fields_def)
qed

lemma hasChildren_ok:
  assumes "listed s es" and "(p, v) \<in> set es"
  shows "hasChildren p s = Inr (children (map snd es) v \<noteq> [])"
proof -
  obtain m where m: "node_get p s = Inr m" "st_fields m = v" using listed_node [OF assms] by blast
  let ?P = "\<lambda>q w. ps_ppid (case w of Some v \<Rightarrow> v | None \<Rightarrow> empty_status) = ps_pid v \<and> q \<noteq> p"
  have loop: "cwhile (\<lambda>(sp, hit). sp \<noteq> NULL \<and> \<not> hit) (\<lambda>(sp, hit). rbind (node_get sp s) (\<lambda>n. rbind (node_get p s) (\<lambda>m.
      if ps_ppid (st_fields n) = ps_pid (st_fields m) \<and> sp \<noteq> p then Inr (sp, True) else Inr (lnext n, False)))) (first_of (cells es) NULL, False)
    = Inr (case List.find (\<lambda>x. ?P (fst x) (snd x)) (cells es) of None \<Rightarrow> (NULL, False) | Some x \<Rightarrow> (fst x, True))"
    using walk_find [of s "cells es" ?P] assms(1) m by (simp add: listed_def st_fields_def)
  have "List.find (\<lambda>x. ?P (fst x) (snd x)) (cells es) = None \<longleftrightarrow> children (map snd es) v = []"
  proof -
    have "(\<forall>x \<in> set es. \<not> (ps_ppid (snd x) = ps_pid v \<and> fst x \<noteq> p)) \<longleftrightarrow> (\<forall>x \<in> set es. \<not> (ps_ppid (snd x) = ps_pid v \<and> ps_pid (snd x) \<noteq> ps_pid v))"
      using listed_same [OF assms(1) _ assms(2)] by (metis prod.collapse)
    then show ?thesis by (auto simp: find_None_iff children_def filter_empty_conv)
  qed
  then show ?thesis unfolding hasChildren_def listed_rewind [OF assms] rbind_Inr loop
    by (cases "List.find (\<lambda>x. ?P (fst x) (snd x)) (cells es)") simp_all
qed

lemma drawChildren_ok:
  assumes "listed s es" and "(a, u) \<in> set es" and "(p, v) \<in> set es" and "map proot ts = children (map snd es) v"
    and "\<forall>t \<in> set ts. tree_in (map snd es) t \<and> pdepth t \<le> k"
  shows "drawChildren me (Suc k) p a level s = Inr (concat (map (tree_text me level) ts))"
  using assms(3-5)
proof (induction k arbitrary: p v ts level rule: less_induct)
  case (less k)
  let ?vs = "map snd es"
  let ?F = "\<lambda>w. case List.find (\<lambda>t. proot t = w) ts of Some t \<Rightarrow> tree_text me level t | None \<Rightarrow> []"
  let ?g = "\<lambda>ap n out. rbind (node_get p s) (\<lambda>m.
      if ps_ppid (st_fields n) = ps_pid (st_fields m) \<and> ap \<noteq> p
      then rbind (hasChildren ap s) (\<lambda>h.
           if h then rbind (drawChildren me k ap a (level + 1) s) (\<lambda>sub. Inr (out @ levelPadding level @ pParent (st_fields n) @ sub))
           else Inr (out @ levelPadding level @ pChild me (st_fields n)))
      else Inr out)"
  obtain m where m: "node_get p s = Inr m" "st_fields m = v" using listed_node [OF assms(1) less.prems(1)] by blast
  have dv: "distinct ?vs" using assms(1) unfolding listed_def distinct_map inj_on_def by metis
  have body: "?g q n out = Inr (out @ ?F w)" if q: "(q, w) \<in> set es" and n: "lval n = Some w" for q w n out
  proof -
    have f: "st_fields n = w" using n by (simp add: st_fields_def)
    have same: "q \<noteq> p \<longleftrightarrow> ps_pid w \<noteq> ps_pid v" using listed_same [OF assms(1) q less.prems(1)] by simp
    have wvs: "w \<in> set ?vs" using q by force
    show ?thesis
    proof (cases "ps_ppid w = ps_pid v \<and> ps_pid w \<noteq> ps_pid v")
      case True
      have "w \<in> set (map proot ts)" unfolding less.prems(2) children_def using True wvs by simp
      then obtain t where found: "List.find (\<lambda>t. proot t = w) ts = Some t" by (cases "List.find (\<lambda>t. proot t = w) ts") (auto simp: find_None_iff)
      have t: "t \<in> set ts" "proot t = w" "?F w = tree_text me level t" using find_hit [OF found] found by simp_all
      have ti: "tree_in ?vs t" "pdepth t \<le> k" using less.prems(3) t(1) by auto
      obtain us where tu: "t = PNode w us" using t(2) by (cases t) auto
      have us: "map proot us = children ?vs w" "\<forall>x \<in> set us. tree_in ?vs x" using ti(1) tu by auto
      have h: "hasChildren q s = Inr (us \<noteq> [])" using hasChildren_ok [OF assms(1) q] by (simp flip: us(1))
      show ?thesis
      proof (cases "us = []")
        case True
        then show ?thesis using m f same \<open>ps_ppid w = ps_pid v \<and> ps_pid w \<noteq> ps_pid v\<close> h t(3) tu by simp
      next
        case False
        then obtain k' where k: "k = Suc k'" using ti(2) tu by (cases k) auto
        have "\<forall>x \<in> set us. pdepth x \<le> k'" using pdepth_subs [of _ t] ti(2) tu k by fastforce
        then have "drawChildren me k q a (level + 1) s = Inr (concat (map (tree_text me (level + 1)) us))"
          unfolding k using less.IH [of k' q w us "level + 1"] q us k by simp
        then show ?thesis using m f same \<open>ps_ppid w = ps_pid v \<and> ps_pid w \<noteq> ps_pid v\<close> h t(3) tu False by simp
      qed
    next
      case False
      have "w \<notin> set (map proot ts)" unfolding less.prems(2) children_def using False by simp
      then have "List.find (\<lambda>t. proot t = w) ts = None" by (auto simp: find_None_iff)
      then show ?thesis using m f same False by auto
    qed
  qed
  have loop: "cwhile (\<lambda>st. fst st \<noteq> NULL) (\<lambda>(ap, out). rbind (node_get ap s) (\<lambda>n. rbind (?g ap n out) (\<lambda>out1. Inr (lnext n, out1))))
      (first_of (cells es) NULL, []) = Inr (NULL, foldl (\<lambda>out (q, w). out @ ?F (case w of Some w \<Rightarrow> w | None \<Rightarrow> v)) [] (cells es))"
  proof (rule walk_fold_res)
    show "chain s (cells es)" using assms(1) by (simp add: listed_def)
    show "\<forall>q w. (q, w) \<in> set (cells es) \<longrightarrow> (\<forall>n out. lval n = w \<longrightarrow> ?g q n out = Inr (out @ ?F (case w of Some w \<Rightarrow> w | None \<Rightarrow> v)))"
    proof (intro allI impI)
      fix q w out and n :: "proc_status lnode" assume q: "(q, w) \<in> set (cells es)" and n: "lval n = w"
      obtain x where x: "w = Some x" "(q, x) \<in> set es" using q by auto
      show "?g q n out = Inr (out @ ?F (case w of Some w \<Rightarrow> w | None \<Rightarrow> v))"
        unfolding x(1) option.case by (rule body [OF x(2)]) (use n x(1) in simp)
    qed
  qed
  have "foldl (\<lambda>out (q, w). out @ ?F (case w of Some w \<Rightarrow> w | None \<Rightarrow> v)) [] (cells es) = concat (map ?F ?vs)"
    by (simp add: foldl_append_concat comp_def)
  also have "\<dots> = concat (map (tree_text me level) ts)"
    by (rule concat_trees [OF dv]) (use less.prems(2) in \<open>simp add: children_def\<close>)
  finally show ?case unfolding drawChildren.simps listed_rewind [OF assms(1, 2)] rbind_Inr loop by simp
qed

lemma draw_ok:
  assumes "listed s es" and "(a, u) \<in> set es" and "map proot ts = filter (\<lambda>v. ps_ppid v = 0) (map snd es)"
    and "\<forall>t \<in> set ts. tree_in (map snd es) t \<and> pdepth t \<le> fuel"
  shows "draw me fuel a s = Inr (concat (map (root_text me) ts))"
proof -
  let ?vs = "map snd es"
  let ?F = "\<lambda>w. case List.find (\<lambda>t. proot t = w) ts of Some t \<Rightarrow> root_text me t | None \<Rightarrow> []"
  let ?g = "\<lambda>q n out. if ps_ppid (st_fields n) = 0
      then rbind (drawChildren me fuel q a 1 s) (\<lambda>sub. Inr (out @ pParent (st_fields n) @ sub)) else Inr out"
  have dv: "distinct ?vs" using assms(1) unfolding listed_def distinct_map inj_on_def by metis
  have body: "?g q n out = Inr (out @ ?F w)" if q: "(q, w) \<in> set es" and n: "lval n = Some w" for q w n out
  proof -
    have f: "st_fields n = w" using n by (simp add: st_fields_def)
    have wvs: "w \<in> set ?vs" using q by force
    show ?thesis
    proof (cases "ps_ppid w = 0")
      case True
      have "w \<in> set (map proot ts)" unfolding assms(3) using True wvs by simp
      then obtain t where found: "List.find (\<lambda>t. proot t = w) ts = Some t" by (cases "List.find (\<lambda>t. proot t = w) ts") (auto simp: find_None_iff)
      have t: "t \<in> set ts" "proot t = w" "?F w = root_text me t" using find_hit [OF found] found by simp_all
      have ti: "tree_in ?vs t" "pdepth t \<le> fuel" using assms(4) t(1) by auto
      then obtain k where k: "fuel = Suc k" by (cases t, cases fuel) auto
      have "\<forall>x \<in> set (psubs t). tree_in ?vs x \<and> pdepth x \<le> k" using tree_inD [OF ti(1)] pdepth_subs [of _ t] ti(2) k by fastforce
      then have "drawChildren me fuel q a 1 s = Inr (concat (map (tree_text me 1) (psubs t)))"
        unfolding k using drawChildren_ok [OF assms(1, 2) q] tree_inD [OF ti(1)] t(2) by blast
      then show ?thesis using f True t(2, 3) by (simp add: root_text_def)
    next
      case False
      have "w \<notin> set (map proot ts)" unfolding assms(3) using False by simp
      then have "List.find (\<lambda>t. proot t = w) ts = None" by (auto simp: find_None_iff)
      then show ?thesis using f False by auto
    qed
  qed
  have loop: "cwhile (\<lambda>st. fst st \<noteq> NULL) (\<lambda>(q, out). rbind (node_get q s) (\<lambda>n. rbind (?g q n out) (\<lambda>out1. Inr (lnext n, out1))))
      (first_of (cells es) NULL, []) = Inr (NULL, foldl (\<lambda>out (q, w). out @ ?F (case w of Some w \<Rightarrow> w | None \<Rightarrow> u)) [] (cells es))"
  proof (rule walk_fold_res)
    show "chain s (cells es)" using assms(1) by (simp add: listed_def)
    show "\<forall>q w. (q, w) \<in> set (cells es) \<longrightarrow> (\<forall>n out. lval n = w \<longrightarrow> ?g q n out = Inr (out @ ?F (case w of Some w \<Rightarrow> w | None \<Rightarrow> u)))"
    proof (intro allI impI)
      fix q w out and n :: "proc_status lnode" assume q: "(q, w) \<in> set (cells es)" and n: "lval n = w"
      obtain x where x: "w = Some x" "(q, x) \<in> set es" using q by auto
      show "?g q n out = Inr (out @ ?F (case w of Some w \<Rightarrow> w | None \<Rightarrow> u))"
        unfolding x(1) option.case by (rule body [OF x(2)]) (use n x(1) in simp)
    qed
  qed
  have "foldl (\<lambda>out (q, w). out @ ?F (case w of Some w \<Rightarrow> w | None \<Rightarrow> u)) [] (cells es) = concat (map ?F ?vs)"
    by (simp add: foldl_append_concat comp_def)
  also have "\<dots> = concat (map (root_text me) ts)" by (rule concat_trees [OF dv assms(3)])
  finally show ?thesis unfolding draw_def listed_rewind [OF assms(1, 2)] rbind_Inr loop by simp
qed

section \<open>Reading and freeing the list\<close>

lemma lag_free:
  assumes "lseg (lnodes s) pv ((p, v) # xs) NULL" and "distinct (map fst ((p, v) # xs))" and "NULL \<notin> addrs ((p, v) # xs)"
    and "addrs ((p, v) # xs) \<subseteq> live s"
  shows "rbind (cwhile (\<lambda>st. fst st \<noteq> NULL)
      (\<lambda>(sptr, prev, s). rbind (node_free prev s) (\<lambda>s1. rbind (node_get sptr s1) (\<lambda>n. Inr (lnext n, sptr, s1))))
      (first_of xs NULL, p, s)) (\<lambda>(sptr, prev, s). node_free prev s) = Inr (freed (addrs ((p, v) # xs)) s)"
  using assms
proof (induction xs arbitrary: pv p v s)
  case Nil
  then show ?case by (simp add: node_free_freed)
next
  case (Cons y ys)
  obtain q w where y: "y = (q, w)" by (cases y)
  have p: "p \<in> live s" "p \<noteq> NULL" "p \<notin> addrs (y # ys)" using Cons.prems(2-4) by auto
  let ?s = "freed {p} s"
  have seg: "lseg (lnodes ?s) p ((q, w) # ys) NULL"
  proof -
    have "lseg (lnodes ?s) p (y # ys) NULL = lseg (lnodes s) p (y # ys) NULL"
      by (rule lseg_cong) (use p(3) in \<open>auto simp: freed_def\<close>)
    then show ?thesis using Cons.prems(1) y by simp
  qed
  have live: "addrs ((q, w) # ys) \<subseteq> live ?s" using Cons.prems(4) p(3) y by (auto simp: freed_def)
  have get: "node_get q ?s = Inr \<lparr>lnext = first_of ys NULL, lprev = p, lval = w\<rparr>" using seg Cons.prems(3) y by (auto simp: node_get_def)
  have IH: "rbind (cwhile (\<lambda>st. fst st \<noteq> NULL)
      (\<lambda>(sptr, prev, s). rbind (node_free prev s) (\<lambda>s1. rbind (node_get sptr s1) (\<lambda>n. Inr (lnext n, sptr, s1))))
      (first_of ys NULL, q, ?s)) (\<lambda>(sptr, prev, s). node_free prev s) = Inr (freed (addrs ((q, w) # ys)) ?s)"
    using Cons.IH [OF seg _ _ live] Cons.prems(2, 3) y by simp
  have "q \<noteq> NULL" using Cons.prems(3) y by simp
  moreover have "addrs ((q, w) # ys) \<union> {p} = addrs ((p, v) # y # ys)" using y by auto
  ultimately show ?case using IH get node_free_freed [OF p(1, 2)] y by (subst cwhile_go) (simp_all add: freed_freed)
qed

lemma freeAllStatus_ok:
  assumes "chain s xs" and "p \<in> addrs xs"
  shows "freeAllStatus p s = Inr (freed (addrs xs) s)"
proof -
  note c = chainD [OF assms(1)]
  obtain q w ys where xs: "xs = (q, w) # ys" using assms(2) by (cases xs) auto
  have "p \<noteq> NULL" using assms(2) c(3) by metis
  moreover have "rewindStatus p s = Inr q" using rewind_addr [OF assms] xs by (simp add: rewindStatus_def)
  moreover have "node_get q s = Inr \<lparr>lnext = first_of ys NULL, lprev = NULL, lval = w\<rparr>"
    using chain_node [of s "[]" q w ys] assms(1) xs by simp
  ultimately show ?thesis using lag_free [of s NULL q w ys] c xs by (simp add: freeAllStatus_def)
qed

text \<open>The file of a process can be read and gives its fields.\<close>

definition stat_path :: "int \<Rightarrow> string" where
  "stat_path pid = snprintf FILE_PATH_MAX (''/proc/'' @ int_text pid @ ''/stat'')"

definition gives :: "(string \<Rightarrow> string option option) \<Rightarrow> int \<Rightarrow> proc_status \<Rightarrow> bool" where
  "gives files pid v \<longleftrightarrow> (\<exists>content. files (stat_path pid) = Some (Some content) \<and> length content < STATUS_FILE_MAX \<and>
     scan_status (buf_text content) empty_status = Inr v)"

lemma readStatus_ok:
  assumes "chain s (cells es)" and "\<not> fails s (calls s)" and "gives files pid v"
  shows "readStatus files pid s = Inr (Suc (calls s), new_node_mem s (Some v))"
  using assms chain_alloc(1) [OF assms(1, 2)]
  by (auto simp: readStatus_def gives_def stat_path_def node_upd_def node_get_def)

lemma proc_step_ok:
  assumes "chain s (cells es)" and "ample s" and "isNumericString (Some d) \<noteq> 0" and "gives files (atoi d) v"
  shows "\<exists>s'. proc_step files d (status, last_of NULL (cells es), s) = Inr (Some (Suc (calls s)), Suc (calls s), s') \<and>
    chain s' (cells (es @ [(Suc (calls s), v)])) \<and> ample s' \<and> live s' = insert (Suc (calls s)) (live s) \<and> Suc (calls s) \<notin> live s"
proof -
  let ?p = "Suc (calls s)" and ?s1 = "new_node_mem s (Some v)"
  have nf: "\<not> fails s (calls s)" using assms(2) by simp
  note new = chain_alloc [OF assms(1) nf]
  note rd = readStatus_ok [OF assms(1) nf assms(4)]
  show ?thesis
  proof (cases "es = []")
    case True
    have "chain ?s1 (cells [(?p, v)])" using new(5) [of "Some v"] by (simp add: chain_def)
    moreover have "ample ?s1" using assms(2) by (simp add: ample_def)
    moreover have "insertProcess NULL ?p ?s1 = Inr ?s1" by (simp add: insertProcess_def node_upd_def node_get_def fun_upd_idem)
    ultimately show ?thesis using rd True assms(3) new(4) by (intro exI [of _ ?s1]) (simp add: proc_step_def)
  next
    case False
    have ne: "cells es \<noteq> []" using False by simp
    have ch: "chain ?s1 (cells es)" by (rule new(2))
    obtain N where N: "rbind (node_upd (last_of NULL (cells es)) (\<lambda>m. m\<lparr>lnext := ?p\<rparr>) ?s1) (node_upd ?p (\<lambda>m. m\<lparr>lprev := last_of NULL (cells es)\<rparr>))
        = Inr (?s1\<lparr>lnodes := N\<rparr>)" "chain (?s1\<lparr>lnodes := N\<rparr>) (cells es @ [(?p, Some v)])"
      using chain_link [OF ch ne new(3), of NULL "Some v"] by auto
    have "last_of NULL (cells es) \<noteq> NULL" using last_of_in [OF ne, of NULL] chainD(3) [OF assms(1)] by metis
    then have "insertProcess (last_of NULL (cells es)) ?p ?s1 = Inr (?s1\<lparr>lnodes := N\<rparr>)" using N(1) by (simp add: insertProcess_def)
    moreover have "ample (?s1\<lparr>lnodes := N\<rparr>)" using assms(2) by (simp add: ample_def)
    ultimately show ?thesis using rd assms(3) new(4) N(2) by (intro exI [of _ "?s1\<lparr>lnodes := N\<rparr>"]) (simp add: proc_step_def)
  qed
qed

lemma last_of_snoc: "last_of pv (xs @ [(p, v)]) = p"
  by (induction xs arbitrary: pv) auto

definition numeric :: "string \<Rightarrow> bool" where
  "numeric d \<longleftrightarrow> isNumericString (Some d) \<noteq> 0"

lemma proc_loop_ok:
  assumes "chain s (cells es)" and "ample s" and "\<forall>d \<in> set ds. numeric d \<longrightarrow> gives files (atoi d) (f d)"
    and "status = None \<longleftrightarrow> es = []" and "es \<noteq> [] \<longrightarrow> status = Some (last_of NULL (cells es))" and "fst ` set es \<subseteq> L" and "live s = live s0 \<union> L"
    and "L \<inter> live s0 = {}" and "L \<subseteq> fst ` set es"
  shows "\<exists>s' es' status'. proc_loop files ds (status, last_of NULL (cells es), s) = Inr (status', last_of NULL (cells es'), s') \<and>
    chain s' (cells es') \<and> ample s' \<and> map snd es' = map snd es @ map f (filter numeric ds) \<and> (status' = None \<longleftrightarrow> es' = []) \<and>
    (es' \<noteq> [] \<longrightarrow> status' = Some (last_of NULL (cells es'))) \<and> live s' = live s0 \<union> fst ` set es' \<and> fst ` set es' \<inter> live s0 = {}"
  using assms
proof (induction ds arbitrary: s es status L)
  case Nil
  then have "L = fst ` set es" by blast
  then show ?case using Nil by (intro exI [of _ s] exI [of _ es] exI [of _ status]) auto
next
  case (Cons d ds)
  show ?case
  proof (cases "numeric d")
    case True
    let ?es = "es @ [(Suc (calls s), f d)]"
    have g: "gives files (atoi d) (f d)" using Cons.prems(3) True by simp
    have num: "isNumericString (Some d) \<noteq> 0" using True by (simp add: numeric_def)
    obtain s1 where s1: "proc_step files d (status, last_of NULL (cells es), s) = Inr (Some (Suc (calls s)), Suc (calls s), s1)"
      "chain s1 (cells ?es)" "ample s1" "live s1 = insert (Suc (calls s)) (live s)" "Suc (calls s) \<notin> live s"
      using proc_step_ok [OF Cons.prems(1, 2) num g, of status] by (elim exE conjE) (rule that)
    have last: "last_of NULL (cells ?es) = Suc (calls s)" by (simp add: last_of_snoc)
    have pre: "\<forall>d \<in> set ds. numeric d \<longrightarrow> gives files (atoi d) (f d)" using Cons.prems(3) by simp
    have L: "fst ` set ?es \<subseteq> insert (Suc (calls s)) L" "live s1 = live s0 \<union> insert (Suc (calls s)) L" "insert (Suc (calls s)) L \<inter> live s0 = {}"
      "insert (Suc (calls s)) L \<subseteq> fst ` set ?es"
      using Cons.prems(6-9) s1(4, 5) by auto
    have run: "proc_loop files (d # ds) (status, last_of NULL (cells es), s) = proc_loop files ds (Some (Suc (calls s)), last_of NULL (cells ?es), s1)"
      unfolding last using s1(1) by simp
    have eq: "map snd es @ map f (filter numeric (d # ds)) = map snd ?es @ map f (filter numeric ds)" using True by simp
    have st: "(Some (Suc (calls s)) = None) = (?es = [])" "?es \<noteq> [] \<longrightarrow> Some (Suc (calls s)) = Some (last_of NULL (cells ?es))"
      using last by simp_all
    show ?thesis unfolding run eq by (rule Cons.IH [OF s1(2, 3) pre st L])
  next
    case False
    then have "proc_step files d (status, last_of NULL (cells es), s) = Inr (status, last_of NULL (cells es), s)"
      by (simp add: proc_step_def numeric_def)
    then show ?thesis using Cons.IH [OF Cons.prems(1, 2) _ Cons.prems(4-9)] Cons.prems(3) False by simp
  qed
qed

section \<open>Properties\<close>

text \<open>C20: When every numeric entry of \<^verbatim>\<open>/proc\<close> can be read and the processes are a forest, the program draws the forest: every
  process whose parent is 0 with its descendants behind it, the children of a process in the order of \<^verbatim>\<open>/proc\<close>, each indented by its
  depth and marked as a parent or a leaf; and it frees the whole list.\<close>

theorem process_tree_drawn:
  assumes "mem_ok s" and "ample s" and "\<forall>d \<in> set names. numeric d \<longrightarrow> gives files (atoi d) (f d)"
    and "vs = map f (filter numeric names)" and "vs \<noteq> []" and "distinct (map ps_pid vs)"
    and "map proot ts = filter (\<lambda>v. ps_ppid v = 0) vs" and "\<forall>t \<in> set ts. tree_in vs t \<and> pdepth t \<le> fuel"
  shows "\<exists>s'. tree_main files (Some names) me fuel s = Inr (concat (map (root_text me) ts), s') \<and> live s' = live s"
proof -
  have "chain s (cells [])" using assms(1) by (simp add: chain_nil)
  from proc_loop_ok [OF this assms(2, 3), where status = None and L = "{}" and ?s0.0 = s]
  obtain s1 es status where l: "proc_loop files names (None, NULL, s) = Inr (status, last_of NULL (cells es), s1)"
    "chain s1 (cells es)" "map snd es = vs" "es \<noteq> [] \<longrightarrow> status = Some (last_of NULL (cells es))" "live s1 = live s \<union> fst ` set es"
    "fst ` set es \<inter> live s = {}"
    using assms(4) by auto
  have ne: "es \<noteq> []" "cells es \<noteq> []" using l(3) assms(5) by auto
  have last: "last_of NULL (cells es) \<in> addrs (cells es)" by (rule last_of_in [OF ne(2)])
  then obtain u where u: "(last_of NULL (cells es), u) \<in> set es" by (auto simp: image_image)
  have "listed s1 es" using l(2, 3) assms(6) by (auto simp: listed_def comp_def)
  then have "draw me fuel (last_of NULL (cells es)) s1 = Inr (concat (map (root_text me) ts))"
    using draw_ok [OF _ u] assms(7, 8) l(3) by blast
  moreover have "freeAllStatus (last_of NULL (cells es)) s1 = Inr (freed (addrs (cells es)) s1)" by (rule freeAllStatus_ok [OF l(2) last])
  moreover have "live (freed (addrs (cells es)) s1) = live s" using l(5, 6) by (auto simp: freed_def image_image)
  ultimately show ?thesis using l(1, 4) ne by (simp add: tree_main_def)
qed

text \<open>C30: When the last numeric entry belongs to a process that has ended before its file is opened, the program draws from a
  NULL pointer and crashes.\<close>

theorem process_tree_crashes:
  assumes "mem_ok s" and "ample s" and "\<forall>d \<in> set names. numeric d \<longrightarrow> gives files (atoi d) (f d)"
    and "numeric d" and "files (stat_path (atoi d)) = None" and "\<forall>e \<in> set rest. \<not> numeric e"
  shows "tree_main files (Some (names @ d # rest)) me fuel s = Inl Null_Deref"
proof -
  have "chain s (cells [])" using assms(1) by (simp add: chain_nil)
  from proc_loop_ok [OF this assms(2, 3), where status = None and L = "{}" and ?s0.0 = s]
  obtain s1 p st where l: "proc_loop files names (None, NULL, s) = Inr (st, p, s1)" by auto
  have "proc_step files d (st, p, s1) = Inr (Some NULL, p, snd (node_alloc s1))"
    using assms(4, 5) by (simp add: proc_step_def numeric_def readStatus_def stat_path_def split: prod.split)
  moreover have "proc_loop files rest y = Inr y" for y
    using assms(6) by (induction rest) (auto simp: proc_step_def numeric_def split: prod.split)
  moreover have "proc_loop files (xs @ ys) = (\<lambda>y. rbind (proc_loop files xs y) (proc_loop files ys))" for xs ys
  proof (induction xs)
    case (Cons x xs)
    show ?case by (rule ext) (simp add: Cons.IH rbind_assoc)
  qed (simp add: fun_eq_iff)
  ultimately have "proc_loop files (names @ d # rest) (None, NULL, s) = Inr (Some NULL, p, snd (node_alloc s1))" using l by simp
  then show ?thesis by (simp add: tree_main_def draw_def rewindStatus_def rewind_node_def node_get_def)
qed

text \<open>When every parent has a smaller number than its child, there are such trees.\<close>

lemma trees_exist:
  assumes "\<forall>v \<in> set vs. ps_ppid v < ps_pid v" and "v \<in> set vs"
  shows "\<exists>t. proot t = v \<and> tree_in vs t"
  using assms(2)
proof (induction "nat (Max (ps_pid ` set vs) - ps_pid v)" arbitrary: v rule: less_induct)
  case less
  have "\<exists>t. proot t = w \<and> tree_in vs t" if w: "w \<in> set (children vs v)" for w
  proof -
    have wv: "w \<in> set vs" "ps_pid v < ps_pid w" using w assms(1) by (auto simp: children_def)
    have "ps_pid w \<le> Max (ps_pid ` set vs)" using wv(1) by simp
    then have "nat (Max (ps_pid ` set vs) - ps_pid w) < nat (Max (ps_pid ` set vs) - ps_pid v)" using wv(2) by simp
    then show ?thesis using less.hyps wv(1) by blast
  qed
  then obtain sub where sub: "\<forall>w \<in> set (children vs v). proot (sub w) = w \<and> tree_in vs (sub w)" by metis
  have "map proot (map sub (children vs v)) = children vs v" using sub by (simp add: map_idI)
  then show ?case using less.prems sub by (intro exI [of _ "PNode v (map sub (children vs v))"]) auto
qed

definition ex_init :: proc_status where
  "ex_init = \<lparr>ps_pid = 1, ps_comm = ''(init)'', ps_state = CHR ''S'', ps_ppid = 0, ps_pgrp = 1\<rparr>"

definition ex_shell :: proc_status where
  "ex_shell = \<lparr>ps_pid = 2, ps_comm = ''(sh)'', ps_state = CHR ''R'', ps_ppid = 1, ps_pgrp = 2\<rparr>"

definition ex_files :: "string \<Rightarrow> string option option" where
  "ex_files p = (if p = ''/proc/1/stat'' then Some (Some ''1 (init) S 0 1 0'') else if p = ''/proc/2/stat'' then Some (Some ''2 (sh) R 1 2 0'') else None)"

definition ex_pmem :: pmem where
  "ex_pmem = \<lparr>calls = 0, fails = (\<lambda>_. False), live = {}, lnodes = (\<lambda>_. None), objs = (\<lambda>_. None)\<rparr>"

lemma ex_texts: "nat_text 0 = ''0''" "nat_text 1 = ''1''" "nat_text (Suc 0) = ''1''" "nat_text 2 = ''2''" "nat_text 3 = ''3''"
  by (simp_all add: nat_text.simps digit_char_literals digit_char_literals(1) [unfolded One_nat_def])

lemma ex_atoi: "atoi ''1'' = 1" "atoi ''2'' = 2" "atoi ''3'' = 3"
  using atoi_nat_text [of 1] atoi_nat_text [of 2] atoi_nat_text [of 3] by (simp_all add: ex_texts INT_MAX_def del: One_nat_def)

lemma ex_paths: "stat_path 1 = ''/proc/1/stat''" "stat_path 2 = ''/proc/2/stat''" "stat_path 3 = ''/proc/3/stat''"
  by (simp_all add: stat_path_def snprintf_def FILE_PATH_MAX_def int_text_def ex_texts del: One_nat_def)

lemma ex_gives: "gives ex_files (atoi ''1'') ex_init" "gives ex_files (atoi ''2'') ex_shell"
proof -
  have l: "stat_line 1 ''init'' (CHR ''S'') 0 1 ''0'' = ''1 (init) S 0 1 0''" "stat_line 2 ''sh'' (CHR ''R'') 1 2 ''0'' = ''2 (sh) R 1 2 0''"
    by (simp_all add: stat_line_def ex_texts del: One_nat_def)
  have "scan_status ''1 (init) S 0 1 0'' empty_status = Inr ex_init"
    using scan_status_line [of "''init''" "CHR ''S''" 1 0 1 "''0''" empty_status] unfolding l by (simp add: is_space_def code_def ex_init_def)
  moreover have "scan_status ''2 (sh) R 1 2 0'' empty_status = Inr ex_shell"
    using scan_status_line [of "''sh''" "CHR ''R''" 2 1 2 "''0''" empty_status] unfolding l by (simp add: is_space_def code_def ex_shell_def)
  ultimately show "gives ex_files (atoi ''1'') ex_init" "gives ex_files (atoi ''2'') ex_shell"
    by (simp_all add: gives_def ex_atoi ex_paths ex_files_def STATUS_FILE_MAX_def buf_text_id NUL_def)
qed

lemma ex_numeric: "numeric ''1''" "numeric ''2''" "numeric ''3''" "\<not> numeric ''.''" "\<not> numeric ''x''"
  by (simp_all add: numeric_def isNumericString_def all_digits_iff is_digit_def code_def)

theorem process_tree_drawn_witness:
  "\<exists>s'. tree_main ex_files (Some [''.'', ''1'', ''2'', ''x'']) 2 3 ex_pmem = Inr (pParent ex_init @ ''    '' @ pChild 2 ex_shell, s') \<and> live s' = {}"
proof -
  let ?f = "\<lambda>d. if d = ''1'' then ex_init else ex_shell"
  let ?t = "PNode ex_init [PNode ex_shell []]"
  have vs: "[ex_init, ex_shell] = map ?f (filter numeric [''.'', ''1'', ''2'', ''x''])" by (simp add: ex_numeric)
  have mem: "mem_ok ex_pmem" "ample ex_pmem" by (simp_all add: ex_pmem_def mem_ok_def ample_def)
  have give: "\<forall>d \<in> set [''.'', ''1'', ''2'', ''x'']. numeric d \<longrightarrow> gives ex_files (atoi d) (?f d)" using ex_gives ex_numeric by simp
  have tree: "map proot [?t] = filter (\<lambda>v. ps_ppid v = 0) [ex_init, ex_shell]"
    "\<forall>t \<in> set [?t]. tree_in [ex_init, ex_shell] t \<and> pdepth t \<le> 3" "distinct (map ps_pid [ex_init, ex_shell])" "[ex_init, ex_shell] \<noteq> []"
    by (simp_all add: ex_init_def ex_shell_def children_def)
  have "root_text 2 ?t = pParent ex_init @ ''    '' @ pChild 2 ex_shell" by (simp add: root_text_def levelPadding_def)
  then show ?thesis
    using process_tree_drawn [OF mem give vs tree(4, 3, 1, 2), of 2] by (simp add: ex_pmem_def)
qed

theorem process_tree_crashes_witness: "tree_main ex_files (Some [''1'', ''2'', ''3'', ''x'']) 2 3 ex_pmem = Inl Null_Deref"
proof -
  let ?f = "\<lambda>d. if d = ''1'' then ex_init else ex_shell"
  have mem: "mem_ok ex_pmem" "ample ex_pmem" by (simp_all add: ex_pmem_def mem_ok_def ample_def)
  have give: "\<forall>d \<in> set [''1'', ''2'']. numeric d \<longrightarrow> gives ex_files (atoi d) (?f d)" using ex_gives by simp
  have "ex_files (stat_path (atoi ''3'')) = None" "\<forall>e \<in> set [''x'']. \<not> numeric e" by (simp_all add: ex_atoi ex_paths ex_files_def ex_numeric)
  then show ?thesis using process_tree_crashes [OF mem give ex_numeric(3), of "[''x'']" 2 3] by simp
qed

end
