(* ===== verification/Mq_Files.thy ===== *)
theory Mq_Files
  imports C_Text
begin

text \<open>
  The file server on POSIX message queues, \<^verbatim>\<open>52-posix-message-queues/exercises/52-3-server.c\<close> and \<^verbatim>\<open>52-3-client.c\<close>.

  The state has the server's queue, the names of the clients' queues and what they hold, and for the server and every client
  where it stands and its locals. A client's queue is known by the number of the process that made it: its name can be
  unlinked while the server still has it open. A step runs up to the next system call; a call that cannot go on yet has no
  step. The argument \<open>got\<close> is -1 when the call fails. \<open>files\<close> gives the contents of the regular files that can be opened.
\<close>

section \<open>State\<close>

definition NAME_SIZE :: nat where "NAME_SIZE = 32"

definition MESSAGE_SIZE :: nat where "MESSAGE_SIZE = 8192"

definition CLIENT_MQ_TEMPLATE :: "int \<Rightarrow> string" where "CLIENT_MQ_TEMPLATE pid = ''/'' @ int_text pid"

definition client_mq_name :: "int \<Rightarrow> string" where
  "client_mq_name pid = snprintf NAME_SIZE (CLIENT_MQ_TEMPLATE pid)"

definition mq_maxmsg :: nat where "mq_maxmsg = 10"

record mq_request =
  rq_pid :: int
  rq_pathname :: string

datatype mq_spc = V_Open | V_Receive | V_Client | V_File | V_Read | V_Send | V_Last | V_Close

datatype mq_cpc = K_Create | K_Server | K_Send | K_Receive | K_Close_Server | K_Close | K_Unlink

record mq_client =
  k_pc :: mq_cpc
  k_path :: string
  k_out :: string
  k_exit :: "int res option"

record mqsys =
  mq_requests :: "mq_request list option"
  mq_names :: "string \<Rightarrow> int option"
  mq_msgs :: "int \<Rightarrow> string list"
  mq_clients :: "int \<Rightarrow> mq_client"
  v_pc :: mq_spc
  v_req :: mq_request
  v_queue :: int
  v_file :: string
  v_resp :: string
  v_log :: string
  v_exit :: "int res option"

section \<open>The server\<close>

definition mq_log :: "string \<Rightarrow> mq_spc \<Rightarrow> mqsys \<Rightarrow> mqsys" where
  "mq_log line pc st = st\<lparr>v_log := v_log st @ line @ newline, v_pc := pc\<rparr>"

definition mq_put :: "int \<Rightarrow> string \<Rightarrow> mq_spc \<Rightarrow> mqsys \<Rightarrow> mqsys option" where
  "mq_put q m pc st =
     (if mq_maxmsg \<le> length (mq_msgs st q) then None
      else Some (st\<lparr>mq_msgs := (mq_msgs st)(q := mq_msgs st q @ [m]), v_pc := pc\<rparr>))"

text \<open>A request's pathname of \<open>PATH_MAX\<close> characters has no NUL: the file cannot be opened, and the message about it reads on
  behind the buffer.\<close>

definition open_file :: "(string \<Rightarrow> string option) \<Rightarrow> string \<Rightarrow> string option" where
  "open_file files path = (if length path < PATH_MAX then files path else None)"

text \<open>What a \<^verbatim>\<open>read\<close> leaves in the buffer.\<close>

definition fill :: "string \<Rightarrow> string \<Rightarrow> string" where
  "fill resp rest = (let chunk = take (MESSAGE_SIZE - 1) rest in chunk @ drop (length chunk) resp)"

definition mq_read :: "mqsys \<Rightarrow> mqsys" where
  "mq_read st = st\<lparr>v_resp := fill (v_resp st) (v_file st), v_file := drop (MESSAGE_SIZE - 1) (v_file st), v_pc := V_Send\<rparr>"

definition mq_server_step :: "(string \<Rightarrow> string option) \<Rightarrow> int \<Rightarrow> mqsys \<Rightarrow> mqsys option" where
  "mq_server_step files got st =
     (if v_exit st \<noteq> None then None
      else case v_pc st of
        V_Open \<Rightarrow>
          Some (if got = - 1 then st\<lparr>v_exit := Some (Inr 1)\<rparr>
                else st\<lparr>mq_requests := Some (case mq_requests st of None \<Rightarrow> [] | Some q \<Rightarrow> q), v_pc := V_Receive\<rparr>)
      | V_Receive \<Rightarrow>
          if got = - 1 then Some (st\<lparr>v_exit := Some (Inr 1)\<rparr>)
          else (case mq_requests st of Some (r # rs) \<Rightarrow> Some (st\<lparr>mq_requests := Some rs, v_req := r, v_pc := V_Client\<rparr>) | _ \<Rightarrow> None)
      | V_Client \<Rightarrow>
          (let name = client_mq_name (rq_pid (v_req st)) in
           case (if got = - 1 then None else mq_names st name) of
             None \<Rightarrow> Some (mq_log (''Could Not open client mq '' @ name) V_Receive st)
           | Some q \<Rightarrow> Some (st\<lparr>v_queue := q, v_pc := V_File\<rparr>))
      | V_File \<Rightarrow>
          (let path = rq_pathname (v_req st) in
           case (if got = - 1 then None else open_file files path) of
             None \<Rightarrow> Some (if length path < PATH_MAX then mq_log (''Could not open file '' @ path) V_Receive st
                           else st\<lparr>v_exit := Some (Inl Out_Of_Bounds)\<rparr>)
           | Some content \<Rightarrow> Some (st\<lparr>v_file := content, v_resp := replicate MESSAGE_SIZE NUL, v_pc := V_Read\<rparr>))
      | V_Read \<Rightarrow> Some (if got = - 1 \<or> v_file st = [] then st\<lparr>v_pc := V_Last\<rparr> else mq_read st)
      | V_Send \<Rightarrow>
          if got = - 1 then Some (mq_log (''Could not send response to '' @ client_mq_name (rq_pid (v_req st))) V_Last st)
          else mq_put (v_queue st) (v_resp st) V_Read st
      | V_Last \<Rightarrow>
          (let st1 = st\<lparr>v_resp := (v_resp st)[0 := NUL]\<rparr> in
           if got = - 1 then Some (mq_log (''Could not terminate client session '' @ client_mq_name (rq_pid (v_req st))) V_Close st1)
           else mq_put (v_queue st) (v_resp st1) V_Close st1)
      | V_Close \<Rightarrow>
          Some (if got = - 1 then mq_log (''Error closing client mq '' @ client_mq_name (rq_pid (v_req st))) V_Receive st
                else st\<lparr>v_pc := V_Receive\<rparr>))"

section \<open>The clients\<close>

definition k_upd :: "int \<Rightarrow> (mq_client \<Rightarrow> mq_client) \<Rightarrow> mqsys \<Rightarrow> mqsys" where
  "k_upd pid f st = st\<lparr>mq_clients := (mq_clients st)(pid := f (mq_clients st pid))\<rparr>"

definition k_fails :: "int \<Rightarrow> mqsys \<Rightarrow> mqsys" where
  "k_fails pid = k_upd pid (\<lambda>c. c\<lparr>k_exit := Some (Inr 1)\<rparr>)"

definition k_goes :: "int \<Rightarrow> mq_cpc \<Rightarrow> mqsys \<Rightarrow> mqsys" where
  "k_goes pid pc = k_upd pid (\<lambda>c. c\<lparr>k_pc := pc\<rparr>)"

definition mq_took :: "int \<Rightarrow> string \<Rightarrow> mqsys \<Rightarrow> mqsys" where
  "mq_took pid m st =
     (if m ! 0 = NUL then k_goes pid K_Close_Server st
      else if NUL \<in> set m then k_upd pid (\<lambda>c. c\<lparr>k_out := k_out c @ buf_text m\<rparr>) st
      else k_upd pid (\<lambda>c. c\<lparr>k_exit := Some (Inl Out_Of_Bounds)\<rparr>) st)"

definition mq_client_step :: "int \<Rightarrow> int \<Rightarrow> mqsys \<Rightarrow> mqsys option" where
  "mq_client_step got pid st =
     (let c = mq_clients st pid; name = client_mq_name pid in
      if k_exit c \<noteq> None then None
      else case k_pc c of
        K_Create \<Rightarrow>
          Some (if got = - 1 \<or> mq_names st name \<noteq> None then k_fails pid st
                else k_goes pid K_Server (st\<lparr>mq_names := (mq_names st)(name := Some pid), mq_msgs := (mq_msgs st)(pid := [])\<rparr>))
      | K_Server \<Rightarrow> Some (if got = - 1 \<or> mq_requests st = None then k_fails pid st else k_goes pid K_Send st)
      | K_Send \<Rightarrow>
          if got = - 1 then Some (k_fails pid st)
          else (case mq_requests st of None \<Rightarrow> None
                | Some rs \<Rightarrow>
                    if mq_maxmsg \<le> length rs then None
                    else Some (k_goes pid K_Receive
                           (st\<lparr>mq_requests := Some (rs @ [\<lparr>rq_pid = pid, rq_pathname = take PATH_MAX (k_path c)\<rparr>])\<rparr>)))
      | K_Receive \<Rightarrow>
          if got = - 1 then Some (k_fails pid st)
          else (case mq_msgs st pid of [] \<Rightarrow> None
                | m # ms \<Rightarrow> Some (mq_took pid m (st\<lparr>mq_msgs := (mq_msgs st)(pid := ms)\<rparr>)))
      | K_Close_Server \<Rightarrow> Some (if got = - 1 then k_fails pid st else k_goes pid K_Close st)
      | K_Close \<Rightarrow> Some (if got = - 1 then k_fails pid st else k_goes pid K_Unlink st)
      | K_Unlink \<Rightarrow>
          Some (if got = - 1 \<or> mq_names st name = None then k_fails pid st
                else k_upd pid (\<lambda>c. c\<lparr>k_exit := Some (Inr 0)\<rparr>) (st\<lparr>mq_names := (mq_names st)(name := None)\<rparr>)))"

section \<open>Interleaving\<close>

text \<open>The server and the clients in \<open>P\<close>; with \<open>works\<close> no call fails but for what the others have done.\<close>

inductive mq_step :: "(string \<Rightarrow> string option) \<Rightarrow> bool \<Rightarrow> int set \<Rightarrow> mqsys \<Rightarrow> mqsys \<Rightarrow> bool" for files works P where
  by_mq_server: "mq_server_step files got st = Some st' \<Longrightarrow> (works \<Longrightarrow> got \<noteq> - 1) \<Longrightarrow> mq_step files works P st st'"
| by_mq_client: "pid \<in> P \<Longrightarrow> mq_client_step got pid st = Some st' \<Longrightarrow> (works \<Longrightarrow> got \<noteq> - 1) \<Longrightarrow> mq_step files works P st st'"

inductive_cases mq_stepE: "mq_step files works P st st'"

definition mq_run :: "(string \<Rightarrow> string option) \<Rightarrow> bool \<Rightarrow> int set \<Rightarrow> mqsys \<Rightarrow> mqsys \<Rightarrow> bool" where
  "mq_run files works P = (mq_step files works P)\<^sup>*\<^sup>*"

text \<open>The server waits for requests, and the clients in \<open>P\<close> have not started.\<close>

definition k_new :: "mqsys \<Rightarrow> int \<Rightarrow> bool" where
  "k_new st p \<longleftrightarrow> 0 \<le> p \<and> p \<le> INT_MAX \<and> k_pc (mq_clients st p) = K_Create \<and> k_out (mq_clients st p) = [] \<and>
     k_exit (mq_clients st p) = None \<and> length (k_path (mq_clients st p)) < PATH_MAX \<and> mq_names st (client_mq_name p) = None"

definition mq_start :: "int set \<Rightarrow> mqsys \<Rightarrow> bool" where
  "mq_start P st \<longleftrightarrow> v_pc st = V_Receive \<and> v_exit st = None \<and> mq_requests st = Some [] \<and> finite P \<and> (\<forall>p \<in> P. k_new st p)"

section \<open>What a client is sent\<close>

text \<open>The messages for the rest of a file: the buffer is not cleared between them.\<close>

function mq_all :: "string \<Rightarrow> string \<Rightarrow> string list" where
  "mq_all resp rest =
     (if rest = [] then [resp[0 := NUL]]
      else fill resp rest # mq_all (fill resp rest) (drop (MESSAGE_SIZE - 1) rest))"
  by pat_completeness auto
termination by (relation "measure (\<lambda>(resp, rest). length rest)") (auto simp: MESSAGE_SIZE_def)

declare mq_all.simps [simp del]

definition mq_answer :: "(string \<Rightarrow> string option) \<Rightarrow> string \<Rightarrow> string list" where
  "mq_answer files path = (case open_file files path of None \<Rightarrow> [] | Some f \<Rightarrow> mq_all (replicate MESSAGE_SIZE NUL) f)"

definition shown :: "string list \<Rightarrow> string" where
  "shown ms = concat (map buf_text (takeWhile (\<lambda>m. m ! 0 \<noteq> NUL) ms))"

text \<open>The bytes of the last full message behind the shorter one that follows it.\<close>

definition stale :: "string \<Rightarrow> string" where
  "stale f = (let n = MESSAGE_SIZE - 1; r = length f mod n in
     if length f \<le> n \<or> r = 0 then [] else drop r (drop (length f - r - n) (take (length f - r) f)))"

definition good_msg :: "string \<Rightarrow> bool" where
  "good_msg m \<longleftrightarrow> length m = MESSAGE_SIZE \<and> m ! (MESSAGE_SIZE - 1) = NUL"

definition tidy :: "string list \<Rightarrow> bool" where
  "tidy ms \<longleftrightarrow> (\<forall>m \<in> set (butlast ms). m ! 0 \<noteq> NUL) \<and> (ms \<noteq> [] \<longrightarrow> last ms ! 0 = NUL)"

lemma good_blank: "good_msg (replicate MESSAGE_SIZE NUL)"
  by (simp add: good_msg_def MESSAGE_SIZE_def)

lemma good_fill: "good_msg resp \<Longrightarrow> good_msg (fill resp rest)"
  by (auto simp: good_msg_def fill_def MESSAGE_SIZE_def nth_append)

lemma fill_first: "rest \<noteq> [] \<Longrightarrow> fill resp rest ! 0 = hd rest"
  by (cases rest) (simp_all add: fill_def MESSAGE_SIZE_def)

lemma good_end: "good_msg resp \<Longrightarrow> good_msg (resp[0 := NUL])" "good_msg resp \<Longrightarrow> resp[0 := NUL] ! 0 = NUL"
  by (auto simp: good_msg_def MESSAGE_SIZE_def)

lemma good_all: "good_msg resp \<Longrightarrow> m \<in> set (mq_all resp rest) \<Longrightarrow> good_msg m"
proof (induction resp rest rule: mq_all.induct)
  case (1 resp rest)
  then show ?case using good_end(1) good_fill [OF "1.prems"(1)] by (subst (asm) mq_all.simps) (auto split: if_splits)
qed

lemma good_terminated: "good_msg m \<Longrightarrow> NUL \<in> set m"
proof -
  assume "good_msg m"
  then have "m ! (MESSAGE_SIZE - 1) = NUL" "MESSAGE_SIZE - 1 < length m" by (simp_all add: good_msg_def MESSAGE_SIZE_def)
  then show ?thesis by (metis nth_mem)
qed

lemma all_nonempty [simp]: "mq_all resp rest \<noteq> []"
  by (subst mq_all.simps) simp

lemma tidy_all: "good_msg resp \<Longrightarrow> NUL \<notin> set rest \<Longrightarrow> tidy (mq_all resp rest)"
proof (induction resp rest rule: mq_all.induct)
  case (1 resp rest)
  show ?case
  proof (cases "rest = []")
    case True
    then show ?thesis using good_end(2) [OF "1.prems"(1)] by (simp add: mq_all.simps tidy_def)
  next
    case False
    have "NUL \<notin> set (drop (MESSAGE_SIZE - 1) rest)" using "1.prems"(2) by (blast dest: in_set_dropD)
    from "1.IH" [OF False good_fill [OF "1.prems"(1)] this] have "tidy (mq_all (fill resp rest) (drop (MESSAGE_SIZE - 1) rest))" .
    moreover have "fill resp rest ! 0 \<noteq> NUL" using fill_first [OF False] hd_in_set [OF False] "1.prems"(2) by metis
    ultimately show ?thesis using False by (subst mq_all.simps) (auto simp: tidy_def)
  qed
qed

lemma shown_Cons: "m ! 0 \<noteq> NUL \<Longrightarrow> shown (m # ms) = buf_text m @ shown ms"
  by (simp add: shown_def)

lemma shown_end: "m ! 0 = NUL \<Longrightarrow> shown (m # ms) = []"
  by (simp add: shown_def)

lemma buf_text_upto: "NUL \<notin> set xs \<Longrightarrow> buf_text (xs @ NUL # ys) = xs"
  by (induction xs) (auto simp: buf_text_def)

lemma stale_next:
  assumes "length prev = MESSAGE_SIZE - 1" and "length c = MESSAGE_SIZE - 1"
  shows "stale (prev @ c @ rest) = stale (c @ rest)"
proof -
  define n where "n = MESSAGE_SIZE - 1"
  define r where "r = length rest mod n"
  have n: "length prev = n" "length c = n" "0 < n" using assms by (simp_all add: n_def MESSAGE_SIZE_def)
  have m: "length (prev @ c @ rest) mod n = r" "length (c @ rest) mod n = r" by (simp_all add: n r_def add.assoc)
  have r: "r \<le> length rest" by (simp add: r_def)
  define x where "x = c @ rest"
  have x: "length x = n + length rest" using n by (simp add: x_def)
  have t: "take (length (prev @ x) - r) (prev @ x) = prev @ take (length x - r) x" "length (prev @ x) - r - n = n + (length x - r - n)"
    using n r x by (simp_all add: take_append)
  have d: "drop (n + k) (prev @ y) = drop k y" for k y using n by simp
  have g: "\<not> length (prev @ x) \<le> n" if "rest \<noteq> []" using that n x by simp
  have g': "\<not> length x \<le> n" if "rest \<noteq> []" using that x by simp
  show ?thesis unfolding x_def [symmetric] stale_def Let_def n_def [symmetric] m [folded x_def] t d
    using g g' by (cases "rest = []") (simp_all add: r_def)
qed

lemma stale_short:
  assumes "length prev = MESSAGE_SIZE - 1" and "length rest < MESSAGE_SIZE - 1" and "rest \<noteq> []"
  shows "stale (prev @ rest) = drop (length rest) prev"
proof -
  define n where "n = MESSAGE_SIZE - 1"
  have n: "length prev = n" "length rest < n" using assms by (simp_all add: n_def)
  then have m: "length (prev @ rest) mod n = length rest" by simp
  show ?thesis unfolding stale_def Let_def n_def [symmetric] m using n assms(3) by simp
qed

lemma shown_after:
  assumes "length prev = MESSAGE_SIZE - 1" and "NUL \<notin> set prev" and "NUL \<notin> set rest"
  shows "shown (mq_all (prev @ [NUL]) rest) = rest @ stale (prev @ rest)"
  using assms
proof (induction "length rest" arbitrary: prev rest rule: less_induct)
  case less
  let ?n = "MESSAGE_SIZE - 1"
  have n: "0 < ?n" by (simp add: MESSAGE_SIZE_def)
  have first: "rest \<noteq> [] \<Longrightarrow> fill (prev @ [NUL]) rest ! 0 \<noteq> NUL" using fill_first [of rest] less.prems(3) by (metis hd_in_set)
  consider "rest = []" | "rest \<noteq> []" "length rest < ?n" | "rest \<noteq> []" "?n \<le> length rest" by linarith
  then show ?case
  proof cases
    case 1
    have "(prev @ [NUL])[0 := NUL] ! 0 = NUL" by simp
    then show ?thesis using 1 less.prems(1) by (simp add: mq_all.simps shown_end stale_def)
  next
    case 2
    have f: "fill (prev @ [NUL]) rest = (rest @ drop (length rest) prev) @ [NUL]" using 2 less.prems(1) by (simp add: fill_def)
    have "NUL \<notin> set (rest @ drop (length rest) prev)" using less.prems by (auto dest: in_set_dropD)
    then have b: "buf_text (fill (prev @ [NUL]) rest) = rest @ drop (length rest) prev" unfolding f by (rule buf_text_upto)
    have e: "mq_all (prev @ [NUL]) rest = [fill (prev @ [NUL]) rest, (fill (prev @ [NUL]) rest)[0 := NUL]]"
      using 2 by (simp add: mq_all.simps [of _ rest] mq_all.simps [of _ "[]"])
    have z: "(fill (prev @ [NUL]) rest)[0 := NUL] ! 0 = NUL" unfolding f by simp
    show ?thesis unfolding e shown_Cons [OF first [OF 2(1)]] shown_end [OF z] b stale_short [OF less.prems(1) 2(2, 1)] by simp
  next
    case 3
    define c rest' where c: "c = take ?n rest" and rest': "rest' = drop ?n rest"
    have cr: "rest = c @ rest'" "length c = ?n" "NUL \<notin> set c" "NUL \<notin> set rest'"
      using 3 less.prems(3) by (auto simp: c rest' dest: in_set_takeD in_set_dropD)
    have f: "fill (prev @ [NUL]) rest = c @ [NUL]" using 3 less.prems(1) by (simp add: fill_def c)
    have b: "buf_text (fill (prev @ [NUL]) rest) = c" unfolding f by (rule buf_text_upto [OF cr(3)])
    have e: "mq_all (prev @ [NUL]) rest = fill (prev @ [NUL]) rest # mq_all (c @ [NUL]) rest'" using 3 f by (simp add: mq_all.simps [of _ rest] rest')
    have "length rest' < length rest" using 3 n by (simp add: rest')
    from less.hyps [OF this cr(2, 3, 4)] have "shown (mq_all (c @ [NUL]) rest') = rest' @ stale (c @ rest')" .
    then show ?thesis unfolding e shown_Cons [OF first [OF 3(1)]] b using stale_next [OF less.prems(1) cr(2), of rest'] cr(1) by simp
  qed
qed

lemma shown_all:
  assumes "NUL \<notin> set f"
  shows "shown (mq_all (replicate MESSAGE_SIZE NUL) f) = f @ stale f"
proof -
  let ?n = "MESSAGE_SIZE - 1" and ?b = "replicate MESSAGE_SIZE NUL"
  have n: "0 < ?n" by (simp add: MESSAGE_SIZE_def)
  have first: "f \<noteq> [] \<Longrightarrow> fill ?b f ! 0 \<noteq> NUL" using fill_first [of f] assms by (metis hd_in_set)
  consider "f = []" | "f \<noteq> []" "length f < ?n" | "f \<noteq> []" "?n \<le> length f" by linarith
  then show ?thesis
  proof cases
    case 1
    then show ?thesis using good_end(2) [OF good_blank] by (simp add: mq_all.simps shown_end stale_def)
  next
    case 2
    have "0 < MESSAGE_SIZE - length f" using 2 by simp
    then obtain k where "MESSAGE_SIZE - length f = Suc k" using gr0_implies_Suc by blast
    then have f: "fill ?b f = f @ NUL # replicate k NUL" using 2 by (simp add: fill_def)
    have e: "mq_all ?b f = [fill ?b f, (fill ?b f)[0 := NUL]]" using 2 by (simp add: mq_all.simps [of _ f] mq_all.simps [of _ "[]"])
    have z: "(fill ?b f)[0 := NUL] ! 0 = NUL" unfolding f by (cases f) simp_all
    show ?thesis unfolding e shown_Cons [OF first [OF 2(1)]] shown_end [OF z] using 2 by (simp add: f buf_text_upto [OF assms] stale_def)
  next
    case 3
    define c rest where c: "c = take ?n f" and rest: "rest = drop ?n f"
    have cr: "f = c @ rest" "length c = ?n" "NUL \<notin> set c" "NUL \<notin> set rest"
      using 3 assms by (auto simp: c rest dest: in_set_takeD in_set_dropD)
    have f: "fill ?b f = c @ [NUL]" using 3 by (simp add: fill_def c MESSAGE_SIZE_def)
    have e: "mq_all ?b f = fill ?b f # mq_all (c @ [NUL]) rest" using 3 f by (simp add: mq_all.simps [of _ f] rest)
    have "buf_text (fill ?b f) = c" unfolding f by (rule buf_text_upto [OF cr(3)])
    then show ?thesis unfolding e shown_Cons [OF first [OF 3(1)]] shown_after [OF cr(2, 3, 4)] using cr(1) by simp
  qed
qed

section \<open>The invariant\<close>

text \<open>The messages that will still come to the client \<open>p\<close>: those in its queue, those the server is about to send, and the answers to its
  waiting requests.\<close>

definition mq_serving :: "(string \<Rightarrow> string option) \<Rightarrow> mqsys \<Rightarrow> int \<Rightarrow> string list" where
  "mq_serving files st p =
     (if rq_pid (v_req st) \<noteq> p then []
      else case v_pc st of
        V_Client \<Rightarrow> mq_answer files (rq_pathname (v_req st))
      | V_File \<Rightarrow> mq_answer files (rq_pathname (v_req st))
      | V_Read \<Rightarrow> mq_all (v_resp st) (v_file st)
      | V_Send \<Rightarrow> v_resp st # mq_all (v_resp st) (v_file st)
      | V_Last \<Rightarrow> [(v_resp st)[0 := NUL]]
      | _ \<Rightarrow> [])"

definition mq_waiting :: "mqsys \<Rightarrow> int \<Rightarrow> mq_request list" where
  "mq_waiting st p = filter (\<lambda>r. rq_pid r = p) (case mq_requests st of None \<Rightarrow> [] | Some rs \<Rightarrow> rs)"

definition mq_coming :: "(string \<Rightarrow> string option) \<Rightarrow> mqsys \<Rightarrow> int \<Rightarrow> string list" where
  "mq_coming files st p = mq_msgs st p @ mq_serving files st p @ concat (map (\<lambda>r. mq_answer files (rq_pathname r)) (mq_waiting st p))"

text \<open>The requests of \<open>p\<close> the server has not opened the queue for, and whether it is answering one.\<close>

definition mq_pending :: "mqsys \<Rightarrow> int \<Rightarrow> nat" where
  "mq_pending st p = length (mq_waiting st p) + of_bool (v_pc st = V_Client \<and> rq_pid (v_req st) = p)"

definition mq_busy :: "mqsys \<Rightarrow> int \<Rightarrow> bool" where
  "mq_busy st p \<longleftrightarrow> v_pc st \<in> {V_File, V_Read, V_Send, V_Last} \<and> rq_pid (v_req st) = p"

definition request_ok :: "int set \<Rightarrow> mq_request \<Rightarrow> bool" where
  "request_ok P r \<longleftrightarrow> rq_pid r \<in> P \<and> length (rq_pathname r) < PATH_MAX"

definition mq_server_ok :: "int set \<Rightarrow> mqsys \<Rightarrow> bool" where
  "mq_server_ok P st \<longleftrightarrow> v_exit st = None \<and> v_pc st \<noteq> V_Open \<and> (\<exists>rs. mq_requests st = Some rs \<and> (\<forall>r \<in> set rs. request_ok P r)) \<and>
     (v_pc st \<notin> {V_Receive, V_Close} \<longrightarrow> request_ok P (v_req st)) \<and>
     (v_pc st \<in> {V_File, V_Read, V_Send, V_Last} \<longrightarrow> v_queue st = rq_pid (v_req st)) \<and>
     (v_pc st \<in> {V_Read, V_Send, V_Last} \<longrightarrow> good_msg (v_resp st)) \<and> (v_pc st = V_Last \<longrightarrow> v_file st = [])"

text \<open>\<open>clean\<close> says that the files have no NUL characters.\<close>

definition k_quiet :: "mqsys \<Rightarrow> int \<Rightarrow> bool" where
  "k_quiet st p \<longleftrightarrow> mq_pending st p = 0 \<and> \<not> mq_busy st p"

definition k_receiving :: "(string \<Rightarrow> string option) \<Rightarrow> bool \<Rightarrow> mqsys \<Rightarrow> int \<Rightarrow> bool" where
  "k_receiving files clean st p \<longleftrightarrow>
     (let c = mq_clients st p; answer = mq_answer files (k_path c) in
      mq_pending st p \<le> 1 \<and> (mq_pending st p = 1 \<longrightarrow> mq_msgs st p = [] \<and> \<not> mq_busy st p) \<and>
      k_out c @ shown (mq_coming files st p) = shown answer \<and> (\<forall>m \<in> set (mq_coming files st p). good_msg m) \<and>
      (answer = [] \<longrightarrow> mq_coming files st p = []) \<and>
      (clean \<longrightarrow> tidy (mq_coming files st p) \<and> (answer \<noteq> [] \<longrightarrow> mq_coming files st p \<noteq> [])))"

definition k_served :: "(string \<Rightarrow> string option) \<Rightarrow> bool \<Rightarrow> mqsys \<Rightarrow> int \<Rightarrow> bool" where
  "k_served files clean st p \<longleftrightarrow>
     (let c = mq_clients st p; answer = mq_answer files (k_path c) in
      mq_pending st p = 0 \<and> answer \<noteq> [] \<and> k_out c = shown answer \<and> (clean \<longrightarrow> mq_coming files st p = []))"

definition mq_client_ok :: "(string \<Rightarrow> string option) \<Rightarrow> bool \<Rightarrow> mqsys \<Rightarrow> int \<Rightarrow> bool" where
  "mq_client_ok files clean st p \<longleftrightarrow>
     (let c = mq_clients st p in
      0 \<le> p \<and> p \<le> INT_MAX \<and> length (k_path c) < PATH_MAX \<and> (k_exit c = None \<or> k_exit c = Some (Inr 0) \<and> k_pc c = K_Unlink) \<and>
      (k_exit c = None \<longrightarrow> mq_names st (client_mq_name p) = (if k_pc c = K_Create then None else Some p)) \<and>
      (case k_pc c of
         K_Create \<Rightarrow> k_quiet st p \<and> k_out c = []
       | K_Server \<Rightarrow> k_quiet st p \<and> k_out c = [] \<and> mq_msgs st p = []
       | K_Send \<Rightarrow> k_quiet st p \<and> k_out c = [] \<and> mq_msgs st p = []
       | K_Receive \<Rightarrow> k_receiving files clean st p
       | _ \<Rightarrow> k_served files clean st p))"

definition mq_inv :: "(string \<Rightarrow> string option) \<Rightarrow> bool \<Rightarrow> int set \<Rightarrow> mqsys \<Rightarrow> bool" where
  "mq_inv files clean P st \<longleftrightarrow> mq_server_ok P st \<and> (\<forall>p \<in> P. mq_client_ok files clean st p)"

definition clean_files :: "(string \<Rightarrow> string option) \<Rightarrow> bool" where
  "clean_files files \<longleftrightarrow> (\<forall>path f. files path = Some f \<longrightarrow> NUL \<notin> set f)"

text \<open>Names of different processes differ.\<close>

lemma length_nat_text: "n < 10 ^ Suc k \<Longrightarrow> length (nat_text n) \<le> Suc k"
proof (induction k arbitrary: n)
  case 0
  then show ?case by (simp add: nat_text.simps)
next
  case (Suc k)
  then have "n div 10 < 10 ^ Suc k" by (simp add: less_mult_imp_div_less)
  from Suc.IH [OF this] show ?case by (subst nat_text.simps) simp
qed

lemma client_mq_name_inject:
  assumes "0 \<le> p" "p \<le> INT_MAX" "0 \<le> q" "q \<le> INT_MAX"
  shows "client_mq_name p = client_mq_name q \<longleftrightarrow> p = q"
proof -
  have "client_mq_name x = ''/'' @ nat_text (nat x)" if "0 \<le> x" "x \<le> INT_MAX" for x
  proof -
    have "nat x < 10 ^ Suc 9" using that by (simp add: INT_MAX_def nat_less_iff)
    from length_nat_text [OF this] that show ?thesis by (simp add: client_mq_name_def CLIENT_MQ_TEMPLATE_def NAME_SIZE_def int_text_def)
  qed
  then show ?thesis using assms by (simp add: eq_nat_nat_iff)
qed

text \<open>The server's steps only move what is to come.\<close>

lemmas mq_view = mq_coming_def mq_serving_def mq_waiting_def mq_pending_def mq_busy_def

lemma mq_received:
  assumes "v_pc st = V_Receive" and "mq_server_step files got st = Some st'" and "got \<noteq> - 1"
  shows "\<exists>r rs. mq_requests st = Some (r # rs) \<and> st' = st\<lparr>mq_requests := Some rs, v_req := r, v_pc := V_Client\<rparr>"
  using assms by (auto simp: mq_server_step_def split: option.splits list.splits if_splits)

lemma mq_opened:
  assumes "v_pc st = V_File" and "mq_server_ok P st" and "mq_server_step files got st = Some st'" and "got \<noteq> - 1"
  shows "st' = (case open_file files (rq_pathname (v_req st)) of
      None \<Rightarrow> mq_log (''Could not open file '' @ rq_pathname (v_req st)) V_Receive st
    | Some f \<Rightarrow> st\<lparr>v_file := f, v_resp := replicate MESSAGE_SIZE NUL, v_pc := V_Read\<rparr>)"
proof -
  have "length (rq_pathname (v_req st)) < PATH_MAX" "v_exit st = None" using assms(1, 2) by (simp_all add: mq_server_ok_def request_ok_def)
  then show ?thesis using assms by (simp add: mq_server_step_def Let_def split: option.splits)
qed

lemma mq_server_coming:
  assumes ok: "mq_server_ok P st" and step: "mq_server_step files got st = Some st'" and works: "got \<noteq> - 1"
    and named: "v_pc st = V_Client \<Longrightarrow> mq_names st (client_mq_name (rq_pid (v_req st))) = Some (rq_pid (v_req st))"
  shows "mq_coming files st' p = mq_coming files st p"
proof (cases "v_pc st")
  case V_Receive
  then show ?thesis using mq_received [OF V_Receive step works] by (elim exE conjE) (simp add: mq_view)
next
  case V_Client
  then show ?thesis using ok step works named by (auto simp: mq_server_ok_def mq_server_step_def mq_view)
next
  case V_File
  show ?thesis using V_File unfolding mq_opened [OF V_File ok step works]
    by (cases "open_file files (rq_pathname (v_req st))") (simp_all add: mq_view mq_answer_def mq_log_def)
next
  case V_Read
  then have st': "st' = (if v_file st = [] then st\<lparr>v_pc := V_Last\<rparr> else mq_read st)" using ok step works by (auto simp: mq_server_ok_def mq_server_step_def)
  show ?thesis using V_Read unfolding st'
    by (cases "v_file st = []") (simp_all add: mq_view mq_read_def mq_all.simps [of "v_resp st" "v_file st"] mq_all.simps [of "v_resp st" "[]"])
next
  case V_Send
  then show ?thesis using ok step works
    by (auto simp: mq_server_ok_def mq_server_step_def mq_view mq_put_def Let_def split: if_splits)
next
  case V_Last
  then show ?thesis using ok step works
    by (auto simp: mq_server_ok_def mq_server_step_def mq_view mq_put_def Let_def split: if_splits)
next
  case V_Close
  have "v_exit st = None" using ok by (simp add: mq_server_ok_def)
  then have "st' = st\<lparr>v_pc := V_Receive\<rparr>" using V_Close step works by (simp add: mq_server_step_def)
  then show ?thesis using V_Close by (simp add: mq_view)
qed (use ok in \<open>simp add: mq_server_ok_def\<close>)

lemma mq_server_keeps:
  assumes "mq_server_step files got st = Some st'"
  shows "mq_clients st' = mq_clients st" "mq_names st' = mq_names st"
  using assms by (auto simp: mq_server_step_def mq_log_def mq_put_def mq_read_def Let_def split: mq_spc.splits option.splits list.splits if_splits)

lemma mq_server_ok_step:
  assumes ok: "mq_server_ok P st" and step: "mq_server_step files got st = Some st'" and works: "got \<noteq> - 1"
    and named: "v_pc st = V_Client \<Longrightarrow> mq_names st (client_mq_name (rq_pid (v_req st))) = Some (rq_pid (v_req st))"
  shows "mq_server_ok P st'"
proof (cases "v_pc st")
  case V_Receive
  then show ?thesis using ok step works by (auto simp: mq_server_ok_def mq_server_step_def split: list.splits)
next
  case V_File
  show ?thesis using V_File ok good_blank unfolding mq_opened [OF V_File ok step works]
    by (cases "open_file files (rq_pathname (v_req st))") (simp_all add: mq_server_ok_def mq_log_def)
next
  case V_Read
  then show ?thesis using ok step works good_fill by (auto simp: mq_server_ok_def mq_server_step_def mq_read_def split: if_splits)
next
  case V_Client
  then show ?thesis using ok step works named by (auto simp: mq_server_ok_def mq_server_step_def Let_def)
next
  case V_Send
  then show ?thesis using ok step works by (auto simp: mq_server_ok_def mq_server_step_def mq_put_def split: if_splits)
next
  case V_Last
  then show ?thesis using ok step works by (auto simp: mq_server_ok_def mq_server_step_def mq_put_def Let_def split: if_splits)
next
  case V_Close
  then show ?thesis using ok step works by (auto simp: mq_server_ok_def mq_server_step_def)
qed (use ok in \<open>simp add: mq_server_ok_def\<close>)

text \<open>What a step of the server does to the requests of \<open>p\<close>.\<close>

lemma mq_server_pending:
  assumes ok: "mq_server_ok P st" and step: "mq_server_step files got st = Some st'" and works: "got \<noteq> - 1"
  shows "mq_pending st' p \<le> mq_pending st p"
    and "\<not> mq_busy st p \<Longrightarrow> mq_msgs st' p = mq_msgs st p"
    and "\<not> mq_busy st p \<Longrightarrow> mq_busy st' p \<Longrightarrow> mq_pending st' p < mq_pending st p"
proof -
  have "mq_pending st' p \<le> mq_pending st p \<and> (\<not> mq_busy st p \<longrightarrow> mq_msgs st' p = mq_msgs st p \<and> (mq_busy st' p \<longrightarrow> mq_pending st' p < mq_pending st p))"
  proof (cases "v_pc st")
    case V_Receive
    then show ?thesis using mq_received [OF V_Receive step works] by (elim exE conjE) (simp add: mq_view)
  next
    case V_Client
    then have "v_exit st = None" using ok by (simp add: mq_server_ok_def)
    then have "(\<exists>line. st' = mq_log line V_Receive st) \<or> (\<exists>q. st' = st\<lparr>v_queue := q, v_pc := V_File\<rparr>)"
      using V_Client step works by (cases "mq_names st (client_mq_name (rq_pid (v_req st)))") (auto simp: mq_server_step_def Let_def)
    then show ?thesis using V_Client by (elim disjE exE) (simp_all add: mq_view mq_log_def)
  next
    case V_File
    show ?thesis using V_File unfolding mq_opened [OF V_File ok step works]
      by (cases "open_file files (rq_pathname (v_req st))") (simp_all add: mq_view mq_log_def)
  next
    case V_Read
    then show ?thesis using ok step works by (auto simp: mq_server_ok_def mq_server_step_def mq_view mq_read_def split: if_splits)
  next
    case V_Send
    then show ?thesis using ok step works by (auto simp: mq_server_ok_def mq_server_step_def mq_view mq_put_def Let_def split: if_splits)
  next
    case V_Last
    then show ?thesis using ok step works by (auto simp: mq_server_ok_def mq_server_step_def mq_view mq_put_def Let_def split: if_splits)
  next
    case V_Close
    then show ?thesis using ok step works by (auto simp: mq_server_ok_def mq_server_step_def mq_view)
  qed (use ok in \<open>simp add: mq_server_ok_def\<close>)
  then show "mq_pending st' p \<le> mq_pending st p" "\<not> mq_busy st p \<Longrightarrow> mq_msgs st' p = mq_msgs st p"
    "\<not> mq_busy st p \<Longrightarrow> mq_busy st' p \<Longrightarrow> mq_pending st' p < mq_pending st p" by blast+
qed

lemma mq_server_inv:
  assumes inv: "mq_inv files clean P st" and step: "mq_server_step files got st = Some st'" and works: "got \<noteq> - 1"
  shows "mq_inv files clean P st'"
proof -
  have ok: "mq_server_ok P st" and kok: "\<forall>p \<in> P. mq_client_ok files clean st p" using inv by (auto simp: mq_inv_def)
  have named: "mq_names st (client_mq_name (rq_pid (v_req st))) = Some (rq_pid (v_req st))" if v: "v_pc st = V_Client"
  proof -
    let ?p = "rq_pid (v_req st)"
    have p: "mq_client_ok files clean st ?p" using ok kok v by (auto simp: mq_server_ok_def request_ok_def)
    have "mq_pending st ?p \<noteq> 0" using v by (simp add: mq_pending_def)
    then show ?thesis using p by (auto simp: mq_client_ok_def k_quiet_def k_served_def Let_def split: mq_cpc.splits)
  qed
  have coming: "mq_coming files st' p = mq_coming files st p" for p by (rule mq_server_coming [OF ok step works]) (rule named)
  have ok': "mq_server_ok P st'" by (rule mq_server_ok_step [OF ok step works]) (rule named)
  note pending = mq_server_pending [OF ok step works]
  note keeps = mq_server_keeps [OF step]
  have "mq_client_ok files clean st' p" if p: "mq_client_ok files clean st p" for p
  proof -
    have quiet: "k_quiet st p \<Longrightarrow> k_quiet st' p \<and> mq_msgs st' p = mq_msgs st p"
      using pending(1) [of p] pending(2) [of p] pending(3) [of p] by (auto simp: k_quiet_def)
    have rcv: "k_receiving files clean st' p" if "k_receiving files clean st p"
    proof -
      have one: "mq_pending st p \<le> 1" "mq_pending st p = 1 \<longrightarrow> mq_msgs st p = [] \<and> \<not> mq_busy st p" using that by (simp_all add: k_receiving_def Let_def)
      then have "mq_pending st' p \<le> 1" "mq_pending st' p = 1 \<longrightarrow> mq_msgs st' p = [] \<and> \<not> mq_busy st' p"
        using pending(1) [of p] pending(2) [of p] pending(3) [of p] by auto
      then show ?thesis using that unfolding k_receiving_def Let_def coming keeps by blast
    qed
    have srv: "k_served files clean st' p" if "k_served files clean st p"
      using that pending(1) [of p] unfolding k_served_def Let_def coming keeps by simp
    show ?thesis using p quiet rcv srv unfolding mq_client_ok_def Let_def keeps by (cases "k_pc (mq_clients st p)") simp_all
  qed
  then show ?thesis using ok' kok by (simp add: mq_inv_def)
qed

text \<open>A step of a client, and what the other clients see of it.\<close>

lemma mq_client_view:
  assumes "mq_clients st' p = mq_clients st p" and "mq_names st' (client_mq_name p) = mq_names st (client_mq_name p)"
    and "mq_msgs st' p = mq_msgs st p" and "mq_waiting st' p = mq_waiting st p"
    and "v_pc st' = v_pc st" "v_req st' = v_req st" "v_resp st' = v_resp st" "v_file st' = v_file st"
  shows "mq_client_ok files clean st' p = mq_client_ok files clean st p"
proof -
  have "mq_coming files st' p = mq_coming files st p" "mq_pending st' p = mq_pending st p" "mq_busy st' p = mq_busy st p"
    using assms by (simp_all add: mq_coming_def mq_serving_def mq_pending_def mq_busy_def split: mq_spc.split)
  then show ?thesis using assms by (simp add: mq_client_ok_def k_quiet_def k_receiving_def k_served_def Let_def split: mq_cpc.split)
qed

lemma mq_client_shape:
  assumes "mq_client_step got q st = Some st'"
  shows "(\<exists>f. st' = k_upd q f st) \<or> (\<exists>f m. st' = k_upd q f (st\<lparr>mq_msgs := (mq_msgs st)(q := m)\<rparr>)) \<or>
    (\<exists>f n. st' = k_upd q f (st\<lparr>mq_names := (mq_names st)(client_mq_name q := n)\<rparr>)) \<or>
    (\<exists>f n m. st' = k_upd q f (st\<lparr>mq_names := (mq_names st)(client_mq_name q := n), mq_msgs := (mq_msgs st)(q := m)\<rparr>)) \<or>
    (\<exists>f rs. mq_requests st = Some rs \<and>
       st' = k_upd q f (st\<lparr>mq_requests := Some (rs @ [\<lparr>rq_pid = q, rq_pathname = take PATH_MAX (k_path (mq_clients st q))\<rparr>])\<rparr>))"
  (is "?idle \<or> ?took \<or> ?unlink \<or> ?create \<or> ?send")
proof -
  have fails: ?idle if "st' = k_fails q st" using that unfolding k_fails_def by blast
  have goes: ?idle if "st' = k_goes q pc st" for pc using that unfolding k_goes_def by blast
  have live: "k_exit (mq_clients st q) = None" using assms by (auto simp: mq_client_step_def Let_def split: if_splits)
  show ?thesis
  proof (cases "k_pc (mq_clients st q)")
    case K_Create
    then have "st' = k_fails q st \<or> st' = k_goes q K_Server (st\<lparr>mq_names := (mq_names st)(client_mq_name q := Some q), mq_msgs := (mq_msgs st)(q := [])\<rparr>)"
      using assms live by (simp add: mq_client_step_def Let_def split: if_splits)
    then show ?thesis using fails unfolding k_goes_def by blast
  next
    case K_Server
    then have "st' = k_fails q st \<or> st' = k_goes q K_Send st" using assms live by (simp add: mq_client_step_def Let_def split: if_splits)
    then show ?thesis using fails goes by blast
  next
    case K_Send
    then have "st' = k_fails q st \<or> (\<exists>rs. mq_requests st = Some rs \<and>
        st' = k_goes q K_Receive (st\<lparr>mq_requests := Some (rs @ [\<lparr>rq_pid = q, rq_pathname = take PATH_MAX (k_path (mq_clients st q))\<rparr>])\<rparr>))"
      using assms live by (auto simp: mq_client_step_def Let_def split: if_splits option.splits)
    then show ?thesis using fails unfolding k_goes_def by blast
  next
    case K_Receive
    then have "st' = k_fails q st \<or> (\<exists>m ms. st' = mq_took q m (st\<lparr>mq_msgs := (mq_msgs st)(q := ms)\<rparr>))"
      using assms live by (auto simp: mq_client_step_def Let_def split: if_splits list.splits)
    then show ?thesis using fails unfolding mq_took_def k_goes_def by (auto split: if_splits)
  next
    case K_Close_Server
    then have "st' = k_fails q st \<or> st' = k_goes q K_Close st" using assms live by (simp add: mq_client_step_def Let_def split: if_splits)
    then show ?thesis using fails goes by blast
  next
    case K_Close
    then have "st' = k_fails q st \<or> st' = k_goes q K_Unlink st" using assms live by (simp add: mq_client_step_def Let_def split: if_splits)
    then show ?thesis using fails goes by blast
  next
    case K_Unlink
    then have "st' = k_fails q st \<or> st' = k_upd q (\<lambda>c. c\<lparr>k_exit := Some (Inr 0)\<rparr>) (st\<lparr>mq_names := (mq_names st)(client_mq_name q := None)\<rparr>)"
      using assms live by (simp add: mq_client_step_def Let_def split: if_splits)
    then show ?thesis using fails by blast
  qed
qed

lemma mq_client_keeps:
  assumes "mq_client_step got q st = Some st'"
  shows "v_pc st' = v_pc st \<and> v_req st' = v_req st \<and> v_resp st' = v_resp st \<and> v_file st' = v_file st \<and> v_queue st' = v_queue st \<and>
    v_exit st' = v_exit st"
    and "p \<noteq> q \<Longrightarrow> mq_clients st' p = mq_clients st p \<and> mq_msgs st' p = mq_msgs st p \<and> mq_waiting st' p = mq_waiting st p"
    and "n \<noteq> client_mq_name q \<Longrightarrow> mq_names st' n = mq_names st n"
  using mq_client_shape [OF assms] by (elim disjE exE conjE; simp add: k_upd_def mq_waiting_def)+

lemma mq_client_server_ok:
  assumes "mq_server_ok P st" and "mq_client_step got q st = Some st'" and "q \<in> P" and "length (k_path (mq_clients st q)) < PATH_MAX"
  shows "mq_server_ok P st'"
proof -
  have "\<exists>rs. mq_requests st' = Some rs \<and> (\<forall>r \<in> set rs. request_ok P r)" if "\<exists>rs. mq_requests st = Some rs \<and> (\<forall>r \<in> set rs. request_ok P r)"
    using mq_client_shape [OF assms(2)] that assms(3, 4) by (elim disjE exE conjE) (auto simp: k_upd_def request_ok_def)
  then show ?thesis using assms(1) mq_client_keeps(1) [OF assms(2)] by (simp add: mq_server_ok_def)
qed

lemma mq_view_same:
  assumes "mq_requests st' = mq_requests st" "mq_msgs st' = mq_msgs st" "v_pc st' = v_pc st" "v_req st' = v_req st"
    "v_resp st' = v_resp st" "v_file st' = v_file st"
  shows "mq_coming files st' p = mq_coming files st p" "mq_pending st' p = mq_pending st p"
  using assms by (simp_all add: mq_view split: mq_spc.split)

lemma mq_client_own:
  assumes ok: "mq_client_ok files clean st q" and srv: "mq_server_ok P st" and step: "mq_client_step got q st = Some st'" and works: "got \<noteq> - 1"
    and clean: "clean \<Longrightarrow> clean_files files"
  shows "mq_client_ok files clean st' q"
proof -
  let ?c = "mq_clients st q"
  have live: "k_exit ?c = None" using step by (auto simp: mq_client_step_def Let_def split: if_splits)
  show ?thesis
  proof (cases "k_pc ?c")
    case K_Create
    then have "st' = k_goes q K_Server (st\<lparr>mq_names := (mq_names st)(client_mq_name q := Some q), mq_msgs := (mq_msgs st)(q := [])\<rparr>)"
      using ok step works live by (simp add: mq_client_step_def mq_client_ok_def Let_def)
    then have e: "mq_clients st' q = ?c\<lparr>k_pc := K_Server\<rparr>" "mq_names st' (client_mq_name q) = Some q" "mq_msgs st' q = []" "k_quiet st' q = k_quiet st q"
      by (simp_all add: k_goes_def k_upd_def k_quiet_def mq_view)
    show ?thesis using K_Create ok live by (simp add: mq_client_ok_def Let_def e)
  next
    case K_Server
    obtain rs where "mq_requests st = Some rs" using srv unfolding mq_server_ok_def by blast
    then have "st' = k_goes q K_Send st" using K_Server step works live by (simp add: mq_client_step_def Let_def)
    then have e: "mq_clients st' q = ?c\<lparr>k_pc := K_Send\<rparr>" "mq_names st' = mq_names st" "mq_msgs st' = mq_msgs st" "k_quiet st' q = k_quiet st q"
      by (simp_all add: k_goes_def k_upd_def k_quiet_def mq_view)
    show ?thesis using K_Server ok live by (simp add: mq_client_ok_def Let_def e)
  next
    case K_Send
    obtain rs where rs: "mq_requests st = Some rs" using srv unfolding mq_server_ok_def by blast
    have path: "take PATH_MAX (k_path ?c) = k_path ?c" using ok by (simp add: mq_client_ok_def Let_def)
    have st': "st' = k_goes q K_Receive (st\<lparr>mq_requests := Some (rs @ [\<lparr>rq_pid = q, rq_pathname = k_path ?c\<rparr>])\<rparr>)"
      using K_Send step works live rs path by (simp add: mq_client_step_def Let_def split: if_splits)
    have quiet: "mq_waiting st q = []" "mq_serving files st q = []" "mq_pending st q = 0" "\<not> mq_busy st q" "mq_msgs st q = []" "k_out ?c = []"
      using K_Send ok by (auto simp: mq_client_ok_def Let_def k_quiet_def mq_pending_def mq_busy_def mq_serving_def split: mq_spc.splits)
    have p: "mq_pending st' q = 1" "\<not> mq_busy st' q" "mq_msgs st' q = []"
      using quiet rs by (simp_all add: st' k_goes_def k_upd_def mq_pending_def mq_busy_def mq_waiting_def)
    have "mq_serving files st' q = mq_serving files st q" by (simp add: st' k_goes_def k_upd_def mq_serving_def split: mq_spc.split)
    then have c: "mq_coming files st' q = mq_answer files (k_path ?c)"
      using quiet rs by (simp add: mq_coming_def mq_waiting_def st' k_goes_def k_upd_def)
    have good: "\<forall>m \<in> set (mq_answer files (k_path ?c)). good_msg m"
      using good_all [OF good_blank] by (auto simp: mq_answer_def split: option.splits)
    have t: "tidy (mq_answer files (k_path ?c))" if clean
      using tidy_all [OF good_blank] clean [OF that] by (auto simp: mq_answer_def clean_files_def open_file_def tidy_def split: option.splits if_splits)
    have k: "mq_clients st' q = ?c\<lparr>k_pc := K_Receive\<rparr>" "mq_names st' = mq_names st" by (simp_all add: st' k_goes_def k_upd_def)
    have "k_receiving files clean st' q" using p c good t quiet(6) by (simp add: k_receiving_def Let_def k)
    then show ?thesis using ok K_Send live by (simp add: mq_client_ok_def Let_def k)
  next
    case K_Receive
    have rcv: "k_receiving files clean st q" using ok K_Receive by (simp add: mq_client_ok_def Let_def)
    obtain m ms where m: "mq_msgs st q = m # ms" and st': "st' = mq_took q m (st\<lparr>mq_msgs := (mq_msgs st)(q := ms)\<rparr>)"
      using K_Receive step works live by (auto simp: mq_client_step_def Let_def split: list.splits)
    define c where "c = ms @ mq_serving files st q @ concat (map (\<lambda>r. mq_answer files (rq_pathname r)) (mq_waiting st q))"
    have coming: "mq_coming files st q = m # c" by (simp add: mq_coming_def m c_def)
    have zero: "mq_pending st q = 0" using rcv m by (auto simp: k_receiving_def Let_def)
    have facts: "k_out ?c @ shown (m # c) = shown (mq_answer files (k_path ?c))" "good_msg m" "\<forall>m \<in> set c. good_msg m" "mq_answer files (k_path ?c) \<noteq> []"
      "clean \<longrightarrow> tidy (m # c)"
      using rcv by (auto simp: k_receiving_def Let_def coming)
    show ?thesis
    proof (cases "m ! 0 = NUL")
      case True
      have e: "st' = k_goes q K_Close_Server (st\<lparr>mq_msgs := (mq_msgs st)(q := ms)\<rparr>)" unfolding st' mq_took_def using True by simp
      have k: "mq_clients st' q = ?c\<lparr>k_pc := K_Close_Server\<rparr>" "mq_names st' = mq_names st" "mq_pending st' q = 0" "mq_coming files st' q = c"
        using zero by (simp_all add: e k_goes_def k_upd_def mq_view c_def split: mq_spc.split)
      have "clean \<longrightarrow> c = []" using facts(5) True by (cases c) (auto simp: tidy_def)
      then have "k_served files clean st' q" using facts(1, 4) by (simp add: k_served_def Let_def k shown_end [OF True])
      then show ?thesis using ok K_Receive live by (simp add: mq_client_ok_def Let_def k)
    next
      case False
      have e: "st' = k_upd q (\<lambda>c. c\<lparr>k_out := k_out c @ buf_text m\<rparr>) (st\<lparr>mq_msgs := (mq_msgs st)(q := ms)\<rparr>)"
        unfolding st' mq_took_def using False good_terminated [OF facts(2)] by simp
      have k: "mq_clients st' q = ?c\<lparr>k_out := k_out ?c @ buf_text m\<rparr>" "mq_names st' = mq_names st" "mq_pending st' q = 0" "mq_coming files st' q = c"
        using zero by (simp_all add: e k_upd_def mq_view c_def split: mq_spc.split)
      have "clean \<longrightarrow> tidy c \<and> c \<noteq> []" using facts(5) False by (cases c) (auto simp: tidy_def)
      then have "k_receiving files clean st' q" using facts(1, 3, 4) by (simp add: k_receiving_def Let_def k shown_Cons [OF False])
      then show ?thesis using ok K_Receive live by (simp add: mq_client_ok_def Let_def k)
    qed
  next
    case K_Close_Server
    then have "st' = k_goes q K_Close st" using step works live by (simp add: mq_client_step_def Let_def)
    then have e: "mq_clients st' q = ?c\<lparr>k_pc := K_Close\<rparr>" "mq_names st' = mq_names st" by (simp_all add: k_goes_def k_upd_def)
    have v: "mq_coming files st' q = mq_coming files st q" "mq_pending st' q = mq_pending st q"
      by (rule mq_view_same; simp add: \<open>st' = _\<close> k_goes_def k_upd_def)+
    show ?thesis using K_Close_Server ok live by (simp add: mq_client_ok_def k_served_def Let_def e v)
  next
    case K_Close
    then have "st' = k_goes q K_Unlink st" using step works live by (simp add: mq_client_step_def Let_def)
    then have e: "mq_clients st' q = ?c\<lparr>k_pc := K_Unlink\<rparr>" "mq_names st' = mq_names st" by (simp_all add: k_goes_def k_upd_def)
    have v: "mq_coming files st' q = mq_coming files st q" "mq_pending st' q = mq_pending st q"
      by (rule mq_view_same; simp add: \<open>st' = _\<close> k_goes_def k_upd_def)+
    show ?thesis using K_Close ok live by (simp add: mq_client_ok_def k_served_def Let_def e v)
  next
    case K_Unlink
    have "mq_names st (client_mq_name q) = Some q" using ok K_Unlink live by (simp add: mq_client_ok_def Let_def)
    then have "st' = k_upd q (\<lambda>c. c\<lparr>k_exit := Some (Inr 0)\<rparr>) (st\<lparr>mq_names := (mq_names st)(client_mq_name q := None)\<rparr>)"
      using K_Unlink step works live by (simp add: mq_client_step_def Let_def)
    then have e: "mq_clients st' q = ?c\<lparr>k_exit := Some (Inr 0)\<rparr>" by (simp add: k_upd_def)
    have v: "mq_coming files st' q = mq_coming files st q" "mq_pending st' q = mq_pending st q"
      by (rule mq_view_same; simp add: \<open>st' = _\<close> k_upd_def)+
    show ?thesis using K_Unlink ok by (simp add: mq_client_ok_def k_served_def Let_def e v)
  qed
qed

lemma mq_client_inv:
  assumes inv: "mq_inv files clean P st" and q: "q \<in> P" and step: "mq_client_step got q st = Some st'" and works: "got \<noteq> - 1"
    and clean: "clean \<Longrightarrow> clean_files files"
  shows "mq_inv files clean P st'"
proof -
  have srv: "mq_server_ok P st" and kok: "\<forall>p \<in> P. mq_client_ok files clean st p" using inv by (auto simp: mq_inv_def)
  have qok: "mq_client_ok files clean st q" using kok q by blast
  have "mq_client_ok files clean st' p" if p: "p \<in> P" for p
  proof (cases "p = q")
    case True
    then show ?thesis using mq_client_own [OF qok srv step works clean] by simp
  next
    case False
    have pok: "mq_client_ok files clean st p" using kok p by blast
    have "client_mq_name p \<noteq> client_mq_name q" using client_mq_name_inject [of p q] pok qok False by (simp add: mq_client_ok_def Let_def)
    then have "mq_names st' (client_mq_name p) = mq_names st (client_mq_name p)" using mq_client_keeps(3) [OF step] by blast
    then show ?thesis using mq_client_view [of st' p st] mq_client_keeps(1, 2) [OF step] False pok by blast
  qed
  moreover have "length (k_path (mq_clients st q)) < PATH_MAX" using qok by (simp add: mq_client_ok_def Let_def)
  ultimately show ?thesis using mq_client_server_ok [OF srv step q] by (simp add: mq_inv_def)
qed

lemma mq_step_inv:
  assumes "mq_inv files clean P st" and "mq_step files True P st st'" and "clean \<Longrightarrow> clean_files files"
  shows "mq_inv files clean P st'"
  using assms(2)
proof (cases rule: mq_step.cases)
  case (by_mq_server got)
  then show ?thesis using mq_server_inv [OF assms(1)] by blast
next
  case (by_mq_client pid got)
  then show ?thesis using mq_client_inv [OF assms(1) _ _ _ assms(3)] by blast
qed

lemma mq_start_inv:
  assumes "mq_start P st"
  shows "mq_inv files clean P st"
proof -
  have w: "mq_waiting st p = []" "\<not> mq_busy st p" "mq_pending st p = 0" for p using assms by (simp_all add: mq_start_def mq_waiting_def mq_busy_def mq_pending_def)
  have "mq_client_ok files clean st p" if "p \<in> P" for p
    using assms that w by (simp add: mq_start_def k_new_def mq_client_ok_def Let_def k_quiet_def)
  moreover have "mq_server_ok P st" using assms by (simp add: mq_start_def mq_server_ok_def)
  ultimately show ?thesis by (simp add: mq_inv_def)
qed

lemma mq_run_inv:
  assumes "mq_start P st" and "mq_run files True P st st'" and "clean \<Longrightarrow> clean_files files"
  shows "mq_inv files clean P st'"
  using assms(2) unfolding mq_run_def
proof (induction rule: rtranclp_induct)
  case base
  show ?case by (rule mq_start_inv [OF assms(1)])
next
  case (step st' st'')
  then show ?case using mq_step_inv [OF _ _ assms(3)] by blast
qed

section \<open>Every run ends\<close>

definition mq_cost :: "(string \<Rightarrow> string option) \<Rightarrow> string \<Rightarrow> nat" where
  "mq_cost files path = 8 * length (mq_answer files (take PATH_MAX path)) + 20"

definition k_weight :: "(string \<Rightarrow> string option) \<Rightarrow> mq_client \<Rightarrow> nat" where
  "k_weight files c =
     (if k_exit c \<noteq> None then 0
      else case k_pc c of
        K_Create \<Rightarrow> mq_cost files (k_path c) + 8
      | K_Server \<Rightarrow> mq_cost files (k_path c) + 7
      | K_Send \<Rightarrow> mq_cost files (k_path c) + 6
      | K_Receive \<Rightarrow> 4
      | K_Close_Server \<Rightarrow> 3
      | K_Close \<Rightarrow> 2
      | K_Unlink \<Rightarrow> 1)"

definition v_weight :: "(string \<Rightarrow> string option) \<Rightarrow> mqsys \<Rightarrow> nat" where
  "v_weight files st =
     (if v_exit st \<noteq> None then 0
      else case v_pc st of
        V_Open \<Rightarrow> 2
      | V_Receive \<Rightarrow> 1
      | V_Client \<Rightarrow> mq_cost files (rq_pathname (v_req st))
      | V_File \<Rightarrow> mq_cost files (rq_pathname (v_req st)) - 1
      | V_Read \<Rightarrow> 8 * length (mq_all (v_resp st) (v_file st)) + 9
      | V_Send \<Rightarrow> 8 * length (mq_all (v_resp st) (v_file st)) + 15
      | V_Last \<Rightarrow> 8
      | V_Close \<Rightarrow> 2)"

definition mq_weight :: "(string \<Rightarrow> string option) \<Rightarrow> int set \<Rightarrow> mqsys \<Rightarrow> nat" where
  "mq_weight files P st =
     (\<Sum>p \<in> P. k_weight files (mq_clients st p) + 3 * length (mq_msgs st p)) + v_weight files st +
     (case mq_requests st of None \<Rightarrow> 0 | Some rs \<Rightarrow> sum_list (map (\<lambda>r. mq_cost files (rq_pathname r)) rs))"

lemma length_all: "rest \<noteq> [] \<Longrightarrow> length (mq_all resp rest) = Suc (length (mq_all (fill resp rest) (drop (MESSAGE_SIZE - 1) rest)))"
  by (subst mq_all.simps) simp

lemma length_all_end: "length (mq_all resp []) = 1"
  by (subst mq_all.simps) simp

lemma mq_cost_pos: "20 \<le> mq_cost files path"
  by (simp add: mq_cost_def)

lemma sum_msgs_put:
  assumes "finite P"
  shows "(\<Sum>p \<in> P. k_weight files (cl p) + 3 * length ((ms(q := ms q @ [m])) p)) \<le> (\<Sum>p \<in> P. k_weight files (cl p) + 3 * length (ms p)) + (3 :: nat)"
proof (cases "q \<in> P")
  case True
  have "(\<Sum>p \<in> P. k_weight files (cl p) + 3 * length ((ms(q := ms q @ [m])) p))
      = k_weight files (cl q) + 3 * length (ms q @ [m]) + (\<Sum>p \<in> P - {q}. k_weight files (cl p) + 3 * length (ms p))"
    unfolding sum.remove [OF assms True] by simp
  moreover have "(\<Sum>p \<in> P. k_weight files (cl p) + 3 * length (ms p)) = k_weight files (cl q) + 3 * length (ms q) + (\<Sum>p \<in> P - {q}. k_weight files (cl p) + 3 * length (ms p))"
    by (rule sum.remove [OF assms True])
  ultimately show ?thesis by simp
next
  case False
  have "(\<Sum>p \<in> P. k_weight files (cl p) + 3 * length ((ms(q := ms q @ [m])) p)) = (\<Sum>p \<in> P. k_weight files (cl p) + 3 * length (ms p))"
    by (rule sum.cong) (use False in auto)
  then show ?thesis by simp
qed

definition q_weight :: "(string \<Rightarrow> string option) \<Rightarrow> mqsys \<Rightarrow> nat" where
  "q_weight files st = (case mq_requests st of None \<Rightarrow> 0 | Some rs \<Rightarrow> sum_list (map (\<lambda>r. mq_cost files (rq_pathname r)) rs))"

definition m_weight :: "(string \<Rightarrow> string option) \<Rightarrow> int set \<Rightarrow> mqsys \<Rightarrow> nat" where
  "m_weight files P st = (\<Sum>p \<in> P. k_weight files (mq_clients st p) + 3 * length (mq_msgs st p))"

lemma mq_weight_alt: "mq_weight files P st = m_weight files P st + v_weight files st + q_weight files st"
  by (simp add: mq_weight_def m_weight_def q_weight_def)

lemma mq_server_weight:
  assumes fin: "finite P" and step: "mq_server_step files got st = Some st'"
  shows "mq_weight files P st' < mq_weight files P st"
proof -
  have live: "v_exit st = None" using step by (auto simp: mq_server_step_def split: if_splits)
  have put: "m_weight files P (st\<lparr>v_resp := x, mq_msgs := (mq_msgs st)(q := mq_msgs st q @ [m]), v_pc := pc\<rparr>) \<le> m_weight files P st + 3" for x q m pc
    using sum_msgs_put [OF fin, of files "mq_clients st" "mq_msgs st" q m] by (simp add: m_weight_def)
  show ?thesis
  proof (cases "v_pc st")
    case V_Open
    then show ?thesis using step live by (auto simp: mq_server_step_def mq_weight_alt m_weight_def q_weight_def v_weight_def split: option.splits if_splits)
  next
    case V_Receive
    then consider "st' = st\<lparr>v_exit := Some (Inr 1)\<rparr>"
      | r rs where "mq_requests st = Some (r # rs)" "st' = st\<lparr>mq_requests := Some rs, v_req := r, v_pc := V_Client\<rparr>"
      using step live by (auto simp: mq_server_step_def split: if_splits option.splits list.splits)
    then show ?thesis using live V_Receive by cases (simp_all add: mq_weight_alt m_weight_def q_weight_def v_weight_def)
  next
    case V_Client
    then consider line where "st' = mq_log line V_Receive st" | q where "st' = st\<lparr>v_queue := q, v_pc := V_File\<rparr>"
      using step live by (auto simp: mq_server_step_def Let_def split: option.splits)
    then show ?thesis using live V_Client mq_cost_pos [of files "rq_pathname (v_req st)"]
      by cases (simp_all add: mq_weight_alt m_weight_def q_weight_def v_weight_def mq_log_def)
  next
    case V_File
    then consider line where "st' = mq_log line V_Receive st" | "st' = st\<lparr>v_exit := Some (Inl Out_Of_Bounds)\<rparr>"
      | f where "open_file files (rq_pathname (v_req st)) = Some f" "st' = st\<lparr>v_file := f, v_resp := replicate MESSAGE_SIZE NUL, v_pc := V_Read\<rparr>"
      using step live by (auto simp: mq_server_step_def Let_def split: option.splits if_splits)
    then show ?thesis
    proof cases
      case 3
      have "length (rq_pathname (v_req st)) < PATH_MAX" using 3(1) by (simp add: open_file_def split: if_splits)
      then have "mq_cost files (rq_pathname (v_req st)) = 8 * length (mq_all (replicate MESSAGE_SIZE NUL) f) + 20"
        using 3(1) by (simp add: mq_cost_def mq_answer_def)
      then show ?thesis using live V_File by (simp add: mq_weight_alt m_weight_def q_weight_def v_weight_def 3(2))
    qed (use live V_File mq_cost_pos [of files "rq_pathname (v_req st)"] in
        \<open>simp_all add: mq_weight_alt m_weight_def q_weight_def v_weight_def mq_log_def\<close>)
  next
    case V_Read
    then consider "st' = st\<lparr>v_pc := V_Last\<rparr>" | "v_file st \<noteq> []" "st' = mq_read st"
      using step live by (auto simp: mq_server_step_def split: if_splits)
    then show ?thesis
    proof cases
      case 1
      then show ?thesis using live V_Read by (simp add: mq_weight_alt m_weight_def q_weight_def v_weight_def)
    next
      case 2
      then show ?thesis using live V_Read length_all [OF 2(1), of "v_resp st"] by (simp add: mq_weight_alt m_weight_def q_weight_def v_weight_def mq_read_def)
    qed
  next
    case V_Send
    then consider line where "st' = mq_log line V_Last st"
      | q m where "st' = st\<lparr>mq_msgs := (mq_msgs st)(q := mq_msgs st q @ [m]), v_pc := V_Read\<rparr>"
      using step live by (auto simp: mq_server_step_def mq_put_def split: if_splits)
    then show ?thesis
    proof cases
      case 1
      then show ?thesis using live V_Send by (simp add: mq_weight_alt m_weight_def q_weight_def v_weight_def mq_log_def)
    next
      case 2
      then show ?thesis using live V_Send put [where x = "v_resp st" and q = q and m = m and pc = V_Read] by (simp add: mq_weight_alt q_weight_def v_weight_def)
    qed
  next
    case V_Last
    then consider line x where "st' = mq_log line V_Close (st\<lparr>v_resp := x\<rparr>)"
      | x q m where "st' = st\<lparr>v_resp := x, mq_msgs := (mq_msgs st)(q := mq_msgs st q @ [m]), v_pc := V_Close\<rparr>"
      using step live by (auto simp: mq_server_step_def mq_put_def Let_def split: if_splits)
    then show ?thesis
    proof cases
      case 1
      then show ?thesis using live V_Last by (simp add: mq_weight_alt m_weight_def q_weight_def v_weight_def mq_log_def)
    next
      case 2
      then show ?thesis using live V_Last put [where x = x and q = q and m = m and pc = V_Close] by (simp add: mq_weight_alt q_weight_def v_weight_def)
    qed
  next
    case V_Close
    then consider line where "st' = mq_log line V_Receive st" | "st' = st\<lparr>v_pc := V_Receive\<rparr>"
      using step live by (auto simp: mq_server_step_def split: if_splits)
    then show ?thesis using live V_Close by cases (simp_all add: mq_weight_alt m_weight_def q_weight_def v_weight_def mq_log_def)
  qed
qed

lemma mq_client_sum:
  assumes "finite P" and "q \<in> P" and step: "mq_client_step got q st = Some st'"
    and less: "k_weight files (mq_clients st' q) + 3 * length (mq_msgs st' q) + q_weight files st' <
      k_weight files (mq_clients st q) + 3 * length (mq_msgs st q) + q_weight files st"
  shows "mq_weight files P st' < mq_weight files P st"
proof -
  let ?f = "\<lambda>st p. k_weight files (mq_clients st p) + 3 * length (mq_msgs st p)"
  have "sum (?f st') (P - {q}) = sum (?f st) (P - {q})"
    by (rule sum.cong) (use mq_client_keeps(2) [OF step] in auto)
  moreover have "m_weight files P s = ?f s q + sum (?f s) (P - {q})" for s unfolding m_weight_def by (rule sum.remove [OF assms(1, 2)])
  moreover have "v_weight files st' = v_weight files st" using mq_client_keeps(1) [OF step] by (simp add: v_weight_def split: mq_spc.split)
  ultimately show ?thesis using less by (simp add: mq_weight_alt)
qed

lemma mq_client_weight:
  assumes "finite P" and "q \<in> P" and step: "mq_client_step got q st = Some st'"
  shows "mq_weight files P st' < mq_weight files P st"
proof -
  let ?c = "mq_clients st q" and ?w = "\<lambda>st. k_weight files (mq_clients st q) + 3 * length (mq_msgs st q) + q_weight files st"
  have live: "k_exit ?c = None" using step by (auto simp: mq_client_step_def Let_def split: if_splits)
  have pos: "0 < k_weight files ?c" using live by (cases "k_pc ?c") (simp_all add: k_weight_def)
  have fails: "?w (k_fails q st) < ?w st" using pos by (simp add: k_fails_def k_upd_def k_weight_def q_weight_def)
  have goes: "?w (k_goes q pc st) < ?w st" if "k_weight files (?c\<lparr>k_pc := pc\<rparr>) < k_weight files ?c" for pc
    using that by (simp add: k_goes_def k_upd_def q_weight_def)
  have "?w st' < ?w st"
  proof (cases "k_pc ?c")
    case K_Create
    then have "st' = k_fails q st \<or> st' = k_goes q K_Server (st\<lparr>mq_names := (mq_names st)(client_mq_name q := Some q), mq_msgs := (mq_msgs st)(q := [])\<rparr>)"
      using step live by (simp add: mq_client_step_def Let_def split: if_splits)
    then show ?thesis
    proof
      assume "st' = k_goes q K_Server (st\<lparr>mq_names := (mq_names st)(client_mq_name q := Some q), mq_msgs := (mq_msgs st)(q := [])\<rparr>)"
      then show ?thesis using K_Create live by (simp add: k_goes_def k_upd_def k_weight_def q_weight_def)
    qed (use fails in simp)
  next
    case K_Server
    then have "st' = k_fails q st \<or> st' = k_goes q K_Send st" using step live by (simp add: mq_client_step_def Let_def split: if_splits)
    moreover have "k_weight files (?c\<lparr>k_pc := K_Send\<rparr>) < k_weight files ?c" using K_Server live by (simp add: k_weight_def)
    ultimately show ?thesis using fails goes by blast
  next
    case K_Send
    then have "st' = k_fails q st \<or> (\<exists>rs. mq_requests st = Some rs \<and>
        st' = k_goes q K_Receive (st\<lparr>mq_requests := Some (rs @ [\<lparr>rq_pid = q, rq_pathname = take PATH_MAX (k_path ?c)\<rparr>])\<rparr>))"
      using step live by (auto simp: mq_client_step_def Let_def split: if_splits option.splits)
    moreover have "mq_cost files (take PATH_MAX (k_path ?c)) = mq_cost files (k_path ?c)" by (simp add: mq_cost_def)
    ultimately show ?thesis using fails K_Send live by (elim disjE exE conjE) (simp_all add: k_goes_def k_upd_def k_weight_def q_weight_def)
  next
    case K_Receive
    then have "st' = k_fails q st \<or> (\<exists>m ms. mq_msgs st q = m # ms \<and> st' = mq_took q m (st\<lparr>mq_msgs := (mq_msgs st)(q := ms)\<rparr>))"
      using step live by (auto simp: mq_client_step_def Let_def split: if_splits list.splits)
    then show ?thesis using fails K_Receive live
      by (elim disjE exE conjE) (simp_all add: mq_took_def k_goes_def k_upd_def k_weight_def q_weight_def)
  next
    case K_Close_Server
    then have "st' = k_fails q st \<or> st' = k_goes q K_Close st" using step live by (simp add: mq_client_step_def Let_def split: if_splits)
    moreover have "k_weight files (?c\<lparr>k_pc := K_Close\<rparr>) < k_weight files ?c" using K_Close_Server live by (simp add: k_weight_def)
    ultimately show ?thesis using fails goes by blast
  next
    case K_Close
    then have "st' = k_fails q st \<or> st' = k_goes q K_Unlink st" using step live by (simp add: mq_client_step_def Let_def split: if_splits)
    moreover have "k_weight files (?c\<lparr>k_pc := K_Unlink\<rparr>) < k_weight files ?c" using K_Close live by (simp add: k_weight_def)
    ultimately show ?thesis using fails goes by blast
  next
    case K_Unlink
    then have "st' = k_fails q st \<or> st' = k_upd q (\<lambda>c. c\<lparr>k_exit := Some (Inr 0)\<rparr>) (st\<lparr>mq_names := (mq_names st)(client_mq_name q := None)\<rparr>)"
      using step live by (simp add: mq_client_step_def Let_def split: if_splits)
    then show ?thesis using fails pos by (elim disjE) (simp_all add: k_upd_def k_weight_def q_weight_def)
  qed
  then show ?thesis by (rule mq_client_sum [OF assms])
qed

lemma mq_step_weight: "finite P \<Longrightarrow> mq_step files works P st st' \<Longrightarrow> mq_weight files P st' < mq_weight files P st"
  by (erule mq_stepE) (blast intro: mq_server_weight mq_client_weight)+

section \<open>Where a run stops\<close>

definition mq_stuck :: "(string \<Rightarrow> string option) \<Rightarrow> int set \<Rightarrow> mqsys \<Rightarrow> bool" where
  "mq_stuck files P st \<longleftrightarrow> (\<nexists>st'. mq_step files True P st st')"

lemma mq_run_stops:
  assumes "finite P"
  shows "\<exists>st'. mq_run files True P st st' \<and> mq_stuck files P st'"
proof (induction "mq_weight files P st" arbitrary: st rule: less_induct)
  case less
  show ?case
  proof (cases "mq_stuck files P st")
    case True
    then show ?thesis unfolding mq_run_def by blast
  next
    case False
    then obtain st1 where s: "mq_step files True P st st1" unfolding mq_stuck_def by blast
    from less [OF mq_step_weight [OF assms s]] obtain st' where "mq_run files True P st1 st'" "mq_stuck files P st'" by blast
    then show ?thesis using s unfolding mq_run_def by (meson converse_rtranclp_into_rtranclp)
  qed
qed

lemma mq_client_path:
  assumes step: "mq_client_step got q st = Some st'"
  shows "k_path (mq_clients st' p) = k_path (mq_clients st p)"
proof (cases "p = q")
  case True
  have live: "k_exit (mq_clients st q) = None" using step by (auto simp: mq_client_step_def Let_def split: if_splits)
  show ?thesis using step live True
    by (cases "k_pc (mq_clients st q)")
      (auto simp: mq_client_step_def Let_def mq_took_def k_fails_def k_goes_def k_upd_def split: if_splits option.splits list.splits)
qed (use mq_client_keeps(2) [OF step] in simp)

lemma mq_run_path: "mq_run files works P st st' \<Longrightarrow> k_path (mq_clients st' p) = k_path (mq_clients st p)"
  unfolding mq_run_def
proof (induction rule: rtranclp_induct)
  case (step st' st'')
  from step(2) have "k_path (mq_clients st'' p) = k_path (mq_clients st' p)"
    by (cases rule: mq_step.cases) (simp_all add: mq_server_keeps mq_client_path)
  then show ?case using step.IH by simp
qed simp

lemma mq_answer_empty: "length path < PATH_MAX \<Longrightarrow> mq_answer files path = [] \<longleftrightarrow> files path = None"
  by (simp add: mq_answer_def open_file_def split: option.splits)

lemma mq_answer_shown:
  assumes "clean_files files" and "length path < PATH_MAX" and "files path = Some f"
  shows "shown (mq_answer files path) = f @ stale f"
  using shown_all [of f] assms by (simp add: mq_answer_def open_file_def clean_files_def)

lemma mq_ended:
  assumes "mq_inv files clean P st" and "p \<in> P" and "k_exit (mq_clients st p) = Some v"
  shows "v = Inr 0 \<and> mq_answer files (k_path (mq_clients st p)) \<noteq> [] \<and> k_out (mq_clients st p) = shown (mq_answer files (k_path (mq_clients st p)))"
  using assms by (auto simp: mq_inv_def mq_client_ok_def k_served_def Let_def)

lemma mq_server_okD:
  assumes "mq_server_ok P st"
  shows "v_pc st \<notin> {V_Receive, V_Close} \<Longrightarrow> request_ok P (v_req st)" "v_pc st \<in> {V_File, V_Read, V_Send, V_Last} \<Longrightarrow> v_queue st = rq_pid (v_req st)"
  using assms by (simp_all add: mq_server_ok_def)

lemma mq_stuck_server:
  assumes inv: "mq_inv files True P st" and stuck: "mq_stuck files P st"
  shows "v_pc st = V_Receive" "mq_requests st = Some []"
proof -
  have srv: "mq_server_ok P st" using inv by (simp add: mq_inv_def)
  have live: "v_exit st = None" using srv by (simp add: mq_server_ok_def)
  have none: "mq_server_step files 0 st = None" using stuck by_mq_server [of files 0 st _ True P] unfolding mq_stuck_def by (metis not_None_eq zero_neq_neg_one)
  have room: "length (mq_msgs st (v_queue st)) < mq_maxmsg" if v: "v_pc st \<in> {V_Send, V_Last}"
  proof (rule ccontr)
    assume full: "\<not> ?thesis"
    let ?q = "v_queue st"
    have "request_ok P (v_req st)" "v_queue st = rq_pid (v_req st)" using mq_server_okD [OF srv] v by auto
    then have q: "?q \<in> P" "rq_pid (v_req st) = ?q" by (simp_all add: request_ok_def)
    have busy: "mq_busy st ?q" using q v unfolding mq_busy_def by blast
    obtain m ms where m: "mq_msgs st ?q = m # ms" using full by (cases "mq_msgs st ?q") (auto simp: mq_maxmsg_def)
    have ok: "mq_client_ok files True st ?q" using inv q by (simp add: mq_inv_def)
    have "mq_coming files st ?q \<noteq> []" using m by (simp add: mq_coming_def)
    then have pc: "k_pc (mq_clients st ?q) = K_Receive" using busy ok
      by (cases "k_pc (mq_clients st ?q)") (simp_all add: mq_client_ok_def Let_def k_quiet_def k_served_def)
    then have "k_exit (mq_clients st ?q) = None" using ok by (auto simp: mq_client_ok_def Let_def)
    then have "mq_client_step 0 ?q st \<noteq> None" using pc m by (simp add: mq_client_step_def Let_def)
    then show False using stuck by_mq_client [of ?q P 0 st _ True files] q(1) unfolding mq_stuck_def by auto
  qed
  have req: "\<exists>rs. mq_requests st = Some rs" "v_pc st \<noteq> V_Open" using srv unfolding mq_server_ok_def by blast+
  show "v_pc st = V_Receive"
    using none live req(2) room by (cases "v_pc st") (auto simp: mq_server_step_def Let_def mq_put_def split: option.splits if_splits)
  then show "mq_requests st = Some []" using none live req(1) by (auto simp: mq_server_step_def split: list.splits)
qed

lemma mq_stuck_client:
  assumes inv: "mq_inv files True P st" and stuck: "mq_stuck files P st" and p: "p \<in> P" and run: "k_exit (mq_clients st p) = None"
  shows "mq_answer files (k_path (mq_clients st p)) = [] \<and> k_out (mq_clients st p) = []"
proof -
  let ?c = "mq_clients st p"
  have ok: "mq_client_ok files True st p" using inv p by (simp add: mq_inv_def)
  have none: "mq_client_step 0 p st = None"
    using stuck by_mq_client [of p P 0 st _ True files] p unfolding mq_stuck_def by (cases "mq_client_step 0 p st") auto
  note srv = mq_stuck_server [OF inv stuck]
  have pc: "k_pc ?c = K_Receive" and empty: "mq_msgs st p = []"
    using none run srv(2) by (cases "k_pc ?c"; simp add: mq_client_step_def Let_def mq_maxmsg_def split: list.splits if_splits)+
  have "mq_coming files st p = []" using srv empty by (simp add: mq_view)
  then show ?thesis using ok pc by (auto simp: mq_client_ok_def k_receiving_def Let_def shown_def)
qed

lemma mq_outcome:
  assumes "mq_start P st" and "clean_files files" and "mq_run files True P st st'" and "p \<in> P"
  shows "case files (k_path (mq_clients st p)) of
      None \<Rightarrow> k_exit (mq_clients st' p) = None
    | Some f \<Rightarrow> (mq_stuck files P st' \<longrightarrow> k_exit (mq_clients st' p) = Some (Inr 0)) \<and>
        (k_exit (mq_clients st' p) \<noteq> None \<longrightarrow> k_exit (mq_clients st' p) = Some (Inr 0) \<and> k_out (mq_clients st' p) = f @ stale f)"
proof -
  have inv: "mq_inv files True P st'" using mq_run_inv [OF assms(1, 3)] assms(2) by blast
  have path: "k_path (mq_clients st' p) = k_path (mq_clients st p)" by (rule mq_run_path [OF assms(3)])
  have len: "length (k_path (mq_clients st p)) < PATH_MAX" using assms(1, 4) by (simp add: mq_start_def k_new_def)
  note empty = mq_answer_empty [OF len, of files]
  show ?thesis
  proof (cases "files (k_path (mq_clients st p))")
    case None
    then show ?thesis using mq_ended [OF inv assms(4)] empty path by (cases "k_exit (mq_clients st' p)") auto
  next
    case (Some f)
    then show ?thesis
      using mq_ended [OF inv assms(4)] mq_stuck_client [OF inv _ assms(4)] empty path mq_answer_shown [OF assms(2) len Some]
      by (cases "k_exit (mq_clients st' p)") auto
  qed
qed

lemma mq_stuck_exit:
  assumes "mq_start P st" and "clean_files files" and "mq_run files True P st st'" and "mq_stuck files P st'" and "p \<in> P"
  shows "k_exit (mq_clients st' p) = (if files (k_path (mq_clients st p)) = None then None else Some (Inr 0))"
proof (cases "files (k_path (mq_clients st p))")
  case None
  with mq_outcome [OF assms(1-3, 5)] have "k_exit (mq_clients st' p) = None" by (simp only: option.case)
  then show ?thesis using None by simp
next
  case (Some f)
  from mq_outcome [OF assms(1-3, 5)] have "k_exit (mq_clients st' p) = Some (Inr 0)" unfolding Some option.case using assms(4) by blast
  then show ?thesis using Some by simp
qed

section \<open>Properties\<close>

text \<open>C28: For files without NUL characters and calls that do not fail, whatever the interleaving of the server with any number of
  clients: a client that has ended has ended with success and has printed its file, followed, when the file is longer than 8191
  bytes and not a multiple of that, by the bytes the buffer still holds of the message before the last.\<close>

theorem mq_file_stale_bytes:
  assumes "mq_start P st" and "clean_files files" and "mq_run files True P st st'" and "p \<in> P"
    and "k_exit (mq_clients st' p) = Some v"
  shows "\<exists>f. files (k_path (mq_clients st p)) = Some f \<and> v = Inr 0 \<and> k_out (mq_clients st' p) = f @ stale f"
  using mq_outcome [OF assms(1-4)] assms(5) by (auto split: option.splits)

text \<open>C29: Under the same two conditions, no file with a NUL character and no call that fails, and for clients that start while the
  server waits for requests: every step brings the server and its clients nearer to an end, and every run can be continued to a
  state where no one can go on. There, every client whose file can be opened has ended with success, and every other client waits
  for ever for an answer the server does not send. The condition on the files is needed: a client takes a message that begins
  with NUL for the end of its file and leaves, while the server goes on sending to its queue until this is full.\<close>

theorem mq_clients_end:
  assumes "mq_start P st" and "clean_files files" and "mq_run files True P st st'"
  shows "(\<forall>st''. mq_step files True P st' st'' \<longrightarrow> mq_weight files P st'' < mq_weight files P st') \<and>
    (\<exists>st''. mq_run files True P st' st'' \<and> mq_stuck files P st'') \<and>
    (mq_stuck files P st' \<longrightarrow> (\<forall>p \<in> P. k_exit (mq_clients st' p) = (if files (k_path (mq_clients st p)) = None then None else Some (Inr 0))))"
proof -
  have fin: "finite P" using assms(1) by (simp add: mq_start_def)
  note mq_stuck_exit [OF assms]
  moreover have "\<forall>st''. mq_step files True P st' st'' \<longrightarrow> mq_weight files P st'' < mq_weight files P st'" using mq_step_weight [OF fin] by blast
  ultimately show ?thesis using mq_run_stops [OF fin, of files st'] by simp
qed

definition ex_mq_file :: string where "ex_mq_file = replicate (MESSAGE_SIZE - 1) (CHR ''a'') @ ''b''"

definition ex_mq_files :: "string \<Rightarrow> string option" where
  "ex_mq_files path = (if path = ''long'' then Some ex_mq_file else None)"

definition ex_mq_client :: "string \<Rightarrow> mq_client" where
  "ex_mq_client path = \<lparr>k_pc = K_Create, k_path = path, k_out = [], k_exit = None\<rparr>"

definition ex_mq :: mqsys where
  "ex_mq = \<lparr>mq_requests = Some [], mq_names = (\<lambda>_. None), mq_msgs = (\<lambda>_. []),
     mq_clients = (\<lambda>p. ex_mq_client (if p = 7 then ''long'' else ''none'')), v_pc = V_Receive,
     v_req = \<lparr>rq_pid = 0, rq_pathname = []\<rparr>, v_queue = 0, v_file = [], v_resp = [], v_log = [], v_exit = None\<rparr>"

lemma ex_mq_start: "mq_start {7, 8} ex_mq" "clean_files ex_mq_files"
proof -
  have "NUL \<notin> set ex_mq_file" by (simp add: ex_mq_file_def set_replicate_conv_if NUL_def)
  then show "clean_files ex_mq_files" by (simp add: clean_files_def ex_mq_files_def)
qed (simp add: mq_start_def k_new_def ex_mq_def ex_mq_client_def INT_MAX_def PATH_MAX_def)

lemma ex_mq_stale: "stale ex_mq_file = replicate (MESSAGE_SIZE - 2) (CHR ''a'')"
proof -
  define n where "n = MESSAGE_SIZE - 1"
  have n: "1 < n" "MESSAGE_SIZE - 2 = n - 1" by (simp_all add: n_def MESSAGE_SIZE_def)
  have f: "ex_mq_file = replicate n (CHR ''a'') @ ''b''" by (simp only: ex_mq_file_def n_def)
  have m: "length ex_mq_file = Suc n" "Suc n mod n = 1" using n(1) by (simp_all add: f mod_Suc)
  show ?thesis unfolding stale_def Let_def n_def [symmetric] m n(2) using n(1) by (simp add: f)
qed

lemma ex_mq_stop: "\<exists>st. mq_run ex_mq_files True {7, 8} ex_mq st \<and> mq_stuck ex_mq_files {7, 8} st"
  by (rule mq_run_stops) simp

lemma ex_mq_paths: "ex_mq_files (k_path (mq_clients ex_mq 7)) = Some ex_mq_file" "ex_mq_files (k_path (mq_clients ex_mq 8)) = None"
  by (simp_all add: ex_mq_def ex_mq_client_def ex_mq_files_def)

theorem mq_file_stale_bytes_witness:
  "\<exists>st. mq_run ex_mq_files True {7, 8} ex_mq st \<and> k_out (mq_clients st 7) = ex_mq_file @ replicate (MESSAGE_SIZE - 2) (CHR ''a'')"
proof -
  obtain st where st: "mq_run ex_mq_files True {7, 8} ex_mq st" "mq_stuck ex_mq_files {7, 8} st" using ex_mq_stop by blast
  have p: "(7 :: int) \<in> {7, 8}" by simp
  have "k_exit (mq_clients st 7) = Some (Inr 0)" using mq_stuck_exit [OF ex_mq_start st p] unfolding ex_mq_paths by simp
  from mq_file_stale_bytes [OF ex_mq_start st(1) p this] have "k_out (mq_clients st 7) = ex_mq_file @ stale ex_mq_file" unfolding ex_mq_paths(1) by blast
  then show ?thesis using st(1) unfolding ex_mq_stale by blast
qed

theorem mq_clients_end_witness:
  "\<exists>st. mq_run ex_mq_files True {7, 8} ex_mq st \<and> mq_stuck ex_mq_files {7, 8} st \<and>
    k_exit (mq_clients st 7) = Some (Inr 0) \<and> k_exit (mq_clients st 8) = None"
proof -
  obtain st where st: "mq_run ex_mq_files True {7, 8} ex_mq st" "mq_stuck ex_mq_files {7, 8} st" using ex_mq_stop by blast
  from mq_clients_end [OF ex_mq_start st(1)] have "k_exit (mq_clients st 7) = Some (Inr 0)" "k_exit (mq_clients st 8) = None"
    using st(2) by (simp_all add: ex_mq_paths)
  then show ?thesis using st by blast
qed

end
