(* ===== verification/Current_Dir.thy ===== *)
theory Current_Dir
  imports C_Text
begin

text \<open>
  The pathname of the working directory, \<^verbatim>\<open>t_getcwd\<close> of \<^verbatim>\<open>18-directories-and-links/exercises/18-5.c\<close>: the program climbs from directory
  to directory and looks in each for the one it has come from, which it knows by its inode number.

  The file system is a parameter: for a directory, whether it can be opened, where \<^verbatim>\<open>chdir("..")\<close> leads, its inode number and its
  entries with theirs; None is a call that fails. The state has the working directory, the number of open descriptors and of
  open directory streams.
\<close>

section \<open>The program\<close>

record dirfs =
  d_open :: "nat \<Rightarrow> bool"
  d_up :: "nat \<Rightarrow> nat option"
  d_ino :: "nat \<Rightarrow> nat option"
  d_entries :: "nat \<Rightarrow> (string \<times> nat) list option"

record cwdsys = cmem +
  cwd :: nat
  open_fds :: nat
  open_dirs :: nat

datatype climb = Climbs | At_Root | Gave_Up

type_synonym climber = "climb \<times> nat \<times> string \<times> cwdsys"

definition give_up :: "ptr \<Rightarrow> nat \<Rightarrow> string \<Rightarrow> cwdsys \<Rightarrow> climber res" where
  "give_up p ino buf st = rbind (c_free p st) (\<lambda>st1. Inr (Gave_Up, ino, buf, st1\<lparr>open_fds := open_fds st1 - 1\<rparr>))"

text \<open>\<open>current\<close> is the second character of the buffer.\<close>

definition strlen_current :: "string \<Rightarrow> nat res" where
  "strlen_current buf = (if NUL \<in> set (drop 1 buf) then Inr (length (buf_text (drop 1 buf))) else Inl Out_Of_Bounds)"

definition put_current :: "nat \<Rightarrow> string \<Rightarrow> string \<Rightarrow> string res" where
  "put_current off xs buf =
     (if 1 + off + length xs \<le> length buf then Inr (take (1 + off) buf @ xs @ drop (1 + off + length xs) buf) else Inl Out_Of_Bounds)"

definition add_component :: "string \<Rightarrow> string \<Rightarrow> cwdsys \<Rightarrow> ((string \<times> cwdsys) option) res" where
  "add_component d_name buf st =
     rbind (strlen_current buf) (\<lambda>len_c.
       let len_d = length d_name + 1 in
       if len_c + len_d \<ge> PATH_MAX then Inr None
       else if len_c > 0
       then (let (tmp, st1) = c_alloc st in
             if tmp = NULL then Inl Null_Deref
             else rbind (put_current len_d (take len_c (drop 1 buf)) buf) (\<lambda>buf1.
                  rbind (put_current 0 (d_name @ ''/'') buf1) (\<lambda>buf2.
                  rbind (c_free tmp st1) (\<lambda>st2. Inr (Some (buf2, st2))))))
       else rbind (put_current 0 d_name buf) (\<lambda>buf1. Inr (Some (buf1, st))))"

definition climb_step :: "dirfs \<Rightarrow> ptr \<Rightarrow> climber \<Rightarrow> climber res" where
  "climb_step fs p = (\<lambda>(_, dir_inode, buf, st).
     case d_up fs (cwd st) of None \<Rightarrow> give_up p dir_inode buf st
     | Some d \<Rightarrow>
         (let st1 = st\<lparr>cwd := d\<rparr> in
          case d_ino fs d of None \<Rightarrow> give_up p dir_inode buf st1
          | Some st_ino \<Rightarrow>
              if st_ino = dir_inode then Inr (At_Root, dir_inode, buf, st1)
              else case d_entries fs d of None \<Rightarrow> give_up p dir_inode buf st1
                   | Some entries \<Rightarrow>
                       (let st2 = st1\<lparr>open_dirs := open_dirs st1 + 1\<rparr> in
                        case List.find (\<lambda>e. snd e = dir_inode) entries of None \<Rightarrow> give_up p dir_inode buf st2
                        | Some direntp \<Rightarrow>
                            rbind (add_component (fst direntp) buf st2) (\<lambda>r.
                              case r of None \<Rightarrow> give_up p dir_inode buf (st2\<lparr>open_dirs := open_dirs st2 - 1\<rparr>)
                              | Some (buf1, st3) \<Rightarrow> Inr (Climbs, st_ino, buf1, st3\<lparr>open_dirs := open_dirs st3 - 1\<rparr>)))))"

text \<open>The result is the address of the buffer and its contents, or None for NULL.\<close>

definition t_getcwd :: "dirfs \<Rightarrow> cwdsys \<Rightarrow> ((ptr \<times> string) option \<times> cwdsys) res" where
  "t_getcwd fs st =
     (if \<not> d_open fs (cwd st) then Inr (None, st)
      else let cwd_save = cwd st; st1 = st\<lparr>open_fds := open_fds st + 1\<rparr> in
           case d_ino fs (cwd st) of None \<Rightarrow> Inr (None, st1)
           | Some dir_inode \<Rightarrow>
               (let (p, st2) = c_alloc st1 in
                if p = NULL then Inl Null_Deref
                else rbind (cwhile (\<lambda>s. fst s = Climbs) (climb_step fs p) (Climbs, dir_inode, ''/'' @ replicate (PATH_MAX - 1) NUL, st2))
                       (\<lambda>(s, _, buf, st3).
                          if s = Gave_Up then Inr (None, st3)
                          else Inr (Some (p, buf), st3\<lparr>cwd := cwd_save, open_fds := open_fds st3 - 1\<rparr>))))"

definition getcwd_main :: "dirfs \<Rightarrow> cwdsys \<Rightarrow> (string \<times> cwdsys) res" where
  "getcwd_main fs st =
     rbind (t_getcwd fs st) (\<lambda>(cwd, st1).
       case cwd of None \<Rightarrow> Inr ([], st1)
       | Some (p, buf) \<Rightarrow>
           if NUL \<in> set buf then rbind (c_free p st1) (\<lambda>st2. Inr (buf_text buf @ newline, st2)) else Inl Out_Of_Bounds)"

section \<open>Climbing\<close>

fun slashed :: "string list \<Rightarrow> string" where
  "slashed [] = []"
| "slashed [n] = n"
| "slashed (n # m # ns) = n @ ''/'' @ slashed (m # ns)"

text \<open>\<open>climbs fs d r ns\<close>: from \<open>d\<close> the parents lead to \<open>r\<close>, and \<open>ns\<close> are the names on the way down from \<open>r\<close> to \<open>d\<close>.\<close>

inductive climbs :: "dirfs \<Rightarrow> nat \<Rightarrow> nat \<Rightarrow> string list \<Rightarrow> bool" for fs where
  here: "climbs fs d d []"
| up: "d_up fs d = Some e \<Longrightarrow> d_ino fs d = Some i \<Longrightarrow> d_ino fs e = Some j \<Longrightarrow> i \<noteq> j \<Longrightarrow> d_entries fs e = Some es \<Longrightarrow>
    List.find (\<lambda>x. snd x = i) es = Some (n, i) \<Longrightarrow> n \<noteq> [] \<Longrightarrow> NUL \<notin> set n \<Longrightarrow> climbs fs e r ns \<Longrightarrow> climbs fs d r (ns @ [n])"

text \<open>The program takes a directory for the root when its parent has the same inode number.\<close>

definition looks_root :: "dirfs \<Rightarrow> nat \<Rightarrow> bool" where
  "looks_root fs d \<longleftrightarrow> (\<exists>e i. d_up fs d = Some e \<and> d_ino fs d = Some i \<and> d_ino fs e = Some i)"

definition path_buf :: "string \<Rightarrow> string" where
  "path_buf path = ''/'' @ path @ replicate (PATH_MAX - 1 - length path) NUL"

lemma slashed_Cons: "ns \<noteq> [] \<Longrightarrow> slashed (n # ns) = n @ ''/'' @ slashed ns"
  by (cases ns) simp_all

lemma slashed_nonempty: "\<forall>n \<in> set ns. n \<noteq> [] \<Longrightarrow> slashed ns = [] \<longleftrightarrow> ns = []"
  by (induction ns rule: slashed.induct) auto

lemma slashed_clean: "\<forall>n \<in> set ns. NUL \<notin> set n \<Longrightarrow> NUL \<notin> set (slashed ns)"
  by (induction ns rule: slashed.induct) (auto simp: NUL_def)

lemma slashed_shorter: "length (slashed ns) \<le> length (slashed (ms @ ns))"
proof (induction ms)
  case (Cons m ms)
  then show ?case by (cases "ms @ ns = []") (auto simp: slashed_Cons)
qed simp

lemma climbs_names: "climbs fs d r ns \<Longrightarrow> n \<in> set ns \<Longrightarrow> n \<noteq> [] \<and> NUL \<notin> set n"
  by (induction rule: climbs.induct) auto

lemma length_path_buf: "length path < PATH_MAX \<Longrightarrow> length (path_buf path) = PATH_MAX"
  by (simp add: path_buf_def)

lemma path_buf_text:
  assumes "NUL \<notin> set path" and "length path + 1 < PATH_MAX"
  shows "NUL \<in> set (drop 1 (path_buf path))" "buf_text (drop 1 (path_buf path)) = path" "buf_text (path_buf path) = ''/'' @ path"
proof -
  obtain k where k: "PATH_MAX - 1 - length path = Suc k" using assms(2) by (cases "PATH_MAX - 1 - length path") simp_all
  have t: "takeWhile (\<lambda>c. c \<noteq> NUL) (path @ NUL # ys) = path" for ys using assms(1) by (induction path) auto
  show "NUL \<in> set (drop 1 (path_buf path))" unfolding path_buf_def k by simp
  show "buf_text (drop 1 (path_buf path)) = path" using t unfolding path_buf_def k buf_text_def by simp
  show "buf_text (path_buf path) = ''/'' @ path" using t unfolding path_buf_def k buf_text_def by (simp add: NUL_def)
qed

text \<open>One component more.\<close>

lemma add_component_ok:
  assumes "ample st" "mem_ok st" and n: "n \<noteq> []" "NUL \<notin> set n" and ns: "\<forall>m \<in> set ns. m \<noteq> [] \<and> NUL \<notin> set m"
    and len: "length (slashed (n # ns)) + 1 < PATH_MAX"
  shows "\<exists>st1. add_component n (path_buf (slashed ns)) st = Inr (Some (path_buf (slashed (n # ns)), st1)) \<and>
    live st1 = live st \<and> mem_ok st1 \<and> ample st1 \<and> cwd st1 = cwd st \<and> open_fds st1 = open_fds st \<and> open_dirs st1 = open_dirs st"
proof -
  let ?old = "slashed ns"
  have clean: "NUL \<notin> set ?old" using slashed_clean ns by blast
  have short: "length ?old + 1 < PATH_MAX" using len slashed_shorter [of ns "[n]"] by simp
  have s: "strlen_current (path_buf ?old) = Inr (length ?old)" using path_buf_text(1, 2) [OF clean short] by (simp add: strlen_current_def)
  have L: "length (path_buf ?old) = PATH_MAX" using short by (simp add: length_path_buf)
  show ?thesis
  proof (cases "ns = []")
    case True
    then show ?thesis using len L assms(1, 2) unfolding add_component_def s rbind_Inr Let_def
      by (simp add: put_current_def path_buf_def)
  next
    case False
    let ?buf = "path_buf ?old" and ?d = "length n + 1"
    have pos: "0 < length ?old" using slashed_nonempty [of ns] ns False by simp
    have new: "slashed (n # ns) = n @ ''/'' @ ?old" by (rule slashed_Cons [OF False])
    have room: "length ?old + ?d + 1 < PATH_MAX" using len by (simp add: new)
    have take: "take (length ?old) (drop 1 ?buf) = ?old" by (simp add: path_buf_def)
    define R where "R = drop (1 + ?d + length ?old) ?buf"
    have R: "R = replicate (PATH_MAX - 1 - length ?old - ?d) NUL" by (simp add: R_def path_buf_def)
    define T where "T = take (1 + ?d) ?buf"
    have T: "length T = 1 + ?d" "take 1 T = ''/''" using room L by (simp_all add: T_def) (simp add: path_buf_def)
    define buf1 where "buf1 = T @ ?old @ R"
    have b1: "put_current ?d ?old ?buf = Inr buf1" using room L unfolding buf1_def R_def T_def by (simp add: put_current_def)
    have l1: "length buf1 = PATH_MAX" "take 1 buf1 = ''/''" "drop (1 + ?d) buf1 = ?old @ replicate (PATH_MAX - 1 - length ?old - ?d) NUL"
      using room T by (simp_all add: buf1_def R)
    have b2: "put_current 0 (n @ ''/'') buf1 = Inr (path_buf (slashed (n # ns)))"
      using room l1 by (simp add: put_current_def path_buf_def new) 
    define st1 where "st1 = snd (c_alloc st)"
    have al: "c_alloc st = (Suc (calls st), st1)" "live st1 = insert (Suc (calls st)) (live st)" "calls st1 = Suc (calls st)" "fails st1 = fails st"
      "cwd st1 = cwd st" "open_fds st1 = open_fds st" "open_dirs st1 = open_dirs st"
      using assms(1) by (simp_all add: st1_def c_alloc_def)
    have fr: "c_free (Suc (calls st)) st1 = Inr (st1\<lparr>live := live st\<rparr>)" using al(2) mem_ok_fresh [OF assms(2)] by (simp add: c_free_def)
    have ok: "mem_ok (st1\<lparr>live := live st\<rparr>)" "ample (st1\<lparr>live := live st\<rparr>)" using assms(1, 2) al(3, 4) by (auto simp: mem_ok_def ample_def)
    have nz: "Suc (calls st) \<noteq> NULL" by simp
    have "add_component n ?buf st = Inr (Some (path_buf (slashed (n # ns)), st1\<lparr>live := live st\<rparr>))"
      unfolding add_component_def s rbind_Inr Let_def al(1) take b1 b2 prod.case fr using room pos by simp
    then show ?thesis using ok al(5-7) by simp
  qed
qed

text \<open>The climb up to \<open>r\<close>.\<close>

lemma climb_loop:
  assumes "climbs fs d r ns" and "d_ino fs d = Some i" and "cwd st = d" and "mem_ok st" and "ample st"
    and "\<forall>m \<in> set ks. m \<noteq> [] \<and> NUL \<notin> set m" and "length (slashed (ns @ ks)) + 1 < PATH_MAX"
  shows "\<exists>j st1. cwhile (\<lambda>s. fst s = Climbs) (climb_step fs p) (Climbs, i, path_buf (slashed ks), st) =
      cwhile (\<lambda>s. fst s = Climbs) (climb_step fs p) (Climbs, j, path_buf (slashed (ns @ ks)), st1) \<and> d_ino fs r = Some j \<and>
    live st1 = live st \<and> open_fds st1 = open_fds st \<and> open_dirs st1 = open_dirs st \<and> cwd st1 = r"
  using assms
proof (induction arbitrary: i st ks rule: climbs.induct)
  case (here d)
  then show ?case by (intro exI [of _ i] exI [of _ st]) simp
next
  case (up d e i' j es n r ns)
  have i: "i = i'" using up.hyps(2) up.prems(1) by simp
  define st2 where "st2 = st\<lparr>cwd := e, open_dirs := open_dirs st + 1\<rparr>"
  have ok2: "ample st2" "mem_ok st2" using up.prems(3, 4) by (simp_all add: st2_def mem_ok_def ample_def)
  have len: "length (slashed (n # ks)) + 1 < PATH_MAX" using up.prems(6) slashed_shorter [of "n # ks" ns] by simp
  obtain st3 where st3: "add_component n (path_buf (slashed ks)) st2 = Inr (Some (path_buf (slashed (n # ks)), st3))"
    "live st3 = live st" "mem_ok st3" "ample st3" "cwd st3 = e" "open_fds st3 = open_fds st" "open_dirs st3 = open_dirs st + 1"
    using add_component_ok [OF ok2 up.hyps(7, 8) up.prems(5) len] by (auto simp: st2_def)
  define st4 where "st4 = st3\<lparr>open_dirs := open_dirs st3 - 1\<rparr>"
  have go: "climb_step fs p (Climbs, i, path_buf (slashed ks), st) = Inr (Climbs, j, path_buf (slashed (n # ks)), st4)"
    using up.hyps(1, 3-6) up.prems(2) st3(1) i by (simp add: climb_step_def st2_def st4_def)
  have ok4: "cwd st4 = e" "mem_ok st4" "ample st4" using st3 by (simp_all add: st4_def mem_ok_def ample_def)
  have ks: "\<forall>m \<in> set (n # ks). m \<noteq> [] \<and> NUL \<notin> set m" using up.hyps(7, 8) up.prems(5) by simp
  have app: "(ns @ [n]) @ ks = ns @ n # ks" by simp
  have "cwhile (\<lambda>s. fst s = Climbs) (climb_step fs p) (Climbs, i, path_buf (slashed ks), st) =
      cwhile (\<lambda>s. fst s = Climbs) (climb_step fs p) (Climbs, j, path_buf (slashed (n # ks)), st4)"
    by (subst cwhile_unfold) (simp add: go)
  then show ?case using up.IH [OF up.hyps(3) ok4 ks] up.prems(6) st3 unfolding app by (simp add: st4_def)
qed

lemma climb_loop_start:
  assumes "climbs fs d r ns" and "d_ino fs d = Some i" and "cwd st = d" and "mem_ok st" and "ample st" and "length (slashed ns) + 1 < PATH_MAX"
  shows "\<exists>j st1. cwhile (\<lambda>s. fst s = Climbs) (climb_step fs p) (Climbs, i, path_buf (slashed []), st) =
      cwhile (\<lambda>s. fst s = Climbs) (climb_step fs p) (Climbs, j, path_buf (slashed ns), st1) \<and> d_ino fs r = Some j \<and>
    live st1 = live st \<and> open_fds st1 = open_fds st \<and> open_dirs st1 = open_dirs st \<and> cwd st1 = r"
proof -
  have e: "ns @ [] = ns" by simp
  have none: "\<forall>m \<in> set []. m \<noteq> [] \<and> NUL \<notin> set m" by simp
  show ?thesis using climb_loop [OF assms(1-5) none, unfolded e, OF assms(6)] .
qed

lemma climbs_ino:
  assumes "climbs fs d r ns" and "d_ino fs r = Some j"
  shows "\<exists>i. d_ino fs d = Some i"
  using assms by (cases rule: climbs.cases) auto

lemma path_buf_root: "''/'' @ replicate (PATH_MAX - 1) NUL = path_buf (slashed [])"
  by (simp add: path_buf_def)

text \<open>The start of the program, up to the loop.\<close>

lemma getcwd_climbs:
  assumes "climbs fs (cwd st) r ns" and "d_ino fs r = Some j" and "d_open fs (cwd st)" and "mem_ok st" and "ample st"
    and "length (slashed ns) + 1 < PATH_MAX"
  shows "\<exists>p st1. t_getcwd fs st = rbind (cwhile (\<lambda>s. fst s = Climbs) (climb_step fs p) (Climbs, j, path_buf (slashed ns), st1))
      (\<lambda>(s, _, buf, st3). if s = Gave_Up then Inr (None, st3) else Inr (Some (p, buf), st3\<lparr>cwd := cwd st, open_fds := open_fds st3 - 1\<rparr>)) \<and>
    p \<noteq> NULL \<and> p \<notin> live st \<and> live st1 = insert p (live st) \<and> open_fds st1 = open_fds st + 1 \<and> open_dirs st1 = open_dirs st \<and> cwd st1 = r"
proof -
  obtain i where i: "d_ino fs (cwd st) = Some i" using climbs_ino [OF assms(1, 2)] by blast
  let ?p = "Suc (calls st)"
  define st2 where "st2 = snd (c_alloc (st\<lparr>open_fds := open_fds st + 1\<rparr>))"
  have al: "c_alloc (st\<lparr>open_fds := open_fds st + 1\<rparr>) = (?p, st2)" "live st2 = insert ?p (live st)" "cwd st2 = cwd st"
    "open_fds st2 = open_fds st + 1" "open_dirs st2 = open_dirs st" "calls st2 = ?p" "fails st2 = fails st"
    using assms(5) by (simp_all add: st2_def c_alloc_def ample_def)
  have ok: "mem_ok st2" "ample st2" using assms(4, 5) al by (auto simp: mem_ok_def ample_def)
  have fresh: "?p \<notin> live st" by (rule mem_ok_fresh [OF assms(4)])
  obtain j' st1 where loop: "cwhile (\<lambda>s. fst s = Climbs) (climb_step fs ?p) (Climbs, i, path_buf (slashed []), st2) =
      cwhile (\<lambda>s. fst s = Climbs) (climb_step fs ?p) (Climbs, j', path_buf (slashed ns), st1)" "d_ino fs r = Some j'"
    "live st1 = live st2" "open_fds st1 = open_fds st2" "open_dirs st1 = open_dirs st2" "cwd st1 = r"
    using climb_loop_start [OF assms(1) i al(3) ok assms(6), where p = ?p] by (elim exE conjE) (rule that)
  have j: "j' = j" using loop(2) assms(2) by simp
  have "t_getcwd fs st = rbind (cwhile (\<lambda>s. fst s = Climbs) (climb_step fs ?p) (Climbs, j, path_buf (slashed ns), st1))
      (\<lambda>(s, _, buf, st3). if s = Gave_Up then Inr (None, st3) else Inr (Some (?p, buf), st3\<lparr>cwd := cwd st, open_fds := open_fds st3 - 1\<rparr>))"
    unfolding t_getcwd_def path_buf_root Let_def i option.case al(1) prod.case using assms(3) loop(1) j by simp
  then show ?thesis using fresh loop al by (intro exI [of _ ?p] exI [of _ st1]) simp
qed

section \<open>Properties\<close>

text \<open>C25: When the parents lead to a root and every directory on the way lists the one below it, the program prints the pathname of the
  working directory, is in this directory again, and has closed and released everything it has opened. A root is what the
  program takes for one: a directory whose parent has the same inode number.\<close>

theorem getcwd_prints_path:
  assumes "climbs fs (cwd st) r ns" and "looks_root fs r" and "d_open fs (cwd st)" and "mem_ok st" and "ample st"
    and "length (slashed ns) + 1 < PATH_MAX"
  shows "\<exists>st1. getcwd_main fs st = Inr (''/'' @ slashed ns @ newline, st1) \<and> live st1 = live st \<and> cwd st1 = cwd st \<and>
    open_fds st1 = open_fds st \<and> open_dirs st1 = open_dirs st"
proof -
  obtain e j where e: "d_up fs r = Some e" "d_ino fs r = Some j" "d_ino fs e = Some j" using assms(2) by (auto simp: looks_root_def)
  obtain p st1 where t: "t_getcwd fs st = rbind (cwhile (\<lambda>s. fst s = Climbs) (climb_step fs p) (Climbs, j, path_buf (slashed ns), st1))
      (\<lambda>(s, _, buf, st3). if s = Gave_Up then Inr (None, st3) else Inr (Some (p, buf), st3\<lparr>cwd := cwd st, open_fds := open_fds st3 - 1\<rparr>))"
    "p \<noteq> NULL" "p \<notin> live st" "live st1 = insert p (live st)" "open_fds st1 = open_fds st + 1" "open_dirs st1 = open_dirs st" "cwd st1 = r"
    using getcwd_climbs [OF assms(1) e(2) assms(3-6)] by blast
  have "climb_step fs p (Climbs, j, path_buf (slashed ns), st1) = Inr (At_Root, j, path_buf (slashed ns), st1\<lparr>cwd := e\<rparr>)"
    using e t(7) by (simp add: climb_step_def)
  then have "t_getcwd fs st = Inr (Some (p, path_buf (slashed ns)), st1\<lparr>cwd := cwd st, open_fds := open_fds st\<rparr>)"
    unfolding t(1) using t(5) by (subst cwhile_unfold) simp
  moreover have "NUL \<notin> set (slashed ns)" using slashed_clean climbs_names [OF assms(1)] by blast
  note text_of = path_buf_text [OF this assms(6)]
  have "NUL \<in> set (path_buf (slashed ns))" using text_of(1) by (meson in_set_dropD)
  ultimately show ?thesis using t text_of(3) by (simp add: getcwd_main_def c_free_def)
qed

text \<open>When a directory on the way is not listed in its parent under the inode number it has itself, as a mounted file system, the
  program gives up, in the parent instead of the directory it was started in and with a directory stream open.\<close>

theorem getcwd_mount_moves:
  assumes "climbs fs (cwd st) m ns" and "d_up fs m = Some e" and "d_ino fs m = Some j" and "d_ino fs e = Some k" and "j \<noteq> k"
    and "d_entries fs e = Some es" and "\<forall>x \<in> set es. snd x \<noteq> j" and "d_open fs (cwd st)" and "mem_ok st" and "ample st"
    and "length (slashed ns) + 1 < PATH_MAX"
  shows "\<exists>st1. t_getcwd fs st = Inr (None, st1) \<and> cwd st1 = e \<and> open_dirs st1 = open_dirs st + 1 \<and> live st1 = live st \<and> open_fds st1 = open_fds st"
proof -
  obtain p st1 where t: "t_getcwd fs st = rbind (cwhile (\<lambda>s. fst s = Climbs) (climb_step fs p) (Climbs, j, path_buf (slashed ns), st1))
      (\<lambda>(s, _, buf, st3). if s = Gave_Up then Inr (None, st3) else Inr (Some (p, buf), st3\<lparr>cwd := cwd st, open_fds := open_fds st3 - 1\<rparr>))"
    "p \<noteq> NULL" "p \<notin> live st" "live st1 = insert p (live st)" "open_fds st1 = open_fds st + 1" "open_dirs st1 = open_dirs st" "cwd st1 = m"
    using getcwd_climbs [OF assms(1, 3, 8-11)] by blast
  have none: "List.find (\<lambda>x. snd x = j) es = None" using assms(7) by (auto simp: find_None_iff)
  have "climb_step fs p (Climbs, j, path_buf (slashed ns), st1) =
      Inr (Gave_Up, j, path_buf (slashed ns), st1\<lparr>cwd := e, open_dirs := open_dirs st + 1, live := live st, open_fds := open_fds st\<rparr>)"
    using t assms(2, 4-6) none by (simp add: climb_step_def give_up_def c_free_def)
  then have "t_getcwd fs st = Inr (None, st1\<lparr>cwd := e, open_dirs := open_dirs st + 1, live := live st, open_fds := open_fds st\<rparr>)"
    unfolding t(1) by (subst cwhile_unfold) simp
  then show ?thesis by simp
qed

text \<open>A tree with \<^verbatim>\<open>/a/b\<close>, and a file system mounted at \<^verbatim>\<open>/a/m\<close>.\<close>

definition ex_dirs :: dirfs where
  "ex_dirs = \<lparr>d_open = (\<lambda>_. True), d_up = (\<lambda>d. Some (if d = 3 \<or> d = 4 then 1 else 0)),
     d_ino = (\<lambda>d. Some (if d = 4 then 99 else d + 2)),
     d_entries = (\<lambda>d. Some (if d = 0 then [(''.'', 2), (''..'', 2), (''a'', 3)] else [(''.'', d + 2), (''b'', 5), (''m'', 6), (''..'', 2)]))\<rparr>"

definition ex_cwd :: "nat \<Rightarrow> cwdsys" where
  "ex_cwd d = \<lparr>calls = 0, fails = (\<lambda>_. False), live = {}, cwd = d, open_fds = 3, open_dirs = 0\<rparr>"

lemma ex_climbs: "climbs ex_dirs 3 0 [''a'', ''b'']"
proof -
  have f: "List.find (\<lambda>x. snd x = 3) [(''.'', 2), (''..'', 2), (''a'', 3)] = Some (''a'', 3 :: nat)"
    "List.find (\<lambda>x. snd x = 5) [(''.'', 3), (''b'', 5), (''m'', 6), (''..'', 2)] = Some (''b'', 5 :: nat)" by code_simp+
  have a: "climbs ex_dirs 1 0 ([] @ [''a''])"
    by (rule climbs.up [where e = 0 and i = 3 and j = 2, OF _ _ _ _ _ f(1) _ _ climbs.here]) (simp_all add: ex_dirs_def NUL_def)
  have "climbs ex_dirs 3 0 (([] @ [''a'']) @ [''b''])"
    by (rule climbs.up [where e = 1 and i = 5 and j = 3, OF _ _ _ _ _ f(2) _ _ a]) (simp_all add: ex_dirs_def NUL_def)
  then show ?thesis by simp
qed

theorem getcwd_prints_path_witness: "\<exists>st1. getcwd_main ex_dirs (ex_cwd 3) = Inr (''/a/b'' @ newline, st1) \<and> cwd st1 = 3"
proof -
  have "climbs ex_dirs (cwd (ex_cwd 3)) 0 [''a'', ''b'']" "looks_root ex_dirs 0" "d_open ex_dirs (cwd (ex_cwd 3))" "mem_ok (ex_cwd 3)" "ample (ex_cwd 3)"
    "length (slashed [''a'', ''b'']) + 1 < PATH_MAX"
    using ex_climbs by (simp_all add: ex_cwd_def looks_root_def ex_dirs_def mem_ok_def ample_def PATH_MAX_def)
  from getcwd_prints_path [OF this] show ?thesis by (auto simp: ex_cwd_def)
qed

theorem getcwd_mount_moves_witness: "\<exists>st1. t_getcwd ex_dirs (ex_cwd 4) = Inr (None, st1) \<and> cwd st1 = 1 \<and> open_dirs st1 = 1"
proof -
  have "climbs ex_dirs (cwd (ex_cwd 4)) 4 []" "d_up ex_dirs 4 = Some 1" "d_ino ex_dirs 4 = Some 99" "d_ino ex_dirs 1 = Some 3" "(99 :: nat) \<noteq> 3"
    "d_entries ex_dirs 1 = Some [(''.'', 3), (''b'', 5), (''m'', 6), (''..'', 2)]" "\<forall>x \<in> set [(''.'', 3), (''b'', 5), (''m'', 6), (''..'', 2)]. snd x \<noteq> (99 :: nat)"
    "d_open ex_dirs (cwd (ex_cwd 4))" "mem_ok (ex_cwd 4)" "ample (ex_cwd 4)" "length (slashed []) + 1 < PATH_MAX"
    using climbs.here [of ex_dirs 4] by (simp_all add: ex_cwd_def ex_dirs_def mem_ok_def ample_def PATH_MAX_def)
  from getcwd_mount_moves [OF this] show ?thesis by (auto simp: ex_cwd_def)
qed

end
