(* ===== verification/Exec_Path.thy ===== *)
theory Exec_Path
  imports C_Text
begin

text \<open>
  The function \<^verbatim>\<open>execlp_t\<close> of \<^verbatim>\<open>27-program-execution/exercises/27-2.c\<close>, which executes a program it looks for in \<^verbatim>\<open>$PATH\<close>.

  \<open>runs\<close> tells the files \<^verbatim>\<open>execve\<close> succeeds for; it does not return then. \<open>PATH\<close> is the value of the environment variable, if there is
  one, and \<open>args\<close> are the arguments behind the first up to the NULL.
\<close>

section \<open>The program\<close>

definition MAX_ARGS :: nat where "MAX_ARGS = 10"

definition MAX_ARG_LEN :: nat where "MAX_ARG_LEN = 1024"

datatype exec_end = Becomes string "string list" | Returned int

text \<open>\<^verbatim>\<open>strncpy\<close> into a fresh block of zeros: its address and its text.\<close>

definition copy_arg :: "nat \<Rightarrow> string \<Rightarrow> 's cmem_scheme \<Rightarrow> ((ptr \<times> string) \<times> 's cmem_scheme) res" where
  "copy_arg n src st = (let (p, st1) = c_alloc st in if p = NULL \<and> n > 0 then Inl Null_Deref else Inr ((p, take n src), st1))"

fun copy_args :: "nat \<Rightarrow> string list \<Rightarrow> 's cmem_scheme \<Rightarrow> ((ptr \<times> string) list \<times> 's cmem_scheme) res" where
  "copy_args (Suc k) (a # as) st =
     rbind (copy_arg (MAX_ARG_LEN - 1) a st) (\<lambda>(x, st1). rbind (copy_args k as st1) (\<lambda>(xs, st2). Inr (x # xs, st2)))"
| "copy_args k as st = Inr ([], st)"

fun free_args :: "(ptr \<times> string) list \<Rightarrow> 's cmem_scheme \<Rightarrow> 's cmem_scheme res" where
  "free_args [] st = Inr st"
| "free_args ((p, _) # xs) st = (if p = NULL then Inr st else rbind (c_free p st) (free_args xs))"

text \<open>\<^verbatim>\<open>strtok\<close> with \<^verbatim>\<open>":"\<close>: the token and, when a colon ended it, what follows the colon.\<close>

definition path_token :: "string \<Rightarrow> (string \<times> string option) option" where
  "path_token rest =
     (let r = dropWhile (\<lambda>c. c = CHR '':'') rest in
      if r = [] then None
      else Some (takeWhile (\<lambda>c. c \<noteq> CHR '':'') r, case dropWhile (\<lambda>c. c \<noteq> CHR '':'') r of [] \<Rightarrow> None | _ # after \<Rightarrow> Some after))"

lemma path_token_less: "path_token rest = Some (seg, Some after) \<Longrightarrow> length after < length rest"
proof -
  assume t: "path_token rest = Some (seg, Some after)"
  define r where "r = dropWhile (\<lambda>c. c = CHR '':'') rest"
  define q where "q = dropWhile (\<lambda>c. c \<noteq> CHR '':'') r"
  have "(case q of [] \<Rightarrow> None | _ # a \<Rightarrow> Some a) = Some after" using t unfolding path_token_def Let_def r_def [symmetric] q_def [symmetric] by (simp split: if_splits)
  then obtain c where "q = c # after" by (cases q) simp_all
  moreover have "length q \<le> length r" "length r \<le> length rest" by (simp_all add: q_def r_def length_dropWhile_le)
  ultimately show ?thesis by simp
qed

text \<open>Behind the NUL of the token the program reads one character more. Behind the last token this is outside of the copy; behind the
  others it is the first character of the next one, and a \<^verbatim>\<open>0\<close>, which is one more than \<^verbatim>\<open>/\<close>, keeps the program from writing the slash.\<close>

definition next_char :: "string \<Rightarrow> char" where "next_char after = (case after of [] \<Rightarrow> NUL | c # _ \<Rightarrow> c)"

definition full_path :: "string \<Rightarrow> char \<Rightarrow> string \<Rightarrow> string" where
  "full_path seg c fname = seg @ (if int (code c) - 1 \<noteq> int (code (CHR ''/'')) then ''/'' else []) @ fname"

function search_path :: "(string \<Rightarrow> bool) \<Rightarrow> string \<Rightarrow> string \<Rightarrow> string option res" where
  "search_path runs fname rest =
     (case path_token rest of None \<Rightarrow> Inr None
      | Some (seg, after) \<Rightarrow>
          if length seg + length fname \<ge> PATH_MAX - 1
          then (case after of None \<Rightarrow> Inr None | Some rest1 \<Rightarrow> search_path runs fname rest1)
          else (case after of None \<Rightarrow> Inl Out_Of_Bounds
                | Some rest1 \<Rightarrow>
                    if runs (full_path seg (next_char rest1) fname) then Inr (Some (full_path seg (next_char rest1) fname))
                    else search_path runs fname rest1))"
  by pat_completeness auto
termination by (relation "measure (\<lambda>(runs, fname, rest). length rest)") (auto simp: path_token_less)

declare search_path.simps [simp del]

definition execlp_t :: "(string \<Rightarrow> bool) \<Rightarrow> string option \<Rightarrow> string \<Rightarrow> string list \<Rightarrow> 's cmem_scheme \<Rightarrow> (exec_end \<times> 's cmem_scheme) res" where
  "execlp_t runs PATH fname args st =
     rbind (copy_arg (length fname) fname st) (\<lambda>(fcopy, st1).
     rbind (copy_args (MAX_ARGS - 2) args st1) (\<lambda>(rest, st2).
       let argVec = fcopy # rest; argv = map snd argVec in
       if runs fname then Inr (Becomes fname argv, st2)
       else if CHR ''/'' \<in> set fname then rbind (free_args argVec st2) (\<lambda>st3. Inr (Returned (- 1), st3))
       else case PATH of None \<Rightarrow> Inr (Returned (- 1), st2)
            | Some path \<Rightarrow>
                rbind (copy_arg (length path) path st2) (\<lambda>(pathCopy, st3).
                if path_token path = None then Inl Null_Deref
                else rbind (search_path runs fname path) (\<lambda>found.
                     case found of Some f \<Rightarrow> Inr (Becomes f argv, st3)
                     | None \<Rightarrow>
                         rbind (free_args argVec st3) (\<lambda>st4.
                         rbind (c_free (fst pathCopy) st4) (\<lambda>st5. Inr (Returned (- 1), st5)))))))"

section \<open>Arguments\<close>

lemma copy_arg_ok:
  assumes "ample st" and "mem_ok st"
  shows "\<exists>p st1. copy_arg n src st = Inr ((p, take n src), st1) \<and> p \<noteq> NULL \<and> p \<notin> live st \<and> live st1 = insert p (live st) \<and> ample st1 \<and> mem_ok st1"
proof -
  have "mem_ok (snd (c_alloc st))" by (rule mem_ok_alloc [OF assms(2)])
  then show ?thesis using assms mem_ok_fresh [OF assms(2)] by (auto simp: copy_arg_def c_alloc_def ample_def)
qed

lemma copy_args_ok:
  assumes "ample st" and "mem_ok st"
  shows "\<exists>xs st1. copy_args k as st = Inr (xs, st1) \<and> map snd xs = map (take (MAX_ARG_LEN - 1)) (take k as) \<and> NULL \<notin> fst ` set xs \<and>
    distinct (map fst xs) \<and> fst ` set xs \<inter> live st = {} \<and> live st1 = fst ` set xs \<union> live st \<and> ample st1 \<and> mem_ok st1"
  using assms
proof (induction k as st rule: copy_args.induct)
  case (1 k a as st)
  obtain p st1 where p: "copy_arg (MAX_ARG_LEN - 1) a st = Inr ((p, take (MAX_ARG_LEN - 1) a), st1)" "p \<noteq> NULL" "p \<notin> live st"
    "live st1 = insert p (live st)" "ample st1" "mem_ok st1"
    using copy_arg_ok [OF "1.prems"] by blast
  obtain xs st2 where xs: "copy_args k as st1 = Inr (xs, st2)" "map snd xs = map (take (MAX_ARG_LEN - 1)) (take k as)" "NULL \<notin> fst ` set xs"
    "distinct (map fst xs)" "fst ` set xs \<inter> live st1 = {}" "live st2 = fst ` set xs \<union> live st1" "ample st2" "mem_ok st2"
    using "1.IH" [OF p(1) refl p(5, 6)] by blast
  have "copy_args (Suc k) (a # as) st = Inr ((p, take (MAX_ARG_LEN - 1) a) # xs, st2)" using p(1) xs(1) by simp
  then show ?case using p xs by auto
qed simp_all

lemma free_args_ok:
  assumes "NULL \<notin> fst ` set xs" and "distinct (map fst xs)" and "fst ` set xs \<subseteq> live st"
  shows "free_args xs st = Inr (st\<lparr>live := live st - fst ` set xs\<rparr>)"
  using assms
proof (induction xs arbitrary: st)
  case (Cons x xs)
  obtain p t where x: "x = (p, t)" by fastforce
  have "c_free p st = Inr (st\<lparr>live := live st - {p}\<rparr>)" using Cons.prems x by (auto simp: c_free_def)
  moreover have "free_args xs (st\<lparr>live := live st - {p}\<rparr>) = Inr (st\<lparr>live := live st - {p} - fst ` set xs\<rparr>)"
    using Cons.IH [of "st\<lparr>live := live st - {p}\<rparr>"] Cons.prems x by (auto simp: image_iff)
  moreover have "live st - {p} - fst ` set xs = live st - fst ` set (x # xs)" using x by auto
  ultimately show ?case using Cons.prems x by auto
qed simp

section \<open>The search\<close>

fun joined :: "string list \<Rightarrow> string" where
  "joined [] = []"
| "joined [d] = d"
| "joined (d # e # ds) = d @ '':'' @ joined (e # ds)"

definition path_dir :: "string \<Rightarrow> string \<Rightarrow> bool" where
  "path_dir fname d \<longleftrightarrow> d \<noteq> [] \<and> CHR '':'' \<notin> set d \<and> hd d \<noteq> CHR ''0'' \<and> length d + length fname < PATH_MAX - 1"

lemma joined_Cons: "ds \<noteq> [] \<Longrightarrow> joined (d # ds) = d @ '':'' @ joined ds"
  by (cases ds) simp_all

lemma joined_hd: "ds \<noteq> [] \<Longrightarrow> hd ds \<noteq> [] \<Longrightarrow> \<exists>r. joined ds = hd (hd ds) # r"
  by (cases ds rule: joined.cases) (auto simp: neq_Nil_conv)

lemma path_token_dir:
  assumes "d \<noteq> []" and "CHR '':'' \<notin> set d"
  shows "path_token d = Some (d, None)" "path_token (d @ '':'' @ rest) = Some (d, Some rest)"
proof -
  have t: "takeWhile (\<lambda>c. c \<noteq> CHR '':'') d = d" "dropWhile (\<lambda>c. c \<noteq> CHR '':'') d = []" using assms(2) by (auto simp: takeWhile_eq_all_conv dropWhile_eq_Nil_conv)
  have t': "takeWhile (\<lambda>c. c \<noteq> CHR '':'') (d @ '':'' @ rest) = d" "dropWhile (\<lambda>c. c \<noteq> CHR '':'') (d @ '':'' @ rest) = CHR '':'' # rest"
    using assms(2) by (induction d) auto
  have h: "dropWhile (\<lambda>c. c = CHR '':'') d = d" "dropWhile (\<lambda>c. c = CHR '':'') (d @ '':'' @ rest) = d @ '':'' @ rest"
    using assms by (cases d; auto)+
  show "path_token d = Some (d, None)" using assms(1) unfolding path_token_def Let_def h t by simp
  show "path_token (d @ '':'' @ rest) = Some (d, Some rest)" using assms(1) unfolding path_token_def Let_def h t' by simp
qed

lemma full_path_slash: "c \<noteq> CHR ''0'' \<Longrightarrow> full_path seg c fname = seg @ ''/'' @ fname"
proof -
  assume "c \<noteq> CHR ''0''"
  then have "code c \<noteq> code (CHR ''0'')" by simp
  then have "int (code c) - 1 \<noteq> int (code (CHR ''/''))" by (simp add: code_def)
  then show ?thesis unfolding full_path_def by simp
qed

lemma search_path_joined:
  assumes "\<forall>d \<in> set (ds @ [l]). path_dir fname d"
  shows "search_path runs fname (joined (ds @ [l])) =
    (case List.find (\<lambda>d. runs (d @ ''/'' @ fname)) ds of Some d \<Rightarrow> Inr (Some (d @ ''/'' @ fname)) | None \<Rightarrow> Inl Out_Of_Bounds)"
  using assms
proof (induction ds)
  case Nil
  then have l: "l \<noteq> []" "CHR '':'' \<notin> set l" "\<not> length l + length fname \<ge> PATH_MAX - 1" by (auto simp: path_dir_def)
  show ?case using l(3) path_token_dir(1) [OF l(1, 2)] by (subst search_path.simps) simp
next
  case (Cons d ds)
  have d: "d \<noteq> []" "CHR '':'' \<notin> set d" "\<not> length d + length fname \<ge> PATH_MAX - 1" using Cons.prems by (auto simp: path_dir_def)
  let ?next = "hd (ds @ [l])"
  have "?next \<in> set (ds @ [l])" by (rule hd_in_set) simp
  then have "path_dir fname ?next" using Cons.prems by auto
  then have n: "?next \<noteq> []" "hd ?next \<noteq> CHR ''0''" by (simp_all add: path_dir_def)
  obtain r where "joined (ds @ [l]) = hd ?next # r" using joined_hd [OF _ n(1)] by auto
  then have nc: "next_char (joined (ds @ [l])) \<noteq> CHR ''0''" using n(2) by (simp add: next_char_def)
  have j: "joined ((d # ds) @ [l]) = d @ '':'' @ joined (ds @ [l])" using joined_Cons [of "ds @ [l]" d] by simp
  have IH: "search_path runs fname (joined (ds @ [l])) =
      (case List.find (\<lambda>d. runs (d @ ''/'' @ fname)) ds of Some d \<Rightarrow> Inr (Some (d @ ''/'' @ fname)) | None \<Rightarrow> Inl Out_Of_Bounds)"
    using Cons.IH Cons.prems by simp
  have t: "path_token (d @ '':'' @ joined (ds @ [l])) = Some (d, Some (joined (ds @ [l])))" by (rule path_token_dir(2) [OF d(1, 2)])
  show ?case unfolding j by (subst search_path.simps) (use d(3) in \<open>simp add: t [simplified] full_path_slash [OF nc] IH\<close>)
qed

section \<open>Properties\<close>

text \<open>C24: A name without a slash is first tried as it is. Then the program runs the first file of this name in the directories of
  \<^verbatim>\<open>$PATH\<close> but the last, with the name and at most eight arguments of at most 1023 characters; when there is none it reads
  behind its copy of \<^verbatim>\<open>$PATH\<close> before it tries the last directory.\<close>

theorem execlp_searches_path:
  assumes "CHR ''/'' \<notin> set fname" and "ample st" and "mem_ok st" and "\<forall>d \<in> set (ds @ [l]). path_dir fname d"
  shows "map_sum id fst (execlp_t runs (Some (joined (ds @ [l]))) fname args st) =
    (case List.find runs (fname # map (\<lambda>d. d @ ''/'' @ fname) ds) of
       Some f \<Rightarrow> Inr (Becomes f (fname # map (take 1023) (take 8 args)))
     | None \<Rightarrow> Inl Out_Of_Bounds)"
proof -
  obtain p st1 where p: "copy_arg (length fname) fname st = Inr ((p, fname), st1)" "ample st1" "mem_ok st1"
    using copy_arg_ok [OF assms(2, 3), of "length fname" fname] by auto
  obtain xs st2 where xs: "copy_args (MAX_ARGS - 2) args st1 = Inr (xs, st2)" "map snd xs = map (take 1023) (take 8 args)" "ample st2" "mem_ok st2"
    using copy_args_ok [OF p(2, 3), of "MAX_ARGS - 2" args] by (auto simp: MAX_ARGS_def MAX_ARG_LEN_def)
  let ?path = "joined (ds @ [l])"
  obtain q st3 where q: "copy_arg (length ?path) ?path st2 = Inr ((q, ?path), st3)"
    using copy_arg_ok [OF xs(3, 4), of "length ?path" ?path] by auto
  have tok: "path_token ?path \<noteq> None"
  proof -
    let ?d = "hd (ds @ [l])"
    have "?d \<in> set (ds @ [l])" by (rule hd_in_set) simp
    then have d: "?d \<noteq> []" "CHR '':'' \<notin> set ?d" using assms(4) unfolding path_dir_def by blast+
    show ?thesis
    proof (cases ds)
      case Nil
      then show ?thesis using path_token_dir(1) [OF d] by simp
    next
      case (Cons e es)
      have "?path = e @ '':'' @ joined (es @ [l])" using joined_Cons [of "es @ [l]" e] Cons by simp
      then show ?thesis using path_token_dir(2) [OF d, of "joined (es @ [l])"] Cons by simp
    qed
  qed
  have find_map: "List.find runs (map (\<lambda>d. d @ ''/'' @ fname) ds) = map_option (\<lambda>d. d @ ''/'' @ fname) (List.find (\<lambda>d. runs (d @ ''/'' @ fname)) ds)"
    by (induction ds) simp_all
  show ?thesis
  proof (cases "runs fname")
    case True
    then show ?thesis using p(1) xs(1, 2) by (simp add: execlp_t_def)
  next
    case False
    then show ?thesis using p(1) xs(1, 2) q tok assms(1)
      by (cases "List.find (\<lambda>d. runs (d @ ''/'' @ fname)) ds") (simp_all add: execlp_t_def Let_def search_path_joined [OF assms(4)] find_map [simplified])
  qed
qed

text \<open>A name with a slash is only tried as it is, and a failure releases everything.\<close>

lemma execlp_direct:
  assumes "CHR ''/'' \<in> set fname" and "ample st" and "mem_ok st" and "\<not> runs fname"
  shows "\<exists>st1. execlp_t runs PATH fname args st = Inr (Returned (- 1), st1) \<and> live st1 = live st"
proof -
  obtain p st1 where p: "copy_arg (length fname) fname st = Inr ((p, fname), st1)" "p \<noteq> NULL" "p \<notin> live st" "live st1 = insert p (live st)" "ample st1" "mem_ok st1"
    using copy_arg_ok [OF assms(2, 3), of "length fname" fname] by auto
  obtain xs st2 where xs: "copy_args (MAX_ARGS - 2) args st1 = Inr (xs, st2)" "NULL \<notin> fst ` set xs" "distinct (map fst xs)" "fst ` set xs \<inter> live st1 = {}"
    "live st2 = fst ` set xs \<union> live st1"
    using copy_args_ok [OF p(5, 6), of "MAX_ARGS - 2" args] by auto
  have f: "free_args ((p, fname) # xs) st2 = Inr (st2\<lparr>live := live st2 - fst ` set ((p, fname) # xs)\<rparr>)"
    by (rule free_args_ok) (use p xs in auto)
  have "live st2 - fst ` set ((p, fname) # xs) = live st" using p xs by auto
  then have "execlp_t runs PATH fname args st = Inr (Returned (- 1), st2\<lparr>live := live st\<rparr>)"
    using p(1) xs(1) assms(1, 4) f by (simp add: execlp_t_def del: free_args.simps)
  then show ?thesis by simp
qed

definition ex_exec_mem :: cmem where "ex_exec_mem = \<lparr>calls = 0, fails = (\<lambda>_. False), live = {}\<rparr>"

theorem execlp_searches_path_witness:
  "map_sum id fst (execlp_t (\<lambda>f. f = ''/bin/ls'') (Some ''/usr/bin:/bin:/opt'') ''ls'' [''-l''] ex_exec_mem) = Inr (Becomes ''/bin/ls'' [''ls'', ''-l'']) \<and>
   map_sum id fst (execlp_t (\<lambda>f. f = ''/bin/ls'') (Some ''/usr/bin:/bin'') ''ls'' [''-l''] ex_exec_mem) = Inl Out_Of_Bounds"
proof -
  have m: "CHR ''/'' \<notin> set ''ls''" "ample ex_exec_mem" "mem_ok ex_exec_mem" by (simp_all add: ex_exec_mem_def ample_def mem_ok_def)
  have d: "\<forall>d \<in> set ([''/usr/bin'', ''/bin''] @ [''/opt'']). path_dir ''ls'' d" "\<forall>d \<in> set ([''/usr/bin''] @ [''/bin'']). path_dir ''ls'' d"
    by (simp_all add: path_dir_def PATH_MAX_def)
  show ?thesis
    using execlp_searches_path [OF m d(1), of "\<lambda>f. f = ''/bin/ls''" "[''-l'']"] execlp_searches_path [OF m d(2), of "\<lambda>f. f = ''/bin/ls''" "[''-l'']"]
    by simp
qed

end
