(* ===== verification/Sysv_Sem.thy ===== *)
theory Sysv_Sem
  imports Prelude
begin

unbundle bit_operations_syntax

text \<open>
  System V semaphore sets as the kernel provides them, and the event flags of
  \<^verbatim>\<open>lib/event_flags.c\<close> on top of them.

  A semaphore set is the list of its values. \<^verbatim>\<open>semop\<close> performs all its operations or none; when one
  cannot be performed yet the caller sleeps, unless \<^verbatim>\<open>IPC_NOWAIT\<close> is set. What the values of a new set
  are is up to the system: \<open>sem_initial\<close>.
\<close>

section \<open>The kernel's semaphores\<close>

record sembuf =
  sem_num :: "16 word"
  sem_op :: "16 word"
  sem_flg :: int

definition IPC_PRIVATE :: int where "IPC_PRIVATE = 0"

definition IPC_CREAT :: int where "IPC_CREAT = 512"

definition IPC_EXCL :: int where "IPC_EXCL = 1024"

definition IPC_NOWAIT :: int where "IPC_NOWAIT = 2048"

definition SEM_UNDO :: int where "SEM_UNDO = 4096"

definition SEMVMX :: int where "SEMVMX = 32767"

datatype sem_outcome = Sem_Done "int list" | Sem_Sleep | Sem_Fail

definition sem_blocked :: "sembuf \<Rightarrow> sem_outcome" where
  "sem_blocked b = (if sem_flg b AND IPC_NOWAIT \<noteq> 0 then Sem_Fail else Sem_Sleep)"

fun semop_try :: "sembuf list \<Rightarrow> int list \<Rightarrow> sem_outcome" where
  "semop_try [] vals = Sem_Done vals"
| "semop_try (b # bs) vals =
     (let n = unat (sem_num b); oper = sint (sem_op b) in
      if n \<ge> length vals then Sem_Fail
      else if oper > 0 then
        if vals ! n + oper > SEMVMX then Sem_Fail else semop_try bs (vals[n := vals ! n + oper])
      else if oper = 0 then
        if vals ! n = 0 then semop_try bs vals else sem_blocked b
      else if vals ! n \<ge> - oper then semop_try bs (vals[n := vals ! n + oper])
      else sem_blocked b)"

record sysv_sem =
  sem_sets :: "int \<Rightarrow> int list option"
  sem_keys :: "int \<Rightarrow> int option"
  sem_next :: int
  sem_full :: bool
  sem_initial :: int

text \<open>A call returns, or the process sleeps in it.\<close>

datatype ('a, 's) call = Returns 'a 's | Sleeps

text \<open>
  A program ends with a status and the texts of its standard output and error, or sleeps with what it
  has printed so far.
\<close>

datatype 's program = Ends int string string 's | Waiting string 's

definition semget_new :: "nat \<Rightarrow> 's sysv_sem_scheme \<Rightarrow> int \<times> 's sysv_sem_scheme" where
  "semget_new n st =
     (if sem_full st then (- 1, st)
      else (sem_next st, st\<lparr>sem_sets := (sem_sets st)(sem_next st := Some (replicate n (sem_initial st))),
                            sem_next := sem_next st + 1\<rparr>))"

definition semget :: "int \<Rightarrow> nat \<Rightarrow> int \<Rightarrow> 's sysv_sem_scheme \<Rightarrow> int \<times> 's sysv_sem_scheme" where
  "semget key n flags st =
     (if key = IPC_PRIVATE then semget_new n st
      else case sem_keys st key of
        Some semid \<Rightarrow>
          if flags AND IPC_CREAT \<noteq> 0 \<and> flags AND IPC_EXCL \<noteq> 0 then (- 1, st)
          else (case sem_sets st semid of None \<Rightarrow> (- 1, st)
                | Some vals \<Rightarrow> if n > length vals then (- 1, st) else (semid, st))
      | None \<Rightarrow>
          if flags AND IPC_CREAT \<noteq> 0
          then (case semget_new n st of (semid, st1) \<Rightarrow>
                  if semid = - 1 then (- 1, st1)
                  else (semid, st1\<lparr>sem_keys := (sem_keys st1)(key := Some semid)\<rparr>))
          else (- 1, st))"

definition semctl_rmid :: "int \<Rightarrow> 's sysv_sem_scheme \<Rightarrow> int \<times> 's sysv_sem_scheme" where
  "semctl_rmid semid st =
     (if sem_sets st semid = None then (- 1, st)
      else (0, st\<lparr>sem_sets := (sem_sets st)(semid := None),
                  sem_keys := (\<lambda>k. if sem_keys st k = Some semid then None else sem_keys st k)\<rparr>))"

definition semctl_setval :: "int \<Rightarrow> nat \<Rightarrow> int \<Rightarrow> 's sysv_sem_scheme \<Rightarrow> int \<times> 's sysv_sem_scheme" where
  "semctl_setval semid n v st =
     (case sem_sets st semid of None \<Rightarrow> (- 1, st)
      | Some vals \<Rightarrow>
          if n \<ge> length vals \<or> v < 0 \<or> v > SEMVMX then (- 1, st)
          else (0, st\<lparr>sem_sets := (sem_sets st)(semid := Some (vals[n := v]))\<rparr>))"

definition semctl_getall :: "int \<Rightarrow> 's sysv_sem_scheme \<Rightarrow> int list option" where
  "semctl_getall semid st = sem_sets st semid"

definition semop :: "int \<Rightarrow> sembuf list \<Rightarrow> 's sysv_sem_scheme \<Rightarrow> (int, 's sysv_sem_scheme) call" where
  "semop semid sops st =
     (case sem_sets st semid of None \<Rightarrow> Returns (- 1) st
      | Some vals \<Rightarrow>
          if sops = [] then Returns (- 1) st
          else (case semop_try sops vals of
                  Sem_Fail \<Rightarrow> Returns (- 1) st
                | Sem_Sleep \<Rightarrow> Sleeps
                | Sem_Done vals' \<Rightarrow> Returns 0 (st\<lparr>sem_sets := (sem_sets st)(semid := Some vals')\<rparr>)))"

section \<open>Event flags\<close>

text \<open>
  A flag is one semaphore: 0 when the event has happened, 1 when not. A caller that clears the flag
  does it in two calls, and other processes may run between them. \<^verbatim>\<open>ftok\<close> is an argument.
\<close>

definition destroyEventFlag :: "int \<Rightarrow> 's sysv_sem_scheme \<Rightarrow> int \<times> 's sysv_sem_scheme" where
  "destroyEventFlag flagId st = semctl_rmid flagId st"

definition setEventFlag :: "int \<Rightarrow> 's sysv_sem_scheme \<Rightarrow> int \<times> 's sysv_sem_scheme" where
  "setEventFlag flagId st = semctl_setval flagId 0 0 st"

definition clearEventFlag :: "int \<Rightarrow> 's sysv_sem_scheme \<Rightarrow> int \<times> 's sysv_sem_scheme" where
  "clearEventFlag flagId st = semctl_setval flagId 0 1 st"

definition waitForEventFlag :: "int \<Rightarrow> 's sysv_sem_scheme \<Rightarrow> (int, 's sysv_sem_scheme) call" where
  "waitForEventFlag flagId st = semop flagId [\<lparr>sem_num = 0, sem_op = 0, sem_flg = 0\<rparr>] st"

definition flag_key :: "(string \<Rightarrow> int) \<Rightarrow> string option \<Rightarrow> int" where
  "flag_key ftok key = (case key of None \<Rightarrow> IPC_PRIVATE | Some k \<Rightarrow> ftok k)"

definition createEventFlag_get ::
  "(string \<Rightarrow> int) \<Rightarrow> string option \<Rightarrow> 's sysv_sem_scheme \<Rightarrow> int \<times> 's sysv_sem_scheme" where
  "createEventFlag_get ftok key st =
     semget (flag_key ftok key) 1 (IPC_CREAT OR IPC_EXCL OR 384) st"

definition createEventFlag_clear :: "int \<Rightarrow> 's sysv_sem_scheme \<Rightarrow> int \<times> 's sysv_sem_scheme" where
  "createEventFlag_clear flagId st =
     (if flagId = - 1 then (- 1, st)
      else case clearEventFlag flagId st of (rc, st1) \<Rightarrow> if rc = - 1 then (- 1, st1) else (flagId, st1))"

definition createEventFlag ::
  "(string \<Rightarrow> int) \<Rightarrow> string option \<Rightarrow> 's sysv_sem_scheme \<Rightarrow> int \<times> 's sysv_sem_scheme" where
  "createEventFlag ftok key st =
     (case createEventFlag_get ftok key st of (flagId, st1) \<Rightarrow> createEventFlag_clear flagId st1)"

definition getEventFlag ::
  "(string \<Rightarrow> int) \<Rightarrow> string option \<Rightarrow> 's sysv_sem_scheme \<Rightarrow> int \<times> 's sysv_sem_scheme" where
  "getEventFlag ftok key st =
     (case semget (flag_key ftok key) 1 0 st of (flagId, st1) \<Rightarrow>
        if flagId = - 1 then (- 1, st1) else (flagId, st1))"

definition getFlagState :: "int \<Rightarrow> 's sysv_sem_scheme \<Rightarrow> int" where
  "getFlagState flagId st = (case semctl_getall flagId st of None \<Rightarrow> - 1 | Some vals \<Rightarrow> vals ! 0)"

section \<open>Specification\<close>

text \<open>What a flag promises: it exists and is set or clear.\<close>

definition flag_of :: "'s sysv_sem_scheme \<Rightarrow> int \<Rightarrow> bool option" where
  "flag_of st i =
     (case sem_sets st i of Some [v] \<Rightarrow> if v = 0 then Some True else if v = 1 then Some False else None
      | _ \<Rightarrow> None)"

lemma flag_of_eq:
  "flag_of st i = Some True \<longleftrightarrow> sem_sets st i = Some [0]"
  "flag_of st i = Some False \<longleftrightarrow> sem_sets st i = Some [1]"
  by (auto simp: flag_of_def split: option.splits list.splits if_splits)

lemma flag_of_Some: "flag_of st i = Some b \<longleftrightarrow> sem_sets st i = Some [if b then 0 else 1]"
  using flag_of_eq [of st i] by (cases b) simp_all

lemma flag_of_change:
  "sem_sets st' = (sem_sets st)(i := v) \<Longrightarrow> j \<noteq> i \<Longrightarrow> flag_of st' j = flag_of st j"
  by (simp add: flag_of_def)

lemma setval_flag:
  "sem_sets st i = Some [w] \<Longrightarrow> v = 0 \<or> v = 1 \<Longrightarrow>
    semctl_setval i 0 v st = (0, st\<lparr>sem_sets := (sem_sets st)(i := Some [v])\<rparr>)"
  by (auto simp: semctl_setval_def SEMVMX_def)

text \<open>
  A process uses the flags by these calls; a process that sleeps makes no step. \<^verbatim>\<open>createEventFlag\<close> is two
  system calls, and so two steps: other processes may run between them. \<^verbatim>\<open>getEventFlag\<close> with a NULL key makes a
  new private set.
\<close>

inductive flag_step :: "'s sysv_sem_scheme \<Rightarrow> 's sysv_sem_scheme \<Rightarrow> bool" where
  set_flag: "setEventFlag i st = (rc, st') \<Longrightarrow> flag_step st st'"
| clear_flag: "clearEventFlag i st = (rc, st') \<Longrightarrow> flag_step st st'"
| wait_flag: "waitForEventFlag i st = Returns rc st' \<Longrightarrow> flag_step st st'"
| create_get: "createEventFlag_get ftok key st = (i, st') \<Longrightarrow> flag_step st st'"
| create_clear: "createEventFlag_clear i st = (rc, st') \<Longrightarrow> flag_step st st'"
| get_flag: "getEventFlag ftok key st = (rc, st') \<Longrightarrow> flag_step st st'"
| destroy_flag: "destroyEventFlag i st = (rc, st') \<Longrightarrow> flag_step st st'"

text \<open>
  Every set is a flag, every name leads to one, and the values of new sets are 0: POSIX leaves them open, Linux
  makes them 0.
\<close>

definition flags_ok :: "'s sysv_sem_scheme \<Rightarrow> bool" where
  "flags_ok st \<longleftrightarrow> (\<forall>i. sem_sets st i \<noteq> None \<longrightarrow> flag_of st i \<noteq> None \<and> i < sem_next st) \<and> 0 \<le> sem_next st \<and>
     sem_initial st = 0 \<and> (\<forall>k i. sem_keys st k = Some i \<longrightarrow> sem_sets st i \<noteq> None)"

lemma flags_okD:
  assumes "flags_ok st"
  shows "flag_of st i = None \<longleftrightarrow> sem_sets st i = None" "flag_of st (sem_next st) = None" "0 \<le> sem_next st"
    "sem_keys st k = Some i \<Longrightarrow> \<exists>b. flag_of st i = Some b"
proof -
  have none: "sem_sets st j = None \<Longrightarrow> flag_of st j = None" for j by (simp add: flag_of_def)
  have next_free: "sem_sets st (sem_next st) = None" using assms unfolding flags_ok_def by blast
  show "flag_of st i = None \<longleftrightarrow> sem_sets st i = None" using assms none unfolding flags_ok_def by blast
  show "flag_of st (sem_next st) = None" by (rule none [OF next_free])
  show "0 \<le> sem_next st" using assms by (simp add: flags_ok_def)
  show "sem_keys st k = Some i \<Longrightarrow> \<exists>b. flag_of st i = Some b" using assms unfolding flags_ok_def by blast
qed

lemma flag_of_put:
  assumes "sem_sets st' = (sem_sets st)(i := Some [if b then 0 else 1])"
  shows "flag_of st' = (flag_of st)(i \<mapsto> b)"
  using flag_of_Some [of st' i b] flag_of_change [OF assms] assms by (auto simp: fun_eq_iff)

text \<open>A new flag, as \<^verbatim>\<open>semget\<close> makes it.\<close>

definition new_flag :: "int \<Rightarrow> 's sysv_sem_scheme \<Rightarrow> 's sysv_sem_scheme" where
  "new_flag k st =
     (let st1 = st\<lparr>sem_sets := (sem_sets st)(sem_next st := Some [0]), sem_next := sem_next st + 1\<rparr> in
      if k = IPC_PRIVATE then st1 else st1\<lparr>sem_keys := (sem_keys st)(k \<mapsto> sem_next st)\<rparr>)"

lemma new_flag_fields:
  "sem_sets (new_flag k st) = (sem_sets st)(sem_next st := Some [0])" "sem_next (new_flag k st) = sem_next st + 1"
  "sem_keys (new_flag k st) = (if k = IPC_PRIVATE then sem_keys st else (sem_keys st)(k \<mapsto> sem_next st))"
  "sem_full (new_flag k st) = sem_full st" "sem_initial (new_flag k st) = sem_initial st"
  by (simp_all add: new_flag_def Let_def)

lemma new_flag_of: "flag_of (new_flag k st) = (flag_of st)(sem_next st \<mapsto> True)"
  by (rule flag_of_put) (simp add: new_flag_fields)

lemma semget_new_flag:
  assumes "flags_ok st"
  shows "semget_new 1 st = (if sem_full st then (- 1, st) else (sem_next st, new_flag IPC_PRIVATE st))"
  using assms by (simp add: semget_new_def new_flag_def flags_ok_def)

lemma create_get_flag:
  assumes "flags_ok st" and "k = flag_key ftok key"
  shows "createEventFlag_get ftok key st =
    (if sem_full st \<or> k \<noteq> IPC_PRIVATE \<and> sem_keys st k \<noteq> None then (- 1, st) else (sem_next st, new_flag k st))"
proof -
  have fl: "(IPC_CREAT OR IPC_EXCL OR 384) AND IPC_CREAT \<noteq> 0" "(IPC_CREAT OR IPC_EXCL OR 384) AND IPC_EXCL \<noteq> 0"
    by (simp_all add: IPC_CREAT_def IPC_EXCL_def)
  have n: "sem_next st \<noteq> - 1" using flags_okD(3) [OF assms(1)] by simp
  show ?thesis
    unfolding createEventFlag_get_def semget_def semget_new_flag [OF assms(1)] assms(2) [symmetric]
    using fl n by (auto simp: new_flag_def Let_def split: option.split)
qed

lemma get_flag_cases:
  assumes "flags_ok st" and "k = flag_key ftok key"
  shows "getEventFlag ftok key st =
    (if k = IPC_PRIVATE then (if sem_full st then (- 1, st) else (sem_next st, new_flag k st))
     else (case sem_keys st k of None \<Rightarrow> (- 1, st) | Some i \<Rightarrow> (i, st)))"
proof (cases "k = IPC_PRIVATE")
  case True
  have n: "sem_next st \<noteq> - 1" using flags_okD(3) [OF assms(1)] by simp
  show ?thesis using True n
    unfolding getEventFlag_def semget_def semget_new_flag [OF assms(1)] assms(2) [symmetric] by simp
next
  case False
  show ?thesis
  proof (cases "sem_keys st k")
    case None
    then show ?thesis using False unfolding getEventFlag_def semget_def assms(2) [symmetric] by simp
  next
    case (Some i)
    then obtain b where "flag_of st i = Some b" using flags_okD(4) [OF assms(1)] by blast
    then have "sem_sets st i = Some [if b then 0 else 1]" by (simp add: flag_of_Some)
    then show ?thesis using False Some unfolding getEventFlag_def semget_def assms(2) [symmetric] by simp
  qed
qed

lemma setval_cases:
  assumes "flags_ok st"
  shows "semctl_setval i 0 (if b then 0 else 1) st =
    (if flag_of st i = None then (- 1, st) else (0, st\<lparr>sem_sets := (sem_sets st)(i := Some [if b then 0 else 1])\<rparr>))"
proof (cases "flag_of st i")
  case None
  then show ?thesis using flags_okD(1) [OF assms, of i] by (simp add: semctl_setval_def)
next
  case (Some c)
  then have "sem_sets st i = Some [if c then 0 else 1]" by (simp add: flag_of_Some)
  then have "semctl_setval i 0 (if b then 0 else 1) st = (0, st\<lparr>sem_sets := (sem_sets st)(i := Some [if b then 0 else 1])\<rparr>)"
    by (rule setval_flag) simp
  then show ?thesis using Some by simp
qed

lemma rmid_cases:
  assumes "flags_ok st"
  shows "semctl_rmid i st = (if flag_of st i = None then (- 1, st)
    else (0, st\<lparr>sem_sets := (sem_sets st)(i := None), sem_keys := (\<lambda>k. if sem_keys st k = Some i then None else sem_keys st k)\<rparr>))"
  using flags_okD(1) [OF assms, of i] by (simp add: semctl_rmid_def)

lemma flags_ok_setval:
  assumes "flags_ok st"
  shows "flags_ok (snd (semctl_setval i 0 (if b then 0 else 1) st))"
proof (cases "flag_of st i = None")
  case False
  let ?t = "st\<lparr>sem_sets := (sem_sets st)(i := Some [if b then 0 else 1])\<rparr>"
  have f: "flag_of ?t = (flag_of st)(i \<mapsto> b)" by (rule flag_of_put) simp
  have "sem_sets st i \<noteq> None" using False flags_okD(1) [OF assms, of i] by simp
  then have "i < sem_next st" using assms unfolding flags_ok_def by blast
  then have "flags_ok ?t" using assms unfolding flags_ok_def f by auto
  then show ?thesis using False by (auto simp: setval_cases [OF assms])
qed (use assms in \<open>simp add: setval_cases\<close>)

lemma flags_ok_new: "flags_ok st \<Longrightarrow> flags_ok (new_flag k st)"
  unfolding flags_ok_def [of "new_flag k st"] new_flag_of new_flag_fields
  by (auto simp: flags_ok_def split: if_splits)

lemma flags_ok_rmid: "flags_ok st \<Longrightarrow> flags_ok (snd (semctl_rmid i st))"
  unfolding rmid_cases by (auto simp: flags_ok_def flag_of_def split: if_splits)

lemma waitForEventFlag_Returns: "waitForEventFlag i st = Returns rc st' \<Longrightarrow> st' = st"
  by (auto simp: waitForEventFlag_def semop_def sem_blocked_def Let_def map_upd_triv
      split: option.splits sem_outcome.splits if_splits)

lemma create_clear_snd:
  "snd (createEventFlag_clear i st) = (if i = - 1 then st else snd (semctl_setval i 0 (if False then 0 else 1) st))"
  by (simp add: createEventFlag_clear_def clearEventFlag_def split: prod.split)

lemma flag_step_ok: "flag_step st st' \<Longrightarrow> flags_ok st \<Longrightarrow> flags_ok st'"
proof (induction rule: flag_step.induct)
  case (set_flag i st rc st')
  then show ?case using flags_ok_setval [of st i True] by (simp add: setEventFlag_def)
next
  case (clear_flag i st rc st')
  then show ?case using flags_ok_setval [of st i False] by (simp add: clearEventFlag_def)
next
  case (wait_flag i st rc st')
  then show ?case using waitForEventFlag_Returns [of i st rc st'] by simp
next
  case (create_get ftok key st i st')
  then show ?case using create_get_flag [of st _ ftok key] flags_ok_new by (auto split: if_splits)
next
  case (create_clear i st rc st')
  then show ?case using create_clear_snd [of i st] flags_ok_setval [of st i False] by (auto split: if_splits)
next
  case (get_flag ftok key st rc st')
  then show ?case using get_flag_cases [of st _ ftok key] flags_ok_new by (auto split: if_splits option.splits)
next
  case (destroy_flag i st rc st')
  then show ?case using flags_ok_rmid [of st i] by (simp add: destroyEventFlag_def)
qed

text \<open>Any number of calls, by any number of processes.\<close>

abbreviation flag_steps :: "'s sysv_sem_scheme \<Rightarrow> 's sysv_sem_scheme \<Rightarrow> bool" where
  "flag_steps \<equiv> flag_step\<^sup>*\<^sup>*"

lemma flag_steps_ok: "flag_steps st st' \<Longrightarrow> flags_ok st \<Longrightarrow> flags_ok st'"
  by (induction rule: rtranclp_induct) (auto intro: flag_step_ok)

lemma wait_on_flag:
  "flag_of st i = Some b \<Longrightarrow> waitForEventFlag i st = (if b then Returns 0 st else Sleeps)"
  by (auto simp: flag_of_Some waitForEventFlag_def semop_def sem_blocked_def Let_def map_upd_triv)

lemma state_of_flag: "flag_of st i = Some b \<Longrightarrow> getFlagState i st = (if b then 0 else 1)"
  by (auto simp: flag_of_Some getFlagState_def semctl_getall_def)

section \<open>The abstract table\<close>

text \<open>
  The table of flags: each is set or clear, some have names. A call looks a flag up, changes it, adds a fresh one or
  removes one; -1 says that it could not.
\<close>

record flag_table =
  ft_flags :: "int \<Rightarrow> bool option"
  ft_names :: "int \<Rightarrow> int option"
  ft_next :: int
  ft_full :: bool

definition flag_table :: "'s sysv_sem_scheme \<Rightarrow> flag_table" where
  "flag_table st = \<lparr>ft_flags = flag_of st, ft_names = sem_keys st, ft_next = sem_next st, ft_full = sem_full st\<rparr>"

definition spec_put :: "int \<Rightarrow> bool \<Rightarrow> flag_table \<Rightarrow> int \<times> flag_table" where
  "spec_put i b t = (if ft_flags t i = None then (- 1, t) else (0, t\<lparr>ft_flags := (ft_flags t)(i \<mapsto> b)\<rparr>))"

definition spec_destroy :: "int \<Rightarrow> flag_table \<Rightarrow> int \<times> flag_table" where
  "spec_destroy i t =
     (if ft_flags t i = None then (- 1, t)
      else (0, t\<lparr>ft_flags := (ft_flags t)(i := None), ft_names := (\<lambda>k. if ft_names t k = Some i then None else ft_names t k)\<rparr>))"

definition spec_new :: "int \<Rightarrow> bool \<Rightarrow> flag_table \<Rightarrow> int \<times> flag_table" where
  "spec_new k b t =
     (if ft_full t then (- 1, t)
      else (ft_next t, t\<lparr>ft_flags := (ft_flags t)(ft_next t \<mapsto> b), ft_next := ft_next t + 1,
              ft_names := (if k = IPC_PRIVATE then ft_names t else (ft_names t)(k \<mapsto> ft_next t))\<rparr>))"

definition spec_create :: "int \<Rightarrow> bool \<Rightarrow> flag_table \<Rightarrow> int \<times> flag_table" where
  "spec_create k b t = (if k \<noteq> IPC_PRIVATE \<and> ft_names t k \<noteq> None then (- 1, t) else spec_new k b t)"

definition spec_get :: "int \<Rightarrow> flag_table \<Rightarrow> int \<times> flag_table" where
  "spec_get k t =
     (if k = IPC_PRIVATE then spec_new k True t
      else (case ft_names t k of None \<Rightarrow> (- 1, t) | Some i \<Rightarrow> (i, t)))"

lemma flag_table_sel [simp]:
  "ft_flags (flag_table st) = flag_of st" "ft_names (flag_table st) = sem_keys st" "ft_next (flag_table st) = sem_next st"
  "ft_full (flag_table st) = sem_full st"
  by (simp_all add: flag_table_def)

lemma put_refines:
  assumes "flags_ok st"
  shows "map_prod id flag_table (semctl_setval i 0 (if b then 0 else 1) st) = spec_put i b (flag_table st)"
  unfolding setval_cases [OF assms] spec_put_def
  using flag_of_put [of "st\<lparr>sem_sets := (sem_sets st)(i := Some [if b then 0 else 1])\<rparr>" st i b]
  by (auto simp: flag_table_def)

lemma destroy_refines:
  assumes "flags_ok st"
  shows "map_prod id flag_table (destroyEventFlag i st) = spec_destroy i (flag_table st)"
  unfolding destroyEventFlag_def rmid_cases [OF assms] spec_destroy_def
  by (auto simp: flag_table_def flag_of_def fun_eq_iff)

lemma new_refines: "flag_table (new_flag k st) = (flag_table st)\<lparr>ft_flags := (flag_of st)(sem_next st \<mapsto> True),
    ft_next := sem_next st + 1, ft_names := (if k = IPC_PRIVATE then sem_keys st else (sem_keys st)(k \<mapsto> sem_next st))\<rparr>"
  by (simp add: flag_table_def new_flag_of new_flag_fields)

lemma create_get_refines:
  assumes "flags_ok st" and "k = flag_key ftok key"
  shows "map_prod id flag_table (createEventFlag_get ftok key st) = spec_create k True (flag_table st)"
  unfolding create_get_flag [OF assms] spec_create_def spec_new_def by (auto simp: new_refines)

lemma get_refines:
  assumes "flags_ok st" and "k = flag_key ftok key"
  shows "map_prod id flag_table (getEventFlag ftok key st) = spec_get k (flag_table st)"
  unfolding get_flag_cases [OF assms] spec_get_def spec_new_def by (auto simp: new_refines split: option.split)

lemma create_refines:
  assumes "flags_ok st" and "k = flag_key ftok key"
  shows "map_prod id flag_table (createEventFlag ftok key st) = spec_create k False (flag_table st)"
proof (cases "sem_full st \<or> k \<noteq> IPC_PRIVATE \<and> sem_keys st k \<noteq> None")
  case True
  then show ?thesis using create_get_flag [OF assms]
    by (auto simp: createEventFlag_def createEventFlag_clear_def spec_create_def spec_new_def)
next
  case False
  let ?t = "new_flag k st"
  let ?u = "?t\<lparr>sem_sets := (sem_sets ?t)(sem_next st := Some [1])\<rparr>"
  have n: "sem_next st \<noteq> - 1" using flags_okD(3) [OF assms(1)] by simp
  have "clearEventFlag (sem_next st) ?t = (0, ?u)"
    using setval_cases [OF flags_ok_new [OF assms(1)], of "sem_next st" False k] by (simp add: clearEventFlag_def new_flag_of)
  then have c: "createEventFlag ftok key st = (sem_next st, ?u)"
    using create_get_flag [OF assms] False n by (simp add: createEventFlag_def createEventFlag_clear_def)
  have "flag_of ?u = (flag_of st)(sem_next st \<mapsto> False)"
    using flag_of_put [of ?u ?t "sem_next st" False] by (simp add: new_flag_of)
  then have "flag_table ?u = snd (spec_new k False (flag_table st))"
    using False by (simp add: flag_table_def spec_new_def new_flag_fields)
  then show ?thesis using c False by (auto simp: spec_create_def spec_new_def)
qed

lemma create_clear_refines:
  assumes "flags_ok st" and "i \<noteq> - 1"
  shows "map_prod id flag_table (createEventFlag_clear i st) =
    (case spec_put i False (flag_table st) of (rc, t) \<Rightarrow> (if rc = - 1 then - 1 else i, t))"
  using put_refines [OF assms(1), of i False] assms(2)
  by (cases "clearEventFlag i st") (auto simp: createEventFlag_clear_def clearEventFlag_def split: if_splits prod.splits)

lemma set_clear_flag:
  assumes "flag_of st i = Some b"
  shows "setEventFlag i st = (0, st\<lparr>sem_sets := (sem_sets st)(i := Some [0])\<rparr>)"
    "clearEventFlag i st = (0, st\<lparr>sem_sets := (sem_sets st)(i := Some [1])\<rparr>)"
  using assms setval_flag [of st i _ 0] setval_flag [of st i _ 1]
  by (auto simp: flag_of_Some setEventFlag_def clearEventFlag_def)

lemma state_refines:
  assumes "flags_ok st"
  shows "getFlagState i st = (case flag_of st i of None \<Rightarrow> - 1 | Some b \<Rightarrow> if b then 0 else 1)"
  using flags_okD(1) [OF assms, of i]
  by (auto simp: getFlagState_def semctl_getall_def flag_of_Some split: option.split)

lemma wait_refines:
  assumes "flags_ok st"
  shows "waitForEventFlag i st = (case flag_of st i of None \<Rightarrow> Returns (- 1) st | Some b \<Rightarrow> if b then Returns 0 st else Sleeps)"
proof (cases "flag_of st i")
  case None
  then show ?thesis using flags_okD(1) [OF assms, of i] by (simp add: waitForEventFlag_def semop_def)
next
  case (Some b)
  then show ?thesis using wait_on_flag [OF Some] by simp
qed

definition ex_sem :: sysv_sem where
  "ex_sem = \<lparr>sem_sets = [5 \<mapsto> [1]], sem_keys = [77 \<mapsto> 5], sem_next = 6, sem_full = False, sem_initial = 0\<rparr>"

lemma ex_sem_ok: "flags_ok ex_sem" "flag_of ex_sem 5 = Some False"
  by (auto simp: flags_ok_def ex_sem_def flag_of_def split: if_splits)

section \<open>Properties\<close>



text \<open>Between the two calls of \<^verbatim>\<open>createEventFlag\<close> another process that waits for the new flag gets through.\<close>

theorem event_flag_create:
  assumes "flags_ok st" and "\<not> sem_full st" and "createEventFlag_get ftok None st = (i, st1)"
  shows "waitForEventFlag i st1 = Returns 0 st1 \<and> (\<exists>st2. createEventFlag ftok None st = (i, st2) \<and> waitForEventFlag i st2 = Sleeps)"
proof -
  have g: "i = sem_next st" "st1 = new_flag IPC_PRIVATE st"
    using create_get_flag [OF assms(1) refl, of ftok None] assms(2, 3) by (auto simp: flag_key_def)
  have "flag_of st1 i = Some True" by (simp add: g new_flag_of)
  moreover obtain st2 where c: "createEventFlag ftok None st = (i, st2)" "flag_of st2 i = Some False"
    using create_refines [OF assms(1) refl, of ftok None] assms(2) g(1)
    by (cases "createEventFlag ftok None st") (auto simp: flag_key_def spec_create_def spec_new_def flag_table_def)
  ultimately show ?thesis using wait_on_flag [of st1 i True] wait_on_flag [OF c(2)] by simp
qed

theorem event_flag_create_witness:
  "waitForEventFlag 6 (snd (createEventFlag_get (\<lambda>_. 77) None ex_sem)) =
    Returns 0 (snd (createEventFlag_get (\<lambda>_. 77) None ex_sem))"
proof -
  have e: "\<not> sem_full ex_sem" by (simp add: ex_sem_def)
  have g: "fst (createEventFlag_get (\<lambda>_. 77) None ex_sem) = 6"
    by (simp add: createEventFlag_get_def semget_def semget_new_def flag_key_def ex_sem_def)
  then have "createEventFlag_get (\<lambda>_. 77) None ex_sem = (6, snd (createEventFlag_get (\<lambda>_. 77) None ex_sem))"
    by (metis prod.collapse)
  from event_flag_create [OF ex_sem_ok(1) e this] show ?thesis by blast
qed

end
