(* ===== verification/Shm_Transfer.thy ===== *)
theory Shm_Transfer
  imports Sysv_Sem
begin

text \<open>
  The transfer of a file through a shared mapping, \<^verbatim>\<open>49-memory-mappings/exercises/49-2-writer.c\<close> and
  \<^verbatim>\<open>49-2-reader.c\<close>, with two semaphores that pass the turn between the two processes.

  The state has the semaphores, the mapped file, what the writer has still to read and what the reader has written, and for
  each process where it stands, its locals and how it ended. A step of a process runs up to its next system call or its next
  access to the mapping; a call that cannot go on yet has no step. The argument \<open>got\<close> is the result of the call, where
  the call can have several: -1 when it fails, and the number of bytes of a \<^verbatim>\<open>read\<close> or \<^verbatim>\<open>write\<close>.
\<close>

section \<open>Processes\<close>

definition BUFFER_SIZE :: nat where "BUFFER_SIZE = 1024"

definition SEM_KEY :: string where "SEM_KEY = ''/tmp/semkey2''"

record memseg =
  seg_len :: int
  seg_buf :: string

datatype wpc = W_Begin | W_Sems | W_Init | W_Reserve | W_Read | W_Copy | W_Rest | W_Release | W_Last | W_Remove | W_Done

datatype rpc = R_Begin | R_Sems | R_Reserve | R_Look | R_Write | R_Release | R_Last | R_Done

record xfer = sysv_sem +
  x_key :: bool
  x_map :: "memseg option"
  x_in :: string
  x_out :: string
  x_works :: bool
  w_pc :: wpc
  w_exit :: "int res option"
  w_sem :: int
  w_seg :: memseg
  w_transfers :: int
  w_total :: int
  r_pc :: rpc
  r_exit :: "int res option"
  r_sem :: int
  r_transfers :: int
  r_total :: int

section \<open>The semaphores\<close>

definition ini_sems :: "int list" where "ini_sems = [1, 0]"

definition semctl_setall :: "int \<Rightarrow> int list \<Rightarrow> 's sysv_sem_scheme \<Rightarrow> int \<times> 's sysv_sem_scheme" where
  "semctl_setall semid vals st =
     (case sem_sets st semid of None \<Rightarrow> (- 1, st)
      | Some old \<Rightarrow>
          if length old \<noteq> length vals \<or> (\<exists>v \<in> set vals. v < 0 \<or> v > SEMVMX) then (- 1, st)
          else (0, st\<lparr>sem_sets := (sem_sets st)(semid := Some vals)\<rparr>))"

text \<open>\<^verbatim>\<open>ftok\<close> gives -1 when its file is missing. Between the two halves of \<^verbatim>\<open>getSemaphoreSet\<close> the other process may run.\<close>

definition sem_token :: "(string \<Rightarrow> int) \<Rightarrow> xfer \<Rightarrow> int" where
  "sem_token ftok st = (if x_key st then ftok SEM_KEY else - 1)"

definition getSemaphoreSet_get :: "(string \<Rightarrow> int) \<Rightarrow> xfer \<Rightarrow> int \<times> xfer" where
  "getSemaphoreSet_get ftok st = semget (sem_token ftok st) 2 (IPC_CREAT OR IPC_EXCL OR 384) st"

definition getSemaphoreSet_init :: "int \<Rightarrow> xfer \<Rightarrow> int \<times> xfer" where
  "getSemaphoreSet_init semid st =
     (if semid \<noteq> - 1 then (case semctl_setall semid ini_sems st of (rc, st1) \<Rightarrow> (if rc = - 1 then - 1 else semid, st1))
      else (semid, st))"

definition getSemaphoreSet :: "(string \<Rightarrow> int) \<Rightarrow> xfer \<Rightarrow> int \<times> xfer" where
  "getSemaphoreSet ftok st = (case getSemaphoreSet_get ftok st of (semid, st1) \<Rightarrow> getSemaphoreSet_init semid st1)"

definition reserveWrite :: "int \<Rightarrow> 's sysv_sem_scheme \<Rightarrow> (int, 's sysv_sem_scheme) call" where
  "reserveWrite semid st = semop semid [\<lparr>sem_num = 0, sem_op = - 1, sem_flg = 0\<rparr>] st"

definition releaseRead :: "int \<Rightarrow> 's sysv_sem_scheme \<Rightarrow> (int, 's sysv_sem_scheme) call" where
  "releaseRead semid st = semop semid [\<lparr>sem_num = 1, sem_op = 1, sem_flg = 0\<rparr>] st"

definition reserveRead :: "int \<Rightarrow> 's sysv_sem_scheme \<Rightarrow> (int, 's sysv_sem_scheme) call" where
  "reserveRead semid st = semop semid [\<lparr>sem_num = 1, sem_op = - 1, sem_flg = 0\<rparr>] st"

definition releaseWrite :: "int \<Rightarrow> 's sysv_sem_scheme \<Rightarrow> (int, 's sysv_sem_scheme) call" where
  "releaseWrite semid st = semop semid [\<lparr>sem_num = 0, sem_op = 1, sem_flg = 0\<rparr>] st"

section \<open>The writer\<close>

definition w_fails :: "xfer \<Rightarrow> xfer" where "w_fails st = st\<lparr>w_exit := Some (Inr 1)\<rparr>"

definition w_call :: "int \<Rightarrow> (int, xfer) call \<Rightarrow> wpc \<Rightarrow> xfer \<Rightarrow> xfer option" where
  "w_call got c pc st =
     (if got = - 1 then Some (w_fails st)
      else case c of Sleeps \<Rightarrow> None | Returns rc st1 \<Rightarrow> Some (if rc = - 1 then w_fails st1 else st1\<lparr>w_pc := pc\<rparr>))"

text \<open>A mapped file that did not exist has zeros.\<close>

definition blank_seg :: memseg where "blank_seg = \<lparr>seg_len = 0, seg_buf = replicate BUFFER_SIZE (CHR 0x00)\<rparr>"

definition writer_setup :: "(string \<Rightarrow> int) \<Rightarrow> int \<Rightarrow> xfer \<Rightarrow> xfer option" where
  "writer_setup ftok got st =
     (case w_pc st of
        W_Begin \<Rightarrow> Some (if got = - 1 then w_fails st
                         else st\<lparr>x_key := True, x_map := Some (case x_map st of None \<Rightarrow> blank_seg | Some m \<Rightarrow> m), w_pc := W_Sems\<rparr>)
      | W_Sems \<Rightarrow>
          if got = - 1 then Some (w_fails st)
          else (case getSemaphoreSet_get ftok st of (semid, st1) \<Rightarrow>
                  Some (if semid = - 1 then w_fails st1 else st1\<lparr>w_sem := semid, w_pc := W_Init\<rparr>))
      | W_Init \<Rightarrow>
          if got = - 1 then Some (w_fails st)
          else (case getSemaphoreSet_init (w_sem st) st of (semid, st1) \<Rightarrow>
                  Some (if semid = - 1 then w_fails st1 else st1\<lparr>w_transfers := 0, w_total := 0, w_pc := W_Reserve\<rparr>))
      | _ \<Rightarrow> None)"

definition read_chunk :: "int \<Rightarrow> string \<Rightarrow> bool" where
  "read_chunk got inp \<longleftrightarrow> 0 \<le> got \<and> got \<le> int BUFFER_SIZE \<and> got \<le> int (length inp) \<and> (got = 0 \<longleftrightarrow> inp = [])"

definition writer_step :: "(string \<Rightarrow> int) \<Rightarrow> int \<Rightarrow> xfer \<Rightarrow> xfer option" where
  "writer_step ftok got st =
     (if w_exit st \<noteq> None then None
      else case w_pc st of
        W_Reserve \<Rightarrow> w_call got (reserveWrite (w_sem st) st) W_Read st
      | W_Read \<Rightarrow>
          if got = - 1 then Some (w_fails (st\<lparr>w_seg := (w_seg st)\<lparr>seg_len := - 1\<rparr>\<rparr>))
          else if read_chunk got (x_in st)
          then Some (st\<lparr>w_seg := \<lparr>seg_len = got, seg_buf = take (nat got) (x_in st) @ drop (nat got) (seg_buf (w_seg st))\<rparr>,
                        x_in := drop (nat got) (x_in st), w_pc := W_Copy\<rparr>)
          else None
      | W_Copy \<Rightarrow> Some (st\<lparr>x_map := map_option (\<lambda>m. m\<lparr>seg_len := seg_len (w_seg st)\<rparr>) (x_map st), w_pc := W_Rest\<rparr>)
      | W_Rest \<Rightarrow>
          let st1 = st\<lparr>x_map := map_option (\<lambda>m. m\<lparr>seg_buf := seg_buf (w_seg st)\<rparr>) (x_map st)\<rparr> in
          if got = - 1 then Some (w_fails st1)
          else if seg_len (w_seg st) = 0 then Some (st1\<lparr>w_pc := W_Last\<rparr>)
          else (case c_add (w_total st) (seg_len (w_seg st)) of
                  Inl e \<Rightarrow> Some (st1\<lparr>w_exit := Some (Inl e)\<rparr>)
                | Inr n \<Rightarrow> Some (st1\<lparr>w_total := n, w_pc := W_Release\<rparr>))
      | W_Release \<Rightarrow>
          (case c_add (w_transfers st) 1 of
             Inl e \<Rightarrow> Some (st\<lparr>w_exit := Some (Inl e)\<rparr>)
           | Inr n \<Rightarrow> map_option (\<lambda>st1. st1\<lparr>w_transfers := if w_exit st1 = None then n else w_transfers st1\<rparr>)
                        (w_call got (releaseRead (w_sem st) st) W_Reserve st))
      | W_Last \<Rightarrow> w_call got (reserveWrite (w_sem st) st) W_Remove st
      | W_Remove \<Rightarrow>
          (case semctl_rmid (w_sem st) st of (rc, st1) \<Rightarrow>
             Some (if rc = - 1 then w_fails st1 else st1\<lparr>w_pc := W_Done, w_exit := Some (Inr 0)\<rparr>))
      | _ \<Rightarrow> writer_setup ftok got st)"

section \<open>The reader\<close>

definition r_fails :: "xfer \<Rightarrow> xfer" where "r_fails st = st\<lparr>r_exit := Some (Inr 1)\<rparr>"

definition r_call :: "int \<Rightarrow> (int, xfer) call \<Rightarrow> rpc \<Rightarrow> xfer \<Rightarrow> xfer option" where
  "r_call got c pc st =
     (if got = - 1 then Some (r_fails st)
      else case c of Sleeps \<Rightarrow> None | Returns rc st1 \<Rightarrow> Some (if rc = - 1 then r_fails st1 else st1\<lparr>r_pc := pc\<rparr>))"

definition reader_setup :: "(string \<Rightarrow> int) \<Rightarrow> int \<Rightarrow> xfer \<Rightarrow> xfer option" where
  "reader_setup ftok got st =
     (case r_pc st of
        R_Begin \<Rightarrow> Some (if got = - 1 \<or> x_map st = None then r_fails st else st\<lparr>r_pc := R_Sems\<rparr>)
      | R_Sems \<Rightarrow> (case semget (sem_token ftok st) 2 0 st of (semid, st1) \<Rightarrow>
                     Some (if semid = - 1 then r_fails st1
                           else st1\<lparr>r_sem := semid, r_transfers := 0, r_total := 0, r_pc := R_Reserve\<rparr>))
      | _ \<Rightarrow> None)"

definition reader_step :: "(string \<Rightarrow> int) \<Rightarrow> int \<Rightarrow> xfer \<Rightarrow> xfer option" where
  "reader_step ftok got st =
     (if r_exit st \<noteq> None then None
      else case r_pc st of
        R_Reserve \<Rightarrow> r_call got (reserveRead (r_sem st) st) R_Look st
      | R_Look \<Rightarrow>
          (case x_map st of None \<Rightarrow> Some (st\<lparr>r_exit := Some (Inl Bad_Access)\<rparr>)
           | Some m \<Rightarrow>
               if seg_len m = 0 then Some (st\<lparr>r_pc := R_Last\<rparr>)
               else (case c_add (r_total st) (seg_len m) of
                       Inl e \<Rightarrow> Some (st\<lparr>r_exit := Some (Inl e)\<rparr>)
                     | Inr n \<Rightarrow> Some (st\<lparr>r_total := n, r_pc := R_Write\<rparr>)))
      | R_Write \<Rightarrow>
          (case x_map st of None \<Rightarrow> Some (st\<lparr>r_exit := Some (Inl Bad_Access)\<rparr>)
           | Some m \<Rightarrow>
               if - 1 \<le> got \<and> got \<le> seg_len m
               then (let st1 = st\<lparr>x_out := x_out st @ take (nat got) (seg_buf m)\<rparr> in
                     Some (if got \<noteq> seg_len m then r_fails st1 else st1\<lparr>r_pc := R_Release\<rparr>))
               else None)
      | R_Release \<Rightarrow>
          (case c_add (r_transfers st) 1 of
             Inl e \<Rightarrow> Some (st\<lparr>r_exit := Some (Inl e)\<rparr>)
           | Inr n \<Rightarrow> map_option (\<lambda>st1. st1\<lparr>r_transfers := if r_exit st1 = None then n else r_transfers st1\<rparr>)
                        (r_call got (releaseWrite (r_sem st) st) R_Reserve st))
      | R_Last \<Rightarrow>
          map_option (\<lambda>st1. if r_exit st1 = None then st1\<lparr>r_exit := Some (Inr 0)\<rparr> else st1)
            (r_call got (releaseWrite (r_sem st) st) R_Done st)
      | _ \<Rightarrow> reader_setup ftok got st)"

section \<open>Interleaving\<close>

text \<open>When \<open>x_works\<close> holds no call fails that the other process does not make fail.\<close>

definition full_write :: "int \<Rightarrow> xfer \<Rightarrow> bool" where
  "full_write got st \<longleftrightarrow> (case x_map st of Some m \<Rightarrow> got = seg_len m | None \<Rightarrow> True)"

inductive mmap_step :: "(string \<Rightarrow> int) \<Rightarrow> xfer \<Rightarrow> xfer \<Rightarrow> bool" for ftok where
  by_writer: "writer_step ftok got st = Some st' \<Longrightarrow> (x_works st \<Longrightarrow> got \<noteq> - 1) \<Longrightarrow> mmap_step ftok st st'"
| by_reader: "reader_step ftok got st = Some st' \<Longrightarrow> (x_works st \<Longrightarrow> if r_pc st = R_Write then full_write got st else got \<noteq> - 1) \<Longrightarrow>
    mmap_step ftok st st'"

definition mmap_run :: "(string \<Rightarrow> int) \<Rightarrow> xfer \<Rightarrow> xfer \<Rightarrow> bool" where
  "mmap_run ftok = (mmap_step ftok)\<^sup>*\<^sup>*"

definition fresh_start :: "(string \<Rightarrow> int) \<Rightarrow> string \<Rightarrow> xfer \<Rightarrow> bool" where
  "fresh_start ftok input st \<longleftrightarrow> w_pc st = W_Begin \<and> w_exit st = None \<and> r_pc st = R_Begin \<and> r_exit st = None \<and> x_map st = None \<and>
     sem_keys st (ftok SEM_KEY) = None \<and> ftok SEM_KEY \<noteq> IPC_PRIVATE \<and> sem_initial st = 0 \<and> 0 \<le> sem_next st \<and> \<not> sem_full st \<and>
     x_in st = input \<and> x_out st = [] \<and> int (length input) \<le> INT_MAX \<and> BUFFER_SIZE \<le> length (seg_buf (w_seg st))"

section \<open>The turn\<close>

lemma sem_values:
  assumes "sem_sets st i = Some [w, r]"
  shows "reserveWrite i st = (if 1 \<le> w then Returns 0 (st\<lparr>sem_sets := (sem_sets st)(i := Some [w - 1, r])\<rparr>) else Sleeps)"
    "reserveRead i st = (if 1 \<le> r then Returns 0 (st\<lparr>sem_sets := (sem_sets st)(i := Some [w, r - 1])\<rparr>) else Sleeps)"
    "w + 1 \<le> SEMVMX \<Longrightarrow> releaseWrite i st = Returns 0 (st\<lparr>sem_sets := (sem_sets st)(i := Some [w + 1, r])\<rparr>)"
    "r + 1 \<le> SEMVMX \<Longrightarrow> releaseRead i st = Returns 0 (st\<lparr>sem_sets := (sem_sets st)(i := Some [w, r + 1])\<rparr>)"
  using assms by (simp_all add: reserveWrite_def reserveRead_def releaseWrite_def releaseRead_def semop_def sem_blocked_def IPC_NOWAIT_def)

definition w_turn :: "xfer \<Rightarrow> bool" where
  "w_turn st \<longleftrightarrow> w_pc st \<in> {W_Init, W_Read, W_Copy, W_Rest, W_Release, W_Last}"

definition r_turn :: "xfer \<Rightarrow> bool" where
  "r_turn st \<longleftrightarrow> r_pc st \<in> {R_Look, R_Write, R_Release}"

text \<open>The bytes on their way, when \<open>r\<close> is the value of the reader's semaphore.\<close>

definition on_the_way :: "int \<Rightarrow> xfer \<Rightarrow> string" where
  "on_the_way r st =
     (if w_pc st \<in> {W_Copy, W_Rest, W_Release} then take (nat (seg_len (w_seg st))) (seg_buf (w_seg st))
      else if r = 1 \<or> r_pc st \<in> {R_Look, R_Write}
      then (case x_map st of Some m \<Rightarrow> take (nat (seg_len m)) (seg_buf m) | None \<Rightarrow> [])
      else [])"

definition held_len :: "xfer \<Rightarrow> int" where
  "held_len st = (if w_pc st \<in> {W_Copy, W_Rest} then seg_len (w_seg st) else 0)"

definition shown_len :: "xfer \<Rightarrow> int" where
  "shown_len st = (if r_pc st = R_Write then (case x_map st of Some m \<Rightarrow> seg_len m | None \<Rightarrow> 0) else 0)"

definition seg_ok :: "memseg \<Rightarrow> bool" where
  "seg_ok m \<longleftrightarrow> 0 < seg_len m \<and> seg_len m \<le> int (length (seg_buf m))"

text \<open>The segment at each point of the two programs.\<close>

definition segs_ok :: "int \<Rightarrow> xfer \<Rightarrow> bool" where
  "segs_ok r st \<longleftrightarrow> BUFFER_SIZE \<le> length (seg_buf (w_seg st)) \<and> (\<exists>m. x_map st = Some m \<and> (r = 1 \<or> r_pc st \<in> {R_Look, R_Write} \<longrightarrow> seg_ok m) \<and>
       (w_pc st = W_Rest \<longrightarrow> seg_len m = seg_len (w_seg st)) \<and> (w_pc st = W_Release \<longrightarrow> m = w_seg st)) \<and>
     (w_pc st \<in> {W_Copy, W_Rest} \<longrightarrow> (if x_in st = [] then 0 \<le> seg_len (w_seg st) else 0 < seg_len (w_seg st)) \<and> seg_len (w_seg st) \<le> int (length (seg_buf (w_seg st)))) \<and>
     (w_pc st = W_Release \<longrightarrow> seg_ok (w_seg st)) \<and> (w_pc st = W_Last \<longrightarrow> x_in st = [])"

definition w_counts :: "string \<Rightarrow> xfer \<Rightarrow> bool" where
  "w_counts input st \<longleftrightarrow> (w_pc st = W_Init \<longrightarrow> x_in st = input) \<and> (w_pc st \<noteq> W_Init \<longrightarrow> w_total st = int (length input) - int (length (x_in st)) - held_len st \<and> 0 \<le> w_transfers st \<and>
     w_transfers st + of_bool (w_pc st = W_Release) \<le> w_total st)"

definition r_counts :: "xfer \<Rightarrow> bool" where
  "r_counts st \<longleftrightarrow> (r_pc st \<in> {R_Begin, R_Sems} \<longrightarrow> x_out st = []) \<and> (r_pc st \<notin> {R_Begin, R_Sems} \<and> r_exit st = None \<longrightarrow> r_total st = int (length (x_out st)) + shown_len st \<and>
     0 \<le> r_transfers st \<and> r_transfers st + of_bool (r_pc st \<in> {R_Write, R_Release}) \<le> r_total st)"

definition counts_ok :: "string \<Rightarrow> xfer \<Rightarrow> bool" where
  "counts_ok input st \<longleftrightarrow> w_counts input st \<and> r_counts st"

definition turns_ok :: "(string \<Rightarrow> int) \<Rightarrow> int \<Rightarrow> int \<Rightarrow> xfer \<Rightarrow> bool" where
  "turns_ok ftok w r st \<longleftrightarrow> sem_sets st (w_sem st) = Some [w, r] \<and> sem_keys st (ftok SEM_KEY) = Some (w_sem st) \<and> x_key st \<and>
     0 \<le> w \<and> 0 \<le> r \<and> w + r + of_bool (w_turn st) + of_bool (r_turn st) = 1 \<and>
     w_pc st \<notin> {W_Begin, W_Sems, W_Remove, W_Done} \<and> r_pc st \<notin> {R_Last, R_Done} \<and>
     (r_pc st \<notin> {R_Begin, R_Sems} \<longrightarrow> r_sem st = w_sem st) \<and> 0 \<le> w_sem st"

definition data_ok :: "string \<Rightarrow> int \<Rightarrow> xfer \<Rightarrow> bool" where
  "data_ok input r st \<longleftrightarrow>
     (if r_pc st = R_Write \<and> r_exit st \<noteq> None then \<exists>rest. input = x_out st @ rest else input = x_out st @ on_the_way r st @ x_in st)"

definition running :: "(string \<Rightarrow> int) \<Rightarrow> string \<Rightarrow> xfer \<Rightarrow> bool" where
  "running ftok input st \<longleftrightarrow> (\<exists>w r. turns_ok ftok w r st \<and> segs_ok r st \<and> counts_ok input st \<and>
     data_ok input r st)"

definition starting :: "(string \<Rightarrow> int) \<Rightarrow> string \<Rightarrow> xfer \<Rightarrow> bool" where
  "starting ftok input st \<longleftrightarrow> w_pc st \<in> {W_Begin, W_Sems} \<and> r_pc st \<in> {R_Begin, R_Sems} \<and> sem_keys st (ftok SEM_KEY) = None \<and>
     sem_initial st = 0 \<and> 0 \<le> sem_next st \<and> \<not> sem_full st \<and>
     (w_pc st = W_Sems \<longrightarrow> x_map st \<noteq> None) \<and> (x_map st \<noteq> None \<longrightarrow> x_key st) \<and> (r_pc st = R_Sems \<longrightarrow> x_map st \<noteq> None) \<and>
     x_in st = input \<and> x_out st = [] \<and> BUFFER_SIZE \<le> length (seg_buf (w_seg st))"

definition mmap_inv :: "(string \<Rightarrow> int) \<Rightarrow> string \<Rightarrow> xfer \<Rightarrow> bool" where
  "mmap_inv ftok input st \<longleftrightarrow> (starting ftok input st \<or> running ftok input st) \<and> ftok SEM_KEY \<noteq> IPC_PRIVATE \<and> int (length input) \<le> INT_MAX"

lemma starting_writer:
  assumes "starting ftok input st" and "ftok SEM_KEY \<noteq> IPC_PRIVATE" and "writer_step ftok got st = Some st'"
  shows "starting ftok input st' \<or> running ftok input st'"
proof (cases "w_pc st")
  case W_Begin
  then show ?thesis using assms
    by (auto simp: starting_def writer_step_def writer_setup_def w_fails_def split: if_splits)
next
  case W_Sems
  have flags: "IPC_CREAT OR IPC_EXCL OR 384 = 1920" by (simp add: IPC_CREAT_def IPC_EXCL_def)
  have "sem_token ftok st = ftok SEM_KEY" using assms(1) W_Sems by (simp add: starting_def sem_token_def)
  then have "getSemaphoreSet_get ftok st = (sem_next st, st\<lparr>sem_sets := (sem_sets st)(sem_next st := Some [0, 0]), sem_next := sem_next st + 1,
      sem_keys := (sem_keys st)(ftok SEM_KEY := Some (sem_next st))\<rparr>)"
    using assms(1, 2) unfolding getSemaphoreSet_get_def flags
    by (auto simp: starting_def semget_def semget_new_def IPC_CREAT_def numeral_2_eq_2)
  then consider (fails) "st' = w_fails st" | (ok) "st' = st\<lparr>sem_sets := (sem_sets st)(sem_next st := Some [0, 0]), sem_next := sem_next st + 1,
      sem_keys := (sem_keys st)(ftok SEM_KEY := Some (sem_next st)), w_sem := sem_next st, w_pc := W_Init\<rparr>"
    using assms(1, 3) W_Sems by (auto simp: starting_def writer_step_def writer_setup_def split: if_splits)
  then show ?thesis
  proof cases
    case fails
    then show ?thesis using assms(1) by (simp add: starting_def w_fails_def)
  next
    case st': ok
    have "running ftok input st'"
      unfolding running_def
      by (rule exI [of _ 0], rule exI [of _ 0])
        (use assms(1) W_Sems in \<open>auto simp: st' starting_def turns_ok_def segs_ok_def counts_ok_def w_counts_def r_counts_def data_ok_def on_the_way_def w_turn_def r_turn_def\<close>)
    then show ?thesis by simp
  qed
qed (use assms in \<open>auto simp: starting_def\<close>)

lemma starting_reader:
  assumes "starting ftok input st" and "ftok SEM_KEY \<noteq> IPC_PRIVATE" and "reader_step ftok got st = Some st'"
  shows "starting ftok input st'"
proof (cases "r_pc st")
  case R_Begin
  then show ?thesis using assms
    by (auto simp: starting_def reader_step_def reader_setup_def r_fails_def split: if_splits)
next
  case R_Sems
  have "sem_token ftok st = ftok SEM_KEY" using assms(1) R_Sems by (simp add: starting_def sem_token_def)
  then have "semget (sem_token ftok st) 2 0 st = (- 1, st)" using assms(1, 2) by (simp add: starting_def semget_def)
  then show ?thesis using assms R_Sems
    by (auto simp: starting_def reader_step_def reader_setup_def r_fails_def split: if_splits)
qed (use assms in \<open>auto simp: starting_def\<close>)

lemma runningD:
  assumes "running ftok input st"
  obtains w r where "turns_ok ftok w r st" "segs_ok r st" "counts_ok input st"
    "data_ok input r st"
  using assms unfolding running_def by blast

lemma r_counts_cong:
  assumes "r_counts st" and "r_pc t = r_pc st" "r_exit t = r_exit st" "r_total t = r_total st" "x_out t = x_out st" "r_transfers t = r_transfers st"
    and "r_pc st = R_Write \<Longrightarrow> x_map t = x_map st"
  shows "r_counts t"
proof -
  have s: "shown_len t = shown_len st" using assms(2, 7) by (simp add: shown_len_def)
  show ?thesis using assms(1) unfolding r_counts_def assms(2-6) s .
qed

lemma w_counts_cong:
  assumes "w_counts input st" and "w_pc t = w_pc st" "w_total t = w_total st" "x_in t = x_in st" "w_transfers t = w_transfers st" "w_seg t = w_seg st"
  shows "w_counts input t"
proof -
  have h: "held_len t = held_len st" using assms(2, 6) by (simp add: held_len_def)
  show ?thesis using assms(1) unfolding w_counts_def assms(2-5) h .
qed

lemma w_exit_same [simp]:
  "w_turn (st\<lparr>w_exit := e\<rparr>) = w_turn st" "r_turn (st\<lparr>w_exit := e\<rparr>) = r_turn st" "on_the_way r (st\<lparr>w_exit := e\<rparr>) = on_the_way r st"
  "held_len (st\<lparr>w_exit := e\<rparr>) = held_len st" "shown_len (st\<lparr>w_exit := e\<rparr>) = shown_len st" "segs_ok r (st\<lparr>w_exit := e\<rparr>) = segs_ok r st"
  by (simp_all add: w_turn_def r_turn_def on_the_way_def held_len_def shown_len_def segs_ok_def)

lemma w_exit_parts [simp]:
  "turns_ok ftok w r (st\<lparr>w_exit := e\<rparr>) = turns_ok ftok w r st" "counts_ok input (st\<lparr>w_exit := e\<rparr>) = counts_ok input st"
  "data_ok input r (st\<lparr>w_exit := e\<rparr>) = data_ok input r st"
  by (simp_all add: data_ok_def turns_ok_def counts_ok_def w_counts_def r_counts_def cong: conj_cong)

lemma w_fails_running: "running ftok input st \<Longrightarrow> running ftok input (w_fails st)"
  unfolding running_def w_fails_def by simp

lemma runningI:
  "turns_ok ftok w r st \<Longrightarrow> segs_ok r st \<Longrightarrow> counts_ok input st \<Longrightarrow>
    data_ok input r st \<Longrightarrow>
    running ftok input st"
  unfolding running_def by blast

lemma turn_cases:
  assumes "turns_ok ftok w r st"
  shows "w_turn st \<Longrightarrow> w = 0 \<and> r = 0 \<and> \<not> r_turn st" "r_turn st \<Longrightarrow> w = 0 \<and> r = 0 \<and> \<not> w_turn st"
    "1 \<le> w \<Longrightarrow> w = 1 \<and> r = 0 \<and> \<not> w_turn st \<and> \<not> r_turn st" "1 \<le> r \<Longrightarrow> r = 1 \<and> w = 0 \<and> \<not> w_turn st \<and> \<not> r_turn st"
  using assms by (auto simp: turns_ok_def of_bool_def split: if_splits)

lemma read_chunk_len: "read_chunk got inp \<Longrightarrow> 0 \<le> got \<and> nat got \<le> length inp \<and> got \<le> 1024 \<and> (got = 0 \<longleftrightarrow> inp = [])"
  by (auto simp: read_chunk_def BUFFER_SIZE_def)

lemma running_read:
  assumes "running ftok input st" and "w_pc st = W_Read" and "read_chunk got (x_in st)"
  shows "running ftok input (st\<lparr>w_seg := \<lparr>seg_len = got, seg_buf = take (nat got) (x_in st) @ drop (nat got) (seg_buf (w_seg st))\<rparr>,
                        x_in := drop (nat got) (x_in st), w_pc := W_Copy\<rparr>)" (is "running ftok input ?st")
proof -
  obtain w r where inv: "turns_ok ftok w r st" "segs_ok r st" "counts_ok input st"
    "data_ok input r st"
    by (rule runningD [OF assms(1)])
  have wr: "r = 0" "\<not> r_turn st" using turn_cases(1) [OF inv(1)] assms(2) by (simp_all add: w_turn_def)
  then have pc: "r_pc st \<noteq> R_Look" "r_pc st \<noteq> R_Write" "r_pc st \<noteq> R_Release" by (auto simp: r_turn_def)
  have data: "input = x_out st @ x_in st" using inv(4) assms(2) wr(1) pc by (simp add: data_ok_def on_the_way_def)
  note got = read_chunk_len [OF assms(3)]
  have buf: "1024 \<le> length (seg_buf (w_seg st))" using inv(2) by (simp add: segs_ok_def BUFFER_SIZE_def)
  show ?thesis
  proof (rule runningI [of _ w r])
    show "turns_ok ftok w r ?st" using inv(1) assms(2) by (simp add: turns_ok_def w_turn_def r_turn_def)
    show "segs_ok r ?st" using inv(2) assms(2) got buf pc by (auto simp: segs_ok_def BUFFER_SIZE_def)
    show "counts_ok input ?st" unfolding counts_ok_def
    proof
      show "w_counts input ?st" using inv(3) assms(2) got pc by (auto simp: counts_ok_def w_counts_def held_len_def)
      show "r_counts ?st" by (rule r_counts_cong [of st]) (use inv(3) pc in \<open>simp_all add: counts_ok_def\<close>)
    qed
    have "min (length (x_in st)) (nat got) = nat got" using got by simp
    then show "data_ok input r ?st"
      using data pc by (simp add: data_ok_def on_the_way_def)
  qed
qed

lemma running_copy:
  assumes "running ftok input st" and "w_pc st = W_Copy"
  shows "running ftok input (st\<lparr>x_map := map_option (\<lambda>m. m\<lparr>seg_len := seg_len (w_seg st)\<rparr>) (x_map st), w_pc := W_Rest\<rparr>)" (is "running ftok input ?st")
proof -
  obtain w r where inv: "turns_ok ftok w r st" "segs_ok r st" "counts_ok input st"
    "data_ok input r st"
    by (rule runningD [OF assms(1)])
  have wr: "r = 0" "\<not> r_turn st" using turn_cases(1) [OF inv(1)] assms(2) by (simp_all add: w_turn_def)
  then have pc: "r_pc st \<noteq> R_Look" "r_pc st \<noteq> R_Write" "r_pc st \<noteq> R_Release" by (auto simp: r_turn_def)
  show ?thesis
  proof (rule runningI [of _ w r])
    show "turns_ok ftok w r ?st" using inv(1) assms(2) by (simp add: turns_ok_def w_turn_def r_turn_def)
    show "segs_ok r ?st" using inv(2) assms(2) wr(1) pc by (auto simp: segs_ok_def)
    show "counts_ok input ?st" unfolding counts_ok_def
    proof
      show "w_counts input ?st" using inv(3) assms(2) pc by (auto simp: counts_ok_def w_counts_def held_len_def)
      show "r_counts ?st" by (rule r_counts_cong [of st]) (use inv(3) pc in \<open>simp_all add: counts_ok_def\<close>)
    qed
    show "data_ok input r ?st"
      using inv(4) assms(2) pc by (simp add: data_ok_def on_the_way_def)
  qed
qed

lemma running_rest:
  assumes "running ftok input st" and "w_pc st = W_Rest" and "int (length input) \<le> INT_MAX"
    and "st1 = st\<lparr>x_map := map_option (\<lambda>m. m\<lparr>seg_buf := seg_buf (w_seg st)\<rparr>) (x_map st)\<rparr>"
  shows "running ftok input st1" "seg_len (w_seg st) = 0 \<Longrightarrow> running ftok input (st1\<lparr>w_pc := W_Last\<rparr>)"
    "seg_len (w_seg st) \<noteq> 0 \<Longrightarrow> c_add (w_total st) (seg_len (w_seg st)) = Inr (w_total st + seg_len (w_seg st)) \<and>
      running ftok input (st1\<lparr>w_total := w_total st + seg_len (w_seg st), w_pc := W_Release\<rparr>)"
proof -
  obtain w r where inv: "turns_ok ftok w r st" "segs_ok r st" "counts_ok input st"
    "data_ok input r st"
    by (rule runningD [OF assms(1)])
  have wr: "r = 0" "\<not> r_turn st" using turn_cases(1) [OF inv(1)] assms(2) by (simp_all add: w_turn_def)
  then have pc: "r_pc st \<noteq> R_Look" "r_pc st \<noteq> R_Write" "r_pc st \<noteq> R_Release" by (auto simp: r_turn_def)
  obtain m where m: "x_map st = Some m" "seg_len m = seg_len (w_seg st)" using inv(2) assms(2) by (auto simp: segs_ok_def)
  have same: "m\<lparr>seg_buf := seg_buf (w_seg st)\<rparr> = w_seg st" using m(2) by simp
  have data: "input = x_out st @ take (nat (seg_len (w_seg st))) (seg_buf (w_seg st)) @ x_in st"
    using inv(4) assms(2) pc by (simp add: data_ok_def on_the_way_def)
  have len: "0 \<le> seg_len (w_seg st)" "seg_len (w_seg st) \<le> int (length (seg_buf (w_seg st)))"
    using inv(2) assms(2) by (auto simp: segs_ok_def split: if_splits)
  have tot: "w_total st = int (length input) - int (length (x_in st)) - seg_len (w_seg st)" "0 \<le> w_transfers st" "w_transfers st \<le> w_total st"
    using inv(3) assms(2) by (simp_all add: counts_ok_def w_counts_def held_len_def)
  show "running ftok input st1"
    unfolding assms(4)
  proof (rule runningI [of _ w r])
    let ?st = "st\<lparr>x_map := map_option (\<lambda>m. m\<lparr>seg_buf := seg_buf (w_seg st)\<rparr>) (x_map st)\<rparr>"
    show "turns_ok ftok w r ?st" using inv(1) assms(2) by (simp add: turns_ok_def w_turn_def r_turn_def)
    show "segs_ok r ?st" using inv(2) assms(2) wr(1) pc by (auto simp: segs_ok_def)
    show "counts_ok input ?st" unfolding counts_ok_def
    proof
      show "w_counts input ?st" using inv(3) assms(2) pc by (auto simp: counts_ok_def w_counts_def held_len_def)
      show "r_counts ?st" by (rule r_counts_cong [of st]) (use inv(3) pc in \<open>simp_all add: counts_ok_def\<close>)
    qed
    show "data_ok input r ?st"
      using inv(4) assms(2) pc by (simp add: data_ok_def on_the_way_def)
  qed
  show "running ftok input (st1\<lparr>w_pc := W_Last\<rparr>)" if z: "seg_len (w_seg st) = 0"
    unfolding assms(4)
  proof (rule runningI [of _ w r])
    let ?st = "st\<lparr>x_map := map_option (\<lambda>m. m\<lparr>seg_buf := seg_buf (w_seg st)\<rparr>) (x_map st), w_pc := W_Last\<rparr>"
    show "turns_ok ftok w r ?st" using inv(1) assms(2) by (simp add: turns_ok_def w_turn_def r_turn_def)
    show "segs_ok r ?st" using inv(2) assms(2) wr(1) pc z by (auto simp: segs_ok_def split: if_splits)
    show "counts_ok input ?st" unfolding counts_ok_def
    proof
      show "w_counts input ?st" using inv(3) assms(2) pc z by (auto simp: counts_ok_def w_counts_def held_len_def)
      show "r_counts ?st" by (rule r_counts_cong [of st]) (use inv(3) pc in \<open>simp_all add: counts_ok_def\<close>)
    qed
    show "data_ok input r ?st"
      using data pc wr(1) z by (simp add: data_ok_def on_the_way_def)
  qed
  assume nz: "seg_len (w_seg st) \<noteq> 0"
  have "c_add (w_total st) (seg_len (w_seg st)) = Inr (w_total st + seg_len (w_seg st))"
    using tot len(1) assms(3) by (intro c_add_ok) (auto simp: INT_MIN_def)
  moreover have "running ftok input (st1\<lparr>w_total := w_total st + seg_len (w_seg st), w_pc := W_Release\<rparr>)"
    unfolding assms(4)
  proof (rule runningI [of _ w r])
    let ?st = "st\<lparr>x_map := map_option (\<lambda>m. m\<lparr>seg_buf := seg_buf (w_seg st)\<rparr>) (x_map st), w_total := w_total st + seg_len (w_seg st), w_pc := W_Release\<rparr>"
    show "turns_ok ftok w r ?st" using inv(1) assms(2) by (simp add: turns_ok_def w_turn_def r_turn_def)
    show "segs_ok r ?st" using inv(2) assms(2) wr(1) pc m(1) same nz len by (auto simp: segs_ok_def seg_ok_def split: if_splits)
    show "counts_ok input ?st" unfolding counts_ok_def
    proof
      show "w_counts input ?st" using inv(3) assms(2) pc tot len(1) nz by (auto simp: counts_ok_def w_counts_def held_len_def)
      show "r_counts ?st" by (rule r_counts_cong [of st]) (use inv(3) pc in \<open>simp_all add: counts_ok_def\<close>)
    qed
    show "data_ok input r ?st"
      using data pc by (simp add: data_ok_def on_the_way_def)
  qed
  ultimately show "c_add (w_total st) (seg_len (w_seg st)) = Inr (w_total st + seg_len (w_seg st)) \<and>
      running ftok input (st1\<lparr>w_total := w_total st + seg_len (w_seg st), w_pc := W_Release\<rparr>)" by blast
qed

lemma SEMVMX_two: "2 \<le> SEMVMX" by (simp add: SEMVMX_def)

lemma running_init:
  assumes "running ftok input st" and "w_pc st = W_Init"
  shows "\<exists>st1. getSemaphoreSet_init (w_sem st) st = (w_sem st, st1) \<and> w_sem st \<noteq> - 1 \<and>
    running ftok input (st1\<lparr>w_transfers := 0, w_total := 0, w_pc := W_Reserve\<rparr>)"
proof -
  obtain w r where inv: "turns_ok ftok w r st" "segs_ok r st" "counts_ok input st" "data_ok input r st"
    by (rule runningD [OF assms(1)])
  have wr: "w = 0" "r = 0" "\<not> r_turn st" using turn_cases(1) [OF inv(1)] assms(2) by (simp_all add: w_turn_def)
  then have pc: "r_pc st \<noteq> R_Look" "r_pc st \<noteq> R_Write" "r_pc st \<noteq> R_Release" by (auto simp: r_turn_def)
  let ?st1 = "st\<lparr>sem_sets := (sem_sets st)(w_sem st := Some [1, 0])\<rparr>"
  let ?st = "?st1\<lparr>w_transfers := 0, w_total := 0, w_pc := W_Reserve\<rparr>"
  have set: "sem_sets st (w_sem st) = Some [0, 0]" "0 \<le> w_sem st" using inv(1) wr by (simp_all add: turns_ok_def)
  then have "getSemaphoreSet_init (w_sem st) st = (w_sem st, ?st1)"
    by (simp add: getSemaphoreSet_init_def semctl_setall_def ini_sems_def SEMVMX_def)
  moreover have "running ftok input ?st"
  proof (rule runningI [of _ 1 0])
    show "turns_ok ftok 1 0 ?st" using inv(1) assms(2) pc by (simp add: turns_ok_def w_turn_def r_turn_def)
    show "segs_ok 0 ?st" using inv(2) assms(2) pc wr by (auto simp: segs_ok_def)
    show "data_ok input 0 ?st" using inv(4) assms(2) pc wr by (simp add: data_ok_def on_the_way_def)
    show "counts_ok input ?st" unfolding counts_ok_def
    proof
      show "w_counts input ?st" using inv(3) assms(2) by (simp add: counts_ok_def w_counts_def held_len_def)
      show "r_counts ?st" by (rule r_counts_cong [of st]) (use inv(3) pc in \<open>simp_all add: counts_ok_def\<close>)
    qed
  qed
  ultimately show ?thesis using set(2) by (intro exI [of _ ?st1]) simp
qed

lemma running_reserve_write:
  assumes "running ftok input st" and "w_pc st = W_Reserve"
  shows "(\<exists>st1. reserveWrite (w_sem st) st = Returns 0 st1 \<and> running ftok input (st1\<lparr>w_pc := W_Read\<rparr>)) \<or> reserveWrite (w_sem st) st = Sleeps"
proof -
  obtain w r where inv: "turns_ok ftok w r st" "segs_ok r st" "counts_ok input st" "data_ok input r st"
    by (rule runningD [OF assms(1)])
  have set: "sem_sets st (w_sem st) = Some [w, r]" using inv(1) by (simp add: turns_ok_def)
  show ?thesis
  proof (cases "1 \<le> w")
    case True
    have wr: "w = 1" "r = 0" "\<not> r_turn st" using turn_cases(3) [OF inv(1) True] by auto
    then have pc: "r_pc st \<noteq> R_Look" "r_pc st \<noteq> R_Write" "r_pc st \<noteq> R_Release" by (auto simp: r_turn_def)
    let ?st1 = "st\<lparr>sem_sets := (sem_sets st)(w_sem st := Some [0, 0])\<rparr>"
    let ?st = "?st1\<lparr>w_pc := W_Read\<rparr>"
    have "running ftok input ?st"
    proof (rule runningI [of _ 0 0])
      show "turns_ok ftok 0 0 ?st" using inv(1) assms(2) pc by (simp add: turns_ok_def w_turn_def r_turn_def)
      show "segs_ok 0 ?st" using inv(2) assms(2) pc wr by (auto simp: segs_ok_def)
      show "data_ok input 0 ?st" using inv(4) assms(2) pc wr by (simp add: data_ok_def on_the_way_def)
      show "counts_ok input ?st" unfolding counts_ok_def
      proof
        show "w_counts input ?st" using inv(3) assms(2) by (simp add: counts_ok_def w_counts_def held_len_def)
        show "r_counts ?st" by (rule r_counts_cong [of st]) (use inv(3) pc in \<open>simp_all add: counts_ok_def\<close>)
      qed
    qed
    then show ?thesis using sem_values(1) [OF set] wr by simp
  qed (simp add: sem_values(1) [OF set])
qed

lemma running_release_read:
  assumes "running ftok input st" and "w_pc st = W_Release" and "int (length input) \<le> INT_MAX"
  shows "c_add (w_transfers st) 1 = Inr (w_transfers st + 1) \<and> (\<exists>st1. releaseRead (w_sem st) st = Returns 0 st1 \<and> w_exit st1 = w_exit st \<and>
    running ftok input (st1\<lparr>w_pc := W_Reserve, w_transfers := w_transfers st + 1\<rparr>))"
proof -
  obtain w r where inv: "turns_ok ftok w r st" "segs_ok r st" "counts_ok input st" "data_ok input r st"
    by (rule runningD [OF assms(1)])
  have wr: "w = 0" "r = 0" "\<not> r_turn st" using turn_cases(1) [OF inv(1)] assms(2) by (simp_all add: w_turn_def)
  then have pc: "r_pc st \<noteq> R_Look" "r_pc st \<noteq> R_Write" "r_pc st \<noteq> R_Release" by (auto simp: r_turn_def)
  have set: "sem_sets st (w_sem st) = Some [0, 0]" using inv(1) wr by (simp add: turns_ok_def)
  have tot: "0 \<le> w_transfers st" "w_transfers st + 1 \<le> w_total st" "w_total st = int (length input) - int (length (x_in st))"
    using inv(3) assms(2) by (simp_all add: counts_ok_def w_counts_def held_len_def)
  let ?st1 = "st\<lparr>sem_sets := (sem_sets st)(w_sem st := Some [0, 1])\<rparr>"
  let ?st = "?st1\<lparr>w_pc := W_Reserve, w_transfers := w_transfers st + 1\<rparr>"
  have "running ftok input ?st"
  proof (rule runningI [of _ 0 1])
    show "turns_ok ftok 0 1 ?st" using inv(1) assms(2) pc by (simp add: turns_ok_def w_turn_def r_turn_def)
    show "segs_ok 1 ?st" using inv(2) assms(2) pc wr by (auto simp: segs_ok_def)
    show "data_ok input 1 ?st" using inv(2, 4) assms(2) pc wr by (auto simp: data_ok_def on_the_way_def segs_ok_def)
    show "counts_ok input ?st" unfolding counts_ok_def
    proof
      show "w_counts input ?st" using tot by (simp add: w_counts_def held_len_def)
      show "r_counts ?st" by (rule r_counts_cong [of st]) (use inv(3) pc in \<open>simp_all add: counts_ok_def\<close>)
    qed
  qed
  moreover have "c_add (w_transfers st) 1 = Inr (w_transfers st + 1)" using tot assms(3) by (intro c_add_ok) (auto simp: INT_MIN_def)
  ultimately show ?thesis using sem_values(4) [OF set] SEMVMX_two by simp
qed

lemma running_last:
  assumes "running ftok input st" and "w_pc st = W_Last"
  shows "reserveWrite (w_sem st) st = Sleeps"
proof -
  obtain w r where inv: "turns_ok ftok w r st" by (rule runningD [OF assms(1)])
  have "w = 0" using turn_cases(1) [OF inv] assms(2) by (simp add: w_turn_def)
  then show ?thesis using inv sem_values(1) [of st "w_sem st" w r] by (simp add: turns_ok_def)
qed

lemma running_writer:
  assumes "running ftok input st" and "int (length input) \<le> INT_MAX" and "writer_step ftok got st = Some st'"
  shows "running ftok input st'"
proof -
  have alive: "w_exit st = None" using assms(3) by (auto simp: writer_step_def split: if_splits)
  have fails: "running ftok input (w_fails st)" by (rule w_fails_running [OF assms(1)])
  have pc: "w_pc st \<notin> {W_Begin, W_Sems, W_Remove, W_Done}" using assms(1) by (auto simp: running_def turns_ok_def)
  show ?thesis
  proof (cases "w_pc st")
    case W_Init
    then show ?thesis using running_init [OF assms(1) W_Init] assms(3) alive fails
      by (auto simp: writer_step_def writer_setup_def split: if_splits)
  next
    case W_Reserve
    then show ?thesis using running_reserve_write [OF assms(1) W_Reserve] assms(3) alive fails by (auto simp: writer_step_def w_call_def split: if_splits)
  next
    case W_Read
    show ?thesis
    proof (cases "got = - 1")
      case True
      have "running ftok input (st\<lparr>w_seg := (w_seg st)\<lparr>seg_len := - 1\<rparr>\<rparr>)"
      proof -
        obtain w r where inv: "turns_ok ftok w r st" "segs_ok r st" "counts_ok input st" "data_ok input r st"
          by (rule runningD [OF assms(1)])
        show ?thesis
        proof (rule runningI [of _ w r])
          have "r_counts (st\<lparr>w_seg := (w_seg st)\<lparr>seg_len := - 1\<rparr>\<rparr>)"
            by (rule r_counts_cong [of st]) (use inv(3) in \<open>simp_all add: counts_ok_def\<close>)
          then show "counts_ok input (st\<lparr>w_seg := (w_seg st)\<lparr>seg_len := - 1\<rparr>\<rparr>)"
            using inv(3) W_Read by (auto simp: counts_ok_def w_counts_def held_len_def)
        qed (use inv W_Read in \<open>simp_all add: turns_ok_def w_turn_def r_turn_def segs_ok_def data_ok_def on_the_way_def\<close>)
      qed
      then show ?thesis using True W_Read assms(3) alive w_fails_running by (auto simp: writer_step_def)
    next
      case False
      then show ?thesis using W_Read assms(3) alive running_read [OF assms(1) W_Read] by (auto simp: writer_step_def split: if_splits)
    qed
  next
    case W_Copy
    then show ?thesis using running_copy [OF assms(1) W_Copy] assms(3) alive by (auto simp: writer_step_def)
  next
    case W_Rest
    note rest = running_rest [OF assms(1) W_Rest assms(2) refl]
    show ?thesis using rest w_fails_running [OF rest(1)] assms(3) alive W_Rest by (auto simp: writer_step_def Let_def split: if_splits)
  next
    case W_Release
    then show ?thesis using running_release_read [OF assms(1) W_Release assms(2)] assms(3) alive fails
      by (auto simp: writer_step_def w_call_def w_fails_def split: if_splits)
  next
    case W_Last
    then show ?thesis using running_last [OF assms(1) W_Last] assms(3) alive fails by (auto simp: writer_step_def w_call_def split: if_splits)
  qed (use pc in simp_all)
qed

lemma counts_by_reader:
  assumes "counts_ok input st" and "r_counts t" and "w_pc t = w_pc st" "w_total t = w_total st" "x_in t = x_in st" "w_transfers t = w_transfers st"
    and "w_seg t = w_seg st"
  shows "counts_ok input t"
  using w_counts_cong [of input st t] assms by (simp add: counts_ok_def)

lemma w_turn_reader [simp]:
  "w_turn (st\<lparr>r_exit := e\<rparr>) = w_turn st" "w_turn (st\<lparr>r_pc := p\<rparr>) = w_turn st" "w_turn (st\<lparr>r_sem := i\<rparr>) = w_turn st"
  "w_turn (st\<lparr>r_transfers := n\<rparr>) = w_turn st" "w_turn (st\<lparr>r_total := n\<rparr>) = w_turn st" "w_turn (st\<lparr>x_out := cs\<rparr>) = w_turn st"
  "w_turn (st\<lparr>sem_sets := f\<rparr>) = w_turn st"
  by (simp_all add: w_turn_def)

lemma r_exit_same [simp]:
  "r_turn (st\<lparr>r_exit := e\<rparr>) = r_turn st" "segs_ok r (st\<lparr>r_exit := e\<rparr>) = segs_ok r st"
  by (simp_all add: r_turn_def segs_ok_def)

lemma r_exit_turns [simp]: "turns_ok ftok w r (st\<lparr>r_exit := e\<rparr>) = turns_ok ftok w r st"
  by (simp add: turns_ok_def)

lemma r_exit_running:
  assumes "running ftok input st" and "r_exit st = None"
  shows "running ftok input (st\<lparr>r_exit := Some e\<rparr>)"
proof -
  obtain w r where inv: "turns_ok ftok w r st" "segs_ok r st" "counts_ok input st" "data_ok input r st"
    by (rule runningD [OF assms(1)])
  have "input = x_out st @ on_the_way r st @ x_in st" using inv(4) assms(2) by (simp add: data_ok_def)
  moreover have "on_the_way r (st\<lparr>r_exit := Some e\<rparr>) = on_the_way r st" by (simp add: on_the_way_def)
  ultimately have "data_ok input r (st\<lparr>r_exit := Some e\<rparr>)" by (simp add: data_ok_def)
  moreover have "r_counts (st\<lparr>r_exit := Some e\<rparr>)" using inv(3) by (simp add: counts_ok_def r_counts_def)
  then have "counts_ok input (st\<lparr>r_exit := Some e\<rparr>)" by (rule counts_by_reader [OF inv(3)]) simp_all
  ultimately show ?thesis using inv(1, 2) by (intro runningI [of _ w r]) simp_all
qed

lemma segs_ok_reader:
  assumes "segs_ok r st" and "w_pc t = w_pc st" "w_seg t = w_seg st" "x_in t = x_in st" "x_map t = x_map st" and "r_pc t \<notin> {R_Look, R_Write}"
  shows "segs_ok r t"
  using assms(1, 6) unfolding segs_ok_def assms(2-5) by blast

lemma running_reader_setup:
  assumes "running ftok input st" and "r_pc st \<in> {R_Begin, R_Sems}" and "ftok SEM_KEY \<noteq> IPC_PRIVATE" and "r_exit st = None"
    and "reader_setup ftok got st = Some st'"
  shows "running ftok input st'"
proof -
  obtain w r where inv: "turns_ok ftok w r st" "segs_ok r st" "counts_ok input st" "data_ok input r st"
    by (rule runningD [OF assms(1)])
  have fails: "running ftok input (r_fails st)" unfolding r_fails_def by (rule r_exit_running [OF assms(1, 4)])
  have out: "x_out st = []" using inv(3) assms(2) by (auto simp: counts_ok_def r_counts_def)
  let ?st1 = "st\<lparr>r_pc := R_Sems\<rparr>"
  let ?st2 = "st\<lparr>r_sem := w_sem st, r_transfers := 0, r_total := 0, r_pc := R_Reserve\<rparr>"
  have 1: "running ftok input ?st1"
  proof (rule runningI [of _ w r])
    show "turns_ok ftok w r ?st1" using inv(1) assms(2) by (auto simp: turns_ok_def r_turn_def)
    show "segs_ok r ?st1" by (rule segs_ok_reader [OF inv(2)]) simp_all
    show "data_ok input r ?st1" using inv(4) assms(2) by (auto simp: data_ok_def on_the_way_def)
    have "r_counts ?st1" using out by (simp add: r_counts_def)
    then show "counts_ok input ?st1" by (rule counts_by_reader [OF inv(3)]) simp_all
  qed
  have 2: "running ftok input ?st2"
  proof (rule runningI [of _ w r])
    show "turns_ok ftok w r ?st2" using inv(1) assms(2) by (auto simp: turns_ok_def r_turn_def)
    show "segs_ok r ?st2" by (rule segs_ok_reader [OF inv(2)]) simp_all
    show "data_ok input r ?st2" using inv(4) assms(2) by (auto simp: data_ok_def on_the_way_def)
    have "r_counts ?st2" using out by (simp add: r_counts_def shown_len_def)
    then show "counts_ok input ?st2" by (rule counts_by_reader [OF inv(3)]) simp_all
  qed
  have "semget (sem_token ftok st) 2 0 st = (w_sem st, st)" "w_sem st \<noteq> - 1"
    using inv(1) assms(3) by (auto simp: turns_ok_def sem_token_def semget_def)
  then show ?thesis using assms(2, 5) fails 1 2 by (auto simp: reader_setup_def split: if_splits)
qed

lemma running_reserve_read:
  assumes "running ftok input st" and "r_pc st = R_Reserve" and "r_exit st = None"
  shows "(\<exists>st1. reserveRead (r_sem st) st = Returns 0 st1 \<and> running ftok input (st1\<lparr>r_pc := R_Look\<rparr>)) \<or> reserveRead (r_sem st) st = Sleeps"
proof -
  obtain w r where inv: "turns_ok ftok w r st" "segs_ok r st" "counts_ok input st" "data_ok input r st"
    by (rule runningD [OF assms(1)])
  have set: "sem_sets st (r_sem st) = Some [w, r]" "r_sem st = w_sem st" using inv(1) assms(2) by (simp_all add: turns_ok_def)
  show ?thesis
  proof (cases "1 \<le> r")
    case True
    have wr: "w = 0" "r = 1" "\<not> w_turn st" using turn_cases(4) [OF inv(1) True] by auto
    then have pc: "w_pc st \<notin> {W_Init, W_Read, W_Copy, W_Rest, W_Release, W_Last}" by (auto simp: w_turn_def)
    let ?st1 = "st\<lparr>sem_sets := (sem_sets st)(r_sem st := Some [0, 0])\<rparr>"
    let ?st = "?st1\<lparr>r_pc := R_Look\<rparr>"
    have "running ftok input ?st"
    proof (rule runningI [of _ 0 0])
      show "turns_ok ftok 0 0 ?st" using inv(1) assms(2) wr set(2) by (auto simp: turns_ok_def r_turn_def)
      show "segs_ok 0 ?st" using inv(2) pc wr by (auto simp: segs_ok_def)
      show "data_ok input 0 ?st" using inv(4) assms(2) pc wr by (simp add: data_ok_def on_the_way_def)
      have "r_counts ?st" using inv(3) assms(2) by (auto simp: counts_ok_def r_counts_def shown_len_def)
      then show "counts_ok input ?st" by (rule counts_by_reader [OF inv(3)]) simp_all
    qed
    then show ?thesis using sem_values(2) [OF set(1)] wr by simp
  qed (simp add: sem_values(2) [OF set(1)])
qed

lemma running_look:
  assumes "running ftok input st" and "r_pc st = R_Look" and "r_exit st = None" and "int (length input) \<le> INT_MAX"
  shows "\<exists>m. x_map st = Some m \<and> seg_len m \<noteq> 0 \<and> c_add (r_total st) (seg_len m) = Inr (r_total st + seg_len m) \<and>
    running ftok input (st\<lparr>r_total := r_total st + seg_len m, r_pc := R_Write\<rparr>)"
proof -
  obtain w r where inv: "turns_ok ftok w r st" "segs_ok r st" "counts_ok input st" "data_ok input r st"
    by (rule runningD [OF assms(1)])
  have wr: "w = 0" "r = 0" "\<not> w_turn st" using turn_cases(2) [OF inv(1)] assms(2) by (simp_all add: r_turn_def)
  then have pc: "w_pc st \<notin> {W_Init, W_Read, W_Copy, W_Rest, W_Release, W_Last}" by (auto simp: w_turn_def)
  obtain m where m: "x_map st = Some m" "seg_ok m" using inv(2) assms(2) by (auto simp: segs_ok_def)
  let ?d = "take (nat (seg_len m)) (seg_buf m)"
  have "input = x_out st @ ?d @ x_in st" using inv(4) assms(2, 3) pc m(1) by (simp add: data_ok_def on_the_way_def)
  then have "length input = length (x_out st) + length ?d + length (x_in st)" by simp
  moreover have "int (length ?d) = seg_len m" using m(2) by (auto simp: seg_ok_def)
  ultimately have len: "int (length (x_out st)) + seg_len m \<le> INT_MAX" using assms(4) by linarith
  have tot: "r_total st = int (length (x_out st))" "0 \<le> r_transfers st" "r_transfers st \<le> r_total st"
    using inv(3) assms(2, 3) by (simp_all add: counts_ok_def r_counts_def shown_len_def)
  let ?st = "st\<lparr>r_total := r_total st + seg_len m, r_pc := R_Write\<rparr>"
  have "running ftok input ?st"
  proof (rule runningI [of _ w r])
    show "turns_ok ftok w r ?st" using inv(1) assms(2) by (auto simp: turns_ok_def r_turn_def)
    show "segs_ok r ?st" using inv(2) assms(2) pc by (auto simp: segs_ok_def)
    show "data_ok input r ?st" using inv(4) assms(2, 3) pc by (simp add: data_ok_def on_the_way_def)
    have "r_counts ?st" using tot m by (simp add: r_counts_def shown_len_def seg_ok_def)
    then show "counts_ok input ?st" by (rule counts_by_reader [OF inv(3)]) simp_all
  qed
  moreover have "c_add (r_total st) (seg_len m) = Inr (r_total st + seg_len m)"
    using tot len m(2) by (intro c_add_ok) (auto simp: seg_ok_def INT_MIN_def)
  ultimately show ?thesis using m by (auto simp: seg_ok_def)
qed

lemma running_write:
  assumes "running ftok input st" and "r_pc st = R_Write" and "r_exit st = None"
  shows "\<exists>m. x_map st = Some m \<and> (\<forall>got. got \<le> seg_len m \<longrightarrow> (let st1 = st\<lparr>x_out := x_out st @ take (nat got) (seg_buf m)\<rparr> in
    running ftok input (r_fails st1) \<and> (got = seg_len m \<longrightarrow> running ftok input (st1\<lparr>r_pc := R_Release\<rparr>))))"
proof -
  obtain w r where inv: "turns_ok ftok w r st" "segs_ok r st" "counts_ok input st" "data_ok input r st"
    by (rule runningD [OF assms(1)])
  have wr: "w = 0" "r = 0" "\<not> w_turn st" using turn_cases(2) [OF inv(1)] assms(2) by (simp_all add: r_turn_def)
  then have pc: "w_pc st \<notin> {W_Init, W_Read, W_Copy, W_Rest, W_Release, W_Last}" by (auto simp: w_turn_def)
  obtain m where m: "x_map st = Some m" "seg_ok m" using inv(2) assms(2) by (auto simp: segs_ok_def)
  let ?d = "take (nat (seg_len m)) (seg_buf m)"
  have data: "input = x_out st @ ?d @ x_in st" using inv(4) assms(2, 3) pc m(1) by (simp add: data_ok_def on_the_way_def)
  have len: "int (length ?d) = seg_len m" using m(2) by (auto simp: seg_ok_def)
  have tot: "r_total st = int (length (x_out st)) + seg_len m" "0 \<le> r_transfers st" "r_transfers st + 1 \<le> r_total st"
    using inv(3) assms(2, 3) m(1) by (simp_all add: counts_ok_def r_counts_def shown_len_def)
  have "running ftok input (r_fails (st\<lparr>x_out := x_out st @ take (nat got) (seg_buf m)\<rparr>))" if g: "got \<le> seg_len m" for got
  proof (rule runningI [of _ w r])
    let ?st = "r_fails (st\<lparr>x_out := x_out st @ take (nat got) (seg_buf m)\<rparr>)"
    show "turns_ok ftok w r ?st" using inv(1) by (simp add: r_fails_def turns_ok_def r_turn_def)
    show "segs_ok r ?st" using inv(2) by (simp add: r_fails_def segs_ok_def)
    have "?d = take (nat got) (seg_buf m) @ take (nat (seg_len m) - nat got) (drop (nat got) (seg_buf m))"
      using g by (metis le_add_diff_inverse nat_mono take_add)
    then show "data_ok input r ?st" using data assms(2) by (simp add: data_ok_def r_fails_def)
    have "r_counts ?st" using assms(2) by (simp add: r_counts_def r_fails_def)
    then show "counts_ok input ?st" by (rule counts_by_reader [OF inv(3)]) (simp_all add: r_fails_def)
  qed
  moreover have "running ftok input (st\<lparr>x_out := x_out st @ ?d, r_pc := R_Release\<rparr>)"
  proof (rule runningI [of _ w r])
    let ?st = "st\<lparr>x_out := x_out st @ ?d, r_pc := R_Release\<rparr>"
    show "turns_ok ftok w r ?st" using inv(1) assms(2) by (simp add: turns_ok_def r_turn_def)
    show "segs_ok r ?st" using inv(2) assms(2) pc by (auto simp: segs_ok_def)
    show "data_ok input r ?st" using data pc wr by (simp add: data_ok_def on_the_way_def)
    have "r_counts ?st" using tot len by (simp add: r_counts_def shown_len_def)
    then show "counts_ok input ?st" by (rule counts_by_reader [OF inv(3)]) simp_all
  qed
  ultimately show ?thesis using m(1) by (auto simp: Let_def)
qed

lemma running_release_write:
  assumes "running ftok input st" and "r_pc st = R_Release" and "r_exit st = None" and "int (length input) \<le> INT_MAX"
  shows "c_add (r_transfers st) 1 = Inr (r_transfers st + 1) \<and> (\<exists>st1. releaseWrite (r_sem st) st = Returns 0 st1 \<and> r_exit st1 = r_exit st \<and>
    running ftok input (st1\<lparr>r_pc := R_Reserve, r_transfers := r_transfers st + 1\<rparr>))"
proof -
  obtain w r where inv: "turns_ok ftok w r st" "segs_ok r st" "counts_ok input st" "data_ok input r st"
    by (rule runningD [OF assms(1)])
  have wr: "w = 0" "r = 0" "\<not> w_turn st" using turn_cases(2) [OF inv(1)] assms(2) by (simp_all add: r_turn_def)
  then have pc: "w_pc st \<notin> {W_Init, W_Read, W_Copy, W_Rest, W_Release, W_Last}" by (auto simp: w_turn_def)
  have set: "sem_sets st (r_sem st) = Some [0, 0]" "r_sem st = w_sem st" using inv(1) wr assms(2) by (simp_all add: turns_ok_def)
  have data: "input = x_out st @ x_in st" using inv(4) assms(2) pc wr by (simp add: data_ok_def on_the_way_def)
  have tot: "0 \<le> r_transfers st" "r_transfers st + 1 \<le> r_total st" "r_total st = int (length (x_out st))"
    using inv(3) assms(2, 3) by (simp_all add: counts_ok_def r_counts_def shown_len_def)
  let ?st1 = "st\<lparr>sem_sets := (sem_sets st)(r_sem st := Some [1, 0])\<rparr>"
  let ?st = "?st1\<lparr>r_pc := R_Reserve, r_transfers := r_transfers st + 1\<rparr>"
  have "running ftok input ?st"
  proof (rule runningI [of _ 1 0])
    show "turns_ok ftok 1 0 ?st" using inv(1) assms(2) wr set(2) by (simp add: turns_ok_def r_turn_def)
    show "segs_ok 0 ?st" using inv(2) pc wr by (auto simp: segs_ok_def)
    show "data_ok input 0 ?st" using data pc by (simp add: data_ok_def on_the_way_def)
    have "r_counts ?st" using tot by (simp add: r_counts_def shown_len_def)
    then show "counts_ok input ?st" by (rule counts_by_reader [OF inv(3)]) simp_all
  qed
  moreover have "length input = length (x_out st) + length (x_in st)" using data by simp
  then have "c_add (r_transfers st) 1 = Inr (r_transfers st + 1)" using tot assms(4) by (intro c_add_ok) (auto simp: INT_MIN_def)
  ultimately show ?thesis using sem_values(3) [OF set(1)] SEMVMX_two by simp
qed

lemma running_reader:
  assumes "running ftok input st" and "int (length input) \<le> INT_MAX" and "ftok SEM_KEY \<noteq> IPC_PRIVATE" and "reader_step ftok got st = Some st'"
  shows "running ftok input st'"
proof -
  have alive: "r_exit st = None" using assms(4) by (auto simp: reader_step_def split: if_splits)
  have fails: "running ftok input (r_fails st)" unfolding r_fails_def by (rule r_exit_running [OF assms(1) alive])
  have pc: "r_pc st \<notin> {R_Last, R_Done}" using assms(1) by (auto simp: running_def turns_ok_def)
  show ?thesis
  proof (cases "r_pc st")
    case R_Begin
    then show ?thesis using running_reader_setup [OF assms(1) _ assms(3) alive] assms(4) alive by (simp add: reader_step_def)
  next
    case R_Sems
    then show ?thesis using running_reader_setup [OF assms(1) _ assms(3) alive] assms(4) alive by (simp add: reader_step_def)
  next
    case R_Reserve
    then show ?thesis using running_reserve_read [OF assms(1) R_Reserve alive] assms(4) alive fails by (auto simp: reader_step_def r_call_def split: if_splits)
  next
    case R_Look
    then show ?thesis using running_look [OF assms(1) R_Look alive assms(2)] assms(4) alive by (auto simp: reader_step_def)
  next
    case R_Write
    obtain m where "x_map st = Some m" "\<forall>got. got \<le> seg_len m \<longrightarrow> (let st1 = st\<lparr>x_out := x_out st @ take (nat got) (seg_buf m)\<rparr> in
        running ftok input (r_fails st1) \<and> (got = seg_len m \<longrightarrow> running ftok input (st1\<lparr>r_pc := R_Release\<rparr>)))"
      using running_write [OF assms(1) R_Write alive] by blast
    then show ?thesis using assms(4) alive R_Write by (auto simp: reader_step_def Let_def split: if_splits)
  next
    case R_Release
    then show ?thesis using running_release_write [OF assms(1) R_Release alive assms(2)] assms(4) alive fails
      by (auto simp: reader_step_def r_call_def r_fails_def split: if_splits)
  qed (use pc in simp_all)
qed

lemma mmap_step_inv: "mmap_step ftok st st' \<Longrightarrow> mmap_inv ftok input st \<Longrightarrow> mmap_inv ftok input st'"
proof (induction rule: mmap_step.induct)
  case (by_writer got st st')
  then show ?case unfolding mmap_inv_def using starting_writer running_writer by blast
next
  case (by_reader got st st')
  then show ?case unfolding mmap_inv_def using starting_reader running_reader by blast
qed

lemma mmap_run_inv:
  assumes "fresh_start ftok input st0" and "mmap_run ftok st0 st"
  shows "mmap_inv ftok input st"
  using assms(2) unfolding mmap_run_def
proof (induction rule: rtranclp_induct)
  case base
  then show ?case using assms(1) by (auto simp: fresh_start_def mmap_inv_def starting_def)
qed (rule mmap_step_inv)

section \<open>Every run ends\<close>

definition w_weight :: "xfer \<Rightarrow> nat" where
  "w_weight st = (case w_pc st of W_Begin \<Rightarrow> 14 | W_Sems \<Rightarrow> 13 | W_Init \<Rightarrow> 12 | W_Reserve \<Rightarrow> 11 | W_Read \<Rightarrow> 10
     | W_Copy \<Rightarrow> if seg_len (w_seg st) = 0 then 9 else 20 | W_Rest \<Rightarrow> if seg_len (w_seg st) = 0 then 8 else 19
     | W_Release \<Rightarrow> 18 | W_Last \<Rightarrow> 7 | W_Remove \<Rightarrow> 6 | W_Done \<Rightarrow> 5)"

definition r_weight :: "xfer \<Rightarrow> nat" where
  "r_weight st = of_bool (r_exit st = None) + (case r_pc st of R_Begin \<Rightarrow> 3 | R_Sems \<Rightarrow> 2 | R_Reserve \<Rightarrow> 1 | R_Look \<Rightarrow> 4 | R_Write \<Rightarrow> 3
     | R_Release \<Rightarrow> 2 | R_Last \<Rightarrow> 1 | R_Done \<Rightarrow> 0)"

text \<open>The value of the reader's semaphore, once there is one.\<close>

definition read_value :: "xfer \<Rightarrow> nat" where
  "read_value st = (if w_pc st \<in> {W_Begin, W_Sems} then 0
     else case sem_sets st (w_sem st) of Some vals \<Rightarrow> if length vals = 2 then nat (vals ! 1) else 0 | None \<Rightarrow> 0)"

definition mmap_weight :: "xfer \<Rightarrow> nat" where
  "mmap_weight st = 20 * length (x_in st) + w_weight st + 5 * read_value st + r_weight st"

lemma read_value_running: "turns_ok ftok w r st \<Longrightarrow> read_value st = nat r"
  by (auto simp: turns_ok_def read_value_def)

definition calm :: "xfer \<Rightarrow> xfer \<Rightarrow> bool" where
  "calm st st' \<longleftrightarrow> x_works st' = x_works st \<and> w_exit st' = None \<and> r_exit st' \<noteq> Some (Inr 0) \<and> mmap_weight st' < mmap_weight st"

lemma weight_same [simp]:
  "w_weight (st\<lparr>r_pc := a\<rparr>) = w_weight st" "w_weight (st\<lparr>r_exit := b\<rparr>) = w_weight st" "read_value (st\<lparr>r_pc := a\<rparr>) = read_value st"
  "read_value (st\<lparr>r_exit := b\<rparr>) = read_value st" "r_weight (st\<lparr>w_pc := c\<rparr>) = r_weight st"
  by (simp_all add: w_weight_def r_weight_def read_value_def cong: wpc.case_cong option.case_cong)

lemma calm_reader_begin:
  assumes "reader_step ftok got st = Some st'" and "r_pc st = R_Begin" and "w_exit st = None"
  shows "calm st st'"
proof -
  have alive: "r_exit st = None" using assms(1) by (auto simp: reader_step_def split: if_splits)
  then have "st' = r_fails st \<or> st' = st\<lparr>r_pc := R_Sems\<rparr>"
    using assms(1, 2) by (auto simp: reader_step_def reader_setup_def split: if_splits)
  then show ?thesis
    using assms(2, 3) alive by (elim disjE) (simp_all add: calm_def r_fails_def mmap_weight_def r_weight_def)
qed

lemma calm_starting_writer:
  assumes "starting ftok input st" and "ftok SEM_KEY \<noteq> IPC_PRIVATE" and "writer_step ftok got st = Some st'" and "got \<noteq> - 1"
    and "r_exit st \<noteq> Some (Inr 0)"
  shows "calm st st'"
proof -
  have alive: "w_exit st = None" using assms(3) by (auto simp: writer_step_def split: if_splits)
  show ?thesis
  proof (cases "w_pc st")
    case W_Begin
    then show ?thesis using assms alive by (auto simp: calm_def writer_step_def writer_setup_def mmap_weight_def w_weight_def read_value_def r_weight_def)
  next
    case W_Sems
    have flags: "IPC_CREAT OR IPC_EXCL OR 384 = 1920" by (simp add: IPC_CREAT_def IPC_EXCL_def)
    have "sem_token ftok st = ftok SEM_KEY" using assms(1) W_Sems by (simp add: starting_def sem_token_def)
    then have "getSemaphoreSet_get ftok st = (sem_next st, st\<lparr>sem_sets := (sem_sets st)(sem_next st := Some [0, 0]), sem_next := sem_next st + 1,
        sem_keys := (sem_keys st)(ftok SEM_KEY := Some (sem_next st))\<rparr>)"
      using assms(1, 2) unfolding getSemaphoreSet_get_def flags
      by (auto simp: starting_def semget_def semget_new_def IPC_CREAT_def numeral_2_eq_2)
    then have "st' = st\<lparr>sem_sets := (sem_sets st)(sem_next st := Some [0, 0]), sem_next := sem_next st + 1,
        sem_keys := (sem_keys st)(ftok SEM_KEY := Some (sem_next st)), w_sem := sem_next st, w_pc := W_Init\<rparr>"
      using assms(1, 3, 4) W_Sems alive by (auto simp: starting_def writer_step_def writer_setup_def)
    then show ?thesis using W_Sems alive assms(5) by (simp add: calm_def mmap_weight_def w_weight_def read_value_def r_weight_def)
  qed (use assms(1) in \<open>auto simp: starting_def\<close>)
qed

lemma calm_starting_reader:
  assumes "starting ftok input st" and "ftok SEM_KEY \<noteq> IPC_PRIVATE" and "reader_step ftok got st = Some st'" and "w_exit st = None"
  shows "calm st st'"
proof -
  have alive: "r_exit st = None" using assms(3) by (auto simp: reader_step_def split: if_splits)
  show ?thesis
  proof (cases "r_pc st")
    case R_Begin
    show ?thesis by (rule calm_reader_begin [OF assms(3) R_Begin assms(4)])
  next
    case R_Sems
    have "sem_token ftok st = ftok SEM_KEY" using assms(1) R_Sems by (simp add: starting_def sem_token_def)
    then have "semget (sem_token ftok st) 2 0 st = (- 1, st)" using assms(1, 2) by (simp add: starting_def semget_def)
    then have "st' = r_fails st" using assms(3) alive R_Sems by (simp add: reader_step_def reader_setup_def)
    then show ?thesis using assms(4) alive R_Sems by (simp add: calm_def r_fails_def mmap_weight_def r_weight_def)
  qed (use assms(1) in \<open>auto simp: starting_def\<close>)
qed

lemmas weight_defs = calm_def mmap_weight_def w_weight_def r_weight_def

lemma calm_running_writer:
  assumes "running ftok input st" and "int (length input) \<le> INT_MAX" and "writer_step ftok got st = Some st'" and "got \<noteq> - 1"
    and "r_exit st \<noteq> Some (Inr 0)"
  shows "calm st st'"
proof -
  have alive: "w_exit st = None" using assms(3) by (auto simp: writer_step_def split: if_splits)
  obtain w r where inv: "turns_ok ftok w r st" by (rule runningD [OF assms(1)])
  have set: "sem_sets st (w_sem st) = Some [w, r]" "0 \<le> r" using inv by (simp_all add: turns_ok_def)
  note rv = read_value_running [OF inv]
  have pc: "w_pc st \<notin> {W_Begin, W_Sems, W_Remove, W_Done}" using inv by (auto simp: turns_ok_def)
  show ?thesis
  proof (cases "w_pc st")
    case W_Init
    have "w = 0" "r = 0" using turn_cases(1) [OF inv] W_Init by (simp_all add: w_turn_def)
    then have "getSemaphoreSet_init (w_sem st) st = (w_sem st, st\<lparr>sem_sets := (sem_sets st)(w_sem st := Some [1, 0])\<rparr>)"
      using set inv by (simp add: turns_ok_def getSemaphoreSet_init_def semctl_setall_def ini_sems_def SEMVMX_def)
    then have "st' = st\<lparr>sem_sets := (sem_sets st)(w_sem st := Some [1, 0]), w_transfers := 0, w_total := 0, w_pc := W_Reserve\<rparr>"
      using assms(3, 4) alive W_Init inv by (auto simp: turns_ok_def writer_step_def writer_setup_def)
    then show ?thesis using assms(5) alive W_Init \<open>r = 0\<close> rv by (simp add: weight_defs read_value_def)
  next
    case W_Reserve
    then show ?thesis using assms(3-5) alive rv set
      by (auto simp: writer_step_def w_call_def sem_values weight_defs read_value_def split: if_splits)
  next
    case W_Read
    then have "read_chunk got (x_in st)" "st' = st\<lparr>w_seg := \<lparr>seg_len = got, seg_buf = take (nat got) (x_in st) @ drop (nat got) (seg_buf (w_seg st))\<rparr>,
        x_in := drop (nat got) (x_in st), w_pc := W_Copy\<rparr>"
      using assms(3, 4) alive by (auto simp: writer_step_def split: if_splits)
    then show ?thesis using W_Read alive assms(5) read_chunk_len [of got "x_in st"] by (auto simp: weight_defs read_value_def)
  next
    case W_Copy
    then have "st' = st\<lparr>x_map := map_option (\<lambda>m. m\<lparr>seg_len := seg_len (w_seg st)\<rparr>) (x_map st), w_pc := W_Rest\<rparr>"
      using assms(3) alive by (simp add: writer_step_def)
    then show ?thesis using W_Copy alive assms(5) by (simp add: weight_defs read_value_def)
  next
    case W_Rest
    note rest = running_rest(3) [OF assms(1) W_Rest assms(2) refl]
    let ?st1 = "st\<lparr>x_map := map_option (\<lambda>m. m\<lparr>seg_buf := seg_buf (w_seg st)\<rparr>) (x_map st)\<rparr>"
    have "seg_len (w_seg st) = 0 \<and> st' = ?st1\<lparr>w_pc := W_Last\<rparr> \<or>
        seg_len (w_seg st) \<noteq> 0 \<and> st' = ?st1\<lparr>w_total := w_total st + seg_len (w_seg st), w_pc := W_Release\<rparr>"
      using rest assms(3, 4) alive W_Rest by (auto simp: writer_step_def Let_def split: if_splits)
    then show ?thesis using alive assms(5) W_Rest by (elim disjE) (simp_all add: weight_defs read_value_def)
  next
    case W_Release
    have "w = 0" "r = 0" using turn_cases(1) [OF inv] W_Release by (simp_all add: w_turn_def)
    then have "releaseRead (w_sem st) st = Returns 0 (st\<lparr>sem_sets := (sem_sets st)(w_sem st := Some [0, 1])\<rparr>)"
      using sem_values(4) [OF set(1)] SEMVMX_two by simp
    moreover have "c_add (w_transfers st) 1 = Inr (w_transfers st + 1)" using running_release_read [OF assms(1) W_Release assms(2)] by blast
    ultimately show ?thesis using assms(3-5) alive W_Release rv \<open>r = 0\<close> by (auto simp: writer_step_def w_call_def weight_defs read_value_def)
  next
    case W_Last
    then show ?thesis using running_last [OF assms(1) W_Last] assms(3, 4) alive by (auto simp: writer_step_def w_call_def)
  qed (use pc in simp_all)
qed

lemma calm_running_reader:
  assumes "running ftok input st" and "int (length input) \<le> INT_MAX" and "ftok SEM_KEY \<noteq> IPC_PRIVATE" and "reader_step ftok got st = Some st'"
    and "if r_pc st = R_Write then full_write got st else got \<noteq> - 1" and "w_exit st = None"
  shows "calm st st'"
proof -
  have alive: "r_exit st = None" using assms(4) by (auto simp: reader_step_def split: if_splits)
  obtain w r where inv: "turns_ok ftok w r st" by (rule runningD [OF assms(1)])
  have set: "sem_sets st (w_sem st) = Some [w, r]" "0 \<le> r" "w_pc st \<notin> {W_Begin, W_Sems}" using inv by (simp_all add: turns_ok_def)
  note rv = read_value_running [OF inv]
  have pc: "r_pc st \<notin> {R_Last, R_Done}" using inv by (auto simp: turns_ok_def)
  show ?thesis
  proof (cases "r_pc st")
    case R_Begin
    show ?thesis by (rule calm_reader_begin [OF assms(4) R_Begin assms(6)])
  next
    case R_Sems
    have "semget (sem_token ftok st) 2 0 st = (w_sem st, st)" "w_sem st \<noteq> - 1"
      using inv assms(3) by (auto simp: turns_ok_def sem_token_def semget_def)
    then have "st' = st\<lparr>r_sem := w_sem st, r_transfers := 0, r_total := 0, r_pc := R_Reserve\<rparr>"
      using assms(4) alive R_Sems by (simp add: reader_step_def reader_setup_def)
    then show ?thesis using R_Sems alive assms(6) by (simp add: weight_defs read_value_def cong: wpc.case_cong option.case_cong)
  next
    case R_Reserve
    have "r_sem st = w_sem st" using inv R_Reserve by (simp add: turns_ok_def)
    then show ?thesis using R_Reserve assms(4-6) alive rv set
      by (auto simp: reader_step_def r_call_def sem_values weight_defs read_value_def split: if_splits)
  next
    case R_Look
    then obtain n where "st' = st\<lparr>r_total := n, r_pc := R_Write\<rparr>"
      using running_look [OF assms(1) R_Look alive assms(2)] assms(4) alive by (auto simp: reader_step_def)
    then show ?thesis using R_Look alive assms(6) by (simp add: weight_defs read_value_def cong: wpc.case_cong option.case_cong)
  next
    case R_Write
    obtain m where m: "x_map st = Some m" using running_write [OF assms(1) R_Write alive] by blast
    have "got = seg_len m" using assms(5) R_Write m by (simp add: full_write_def)
    then have "st' = st\<lparr>x_out := x_out st @ take (nat got) (seg_buf m), r_pc := R_Release\<rparr>"
      using assms(4) R_Write m alive by (auto simp: reader_step_def split: if_splits)
    then show ?thesis using R_Write alive assms(6) by (simp add: weight_defs read_value_def cong: wpc.case_cong option.case_cong)
  next
    case R_Release
    have "w = 0" "r = 0" "r_sem st = w_sem st" using turn_cases(2) [OF inv] R_Release inv by (simp_all add: r_turn_def turns_ok_def)
    then have "releaseWrite (r_sem st) st = Returns 0 (st\<lparr>sem_sets := (sem_sets st)(w_sem st := Some [1, 0])\<rparr>)"
      using sem_values(3) [OF set(1)] SEMVMX_two by simp
    moreover have "c_add (r_transfers st) 1 = Inr (r_transfers st + 1)" using running_release_write [OF assms(1) R_Release alive assms(2)] by blast
    ultimately have "st' = st\<lparr>sem_sets := (sem_sets st)(w_sem st := Some [1, 0]), r_pc := R_Reserve, r_transfers := r_transfers st + 1\<rparr>"
      using assms(4, 5) alive R_Release by (auto simp: reader_step_def r_call_def)
    then show ?thesis using R_Release alive assms(6) rv \<open>r = 0\<close> set(3) by (simp add: weight_defs read_value_def cong: wpc.case_cong)
  qed (use pc in simp_all)
qed

section \<open>A reader that is too early\<close>

text \<open>When no call fails on its own, the reader can only end before it has found the semaphores.\<close>

definition r_early :: "xfer \<Rightarrow> bool" where
  "r_early st \<longleftrightarrow> r_exit st = None \<or> r_exit st = Some (Inr 1) \<and> r_pc st \<in> {R_Begin, R_Sems}"

lemma sem_calls_keep_reader:
  "semop i sops st = Returns rc st' \<Longrightarrow> r_exit st' = r_exit st \<and> r_pc st' = r_pc st" for st :: xfer
  by (auto simp: semop_def split: option.splits sem_outcome.splits if_splits)

lemma w_call_keeps_reader:
  assumes "w_call got (semop i sops st) pc st = Some st'"
  shows "r_exit st' = r_exit st \<and> r_pc st' = r_pc st"
  using assms sem_calls_keep_reader [of i sops st]
  by (auto simp: w_call_def w_fails_def split: call.splits if_splits)

lemma setup_keeps_reader:
  assumes "writer_setup ftok got st = Some st'"
  shows "r_exit st' = r_exit st \<and> r_pc st' = r_pc st"
  using assms
  by (cases "w_pc st")
    (auto simp: writer_setup_def w_fails_def getSemaphoreSet_get_def getSemaphoreSet_init_def semctl_setall_def semget_def semget_new_def
      split: if_splits option.splits prod.splits)

lemma writer_keeps_reader:
  assumes "writer_step ftok got st = Some st'"
  shows "r_exit st' = r_exit st \<and> r_pc st' = r_pc st"
proof (cases "w_pc st \<in> {W_Begin, W_Sems, W_Init, W_Done}")
  case True
  then have "writer_setup ftok got st = Some st'" using assms by (auto simp: writer_step_def split: if_splits)
  then show ?thesis by (rule setup_keeps_reader)
next
  case False
  note step = assms [unfolded writer_step_def reserveWrite_def releaseRead_def Let_def]
  have alive: "w_exit st = None" using assms by (auto simp: writer_step_def split: if_splits)
  show ?thesis
  proof (cases "w_pc st")
    case W_Reserve
    then show ?thesis using step alive by (simp add: w_call_keeps_reader)
  next
    case W_Read
    then show ?thesis using step alive by (auto simp: w_fails_def split: if_splits)
  next
    case W_Copy
    then show ?thesis using step alive by auto
  next
    case W_Rest
    then show ?thesis using step alive by (auto simp: w_fails_def split: if_splits sum.splits)
  next
    case W_Release
    then show ?thesis using step alive by (auto split: sum.splits dest: w_call_keeps_reader)
  next
    case W_Last
    then show ?thesis using step alive by (simp add: w_call_keeps_reader)
  next
    case W_Remove
    then show ?thesis using step alive by (auto simp: w_fails_def semctl_rmid_def split: if_splits)
  qed (use False in simp_all)
qed

lemma reader_setup_early:
  assumes "reader_step ftok got st = Some st'" and "r_pc st \<in> {R_Begin, R_Sems}"
  shows "r_early st'"
proof -
  have alive: "r_exit st = None" using assms(1) by (auto simp: reader_step_def split: if_splits)
  then show ?thesis using assms
    by (auto simp: reader_step_def reader_setup_def r_early_def r_fails_def semget_def semget_new_def split: if_splits option.splits prod.splits)
qed

lemma reader_running_early:
  assumes "running ftok input st" and "int (length input) \<le> INT_MAX" and "reader_step ftok got st = Some st'"
    and "if r_pc st = R_Write then full_write got st else got \<noteq> - 1"
  shows "r_early st'"
proof -
  have alive: "r_exit st = None" using assms(3) by (auto simp: reader_step_def split: if_splits)
  obtain w r where inv: "turns_ok ftok w r st" by (rule runningD [OF assms(1)])
  have pc: "r_pc st \<notin> {R_Last, R_Done}" using inv by (auto simp: turns_ok_def)
  have same: "r_exit st1 = None" if "semop i sops st = Returns rc st1" for i sops rc st1
    using sem_calls_keep_reader [OF that] alive by simp
  show ?thesis
  proof (cases "r_pc st")
    case R_Begin
    then show ?thesis using reader_setup_early [OF assms(3)] by simp
  next
    case R_Sems
    then show ?thesis using reader_setup_early [OF assms(3)] by simp
  next
    case R_Reserve
    then show ?thesis using running_reserve_read [OF assms(1) R_Reserve alive] assms(3, 4) alive same
      by (auto simp: reader_step_def r_call_def r_early_def reserveRead_def)
  next
    case R_Look
    then show ?thesis using running_look [OF assms(1) R_Look alive assms(2)] assms(3) alive by (auto simp: reader_step_def r_early_def)
  next
    case R_Write
    obtain m where m: "x_map st = Some m" using running_write [OF assms(1) R_Write alive] by blast
    have "got = seg_len m" using assms(4) R_Write m by (simp add: full_write_def)
    then show ?thesis using assms(3) R_Write m alive by (auto simp: reader_step_def r_early_def split: if_splits)
  next
    case R_Release
    then show ?thesis using running_release_write [OF assms(1) R_Release alive assms(2)] assms(3, 4) alive
      by (auto simp: reader_step_def r_call_def r_early_def)
  qed (use pc in simp_all)
qed

lemma mmap_step_early:
  assumes "mmap_inv ftok input st" and "mmap_step ftok st st'" and "x_works st" and "r_early st"
  shows "r_early st'"
  using assms(2)
proof (cases rule: mmap_step.cases)
  case (by_writer got)
  then show ?thesis using writer_keeps_reader assms(4) by (simp add: r_early_def)
next
  case (by_reader got)
  have g: "if r_pc st = R_Write then full_write got st else got \<noteq> - 1" using by_reader(2) assms(3) by simp
  consider "starting ftok input st" | "running ftok input st" "int (length input) \<le> INT_MAX" using assms(1) by (auto simp: mmap_inv_def)
  then show ?thesis
  proof cases
    case 1
    then have "r_pc st \<in> {R_Begin, R_Sems}" by (simp add: starting_def)
    with by_reader(1) show ?thesis by (rule reader_setup_early)
  qed (use reader_running_early by_reader(1) g in blast)
qed

section \<open>Progress\<close>

definition stuck :: "(string \<Rightarrow> int) \<Rightarrow> xfer \<Rightarrow> bool" where
  "stuck ftok st \<longleftrightarrow> (\<forall>st'. \<not> mmap_step ftok st st')"

lemma writer_unstuck:
  assumes "\<exists>st'. writer_step ftok got st = Some st'" and "got \<noteq> - 1"
  shows "\<not> stuck ftok st"
  using assms by_writer unfolding stuck_def by blast

lemma reader_unstuck:
  assumes "\<exists>st'. reader_step ftok got st = Some st'" and "if r_pc st = R_Write then full_write got st else got \<noteq> - 1"
  shows "\<not> stuck ftok st"
  using assms by_reader unfolding stuck_def by blast

lemma starting_goes_on:
  assumes "starting ftok input st" and "w_exit st = None"
  shows "\<not> stuck ftok st"
proof (rule writer_unstuck [of ftok 0])
  have "w_pc st = W_Begin \<or> w_pc st = W_Sems" using assms(1) by (auto simp: starting_def)
  then show "\<exists>st'. writer_step ftok 0 st = Some st'" using assms(2)
    by (elim disjE) (simp_all add: writer_step_def writer_setup_def split: prod.split)
qed simp

lemma reader_goes_on:
  assumes "running ftok input st" and "r_exit st = None" and "r_pc st = R_Reserve \<longrightarrow> reserveRead (r_sem st) st \<noteq> Sleeps"
    and "int (length input) \<le> INT_MAX"
  shows "\<not> stuck ftok st"
proof -
  have pc: "r_pc st \<notin> {R_Last, R_Done}" using assms(1) by (auto simp: running_def turns_ok_def)
  show ?thesis
  proof (cases "r_pc st")
    case R_Begin
    then have "\<exists>st'. reader_step ftok 0 st = Some st'" using assms(2) by (simp add: reader_step_def reader_setup_def)
    then show ?thesis by (rule reader_unstuck) (simp add: R_Begin)
  next
    case R_Sems
    then have "\<exists>st'. reader_step ftok 0 st = Some st'" using assms(2) by (simp add: reader_step_def reader_setup_def split: prod.split)
    then show ?thesis by (rule reader_unstuck) (simp add: R_Sems)
  next
    case R_Reserve
    then have "\<exists>st'. reader_step ftok 0 st = Some st'" using assms(2, 3) running_reserve_read [OF assms(1) R_Reserve assms(2)]
      by (auto simp: reader_step_def r_call_def)
    then show ?thesis by (rule reader_unstuck) (simp add: R_Reserve)
  next
    case R_Look
    then have "\<exists>st'. reader_step ftok 0 st = Some st'" using assms(2) running_look [OF assms(1) R_Look assms(2, 4)] by (auto simp: reader_step_def)
    then show ?thesis by (rule reader_unstuck) (simp add: R_Look)
  next
    case R_Write
    obtain w r where inv: "segs_ok r st" by (rule runningD [OF assms(1)])
    obtain m where m: "x_map st = Some m" "0 < seg_len m" using inv R_Write by (auto simp: segs_ok_def seg_ok_def)
    then have "\<exists>st'. reader_step ftok (seg_len m) st = Some st'" using assms(2) R_Write by (simp add: reader_step_def Let_def)
    moreover have "full_write (seg_len m) st" using m by (simp add: full_write_def)
    ultimately show ?thesis by (intro reader_unstuck) (simp_all add: R_Write)
  next
    case R_Release
    then have "\<exists>st'. reader_step ftok 0 st = Some st'" using assms(2) running_release_write [OF assms(1) R_Release assms(2, 4)]
      by (auto simp: reader_step_def r_call_def)
    then show ?thesis by (rule reader_unstuck) (simp add: R_Release)
  qed (use pc in simp_all)
qed

lemma writer_goes_on:
  assumes "running ftok input st" and "w_exit st = None" and "w_pc st \<noteq> W_Last" and "w_pc st = W_Reserve \<longrightarrow> reserveWrite (w_sem st) st \<noteq> Sleeps"
    and "int (length input) \<le> INT_MAX"
  shows "\<not> stuck ftok st"
proof -
  have pc: "w_pc st \<notin> {W_Begin, W_Sems, W_Remove, W_Done}" using assms(1) by (auto simp: running_def turns_ok_def)
  show ?thesis
  proof (cases "w_pc st")
    case W_Init
    then have "\<exists>st'. writer_step ftok 0 st = Some st'" using assms(2) by (simp add: writer_step_def writer_setup_def split: prod.split)
    then show ?thesis by (rule writer_unstuck) simp
  next
    case W_Reserve
    then have "\<exists>st'. writer_step ftok 0 st = Some st'" using assms(2, 4) running_reserve_write [OF assms(1) W_Reserve]
      by (auto simp: writer_step_def w_call_def)
    then show ?thesis by (rule writer_unstuck) simp
  next
    case W_Read
    let ?got = "if x_in st = [] then 0 else 1 :: int"
    have "0 < length (x_in st)" if "x_in st \<noteq> []" using that by simp
    then have "read_chunk ?got (x_in st)" by (auto simp: read_chunk_def BUFFER_SIZE_def Suc_le_eq)
    then have "\<exists>st'. writer_step ftok ?got st = Some st'" using assms(2) W_Read by (simp add: writer_step_def)
    then show ?thesis by (rule writer_unstuck) simp
  next
    case W_Copy
    then have "\<exists>st'. writer_step ftok 0 st = Some st'" using assms(2) by (simp add: writer_step_def)
    then show ?thesis by (rule writer_unstuck) simp
  next
    case W_Rest
    then have "\<exists>st'. writer_step ftok 0 st = Some st'" using assms(2) by (simp add: writer_step_def Let_def split: sum.split)
    then show ?thesis by (rule writer_unstuck) simp
  next
    case W_Release
    then have "\<exists>st'. writer_step ftok 0 st = Some st'" using assms(2) running_release_read [OF assms(1) W_Release assms(5)]
      by (auto simp: writer_step_def w_call_def)
    then show ?thesis by (rule writer_unstuck) simp
  qed (use pc assms(3) in simp_all)
qed

lemma stuck_running:
  assumes "running ftok input st" and "stuck ftok st" and "w_exit st = None" and "r_exit st = None" and "int (length input) \<le> INT_MAX"
  shows "x_out st = input \<and> w_pc st = W_Last \<and> r_pc st = R_Reserve \<and> sem_sets st (w_sem st) = Some [0, 0]"
proof -
  obtain w r where inv: "turns_ok ftok w r st" "segs_ok r st" "counts_ok input st" "data_ok input r st"
    by (rule runningD [OF assms(1)])
  have sleeping: "r_pc st = R_Reserve" "reserveRead (r_sem st) st = Sleeps" using reader_goes_on [OF assms(1, 4) _ assms(5)] assms(2) by blast+
  have set: "sem_sets st (w_sem st) = Some [w, r]" "r_sem st = w_sem st" using inv(1) sleeping(1) by (simp_all add: turns_ok_def)
  then have r: "r = 0" using sem_values(2) [of st "w_sem st" w r] sleeping(2) inv(1) by (auto simp: turns_ok_def split: if_splits)
  have nt: "\<not> r_turn st" using sleeping(1) by (simp add: r_turn_def)
  have last: "w_pc st = W_Last"
  proof (rule ccontr)
    assume no: "w_pc st \<noteq> W_Last"
    then have "w_pc st = W_Reserve" "reserveWrite (w_sem st) st = Sleeps" using writer_goes_on [OF assms(1, 3) no _ assms(5)] assms(2) by blast+
    then have "w = 0" "\<not> w_turn st" using sem_values(1) [OF set(1)] inv(1) by (auto simp: turns_ok_def w_turn_def split: if_splits)
    then show False using inv(1) r nt by (simp add: turns_ok_def)
  qed
  then have "w = 0" using turn_cases(1) [OF inv(1)] by (simp add: w_turn_def)
  moreover have "x_in st = []" using inv(2) last by (simp add: segs_ok_def)
  ultimately show ?thesis using inv(4) last sleeping(1) r set(1) by (simp add: data_ok_def on_the_way_def)
qed

text \<open>Without a reader the writer gets no further than its next \<^verbatim>\<open>reserveWrite\<close>.\<close>

lemma stuck_alone:
  assumes "running ftok input st" and "stuck ftok st" and "w_exit st = None" and "r_pc st \<in> {R_Begin, R_Sems}" and "int (length input) \<le> INT_MAX"
  shows "x_out st = [] \<and> w_pc st \<in> {W_Reserve, W_Last} \<and> reserveWrite (w_sem st) st = Sleeps"
proof -
  obtain w r where inv: "turns_ok ftok w r st" "counts_ok input st" by (rule runningD [OF assms(1)])
  have "x_out st = []" using inv(2) assms(4) by (auto simp: counts_ok_def r_counts_def)
  moreover have "w_pc st \<in> {W_Reserve, W_Last} \<and> reserveWrite (w_sem st) st = Sleeps"
  proof (cases "w_pc st = W_Last")
    case True
    then show ?thesis using running_last [OF assms(1)] by simp
  next
    case False
    then show ?thesis using writer_goes_on [OF assms(1, 3) False _ assms(5)] assms(2) by blast
  qed
  ultimately show ?thesis by blast
qed

section \<open>Properties\<close>

lemma mmap_step_calm:
  assumes "mmap_inv ftok input st" and "mmap_step ftok st st'" and "x_works st" and "w_exit st = None" and "r_exit st \<noteq> Some (Inr 0)"
  shows "calm st st'"
  using assms(2)
proof (cases rule: mmap_step.cases)
  case (by_writer got)
  then have "got \<noteq> - 1" using assms(3) by simp
  then show ?thesis using by_writer(1) assms(1, 5) calm_starting_writer calm_running_writer unfolding mmap_inv_def by blast
next
  case (by_reader got)
  have "if r_pc st = R_Write then full_write got st else got \<noteq> - 1" using by_reader(2) assms(3) by simp
  then show ?thesis using by_reader(1) assms(1, 4) calm_starting_reader calm_running_reader unfolding mmap_inv_def by blast
qed

lemma mmap_run_calm:
  assumes "fresh_start ftok input st0" and "x_works st0" and "mmap_run ftok st0 st"
  shows "x_works st \<and> w_exit st = None \<and> r_exit st \<noteq> Some (Inr 0) \<and> r_early st"
  using assms(3) unfolding mmap_run_def
proof (induction rule: rtranclp_induct)
  case base
  then show ?case using assms(1, 2) by (simp add: fresh_start_def r_early_def)
next
  case (step st st')
  have "mmap_inv ftok input st" using mmap_run_inv [OF assms(1)] step(1) by (simp add: mmap_run_def)
  then show ?case using mmap_step_calm [of ftok input st st'] mmap_step_early [of ftok input st st'] step by (simp add: calm_def)
qed

definition both_asleep :: "xfer \<Rightarrow> bool" where
  "both_asleep st \<longleftrightarrow> w_pc st = W_Last \<and> reserveWrite (w_sem st) st = Sleeps \<and> r_pc st = R_Reserve \<and> reserveRead (r_sem st) st = Sleeps"

text \<open>C21: Whatever fails, what the reader has written is the beginning of the input of the writer, and the two processes are
  never in the segment at the same time.\<close>

theorem mmap_transfer_in_order:
  assumes "fresh_start ftok input st0" and "mmap_run ftok st0 st"
  shows "\<exists>rest. input = x_out st @ rest \<and> \<not> (w_turn st \<and> r_turn st)"
proof -
  have "mmap_inv ftok input st" by (rule mmap_run_inv [OF assms])
  then consider "starting ftok input st" | "running ftok input st" by (auto simp: mmap_inv_def)
  then show ?thesis
  proof cases
    case 1
    then show ?thesis by (auto simp: starting_def r_turn_def)
  next
    case 2
    then obtain w r where "turns_ok ftok w r st" "data_ok input r st" by (rule runningD)
    then show ?thesis using turn_cases(1) by (auto simp: data_ok_def split: if_splits)
  qed
qed

text \<open>C22: When no call fails on its own, every step brings a run nearer to its end, and a run ends in one of two ways, with the
  writer asleep for ever in both. Either the reader was started before the writer had made the mapped file or the semaphores: it has
  failed with status 1 and written nothing, and the writer sleeps because nobody takes its first block. Or the reader has
  written the whole input: then the writer sleeps in its last \<^verbatim>\<open>reserveWrite\<close>, because it has not released the reader at the
  end of the file, and the reader sleeps in \<^verbatim>\<open>reserveRead\<close>. No process ever ends successfully, and the semaphores stay, so that
  the next writer cannot start.\<close>

theorem mmap_transfer_hangs:
  assumes "fresh_start ftok input st0" and "x_works st0" and "mmap_run ftok st0 st"
  shows "w_exit st = None \<and> (r_exit st = None \<or> r_exit st = Some (Inr 1) \<and> x_out st = []) \<and>
    (\<forall>st'. mmap_step ftok st st' \<longrightarrow> mmap_weight st' < mmap_weight st) \<and>
    (stuck ftok st \<longrightarrow> fst (getSemaphoreSet ftok st) = - 1 \<and>
      (if r_exit st = None then x_out st = input \<and> both_asleep st
       else w_pc st \<in> {W_Reserve, W_Last} \<and> reserveWrite (w_sem st) st = Sleeps))"
proof -
  note calm = mmap_run_calm [OF assms]
  have inv: "mmap_inv ftok input st" by (rule mmap_run_inv [OF assms(1, 3)])
  have early: "r_exit st = Some (Inr 1)" "r_pc st \<in> {R_Begin, R_Sems}" if "r_exit st \<noteq> None"
    using calm that by (auto simp: r_early_def)
  have "x_out st = []" if "r_pc st \<in> {R_Begin, R_Sems}"
    using inv that by (auto simp: mmap_inv_def starting_def running_def counts_ok_def r_counts_def)
  moreover have "\<forall>st'. mmap_step ftok st st' \<longrightarrow> mmap_weight st' < mmap_weight st"
    using mmap_step_calm [OF inv] calm by (auto simp: calm_def)
  moreover have "fst (getSemaphoreSet ftok st) = - 1 \<and>
      (if r_exit st = None then x_out st = input \<and> both_asleep st
       else w_pc st \<in> {W_Reserve, W_Last} \<and> reserveWrite (w_sem st) st = Sleeps)" if s: "stuck ftok st"
  proof
    have run: "running ftok input st" and len: "int (length input) \<le> INT_MAX" and key: "ftok SEM_KEY \<noteq> IPC_PRIVATE"
      using inv s starting_goes_on [of ftok input st] calm by (auto simp: mmap_inv_def)
    obtain w r where t: "turns_ok ftok w r st" by (rule runningD [OF run])
    have "getSemaphoreSet_get ftok st = (- 1, st)"
      using t key by (simp add: getSemaphoreSet_get_def turns_ok_def sem_token_def semget_def IPC_CREAT_def IPC_EXCL_def)
    then show "fst (getSemaphoreSet ftok st) = - 1" by (simp add: getSemaphoreSet_def getSemaphoreSet_init_def)
    show "if r_exit st = None then x_out st = input \<and> both_asleep st
       else w_pc st \<in> {W_Reserve, W_Last} \<and> reserveWrite (w_sem st) st = Sleeps"
    proof (cases "r_exit st = None")
      case True
      have e: "x_out st = input" "w_pc st = W_Last" "r_pc st = R_Reserve" "sem_sets st (w_sem st) = Some [0, 0]"
        using stuck_running [OF run s _ True len] calm by simp_all
      have "both_asleep st" using e t sem_values [OF e(4)] by (simp add: both_asleep_def turns_ok_def)
      then show ?thesis using True e(1) by simp
    next
      case False
      then show ?thesis using stuck_alone [OF run s _ early(2) len] calm by auto
    qed
  qed
  ultimately show ?thesis using calm early by blast
qed

section \<open>A run\<close>

text \<open>A schedule names the process of each step and the result of its call.\<close>

fun mmap_play :: "(string \<Rightarrow> int) \<Rightarrow> (bool \<times> int) list \<Rightarrow> xfer \<Rightarrow> xfer option" where
  "mmap_play ftok [] st = Some st"
| "mmap_play ftok ((wr, got) # xs) st =
     (if (if \<not> wr \<and> r_pc st = R_Write then full_write got st else got \<noteq> - 1)
      then (case (if wr then writer_step ftok got st else reader_step ftok got st) of
              None \<Rightarrow> None | Some st1 \<Rightarrow> mmap_play ftok xs st1)
      else None)"

lemma mmap_play_run: "mmap_play ftok xs st = Some st' \<Longrightarrow> mmap_run ftok st st'"
proof (induction ftok xs st rule: mmap_play.induct)
  case (1 ftok st)
  then show ?case by (simp add: mmap_run_def)
next
  case (2 ftok wr got xs st)
  then obtain st1 where s: "(if wr then writer_step ftok got st else reader_step ftok got st) = Some st1" "mmap_play ftok xs st1 = Some st'"
    "if \<not> wr \<and> r_pc st = R_Write then full_write got st else got \<noteq> - 1" by (auto split: if_splits option.splits)
  then have "mmap_step ftok st st1" by (cases wr) (auto intro: by_writer by_reader)
  moreover have "mmap_run ftok st1 st'" using 2(1) s by (auto split: if_splits)
  ultimately show ?case by (simp add: mmap_run_def converse_rtranclp_into_rtranclp)
qed

lemma both_asleep_stuck:
  assumes "both_asleep st" and "x_works st"
  shows "stuck ftok st"
  unfolding stuck_def
proof (intro allI notI)
  fix st' assume "mmap_step ftok st st'"
  then show False
    by (cases rule: mmap_step.cases)
      (use assms in \<open>auto simp: both_asleep_def writer_step_def reader_step_def w_call_def r_call_def split: if_splits\<close>)
qed

definition ex_ftok :: "string \<Rightarrow> int" where "ex_ftok p = 77"

definition ex_xfer :: xfer where
  "ex_xfer = \<lparr>sem_sets = (\<lambda>_. None), sem_keys = (\<lambda>_. None), sem_next = 3, sem_full = False, sem_initial = 0, x_key = False, x_map = None,
     x_in = ''hi'', x_out = [], x_works = True, w_pc = W_Begin, w_exit = None, w_sem = 0, w_seg = blank_seg, w_transfers = 0, w_total = 0,
     r_pc = R_Begin, r_exit = None, r_sem = 0, r_transfers = 0, r_total = 0\<rparr>"

definition ex_schedule :: "(bool \<times> int) list" where
  "ex_schedule = [(True, 0), (True, 0), (True, 0), (True, 0), (True, 2), (True, 0), (True, 0), (True, 0),
     (False, 0), (False, 0), (False, 0), (False, 0), (False, 2), (False, 0), (True, 0), (True, 0), (True, 0), (True, 0)]"

lemma ex_xfer_start: "fresh_start ex_ftok ''hi'' ex_xfer" "x_works ex_xfer"
  by (simp_all add: fresh_start_def ex_xfer_def ex_ftok_def IPC_PRIVATE_def INT_MAX_def blank_seg_def)

lemma ex_xfer_play:
  "case mmap_play ex_ftok ex_schedule ex_xfer of None \<Rightarrow> False
   | Some st \<Rightarrow> x_out st = ''hi'' \<and> w_pc st = W_Last \<and> r_pc st = R_Reserve \<and> sem_sets st (w_sem st) = Some [0, 0] \<and> r_sem st = w_sem st \<and>
       x_works st \<and> r_exit st = None"
  by (simp add: ex_schedule_def ex_xfer_def ex_ftok_def writer_step_def writer_setup_def reader_step_def reader_setup_def w_call_def r_call_def
    getSemaphoreSet_get_def getSemaphoreSet_init_def sem_token_def semget_def semget_new_def IPC_PRIVATE_def IPC_CREAT_def IPC_EXCL_def
    semctl_setall_def ini_sems_def SEMVMX_def sem_values read_chunk_def BUFFER_SIZE_def full_write_def c_add_ok INT_MIN_def INT_MAX_def
    blank_seg_def numeral_2_eq_2)

lemma ex_xfer_run: "\<exists>st. mmap_play ex_ftok ex_schedule ex_xfer = Some st \<and> both_asleep st \<and> x_works st \<and> r_exit st = None"
proof -
  obtain st where st: "mmap_play ex_ftok ex_schedule ex_xfer = Some st" "w_pc st = W_Last" "r_pc st = R_Reserve"
    "sem_sets st (w_sem st) = Some [0, 0]" "r_sem st = w_sem st" "x_works st" "r_exit st = None"
    using ex_xfer_play by (auto split: option.splits)
  then show ?thesis using sem_values [OF st(4)] by (simp add: both_asleep_def)
qed

theorem mmap_transfer_in_order_witness:
  "\<exists>rest. ''hi'' = x_out ex_xfer @ rest \<and> \<not> (w_turn ex_xfer \<and> r_turn ex_xfer)"
  using mmap_transfer_in_order [OF ex_xfer_start(1), of ex_xfer] by (simp add: mmap_run_def)

theorem mmap_transfer_hangs_witness:
  "\<exists>st. mmap_run ex_ftok ex_xfer st \<and> x_out st = ''hi'' \<and> both_asleep st \<and> fst (getSemaphoreSet ex_ftok st) = - 1"
proof -
  obtain st where st: "mmap_play ex_ftok ex_schedule ex_xfer = Some st" "both_asleep st" "x_works st" "r_exit st = None"
    using ex_xfer_run by blast
  have run: "mmap_run ex_ftok ex_xfer st" by (rule mmap_play_run [OF st(1)])
  have "stuck ex_ftok st" by (rule both_asleep_stuck [OF st(2, 3)])
  with mmap_transfer_hangs [OF ex_xfer_start run] st(4) show ?thesis using run by auto
qed

end
