(* ===== verification/Flag_Transfer.thy ===== *)
theory Flag_Transfer
  imports Shm_Transfer
begin

text \<open>
  The transfer through System V shared memory of \<^verbatim>\<open>48-system-v-shared-memory/exercises/48-1-writer.c\<close> and
  \<^verbatim>\<open>48-1-reader.c\<close>, where one event flag of \<^verbatim>\<open>lib/event_flags.c\<close> passes the turn.

  The steps are cut as in \<open>Shm_Transfer\<close>: one call or one access to the segment each; a call that sleeps has no step, and
  \<open>got\<close> is the result of a \<^verbatim>\<open>read\<close> or \<^verbatim>\<open>write\<close>, or -1 when a call fails. A segment that is removed stays attached.
\<close>

section \<open>Processes\<close>

definition FLAG_KEY :: string where "FLAG_KEY = ''/tmp/OK''"

record shmseg =
  shm_cnt :: int
  shm_buf :: string

datatype fwpc = FW_Begin | FW_Clear | FW_Shm | FW_Read | FW_Count | FW_Set | FW_Check | FW_Poll | FW_Wait | FW_Destroy | FW_Done

datatype frpc = FR_Begin | FR_Shm | FR_Wait | FR_Look | FR_Write | FR_Clear | FR_Last | FR_Done

record fxfer = sysv_sem +
  f_shm :: bool
  f_seg :: shmseg
  f_in :: string
  f_out :: string
  fw_pc :: fwpc
  fw_exit :: "int res option"
  fw_flag :: int
  fw_got :: int
  fw_xfrs :: int
  fw_bytes :: int
  fr_pc :: frpc
  fr_exit :: "int res option"
  fr_flag :: int
  fr_xfrs :: int
  fr_bytes :: int

section \<open>The writer\<close>

definition fw_fails :: "fxfer \<Rightarrow> fxfer" where "fw_fails st = st\<lparr>fw_exit := Some (Inr 1)\<rparr>"

text \<open>What stands behind a call that gives -1 when it fails.\<close>

definition fw_next :: "int \<times> fxfer \<Rightarrow> fwpc \<Rightarrow> fxfer option" where
  "fw_next c pc = (case c of (rc, st1) \<Rightarrow> Some (if rc = - 1 then fw_fails st1 else st1\<lparr>fw_pc := pc\<rparr>))"

definition flag_writer_setup :: "(string \<Rightarrow> int) \<Rightarrow> int \<Rightarrow> fxfer \<Rightarrow> fxfer option" where
  "flag_writer_setup ftok got st =
     (case fw_pc st of
        FW_Begin \<Rightarrow> (case createEventFlag_get ftok (Some FLAG_KEY) st of (flagId, st1) \<Rightarrow> Some (st1\<lparr>fw_flag := flagId, fw_pc := FW_Clear\<rparr>))
      | FW_Clear \<Rightarrow> fw_next (createEventFlag_clear (fw_flag st) st) FW_Shm
      | FW_Shm \<Rightarrow> Some (if got = - 1 then fw_fails st else st\<lparr>f_shm := True, fw_xfrs := 0, fw_bytes := 0, fw_pc := FW_Read\<rparr>)
      | _ \<Rightarrow> None)"

text \<open>The counters at the end of a pass.\<close>

definition fw_again :: "fxfer \<Rightarrow> fxfer" where
  "fw_again st =
     (case rbind (c_add (fw_xfrs st) 1) (\<lambda>x. rbind (c_add (fw_bytes st) (shm_cnt (f_seg st))) (\<lambda>b. Inr (x, b))) of
        Inl e \<Rightarrow> st\<lparr>fw_exit := Some (Inl e)\<rparr>
      | Inr (x, b) \<Rightarrow> st\<lparr>fw_xfrs := x, fw_bytes := b, fw_pc := FW_Read\<rparr>)"

definition flag_writer :: "(string \<Rightarrow> int) \<Rightarrow> int \<Rightarrow> fxfer \<Rightarrow> fxfer option" where
  "flag_writer ftok got st =
     (if fw_exit st \<noteq> None then None
      else case fw_pc st of
        FW_Read \<Rightarrow>
          if got = - 1 then Some (st\<lparr>fw_got := - 1, fw_pc := FW_Count\<rparr>)
          else if read_chunk got (f_in st)
          then Some (st\<lparr>f_seg := (f_seg st)\<lparr>shm_buf := take (nat got) (f_in st) @ drop (nat got) (shm_buf (f_seg st))\<rparr>,
                        f_in := drop (nat got) (f_in st), fw_got := got, fw_pc := FW_Count\<rparr>)
          else None
      | FW_Count \<Rightarrow>
          let st1 = st\<lparr>f_seg := (f_seg st)\<lparr>shm_cnt := fw_got st\<rparr>\<rparr> in Some (if fw_got st = - 1 then fw_fails st1 else st1\<lparr>fw_pc := FW_Set\<rparr>)
      | FW_Set \<Rightarrow> fw_next (setEventFlag (fw_flag st) st) FW_Check
      | FW_Check \<Rightarrow> Some (if shm_cnt (f_seg st) = 0 then st\<lparr>fw_pc := FW_Wait\<rparr> else st\<lparr>fw_pc := FW_Poll\<rparr>)
      | FW_Poll \<Rightarrow>
          let flagState = getFlagState (fw_flag st) st in
          Some (if flagState = - 1 then fw_fails st else if flagState = 0 then fw_again st else st)
      | FW_Wait \<Rightarrow> (case waitForEventFlag (fw_flag st) st of Sleeps \<Rightarrow> None | Returns rc st1 \<Rightarrow> fw_next (rc, st1) FW_Destroy)
      | FW_Destroy \<Rightarrow> map_option (\<lambda>st1. if fw_exit st1 = None then st1\<lparr>f_shm := False, fw_exit := Some (Inr 0)\<rparr> else st1)
                        (fw_next (destroyEventFlag (fw_flag st) st) FW_Done)
      | _ \<Rightarrow> flag_writer_setup ftok got st)"

section \<open>The reader\<close>

definition fr_fails :: "fxfer \<Rightarrow> fxfer" where "fr_fails st = st\<lparr>fr_exit := Some (Inr 1)\<rparr>"

definition fr_next :: "int \<times> fxfer \<Rightarrow> frpc \<Rightarrow> fxfer option" where
  "fr_next c pc = (case c of (rc, st1) \<Rightarrow> Some (if rc = - 1 then fr_fails st1 else st1\<lparr>fr_pc := pc\<rparr>))"

definition flag_reader :: "(string \<Rightarrow> int) \<Rightarrow> int \<Rightarrow> fxfer \<Rightarrow> fxfer option" where
  "flag_reader ftok got st =
     (if fr_exit st \<noteq> None then None
      else case fr_pc st of
        FR_Begin \<Rightarrow> (case getEventFlag ftok (Some FLAG_KEY) st of (flagId, st1) \<Rightarrow> fr_next (flagId, st1\<lparr>fr_flag := flagId\<rparr>) FR_Shm)
      | FR_Shm \<Rightarrow> Some (if got = - 1 \<or> \<not> f_shm st then fr_fails st else st\<lparr>fr_xfrs := 0, fr_bytes := 0, fr_pc := FR_Wait\<rparr>)
      | FR_Wait \<Rightarrow> (case waitForEventFlag (fr_flag st) st of Sleeps \<Rightarrow> None | Returns rc st1 \<Rightarrow> fr_next (rc, st1) FR_Look)
      | FR_Look \<Rightarrow>
          if shm_cnt (f_seg st) = 0 then Some (st\<lparr>fr_pc := FR_Last\<rparr>)
          else (case c_add (fr_bytes st) (shm_cnt (f_seg st)) of
                  Inl e \<Rightarrow> Some (st\<lparr>fr_exit := Some (Inl e)\<rparr>)
                | Inr n \<Rightarrow> Some (st\<lparr>fr_bytes := n, fr_pc := FR_Write\<rparr>))
      | FR_Write \<Rightarrow>
          if - 1 \<le> got \<and> got \<le> shm_cnt (f_seg st)
          then (let st1 = st\<lparr>f_out := f_out st @ take (nat got) (shm_buf (f_seg st))\<rparr> in
                Some (if got \<noteq> shm_cnt (f_seg st) then fr_fails st1 else st1\<lparr>fr_pc := FR_Clear\<rparr>))
          else None
      | FR_Clear \<Rightarrow> map_option (\<lambda>st1. if fr_exit st1 \<noteq> None then st1
                                     else case c_add (fr_xfrs st1) 1 of Inl e \<Rightarrow> st1\<lparr>fr_exit := Some (Inl e)\<rparr> | Inr n \<Rightarrow> st1\<lparr>fr_xfrs := n\<rparr>)
                      (fr_next (clearEventFlag (fr_flag st) st) FR_Wait)
      | FR_Last \<Rightarrow> map_option (\<lambda>st1. if fr_exit st1 = None then st1\<lparr>fr_exit := Some (Inr 0)\<rparr> else st1)
                     (fr_next (setEventFlag (fr_flag st) st) FR_Done)
      | FR_Done \<Rightarrow> None)"

section \<open>Interleaving\<close>

inductive flag_step2 :: "(string \<Rightarrow> int) \<Rightarrow> fxfer \<Rightarrow> fxfer \<Rightarrow> bool" for ftok where
  flag_by_writer: "flag_writer ftok got st = Some st' \<Longrightarrow> got \<noteq> - 1 \<Longrightarrow> flag_step2 ftok st st'"
| flag_by_reader: "flag_reader ftok got st = Some st' \<Longrightarrow> (if fr_pc st = FR_Write then got = shm_cnt (f_seg st) else got \<noteq> - 1) \<Longrightarrow>
    flag_step2 ftok st st'"

definition flag_run :: "(string \<Rightarrow> int) \<Rightarrow> fxfer \<Rightarrow> fxfer \<Rightarrow> bool" where
  "flag_run ftok = (flag_step2 ftok)\<^sup>*\<^sup>*"

text \<open>The flag exists and is clear, and both processes are about to enter their loops.\<close>

definition flag_fresh :: "(string \<Rightarrow> int) \<Rightarrow> string \<Rightarrow> fxfer \<Rightarrow> bool" where
  "flag_fresh ftok input st \<longleftrightarrow> fw_pc st = FW_Begin \<and> fw_exit st = None \<and> fr_pc st = FR_Begin \<and> fr_exit st = None \<and>
     sem_keys st (ftok FLAG_KEY) = None \<and> ftok FLAG_KEY \<noteq> IPC_PRIVATE \<and> \<not> sem_full st \<and> 0 \<le> sem_next st \<and>
     f_in st = input \<and> f_out st = [] \<and> BUFFER_SIZE \<le> length (shm_buf (f_seg st)) \<and> int (length input) \<le> INT_MAX"

definition flag_loop_start :: "string \<Rightarrow> fxfer \<Rightarrow> bool" where
  "flag_loop_start input st \<longleftrightarrow> fw_pc st = FW_Read \<and> fw_exit st = None \<and> fr_pc st = FR_Wait \<and> fr_exit st = None \<and> fr_flag st = fw_flag st \<and>
     flag_of st (fw_flag st) = Some False \<and> fw_bytes st = 0 \<and> fw_xfrs st = 0 \<and> fr_bytes st = 0 \<and> fr_xfrs st = 0 \<and>
     f_in st = input \<and> f_out st = [] \<and> BUFFER_SIZE \<le> length (shm_buf (f_seg st)) \<and> int (length input) \<le> INT_MAX"

lemma by_writer2: "flag_writer ftok got st = Some st' \<Longrightarrow> got \<noteq> - 1 \<Longrightarrow> flag_run ftok st' t \<Longrightarrow> flag_run ftok st t"
  unfolding flag_run_def by (blast intro: flag_by_writer converse_rtranclp_into_rtranclp)

lemma by_reader2: "flag_reader ftok got st = Some st' \<Longrightarrow> (if fr_pc st = FR_Write then got = shm_cnt (f_seg st) else got \<noteq> - 1) \<Longrightarrow>
    flag_run ftok st' t \<Longrightarrow> flag_run ftok st t"
  unfolding flag_run_def by (blast intro: flag_by_reader converse_rtranclp_into_rtranclp)

lemma flag_run_refl [simp]: "flag_run ftok st st"
  by (simp add: flag_run_def)

lemma flag_run_trans: "flag_run ftok st t \<Longrightarrow> flag_run ftok t u \<Longrightarrow> flag_run ftok st u"
  by (simp add: flag_run_def)

section \<open>The writer waits for no one\<close>

text \<open>What a writer that runs alone does not change.\<close>

definition same_reader :: "fxfer \<Rightarrow> fxfer \<Rightarrow> bool" where
  "same_reader st st' \<longleftrightarrow> fr_pc st' = fr_pc st \<and> fr_exit st' = fr_exit st \<and> fr_flag st' = fr_flag st \<and> fr_bytes st' = fr_bytes st \<and>
     fr_xfrs st' = fr_xfrs st \<and> f_out st' = f_out st \<and> fw_flag st' = fw_flag st"

lemma writer_to_check:
  assumes "fw_pc st = FW_Read" and "fw_exit st = None" and "flag_of st (fw_flag st) = Some b" and "BUFFER_SIZE \<le> length (shm_buf (f_seg st))"
    and "n = min BUFFER_SIZE (length (f_in st))"
  shows "\<exists>st'. flag_run ftok st st' \<and> fw_pc st' = FW_Check \<and> fw_exit st' = None \<and> sem_sets st' (fw_flag st') = Some [0] \<and>
    f_seg st' = \<lparr>shm_cnt = int n, shm_buf = take n (f_in st) @ drop n (shm_buf (f_seg st))\<rparr> \<and> f_in st' = drop n (f_in st) \<and>
    fw_bytes st' = fw_bytes st \<and> fw_xfrs st' = fw_xfrs st \<and> same_reader st st'"
proof -
  have set: "sem_sets st (fw_flag st) = Some [if b then 0 else 1]" using assms(3) by (simp add: flag_of_Some)
  let ?seg = "\<lparr>shm_cnt = int n, shm_buf = take n (f_in st) @ drop n (shm_buf (f_seg st))\<rparr>"
  let ?st1 = "st\<lparr>f_seg := (f_seg st)\<lparr>shm_buf := shm_buf ?seg\<rparr>, f_in := drop n (f_in st), fw_got := int n, fw_pc := FW_Count\<rparr>"
  let ?st2 = "?st1\<lparr>f_seg := ?seg, fw_pc := FW_Set\<rparr>"
  let ?st3 = "?st2\<lparr>sem_sets := (sem_sets st)(fw_flag st := Some [0]), fw_pc := FW_Check\<rparr>"
  have chunk: "read_chunk (int n) (f_in st)" using assms(5) by (cases "f_in st") (auto simp: read_chunk_def BUFFER_SIZE_def)
  have 1: "flag_writer ftok (int n) st = Some ?st1" using assms(1, 2) chunk by (simp add: flag_writer_def)
  have 2: "flag_writer ftok 0 ?st1 = Some ?st2" using assms(2) by (simp add: flag_writer_def)
  have f2: "flag_of ?st2 (fw_flag st) = Some b" using set by (simp add: flag_of_Some)
  have 3: "flag_writer ftok 0 ?st2 = Some ?st3" using assms(2) set_clear_flag(1) [OF f2] by (simp add: flag_writer_def fw_next_def)
  have "flag_run ftok st ?st3"
    by (rule by_writer2 [OF 1], simp, rule by_writer2 [OF 2], simp, rule by_writer2 [OF 3]) simp_all
  then show ?thesis using assms(2) by (intro exI [of _ ?st3]) (simp add: same_reader_def)
qed

lemma writer_pass:
  assumes "fw_pc st = FW_Read" and "fw_exit st = None" and "flag_of st (fw_flag st) = Some b" and "BUFFER_SIZE \<le> length (shm_buf (f_seg st))"
    and "n = min BUFFER_SIZE (length (f_in st))" and "f_in st \<noteq> []" and "0 \<le> fw_xfrs st" and "fw_xfrs st \<le> fw_bytes st"
    and "fw_bytes st + int (length (f_in st)) \<le> INT_MAX"
  shows "\<exists>st'. flag_run ftok st st' \<and> fw_pc st' = FW_Read \<and> fw_exit st' = None \<and> flag_of st' (fw_flag st') = Some True \<and>
    BUFFER_SIZE \<le> length (shm_buf (f_seg st')) \<and> f_in st' = drop n (f_in st) \<and> fw_bytes st' = fw_bytes st + int n \<and>
    fw_xfrs st' = fw_xfrs st + 1 \<and> same_reader st st'"
proof -
  obtain t where t: "flag_run ftok st t" "fw_pc t = FW_Check" "fw_exit t = None" "sem_sets t (fw_flag t) = Some [0]"
    "f_seg t = \<lparr>shm_cnt = int n, shm_buf = take n (f_in st) @ drop n (shm_buf (f_seg st))\<rparr>" "f_in t = drop n (f_in st)"
    "fw_bytes t = fw_bytes st" "fw_xfrs t = fw_xfrs st" "same_reader st t"
    using writer_to_check [OF assms(1-5)] by blast
  have n: "0 < n" "n \<le> length (f_in st)" using assms(5, 6) by (auto simp: BUFFER_SIZE_def)
  let ?t1 = "t\<lparr>fw_pc := FW_Poll\<rparr>"
  let ?t2 = "?t1\<lparr>fw_xfrs := fw_xfrs st + 1, fw_bytes := fw_bytes st + int n, fw_pc := FW_Read\<rparr>"
  have 1: "flag_writer ftok 0 t = Some ?t1" using t(2, 3, 5) n(1) by (simp add: flag_writer_def)
  have sums: "c_add (fw_xfrs st) 1 = Inr (fw_xfrs st + 1)" "c_add (fw_bytes st) (int n) = Inr (fw_bytes st + int n)"
    using assms(7-9) n by (auto intro!: c_add_ok simp: INT_MIN_def)
  have "getFlagState (fw_flag t) ?t1 = 0" using t(4) by (simp add: getFlagState_def semctl_getall_def)
  then have 2: "flag_writer ftok 0 ?t1 = Some ?t2" using t(3, 5, 7, 8) sums by (simp add: flag_writer_def fw_again_def)
  have "flag_run ftok t ?t2" by (rule by_writer2 [OF 1], simp, rule by_writer2 [OF 2]) simp_all
  then have "flag_run ftok st ?t2" by (rule flag_run_trans [OF t(1)])
  then show ?thesis using t(3-6, 9) n assms(4) by (intro exI [of _ ?t2]) (simp add: same_reader_def flag_of_Some)
qed

lemma writer_alone:
  assumes "fw_pc st = FW_Read" and "fw_exit st = None" and "flag_of st (fw_flag st) = Some b" and "BUFFER_SIZE \<le> length (shm_buf (f_seg st))"
    and "0 \<le> fw_xfrs st" and "fw_xfrs st \<le> fw_bytes st" and "fw_bytes st + int (length (f_in st)) \<le> INT_MAX"
  shows "\<exists>st'. flag_run ftok st st' \<and> fw_exit st' = Some (Inr 0) \<and> fw_bytes st' = fw_bytes st + int (length (f_in st)) \<and>
    sem_sets st' (fw_flag st') = None \<and> same_reader st st'"
  using assms
proof (induction "length (f_in st)" arbitrary: st b rule: less_induct)
  case less
  show ?case
  proof (cases "f_in st = []")
    case True
    obtain t where t: "flag_run ftok st t" "fw_pc t = FW_Check" "fw_exit t = None" "sem_sets t (fw_flag t) = Some [0]"
      "shm_cnt (f_seg t) = 0" "fw_bytes t = fw_bytes st" "same_reader st t"
      using writer_to_check [OF less.prems(1-4) refl, of ftok] True by auto
    let ?t1 = "t\<lparr>fw_pc := FW_Wait\<rparr>"
    let ?t2 = "t\<lparr>fw_pc := FW_Destroy\<rparr>"
    let ?t3 = "?t2\<lparr>sem_sets := (sem_sets t)(fw_flag t := None), sem_keys := (\<lambda>k. if sem_keys ?t2 k = Some (fw_flag t) then None else sem_keys ?t2 k),
        fw_pc := FW_Done, f_shm := False, fw_exit := Some (Inr 0)\<rparr>"
    have 1: "flag_writer ftok 0 t = Some ?t1" using t(2, 3, 5) by (simp add: flag_writer_def)
    have "flag_of ?t1 (fw_flag t) = Some True" using t(4) by (simp add: flag_of_Some)
    from wait_on_flag [OF this] have 2: "flag_writer ftok 0 ?t1 = Some ?t2" using t(3) by (simp add: flag_writer_def fw_next_def)
    have 3: "flag_writer ftok 0 ?t2 = Some ?t3" using t(3, 4) by (simp add: flag_writer_def fw_next_def destroyEventFlag_def semctl_rmid_def)
    have "flag_run ftok t ?t3" by (rule by_writer2 [OF 1], simp, rule by_writer2 [OF 2], simp, rule by_writer2 [OF 3]) simp_all
    then have "flag_run ftok st ?t3" by (rule flag_run_trans [OF t(1)])
    then show ?thesis using True t(6, 7) by (intro exI [of _ ?t3]) (simp add: same_reader_def)
  next
    case False
    define n where "n = min BUFFER_SIZE (length (f_in st))"
    have n: "0 < n" "n \<le> length (f_in st)" using False by (simp_all add: n_def BUFFER_SIZE_def)
    obtain t where t: "flag_run ftok st t" "fw_pc t = FW_Read" "fw_exit t = None" "flag_of t (fw_flag t) = Some True"
      "BUFFER_SIZE \<le> length (shm_buf (f_seg t))" "f_in t = drop n (f_in st)" "fw_bytes t = fw_bytes st + int n"
      "fw_xfrs t = fw_xfrs st + 1" "same_reader st t"
      using writer_pass [OF less.prems(1-4) n_def False less.prems(5-7)] by blast
    have shorter: "length (f_in t) < length (f_in st)" using n unfolding t(6) by simp
    have "fw_xfrs t \<le> fw_bytes t" "0 \<le> fw_xfrs t" "fw_bytes t + int (length (f_in t)) \<le> INT_MAX"
      using t(6-8) n less.prems(5-7) by (auto simp: of_nat_diff)
    then obtain u where u: "flag_run ftok t u" "fw_exit u = Some (Inr 0)" "fw_bytes u = fw_bytes t + int (length (f_in t))"
      "sem_sets u (fw_flag u) = None" "same_reader t u"
      using less.hyps [OF shorter t(2-5)] by blast
    have "flag_run ftok st u" by (rule flag_run_trans [OF t(1) u(1)])
    moreover have "fw_bytes u = fw_bytes st + int (length (f_in st))" using u(3) t(6, 7) n by (simp add: of_nat_diff)
    moreover have "same_reader st u" using t(9) u(5) by (simp add: same_reader_def)
    ultimately show ?thesis using u(2, 4) by blast
  qed
qed

lemma flag_loops_reached:
  assumes "flag_fresh ftok input st"
  shows "\<exists>st'. flag_run ftok st st' \<and> flag_loop_start input st'"
proof -
  let ?id = "sem_next st"
  have flags: "IPC_CREAT OR IPC_EXCL OR 384 = 1920" by (simp add: IPC_CREAT_def IPC_EXCL_def)
  let ?st1 = "st\<lparr>sem_sets := (sem_sets st)(?id := Some [sem_initial st]), sem_next := ?id + 1, sem_keys := (sem_keys st)(ftok FLAG_KEY := Some ?id),
    fw_flag := ?id, fw_pc := FW_Clear\<rparr>"
  let ?st2 = "?st1\<lparr>sem_sets := (sem_sets st)(?id := Some [1]), fw_pc := FW_Shm\<rparr>"
  let ?st3 = "?st2\<lparr>f_shm := True, fw_xfrs := 0, fw_bytes := 0, fw_pc := FW_Read\<rparr>"
  let ?st4 = "?st3\<lparr>fr_flag := ?id, fr_pc := FR_Shm\<rparr>"
  let ?st5 = "?st4\<lparr>fr_xfrs := 0, fr_bytes := 0, fr_pc := FR_Wait\<rparr>"
  have 1: "flag_writer ftok 0 st = Some ?st1" using assms unfolding flag_writer_def flag_writer_setup_def createEventFlag_get_def flags
    by (simp add: flag_fresh_def flag_key_def semget_def semget_new_def IPC_CREAT_def)
  have 2: "flag_writer ftok 0 ?st1 = Some ?st2" using assms
    by (simp add: flag_fresh_def flag_writer_def flag_writer_setup_def createEventFlag_clear_def clearEventFlag_def semctl_setval_def SEMVMX_def fw_next_def)
  have 3: "flag_writer ftok 0 ?st2 = Some ?st3" using assms by (simp add: flag_fresh_def flag_writer_def flag_writer_setup_def)
  have 4: "flag_reader ftok 0 ?st3 = Some ?st4" using assms
    by (simp add: flag_fresh_def flag_reader_def getEventFlag_def flag_key_def semget_def fr_next_def)
  have 5: "flag_reader ftok 0 ?st4 = Some ?st5" using assms by (simp add: flag_fresh_def flag_reader_def)
  have "flag_run ftok st ?st5"
    by (rule by_writer2 [OF 1], simp, rule by_writer2 [OF 2], simp, rule by_writer2 [OF 3], simp, rule by_reader2 [OF 4], use assms in \<open>simp add: flag_fresh_def\<close>,
      rule by_reader2 [OF 5]) simp_all
  moreover have "flag_loop_start input ?st5" using assms by (simp add: flag_fresh_def flag_loop_start_def flag_of_Some)
  ultimately show ?thesis by blast
qed

section \<open>Properties\<close>

text \<open>C31: For every input there is a run in which every call works and the writer, whose poll ends at once because a set flag is 0,
  sends the whole input and ends with success before the reader has written a byte; the reader then fails on the flag the
  writer has destroyed.\<close>

theorem flag_transfer_drops:
  assumes "flag_fresh ftok input st0"
  shows "\<exists>st st'. flag_run ftok st0 st \<and> fw_exit st = Some (Inr 0) \<and> fw_bytes st = int (length input) \<and> f_out st = [] \<and> fr_exit st = None \<and>
    flag_step2 ftok st st' \<and> fr_exit st' = Some (Inr 1)"
proof -
  obtain s where s: "flag_run ftok st0 s" "flag_loop_start input s" using flag_loops_reached [OF assms] by blast
  note start = s(2) [unfolded flag_loop_start_def]
  obtain st where st: "flag_run ftok s st" "fw_exit st = Some (Inr 0)" "fw_bytes st = fw_bytes s + int (length (f_in s))"
    "sem_sets st (fw_flag st) = None" "same_reader s st"
    using writer_alone [of s False ftok] start by auto
  have "waitForEventFlag (fr_flag st) st = Returns (- 1) st"
    using st(4, 5) start by (simp add: same_reader_def waitForEventFlag_def semop_def)
  then have "flag_reader ftok 0 st = Some (fr_fails st)" using st(5) start by (simp add: same_reader_def flag_reader_def fr_next_def)
  then have "flag_step2 ftok st (fr_fails st)" using st(5) start by (intro flag_by_reader [of ftok 0]) (simp_all add: same_reader_def)
  moreover have "flag_run ftok st0 st" by (rule flag_run_trans [OF s(1) st(1)])
  ultimately show ?thesis using st(2, 3, 5) start
    by (intro exI [of _ st] exI [of _ "fr_fails st"]) (simp add: same_reader_def fr_fails_def)
qed

text \<open>C32: When the reader is quick, it clears the flag before the writer polls it: the writer then polls for ever, the reader sleeps,
  and no more than the first block arrives.\<close>

theorem flag_transfer_spins:
  assumes "flag_fresh ftok input st0" and "input \<noteq> []"
  shows "\<exists>st. flag_run ftok st0 st \<and> f_out st = take BUFFER_SIZE input \<and> fw_exit st = None \<and> fr_exit st = None \<and>
    (\<forall>st'. flag_step2 ftok st st' \<longrightarrow> st' = st)"
proof -
  obtain s where s: "flag_run ftok st0 s" "flag_loop_start input s" using flag_loops_reached [OF assms(1)] by blast
  note start = s(2) [unfolded flag_loop_start_def]
  define n where "n = min BUFFER_SIZE (length (f_in s))"
  obtain t where t: "flag_run ftok s t" "fw_pc t = FW_Check" "fw_exit t = None" "sem_sets t (fw_flag t) = Some [0]"
    "f_seg t = \<lparr>shm_cnt = int n, shm_buf = take n (f_in s) @ drop n (shm_buf (f_seg s))\<rparr>" "same_reader s t"
    using writer_to_check [OF _ _ _ _ n_def, of False ftok] start by auto
  have r: "fr_pc t = FR_Wait" "fr_exit t = None" "fr_flag t = fw_flag t" "fr_bytes t = 0" "fr_xfrs t = 0" "f_out t = []"
    using t(6) start by (simp_all add: same_reader_def)
  have n: "0 < n" "n \<le> length input" "int n \<le> INT_MAX" using start assms(2) by (auto simp: n_def BUFFER_SIZE_def)
  let ?t1 = "t\<lparr>fw_pc := FW_Poll\<rparr>"
  let ?t2 = "?t1\<lparr>fr_pc := FR_Look\<rparr>"
  let ?t3 = "?t1\<lparr>fr_bytes := int n, fr_pc := FR_Write\<rparr>"
  let ?t4 = "?t3\<lparr>f_out := take n input, fr_pc := FR_Clear\<rparr>"
  let ?t5 = "?t4\<lparr>sem_sets := (sem_sets t)(fw_flag t := Some [1]), fr_pc := FR_Wait, fr_xfrs := 1\<rparr>"
  have 1: "flag_writer ftok 0 t = Some ?t1" using t(2, 3, 5) n(1) by (simp add: flag_writer_def)
  have set: "flag_of ?t1 (fw_flag t) = Some True" "flag_of ?t4 (fw_flag t) = Some True" using t(4) by (simp_all add: flag_of_Some)
  have 2: "flag_reader ftok 0 ?t1 = Some ?t2" using r wait_on_flag [OF set(1)] by (simp add: flag_reader_def fr_next_def)
  have "c_add 0 (int n) = Inr (int n)" "c_add 0 1 = Inr 1" using n(3) c_add_ok [of 0 "int n"] c_add_ok [of 0 1] by (simp_all add: INT_MIN_def INT_MAX_def)
  then have 3: "flag_reader ftok 0 ?t2 = Some ?t3" using r t(5) n(1) by (simp add: flag_reader_def)
  have "take n (take n (f_in s) @ drop n (shm_buf (f_seg s))) = take n input" using start n(2) by simp
  then have 4: "flag_reader ftok (int n) ?t3 = Some ?t4" using r t(5) by (simp add: flag_reader_def)
  have 5: "flag_reader ftok 0 ?t4 = Some ?t5" using r set_clear_flag(2) [OF set(2)] \<open>c_add 0 1 = Inr 1\<close> by (simp add: flag_reader_def fr_next_def)
  have "flag_run ftok t ?t5"
    by (rule by_writer2 [OF 1], simp, rule by_reader2 [OF 2], use r in simp, rule by_reader2 [OF 3], simp, rule by_reader2 [OF 4], use t(5) in simp,
      rule by_reader2 [OF 5]) simp_all
  then have run: "flag_run ftok st0 ?t5" using s(1) t(1) flag_run_trans by blast
  have clear: "flag_of ?t5 (fw_flag t) = Some False" by (simp add: flag_of_Some)
  have "st' = ?t5" if step: "flag_step2 ftok ?t5 st'" for st'
    using step
  proof (cases rule: flag_step2.cases)
    case (flag_by_writer got)
    then show ?thesis using t(3) state_of_flag [OF clear] by (simp add: flag_writer_def)
  next
    case (flag_by_reader got)
    then show ?thesis using r wait_on_flag [OF clear] by (simp add: flag_reader_def)
  qed
  moreover have "take n input = take BUFFER_SIZE input" using start by (simp add: n_def min_def)
  ultimately show ?thesis using run t(3) r by (intro exI [of _ ?t5]) simp
qed

definition ex_flags :: fxfer where
  "ex_flags = \<lparr>sem_sets = (\<lambda>_. None), sem_keys = (\<lambda>_. None), sem_next = 3, sem_full = False, sem_initial = 0, f_shm = False,
     f_seg = \<lparr>shm_cnt = 0, shm_buf = replicate BUFFER_SIZE (CHR 0x00)\<rparr>, f_in = ''hi'', f_out = [], fw_pc = FW_Begin, fw_exit = None,
     fw_flag = 0, fw_got = 0, fw_xfrs = 0, fw_bytes = 0, fr_pc = FR_Begin, fr_exit = None, fr_flag = 0, fr_xfrs = 0, fr_bytes = 0\<rparr>"

lemma ex_flags_fresh: "flag_fresh ex_ftok ''hi'' ex_flags"
  by (simp add: flag_fresh_def ex_flags_def ex_ftok_def IPC_PRIVATE_def INT_MAX_def)

theorem flag_transfer_drops_witness:
  "\<exists>st. flag_run ex_ftok ex_flags st \<and> fw_exit st = Some (Inr 0) \<and> fw_bytes st = 2 \<and> f_out st = []"
  using flag_transfer_drops [OF ex_flags_fresh] by auto

theorem flag_transfer_spins_witness:
  "\<exists>st. flag_run ex_ftok ex_flags st \<and> f_out st = ''hi'' \<and> fw_exit st = None \<and> fr_exit st = None"
  using flag_transfer_spins [OF ex_flags_fresh] by (auto simp: BUFFER_SIZE_def)

end
