(* ===== verification/Sort_Algo.thy ===== *)
theory Sort_Algo
  imports Linked_List Callbacks
begin

text \<open>
  The sorts of \<^verbatim>\<open>lib/algo/darray_algo.c\<close> (top-down merge sort) and \<^verbatim>\<open>lib/algo/list_algo.c\<close>
  (bubble sort and merge sort of a list, through a \<^verbatim>\<open>Darray\<close>).
  All of them put \<open>x\<close> before \<open>y\<close> when \<open>cmp x y > 0\<close>: the result is in descending order of
  the comparison. The loops are written with their indices and array accesses and are shown to
  compute list functions, which are shown to sort.
\<close>

section \<open>Merge sort of an array\<close>

text \<open>\<^verbatim>\<open>Darray_set(array, k, leftVal); i++; k++;\<close>, and the same after \<^verbatim>\<open>leftVal = Darray_get(left, i)\<close>\<close>

definition merge_put ::
  "'a option \<Rightarrow> int \<Rightarrow> int \<Rightarrow> 'a darray \<Rightarrow> (int \<times> int \<times> 'a darray) res" where
  "merge_put v i k array =
     rbind (Darray_set array k v) (\<lambda>array1.
     rbind (c_add i 1) (\<lambda>i1. rbind (c_add k 1) (\<lambda>k1. Inr (i1, k1, array1))))"

definition merge_take ::
  "'a darray \<Rightarrow> int \<Rightarrow> int \<Rightarrow> 'a darray \<Rightarrow> (int \<times> int \<times> 'a darray) res" where
  "merge_take src i k array = rbind (Darray_get src i) (\<lambda>v. merge_put v i k array)"

text \<open>The body of the first loop.\<close>

definition merge_choose ::
  "'a darray \<Rightarrow> 'a darray \<Rightarrow> ('a \<Rightarrow> 'a \<Rightarrow> int) \<Rightarrow> int \<times> int \<times> int \<times> 'a darray
    \<Rightarrow> (int \<times> int \<times> int \<times> 'a darray) res" where
  "merge_choose left right cmp = (\<lambda>(i, j, k, array).
     rbind (Darray_get left i) (\<lambda>leftVal.
     rbind (Darray_get right j) (\<lambda>rightVal.
     rbind (call_cmp cmp leftVal rightVal) (\<lambda>c.
       if c > 0
       then rbind (merge_put leftVal i k array) (\<lambda>(i1, k1, array1). Inr (i1, j, k1, array1))
       else rbind (merge_put rightVal j k array) (\<lambda>(j1, k1, array1). Inr (i, j1, k1, array1))))))"

definition merge_rest ::
  "'a darray \<Rightarrow> int \<Rightarrow> int \<times> int \<times> 'a darray \<Rightarrow> (int \<times> int \<times> 'a darray) res" where
  "merge_rest src n = cwhile (\<lambda>st. fst st < n) (\<lambda>(i, k, array). merge_take src i k array)"

definition Darray_merge ::
  "'a darray \<Rightarrow> 'a darray \<Rightarrow> 'a darray \<Rightarrow> int \<Rightarrow> int \<Rightarrow> ('a \<Rightarrow> 'a \<Rightarrow> int) \<Rightarrow> 'a darray res" where
  "Darray_merge left right array leftCount rightCount cmp =
     rbind (cwhile (\<lambda>st. fst st < leftCount \<and> fst (snd st) < rightCount) (merge_choose left right cmp)
              (0, 0, 0, array)) (\<lambda>(i, j, k, array1).
     rbind (merge_rest left leftCount (i, k, array1)) (\<lambda>(i1, k1, array2).
     rbind (merge_rest right rightCount (j, k1, array2)) (\<lambda>(j1, k2, array3). Inr array3)))"

text \<open>Pushing to a possibly NULL array; the return code is ignored.\<close>

definition push_to ::
  "'a darray option \<Rightarrow> 'a option \<Rightarrow> 's cmem_scheme \<Rightarrow> ('a darray option \<times> 's cmem_scheme) res" where
  "push_to d v s =
     (case d of None \<Rightarrow> Inl Assert_Failed
      | Some d \<Rightarrow> rbind (Darray_push d v s) (\<lambda>(rc, d1, s1). Inr (Some d1, s1)))"

definition merge_distribute ::
  "'a darray \<Rightarrow> int \<Rightarrow> nat \<Rightarrow> 'a darray option \<times> 'a darray option \<times> 's cmem_scheme
    \<Rightarrow> ('a darray option \<times> 'a darray option \<times> 's cmem_scheme) res" where
  "merge_distribute array middle i = (\<lambda>(left, right, s).
     rbind (Darray_get array (int i)) (\<lambda>value.
       if int i < middle
       then rbind (push_to left value s) (\<lambda>(left1, s1). Inr (left1, right, s1))
       else rbind (push_to right value s) (\<lambda>(right1, s1). Inr (left, right1, s1))))"

function Darray_merge_top_down ::
  "'a darray \<Rightarrow> int \<Rightarrow> ('a \<Rightarrow> 'a \<Rightarrow> int) \<Rightarrow> 's cmem_scheme \<Rightarrow> ('a darray \<times> 's cmem_scheme) res" where
  "Darray_merge_top_down array n cmp s =
     (if n < 2 then Inr (array, s)
      else
        rbind (Darray_create (elementSize array) (size_t_of_int (n div 2)) s) (\<lambda>(left, s1).
        rbind (Darray_create (elementSize array) (size_t_of_int (n - n div 2)) s1) (\<lambda>(right, s2).
        rbind (rfor [0..<nat n] (merge_distribute array (n div 2)) (left, right, s2)) (\<lambda>(left1, right1, s3).
        case left1 of None \<Rightarrow> Inl Null_Deref | Some l \<Rightarrow> (case right1 of None \<Rightarrow> Inl Null_Deref | Some r \<Rightarrow>
        rbind (Darray_merge_top_down l (n div 2) cmp s3) (\<lambda>(l1, s4).
        rbind (Darray_merge_top_down r (n - n div 2) cmp s4) (\<lambda>(r1, s5).
        rbind (Darray_merge l1 r1 array (n div 2) (n - n div 2) cmp) (\<lambda>array1.
        rbind (Darray_destroy l1 s5) (\<lambda>s6.
        rbind (Darray_destroy r1 s6) (\<lambda>s7. Inr (array1, s7)))))))))))"
  by pat_completeness auto
termination
  by (relation "measure (\<lambda>(array, n, cmp, s). nat n)") auto

declare Darray_merge_top_down.simps [simp del]

definition Darray_mergesort ::
  "'a darray \<Rightarrow> ('a \<Rightarrow> 'a \<Rightarrow> int) \<Rightarrow> 's cmem_scheme \<Rightarrow> (int \<times> 'a darray \<times> 's cmem_scheme) res" where
  "Darray_mergesort array cmp s =
     rbind (Darray_merge_top_down array (Darray_count array) cmp s) (\<lambda>(a, s1). Inr (0, a, s1))"

section \<open>Sorting a list\<close>

text \<open>Writing the array back into the nodes.\<close>

definition list_write_back ::
  "clist \<Rightarrow> 'a darray \<Rightarrow> ('a, 'o, 's) lmem_scheme \<Rightarrow> ('a, 'o, 's) lmem_scheme res" where
  "list_write_back l array s =
     rbind (rfor [0..<nat (l_count l)]
              (\<lambda>i (node, s).
                 rbind (slot_read array (int i)) (\<lambda>v.
                 rbind (node_upd node (\<lambda>m. m\<lparr>lval := v\<rparr>) s) (\<lambda>s1.
                 rbind (node_get node s1) (\<lambda>n. Inr (lnext n, s1)))))
              (l_first l, s))
       (\<lambda>(node, s1). Inr s1)"

text \<open>One pass of the inner loop; the flag is \<^verbatim>\<open>sorted\<close>.\<close>

definition bubble_step ::
  "('a \<Rightarrow> 'a \<Rightarrow> int) \<Rightarrow> nat \<Rightarrow> 'a darray \<times> bool \<Rightarrow> ('a darray \<times> bool) res" where
  "bubble_step cmp j = (\<lambda>(array, sorted).
     rbind (slot_read array (int j - 1)) (\<lambda>a.
     rbind (slot_read array (int j)) (\<lambda>b.
     rbind (call_cmp cmp a b) (\<lambda>c.
       if c \<le> 0
       then rbind (slot_write array (int j - 1) b) (\<lambda>array1.
            rbind (slot_write array1 (int j) a) (\<lambda>array2. Inr (array2, False)))
       else Inr (array, sorted)))))"

definition bubble_pass :: "('a \<Rightarrow> 'a \<Rightarrow> int) \<Rightarrow> nat \<Rightarrow> 'a darray \<Rightarrow> ('a darray \<times> bool) res" where
  "bubble_pass cmp n array = rfor [1..<n] (bubble_step cmp) (array, True)"

text \<open>The outer loop, with its \<^verbatim>\<open>break\<close> as the last component of the state.\<close>

definition bubble_loop :: "('a \<Rightarrow> 'a \<Rightarrow> int) \<Rightarrow> nat \<Rightarrow> 'a darray \<Rightarrow> 'a darray res" where
  "bubble_loop cmp n array =
     rbind (cwhile (\<lambda>st. fst st < n \<and> \<not> snd (snd st))
              (\<lambda>(i, array, stop).
                 rbind (bubble_pass cmp n array) (\<lambda>(array1, sorted).
                   if sorted then Inr (i, array1, True) else Inr (i + 1, array1, False)))
              (1, array, False))
       (\<lambda>(i, array1, stop). Inr array1)"

definition List_bubble_sort ::
  "clist option \<Rightarrow> ('a \<Rightarrow> 'a \<Rightarrow> int) option \<Rightarrow> ('a, 'o, 's) lmem_scheme
    \<Rightarrow> (int \<times> ('a, 'o, 's) lmem_scheme) res" where
  "List_bubble_sort list cmp s =
     (case list of None \<Rightarrow> Inr (-1, s) | Some l \<Rightarrow>
      (case cmp of None \<Rightarrow> Inr (-1, s) | Some c \<Rightarrow>
       if l_count l \<le> 1 then Inr (0, s)
       else rbind (List_to_darray l s) (\<lambda>(array, s1).
         case array of None \<Rightarrow> Inr (-1, s1) | Some a \<Rightarrow>
           rbind (bubble_loop c (nat (List_count l)) a) (\<lambda>a1.
           rbind (list_write_back l a1 s1) (\<lambda>s2.
           rbind (Darray_destroy a1 s2) (\<lambda>s3. Inr (0, s3)))))))"

definition List_mergesort ::
  "clist option \<Rightarrow> ('a \<Rightarrow> 'a \<Rightarrow> int) option \<Rightarrow> ('a, 'o, 's) lmem_scheme
    \<Rightarrow> (int \<times> ('a, 'o, 's) lmem_scheme) res" where
  "List_mergesort list cmp s =
     (case list of None \<Rightarrow> Inr (-1, s) | Some l \<Rightarrow>
      (case cmp of None \<Rightarrow> Inr (-1, s) | Some c \<Rightarrow>
       rbind (List_to_darray l s) (\<lambda>(array, s1).
         case array of None \<Rightarrow> Inr (-1, s1) | Some a \<Rightarrow>
           rbind (Darray_mergesort a c s1) (\<lambda>(rc, a1, s2).
           rbind (list_write_back l a1 s2) (\<lambda>s3.
           rbind (Darray_destroy a1 s3) (\<lambda>s4. Inr (0, s4)))))))"

section \<open>The list functions\<close>

fun merge_ref :: "('a \<Rightarrow> 'a \<Rightarrow> int) \<Rightarrow> 'a list \<Rightarrow> 'a list \<Rightarrow> 'a list" where
  "merge_ref cmp [] ys = ys"
| "merge_ref cmp xs [] = xs"
| "merge_ref cmp (x # xs) (y # ys) =
     (if cmp x y > 0 then x # merge_ref cmp xs (y # ys) else y # merge_ref cmp (x # xs) ys)"

function msort_ref :: "('a \<Rightarrow> 'a \<Rightarrow> int) \<Rightarrow> 'a list \<Rightarrow> 'a list" where
  "msort_ref cmp xs =
     (if length xs < 2 then xs
      else merge_ref cmp (msort_ref cmp (take (length xs div 2) xs))
             (msort_ref cmp (drop (length xs div 2) xs)))"
  by pat_completeness auto
termination
  by (relation "measure (\<lambda>(cmp, xs). length xs)") auto

declare msort_ref.simps [simp del]

fun bpass :: "('a \<Rightarrow> 'a \<Rightarrow> int) \<Rightarrow> 'a list \<Rightarrow> 'a list" where
  "bpass cmp (x # y # zs) =
     (if cmp x y \<le> 0 then y # bpass cmp (x # zs) else x # bpass cmp (y # zs))"
| "bpass cmp xs = xs"

text \<open>No later element is strictly above an earlier one.\<close>

definition ordered :: "('a \<Rightarrow> 'a \<Rightarrow> int) \<Rightarrow> 'a list \<Rightarrow> bool" where
  "ordered cmp = sorted_wrt (\<lambda>a b. \<not> 0 < cmp b a)"

lemma ordered_simps [simp]:
  "ordered cmp []"
  "ordered cmp (x # xs) \<longleftrightarrow> (\<forall>y \<in> set xs. \<not> 0 < cmp y x) \<and> ordered cmp xs"
  by (simp_all add: ordered_def)

lemma ordered_append:
  "ordered cmp (xs @ ys) \<longleftrightarrow> ordered cmp xs \<and> ordered cmp ys \<and> (\<forall>x \<in> set xs. \<forall>y \<in> set ys. \<not> 0 < cmp y x)"
  by (simp add: ordered_def sorted_wrt_append)

lemma mset_merge_ref [simp]: "mset (merge_ref cmp xs ys) = mset xs + mset ys"
  by (induction cmp xs ys rule: merge_ref.induct) auto

lemma merge_ref_Nil2 [simp]: "merge_ref cmp xs [] = xs"
  by (cases xs) auto

lemma set_merge_ref [simp]: "set (merge_ref cmp xs ys) = set xs \<union> set ys"
  by (metis mset_merge_ref set_mset_mset set_mset_union)

lemma length_merge_ref [simp]: "length (merge_ref cmp xs ys) = length xs + length ys"
  by (metis mset_merge_ref size_mset size_union)

lemma mset_msort_ref [simp]: "mset (msort_ref cmp xs) = mset xs"
proof (induction cmp xs rule: msort_ref.induct)
  case (1 cmp xs)
  show ?case
  proof (cases "length xs < 2")
    case True
    then show ?thesis by (simp add: msort_ref.simps [of cmp xs])
  next
    case False
    then show ?thesis using 1
      by (simp add: msort_ref.simps [of cmp xs]) (metis append_take_drop_id mset_append)
  qed
qed

lemma length_msort_ref [simp]: "length (msort_ref cmp xs) = length xs"
  by (metis mset_msort_ref size_mset)

lemma mset_bpass [simp]: "mset (bpass cmp xs) = mset xs"
  by (induction cmp xs rule: bpass.induct) auto

lemma length_bpass [simp]: "length (bpass cmp xs) = length xs"
  by (metis mset_bpass size_mset)

lemma set_bpass [simp]: "set (bpass cmp xs) = set xs"
  by (metis mset_bpass set_mset_mset)

context comparator
begin

lemma not_below_trans: "\<not> 0 < cmp b a \<Longrightarrow> \<not> 0 < cmp c b \<Longrightarrow> \<not> 0 < cmp c a"
  using cmp_trans by blast

lemma ordered_below_head:
  "ordered cmp (y # ys) \<Longrightarrow> \<not> 0 < cmp y x \<Longrightarrow> z \<in> set (y # ys) \<Longrightarrow> \<not> 0 < cmp z x"
  using cmp_trans [of z y x] by auto

lemma merge_ref_ordered: "ordered cmp xs \<Longrightarrow> ordered cmp ys \<Longrightarrow> ordered cmp (merge_ref cmp xs ys)"
proof (induction "length xs + length ys" arbitrary: xs ys)
  case 0
  then show ?case by simp
next
  case (Suc n)
  show ?case
  proof (cases "xs = [] \<or> ys = []")
    case True
    then show ?thesis using Suc.prems by auto
  next
    case False
    then obtain x xs' y ys' where c: "xs = x # xs'" "ys = y # ys'" by (metis neq_Nil_conv)
    show ?thesis
    proof (cases "0 < cmp x y")
      case True
      have "\<not> 0 < cmp z x" if "z \<in> set ys" for z
        using ordered_below_head [of y ys' x z] Suc.prems(2) that True cmp_asym c(2) by blast
      moreover have "ordered cmp (merge_ref cmp xs' ys)"
        using Suc.hyps(1) [of xs' ys] Suc.hyps(2) Suc.prems c by simp
      ultimately show ?thesis using True Suc.prems(1) by (auto simp: c)
    next
      case False
      have "\<not> 0 < cmp z y" if "z \<in> set xs" for z
        using ordered_below_head [of x xs' y z] Suc.prems(1) that False c(1) by blast
      moreover have "ordered cmp (merge_ref cmp xs ys')"
        using Suc.hyps(1) [of xs ys'] Suc.hyps(2) Suc.prems c by simp
      ultimately show ?thesis using False Suc.prems(2) by (auto simp: c)
    qed
  qed
qed

lemma msort_ref_ordered: "ordered cmp (msort_ref cmp xs)"
proof (induction "length xs" arbitrary: xs rule: less_induct)
  case less
  show ?case
  proof (cases "length xs < 2")
    case True
    then show ?thesis by (cases xs; cases "tl xs") (simp_all add: msort_ref.simps)
  next
    case False
    then show ?thesis using less by (subst msort_ref.simps) (auto intro!: merge_ref_ordered)
  qed
qed

lemma bpass_ordered: "ordered cmp xs \<Longrightarrow> ordered cmp (bpass cmp xs)"
proof (induction "length xs" arbitrary: xs)
  case 0
  then show ?case by simp
next
  case (Suc n)
  then obtain x ys where xs: "xs = x # ys" by (cases xs) auto
  show ?case
  proof (cases ys)
    case Nil
    then show ?thesis by (simp add: xs)
  next
    case (Cons y zs)
    have IH: "ordered cmp (bpass cmp (x # zs))" "ordered cmp (bpass cmp (y # zs))"
      using Suc xs Cons by auto
    show ?thesis using IH Suc.prems by (auto simp: xs Cons)
  qed
qed

text \<open>A pass moves an element to the end that none is below.\<close>

lemma bpass_last: "y \<in> set xs \<Longrightarrow> \<not> 0 < cmp (last (bpass cmp xs)) y"
proof (induction "length xs" arbitrary: xs y)
  case 0
  then show ?case by simp
next
  case (Suc n)
  then obtain x ys where xs: "xs = x # ys" by (cases xs) auto
  show ?case
  proof (cases ys)
    case Nil
    then show ?thesis using Suc.prems by (simp add: xs cmp_irrefl)
  next
    case (Cons z zs)
    have ne: "bpass cmp (w # zs) \<noteq> []" for w by (metis length_bpass length_0_conv list.distinct(1))
    show ?thesis
    proof (cases "cmp x z \<le> 0")
      case True
      have IH: "\<not> 0 < cmp (last (bpass cmp (x # zs))) w" if "w \<in> set (x # zs)" for w
        using Suc xs Cons that by auto
      then have "\<not> 0 < cmp (last (bpass cmp (x # zs))) z"
        using cmp_trans [of "last (bpass cmp (x # zs))" x z] True by auto
      then show ?thesis using Suc.prems IH True ne by (auto simp: xs Cons)
    next
      case False
      have IH: "\<not> 0 < cmp (last (bpass cmp (z # zs))) w" if "w \<in> set (z # zs)" for w
        using Suc xs Cons that by auto
      then have "\<not> 0 < cmp (last (bpass cmp (z # zs))) x"
        using cmp_trans [of "last (bpass cmp (z # zs))" z x] False cmp_asym [of x z] by auto
      then show ?thesis using Suc.prems IH False ne by (auto simp: xs Cons)
    qed
  qed
qed

text \<open>A pass over a list whose tail \<open>vs\<close> is in place only works on the part in front.\<close>

lemma bpass_append:
  "us \<noteq> [] \<Longrightarrow> bpass cmp (us @ vs) = butlast (bpass cmp us) @ bpass cmp (last (bpass cmp us) # vs)"
proof (induction "length us" arbitrary: us)
  case 0
  then show ?case by simp
next
  case (Suc n)
  then obtain x ys where us: "us = x # ys" by (cases us) auto
  show ?case
  proof (cases ys)
    case Nil
    then show ?thesis by (simp add: us)
  next
    case (Cons z zs)
    have ne: "bpass cmp (w # zs) \<noteq> []" for w by (metis length_bpass length_0_conv list.distinct(1))
    have "bpass cmp ((w # zs) @ vs)
        = butlast (bpass cmp (w # zs)) @ bpass cmp (last (bpass cmp (w # zs)) # vs)" for w
      using Suc.hyps(1) [of "w # zs"] Suc.hyps(2) us Cons by simp
    then show ?thesis using ne by (simp add: us Cons)
  qed
qed

definition settled :: "'a list \<Rightarrow> nat \<Rightarrow> bool" where
  "settled xs k \<longleftrightarrow> (\<exists>us vs. xs = us @ vs \<and> length vs = k \<and> ordered cmp vs \<and>
     (\<forall>u \<in> set us. \<forall>v \<in> set vs. \<not> 0 < cmp v u))"

lemma settled_0: "settled xs 0"
  by (simp add: settled_def)

lemma settled_ordered: "settled xs k \<Longrightarrow> length xs \<le> Suc k \<Longrightarrow> ordered cmp xs"
proof -
  assume s: "settled xs k" and l: "length xs \<le> Suc k"
  then obtain us vs where x: "xs = us @ vs" "length vs = k" "ordered cmp vs"
    "\<forall>u \<in> set us. \<forall>v \<in> set vs. \<not> 0 < cmp v u" by (auto simp: settled_def)
  then have "length us \<le> 1" using l by simp
  then have "us = [] \<or> (\<exists>u. us = [u])" by (cases us) auto
  then show ?thesis using x by auto
qed

lemma settled_bpass:
  assumes "settled xs k" and "k < length xs"
  shows "settled (bpass cmp xs) (Suc k)"
proof -
  obtain us vs where x: "xs = us @ vs" "length vs = k" "ordered cmp vs"
    "\<forall>u \<in> set us. \<forall>v \<in> set vs. \<not> 0 < cmp v u" using assms(1) by (auto simp: settled_def)
  have ne: "us \<noteq> []" using x assms(2) by auto
  let ?b = "bpass cmp us"
  have bne: "?b \<noteq> []" using ne by (metis length_bpass length_0_conv)
  then have sp: "?b = butlast ?b @ [last ?b]" by simp
  then have sub: "set (butlast ?b) \<subseteq> set us" "last ?b \<in> set us"
    by (metis in_set_butlastD set_bpass subsetI) (use bne in \<open>metis last_in_set set_bpass\<close>)
  have "ordered cmp (bpass cmp (last ?b # vs))"
    using x(3,4) sub(2) by (intro bpass_ordered) simp
  moreover have "\<not> 0 < cmp v u" if "u \<in> set (butlast ?b)" "v \<in> set (bpass cmp (last ?b # vs))" for u v
    using that x(4) sub bpass_last [of u us] by auto
  ultimately show ?thesis
    unfolding settled_def x(1) bpass_append [OF ne]
    using x(2) by (intro exI [of _ "butlast ?b"] exI [of _ "bpass cmp (last ?b # vs)"]) simp
qed

text \<open>A pass without an exchange means the list was in order.\<close>

lemma no_swaps_ordered: "(\<forall>j. Suc j < length xs \<longrightarrow> 0 < cmp (xs ! j) (xs ! Suc j)) \<Longrightarrow> ordered cmp xs"
proof (induction xs)
  case Nil
  then show ?case by simp
next
  case (Cons x xs)
  have o: "ordered cmp xs" using Cons.prems by (intro Cons.IH) fastforce
  show ?case
  proof (cases xs)
    case Nil
    then show ?thesis by simp
  next
    case c: (Cons y ys)
    have "0 < cmp x y" using Cons.prems [rule_format, of 0] by (simp add: c)
    then have "\<not> 0 < cmp z x" if "z \<in> set xs" for z
      using ordered_below_head [of y ys x z] that o c cmp_asym by blast
    then show ?thesis using o by simp
  qed
qed

end

section \<open>The array loops compute the list functions\<close>

definition arr :: "'a darray \<Rightarrow> 'a list \<Rightarrow> bool" where
  "arr d xs \<longleftrightarrow> darray_ok d \<and> darray_list d = map Some xs"

lemma arr_end: "arr d xs \<Longrightarrow> d_end d = int (length xs)"
  using length_darray_list [of d] darray_ok_end(1) [of d] by (auto simp: arr_def)

lemma arr_max: "arr d xs \<Longrightarrow> int (length xs) < INT_MAX"
  using arr_end [of d xs] darray_ok_end(2) [of d] by (simp add: arr_def) (simp add: darray_ok_def)

lemma arr_get [run_simps]: "arr d xs \<Longrightarrow> i < length xs \<Longrightarrow> Darray_get d (int i) = Inr (Some (xs ! i))"
  using Darray_get_ok [of d "int i"] arr_end [of d xs] by (simp add: arr_def)

lemma arr_set:
  assumes "arr d xs" and "i < length xs"
  shows "Darray_set d (int i) (Some v) = Inr (d\<lparr>contents := (contents d)[i := Val (Some v)]\<rparr>)"
    and "arr (d\<lparr>contents := (contents d)[i := Val (Some v)]\<rparr>) (xs[i := v])"
  using Darray_set_ok [of d "int i" "Some v"] arr_end [OF assms(1)] assms
  by (auto simp: arr_def map_update)

lemma merge_put_ok:
  assumes "arr a zs" and "int i < INT_MAX" and "k < length zs"
  shows "\<exists>cs. merge_put (Some v) (int i) (int k) a = Inr (int (Suc i), int (Suc k), a\<lparr>contents := cs\<rparr>) \<and>
    arr (a\<lparr>contents := cs\<rparr>) (zs[k := v])"
proof -
  have "c_add (int i) 1 = Inr (int (Suc i))" "c_add (int k) 1 = Inr (int (Suc k))"
    using arr_max [OF assms(1)] assms(2,3) by (auto simp: c_add_def INT_MIN_def)
  then show ?thesis
    using arr_set [OF assms(1,3), of v] by (auto simp: merge_put_def)
qed

lemma merge_take_ok:
  assumes "arr src us" and "arr a zs" and "i < length us" and "k < length zs"
  shows "\<exists>cs. merge_take src (int i) (int k) a = Inr (int (Suc i), int (Suc k), a\<lparr>contents := cs\<rparr>) \<and>
    arr (a\<lparr>contents := cs\<rparr>) (zs[k := us ! i])"
  using merge_put_ok [OF assms(2) _ assms(4), of i "us ! i"] arr_max [OF assms(1)] arr_get [OF assms(1,3)] assms(3)
  by (simp add: merge_take_def)

lemma take_update_snoc: "k < length zs \<Longrightarrow> take (Suc k) (zs[k := v]) = take k zs @ [v]"
  by (simp add: take_Suc_conv_app_nth)

lemma merge_copy_rest:
  assumes "arr src us" and "arr (a\<lparr>contents := cs\<rparr>) zs" and "i \<le> length us"
    and "take k zs @ drop i us @ rest = T" and "length T = length zs" and "k \<le> length zs"
  shows "\<exists>cs' zs'. merge_rest src (int (length us))
      (int i, int k, a\<lparr>contents := cs\<rparr>) = Inr (int (length us), int (k + (length us - i)), a\<lparr>contents := cs'\<rparr>) \<and>
    arr (a\<lparr>contents := cs'\<rparr>) zs' \<and> length zs' = length zs \<and> take (k + (length us - i)) zs' @ rest = T"
  using assms(2-6)
proof (induction "length us - i" arbitrary: i k cs zs)
  case 0
  then show ?case by (auto simp: merge_rest_def)
next
  case (Suc n)
  have i: "i < length us" using Suc.hyps(2) by simp
  have "length (take k zs) + length (drop i us) \<le> length zs"
    using Suc.prems(3,4) by (metis append_assoc le_add1 length_append)
  then have k: "k < length zs" using i Suc.prems(5) by simp
  obtain cs1 where m: "merge_take src (int i) (int k) (a\<lparr>contents := cs\<rparr>)
      = Inr (int (Suc i), int (Suc k), a\<lparr>contents := cs1\<rparr>)" "arr (a\<lparr>contents := cs1\<rparr>) (zs[k := us ! i])"
    using merge_take_ok [OF assms(1) Suc.prems(1) i k] by auto
  have "take (Suc k) (zs[k := us ! i]) @ drop (Suc i) us @ rest = T"
    using Suc.prems(3) Cons_nth_drop_Suc [OF i] take_update_snoc [OF k]
    by (metis append_Cons append_Nil append_assoc)
  moreover have "n = length us - Suc i" using Suc.hyps(2) by simp
  ultimately obtain cs' zs' where "merge_rest src (int (length us))
      (int (Suc i), int (Suc k), a\<lparr>contents := cs1\<rparr>)
      = Inr (int (length us), int (Suc k + (length us - Suc i)), a\<lparr>contents := cs'\<rparr>)"
    "arr (a\<lparr>contents := cs'\<rparr>) zs'" "length zs' = length zs" "take (Suc k + (length us - Suc i)) zs' @ rest = T"
    using Suc.hyps(1) [of "Suc i" cs1 "zs[k := us ! i]" "Suc k"] m(2) i k Suc.prems(4) by auto
  moreover have "Suc k + (length us - Suc i) = k + (length us - i)" using i by simp
  ultimately show ?case using i m(1) unfolding merge_rest_def by (subst cwhile_go) auto
qed

lemma merge_ref_drop:
  assumes "i < length xs" and "j < length ys"
  shows "merge_ref cmp (drop i xs) (drop j ys) =
    (if 0 < cmp (xs ! i) (ys ! j) then xs ! i # merge_ref cmp (drop (Suc i) xs) (drop j ys)
     else ys ! j # merge_ref cmp (drop i xs) (drop (Suc j) ys))"
  by (simp add: Cons_nth_drop_Suc [OF assms(1), symmetric] Cons_nth_drop_Suc [OF assms(2), symmetric])

text \<open>The first loop: what is written so far, followed by the merge of what is left, is the result.\<close>

definition merge_inv ::
  "('a \<Rightarrow> 'a \<Rightarrow> int) \<Rightarrow> 'a list \<Rightarrow> 'a list \<Rightarrow> 'a darray \<Rightarrow> int \<times> int \<times> int \<times> 'a darray \<Rightarrow> bool" where
  "merge_inv cmp xs ys a st \<longleftrightarrow> (\<exists>i j cs zs. st = (int i, int j, int (i + j), a\<lparr>contents := cs\<rparr>) \<and>
     arr (a\<lparr>contents := cs\<rparr>) zs \<and> length zs = length xs + length ys \<and> i \<le> length xs \<and> j \<le> length ys \<and>
     take (i + j) zs @ merge_ref cmp (drop i xs) (drop j ys) = merge_ref cmp xs ys)"

lemma merge_first_loop:
  assumes "arr l xs" and "arr r ys" and "arr a zs" and "length zs = length xs + length ys"
  shows "\<exists>st. cwhile (\<lambda>st. fst st < int (length xs) \<and> fst (snd st) < int (length ys))
      (merge_choose l r cmp) (0, 0, 0, a) = Inr st \<and> merge_inv cmp xs ys a st \<and>
    \<not> (fst st < int (length xs) \<and> fst (snd st) < int (length ys))"
proof (rule cwhile_measure [where m = "\<lambda>st. nat (int (length xs) - fst st) + nat (int (length ys) - fst (snd st))"])
  show "merge_inv cmp xs ys a (0, 0, 0, a)"
    unfolding merge_inv_def using assms(3,4)
    by (intro exI [of _ "0 :: nat"] exI [of _ "contents a"] exI [of _ zs]) simp
  fix st
  assume inv: "merge_inv cmp xs ys a st"
    and b: "fst st < int (length xs) \<and> fst (snd st) < int (length ys)"
  then obtain i j cs us where st: "st = (int i, int j, int (i + j), a\<lparr>contents := cs\<rparr>)"
    and P': "arr (a\<lparr>contents := cs\<rparr>) us" "length us = length xs + length ys"
      "take (i + j) us @ merge_ref cmp (drop i xs) (drop j ys) = merge_ref cmp xs ys"
    unfolding merge_inv_def by blast
  have ij: "i < length xs" "j < length ys" using b st by simp_all
  note P = P'(1,2) ij P'(3)
  have k: "i + j < length us" using P by simp
  show "\<exists>st'. merge_choose l r cmp st = Inr st' \<and>
      merge_inv cmp xs ys a st' \<and>
      nat (int (length xs) - fst st') + nat (int (length ys) - fst (snd st'))
        < nat (int (length xs) - fst st) + nat (int (length ys) - fst (snd st))"
  proof (cases "0 < cmp (xs ! i) (ys ! j)")
    case True
    have "int i < INT_MAX" using arr_max [OF assms(1)] P(3) by simp
    then obtain cs1 where m: "merge_put (Some (xs ! i)) (int i) (int (i + j)) (a\<lparr>contents := cs\<rparr>)
        = Inr (int (Suc i), int (Suc (i + j)), a\<lparr>contents := cs1\<rparr>)"
        "arr (a\<lparr>contents := cs1\<rparr>) (us[i + j := xs ! i])"
      using merge_put_ok [OF P(1) _ k, of i "xs ! i"] by auto
    have "merge_inv cmp xs ys a (int (Suc i), int j, int (Suc (i + j)), a\<lparr>contents := cs1\<rparr>)"
      unfolding merge_inv_def using P m(2) k True
      by (intro exI [of _ "Suc i"] exI [of _ j] exI [of _ cs1] exI [of _ "us[i + j := xs ! i]"])
        (simp add: take_update_snoc merge_ref_drop)
    then show ?thesis using True m(1) P(3,4) arr_get [OF assms(1) P(3)] arr_get [OF assms(2) P(4)]
      by (simp add: st merge_choose_def)
  next
    case False
    have "int j < INT_MAX" using arr_max [OF assms(2)] P(4) by simp
    then obtain cs1 where m: "merge_put (Some (ys ! j)) (int j) (int (i + j)) (a\<lparr>contents := cs\<rparr>)
        = Inr (int (Suc j), int (Suc (i + j)), a\<lparr>contents := cs1\<rparr>)"
        "arr (a\<lparr>contents := cs1\<rparr>) (us[i + j := ys ! j])"
      using merge_put_ok [OF P(1) _ k, of j "ys ! j"] by auto
    have "merge_inv cmp xs ys a (int i, int (Suc j), int (Suc (i + j)), a\<lparr>contents := cs1\<rparr>)"
      unfolding merge_inv_def using P m(2) k False
      by (intro exI [of _ i] exI [of _ "Suc j"] exI [of _ cs1] exI [of _ "us[i + j := ys ! j]"])
        (simp add: take_update_snoc merge_ref_drop)
    then show ?thesis using False m(1) P(3,4) arr_get [OF assms(1) P(3)] arr_get [OF assms(2) P(4)]
      by (simp add: st merge_choose_def)
  qed
qed

lemma Darray_merge_ok:
  assumes "arr l xs" and "arr r ys" and "arr a zs" and "length zs = length xs + length ys"
  shows "\<exists>cs. Darray_merge l r a (int (length xs)) (int (length ys)) cmp = Inr (a\<lparr>contents := cs\<rparr>) \<and>
    arr (a\<lparr>contents := cs\<rparr>) (merge_ref cmp xs ys)"
proof -
  obtain st where 1: "cwhile (\<lambda>st. fst st < int (length xs) \<and> fst (snd st) < int (length ys))
      (merge_choose l r cmp) (0, 0, 0, a) = Inr st" and "merge_inv cmp xs ys a st"
    and e': "\<not> (fst st < int (length xs) \<and> fst (snd st) < int (length ys))"
    using merge_first_loop [OF assms, of cmp] by blast
  then obtain i j cs us where st: "st = (int i, int j, int (i + j), a\<lparr>contents := cs\<rparr>)"
    and P: "arr (a\<lparr>contents := cs\<rparr>) us" "length us = length xs + length ys" "i \<le> length xs" "j \<le> length ys"
      "take (i + j) us @ merge_ref cmp (drop i xs) (drop j ys) = merge_ref cmp xs ys"
    unfolding merge_inv_def by blast
  have e: "\<not> (i < length xs \<and> j < length ys)" using e' st by simp
  have "merge_ref cmp (drop i xs) (drop j ys) = drop i xs @ drop j ys" using e by auto
  then have T: "take (i + j) us @ drop i xs @ drop j ys = merge_ref cmp xs ys" using P(5) by simp
  obtain cs2 vs where 2: "merge_rest l (int (length xs))
      (int i, int (i + j), a\<lparr>contents := cs\<rparr>)
      = Inr (int (length xs), int (i + j + (length xs - i)), a\<lparr>contents := cs2\<rparr>)"
    "arr (a\<lparr>contents := cs2\<rparr>) vs" "length vs = length us"
    "take (i + j + (length xs - i)) vs @ drop j ys = merge_ref cmp xs ys"
    using merge_copy_rest [OF assms(1) P(1,3) T] P by auto
  obtain cs3 ws where 3: "merge_rest r (int (length ys))
      (int j, int (i + j + (length xs - i)), a\<lparr>contents := cs2\<rparr>)
      = Inr (int (length ys), int (i + j + (length xs - i) + (length ys - j)), a\<lparr>contents := cs3\<rparr>)"
    "arr (a\<lparr>contents := cs3\<rparr>) ws" "length ws = length vs"
    "take (i + j + (length xs - i) + (length ys - j)) ws @ [] = merge_ref cmp xs ys"
    using merge_copy_rest [OF assms(2) 2(2) P(4), of "i + j + (length xs - i)" "[]"] 2(3,4) P(2-4) by auto
  have "ws = merge_ref cmp xs ys" using 3(3,4) 2(3) P(2-4) by simp
  moreover have "Darray_merge l r a (int (length xs)) (int (length ys)) cmp = Inr (a\<lparr>contents := cs3\<rparr>)"
    unfolding Darray_merge_def 1 st by (simp add: 2(1) [simplified] 3(1) [simplified])
  ultimately show ?thesis using 3(2) by auto
qed

section \<open>Two arrays in one memory\<close>

text \<open>Pushing to one array leaves another one, with blocks of its own, alone.\<close>

lemma darray_owned_other:
  assumes "darray_owned r s" and "darray_owned l s" and "darray_blocks l \<inter> darray_blocks r = {}"
    and "darray_step l s l' s'" and "mem_ok s'"
  shows "darray_owned r s'" and "darray_blocks l' \<inter> darray_blocks r = {}"
proof -
  have mem: "mem_ok s" and sub: "darray_blocks r \<subseteq> live s" and nb: "d_buf l \<notin> darray_blocks r"
    using assms(1,3) by (auto simp: darray_owned_def darray_inv_def darray_blocks_def)
  have "p \<in> live s' \<and> p \<noteq> d_buf l'" if "p \<in> darray_blocks r" for p
  proof -
    have "p \<in> live s" "p \<noteq> d_buf l" using that sub nb by auto
    then show ?thesis using darray_step_live [OF assms(4) mem] by blast
  qed
  moreover have "d_addr l' = d_addr l" "d_mtx l' = d_mtx l" using assms(4) by (auto simp: darray_step_def)
  ultimately show "darray_owned r s'" "darray_blocks l' \<inter> darray_blocks r = {}"
    using assms(1,3,5) by (auto simp: darray_owned_def darray_inv_def darray_blocks_def)
qed

lemma rfor_proj:
  assumes "\<And>i s. i \<in> set js \<Longrightarrow> f i (g s) = rbind (h i s) (\<lambda>s'. Inr (g s'))"
  shows "rfor js f (g s) = rbind (rfor js h s) (\<lambda>s'. Inr (g s'))"
  using assms
proof (induction js arbitrary: s)
  case Nil
  then show ?case by simp
next
  case (Cons i js)
  then show ?case by (cases "h i s") auto
qed

lemma rfor_map: "rfor (map k is) f s = rfor is (\<lambda>i. f (k i)) s"
  by (induction "is" arbitrary: s) (auto intro: rbind_cong)

text \<open>The distributing loop: the first \<open>m\<close> elements go left, the others right.\<close>

lemma merge_distribute_left:
  assumes "arr a xs" and "i < length xs" and "int i < m"
  shows "merge_distribute a m i (Some l, right, s) =
    rbind (push_ignore l (xs ! i) s) (\<lambda>(l', s'). Inr (Some l', right, s'))"
  using arr_get [OF assms(1,2)] assms(3)
  by (simp add: merge_distribute_def push_to_def push_ignore_def rbind_assoc split_def)

lemma merge_distribute_right:
  assumes "arr a xs" and "i < length xs" and "m \<le> int i"
  shows "merge_distribute a m i (left, Some r, s) =
    rbind (push_ignore r (xs ! i) s) (\<lambda>(r', s'). Inr (left, Some r', s'))"
  using arr_get [OF assms(1,2)] assms(3)
  by (simp add: merge_distribute_def push_to_def push_ignore_def rbind_assoc split_def)

lemma merge_distribute_loop:
  fixes s :: "'s cmem_scheme"
  assumes "arr a xs" and "m \<le> length xs" and "ample s"
    and "darray_owned l s" and "darray_list l = []" and "darray_owned r s" and "darray_list r = []"
    and "darray_blocks l \<inter> darray_blocks r = {}" and "room l (length xs)" and "room r (length xs)"
  shows "\<exists>l' r' s'. rfor [0..<length xs] (merge_distribute a (int m)) (Some l, Some r, s)
      = Inr (Some l', Some r', s') \<and>
    arr l' (take m xs) \<and> arr r' (drop m xs) \<and> darray_owned l' s' \<and> darray_owned r' s' \<and>
    darray_blocks l' \<inter> darray_blocks r' = {} \<and> ample s' \<and>
    live s' - darray_blocks l' - darray_blocks r' = live s - darray_blocks l - darray_blocks r \<and>
    mem_grow s s' \<and> elementSize l' = elementSize l \<and> elementSize r' = elementSize r"
proof -
  let ?n = "length xs"
  let ?f = "merge_distribute a (int m)"
  have inv: "darray_inv l s" "darray_inv r s" using assms(4,6) by (auto simp: darray_owned_def)
  have rl: "room l (length (take m xs) + 0)" using assms(2,9) by (simp add: room_def)
  obtain l1 s1 where 1: "rfor [0..<length (take m xs)] (\<lambda>i (d, s). push_ignore d (take m xs ! i) s) (l, s)
      = Inr (l1, s1)" "darray_inv l1 s1" "darray_list l1 = map Some (take m xs)" "darray_step l s l1 s1"
      "ample s1"
    using dp.push_list [OF inv(1) assms(3) rl] assms(5) by (auto simp: foldl_snoc_Some)
  have mem1: "mem_ok s1" using 1(2) by (simp add: darray_inv_def)
  have own1: "darray_owned l1 s1" "live s1 - darray_blocks l1 = live s - darray_blocks l"
    using darray_step_owned [OF assms(4) 1(4,2)] by auto
  have r1: "darray_owned r s1" "darray_blocks l1 \<inter> darray_blocks r = {}"
    using darray_owned_other [OF assms(6,4,8) 1(4) mem1] by auto
  have "?f i ((\<lambda>(l, s). (Some l, Some r, s)) st)
      = rbind ((\<lambda>(d, s). push_ignore d (take m xs ! i) s) st) (\<lambda>st'. Inr ((\<lambda>(l, s). (Some l, Some r, s)) st'))"
    if "i \<in> set [0..<m]" for i and st :: "'a darray \<times> 's cmem_scheme"
    using that assms(2) by (cases st) (simp add: merge_distribute_left [OF assms(1)] split_def)
  from rfor_proj [where js = "[0..<m]" and g = "\<lambda>(l, s). (Some l, Some r, s)" and f = ?f
      and h = "\<lambda>i (d, s). push_ignore d (take m xs ! i) s" and s = "(l, s)", OF this]
  have first: "rfor [0..<m] ?f (Some l, Some r, s) = Inr (Some l1, Some r, s1)"
    using 1(1) assms(2) by simp
  have rr: "room r (length (drop m xs) + 0)" using assms(10) by (simp add: room_def)
  have invr: "darray_inv r s1" using r1(1) by (simp add: darray_owned_def)
  obtain r2 s2 where 2: "rfor [0..<length (drop m xs)] (\<lambda>i (d, s). push_ignore d (drop m xs ! i) s) (r, s1)
      = Inr (r2, s2)" "darray_inv r2 s2" "darray_list r2 = map Some (drop m xs)" "darray_step r s1 r2 s2"
      "ample s2"
    using dp.push_list [OF invr 1(5) rr] assms(7) by (auto simp: foldl_snoc_Some)
  have mem2: "mem_ok s2" using 2(2) by (simp add: darray_inv_def)
  have own2: "darray_owned r2 s2" "live s2 - darray_blocks r2 = live s1 - darray_blocks r"
    using darray_step_owned [OF r1(1) 2(4,2)] by auto
  have l2: "darray_owned l1 s2" "darray_blocks r2 \<inter> darray_blocks l1 = {}"
    using darray_owned_other [OF own1(1) r1(1) _ 2(4) mem2] r1(2) by (auto simp: Int_commute)
  have up: "[m..<?n] = map (\<lambda>i. i + m) [0..<?n - m]" using assms(2) by (simp add: map_add_upt)
  have "?f (i + m) ((\<lambda>(r, s). (Some l1, Some r, s)) st)
      = rbind ((\<lambda>(d, s). push_ignore d (drop m xs ! i) s) st) (\<lambda>st'. Inr ((\<lambda>(r, s). (Some l1, Some r, s)) st'))"
    if "i \<in> set [0..<?n - m]" for i and st :: "'a darray \<times> 's cmem_scheme"
    using that assms(2)
    by (cases st) (simp add: merge_distribute_right [OF assms(1)] split_def add.commute)
  from rfor_proj [where js = "[0..<?n - m]" and g = "\<lambda>(r, s). (Some l1, Some r, s)" and f = "\<lambda>i. ?f (i + m)"
      and h = "\<lambda>i (d, s). push_ignore d (drop m xs ! i) s" and s = "(r, s1)", OF this]
  have second: "rfor [m..<?n] ?f (Some l1, Some r, s1) = Inr (Some l1, Some r2, s2)"
    using 2(1) by (simp add: up rfor_map)
  have "[0..<?n] = [0..<m] @ [m..<?n]" using assms(2) by (metis le0 upt_add_eq_append le_add_diff_inverse)
  then have "rfor [0..<?n] ?f (Some l, Some r, s) = Inr (Some l1, Some r2, s2)"
    using first second by (simp add: rfor_append)
  moreover have "live s2 - darray_blocks l1 - darray_blocks r2 = live s - darray_blocks l - darray_blocks r"
  proof -
    have "live s2 - darray_blocks l1 - darray_blocks r2 = (live s1 - darray_blocks r) - darray_blocks l1"
      using own2(2) by blast
    also have "\<dots> = (live s - darray_blocks l) - darray_blocks r" using own1(2) by blast
    finally show ?thesis .
  qed
  moreover have "mem_grow s s2" using 1(4) 2(4) by (auto simp: mem_grow_def darray_step_def)
  moreover have "elementSize l1 = elementSize l" "elementSize r2 = elementSize r"
    using 1(4) 2(4) by (auto simp: darray_step_def)
  ultimately show ?thesis
    using 1(2,3) 2(2,3,5) own2(1) l2 by (auto simp: arr_def darray_inv_def)
qed

section \<open>Merge sort\<close>

lemma darray_owned_same:
  assumes "darray_owned d s" and "darray_ok (d\<lparr>contents := cs\<rparr>)" and "darray_blocks d \<subseteq> live s'" and "mem_ok s'"
  shows "darray_owned (d\<lparr>contents := cs\<rparr>) s'"
  using assms by (auto simp: darray_owned_def darray_inv_def darray_blocks_def)

lemma darray_blocks_contents [simp]: "darray_blocks (d\<lparr>contents := cs\<rparr>) = darray_blocks d"
  by (simp add: darray_blocks_def)

lemma mem_grow_trans: "mem_grow s s1 \<Longrightarrow> mem_grow s1 s2 \<Longrightarrow> mem_grow s s2"
  by (auto simp: mem_grow_def)

lemma mem_grow_live: "mem_grow s s' \<Longrightarrow> mem_grow s (s'\<lparr>live := A\<rparr>)"
  by (simp add: mem_grow_def)

definition sort_capacity :: "nat \<Rightarrow> bool" where
  "sort_capacity n \<longleftrightarrow> int n + int DEFAULT_EXPAND_RATE \<le> INT_MAX"

text \<open>The two scratch arrays: created, filled, and everything known about their blocks.\<close>

lemma merge_split:
  fixes a :: "'a darray" and s :: "'s cmem_scheme"
  assumes "arr a xs" and "mem_ok s" and "ample s" and "0 < elementSize a" and "2 \<le> length xs"
    and "sort_capacity (length xs)"
  defines "m \<equiv> length xs div 2"
  shows "\<exists>l0 s1 r0 s2 l r s3. Darray_create (elementSize a) m s = Inr (Some l0, s1) \<and>
    Darray_create (elementSize a) (length xs - m) s1 = Inr (Some r0, s2) \<and>
    rfor [0..<length xs] (merge_distribute a (int m)) (Some l0, Some r0, s2) = Inr (Some l, Some r, s3) \<and>
    arr l (take m xs) \<and> arr r (drop m xs) \<and> darray_owned l s3 \<and> darray_owned r s3 \<and>
    darray_blocks l \<inter> darray_blocks r = {} \<and> ample s3 \<and> mem_grow s s3 \<and>
    live s3 - darray_blocks l - darray_blocks r = live s \<and>
    elementSize l = elementSize a \<and> elementSize r = elementSize a"
proof -
  have b: "0 < m" "int m \<le> INT_MAX" "0 < length xs - m" "int (length xs - m) \<le> INT_MAX" "m \<le> length xs"
    using assms(5,6) by (auto simp: m_def sort_capacity_def DEFAULT_EXPAND_RATE_def)
  obtain l0 :: "'a darray" and s1 where 1: "Darray_create (elementSize a) m s = Inr (Some l0, s1)"
    "darray_owned l0 s1" "darray_list l0 = []" "d_end l0 = 0" "elementSize l0 = elementSize a"
    "live s1 = live s \<union> darray_blocks l0" "darray_blocks l0 \<inter> live s = {}" "mem_grow s s1" "ample s1"
    using Darray_create_ok [OF assms(2,3,4) b(1,2)] by blast
  have m1: "mem_ok s1" using 1(2) by (simp add: darray_owned_def darray_inv_def)
  obtain r0 :: "'a darray" and s2 where 2: "Darray_create (elementSize a) (length xs - m) s1 = Inr (Some r0, s2)"
    "darray_owned r0 s2" "darray_list r0 = []" "d_end r0 = 0" "elementSize r0 = elementSize a"
    "live s2 = live s1 \<union> darray_blocks r0" "darray_blocks r0 \<inter> live s1 = {}" "mem_grow s1 s2" "ample s2"
    using Darray_create_ok [OF m1 1(9) assms(4) b(3,4)] by blast
  have m2: "mem_ok s2" using 2(2) by (simp add: darray_owned_def darray_inv_def)
  have l2: "darray_owned l0 s2"
    using 1(2) 2(6) m2 by (auto simp: darray_owned_def darray_inv_def darray_blocks_def)
  have dis: "darray_blocks l0 \<inter> darray_blocks r0 = {}"
    using 1(2) 2(7) unfolding darray_owned_def by blast
  have rooms: "room l0 (length xs)" "room r0 (length xs)"
    using 1(4) 2(4) assms(6) by (auto simp: room_def sort_capacity_def)
  obtain l r s3 where 3: "rfor [0..<length xs] (merge_distribute a (int m)) (Some l0, Some r0, s2)
      = Inr (Some l, Some r, s3)" "arr l (take m xs)" "arr r (drop m xs)" "darray_owned l s3" "darray_owned r s3"
    "darray_blocks l \<inter> darray_blocks r = {}" "ample s3"
    "live s3 - darray_blocks l - darray_blocks r = live s2 - darray_blocks l0 - darray_blocks r0"
    "mem_grow s2 s3" "elementSize l = elementSize l0" "elementSize r = elementSize r0"
    using merge_distribute_loop [OF assms(1) b(5) 2(9) l2 1(3) 2(2,3) dis rooms] by blast
  have "live s2 - darray_blocks l0 - darray_blocks r0 = live s" using 1(6,7) 2(6,7) by blast
  moreover have "mem_grow s s3" using mem_grow_trans 1(8) 2(8) 3(9) by blast
  ultimately show ?thesis using 1(1,5) 2(1,5) 3 by metis
qed

lemma top_down_unfold:
  assumes "2 \<le> n" and "int n \<le> INT_MAX"
  shows "Darray_merge_top_down a (int n) cmp s =
    rbind (Darray_create (elementSize a) (n div 2) s) (\<lambda>(left, s1).
    rbind (Darray_create (elementSize a) (n - n div 2) s1) (\<lambda>(right, s2).
    rbind (rfor [0..<n] (merge_distribute a (int (n div 2))) (left, right, s2)) (\<lambda>(left1, right1, s3).
    case left1 of None \<Rightarrow> Inl Null_Deref | Some l \<Rightarrow> (case right1 of None \<Rightarrow> Inl Null_Deref | Some r \<Rightarrow>
    rbind (Darray_merge_top_down l (int (n div 2)) cmp s3) (\<lambda>(l1, s4).
    rbind (Darray_merge_top_down r (int (n - n div 2)) cmp s4) (\<lambda>(r1, s5).
    rbind (Darray_merge l1 r1 a (int (n div 2)) (int (n - n div 2)) cmp) (\<lambda>array1.
    rbind (Darray_destroy l1 s5) (\<lambda>s6.
    rbind (Darray_destroy r1 s6) (\<lambda>s7. Inr (array1, s7))))))))))"
proof -
  have e: "int n div 2 = int (n div 2)" "int n - int (n div 2) = int (n - n div 2)"
    "\<not> int n < 2" "nat (int n) = n"
    using assms(1) by (simp_all add: zdiv_int of_nat_diff)
  have z: "size_t_of_int (int k) = k" if "k \<le> n" for k
    using that assms(2) by (simp add: INT_MAX_def)
  show ?thesis
    by (subst Darray_merge_top_down.simps)
      (simp only: e z [of "n div 2"] z [of "n - n div 2"] if_False diff_le_self div_le_dividend simp_thms)
qed

lemma Darray_merge_top_down_ok:
  fixes a :: "'a darray" and s :: "'s cmem_scheme"
  assumes "arr a xs" and "mem_ok s" and "ample s" and "0 < elementSize a" and "sort_capacity (length xs)"
  shows "\<exists>cs s'. Darray_merge_top_down a (int (length xs)) cmp s = Inr (a\<lparr>contents := cs\<rparr>, s') \<and>
    arr (a\<lparr>contents := cs\<rparr>) (msort_ref cmp xs) \<and> live s' = live s \<and> mem_grow s s' \<and> ample s' \<and> mem_ok s'"
  using assms
proof (induction "length xs" arbitrary: a xs s rule: less_induct)
  case less
  show ?case
  proof (cases "length xs < 2")
    case True
    then show ?thesis using less.prems
      by (intro exI [of _ "contents a"] exI [of _ s])
        (simp add: Darray_merge_top_down.simps msort_ref.simps mem_grow_def)
  next
    case False
    let ?m = "length xs div 2"
    have two: "2 \<le> length xs" using False by simp
    obtain l0 s1 r0 s2 l r s3 where 1: "Darray_create (elementSize a) ?m s = Inr (Some l0, s1)"
      "Darray_create (elementSize a) (length xs - ?m) s1 = Inr (Some r0, s2)"
      "rfor [0..<length xs] (merge_distribute a (int ?m)) (Some l0, Some r0, s2) = Inr (Some l, Some r, s3)"
      and lr: "arr l (take ?m xs)" "arr r (drop ?m xs)" "darray_owned l s3" "darray_owned r s3"
      "darray_blocks l \<inter> darray_blocks r = {}" "ample s3" "mem_grow s s3"
      "live s3 - darray_blocks l - darray_blocks r = live s"
      "elementSize l = elementSize a" "elementSize r = elementSize a"
      using merge_split [OF less.prems(1,2,3,4) two less.prems(5)] by blast
    have m3: "mem_ok s3" using lr(3) by (simp add: darray_owned_def darray_inv_def)
    have lt: "length (take ?m xs) < length xs" "length (drop ?m xs) < length xs" using two by auto
    have el: "0 < elementSize l" "0 < elementSize r" using lr(9,10) less.prems(4) by simp_all
    have caps: "sort_capacity (length (take ?m xs))" "sort_capacity (length (drop ?m xs))"
      using less.prems(5) by (auto simp: sort_capacity_def)
    obtain cs1 s4 where 4: "Darray_merge_top_down l (int (length (take ?m xs))) cmp s3 = Inr (l\<lparr>contents := cs1\<rparr>, s4)"
      "arr (l\<lparr>contents := cs1\<rparr>) (msort_ref cmp (take ?m xs))" "live s4 = live s3" "mem_grow s3 s4" "ample s4"
      "mem_ok s4"
      using less.hyps [OF lt(1) lr(1) m3 lr(6) el(1) caps(1)] by blast
    obtain cs2 s5 where 5: "Darray_merge_top_down r (int (length (drop ?m xs))) cmp s4 = Inr (r\<lparr>contents := cs2\<rparr>, s5)"
      "arr (r\<lparr>contents := cs2\<rparr>) (msort_ref cmp (drop ?m xs))" "live s5 = live s4" "mem_grow s4 s5" "ample s5"
      "mem_ok s5"
      using less.hyps [OF lt(2) lr(2) 4(6,5) el(2) caps(2)] by blast
    obtain cs where 6: "Darray_merge (l\<lparr>contents := cs1\<rparr>) (r\<lparr>contents := cs2\<rparr>) a
        (int (length (msort_ref cmp (take ?m xs)))) (int (length (msort_ref cmp (drop ?m xs)))) cmp
        = Inr (a\<lparr>contents := cs\<rparr>)"
      "arr (a\<lparr>contents := cs\<rparr>) (merge_ref cmp (msort_ref cmp (take ?m xs)) (msort_ref cmp (drop ?m xs)))"
      using Darray_merge_ok [OF 4(2) 5(2) less.prems(1)] two by auto
    have bl: "darray_blocks l \<subseteq> live s5" "darray_blocks r \<subseteq> live s5"
      using lr(3,4) 4(3) 5(3) by (auto simp: darray_owned_def)
    have ol: "darray_owned (l\<lparr>contents := cs1\<rparr>) s5"
      using darray_owned_same [OF lr(3) _ bl(1) 5(6)] 4(2) by (simp add: arr_def)
    let ?s6 = "s5\<lparr>live := live s5 - darray_blocks l\<rparr>"
    have m6: "mem_ok ?s6" and b6: "darray_blocks r \<subseteq> live ?s6" using 5(6) bl(2) lr(5) by (auto simp: mem_ok_def)
    have or: "darray_owned (r\<lparr>contents := cs2\<rparr>) ?s6"
      using darray_owned_same [OF lr(4) _ b6 m6] 5(2) by (simp add: arr_def)
    let ?s7 = "?s6\<lparr>live := live ?s6 - darray_blocks r\<rparr>"
    have d: "Darray_destroy (l\<lparr>contents := cs1\<rparr>) s5 = Inr ?s6" "Darray_destroy (r\<lparr>contents := cs2\<rparr>) ?s6 = Inr ?s7"
      using Darray_destroy_ok [OF ol] Darray_destroy_ok [OF or] by simp_all
    have "int (length xs) \<le> INT_MAX" using arr_max [OF less.prems(1)] by simp
    then have "Darray_merge_top_down a (int (length xs)) cmp s = Inr (a\<lparr>contents := cs\<rparr>, ?s7)"
      using 4(1) 5(1) 6(1) unfolding top_down_unfold [OF two \<open>int (length xs) \<le> INT_MAX\<close>] length_msort_ref
      by (simp add: 1 d min_absorb2)
    moreover have "msort_ref cmp xs = merge_ref cmp (msort_ref cmp (take ?m xs)) (msort_ref cmp (drop ?m xs))"
      using False by (subst msort_ref.simps) simp
    moreover have "live ?s7 = live s" using lr(8) 4(3) 5(3) by simp
    moreover have "mem_grow s ?s7" using mem_grow_trans mem_grow_live lr(7) 4(4) 5(4) by metis
    moreover have "mem_ok ?s7" "ample ?s7" using 5(5,6) by (auto simp: mem_ok_def ample_def)
    ultimately show ?thesis using 6(2) by (intro exI [of _ cs] exI [of _ ?s7]) simp
  qed
qed

section \<open>Writing back\<close>

lemma first_of_zip [simp]: "length vs = length xs \<Longrightarrow> first_of (zip (map fst xs) vs) nx = first_of xs nx"
  by (cases xs; cases vs) auto

lemma last_of_zip [simp]: "length vs = length xs \<Longrightarrow> last_of pv (zip (map fst xs) vs) = last_of pv xs"
  by (induction pv xs arbitrary: vs rule: last_of.induct) (auto simp: length_Suc_conv)

lemma lseg_set_val:
  assumes "lseg N pv (xs @ (p, v) # ys) nx" and "p \<notin> addrs xs" and "p \<notin> addrs ys"
  shows "lseg (N(p := map_option (\<lambda>m. m\<lparr>lval := w\<rparr>) (N p))) pv (xs @ (p, w) # ys) nx"
  using assms by (auto simp: lseg_append)

text \<open>After \<open>i\<close> steps the first \<open>i\<close> nodes hold the new values.\<close>

definition half_written :: "(ptr \<times> 'v) list \<Rightarrow> 'v list \<Rightarrow> nat \<Rightarrow> (ptr \<times> 'v) list" where
  "half_written xs vs i = zip (map fst (take i xs)) (take i vs) @ drop i xs"

lemma half_written_fst [simp]: "length vs = length xs \<Longrightarrow> map fst (half_written xs vs i) = map fst xs"
  unfolding half_written_def map_append
  by (subst map_fst_zip) (simp_all flip: map_append)

lemma half_written_split:
  assumes "i < length xs" and "length vs = length xs"
  shows "half_written xs vs i = zip (map fst (take i xs)) (take i vs) @ (fst (xs ! i), snd (xs ! i)) # drop (Suc i) xs"
    and "half_written xs vs (Suc i) = zip (map fst (take i xs)) (take i vs) @ (fst (xs ! i), vs ! i) # drop (Suc i) xs"
  using assms by (simp_all add: half_written_def Cons_nth_drop_Suc take_Suc_conv_app_nth)

lemma list_write_back_ok:
  fixes s :: "('a, 'o, 's) lmem_scheme"
  assumes "list_shape l s xs" and "darray_ok d" and "darray_list d = vs" and "length vs = length xs"
  shows "\<exists>N. list_write_back l d s = Inr (s\<lparr>lnodes := N\<rparr>) \<and>
    list_shape l (s\<lparr>lnodes := N\<rparr>) (zip (map fst xs) vs)"
proof -
  let ?body = "\<lambda>i (node, s :: ('a, 'o, 's) lmem_scheme). rbind (slot_read d (int i)) (\<lambda>v.
    rbind (node_upd node (\<lambda>m. m\<lparr>lval := v\<rparr>) s) (\<lambda>s1. rbind (node_get node s1) (\<lambda>n. Inr (lnext n, s1))))"
  have sh: "lseg (lnodes s) NULL xs NULL" "distinct (map fst xs)" "NULL \<notin> addrs xs"
    "l_first l = first_of xs NULL" "l_count l = int (length xs)"
    using assms(1) by (auto simp: list_shape_def)
  have rd: "slot_read d (int i) = Inr (vs ! i)" if "i < length xs" for i
  proof -
    have i: "i < nat (d_end d)" "i < length (contents d)"
      using that assms(2-4) length_darray_list [OF assms(2)] by (auto simp: darray_ok_def)
    then obtain v where "contents d ! i = Val v" using slot_not_Junk [OF assms(2)] by blast
    then show ?thesis using i assms(3) by (auto simp: slot_read_def darray_list_def)
  qed
  define P where "P i st \<longleftrightarrow> (\<exists>N. st = (first_of (drop i xs) NULL, s\<lparr>lnodes := N\<rparr>) \<and>
    lseg N NULL (half_written xs vs i) NULL)" for i and st :: "ptr \<times> ('a, 'o, 's) lmem_scheme"
  have "\<exists>st. rfor [0..<length xs] ?body (l_first l, s) = Inr st \<and> P (length xs) st"
  proof (rule rfor_invariant)
    show "P 0 (l_first l, s)" using sh
      by (auto simp: P_def half_written_def intro!: exI [of _ "lnodes s"])
    fix i st assume i: "i < length xs" and "P i st"
    then obtain N where st: "st = (first_of (drop i xs) NULL, s\<lparr>lnodes := N\<rparr>)"
      and seg: "lseg N NULL (half_written xs vs i) NULL" by (auto simp: P_def)
    let ?p = "fst (xs ! i)"
    have f: "first_of (drop i xs) NULL = ?p" using nth_first_of [OF i] by metis
    have pz: "?p \<noteq> NULL" using sh(3) i by (metis image_eqI nth_mem)
    have di: "distinct (map fst (half_written xs vs i))" using sh(2) assms(4) by simp
    then have np: "?p \<notin> addrs (zip (map fst (take i xs)) (take i vs))" "?p \<notin> addrs (drop (Suc i) xs)"
      unfolding half_written_split(1) [OF i assms(4)] by auto
    obtain m where m: "N ?p = Some m" "lnext m = first_of (drop (Suc i) xs) NULL"
      using lseg_node [of N NULL "zip (map fst (take i xs)) (take i vs)" ?p "snd (xs ! i)" "drop (Suc i) xs" NULL]
        seg half_written_split(1) [OF i assms(4)] by auto
    let ?N = "N(?p := Some (m\<lparr>lval := vs ! i\<rparr>))"
    have "lseg ?N NULL (half_written xs vs (Suc i)) NULL"
      using lseg_set_val [OF seg [unfolded half_written_split(1) [OF i assms(4)]] np, of "vs ! i"] m(1)
      by (simp add: half_written_split(2) [OF i assms(4)])
    then have "P (Suc i) (first_of (drop (Suc i) xs) NULL, s\<lparr>lnodes := ?N\<rparr>)" by (auto simp: P_def)
    then show "\<exists>st'. ?body i st = Inr st' \<and> P (Suc i) st'"
      using rd [OF i] m pz by (simp add: st f node_upd_def node_get_def)
  qed simp
  then obtain N where 1: "rfor [0..<length xs] ?body (l_first l, s) = Inr (NULL, s\<lparr>lnodes := N\<rparr>)"
    "lseg N NULL (zip (map fst xs) vs) NULL"
    using assms(4) by (auto simp: P_def half_written_def)
  have "list_write_back l d s = Inr (s\<lparr>lnodes := N\<rparr>)"
    using 1(1) sh(5) by (simp add: list_write_back_def)
  moreover have "map fst (zip (map fst xs) vs) = map fst xs" using assms(4) by simp
  then have "addrs (zip (map fst xs) vs) = addrs xs" by (metis set_map)
  then have "list_shape l (s\<lparr>lnodes := N\<rparr>) (zip (map fst xs) vs)"
    using 1(2) assms(1,4) by (auto simp: list_shape_def mem_ok_def)
  ultimately show ?thesis by blast
qed

section \<open>Bubble sort\<close>

lemma arr_slot:
  assumes "arr d xs" and "i < length xs"
  shows "slot_read d (int i) = Inr (Some (xs ! i))"
    and "slot_write d (int i) (Some v) = Inr (d\<lparr>contents := (contents d)[i := Val (Some v)]\<rparr>)"
proof -
  have i: "i < length (contents d)" and ok: "darray_ok d"
    using assms arr_end [OF assms(1)] by (auto simp: arr_def darray_ok_def)
  then show "slot_write d (int i) (Some v) = Inr (d\<lparr>contents := (contents d)[i := Val (Some v)]\<rparr>)"
    by (simp add: slot_write_def)
  obtain w where w: "contents d ! i = Val w" using slot_not_Junk [OF ok i] by blast
  moreover have "darray_list d ! i = Some (xs ! i)" using assms by (simp add: arr_def)
  ultimately have "w = Some (xs ! i)"
    using assms(2) arr_end [OF assms(1)] i by (simp add: darray_list_def)
  then show "slot_read d (int i) = Inr (Some (xs ! i))" using i w by (simp add: slot_read_def)
qed

text \<open>The inner loop from index \<open>j\<close> on: the element at \<open>j - 1\<close> travels on.\<close>

lemma bubble_loop_list:
  "arr (a\<lparr>contents := cs\<rparr>) (us @ zs) \<Longrightarrow> zs \<noteq> [] \<Longrightarrow>
    \<exists>cs' f. rfor [length us + 1..<length us + length zs] (bubble_step cmp) (a\<lparr>contents := cs\<rparr>, b)
      = Inr (a\<lparr>contents := cs'\<rparr>, f) \<and> arr (a\<lparr>contents := cs'\<rparr>) (us @ bpass cmp zs) \<and>
      (f \<longrightarrow> b \<and> (\<forall>j. Suc j < length zs \<longrightarrow> 0 < cmp (zs ! j) (zs ! Suc j)))"
proof (induction "length zs" arbitrary: us zs cs b)
  case 0
  then show ?case by simp
next
  case (Suc n)
  then obtain x ys where zs: "zs = x # ys" by (cases zs) auto
  show ?case
  proof (cases ys)
    case Nil
    then show ?thesis using Suc.prems(1) zs by auto
  next
    case (Cons y rs)
    let ?d = "a\<lparr>contents := cs\<rparr>"
    let ?j = "length us + 1"
    have d: "arr ?d (us @ x # y # rs)" using Suc.prems(1) by (simp add: zs Cons)
    have n: "n = length (x # rs)" "n = length (y # rs)" using Suc.hyps(2) by (simp_all add: zs Cons)
    have rd: "slot_read ?d (int ?j - 1) = Inr (Some x)" "slot_read ?d (int ?j) = Inr (Some y)"
      using arr_slot(1) [OF d, of "length us"] arr_slot(1) [OF d, of ?j] by (simp_all add: nth_append)
    have up: "[?j..<length us + length zs] = ?j # [length (us @ [w]) + 1..<length (us @ [w]) + length (v # rs)]" for w v
      by (subst upt_conv_Cons) (simp_all add: zs Cons del: upt_Suc)
    show ?thesis
    proof (cases "cmp x y \<le> 0")
      case True
      have l1: "length us < length (us @ x # y # rs)" by simp
      let ?d1 = "?d\<lparr>contents := (contents ?d)[length us := Val (Some y)]\<rparr>"
      have w1: "slot_write ?d (int ?j - 1) (Some y) = Inr ?d1" "arr ?d1 (us @ y # y # rs)"
        using arr_slot(2) [OF d l1, of y] arr_set(2) [OF d l1, of y] by simp_all
      have l2: "?j < length (us @ y # y # rs)" by simp
      let ?d2 = "?d1\<lparr>contents := (contents ?d1)[?j := Val (Some x)]\<rparr>"
      have w2: "slot_write ?d1 (int ?j) (Some x) = Inr ?d2" "arr ?d2 ((us @ [y]) @ x # rs)"
        using arr_slot(2) [OF w1(2) l2, of x] arr_set(2) [OF w1(2) l2, of x] by (simp_all add: list_update_append)
      have "bubble_step cmp ?j (?d, b) = Inr (?d2, False)"
        using True rd w1(1) w2(1) by (simp only: bubble_step_def prod.case rbind_Inr call_cmp_Some if_True)
      moreover have "?d2 = a\<lparr>contents := contents ?d2\<rparr>" by simp
      ultimately obtain cs' f where "rfor [length (us @ [y]) + 1..<length (us @ [y]) + length (x # rs)]
          (bubble_step cmp) (?d2, False) = Inr (a\<lparr>contents := cs'\<rparr>, f)"
        "arr (a\<lparr>contents := cs'\<rparr>) ((us @ [y]) @ bpass cmp (x # rs))" "\<not> f"
        "bubble_step cmp ?j (?d, b) = Inr (?d2, False)"
        using Suc.hyps(1) [OF n(1), of "contents ?d2" "us @ [y]" False] w2(2) by auto
      then show ?thesis using True unfolding up [of y x] unfolding zs Cons
        by (intro exI [of _ cs'] exI [of _ f]) (simp del: upt_Suc)
    next
      case False
      have d': "arr ?d ((us @ [x]) @ y # rs)" using d by simp
      have "bubble_step cmp ?j (?d, b) = Inr (?d, b)"
        using False rd by (simp only: bubble_step_def prod.case rbind_Inr call_cmp_Some if_False)
      moreover obtain cs' f where "rfor [length (us @ [x]) + 1..<length (us @ [x]) + length (y # rs)]
          (bubble_step cmp) (?d, b) = Inr (a\<lparr>contents := cs'\<rparr>, f)"
        "arr (a\<lparr>contents := cs'\<rparr>) ((us @ [x]) @ bpass cmp (y # rs))"
        "f \<longrightarrow> b \<and> (\<forall>j. Suc j < length (y # rs) \<longrightarrow> 0 < cmp ((y # rs) ! j) ((y # rs) ! Suc j))"
        using Suc.hyps(1) [OF n(2) d', of b] by auto
      moreover have "0 < cmp ((x # y # rs) ! j) ((x # y # rs) ! Suc j)"
        if "f" "Suc j < length (x # y # rs)" for j
        using that calculation(4) False by (cases j) auto
      ultimately show ?thesis using False unfolding up [of x y] unfolding zs Cons
        by (intro exI [of _ cs'] exI [of _ f]) (simp del: upt_Suc)
    qed
  qed
qed

lemma bubble_pass_ok:
  assumes "arr (a\<lparr>contents := cs\<rparr>) xs" and "xs \<noteq> []"
  shows "\<exists>cs' f. bubble_pass cmp (length xs) (a\<lparr>contents := cs\<rparr>) = Inr (a\<lparr>contents := cs'\<rparr>, f) \<and>
    arr (a\<lparr>contents := cs'\<rparr>) (bpass cmp xs) \<and> (f \<longrightarrow> (\<forall>j. Suc j < length xs \<longrightarrow> 0 < cmp (xs ! j) (xs ! Suc j)))"
  using bubble_loop_list [where a = a and cs = cs and us = "[]" and zs = xs and b = True] assms by (auto simp: bubble_pass_def)

context comparator
begin

text \<open>
  The outer loop: after \<open>k\<close> passes the last \<open>k\<close> elements are in place, or a pass without an
  exchange has shown that everything is.
\<close>

lemma bubble_loop_ok:
  fixes a :: "'a darray"
  assumes "arr a xs" and "xs \<noteq> []"
  shows "\<exists>cs ys. bubble_loop cmp (length xs) a = Inr (a\<lparr>contents := cs\<rparr>) \<and> arr (a\<lparr>contents := cs\<rparr>) ys \<and>
    mset ys = mset xs \<and> ordered cmp ys"
proof -
  let ?n = "length xs"
  let ?body = "\<lambda>(i, array, stop). rbind (bubble_pass cmp ?n array) (\<lambda>(array1, sorted).
    if sorted then Inr (i, array1, True) else Inr (i + 1, array1, False))"
  define I where "I st \<longleftrightarrow> (\<exists>i cs stop ys. st = (i, a\<lparr>contents := cs\<rparr>, stop) \<and> arr (a\<lparr>contents := cs\<rparr>) ys \<and>
    mset ys = mset xs \<and> (if stop then ordered cmp ys else 1 \<le> i \<and> settled ys (i - 1)))"
    for st :: "nat \<times> 'a darray \<times> bool"
  have "\<exists>st. cwhile (\<lambda>st. fst st < ?n \<and> \<not> snd (snd st)) ?body (1, a, False) = Inr st \<and> I st \<and>
    \<not> (fst st < ?n \<and> \<not> snd (snd st))"
  proof (rule cwhile_measure [where m = "\<lambda>st. if snd (snd st) then 0 else Suc (?n - fst st)"])
    show "I (1, a, False)" unfolding I_def using assms settled_0
      by (intro exI [of _ 1] exI [of _ "contents a"] exI [of _ False] exI [of _ xs]) simp
    fix st assume "I st" and b: "fst st < ?n \<and> \<not> snd (snd st)"
    then obtain i cs ys where st: "st = (i, a\<lparr>contents := cs\<rparr>, False)" and P: "arr (a\<lparr>contents := cs\<rparr>) ys"
      "mset ys = mset xs" "1 \<le> i" "settled ys (i - 1)" "i < ?n"
      unfolding I_def by auto
    have len: "length ys = ?n" using P(2) by (metis size_mset)
    then have "ys \<noteq> []" using assms(2) by auto
    then obtain cs' f where p: "bubble_pass cmp ?n (a\<lparr>contents := cs\<rparr>) = Inr (a\<lparr>contents := cs'\<rparr>, f)"
      "arr (a\<lparr>contents := cs'\<rparr>) (bpass cmp ys)"
      "f \<longrightarrow> (\<forall>j. Suc j < length ys \<longrightarrow> 0 < cmp (ys ! j) (ys ! Suc j))"
      using bubble_pass_ok [OF P(1), of cmp] len by auto
    have "settled (bpass cmp ys) i" using settled_bpass [OF P(4)] P(3,5) len by simp
    moreover have "ordered cmp (bpass cmp ys)" if f using that p(3) no_swaps_ordered bpass_ordered by blast
    ultimately have "I (if f then (i, a\<lparr>contents := cs'\<rparr>, True) else (i + 1, a\<lparr>contents := cs'\<rparr>, False))"
      unfolding I_def using p(2) P(2)
      by (intro exI [of _ "if f then i else i + 1"] exI [of _ cs'] exI [of _ f] exI [of _ "bpass cmp ys"]) simp
    moreover have "?body st = Inr (if f then (i, a\<lparr>contents := cs'\<rparr>, True) else (i + 1, a\<lparr>contents := cs'\<rparr>, False))"
      by (simp add: st p(1))
    moreover have "?n - (i + 1) < ?n - i" using P(5) by simp
    ultimately show "\<exists>st'. ?body st = Inr st' \<and> I st' \<and>
      (if snd (snd st') then 0 else Suc (?n - fst st')) < (if snd (snd st) then 0 else Suc (?n - fst st))"
      by (cases f) (simp_all add: st)
  qed
  then obtain st where 1: "cwhile (\<lambda>st. fst st < ?n \<and> \<not> snd (snd st)) ?body (1, a, False) = Inr st" "I st"
    "\<not> (fst st < ?n \<and> \<not> snd (snd st))" by blast
  then obtain i cs stop ys where st: "st = (i, a\<lparr>contents := cs\<rparr>, stop)" and P: "arr (a\<lparr>contents := cs\<rparr>) ys"
    "mset ys = mset xs" "if stop then ordered cmp ys else 1 \<le> i \<and> settled ys (i - 1)"
    unfolding I_def by blast
  have "length ys = ?n" using P(2) by (metis size_mset)
  then have "ordered cmp ys" using P(3) 1(3) st settled_ordered [of ys "i - 1"] by (auto split: if_splits)
  then show ?thesis using 1(1) st P(1,2) by (auto simp: bubble_loop_def)
qed

end

section \<open>The sorts of lists\<close>

lemma list_shape_transfer:
  "list_shape l s xs \<Longrightarrow> lnodes s' = lnodes s \<Longrightarrow> live s \<subseteq> live s' \<Longrightarrow> mem_ok s' \<Longrightarrow> list_shape l s' xs"
  by (auto simp: list_shape_def)

lemma mem_grow_nodes:
  fixes s s' :: "('a, 'o, 's) lmem_scheme"
  shows "mem_grow s s' \<Longrightarrow> lnodes s' = lnodes s"
  by (cases s; cases s') (simp add: mem_grow_def)

text \<open>Both sorts end alike: write the values back, release the array.\<close>

lemma list_sort_finish:
  fixes s s2 :: "('a, 'o, 's) lmem_scheme"
  assumes "list_shape l s xs" and "darray_owned d s2" and "arr d ys" and "length ys = length xs"
    and "lnodes s2 = lnodes s" and "live s2 = live s \<union> darray_blocks d" and "darray_blocks d \<inter> live s = {}"
  shows "\<exists>s3 s4. list_write_back l d s2 = Inr s3 \<and> Darray_destroy d s3 = Inr s4 \<and>
    list_shape l s4 (zip (map fst xs) (map Some ys)) \<and> live s4 = live s"
proof -
  have mem2: "mem_ok s2" using assms(2) by (simp add: darray_owned_def darray_inv_def)
  have sh: "list_shape l s2 xs" using list_shape_transfer [OF assms(1,5) _ mem2] assms(6) by simp
  obtain N where w: "list_write_back l d s2 = Inr (s2\<lparr>lnodes := N\<rparr>)"
    "list_shape l (s2\<lparr>lnodes := N\<rparr>) (zip (map fst xs) (map Some ys))"
    using list_write_back_ok [OF sh, of d "map Some ys"] assms(3,4) by (auto simp: arr_def)
  let ?s3 = "s2\<lparr>lnodes := N\<rparr>"
  let ?s4 = "?s3\<lparr>live := live s2 - darray_blocks d\<rparr>"
  have "darray_owned d ?s3" using assms(2) by (simp add: darray_owned_def darray_inv_def mem_ok_def)
  from Darray_destroy_ok [OF this] have d: "Darray_destroy d ?s3 = Inr ?s4" by simp
  have l: "live ?s4 = live s" using assms(6,7) by auto
  have "map fst (zip (map fst xs) (map Some ys)) = map fst xs" using assms(4) by simp
  then have "addrs (zip (map fst xs) (map Some ys)) = addrs xs" by (metis set_map)
  moreover have "addrs xs \<subseteq> live ?s4" using assms(1) l by (simp add: list_shape_def)
  moreover have "mem_ok ?s4" using mem2 by (auto simp: mem_ok_def)
  ultimately have "list_shape l ?s4 (zip (map fst xs) (map Some ys))"
    using w(2) by (simp add: list_shape_def)
  then show ?thesis using w(1) d l by blast
qed

lemma List_mergesort_ok:
  fixes s :: "('a, 'o, 's) lmem_scheme"
  assumes "list_shape l s xs" and "ample s" and "0 < l_elementSize l"
    and "\<And>x. x \<in> set xs \<Longrightarrow> snd x \<noteq> None" and "sort_capacity (length xs)"
  shows "\<exists>s'. List_mergesort (Some l) (Some cmp) s = Inr (0, s') \<and> live s' = live s \<and>
    list_shape l s' (zip (map fst xs) (map Some (msort_ref cmp (map (\<lambda>x. the (snd x)) xs))))"
proof -
  let ?vs = "map (\<lambda>x. the (snd x)) xs"
  obtain d s1 where 1: "List_to_darray l s = Inr (Some d, s1)" "darray_owned d s1"
    "darray_list d = map snd xs" "lnodes s1 = lnodes s" "ample s1" "live s1 = live s \<union> darray_blocks d"
    "darray_blocks d \<inter> live s = {}" "elementSize d = l_elementSize l"
    using List_to_darray_ok [OF assms(1-4)] assms(5) by (auto simp: sort_capacity_def)
  have "map snd xs = map Some ?vs" using assms(4) by auto
  then have arr: "arr d ?vs" using 1(2,3) by (simp add: arr_def darray_owned_def darray_inv_def)
  have mem1: "mem_ok s1" using 1(2) by (simp add: darray_owned_def darray_inv_def)
  have el: "0 < elementSize d" and cap: "sort_capacity (length ?vs)" using 1(8) assms(3,5) by simp_all
  obtain cs s2 where 2: "Darray_merge_top_down d (int (length ?vs)) cmp s1 = Inr (d\<lparr>contents := cs\<rparr>, s2)"
    "arr (d\<lparr>contents := cs\<rparr>) (msort_ref cmp ?vs)" "live s2 = live s1" "mem_grow s1 s2" "mem_ok s2"
    using Darray_merge_top_down_ok [OF arr mem1 1(5) el cap, of cmp] by blast
  have "darray_blocks d \<subseteq> live s2" using 1(6) 2(3) by simp
  then have own: "darray_owned (d\<lparr>contents := cs\<rparr>) s2"
    using darray_owned_same [OF 1(2) _ _ 2(5)] 2(2) by (simp add: arr_def)
  have "\<exists>s3 s4. list_write_back l (d\<lparr>contents := cs\<rparr>) s2 = Inr s3 \<and> Darray_destroy (d\<lparr>contents := cs\<rparr>) s3 = Inr s4 \<and>
    list_shape l s4 (zip (map fst xs) (map Some (msort_ref cmp ?vs))) \<and> live s4 = live s"
    using 1(4,6,7) 2(3) mem_grow_nodes [OF 2(4)] by (intro list_sort_finish [OF assms(1) own 2(2)]) simp_all
  moreover have "Darray_count d = int (length ?vs)" using arr_end [OF arr] by (simp add: Darray_count_def)
  ultimately show ?thesis using 1(1) 2(1) by (auto simp: List_mergesort_def Darray_mergesort_def)
qed

lemma List_bubble_sort_ok:
  fixes s :: "('a, 'o, 's) lmem_scheme"
  assumes "comparator cmp" and "list_shape l s xs" and "ample s" and "0 < l_elementSize l"
    and "\<And>x. x \<in> set xs \<Longrightarrow> snd x \<noteq> None" and "sort_capacity (length xs)" and "2 \<le> length xs"
  shows "\<exists>s' ys. List_bubble_sort (Some l) (Some cmp) s = Inr (0, s') \<and> live s' = live s \<and>
    list_shape l s' (zip (map fst xs) (map Some ys)) \<and> mset ys = mset (map (\<lambda>x. the (snd x)) xs) \<and>
    ordered cmp ys"
proof -
  let ?vs = "map (\<lambda>x. the (snd x)) xs"
  obtain d s1 where 1: "List_to_darray l s = Inr (Some d, s1)" "darray_owned d s1"
    "darray_list d = map snd xs" "lnodes s1 = lnodes s" "live s1 = live s \<union> darray_blocks d"
    "darray_blocks d \<inter> live s = {}"
    using List_to_darray_ok [OF assms(2-5)] assms(6) by (auto simp: sort_capacity_def)
  have "map snd xs = map Some ?vs" using assms(5) by auto
  then have arr: "arr d ?vs" using 1(2,3) by (simp add: arr_def darray_owned_def darray_inv_def)
  have mem1: "mem_ok s1" using 1(2) by (simp add: darray_owned_def darray_inv_def)
  have "?vs \<noteq> []" using assms(7) by auto
  then obtain cs ys where 2: "bubble_loop cmp (length ?vs) d = Inr (d\<lparr>contents := cs\<rparr>)"
    "arr (d\<lparr>contents := cs\<rparr>) ys" "mset ys = mset ?vs" "ordered cmp ys"
    using comparator.bubble_loop_ok [OF assms(1) arr] by blast
  have "darray_blocks d \<subseteq> live s1" using 1(5) by simp
  then have own: "darray_owned (d\<lparr>contents := cs\<rparr>) s1"
    using darray_owned_same [OF 1(2) _ _ mem1] 2(2) by (simp add: arr_def)
  have "length ys = length xs" using 2(3) by (metis length_map size_mset)
  then have "\<exists>s3 s4. list_write_back l (d\<lparr>contents := cs\<rparr>) s1 = Inr s3 \<and> Darray_destroy (d\<lparr>contents := cs\<rparr>) s3 = Inr s4 \<and>
    list_shape l s4 (zip (map fst xs) (map Some ys)) \<and> live s4 = live s"
    using 1(4-6) by (intro list_sort_finish [OF assms(2) own 2(2)]) simp_all
  moreover have "l_count l = int (length xs)" using assms(2) by (simp add: list_shape_def)
  ultimately show ?thesis using 1(1) 2 assms(7) by (auto simp: List_bubble_sort_def List_count_def)
qed

section \<open>Properties\<close>

text \<open>C4: \<^verbatim>\<open>Darray_mergesort\<close> sorts: the same elements, no later one strictly above an earlier one; its
  scratch arrays are all released and the array keeps its buffer.\<close>

theorem darray_mergesort_sorts:
  fixes s :: "'s cmem_scheme"
  assumes "comparator cmp" and "darray_inv d s" and "darray_list d = map Some xs" and "ample s"
    and "0 < elementSize d" and "sort_capacity (length xs)"
  shows "\<exists>cs s' ys. Darray_mergesort d cmp s = Inr (0, d\<lparr>contents := cs\<rparr>, s') \<and>
    darray_inv (d\<lparr>contents := cs\<rparr>) s' \<and> darray_list (d\<lparr>contents := cs\<rparr>) = map Some ys \<and>
    mset ys = mset xs \<and> ordered cmp ys \<and> live s' = live s"
proof -
  have arr: "arr d xs" and mem: "mem_ok s" using assms(2,3) by (auto simp: arr_def darray_inv_def)
  obtain cs s' where 1: "Darray_merge_top_down d (int (length xs)) cmp s = Inr (d\<lparr>contents := cs\<rparr>, s')"
    "arr (d\<lparr>contents := cs\<rparr>) (msort_ref cmp xs)" "live s' = live s" "mem_ok s'"
    using Darray_merge_top_down_ok [OF arr mem assms(4-6), of cmp] by blast
  have "Darray_count d = int (length xs)" using arr_end [OF arr] by (simp add: Darray_count_def)
  then show ?thesis
    using 1 assms(2) comparator.msort_ref_ordered [OF assms(1)]
    by (intro exI [of _ cs] exI [of _ s'] exI [of _ "msort_ref cmp xs"])
      (simp add: Darray_mergesort_def arr_def darray_inv_def)
qed

theorem darray_mergesort_sorts_witness:
  "\<exists>cs s' ys. Darray_mergesort \<lparr>d_addr = 1, d_buf = 2, d_mtx = 3, d_end = 3, d_max = 4, elementSize = 4,
       expandRate = 300, contents = [Val (Some 5), Val (Some 9), Val (Some 7), Val None], d_locked = False\<rparr>
       heap_cmp ex_mem = Inr (0, cs, s') \<and>
    darray_list cs = map Some ys \<and> mset ys = {#5, 9, 7#} \<and> ordered heap_cmp ys \<and> live s' = {1, 2, 3}"
proof -
  let ?d = "\<lparr>d_addr = 1, d_buf = 2, d_mtx = 3, d_end = 3, d_max = 4, elementSize = 4, expandRate = 300,
    contents = [Val (Some 5), Val (Some 9), Val (Some 7), Val None], d_locked = False\<rparr> :: int darray"
  have "darray_inv ?d ex_mem"
    by (auto simp: darray_inv_def darray_ok_def ex_mem_def mem_ok_def DEFAULT_EXPAND_RATE_def INT_MAX_def)
  moreover have "darray_list ?d = map Some [5, 9, 7]" by (simp add: darray_list_def)
  moreover have "0 < elementSize ?d" "sort_capacity (length [5, 9, 7 :: int])"
    by (simp_all add: sort_capacity_def DEFAULT_EXPAND_RATE_def INT_MAX_def)
  moreover have "live ex_mem = {1, 2, 3}" by (simp add: ex_mem_def)
  ultimately show ?thesis
    using darray_mergesort_sorts [OF heap_cmp_order.comparator_axioms _ _ ex_darray_inv(2), of ?d "[5, 9, 7]"]
    by fastforce
qed

text \<open>\<^verbatim>\<open>List_mergesort\<close> keeps the nodes and their links, gives them the same values in sorted order,
  and returns all the memory it took.\<close>

theorem list_mergesort_sorts:
  fixes s :: "('a, 'o, 's) lmem_scheme"
  assumes "comparator cmp" and "list_inv l s xs" and "ample s" and "0 < l_elementSize l"
    and "\<forall>x \<in> set xs. snd x \<noteq> None" and "sort_capacity (length xs)"
  shows "\<exists>s' ys. List_mergesort (Some l) (Some cmp) s = Inr (0, s') \<and> live s' = live s \<and>
    list_inv l s' (zip (map fst xs) (map Some ys)) \<and> mset ys = mset (map (the \<circ> snd) xs) \<and> ordered cmp ys"
proof -
  have "list_shape l s xs" "\<not> l_locked l" using assms(2) by (auto simp: list_inv_def)
  with List_mergesort_ok [OF this(1) assms(3,4) _ assms(6), of cmp] show ?thesis
    using assms(5) comparator.msort_ref_ordered [OF assms(1)]
    by (auto simp: list_inv_def comp_def
        intro!: exI [of _ "msort_ref cmp (map (\<lambda>x. the (snd x)) xs)"])
qed

theorem list_mergesort_sorts_witness:
  "\<exists>s' ys. List_mergesort (Some ex_list) (Some (\<lambda>p q. int p - int q)) ex_lmem = Inr (0, s') \<and>
    live s' = live ex_lmem \<and> list_inv ex_list s' (zip [1, 2] (map Some ys)) \<and> mset ys = {#5, 6#} \<and>
    ordered (\<lambda>p q. int p - int q) ys"
proof -
  have "comparator (\<lambda>p q :: nat. int p - int q)" by unfold_locales auto
  from list_mergesort_sorts [OF this ex_list_inv(1,2)] show ?thesis
    by (simp add: ex_nodes_def ex_list_def sort_capacity_def DEFAULT_EXPAND_RATE_def INT_MAX_def)
qed

text \<open>\<^verbatim>\<open>List_bubble_sort\<close>, with its early exit and its exchanges of equal elements, ends after at
  most \<^verbatim>\<open>count - 1\<close> passes and sorts as \<^verbatim>\<open>List_mergesort\<close> does.\<close>

theorem list_bubble_sort_sorts:
  fixes s :: "('a, 'o, 's) lmem_scheme"
  assumes "comparator cmp" and "list_inv l s xs" and "ample s" and "0 < l_elementSize l"
    and "\<forall>x \<in> set xs. snd x \<noteq> None" and "sort_capacity (length xs)"
  shows "\<exists>s' ys. List_bubble_sort (Some l) (Some cmp) s = Inr (0, s') \<and> live s' = live s \<and>
    list_inv l s' (zip (map fst xs) (map Some ys)) \<and> mset ys = mset (map (the \<circ> snd) xs) \<and> ordered cmp ys"
proof -
  have sh: "list_shape l s xs" "\<not> l_locked l" using assms(2) by (auto simp: list_inv_def)
  show ?thesis
  proof (cases "2 \<le> length xs")
    case True
    then show ?thesis
      using List_bubble_sort_ok [OF assms(1) sh(1) assms(3,4) _ assms(6) True] assms(5) sh(2)
      by (auto simp: list_inv_def comp_def)
  next
    case False
    let ?vs = "map (the \<circ> snd) xs"
    have "map Some ?vs = map snd xs" using assms(5) by auto
    then have "zip (map fst xs) (map Some ?vs) = xs" by (simp only: zip_map_fst_snd)
    moreover have "List_bubble_sort (Some l) (Some cmp) s = Inr (0, s)"
      using False sh(1) by (simp add: List_bubble_sort_def list_shape_def)
    moreover have "ordered cmp ?vs" using False by (cases xs; cases "tl xs") auto
    ultimately show ?thesis using assms(2) by (intro exI [of _ s] exI [of _ ?vs]) simp
  qed
qed

theorem list_bubble_sort_sorts_witness:
  "\<exists>s' ys. List_bubble_sort (Some ex_list) (Some (\<lambda>p q. int q - int p)) ex_lmem = Inr (0, s') \<and>
    live s' = live ex_lmem \<and> list_inv ex_list s' (zip [1, 2] (map Some ys)) \<and> mset ys = {#5, 6#} \<and>
    ordered (\<lambda>p q. int q - int p) ys"
proof -
  have "comparator (\<lambda>p q :: nat. int q - int p)" by unfold_locales auto
  from list_bubble_sort_sorts [OF this ex_list_inv(1,2)] show ?thesis
    by (simp add: ex_nodes_def ex_list_def sort_capacity_def DEFAULT_EXPAND_RATE_def INT_MAX_def)
qed

end
