(* ===== verification/Hashing.thy ===== *)
theory Hashing
  imports Callbacks
begin

unbundle bit_operations_syntax

text \<open>
  The hash functions of \<^verbatim>\<open>lib/hashing/hash.c\<close> and the two of \<^verbatim>\<open>lib/ds/hashmap.c\<close>, on 32-bit
  words with the wrap-around of \<^verbatim>\<open>uint32_t\<close>. A C string is the list of its characters before the
  NUL; \<^verbatim>\<open>char\<close> is signed (x86), so that a character from 128 on is sign-extended before it is
  converted to \<^verbatim>\<open>uint32_t\<close>. The loops \<^verbatim>\<open>for (i = 0; i < strlen(str); i++)\<close> read the characters in
  order and are folds.
\<close>

section \<open>The functions\<close>

definition FNV_OFFSET_BASIS :: "32 word" where "FNV_OFFSET_BASIS = 2166136261"

definition FNV_PRIME :: "32 word" where "FNV_PRIME = 16777619"

definition MOD_ADLER :: "32 word" where "MOD_ADLER = 65521"

definition schar :: "char \<Rightarrow> int" where
  "schar c = (if uchar c < 128 then uchar c else uchar c - 256)"

definition char_word :: "char \<Rightarrow> 32 word" where
  "char_word c = word_of_int (schar c)"

definition fnv1a_hash :: "string \<Rightarrow> 32 word" where
  "fnv1a_hash str = foldl (\<lambda>hash c. (hash XOR char_word c) * FNV_PRIME) FNV_OFFSET_BASIS str"

definition adler32_step :: "32 word \<times> 32 word \<Rightarrow> char \<Rightarrow> 32 word \<times> 32 word" where
  "adler32_step = (\<lambda>(a, b) c.
     let a = (a + char_word c) mod MOD_ADLER; b = (a + b) mod MOD_ADLER in (a, b))"

definition adler32_hash :: "string \<Rightarrow> 32 word" where
  "adler32_hash str = (case foldl adler32_step (1, 0) str of (a, b) \<Rightarrow> push_bit 16 b OR a)"

definition djb_hash :: "string \<Rightarrow> 32 word" where
  "djb_hash str = foldl (\<lambda>hash c. (push_bit 5 hash + hash) + char_word c) 5381 str"

text \<open>The rounds of the Jenkins hash.\<close>

definition jenkins_add :: "32 word \<Rightarrow> 32 word \<Rightarrow> 32 word" where
  "jenkins_add hash c =
     (let hash = hash + c; hash = hash + push_bit 10 hash in hash XOR drop_bit 6 hash)"

definition jenkins_finish :: "32 word \<Rightarrow> 32 word" where
  "jenkins_finish hash =
     (let hash = hash + push_bit 3 hash; hash = hash XOR drop_bit 11 hash in hash + push_bit 15 hash)"

definition default_str_hash :: "string \<Rightarrow> 32 word" where
  "default_str_hash key = jenkins_finish (foldl (\<lambda>hash c. jenkins_add hash (char_word c)) 0 key)"

function uint32_hash_loop :: "32 word \<Rightarrow> 32 word \<Rightarrow> 32 word" where
  "uint32_hash_loop val hash =
     (if val = 0 then hash else uint32_hash_loop (drop_bit 8 val) (jenkins_add hash (val AND 0xFF)))"
  by pat_completeness auto
termination
proof (relation "measure (\<lambda>(val, hash). unat val)")
  fix val hash :: "32 word"
  assume "val \<noteq> 0"
  then have "0 < unat val" by (simp add: unat_gt_0)
  then have "drop_bit 8 (unat val) < unat val" by (simp add: drop_bit_eq_div)
  then have "unat (drop_bit 8 val) < unat val" by (simp only: unat_drop_bit_eq)
  then show "((drop_bit 8 val, jenkins_add hash (val AND 0xFF)), (val, hash)) \<in> measure (\<lambda>(val, hash). unat val)"
    by simp
qed simp

declare uint32_hash_loop.simps [simp del]

definition Hashmap_uint32_hash :: "32 word \<Rightarrow> 32 word" where
  "Hashmap_uint32_hash val = jenkins_finish (uint32_hash_loop val 0)"

section \<open>References\<close>

text \<open>The published algorithms work on octets, that is on unsigned characters.\<close>

definition octet :: "char \<Rightarrow> 32 word" where
  "octet c = word_of_int (uchar c)"

definition ascii :: "string \<Rightarrow> bool" where
  "ascii str \<longleftrightarrow> (\<forall>c \<in> set str. uchar c < 128)"

lemma ascii_simps [simp]: "ascii []" "ascii (c # cs) \<longleftrightarrow> uchar c < 128 \<and> ascii cs"
  "ascii (xs @ ys) \<longleftrightarrow> ascii xs \<and> ascii ys"
  by (auto simp: ascii_def)

lemma char_word_ascii: "uchar c < 128 \<Longrightarrow> char_word c = octet c"
  by (simp add: char_word_def schar_def octet_def)

definition fnv1a_ref :: "string \<Rightarrow> 32 word" where
  "fnv1a_ref str = foldl (\<lambda>hash c. (hash XOR octet c) * FNV_PRIME) FNV_OFFSET_BASIS str"

text \<open>Adler-32 (RFC 1950) over the natural numbers: \<open>A\<close> is one plus the sum of the octets, \<open>B\<close> the sum
  of the successive values of \<open>A\<close>, both modulo 65521.\<close>

definition uchar_nat :: "char \<Rightarrow> nat" where
  "uchar_nat c = of_char c"

definition adler_A :: "string \<Rightarrow> nat" where
  "adler_A str = (1 + sum_list (map uchar_nat str)) mod 65521"

definition adler_B :: "string \<Rightarrow> nat" where
  "adler_B str = sum_list (map (\<lambda>i. adler_A (take i str)) [1..<Suc (length str)]) mod 65521"

text \<open>The polynomial of the djb hash.\<close>

fun djb_poly :: "32 word \<Rightarrow> string \<Rightarrow> 32 word" where
  "djb_poly h [] = h"
| "djb_poly h (c # cs) = h * 33 ^ Suc (length cs) + octet c * 33 ^ length cs + djb_poly 0 cs"

lemma uchar_nat_int: "uchar c = int (uchar_nat c)"
  by (simp add: uchar_def uchar_nat_def)

lemma uchar_nat_bound: "uchar_nat c < 256"
  by (simp add: uchar_nat_def)

lemma octet_nat: "octet c = word_of_nat (uchar_nat c)"
  by (simp add: octet_def uchar_nat_int)

section \<open>Correctness on ASCII strings\<close>

lemma foldl_ascii:
  assumes "ascii str"
  shows "foldl (\<lambda>h c. f h (char_word c)) h str = foldl (\<lambda>h c. f h (octet c)) h str"
  using assms by (induction str arbitrary: h) (auto simp: char_word_ascii)

lemma word_mod_nat:
  assumes "x < 2 ^ 32"
  shows "(word_of_nat x :: 32 word) mod MOD_ADLER = word_of_nat (x mod 65521)"
proof -
  have "unat ((word_of_nat x :: 32 word) mod MOD_ADLER) = x mod 65521"
    using assms by (simp add: MOD_ADLER_def unat_mod_distrib unat_of_nat)
  then show ?thesis by (simp add: word_unat_eq_iff unat_of_nat)
qed

lemma adler_A_snoc: "adler_A (xs @ [c]) = (adler_A xs + uchar_nat c) mod 65521"
  by (simp add: adler_A_def mod_add_left_eq add.assoc)

lemma adler_B_snoc: "adler_B (xs @ [c]) = (adler_A (xs @ [c]) + adler_B xs) mod 65521"
proof -
  have "map (\<lambda>i. adler_A (take i (xs @ [c]))) [1..<Suc (length xs)]
      = map (\<lambda>i. adler_A (take i xs)) [1..<Suc (length xs)]" by auto
  moreover have "[1..<Suc (length (xs @ [c]))] = [1..<Suc (length xs)] @ [Suc (length xs)]" by simp
  ultimately have "adler_B (xs @ [c])
      = (sum_list (map (\<lambda>i. adler_A (take i xs)) [1..<Suc (length xs)]) + adler_A (xs @ [c])) mod 65521"
    by (simp only: adler_B_def map_append sum_list_append list.map sum_list.Cons sum_list.Nil) simp
  then show ?thesis by (simp only: adler_B_def mod_add_right_eq add.commute)
qed

lemma adler_bounds: "adler_A str < 65521" "adler_B str < 65521"
  by (simp_all add: adler_A_def adler_B_def)

lemma adler32_fold:
  "ascii str \<Longrightarrow> foldl adler32_step (1, 0) str = (word_of_nat (adler_A str), word_of_nat (adler_B str))"
proof (induction str rule: rev_induct)
  case Nil
  then show ?case by (simp add: adler_A_def adler_B_def)
next
  case (snoc c xs)
  have a: "(word_of_nat (adler_A xs) + octet c) mod MOD_ADLER = word_of_nat (adler_A (xs @ [c]))"
    using word_mod_nat [of "adler_A xs + uchar_nat c"] adler_bounds(1) [of xs] uchar_nat_bound [of c]
    by (simp add: octet_nat adler_A_snoc)
  have b: "(word_of_nat (adler_A (xs @ [c])) + word_of_nat (adler_B xs)) mod MOD_ADLER
      = word_of_nat (adler_B (xs @ [c]))"
    using word_mod_nat [of "adler_A (xs @ [c]) + adler_B xs"] adler_bounds(1) [of "xs @ [c]"]
      adler_bounds(2) [of xs]
    by (simp add: adler_B_snoc)
  show ?case using snoc a b by (simp add: adler32_step_def Let_def char_word_ascii)
qed

lemma shift_or_add:
  fixes b :: "32 word"
  assumes "a < 65536"
  shows "push_bit 16 b OR word_of_nat a = push_bit 16 b + word_of_nat a"
proof -
  have "\<not> bit a n" if "16 \<le> n" for n
  proof -
    have "a < 2 ^ n" using assms that power_increasing [of 16 n "2 :: nat"] by simp
    then show ?thesis by (simp add: bit_iff_odd)
  qed
  then show ?thesis
    by (intro disjunctive_add [symmetric]) (auto simp: bit_simps)
qed

lemma djb_poly_fold: "foldl (\<lambda>h c. 33 * h + octet c) h str = djb_poly h str"
proof (induction str arbitrary: h)
  case Nil
  show ?case by simp
next
  case (Cons c cs)
  have "djb_poly (33 * h + octet c) cs = (33 * h + octet c) * 33 ^ length cs + djb_poly 0 cs" for h
    by (cases cs) (simp_all add: algebra_simps)
  then show ?case using Cons by (simp add: algebra_simps)
qed

section \<open>Properties\<close>

text \<open>On ASCII strings \<^verbatim>\<open>adler32_hash\<close> is Adler-32: the two running sums modulo 65521, the second
  one in the upper half-word.\<close>

theorem adler32_hash_correct:
  assumes "ascii str"
  shows "adler32_hash str = word_of_nat (adler_B str * 65536 + adler_A str)"
proof -
  have "push_bit 16 (word_of_nat (adler_B str) :: 32 word) = word_of_nat (adler_B str * 65536)"
    by (simp add: push_bit_eq_mult)
  then show ?thesis
    using adler32_fold [OF assms] shift_or_add [of "adler_A str" "word_of_nat (adler_B str)"]
      adler_bounds(1) [of str]
    by (simp add: adler32_hash_def)
qed

theorem adler32_hash_correct_witness:
  "adler32_hash ''ab'' = word_of_nat (adler_B ''ab'' * 65536 + adler_A ''ab'')"
  by (rule adler32_hash_correct) (simp add: uchar_def)

text \<open>On ASCII strings \<^verbatim>\<open>fnv1a_hash\<close> is FNV-1a and \<^verbatim>\<open>djb_hash\<close> is the polynomial in 33 over the
  octets; a byte from 128 on is sign-extended into the upper bits, where \<^verbatim>\<open>fnv1a_hash\<close> is no longer
  FNV-1a.\<close>

theorem fnv1a_djb_correct:
  "(ascii str \<longrightarrow> fnv1a_hash str = fnv1a_ref str \<and> djb_hash str = djb_poly 5381 str) \<and>
    fnv1a_hash [CHR 0xFF] \<noteq> fnv1a_ref [CHR 0xFF]"
proof (intro conjI impI)
  assume a: "ascii str"
  show "fnv1a_hash str = fnv1a_ref str"
    using foldl_ascii [OF a, of "\<lambda>h c. (h XOR c) * FNV_PRIME"] by (simp add: fnv1a_hash_def fnv1a_ref_def)
  have "push_bit 5 h + h = 33 * h" for h :: "32 word"
    by (simp add: push_bit_eq_mult)
  then show "djb_hash str = djb_poly 5381 str"
    using foldl_ascii [OF a, of "\<lambda>h c. 33 * h + c"] by (simp add: djb_hash_def djb_poly_fold)
next
  show "fnv1a_hash [CHR 0xFF] \<noteq> fnv1a_ref [CHR 0xFF]"
    by (simp add: fnv1a_hash_def fnv1a_ref_def char_word_def schar_def octet_def uchar_def
        FNV_OFFSET_BASIS_def FNV_PRIME_def)
qed

theorem fnv1a_djb_correct_witness:
  "fnv1a_hash ''ab'' = fnv1a_ref ''ab'' \<and> djb_hash ''ab'' = djb_poly 5381 ''ab''"
  using fnv1a_djb_correct [of "''ab''"] by (simp add: uchar_def)

end
