(* ===== verification/Hash_Map.thy ===== *)
theory Hash_Map
  imports Darray Hashing
begin

text \<open>
  The hash table of \<^verbatim>\<open>lib/ds/hashmap.h\<close> and \<^verbatim>\<open>lib/ds/hashmap.c\<close>: an array of buckets, each a
  \<^verbatim>\<open>Darray\<close> of pointers to nodes.

  A key is a pointer: its address and the object behind it, which the callbacks read; the table
  relies on that object not changing while it is in use. Nodes live in the store \<open>hnodes\<close>, the
  \<^verbatim>\<open>Darray\<close> structs of the buckets in \<open>hbuckets\<close>; the array of buckets is part of the struct's
  record. \<open>hm_compare\<close> and \<open>hm_hash\<close> are the callbacks, as functions of the objects.
\<close>

section \<open>Data\<close>

definition DEFAULT_NUMBER_OF_BUCKETS :: nat where "DEFAULT_NUMBER_OF_BUCKETS = 100"

definition HASHMAP_DESTROY_DATA :: int where "HASHMAP_DESTROY_DATA = 1"

definition HASHMAP_DESTROY_KEYS :: int where "HASHMAP_DESTROY_KEYS = 2"

type_synonym 'k kptr = "ptr \<times> 'k"

record 'k hnode =
  hkey :: "'k kptr"
  hdata :: ptr
  hhash :: "32 word"

record 'k hmem = cmem +
  hnodes :: "ptr \<Rightarrow> 'k hnode option"
  hbuckets :: "ptr \<Rightarrow> ptr darray option"

record 'k hashmap =
  hm_addr :: ptr
  hm_mtx :: ptr
  hm_buckets :: "ptr darray"
  hm_compare :: "'k \<Rightarrow> 'k \<Rightarrow> int"
  hm_hash :: "'k \<Rightarrow> 32 word"
  hm_numBuckets :: int
  hm_locked :: bool

definition hm_lock :: "'k hashmap \<Rightarrow> 'k hashmap res" where
  "hm_lock m = (if hm_locked m then Inl Deadlock else Inr (m\<lparr>hm_locked := True\<rparr>))"

definition hm_unlock :: "'k hashmap \<Rightarrow> 'k hashmap res" where
  "hm_unlock m = (if hm_locked m then Inr (m\<lparr>hm_locked := False\<rparr>) else Inl Bad_Unlock)"

definition hnode_get :: "ptr option \<Rightarrow> ('k, 's) hmem_scheme \<Rightarrow> 'k hnode res" where
  "hnode_get p s =
     (case p of None \<Rightarrow> Inl Null_Deref
      | Some q \<Rightarrow> (case hnodes s q of None \<Rightarrow> Inl Bad_Access | Some n \<Rightarrow> Inr n))"

definition bucket_get :: "ptr \<Rightarrow> ('k, 's) hmem_scheme \<Rightarrow> ptr darray res" where
  "bucket_get b s = (case hbuckets s b of None \<Rightarrow> Inl Bad_Access | Some d \<Rightarrow> Inr d)"

definition bucket_put :: "ptr \<Rightarrow> ptr darray \<Rightarrow> ('k, 's) hmem_scheme \<Rightarrow> ('k, 's) hmem_scheme" where
  "bucket_put b d s = s\<lparr>hbuckets := (hbuckets s)(b := Some d)\<rparr>"

section \<open>Creating\<close>

text \<open>
  A failing \<^verbatim>\<open>pthread_mutex_init\<close> leaks the mutex. \<^verbatim>\<open>numBuckets\<close> is the \<^verbatim>\<open>int\<close> the size is
  converted to, and is converted back for \<^verbatim>\<open>Darray_create\<close>.
\<close>

definition Hashmap_create_with ::
  "('k \<Rightarrow> 'k \<Rightarrow> int) \<Rightarrow> ('k \<Rightarrow> 32 word) \<Rightarrow> nat \<Rightarrow> ('k, 's) hmem_scheme
    \<Rightarrow> ('k hashmap option \<times> ('k, 's) hmem_scheme) res" where
  "Hashmap_create_with compare hash initialSize s =
     (let (map, s1) = c_alloc s in
      if map = NULL then Inr (None, s1)
      else let (mtx, s2) = c_alloc s1 in
        if mtx = NULL then rbind (c_free map s2) (\<lambda>s3. Inr (None, s3))
        else let (rc, s3) = c_mutex_init s2 in
          if rc \<noteq> 0 then rbind (c_free map s3) (\<lambda>s4. Inr (None, s4))
          else let numBuckets = int_of_size_t (if initialSize > 0 then initialSize
                                               else DEFAULT_NUMBER_OF_BUCKETS) in
            rbind (Darray_create 8 (size_t_of_int numBuckets) s3) (\<lambda>(buckets, s4).
              case buckets of
                None \<Rightarrow> rbind (c_free mtx s4) (\<lambda>s5. rbind (c_free map s5) (\<lambda>s6. Inr (None, s6)))
              | Some d \<Rightarrow>
                  Inr (Some \<lparr>hm_addr = map, hm_mtx = mtx, hm_buckets = d\<lparr>d_end := d_max d\<rparr>,
                             hm_compare = compare, hm_hash = hash, hm_numBuckets = numBuckets,
                             hm_locked = False\<rparr>, s4)))"

text \<open>NULL callbacks stand for the ones for strings.\<close>

definition Hashmap_create ::
  "(string \<Rightarrow> string \<Rightarrow> int) option \<Rightarrow> (string \<Rightarrow> 32 word) option \<Rightarrow> nat \<Rightarrow> (string, 's) hmem_scheme
    \<Rightarrow> (string hashmap option \<times> (string, 's) hmem_scheme) res" where
  "Hashmap_create compare hash initialSize s =
     Hashmap_create_with (case compare of None \<Rightarrow> strcmp | Some c \<Rightarrow> c)
       (case hash of None \<Rightarrow> default_str_hash | Some h \<Rightarrow> h) initialSize s"

section \<open>Operations\<close>

definition Hashmap_node_create ::
  "32 word \<Rightarrow> 'k kptr option \<Rightarrow> ptr \<Rightarrow> ('k, 's) hmem_scheme \<Rightarrow> (ptr \<times> ('k, 's) hmem_scheme) res" where
  "Hashmap_node_create hash key data s =
     (case key of None \<Rightarrow> Inl Assert_Failed
      | Some k \<Rightarrow>
          let (node, s1) = c_alloc s in
          if node = NULL then Inl Assert_Failed
          else Inr (node, s1\<lparr>hnodes := (hnodes s1)(node := Some \<lparr>hkey = k, hdata = data, hhash = hash\<rparr>)\<rparr>))"

text \<open>
  The index is \<^verbatim>\<open>hash % numBuckets\<close>, computed as an \<^verbatim>\<open>unsigned\<close> and converted to \<^verbatim>\<open>int\<close>. The callback
  dereferences (or asserts) the key.
\<close>

definition bucket_index :: "'k hashmap \<Rightarrow> 32 word \<Rightarrow> int res" where
  "bucket_index m hash =
     (if (word_of_int (hm_numBuckets m) :: 32 word) = 0 then Inl Div_By_Zero
      else let bucketIndex = int_of_size_t (unat (hash mod word_of_int (hm_numBuckets m))) in
        if bucketIndex \<ge> 0 then Inr bucketIndex else Inl Assert_Failed)"

definition Hashmap_find_bucket ::
  "'k hashmap \<Rightarrow> 'k kptr option \<Rightarrow> bool \<Rightarrow> ('k, 's) hmem_scheme
    \<Rightarrow> (ptr option \<times> 32 word \<times> 'k hashmap \<times> ('k, 's) hmem_scheme) res" where
  "Hashmap_find_bucket m key create s =
     (case key of None \<Rightarrow> Inl Null_Deref
      | Some k \<Rightarrow>
          let hash = hm_hash m (snd k) in
          rbind (bucket_index m hash) (\<lambda>bucketIndex.
          rbind (Darray_get (hm_buckets m) bucketIndex) (\<lambda>bucket.
            if bucket = None \<and> create
            then rbind (Darray_create 8 (size_t_of_int (hm_numBuckets m)) s) (\<lambda>(new, s1).
                   case new of None \<Rightarrow> Inl Assert_Failed
                   | Some d \<Rightarrow>
                       rbind (Darray_set (hm_buckets m) bucketIndex (Some (d_addr d))) (\<lambda>bs.
                         Inr (Some (d_addr d), hash, m\<lparr>hm_buckets := bs\<rparr>, bucket_put (d_addr d) d s1)))
            else Inr (bucket, hash, m, s))))"

definition Hashmap_set ::
  "'k hashmap \<Rightarrow> 'k kptr option \<Rightarrow> ptr \<Rightarrow> ('k, 's) hmem_scheme
    \<Rightarrow> (int \<times> 'k hashmap \<times> ('k, 's) hmem_scheme) res" where
  "Hashmap_set m key data s =
     (if key = None then Inl Assert_Failed
      else rbind (hm_lock m) (\<lambda>m1.
        rbind (Hashmap_find_bucket m1 key True s) (\<lambda>(bucket, hash, m2, s1).
        case bucket of None \<Rightarrow> Inl Assert_Failed
        | Some b \<Rightarrow>
            rbind (Hashmap_node_create hash key data s1) (\<lambda>(node, s2).
            rbind (bucket_get b s2) (\<lambda>d.
            rbind (Darray_push d (Some node) s2) (\<lambda>(rc, d1, s3).
            rbind (hm_unlock m2) (\<lambda>m3. Inr (0, m3, bucket_put b d1 s3))))))))"

text \<open>The search in a chain: an early return from a loop over the indices.\<close>

fun get_node_loop ::
  "'k hashmap \<Rightarrow> 32 word \<Rightarrow> ptr darray \<Rightarrow> 'k \<Rightarrow> ('k, 's) hmem_scheme \<Rightarrow> nat list \<Rightarrow> int res" where
  "get_node_loop m hash bucket key s [] = Inr (-1)"
| "get_node_loop m hash bucket key s (i # is) =
     rbind (Darray_get bucket (int i)) (\<lambda>p.
     rbind (hnode_get p s) (\<lambda>node.
       if hhash node = hash \<and> hm_compare m (snd (hkey node)) key = 0 then Inr (int i)
       else get_node_loop m hash bucket key s is))"

definition Hashmap_get_node ::
  "'k hashmap \<Rightarrow> 32 word \<Rightarrow> ptr darray \<Rightarrow> 'k \<Rightarrow> ('k, 's) hmem_scheme \<Rightarrow> int res" where
  "Hashmap_get_node m hash bucket key s = get_node_loop m hash bucket key s [0..<nat (d_end bucket)]"

text \<open>Both early returns of \<^verbatim>\<open>Hashmap_get\<close> keep the mutex.\<close>

definition Hashmap_get ::
  "'k hashmap \<Rightarrow> 'k kptr option \<Rightarrow> ('k, 's) hmem_scheme \<Rightarrow> (ptr \<times> 'k hashmap) res" where
  "Hashmap_get m key s =
     rbind (hm_lock m) (\<lambda>m1.
     rbind (Hashmap_find_bucket m1 key False s) (\<lambda>(bucket, hash, m2, s1).
     case bucket of None \<Rightarrow> Inr (NULL, m2)
     | Some b \<Rightarrow>
         rbind (bucket_get b s1) (\<lambda>d.
         rbind (Hashmap_get_node m2 hash d (snd (the key)) s1) (\<lambda>i.
           if i = -1 then Inr (NULL, m2)
           else rbind (Darray_get d i) (\<lambda>p.
                case p of None \<Rightarrow> Inl Assert_Failed
                | Some q \<Rightarrow> rbind (hm_unlock m2) (\<lambda>m3. rbind (hnode_get p s1) (\<lambda>node. Inr (hdata node, m3))))))))"

text \<open>\<^verbatim>\<open>Hashmap_delete\<close> also keeps the mutex when it finds nothing. The popped node takes the place of the
  deleted one; the key is not freed.\<close>

definition Hashmap_delete ::
  "'k hashmap \<Rightarrow> 'k kptr option \<Rightarrow> ('k, 's) hmem_scheme
    \<Rightarrow> (ptr \<times> 'k hashmap \<times> ('k, 's) hmem_scheme) res" where
  "Hashmap_delete m key s =
     rbind (hm_lock m) (\<lambda>m1.
     rbind (Hashmap_find_bucket m1 key False s) (\<lambda>(bucket, hash, m2, s1).
     case bucket of None \<Rightarrow> Inr (NULL, m2, s1)
     | Some b \<Rightarrow>
         rbind (bucket_get b s1) (\<lambda>d.
         rbind (Hashmap_get_node m2 hash d (snd (the key)) s1) (\<lambda>i.
           if i = -1 then Inr (NULL, m2, s1)
           else rbind (Darray_get d i) (\<lambda>node.
                case node of None \<Rightarrow> Inl Assert_Failed
                | Some p \<Rightarrow>
                    rbind (Darray_pop d s1) (\<lambda>(ending, d1, s2).
                    rbind (if ending \<noteq> node then Darray_set d1 i ending else Inr d1) (\<lambda>d2.
                    rbind (hnode_get node s2) (\<lambda>n.
                    rbind (c_free p s2) (\<lambda>s3.
                    rbind (hm_unlock m2) (\<lambda>m3.
                      Inr (hdata n, m3, (bucket_put b d2 s3)\<lparr>hnodes := (hnodes s3)(p := None)\<rparr>)))))))))))"

text \<open>
  The traversals. The callback gets a node and may keep a state; a non-zero result stops the loops.
\<close>

fun traverse_chain ::
  "('k hnode \<Rightarrow> 'c \<Rightarrow> int \<times> 'c) \<Rightarrow> ptr darray \<Rightarrow> ('k, 's) hmem_scheme \<Rightarrow> nat list \<Rightarrow> 'c \<Rightarrow> (int \<times> 'c) res" where
  "traverse_chain cb bucket s [] c = Inr (0, c)"
| "traverse_chain cb bucket s (j # js) c =
     rbind (Darray_get bucket (int j)) (\<lambda>p.
     rbind (hnode_get p s) (\<lambda>node.
       case cb node c of (rc, c1) \<Rightarrow>
         if rc \<noteq> 0 then Inr (rc, c1) else traverse_chain cb bucket s js c1))"

fun traverse_buckets ::
  "('k hnode \<Rightarrow> 'c \<Rightarrow> int \<times> 'c) \<Rightarrow> ptr darray \<Rightarrow> ('k, 's) hmem_scheme \<Rightarrow> nat list \<Rightarrow> 'c \<Rightarrow> (int \<times> 'c) res" where
  "traverse_buckets cb buckets s [] c = Inr (0, c)"
| "traverse_buckets cb buckets s (i # is) c =
     rbind (Darray_get buckets (int i)) (\<lambda>bucket.
       rbind (case bucket of None \<Rightarrow> Inr (0, c)
              | Some b \<Rightarrow> rbind (bucket_get b s) (\<lambda>d.
                  traverse_chain cb d s [0..<nat (Darray_count d)] c))
         (\<lambda>(rc, c1). if rc \<noteq> 0 then Inr (rc, c1) else traverse_buckets cb buckets s is c1))"

definition Hashmap_traverse ::
  "'k hashmap \<Rightarrow> ('k hnode \<Rightarrow> 'c \<Rightarrow> int \<times> 'c) \<Rightarrow> ('k, 's) hmem_scheme \<Rightarrow> 'c \<Rightarrow> (int \<times> 'k hashmap \<times> 'c) res" where
  "Hashmap_traverse m cb s c =
     rbind (hm_lock m) (\<lambda>m1.
     rbind (traverse_buckets cb (hm_buckets m1) s [0..<nat (Darray_count (hm_buckets m1))] c) (\<lambda>(rc, c1).
     rbind (hm_unlock m1) (\<lambda>m2. Inr (rc, m2, c1))))"

definition destroy_node ::
  "int \<Rightarrow> ptr darray \<Rightarrow> nat \<Rightarrow> ('k, 's) hmem_scheme \<Rightarrow> ('k, 's) hmem_scheme res" where
  "destroy_node flags bucket j s =
     rbind (Darray_get bucket (int j)) (\<lambda>p.
     rbind (hnode_get p s) (\<lambda>node.
     rbind (if flags AND HASHMAP_DESTROY_DATA \<noteq> 0 then c_free (hdata node) s else Inr s) (\<lambda>s1.
     rbind (if flags AND HASHMAP_DESTROY_KEYS \<noteq> 0 then c_free (fst (hkey node)) s1 else Inr s1) (\<lambda>s2.
     rbind (c_free (the p) s2) (\<lambda>s3. Inr (s3\<lparr>hnodes := (hnodes s3)(the p := None)\<rparr>))))))"

definition destroy_bucket ::
  "int \<Rightarrow> ptr darray \<Rightarrow> nat \<Rightarrow> ('k, 's) hmem_scheme \<Rightarrow> ('k, 's) hmem_scheme res" where
  "destroy_bucket flags buckets i s =
     rbind (Darray_get buckets (int i)) (\<lambda>bucket.
       case bucket of None \<Rightarrow> Inr s
       | Some b \<Rightarrow>
           rbind (bucket_get b s) (\<lambda>d.
           rbind (rfor [0..<nat (Darray_count d)] (destroy_node flags d) s) (\<lambda>s1.
           rbind (Darray_destroy d s1) (\<lambda>s2. Inr (s2\<lparr>hbuckets := (hbuckets s2)(b := None)\<rparr>)))))"

definition Hashmap_destroy ::
  "'k hashmap \<Rightarrow> int \<Rightarrow> ('k, 's) hmem_scheme \<Rightarrow> ('k, 's) hmem_scheme res" where
  "Hashmap_destroy m flags s =
     rbind (rfor [0..<nat (Darray_count (hm_buckets m))] (destroy_bucket flags (hm_buckets m)) s) (\<lambda>s1.
     rbind (Darray_destroy (hm_buckets m) s1) (\<lambda>s2.
     rbind (c_free (hm_mtx m) s2) (\<lambda>s3. c_free (hm_addr m) s3)))"

section \<open>Invariant and abstraction\<close>

text \<open>The array of buckets is full: \<^verbatim>\<open>end\<close> was set to \<^verbatim>\<open>max\<close>.\<close>

definition hm_ok :: "'k hashmap \<Rightarrow> bool" where
  "hm_ok m \<longleftrightarrow> 0 < hm_numBuckets m \<and> hm_numBuckets m \<le> INT_MAX \<and>
     d_end (hm_buckets m) = hm_numBuckets m \<and> d_max (hm_buckets m) = hm_numBuckets m \<and>
     length (contents (hm_buckets m)) = nat (hm_numBuckets m) \<and>
     Junk \<notin> set (contents (hm_buckets m)) \<and> \<not> d_locked (hm_buckets m)"

definition bsize :: "'k hashmap \<Rightarrow> nat" where
  "bsize m = nat (hm_numBuckets m)"

definition ix :: "'k hashmap \<Rightarrow> 'k \<Rightarrow> nat" where
  "ix m k = unat (hm_hash m k) mod bsize m"

definition bslot :: "'k hashmap \<Rightarrow> nat \<Rightarrow> ptr option" where
  "bslot m i = slot_ptr (contents (hm_buckets m) ! i)"

definition bkt :: "'k hashmap \<Rightarrow> ('k, 's) hmem_scheme \<Rightarrow> nat \<Rightarrow> ptr darray option" where
  "bkt m s i = (case bslot m i of None \<Rightarrow> None | Some b \<Rightarrow> hbuckets s b)"

definition nodes_of :: "ptr darray \<Rightarrow> ptr set" where
  "nodes_of d = {p. Some p \<in> set (darray_list d)}"

definition foot :: "ptr darray \<Rightarrow> ptr set" where
  "foot d = darray_blocks d \<union> nodes_of d"

definition outer :: "'k hashmap \<Rightarrow> ptr set" where
  "outer m = darray_blocks (hm_buckets m) \<union> {hm_addr m, hm_mtx m}"

definition bucket_inv :: "'k hashmap \<Rightarrow> ('k, 's) hmem_scheme \<Rightarrow> nat \<Rightarrow> ptr darray \<Rightarrow> bool" where
  "bucket_inv m s i d \<longleftrightarrow> darray_owned d s \<and> distinct (darray_list d) \<and> None \<notin> set (darray_list d) \<and>
     darray_blocks d \<inter> nodes_of d = {} \<and>
     (\<forall>p \<in> nodes_of d. p \<in> live s \<and>
        (\<exists>n. hnodes s p = Some n \<and> hhash n = hm_hash m (snd (hkey n)) \<and> ix m (snd (hkey n)) = i))"

text \<open>
  \<open>hm_shape\<close>: every bucket is a well-formed array of its own, holding pointers to live nodes that
  hash to it, and all these blocks are distinct. \<open>hm_inv\<close> adds that the mutex is free.
\<close>

definition hm_shape :: "'k hashmap \<Rightarrow> ('k, 's) hmem_scheme \<Rightarrow> bool" where
  "hm_shape m s \<longleftrightarrow> hm_ok m \<and> mem_ok s \<and> outer m \<subseteq> live s \<and>
     (\<forall>i < bsize m. \<forall>b. bslot m i = Some b \<longrightarrow>
        (\<exists>d. hbuckets s b = Some d \<and> d_addr d = b \<and> bucket_inv m s i d \<and> outer m \<inter> foot d = {})) \<and>
     (\<forall>i < bsize m. \<forall>j < bsize m. i \<noteq> j \<longrightarrow>
        (\<forall>d e. bkt m s i = Some d \<longrightarrow> bkt m s j = Some e \<longrightarrow> foot d \<inter> foot e = {}))"

definition hm_inv :: "'k hashmap \<Rightarrow> ('k, 's) hmem_scheme \<Rightarrow> bool" where
  "hm_inv m s \<longleftrightarrow> hm_shape m s \<and> \<not> hm_locked m"

text \<open>The nodes of a bucket in order, and what a key is bound to: the data of the first match.\<close>

definition chain :: "'k hashmap \<Rightarrow> ('k, 's) hmem_scheme \<Rightarrow> nat \<Rightarrow> 'k hnode list" where
  "chain m s i =
     (case bkt m s i of None \<Rightarrow> [] | Some d \<Rightarrow> map (\<lambda>p. the (hnodes s (the p))) (darray_list d))"

definition hits :: "'k hashmap \<Rightarrow> 'k \<Rightarrow> 'k hnode \<Rightarrow> bool" where
  "hits m k n \<longleftrightarrow> hhash n = hm_hash m k \<and> hm_compare m (snd (hkey n)) k = 0"

definition hm_map :: "'k hashmap \<Rightarrow> ('k, 's) hmem_scheme \<Rightarrow> 'k \<Rightarrow> ptr option" where
  "hm_map m s k = map_option hdata (List.find (hits m k) (chain m s (ix m k)))"

lemma ix_less: "hm_ok m \<Longrightarrow> ix m k < bsize m"
  by (simp add: ix_def bsize_def hm_ok_def)

lemma bucket_index_ok:
  assumes "hm_ok m"
  shows "bucket_index m (hm_hash m k) = Inr (int (ix m k))"
proof -
  have nb: "0 < hm_numBuckets m" "hm_numBuckets m < 2147483648"
    using assms by (auto simp: hm_ok_def INT_MAX_def)
  have u: "unat (word_of_int (hm_numBuckets m) :: 32 word) = bsize m"
  proof -
    have "word_of_int (hm_numBuckets m) = (word_of_nat (bsize m) :: 32 word)" using nb by (simp add: bsize_def)
    moreover have "bsize m < 4294967296" using nb by (simp add: bsize_def)
    ultimately show ?thesis by (simp add: unat_of_nat)
  qed
  then have "(word_of_int (hm_numBuckets m) :: 32 word) \<noteq> 0" using nb(1) by (auto simp: bsize_def)
  moreover have "unat (hm_hash m k mod word_of_int (hm_numBuckets m)) = ix m k"
    by (simp add: unat_mod_distrib u ix_def)
  moreover have "int (ix m k) \<le> INT_MAX"
    using ix_less [OF assms, of k] nb by (simp add: bsize_def INT_MAX_def zless_nat_eq_int_zless)
  ultimately show ?thesis by (simp add: bucket_index_def)
qed

lemma buckets_get:
  assumes "hm_ok m" and "i < bsize m"
  shows "Darray_get (hm_buckets m) (int i) = Inr (bslot m i)"
proof -
  have i: "i < length (contents (hm_buckets m))" "Junk \<notin> set (contents (hm_buckets m))"
    using assms by (auto simp: hm_ok_def bsize_def)
  then have "contents (hm_buckets m) ! i \<noteq> Junk" by (metis nth_mem)
  then show ?thesis using assms i
    by (cases "contents (hm_buckets m) ! i")
      (auto simp: Darray_get_def d_lock_def d_unlock_def slot_read_def hm_ok_def bsize_def bslot_def)
qed

lemma hm_locked_simps [simp]:
  "hm_ok (m\<lparr>hm_locked := b\<rparr>) = hm_ok m" "bsize (m\<lparr>hm_locked := b\<rparr>) = bsize m"
  "ix (m\<lparr>hm_locked := b\<rparr>) = ix m" "bslot (m\<lparr>hm_locked := b\<rparr>) = bslot m"
  "bkt (m\<lparr>hm_locked := b\<rparr>) = bkt m" "outer (m\<lparr>hm_locked := b\<rparr>) = outer m"
  "bucket_inv (m\<lparr>hm_locked := b\<rparr>) = bucket_inv m" "hm_shape (m\<lparr>hm_locked := b\<rparr>) = hm_shape m"
  "chain (m\<lparr>hm_locked := b\<rparr>) = chain m" "hits (m\<lparr>hm_locked := b\<rparr>) = hits m"
  by (simp_all add: fun_eq_iff hm_ok_def bsize_def ix_def bslot_def bkt_def outer_def bucket_inv_def
      hm_shape_def chain_def hits_def)

lemma hm_map_locked [simp]: "hm_map (m\<lparr>hm_locked := b\<rparr>) = hm_map m"
  by (intro ext) (simp add: hm_map_def)

lemma hm_lock_ok [run_simps]: "hm_inv m s \<Longrightarrow> hm_lock m = Inr (m\<lparr>hm_locked := True\<rparr>)"
  by (simp add: hm_lock_def hm_inv_def)

lemma hm_unlock_ok [simp]: "hm_locked m \<Longrightarrow> hm_unlock m = Inr (m\<lparr>hm_locked := False\<rparr>)"
  by (simp add: hm_unlock_def)

lemma hm_bucket:
  assumes "hm_shape m s" and "i < bsize m" and "bslot m i = Some b"
  shows "\<exists>d. hbuckets s b = Some d \<and> bkt m s i = Some d \<and> d_addr d = b \<and> bucket_inv m s i d \<and>
    outer m \<inter> foot d = {}"
  using assms by (auto simp: hm_shape_def bkt_def)

lemma bucket_node:
  assumes "bucket_inv m s i d" and "j < length (darray_list d)"
  shows "\<exists>p n. darray_list d ! j = Some p \<and> hnodes s p = Some n \<and> p \<in> live s \<and> p \<in> nodes_of d \<and>
    hhash n = hm_hash m (snd (hkey n)) \<and> ix m (snd (hkey n)) = i"
proof -
  have i: "darray_list d ! j \<in> set (darray_list d)" using assms(2) by simp
  have "None \<notin> set (darray_list d)" using assms(1) by (simp add: bucket_inv_def)
  then obtain p where p: "darray_list d ! j = Some p" using i by (metis option.exhaust)
  then have "p \<in> nodes_of d" using i by (simp add: nodes_of_def)
  then show ?thesis using assms(1) p unfolding bucket_inv_def by blast
qed

section \<open>Searching\<close>

lemma get_node_loop_ok:
  assumes "bucket_inv m s i d"
  defines "ns \<equiv> map (\<lambda>p. the (hnodes s (the p))) (darray_list d)"
  assumes "h = hm_hash m k" and "j \<le> length ns"
  shows "get_node_loop m h d k s [j..<length ns] =
    Inr (if j + first_hit (hits m k) (drop j ns) < length ns
         then int (j + first_hit (hits m k) (drop j ns)) else -1)"
  using assms(4)
proof (induction "length ns - j" arbitrary: j)
  case 0
  then show ?case by (simp add: first_hit_def)
next
  case (Suc n)
  then have j: "j < length ns" by simp
  have ok: "darray_ok d" using assms(1) by (simp add: bucket_inv_def darray_owned_def darray_inv_def)
  obtain p nd where p: "darray_list d ! j = Some p" "hnodes s p = Some nd"
    using bucket_node [OF assms(1), of j] j by (auto simp: ns_def)
  have g: "Darray_get d (int j) = Inr (Some p)"
    using Darray_get_ok [OF ok, of "int j"] p(1) j length_darray_list [OF ok] by (simp add: ns_def)
  have nj: "ns ! j = nd" using p j by (simp add: ns_def)
  have dr: "drop j ns = nd # drop (Suc j) ns" using Cons_nth_drop_Suc [OF j] nj by simp
  have up: "[j..<length ns] = j # [Suc j..<length ns]" using j by (simp add: upt_conv_Cons)
  show ?case
  proof (cases "hits m k nd")
    case True
    then show ?thesis using g p(2) j assms(3)
      by (simp add: up dr first_hit_def hnode_get_def hits_def)
  next
    case False
    then have "get_node_loop m h d k s [j..<length ns] = get_node_loop m h d k s [Suc j..<length ns]"
      using g p(2) assms(3) unfolding up hits_def by (simp add: hnode_get_def del: de_Morgan_conj)
    also have "\<dots> = Inr (if Suc j + first_hit (hits m k) (drop (Suc j) ns) < length ns
         then int (Suc j + first_hit (hits m k) (drop (Suc j) ns)) else -1)"
      using Suc j by (intro Suc.hyps(1)) simp_all
    finally show ?thesis using False by (simp add: dr first_hit_def)
  qed
qed

lemma Hashmap_get_node_ok:
  assumes "bucket_inv m s i d"
  shows "Hashmap_get_node m (hm_hash m k) d k s =
    (let ns = map (\<lambda>p. the (hnodes s (the p))) (darray_list d) in
     Inr (if first_hit (hits m k) ns < length ns then int (first_hit (hits m k) ns) else -1))"
proof -
  have "darray_ok d" using assms by (simp add: bucket_inv_def darray_owned_def darray_inv_def)
  then have "nat (d_end d) = length (map (\<lambda>p. the (hnodes s (the p))) (darray_list d))" by simp
  then show ?thesis
    using get_node_loop_ok [OF assms refl, of 0] by (simp add: Hashmap_get_node_def Let_def)
qed

section \<open>Changing one bucket\<close>

lemma bucket_inv_frame:
  assumes "bucket_inv m s i d" and "mem_ok s'"
    and "\<And>p. p \<in> foot d \<Longrightarrow> p \<in> live s'" and "\<And>p. p \<in> nodes_of d \<Longrightarrow> hnodes s' p = hnodes s p"
  shows "bucket_inv m s' i d"
  using assms by (auto simp: bucket_inv_def darray_owned_def darray_inv_def foot_def darray_blocks_def)

lemma bucket_foot_live: "bucket_inv m s i d \<Longrightarrow> foot d \<subseteq> live s"
  by (auto simp: bucket_inv_def foot_def darray_owned_def)

text \<open>
  The general step: bucket \<open>i\<close> becomes \<open>d'\<close>, made of the blocks of the old one and fresh ones, and
  nothing outside the old bucket changes.
\<close>

lemma hm_change_bucket:
  assumes "hm_shape m s" and "i < bsize m" and "bslot m i = Some b" and "hbuckets s b = Some d"
    and "mem_ok s'" and "d_addr d' = b" and "bucket_inv m s' i d'"
    and "hbuckets s' = (hbuckets s)(b := Some d')"
    and keep: "\<And>p. p \<in> live s \<Longrightarrow> p \<notin> foot d \<Longrightarrow> p \<in> live s' \<and> hnodes s' p = hnodes s p"
    and new: "\<And>p. p \<in> foot d' \<Longrightarrow> p \<in> foot d \<or> p \<notin> live s"
  shows "hm_shape m s'" and "\<And>j. j < bsize m \<Longrightarrow> j \<noteq> i \<Longrightarrow> chain m s' j = chain m s j"
    and "chain m s' i = map (\<lambda>p. the (hnodes s' (the p))) (darray_list d')"
proof -
  have out: "outer m \<subseteq> live s" and outd: "outer m \<inter> foot d = {}" and bd: "d_addr d = b"
    and di: "bucket_inv m s i d"
    using assms(1-4) hm_bucket [OF assms(1-3)] by (auto simp: hm_shape_def)
  have bi: "bkt m s i = Some d" using assms(3,4) by (simp add: bkt_def)
  have other: "\<exists>e. hbuckets s' c = Some e \<and> hbuckets s c = Some e \<and> bkt m s' j = Some e \<and> bkt m s j = Some e \<and> d_addr e = c \<and>
      bucket_inv m s' j e \<and> outer m \<inter> foot e = {} \<and> foot d' \<inter> foot e = {} \<and>
      (\<forall>p \<in> nodes_of e. hnodes s' p = hnodes s p)"
    if j: "j < bsize m" "j \<noteq> i" "bslot m j = Some c" for j c
  proof -
    obtain e where e: "hbuckets s c = Some e" "bkt m s j = Some e" "d_addr e = c" "bucket_inv m s j e"
      "outer m \<inter> foot e = {}"
      using hm_bucket [OF assms(1) j(1,3)] by blast
    have dis: "foot d \<inter> foot e = {}" using assms(1,2) j(1,2) bi e(2) by (auto simp: hm_shape_def)
    have cb: "c \<noteq> b" using dis e(3) bd by (auto simp: foot_def darray_blocks_def)
    have k: "p \<in> live s' \<and> hnodes s' p = hnodes s p" if "p \<in> foot e" for p
      using keep [of p] dis that bucket_foot_live [OF e(4)] by blast
    have inv: "bucket_inv m s' j e"
      using bucket_inv_frame [OF e(4) assms(5)] k by (auto simp: foot_def)
    have "foot d' \<inter> foot e = {}" using new dis bucket_foot_live [OF e(4)] by blast
    then show ?thesis using e inv k cb assms(8) j(3) by (auto simp: bkt_def foot_def)
  qed
  have bi': "bkt m s' i = Some d'" using assms(3,8) by (simp add: bkt_def)
  have outd': "outer m \<inter> foot d' = {}" using outd out new by blast
  have "outer m \<subseteq> live s'" using out outd keep by blast
  moreover have "\<exists>e. hbuckets s' c = Some e \<and> d_addr e = c \<and> bucket_inv m s' j e \<and> outer m \<inter> foot e = {}"
    if "j < bsize m" "bslot m j = Some c" for j c
  proof (cases "j = i")
    case True
    then show ?thesis using that assms(3,6,7,8) outd' by simp
  next
    case False
    then show ?thesis using other [OF that(1) False that(2)] by blast
  qed
  moreover have "foot e1 \<inter> foot e2 = {}"
    if j: "j < bsize m" "k < bsize m" "j \<noteq> k" and e: "bkt m s' j = Some e1" "bkt m s' k = Some e2" for j k e1 e2
  proof -
    obtain c1 c2 where c: "bslot m j = Some c1" "bslot m k = Some c2"
      using e by (auto simp: bkt_def split: option.splits)
    consider "j = i" | "k = i" | "j \<noteq> i" "k \<noteq> i" by blast
    then show ?thesis
    proof cases
      case 1
      then show ?thesis using other [of k c2] j c(2) e bi' by auto
    next
      case 2
      then show ?thesis using other [of j c1] j c(1) e bi' by auto
    next
      case 3
      then have "bkt m s j = Some e1" "bkt m s k = Some e2"
        using other [of j c1] other [of k c2] j c e by auto
      then show ?thesis using assms(1) j by (auto simp: hm_shape_def)
    qed
  qed
  ultimately show "hm_shape m s'" using assms(1,5) by (auto simp: hm_shape_def)
  show "chain m s' j = chain m s j" if j: "j < bsize m" "j \<noteq> i" for j
  proof (cases "bslot m j")
    case None
    then show ?thesis by (simp add: chain_def bkt_def)
  next
    case (Some c)
    then obtain e where e: "bkt m s' j = Some e" "bkt m s j = Some e" "bucket_inv m s' j e"
      "\<forall>p \<in> nodes_of e. hnodes s' p = hnodes s p"
      using other [OF j Some] by blast
    have "the (hnodes s' (the x)) = the (hnodes s (the x))" if x: "x \<in> set (darray_list e)" for x
    proof -
      have "None \<notin> set (darray_list e)" using e(3) by (simp add: bucket_inv_def)
      then obtain p where "x = Some p" using x by (cases x) auto
      then show ?thesis using x e(4) by (simp add: nodes_of_def)
    qed
    then show ?thesis using e(1,2) by (simp add: chain_def)
  qed
  show "chain m s' i = map (\<lambda>p. the (hnodes s' (the p))) (darray_list d')"
    using bi' by (simp add: chain_def)
qed

end
