(* ===== verification/Hash_Map_Laws.thy ===== *)
theory Hash_Map_Laws
  imports Hash_Map
begin

text \<open>
  The operations of the hash table \<^verbatim>\<open>Hash_Map\<close> against maps: what \<^verbatim>\<open>Hashmap_set\<close>, \<^verbatim>\<open>Hashmap_get\<close>
  and \<^verbatim>\<open>Hashmap_delete\<close> do to \<open>hm_map\<close> and that they keep \<open>hm_inv\<close>.
\<close>

section \<open>Memory\<close>

lemma more_hmem:
  fixes s s' :: "('k, 's) hmem_scheme"
  assumes "cmem.more s' = cmem.more s"
  shows "hnodes s' = hnodes s" "hbuckets s' = hbuckets s"
  using assms by (cases s; cases s'; simp)+

lemma bslot_list: "hm_ok m \<Longrightarrow> i < bsize m \<Longrightarrow> i < length (contents (hm_buckets m))"
  by (simp add: hm_ok_def bsize_def)

section \<open>A new bucket\<close>

definition with_bucket :: "'k hashmap \<Rightarrow> nat \<Rightarrow> ptr \<Rightarrow> 'k hashmap" where
  "with_bucket m i b =
     m\<lparr>hm_buckets := (hm_buckets m)\<lparr>contents := (contents (hm_buckets m))[i := Val (Some b)]\<rparr>\<rparr>"

lemma with_bucket_simps [simp]:
  "hm_locked (with_bucket m i b) = hm_locked m" "bsize (with_bucket m i b) = bsize m" "ix (with_bucket m i b) = ix m"
  "outer (with_bucket m i b) = outer m" "hits (with_bucket m i b) = hits m" "hm_hash (with_bucket m i b) = hm_hash m"
  "hm_compare (with_bucket m i b) = hm_compare m" "bucket_inv (with_bucket m i b) = bucket_inv m"
  by (simp_all add: fun_eq_iff with_bucket_def bsize_def ix_def outer_def darray_blocks_def hits_def bucket_inv_def)

lemma with_bucket_ok: "hm_ok m \<Longrightarrow> hm_ok (with_bucket m i b)"
  using set_update_subset_insert [of "contents (hm_buckets m)" i "Val (Some b)"]
  by (auto simp: hm_ok_def with_bucket_def)

lemma with_bucket_slot: "hm_ok m \<Longrightarrow> i < bsize m \<Longrightarrow> bslot (with_bucket m i b) j = (if j = i then Some b else bslot m j)"
  using bslot_list [of m i] by (auto simp: bslot_def with_bucket_def)

lemma hm_new_bucket:
  fixes s s' :: "('k, 's) hmem_scheme"
  assumes shape: "hm_shape m s" and i: "i < bsize m" "bslot m i = None"
    and d: "darray_owned d s'" "darray_list d = []" "darray_blocks d \<inter> live s = {}"
    and s': "live s \<subseteq> live s'" "hnodes s' = hnodes s" "hbuckets s' = (hbuckets s)(d_addr d := Some d)"
  shows "hm_shape (with_bucket m i (d_addr d)) s'"
    and "j < bsize m \<Longrightarrow> chain (with_bucket m i (d_addr d)) s' j = chain m s j"
proof -
  let ?m = "with_bucket m i (d_addr d)"
  have ok: "hm_ok m" and out: "outer m \<subseteq> live s" using shape by (auto simp: hm_shape_def)
  have mem: "mem_ok s'" using d(1) by (simp add: darray_owned_def darray_inv_def)
  note slot = with_bucket_slot [OF ok i(1)]
  have fd: "foot d = darray_blocks d" "nodes_of d = {}" using d(2) by (auto simp: foot_def nodes_of_def)
  have inv: "bucket_inv m s' i d" using d(1,2) fd by (simp add: bucket_inv_def)
  have bi: "bkt ?m s' i = Some d" using s'(3) slot by (simp add: bkt_def)
  have old: "\<exists>e. hbuckets s' c = Some e \<and> bkt ?m s' j = Some e \<and> bkt m s j = Some e \<and> d_addr e = c \<and> bucket_inv m s' j e \<and>
      outer m \<inter> foot e = {} \<and> foot d \<inter> foot e = {}" if j: "j < bsize m" "j \<noteq> i" "bslot m j = Some c" for j c
  proof -
    obtain e where e: "hbuckets s c = Some e" "bkt m s j = Some e" "d_addr e = c" "bucket_inv m s j e" "outer m \<inter> foot e = {}"
      using hm_bucket [OF shape j(1,3)] by blast
    have fe: "foot e \<subseteq> live s" by (rule bucket_foot_live [OF e(4)])
    have "c \<in> foot e" using e(3) by (auto simp: foot_def darray_blocks_def)
    then have "c \<noteq> d_addr d" using fe d(3) by (auto simp: darray_blocks_def)
    then have h: "hbuckets s' c = Some e" using e(1) s'(3) by simp
    then have "bkt ?m s' j = Some e" using j slot by (simp add: bkt_def)
    moreover have "bucket_inv m s' j e" using bucket_inv_frame [OF e(4) mem] fe s'(1,2) by auto
    moreover have "foot d \<inter> foot e = {}" using fd(1) d(3) fe by auto
    ultimately show ?thesis using h e by blast
  qed
  have outd: "outer m \<inter> foot d = {}" using fd(1) d(3) out by auto
  have "\<exists>e. hbuckets s' c = Some e \<and> d_addr e = c \<and> bucket_inv m s' j e \<and> outer m \<inter> foot e = {}"
    if "j < bsize m" "bslot ?m j = Some c" for j c
  proof (cases "j = i")
    case True
    then show ?thesis using that(2) slot s'(3) inv outd by auto
  next
    case False
    then show ?thesis using old [OF that(1) False] that(2) slot by auto
  qed
  moreover have "foot e1 \<inter> foot e2 = {}"
    if j: "j < bsize m" "k < bsize m" "j \<noteq> k" and e: "bkt ?m s' j = Some e1" "bkt ?m s' k = Some e2" for j k e1 e2
  proof -
    have sl: "\<exists>c. bslot m a = Some c" if "bkt ?m s' a = Some e" "a \<noteq> i" for a e
      using that slot by (auto simp: bkt_def split: option.splits)
    consider "j = i" | "k = i" | "j \<noteq> i" "k \<noteq> i" by blast
    then show ?thesis
    proof cases
      case 1
      then obtain c where "bslot m k = Some c" using sl [OF e(2)] j(3) by auto
      then show ?thesis using old [OF j(2)] 1 e bi j(3) by auto
    next
      case 2
      then obtain c where "bslot m j = Some c" using sl [OF e(1)] j(3) by auto
      then show ?thesis using old [OF j(1)] 2 e bi j(3) by auto
    next
      case 3
      then obtain c1 c2 where "bslot m j = Some c1" "bslot m k = Some c2" using sl e by blast
      then have "bkt m s j = Some e1" "bkt m s k = Some e2" using old [of j c1] old [of k c2] j 3 e by auto
      then show ?thesis using shape j by (auto simp: hm_shape_def)
    qed
  qed
  moreover have "outer m \<subseteq> live s'" using out s'(1) by blast
  ultimately show "hm_shape ?m s'" using with_bucket_ok [OF ok] mem by (simp add: hm_shape_def)
  show "chain ?m s' j = chain m s j" if "j < bsize m" for j
  proof (cases "j = i")
    case True
    then show ?thesis using bi d(2) i(2) by (simp add: chain_def bkt_def)
  next
    case False
    show ?thesis
    proof (cases "bslot m j")
      case None
      then show ?thesis using False slot by (simp add: chain_def bkt_def)
    next
      case (Some c)
      then show ?thesis using old [OF that False Some] s'(2) by (auto simp: chain_def)
    qed
  qed
qed

section \<open>Finding the bucket\<close>

lemma Hashmap_find_bucket_old:
  assumes "hm_ok m" and "bslot m (ix m k) = Some b \<or> \<not> create"
  shows "Hashmap_find_bucket m (Some (a, k)) create s = Inr (bslot m (ix m k), hm_hash m k, m, s)"
  using assms buckets_get [OF assms(1) ix_less [OF assms(1)], of k] bucket_index_ok [OF assms(1), of k]
  by (auto simp: Hashmap_find_bucket_def)

lemma buckets_set:
  assumes "hm_ok m" and "i < bsize m"
  shows "Darray_set (hm_buckets m) (int i) (Some b) = Inr (hm_buckets (with_bucket m i b))"
  using assms by (auto simp: Darray_set_def d_lock_def d_unlock_def slot_write_def hm_ok_def bsize_def with_bucket_def)

lemma size_t_of_buckets: "hm_ok m \<Longrightarrow> size_t_of_int (hm_numBuckets m) = bsize m"
  by (simp add: size_t_of_int_def hm_ok_def bsize_def INT_MAX_def)

lemma Hashmap_find_bucket_new:
  fixes s :: "('k, 's) hmem_scheme"
  assumes "hm_shape m s" and "ample s" and "bslot m (ix m k) = None"
  shows "\<exists>d s'. Hashmap_find_bucket m (Some (a, k)) True s =
      Inr (Some (d_addr d), hm_hash m k, with_bucket m (ix m k) (d_addr d), s') \<and>
    hm_shape (with_bucket m (ix m k) (d_addr d)) s' \<and> ample s' \<and> hbuckets s' (d_addr d) = Some d \<and> darray_list d = [] \<and>
    d_end d = 0 \<and> (\<forall>j < bsize m. chain (with_bucket m (ix m k) (d_addr d)) s' j = chain m s j)"
proof -
  have ok: "hm_ok m" and mem: "mem_ok s" using assms(1) by (auto simp: hm_shape_def)
  have nb: "0 < bsize m" "int (bsize m) \<le> INT_MAX" using ok by (auto simp: hm_ok_def bsize_def)
  obtain d s1 where d: "Darray_create 8 (bsize m) s = Inr (Some (d :: ptr darray), s1)" "darray_owned d s1" "darray_list d = []"
    "d_end d = 0" "live s1 = live s \<union> darray_blocks d" "darray_blocks d \<inter> live s = {}" "mem_grow s s1" "ample s1"
    using Darray_create_ok [OF mem assms(2) _ nb, of 8] by auto
  let ?s = "bucket_put (d_addr d) d s1"
  have more: "hnodes s1 = hnodes s" "hbuckets s1 = hbuckets s" using d(7) more_hmem [of s1 s] by (simp_all add: mem_grow_def)
  have own: "darray_owned d ?s" using d(2) by (simp add: darray_owned_def darray_inv_def mem_ok_def bucket_put_def)
  have hb: "hbuckets ?s = (hbuckets s)(d_addr d := Some d)" "hnodes ?s = hnodes s" "live s \<subseteq> live ?s"
    using more d(5) by (auto simp: bucket_put_def)
  have "Hashmap_find_bucket m (Some (a, k)) True s =
      Inr (Some (d_addr d), hm_hash m k, with_bucket m (ix m k) (d_addr d), ?s)"
    using buckets_get [OF ok ix_less [OF ok], of k] bucket_index_ok [OF ok, of k] assms(3) d(1)
      buckets_set [OF ok ix_less [OF ok], of k] size_t_of_buckets [OF ok]
    by (simp add: Hashmap_find_bucket_def) (simp add: with_bucket_def)
  moreover have "ample ?s" using d(8) by (simp add: ample_def bucket_put_def)
  moreover note hm_new_bucket [OF assms(1) ix_less [OF ok] assms(3) own d(3,6) hb(3,2,1)]
  ultimately show ?thesis using d(3,4) hb(1) by (intro exI [of _ d] exI [of _ ?s]) simp
qed

section \<open>Adding a node to a bucket\<close>

text \<open>A bucket after an operation of \<^verbatim>\<open>Darray\<close>: still owned, with at most a fresh buffer.\<close>

lemma owned_step:
  fixes d :: "'a darray" and s s' :: "'s cmem_scheme"
  assumes "darray_owned d s" and "darray_step d s d' s'"
  shows "darray_blocks d' \<subseteq> insert (d_buf d') (darray_blocks d)"
    and "d_buf d' = d_buf d \<or> d_buf d' \<notin> live s"
    and "\<And>p. p \<in> live s \<Longrightarrow> p \<noteq> d_buf d \<Longrightarrow> p \<in> live s'"
proof -
  have mem: "mem_ok s" using assms(1) by (simp add: darray_owned_def darray_inv_def)
  have st: "live s' - {d_buf d'} = live s - {d_buf d}" "d_buf d' = d_buf d \<or> calls s < d_buf d'" "d_addr d' = d_addr d"
    "d_mtx d' = d_mtx d"
    using assms(2) by (auto simp: darray_step_def)
  show "d_buf d' = d_buf d \<or> d_buf d' \<notin> live s"
    using st(2) mem_ok_bound [OF mem, of "d_buf d'"] by fastforce
  show "p \<in> live s \<Longrightarrow> p \<noteq> d_buf d \<Longrightarrow> p \<in> live s'" for p using st(1) by blast
  show "darray_blocks d' \<subseteq> insert (d_buf d') (darray_blocks d)" using st(3,4) by (auto simp: darray_blocks_def)
qed

definition hm_node :: "'k hashmap \<Rightarrow> 'k kptr \<Rightarrow> ptr \<Rightarrow> 'k hnode" where
  "hm_node m key data = \<lparr>hkey = key, hdata = data, hhash = hm_hash m (snd key)\<rparr>"

lemma hm_add_node:
  fixes s :: "('k, 's) hmem_scheme"
  assumes shape: "hm_shape m s" and am: "ample s" and b: "bslot m (ix m k) = Some b" "hbuckets s b = Some d" and room: "room d 1"
  shows "\<exists>node s2 d1 s3. Hashmap_node_create (hm_hash m k) (Some (a, k)) data s = Inr (node, s2) \<and> bucket_get b s2 = Inr d \<and>
    Darray_push d (Some node) s2 = Inr (0, d1, s3) \<and> hm_shape m (bucket_put b d1 s3) \<and>
    chain m (bucket_put b d1 s3) (ix m k) = chain m s (ix m k) @ [hm_node m (a, k) data] \<and>
    (\<forall>j < bsize m. j \<noteq> ix m k \<longrightarrow> chain m (bucket_put b d1 s3) j = chain m s j)"
proof -
  let ?i = "ix m k" and ?n = "Suc (calls s)" and ?nd = "hm_node m (a, k) data"
  let ?s2 = "s\<lparr>calls := ?n, live := insert ?n (live s), hnodes := (hnodes s)(?n := Some ?nd)\<rparr>"
  have ok: "hm_ok m" and mem: "mem_ok s" using shape by (auto simp: hm_shape_def)
  have i: "?i < bsize m" by (rule ix_less [OF ok])
  obtain d0 where d0: "hbuckets s b = Some d0" "bkt m s ?i = Some d0" "d_addr d0 = b" "bucket_inv m s ?i d0"
    using hm_bucket [OF shape i b(1)] by blast
  have dd: "d0 = d" using d0(1) b(2) by simp
  note di = d0(2-4) [unfolded dd]
  have fresh: "?n \<notin> live s" using mem by (rule mem_ok_fresh)
  have create: "Hashmap_node_create (hm_hash m k) (Some (a, k)) data s = Inr (?n, ?s2)"
    using am by (simp add: Hashmap_node_create_def c_alloc_def hm_node_def)
  have mem2: "mem_ok ?s2" using mem by (auto simp: mem_ok_def)
  have own: "darray_owned d s" using di(3) by (simp add: bucket_inv_def)
  have own2: "darray_owned d ?s2" using own mem2 by (auto simp: darray_owned_def darray_inv_def)
  have inv2: "darray_inv d ?s2" using own2 by (simp add: darray_owned_def)
  have am2: "ample ?s2" using am by (simp add: ample_def)
  obtain d1 s3 where push: "Darray_push d (Some ?n) ?s2 = Inr (0, d1, s3)" "darray_inv d1 s3"
    "darray_list d1 = darray_list d @ [Some ?n]" "darray_step d ?s2 d1 s3"
    using Darray_push_ok [OF inv2 am2, of 0 ?n] room by auto
  note ow = darray_step_owned(1) [OF own2 push(4,2)] owned_step [OF own2 push(4)]
  have more: "hnodes s3 = hnodes ?s2" "hbuckets s3 = hbuckets s"
    using push(4) more_hmem [of s3 ?s2] by (simp_all add: darray_step_def)
  have nodes: "nodes_of d1 = insert ?n (nodes_of d)" using push(3) by (auto simp: nodes_of_def)
  have fd: "foot d \<subseteq> live s" by (rule bucket_foot_live [OF di(3)])
  have nfoot: "?n \<notin> foot d" using fd fresh by blast
  have mem3: "mem_ok s3" using push(2) by (simp add: darray_inv_def)
  have buf: "d_buf d1 = d_buf d \<or> d_buf d1 \<notin> insert ?n (live s)" using ow(3) by simp
  have bufn: "d_buf d1 \<notin> nodes_of d1"
  proof
    assume "d_buf d1 \<in> nodes_of d1"
    then have "d_buf d1 = ?n \<or> d_buf d1 \<in> nodes_of d" using nodes by blast
    moreover have "nodes_of d \<subseteq> live s" "d_buf d \<notin> nodes_of d" "d_buf d \<in> live s"
      using fd di(3) by (auto simp: foot_def bucket_inv_def darray_blocks_def)
    ultimately show False using buf fresh by auto
  qed
  have dis1: "darray_blocks d1 \<inter> nodes_of d1 = {}"
  proof -
    have "darray_blocks d \<inter> nodes_of d = {}" using di(3) by (simp add: bucket_inv_def)
    moreover have "?n \<notin> darray_blocks d" using nfoot by (simp add: foot_def)
    ultimately have "darray_blocks d \<inter> nodes_of d1 = {}" unfolding nodes by blast
    then show ?thesis using ow(2) bufn by blast
  qed
  let ?s = "bucket_put b d1 s3"
  have live3: "p \<in> live s3" if "p \<in> insert ?n (live s)" "p \<noteq> d_buf d" for p using ow(4) that by simp
  have inv: "bucket_inv m ?s ?i d1"
    unfolding bucket_inv_def
  proof (intro conjI ballI)
    show "darray_owned d1 ?s" using ow(1) by (simp add: darray_owned_def darray_inv_def mem_ok_def bucket_put_def)
    have "Some ?n \<notin> set (darray_list d)" using nfoot by (simp add: foot_def nodes_of_def)
    then show "distinct (darray_list d1)" "None \<notin> set (darray_list d1)" using push(3) di(3) by (auto simp: bucket_inv_def)
    show "darray_blocks d1 \<inter> nodes_of d1 = {}" by (rule dis1)
    fix p assume p: "p \<in> nodes_of d1"
    have "p \<noteq> d_buf d"
      using p nodes di(3) nfoot by (auto simp: bucket_inv_def darray_blocks_def foot_def)
    then show "p \<in> live ?s" using p nodes live3 [of p] fd by (auto simp: bucket_put_def foot_def)
    show "\<exists>n. hnodes ?s p = Some n \<and> hhash n = hm_hash m (snd (hkey n)) \<and> ix m (snd (hkey n)) = ?i"
      using p nodes di(3) more(1) nfoot by (auto simp: bucket_put_def bucket_inv_def hm_node_def foot_def)
  qed
  have ad: "d_addr d1 = b" using push(4) di(2) by (simp add: darray_step_def)
  have mem4: "mem_ok ?s" using mem3 by (simp add: bucket_put_def mem_ok_def)
  have hb: "hbuckets ?s = (hbuckets s)(b := Some d1)" using more(2) by (simp add: bucket_put_def)
  have keep: "p \<in> live ?s \<and> hnodes ?s p = hnodes s p" if "p \<in> live s" "p \<notin> foot d" for p
  proof -
    have "p \<noteq> d_buf d" "p \<noteq> ?n" using that fresh by (auto simp: foot_def darray_blocks_def)
    then show ?thesis using live3 [of p] that more(1) by (simp add: bucket_put_def)
  qed
  have new: "p \<in> foot d \<or> p \<notin> live s" if "p \<in> foot d1" for p
  proof -
    have "d_buf d \<in> foot d" by (simp add: foot_def darray_blocks_def)
    moreover have "p \<in> insert (d_buf d1) (insert ?n (foot d))" using that ow(2) nodes by (auto simp: foot_def)
    ultimately show ?thesis using buf fresh by auto
  qed
  note ch = hm_change_bucket [OF shape i b mem4 ad inv hb keep new]
  have hn: "hnodes ?s = (hnodes s)(?n := Some ?nd)" using more(1) by (simp add: bucket_put_def)
  have nn: "the x \<noteq> ?n" if "x \<in> set (darray_list d)" for x
  proof -
    have "x \<noteq> None" using that di(3) by (auto simp: bucket_inv_def)
    then obtain p where p: "x = Some p" by (metis option.exhaust)
    then have "p \<in> foot d" using that by (simp add: foot_def nodes_of_def)
    then show ?thesis using nfoot p by auto
  qed
  have old: "chain m s ?i = map (\<lambda>p. the (hnodes s (the p))) (darray_list d)" using di(1) by (simp add: chain_def)
  have "map (\<lambda>p. the (((hnodes s)(?n := Some ?nd)) (the p))) (darray_list d) = chain m s ?i"
    unfolding old by (rule map_cong) (simp_all add: nn)
  then have "chain m ?s ?i = chain m s ?i @ [?nd]" using ch(3) unfolding push(3) hn by simp
  moreover have "\<forall>j < bsize m. j \<noteq> ?i \<longrightarrow> chain m ?s j = chain m s j" using ch(2) by blast
  moreover have "bucket_get b ?s2 = Inr d" using b(2) by (simp add: bucket_get_def)
  ultimately show ?thesis using create push(1) ch(1) by blast
qed

section \<open>Setting\<close>

text \<open>The bucket a key goes to can take one more node.\<close>

definition hm_room :: "'k hashmap \<Rightarrow> ('k, 's) hmem_scheme \<Rightarrow> 'k \<Rightarrow> bool" where
  "hm_room m s k \<longleftrightarrow> (case bkt m s (ix m k) of None \<Rightarrow> True | Some d \<Rightarrow> room d 1)"

lemma hm_shape_unlocked: "hm_shape m s \<Longrightarrow> hm_inv (m\<lparr>hm_locked := False\<rparr>) s"
  by (simp add: hm_inv_def)

lemma Hashmap_set_old:
  fixes s :: "('k, 's) hmem_scheme"
  assumes "hm_shape m s" and "ample s" and "bslot m (ix m k) = Some b" and "hbuckets s b = Some d" and "room d 1"
    and "hm_locked m"
  shows "\<exists>s'. (rbind (Hashmap_node_create (hm_hash m k) (Some (a, k)) data s) (\<lambda>(node, s2).
            rbind (bucket_get b s2) (\<lambda>e.
            rbind (Darray_push e (Some node) s2) (\<lambda>(rc, d1, s3).
            rbind (hm_unlock m) (\<lambda>m3. Inr (0 :: int, m3, bucket_put b d1 s3)))))) = Inr (0, m\<lparr>hm_locked := False\<rparr>, s') \<and>
      hm_inv (m\<lparr>hm_locked := False\<rparr>) s' \<and> chain m s' (ix m k) = chain m s (ix m k) @ [hm_node m (a, k) data] \<and>
      (\<forall>j < bsize m. j \<noteq> ix m k \<longrightarrow> chain m s' j = chain m s j)"
proof -
  obtain node s2 d1 s3 where r: "Hashmap_node_create (hm_hash m k) (Some (a, k)) data s = Inr (node, s2)"
    "bucket_get b s2 = Inr d" "Darray_push d (Some node) s2 = Inr (0, d1, s3)" "hm_shape m (bucket_put b d1 s3)"
    "chain m (bucket_put b d1 s3) (ix m k) = chain m s (ix m k) @ [hm_node m (a, k) data]"
    "\<forall>j < bsize m. j \<noteq> ix m k \<longrightarrow> chain m (bucket_put b d1 s3) j = chain m s j"
    using hm_add_node [OF assms(1-5), of a data] by (elim exE conjE) (rule that)
  show ?thesis using r(1-3,5,6) hm_shape_unlocked [OF r(4)] assms(6)
    by (intro exI [of _ "bucket_put b d1 s3"]) simp
qed

lemma Hashmap_set_run:
  fixes s :: "('k, 's) hmem_scheme"
  assumes inv: "hm_inv m s" and am: "ample s" and room: "hm_room m s k"
  shows "\<exists>m' s'. Hashmap_set m (Some (a, k)) data s = Inr (0, m', s') \<and> hm_inv m' s' \<and>
    hm_compare m' = hm_compare m \<and> hm_hash m' = hm_hash m \<and> bsize m' = bsize m \<and> ix m' = ix m \<and>
    chain m' s' (ix m k) = chain m s (ix m k) @ [hm_node m (a, k) data] \<and>
    (\<forall>j < bsize m. j \<noteq> ix m k \<longrightarrow> chain m' s' j = chain m s j)"
proof -
  let ?m1 = "m\<lparr>hm_locked := True\<rparr>" and ?i = "ix m k"
  have shape: "hm_shape ?m1 s" and ok: "hm_ok m" and lock: "hm_lock m = Inr ?m1" and unl: "\<not> hm_locked m"
    using inv hm_lock_ok [OF inv] by (auto simp: hm_inv_def hm_shape_def)
  have h1: "hm_hash ?m1 = hm_hash m" "hm_node ?m1 = hm_node m" by (simp_all add: hm_node_def fun_eq_iff)
  show ?thesis
  proof (cases "bslot m ?i")
    case None
    then have "bslot ?m1 (ix ?m1 k) = None" by simp
    from Hashmap_find_bucket_new [OF shape am this, of a, unfolded h1 hm_locked_simps]
    obtain d s1 where f: "Hashmap_find_bucket ?m1 (Some (a, k)) True s = Inr (Some (d_addr d), hm_hash m k, with_bucket ?m1 ?i (d_addr d), s1)"
      and n: "hm_shape (with_bucket ?m1 ?i (d_addr d)) s1" "ample s1" "hbuckets s1 (d_addr d) = Some d" "d_end d = 0"
        "\<forall>j < bsize m. chain (with_bucket ?m1 ?i (d_addr d)) s1 j = chain m s j"
      by (elim exE conjE) (rule that)
    let ?m2 = "with_bucket ?m1 ?i (d_addr d)"
    have rm: "room d 1" using n(4) by (simp add: room_def INT_MAX_def DEFAULT_EXPAND_RATE_def)
    have sl: "bslot ?m2 (ix ?m2 k) = Some (d_addr d)"
      using with_bucket_slot [of ?m1 ?i] ok ix_less [OF ok, of k] by simp
    have lk: "hm_locked ?m2" by simp
    have h2: "hm_hash ?m2 = hm_hash m" "hm_node ?m2 = hm_node m" "ix ?m2 = ix m" "bsize ?m2 = bsize m"
      by (simp_all add: hm_node_def fun_eq_iff)
    obtain s' where r: "(rbind (Hashmap_node_create (hm_hash m k) (Some (a, k)) data s1) (\<lambda>(node, s2).
            rbind (bucket_get (d_addr d) s2) (\<lambda>e.
            rbind (Darray_push e (Some node) s2) (\<lambda>(rc, d1, s3).
            rbind (hm_unlock ?m2) (\<lambda>m3. Inr (0 :: int, m3, bucket_put (d_addr d) d1 s3)))))) = Inr (0, ?m2\<lparr>hm_locked := False\<rparr>, s')"
      "hm_inv (?m2\<lparr>hm_locked := False\<rparr>) s'" "chain ?m2 s' ?i = chain ?m2 s1 ?i @ [hm_node m (a, k) data]"
      "\<forall>j < bsize m. j \<noteq> ?i \<longrightarrow> chain ?m2 s' j = chain ?m2 s1 j"
      using Hashmap_set_old [OF n(1,2) sl n(3) rm lk, of a data, unfolded h2] by (elim exE conjE) (rule that)
    have "Hashmap_set m (Some (a, k)) data s = Inr (0, ?m2\<lparr>hm_locked := False\<rparr>, s')"
      unfolding Hashmap_set_def lock using f r(1) by simp
    moreover have "chain ?m2 s1 ?i = chain m s ?i" using n(5) ix_less [OF ok, of k] by blast
    ultimately show ?thesis using r(2-4) n(5)
      by (intro exI [of _ "?m2\<lparr>hm_locked := False\<rparr>"] exI [of _ s']) (simp add: h2)
  next
    case (Some b)
    then have f: "Hashmap_find_bucket ?m1 (Some (a, k)) True s = Inr (Some b, hm_hash m k, ?m1, s)"
      using Hashmap_find_bucket_old [of ?m1 k b True a s] ok by simp
    have sl: "bslot ?m1 (ix ?m1 k) = Some b" using Some by simp
    obtain d where d: "hbuckets s b = Some d" "bkt m s ?i = Some d"
      using hm_bucket [OF shape _ sl] ix_less [OF ok, of k] by auto
    have rm: "room d 1" using room d(2) by (simp add: hm_room_def)
    have lk: "hm_locked ?m1" by simp
    obtain s' where r: "(rbind (Hashmap_node_create (hm_hash m k) (Some (a, k)) data s) (\<lambda>(node, s2).
            rbind (bucket_get b s2) (\<lambda>e.
            rbind (Darray_push e (Some node) s2) (\<lambda>(rc, d1, s3).
            rbind (hm_unlock ?m1) (\<lambda>m3. Inr (0 :: int, m3, bucket_put b d1 s3)))))) = Inr (0, ?m1\<lparr>hm_locked := False\<rparr>, s')"
      "hm_inv (?m1\<lparr>hm_locked := False\<rparr>) s'" "chain m s' ?i = chain m s ?i @ [hm_node m (a, k) data]"
      "\<forall>j < bsize m. j \<noteq> ?i \<longrightarrow> chain m s' j = chain m s j"
      using Hashmap_set_old [OF shape am sl d(1) rm lk, of a data, unfolded h1 hm_locked_simps] by (elim exE conjE) (rule that)
    have "Hashmap_set m (Some (a, k)) data s = Inr (0, ?m1\<lparr>hm_locked := False\<rparr>, s')"
      unfolding Hashmap_set_def lock using f r(1) by simp
    then show ?thesis using r(2-4)
      by (intro exI [of _ "?m1\<lparr>hm_locked := False\<rparr>"] exI [of _ s']) simp
  qed
qed

section \<open>Looking up\<close>

lemma hm_relock: "\<not> hm_locked m \<Longrightarrow> m\<lparr>hm_locked := False\<rparr> = m"
  by (cases m) simp

text \<open>The bucket of a key, as the operations that do not create it see it.\<close>

lemma hm_lookup_bucket:
  assumes "hm_inv m s"
  shows "hm_lock m = Inr (m\<lparr>hm_locked := True\<rparr>)"
    and "Hashmap_find_bucket (m\<lparr>hm_locked := True\<rparr>) (Some (a, k)) False s =
      Inr (bslot m (ix m k), hm_hash m k, m\<lparr>hm_locked := True\<rparr>, s)"
    and "bslot m (ix m k) = None \<Longrightarrow> chain m s (ix m k) = []"
    and "bslot m (ix m k) = Some b \<Longrightarrow> \<exists>d. hbuckets s b = Some d \<and> bkt m s (ix m k) = Some d \<and> d_addr d = b \<and>
      bucket_inv m s (ix m k) d \<and> chain m s (ix m k) = map (\<lambda>p. the (hnodes s (the p))) (darray_list d) \<and>
      Hashmap_get_node (m\<lparr>hm_locked := True\<rparr>) (hm_hash m k) d k s =
        Inr (if first_hit (hits m k) (chain m s (ix m k)) < length (chain m s (ix m k))
             then int (first_hit (hits m k) (chain m s (ix m k))) else -1)"
proof -
  have shape: "hm_shape m s" and ok: "hm_ok m" using assms by (auto simp: hm_inv_def hm_shape_def)
  show "hm_lock m = Inr (m\<lparr>hm_locked := True\<rparr>)" using assms by (rule hm_lock_ok)
  show "Hashmap_find_bucket (m\<lparr>hm_locked := True\<rparr>) (Some (a, k)) False s =
      Inr (bslot m (ix m k), hm_hash m k, m\<lparr>hm_locked := True\<rparr>, s)"
    using Hashmap_find_bucket_old [of "m\<lparr>hm_locked := True\<rparr>" k _ False a s] ok by simp
  show "bslot m (ix m k) = None \<Longrightarrow> chain m s (ix m k) = []" by (simp add: chain_def bkt_def)
  assume "bslot m (ix m k) = Some b"
  then obtain d where d: "hbuckets s b = Some d" "bkt m s (ix m k) = Some d" "d_addr d = b" "bucket_inv m s (ix m k) d"
    using hm_bucket [OF shape ix_less [OF ok], of k b] by blast
  have ch: "chain m s (ix m k) = map (\<lambda>p. the (hnodes s (the p))) (darray_list d)" using d(2) by (simp add: chain_def)
  have "bucket_inv (m\<lparr>hm_locked := True\<rparr>) s (ix m k) d" using d(4) by simp
  from Hashmap_get_node_ok [OF this, of k] d ch
  show "\<exists>d. hbuckets s b = Some d \<and> bkt m s (ix m k) = Some d \<and> d_addr d = b \<and>
      bucket_inv m s (ix m k) d \<and> chain m s (ix m k) = map (\<lambda>p. the (hnodes s (the p))) (darray_list d) \<and>
      Hashmap_get_node (m\<lparr>hm_locked := True\<rparr>) (hm_hash m k) d k s =
        Inr (if first_hit (hits m k) (chain m s (ix m k)) < length (chain m s (ix m k))
             then int (first_hit (hits m k) (chain m s (ix m k))) else -1)"
    by (intro exI [of _ d]) (simp add: Let_def)
qed

lemma hm_map_first_hit:
  "hm_map m s k = (let ns = chain m s (ix m k) in
     if first_hit (hits m k) ns < length ns then Some (hdata (ns ! first_hit (hits m k) ns)) else None)"
  by (simp add: hm_map_def first_hit_find Let_def)

lemma Hashmap_get_run:
  assumes inv: "hm_inv m s"
  shows "Hashmap_get m (Some (a, k)) s =
    Inr (case hm_map m s k of None \<Rightarrow> (NULL, m\<lparr>hm_locked := True\<rparr>) | Some v \<Rightarrow> (v, m))"
proof -
  let ?ns = "chain m s (ix m k)" and ?j = "first_hit (hits m k) (chain m s (ix m k))"
  note lk = hm_lookup_bucket [OF inv]
  have unl: "\<not> hm_locked m" using inv by (simp add: hm_inv_def)
  show ?thesis
  proof (cases "bslot m (ix m k)")
    case None
    then show ?thesis using lk(1-3) by (simp add: Hashmap_get_def hm_map_def)
  next
    case (Some b)
    then obtain d where d: "hbuckets s b = Some d" "bucket_inv m s (ix m k) d" "?ns = map (\<lambda>p. the (hnodes s (the p))) (darray_list d)"
      "Hashmap_get_node (m\<lparr>hm_locked := True\<rparr>) (hm_hash m k) d k s = Inr (if ?j < length ?ns then int ?j else -1)"
      using lk(4) [of k b] by blast
    show ?thesis
    proof (cases "?j < length ?ns")
      case False
      then show ?thesis using lk(1,2) Some d(1,4) by (simp add: Hashmap_get_def hm_map_first_hit bucket_get_def)
    next
      case True
      then have jl: "?j < length (darray_list d)" using d(3) by simp
      obtain q n where q: "darray_list d ! ?j = Some q" "hnodes s q = Some n" using bucket_node [OF d(2) jl] by blast
      have ok: "darray_ok d" using d(2) by (simp add: bucket_inv_def darray_owned_def darray_inv_def)
      have get: "Darray_get d (int ?j) = Inr (Some q)"
        using Darray_get_ok [OF ok, of "int ?j"] q(1) jl length_darray_list [OF ok] by simp
      have "?ns ! ?j = n" using q jl by (subst d(3)) simp
      then have v: "hm_map m s k = Some (hdata n)" using True by (simp add: hm_map_first_hit)
      show ?thesis unfolding v using lk(1,2) Some d(1,4) True get q(2) hm_relock [OF unl]
        by (simp add: Hashmap_get_def bucket_get_def hnode_get_def)
    qed
  qed
qed

section \<open>One binding per key\<close>

definition hm_unique :: "'k hashmap \<Rightarrow> ('k, 's) hmem_scheme \<Rightarrow> bool" where
  "hm_unique m s \<longleftrightarrow> (\<forall>i < bsize m. distinct (map (\<lambda>n. snd (hkey n)) (chain m s i)))"

lemma chain_nodes:
  assumes "hm_inv m s" and "i < bsize m" and "n \<in> set (chain m s i)"
  shows "hhash n = hm_hash m (snd (hkey n))" and "ix m (snd (hkey n)) = i"
proof -
  have shape: "hm_shape m s" using assms(1) by (simp add: hm_inv_def)
  obtain b where b: "bslot m i = Some b" using assms(3) by (auto simp: chain_def bkt_def split: option.splits)
  then obtain d where d: "bkt m s i = Some d" "bucket_inv m s i d" using hm_bucket [OF shape assms(2) b] by blast
  obtain j where j: "j < length (darray_list d)" "n = the (hnodes s (the (darray_list d ! j)))"
    using assms(3) d(1) by (auto simp: chain_def in_set_conv_nth)
  obtain p nd where "darray_list d ! j = Some p" "hnodes s p = Some nd" "hhash nd = hm_hash m (snd (hkey nd))" "ix m (snd (hkey nd)) = i"
    using bucket_node [OF d(2) j(1)] by blast
  then show "hhash n = hm_hash m (snd (hkey n))" "ix m (snd (hkey n)) = i" using j(2) by simp_all
qed

section \<open>Deleting\<close>

lemma Hashmap_delete_miss:
  assumes inv: "hm_inv m s" and miss: "hm_map m s k = None"
  shows "Hashmap_delete m (Some (a, k)) s = Inr (NULL, m\<lparr>hm_locked := True\<rparr>, s)"
proof -
  note lk = hm_lookup_bucket [OF inv]
  have out: "\<not> first_hit (hits m k) (chain m s (ix m k)) < length (chain m s (ix m k))"
    using miss by (auto simp: hm_map_first_hit Let_def split: if_splits)
  show ?thesis
  proof (cases "bslot m (ix m k)")
    case None
    then show ?thesis using lk(1,2) by (simp add: Hashmap_delete_def)
  next
    case (Some b)
    then show ?thesis using lk(1,2) lk(4) [OF Some] out by (auto simp: Hashmap_delete_def bucket_get_def)
  qed
qed

lemma Hashmap_delete_run:
  assumes inv: "hm_inv m s"
    and j: "j = first_hit (hits m k) (chain m s (ix m k))" "j < length (chain m s (ix m k))"
  shows "\<exists>s'. Hashmap_delete m (Some (a, k)) s = Inr (hdata (chain m s (ix m k) ! j), m, s') \<and> hm_inv m s' \<and>
    chain m s' (ix m k) = swap_out j (chain m s (ix m k)) \<and>
    (\<forall>i < bsize m. i \<noteq> ix m k \<longrightarrow> chain m s' i = chain m s i)"
proof -
  let ?i = "ix m k" and ?m1 = "m\<lparr>hm_locked := True\<rparr>"
  note lk = hm_lookup_bucket [OF inv]
  have shape: "hm_shape m s" and unl: "\<not> hm_locked m" and ok: "hm_ok m" and mem: "mem_ok s"
    using inv by (auto simp: hm_inv_def hm_shape_def)
  have i: "?i < bsize m" by (rule ix_less [OF ok])
  obtain b where b: "bslot m ?i = Some b" using lk(3) [of k] j(2) by fastforce
  obtain d where d: "hbuckets s b = Some d" "bkt m s ?i = Some d" "d_addr d = b" "bucket_inv m s ?i d"
    and ch: "chain m s ?i = map (\<lambda>p. the (hnodes s (the p))) (darray_list d)"
    and gn0: "Hashmap_get_node ?m1 (hm_hash m k) d k s =
        Inr (if first_hit (hits m k) (chain m s ?i) < length (chain m s ?i) then int (first_hit (hits m k) (chain m s ?i)) else -1)"
    using lk(4) [OF b] by blast
  let ?xs = "darray_list d"
  have gn: "Hashmap_get_node ?m1 (hm_hash m k) d k s = Inr (int j)" using gn0 j by simp
  have jl: "j < length ?xs" using j(2) ch by simp
  have own: "darray_owned d s" and dist: "distinct ?xs" and noNone: "None \<notin> set ?xs" and sep: "darray_blocks d \<inter> nodes_of d = {}"
    using d(4) by (auto simp: bucket_inv_def)
  have dinv: "darray_inv d s" and ok_d: "darray_ok d" using own by (auto simp: darray_owned_def darray_inv_def)
  have len: "length ?xs = nat (d_end d)" by (rule length_darray_list [OF ok_d])
  have ne: "0 < d_end d" using jl len by simp
  obtain q n where q: "?xs ! j = Some q" "hnodes s q = Some n" "q \<in> live s" "q \<in> nodes_of d"
    using bucket_node [OF d(4) jl] by blast
  have get: "Darray_get d (int j) = Inr (Some q)" using Darray_get_ok [OF ok_d, of "int j"] q(1) jl len by simp
  obtain d1 s2 where pop: "Darray_pop d s = Inr (last ?xs, d1, s2)" "darray_inv d1 s2" "darray_list d1 = butlast ?xs"
    "d_end d1 = d_end d - 1" "darray_step d s d1 s2"
    using Darray_pop_ok [OF dinv ne] by blast
  have lastq: "last ?xs = Some q \<longleftrightarrow> Suc j = length ?xs"
  proof -
    have "last ?xs = ?xs ! (length ?xs - 1)" using jl by (intro last_conv_nth) auto
    moreover have "?xs ! (length ?xs - 1) = ?xs ! j \<longleftrightarrow> length ?xs - 1 = j" using dist jl by (intro nth_eq_iff_index_eq) auto
    ultimately show ?thesis using q(1) jl by auto
  qed
  define d2 where "d2 = (if last ?xs = Some q then d1 else d1\<lparr>contents := (contents d1)[j := Val (last ?xs)]\<rparr>)"
  have ok1: "darray_ok d1" using pop(2) by (simp add: darray_inv_def)
  have lj: "last ?xs \<noteq> Some q \<Longrightarrow> int j < d_end d1" using lastq pop(4) len jl by linarith
  have set: "(if last ?xs \<noteq> Some q then Darray_set d1 (int j) (last ?xs) else Inr d1) = Inr d2"
    using Darray_set_ok [OF ok1 _ lj] by (simp add: d2_def)
  have list2: "darray_list d2 = swap_out j ?xs" using pop(3) lastq by (simp add: d2_def swap_out_def)
  have more: "hnodes s2 = hnodes s" "hbuckets s2 = hbuckets s"
    using pop(5) more_hmem [of s2 s] by (simp_all add: darray_step_def)
  note ow = darray_step_owned(1) [OF own pop(5,2)] owned_step [OF own pop(5)]
  have qb: "q \<notin> darray_blocks d" using sep q(4) by blast
  then have qd: "q \<noteq> d_buf d" by (simp add: darray_blocks_def)
  have q2: "q \<in> live s2" by (rule ow(4) [OF q(3) qd])
  have qnz: "q \<noteq> NULL" using mem_ok_nz [OF mem q(3)] .
  let ?s3 = "s2\<lparr>live := live s2 - {q}\<rparr>"
  let ?s = "(bucket_put b d2 ?s3)\<lparr>hnodes := (hnodes ?s3)(q := None)\<rparr>"
  have run: "Hashmap_delete m (Some (a, k)) s = Inr (hdata n, m, ?s)"
    using lk(1,2) b d(1) gn get pop(1) set more(1) q qnz q2 hm_relock [OF unl]
    by (simp add: Hashmap_delete_def bucket_get_def hnode_get_def c_free_def)
  have sw: "distinct (darray_list d2)" "set (darray_list d2) = set ?xs - {Some q}"
    using swap_out_set [OF jl dist] q(1) unfolding list2 by simp_all
  have nodes: "nodes_of d2 = nodes_of d - {q}" using sw(2) by (auto simp: nodes_of_def)
  have blocks: "darray_blocks d2 = darray_blocks d1" "d_buf d2 = d_buf d1" "d_addr d2 = d_addr d1" "d_mtx d2 = d_mtx d1"
    by (simp_all add: d2_def darray_blocks_def)
  have qb1: "q \<notin> darray_blocks d1" using ow(2,3) qb q(3) qd by blast
  have mem2: "mem_ok ?s"
    using pop(2) by (auto simp: darray_inv_def mem_ok_def bucket_put_def)
  have ok2: "darray_ok d2" using ok1 set_update_subset_insert [of "contents d1" j "Val (last ?xs)"] by (auto simp: d2_def darray_ok_def)
  have own2: "darray_owned d2 ?s"
    using ow(1) ok2 mem2 qb1 blocks by (auto simp: darray_owned_def darray_inv_def darray_blocks_def bucket_put_def)
  have inv2: "bucket_inv m ?s ?i d2"
    unfolding bucket_inv_def
  proof (intro conjI ballI)
    show "darray_owned d2 ?s" "distinct (darray_list d2)" by (fact own2, fact sw(1))
    show "None \<notin> set (darray_list d2)" using sw(2) noNone by blast
    have "d_buf d1 \<notin> nodes_of d"
      using ow(3) sep bucket_foot_live [OF d(4)] by (auto simp: darray_blocks_def foot_def)
    then show "darray_blocks d2 \<inter> nodes_of d2 = {}" unfolding nodes blocks(1) using ow(2) sep by blast
    fix p assume p: "p \<in> nodes_of d2"
    then have pn: "p \<in> nodes_of d" "p \<noteq> q" using nodes by auto
    have "p \<noteq> d_buf d" using pn(1) sep by (auto simp: darray_blocks_def)
    then have "p \<in> live s2" using ow(4) pn(1) bucket_foot_live [OF d(4)] by (auto simp: foot_def)
    then show "p \<in> live ?s" using pn(2) by (simp add: bucket_put_def)
    show "\<exists>n. hnodes ?s p = Some n \<and> hhash n = hm_hash m (snd (hkey n)) \<and> ix m (snd (hkey n)) = ?i"
      using pn d(4) more(1) by (auto simp: bucket_inv_def bucket_put_def)
  qed
  have ad: "d_addr d2 = b" using pop(5) d(3) blocks(3) by (simp add: darray_step_def)
  have hb: "hbuckets ?s = (hbuckets s)(b := Some d2)" using more(2) by (simp add: bucket_put_def)
  have keep: "p \<in> live ?s \<and> hnodes ?s p = hnodes s p" if "p \<in> live s" "p \<notin> foot d" for p
  proof -
    have "p \<noteq> q" "p \<noteq> d_buf d" using that(2) q(4) by (auto simp: foot_def darray_blocks_def)
    then show ?thesis using ow(4) [OF that(1)] more(1) by (simp add: bucket_put_def)
  qed
  have new: "p \<in> foot d \<or> p \<notin> live s" if "p \<in> foot d2" for p
  proof -
    have "d_buf d \<in> foot d" by (simp add: foot_def darray_blocks_def)
    moreover have "p \<in> insert (d_buf d1) (foot d)" using that ow(2) nodes blocks(1) by (auto simp: foot_def)
    ultimately show ?thesis using ow(3) by auto
  qed
  note chg = hm_change_bucket [OF shape i b d(1) mem2 ad inv2 hb keep new]
  have nodes_same: "hnodes ?s p = hnodes s p" if "p \<noteq> q" for p
    using that more(1) by (simp add: bucket_put_def)
  have "the (hnodes ?s (the x)) = the (hnodes s (the x))" if xd: "x \<in> set (darray_list d2)" for x
  proof -
    have "x \<in> set ?xs - {Some q}" using xd unfolding sw(2) .
    then have x: "x \<in> set ?xs" "x \<noteq> Some q" by simp_all
    then have "x \<noteq> None" using noNone by metis
    then have "the x \<noteq> q" using x(2) by (metis option.collapse)
    then show ?thesis by (intro arg_cong [where f = the] nodes_same)
  qed
  then have "map (\<lambda>p. the (hnodes ?s (the p))) (darray_list d2) = map (\<lambda>p. the (hnodes s (the p))) (darray_list d2)"
    by (rule map_cong [OF refl])
  moreover have "map (\<lambda>p. the (hnodes s (the p))) (darray_list d2) = swap_out j (chain m s ?i)"
    unfolding ch list2 using jl by (intro map_swap_out) auto
  moreover have "chain m ?s ?i = map (\<lambda>p. the (hnodes ?s (the p))) (darray_list d2)" by (rule chg(3))
  ultimately have chs: "chain m ?s ?i = swap_out j (chain m s ?i)" by (simp only:)
  have dj: "hdata (chain m s ?i ! j) = hdata n" using q(1,2) jl by (simp add: ch)
  have inv': "hm_inv m ?s" using chg(1) unl by (simp add: hm_inv_def)
  have rest: "\<forall>i' < bsize m. i' \<noteq> ?i \<longrightarrow> chain m ?s i' = chain m s i'" using chg(2) by blast
  have run': "Hashmap_delete m (Some (a, k)) s = Inr (hdata (chain m s ?i ! j), m, ?s)" unfolding dj by (rule run)
  show ?thesis by (rule exI) (rule conjI [OF run' conjI [OF inv' conjI [OF chs rest]]])
qed

section \<open>The table as a map\<close>

text \<open>What an entry of a chain says. With one node per key the order of the chain does not matter.\<close>

definition binding :: "'k hnode \<Rightarrow> 'k \<times> ptr" where
  "binding n = (snd (hkey n), hdata n)"

lemma map_of_swap_out:
  assumes "j < length xs" and "distinct (map fst xs)" and "fst (xs ! j) = k"
  shows "distinct (map fst (swap_out j xs))" and "map_of (swap_out j xs) = (map_of xs)(k := None)"
proof -
  have ne: "xs \<noteq> []" using assms(1) by auto
  have d: "distinct xs" using assms(2) by (simp add: distinct_map)
  have st: "set (swap_out j xs) = set xs - {xs ! j}" by (rule swap_out_set [OF assms(1) d])
  show dk: "distinct (map fst (swap_out j xs))"
    unfolding map_swap_out [OF ne] using assms(1,2) by (intro swap_out_set(1)) simp_all
  have "map_of (swap_out j xs) k' = Some v \<longleftrightarrow> ((map_of xs)(k := None)) k' = Some v" for k' v
  proof (cases "k' = k")
    case True
    have "(k, v) \<in> set xs \<Longrightarrow> (k, v) = xs ! j"
      using eq_key_imp_eq_value [OF assms(2), of k v "snd (xs ! j)"] nth_mem [OF assms(1)] assms(3) by (metis prod.collapse)
    then show ?thesis using True st map_of_eq_Some_iff [OF dk] by auto
  next
    case False
    then have "(k', v) \<noteq> xs ! j" using assms(3) by (metis fst_conv)
    then show ?thesis using False st map_of_eq_Some_iff [OF dk] map_of_eq_Some_iff [OF assms(2)] by simp
  qed
  then show "map_of (swap_out j xs) = (map_of xs)(k := None)" by (intro ext) (metis not_Some_eq)
qed

lemma find_map_of:
  "(\<And>n. n \<in> set ns \<Longrightarrow> P n \<longleftrightarrow> snd (hkey n) = k) \<Longrightarrow> map_option hdata (List.find P ns) = map_of (map binding ns) k"
  by (induction ns) (auto simp: binding_def)

context key_equality
begin

lemma hm_map_of:
  assumes "hm_compare m = compare" and "hm_inv m s"
  shows "hm_map m s k = map_of (map binding (chain m s (ix m k))) k"
proof -
  have ok: "hm_ok m" using assms(2) by (simp add: hm_inv_def hm_shape_def)
  have "hits m k n \<longleftrightarrow> snd (hkey n) = k" if "n \<in> set (chain m s (ix m k))" for n
    using chain_nodes(1) [OF assms(2) ix_less [OF ok] that] by (auto simp: hits_def assms(1) compare_eq)
  then show ?thesis unfolding hm_map_def by (rule find_map_of)
qed

lemma hm_unique_add:
  assumes "hm_compare m = compare" and "hm_inv m s" and "hm_unique m s" and "hm_map m s k = None"
    and "bsize m' = bsize m"
    and "chain m' s' (ix m k) = chain m s (ix m k) @ [hm_node m (a, k) data]"
    and "\<And>j. j < bsize m \<Longrightarrow> j \<noteq> ix m k \<Longrightarrow> chain m' s' j = chain m s j"
  shows "hm_unique m' s'"
proof -
  have "k \<notin> fst ` set (map binding (chain m s (ix m k)))"
    using assms(4) unfolding hm_map_of [OF assms(1,2)] by (simp only: map_of_eq_None_iff not_False_eq_True)
  then have "k \<notin> set (map (\<lambda>n. snd (hkey n)) (chain m s (ix m k)))" by (simp add: image_image binding_def)
  moreover have "ix m k < bsize m" using assms(2) by (intro ix_less) (simp add: hm_inv_def hm_shape_def)
  ultimately have "distinct (map (\<lambda>n. snd (hkey n)) (chain m' s' (ix m k)))"
    using assms(3) unfolding assms(6) by (simp add: hm_unique_def hm_node_def)
  then show ?thesis using assms(3,7) unfolding hm_unique_def assms(5) by metis
qed

lemma Hashmap_set_map:
  fixes s :: "('a, 's) hmem_scheme"
  assumes "hm_compare m = compare" and "hm_inv m s" and "ample s" and "hm_room m s k"
  shows "\<exists>m' s'. Hashmap_set m (Some (a, k)) data s = Inr (0, m', s') \<and> hm_inv m' s' \<and> hm_compare m' = compare \<and>
    hm_map m' s' = (hm_map m s)(k \<mapsto> case hm_map m s k of None \<Rightarrow> data | Some v \<Rightarrow> v) \<and>
    (hm_unique m s \<and> hm_map m s k = None \<longrightarrow> hm_unique m' s')"
proof -
  obtain m' s' where r: "Hashmap_set m (Some (a, k)) data s = Inr (0, m', s')" "hm_inv m' s'"
    "hm_compare m' = hm_compare m" "hm_hash m' = hm_hash m" "bsize m' = bsize m" "ix m' = ix m"
    "chain m' s' (ix m k) = chain m s (ix m k) @ [hm_node m (a, k) data]"
    "\<forall>j < bsize m. j \<noteq> ix m k \<longrightarrow> chain m' s' j = chain m s j"
    using Hashmap_set_run [OF assms(2-4), of a data] by (elim exE conjE) (rule that)
  have ok: "hm_ok m" using assms(2) by (simp add: hm_inv_def hm_shape_def)
  have "hm_map m' s' k' = ((hm_map m s)(k \<mapsto> case hm_map m s k of None \<Rightarrow> data | Some v \<Rightarrow> v)) k'" for k'
  proof (cases "ix m k' = ix m k")
    case True
    have ch: "chain m' s' (ix m' k') = chain m s (ix m k) @ [hm_node m (a, k) data]" "chain m s (ix m k') = chain m s (ix m k)"
      using r(6,7) True by simp_all
    show ?thesis
      unfolding fun_upd_apply hm_map_of [OF r(3) [unfolded assms(1)] r(2)] hm_map_of [OF assms(1,2)] ch
      by (auto simp: map_add_def binding_def hm_node_def split: option.splits)
  next
    case False
    then have "chain m' s' (ix m' k') = chain m s (ix m k')" using r(6,8) ix_less [OF ok, of k'] by simp
    moreover have "k' \<noteq> k" using False by auto
    ultimately show ?thesis
      unfolding hm_map_of [OF r(3) [unfolded assms(1)] r(2)] hm_map_of [OF assms(1,2)] by simp
  qed
  then have "hm_map m' s' = (hm_map m s)(k \<mapsto> case hm_map m s k of None \<Rightarrow> data | Some v \<Rightarrow> v)" ..
  moreover have "hm_unique m s \<and> hm_map m s k = None \<longrightarrow> hm_unique m' s'"
    using hm_unique_add [OF assms(1,2) _ _ r(5,7)] r(8) by blast
  ultimately show ?thesis using r(1,2,3) assms(1) by blast
qed

lemma Hashmap_delete_map:
  fixes s :: "('a, 's) hmem_scheme"
  assumes "hm_compare m = compare" and "hm_inv m s" and "hm_unique m s" and "hm_map m s k = Some v"
  shows "\<exists>s'. Hashmap_delete m (Some (a, k)) s = Inr (v, m, s') \<and> hm_inv m s' \<and> hm_unique m s' \<and>
    hm_map m s' = (hm_map m s)(k := None)"
proof -
  let ?ns = "chain m s (ix m k)"
  define j where "j = first_hit (hits m k) ?ns"
  have ok: "hm_ok m" using assms(2) by (simp add: hm_inv_def hm_shape_def)
  have i: "ix m k < bsize m" by (rule ix_less [OF ok])
  have jl: "j < length ?ns" and v: "hdata (?ns ! j) = v"
    using assms(4) by (auto simp: hm_map_first_hit j_def Let_def split: if_splits)
  have "hits m k (?ns ! j)" using first_hit_nth [of "hits m k" ?ns] jl unfolding j_def by blast
  then have key: "fst (map binding ?ns ! j) = k" using jl by (simp add: binding_def hits_def assms(1) compare_eq)
  obtain s' where r: "Hashmap_delete m (Some (a, k)) s = Inr (v, m, s')" "hm_inv m s'" "chain m s' (ix m k) = swap_out j ?ns"
    "\<forall>i < bsize m. i \<noteq> ix m k \<longrightarrow> chain m s' i = chain m s i"
    using Hashmap_delete_run [OF assms(2) j_def jl, of a, unfolded v] by (elim exE conjE) (rule that)
  have ks: "map (\<lambda>n. snd (hkey n)) ns = map fst (map binding ns)" for ns :: "'a hnode list" by (simp add: binding_def)
  have dk: "distinct (map fst (map binding ?ns))" using assms(3) i unfolding hm_unique_def ks by blast
  have jm: "j < length (map binding ?ns)" using jl by simp
  have sw: "map binding (chain m s' (ix m k)) = swap_out j (map binding ?ns)"
    unfolding r(3) using jl by (intro map_swap_out) auto
  note mo = map_of_swap_out [OF jm dk key]
  have "hm_unique m s'"
    unfolding hm_unique_def ks
  proof (intro allI impI)
    fix i' assume i': "i' < bsize m"
    show "distinct (map fst (map binding (chain m s' i')))"
    proof (cases "i' = ix m k")
      case True
      then show ?thesis using mo(1) by (simp only: sw)
    next
      case False
      then have "chain m s' i' = chain m s i'" using r(4) i' by blast
      then show ?thesis using assms(3) i' unfolding hm_unique_def ks by simp
    qed
  qed
  moreover have "hm_map m s' k' = ((hm_map m s)(k := None)) k'" for k'
  proof (cases "ix m k' = ix m k")
    case True
    have "map_of (map binding (chain m s' (ix m k'))) k' = ((map_of (map binding (chain m s (ix m k'))))(k := None)) k'"
      unfolding True sw mo(2) ..
    then show ?thesis unfolding hm_map_of [OF assms(1) r(2)] hm_map_of [OF assms(1,2)] by (simp add: fun_upd_def hm_map_of [OF assms(1,2)])
  next
    case False
    then have "chain m s' (ix m k') = chain m s (ix m k')" using r(4) ix_less [OF ok, of k'] by simp
    moreover have "k' \<noteq> k" using False by auto
    ultimately show ?thesis
      unfolding hm_map_of [OF assms(1) r(2)] by (simp add: hm_map_of [OF assms(1,2)])
  qed
  ultimately show ?thesis using r(1,2) by blast
qed

end

section \<open>Creating\<close>

lemma hm_create_with_ok:
  fixes s :: "('k, 's) hmem_scheme"
  assumes "mem_ok s" and "ample s" and "0 < n" and "int n \<le> INT_MAX"
  shows "\<exists>m s'. Hashmap_create_with cmp hash n s = Inr (Some m, s') \<and> hm_inv m s' \<and> ample s' \<and> hm_unique m s' \<and>
    hm_compare m = cmp \<and> hm_hash m = hash \<and> bsize m = n \<and> (\<forall>i < n. bslot m i = None)"
proof -
  let ?c = "calls s"
  let ?s3 = "s\<lparr>calls := ?c + 3, live := insert (?c + 2) (insert (?c + 1) (live s))\<rparr>"
  have nf: "\<not> fails s (?c + k)" for k using assms(2) by (simp add: ample_def)
  have mem3: "mem_ok ?s3" and am3: "ample ?s3" using assms(1,2) by (auto simp: mem_ok_def ample_def)
  obtain d s4 where d: "Darray_create 8 n ?s3 = Inr (Some (d :: ptr darray), s4)" "darray_owned d s4"
    "d_max d = int n" "contents d = replicate n (Val None)" "live s4 = live ?s3 \<union> darray_blocks d"
    "darray_blocks d \<inter> live ?s3 = {}" "ample s4"
    using Darray_create_ok [OF mem3 am3 _ assms(3,4), of 8] by auto
  let ?m = "\<lparr>hm_addr = ?c + 1, hm_mtx = ?c + 2, hm_buckets = d\<lparr>d_end := d_max d\<rparr>, hm_compare = cmp, hm_hash = hash,
    hm_numBuckets = int n, hm_locked = False\<rparr>"
  have upd: "t\<lparr>live := L, calls := a\<rparr> = t\<lparr>calls := a, live := L\<rparr>" for t :: "('k, 's) hmem_scheme" and L a by simp
  have nn: "int_of_size_t n = int n" "size_t_of_int (int n) = n"
    using assms(4) by (auto simp: int_of_size_t_def size_t_of_int_def INT_MAX_def)
  have run: "Hashmap_create_with cmp hash n s = Inr (Some ?m, s4)"
    using d(1) nf [of 0] nf [of 1] nf [of 2] assms(3)
    by (simp add: Hashmap_create_with_def c_alloc_def c_mutex_init_def Let_def nn numeral_eq_Suc upd)
  have slot: "bslot ?m i = None" if "i < n" for i using that d(4) by (simp add: bslot_def)
  have ok: "hm_ok ?m" using d(2-4) assms(3,4)
    by (auto simp: hm_ok_def darray_owned_def darray_inv_def darray_ok_def)
  have "outer ?m \<subseteq> live s4" using d(5) by (auto simp: outer_def darray_blocks_def)
  moreover have "mem_ok s4" using d(2) by (simp add: darray_owned_def darray_inv_def)
  ultimately have inv: "hm_inv ?m s4" using ok slot by (simp add: hm_inv_def hm_shape_def bsize_def bkt_def)
  have "chain ?m s4 i = []" if "i < n" for i using slot [OF that] by (simp add: chain_def bkt_def)
  then have "hm_unique ?m s4" by (simp add: hm_unique_def bsize_def)
  then show ?thesis using run inv d(7) slot by (intro exI [of _ ?m] exI [of _ s4]) (simp add: bsize_def)
qed

lemma hm_map_empty: "hm_ok m \<Longrightarrow> \<forall>i < bsize m. bslot m i = None \<Longrightarrow> hm_map m s = Map.empty"
  using ix_less by (fastforce simp: hm_map_def chain_def bkt_def)

section \<open>The contract\<close>

text \<open>A table of strings with the default callbacks, on a memory where nothing is allocated yet.\<close>

definition hm_start :: "string hmem" where
  "hm_start = \<lparr>calls = 0, fails = (\<lambda>_. False), live = {}, hnodes = (\<lambda>_. None), hbuckets = (\<lambda>_. None)\<rparr>"

lemma hm_start_ok: "mem_ok hm_start" "ample hm_start"
  by (simp_all add: hm_start_def mem_ok_def ample_def)

lemma int_max_small: "int 4 \<le> INT_MAX"
  by (simp add: INT_MAX_def)

text \<open>C26: \<^verbatim>\<open>Hashmap_create\<close> makes a well-formed table, with the callbacks given or the ones for strings,
  that binds no key.\<close>

theorem hashmap_create_empty:
  fixes s :: "(string, 's) hmem_scheme"
  assumes "mem_ok s" and "ample s" and "int n \<le> INT_MAX"
  shows "\<exists>m s'. Hashmap_create None hash n s = Inr (Some m, s') \<and> hm_inv m s' \<and> ample s' \<and> hm_unique m s' \<and>
    hm_compare m = strcmp \<and> hm_hash m = (case hash of None \<Rightarrow> default_str_hash | Some h \<Rightarrow> h) \<and>
    bsize m = (if n = 0 then 100 else n) \<and> hm_map m s' = Map.empty"
proof -
  let ?n = "if n = 0 then 100 else n"
  let ?h = "case hash of None \<Rightarrow> default_str_hash | Some h \<Rightarrow> h"
  have n: "0 < ?n" "int ?n \<le> INT_MAX" using assms(3) by (auto simp: INT_MAX_def)
  obtain m s' where m: "Hashmap_create_with strcmp ?h ?n s = Inr (Some m, s')" "hm_inv m s'" "ample s'" "hm_unique m s'"
    "hm_compare m = strcmp" "hm_hash m = ?h" "bsize m = ?n" "\<forall>i < ?n. bslot m i = None"
    using hm_create_with_ok [OF assms(1,2) n, of strcmp ?h] by (elim exE conjE) (rule that)
  have "Hashmap_create_with strcmp ?h n s = Hashmap_create_with strcmp ?h ?n s"
  proof -
    have "(if 0 < n then n else DEFAULT_NUMBER_OF_BUCKETS) = (if 0 < ?n then ?n else DEFAULT_NUMBER_OF_BUCKETS)"
      by (simp add: DEFAULT_NUMBER_OF_BUCKETS_def)
    then show ?thesis by (simp only: Hashmap_create_with_def)
  qed
  then have "Hashmap_create None hash n s = Inr (Some m, s')" using m(1) by (simp add: Hashmap_create_def)
  moreover have "hm_ok m" using m(2) by (simp add: hm_inv_def hm_shape_def)
  then have "hm_map m s' = Map.empty" using m(7,8) by (intro hm_map_empty) simp_all
  ultimately show ?thesis using m(2-7) by (intro exI [of _ m] exI [of _ s']) simp
qed

theorem hashmap_create_empty_witness:
  "\<exists>m s'. Hashmap_create None None 4 hm_start = Inr (Some m, s') \<and> hm_inv m s' \<and> ample s' \<and> hm_unique m s' \<and>
    hm_compare m = strcmp \<and> hm_hash m = default_str_hash \<and> bsize m = 4 \<and> hm_map m s' = Map.empty"
  using hashmap_create_empty [OF hm_start_ok int_max_small, of None] by simp

text \<open>An empty table to apply the contract at.\<close>

lemma hm_example:
  obtains m s' where "Hashmap_create_with strcmp default_str_hash 4 hm_start = Inr (Some m, s')" "hm_inv m s'" "ample s'"
    "hm_unique m s'" "hm_compare m = strcmp" "hm_map m s' = Map.empty" "\<forall>k. hm_room m s' k"
proof -
  obtain m s' where m: "Hashmap_create_with strcmp default_str_hash 4 hm_start = Inr (Some m, s')" "hm_inv m s'" "ample s'"
    "hm_unique m s'" "hm_compare m = strcmp" "hm_hash m = default_str_hash" "bsize m = 4" "\<forall>i < 4. bslot m i = None"
    using hm_create_with_ok [OF hm_start_ok zero_less_numeral int_max_small, of strcmp default_str_hash] by (elim exE conjE) (rule that)
  have ok: "hm_ok m" using m(2) by (simp add: hm_inv_def hm_shape_def)
  have "hm_map m s' = Map.empty" using m(7,8) by (intro hm_map_empty [OF ok]) simp
  moreover have "hm_room m s' k" for k using m(7,8) ix_less [OF ok, of k] by (simp add: hm_room_def bkt_def)
  ultimately show thesis using that m(1-5) by blast
qed

text \<open>C1: \<^verbatim>\<open>Hashmap_set\<close> keeps the table well-formed and binds an unbound key; the data of a key that is
  already bound does not change, since the new node goes behind the old one.\<close>

theorem hashmap_set_binds:
  fixes s :: "(string, 's) hmem_scheme"
  assumes "hm_compare m = strcmp" and "hm_inv m s" and "ample s" and "hm_room m s k"
  shows "\<exists>m' s'. Hashmap_set m (Some (a, k)) data s = Inr (0, m', s') \<and> hm_inv m' s' \<and> hm_compare m' = strcmp \<and>
    hm_map m' s' = (hm_map m s)(k \<mapsto> case hm_map m s k of None \<Rightarrow> data | Some v \<Rightarrow> v) \<and>
    (hm_unique m s \<and> hm_map m s k = None \<longrightarrow> hm_unique m' s')"
  using assms by (rule strcmp_keys.Hashmap_set_map)

theorem hashmap_set_binds_witness:
  "\<exists>m s m' s'. Hashmap_create_with strcmp default_str_hash 4 hm_start = Inr (Some m, s) \<and>
    Hashmap_set m (Some (9, ''key'')) 7 s = Inr (0, m', s') \<and> hm_map m' s' = [''key'' \<mapsto> 7] \<and> hm_unique m' s'"
proof -
  obtain m s where m: "Hashmap_create_with strcmp default_str_hash 4 hm_start = Inr (Some m, s)" "hm_inv m s" "ample s"
    "hm_unique m s" "hm_compare m = strcmp" "hm_map m s = Map.empty" "\<forall>k. hm_room m s k" by (rule hm_example)
  show ?thesis using hashmap_set_binds [OF m(5,2,3) spec [OF m(7)], where k = "''key''" and a = 9 and data = 7] m(1,4,6) by auto
qed

text \<open>C2: \<^verbatim>\<open>Hashmap_get\<close> returns what its key is bound to and leaves the table as it was. For an unbound key
  it returns NULL with the mutex still locked: every later call on the table deadlocks.\<close>

theorem hashmap_get_lookup:
  fixes s :: "('k, 's) hmem_scheme"
  assumes "hm_inv m s"
  shows "case hm_map m s k of
      Some v \<Rightarrow> Hashmap_get m (Some (a, k)) s = Inr (v, m)
    | None \<Rightarrow> (\<exists>m'. Hashmap_get m (Some (a, k)) s = Inr (NULL, m') \<and>
        (\<forall>key key' data cb (c :: 'c). Hashmap_get m' key s = Inl Deadlock \<and> Hashmap_delete m' key s = Inl Deadlock \<and>
          Hashmap_set m' (Some key') data s = Inl Deadlock \<and> Hashmap_traverse m' cb s c = Inl Deadlock))"
  using Hashmap_get_run [OF assms, of a k]
  by (auto simp: Hashmap_get_def Hashmap_delete_def Hashmap_set_def Hashmap_traverse_def hm_lock_def split: option.splits)

theorem hashmap_get_lookup_witness:
  "\<exists>m s m'. Hashmap_create_with strcmp default_str_hash 4 hm_start = Inr (Some m, s) \<and>
    Hashmap_get m (Some (9, ''key'')) s = Inr (NULL, m') \<and> Hashmap_get m' (Some (9, ''key'')) s = Inl Deadlock"
proof -
  obtain m s where m: "Hashmap_create_with strcmp default_str_hash 4 hm_start = Inr (Some m, s)" "hm_inv m s" "ample s"
    "hm_unique m s" "hm_compare m = strcmp" "hm_map m s = Map.empty" "\<forall>k. hm_room m s k" by (rule hm_example)
  show ?thesis using hashmap_get_lookup [OF m(2), where k = "''key''" and a = 9 and 'c = unit] m(1,6) by auto
qed

text \<open>C3: In a table with one node per key, \<^verbatim>\<open>Hashmap_delete\<close> returns what its key is bound to and unbinds
  exactly that key, although it moves the last node of the bucket into the hole.\<close>

theorem hashmap_delete_unbinds:
  fixes s :: "(string, 's) hmem_scheme"
  assumes "hm_compare m = strcmp" and "hm_inv m s" and "hm_unique m s" and "hm_map m s k = Some v"
  shows "\<exists>s'. Hashmap_delete m (Some (a, k)) s = Inr (v, m, s') \<and> hm_inv m s' \<and> hm_unique m s' \<and>
    hm_map m s' = (hm_map m s)(k := None)"
  using assms by (rule strcmp_keys.Hashmap_delete_map)

theorem hashmap_delete_unbinds_witness:
  "\<exists>m (s :: string hmem) s'. hm_map m s = [''key'' \<mapsto> 7] \<and> Hashmap_delete m (Some (9, ''key'')) s = Inr (7, m, s') \<and>
    hm_inv m s' \<and> hm_map m s' = Map.empty"
proof -
  obtain m s where m: "Hashmap_create_with strcmp default_str_hash 4 hm_start = Inr (Some m, s)" "hm_inv m s" "ample s"
    "hm_unique m s" "hm_compare m = strcmp" "hm_map m s = Map.empty" "\<forall>k. hm_room m s k" by (rule hm_example)
  obtain m1 and s1 :: "string hmem" where b: "hm_inv m1 s1" "hm_compare m1 = strcmp" "hm_map m1 s1 = [''key'' \<mapsto> 7]" "hm_unique m1 s1"
    using strcmp_keys.Hashmap_set_map [OF m(5,2,3) spec [OF m(7)], where k = "''key''" and a = 9 and data = 7] m(4,6) by auto
  show ?thesis
    by (rule exI [of _ m1], rule exI [of _ s1])
      (use hashmap_delete_unbinds [OF b(2,1,4), where k = "''key''" and v = 7 and a = 9] b(3) in auto)
qed

end
