(* ===== verification/Error_Functions.thy ===== *)
theory Error_Functions
  imports C_Text
begin

text \<open>
  The error reporting of \<^verbatim>\<open>lib/error_functions.c\<close>, with the table of \<^verbatim>\<open>lib/ename.c.inc\<close>.

  Standard output is buffered and standard error is not: \<open>pending\<close> is the text waiting in the buffer of
  \<^verbatim>\<open>stdout\<close>, \<open>written\<close> what has reached the descriptors 1 and 2, in order. A call of \<^verbatim>\<open>stdio\<close> may
  change \<^verbatim>\<open>errno\<close>, to \<open>stdio_errno\<close>. The variable arguments are formatted by the caller: a message
  is the formatted text.
\<close>

section \<open>Output\<close>

record stdio =
  pending :: string
  written :: "(nat \<times> string) list"
  errno :: int
  stdio_errno :: int

definition fflush_stdout :: "'s stdio_scheme \<Rightarrow> 's stdio_scheme" where
  "fflush_stdout io =
     (if pending io = [] then io
      else io\<lparr>pending := [], written := written io @ [(1, pending io)], errno := stdio_errno io\<rparr>)"

definition fputs_stderr :: "string \<Rightarrow> 's stdio_scheme \<Rightarrow> 's stdio_scheme" where
  "fputs_stderr text io = io\<lparr>written := written io @ [(2, text)], errno := stdio_errno io\<rparr>"

definition put_stdout :: "string \<Rightarrow> 's stdio_scheme \<Rightarrow> 's stdio_scheme" where
  "put_stdout text io = io\<lparr>pending := pending io @ text\<rparr>"

text \<open>How a process ends: \<^verbatim>\<open>abort\<close>, \<^verbatim>\<open>exit\<close> (which flushes) or \<^verbatim>\<open>_exit\<close> (which does not).\<close>

datatype ending = Aborted | Exited int

definition c_exit :: "int \<Rightarrow> 's stdio_scheme \<Rightarrow> ending \<times> 's stdio_scheme" where
  "c_exit status io = (Exited status, fflush_stdout io)"

definition c_exit_now :: "int \<Rightarrow> 's stdio_scheme \<Rightarrow> ending \<times> 's stdio_scheme" where
  "c_exit_now status io = (Exited status, io)"

section \<open>Functions\<close>

definition BUF_SIZE :: nat where "BUF_SIZE = 500"

definition MAX_ENAME :: int where "MAX_ENAME = 133"

definition ename :: "string list" where
  "ename = [
    [], ''EPERM'', ''ENOENT'', ''ESRCH'', ''EINTR'', ''EIO'', ''ENXIO'', ''E2BIG'', ''ENOEXEC'',
    ''EBADF'', ''ECHILD'', ''EAGAIN/EWOULDBLOCK'', ''ENOMEM'', ''EACCES'', ''EFAULT'', ''ENOTBLK'',
    ''EBUSY'', ''EEXIST'', ''EXDEV'', ''ENODEV'', ''ENOTDIR'', ''EISDIR'', ''EINVAL'', ''ENFILE'',
    ''EMFILE'', ''ENOTTY'', ''ETXTBSY'', ''EFBIG'', ''ENOSPC'', ''ESPIPE'', ''EROFS'', ''EMLINK'',
    ''EPIPE'', ''EDOM'', ''ERANGE'', ''EDEADLK/EDEADLOCK'', ''ENAMETOOLONG'', ''ENOLCK'',
    ''ENOSYS'', ''ENOTEMPTY'', ''ELOOP'', [], ''ENOMSG'', ''EIDRM'', ''ECHRNG'', ''EL2NSYNC'',
    ''EL3HLT'', ''EL3RST'', ''ELNRNG'', ''EUNATCH'', ''ENOCSI'', ''EL2HLT'', ''EBADE'', ''EBADR'',
    ''EXFULL'', ''ENOANO'', ''EBADRQC'', ''EBADSLT'', [], ''EBFONT'', ''ENOSTR'', ''ENODATA'',
    ''ETIME'', ''ENOSR'', ''ENONET'', ''ENOPKG'', ''EREMOTE'', ''ENOLINK'', ''EADV'', ''ESRMNT'',
    ''ECOMM'', ''EPROTO'', ''EMULTIHOP'', ''EDOTDOT'', ''EBADMSG'', ''EOVERFLOW'', ''ENOTUNIQ'',
    ''EBADFD'', ''EREMCHG'', ''ELIBACC'', ''ELIBBAD'', ''ELIBSCN'', ''ELIBMAX'', ''ELIBEXEC'',
    ''EILSEQ'', ''ERESTART'', ''ESTRPIPE'', ''EUSERS'', ''ENOTSOCK'', ''EDESTADDRREQ'',
    ''EMSGSIZE'', ''EPROTOTYPE'', ''ENOPROTOOPT'', ''EPROTONOSUPPORT'', ''ESOCKTNOSUPPORT'',
    ''EOPNOTSUPP/ENOTSUP'', ''EPFNOSUPPORT'', ''EAFNOSUPPORT'', ''EADDRINUSE'', ''EADDRNOTAVAIL'',
    ''ENETDOWN'', ''ENETUNREACH'', ''ENETRESET'', ''ECONNABORTED'', ''ECONNRESET'', ''ENOBUFS'',
    ''EISCONN'', ''ENOTCONN'', ''ESHUTDOWN'', ''ETOOMANYREFS'', ''ETIMEDOUT'', ''ECONNREFUSED'',
    ''EHOSTDOWN'', ''EHOSTUNREACH'', ''EALREADY'', ''EINPROGRESS'', ''ESTALE'', ''EUCLEAN'',
    ''ENOTNAM'', ''ENAVAIL'', ''EISNAM'', ''EREMOTEIO'', ''EDQUOT'', ''ENOMEDIUM'',
    ''EMEDIUMTYPE'', ''ECANCELED'', ''ENOKEY'', ''EKEYEXPIRED'', ''EKEYREVOKED'', ''EKEYREJECTED'',
    ''EOWNERDEAD'', ''ENOTRECOVERABLE'', ''ERFKILL'', ''EHWPOISON'']"

text \<open>\<open>dumpcore\<close> is the value of the environment variable \<^verbatim>\<open>EF_DUMPCORE\<close>.\<close>

definition terminate :: "string option \<Rightarrow> bool \<Rightarrow> 's stdio_scheme \<Rightarrow> ending \<times> 's stdio_scheme" where
  "terminate dumpcore useExit3 io =
     (if dumpcore \<noteq> None \<and> dumpcore \<noteq> Some [] then (Aborted, io)
      else if useExit3 then c_exit 1 io
      else c_exit_now 1 io)"

definition error_text :: "(int \<Rightarrow> string) \<Rightarrow> bool \<Rightarrow> int \<Rightarrow> string \<Rightarrow> string" where
  "error_text strerror useErr err msg =
     (let userMsg = snprintf BUF_SIZE msg;
          errText = (if useErr
            then snprintf BUF_SIZE ('' ['' @ (if err > 0 \<and> err \<le> MAX_ENAME then ename ! nat err else ''?UNKNOWN?'')
                   @ '' '' @ strerror err @ '']'')
            else snprintf BUF_SIZE '':'')
      in snprintf BUF_SIZE (''ERROR'' @ errText @ '' '' @ userMsg @ newline))"

definition outputError ::
  "(int \<Rightarrow> string) \<Rightarrow> bool \<Rightarrow> int \<Rightarrow> bool \<Rightarrow> string \<Rightarrow> 's stdio_scheme \<Rightarrow> 's stdio_scheme" where
  "outputError strerror useErr err flushStdout msg io =
     (let buf = error_text strerror useErr err msg;
          io1 = (if flushStdout then fflush_stdout io else io)
      in fputs_stderr buf io1)"

definition errMsg :: "(int \<Rightarrow> string) \<Rightarrow> string \<Rightarrow> 's stdio_scheme \<Rightarrow> 's stdio_scheme" where
  "errMsg strerror msg io =
     (let savedErrno = errno io; io1 = outputError strerror True (errno io) True msg io
      in io1\<lparr>errno := savedErrno\<rparr>)"

definition errExit ::
  "(int \<Rightarrow> string) \<Rightarrow> string option \<Rightarrow> string \<Rightarrow> 's stdio_scheme \<Rightarrow> ending \<times> 's stdio_scheme" where
  "errExit strerror dumpcore msg io =
     terminate dumpcore True (outputError strerror True (errno io) True msg io)"

definition err_exit ::
  "(int \<Rightarrow> string) \<Rightarrow> string option \<Rightarrow> string \<Rightarrow> 's stdio_scheme \<Rightarrow> ending \<times> 's stdio_scheme" where
  "err_exit strerror dumpcore msg io =
     terminate dumpcore False (outputError strerror True (errno io) False msg io)"

definition errExitEN ::
  "(int \<Rightarrow> string) \<Rightarrow> string option \<Rightarrow> int \<Rightarrow> string \<Rightarrow> 's stdio_scheme \<Rightarrow> ending \<times> 's stdio_scheme" where
  "errExitEN strerror dumpcore errnum msg io =
     terminate dumpcore True (outputError strerror True errnum True msg io)"

definition fatal ::
  "(int \<Rightarrow> string) \<Rightarrow> string option \<Rightarrow> string \<Rightarrow> 's stdio_scheme \<Rightarrow> ending \<times> 's stdio_scheme" where
  "fatal strerror dumpcore msg io =
     terminate dumpcore True (outputError strerror False 0 True msg io)"

definition usageErr :: "string \<Rightarrow> 's stdio_scheme \<Rightarrow> ending \<times> 's stdio_scheme" where
  "usageErr msg io = c_exit 1 (fputs_stderr msg (fputs_stderr ''Usage: '' (fflush_stdout io)))"

definition cmdLineErr :: "string \<Rightarrow> 's stdio_scheme \<Rightarrow> ending \<times> 's stdio_scheme" where
  "cmdLineErr msg io =
     c_exit 1 (fputs_stderr msg (fputs_stderr ''Command-line usage error: '' (fflush_stdout io)))"

section \<open>Lemmas\<close>

lemma length_error_text: "length (error_text strerror useErr err msg) < BUF_SIZE"
  using length_snprintf [of BUF_SIZE] by (simp add: error_text_def Let_def snprintf_def BUF_SIZE_def)

lemma length_ename [simp]: "length ename = 134"
  by (simp add: ename_def)

text \<open>The table is indexed within its bounds.\<close>

lemma ename_index: "0 < err \<Longrightarrow> err \<le> MAX_ENAME \<Longrightarrow> nat err < length ename"
  by (simp add: MAX_ENAME_def)

lemma fatal_text:
  assumes "length msg < 490"
  shows "error_text strerror False 0 msg = ''ERROR: '' @ msg @ newline"
  using assms by (simp add: error_text_def Let_def BUF_SIZE_def newline_def)

lemma written_fflush: "written (fflush_stdout io) = written io @ (if pending io = [] then [] else [(1, pending io)])"
  by (simp add: fflush_stdout_def)

lemma pending_fflush [simp]: "pending (fflush_stdout io) = []"
  by (simp add: fflush_stdout_def)

section \<open>Properties\<close>

text \<open>\<^verbatim>\<open>errMsg\<close> leaves \<^verbatim>\<open>errno\<close> as it was, and \<^verbatim>\<open>errExit\<close> writes everything printed so far before its
  message, which fits its buffer; \<^verbatim>\<open>err_exit\<close> loses the buffered output.\<close>

theorem error_output_order:
  assumes "pending io \<noteq> []"
  shows "errno (errMsg strerror msg io) = errno io \<and>
    (\<exists>text. length text < BUF_SIZE \<and>
      errExit strerror None msg io =
        (Exited 1, io\<lparr>pending := [], written := written io @ [(1, pending io), (2, text)], errno := stdio_errno io\<rparr>) \<and>
      err_exit strerror None msg io =
        (Exited 1, io\<lparr>written := written io @ [(2, text)], errno := stdio_errno io\<rparr>))"
proof -
  let ?text = "error_text strerror True (errno io) msg"
  have "errno (errMsg strerror msg io) = errno io" by (simp add: errMsg_def Let_def)
  moreover have "errExit strerror None msg io =
      (Exited 1, io\<lparr>pending := [], written := written io @ [(1, pending io), (2, ?text)], errno := stdio_errno io\<rparr>)"
    using assms by (simp add: errExit_def outputError_def terminate_def c_exit_def fputs_stderr_def fflush_stdout_def)
  moreover have "err_exit strerror None msg io =
      (Exited 1, io\<lparr>written := written io @ [(2, ?text)], errno := stdio_errno io\<rparr>)"
    by (simp add: err_exit_def outputError_def terminate_def c_exit_now_def fputs_stderr_def)
  ultimately show ?thesis using length_error_text by blast
qed

theorem error_output_order_witness:
  "written (snd (err_exit (\<lambda>_. ''Operation not permitted'') None ''open''
     \<lparr>pending = ''partial'', written = [], errno = 1, stdio_errno = 9\<rparr>)) =
   [(2, ''ERROR [EPERM Operation not permitted] open'' @ newline)]"
proof -
  let ?io = "\<lparr>pending = ''partial'', written = [], errno = 1, stdio_errno = 9\<rparr>"
  obtain buf where t: "length buf < BUF_SIZE"
    "err_exit (\<lambda>_. ''Operation not permitted'') None ''open'' ?io =
        (Exited 1, ?io\<lparr>written := written ?io @ [(2, buf)], errno := stdio_errno ?io\<rparr>)"
    using error_output_order [of ?io "\<lambda>_. ''Operation not permitted''" "''open''"] by auto
  moreover have "err_exit (\<lambda>_. ''Operation not permitted'') None ''open'' ?io =
        (Exited 1, ?io\<lparr>written := [(2, ''ERROR [EPERM Operation not permitted] open'' @ newline)], errno := 9\<rparr>)"
    by (simp add: err_exit_def outputError_def terminate_def c_exit_now_def fputs_stderr_def error_text_def
        ename_def MAX_ENAME_def BUF_SIZE_def newline_def)
  ultimately show ?thesis by simp
qed

end
