(* ===== verification/Sem_Ops.thy ===== *)
theory Sem_Ops
  imports Sysv_Sem Error_Functions Lib_Text Callbacks
begin

unbundle bit_operations_syntax

text \<open>
  The command \<^verbatim>\<open>47-system-v-semaphores/svsem/svsem_op.c\<close>: \<^verbatim>\<open>parseOps\<close> reads a comma-separated list of
  semaphore operations into an array of \<^verbatim>\<open>MAX_SEMOPS\<close> structs with 16-bit fields, and \<^verbatim>\<open>main\<close> performs
  each argument as one \<^verbatim>\<open>semop\<close>.
\<close>

section \<open>Parsing\<close>

definition MAX_SEMOPS :: nat where "MAX_SEMOPS = 1000"

definition cmd_line_err :: "string \<Rightarrow> 'a run" where
  "cmd_line_err msg = Inl (1, ''Command-line usage error: '' @ msg)"

definition fatal_err :: "string \<Rightarrow> 'a run" where
  "fatal_err msg = Inl (1, error_text (\<lambda>_. []) False 0 msg)"

definition quoted :: "string \<Rightarrow> string" where
  "quoted s = CHR 0x27 # s @ [CHR 0x27]"

fun parse_flags :: "string \<Rightarrow> int \<Rightarrow> int \<times> string" where
  "parse_flags [] flg = (flg, [])"
| "parse_flags (c # cs) flg =
     (if c = CHR ''n'' then parse_flags cs (flg OR IPC_NOWAIT)
      else if c = CHR ''u'' then parse_flags cs (flg OR SEM_UNDO)
      else (flg, c # cs))"

fun after_comma :: "string \<Rightarrow> string option" where
  "after_comma [] = None"
| "after_comma (c # cs) = (if c = CHR '','' then Some cs else after_comma cs)"

text \<open>One operation, up to the check of the character behind it.\<close>

definition parse_op :: "string \<Rightarrow> string \<Rightarrow> sembuf run" where
  "parse_op arg remaining =
     (case remaining of
        [] \<Rightarrow> fatal_err (''Trailing comma or empty argument: '' @ quoted arg)
      | c # _ \<Rightarrow>
          if \<not> is_digit c then cmd_line_err (''Expected initial digit: '' @ quoted arg @ newline)
          else case strtol remaining 10 of (num, sign, _) \<Rightarrow>
            if sign = [] \<or> hd sign \<notin> {CHR ''+'', CHR ''-'', CHR ''=''}
            then cmd_line_err (''Expected '' @ quoted ''+'' @ '', '' @ quoted ''-'' @ '', or '' @ quoted ''=''
                   @ '' in '' @ quoted arg @ newline)
            else if tl sign = [] \<or> \<not> is_digit (hd (tl sign))
            then cmd_line_err (''Expected digit after '' @ quoted [hd sign] @ '' in '' @ quoted arg @ newline)
            else case strtol (tl sign) 10 of (v, flags, _) \<Rightarrow>
              let oper = (word_of_int v :: 16 word);
                  oper' = (if hd sign = CHR ''-'' then - oper else oper)
              in if hd sign = CHR ''='' \<and> oper \<noteq> 0
                 then cmd_line_err (''Expected '' @ quoted ''=0'' @ '' in '' @ quoted arg @ newline)
                 else case parse_flags flags 0 of (flg, rest) \<Rightarrow>
                   if rest \<noteq> [] \<and> hd rest \<noteq> CHR '',''
                   then cmd_line_err (''Bad training character ('' @ [hd rest] @ '') in '' @ quoted arg @ newline)
                   else Inr \<lparr>sem_num = word_of_int num, sem_op = oper', sem_flg = flg\<rparr>)"

lemma after_comma_length: "after_comma s = Some r \<Longrightarrow> length r < length s"
  by (induction s) (auto split: if_splits)

function parse_ops_loop :: "string \<Rightarrow> string \<Rightarrow> sembuf list \<Rightarrow> sembuf list run" where
  "parse_ops_loop arg remaining sops =
     (if length sops \<ge> MAX_SEMOPS
      then cmd_line_err (''Too many operations (maximum='' @ nat_text MAX_SEMOPS @ ''): '' @ quoted arg @ newline)
      else rbind (parse_op arg remaining) (\<lambda>b.
        case after_comma remaining of
          None \<Rightarrow> Inr (sops @ [b])
        | Some rest \<Rightarrow> parse_ops_loop arg rest (sops @ [b])))"
  by pat_completeness auto
termination
  by (relation "measure (\<lambda>(arg, remaining, sops). length remaining)") (auto dest: after_comma_length)

declare parse_ops_loop.simps [simp del]

definition parseOps :: "string \<Rightarrow> sembuf list run" where
  "parseOps arg = parse_ops_loop arg arg []"

section \<open>The command\<close>

text \<open>
  \<open>stamp\<close> is the process id and the time in front of the progress lines, \<open>pid\<close> the process id alone, \<open>err\<close> the \<^verbatim>\<open>errno\<close> a failing
  \<^verbatim>\<open>semop\<close> leaves. The program ends or sleeps in a \<^verbatim>\<open>semop\<close>.
\<close>

definition usageError :: "string \<Rightarrow> 'a run" where
  "usageError progName = Inl (1,
     ''Usage: '' @ progName @ '' semid op[,op...] ...'' @ newline @ newline @
     quoted ''op'' @ '' is either: <sem#>{+|-}<value>[n][u]'' @ newline @
     ''       or: <sem#>=0[n]'' @ newline @
     ''       '' @ [CHR 0x22] @ ''n'' @ [CHR 0x22] @ '' means include IPC_NOWAIT in '' @ quoted ''op'' @ newline @
     ''       '' @ [CHR 0x22] @ ''u'' @ [CHR 0x22] @ '' means include SEM_UNDO in '' @ quoted ''op'' @ newline @ newline @
     ''The operations in each argument are performed in a single semop() call'' @ newline @ newline @
     ''e.g.:  '' @ progName @ '' 12345 0+1,1-2un'' @ newline @
     ''       '' @ progName @ '' 12345 0=0n 1+1,2-1u 1=0'' @ newline)"

fun svsem_op_loop ::
  "string \<Rightarrow> string \<Rightarrow> (int \<Rightarrow> string) \<Rightarrow> int \<Rightarrow> string \<Rightarrow> string list \<Rightarrow> string \<Rightarrow> 's sysv_sem_scheme
    \<Rightarrow> 's sysv_sem_scheme program" where
  "svsem_op_loop stamp pid strerror err semid [] out st = Ends 0 out [] st"
| "svsem_op_loop stamp pid strerror err semid (arg # args) out st =
     (case parseOps arg of Inl (status, msg) \<Rightarrow> Ends status out msg st
      | Inr sops \<Rightarrow>
          let out1 = out @ stamp @ '': about to semop() ['' @ arg @ '']'' @ newline in
          case getInt (Some semid) 0 (Some ''semid'') of Inl (status, msg) \<Rightarrow> Ends status out1 msg st
          | Inr i \<Rightarrow>
              (case semop i sops st of
                 Sleeps \<Rightarrow> Waiting out1 st
               | Returns rc st1 \<Rightarrow>
                   if rc = - 1 then Ends 1 out1 (error_text strerror True err (''Semop (PID='' @ pid @ '')'')) st1
                   else svsem_op_loop stamp pid strerror err semid args
                          (out1 @ stamp @ '': semop() completed ['' @ arg @ '']'' @ newline) st1))"

definition svsem_op_main ::
  "string \<Rightarrow> string \<Rightarrow> (int \<Rightarrow> string) \<Rightarrow> int \<Rightarrow> string list \<Rightarrow> 's sysv_sem_scheme \<Rightarrow> 's sysv_sem_scheme program" where
  "svsem_op_main stamp pid strerror err argv st =
     (if length argv < 2 \<or> strcmp (argv ! 1) ''--help'' = 0
      then (case usageError (argv ! 0) :: unit run of
              Inl (status, msg) \<Rightarrow> Ends status [] msg st | Inr _ \<Rightarrow> Ends 0 [] [] st)
      else svsem_op_loop stamp pid strerror err (argv ! 1) (drop 2 argv) [] st)"

section \<open>Printing\<close>

text \<open>The text of an operation, in the form the usage message gives.\<close>

definition op_text :: "sembuf \<Rightarrow> string" where
  "op_text b =
     nat_text (unat (sem_num b)) @
     (if sint (sem_op b) > 0 then CHR ''+'' # nat_text (nat (sint (sem_op b)))
      else if sint (sem_op b) = 0 then ''=0''
      else CHR ''-'' # nat_text (nat (- sint (sem_op b)))) @
     (if sem_flg b AND IPC_NOWAIT \<noteq> 0 then ''n'' else []) @
     (if sem_flg b AND SEM_UNDO \<noteq> 0 then ''u'' else [])"

fun ops_text :: "sembuf list \<Rightarrow> string" where
  "ops_text [] = []"
| "ops_text [b] = op_text b"
| "ops_text (b # bs) = op_text b @ CHR '','' # ops_text bs"

definition op_flags :: "int set" where
  "op_flags = {0, IPC_NOWAIT, SEM_UNDO, IPC_NOWAIT OR SEM_UNDO}"

section \<open>Lemmas\<close>

lemma flag_bits [simp]:
  "IPC_NOWAIT AND IPC_NOWAIT = IPC_NOWAIT" "SEM_UNDO AND SEM_UNDO = SEM_UNDO"
  "IPC_NOWAIT AND SEM_UNDO = 0" "SEM_UNDO AND IPC_NOWAIT = 0" "IPC_NOWAIT \<noteq> 0" "SEM_UNDO \<noteq> 0"
  "(IPC_NOWAIT OR SEM_UNDO) AND IPC_NOWAIT = IPC_NOWAIT" "(IPC_NOWAIT OR SEM_UNDO) AND SEM_UNDO = SEM_UNDO"
  by (simp_all add: IPC_NOWAIT_def SEM_UNDO_def)

definition flags_text :: "int \<Rightarrow> string" where
  "flags_text f = (if f AND IPC_NOWAIT \<noteq> 0 then ''n'' else []) @ (if f AND SEM_UNDO \<noteq> 0 then ''u'' else [])"

lemma parse_flags_text:
  assumes "f \<in> op_flags" and "rest = [] \<or> hd rest = CHR '',''"
  shows "parse_flags (flags_text f @ rest) 0 = (f, rest)"
proof -
  have r: "parse_flags rest g = (g, rest)" for g using assms(2) by (cases rest) auto
  show ?thesis using assms(1) by (auto simp: op_flags_def flags_text_def r)
qed

lemma not_digit [simp]:
  "\<not> is_digit (CHR ''+'')" "\<not> is_digit (CHR ''-'')" "\<not> is_digit (CHR ''='')" "\<not> is_digit (CHR '','')"
  "\<not> is_digit (CHR ''n'')" "\<not> is_digit (CHR ''u'')"
  by (simp_all add: is_digit_def code_def)

lemma flags_rest_not_digit:
  "rest = [] \<or> hd rest = CHR '','' \<Longrightarrow> flags_text f @ rest = [] \<or> \<not> is_digit (hd (flags_text f @ rest))"
  by (auto simp: flags_text_def)

text \<open>One operation in front of the end or a comma.\<close>

lemma parse_op_sign:
  assumes "sg \<in> {CHR ''+'', CHR ''-'', CHR ''=''}" and "f \<in> op_flags" and "rest = [] \<or> hd rest = CHR '',''"
    and "int v \<le> 32768" and "sg = CHR ''='' \<Longrightarrow> v = 0"
  shows "parse_op arg (nat_text (unat (n :: 16 word)) @ sg # nat_text v @ flags_text f @ rest) =
    Inr \<lparr>sem_num = n, sem_op = (if sg = CHR ''-'' then - word_of_nat v else word_of_nat v), sem_flg = f\<rparr>"
proof -
  let ?r = "sg # nat_text v @ flags_text f @ rest"
  have "unat n < 65536" using unsigned_less [of n] by simp
  then have n: "int (unat n) \<le> LONG_MAX" unfolding LONG_MAX_def by linarith
  have sg: "\<not> is_digit sg" using assms(1) by auto
  have s1: "strtol (nat_text (unat n) @ ?r) 10 = (int (unat n), ?r, False)"
    using sg n by (intro strtol_nat_text) auto
  have s2: "strtol (nat_text v @ flags_text f @ rest) 10 = (int v, flags_text f @ rest, False)"
    using flags_rest_not_digit [OF assms(3), of f] assms(4)
    by (intro strtol_nat_text) (auto simp: LONG_MAX_def)
  obtain c cs where c: "nat_text (unat n) = c # cs" "is_digit c"
    using nat_text_hd [of "unat n"] nat_text_nonempty [of "unat n"] by (cases "nat_text (unat n)") auto
  have d: "nat_text v @ flags_text f @ rest \<noteq> []" "is_digit (hd (nat_text v @ flags_text f @ rest))"
    using nat_text_hd [of v] by simp_all
  show ?thesis
    using s1 c d assms(1,5) parse_flags_text [OF assms(2,3)] assms(3)
    by (auto simp: parse_op_def s2 Let_def)
qed

lemma op_text_form:
  obtains sg v where "op_text b = nat_text (unat (sem_num b)) @ sg # nat_text v @ flags_text (sem_flg b)"
    "sg \<in> {CHR ''+'', CHR ''-'', CHR ''=''}" "int v \<le> 32768" "sg = CHR ''='' \<longrightarrow> v = 0"
    "sem_op b = (if sg = CHR ''-'' then - word_of_nat v else word_of_nat v)"
proof -
  let ?i = "sint (sem_op b)"
  have r: "- 32768 \<le> ?i" "?i < 32768"
    using sint_ge [of "sem_op b"] sint_lt [of "sem_op b"] by simp_all
  have w: "word_of_int ?i = sem_op b" by simp
  consider "?i > 0" | "?i = 0" | "?i < 0" by linarith
  then show thesis
  proof cases
    case 1
    then have "(word_of_nat (nat ?i) :: 16 word) = sem_op b" by (metis int_nat_eq less_imp_le of_int_of_nat_eq w)
    then show thesis using 1 r by (intro that [of "CHR ''+''" "nat ?i"]) (auto simp: op_text_def flags_text_def)
  next
    case 2
    then have "sem_op b = 0" using w by simp
    then show thesis using 2
      by (intro that [of "CHR ''=''" 0]) (auto simp: op_text_def flags_text_def nat_text.simps [of 0])
  next
    case 3
    then have "(word_of_nat (nat (- ?i)) :: 16 word) = word_of_int (- ?i)" by (simp add: word_of_nat_eq_iff)
    then have "- (word_of_nat (nat (- ?i)) :: 16 word) = sem_op b" using w by simp
    then show thesis using 3 r by (intro that [of "CHR ''-''" "nat (- ?i)"]) (auto simp: op_text_def flags_text_def)
  qed
qed

lemma parse_op_text:
  assumes "sem_flg b \<in> op_flags" and "rest = [] \<or> hd rest = CHR '',''"
  shows "parse_op arg (op_text b @ rest) = Inr b"
proof -
  obtain sg v where t: "op_text b = nat_text (unat (sem_num b)) @ sg # nat_text v @ flags_text (sem_flg b)"
    "sg \<in> {CHR ''+'', CHR ''-'', CHR ''=''}" "int v \<le> 32768" "sg = CHR ''='' \<longrightarrow> v = 0"
    "sem_op b = (if sg = CHR ''-'' then - word_of_nat v else word_of_nat v)"
    by (rule op_text_form [of b])
  show ?thesis
    using parse_op_sign [OF t(2) assms t(3), of arg "sem_num b"] t(1,4,5) by simp
qed

lemma after_comma_text: "CHR '','' \<notin> set s \<Longrightarrow> after_comma (s @ CHR '','' # r) = Some r"
  "CHR '','' \<notin> set s \<Longrightarrow> after_comma s = None"
  by (induction s) auto

lemma op_text_no_comma: "CHR '','' \<notin> set (op_text b)"
  using nat_text_digits [of "CHR '',''"] by (auto simp: op_text_def)

lemma parse_ops_loop_text:
  assumes "bs \<noteq> []" and "\<forall>b \<in> set bs. sem_flg b \<in> op_flags" and "length sops + length bs \<le> MAX_SEMOPS"
  shows "parse_ops_loop arg (ops_text bs) sops = Inr (sops @ bs)"
  using assms
proof (induction bs arbitrary: sops rule: ops_text.induct)
  case (2 b)
  then show ?case using parse_op_text [of b "[]" arg] after_comma_text(2) [OF op_text_no_comma, of b]
    by (simp add: parse_ops_loop.simps)
next
  case (3 b c bs)
  then show ?case
    using parse_op_text [of b "CHR '','' # ops_text (c # bs)" arg]
      after_comma_text(1) [OF op_text_no_comma, of b "ops_text (c # bs)"]
    by (simp add: parse_ops_loop.simps [of _ "_ @ _"])
qed simp

lemma parse_ops_loop_length:
  "parse_ops_loop arg remaining sops = Inr ops \<Longrightarrow> length sops < length ops \<and> length ops \<le> MAX_SEMOPS"
proof (induction arg remaining sops rule: parse_ops_loop.induct)
  case (1 arg remaining sops)
  from "1.prems" obtain b where len: "\<not> MAX_SEMOPS \<le> length sops" and b: "parse_op arg remaining = Inr b"
    and r: "(case after_comma remaining of None \<Rightarrow> Inr (sops @ [b])
      | Some rest \<Rightarrow> parse_ops_loop arg rest (sops @ [b])) = Inr ops"
    by (subst (asm) parse_ops_loop.simps) (auto simp: rbind_eq_Inr cmd_line_err_def split: if_splits)
  show ?case
  proof (cases "after_comma remaining")
    case None
    then show ?thesis using r len by auto
  next
    case (Some rest)
    then show ?thesis using "1.IH" [OF len b Some] r by simp
  qed
qed

section \<open>Properties\<close>

text \<open>\<^verbatim>\<open>parseOps\<close> reads back every printed list of operations, with every 16-bit value and every
  combination of the flags.\<close>

theorem parse_ops_roundtrip:
  assumes "ops \<noteq> []" and "length ops \<le> MAX_SEMOPS" and "\<forall>b \<in> set ops. sem_flg b \<in> op_flags"
  shows "parseOps (ops_text ops) = Inr ops"
  using parse_ops_loop_text [OF assms(1,3), of "[]"] assms(2) by (simp add: parseOps_def)

theorem parse_ops_roundtrip_witness:
  "parseOps (ops_text [\<lparr>sem_num = 0, sem_op = 1, sem_flg = 0\<rparr>, \<lparr>sem_num = 1, sem_op = - 2, sem_flg = SEM_UNDO OR IPC_NOWAIT\<rparr>]) =
   Inr [\<lparr>sem_num = 0, sem_op = 1, sem_flg = 0\<rparr>, \<lparr>sem_num = 1, sem_op = - 2, sem_flg = SEM_UNDO OR IPC_NOWAIT\<rparr>]"
  by (rule parse_ops_roundtrip) (simp_all add: MAX_SEMOPS_def op_flags_def IPC_NOWAIT_def SEM_UNDO_def)

text \<open>\<^verbatim>\<open>parseOps\<close> never stores behind the \<^verbatim>\<open>MAX_SEMOPS\<close> entries of its array and always stores at least
  one; its numbers wrap to 16 bits unnoticed, so that \<^verbatim>\<open>65536=65536\<close> is taken for \<^verbatim>\<open>0=0\<close>.\<close>

theorem parse_ops_bounds:
  "(parseOps arg = Inr ops \<longrightarrow> 0 < length ops \<and> length ops \<le> MAX_SEMOPS) \<and>
    parseOps ''65536=65536'' = Inr [\<lparr>sem_num = 0, sem_op = 0, sem_flg = 0\<rparr>]"
proof (intro conjI impI)
  show "parseOps arg = Inr ops \<Longrightarrow> 0 < length ops" "parseOps arg = Inr ops \<Longrightarrow> length ops \<le> MAX_SEMOPS"
    using parse_ops_loop_length [of arg arg "[]" ops] by (simp_all add: parseOps_def)
  have d: "strtol ''65536=65536'' 10 = (65536, ''=65536'', False)" "strtol ''65536'' 10 = (65536, [], False)"
    using strtol_digits [of "''65536''" "''=65536''"] strtol_digits [of "''65536''" "[]"]
    by (simp_all add: digits_value_def digit_value_def is_digit_def code_def LONG_MAX_def)
  have "parse_op arg ''65536=65536'' = Inr \<lparr>sem_num = 0, sem_op = 0, sem_flg = 0\<rparr>" for arg
    using d by (simp add: parse_op_def is_digit_def code_def Let_def)
  then show "parseOps ''65536=65536'' = Inr [\<lparr>sem_num = 0, sem_op = 0, sem_flg = 0\<rparr>]"
    by (simp add: parseOps_def parse_ops_loop.simps MAX_SEMOPS_def)
qed

theorem parse_ops_bounds_witness:
  "length (projr (parseOps (ops_text [\<lparr>sem_num = 3, sem_op = 7, sem_flg = 0\<rparr>]))) \<le> MAX_SEMOPS"
proof -
  have "parseOps (ops_text [\<lparr>sem_num = 3, sem_op = 7, sem_flg = 0\<rparr>]) = Inr [\<lparr>sem_num = 3, sem_op = 7, sem_flg = 0\<rparr>]"
    using parse_ops_loop_text [of "[\<lparr>sem_num = 3, sem_op = 7, sem_flg = 0\<rparr>]" "[]"]
    by (simp add: parseOps_def MAX_SEMOPS_def op_flags_def)
  with parse_ops_bounds show ?thesis by (metis projr_def sum.case(2) sum.sel(2))
qed

end
