(* ===== verification/Keystore.thy ===== *)
theory Keystore
  imports Sysv_Sem Error_Functions Callbacks
begin

text \<open>
  The key-value store in shared memory of \<^verbatim>\<open>48-system-v-shared-memory/exercises/48-5.c\<close>: a fixed
  array of items behind one semaphore, which a process takes by waiting for 0 and adding 1 in one
  \<^verbatim>\<open>semop\<close>. The segments are part of the kernel's state, so that several processes see the same items.
\<close>

section \<open>Data\<close>

definition MAX_ITEMS :: nat where "MAX_ITEMS = 100"

definition MAX_NAME :: nat where "MAX_NAME = 1024"

definition MAX_VALUE :: nat where "MAX_VALUE = 1024"

record item =
  active :: int
  item_name :: string
  item_value :: string

record index =
  ix_semid :: int
  items :: "item list"

record sysv_ipc = sysv_sem +
  shm_keys :: "int \<Rightarrow> int option"
  shm_segs :: "int \<Rightarrow> index option"
  shm_next :: int
  shm_full :: bool
  shm_denied :: bool
  shm_no_attach :: bool

definition shm_get :: "int \<Rightarrow> 's sysv_ipc_scheme \<Rightarrow> index res" where
  "shm_get idx st = (case shm_segs st idx of None \<Rightarrow> Inl Bad_Access | Some x \<Rightarrow> Inr x)"

definition shm_put :: "int \<Rightarrow> index \<Rightarrow> 's sysv_ipc_scheme \<Rightarrow> 's sysv_ipc_scheme" where
  "shm_put idx x st = st\<lparr>shm_segs := (shm_segs st)(idx := Some x)\<rparr>"

section \<open>The semaphore\<close>

definition wait_turn :: "int \<Rightarrow> 's sysv_sem_scheme \<Rightarrow> (int, 's sysv_sem_scheme) call" where
  "wait_turn semid st =
     semop semid [\<lparr>sem_num = 0, sem_op = 0, sem_flg = 0\<rparr>, \<lparr>sem_num = 0, sem_op = 1, sem_flg = 0\<rparr>] st"

definition release_sem :: "int \<Rightarrow> 's sysv_sem_scheme \<Rightarrow> (int, 's sysv_sem_scheme) call" where
  "release_sem semid st = semop semid [\<lparr>sem_num = 0, sem_op = - 1, sem_flg = 0\<rparr>] st"

section \<open>Operations\<close>

text \<open>
  \<^verbatim>\<open>strcmp\<close> on the name buffer of an item: a buffer without a NUL is overrun when the name agrees with
  all of it.
\<close>

definition name_is :: "string \<Rightarrow> string \<Rightarrow> bool res" where
  "name_is buf name =
     (if NUL \<in> set buf then Inr (strcmp (buf_text buf) name = 0)
      else if take (length buf) name = buf then Inl Out_Of_Bounds
      else Inr False)"

fun find_item :: "string \<Rightarrow> nat \<Rightarrow> item list \<Rightarrow> nat option res" where
  "find_item name i [] = Inr None"
| "find_item name i (x # xs) =
     (if active x \<noteq> 0
      then rbind (name_is (item_name x) name) (\<lambda>same. if same then Inr (Some i) else find_item name (Suc i) xs)
      else find_item name (Suc i) xs)"

fun find_free :: "nat \<Rightarrow> item list \<Rightarrow> nat" where
  "find_free i [] = i"
| "find_free i (x # xs) = (if active x = 0 then i else find_free (Suc i) xs)"

text \<open>The end of an operation: a failing release is only reported.\<close>

definition finish :: "int \<Rightarrow> 'a \<Rightarrow> 's sysv_sem_scheme \<Rightarrow> ('a, 's sysv_sem_scheme) call" where
  "finish semid v st = (case release_sem semid st of Sleeps \<Rightarrow> Sleeps | Returns rc st1 \<Rightarrow> Returns v st1)"

text \<open>\<^verbatim>\<open>search_item\<close> returns a pointer to the value buffer in the shared memory; the model returns the buffer.\<close>

definition search_item ::
  "int \<Rightarrow> string \<Rightarrow> 's sysv_ipc_scheme \<Rightarrow> (string option, 's sysv_ipc_scheme) call res" where
  "search_item idx name st =
     rbind (shm_get idx st) (\<lambda>x.
     case wait_turn (ix_semid x) st of
       Sleeps \<Rightarrow> Inr Sleeps
     | Returns rc st1 \<Rightarrow>
         if rc = - 1 then Inr (Returns None st1)
         else rbind (find_item name 0 (take MAX_ITEMS (items x))) (\<lambda>i.
           Inr (finish (ix_semid x) (map_option (\<lambda>j. item_value (items x ! j)) i) st1)))"

definition copy_in :: "string option \<Rightarrow> nat \<Rightarrow> string res" where
  "copy_in src n = (case src of None \<Rightarrow> Inl Null_Deref | Some s \<Rightarrow> Inr (strncpy s n))"

text \<open>\<^verbatim>\<open>set_item\<close> returns without releasing the semaphore when the array is full.\<close>

definition set_item ::
  "int \<Rightarrow> string \<Rightarrow> string option \<Rightarrow> 's sysv_ipc_scheme \<Rightarrow> (int, 's sysv_ipc_scheme) call res" where
  "set_item idx name value st =
     rbind (shm_get idx st) (\<lambda>x.
     case wait_turn (ix_semid x) st of
       Sleeps \<Rightarrow> Inr Sleeps
     | Returns rc st1 \<Rightarrow>
         if rc = - 1 then Inr (Returns (- 1) st1)
         else rbind (find_item name 0 (take MAX_ITEMS (items x))) (\<lambda>found.
           case found of
             Some i \<Rightarrow>
               rbind (copy_in value MAX_VALUE) (\<lambda>v.
                 let x1 = x\<lparr>items := (items x)[i := (items x ! i)\<lparr>item_value := v\<rparr>]\<rparr>
                 in Inr (finish (ix_semid x) 0 (shm_put idx x1 st1)))
           | None \<Rightarrow>
               let i = find_free 0 (take MAX_ITEMS (items x)) in
               if i \<ge> MAX_ITEMS then Inr (Returns (- 1) st1)
               else rbind (copy_in value MAX_VALUE) (\<lambda>v.
                 let x1 = x\<lparr>items := (items x)[i := \<lparr>active = 1, item_name = strncpy name MAX_NAME, item_value = v\<rparr>]\<rparr>
                 in Inr (finish (ix_semid x) 0 (shm_put idx x1 st1)))))"

text \<open>\<^verbatim>\<open>delete_item\<close> returns without releasing the semaphore when it deletes.\<close>

definition delete_item :: "int \<Rightarrow> string \<Rightarrow> 's sysv_ipc_scheme \<Rightarrow> (int, 's sysv_ipc_scheme) call res" where
  "delete_item idx name st =
     rbind (shm_get idx st) (\<lambda>x.
     case wait_turn (ix_semid x) st of
       Sleeps \<Rightarrow> Inr Sleeps
     | Returns rc st1 \<Rightarrow>
         if rc = - 1 then Inr (Returns (- 1) st1)
         else rbind (find_item name 0 (take MAX_ITEMS (items x))) (\<lambda>found.
           case found of
             Some i \<Rightarrow>
               Inr (Returns 0 (shm_put idx (x\<lparr>items := (items x)[i := (items x ! i)\<lparr>active := 0\<rparr>]\<rparr>) st1))
           | None \<Rightarrow> Inr (finish (ix_semid x) (- 1) st1)))"

section \<open>Creating the store\<close>

definition empty_item :: item where
  "empty_item = \<lparr>active = 0, item_name = replicate MAX_NAME NUL, item_value = replicate MAX_VALUE NUL\<rparr>"

text \<open>
  A new segment is full of zeros. When the segment exists, its semaphore is looked up with
  \<^verbatim>\<open>IPC_STAT\<close> into an eight-byte union, which the \<^verbatim>\<open>struct semid_ds\<close> the kernel stores does not fit.
\<close>

definition new_semaphore :: "int \<Rightarrow> 's sysv_ipc_scheme \<Rightarrow> int option \<times> 's sysv_ipc_scheme" where
  "new_semaphore shmid st =
     (case semget IPC_PRIVATE 1 (IPC_CREAT OR IPC_EXCL OR 432) st of (semid, st1) \<Rightarrow>
        if semid = - 1 then (None, st1)
        else (Some shmid,
              st1\<lparr>shm_segs := (shm_segs st1)(shmid := map_option (\<lambda>x. x\<lparr>ix_semid := semid\<rparr>) (shm_segs st1 shmid))\<rparr>))"

definition ini_keystore :: "int \<Rightarrow> 's sysv_ipc_scheme \<Rightarrow> (int option \<times> 's sysv_ipc_scheme) res" where
  "ini_keystore key st =
     (if shm_denied st then Inr (None, st)
      else case shm_keys st key of
        None \<Rightarrow>
          if shm_full st then Inr (None, st)
          else let shmid = shm_next st;
                   st1 = st\<lparr>shm_keys := (shm_keys st)(key := Some shmid),
                            shm_segs := (shm_segs st)(shmid := Some \<lparr>ix_semid = 0, items = replicate MAX_ITEMS empty_item\<rparr>),
                            shm_next := shmid + 1\<rparr>
               in if shm_no_attach st1 then Inr (None, st1) else Inr (new_semaphore shmid st1)
      | Some shmid \<Rightarrow>
          if shm_no_attach st then Inr (None, st)
          else rbind (shm_get shmid st) (\<lambda>x.
            if sem_sets st (ix_semid x) \<noteq> None then Inl Out_Of_Bounds
            else Inr (new_semaphore shmid st)))"

section \<open>The command\<close>

definition keystore_usage :: "string \<Rightarrow> string" where
  "keystore_usage prog = ''Usage: '' @ prog @ '' action key [value]'' @ newline @ ''  actions are [get|set|delete]'' @ newline"

definition keystore_main ::
  "(int \<Rightarrow> string) \<Rightarrow> int \<Rightarrow> string list \<Rightarrow> 's sysv_ipc_scheme \<Rightarrow> 's sysv_ipc_scheme program res" where
  "keystore_main strerror err argv st =
     (if length argv < 3 then Inr (Ends 1 [] (keystore_usage (argv ! 0)) st)
      else rbind (ini_keystore 0x1234 st) (\<lambda>(idx, st1).
        case idx of
          None \<Rightarrow> Inr (Ends 1 [] (error_text strerror True err ''ini_keystore'') st1)
        | Some i \<Rightarrow>
            if argv ! 1 = ''get'' then
              rbind (search_item i (argv ! 2) st1) (\<lambda>r. case r of
                Sleeps \<Rightarrow> Inr (Waiting [] st1)
              | Returns None st2 \<Rightarrow> Inr (Ends 0 (argv ! 2 @ '' not found'' @ newline) [] st2)
              | Returns (Some v) st2 \<Rightarrow>
                  if NUL \<in> set v then Inr (Ends 0 (buf_text v @ newline) [] st2) else Inl Out_Of_Bounds)
            else if argv ! 1 = ''set'' then
              rbind (set_item i (argv ! 2) (if length argv > 3 then Some (argv ! 3) else None) st1) (\<lambda>r. case r of
                Sleeps \<Rightarrow> Inr (Waiting [] st1)
              | Returns rc st2 \<Rightarrow>
                  Inr (if rc = - 1 then Ends 1 [] (error_text strerror True err ''set_item'') st2 else Ends 0 [] [] st2))
            else if argv ! 1 = ''delete'' then
              rbind (delete_item i (argv ! 2) st1) (\<lambda>r. case r of
                Sleeps \<Rightarrow> Inr (Waiting [] st1)
              | Returns rc st2 \<Rightarrow>
                  Inr (if rc = - 1 then Ends 1 [] (error_text strerror True err ''delete_item'') st2 else Ends 0 [] [] st2))
            else Inr (Ends 1 [] (''Usage: invalid action '' @ argv ! 1 @ newline) st1)))"

section \<open>Invariant and abstraction\<close>

definition is_item :: "string \<Rightarrow> item \<Rightarrow> bool" where
  "is_item name x \<longleftrightarrow> active x \<noteq> 0 \<and> buf_text (item_name x) = name"

definition store_map :: "item list \<Rightarrow> string \<Rightarrow> string option" where
  "store_map xs name = map_option (\<lambda>x. buf_text (item_value x)) (List.find (is_item name) xs)"

definition items_ok :: "item list \<Rightarrow> bool" where
  "items_ok xs \<longleftrightarrow> length xs = MAX_ITEMS \<and>
     (\<forall>i < length xs. \<forall>j < length xs. \<forall>n. is_item n (xs ! i) \<longrightarrow> is_item n (xs ! j) \<longrightarrow> i = j) \<and>
     (\<forall>x \<in> set xs. length (item_name x) = MAX_NAME \<and> length (item_value x) = MAX_VALUE \<and> NUL \<in> set (item_name x))"

definition store_shape :: "int \<Rightarrow> index \<Rightarrow> int \<Rightarrow> 's sysv_ipc_scheme \<Rightarrow> bool" where
  "store_shape idx x v st \<longleftrightarrow>
     shm_segs st idx = Some x \<and> items_ok (items x) \<and> sem_sets st (ix_semid x) = Some [v]"

abbreviation store_inv :: "int \<Rightarrow> index \<Rightarrow> 's sysv_ipc_scheme \<Rightarrow> bool" where
  "store_inv idx x st \<equiv> store_shape idx x 0 st"

definition fits :: "string \<Rightarrow> nat \<Rightarrow> bool" where
  "fits s n \<longleftrightarrow> NUL \<notin> set s \<and> length s < n"

lemma wait_turn_free:
  "sem_sets st i = Some [0] \<Longrightarrow> wait_turn i st = Returns 0 (st\<lparr>sem_sets := (sem_sets st)(i := Some [1])\<rparr>)"
  by (simp add: wait_turn_def semop_def Let_def SEMVMX_def)

lemma wait_turn_taken: "sem_sets st i = Some [v] \<Longrightarrow> 0 < v \<Longrightarrow> wait_turn i st = Sleeps"
  by (simp add: wait_turn_def semop_def Let_def sem_blocked_def)

lemma release_taken:
  "sem_sets st i = Some [1] \<Longrightarrow> release_sem i st = Returns 0 (st\<lparr>sem_sets := (sem_sets st)(i := Some [0])\<rparr>)"
  by (simp add: release_sem_def semop_def Let_def)

lemma finish_taken:
  "sem_sets st i = Some [1] \<Longrightarrow> finish i v st = Returns v (st\<lparr>sem_sets := (sem_sets st)(i := Some [0])\<rparr>)"
  by (simp add: finish_def release_taken)

lemma name_is_ok: "NUL \<in> set buf \<Longrightarrow> name_is buf name = Inr (buf_text buf = name)"
  by (simp add: name_is_def)

lemma find_item_ok:
  "\<forall>x \<in> set xs. NUL \<in> set (item_name x) \<Longrightarrow>
    find_item name i xs = Inr (if first_hit (is_item name) xs < length xs
      then Some (i + first_hit (is_item name) xs) else None)"
  by (induction xs arbitrary: i) (auto simp: first_hit_def is_item_def name_is_ok)

lemma find_free_hit: "find_free i xs = i + first_hit (\<lambda>x. active x = 0) xs"
  by (induction xs arbitrary: i) (auto simp: first_hit_def)

lemma items_find:
  assumes "items_ok xs"
  shows "find_item name 0 (take MAX_ITEMS xs) = Inr (if first_hit (is_item name) xs < length xs
    then Some (first_hit (is_item name) xs) else None)"
  using find_item_ok [of xs name 0] assms by (simp add: items_ok_def)

lemma find_update_other: "\<not> P (xs ! i) \<Longrightarrow> \<not> P y \<Longrightarrow> List.find P (xs[i := y]) = List.find P xs"
proof (induction xs arbitrary: i)
  case (Cons x xs)
  then show ?case by (cases i) auto
qed simp

lemma find_update_first:
  "P y \<Longrightarrow> i < length xs \<Longrightarrow> (\<And>j. j < i \<Longrightarrow> \<not> P (xs ! j)) \<Longrightarrow> List.find P (xs[i := y]) = Some y"
proof (induction xs arbitrary: i)
  case (Cons x xs)
  show ?case
  proof (cases i)
    case (Suc k)
    then have "\<not> P x" "\<And>j. j < k \<Longrightarrow> \<not> P (xs ! j)" using Cons.prems(3) by force+
    then show ?thesis using Cons.IH [of k] Cons.prems(1,2) Suc by simp
  qed (use Cons.prems in simp)
qed simp

lemma first_hit_before: "j < first_hit P xs \<Longrightarrow> \<not> P (xs ! j)"
  by (induction xs arbitrary: j) (auto simp: first_hit_def nth_Cons split: nat.splits if_splits)

lemma find_none_after:
  assumes "\<not> P y" and "\<And>j. j < length xs \<Longrightarrow> j \<noteq> i \<Longrightarrow> \<not> P (xs ! j)"
  shows "List.find P (xs[i := y]) = None"
  unfolding find_None_iff
proof
  assume "\<exists>x. x \<in> set (xs[i := y]) \<and> P x"
  then obtain j where "j < length xs" "P (xs[i := y] ! j)" by (metis in_set_conv_nth length_list_update)
  then show False using assms by (cases "j = i") auto
qed

text \<open>Replacing an item by one of the name \<open>name\<close>, or by an inactive one.\<close>

lemma items_ok_put:
  assumes "items_ok xs" and "i < MAX_ITEMS"
    and "length (item_name y) = MAX_NAME" "length (item_value y) = MAX_VALUE" "NUL \<in> set (item_name y)"
    and "\<And>n j. is_item n y \<Longrightarrow> j < MAX_ITEMS \<Longrightarrow> j \<noteq> i \<Longrightarrow> \<not> is_item n (xs ! j)"
  shows "items_ok (xs[i := y])"
proof -
  have l: "length xs = MAX_ITEMS" using assms(1) by (simp add: items_ok_def)
  have d: "a = b" if "is_item n (xs ! a)" "is_item n (xs ! b)" "a < MAX_ITEMS" "b < MAX_ITEMS" for a b n
    using assms(1) that unfolding items_ok_def by metis
  have "a = b" if "a < MAX_ITEMS" "b < MAX_ITEMS" "is_item n (xs[i := y] ! a)" "is_item n (xs[i := y] ! b)" for a b n
  proof -
    have c: "is_item n y" if "is_item n (xs[i := y] ! k)" "k = i" for k using that assms(2) l by simp
    have o: "is_item n (xs ! k)" if "is_item n (xs[i := y] ! k)" "k \<noteq> i" for k using that by simp
    show ?thesis
      using c [OF that(3)] c [OF that(4)] o [OF that(3)] o [OF that(4)] assms(6) d that(1,2) by metis
  qed
  moreover have "length (item_name x) = MAX_NAME \<and> length (item_value x) = MAX_VALUE \<and> NUL \<in> set (item_name x)"
    if "x \<in> set (xs[i := y])" for x
    using that assms(1,3-5) set_update_subset_insert [of xs i y] by (auto simp: items_ok_def)
  ultimately show ?thesis using l by (simp add: items_ok_def)
qed

lemma store_map_put:
  assumes "i < length xs" and "is_item name y" and "buf_text (item_value y) = v"
    and "\<And>j. j < i \<Longrightarrow> \<not> is_item name (xs ! j)" and "\<And>n. n \<noteq> name \<Longrightarrow> \<not> is_item n (xs ! i)"
  shows "store_map (xs[i := y]) = (store_map xs)(name \<mapsto> v)"
proof
  fix n
  show "store_map (xs[i := y]) n = ((store_map xs)(name \<mapsto> v)) n"
  proof (cases "n = name")
    case True
    then show ?thesis using find_update_first [of "is_item name" y i xs] assms by (simp add: store_map_def)
  next
    case False
    then have "\<not> is_item n y" using assms(2) by (auto simp: is_item_def)
    then show ?thesis using find_update_other [of "is_item n" xs i y] assms(5) False by (simp add: store_map_def)
  qed
qed

lemma store_map_drop:
  assumes "items_ok xs" and "i < length xs" and "is_item name (xs ! i)" and "active y = 0"
  shows "store_map (xs[i := y]) = (store_map xs)(name := None)"
proof
  fix n
  have y: "\<not> is_item n y" using assms(4) by (simp add: is_item_def)
  show "store_map (xs[i := y]) n = ((store_map xs)(name := None)) n"
  proof (cases "n = name")
    case True
    have "\<not> is_item name (xs ! j)" if "j < length xs" "j \<noteq> i" for j
      using assms(1-3) that unfolding items_ok_def by metis
    then have "List.find (is_item name) (xs[i := y]) = None" using y True by (intro find_none_after) auto
    then show ?thesis using True by (simp add: store_map_def)
  next
    case False
    then have "\<not> is_item n (xs ! i)" using assms(3) by (auto simp: is_item_def)
    then show ?thesis using find_update_other [of "is_item n" xs i y] y False by (simp add: store_map_def)
  qed
qed

section \<open>The operations\<close>

text \<open>What an operation leaves in the kernel: other segments and semaphores as they were.\<close>

definition store_frame :: "int \<Rightarrow> index \<Rightarrow> 's sysv_ipc_scheme \<Rightarrow> 's sysv_ipc_scheme \<Rightarrow> bool" where
  "store_frame idx x st st' \<longleftrightarrow>
     (\<forall>j. j \<noteq> idx \<longrightarrow> shm_segs st' j = shm_segs st j) \<and> (\<forall>k. k \<noteq> ix_semid x \<longrightarrow> sem_sets st' k = sem_sets st k)"

definition taken :: "index \<Rightarrow> 's sysv_ipc_scheme \<Rightarrow> 's sysv_ipc_scheme" where
  "taken x st = st\<lparr>sem_sets := (sem_sets st)(ix_semid x := Some [1])\<rparr>"

lemma store_enter:
  assumes "store_inv idx x st"
  shows "shm_get idx st = Inr x" "wait_turn (ix_semid x) st = Returns 0 (taken x st)"
  using assms wait_turn_free [of st "ix_semid x"] by (auto simp: store_shape_def shm_get_def taken_def)

lemma finish_put:
  "finish (ix_semid x) v (shm_put idx x1 (taken x st)) = Returns v ((shm_put idx x1 (taken x st))
     \<lparr>sem_sets := (sem_sets st)(ix_semid x := Some [0])\<rparr>)"
  by (subst finish_taken) (simp_all add: shm_put_def taken_def)

lemma search_item_ok:
  assumes "store_inv idx x st"
  shows "\<exists>v st'. search_item idx name st = Inr (Returns v st') \<and> store_inv idx x st' \<and>
    store_frame idx x st st' \<and> map_option buf_text v = store_map (items x) name"
proof -
  let ?n = "first_hit (is_item name) (items x)"
  let ?v = "if ?n < length (items x) then Some (item_value (items x ! ?n)) else None"
  have ok: "items_ok (items x)" and sem: "sem_sets st (ix_semid x) = Some [0]" and seg: "shm_segs st idx = Some x"
    using assms by (auto simp: store_shape_def)
  have "finish (ix_semid x) ?v (taken x st) = Returns ?v ((taken x st)\<lparr>sem_sets := (sem_sets st)(ix_semid x := Some [0])\<rparr>)"
    by (subst finish_taken) (simp_all add: taken_def)
  then have "search_item idx name st = Inr (Returns ?v ((taken x st)\<lparr>sem_sets := (sem_sets st)(ix_semid x := Some [0])\<rparr>))"
    using store_enter [OF assms] items_find [OF ok, of name]
    by (simp add: search_item_def map_option_case split: if_splits)
  moreover have "map_option buf_text ?v = store_map (items x) name"
    by (simp add: store_map_def first_hit_find)
  ultimately show ?thesis using ok seg
    by (intro exI [of _ ?v] exI) (auto simp: store_shape_def taken_def store_frame_def)
qed

lemma set_item_put:
  assumes "store_inv idx x st" and "fits name MAX_NAME" and "fits v MAX_VALUE"
    and "store_map (items x) name \<noteq> None \<or> (\<exists>y \<in> set (items x). active y = 0)"
  shows "\<exists>x' st'. set_item idx name (Some v) st = Inr (Returns 0 st') \<and> store_inv idx x' st' \<and>
    ix_semid x' = ix_semid x \<and> store_frame idx x st st' \<and>
    store_map (items x') = (store_map (items x))(name \<mapsto> v)"
proof -
  let ?xs = "items x" and ?n = "first_hit (is_item name) (items x)"
  have ok: "items_ok ?xs" and sem: "sem_sets st (ix_semid x) = Some [0]" and l: "length ?xs = MAX_ITEMS"
    using assms(1) by (auto simp: store_shape_def items_ok_def)
  have v: "buf_text (strncpy v MAX_VALUE) = v" using buf_text_strncpy assms(3) by (simp add: fits_def)
  have nm: "buf_text (strncpy name MAX_NAME) = name" "NUL \<in> set (strncpy name MAX_NAME)"
    using buf_text_strncpy assms(2) by (simp_all add: fits_def)
  note run = store_enter [OF assms(1)] items_find [OF ok, of name]
  have goal: "\<exists>x' st'. set_item idx name (Some v) st = Inr (Returns 0 st') \<and> store_inv idx x' st' \<and>
      ix_semid x' = ix_semid x \<and> store_frame idx x st st' \<and>
      store_map (items x') = (store_map ?xs)(name \<mapsto> v)"
    if "set_item idx name (Some v) st =
        Inr (finish (ix_semid x) 0 (shm_put idx (x\<lparr>items := ?xs[i := y]\<rparr>) (taken x st)))"
      "items_ok (?xs[i := y])" "store_map (?xs[i := y]) = (store_map ?xs)(name \<mapsto> v)" for i y
  proof -
    let ?x = "x\<lparr>items := ?xs[i := y]\<rparr>"
    let ?t = "(shm_put idx ?x (taken x st))\<lparr>sem_sets := (sem_sets st)(ix_semid x := Some [0])\<rparr>"
    have "set_item idx name (Some v) st = Inr (Returns 0 ?t)" using that(1) by (simp only: finish_put)
    moreover have "store_inv idx ?x ?t" "store_frame idx x st ?t" "ix_semid ?x = ix_semid x"
      using that(2) by (simp_all add: store_shape_def store_frame_def shm_put_def taken_def)
    moreover have "store_map (items ?x) = (store_map ?xs)(name \<mapsto> v)" using that(3) by simp
    ultimately show ?thesis by blast
  qed
  show ?thesis
  proof (cases "?n < length ?xs")
    case True
    let ?y = "(?xs ! ?n)\<lparr>item_value := strncpy v MAX_VALUE\<rparr>"
    have hit: "is_item name (?xs ! ?n)" using first_hit_nth [OF True] .
    then have y: "is_item n ?y = is_item n (?xs ! ?n)" for n by (simp add: is_item_def)
    have b: "length (item_name (?xs ! ?n)) = MAX_NAME" "NUL \<in> set (item_name (?xs ! ?n))"
      using ok True by (auto simp: items_ok_def)
    have u: "\<not> is_item n (?xs ! j)" if "is_item n (?xs ! ?n)" "j < MAX_ITEMS" "j \<noteq> ?n" for n j
      using ok that True l unfolding items_ok_def by metis
    show ?thesis
    proof (rule goal)
      show "set_item idx name (Some v) st = Inr (finish (ix_semid x) 0
          (shm_put idx (x\<lparr>items := ?xs[?n := ?y]\<rparr>) (taken x st)))"
        using run True by (simp add: set_item_def copy_in_def Let_def)
      show "items_ok (?xs[?n := ?y])"
        using True l b u by (intro items_ok_put [OF ok]) (simp_all add: y)
      show "store_map (?xs[?n := ?y]) = (store_map ?xs)(name \<mapsto> v)"
        using True hit v first_hit_before [of _ "is_item name" ?xs]
        by (intro store_map_put) (auto simp: y is_item_def)
    qed
  next
    case False
    let ?i = "first_hit (\<lambda>x. active x = 0) ?xs"
    let ?y = "\<lparr>active = 1, item_name = strncpy name MAX_NAME, item_value = strncpy v MAX_VALUE\<rparr>"
    have none: "\<forall>x \<in> set ?xs. \<not> is_item name x"
      using False first_hit_le [of "is_item name" ?xs] first_hit_none [of "is_item name" ?xs] by simp
    then have "store_map ?xs name = None" by (simp add: store_map_def find_None_iff)
    then have "\<exists>y \<in> set ?xs. active y = 0" using assms(4) by simp
    then have i: "?i < length ?xs"
      using first_hit_none [of "\<lambda>x. active x = 0" ?xs] first_hit_le [of "\<lambda>x. active x = 0" ?xs] by force
    have y: "is_item n ?y \<longleftrightarrow> n = name" for n using nm by (auto simp: is_item_def)
    have inact: "active (?xs ! ?i) = 0" using first_hit_nth [OF i] .
    have nn: "\<not> is_item name (?xs ! j)" if "j < MAX_ITEMS" for j using none that l by simp
    show ?thesis
    proof (rule goal)
      show "set_item idx name (Some v) st = Inr (finish (ix_semid x) 0
          (shm_put idx (x\<lparr>items := ?xs[?i := ?y]\<rparr>) (taken x st)))"
        using run False i l by (simp add: set_item_def copy_in_def Let_def find_free_hit)
      show "items_ok (?xs[?i := ?y])"
        using i l nm nn by (intro items_ok_put [OF ok]) (simp_all add: y)
      show "store_map (?xs[?i := ?y]) = (store_map ?xs)(name \<mapsto> v)"
        using i v inact nn l nm by (intro store_map_put) (auto simp: y is_item_def)
    qed
  qed
qed

text \<open>No process gets in while the semaphore is taken.\<close>

lemma store_blocked:
  assumes "store_shape idx x 1 st"
  shows "search_item idx n st = Inr Sleeps" "set_item idx n w st = Inr Sleeps" "delete_item idx n st = Inr Sleeps"
  using assms wait_turn_taken [of st "ix_semid x" 1]
  by (simp_all add: store_shape_def shm_get_def search_item_def set_item_def delete_item_def)

lemma set_item_full:
  assumes "store_inv idx x st" and "store_map (items x) name = None" and "\<forall>y \<in> set (items x). active y \<noteq> 0"
  shows "set_item idx name v st = Inr (Returns (- 1) (taken x st))" "store_shape idx x 1 (taken x st)"
proof -
  let ?xs = "items x"
  have ok: "items_ok ?xs" "length ?xs = MAX_ITEMS" using assms(1) by (auto simp: store_shape_def items_ok_def)
  have "\<forall>y \<in> set ?xs. \<not> is_item name y" using assms(2) by (simp add: store_map_def find_None_iff)
  then have "first_hit (is_item name) ?xs = length ?xs" using first_hit_none [of "is_item name" ?xs] by simp
  moreover have "first_hit (\<lambda>x. active x = 0) ?xs = length ?xs"
    using assms(3) first_hit_none [of "\<lambda>x. active x = 0" ?xs] by simp
  ultimately show "set_item idx name v st = Inr (Returns (- 1) (taken x st))"
    using store_enter [OF assms(1)] items_find [OF ok(1), of name] ok(2)
    by (simp add: set_item_def Let_def find_free_hit)
  show "store_shape idx x 1 (taken x st)" using assms(1) by (simp add: store_shape_def taken_def)
qed

lemma delete_item_ok:
  assumes "store_inv idx x st"
  shows "if store_map (items x) name = None
    then \<exists>st'. delete_item idx name st = Inr (Returns (- 1) st') \<and> store_inv idx x st' \<and> store_frame idx x st st'
    else \<exists>x' st'. delete_item idx name st = Inr (Returns 0 st') \<and> store_shape idx x' 1 st' \<and>
      store_map (items x') = (store_map (items x))(name := None)"
proof -
  let ?xs = "items x" and ?n = "first_hit (is_item name) (items x)"
  have ok: "items_ok ?xs" "length ?xs = MAX_ITEMS" and sem: "sem_sets st (ix_semid x) = Some [0]"
    and seg: "shm_segs st idx = Some x"
    using assms by (auto simp: store_shape_def items_ok_def)
  note run = store_enter [OF assms] items_find [OF ok(1), of name]
  have m: "store_map ?xs name = None \<longleftrightarrow> \<not> ?n < length ?xs"
    by (simp add: store_map_def first_hit_find)
  show ?thesis
  proof (cases "?n < length ?xs")
    case True
    let ?y = "(?xs ! ?n)\<lparr>active := 0\<rparr>" and ?st = "shm_put idx (x\<lparr>items := ?xs[?n := (?xs ! ?n)\<lparr>active := 0\<rparr>]\<rparr>) (taken x st)"
    have b: "length (item_name (?xs ! ?n)) = MAX_NAME" "NUL \<in> set (item_name (?xs ! ?n))"
      "length (item_value (?xs ! ?n)) = MAX_VALUE" using ok True by (auto simp: items_ok_def)
    have "items_ok (?xs[?n := ?y])"
      using True ok b by (intro items_ok_put) (auto simp: is_item_def)
    moreover have "store_map (?xs[?n := ?y]) = (store_map ?xs)(name := None)"
      using True ok(1) first_hit_nth [OF True] by (intro store_map_drop) auto
    moreover have "delete_item idx name st = Inr (Returns 0 ?st)"
      using run True by (simp add: delete_item_def)
    ultimately show ?thesis using m True
      by (auto simp: store_shape_def shm_put_def taken_def intro!: exI [of _ "x\<lparr>items := ?xs[?n := ?y]\<rparr>"] exI [of _ ?st])
  next
    case False
    have "delete_item idx name st = Inr (finish (ix_semid x) (- 1) (taken x st))"
      using run False by (simp add: delete_item_def)
    moreover have "finish (ix_semid x) (- 1 :: int) (taken x st) =
        Returns (- 1) ((taken x st)\<lparr>sem_sets := (sem_sets st)(ix_semid x := Some [0])\<rparr>)"
      by (subst finish_taken) (simp_all add: taken_def)
    ultimately show ?thesis using m False seg ok by (auto simp: store_shape_def taken_def store_frame_def)
  qed
qed

section \<open>Mutual exclusion\<close>

text \<open>
  Processes take and give back the semaphore \<open>i\<close>; \<open>crit\<close> are the ones between \<^verbatim>\<open>wait_turn\<close> and
  \<^verbatim>\<open>release_sem\<close>.
\<close>

inductive turn_step :: "int \<Rightarrow> 's sysv_sem_scheme \<times> nat set \<Rightarrow> 's sysv_sem_scheme \<times> nat set \<Rightarrow> bool" for i where
  enter: "p \<notin> crit \<Longrightarrow> wait_turn i st = Returns 0 st' \<Longrightarrow> turn_step i (st, crit) (st', insert p crit)"
| leave: "p \<in> crit \<Longrightarrow> release_sem i st = Returns 0 st' \<Longrightarrow> turn_step i (st, crit) (st', crit - {p})"

inductive_cases turn_stepE: "turn_step i (st, crit) (st', crit')"

definition turn_inv :: "int \<Rightarrow> 's sysv_sem_scheme \<times> nat set \<Rightarrow> bool" where
  "turn_inv i = (\<lambda>(st, crit). sem_sets st i = Some [0] \<and> crit = {} \<or> (\<exists>p. sem_sets st i = Some [1] \<and> crit = {p}))"

lemma turn_step_inv: "turn_step i c c' \<Longrightarrow> turn_inv i c \<Longrightarrow> turn_inv i c'"
proof (induction rule: turn_step.induct)
  case (enter p crit st st')
  then have "sem_sets st i = Some [0]" "crit = {}"
    using wait_turn_taken [of st i 1] by (auto simp: turn_inv_def)
  then show ?case using enter(2) wait_turn_free [of st i] by (auto simp: turn_inv_def)
next
  case (leave p crit st st')
  then have "sem_sets st i = Some [1]" "crit = {p}" by (auto simp: turn_inv_def)
  then show ?case using leave(2) release_taken [of st i] by (auto simp: turn_inv_def)
qed

lemma turn_steps_inv: "(turn_step i)\<^sup>*\<^sup>* c c' \<Longrightarrow> turn_inv i c \<Longrightarrow> turn_inv i c'"
  by (induction rule: rtranclp_induct) (auto intro: turn_step_inv)

section \<open>Properties\<close>

definition ex_ipc :: sysv_ipc where
  "ex_ipc = \<lparr>sem_sets = [5 \<mapsto> [0]], sem_keys = (\<lambda>_. None), sem_next = 6, sem_full = False, sem_initial = 0,
     shm_keys = [0x1234 \<mapsto> 9], shm_segs = [9 \<mapsto> \<lparr>ix_semid = 5, items = replicate MAX_ITEMS empty_item\<rparr>],
     shm_next = 10, shm_full = False, shm_denied = False, shm_no_attach = False\<rparr>"

abbreviation ex_index :: index where
  "ex_index \<equiv> \<lparr>ix_semid = 5, items = replicate MAX_ITEMS empty_item\<rparr>"

lemma ex_ipc_inv: "store_inv 9 ex_index ex_ipc"
  by (auto simp: store_shape_def ex_ipc_def items_ok_def empty_item_def is_item_def MAX_ITEMS_def MAX_NAME_def
      dest: in_set_replicate [THEN iffD1])

lemma ex_ipc_empty: "store_map (items ex_index) n = None" "\<exists>y \<in> set (items ex_index). active y = 0"
  by (auto simp: store_map_def find_None_iff is_item_def empty_item_def MAX_ITEMS_def)

text \<open>C11: in every sequence of calls by any processes, at most one is between \<^verbatim>\<open>wait_turn\<close> and
  \<^verbatim>\<open>release_sem\<close>, and a process can enter whenever none is.\<close>

theorem keystore_mutual_exclusion:
  assumes "sem_sets st i = Some [0]" and "(turn_step i)\<^sup>*\<^sup>* (st, {}) (st', crit)"
  shows "(\<forall>p q. p \<in> crit \<longrightarrow> q \<in> crit \<longrightarrow> p = q) \<and>
    (wait_turn i st' = (if crit = {} then Returns 0 (st'\<lparr>sem_sets := (sem_sets st')(i := Some [1])\<rparr>) else Sleeps))"
proof -
  have "turn_inv i (st', crit)" using turn_steps_inv [OF assms(2)] assms(1) by (simp add: turn_inv_def)
  then show ?thesis using wait_turn_free [of st' i] wait_turn_taken [of st' i 1] by (auto simp: turn_inv_def)
qed

theorem keystore_mutual_exclusion_witness:
  "wait_turn 5 (ex_ipc\<lparr>sem_sets := (sem_sets ex_ipc)(5 := Some [1])\<rparr>) = Sleeps"
proof -
  have s: "sem_sets ex_ipc 5 = Some [0]" by (simp add: ex_ipc_def)
  have "turn_step 5 (ex_ipc, {}) (ex_ipc\<lparr>sem_sets := (sem_sets ex_ipc)(5 := Some [1])\<rparr>, insert 1 {})"
    using wait_turn_free [OF s] by (intro turn_step.enter) simp_all
  then have "(turn_step 5)\<^sup>*\<^sup>* (ex_ipc, {}) (ex_ipc\<lparr>sem_sets := (sem_sets ex_ipc)(5 := Some [1])\<rparr>, insert 1 {})"
    by (rule r_into_rtranclp)
  from keystore_mutual_exclusion [OF s this] show ?thesis by simp
qed

text \<open>C12: \<^verbatim>\<open>search_item\<close> is the lookup of the map the store stands for, for every name, bound or not, and leaves the store
  as it was. \<^verbatim>\<open>set_item\<close> refines the update of this map: when the name is known or an item is free, the store
  binds the name to the value, keeps every other binding and gives the semaphore back, so that the searches that follow
  find the updated map.\<close>

theorem keystore_set_get:
  assumes "store_inv idx x st" and "fits name MAX_NAME" and "fits v MAX_VALUE"
    and "store_map (items x) name \<noteq> None \<or> (\<exists>y \<in> set (items x). active y = 0)"
  shows "(\<forall>n. \<exists>b st1. search_item idx n st = Inr (Returns b st1) \<and> map_option buf_text b = store_map (items x) n \<and>
      store_inv idx x st1 \<and> store_frame idx x st st1) \<and>
    (\<exists>x' st'. set_item idx name (Some v) st = Inr (Returns 0 st') \<and> store_inv idx x' st' \<and>
      store_frame idx x st st' \<and> store_map (items x') = (store_map (items x))(name \<mapsto> v) \<and>
      (\<forall>n. \<exists>b st2. search_item idx n st' = Inr (Returns b st2) \<and>
        map_option buf_text b = (if n = name then Some v else store_map (items x) n) \<and>
        store_inv idx x' st2 \<and> store_frame idx x' st' st2))"
proof (intro conjI allI)
  fix n show "\<exists>b st1. search_item idx n st = Inr (Returns b st1) \<and> map_option buf_text b = store_map (items x) n \<and>
      store_inv idx x st1 \<and> store_frame idx x st st1"
    using search_item_ok [OF assms(1), of n] by blast
next
  obtain x' st' where s: "set_item idx name (Some v) st = Inr (Returns 0 st')" "store_inv idx x' st'"
    "store_frame idx x st st'" "store_map (items x') = (store_map (items x))(name \<mapsto> v)"
    using set_item_put [OF assms] by blast
  have "\<exists>b st2. search_item idx n st' = Inr (Returns b st2) \<and>
      map_option buf_text b = (if n = name then Some v else store_map (items x) n) \<and>
      store_inv idx x' st2 \<and> store_frame idx x' st' st2" for n
    using search_item_ok [OF s(2), of n] unfolding s(4) fun_upd_apply by blast
  with s show "\<exists>x' st'. set_item idx name (Some v) st = Inr (Returns 0 st') \<and> store_inv idx x' st' \<and>
      store_frame idx x st st' \<and> store_map (items x') = (store_map (items x))(name \<mapsto> v) \<and>
      (\<forall>n. \<exists>b st2. search_item idx n st' = Inr (Returns b st2) \<and>
        map_option buf_text b = (if n = name then Some v else store_map (items x) n) \<and>
        store_inv idx x' st2 \<and> store_frame idx x' st' st2)"
    by blast
qed

theorem keystore_set_get_witness:
  "\<exists>(st' :: sysv_ipc) st1 b st2 st3. search_item 9 ''colour'' ex_ipc = Inr (Returns None st1) \<and>
    set_item 9 ''colour'' (Some ''red'') ex_ipc = Inr (Returns 0 st') \<and>
    search_item 9 ''colour'' st' = Inr (Returns (Some b) st2) \<and> buf_text b = ''red'' \<and>
    search_item 9 ''shape'' st' = Inr (Returns None st3)"
proof -
  have "fits ''colour'' MAX_NAME" "fits ''red'' MAX_VALUE" by (simp_all add: fits_def NUL_def MAX_NAME_def MAX_VALUE_def)
  note k = keystore_set_get [OF ex_ipc_inv this disjI2 [OF ex_ipc_empty(2)]]
  have "\<exists>st1. search_item 9 ''colour'' ex_ipc = Inr (Returns None st1)"
    using conjunct1 [OF k] ex_ipc_empty(1) by (metis option.map_disc_iff)
  moreover obtain st' where s: "set_item 9 ''colour'' (Some ''red'') ex_ipc = Inr (Returns 0 st')"
    and n: "\<And>n. \<exists>b st2. search_item 9 n st' = Inr (Returns b st2) \<and>
        map_option buf_text b = (if n = ''colour'' then Some ''red'' else store_map (items ex_index) n)"
    using conjunct2 [OF k] by blast
  moreover have "\<exists>b st2. search_item 9 ''colour'' st' = Inr (Returns (Some b) st2) \<and> buf_text b = ''red''"
    using n [of "''colour''"] by auto
  moreover have "\<exists>st3. search_item 9 ''shape'' st' = Inr (Returns None st3)"
    using n [of "''shape''"] ex_ipc_empty(1) by auto
  ultimately show ?thesis by blast
qed

text \<open>C40: \<^verbatim>\<open>delete_item\<close> removes the binding and keeps the semaphore: afterwards every operation of every
  process sleeps for ever; \<^verbatim>\<open>set_item\<close> keeps it too when the array is full.\<close>

theorem keystore_delete_blocks:
  assumes "store_inv idx x st"
  shows "(store_map (items x) name \<noteq> None \<longrightarrow> (\<exists>x' st'. delete_item idx name st = Inr (Returns 0 st') \<and>
      store_map (items x') = (store_map (items x))(name := None) \<and> shm_segs st' idx = Some x' \<and>
      (\<forall>n w. search_item idx n st' = Inr Sleeps \<and> set_item idx n w st' = Inr Sleeps \<and> delete_item idx n st' = Inr Sleeps))) \<and>
    (store_map (items x) name = None \<and> (\<forall>y \<in> set (items x). active y \<noteq> 0) \<longrightarrow>
      (\<exists>st'. set_item idx name v st = Inr (Returns (- 1) st') \<and>
        (\<forall>n w. search_item idx n st' = Inr Sleeps \<and> set_item idx n w st' = Inr Sleeps)))"
proof (intro conjI impI)
  assume "store_map (items x) name \<noteq> None"
  then obtain x' st' where "delete_item idx name st = Inr (Returns 0 st')" "store_shape idx x' 1 st'"
    "store_map (items x') = (store_map (items x))(name := None)"
    using delete_item_ok [OF assms(1), of name] by auto
  then show "\<exists>x' st'. delete_item idx name st = Inr (Returns 0 st') \<and>
      store_map (items x') = (store_map (items x))(name := None) \<and> shm_segs st' idx = Some x' \<and>
      (\<forall>n w. search_item idx n st' = Inr Sleeps \<and> set_item idx n w st' = Inr Sleeps \<and> delete_item idx n st' = Inr Sleeps)"
    using store_blocked [of idx x' st'] by (auto simp: store_shape_def)
next
  assume "store_map (items x) name = None \<and> (\<forall>y \<in> set (items x). active y \<noteq> 0)"
  then have "set_item idx name v st = Inr (Returns (- 1) (taken x st))" "store_shape idx x 1 (taken x st)"
    using set_item_full [OF assms] by blast+
  then show "\<exists>st'. set_item idx name v st = Inr (Returns (- 1) st') \<and>
      (\<forall>n w. search_item idx n st' = Inr Sleeps \<and> set_item idx n w st' = Inr Sleeps)"
    using store_blocked [of idx x "taken x st"] by auto
qed

theorem keystore_delete_blocks_witness:
  "\<exists>(x :: index) (st :: sysv_ipc) st'. store_map (items x) = [''k'' \<mapsto> ''v''] \<and> delete_item 9 ''k'' st = Inr (Returns 0 st') \<and>
    search_item 9 ''other'' st' = Inr Sleeps"
proof -
  have f: "fits ''k'' MAX_NAME" "fits ''v'' MAX_VALUE" by (simp_all add: fits_def NUL_def MAX_NAME_def MAX_VALUE_def)
  obtain x and st :: sysv_ipc where "store_inv 9 x st" "store_map (items x) = (store_map (items ex_index))(''k'' \<mapsto> ''v'')"
    using set_item_put [OF ex_ipc_inv f disjI2 [OF ex_ipc_empty(2)]] by (elim exE conjE) (rule that)
  moreover have e: "store_map (items ex_index) = Map.empty" using ex_ipc_empty(1) by blast
  ultimately have m: "store_map (items x) = [''k'' \<mapsto> ''v'']" and i: "store_inv 9 x st" by simp_all
  have "store_map (items x) ''k'' \<noteq> None" using m by simp
  with keystore_delete_blocks [OF i, of "''k''" None]
  obtain st' where "delete_item 9 ''k'' st = Inr (Returns 0 st')" "search_item 9 ''other'' st' = Inr Sleeps"
    by blast
  then show ?thesis using m
    by (intro exI [of _ x] exI [of _ st] exI [of _ st'] conjI)
qed

end
