(* ===== verification/Search_Tree.thy ===== *)
theory Search_Tree
  imports Callbacks "HOL-Library.Tree"
begin

text \<open>
  The binary search tree of \<^verbatim>\<open>30-thread-synchronization/exercises/30-2.c\<close>. Nodes live in the store
  \<open>bnodes\<close>, each with its parent, its mutex and the block that holds its copy of the key; the struct
  \<^verbatim>\<open>Tree\<close> is a record of its own. Locking a mutex the caller holds never returns (\<open>Deadlock\<close>).
\<close>

section \<open>Data\<close>

record bnode =
  bn_keyp :: ptr
  bn_key :: string
  bn_value :: ptr
  bn_parent :: ptr
  bn_left :: ptr
  bn_right :: ptr
  bn_locked :: bool

record bmem = cmem +
  bnodes :: "ptr \<Rightarrow> bnode option"

record btree =
  bt_count :: int
  bt_root :: ptr
  bt_locked :: bool

definition bn_get :: "ptr \<Rightarrow> 's bmem_scheme \<Rightarrow> bnode res" where
  "bn_get p s =
     (if p = NULL then Inl Null_Deref
      else case bnodes s p of None \<Rightarrow> Inl Bad_Access | Some n \<Rightarrow> Inr n)"

definition bn_upd :: "ptr \<Rightarrow> (bnode \<Rightarrow> bnode) \<Rightarrow> 's bmem_scheme \<Rightarrow> 's bmem_scheme res" where
  "bn_upd p f s = rbind (bn_get p s) (\<lambda>n. Inr (s\<lparr>bnodes := (bnodes s)(p := Some (f n))\<rparr>))"

definition bn_lock :: "ptr \<Rightarrow> 's bmem_scheme \<Rightarrow> 's bmem_scheme res" where
  "bn_lock p s =
     rbind (bn_get p s) (\<lambda>n.
       if bn_locked n then Inl Deadlock
       else Inr (s\<lparr>bnodes := (bnodes s)(p := Some (n\<lparr>bn_locked := True\<rparr>))\<rparr>))"

definition bn_unlock :: "ptr \<Rightarrow> 's bmem_scheme \<Rightarrow> 's bmem_scheme res" where
  "bn_unlock p s =
     rbind (bn_get p s) (\<lambda>n.
       if bn_locked n then Inr (s\<lparr>bnodes := (bnodes s)(p := Some (n\<lparr>bn_locked := False\<rparr>))\<rparr>)
       else Inl Bad_Unlock)"

definition bt_lock :: "btree \<Rightarrow> btree res" where
  "bt_lock t = (if bt_locked t then Inl Deadlock else Inr (t\<lparr>bt_locked := True\<rparr>))"

definition bt_unlock :: "btree \<Rightarrow> btree res" where
  "bt_unlock t = (if bt_locked t then Inr (t\<lparr>bt_locked := False\<rparr>) else Inl Bad_Unlock)"

section \<open>Nodes\<close>

text \<open>Destroying the mutex of a node that is still locked fails; the result is not looked at.\<close>

definition free_node :: "ptr \<Rightarrow> 's bmem_scheme \<Rightarrow> 's bmem_scheme res" where
  "free_node node s =
     rbind (bn_get node s) (\<lambda>n.
     rbind (c_free (bn_keyp n) s) (\<lambda>s1.
     rbind (c_free node s1) (\<lambda>s2. Inr (s2\<lparr>bnodes := (bnodes s2)(node := None)\<rparr>))))"

definition create_node :: "string option \<Rightarrow> ptr \<Rightarrow> 's bmem_scheme \<Rightarrow> (ptr \<times> 's bmem_scheme) res" where
  "create_node key val s =
     (case key of None \<Rightarrow> Inr (NULL, s)
      | Some k \<Rightarrow>
          if val = NULL then Inr (NULL, s)
          else let (node, s1) = c_alloc s in
            if node = NULL then Inr (NULL, s1)
            else let (keyp, s2) = c_alloc s1 in
              if keyp = NULL then rbind (c_free node s2) (\<lambda>s3. Inr (NULL, s3))
              else let (rc, s3) = c_mutex_init s2 in
                if rc \<noteq> 0 then rbind (c_free keyp s3) (\<lambda>s4. rbind (c_free node s4) (\<lambda>s5. Inr (NULL, s5)))
                else Inr (node, s3\<lparr>bnodes := (bnodes s3)(node := Some
                  \<lparr>bn_keyp = keyp, bn_key = k, bn_value = val, bn_parent = NULL, bn_left = NULL,
                   bn_right = NULL, bn_locked = False\<rparr>)\<rparr>))"

section \<open>Searching\<close>

text \<open>The loop state: the node, the value found, the store.\<close>

definition lookup_step :: "string \<Rightarrow> ptr \<times> ptr option \<times> 's bmem_scheme \<Rightarrow> (ptr \<times> ptr option \<times> 's bmem_scheme) res" where
  "lookup_step key = (\<lambda>(node, found, s).
     rbind (bn_lock node s) (\<lambda>s1.
     rbind (bn_get node s1) (\<lambda>n.
       let cmp = strcmp key (bn_key n) in
       if cmp < 0 then rbind (bn_unlock node s1) (\<lambda>s2. Inr (bn_left n, None, s2))
       else if cmp > 0 then rbind (bn_unlock node s1) (\<lambda>s2. Inr (bn_right n, None, s2))
       else rbind (bn_unlock node s1) (\<lambda>s2. Inr (node, Some (bn_value n), s2)))))"

definition lookup :: "btree \<Rightarrow> string \<Rightarrow> 's bmem_scheme \<Rightarrow> (ptr option \<times> 's bmem_scheme) res" where
  "lookup tree key s =
     rbind (cwhile (\<lambda>st. fst st \<noteq> NULL \<and> fst (snd st) = None) (lookup_step key) (bt_root tree, None, s))
       (\<lambda>(node, found, s1). Inr (found, s1))"

text \<open>
  In \<^verbatim>\<open>find_last\<close> the second test reads \<^verbatim>\<open>node > 0\<close>, not \<^verbatim>\<open>cmp > 0\<close>: an equal key goes on to the right.
  The loop state: the node, the node before, whether the last branch returned, the store.
\<close>

definition find_last_step ::
  "string \<Rightarrow> ptr \<times> ptr option \<times> bool \<times> 's bmem_scheme \<Rightarrow> (ptr \<times> ptr option \<times> bool \<times> 's bmem_scheme) res" where
  "find_last_step key = (\<lambda>(node, prev, done, s).
     rbind (bn_lock node s) (\<lambda>s1.
     rbind (bn_get node s1) (\<lambda>n.
       let cmp = strcmp key (bn_key n) in
       if cmp < 0 then rbind (bn_unlock node s1) (\<lambda>s2. Inr (bn_left n, Some node, False, s2))
       else if node > 0 then rbind (bn_unlock node s1) (\<lambda>s2. Inr (bn_right n, Some node, False, s2))
       else rbind (bn_unlock node s1) (\<lambda>s2. Inr (node, Some node, True, s2)))))"

definition find_last :: "btree \<Rightarrow> string \<Rightarrow> 's bmem_scheme \<Rightarrow> (ptr \<times> 's bmem_scheme) res" where
  "find_last tree key s =
     rbind (cwhile (\<lambda>st. fst st \<noteq> NULL \<and> \<not> fst (snd (snd st))) (find_last_step key) (bt_root tree, None, False, s))
       (\<lambda>(node, prev, done, s1). case prev of None \<Rightarrow> Inl Uninitialised | Some p \<Rightarrow> Inr (p, s1))"

section \<open>Adding\<close>

text \<open>The empty tree gets its root, but the count stays.\<close>

definition add_child ::
  "btree \<Rightarrow> string option \<Rightarrow> ptr \<Rightarrow> 's bmem_scheme \<Rightarrow> (ptr \<times> btree \<times> 's bmem_scheme) res" where
  "add_child tree key val s =
     rbind (create_node key val s) (\<lambda>(new, s1).
     if new = NULL then Inr (NULL, tree, s1)
     else rbind (bn_lock new s1) (\<lambda>s2.
       if bt_root tree = NULL
       then rbind (bt_lock tree) (\<lambda>t1.
            rbind (bt_unlock (t1\<lparr>bt_root := new\<rparr>)) (\<lambda>t2.
            rbind (bn_unlock new s2) (\<lambda>s3. Inr (bt_root t2, t2, s3))))
       else
         rbind (find_last tree (the key) s2) (\<lambda>(last', s3).
         rbind (bn_lock last' s3) (\<lambda>s4.
         rbind (bn_get last' s4) (\<lambda>n.
           let cmp = strcmp (the key) (bn_key n) in
           if cmp = 0
           then rbind (bn_unlock new s4) (\<lambda>s5.
                rbind (free_node new s5) (\<lambda>s6.
                rbind (bn_unlock last' s6) (\<lambda>s7. Inr (NULL, tree, s7))))
           else rbind (bn_upd last' (if cmp < 0 then bn_left_update (\<lambda>_. new) else bn_right_update (\<lambda>_. new)) s4) (\<lambda>s5.
                rbind (bn_unlock last' s5) (\<lambda>s6.
                rbind (bn_upd new (bn_parent_update (\<lambda>_. last')) s6) (\<lambda>s7.
                rbind (bt_lock tree) (\<lambda>t1.
                rbind (c_add (bt_count t1) 1) (\<lambda>c.
                rbind (bt_unlock (t1\<lparr>bt_count := c\<rparr>)) (\<lambda>t2.
                rbind (bn_unlock new s7) (\<lambda>s8. Inr (new, t2, s8)))))))))))))"

section \<open>Deleting\<close>

text \<open>The three parts of \<^verbatim>\<open>splice\<close>: the link to the node, the parent of its child, the count.\<close>

definition splice_link :: "btree \<Rightarrow> ptr \<Rightarrow> ptr \<Rightarrow> ptr \<Rightarrow> 's bmem_scheme \<Rightarrow> (btree \<times> 's bmem_scheme) res" where
  "splice_link tree node parent orphan s =
     (if node = bt_root tree
      then rbind (bt_lock tree) (\<lambda>t1. rbind (bt_unlock (t1\<lparr>bt_root := orphan\<rparr>)) (\<lambda>t2. Inr (t2, s)))
      else rbind (bn_lock parent s) (\<lambda>s1.
           rbind (bn_get parent s1) (\<lambda>p.
           rbind (bn_upd parent (if bn_left p = node then bn_left_update (\<lambda>_. orphan)
                                 else bn_right_update (\<lambda>_. orphan)) s1) (\<lambda>s2.
           rbind (bn_unlock parent s2) (\<lambda>s3. Inr (tree, s3))))))"

definition splice_orphan :: "ptr \<Rightarrow> ptr \<Rightarrow> 's bmem_scheme \<Rightarrow> 's bmem_scheme res" where
  "splice_orphan orphan parent s =
     (if orphan \<noteq> NULL
      then rbind (bn_lock orphan s) (\<lambda>s1.
           rbind (bn_upd orphan (bn_parent_update (\<lambda>_. parent)) s1) (\<lambda>s2. bn_unlock orphan s2))
      else Inr s)"

definition tree_shrink :: "btree \<Rightarrow> btree res" where
  "tree_shrink tree =
     rbind (bt_lock tree) (\<lambda>t1. rbind (c_add (bt_count t1) (- 1)) (\<lambda>c. bt_unlock (t1\<lparr>bt_count := c\<rparr>)))"

definition splice :: "btree \<Rightarrow> ptr \<Rightarrow> 's bmem_scheme \<Rightarrow> (btree \<times> 's bmem_scheme) res" where
  "splice tree node s =
     rbind (bn_get node s) (\<lambda>n.
       let orphan = (if bn_left n \<noteq> NULL then bn_left n else bn_right n) in
       rbind (splice_link tree node (bn_parent n) orphan s) (\<lambda>(t1, s1).
       rbind (splice_orphan orphan (bn_parent n) s1) (\<lambda>s2.
       rbind (bn_unlock node s2) (\<lambda>s3.
       rbind (free_node node s3) (\<lambda>s4.
       rbind (tree_shrink t1) (\<lambda>t2. Inr (t2, s4)))))))"

text \<open>The search that keeps the lock of the node it finds. The loop state: the node, found, the store.\<close>

definition delete_find_step :: "string \<Rightarrow> ptr \<times> bool \<times> 's bmem_scheme \<Rightarrow> (ptr \<times> bool \<times> 's bmem_scheme) res" where
  "delete_find_step key = (\<lambda>(node, found, s).
     rbind (bn_lock node s) (\<lambda>s1.
     rbind (bn_get node s1) (\<lambda>n.
       let cmp = strcmp key (bn_key n) in
       if cmp < 0 then rbind (bn_unlock node s1) (\<lambda>s2. Inr (bn_left n, False, s2))
       else if cmp > 0 then rbind (bn_unlock node s1) (\<lambda>s2. Inr (bn_right n, False, s2))
       else Inr (node, True, s1))))"

definition smallest_step :: "ptr \<times> 's bmem_scheme \<Rightarrow> (ptr \<times> 's bmem_scheme) res" where
  "smallest_step = (\<lambda>(p, s). rbind (bn_get p s) (\<lambda>n. Inr (bn_left n, s)))"

definition has_left :: "ptr \<times> 's bmem_scheme \<Rightarrow> bool" where
  "has_left = (\<lambda>(p, s). case bnodes s p of None \<Rightarrow> False | Some n \<Rightarrow> bn_left n \<noteq> NULL)"

definition delete_node :: "btree \<Rightarrow> string \<Rightarrow> 's bmem_scheme \<Rightarrow> (int \<times> btree \<times> 's bmem_scheme) res" where
  "delete_node tree key s =
     (if bt_root tree = NULL then Inr (- 1, tree, s)
      else rbind (cwhile (\<lambda>st. fst st \<noteq> NULL \<and> \<not> fst (snd st)) (delete_find_step key) (bt_root tree, False, s))
        (\<lambda>(node, found, s1).
        if node = NULL then Inr (- 1, tree, s1)
        else rbind (bn_get node s1) (\<lambda>n.
          if bn_left n = NULL \<or> bn_right n = NULL
          then rbind (splice tree node s1) (\<lambda>(t1, s2). Inr (0, t1, s2))
          else rbind (bn_get (bn_right n) s1) (\<lambda>_.
               rbind (cwhile has_left smallest_step (bn_right n, s1)) (\<lambda>(smallest, s2).
               rbind (bn_get (bn_parent n) s2) (\<lambda>p.
               rbind (bn_upd (bn_parent n) (if bn_left p = node then bn_left_update (\<lambda>_. smallest)
                                            else bn_right_update (\<lambda>_. smallest)) s2) (\<lambda>s3.
               rbind (bn_upd smallest (bn_parent_update (\<lambda>_. bn_parent n)) s3) (\<lambda>s4.
               rbind (free_node node s4) (\<lambda>s5. Inr (0, tree, s5)))))))))) "

definition initialize_tree :: btree where
  "initialize_tree = \<lparr>bt_count = 0, bt_root = NULL, bt_locked = False\<rparr>"

section \<open>The tree a root stands for\<close>

text \<open>An element: the node's address, the key's block, the key and the value.\<close>

type_synonym elem = "ptr \<times> ptr \<times> string \<times> ptr"

abbreviation en :: "elem \<Rightarrow> ptr" where "en e \<equiv> fst e"

abbreviation ekp :: "elem \<Rightarrow> ptr" where "ekp e \<equiv> fst (snd e)"

abbreviation ek :: "elem \<Rightarrow> string" where "ek e \<equiv> fst (snd (snd e))"

abbreviation ev :: "elem \<Rightarrow> ptr" where "ev e \<equiv> snd (snd (snd e))"

abbreviation nodes :: "elem tree \<Rightarrow> ptr set" where "nodes t \<equiv> en ` set_tree t"

definition holds :: "bnode \<Rightarrow> elem \<Rightarrow> ptr \<Rightarrow> bool" where
  "holds n e par \<longleftrightarrow> bn_keyp n = ekp e \<and> bn_key n = ek e \<and> bn_value n = ev e \<and> bn_parent n = par \<and> \<not> bn_locked n"

fun shape :: "'s bmem_scheme \<Rightarrow> ptr \<Rightarrow> ptr \<Rightarrow> elem tree \<Rightarrow> bool" where
  "shape s par p Leaf \<longleftrightarrow> p = NULL"
| "shape s par p (Node l e r) \<longleftrightarrow> p = en e \<and> p \<noteq> NULL \<and>
     (\<exists>n. bnodes s p = Some n \<and> holds n e par \<and> shape s p (bn_left n) l \<and> shape s p (bn_right n) r)"

definition below :: "string \<Rightarrow> string \<Rightarrow> bool" where
  "below a b \<longleftrightarrow> strcmp a b < 0"

definition ordered_tree :: "elem tree \<Rightarrow> bool" where
  "ordered_tree t \<longleftrightarrow> sorted_wrt below (map ek (inorder t))"

definition tree_map :: "elem tree \<Rightarrow> string \<Rightarrow> ptr option" where
  "tree_map t = map_of (map (\<lambda>e. (ek e, ev e)) (inorder t))"

definition blocks :: "elem tree \<Rightarrow> ptr list" where
  "blocks t = concat (map (\<lambda>e. [en e, ekp e]) (inorder t))"

definition bt_shape :: "btree \<Rightarrow> 's bmem_scheme \<Rightarrow> elem tree \<Rightarrow> bool" where
  "bt_shape T s t \<longleftrightarrow> shape s NULL (bt_root T) t \<and> \<not> bt_locked T \<and>
     distinct (blocks t) \<and> set (blocks t) \<subseteq> live s \<and> mem_ok s"

definition bt_inv :: "btree \<Rightarrow> 's bmem_scheme \<Rightarrow> elem tree \<Rightarrow> bool" where
  "bt_inv T s t \<longleftrightarrow> bt_shape T s t \<and> ordered_tree t"

section \<open>Order of the keys\<close>

lemma below_irrefl [simp]: "\<not> below a a"
  by (metis below_def less_irrefl strcmp_eq_0)

lemma below_cases: "strcmp a b < 0 \<longleftrightarrow> below a b" "0 < strcmp a b \<longleftrightarrow> below b a"
  using strcmp_anti [of a b] by (auto simp: below_def)

lemma below_trans: "below a b \<Longrightarrow> below b c \<Longrightarrow> below a c"
proof -
  assume ab: "below a b" and bc: "below b c"
  have "strcmp a c \<le> 0" using ab bc strcmp_le_trans [of a b c] by (simp add: below_def)
  moreover have "a \<noteq> c"
  proof
    assume "a = c"
    then show False using ab bc strcmp_anti [of a b] by (simp add: below_def)
  qed
  ultimately show ?thesis using strcmp_eq_0 [of a c] by (simp add: below_def order.strict_iff_order)
qed

lemma below_asym: "below a b \<Longrightarrow> \<not> below b a"
  using below_trans [of a b a] by auto

lemma below_total: "below a b \<or> a = b \<or> below b a"
  using below_cases [of a b] strcmp_eq_0 [of a b] by (metis linorder_neqE_linordered_idom)

lemma ordered_Node:
  "ordered_tree (Node l e r) \<longleftrightarrow> ordered_tree l \<and> ordered_tree r \<and>
    (\<forall>x \<in> set_tree l. below (ek x) (ek e)) \<and> (\<forall>x \<in> set_tree r. below (ek e) (ek x))"
proof -
  have "sorted_wrt below (A @ b # C) \<longleftrightarrow> sorted_wrt below A \<and> sorted_wrt below C \<and>
      (\<forall>a \<in> set A. below a b) \<and> (\<forall>c \<in> set C. below b c)" for A b C
    by (auto simp: sorted_wrt_append intro: below_trans)
  then show ?thesis by (simp add: ordered_tree_def)
qed

lemma ordered_Leaf [simp]: "ordered_tree Leaf"
  by (simp add: ordered_tree_def)

lemma blocks_Node: "blocks (Node l e r) = blocks l @ [en e, ekp e] @ blocks r"
  by (simp add: blocks_def)

lemma blocks_Leaf [simp]: "blocks Leaf = []"
  by (simp add: blocks_def)

lemma nodes_blocks: "nodes t \<subseteq> set (blocks t)"
  by (auto simp: blocks_def)

text \<open>The pointers of a tree with distinct blocks.\<close>

definition apart :: "elem tree \<Rightarrow> bool" where
  "apart t \<longleftrightarrow> distinct (map en (inorder t))"

lemma apart_Node:
  "apart (Node l e r) \<longleftrightarrow> apart l \<and> apart r \<and> en e \<notin> nodes l \<and> en e \<notin> nodes r \<and> nodes l \<inter> nodes r = {}"
  by (auto simp: apart_def)

lemma apart_blocks: "distinct (blocks t) \<Longrightarrow> apart t"
proof (induction t)
  case (Node l e r)
  then show ?case using nodes_blocks [of l] nodes_blocks [of r] by (auto simp: blocks_Node apart_Node)
qed (simp add: apart_def)

lemma shape_frame:
  "shape s par p t \<Longrightarrow> (\<And>q. q \<in> nodes t \<Longrightarrow> bnodes s' q = bnodes s q) \<Longrightarrow> shape s' par p t"
proof (induction t arbitrary: par p)
  case (Node l e r)
  then obtain n where n: "p = en e" "p \<noteq> NULL" "bnodes s p = Some n" "holds n e par"
    "shape s p (bn_left n) l" "shape s p (bn_right n) r" by auto
  moreover have "shape s' p (bn_left n) l"
    by (rule Node.IH(1) [OF n(5)], rule Node.prems(2)) (simp add: image_Un)
  moreover have "shape s' p (bn_right n) r"
    by (rule Node.IH(2) [OF n(6)], rule Node.prems(2)) (simp add: image_Un)
  moreover have "bnodes s' p = bnodes s p" using Node.prems(2) n(1) by simp
  ultimately show ?case by simp
qed simp

lemma shape_root: "shape s par p t \<Longrightarrow> p \<noteq> NULL \<Longrightarrow> p \<in> nodes t"
  by (cases t) auto

lemma shape_NULL: "shape s par NULL t \<longleftrightarrow> t = Leaf"
  by (cases t) auto

lemma shape_nodes_nz: "shape s par p t \<Longrightarrow> q \<in> nodes t \<Longrightarrow> q \<noteq> NULL \<and> (\<exists>n. bnodes s q = Some n \<and> \<not> bn_locked n)"
proof (induction t arbitrary: par p)
  case (Node l e r)
  then obtain n where n: "p = en e" "p \<noteq> NULL" "bnodes s p = Some n" "\<not> bn_locked n"
    "shape s p (bn_left n) l" "shape s p (bn_right n) r" by (auto simp: holds_def)
  have "q = p \<or> q \<in> nodes l \<or> q \<in> nodes r" using Node.prems(2) n(1) by auto
  then show ?case using n Node.IH(1) [OF n(5)] Node.IH(2) [OF n(6)] by blast
qed simp

section \<open>Looking up\<close>

lemma bn_get_ok [run_simps]: "p \<noteq> NULL \<Longrightarrow> bnodes s p = Some n \<Longrightarrow> bn_get p s = Inr n"
  by (simp add: bn_get_def)

definition with_node :: "'s bmem_scheme \<Rightarrow> ptr \<Rightarrow> bnode \<Rightarrow> 's bmem_scheme" where
  "with_node s p n = s\<lparr>bnodes := (bnodes s)(p := Some n)\<rparr>"

lemma with_node_simps [simp]:
  "bnodes (with_node s p n) = (bnodes s)(p := Some n)" "live (with_node s p n) = live s"
  "calls (with_node s p n) = calls s" "fails (with_node s p n) = fails s"
  "mem_ok (with_node s p n) = mem_ok s"
  by (simp_all add: with_node_def mem_ok_def)

lemma with_node_twice [simp]: "with_node (with_node s p n) p m = with_node s p m"
  by (simp add: with_node_def)

lemma with_node_same: "bnodes s p = Some n \<Longrightarrow> with_node s p n = s"
  by (simp add: with_node_def fun_upd_idem)

lemma bn_upd_ok: "p \<noteq> NULL \<Longrightarrow> bnodes s p = Some n \<Longrightarrow> bn_upd p f s = Inr (with_node s p (f n))"
  by (simp add: bn_upd_def bn_get_ok with_node_def)

lemma bn_lock_ok:
  "p \<noteq> NULL \<Longrightarrow> bnodes s p = Some n \<Longrightarrow> \<not> bn_locked n \<Longrightarrow> bn_lock p s = Inr (with_node s p (n\<lparr>bn_locked := True\<rparr>))"
  by (simp add: bn_lock_def bn_get_ok with_node_def)

lemma bn_unlock_ok:
  "p \<noteq> NULL \<Longrightarrow> bnodes s p = Some n \<Longrightarrow> bn_locked n \<Longrightarrow> bn_unlock p s = Inr (with_node s p (n\<lparr>bn_locked := False\<rparr>))"
  by (simp add: bn_unlock_def bn_get_ok with_node_def)

lemma unlock_id: "\<not> bn_locked n \<Longrightarrow> n\<lparr>bn_locked := False\<rparr> = n"
  by simp

lemma unlocked_update:
  "\<not> bn_locked n \<Longrightarrow> n\<lparr>bn_left := a, bn_locked := False\<rparr> = n\<lparr>bn_left := a\<rparr>"
  "\<not> bn_locked n \<Longrightarrow> n\<lparr>bn_right := a, bn_locked := False\<rparr> = n\<lparr>bn_right := a\<rparr>"
  "\<not> bn_locked n \<Longrightarrow> n\<lparr>bn_parent := a, bn_locked := False\<rparr> = n\<lparr>bn_parent := a\<rparr>"
  "n\<lparr>bn_locked := b, bn_parent := a\<rparr> = n\<lparr>bn_parent := a, bn_locked := b\<rparr>"
  by (cases n; simp)+

text \<open>A step of a walk locks and unlocks the node and leaves the store as it was.\<close>

lemma lookup_step_ok:
  assumes "p \<noteq> NULL" and "bnodes s p = Some n" and "\<not> bn_locked n"
  shows "lookup_step key (p, None, s) =
    Inr (if below key (bn_key n) then (bn_left n, None, s)
         else if below (bn_key n) key then (bn_right n, None, s) else (p, Some (bn_value n), s))"
  using assms
  by (simp add: lookup_step_def bn_lock_ok bn_get_ok bn_unlock_ok below_cases Let_def with_node_same)

lemma find_last_step_ok:
  assumes "p \<noteq> NULL" and "bnodes s p = Some n" and "\<not> bn_locked n"
  shows "find_last_step key (p, prev, False, s) =
    Inr (if below key (bn_key n) then bn_left n else bn_right n, Some p, False, s)"
  using assms
  by (simp add: find_last_step_def bn_lock_ok bn_get_ok bn_unlock_ok below_cases Let_def with_node_same)

lemma delete_find_step_ok:
  assumes "p \<noteq> NULL" and "bnodes s p = Some n" and "\<not> bn_locked n"
  shows "delete_find_step key (p, False, s) =
    Inr (if below key (bn_key n) then (bn_left n, False, s)
         else if below (bn_key n) key then (bn_right n, False, s)
         else (p, True, with_node s p (n\<lparr>bn_locked := True\<rparr>)))"
  using assms
  by (simp add: delete_find_step_def bn_lock_ok bn_get_ok bn_unlock_ok below_cases Let_def with_node_same)

fun search :: "string \<Rightarrow> elem tree \<Rightarrow> ptr option" where
  "search key Leaf = None"
| "search key (Node l e r) =
     (if below key (ek e) then search key l else if below (ek e) key then search key r else Some (ev e))"

lemma lookup_loop:
  "shape s par p t \<Longrightarrow> \<exists>q. cwhile (\<lambda>st. fst st \<noteq> NULL \<and> fst (snd st) = None) (lookup_step key) (p, None, s) =
    Inr (q, search key t, s)"
proof (induction t arbitrary: par p)
  case (Node l e r)
  then obtain n where n: "p \<noteq> NULL" "bnodes s p = Some n" "holds n e par" "shape s p (bn_left n) l" "shape s p (bn_right n) r"
    by auto
  then have st: "lookup_step key (p, None, s) =
    Inr (if below key (ek e) then (bn_left n, None, s)
         else if below (ek e) key then (bn_right n, None, s) else (p, Some (ev e), s))"
    using lookup_step_ok [of p s n key] by (auto simp: holds_def)
  show ?case using Node.IH(1) [OF n(4)] Node.IH(2) [OF n(5)] n(1) st by (simp add: cwhile_go)
qed simp

lemma search_tree_map: "ordered_tree t \<Longrightarrow> search key t = tree_map t key"
proof (induction t)
  case (Node l e r)
  have l: "\<forall>x \<in> set_tree l. below (ek x) (ek e)" and r: "\<forall>x \<in> set_tree r. below (ek e) (ek x)"
    using Node.prems by (auto simp: ordered_Node)
  have none: "tree_map u key = None" if "\<forall>x \<in> set_tree u. ek x \<noteq> key" for u
    using that by (auto simp: tree_map_def map_of_eq_None_iff)
  have app: "tree_map (Node l e r) key = (case tree_map l key of Some v \<Rightarrow> Some v
      | None \<Rightarrow> if ek e = key then Some (ev e) else tree_map r key)"
    by (simp add: tree_map_def map_add_def split: option.splits)
  consider "below key (ek e)" | "below (ek e) key" | "ek e = key" using below_total by blast
  then show ?case
  proof cases
    case 1
    then have "tree_map r key = None" using r below_trans below_asym by (intro none) blast
    then show ?thesis using 1 Node app by (auto simp: ordered_Node split: option.splits)
  next
    case 2
    then have "tree_map l key = None" using l below_trans below_asym by (intro none) blast
    then show ?thesis using 2 Node app below_asym by (auto simp: ordered_Node)
  next
    case 3
    then have "tree_map l key = None" using l by (intro none) auto
    then show ?thesis using 3 app by simp
  qed
qed (simp add: tree_map_def)

lemma lookup_ok: "bt_inv T s t \<Longrightarrow> lookup T key s = Inr (tree_map t key, s)"
  using lookup_loop [of s NULL "bt_root T" t key] search_tree_map [of t key]
  by (auto simp: lookup_def bt_inv_def bt_shape_def)

section \<open>Adding a node\<close>

fun ins :: "elem \<Rightarrow> elem tree \<Rightarrow> elem tree" where
  "ins x Leaf = Node Leaf x Leaf"
| "ins x (Node l e r) = (if below (ek x) (ek e) then Node (ins x l) e r else Node l e (ins x r))"

fun last_node :: "string \<Rightarrow> elem tree \<Rightarrow> ptr option" where
  "last_node key Leaf = None"
| "last_node key (Node l e r) =
     (let rest = last_node key (if below key (ek e) then l else r)
      in Some (case rest of None \<Rightarrow> en e | Some q \<Rightarrow> q))"

lemma last_node_None [simp]: "last_node key t = None \<longleftrightarrow> t = Leaf"
  by (cases t) (auto simp: Let_def)

lemma last_node_in: "last_node key t = Some q \<Longrightarrow> q \<in> nodes t"
proof (induction t arbitrary: q)
  case (Node l e r)
  then show ?case by (cases "below key (ek e)") (auto simp: Let_def split: option.splits)
qed simp

lemma find_last_loop:
  "shape s par p t \<Longrightarrow>
    cwhile (\<lambda>st. fst st \<noteq> NULL \<and> \<not> fst (snd (snd st))) (find_last_step key) (p, prev, False, s) =
    Inr (NULL, (case last_node key t of None \<Rightarrow> prev | Some q \<Rightarrow> Some q), False, s)"
proof (induction t arbitrary: par p prev)
  case (Node l e r)
  then obtain n where n: "p = en e" "p \<noteq> NULL" "bnodes s p = Some n" "holds n e par"
    "shape s p (bn_left n) l" "shape s p (bn_right n) r"
    by auto
  then have "find_last_step key (p, prev, False, s) =
    Inr (if below key (ek e) then bn_left n else bn_right n, Some p, False, s)"
    using find_last_step_ok [of p s n key prev] by (auto simp: holds_def)
  then show ?case using Node.IH(1) [OF n(5), of "Some p"] Node.IH(2) [OF n(6), of "Some p"] n(1,2)
    by (simp add: cwhile_go Let_def split: option.splits)
qed simp

lemma shape_ins:
  assumes "shape s par p t" and "apart t" and "last_node (ek x) t = Some q" and "en x \<notin> nodes t" and "en x \<noteq> NULL"
    and "bnodes s q = Some nq"
    and "bnodes s' q = Some (if below (ek x) (bn_key nq) then nq\<lparr>bn_left := en x\<rparr> else nq\<lparr>bn_right := en x\<rparr>)"
    and "bnodes s' (en x) = Some m" and "holds m x q" and "bn_left m = NULL" and "bn_right m = NULL"
    and "\<And>a. a \<in> nodes t \<Longrightarrow> a \<noteq> q \<Longrightarrow> bnodes s' a = bnodes s a"
  shows "shape s' par p (ins x t)"
  using assms(1-4,12)
proof (induction t arbitrary: par p)
  case (Node l e r)
  obtain n where n: "p = en e" "p \<noteq> NULL" "bnodes s p = Some n" "holds n e par"
    "shape s p (bn_left n) l" "shape s p (bn_right n) r"
    using Node.prems(1) by auto
  have ap: "apart l" "apart r" "p \<notin> nodes l" "p \<notin> nodes r" "nodes l \<inter> nodes r = {}"
    using Node.prems(2) n(1) by (auto simp: apart_Node)
  have ke: "bn_key n = ek e" using n(4) by (simp add: holds_def)
  have new: "shape s' q (en x) (Node Leaf x Leaf)" using assms(5,8-11) by simp
  have frame: "bnodes s' a = bnodes s a" if "a \<in> nodes l \<union> nodes r" "a \<noteq> q" for a
    using Node.prems(5) that by (auto simp: image_Un)
  have fr: "shape s' p c u" if "shape s p c u" "q \<notin> nodes u" "nodes u \<subseteq> nodes l \<union> nodes r" for c u
    using that frame by (intro shape_frame [OF that(1)]) blast
  show ?case
  proof (cases "below (ek x) (ek e)")
    case True
    show ?thesis
    proof (cases "l = Leaf")
      case True
      then have q: "q = p" using Node.prems(3) \<open>below _ _\<close> n(1) by simp
      then have "nq = n" using assms(6) n(3) by simp
      then have "bnodes s' p = Some (n\<lparr>bn_left := en x\<rparr>)" using assms(7) q ke \<open>below _ _\<close> by simp
      moreover have "shape s' p (bn_right n) r" using fr [OF n(6)] ap(4) q by simp
      ultimately show ?thesis using \<open>below _ _\<close> True n(1,2,4) new q by (simp add: holds_def)
    next
      case False
      then obtain q' where "last_node (ek x) l = Some q'" by (cases "last_node (ek x) l") auto
      then have lq: "last_node (ek x) l = Some q" using Node.prems(3) \<open>below _ _\<close> by simp
      then have ql: "q \<in> nodes l" by (rule last_node_in)
      have "p \<noteq> q" using ql ap(3) by blast
      then have "bnodes s' p = Some n" using Node.prems(5) [of p] n(1,3) by simp
      moreover have "shape s' p (bn_right n) r" using fr [OF n(6)] ql ap(5) by blast
      moreover have "shape s' p (bn_left n) (ins x l)"
        using Node.IH(1) [OF n(5) ap(1) lq] Node.prems(4,5) by (simp add: image_Un)
      ultimately show ?thesis using \<open>below _ _\<close> n(1,2,4) by simp
    qed
  next
    case nb: False
    show ?thesis
    proof (cases "r = Leaf")
      case True
      then have q: "q = p" using Node.prems(3) nb n(1) by simp
      then have "nq = n" using assms(6) n(3) by simp
      then have "bnodes s' p = Some (n\<lparr>bn_right := en x\<rparr>)" using assms(7) q ke nb by simp
      moreover have "shape s' p (bn_left n) l" using fr [OF n(5)] ap(3) q by simp
      ultimately show ?thesis using nb True n(1,2,4) new q by (simp add: holds_def)
    next
      case False
      then obtain q' where "last_node (ek x) r = Some q'" by (cases "last_node (ek x) r") auto
      then have lq: "last_node (ek x) r = Some q" using Node.prems(3) nb by simp
      then have qr: "q \<in> nodes r" by (rule last_node_in)
      have "p \<noteq> q" using qr ap(4) by blast
      then have "bnodes s' p = Some n" using Node.prems(5) [of p] n(1,3) by simp
      moreover have "shape s' p (bn_left n) l" using fr [OF n(5)] qr ap(5) by blast
      moreover have "shape s' p (bn_right n) (ins x r)"
        using Node.IH(2) [OF n(6) ap(2) lq] Node.prems(4,5) by (simp add: image_Un)
      ultimately show ?thesis using nb n(1,2,4) by simp
    qed
  qed
qed simp

lemma set_ins [simp]: "set_tree (ins x t) = insert x (set_tree t)"
  by (induction t) auto

lemma ordered_ins: "ordered_tree t \<Longrightarrow> \<forall>e \<in> set_tree t. ek e \<noteq> ek x \<Longrightarrow> ordered_tree (ins x t)"
proof (induction t)
  case (Node l e r)
  then show ?case using below_total [of "ek x" "ek e"] by (auto simp: ordered_Node)
qed (simp add: ordered_Node)

lemma search_ins:
  "\<forall>e \<in> set_tree t. ek e \<noteq> ek x \<Longrightarrow> search k (ins x t) = (if k = ek x then Some (ev x) else search k t)"
proof (induction t)
  case Leaf
  then show ?case using below_total [of k "ek x"] by auto
next
  case (Node l e r)
  then show ?case using below_total [of "ek x" "ek e"] below_asym by (auto split: if_splits)
qed

lemma blocks_ins: "mset (blocks (ins x t)) = {#en x, ekp x#} + mset (blocks t)"
  by (induction t) (auto simp: blocks_Node)

lemma tree_map_ins:
  assumes "ordered_tree t" and "\<forall>e \<in> set_tree t. ek e \<noteq> ek x"
  shows "tree_map (ins x t) = (tree_map t)(ek x \<mapsto> ev x)"
proof
  fix k
  show "tree_map (ins x t) k = ((tree_map t)(ek x \<mapsto> ev x)) k"
    using search_tree_map [OF assms(1), of k] search_tree_map [OF ordered_ins [OF assms], of k]
      search_ins [OF assms(2), of k] by (cases "k = ek x") simp_all
qed

lemma tree_map_None: "tree_map t k = None \<longleftrightarrow> (\<forall>e \<in> set_tree t. ek e \<noteq> k)"
  by (auto simp: tree_map_def map_of_eq_None_iff)

lemma shape_node:
  "shape s par p t \<Longrightarrow> e \<in> set_tree t \<Longrightarrow> \<exists>n a. bnodes s (en e) = Some n \<and> holds n e a \<and> en e \<noteq> NULL"
proof (induction t arbitrary: par p)
  case (Node l x r)
  then obtain n where n: "p = en x" "p \<noteq> NULL" "bnodes s p = Some n" "holds n x par"
    "shape s p (bn_left n) l" "shape s p (bn_right n) r" by auto
  have "e = x \<or> e \<in> set_tree l \<or> e \<in> set_tree r" using Node.prems(2) by auto
  then show ?case using n Node.IH(1) [OF n(5)] Node.IH(2) [OF n(6)] by blast
qed simp

text \<open>The new node and the state after \<^verbatim>\<open>create_node\<close>.\<close>

definition new_node :: "'s bmem_scheme \<Rightarrow> string \<Rightarrow> ptr \<Rightarrow> bnode" where
  "new_node s k v = \<lparr>bn_keyp = Suc (Suc (calls s)), bn_key = k, bn_value = v, bn_parent = NULL, bn_left = NULL,
     bn_right = NULL, bn_locked = False\<rparr>"

definition created :: "'s bmem_scheme \<Rightarrow> string \<Rightarrow> ptr \<Rightarrow> 's bmem_scheme" where
  "created s k v = s\<lparr>calls := Suc (Suc (Suc (calls s))),
     live := insert (Suc (Suc (calls s))) (insert (Suc (calls s)) (live s)),
     bnodes := (bnodes s)(Suc (calls s) := Some (new_node s k v))\<rparr>"

lemma create_node_ok:
  "ample s \<Longrightarrow> v \<noteq> NULL \<Longrightarrow> create_node (Some k) v s = Inr (Suc (calls s), created s k v)"
  by (simp add: create_node_def c_alloc_def c_mutex_init_def ample_def Let_def created_def new_node_def)

lemma created_simps [simp]:
  "bnodes (created s k v) = (bnodes s)(Suc (calls s) := Some (new_node s k v))"
  "live (created s k v) = insert (Suc (Suc (calls s))) (insert (Suc (calls s)) (live s))"
  "mem_ok s \<Longrightarrow> mem_ok (created s k v)"
  by (auto simp: created_def mem_ok_def)

lemma new_node_simps [simp]:
  "bn_left (new_node s k v) = NULL" "bn_right (new_node s k v) = NULL" "\<not> bn_locked (new_node s k v)"
  "bn_key (new_node s k v) = k"
  by (simp_all add: new_node_def)

text \<open>\<^verbatim>\<open>add_child\<close> links the new node wherever the walk ends, unless the last node has the same key.\<close>

lemma add_child_run:
  assumes "bt_shape T s t" and "ample s" and "v \<noteq> NULL"
    and "\<And>q n. last_node k t = Some q \<Longrightarrow> bnodes s q = Some n \<Longrightarrow> bn_key n \<noteq> k"
    and "INT_MIN \<le> bt_count T + 1" and "bt_count T + 1 \<le> INT_MAX"
  defines "x \<equiv> (Suc (calls s), Suc (Suc (calls s)), k, v)"
  shows "\<exists>T' s'. add_child T (Some k) v s = Inr (en x, T', s') \<and> bt_shape T' s' (ins x t) \<and>
    bt_count T' = bt_count T + (if t = Leaf then 0 else 1)"
proof -
  let ?new = "Suc (calls s)" and ?s1 = "created s k v"
  have sh: "shape s NULL (bt_root T) t" and unl: "\<not> bt_locked T"
    and dis: "distinct (blocks t)" and liv: "set (blocks t) \<subseteq> live s" and mem: "mem_ok s"
    using assms(1) by (auto simp: bt_shape_def)
  have fresh: "?new \<notin> live s" "Suc ?new \<notin> live s" using mem by (auto simp: mem_ok_def)
  have nx: "en x = ?new" "ekp x = Suc ?new" "ek x = k" "ev x = v" by (simp_all add: x_def)
  have newt: "?new \<notin> nodes t" using fresh(1) liv nodes_blocks [of t] by blast
  have res: "distinct (blocks (ins x t))" "set (blocks (ins x t)) \<subseteq> live ?s1"
  proof -
    have "mset (blocks (ins x t)) = mset (?new # Suc ?new # blocks t)" using blocks_ins [of x t] nx by simp
    then have "distinct (blocks (ins x t)) = distinct (?new # Suc ?new # blocks t)"
      "set (blocks (ins x t)) = set (?new # Suc ?new # blocks t)"
      by (metis mset_eq_imp_distinct_iff, metis mset_eq_setD)
    then show "distinct (blocks (ins x t))" "set (blocks (ins x t)) \<subseteq> live ?s1"
      using dis fresh liv by auto
  qed
  have inv: "bt_shape T' s' (ins x t)" if "shape s' NULL (bt_root T') (ins x t)" "\<not> bt_locked T'"
    "live s' = live ?s1" "mem_ok s' = mem_ok ?s1" for T' s'
    using that res mem by (simp add: bt_shape_def)
  let ?s2 = "with_node ?s1 ?new ((new_node s k v)\<lparr>bn_locked := True\<rparr>)"
  have l2: "bn_lock ?new ?s1 = Inr ?s2" by (simp add: bn_lock_ok)
  show ?thesis
  proof (cases t)
    case Leaf
    have ul: "bn_unlock ?new ?s2 = Inr ?s1"
      using bn_unlock_ok [of ?new ?s2 "(new_node s k v)\<lparr>bn_locked := True\<rparr>"] by (simp add: with_node_same)
    have rt: "bt_root T = NULL" using sh Leaf by simp
    then have "add_child T (Some k) v s = Inr (?new, T\<lparr>bt_root := ?new, bt_locked := False\<rparr>, ?s1)"
      using l2 ul unl create_node_ok [OF assms(2,3)]
      by (simp add: add_child_def bt_lock_def bt_unlock_def)
    moreover have "shape ?s1 NULL ?new (ins x t)"
      using Leaf nx by (simp add: holds_def new_node_def)
    ultimately show ?thesis using Leaf nx inv [of ?s1 "T\<lparr>bt_root := ?new, bt_locked := False\<rparr>"] by simp
  next
    case (Node l e r)
    have rt: "bt_root T \<noteq> NULL" using sh Node by simp
    obtain q where q: "last_node k t = Some q" using Node by (cases "last_node k t") auto
    then have qt: "q \<in> nodes t" by (rule last_node_in)
    then obtain y nq a where y: "y \<in> set_tree t" "q = en y" "bnodes s q = Some nq" "holds nq y a" "q \<noteq> NULL"
      using shape_node [OF sh] by blast
    have qn: "q \<noteq> ?new" using qt newt by blast
    have kq: "bn_key nq \<noteq> k" "\<not> bn_locked nq" using assms(4) [OF q y(3)] y(4) by (auto simp: holds_def)
    have nn: "a \<noteq> ?new" if "a \<in> nodes t" for a using that newt by blast
    have sh2: "shape ?s2 NULL (bt_root T) t" by (rule shape_frame [OF sh]) (use nn in simp)
    have fl: "find_last T k ?s2 = Inr (q, ?s2)"
      using find_last_loop [OF sh2, of k None] q by (simp add: find_last_def)
    let ?upd = "if below k (bn_key nq) then bn_left_update (\<lambda>_. ?new) else bn_right_update (\<lambda>_. ?new)"
    let ?s3 = "with_node ?s2 q (nq\<lparr>bn_locked := True\<rparr>)"
    let ?s4 = "with_node ?s2 q (?upd (nq\<lparr>bn_locked := True\<rparr>))"
    let ?s5 = "with_node ?s2 q (?upd nq)"
    let ?m = "(new_node s k v)\<lparr>bn_parent := q\<rparr>"
    let ?s6 = "with_node ?s5 ?new (?m\<lparr>bn_locked := True\<rparr>)"
    let ?s7 = "with_node ?s5 ?new ?m"
    have st: "bn_lock q ?s2 = Inr ?s3" "bn_get q ?s3 = Inr (nq\<lparr>bn_locked := True\<rparr>)" "bn_upd q ?upd ?s3 = Inr ?s4"
      "bn_unlock q ?s4 = Inr ?s5" "bn_upd ?new (bn_parent_update (\<lambda>_. q)) ?s5 = Inr ?s6"
      "bn_unlock ?new ?s6 = Inr ?s7"
      using y(3,5) kq(2) qn by (auto simp: bn_lock_ok bn_get_ok bn_upd_ok bn_unlock_ok unlocked_update)
    let ?T = "T\<lparr>bt_count := bt_count T + 1, bt_locked := False\<rparr>"
    have cmp: "strcmp k (bn_key nq) \<noteq> 0" using kq(1) by auto
    have "add_child T (Some k) v s = Inr (?new, ?T, ?s7)"
      using create_node_ok [OF assms(2,3), of k] l2 rt fl st cmp unl assms(5,6)
      by (simp add: add_child_def below_cases Let_def bt_lock_def bt_unlock_def c_add_ok)
    moreover have "shape ?s7 NULL (bt_root ?T) (ins x t)"
    proof -
      have "shape ?s7 NULL (bt_root T) (ins x t)"
      proof (rule shape_ins [OF sh apart_blocks [OF dis], of x q nq ?s7 ?m])
        show "bnodes ?s7 q = Some (if below (ek x) (bn_key nq) then nq\<lparr>bn_left := en x\<rparr> else nq\<lparr>bn_right := en x\<rparr>)"
          using qn nx by simp
        show "holds ?m x q" by (simp add: holds_def new_node_def x_def)
        show "bnodes ?s7 a = bnodes s a" if "a \<in> nodes t" "a \<noteq> q" for a
          using that(2) nn [OF that(1)] by simp
      qed (use q y(3) newt nx in auto)
      then show ?thesis by simp
    qed
    ultimately show ?thesis using inv [of ?s7 ?T] Node nx by simp
  qed
qed

lemma add_child_ok:
  assumes "bt_inv T s t" and "ample s" and "v \<noteq> NULL" and "tree_map t k = None"
    and "INT_MIN \<le> bt_count T + 1" and "bt_count T + 1 \<le> INT_MAX"
  shows "\<exists>p kp T' s'. add_child T (Some k) v s = Inr (p, T', s') \<and> p \<noteq> NULL \<and> bt_inv T' s' (ins (p, kp, k, v) t) \<and>
    tree_map (ins (p, kp, k, v) t) = (tree_map t)(k \<mapsto> v) \<and>
    bt_count T' = bt_count T + (if t = Leaf then 0 else 1)"
proof -
  have sh: "bt_shape T s t" and ord: "ordered_tree t" using assms(1) by (auto simp: bt_inv_def)
  have keys: "\<forall>e \<in> set_tree t. ek e \<noteq> k" using assms(4) by (simp add: tree_map_None)
  have ne: "bn_key n \<noteq> k" if q: "last_node k t = Some q" "bnodes s q = Some n" for q n
  proof -
    obtain e where e: "e \<in> set_tree t" "q = en e" using last_node_in [OF q(1)] by blast
    then obtain m a where "bnodes s q = Some m" "holds m e a"
      using sh shape_node [of s NULL "bt_root T" t e] by (auto simp: bt_shape_def)
    then show ?thesis using q(2) keys e by (auto simp: holds_def)
  qed
  have "\<exists>T' s'. add_child T (Some k) v s = Inr (en (Suc (calls s), Suc (Suc (calls s)), k, v), T', s') \<and>
      bt_shape T' s' (ins (Suc (calls s), Suc (Suc (calls s)), k, v) t) \<and>
      bt_count T' = bt_count T + (if t = Leaf then 0 else 1)"
    by (rule add_child_run [OF sh assms(2,3) _ assms(5,6)]) (rule ne)
  then obtain T' s' where r: "add_child T (Some k) v s = Inr (Suc (calls s), T', s')"
    "bt_shape T' s' (ins (Suc (calls s), Suc (Suc (calls s)), k, v) t)"
    "bt_count T' = bt_count T + (if t = Leaf then 0 else 1)" by auto
  moreover have "ordered_tree (ins (Suc (calls s), Suc (Suc (calls s)), k, v) t)"
    using ordered_ins [OF ord] keys by simp
  moreover have "tree_map (ins (Suc (calls s), Suc (Suc (calls s)), k, v) t) = (tree_map t)(k \<mapsto> v)"
    using tree_map_ins [OF ord, of "(Suc (calls s), Suc (Suc (calls s)), k, v)"] keys by simp
  ultimately show ?thesis by (auto simp: bt_inv_def)
qed

section \<open>Deleting a node\<close>

fun subtree :: "string \<Rightarrow> elem tree \<Rightarrow> elem tree" where
  "subtree key Leaf = Leaf"
| "subtree key (Node l e r) =
     (if below key (ek e) then subtree key l else if below (ek e) key then subtree key r else Node l e r)"

fun above :: "string \<Rightarrow> ptr \<Rightarrow> elem tree \<Rightarrow> ptr" where
  "above key par Leaf = par"
| "above key par (Node l e r) =
     (if below key (ek e) then above key (en e) l else if below (ek e) key then above key (en e) r else par)"

fun put :: "string \<Rightarrow> elem tree \<Rightarrow> elem tree \<Rightarrow> elem tree" where
  "put key u Leaf = Leaf"
| "put key u (Node l e r) =
     (if below key (ek e) then Node (put key u l) e r else if below (ek e) key then Node l e (put key u r) else u)"

lemma subtree_key: "subtree key t = Node l e r \<Longrightarrow> ek e = key"
  by (induction t) (use below_total in \<open>auto split: if_splits\<close>)

lemma subtree_sub: "set_tree (subtree key t) \<subseteq> set_tree t"
  by (induction t) auto

lemma delete_find_loop:
  assumes "shape s par p t"
  shows "cwhile (\<lambda>st. fst st \<noteq> NULL \<and> \<not> fst (snd st)) (delete_find_step key) (p, False, s) =
    (case subtree key t of Leaf \<Rightarrow> Inr (NULL, False, s)
     | Node l e r \<Rightarrow> Inr (en e, True, with_node s (en e) ((the (bnodes s (en e)))\<lparr>bn_locked := True\<rparr>)))"
  using assms
proof (induction t arbitrary: par p)
  case (Node l e r)
  then obtain n where n: "p = en e" "p \<noteq> NULL" "bnodes s p = Some n" "holds n e par"
    "shape s p (bn_left n) l" "shape s p (bn_right n) r"
    by auto
  then have "delete_find_step key (p, False, s) =
    Inr (if below key (ek e) then (bn_left n, False, s) else if below (ek e) key then (bn_right n, False, s)
         else (p, True, with_node s p (n\<lparr>bn_locked := True\<rparr>)))"
    using delete_find_step_ok [of p s n key] by (auto simp: holds_def)
  then show ?case using Node.IH(1) [OF n(5)] Node.IH(2) [OF n(6)] n(1-3) by (simp add: cwhile_go)
qed simp

text \<open>The node found: its own parent, and the subtrees below it.\<close>

lemma shape_subtree:
  "shape s par p t \<Longrightarrow> subtree key t = Node l e r \<Longrightarrow>
    \<exists>n. bnodes s (en e) = Some n \<and> holds n e (above key par t) \<and> en e \<noteq> NULL \<and>
      shape s (en e) (bn_left n) l \<and> shape s (en e) (bn_right n) r"
proof (induction t arbitrary: par p)
  case (Node l' e' r')
  then obtain n where n: "p = en e'" "p \<noteq> NULL" "bnodes s p = Some n" "holds n e' par"
    "shape s p (bn_left n) l'" "shape s p (bn_right n) r'"
    by auto
  then show ?case using Node.prems(2) Node.IH(1) [OF n(5)] Node.IH(2) [OF n(6)] by (auto split: if_splits)
qed simp

lemma above_in: "subtree key t \<noteq> Leaf \<Longrightarrow> above key par t = par \<and> subtree key t = t \<or> above key par t \<in> nodes t"
proof (induction t arbitrary: par)
  case (Node l e r)
  have IH: "above key (en e) u = en e \<or> above key (en e) u \<in> nodes u" if "u = l \<or> u = r" "subtree key u \<noteq> Leaf" for u
    using Node.IH that by blast
  show ?case
    using Node.prems IH [of l] IH [of r] by (auto simp: image_Un split: if_splits)
qed simp

lemma shape_put:
  assumes "shape s par p t" and "apart t" and "subtree key t = Node l e r" and "t \<noteq> Node l e r"
    and "bnodes s (above key par t) = Some np"
    and "bnodes s' (above key par t) = Some (if bn_left np = en e then np\<lparr>bn_left := p'\<rparr> else np\<lparr>bn_right := p'\<rparr>)"
    and "shape s' (above key par t) p' u"
    and "\<And>q. q \<in> nodes t \<Longrightarrow> q \<notin> nodes (Node l e r) \<Longrightarrow> q \<noteq> above key par t \<Longrightarrow> bnodes s' q = bnodes s q"
  shows "shape s' par p (put key u t)"
  using assms
proof (induction t arbitrary: par p)
  case (Node l0 x r0)
  obtain n where n: "p = en x" "p \<noteq> NULL" "bnodes s p = Some n" "holds n x par"
    "shape s p (bn_left n) l0" "shape s p (bn_right n) r0"
    using Node.prems(1) by auto
  have ap: "apart l0" "apart r0" "p \<notin> nodes l0" "p \<notin> nodes r0" "nodes l0 \<inter> nodes r0 = {}"
    using Node.prems(2) n(1) by (auto simp: apart_Node)
  have frame: "bnodes s' q = bnodes s q"
    if "q \<in> insert p (nodes l0 \<union> nodes r0)" "q \<notin> nodes (Node l e r)" "q \<noteq> above key par (Node l0 x r0)" for q
    using Node.prems(8) that n(1) by (auto simp: image_Un)
  have side: "shape s' p c v"
    if "shape s p c v" "nodes v \<subseteq> nodes l0 \<union> nodes r0" "nodes v \<inter> nodes (Node l e r) = {}"
      "above key par (Node l0 x r0) \<notin> nodes v" for c v
  proof (rule shape_frame [OF that(1)])
    fix q assume q: "q \<in> nodes v"
    then have "q \<in> insert p (nodes l0 \<union> nodes r0)" "q \<notin> nodes (Node l e r)" using that(2,3) by blast+
    moreover have "q \<noteq> above key par (Node l0 x r0)" using that(4) q by blast
    ultimately show "bnodes s' q = bnodes s q" by (rule frame)
  qed
  have sideR: "shape s' p (bn_right n) r0"
    if "nodes (Node l e r) \<subseteq> nodes l0" "above key par (Node l0 x r0) \<notin> nodes r0"
    by (rule side [OF n(6)]) (use that ap(5) in blast)+
  have sideL: "shape s' p (bn_left n) l0"
    if "nodes (Node l e r) \<subseteq> nodes r0" "above key par (Node l0 x r0) \<notin> nodes l0"
    by (rule side [OF n(5)]) (use that ap(5) in blast)+
  consider (left) "below key (ek x)" | (right) "below (ek x) key"
    using Node.prems(3,4) below_total [of key "ek x"] by auto
  then show ?case
  proof cases
    case left
    then have sub: "subtree key l0 = Node l e r" and ab: "above key par (Node l0 x r0) = above key p l0"
      using Node.prems(3) n(1) by simp_all
    have nl: "nodes (Node l e r) \<subseteq> nodes l0" using subtree_sub [of key l0] sub by auto
    show ?thesis
    proof (cases "l0 = Node l e r")
      case True
      then have a: "above key p l0 = p" using subtree_key [OF sub] by simp
      have "bn_left n = en e" using n(5) True by simp
      then have "bnodes s' p = Some (n\<lparr>bn_left := p'\<rparr>)"
        using Node.prems(5,6) ab a n(3) by simp
      moreover have "shape s' p (bn_right n) r0" using sideR [OF nl] ap(4) ab a by metis
      moreover have "put key u l0 = u" using True subtree_key [OF sub] by simp
      ultimately show ?thesis using left n(1,2,4) Node.prems(7) ab a by (simp add: holds_def)
    next
      case False
      have a: "above key p l0 \<in> nodes l0" using above_in [of key l0 p] sub False by auto
      have "p \<notin> nodes (Node l e r)" using nl ap(3) by blast
      moreover have "p \<noteq> above key par (Node l0 x r0)" using a ab ap(3) by metis
      ultimately have "bnodes s' p = Some n" using frame [OF insertI1] n(3) by metis
      moreover have "shape s' p (bn_right n) r0" using sideR [OF nl] ap(5) ab a by (metis disjoint_iff)
      moreover have "shape s' p (bn_left n) (put key u l0)"
        using Node.IH(1) [OF n(5) ap(1) sub False] Node.prems(5-7) frame ab a by (simp add: image_Un)
      ultimately show ?thesis using left n(1,2,4) by simp
    qed
  next
    case right
    then have nb: "\<not> below key (ek x)" using below_asym by blast
    then have sub: "subtree key r0 = Node l e r" and ab: "above key par (Node l0 x r0) = above key p r0"
      using Node.prems(3) n(1) right by simp_all
    have nl: "nodes (Node l e r) \<subseteq> nodes r0" using subtree_sub [of key r0] sub by auto
    show ?thesis
    proof (cases "r0 = Node l e r")
      case True
      then have a: "above key p r0 = p" using subtree_key [OF sub] by simp
      have "bn_left n \<noteq> en e"
        using n(5) nl ap(5) shape_root [OF n(5)] True n(6) by auto
      then have "bnodes s' p = Some (n\<lparr>bn_right := p'\<rparr>)"
        using Node.prems(5,6) ab a n(3) by simp
      moreover have "shape s' p (bn_left n) l0" using sideL [OF nl] ap(3) ab a by metis
      moreover have "put key u r0 = u" using True subtree_key [OF sub] by simp
      ultimately show ?thesis using right nb n(1,2,4) Node.prems(7) ab a by (simp add: holds_def)
    next
      case False
      have a: "above key p r0 \<in> nodes r0" using above_in [of key r0 p] sub False by auto
      have "p \<notin> nodes (Node l e r)" using nl ap(4) by blast
      moreover have "p \<noteq> above key par (Node l0 x r0)" using a ab ap(4) by metis
      ultimately have "bnodes s' p = Some n" using frame [OF insertI1] n(3) by metis
      moreover have "shape s' p (bn_left n) l0" using sideL [OF nl] ap(5) ab a by (metis disjoint_iff)
      moreover have "shape s' p (bn_right n) (put key u r0)"
        using Node.IH(2) [OF n(6) ap(2) sub False] Node.prems(5-7) frame ab a by (simp add: image_Un)
      ultimately show ?thesis using right nb n(1,2,4) by simp
    qed
  qed
qed simp

lemma above_not_in:
  "apart t \<Longrightarrow> subtree key t = Node l e r \<Longrightarrow> t \<noteq> Node l e r \<Longrightarrow>
    above key par t \<in> nodes t \<and> above key par t \<notin> nodes (Node l e r)"
proof (induction t arbitrary: par)
  case (Node l0 x r0)
  have ap: "apart l0" "apart r0" "en x \<notin> nodes l0" "en x \<notin> nodes r0"
    using Node.prems(1) by (auto simp: apart_Node)
  have main: "above key (en x) v \<in> insert (en x) (nodes v) \<and> above key (en x) v \<notin> nodes (Node l e r)"
    if v: "subtree key v = Node l e r" "v = l0 \<or> v = r0" for v
  proof (cases "v = Node l e r")
    case True
    then have "above key (en x) v = en x" using subtree_key [OF v(1)] by simp
    moreover have "en x \<notin> nodes v" using v(2) ap by blast
    ultimately show ?thesis using True by simp
  next
    case False
    then show ?thesis using Node.IH v ap by blast
  qed
  have "nodes l0 \<union> nodes r0 \<subseteq> nodes (Node l0 x r0)" "en x \<in> nodes (Node l0 x r0)" by (auto simp: image_Un)
  moreover consider "below key (ek x)" "subtree key l0 = Node l e r" |
    "\<not> below key (ek x)" "below (ek x) key" "subtree key r0 = Node l e r"
    using Node.prems(2,3) by (auto split: if_splits)
  ultimately show ?case using main [of l0] main [of r0] by cases auto
qed simp

lemma inorder_put:
  "subtree key t = Node l e r \<Longrightarrow>
    \<exists>xs ys. inorder t = xs @ inorder l @ e # inorder r @ ys \<and> (\<forall>u. inorder (put key u t) = xs @ inorder u @ ys)"
proof (induction t)
  case (Node l0 x r0)
  consider "below key (ek x)" "subtree key l0 = Node l e r" |
    "\<not> below key (ek x)" "below (ek x) key" "subtree key r0 = Node l e r" |
    "\<not> below key (ek x)" "\<not> below (ek x) key" "Node l0 x r0 = Node l e r"
    using Node.prems by (auto split: if_splits)
  then show ?case
  proof cases
    case 1
    then obtain xs ys where "inorder l0 = xs @ inorder l @ e # inorder r @ ys" "\<forall>u. inorder (put key u l0) = xs @ inorder u @ ys"
      using Node.IH(1) by blast
    then show ?thesis using 1 by (intro exI [of _ xs] exI [of _ "ys @ x # inorder r0"]) simp
  next
    case 2
    then obtain xs ys where "inorder r0 = xs @ inorder l @ e # inorder r @ ys" "\<forall>u. inorder (put key u r0) = xs @ inorder u @ ys"
      using Node.IH(2) by blast
    then show ?thesis using 2 by (intro exI [of _ "inorder l0 @ x # xs"] exI [of _ ys]) simp
  next
    case 3
    then show ?thesis by (intro exI [of _ "[]"]) simp
  qed
qed simp

lemma shape_reparent:
  assumes "shape s par p u" and "apart u" and "p \<noteq> NULL" and "bnodes s p = Some n"
    and "bnodes s' p = Some (n\<lparr>bn_parent := par'\<rparr>)" and "\<And>q. q \<in> nodes u \<Longrightarrow> q \<noteq> p \<Longrightarrow> bnodes s' q = bnodes s q"
  shows "shape s' par' p u"
proof (cases u)
  case (Node l x r)
  then have n: "p = en x" "holds n x par" "shape s p (bn_left n) l" "shape s p (bn_right n) r"
    using assms(1,4) by auto
  have ap: "p \<notin> nodes l" "p \<notin> nodes r" using assms(2) Node n(1) by (auto simp: apart_Node)
  have sub: "nodes l \<union> nodes r \<subseteq> nodes u" using Node by (auto simp: image_Un)
  have "shape s' p (bn_left n) l" by (rule shape_frame [OF n(3)]) (use assms(6) sub ap in blast)
  moreover have "shape s' p (bn_right n) r" by (rule shape_frame [OF n(4)]) (use assms(6) sub ap in blast)
  ultimately show ?thesis using Node n(1,2) assms(3,5) by (simp add: holds_def)
qed (use assms in simp)

text \<open>The blocks that stay when a node and perhaps others go.\<close>

lemma bt_shape_smaller:
  assumes "bt_shape T s t" and "shape s' NULL (bt_root T') t'" and "\<not> bt_locked T'"
    and "mset (blocks t') \<subseteq># mset (blocks t)" and "live s' = live s - {a, b}" and "a \<notin> set (blocks t')"
    and "b \<notin> set (blocks t')" and "calls s' = calls s"
  shows "bt_shape T' s' t'"
proof -
  obtain xs where "mset (blocks t) = mset (blocks t' @ xs)"
    using assms(4) by (metis ex_mset mset_append subset_mset.add_diff_inverse)
  then have "distinct (blocks t' @ xs)"
    using assms(1) mset_eq_imp_distinct_iff [of "blocks t" "blocks t' @ xs"] by (simp add: bt_shape_def)
  then have "distinct (blocks t')" by simp
  moreover have "set (blocks t') \<subseteq> set (blocks t)" using assms(4) by (metis set_mset_mono set_mset_mset)
  ultimately show ?thesis using assms by (auto simp: bt_shape_def mem_ok_def)
qed

lemma blocks_inorder: "inorder t = xs @ zs @ ys \<Longrightarrow>
  mset (blocks t) = mset (concat (map (\<lambda>e. [en e, ekp e]) xs)) + mset (concat (map (\<lambda>e. [en e, ekp e]) zs)) +
    mset (concat (map (\<lambda>e. [en e, ekp e]) ys))"
  by (simp add: blocks_def)

lemma sorted_wrt_cut:
  "sorted_wrt R (xs @ as @ e # bs @ ys) \<Longrightarrow> sorted_wrt R (xs @ filter Q (as @ bs) @ ys)"
  by (auto simp: sorted_wrt_append sorted_wrt_filter)

text \<open>Cutting a node out: the elements that stay keep their order and their blocks.\<close>

lemma put_cut:
  assumes "subtree key t = Node l e r" and "inorder u = filter Q (inorder l @ inorder r)"
  shows "mset (blocks (put key u t)) + {#en e, ekp e#} \<subseteq># mset (blocks t)"
    and "ordered_tree t \<Longrightarrow> ordered_tree (put key u t)"
    and "distinct (blocks t) \<Longrightarrow> en e \<notin> set (blocks (put key u t)) \<and> ekp e \<notin> set (blocks (put key u t))"
proof -
  obtain xs ys where d: "inorder t = xs @ inorder l @ e # inorder r @ ys" "inorder (put key u t) = xs @ inorder u @ ys"
    using inorder_put [OF assms(1)] by blast
  let ?b = "\<lambda>zs. concat (map (\<lambda>e. [en e, ekp e]) zs)"
  have part: "mset (?b zs) = mset (?b (filter Q zs)) + mset (?b (filter (\<lambda>z. \<not> Q z) zs))" for zs
    by (induction zs) auto
  have "mset (?b (filter Q zs)) \<subseteq># mset (?b zs)" for zs
    unfolding part [of zs] by (rule mset_subset_eq_add_left)
  from this [of "inorder l @ inorder r"]
  have f: "mset (?b (inorder u)) \<subseteq># mset (?b (inorder l)) + mset (?b (inorder r))" using assms(2) by simp
  show m: "mset (blocks (put key u t)) + {#en e, ekp e#} \<subseteq># mset (blocks t)"
    using subset_mset.add_mono [OF f subset_mset.order_refl, of "mset (?b xs) + mset (?b ys) + {#en e, ekp e#}"] d
    by (simp add: blocks_def ac_simps)
  show "ordered_tree (put key u t)" if "ordered_tree t"
  proof -
    have "sorted_wrt (\<lambda>a b. below (ek a) (ek b)) (xs @ filter Q (inorder l @ inorder r) @ ys)"
      using that d(1) unfolding ordered_tree_def sorted_wrt_map by (intro sorted_wrt_cut) simp
    then show ?thesis unfolding ordered_tree_def sorted_wrt_map d(2) assms(2) .
  qed
  show "en e \<notin> set (blocks (put key u t)) \<and> ekp e \<notin> set (blocks (put key u t))" if "distinct (blocks t)"
  proof -
    obtain zs where "mset (blocks t) = mset ((blocks (put key u t) @ [en e, ekp e]) @ zs)"
      using m by (metis (no_types, lifting) ex_mset mset.simps(1,2) mset_append subset_mset.add_diff_inverse
          add_mset_add_single union_assoc)
    then have "distinct ((blocks (put key u t) @ [en e, ekp e]) @ zs)"
      using that mset_eq_imp_distinct_iff by blast
    then show ?thesis by auto
  qed
qed

lemma tree_map_put:
  assumes "ordered_tree t" and "subtree key t = Node l e r" and "inorder u = inorder l @ inorder r"
  shows "tree_map (put key u t) = (tree_map t)(key := None)"
proof
  fix k
  obtain xs ys where d: "inorder t = xs @ inorder l @ e # inorder r @ ys" "inorder (put key u t) = xs @ inorder u @ ys"
    using inorder_put [OF assms(2)] by blast
  have ke: "ek e = key" using subtree_key [OF assms(2)] .
  have s: "sorted_wrt below (map ek (xs @ inorder l @ e # inorder r @ ys))" using assms(1) d(1) by (simp add: ordered_tree_def)
  then have "\<forall>a \<in> set (map ek (xs @ inorder l)). below a key" "\<forall>a \<in> set (map ek (inorder r @ ys)). below key a"
    using ke by (auto simp: sorted_wrt_append)
  then have ne: "ek z \<noteq> key" if "z \<in> set (xs @ inorder l @ inorder r @ ys)" for z
    using that by (metis Un_iff below_irrefl image_eqI list.set_map set_append)
  let ?m = "\<lambda>zs. map_of (map (\<lambda>e. (ek e, ev e)) zs)"
  have n: "?m zs key = None" if "set zs \<subseteq> set (xs @ inorder l @ inorder r @ ys)" for zs
    using that ne by (force simp: map_of_eq_None_iff)
  show "tree_map (put key u t) k = ((tree_map t)(key := None)) k"
  proof (cases "k = key")
    case True
    have "?m (xs @ (inorder l @ inorder r) @ ys) key = None" by (rule n) simp
    then show ?thesis using True d(2) assms(3) by (simp add: tree_map_def)
  next
    case False
    then show ?thesis using d assms(3) ke by (auto simp: tree_map_def map_add_def split: option.splits)
  qed
qed

text \<open>The blocks of one element.\<close>

lemma element_blocks:
  assumes "bt_shape T s t" and "e \<in> set_tree t"
  shows "en e \<in> live s" "ekp e \<in> live s" "ekp e \<noteq> NULL" "en e \<noteq> ekp e"
proof -
  obtain xs ys where "inorder t = xs @ e # ys" using assms(2) by (metis set_inorder split_list)
  then have b: "blocks t = blocks t \<and> (\<exists>us vs. blocks t = us @ en e # ekp e # vs)" by (auto simp: blocks_def)
  then show "en e \<noteq> ekp e" using assms(1) by (auto simp: bt_shape_def)
  have "en e \<in> set (blocks t)" "ekp e \<in> set (blocks t)" using b by auto
  then show "en e \<in> live s" "ekp e \<in> live s" using assms(1) by (auto simp: bt_shape_def)
  then show "ekp e \<noteq> NULL" using assms(1) mem_ok_nz [of s "ekp e"] by (auto simp: bt_shape_def)
qed

lemma free_node_ok:
  assumes "q \<noteq> NULL" and "bnodes s q = Some n" and "q \<in> live s" and "bn_keyp n \<in> live s"
    and "bn_keyp n \<noteq> NULL" and "q \<noteq> bn_keyp n"
  shows "free_node q s = Inr (s\<lparr>live := live s - {bn_keyp n, q}, bnodes := (bnodes s)(q := None)\<rparr>)"
proof -
  have "live s - {bn_keyp n} - {q} = live s - {bn_keyp n, q}" by blast
  then show ?thesis using assms by (simp add: free_node_def bn_get_ok c_free_def)
qed

lemma subtree_root: "shape s par p t \<Longrightarrow> apart t \<Longrightarrow> subtree key t = Node l e r \<Longrightarrow> t \<noteq> Node l e r \<Longrightarrow> en e \<noteq> p"
proof (cases t)
  case (Node l0 x r0)
  assume a: "shape s par p t" "apart t" "subtree key t = Node l e r" "t \<noteq> Node l e r"
  have "e \<in> set_tree l0 \<or> e \<in> set_tree r0"
    using a(3,4) Node subtree_sub [of key l0] subtree_sub [of key r0] by (auto split: if_splits)
  then have "en e \<in> nodes l0 \<or> en e \<in> nodes r0" by blast
  moreover have "p = en x" "en x \<notin> nodes l0" "en x \<notin> nodes r0" using a(1,2) Node by (auto simp: apart_Node simp del: image_eqI)
  ultimately show ?thesis by metis
qed simp

lemma apart_subtree: "apart t \<Longrightarrow> subtree key t = Node l e r \<Longrightarrow> apart (Node l e r)"
proof -
  assume ap: "apart t" and st: "subtree key t = Node l e r"
  obtain xs ys where "inorder t = xs @ inorder (Node l e r) @ ys" using inorder_put [OF st] by auto
  then have "distinct (map en (inorder (Node l e r)))" using ap by (simp only: apart_def map_append distinct_append)
  then show ?thesis by (simp only: apart_def)
qed

lemma put_whole: "t = Node l e r \<Longrightarrow> ek e = key \<Longrightarrow> put key u t = u"
  by simp

text \<open>The first part of \<^verbatim>\<open>splice\<close>: the link from above.\<close>

lemma splice_ok:
  assumes "bt_shape T s t" and "subtree key t = Node l e r" and "l = Leaf \<or> r = Leaf"
    and "INT_MIN < bt_count T" and "bt_count T \<le> INT_MAX" and "bnodes s (en e) = Some nq"
  defines "u \<equiv> (if l = Leaf then r else l)"
  shows "\<exists>T' s'. splice T (en e) (with_node s (en e) (nq\<lparr>bn_locked := True\<rparr>)) = Inr (T', s') \<and>
    bt_shape T' s' (put key u t) \<and> bt_count T' = bt_count T - 1 \<and> live s' = live s - {en e, ekp e}"
proof -
  let ?q = "en e" and ?P = "above key NULL t"
  let ?s1 = "with_node s ?q (nq\<lparr>bn_locked := True\<rparr>)"
  have sh: "shape s NULL (bt_root T) t" and unl: "\<not> bt_locked T" and ap: "apart t" and dis: "distinct (blocks t)"
    using assms(1) apart_blocks [of t] by (auto simp: bt_shape_def)
  have nq: "holds nq e ?P" "?q \<noteq> NULL" "shape s ?q (bn_left nq) l" "shape s ?q (bn_right nq) r"
    using shape_subtree [OF sh assms(2)] assms(6) by auto
  have et: "e \<in> set_tree t" "nodes (Node l e r) \<subseteq> nodes t" using subtree_sub [of key t] assms(2) by auto
  have ap': "apart (Node l e r)" by (rule apart_subtree [OF ap assms(2)])
  define o' where "o' = (if bn_left nq \<noteq> NULL then bn_left nq else bn_right nq)"
  have u: "shape s ?q o' u" "nodes u \<subseteq> nodes (Node l e r)" "?q \<notin> nodes u" "apart u"
    using nq(3,4) assms(3) ap' shape_NULL [of s ?q l] by (auto simp: u_def o'_def apart_Node apart_def shape_NULL)
  have uo: "o' = NULL \<longleftrightarrow> u = Leaf" using u(1) shape_NULL by (cases u) auto
  define T2 where "T2 = (if ?q = bt_root T then T\<lparr>bt_root := o', bt_locked := False\<rparr> else T)"
  define np where "np = the (bnodes s ?P)"
  define np' where "np' = (if bn_left np = ?q then np\<lparr>bn_left := o'\<rparr> else np\<lparr>bn_right := o'\<rparr>)"
  define s3 where "s3 = (if ?q = bt_root T then ?s1 else with_node ?s1 ?P np')"
  have root: "?q = bt_root T \<longleftrightarrow> t = Node l e r"
    using subtree_root [OF sh ap assms(2)] sh by auto
  have P: "?P \<in> nodes t" "?P \<notin> nodes (Node l e r)" "?P \<noteq> NULL" "bnodes s ?P = Some np" "\<not> bn_locked np" if "?q \<noteq> bt_root T"
    using above_not_in [OF ap assms(2)] root that shape_nodes_nz [OF sh, of ?P] by (auto simp: np_def)
  have link: "splice_link T ?q ?P o' ?s1 = Inr (T2, s3)"
  proof (cases "?q = bt_root T")
    case True
    then show ?thesis using unl by (simp add: splice_link_def bt_lock_def bt_unlock_def T2_def s3_def)
  next
    case False
    have "?P \<noteq> ?q" using P(2) [OF False] by auto
    then show ?thesis using False P [OF False]
      by (auto simp: splice_link_def T2_def s3_def np'_def bn_lock_ok bn_get_ok bn_upd_ok bn_unlock_ok unlocked_update)
  qed
  define no where "no = the (bnodes s o')"
  have no: "bnodes s3 o' = Some no" "bnodes s o' = Some no" "\<not> bn_locked no" "o' \<noteq> ?q" if "o' \<noteq> NULL"
  proof -
    have on: "o' \<in> nodes u" using shape_root [OF u(1) that] .
    then show n: "bnodes s o' = Some no" "\<not> bn_locked no" using shape_nodes_nz [OF u(1) on] by (auto simp: no_def)
    show oq: "o' \<noteq> ?q" using on u(3) by blast
    have "?q \<noteq> bt_root T \<Longrightarrow> o' \<noteq> ?P" using P(2) on u(2) by blast
    then show "bnodes s3 o' = Some no" using n oq by (simp add: s3_def)
  qed
  define s6 where "s6 = (if o' \<noteq> NULL then with_node s3 o' (no\<lparr>bn_parent := ?P\<rparr>) else s3)"
  have orph: "splice_orphan o' ?P s3 = Inr s6"
    using no by (auto simp: splice_orphan_def s6_def bn_lock_ok bn_upd_ok bn_unlock_ok unlocked_update)
  have q3: "bnodes s3 ?q = Some (nq\<lparr>bn_locked := True\<rparr>)"
    using P(2) by (auto simp: s3_def)
  have q6: "bnodes s6 ?q = Some (nq\<lparr>bn_locked := True\<rparr>)" using q3 no(4) by (auto simp: s6_def)
  have nu: "\<not> bn_locked nq" using nq(1) by (simp add: holds_def)
  let ?s7 = "with_node s6 ?q nq"
  have ul: "bn_unlock ?q s6 = Inr ?s7" using q6 nq(2) nu by (simp add: bn_unlock_ok unlock_id)
  note eb = element_blocks [OF assms(1) et(1)]
  have kp: "bn_keyp nq = ekp e" using nq(1) by (simp add: holds_def)
  have lv: "live s6 = live s" "calls s6 = calls s" by (simp_all add: s6_def s3_def)
  let ?s8 = "?s7\<lparr>live := live s - {ekp e, ?q}, bnodes := (bnodes ?s7)(?q := None)\<rparr>"
  have fr: "free_node ?q ?s7 = Inr ?s8"
    using free_node_ok [of ?q ?s7 nq] nq(2) eb kp lv by simp
  define T4 where "T4 = T2\<lparr>bt_count := bt_count T - 1, bt_locked := False\<rparr>"
  have t2: "bt_count T2 = bt_count T" "\<not> bt_locked T2" using unl by (simp_all add: T2_def)
  have pq: "bn_parent (nq\<lparr>bn_locked := True\<rparr>) = ?P" using nq(1) by (simp add: holds_def)
  have sk: "tree_shrink T2 = Inr T4"
    using t2 assms(4,5) by (simp add: tree_shrink_def bt_lock_def bt_unlock_def c_add_ok T4_def)
  have g: "bn_get ?q ?s1 = Inr (nq\<lparr>bn_locked := True\<rparr>)" using nq(2) by (simp add: bn_get_ok)
  have o'': "(if bn_left (nq\<lparr>bn_locked := True\<rparr>) \<noteq> NULL then bn_left (nq\<lparr>bn_locked := True\<rparr>)
      else bn_right (nq\<lparr>bn_locked := True\<rparr>)) = o'"
    by (simp add: o'_def)
  have run: "splice T ?q ?s1 = Inr (T4, ?s8)"
    unfolding splice_def g rbind_Inr Let_def o'' pq link prod.case orph ul fr sk ..
  have bs8: "bnodes ?s8 a = bnodes s a" if "a \<noteq> ?q" "a \<noteq> o' \<or> o' = NULL" "a \<noteq> ?P \<or> ?q = bt_root T" for a
    using that by (auto simp: s6_def s3_def)
  have su: "shape ?s8 ?P o' u"
  proof (cases "o' = NULL")
    case True
    then show ?thesis using uo by simp
  next
    case False
    show ?thesis
    proof (rule shape_reparent [OF u(1) u(4) False no(2) [OF False]])
      show "bnodes ?s8 o' = Some (no\<lparr>bn_parent := ?P\<rparr>)" using False no(4) by (simp add: s6_def)
      fix a assume a: "a \<in> nodes u" "a \<noteq> o'"
      then have "a \<noteq> ?q" "a \<noteq> ?P \<or> ?q = bt_root T" using u(2,3) P(2) by blast+
      then show "bnodes ?s8 a = bnodes s a" using a(2) by (intro bs8) auto
    qed
  qed
  have "shape ?s8 NULL (bt_root T4) (put key u t)"
  proof (cases "?q = bt_root T")
    case True
    then have "t = Node l e r" using root by simp
    then have "put key u t = u" "?P = NULL" using subtree_key [OF assms(2)] by simp_all
    then show ?thesis using su True by (simp add: T4_def T2_def)
  next
    case False
    have ne: "t \<noteq> Node l e r" using False root by simp
    have "shape ?s8 NULL (bt_root T) (put key u t)"
    proof (rule shape_put [OF sh ap assms(2) ne P(4) [OF False]])
      have "?P \<noteq> ?q" "?P \<noteq> o' \<or> o' = NULL"
        using P(2) [OF False] u(2) shape_root [OF u(1)] by auto
      then show "bnodes ?s8 ?P = Some (if bn_left np = ?q then np\<lparr>bn_left := o'\<rparr> else np\<lparr>bn_right := o'\<rparr>)"
        using False P(3) [OF False] by (auto simp: s6_def s3_def np'_def)
      show "shape ?s8 ?P o' u" by (rule su)
      fix a assume a: "a \<in> nodes t" "a \<notin> nodes (Node l e r)" "a \<noteq> ?P"
      then have "a \<noteq> ?q" "a \<noteq> o' \<or> o' = NULL" using u(2) shape_root [OF u(1)] by auto
      then show "bnodes ?s8 a = bnodes s a" using a(3) by (intro bs8) auto
    qed
    then show ?thesis using False by (simp add: T4_def T2_def)
  qed
  moreover have "inorder u = filter (\<lambda>_. True) (inorder l @ inorder r)" using assms(3) by (auto simp: u_def)
  note cut = put_cut [OF assms(2) this]
  ultimately have "bt_shape T4 ?s8 (put key u t)"
  proof (intro bt_shape_smaller [OF assms(1), of ?s8 T4 _ "ekp e" ?q])
    show "mset (blocks (put key u t)) \<subseteq># mset (blocks t)"
      using cut(1) by (meson mset_subset_eq_add_left subset_mset.order_trans)
  qed (use cut(3) [OF dis] lv in \<open>auto simp: T4_def\<close>)
  moreover have "live ?s8 = live s - {?q, ekp e}" by auto
  moreover have "bt_count T4 = bt_count T - 1" by (simp add: T4_def)
  ultimately show ?thesis using run by blast
qed

lemma subtree_None: "ordered_tree t \<Longrightarrow> subtree key t = Leaf \<longleftrightarrow> tree_map t key = None"
proof -
  have "subtree key t = Leaf \<longleftrightarrow> search key t = None" by (induction t) auto
  then show "ordered_tree t \<Longrightarrow> subtree key t = Leaf \<longleftrightarrow> tree_map t key = None" using search_tree_map by simp
qed

lemma delete_missing:
  assumes "bt_inv T s t" and "tree_map t key = None"
  shows "delete_node T key s = Inr (- 1, T, s)"
proof -
  have sh: "shape s NULL (bt_root T) t" using assms(1) by (simp add: bt_inv_def bt_shape_def)
  have "subtree key t = Leaf" using subtree_None assms by (auto simp: bt_inv_def)
  then show ?thesis using delete_find_loop [OF sh, of key] by (simp add: delete_node_def)
qed

text \<open>The start of a deletion that finds its node.\<close>

lemma delete_found:
  assumes "bt_shape T s t" and "subtree key t = Node l e r"
  obtains n where "bnodes s (en e) = Some n" "en e \<noteq> NULL" "bt_root T \<noteq> NULL" "holds n e (above key NULL t)"
    "shape s (en e) (bn_left n) l" "shape s (en e) (bn_right n) r"
    "cwhile (\<lambda>st. fst st \<noteq> NULL \<and> \<not> fst (snd st)) (delete_find_step key) (bt_root T, False, s) =
      Inr (en e, True, with_node s (en e) (n\<lparr>bn_locked := True\<rparr>))"
proof -
  have sh: "shape s NULL (bt_root T) t" using assms(1) by (simp add: bt_shape_def)
  then obtain n where n: "bnodes s (en e) = Some n" "holds n e (above key NULL t)" "en e \<noteq> NULL"
    "shape s (en e) (bn_left n) l" "shape s (en e) (bn_right n) r"
    using shape_subtree [OF sh assms(2)] by blast
  have "bt_root T \<noteq> NULL"
  proof
    assume "bt_root T = NULL"
    then have "t = Leaf" using sh by (simp add: shape_NULL)
    then show False using assms(2) by simp
  qed
  then show ?thesis using that n delete_find_loop [OF sh, of key] assms(2) by simp
qed

lemma delete_splice_ok:
  assumes "bt_inv T s t" and "subtree key t = Node l e r" and "l = Leaf \<or> r = Leaf"
    and "INT_MIN < bt_count T" and "bt_count T \<le> INT_MAX"
  shows "\<exists>T' s' t'. delete_node T key s = Inr (0, T', s') \<and> bt_inv T' s' t' \<and>
    tree_map t' = (tree_map t)(key := None) \<and> bt_count T' = bt_count T - 1 \<and>
    live s' = live s - {en e, ekp e}"
proof -
  have sh: "bt_shape T s t" and ord: "ordered_tree t" using assms(1) by (auto simp: bt_inv_def)
  obtain n where n: "bnodes s (en e) = Some n" "en e \<noteq> NULL" "bt_root T \<noteq> NULL" "holds n e (above key NULL t)"
    "shape s (en e) (bn_left n) l" "shape s (en e) (bn_right n) r"
    and run: "cwhile (\<lambda>st. fst st \<noteq> NULL \<and> \<not> fst (snd st)) (delete_find_step key) (bt_root T, False, s) =
      Inr (en e, True, with_node s (en e) (n\<lparr>bn_locked := True\<rparr>))"
    by (rule delete_found [OF sh assms(2)])
  define u where "u = (if l = Leaf then r else l)"
  obtain T' s' where sp: "splice T (en e) (with_node s (en e) (n\<lparr>bn_locked := True\<rparr>)) = Inr (T', s')"
    "bt_shape T' s' (put key u t)" "bt_count T' = bt_count T - 1" "live s' = live s - {en e, ekp e}"
    using splice_ok [OF sh assms(2-5) n(1), folded u_def] by (elim exE conjE) (rule that)
  have "bn_left n = NULL \<or> bn_right n = NULL" using n(5,6) assms(3) by (auto simp: shape_NULL)
  then have "delete_node T key s = Inr (0, T', s')"
    using n(2,3) run sp(1) by (simp add: delete_node_def bn_get_ok)
  moreover have iu: "inorder u = inorder l @ inorder r" using assms(3) by (auto simp: u_def)
  then have "inorder u = filter (\<lambda>_. True) (inorder l @ inorder r)" by simp
  then have "ordered_tree (put key u t)" using put_cut(2) [OF assms(2)] ord by blast
  moreover have "tree_map (put key u t) = (tree_map t)(key := None)" by (rule tree_map_put [OF ord assms(2) iu])
  ultimately show ?thesis using sp(2-4) unfolding bt_inv_def by blast
qed

fun leftmost :: "elem tree \<Rightarrow> elem tree" where
  "leftmost Leaf = Leaf"
| "leftmost (Node l e r) = (if l = Leaf then Node l e r else leftmost l)"

lemma leftmost_inorder: "t \<noteq> Leaf \<Longrightarrow> \<exists>m rr rest. leftmost t = Node Leaf m rr \<and> inorder t = m # inorder rr @ rest"
proof (induction t)
  case (Node l e r)
  show ?case
  proof (cases "l = Leaf")
    case True
    then show ?thesis by (intro exI [of _ e] exI [of _ r] exI [of _ "[]"]) simp
  next
    case False
    then obtain m rr rest where "leftmost l = Node Leaf m rr" "inorder l = m # inorder rr @ rest"
      using Node.IH(1) by metis
    then show ?thesis using False by (intro exI [of _ m] exI [of _ rr] exI [of _ "rest @ e # inorder r"]) simp
  qed
qed simp

lemma leftmost_shape: "shape s par p t \<Longrightarrow> t \<noteq> Leaf \<Longrightarrow> leftmost t = Node Leaf m rr \<Longrightarrow>
  \<exists>par' n. bnodes s (en m) = Some n \<and> shape s par' (en m) (Node Leaf m rr)"
proof (induction t arbitrary: par p)
  case (Node l e r)
  then obtain n where n: "p = en e" "bnodes s p = Some n" "shape s p (bn_left n) l" by auto
  show ?case
  proof (cases "l = Leaf")
    case True
    then have "m = e" "rr = r" using Node.prems(3) by auto
    then show ?thesis using Node.prems(1) n(1,2) True by auto
  next
    case False
    then show ?thesis using Node.IH(1) [OF n(3) False] Node.prems(3) by simp
  qed
qed simp

lemma smallest_loop: "shape s par p t \<Longrightarrow> t \<noteq> Leaf \<Longrightarrow> leftmost t = Node Leaf m rr \<Longrightarrow>
  cwhile has_left smallest_step (p, s) = Inr (en m, s)"
proof (induction t arbitrary: par p)
  case (Node l e r)
  then obtain n where n: "p = en e" "p \<noteq> NULL" "bnodes s p = Some n" "shape s p (bn_left n) l" by auto
  show ?case
  proof (cases "l = Leaf")
    case True
    then have "bn_left n = NULL" "m = e" using n(4) Node.prems(3) by (auto simp: shape_NULL)
    then show ?thesis using n by (simp add: has_left_def)
  next
    case False
    then have "bn_left n \<noteq> NULL" using n(4) shape_NULL by metis
    then show ?thesis using n False Node.IH(1) [OF n(4) False] Node.prems(3)
      by (simp add: cwhile_go has_left_def smallest_step_def bn_get_ok)
  qed
qed simp

text \<open>With two children: the root is not expected, and elsewhere the left subtree is lost.\<close>

definition move_smallest :: "ptr \<Rightarrow> ptr \<Rightarrow> ptr \<Rightarrow> 's bmem_scheme \<Rightarrow> 's bmem_scheme res" where
  "move_smallest node parent smallest s =
     rbind (bn_get parent s) (\<lambda>p.
     rbind (bn_upd parent (if bn_left p = node then bn_left_update (\<lambda>_. smallest)
                           else bn_right_update (\<lambda>_. smallest)) s) (\<lambda>s1.
     rbind (bn_upd smallest (bn_parent_update (\<lambda>_. parent)) s1) (\<lambda>s2. free_node node s2)))"

lemma delete_two_run:
  assumes "bt_shape T s t" and "subtree key t = Node l e r" and "l \<noteq> Leaf" and "r \<noteq> Leaf"
    and "leftmost r = Node Leaf m rr" and "bnodes s (en e) = Some n"
  shows "delete_node T key s =
    rbind (move_smallest (en e) (above key NULL t) (en m) (with_node s (en e) (n\<lparr>bn_locked := True\<rparr>)))
      (\<lambda>s'. Inr (0, T, s'))"
proof -
  let ?s1 = "with_node s (en e) (n\<lparr>bn_locked := True\<rparr>)"
  obtain n' where n': "bnodes s (en e) = Some n'" "en e \<noteq> NULL" "bt_root T \<noteq> NULL" "holds n' e (above key NULL t)"
    "shape s (en e) (bn_left n') l" "shape s (en e) (bn_right n') r"
    and run': "cwhile (\<lambda>st. fst st \<noteq> NULL \<and> \<not> fst (snd st)) (delete_find_step key) (bt_root T, False, s) =
      Inr (en e, True, with_node s (en e) (n'\<lparr>bn_locked := True\<rparr>))"
    by (rule delete_found [OF assms(1,2)])
  have nn: "n' = n" using n'(1) assms(6) by simp
  note n = n' [unfolded nn] and run = run' [unfolded nn]
  have "distinct (blocks t)" using assms(1) by (simp add: bt_shape_def)
  then have "apart t" by (rule apart_blocks)
  then have ap: "en e \<notin> nodes r" using apart_subtree [OF _ assms(2)] by (simp add: apart_Node)
  have "shape ?s1 (en e) (bn_right n) r" by (rule shape_frame [OF n(6)]) (metis ap fun_upd_other with_node_simps(1))
  then have sm: "cwhile has_left smallest_step (bn_right n, ?s1) = Inr (en m, ?s1)"
    by (rule smallest_loop [OF _ assms(4,5)])
  have nz: "bn_left n \<noteq> NULL" "bn_right n \<noteq> NULL" using n(5,6) assms(3,4) shape_NULL by metis+
  have rin: "bn_right n \<in> nodes r" using shape_root [OF n(6)] nz by blast
  then have re: "bn_right n \<noteq> en e" using ap by metis
  obtain k where "bnodes s (bn_right n) = Some k" using shape_nodes_nz [OF n(6) rin] by blast
  then have k: "bnodes ?s1 (bn_right n) = Some k" using re by simp
  have par: "bn_parent n = above key NULL t" using n(4) by (simp add: holds_def)
  show ?thesis
    using n(2,3) nz k re sm par run
    by (simp add: delete_node_def bn_get_ok move_smallest_def rbind_assoc)
qed

lemma delete_root_two:
  assumes "bt_shape T s (Node l e r)" and "ek e = key" and "l \<noteq> Leaf" and "r \<noteq> Leaf"
  shows "delete_node T key s = Inl Null_Deref"
proof -
  have st: "subtree key (Node l e r) = Node l e r" using assms(2) by simp
  obtain n where n: "bnodes s (en e) = Some n" using assms(1) by (auto simp: bt_shape_def)
  obtain m rr where m: "leftmost r = Node Leaf m rr" using leftmost_inorder [OF assms(4)] by blast
  have "above key NULL (Node l e r) = NULL" using assms(2) by simp
  then show ?thesis
    unfolding delete_two_run [OF assms(1) st assms(3,4) m n] by (simp add: move_smallest_def bn_get_def)
qed

lemma cut_keys:
  fixes f :: "'a \<Rightarrow> 'b"
  assumes "distinct (map f (xs @ A @ e # B @ ys))" and "x \<in> insert e (set A)" and "y \<in> set (xs @ C @ ys)"
    and "set C \<subseteq> set B"
  shows "f y \<noteq> f x"
proof
  assume eq: "f y = f x"
  have "distinct (map f xs @ map f (A @ [e]) @ map f (B @ ys))" using assms(1) by simp
  moreover have "f x \<in> set (map f (A @ [e]))" using assms(2) by auto
  moreover have "f y \<in> set (map f xs) \<union> set (map f (B @ ys))" using assms(3,4) by auto
  moreover have "distinct (p @ q @ r) \<Longrightarrow> a \<in> set q \<Longrightarrow> a \<in> set p \<union> set r \<Longrightarrow> False" for p q r and a :: 'b
    by auto
  ultimately show False unfolding eq by blast
qed

lemma filter_part:
  assumes "distinct (map f (A @ e # B @ C))"
  shows "B = filter (\<lambda>z. z \<in> set B) (A @ B @ C)"
proof -
  have "set A \<inter> set B = {}" "set C \<inter> set B = {}" using assms by auto
  then have "filter (\<lambda>z. z \<in> set B) A = []" "filter (\<lambda>z. z \<in> set B) C = []" by (auto simp: filter_empty_conv)
  then show ?thesis by simp
qed

lemma nodes_Node: "nodes (Node l e r) = insert (en e) (nodes l \<union> nodes r)"
  by (simp add: image_Un)

lemma ordered_distinct: "ordered_tree t \<Longrightarrow> distinct (map ek (inorder t))"
proof -
  have "sorted_wrt below zs \<Longrightarrow> distinct zs" for zs
    by (induction zs) auto
  then show "ordered_tree t \<Longrightarrow> distinct (map ek (inorder t))" unfolding ordered_tree_def .
qed

lemma delete_two_ok:
  assumes "bt_inv T s t" and "subtree key t = Node l e r" and "l \<noteq> Leaf" and "r \<noteq> Leaf" and "t \<noteq> Node l e r"
  shows "\<exists>s' t'. delete_node T key s = Inr (0, T, s') \<and> bt_inv T s' t' \<and> live s' = live s - {en e, ekp e} \<and>
    tree_map t' key = None \<and> (\<forall>x \<in> set_tree l. tree_map t' (ek x) = None)"
proof -
  have sh: "bt_shape T s t" and ord: "ordered_tree t" using assms(1) by (auto simp: bt_inv_def)
  then have shp: "shape s NULL (bt_root T) t" and dis: "distinct (blocks t)" by (auto simp: bt_shape_def)
  have ap: "apart t" by (rule apart_blocks [OF dis])
  let ?q = "en e" and ?P = "above key NULL t"
  obtain n where n: "bnodes s ?q = Some n" "?q \<noteq> NULL" "bt_root T \<noteq> NULL" "holds n e ?P"
    "shape s ?q (bn_left n) l" "shape s ?q (bn_right n) r"
    and run: "cwhile (\<lambda>st. fst st \<noteq> NULL \<and> \<not> fst (snd st)) (delete_find_step key) (bt_root T, False, s) =
      Inr (?q, True, with_node s ?q (n\<lparr>bn_locked := True\<rparr>))"
    by (rule delete_found [OF sh assms(2)])
  obtain m rr rest where m: "leftmost r = Node Leaf m rr" "inorder r = m # inorder rr @ rest"
    using leftmost_inorder [OF assms(4)] by metis
  let ?u = "Node Leaf m rr"
  obtain par' nm where nm: "bnodes s (en m) = Some nm" "shape s par' (en m) ?u"
    using leftmost_shape [OF n(6) assms(4) m(1)] by metis
  have apn: "apart (Node l e r)" by (rule apart_subtree [OF ap assms(2)])
  have ur: "set_tree ?u \<subseteq> set_tree r"
  proof -
    have "set (inorder ?u) \<subseteq> set (inorder r)" using m(2) by auto
    then show ?thesis by (simp only: set_inorder)
  qed
  then have urn: "nodes ?u \<subseteq> nodes r" by (rule image_mono)
  have apu: "apart ?u" using apn m(2) by (simp add: apart_def)
  have P: "?P \<in> nodes t" "?P \<notin> nodes (Node l e r)" using above_not_in [OF ap assms(2,5)] by blast+
  obtain np where np: "bnodes s ?P = Some np" "?P \<noteq> NULL" using shape_nodes_nz [OF shp P(1)] by blast
  have mu: "en m \<in> nodes ?u" by simp
  have mr: "en m \<in> nodes r" by (rule subsetD [OF urn mu])
  have qr: "?q \<notin> nodes r" using apn unfolding apart_Node by blast
  have Pn: "?P \<noteq> ?q" "?P \<notin> nodes r" using P(2) unfolding nodes_Node by blast+
  have ne: "en m \<noteq> ?q" "en m \<noteq> ?P" "?P \<noteq> ?q" "?q \<notin> nodes r"
    using mr qr Pn by metis+
  define np' where "np' = (if bn_left np = ?q then np\<lparr>bn_left := en m\<rparr> else np\<lparr>bn_right := en m\<rparr>)"
  let ?s1 = "with_node s ?q (n\<lparr>bn_locked := True\<rparr>)"
  let ?s4 = "with_node (with_node ?s1 ?P np') (en m) (nm\<lparr>bn_parent := ?P\<rparr>)"
  let ?s5 = "?s4\<lparr>live := live s - {ekp e, ?q}, bnodes := (bnodes ?s4)(?q := None)\<rparr>"
  have mnz: "en m \<noteq> NULL" using nm(2) by simp
  have "e \<in> set_tree t" using subtree_sub [of key t] assms(2) by auto
  note eb = element_blocks [OF sh this]
  have kp: "bn_keyp n = ekp e" using n(4) by (simp add: holds_def)
  have fr: "free_node ?q ?s4 = Inr ?s5"
    using free_node_ok [of ?q ?s4 "n\<lparr>bn_locked := True\<rparr>"] n(2) eb kp ne by simp
  have g: "bn_get ?P ?s1 = Inr np" using np ne by (simp add: bn_get_ok)
  have up1: "bn_upd ?P (if bn_left np = ?q then bn_left_update (\<lambda>_. en m) else bn_right_update (\<lambda>_. en m)) ?s1 =
      Inr (with_node ?s1 ?P np')"
    using np ne by (simp add: bn_upd_ok np'_def)
  have up2: "bn_upd (en m) (bn_parent_update (\<lambda>_. ?P)) (with_node ?s1 ?P np') = Inr ?s4"
    using nm(1) ne mnz by (simp add: bn_upd_ok)
  have "move_smallest ?q ?P (en m) ?s1 = Inr ?s5"
    unfolding move_smallest_def g rbind_Inr up1 up2 fr ..
  then have res: "delete_node T key s = Inr (0, T, ?s5)"
    using delete_two_run [OF sh assms(2-4) m(1) n(1)] by simp
  have bs5: "bnodes ?s5 a = bnodes s a" if "a \<noteq> ?q" "a \<noteq> en m" "a \<noteq> ?P" for a using that by simp
  have su: "shape ?s5 ?P (en m) ?u"
  proof (rule shape_reparent [OF nm(2) apu mnz nm(1)])
    show "bnodes ?s5 (en m) = Some (nm\<lparr>bn_parent := ?P\<rparr>)" using ne by simp
    fix a assume a: "a \<in> nodes ?u" "a \<noteq> en m"
    have "a \<in> nodes r" by (rule subsetD [OF urn a(1)])
    then have "a \<noteq> ?q" "a \<noteq> ?P" using qr Pn by metis+
    then show "bnodes ?s5 a = bnodes s a" by (rule bs5 [OF _ a(2)])
  qed
  have sput: "shape ?s5 NULL (bt_root T) (put key ?u t)"
  proof (rule shape_put [OF shp ap assms(2,5) np(1)])
    show "bnodes ?s5 ?P = Some (if bn_left np = ?q then np\<lparr>bn_left := en m\<rparr> else np\<lparr>bn_right := en m\<rparr>)"
      using ne by (simp add: np'_def)
    show "shape ?s5 ?P (en m) ?u" by (rule su)
    fix a assume a: "a \<notin> nodes (Node l e r)" "a \<noteq> ?P"
    then have "a \<noteq> ?q" "a \<notin> nodes r" unfolding nodes_Node by blast+
    then show "bnodes ?s5 a = bnodes s a" using mr a(2) by (intro bs5) metis+
  qed
  have "distinct (map en (inorder l @ e # inorder ?u @ rest))" using apn m(2) by (simp add: apart_def)
  note fp = filter_part [OF this]
  have "inorder r = inorder ?u @ rest" using m(2) by simp
  then have fu: "inorder ?u = filter (\<lambda>z. z \<in> set (inorder ?u)) (inorder l @ inorder r)" using fp by (simp only:)
  note cut = put_cut [OF assms(2) fu]
  have "bt_shape T ?s5 (put key ?u t)"
  proof (rule bt_shape_smaller [OF sh sput])
    show "mset (blocks (put key ?u t)) \<subseteq># mset (blocks t)"
      using cut(1) by (meson mset_subset_eq_add_left subset_mset.order_trans)
    show "live ?s5 = live s - {ekp e, ?q}" by simp
  qed (use cut(3) [OF dis] sh in \<open>simp_all add: bt_shape_def\<close>)
  then have inv: "bt_inv T ?s5 (put key ?u t)" using cut(2) ord by (simp add: bt_inv_def)
  obtain xs ys where d: "inorder t = xs @ inorder l @ e # inorder r @ ys"
    "inorder (put key ?u t) = xs @ inorder ?u @ ys"
    using inorder_put [OF assms(2)] by blast
  have gone: "tree_map (put key ?u t) (ek x) = None" if "x \<in> insert e (set_tree l)" for x
    unfolding tree_map_None
  proof
    fix y assume "y \<in> set_tree (put key ?u t)"
    then have y: "y \<in> set (xs @ inorder ?u @ ys)" unfolding d(2) [symmetric] by simp
    show "ek y \<noteq> ek x"
    proof (rule cut_keys [OF _ _ y])
      show "distinct (map ek (xs @ inorder l @ e # inorder r @ ys))"
        using ordered_distinct [OF ord] unfolding d(1) .
      show "x \<in> insert e (set (inorder l))" using that by simp
      show "set (inorder ?u) \<subseteq> set (inorder r)" using m(2) by auto
    qed
  qed
  have "live ?s5 = live s - {?q, ekp e}" by auto
  moreover have "ek e = key" by (rule subtree_key [OF assms(2)])
  ultimately show ?thesis using res inv gone by blast
qed

section \<open>Adding a key twice\<close>

lemma last_node_dup:
  "subtree k t = Node l e r \<Longrightarrow> r \<noteq> Leaf \<Longrightarrow> last_node k t = Some q \<Longrightarrow> q \<in> nodes r"
proof (induction t arbitrary: q)
  case (Node l0 x r0)
  consider (1) "below k (ek x)" | (2) "\<not> below k (ek x)" "below (ek x) k" | (3) "\<not> below k (ek x)" "\<not> below (ek x) k"
    by blast
  then show ?case
  proof cases
    case 1
    then have st: "subtree k l0 = Node l e r" using Node.prems(1) by simp
    then have "l0 \<noteq> Leaf" by auto
    then obtain q' where "last_node k l0 = Some q'" using last_node_None [of k l0] by (meson option.exhaust)
    then show ?thesis using 1 Node.IH(1) [OF st Node.prems(2)] Node.prems(3) by (simp add: Let_def)
  next
    case 2
    then have st: "subtree k r0 = Node l e r" using Node.prems(1) by simp
    then have "r0 \<noteq> Leaf" by auto
    then obtain q' where "last_node k r0 = Some q'" using last_node_None [of k r0] by (meson option.exhaust)
    then show ?thesis using 2 Node.IH(2) [OF st Node.prems(2)] Node.prems(3) by (simp add: Let_def)
  next
    case 3
    then have eq: "r0 = r" using Node.prems(1) by simp
    then obtain q' where q': "last_node k r = Some q'" using Node.prems(2) last_node_None [of k r] by (meson option.exhaust)
    then have "q = q'" using 3 Node.prems(3) eq by (simp add: Let_def)
    then show ?thesis using last_node_in [OF q'] by metis
  qed
qed simp

lemma search_subtree: "search k t = (case subtree k t of Leaf \<Rightarrow> None | Node l e r \<Rightarrow> Some (ev e))"
  by (induction t) auto

lemma search_ins_dup: "search k t = Some v \<Longrightarrow> search k (ins x t) = Some v"
  by (induction t) (auto split: if_splits dest: below_asym)

lemma subtree_ordered: "ordered_tree t \<Longrightarrow> subtree k t = Node l e r \<Longrightarrow> ordered_tree (Node l e r)"
  by (induction t) (auto simp: ordered_Node split: if_splits)

lemma add_child_dup:
  assumes "bt_inv T s t" and "ample s" and "v \<noteq> NULL" and "subtree k t = Node l e r" and "r \<noteq> Leaf"
    and "INT_MIN \<le> bt_count T + 1" and "bt_count T + 1 \<le> INT_MAX"
  shows "\<exists>x T' s'. add_child T (Some k) v s = Inr (en x, T', s') \<and> bt_shape T' s' (ins x t) \<and> ek x = k \<and>
    en x \<notin> nodes t \<and> lookup T' k s' = Inr (Some (ev e), s') \<and> bt_count T' = bt_count T + 1"
proof -
  have sh: "bt_shape T s t" and ord: "ordered_tree t" using assms(1) by (auto simp: bt_inv_def)
  have ne: "bn_key n \<noteq> k" if q: "last_node k t = Some q" "bnodes s q = Some n" for q n
  proof -
    have "q \<in> nodes r" by (rule last_node_dup [OF assms(4,5) q(1)])
    then obtain y where y: "y \<in> set_tree r" "q = en y" by blast
    then have "y \<in> set_tree t" using subtree_sub [of k t] assms(4) by auto
    then obtain m a where "bnodes s q = Some m" "holds m y a"
      using sh shape_node [of s NULL "bt_root T" t y] y(2) by (auto simp: bt_shape_def)
    moreover have "below (ek e) (ek y)" using subtree_ordered [OF ord assms(4)] y(1) unfolding ordered_Node by blast
    moreover have "ek e = k" by (rule subtree_key [OF assms(4)])
    ultimately show ?thesis using q(2) below_irrefl [of k] by (auto simp: holds_def)
  qed
  let ?x = "(Suc (calls s), Suc (Suc (calls s)), k, v) :: elem"
  have tl: "t \<noteq> Leaf" using assms(4) by auto
  have "\<exists>T' s'. add_child T (Some k) v s = Inr (en ?x, T', s') \<and> bt_shape T' s' (ins ?x t) \<and>
      bt_count T' = bt_count T + (if t = Leaf then 0 else 1)"
    by (rule add_child_run [OF sh assms(2,3) _ assms(6,7)]) (rule ne)
  then obtain T' s' where r: "add_child T (Some k) v s = Inr (en ?x, T', s')" "bt_shape T' s' (ins ?x t)"
    "bt_count T' = bt_count T + 1"
    using tl by auto
  have "en ?x \<notin> set (blocks t)"
  proof
    assume "en ?x \<in> set (blocks t)"
    then have "Suc (calls s) \<in> live s" and "mem_ok s" using sh by (auto simp: bt_shape_def)
    then have "Suc (calls s) \<le> calls s" using mem_ok_bound by blast
    then show False by simp
  qed
  then have "en ?x \<notin> nodes t" using nodes_blocks [of t] by blast
  moreover have "lookup T' k s' = Inr (Some (ev e), s')"
  proof -
    have "search k (ins ?x t) = Some (ev e)" by (rule search_ins_dup) (simp add: search_subtree assms(4))
    moreover obtain q where "cwhile (\<lambda>st. fst st \<noteq> NULL \<and> fst (snd st) = None) (lookup_step k) (bt_root T', None, s') =
        Inr (q, search k (ins ?x t), s')"
      using lookup_loop [of s' NULL "bt_root T'" "ins ?x t" k] r(2) by (auto simp: bt_shape_def)
    ultimately show ?thesis by (simp add: lookup_def)
  qed
  moreover have "ek ?x = k" by simp
  ultimately show ?thesis using r by blast
qed

section \<open>Properties\<close>

definition ex_node :: "ptr \<Rightarrow> string \<Rightarrow> ptr \<Rightarrow> ptr \<Rightarrow> ptr \<Rightarrow> bnode" where
  "ex_node kp k par l r = \<lparr>bn_keyp = kp, bn_key = k, bn_value = kp + 50, bn_parent = par, bn_left = l, bn_right = r,
     bn_locked = False\<rparr>"

definition ex_store :: bmem where
  "ex_store = \<lparr>calls = 8, fails = (\<lambda>_. False), live = {1, 2, 3, 4, 5, 6, 7, 8},
     bnodes = [1 \<mapsto> ex_node 2 ''a'' NULL NULL 3, 3 \<mapsto> ex_node 4 ''c'' 1 5 7, 5 \<mapsto> ex_node 6 ''b'' 3 NULL NULL,
       7 \<mapsto> ex_node 8 ''d'' 3 NULL NULL]\<rparr>"

definition ex_btree :: btree where
  "ex_btree = \<lparr>bt_count = 3, bt_root = 1, bt_locked = False\<rparr>"

definition ex_tree :: "elem tree" where
  "ex_tree = Node Leaf (1, 2, ''a'', 52) (Node (Node Leaf (5, 6, ''b'', 56) Leaf) (3, 4, ''c'', 54)
     (Node Leaf (7, 8, ''d'', 58) Leaf))"

lemma ex_btree_inv: "bt_inv ex_btree ex_store ex_tree" "ample ex_store"
  by (simp_all add: bt_inv_def bt_shape_def ex_btree_def ex_store_def ex_tree_def ex_node_def holds_def blocks_def
      mem_ok_def ordered_tree_def below_def uchar_def ample_def)

lemma lookup_fun: "bt_inv T s t \<Longrightarrow> m = tree_map t \<Longrightarrow> lookup T k s = Inr (m k, s)"
  by (simp add: lookup_ok)

text \<open>C8: adding a new key keeps the search tree in order with all nodes unlocked, and afterwards \<^verbatim>\<open>lookup\<close> finds
  the new value under the key and under every other key what it found before. The first node is not counted.\<close>

theorem search_tree_add_lookup:
  assumes "bt_inv T s t" and "ample s" and "v \<noteq> NULL" and "lookup T k s = Inr (None, s)"
    and "INT_MIN \<le> bt_count T + 1" and "bt_count T + 1 \<le> INT_MAX"
  shows "\<exists>p T' s' t'. add_child T (Some k) v s = Inr (p, T', s') \<and> bt_inv T' s' t' \<and>
    lookup T' k s' = Inr (Some v, s') \<and>
    (\<forall>k'. k' \<noteq> k \<longrightarrow> lookup T' k' s' = Inr (tree_map t k', s') \<and> lookup T k' s = Inr (tree_map t k', s)) \<and>
    bt_count T' = bt_count T + (if bt_root T = NULL then 0 else 1)"
proof -
  have "tree_map t k = None" using assms(1,4) by (simp add: lookup_ok)
  then obtain p kp T' s' where r: "add_child T (Some k) v s = Inr (p, T', s')" "bt_inv T' s' (ins (p, kp, k, v) t)"
    and m: "tree_map (ins (p, kp, k, v) t) = (tree_map t)(k \<mapsto> v)"
    and c: "bt_count T' = bt_count T + (if t = Leaf then 0 else 1)"
    using add_child_ok [OF assms(1-3) _ assms(5,6)] by metis
  have "t = Leaf \<longleftrightarrow> bt_root T = NULL" using assms(1) shape_NULL by (cases t) (auto simp: bt_inv_def bt_shape_def)
  then show ?thesis using r c m lookup_ok [OF assms(1)] lookup_ok [OF r(2)] by (intro exI conjI) auto
qed

theorem search_tree_add_lookup_witness:
  "\<exists>p T' s' t'. add_child ex_btree (Some ''e'') 99 ex_store = Inr (p, T', s') \<and> bt_inv T' s' t' \<and>
    lookup T' ''e'' s' = Inr (Some 99, s')"
proof -
  have "lookup ex_btree ''e'' ex_store = Inr (None, ex_store)"
    using lookup_ok [OF ex_btree_inv(1), of "''e''"] by (simp add: ex_tree_def tree_map_def)
  then show ?thesis
    using search_tree_add_lookup [OF ex_btree_inv, of 99 "''e''"] by (auto simp: ex_btree_def INT_MIN_def INT_MAX_def)
qed

text \<open>C9: deleting a key whose node has at most one child removes exactly this key, frees its node and its copy of the key,
  and keeps order, unlocked nodes and count. Deleting an unknown key returns -1 and changes nothing.\<close>

theorem search_tree_delete:
  assumes "bt_inv T s t" and "INT_MIN < bt_count T" and "bt_count T \<le> INT_MAX"
  shows "(lookup T k s = Inr (None, s) \<longrightarrow> delete_node T k s = Inr (- 1, T, s)) \<and>
    (subtree k t = Node l e r \<longrightarrow> l = Leaf \<or> r = Leaf \<longrightarrow>
      (\<exists>T' s' t'. delete_node T k s = Inr (0, T', s') \<and> bt_inv T' s' t' \<and>
        (\<forall>k'. lookup T' k' s' = Inr (if k' = k then None else tree_map t k', s')) \<and>
        bt_count T' = bt_count T - 1 \<and> live s' = live s - {en e, ekp e}))"
proof (intro conjI impI)
  show "delete_node T k s = Inr (- 1, T, s)" if "lookup T k s = Inr (None, s)"
    using delete_missing [OF assms(1)] lookup_ok [OF assms(1), of k] that by simp
  assume a: "subtree k t = Node l e r" "l = Leaf \<or> r = Leaf"
  obtain T' s' t' where r: "delete_node T k s = Inr (0, T', s')" "bt_inv T' s' t'"
    "tree_map t' = (tree_map t)(k := None)" "bt_count T' = bt_count T - 1" "live s' = live s - {en e, ekp e}"
    using delete_splice_ok [OF assms(1) a assms(2,3)] by (elim exE conjE) (rule that)
  have "\<forall>k'. lookup T' k' s' = Inr (if k' = k then None else tree_map t k', s')"
    using lookup_ok [OF r(2)] r(3) by simp
  then show "\<exists>T' s' t'. delete_node T k s = Inr (0, T', s') \<and> bt_inv T' s' t' \<and>
      (\<forall>k'. lookup T' k' s' = Inr (if k' = k then None else tree_map t k', s')) \<and>
      bt_count T' = bt_count T - 1 \<and> live s' = live s - {en e, ekp e}"
    using r by blast
qed

theorem search_tree_delete_witness:
  "delete_node ex_btree ''x'' ex_store = Inr (- 1, ex_btree, ex_store) \<and>
   (\<exists>T' s' t'. delete_node ex_btree ''a'' ex_store = Inr (0, T', s') \<and> bt_inv T' s' t' \<and> lookup T' ''a'' s' = Inr (None, s') \<and>
     bt_count T' = 2)"
proof -
  have c: "INT_MIN < bt_count ex_btree" "bt_count ex_btree \<le> INT_MAX" by (simp_all add: ex_btree_def INT_MIN_def INT_MAX_def)
  have "lookup ex_btree ''x'' ex_store = Inr (None, ex_store)"
    using lookup_ok [OF ex_btree_inv(1), of "''x''"] by (simp add: ex_tree_def tree_map_def)
  then have "delete_node ex_btree ''x'' ex_store = Inr (- 1, ex_btree, ex_store)"
    using search_tree_delete [OF ex_btree_inv(1) c] by blast
  moreover obtain r where "subtree ''a'' ex_tree = Node Leaf (1, 2, ''a'', 52) r"
    by (simp add: ex_tree_def)
  then have "\<exists>T' s' t'. delete_node ex_btree ''a'' ex_store = Inr (0, T', s') \<and> bt_inv T' s' t' \<and>
      (\<forall>k'. lookup T' k' s' = Inr (if k' = ''a'' then None else tree_map ex_tree k', s')) \<and>
      bt_count T' = bt_count ex_btree - 1 \<and> live s' = live ex_store - {1, 2}"
    using search_tree_delete [OF ex_btree_inv(1) c, of "''a''" Leaf "(1, 2, ''a'', 52)" r] by simp
  ultimately show ?thesis by (auto simp: ex_btree_def)
qed

text \<open>C34: with two children \<^verbatim>\<open>delete_node\<close> is wrong. At the root it dereferences the missing parent; elsewhere it puts the
  smallest node of the right subtree in place but not the left subtree, so every key below on the left is lost with it,
  its nodes stay allocated, and the count does not change.\<close>

theorem search_tree_delete_two_children:
  assumes "bt_inv T s t" and "subtree k t = Node l e r" and "l \<noteq> Leaf" and "r \<noteq> Leaf"
  shows "(bt_root T = en e \<longrightarrow> delete_node T k s = Inl Null_Deref) \<and>
    (bt_root T \<noteq> en e \<longrightarrow>
      (\<exists>s'. delete_node T k s = Inr (0, T, s') \<and> lookup T k s' = Inr (None, s') \<and> live s' = live s - {en e, ekp e} \<and>
        (\<forall>x \<in> set_tree l. lookup T (ek x) s = Inr (Some (ev x), s) \<and> lookup T (ek x) s' = Inr (None, s') \<and> en x \<in> live s')))"
proof -
  have sh: "bt_shape T s t" and ord: "ordered_tree t" using assms(1) by (auto simp: bt_inv_def)
  then have shp: "shape s NULL (bt_root T) t" and ap: "apart t" using apart_blocks by (auto simp: bt_shape_def)
  have root: "bt_root T = en e \<longleftrightarrow> t = Node l e r"
    using subtree_root [OF shp ap assms(2)] shp by (cases "t = Node l e r") auto
  have "delete_node T k s = Inl Null_Deref" if "bt_root T = en e"
    using delete_root_two [OF _ subtree_key [OF assms(2)] assms(3,4)] root that sh by simp
  moreover have "\<exists>s'. delete_node T k s = Inr (0, T, s') \<and> lookup T k s' = Inr (None, s') \<and>
      live s' = live s - {en e, ekp e} \<and> (\<forall>x \<in> set_tree l. lookup T (ek x) s = Inr (Some (ev x), s) \<and>
        lookup T (ek x) s' = Inr (None, s') \<and> en x \<in> live s')" if "bt_root T \<noteq> en e"
  proof -
    from that obtain s' t' where r: "delete_node T k s = Inr (0, T, s')" "bt_inv T s' t'" "live s' = live s - {en e, ekp e}"
      "tree_map t' k = None" "\<forall>x \<in> set_tree l. tree_map t' (ek x) = None"
      using delete_two_ok [OF assms] root by metis
    have old: "lookup T (ek x) s = Inr (Some (ev x), s) \<and> en x \<in> live s'" if x: "x \<in> set_tree l" for x
    proof -
      have xt: "x \<in> set_tree t" using x subtree_sub [of k t] assms(2) by auto
      have "distinct (map fst (map (\<lambda>e. (ek e, ev e)) (inorder t)))" using ordered_distinct [OF ord] by (simp add: comp_def)
      then have "tree_map t (ek x) = Some (ev x)" unfolding tree_map_def using xt by (intro map_of_is_SomeI) auto
      moreover have "distinct (blocks (Node l e r))"
      proof -
        obtain xs ys where "inorder t = xs @ inorder (Node l e r) @ ys" using inorder_put [OF assms(2)] by auto
        then have "distinct (concat (map (\<lambda>e. [en e, ekp e]) xs) @ blocks (Node l e r) @ concat (map (\<lambda>e. [en e, ekp e]) ys))"
          using sh by (simp add: bt_shape_def blocks_def)
        then show ?thesis by simp
      qed
      then have "en x \<notin> {en e, ekp e}" using nodes_blocks [of l] x by (auto simp: blocks_Node)
      moreover have "en x \<in> live s" using element_blocks [OF sh xt] by blast
      ultimately show ?thesis using lookup_ok [OF assms(1)] r(3) by simp
    qed
    show ?thesis using r old lookup_ok [OF r(2)] by (intro exI [of _ s']) simp
  qed
  ultimately show ?thesis by blast
qed

theorem search_tree_delete_two_children_witness:
  "\<exists>s'. delete_node ex_btree ''c'' ex_store = Inr (0, ex_btree, s') \<and> lookup ex_btree ''b'' s' = Inr (None, s') \<and>
    lookup ex_btree ''b'' ex_store = Inr (Some 56, ex_store)"
proof -
  have st: "subtree ''c'' ex_tree = Node (Node Leaf (5, 6, ''b'', 56) Leaf) (3, 4, ''c'', 54) (Node Leaf (7, 8, ''d'', 58) Leaf)"
    by (simp add: ex_tree_def below_def uchar_def)
  show ?thesis
    using search_tree_delete_two_children [OF ex_btree_inv(1) st] by (auto simp: ex_btree_def)
qed

text \<open>A key whose node has a right child can be added again: the test for equality looks only at the last node of the
  walk. The second node can not be found while the first one is there.\<close>

theorem search_tree_duplicate:
  assumes "bt_inv T s t" and "ample s" and "v \<noteq> NULL" and "subtree k t = Node l e r" and "r \<noteq> Leaf"
    and "INT_MIN \<le> bt_count T + 1" and "bt_count T + 1 \<le> INT_MAX"
  shows "\<exists>x T' s' t'. add_child T (Some k) v s = Inr (en x, T', s') \<and> bt_shape T' s' t' \<and>
    set_tree t' = insert x (set_tree t) \<and> en x \<notin> nodes t \<and> e \<in> set_tree t \<and> ek x = k \<and> ek e = k \<and>
    lookup T' k s' = Inr (Some (ev e), s') \<and> bt_count T' = bt_count T + 1"
proof -
  obtain x T' s' where r: "add_child T (Some k) v s = Inr (en x, T', s')" "bt_shape T' s' (ins x t)" "ek x = k"
    "en x \<notin> nodes t" "lookup T' k s' = Inr (Some (ev e), s')" "bt_count T' = bt_count T + 1"
    using add_child_dup [OF assms] by (elim exE conjE) (rule that)
  moreover have "e \<in> set_tree t" using subtree_sub [of k t] assms(4) by auto
  ultimately show ?thesis using set_ins subtree_key [OF assms(4)] by blast
qed

theorem search_tree_duplicate_witness:
  "\<exists>x T' s'. add_child ex_btree (Some ''a'') 77 ex_store = Inr (en x, T', s') \<and> ek x = ''a'' \<and>
    lookup T' ''a'' s' = Inr (Some 52, s')"
proof -
  let ?r = "Node (Node Leaf (5, 6, ''b'', 56) Leaf) (3, 4, ''c'', 54) (Node Leaf (7, 8, ''d'', 58) Leaf) :: elem tree"
  have st: "subtree ''a'' ex_tree = Node Leaf (1, 2, ''a'', 52) ?r" by (simp add: ex_tree_def)
  have c: "INT_MIN \<le> bt_count ex_btree + 1" "bt_count ex_btree + 1 \<le> INT_MAX"
    by (simp_all add: ex_btree_def INT_MIN_def INT_MAX_def)
  have "(77 :: ptr) \<noteq> NULL" "?r \<noteq> Leaf" by simp_all
  note search_tree_duplicate [OF ex_btree_inv this(1) st this(2) c]
  then show ?thesis by (elim exE conjE) (intro exI conjI, assumption, assumption, simp)
qed

end
