(* ===== verification/File_Walk.thy ===== *)
theory File_Walk
  imports Reports Callbacks "HOL-Library.Sublist"
begin

text \<open>
  The file tree walk \<^verbatim>\<open>t_nftw\<close> of \<^verbatim>\<open>18-directories-and-links/exercises/18-8.c\<close>.

  The file system is a parameter \<open>fsys\<close> that does not change during the walk: what the system calls answer
  for the pathname, made absolute with the working directory. The walker's state is the heap, the working
  directory, the open descriptors and directory streams, the static \<^verbatim>\<open>FTW_BOOK.mount\<close> and whatever
  the callback keeps. The recursion of \<^verbatim>\<open>t_nftw\<close> has fuel, as a loop of symbolic links has no end; the fuel a
  finite tree needs is its depth.
\<close>

section \<open>Flags\<close>

definition FTW_D :: int where "FTW_D = 0x01"

definition FTW_DNR :: int where "FTW_DNR = 0x02"

definition FTW_DP :: int where "FTW_DP = 0x04"

definition FTW_F :: int where "FTW_F = 0x08"

definition FTW_NS :: int where "FTW_NS = 0x10"

definition FTW_SL :: int where "FTW_SL = 0x20"

definition FTW_SLN :: int where "FTW_SLN = 0x80"

definition FTW_CHDIR :: int where "FTW_CHDIR = 0x2000"

definition FTW_DEPTH :: int where "FTW_DEPTH = 0x4000"

definition FTW_MOUNT :: int where "FTW_MOUNT = 0x8000"

definition FTW_PHYS :: int where "FTW_PHYS = 0x10000"

definition FTW_ACTIONRETVAL :: int where "FTW_ACTIONRETVAL = 0x100"

definition FTW_CONTINUE :: int where "FTW_CONTINUE = 0x200"

definition FTW_SKIP_SIBLINGS :: int where "FTW_SKIP_SIBLINGS = 0x400"

definition FTW_SKIP_SUBTREE :: int where "FTW_SKIP_SUBTREE = 0x800"

definition FTW_STOP :: int where "FTW_STOP = 0x1000"

definition flag :: "int \<Rightarrow> int \<Rightarrow> bool" where
  "flag flags f \<longleftrightarrow> flags AND f \<noteq> 0"

section \<open>State\<close>

record fsys =
  fs_stat :: "string \<Rightarrow> stat option"
  fs_lstat :: "string \<Rightarrow> stat option"
  fs_access :: "string \<Rightarrow> bool"
  fs_list :: "string \<Rightarrow> string list option"
  fs_chdir :: "string \<Rightarrow> string option"
  fs_open :: "string \<Rightarrow> bool"

record 'u walker = cmem +
  w_cwd :: string
  w_fds :: "nat \<Rightarrow> string option"
  w_next :: nat
  w_streams :: nat
  w_mount :: "64 word"
  w_user :: 'u

text \<open>The callback gets the pathname, the status buffer (or \<^verbatim>\<open>NULL\<close>) and the type; the fourth argument is always 0.\<close>

type_synonym 'u callback = "string \<Rightarrow> stat option \<Rightarrow> int \<Rightarrow> 'u \<Rightarrow> int \<times> 'u"

definition absolute :: "string \<Rightarrow> string \<Rightarrow> string" where
  "absolute cwd path = (if path \<noteq> [] \<and> hd path = CHR ''/'' then path else cwd @ ''/'' @ path)"

definition zero_stat :: stat where
  "zero_stat = \<lparr>st_dev = 0, st_ino = 0, st_mode = 0, st_nlink = 0, st_uid = 0, st_gid = 0, st_rdev = 0, st_size = 0,
     st_blksize = 0, st_blocks = 0, st_atime = 0, st_mtime = 0, st_ctime = 0\<rparr>"

definition is_dir_mode :: "stat \<Rightarrow> bool" where
  "is_dir_mode b \<longleftrightarrow> st_mode b AND S_IFMT = S_IFDIR"

section \<open>Functions\<close>

definition somefunc :: "string callback" where
  "somefunc pathname sb type out =
     (0, out @
       (if type = FTW_D then ''FTW_D: '' @ pathname @ newline
        else if type = FTW_DNR then ''FTW_DNR: '' @ pathname @ newline
        else if type = FTW_DP then ''FTW_DP: '' @ pathname @ newline
        else if type = FTW_F then ''FTW_F: '' @ pathname @ newline
        else if type = FTW_NS then ''FTW_NS: '' @ pathname @ newline
        else if type = FTW_SL then ''FTW_SL: '' @ pathname @ newline
        else if type = FTW_SLN then ''FTW_SLN: '' @ pathname @ newline
        else []))"

definition is_dir :: "fsys \<Rightarrow> string \<Rightarrow> string option \<Rightarrow> stat option \<Rightarrow> bool" where
  "is_dir fs cwd dirname statbuf =
     (case statbuf of
        Some b \<Rightarrow> is_dir_mode b
      | None \<Rightarrow> (case dirname of None \<Rightarrow> False
          | Some d \<Rightarrow> (case fs_stat fs (absolute cwd d) of None \<Rightarrow> False | Some b \<Rightarrow> is_dir_mode b)))"

definition getstat :: "fsys \<Rightarrow> string \<Rightarrow> string \<Rightarrow> int \<Rightarrow> stat option" where
  "getstat fs cwd pathname flags =
     (if flag flags FTW_PHYS then fs_lstat fs (absolute cwd pathname) else fs_stat fs (absolute cwd pathname))"

definition ftw_file_type :: "fsys \<Rightarrow> string \<Rightarrow> string \<Rightarrow> stat \<Rightarrow> int" where
  "ftw_file_type fs cwd pathname statbuf =
     (let t = st_mode statbuf AND S_IFMT in
      if t = S_IFLNK then (if fs_access fs (absolute cwd pathname) then FTW_SL else FTW_SLN)
      else if t = S_IFDIR then FTW_D
      else FTW_F)"

fun ftw_skip :: "string \<Rightarrow> bool" where
  "ftw_skip [] = False"
| "ftw_skip (c # cs) =
     (if strcmp (c # cs) ''/dev/fd'' = 0 then True
      else if strcmp (c # cs) ''/proc'' = 0 then True
      else if strcmp (c # cs) ''/sys'' = 0 then True
      else if strcmp (c # cs) ''/usr/bin/X11'' = 0 then True
      else ftw_skip cs)"

text \<open>Neither \<^verbatim>\<open>fchdir\<close> nor \<^verbatim>\<open>close\<close> is checked: both do nothing on a closed descriptor.\<close>

definition ftw_clean_chdir :: "nat \<Rightarrow> int \<Rightarrow> 'u walker \<Rightarrow> 'u walker" where
  "ftw_clean_chdir fd flags st =
     (if flag flags FTW_CHDIR
      then (case w_fds st fd of None \<Rightarrow> st
            | Some d \<Rightarrow> st\<lparr>w_cwd := d, w_fds := (w_fds st)(fd := None)\<rparr>)
      else st)"

definition closedir :: "'u walker \<Rightarrow> 'u walker" where
  "closedir st = st\<lparr>w_streams := w_streams st - 1\<rparr>"

definition ftw_call :: "'u callback \<Rightarrow> string \<Rightarrow> stat option \<Rightarrow> int \<Rightarrow> 'u walker \<Rightarrow> int \<times> 'u walker" where
  "ftw_call func path sb type st =
     (case func path sb type (w_user st) of (v, u) \<Rightarrow> (v, st\<lparr>w_user := u\<rparr>))"

text \<open>How an iteration of the loop over the entries goes on: with the locals, by \<^verbatim>\<open>break\<close>, by \<^verbatim>\<open>return\<close>.\<close>

datatype flow = Go stat bool bool | Break | Return int

definition ftw_leave :: "nat \<Rightarrow> int \<Rightarrow> ptr \<Rightarrow> int \<Rightarrow> 'u walker \<Rightarrow> (flow \<times> 'u walker) res" where
  "ftw_leave fd flags p v st =
     rbind (c_free p (ftw_clean_chdir fd flags st)) (\<lambda>st1. Inr (Return v, closedir st1))"

definition ftw_break :: "nat \<Rightarrow> int \<Rightarrow> ptr \<Rightarrow> 'u walker \<Rightarrow> (flow \<times> 'u walker) res" where
  "ftw_break fd flags p st = rbind (c_free p (ftw_clean_chdir fd flags st)) (\<lambda>st1. Inr (Break, st1))"

text \<open>\<^verbatim>\<open>FTW_CONTINUE\<close> falls through to the branch where a non-zero result ends the walk.\<close>

definition nftw_pre ::
  "'u callback \<Rightarrow> int \<Rightarrow> nat \<Rightarrow> ptr \<Rightarrow> string \<Rightarrow> int \<Rightarrow> stat \<Rightarrow> bool \<Rightarrow> bool \<Rightarrow> 'u walker \<Rightarrow> (flow \<times> 'u walker) res" where
  "nftw_pre func flags fd p path ftype buf skip_subtree skip_mount st =
     (if flag flags FTW_DEPTH then Inr (Go buf skip_subtree skip_mount, st)
      else case ftw_call func path (Some buf) ftype st of (v, st1) \<Rightarrow>
        if flag flags FTW_ACTIONRETVAL \<and> v \<noteq> FTW_CONTINUE
        then if v = FTW_STOP then ftw_leave fd flags p FTW_STOP st1
             else if v = FTW_SKIP_SIBLINGS then ftw_break fd flags p st1
             else if v = FTW_SKIP_SUBTREE then Inr (Go buf True skip_mount, st1)
             else Inr (Go buf skip_subtree skip_mount, st1)
        else if v \<noteq> 0 then ftw_leave fd flags p v st1
        else Inr (Go buf skip_subtree skip_mount, st1))"

definition nftw_sub ::
  "(string \<Rightarrow> 'u walker \<Rightarrow> (int \<times> 'u walker) res) \<Rightarrow> int \<Rightarrow> nat \<Rightarrow> ptr \<Rightarrow> string \<Rightarrow> stat \<Rightarrow> bool \<Rightarrow> bool \<Rightarrow> 'u walker \<Rightarrow>
    (flow \<times> 'u walker) res" where
  "nftw_sub walk flags fd p path buf skip_subtree skip_mount st =
     (if is_dir_mode buf
      then let st1 = (if flag flags FTW_MOUNT \<and> w_mount st = 0 then st\<lparr>w_mount := st_dev buf\<rparr> else st);
               skip_mount1 = (skip_mount \<or> flag flags FTW_MOUNT \<and> w_mount st1 \<noteq> st_dev buf) in
           if \<not> skip_subtree \<and> \<not> skip_mount1
           then rbind (walk path st1) (\<lambda>(v, st2).
                  if v \<noteq> 0 then ftw_leave fd flags p v st2 else Inr (Go buf skip_subtree skip_mount1, st2))
           else Inr (Go buf skip_subtree skip_mount1, st1)
      else Inr (Go buf skip_subtree skip_mount, st))"

definition nftw_post ::
  "'u callback \<Rightarrow> int \<Rightarrow> nat \<Rightarrow> ptr \<Rightarrow> string \<Rightarrow> stat \<Rightarrow> bool \<Rightarrow> bool \<Rightarrow> 'u walker \<Rightarrow> (flow \<times> 'u walker) res" where
  "nftw_post func flags fd p path buf skip_subtree skip_mount st =
     (if \<not> flag flags FTW_DEPTH then Inr (Go buf skip_subtree skip_mount, st)
      else case ftw_call func path (Some buf) FTW_DP st of (v, st1) \<Rightarrow>
        if flag flags FTW_ACTIONRETVAL \<and> v \<noteq> FTW_CONTINUE
        then if v = FTW_STOP then ftw_leave fd flags p FTW_STOP st1
             else if v = FTW_SKIP_SIBLINGS then ftw_break fd flags p st1
             else Inr (Go buf skip_subtree skip_mount, st1)
        else if v \<noteq> 0 then ftw_leave fd flags p v st1
        else Inr (Go buf skip_subtree skip_mount, st1))"

definition flow_bind ::
  "(flow \<times> 'u walker) res \<Rightarrow> (stat \<Rightarrow> bool \<Rightarrow> bool \<Rightarrow> 'u walker \<Rightarrow> (flow \<times> 'u walker) res) \<Rightarrow> (flow \<times> 'u walker) res" where
  "flow_bind m f = rbind m (\<lambda>(fl, st). case fl of Go b s d \<Rightarrow> f b s d st | _ \<Rightarrow> Inr (fl, st))"

definition join_path :: "string \<Rightarrow> string \<Rightarrow> string" where
  "join_path dirname name =
     snprintf (length dirname + length name + 2)
       (if strcmp dirname ''/'' = 0 then dirname @ name else dirname @ ''/'' @ name)"

definition nftw_entry ::
  "(string \<Rightarrow> 'u walker \<Rightarrow> (int \<times> 'u walker) res) \<Rightarrow> 'u callback \<Rightarrow> fsys \<Rightarrow> int \<Rightarrow> string \<Rightarrow> nat \<Rightarrow> string \<Rightarrow>
    stat \<Rightarrow> bool \<Rightarrow> bool \<Rightarrow> 'u walker \<Rightarrow> (flow \<times> 'u walker) res" where
  "nftw_entry walk func fs flags dirname fd name buf skip_subtree skip_mount st =
     (if strcmp name ''.'' = 0 \<or> strcmp name ''..'' = 0 then Inr (Go buf skip_subtree skip_mount, st)
      else let (p, st1) = c_alloc st in
        if p = NULL then Inr (Return 0, ftw_clean_chdir fd flags st1)
        else let path = join_path dirname name;
                 (ftype, buf1) = (case getstat fs (w_cwd st1) path flags of None \<Rightarrow> (FTW_NS, buf)
                   | Some b \<Rightarrow> (ftw_file_type fs (w_cwd st1) path b, b)) in
          flow_bind (nftw_pre func flags fd p path ftype buf1 skip_subtree skip_mount st1) (\<lambda>b s d st2.
          flow_bind (nftw_sub walk flags fd p path b s d st2) (\<lambda>b s d st3.
          flow_bind (nftw_post func flags fd p path b s d st3) (\<lambda>b s d st4.
          rbind (c_free p st4) (\<lambda>st5. Inr (Go b s d, st5))))))"

fun nftw_loop ::
  "(string \<Rightarrow> stat \<Rightarrow> bool \<Rightarrow> bool \<Rightarrow> 'u walker \<Rightarrow> (flow \<times> 'u walker) res) \<Rightarrow> string list \<Rightarrow> stat \<Rightarrow> bool \<Rightarrow> bool \<Rightarrow>
    'u walker \<Rightarrow> (int option \<times> 'u walker) res" where
  "nftw_loop entry [] buf skip_subtree skip_mount st = Inr (None, st)"
| "nftw_loop entry (name # names) buf skip_subtree skip_mount st =
     rbind (entry name buf skip_subtree skip_mount st) (\<lambda>(fl, st1).
       case fl of Go b s d \<Rightarrow> nftw_loop entry names b s d st1
       | Break \<Rightarrow> Inr (None, st1)
       | Return v \<Rightarrow> Inr (Some v, st1))"

text \<open>Opening the directory, after a change to it with \<^verbatim>\<open>FTW_CHDIR\<close>; \<open>None\<close> when \<^verbatim>\<open>open\<close> fails.\<close>

definition nftw_open :: "fsys \<Rightarrow> int \<Rightarrow> string \<Rightarrow> 'u walker \<Rightarrow> (nat \<times> string list option \<times> 'u walker) option" where
  "nftw_open fs flags dirname st =
     (if flag flags FTW_CHDIR
      then if \<not> fs_open fs (w_cwd st) then None
           else let fd = w_next st;
                    st1 = st\<lparr>w_fds := (w_fds st)(fd := Some (w_cwd st)), w_next := Suc fd\<rparr>;
                    st2 = (case fs_chdir fs (absolute (w_cwd st) dirname) of None \<Rightarrow> st1 | Some d \<Rightarrow> st1\<lparr>w_cwd := d\<rparr>)
                in Some (fd, fs_list fs (w_cwd st2), st2)
      else Some (0, fs_list fs (absolute (w_cwd st) dirname), st))"

fun t_nftw :: "nat \<Rightarrow> 'u callback \<Rightarrow> fsys \<Rightarrow> int \<Rightarrow> string \<Rightarrow> 'u walker \<Rightarrow> (int \<times> 'u walker) res" where
  "t_nftw 0 func fs flags dirname st = Inl Diverges"
| "t_nftw (Suc n) func fs flags dirname st =
     (if ftw_skip dirname then Inr (0, st)
      else if \<not> is_dir fs (w_cwd st) (Some dirname) None then Inr (0, st)
      else case nftw_open fs flags dirname st of None \<Rightarrow> Inr (0, st)
      | Some (fd, dirp, st1) \<Rightarrow>
          (case dirp of
             None \<Rightarrow> Inr (0, ftw_clean_chdir fd flags (snd (ftw_call func dirname None FTW_DNR st1)))
           | Some names \<Rightarrow>
               rbind (nftw_loop (nftw_entry (t_nftw n func fs flags) func fs flags dirname fd) names zero_stat False False
                       (st1\<lparr>w_streams := Suc (w_streams st1)\<rparr>))
                 (\<lambda>(v, st2). case v of None \<Rightarrow> Inr (0, closedir (ftw_clean_chdir fd flags st2))
                             | Some x \<Rightarrow> Inr (x, st2))))"

definition nftw_main :: "nat \<Rightarrow> fsys \<Rightarrow> string list \<Rightarrow> string walker \<Rightarrow> (int \<times> string walker) res" where
  "nftw_main fuel fs argv st = rbind (t_nftw fuel somefunc fs 0 (argv ! 1) st) (\<lambda>(v, st1). Inr (0, st1))"

section \<open>Specification\<close>

text \<open>
  A finite tree of files: what a status call says of each, and the entries of a directory that can be read. A
  \<open>Gone\<close> entry has no status, a \<open>Hidden\<close> directory is one \<^verbatim>\<open>ftw_skip\<close> rejects, a \<open>Sealed\<close> one can
  not be opened.
\<close>

datatype fnode = Gone | Plain stat | Hidden stat | Sealed stat | Folder stat "(string \<times> fnode) list"

text \<open>A call of the callback: pathname, status, type, and whether its result can end the walk.\<close>

type_synonym ftw_event = "string \<times> stat option \<times> int \<times> bool"

fun run_events :: "'u callback \<Rightarrow> ftw_event list \<Rightarrow> 'u \<Rightarrow> int \<times> 'u" where
  "run_events func [] u = (0, u)"
| "run_events func ((path, sb, type, heeded) # es) u =
     (case func path sb type u of (v, u1) \<Rightarrow> if heeded \<and> v \<noteq> 0 then (v, u1) else run_events func es u1)"

fun node_stat :: "stat \<Rightarrow> fnode \<Rightarrow> stat" where
  "node_stat buf Gone = buf"
| "node_stat buf (Plain b) = b"
| "node_stat buf (Hidden b) = b"
| "node_stat buf (Sealed b) = b"
| "node_stat buf (Folder b xs) = b"

definition node_type :: "fsys \<Rightarrow> string \<Rightarrow> string \<Rightarrow> fnode \<Rightarrow> int" where
  "node_type fs cwd p x = (case x of Gone \<Rightarrow> FTW_NS | Plain b \<Rightarrow> ftw_file_type fs cwd p b | _ \<Rightarrow> FTW_D)"

text \<open>
  The walk in preorder, or in postorder where every entry is reported as \<^verbatim>\<open>FTW_DP\<close>. The status of an entry
  without one is what the buffer holds from the entry before.
\<close>

fun below :: "bool \<Rightarrow> fsys \<Rightarrow> string \<Rightarrow> string \<Rightarrow> fnode \<Rightarrow> ftw_event list"
  and visit :: "bool \<Rightarrow> fsys \<Rightarrow> string \<Rightarrow> string \<Rightarrow> stat \<Rightarrow> (string \<times> fnode) list \<Rightarrow> ftw_event list" where
  "below post fs cwd p (Folder b xs) = visit post fs cwd p zero_stat xs"
| "below post fs cwd p (Sealed b) = [(p, None, FTW_DNR, False)]"
| "below post fs cwd p (Hidden b) = []"
| "below post fs cwd p (Plain b) = []"
| "below post fs cwd p Gone = []"
| "visit post fs cwd dir buf [] = []"
| "visit post fs cwd dir buf ((n, x) # xs) =
     (let p = join_path dir n; b = node_stat buf x in
      (if post then [] else [(p, Some b, node_type fs cwd p x, True)]) @
      below post fs cwd p x @
      (if post then [(p, Some b, FTW_DP, True)] else []) @
      visit post fs cwd dir b xs)"

definition is_dots :: "string \<Rightarrow> bool" where
  "is_dots n \<longleftrightarrow> n = ''.'' \<or> n = ''..''"

text \<open>The file system has this tree at a pathname.\<close>

definition opens :: "fsys \<Rightarrow> int \<Rightarrow> string \<Rightarrow> string \<Rightarrow> stat \<Rightarrow> bool" where
  "opens fs flags cwd p b \<longleftrightarrow> getstat fs cwd p flags = Some b \<and> is_dir_mode b \<and> \<not> ftw_skip p \<and> is_dir fs cwd (Some p) None"

fun represents :: "fsys \<Rightarrow> int \<Rightarrow> string \<Rightarrow> string \<Rightarrow> fnode \<Rightarrow> bool"
  and represents_list :: "fsys \<Rightarrow> int \<Rightarrow> string \<Rightarrow> string \<Rightarrow> (string \<times> fnode) list \<Rightarrow> bool" where
  "represents fs flags cwd p Gone \<longleftrightarrow> getstat fs cwd p flags = None \<and> \<not> is_dir fs cwd (Some p) None"
| "represents fs flags cwd p (Plain b) \<longleftrightarrow> getstat fs cwd p flags = Some b \<and> \<not> is_dir_mode b"
| "represents fs flags cwd p (Hidden b) \<longleftrightarrow> getstat fs cwd p flags = Some b \<and> is_dir_mode b \<and> ftw_skip p"
| "represents fs flags cwd p (Sealed b) \<longleftrightarrow> opens fs flags cwd p b \<and> fs_list fs (absolute cwd p) = None"
| "represents fs flags cwd p (Folder b xs) \<longleftrightarrow> opens fs flags cwd p b \<and>
     map_option (filter (\<lambda>n. \<not> is_dots n)) (fs_list fs (absolute cwd p)) = Some (map fst xs) \<and>
     represents_list fs flags cwd p xs"
| "represents_list fs flags cwd dir [] \<longleftrightarrow> True"
| "represents_list fs flags cwd dir ((n, x) # xs) \<longleftrightarrow>
     represents fs flags cwd (join_path dir n) x \<and> represents_list fs flags cwd dir xs"

fun depth :: "fnode \<Rightarrow> nat" and depth_list :: "(string \<times> fnode) list \<Rightarrow> nat" where
  "depth (Folder b xs) = Suc (depth_list xs)"
| "depth (Sealed b) = 0"
| "depth (Hidden b) = 0"
| "depth (Plain b) = 0"
| "depth Gone = 0"
| "depth_list [] = 0"
| "depth_list ((n, x) # xs) = max (depth x) (depth_list xs)"

text \<open>What the walk leaves as it was: memory, directory, descriptors and open streams.\<close>

definition undisturbed :: "'u walker \<Rightarrow> 'u walker \<Rightarrow> bool" where
  "undisturbed st st' \<longleftrightarrow> live st' = live st \<and> w_cwd st' = w_cwd st \<and> w_fds st' = w_fds st \<and>
     w_streams st' = w_streams st \<and> w_mount st' = w_mount st \<and> fails st' = fails st \<and> calls st \<le> calls st'"

definition plain_flags :: "int \<Rightarrow> bool" where
  "plain_flags flags \<longleftrightarrow> \<not> flag flags FTW_CHDIR \<and> \<not> flag flags FTW_MOUNT \<and> \<not> flag flags FTW_ACTIONRETVAL"

section \<open>The walk meets its specification\<close>

lemma run_events_append:
  "run_events func (es @ fs) u = (case run_events func es u of (v, u1) \<Rightarrow> if v \<noteq> 0 then (v, u1) else run_events func fs u1)"
  by (induction func es u rule: run_events.induct) (auto split: prod.splits)

lemma join_path_fits: "join_path dirname name = (if dirname = ''/'' then dirname @ name else dirname @ ''/'' @ name)"
  by (simp add: join_path_def snprintf_def)

lemma nftw_entry_dots: "is_dots n \<Longrightarrow> nftw_entry walk func fs flags dir fd n b s d st = Inr (Go b s d, st)"
  by (auto simp: nftw_entry_def is_dots_def)

lemma nftw_loop_dots:
  "nftw_loop (nftw_entry walk func fs flags dir fd) names b s d st =
   nftw_loop (nftw_entry walk func fs flags dir fd) (filter (\<lambda>n. \<not> is_dots n) names) b s d st"
proof (induction names arbitrary: b s d st)
  case (Cons n ns)
  show ?case
  proof (cases "is_dots n")
    case True
    then show ?thesis using Cons.IH by (simp add: nftw_entry_dots)
  next
    case False
    then show ?thesis using Cons.IH by (auto intro!: rbind_cong simp: split_def split: flow.split)
  qed
qed simp

lemma undisturbed_refl [simp]: "undisturbed st st"
  by (simp add: undisturbed_def)

lemma undisturbed_trans: "undisturbed a b \<Longrightarrow> undisturbed b c \<Longrightarrow> undisturbed a c"
  by (simp add: undisturbed_def)

text \<open>After an iteration: as before, but for the directory stream a returning iteration closes.\<close>

definition settled :: "'u walker \<Rightarrow> int \<Rightarrow> 'u walker \<Rightarrow> bool" where
  "settled st v st' \<longleftrightarrow> live st' = live st \<and> w_cwd st' = w_cwd st \<and> w_fds st' = w_fds st \<and>
     w_streams st' = (if v = 0 then w_streams st else w_streams st - 1) \<and> w_mount st' = w_mount st \<and>
     fails st' = fails st \<and> calls st \<le> calls st'"

definition good :: "'u walker \<Rightarrow> string \<Rightarrow> bool" where
  "good st cwd \<longleftrightarrow> ample st \<and> mem_ok st \<and> w_cwd st = cwd"

lemma good_settled: "good st cwd \<Longrightarrow> settled st v st' \<Longrightarrow> good st' cwd"
  by (auto simp: good_def settled_def ample_def mem_ok_def)

lemma settled_zero: "settled st 0 st' \<longleftrightarrow> undisturbed st st'"
  by (auto simp: settled_def undisturbed_def)

lemma settled_trans: "settled a 0 b \<Longrightarrow> settled b v c \<Longrightarrow> settled a v c"
  by (auto simp: settled_def)

lemma clean_plain: "plain_flags flags \<Longrightarrow> ftw_clean_chdir fd flags st = st"
  by (simp add: ftw_clean_chdir_def plain_flags_def)

lemma ftw_leave_run: "plain_flags flags \<Longrightarrow> p \<noteq> NULL \<Longrightarrow> p \<in> live st \<Longrightarrow>
  ftw_leave fd flags p v st = Inr (Return v, closedir (st\<lparr>live := live st - {p}\<rparr>))"
  by (simp add: ftw_leave_def clean_plain c_free_def)

text \<open>The calls before and after the descent, with one outcome for both orders.\<close>

definition call_if :: "bool \<Rightarrow> 'u callback \<Rightarrow> string \<Rightarrow> stat option \<Rightarrow> int \<Rightarrow> 'u \<Rightarrow> int \<times> 'u" where
  "call_if c func path sb type u = (if c then func path sb type u else (0, u))"

lemma nftw_pre_run:
  assumes "plain_flags flags" and "call_if (\<not> flag flags FTW_DEPTH) func path (Some b) ty (w_user st) = (v, u)"
  shows "nftw_pre func flags fd p path ty b s d st =
    (if v = 0 then Inr (Go b s d, st\<lparr>w_user := u\<rparr>) else ftw_leave fd flags p v (st\<lparr>w_user := u\<rparr>))"
  using assms by (auto simp: nftw_pre_def plain_flags_def ftw_call_def call_if_def split: if_splits)

lemma nftw_post_run:
  assumes "plain_flags flags" and "call_if (flag flags FTW_DEPTH) func path (Some b) FTW_DP (w_user st) = (v, u)"
  shows "nftw_post func flags fd p path b s d st =
    (if v = 0 then Inr (Go b s d, st\<lparr>w_user := u\<rparr>) else ftw_leave fd flags p v (st\<lparr>w_user := u\<rparr>))"
  using assms by (auto simp: nftw_post_def plain_flags_def ftw_call_def call_if_def split: if_splits)

lemma nftw_sub_run:
  assumes "plain_flags flags"
  shows "nftw_sub walk flags fd p path b False False st =
    (if is_dir_mode b then rbind (walk path st) (\<lambda>(v, st2). if v \<noteq> 0 then ftw_leave fd flags p v st2 else Inr (Go b False False, st2))
     else Inr (Go b False False, st))"
  using assms by (simp add: nftw_sub_def plain_flags_def Let_def)

lemma run_events_call:
  "run_events func (if c then [(path, sb, ty, True)] else []) u = call_if c func path sb ty u"
  by (auto simp: call_if_def split: prod.splits)

lemma nftw_entry_run:
  assumes fl: "plain_flags flags" and g: "good st cwd" and nd: "\<not> is_dots n"
    and st: "(case getstat fs cwd (join_path dir n) flags of None \<Rightarrow> (FTW_NS, buf) | Some b \<Rightarrow> (ftw_file_type fs cwd (join_path dir n) b, b)) = (ty, b)"
    and walk: "\<And>st. is_dir_mode b \<Longrightarrow> good st cwd \<Longrightarrow>
      \<exists>st'. walk (join_path dir n) st = Inr (fst (run_events func es (w_user st)), st') \<and>
        w_user st' = snd (run_events func es (w_user st)) \<and> undisturbed st st'"
    and none: "\<not> is_dir_mode b \<Longrightarrow> es = []"
    and res: "run_events func ((if \<not> flag flags FTW_DEPTH then [(join_path dir n, Some b, ty, True)] else []) @ es @
      (if flag flags FTW_DEPTH then [(join_path dir n, Some b, FTW_DP, True)] else [])) (w_user st) = (v, u)"
  shows "\<exists>st'. nftw_entry walk func fs flags dir fd n buf False False st =
      Inr (if v = 0 then Go b False False else Return v, st') \<and> w_user st' = u \<and> settled st v st'"
proof -
  let ?path = "join_path dir n" and ?p = "Suc (calls st)"
  let ?st1 = "st\<lparr>calls := Suc (calls st), live := insert ?p (live st)\<rparr>"
  have al: "c_alloc st = (?p, ?st1)" using g by (simp add: c_alloc_def good_def)
  have fresh: "?p \<notin> live st" using g mem_ok_fresh [of st] by (simp add: good_def)
  obtain v1 u1 where c1: "call_if (\<not> flag flags FTW_DEPTH) func ?path (Some b) ty (w_user st) = (v1, u1)" by fastforce
  obtain v2 u2 where c2: "run_events func es u1 = (v2, u2)" by fastforce
  obtain v3 u3 where c3: "call_if (flag flags FTW_DEPTH) func ?path (Some b) FTW_DP u2 = (v3, u3)" by fastforce
  have v: "(v, u) = (if v1 \<noteq> 0 then (v1, u1) else if v2 \<noteq> 0 then (v2, u2) else (v3, u3))"
  proof -
    have "run_events func (es @ (if flag flags FTW_DEPTH then [(?path, Some b, FTW_DP, True)] else [])) u1 =
        (if v2 \<noteq> 0 then (v2, u2) else (v3, u3))"
      unfolding run_events_append c2 prod.case run_events_call c3 by (cases "v2 = 0") (simp_all add: c3)
    then show ?thesis
      using res unfolding run_events_append [of func "if c then _ else _" for c] run_events_call c1 prod.case
      by (cases "v1 = 0"; cases "v2 = 0") simp_all
  qed
  let ?st2 = "?st1\<lparr>w_user := u1\<rparr>"
  have pre: "nftw_pre func flags fd ?p ?path ty b False False ?st1 =
      (if v1 = 0 then Inr (Go b False False, ?st2) else ftw_leave fd flags ?p v1 ?st2)"
    by (rule nftw_pre_run [OF fl]) (simp add: c1)
  have g2: "good ?st2 cwd" using g by (auto simp: good_def ample_def mem_ok_def)
  obtain st3 where sub: "(if is_dir_mode b then walk ?path ?st2 else Inr (0, ?st2)) = Inr (v2, st3)"
    and st3: "w_user st3 = u2" "undisturbed ?st2 st3"
    using walk [OF _ g2] none c2 by (cases "is_dir_mode b") auto
  have post: "nftw_post func flags fd ?p ?path b False False st3 =
      (if v3 = 0 then Inr (Go b False False, st3\<lparr>w_user := u3\<rparr>) else ftw_leave fd flags ?p v3 (st3\<lparr>w_user := u3\<rparr>))"
    by (rule nftw_post_run [OF fl]) (simp add: st3 c3)
  have l3: "?p \<in> live st3" "live st3 - {?p} = live st" using st3(2) fresh by (auto simp: undisturbed_def)
  have go: "nftw_entry walk func fs flags dir fd n buf False False st =
      flow_bind (nftw_pre func flags fd ?p ?path ty b False False ?st1) (\<lambda>b s d st2.
      flow_bind (nftw_sub walk flags fd ?p ?path b s d st2) (\<lambda>b s d st3.
      flow_bind (nftw_post func flags fd ?p ?path b s d st3) (\<lambda>b s d st4.
      rbind (c_free ?p st4) (\<lambda>st5. Inr (Go b s d, st5)))))"
  proof -
    have cw: "w_cwd ?st1 = cwd" using g by (simp add: good_def)
    show ?thesis using nd unfolding nftw_entry_def is_dots_def al Let_def prod.case cw st by simp
  qed
  show ?thesis
  proof (cases "v1 = 0")
    case False
    have "nftw_entry walk func fs flags dir fd n buf False False st =
        Inr (Return v1, closedir (?st2\<lparr>live := live ?st2 - {?p}\<rparr>))"
      unfolding go pre using False by (simp add: flow_bind_def ftw_leave_run [OF fl])
    then show ?thesis using False v fresh by (auto simp: settled_def closedir_def)
  next
    case v1: True
    have s2: "nftw_sub walk flags fd ?p ?path b False False ?st2 =
        (if v2 = 0 then Inr (Go b False False, st3) else ftw_leave fd flags ?p v2 st3)"
      unfolding nftw_sub_run [OF fl] using sub c2 none by (auto split: if_splits)
    show ?thesis
    proof (cases "v2 = 0")
      case False
      have "nftw_entry walk func fs flags dir fd n buf False False st =
          Inr (Return v2, closedir (st3\<lparr>live := live st3 - {?p}\<rparr>))"
        unfolding go pre using v1 False l3 s2 by (simp add: flow_bind_def ftw_leave_run [OF fl])
      then show ?thesis using v1 False v l3 st3 by (auto simp: settled_def closedir_def undisturbed_def)
    next
      case v2: True
      show ?thesis
      proof (cases "v3 = 0")
        case False
        have "nftw_entry walk func fs flags dir fd n buf False False st =
            Inr (Return v3, closedir (st3\<lparr>w_user := u3, live := live st3 - {?p}\<rparr>))"
          unfolding go pre using v1 v2 False l3 s2 post by (simp add: flow_bind_def ftw_leave_run [OF fl])
        then show ?thesis using v1 v2 False v l3 st3 by (auto simp: settled_def closedir_def undisturbed_def)
      next
        case True
        have "nftw_entry walk func fs flags dir fd n buf False False st =
            Inr (Go b False False, st3\<lparr>w_user := u3, live := live st3 - {?p}\<rparr>)"
          unfolding go pre using v1 v2 True l3 s2 post by (simp add: flow_bind_def c_free_def)
        then show ?thesis using v1 v2 True v l3 st3 by (auto simp: settled_def undisturbed_def)
      qed
    qed
  qed
qed

lemma node_stat_case:
  assumes "represents fs flags cwd p x"
  shows "(case getstat fs cwd p flags of None \<Rightarrow> (FTW_NS, buf) | Some b \<Rightarrow> (ftw_file_type fs cwd p b, b)) =
    (node_type fs cwd p x, node_stat buf x)"
  using assms
  by (cases x) (auto simp: node_type_def opens_def ftw_file_type_def is_dir_mode_def S_IFDIR_def S_IFLNK_def)

lemma below_not_dir: "represents fs flags cwd p x \<Longrightarrow> x \<noteq> Gone \<Longrightarrow> \<not> is_dir_mode (node_stat buf x) \<Longrightarrow> below post fs cwd p x = []"
  by (cases x) (auto simp: opens_def)

lemma visit_Cons:
  "visit post fs cwd dir buf ((n, x) # xs) =
    ((if \<not> post then [(join_path dir n, Some (node_stat buf x), node_type fs cwd (join_path dir n) x, True)] else []) @
     below post fs cwd (join_path dir n) x @
     (if post then [(join_path dir n, Some (node_stat buf x), FTW_DP, True)] else [])) @
    visit post fs cwd dir (node_stat buf x) xs"
  by (simp add: Let_def)

text \<open>A walk of a node and of a list of entries.\<close>

definition walk_ok :: "nat \<Rightarrow> 'u callback \<Rightarrow> fsys \<Rightarrow> int \<Rightarrow> string \<Rightarrow> string \<Rightarrow> fnode \<Rightarrow> bool" where
  "walk_ok fuel func fs flags cwd p x \<longleftrightarrow> (\<forall>st. good st cwd \<longrightarrow>
     (\<exists>st'. t_nftw fuel func fs flags p st = Inr (fst (run_events func (below (flag flags FTW_DEPTH) fs cwd p x) (w_user st)), st') \<and>
        w_user st' = snd (run_events func (below (flag flags FTW_DEPTH) fs cwd p x) (w_user st)) \<and> undisturbed st st'))"

lemma walk_okD:
  assumes "walk_ok fuel func fs flags cwd p x" and "good st cwd"
  shows "\<exists>st'. t_nftw fuel func fs flags p st = Inr (fst (run_events func (below (flag flags FTW_DEPTH) fs cwd p x) (w_user st)), st') \<and>
    w_user st' = snd (run_events func (below (flag flags FTW_DEPTH) fs cwd p x) (w_user st)) \<and> undisturbed st st'"
  using assms by (simp add: walk_ok_def)

lemma loop_step:
  assumes fl: "plain_flags flags" and g: "good st cwd" and nd: "\<not> is_dots n"
    and rep: "represents fs flags cwd (join_path dir n) x"
    and walk: "is_dir_mode (node_stat buf x) \<Longrightarrow> walk_ok fuel func fs flags cwd (join_path dir n) x"
    and rest: "\<And>st buf. good st cwd \<Longrightarrow> \<exists>st'. nftw_loop (nftw_entry (t_nftw fuel func fs flags) func fs flags dir fd) names buf False False st =
      Inr (if fst (run_events func (visit (flag flags FTW_DEPTH) fs cwd dir buf xs) (w_user st)) = 0 then None
           else Some (fst (run_events func (visit (flag flags FTW_DEPTH) fs cwd dir buf xs) (w_user st))), st') \<and>
      w_user st' = snd (run_events func (visit (flag flags FTW_DEPTH) fs cwd dir buf xs) (w_user st)) \<and>
      settled st (fst (run_events func (visit (flag flags FTW_DEPTH) fs cwd dir buf xs) (w_user st))) st'"
  shows "\<exists>st'. nftw_loop (nftw_entry (t_nftw fuel func fs flags) func fs flags dir fd) (n # names) buf False False st =
      Inr (if fst (run_events func (visit (flag flags FTW_DEPTH) fs cwd dir buf ((n, x) # xs)) (w_user st)) = 0 then None
           else Some (fst (run_events func (visit (flag flags FTW_DEPTH) fs cwd dir buf ((n, x) # xs)) (w_user st))), st') \<and>
      w_user st' = snd (run_events func (visit (flag flags FTW_DEPTH) fs cwd dir buf ((n, x) # xs)) (w_user st)) \<and>
      settled st (fst (run_events func (visit (flag flags FTW_DEPTH) fs cwd dir buf ((n, x) # xs)) (w_user st))) st'"
proof -
  let ?d = "flag flags FTW_DEPTH" and ?p = "join_path dir n" and ?b = "node_stat buf x"
  let ?es = "(if \<not> ?d then [(?p, Some ?b, node_type fs cwd ?p x, True)] else []) @ below ?d fs cwd ?p x @
     (if ?d then [(?p, Some ?b, FTW_DP, True)] else [])"
  obtain v u where vu: "run_events func ?es (w_user st) = (v, u)" by fastforce
  have ent: "\<exists>st'. nftw_entry (t_nftw fuel func fs flags) func fs flags dir fd n buf False False st =
      Inr (if v = 0 then Go ?b False False else Return v, st') \<and> w_user st' = u \<and> settled st v st'"
  proof (rule nftw_entry_run [OF fl g nd node_stat_case [OF rep] _ _ vu])
    show "\<not> is_dir_mode ?b \<Longrightarrow> below ?d fs cwd ?p x = []"
      using below_not_dir [OF rep] by (cases x) auto
  next
    fix st :: "'a walker"
    assume "is_dir_mode ?b" "good st cwd"
    then show "\<exists>st'. t_nftw fuel func fs flags ?p st = Inr (fst (run_events func (below ?d fs cwd ?p x) (w_user st)), st') \<and>
        w_user st' = snd (run_events func (below ?d fs cwd ?p x) (w_user st)) \<and> undisturbed st st'"
      using walk_okD [OF walk] by blast
  qed
  then obtain st1 where e: "nftw_entry (t_nftw fuel func fs flags) func fs flags dir fd n buf False False st =
      Inr (if v = 0 then Go ?b False False else Return v, st1)" "w_user st1 = u" "settled st v st1" by blast
  have run: "run_events func (visit ?d fs cwd dir buf ((n, x) # xs)) (w_user st) =
      (if v \<noteq> 0 then (v, u) else run_events func (visit ?d fs cwd dir ?b xs) u)"
    unfolding visit_Cons run_events_append [of func ?es] vu by simp
  show ?thesis
  proof (cases "v = 0")
    case True
    obtain st2 where "nftw_loop (nftw_entry (t_nftw fuel func fs flags) func fs flags dir fd) names ?b False False st1 =
      Inr (if fst (run_events func (visit ?d fs cwd dir ?b xs) u) = 0 then None
           else Some (fst (run_events func (visit ?d fs cwd dir ?b xs) u)), st2)"
      "w_user st2 = snd (run_events func (visit ?d fs cwd dir ?b xs) u)"
      "settled st1 (fst (run_events func (visit ?d fs cwd dir ?b xs) u)) st2"
      using rest [OF good_settled [OF g e(3)], of ?b] e(2) by auto
    then show ?thesis using True e(1) run settled_trans [of st st1] e(3) by auto
  next
    case False
    then show ?thesis using e run by simp
  qed
qed

lemma t_nftw_closed: "ftw_skip p \<or> \<not> is_dir fs (w_cwd st) (Some p) None \<Longrightarrow> t_nftw (Suc n) func fs flags p st = Inr (0, st)"
  by auto

lemma filter_dots: "map_option (filter (\<lambda>n. \<not> is_dots n)) m = Some ns \<Longrightarrow> \<exists>names. m = Some names \<and> ns = filter (\<lambda>n. \<not> is_dots n) names \<and>
    (\<forall>n \<in> set ns. \<not> is_dots n)"
  by (cases m) auto

lemma walk_all:
  assumes fl: "plain_flags flags"
  shows "represents fs flags cwd p x \<Longrightarrow> depth x < fuel \<Longrightarrow> (\<And>b. x \<noteq> Plain b) \<Longrightarrow> walk_ok fuel func fs flags cwd p x"
    and "represents_list fs flags cwd dir xs \<Longrightarrow> depth_list xs < fuel \<Longrightarrow> (\<forall>n \<in> set (map fst xs). \<not> is_dots n) \<Longrightarrow> good st cwd \<Longrightarrow>
      \<exists>st'. nftw_loop (nftw_entry (t_nftw fuel func fs flags) func fs flags dir fd) (map fst xs) buf False False st =
      Inr (if fst (run_events func (visit (flag flags FTW_DEPTH) fs cwd dir buf xs) (w_user st)) = 0 then None
           else Some (fst (run_events func (visit (flag flags FTW_DEPTH) fs cwd dir buf xs) (w_user st))), st') \<and>
      w_user st' = snd (run_events func (visit (flag flags FTW_DEPTH) fs cwd dir buf xs) (w_user st)) \<and>
      settled st (fst (run_events func (visit (flag flags FTW_DEPTH) fs cwd dir buf xs) (w_user st))) st'"
proof (induction x and xs arbitrary: p b fuel and dir fuel st buf fd rule: depth_depth_list.induct)
  case (1 b0 xs)
  let ?d = "flag flags FTW_DEPTH"
  obtain n where n: "fuel = Suc n" using "1.prems"(2) by (cases fuel) auto
  have op: "opens fs flags cwd p b0" and rep: "represents_list fs flags cwd p xs"
    and fm: "map_option (filter (\<lambda>n. \<not> is_dots n)) (fs_list fs (absolute cwd p)) = Some (map fst xs)"
    using "1.prems"(1) by simp_all
  obtain names where names: "fs_list fs (absolute cwd p) = Some names" "map fst xs = filter (\<lambda>n. \<not> is_dots n) names"
    "\<forall>n \<in> set (map fst xs). \<not> is_dots n"
    using filter_dots [OF fm] by metis
  have dn: "depth_list xs < n" using "1.prems"(2) n by simp
  show ?case
    unfolding walk_ok_def below.simps
  proof (intro allI impI)
    fix st :: "'a walker"
    assume g: "good st cwd"
    let ?st1 = "st\<lparr>w_streams := Suc (w_streams st)\<rparr>"
    obtain v u where r: "run_events func (visit ?d fs cwd p zero_stat xs) (w_user st) = (v, u)" by fastforce
    have g1: "good ?st1 cwd" using g by (simp add: good_def ample_def mem_ok_def)
    obtain st2 where st2: "nftw_loop (nftw_entry (t_nftw n func fs flags) func fs flags p 0) (map fst xs) zero_stat False False ?st1 =
        Inr (if v = 0 then None else Some v, st2)" "w_user st2 = u" "settled ?st1 v st2"
      using "1.IH" [OF rep dn names(3) g1, of 0 zero_stat] r by auto
    have loop: "nftw_loop (nftw_entry (t_nftw n func fs flags) func fs flags p 0) names zero_stat False False ?st1 =
        Inr (if v = 0 then None else Some v, st2)"
      using st2(1) unfolding names(2) nftw_loop_dots [symmetric] .
    have "nftw_open fs flags p st = Some (0, Some names, st)"
      using fl names(1) g by (simp add: nftw_open_def plain_flags_def good_def)
    then have "t_nftw fuel func fs flags p st = Inr (v, if v = 0 then closedir st2 else st2)"
      using op g loop n by (simp add: opens_def good_def clean_plain [OF fl])
    moreover have "undisturbed st (if v = 0 then closedir st2 else st2)"
      using st2(3) by (auto simp: settled_def undisturbed_def closedir_def)
    moreover have "w_user (if v = 0 then closedir st2 else st2) = u" using st2(2) by (simp add: closedir_def)
    ultimately show "\<exists>st'. t_nftw fuel func fs flags p st = Inr (fst (run_events func (visit ?d fs cwd p zero_stat xs) (w_user st)), st') \<and>
        w_user st' = snd (run_events func (visit ?d fs cwd p zero_stat xs) (w_user st)) \<and> undisturbed st st'"
      unfolding r by auto
  qed
next
  case (2 b0)
  obtain n where n: "fuel = Suc n" using "2.prems"(2) by (cases fuel) auto
  show ?case
    unfolding walk_ok_def
  proof (intro allI impI)
    fix st :: "'a walker"
    assume "good st cwd"
    then have "\<not> ftw_skip p" "is_dir fs (w_cwd st) (Some p) None" "fs_list fs (absolute (w_cwd st) p) = None"
      using "2.prems"(1) by (auto simp: opens_def good_def)
    then show "\<exists>st'. t_nftw fuel func fs flags p st = Inr (fst (run_events func (below (flag flags FTW_DEPTH) fs cwd p (Sealed b0)) (w_user st)), st') \<and>
        w_user st' = snd (run_events func (below (flag flags FTW_DEPTH) fs cwd p (Sealed b0)) (w_user st)) \<and> undisturbed st st'"
      using fl n by (auto simp: nftw_open_def plain_flags_def ftw_clean_chdir_def ftw_call_def undisturbed_def split: prod.splits)
  qed
next
  case (3 b0)
  obtain n where n: "fuel = Suc n" using "3.prems"(2) by (cases fuel) auto
  show ?case unfolding walk_ok_def n using "3.prems"(1) by (auto simp: good_def simp del: t_nftw.simps intro!: t_nftw_closed)
next
  case (4 b0)
  then show ?case by blast
next
  case 5
  obtain n where n: "fuel = Suc n" using "5.prems"(2) by (cases fuel) auto
  show ?case unfolding walk_ok_def n using "5.prems"(1) by (auto simp: good_def simp del: t_nftw.simps intro!: t_nftw_closed)
next
  case 6
  then show ?case by (simp add: settled_def)
next
  case (7 n x xs)
  have rep: "represents fs flags cwd (join_path dir n) x" "represents_list fs flags cwd dir xs" using "7.prems"(1) by simp_all
  have d: "depth x < fuel" "depth_list xs < fuel" using "7.prems"(2) by simp_all
  have nd: "\<not> is_dots n" "\<forall>n \<in> set (map fst xs). \<not> is_dots n" using "7.prems"(3) by simp_all
  have w: "is_dir_mode (node_stat buf x) \<Longrightarrow> walk_ok fuel func fs flags cwd (join_path dir n) x"
    using "7.IH"(1) [OF rep(1) d(1)] rep(1) by (cases x) auto
  show ?case
    unfolding list.map fst_conv
    by (rule loop_step [OF fl "7.prems"(4) nd(1) rep(1)]) (erule w, rule "7.IH"(2) [OF rep(2) d(2) nd(2)])
qed

section \<open>Paths that are skipped\<close>

lemma ftw_skip_suffix: "ftw_skip p \<longleftrightarrow> (\<exists>t \<in> {''/dev/fd'', ''/proc'', ''/sys'', ''/usr/bin/X11''}. suffix t p)"
  by (induction p) (auto simp: suffix_Cons)

section \<open>Skipping a subtree\<close>

lemma nftw_pre_skipping: "nftw_pre func flags fd p path ty b True d st = Inr (Go b' s d', st') \<Longrightarrow> s"
  by (auto simp: nftw_pre_def ftw_leave_def ftw_break_def rbind_eq_Inr split: if_splits prod.splits)

lemma nftw_post_skipping: "nftw_post func flags fd p path b True d st = Inr (Go b' s d', st') \<Longrightarrow> s"
  by (auto simp: nftw_post_def ftw_leave_def ftw_break_def rbind_eq_Inr split: if_splits prod.splits)

lemma nftw_sub_skipping:
  "nftw_sub walk flags fd p path b True d st = nftw_sub walk' flags fd p path b True d st"
  "nftw_sub walk flags fd p path b True d st = Inr (Go b' s d', st') \<Longrightarrow> s"
  by (auto simp: nftw_sub_def Let_def split: if_splits)

lemma flow_bind_eq_Go:
  "flow_bind m f = Inr (Go b s d, st) \<longleftrightarrow> (\<exists>b' s' d' st'. m = Inr (Go b' s' d', st') \<and> f b' s' d' st' = Inr (Go b s d, st))"
  by (cases m) (auto simp: flow_bind_def split: flow.splits)

lemma flow_bind_cong:
  "(\<And>b s d st. m = Inr (Go b s d, st) \<Longrightarrow> f b s d st = g b s d st) \<Longrightarrow> flow_bind m f = flow_bind m g"
  by (cases m) (auto simp: flow_bind_def split: flow.splits)

lemma nftw_entry_skipping:
  "nftw_entry walk func fs flags dir fd n buf True d st = nftw_entry walk' func fs flags dir fd n buf True d st"
  "nftw_entry walk func fs flags dir fd n buf True d st = Inr (Go b s d', st') \<Longrightarrow> s"
proof -
  show "nftw_entry walk func fs flags dir fd n buf True d st = nftw_entry walk' func fs flags dir fd n buf True d st"
    unfolding nftw_entry_def Let_def
    by (auto split: prod.splits intro!: flow_bind_cong dest!: nftw_pre_skipping) (simp add: nftw_sub_skipping(1) [of walk _ _ _ _ _ _ _ walk'])
  show "nftw_entry walk func fs flags dir fd n buf True d st = Inr (Go b s d', st') \<Longrightarrow> s"
    unfolding nftw_entry_def Let_def
    by (auto simp: flow_bind_eq_Go rbind_eq_Inr split: prod.splits if_splits
        dest!: nftw_pre_skipping nftw_sub_skipping(2) nftw_post_skipping)
qed

lemma nftw_loop_skipping:
  "nftw_loop (nftw_entry walk func fs flags dir fd) names buf True d st =
   nftw_loop (nftw_entry walk' func fs flags dir fd) names buf True d st"
proof (induction names arbitrary: buf d st)
  case (Cons n ns)
  show ?case
    unfolding nftw_loop.simps nftw_entry_skipping(1) [of walk func fs flags dir fd n buf d st walk']
    by (auto intro!: rbind_cong split: flow.split dest!: nftw_entry_skipping(2) simp: Cons.IH)
qed simp

section \<open>Properties\<close>

definition ex_stat :: "32 word \<Rightarrow> stat" where
  "ex_stat m = zero_stat\<lparr>st_mode := m\<rparr>"

definition ex_fs :: fsys where
  "ex_fs =
     (let status = (\<lambda>f. if f = ''/d'' \<or> f = ''/d/s'' then Some (ex_stat S_IFDIR)
         else if f = ''/d/a'' \<or> f = ''/d/s/b'' then Some (ex_stat S_IFREG) else None)
      in \<lparr>fs_stat = status, fs_lstat = status, fs_access = (\<lambda>f. status f \<noteq> None),
          fs_list = [''/d'' \<mapsto> [''.'', ''a'', ''..'', ''s''], ''/d/s'' \<mapsto> [''b'', ''.'', ''..'']],
          fs_chdir = Some, fs_open = (\<lambda>_. True)\<rparr>)"

definition ex_walker :: "'u \<Rightarrow> 'u walker" where
  "ex_walker u = \<lparr>calls = 0, fails = (\<lambda>_. False), live = {}, w_cwd = ''/home'', w_fds = (\<lambda>_. None), w_next = 3,
     w_streams = 0, w_mount = 0, w_user = u\<rparr>"

text \<open>C19: on a finite tree of files, with any callback and without \<^verbatim>\<open>FTW_CHDIR\<close>, \<^verbatim>\<open>FTW_MOUNT\<close> and
  \<^verbatim>\<open>FTW_ACTIONRETVAL\<close>, \<^verbatim>\<open>t_nftw\<close> ends, calls the callback for every entry in preorder (in postorder with
  \<^verbatim>\<open>FTW_DEPTH\<close>) until a call returns a value other than 0, returns this value or 0, and then has freed all its memory
  and closed every directory.\<close>

theorem nftw_walk:
  assumes "plain_flags flags" and "represents fs flags cwd dirname (Folder b xs)" and "depth (Folder b xs) < fuel"
    and "ample st" and "mem_ok st" and "w_cwd st = cwd"
  shows "\<exists>st'. t_nftw fuel func fs flags dirname st =
      Inr (fst (run_events func (visit (flag flags FTW_DEPTH) fs cwd dirname zero_stat xs) (w_user st)), st') \<and>
    w_user st' = snd (run_events func (visit (flag flags FTW_DEPTH) fs cwd dirname zero_stat xs) (w_user st)) \<and>
    undisturbed st st'"
proof -
  have "walk_ok fuel func fs flags cwd dirname (Folder b xs)" by (rule walk_all(1) [OF assms(1-3)]) simp
  moreover have "good st cwd" using assms(4-6) by (simp add: good_def)
  ultimately show ?thesis using walk_okD by fastforce
qed

theorem nftw_walk_witness:
  "\<exists>st'. t_nftw 3 somefunc ex_fs 0 ''/d'' (ex_walker []) = Inr (0, st') \<and> undisturbed (ex_walker []) st' \<and>
    w_user st' = ''FTW_F: /d/a'' @ newline @ ''FTW_D: /d/s'' @ newline @ ''FTW_F: /d/s/b'' @ newline"
proof -
  let ?xs = "[(''a'', Plain (ex_stat S_IFREG)), (''s'', Folder (ex_stat S_IFDIR) [(''b'', Plain (ex_stat S_IFREG))])]"
  have fl: "plain_flags 0" "\<not> flag 0 FTW_DEPTH" "\<not> flag 0 FTW_PHYS" by (simp_all add: plain_flags_def flag_def)
  note defs = join_path_fits ex_fs_def Let_def getstat_def absolute_def is_dir_def is_dir_mode_def ex_stat_def mode_types opens_def
    is_dots_def fl ftw_skip_suffix suffix_def
  have rep: "represents ex_fs 0 ''/home'' ''/d'' (Folder (ex_stat S_IFDIR) ?xs)"
    by (simp add: defs)
  have vis: "visit False ex_fs ''/home'' ''/d'' zero_stat ?xs =
      [(''/d/a'', Some (ex_stat S_IFREG), FTW_F, True), (''/d/s'', Some (ex_stat S_IFDIR), FTW_D, True),
       (''/d/s/b'', Some (ex_stat S_IFREG), FTW_F, True)]"
    by (simp add: join_path_fits Let_def node_type_def ftw_file_type_def ex_stat_def mode_types)
  have run: "run_events somefunc [(''/d/a'', Some (ex_stat S_IFREG), FTW_F, True), (''/d/s'', Some (ex_stat S_IFDIR), FTW_D, True),
       (''/d/s/b'', Some (ex_stat S_IFREG), FTW_F, True)] [] =
      (0, ''FTW_F: /d/a'' @ newline @ ''FTW_D: /d/s'' @ newline @ ''FTW_F: /d/s/b'' @ newline)"
    by (simp add: somefunc_def FTW_F_def FTW_D_def FTW_DNR_def FTW_DP_def)
  have st: "ample (ex_walker [])" "mem_ok (ex_walker [])" "w_cwd (ex_walker []) = ''/home''" "w_user (ex_walker []) = []"
    by (simp_all add: ex_walker_def ample_def mem_ok_def)
  have fd: "flag 0 FTW_DEPTH = False" using fl(2) by simp
  have dp: "depth (Folder (ex_stat S_IFDIR) ?xs) < 3" by simp
  note w = nftw_walk [OF fl(1) rep dp st(1-3), where func = somefunc, unfolded fd vis st(4) run fst_conv snd_conv]
  show ?thesis using w by (elim exE conjE) (intro exI conjI)
qed

text \<open>A directory is skipped, whatever it is, when its pathname ends in \<^verbatim>\<open>/proc\<close>, \<^verbatim>\<open>/sys\<close>, \<^verbatim>\<open>/dev/fd\<close> or
  \<^verbatim>\<open>/usr/bin/X11\<close>, not only when it is one of these.\<close>

theorem nftw_skips_by_suffix:
  "(ftw_skip dirname \<longleftrightarrow> (\<exists>t \<in> {''/dev/fd'', ''/proc'', ''/sys'', ''/usr/bin/X11''}. suffix t dirname)) \<and>
   t_nftw (Suc n) func fs flags (home @ ''/proc'') st = Inr (0, st)"
proof -
  have "ftw_skip (home @ ''/proc'')" by (simp add: ftw_skip_suffix suffix_def)
  then show ?thesis using ftw_skip_suffix by auto
qed

text \<open>With \<^verbatim>\<open>FTW_ACTIONRETVAL\<close> the result \<^verbatim>\<open>FTW_CONTINUE\<close> ends the walk at the first entry, and after one
  \<^verbatim>\<open>FTW_SKIP_SUBTREE\<close> no later entry of the directory is descended into: the loop is the same for every recursive
  call.\<close>

theorem nftw_action_results:
  assumes "flag flags FTW_ACTIONRETVAL" and "\<not> flag flags FTW_CHDIR" and "\<not> flag flags FTW_DEPTH"
    and "ample st" and "mem_ok st" and "opens fs flags (w_cwd st) dirname b"
    and "fs_list fs (absolute (w_cwd st) dirname) = Some (n # names)" and "\<not> is_dots n"
    and "\<And>sb ty. func (join_path dirname n) sb ty (w_user st) = (FTW_CONTINUE, u)"
  shows "(\<exists>st'. t_nftw (Suc fuel) func fs flags dirname st = Inr (FTW_CONTINUE, st') \<and> w_user st' = u) \<and>
    nftw_loop (nftw_entry walk func fs flags dirname fd) names buf True skip_mount st =
    nftw_loop (nftw_entry walk' func fs flags dirname fd) names buf True skip_mount st"
proof
  let ?st = "st\<lparr>w_streams := Suc (w_streams st)\<rparr>"
  let ?p = "Suc (calls st)"
  let ?st1 = "?st\<lparr>calls := ?p, live := insert ?p (live st)\<rparr>"
  have al: "c_alloc ?st = (?p, ?st1)" using assms(4) by (simp add: c_alloc_def)
  have pre: "\<exists>st'. nftw_pre func flags 0 ?p (join_path dirname n) ty sb False False ?st1 = Inr (Return FTW_CONTINUE, st') \<and> w_user st' = u"
    for ty sb
    using assms(1-3,9) by (simp add: nftw_pre_def ftw_call_def ftw_leave_def ftw_clean_chdir_def c_free_def closedir_def FTW_CONTINUE_def)
  obtain ty sb where ts: "(case getstat fs (w_cwd ?st1) (join_path dirname n) flags of None \<Rightarrow> (FTW_NS, zero_stat)
      | Some b \<Rightarrow> (ftw_file_type fs (w_cwd ?st1) (join_path dirname n) b, b)) = (ty, sb)"
    by fastforce
  obtain st' where st': "nftw_pre func flags 0 ?p (join_path dirname n) ty sb False False ?st1 = Inr (Return FTW_CONTINUE, st')" "w_user st' = u"
    using pre by blast
  have "nftw_entry (t_nftw fuel func fs flags) func fs flags dirname 0 n zero_stat False False ?st = Inr (Return FTW_CONTINUE, st')"
    using assms(8) unfolding nftw_entry_def is_dots_def al Let_def prod.case ts by (simp add: flow_bind_def st')
  moreover have "nftw_open fs flags dirname st = Some (0, Some (n # names), st)" using assms(2,7) by (simp add: nftw_open_def)
  ultimately have "t_nftw (Suc fuel) func fs flags dirname st = Inr (FTW_CONTINUE, st')"
    using assms(6) by (simp add: opens_def)
  then show "\<exists>st'. t_nftw (Suc fuel) func fs flags dirname st = Inr (FTW_CONTINUE, st') \<and> w_user st' = u" using st'(2) by blast
qed (rule nftw_loop_skipping)

theorem nftw_action_results_witness:
  "\<exists>st'. t_nftw 5 (\<lambda>path sb ty u. (FTW_CONTINUE, u @ [path])) (ex_fs\<lparr>fs_list := [''/d'' \<mapsto> [''a'', ''s'']]\<rparr>) FTW_ACTIONRETVAL ''/d''
      (ex_walker []) = Inr (FTW_CONTINUE, st') \<and> w_user st' = [''/d/a'']"
proof -
  let ?fs = "ex_fs\<lparr>fs_list := [''/d'' \<mapsto> [''a'', ''s'']]\<rparr>" and ?st = "ex_walker [] :: string list walker"
  have fl: "flag FTW_ACTIONRETVAL FTW_ACTIONRETVAL" "\<not> flag FTW_ACTIONRETVAL FTW_CHDIR" "\<not> flag FTW_ACTIONRETVAL FTW_DEPTH"
    "\<not> flag FTW_ACTIONRETVAL FTW_PHYS"
    by (simp_all add: flag_def FTW_ACTIONRETVAL_def FTW_CHDIR_def FTW_DEPTH_def FTW_PHYS_def)
  have "opens ?fs FTW_ACTIONRETVAL (w_cwd ?st) ''/d'' (ex_stat S_IFDIR)"
    using fl(4) by (simp add: opens_def ex_walker_def ex_fs_def Let_def getstat_def absolute_def is_dir_def is_dir_mode_def ex_stat_def
        mode_types ftw_skip_suffix suffix_def)
  moreover have "fs_list ?fs (absolute (w_cwd ?st) ''/d'') = Some (''a'' # [''s''])" "ample ?st" "mem_ok ?st" "\<not> is_dots ''a''"
    by (simp_all add: absolute_def ex_walker_def ample_def mem_ok_def is_dots_def)
  ultimately show ?thesis
    using nftw_action_results [OF fl(1-3), of ?st ?fs "''/d''" "ex_stat S_IFDIR" "''a''" "[''s'']"
        "\<lambda>path sb ty u. (FTW_CONTINUE, u @ [path])" "[''/d/a'']" 4]
    by (simp add: join_path_fits ex_walker_def numeral_eq_Suc)
qed

end
