(* ===== verification/Elf_Header.thy ===== *)
theory Elf_Header
  imports C_Text Byte_Order
begin

text \<open>
  The reader of ELF headers, \<^verbatim>\<open>41-shared-libraries/experiments/read_elf_header.c\<close>. A file is its list of bytes;
  \<^verbatim>\<open>read\<close> copies them into the struct, which has no padding on a machine of the x86 family, whose integers are
  little-endian. The byte order of a file is its own: \<^verbatim>\<open>e_ident[EI_DATA]\<close> names it, and \<open>header_bytes\<close> follows it. A function is
  its result and the text it prints.
\<close>

unbundle bit_operations_syntax

section \<open>Header\<close>

definition ET_NONE :: "16 word" where "ET_NONE = 0"

definition ET_REL :: "16 word" where "ET_REL = 1"

definition ET_EXEC :: "16 word" where "ET_EXEC = 2"

definition ET_DYN :: "16 word" where "ET_DYN = 3"

definition ET_CORE :: "16 word" where "ET_CORE = 4"

definition ET_LOPROC :: "16 word" where "ET_LOPROC = 0xFF00"

definition ET_HIPROC :: "16 word" where "ET_HIPROC = 0xFFFF"

definition EM_NONE :: "16 word" where "EM_NONE = 0"

definition EM_M32 :: "16 word" where "EM_M32 = 1"

definition EM_SPARC :: "16 word" where "EM_SPARC = 2"

definition EM_386 :: "16 word" where "EM_386 = 3"

definition EM_68K :: "16 word" where "EM_68K = 4"

definition EM_88K :: "16 word" where "EM_88K = 5"

definition EM_860 :: "16 word" where "EM_860 = 7"

definition EM_MIPS :: "16 word" where "EM_MIPS = 8"

definition EV_CURRENT :: "32 word" where "EV_CURRENT = 1"

definition EI_DATA :: nat where "EI_DATA = 5"

definition ELFDATA2LSB :: "8 word" where "ELFDATA2LSB = 1"

definition ELFDATA2MSB :: "8 word" where "ELFDATA2MSB = 2"

definition EI_NIDENT :: nat where "EI_NIDENT = 16"

record elf_header =
  e_ident :: "8 word list"
  e_type :: "16 word"
  e_machine :: "16 word"
  e_version :: "32 word"
  e_entry :: "32 word"
  e_phoff :: "32 word"
  e_shoff :: "32 word"
  e_flags :: "32 word"
  e_ehsize :: "16 word"
  e_phentsize :: "16 word"
  e_phnum :: "16 word"
  e_shentsize :: "16 word"
  e_shnum :: "16 word"
  e_shstrndx :: "16 word"

definition sizeof_header :: nat where "sizeof_header = 52"

definition bytes_at :: "nat \<Rightarrow> nat \<Rightarrow> 8 word list \<Rightarrow> 8 word list" where
  "bytes_at off n bytes = take n (drop off bytes)"

definition read_header :: "8 word list \<Rightarrow> elf_header" where
  "read_header bytes = \<lparr>
     e_ident = bytes_at 0 EI_NIDENT bytes, e_type = le_word (bytes_at 16 2 bytes), e_machine = le_word (bytes_at 18 2 bytes),
     e_version = le_word (bytes_at 20 4 bytes), e_entry = le_word (bytes_at 24 4 bytes), e_phoff = le_word (bytes_at 28 4 bytes),
     e_shoff = le_word (bytes_at 32 4 bytes), e_flags = le_word (bytes_at 36 4 bytes), e_ehsize = le_word (bytes_at 40 2 bytes),
     e_phentsize = le_word (bytes_at 42 2 bytes), e_phnum = le_word (bytes_at 44 2 bytes),
     e_shentsize = le_word (bytes_at 46 2 bytes), e_shnum = le_word (bytes_at 48 2 bytes), e_shstrndx = le_word (bytes_at 50 2 bytes)\<rparr>"

section \<open>Checks\<close>

definition elf_check_preamble :: "elf_header option \<Rightarrow> int" where
  "elf_check_preamble header =
     (case header of None \<Rightarrow> - 1
      | Some h \<Rightarrow> of_bool (e_ident h ! 0 = 0x7F \<and> e_ident h ! 1 = 0x45 \<and> e_ident h ! 2 = 0x4C \<and> e_ident h ! 3 = 0x46))"

definition elf_check_type :: "elf_header option \<Rightarrow> int \<times> string" where
  "elf_check_type header =
     (case header of None \<Rightarrow> (- 1, [])
      | Some h \<Rightarrow> (0, ''Type: '' @
          (if e_type h = ET_NONE then ''ET_NONE''
           else if e_type h = ET_REL then ''ET_REL''
           else if e_type h = ET_EXEC then ''ET_EXEC''
           else if e_type h = ET_DYN then ''ET_DYN''
           else if e_type h = ET_CORE then ''ET_CORE''
           else if e_type h = ET_LOPROC then ''ET_LOPROC''
           else if e_type h = ET_HIPROC then ''ET_HIPROC''
           else ''UNKNOWN'') @ newline))"

definition elf_check_machine :: "elf_header option \<Rightarrow> int \<times> string" where
  "elf_check_machine header =
     (case header of None \<Rightarrow> (- 1, [])
      | Some h \<Rightarrow> (0, ''Machine: '' @
          (if e_machine h = EM_NONE then ''ELF_NONE''
           else if e_machine h = EM_M32 then ''EM_M32''
           else if e_machine h = EM_SPARC then ''EM_SPARC''
           else if e_machine h = EM_386 then ''EM_386''
           else if e_machine h = EM_68K then ''EM_68K''
           else if e_machine h = EM_88K then ''EM_88K''
           else if e_machine h = EM_860 then ''EM_860''
           else if e_machine h = EM_MIPS then ''EM_MIPS''
           else ''UNKNOWN'') @ newline))"

definition elf_check_version :: "elf_header option \<Rightarrow> int \<times> string" where
  "elf_check_version header =
     (case header of None \<Rightarrow> (- 1, [])
      | Some h \<Rightarrow> (0, if e_version h = EV_CURRENT then ''Version: EV_CURRENT'' @ newline else ''Version: EV_NONE'' @ newline))"

definition elf_check_entrypoint :: "elf_header option \<Rightarrow> int \<times> string" where
  "elf_check_entrypoint header =
     (case header of None \<Rightarrow> (- 1, [])
      | Some h \<Rightarrow> (0, ''Entrypoint: '' @ base_text 16 (unat (e_entry h)) @ newline))"

definition exit_error :: "string \<Rightarrow> string \<Rightarrow> int \<times> string" where
  "exit_error out message = (1, out @ message @ newline)"

definition number_line :: "string \<Rightarrow> 'a::len word \<Rightarrow> string" where
  "number_line label w = label @ '': '' @ int_text (uint w) @ newline"

text \<open>The lines \<^verbatim>\<open>main\<close> prints itself.\<close>

definition header_rest :: "elf_header \<Rightarrow> string" where
  "header_rest h =
     number_line ''Program Header Offset'' (e_phoff h) @
     number_line ''Section Header Offset'' (e_shoff h) @
     number_line ''Processor Flags'' (e_flags h) @
     number_line ''ELF Header Size'' (e_ehsize h) @
     number_line ''Program Header Entry Size'' (e_phentsize h) @
     number_line ''Program Header Entry Number'' (e_phnum h) @
     number_line ''Section Header Entry Size'' (e_shentsize h) @
     number_line ''Program Header Entry Number'' (e_shnum h) @
     number_line ''e_shstrndx'' (e_shstrndx h)"

text \<open>A check that returns -1 ends the program; what was printed before stays printed.\<close>

fun run_checks :: "(string \<times> (elf_header option \<Rightarrow> int \<times> string)) list \<Rightarrow> elf_header \<Rightarrow> string \<Rightarrow> int \<times> string" where
  "run_checks [] h out = (0, out @ header_rest h)"
| "run_checks ((name, check) # cs) h out =
     (case check (Some h) of (rc, t) \<Rightarrow> if rc = - 1 then exit_error (out @ t) name else run_checks cs h (out @ t))"

definition elf_main :: "(string \<Rightarrow> 8 word list option) \<Rightarrow> string list \<Rightarrow> int \<times> string" where
  "elf_main files argv =
     (if length argv < 2 then exit_error [] (''./program object-file'' @ newline)
      else case files (argv ! 1) of None \<Rightarrow> exit_error [] ''open''
      | Some content \<Rightarrow>
          let bytes = take sizeof_header content in
          if length bytes \<noteq> sizeof_header then exit_error [] ''read''
          else let header = read_header bytes in
            if elf_check_preamble (Some header) \<noteq> 1 then (1, ''Not an object file'' @ newline)
            else run_checks [(''elf_check_type'', elf_check_type), (''elf_check_machine'', elf_check_machine),
                   (''elf_check_version'', elf_check_version), (''elf_check_entrypoint'', elf_check_entrypoint)] header [])"

section \<open>Files\<close>

text \<open>
  What a linker writes for a 32-bit object file: the identification, and the other fields in the byte order the identification
  names. Below, the header of a 64-bit little-endian file.
\<close>

definition data_bytes :: "8 word list \<Rightarrow> nat \<Rightarrow> 'a::len word \<Rightarrow> 8 word list" where
  "data_bytes ident n w = (if ident ! EI_DATA = ELFDATA2MSB then rev (le_bytes n w) else le_bytes n w)"

definition header_bytes :: "elf_header \<Rightarrow> 8 word list" where
  "header_bytes h = (let put2 = data_bytes (e_ident h) 2 :: 16 word \<Rightarrow> 8 word list; put4 = data_bytes (e_ident h) 4 :: 32 word \<Rightarrow> 8 word list in
     e_ident h @ put2 (e_type h) @ put2 (e_machine h) @ put4 (e_version h) @
     put4 (e_entry h) @ put4 (e_phoff h) @ put4 (e_shoff h) @ put4 (e_flags h) @
     put2 (e_ehsize h) @ put2 (e_phentsize h) @ put2 (e_phnum h) @ put2 (e_shentsize h) @
     put2 (e_shnum h) @ put2 (e_shstrndx h))"

definition header_bytes_64 ::
  "8 word list \<Rightarrow> 16 word \<Rightarrow> 16 word \<Rightarrow> 32 word \<Rightarrow> 64 word \<Rightarrow> 64 word \<Rightarrow> 64 word \<Rightarrow> 8 word list \<Rightarrow> 8 word list" where
  "header_bytes_64 ident ty machine version entry phoff shoff rest =
     ident @ le_bytes 2 ty @ le_bytes 2 machine @ le_bytes 4 version @ le_bytes 8 entry @ le_bytes 8 phoff @ le_bytes 8 shoff @ rest"

lemma length_data_bytes [simp]: "length (data_bytes ident n w) = n"
  by (simp add: data_bytes_def)

lemma length_header_bytes: "length (e_ident h) = 16 \<Longrightarrow> length (header_bytes h) = sizeof_header"
  by (simp add: header_bytes_def sizeof_header_def Let_def)

lemma take_bit_whole: "LENGTH('a::len) \<le> n \<Longrightarrow> take_bit n w = (w :: 'a word)"
  by (rule bit_word_eqI) (simp add: bit_simps)

lemma le_word_2 [simp]: "le_word (le_bytes 2 w) = (w :: 16 word)"
  by (simp add: le_word_bytes take_bit_whole)

lemma le_word_4 [simp]: "le_word (le_bytes 4 w) = (w :: 32 word)"
  by (simp add: le_word_bytes take_bit_whole)

text \<open>The header with the bytes of every field in reverse.\<close>

definition swap2 :: "16 word \<Rightarrow> 16 word" where "swap2 w = le_word (rev (le_bytes 2 w))"

definition swap4 :: "32 word \<Rightarrow> 32 word" where "swap4 w = le_word (rev (le_bytes 4 w))"

definition swapped :: "elf_header \<Rightarrow> elf_header" where
  "swapped h = \<lparr>e_ident = e_ident h, e_type = swap2 (e_type h), e_machine = swap2 (e_machine h), e_version = swap4 (e_version h),
     e_entry = swap4 (e_entry h), e_phoff = swap4 (e_phoff h), e_shoff = swap4 (e_shoff h), e_flags = swap4 (e_flags h),
     e_ehsize = swap2 (e_ehsize h), e_phentsize = swap2 (e_phentsize h), e_phnum = swap2 (e_phnum h),
     e_shentsize = swap2 (e_shentsize h), e_shnum = swap2 (e_shnum h), e_shstrndx = swap2 (e_shstrndx h)\<rparr>"

lemma read_header_bytes:
  assumes "length (e_ident h) = 16"
  shows "read_header (header_bytes h @ rest) = (if e_ident h ! EI_DATA = ELFDATA2MSB then swapped h else h)"
proof (cases "e_ident h ! EI_DATA = ELFDATA2MSB")
  case True
  then show ?thesis using assms
    by (simp add: read_header_def header_bytes_def Let_def bytes_at_def EI_NIDENT_def swapped_def swap2_def swap4_def data_bytes_def)
next
  case False
  then show ?thesis using assms
    by (simp add: read_header_def header_bytes_def Let_def bytes_at_def EI_NIDENT_def data_bytes_def)
qed

section \<open>The report\<close>

text \<open>What a reader of the source expects to be printed, line by line: the names of the numbers are a table.\<close>

definition type_names :: "(16 word \<times> string) list" where
  "type_names = [(0, ''ET_NONE''), (1, ''ET_REL''), (2, ''ET_EXEC''), (3, ''ET_DYN''), (4, ''ET_CORE''), (0xFF00, ''ET_LOPROC''), (0xFFFF, ''ET_HIPROC'')]"

definition machine_names :: "(16 word \<times> string) list" where
  "machine_names = [(0, ''ELF_NONE''), (1, ''EM_M32''), (2, ''EM_SPARC''), (3, ''EM_386''), (4, ''EM_68K''), (5, ''EM_88K''), (7, ''EM_860''), (8, ''EM_MIPS'')]"

definition name_in :: "(16 word \<times> string) list \<Rightarrow> 16 word \<Rightarrow> string" where
  "name_in names w = (case map_of names w of None \<Rightarrow> ''UNKNOWN'' | Some s \<Rightarrow> s)"

definition elf_lines :: "elf_header \<Rightarrow> string list" where
  "elf_lines h =
     [''Type: '' @ name_in type_names (e_type h),
      ''Machine: '' @ name_in machine_names (e_machine h),
      (if e_version h = 1 then ''Version: EV_CURRENT'' else ''Version: EV_NONE''),
      ''Entrypoint: '' @ base_text 16 (unat (e_entry h)),
      ''Program Header Offset: '' @ int_text (uint (e_phoff h)),
      ''Section Header Offset: '' @ int_text (uint (e_shoff h)),
      ''Processor Flags: '' @ int_text (uint (e_flags h)),
      ''ELF Header Size: '' @ int_text (uint (e_ehsize h)),
      ''Program Header Entry Size: '' @ int_text (uint (e_phentsize h)),
      ''Program Header Entry Number: '' @ int_text (uint (e_phnum h)),
      ''Section Header Entry Size: '' @ int_text (uint (e_shentsize h)),
      ''Program Header Entry Number: '' @ int_text (uint (e_shnum h)),
      ''e_shstrndx: '' @ int_text (uint (e_shstrndx h))]"

definition lines_text :: "string list \<Rightarrow> string" where
  "lines_text ls = concat (map (\<lambda>l. l @ newline) ls)"

lemma check_lines:
  "elf_check_type (Some h) = (0, ''Type: '' @ name_in type_names (e_type h) @ newline)"
  "elf_check_machine (Some h) = (0, ''Machine: '' @ name_in machine_names (e_machine h) @ newline)"
  "elf_check_version (Some h) = (0, (if e_version h = 1 then ''Version: EV_CURRENT'' else ''Version: EV_NONE'') @ newline)"
  "elf_check_entrypoint (Some h) = (0, ''Entrypoint: '' @ base_text 16 (unat (e_entry h)) @ newline)"
  by (simp_all add: elf_check_type_def elf_check_machine_def elf_check_version_def elf_check_entrypoint_def name_in_def type_names_def
      machine_names_def ET_NONE_def ET_REL_def ET_EXEC_def ET_DYN_def ET_CORE_def ET_LOPROC_def ET_HIPROC_def EM_NONE_def EM_M32_def
      EM_SPARC_def EM_386_def EM_68K_def EM_88K_def EM_860_def EM_MIPS_def EV_CURRENT_def)

lemma run_checks_lines:
  "run_checks [(''elf_check_type'', elf_check_type), (''elf_check_machine'', elf_check_machine),
     (''elf_check_version'', elf_check_version), (''elf_check_entrypoint'', elf_check_entrypoint)] h [] = (0, lines_text (elf_lines h))"
  by (simp add: check_lines header_rest_def number_line_def lines_text_def elf_lines_def)

section \<open>Properties\<close>

text \<open>C35: \<^verbatim>\<open>main\<close> reads back the header of a little-endian 32-bit object file and reports all its fields, the number of section
  headers under the label of that of the program headers. The data encoding of the file is not looked at: from a big-endian
  file it reports every field with its bytes reversed, and ends with success all the same. It rejects a file with another
  preamble and one that is too short.\<close>

theorem elf_report:
  assumes "length (e_ident h) = EI_NIDENT"
  shows "(take 4 (e_ident h) = [0x7F, 0x45, 0x4C, 0x46] \<and> e_ident h ! EI_DATA = ELFDATA2LSB \<longrightarrow>
      elf_main [f \<mapsto> header_bytes h @ rest] [prog, f] = (0, lines_text (elf_lines h))) \<and>
    (take 4 (e_ident h) = [0x7F, 0x45, 0x4C, 0x46] \<and> e_ident h ! EI_DATA = ELFDATA2MSB \<longrightarrow>
      elf_main [f \<mapsto> header_bytes h @ rest] [prog, f] = (0, lines_text (elf_lines (swapped h)))) \<and>
    (take 4 (e_ident h) \<noteq> [0x7F, 0x45, 0x4C, 0x46] \<longrightarrow>
      elf_main [f \<mapsto> header_bytes h @ rest] [prog, f] = (1, ''Not an object file'' @ newline)) \<and>
    (n < sizeof_header \<longrightarrow> elf_main [f \<mapsto> take n (header_bytes h)] [prog, f] = (1, ''read'' @ newline))"
proof -
  have l: "length (e_ident h) = 16" using assms by (simp add: EI_NIDENT_def)
  obtain a b c d r where i: "e_ident h = a # b # c # d # r"
    using l by (auto simp: numeral_eq_Suc length_Suc_conv)
  define k where "k = (if e_ident h ! EI_DATA = ELFDATA2MSB then swapped h else h)"
  have "e_ident k = e_ident h" by (simp add: k_def swapped_def)
  then have pre: "elf_check_preamble (Some k) = of_bool (take 4 (e_ident h) = [0x7F, 0x45, 0x4C, 0x46])"
    by (simp add: elf_check_preamble_def i)
  have rd: "read_header (take sizeof_header (header_bytes h @ rest)) = k"
    using read_header_bytes [OF l, of "[]"] length_header_bytes [OF l] by (simp add: k_def)
  have main: "elf_main [f \<mapsto> header_bytes h @ rest] [prog, f] =
      (if elf_check_preamble (Some k) \<noteq> 1 then (1, ''Not an object file'' @ newline) else (0, lines_text (elf_lines k)))"
    using rd length_header_bytes [OF l] by (simp add: elf_main_def Let_def run_checks_lines del: run_checks.simps)
  have "n < sizeof_header \<Longrightarrow> elf_main [f \<mapsto> take n (header_bytes h)] [prog, f] = (1, ''read'' @ newline)"
    using length_header_bytes [OF l] by (simp add: elf_main_def Let_def exit_error_def)
  then show ?thesis using main pre by (simp add: k_def ELFDATA2LSB_def ELFDATA2MSB_def)
qed

definition ex_header :: elf_header where
  "ex_header = \<lparr>e_ident = [0x7F, 0x45, 0x4C, 0x46, 1, 1, 1] @ replicate 9 0, e_type = 2, e_machine = 3, e_version = 1,
     e_entry = 0x8048000, e_phoff = 52, e_shoff = 4096, e_flags = 0, e_ehsize = 52, e_phentsize = 32, e_phnum = 2,
     e_shentsize = 40, e_shnum = 5, e_shstrndx = 4\<rparr>"

definition ex_header_msb :: elf_header where
  "ex_header_msb = ex_header\<lparr>e_ident := (e_ident ex_header)[EI_DATA := ELFDATA2MSB]\<rparr>"

lemma le_bytes_few:
  "le_bytes (Suc (Suc 0)) w = [ucast w, ucast (drop_bit 8 w)]"
  "le_bytes (Suc (Suc (Suc (Suc 0)))) w = [ucast w, ucast (drop_bit 8 w), ucast (drop_bit 8 (drop_bit 8 w)), ucast (drop_bit 8 (drop_bit 8 (drop_bit 8 w)))]"
  by simp_all

lemma nat_few: "(2 :: nat) = Suc (Suc 0)" "(4 :: nat) = Suc (Suc (Suc (Suc 0)))"
  by simp_all

lemma swap_examples: "swap2 2 = 0x200" "swap2 3 = 0x300" "swap4 1 = 0x1000000"
  unfolding swap2_def swap4_def nat_few le_bytes_few by simp_all

theorem elf_report_witness:
  "elf_main [''a.out'' \<mapsto> header_bytes ex_header] [''p'', ''a.out''] = (0, lines_text (elf_lines ex_header)) \<and>
    take 3 (elf_lines ex_header) = [''Type: ET_EXEC'', ''Machine: EM_386'', ''Version: EV_CURRENT''] \<and>
    elf_main [''a.out'' \<mapsto> header_bytes ex_header_msb] [''p'', ''a.out''] = (0, lines_text (elf_lines (swapped ex_header_msb))) \<and>
    take 3 (elf_lines (swapped ex_header_msb)) = [''Type: UNKNOWN'', ''Machine: UNKNOWN'', ''Version: EV_NONE'']"
proof -
  have "take 3 (elf_lines ex_header) = [''Type: ET_EXEC'', ''Machine: EM_386'', ''Version: EV_CURRENT'']"
    by (simp add: elf_lines_def name_in_def type_names_def machine_names_def ex_header_def)
  moreover have "take 3 (elf_lines (swapped ex_header_msb)) = [''Type: UNKNOWN'', ''Machine: UNKNOWN'', ''Version: EV_NONE'']"
    by (simp add: elf_lines_def name_in_def type_names_def machine_names_def ex_header_msb_def ex_header_def swapped_def swap_examples)
  ultimately show ?thesis
    using elf_report [of ex_header "''a.out''" "[]" "''p''" 0] elf_report [of ex_header_msb "''a.out''" "[]" "''p''" 0]
    by (simp add: ex_header_msb_def ex_header_def EI_NIDENT_def EI_DATA_def ELFDATA2LSB_def ELFDATA2MSB_def)
qed

text \<open>The class of the file is not looked at. The header of a little-endian 64-bit file is accepted, and from the entry point on the
  fields are wrong: the offset of the program headers is the high half of the entry point, that of the section headers is
  half of the other.\<close>

theorem elf_class_unchecked:
  assumes "length ident = EI_NIDENT" and "take 4 ident = [0x7F, 0x45, 0x4C, 0x46]" and "12 \<le> length rest"
  shows "fst (elf_main [f \<mapsto> header_bytes_64 ident ty machine version entry phoff shoff rest] [prog, f]) = 0 \<and>
    e_entry (read_header (header_bytes_64 ident ty machine version entry phoff shoff rest)) = ucast entry \<and>
    e_phoff (read_header (header_bytes_64 ident ty machine version entry phoff shoff rest)) = ucast (drop_bit 32 entry) \<and>
    e_shoff (read_header (header_bytes_64 ident ty machine version entry phoff shoff rest)) = ucast phoff"
proof -
  let ?bs = "header_bytes_64 ident ty machine version entry phoff shoff rest"
  have l: "length ident = 16" using assms(1) by (simp add: EI_NIDENT_def)
  have halves: "le_bytes 8 w = le_bytes 4 w @ le_bytes 4 (drop_bit 32 w)" for w :: "64 word"
    using le_bytes_add [of 4 4 w] by simp
  have low: "(le_word (le_bytes 4 w) :: 32 word) = ucast w" for w :: "64 word"
    unfolding le_word_bytes by (rule bit_word_eqI) (simp add: bit_simps)
  have fields: "e_entry (read_header ?bs) = ucast entry" "e_phoff (read_header ?bs) = ucast (drop_bit 32 entry)"
    "e_shoff (read_header ?bs) = ucast phoff"
    using l by (simp_all add: read_header_def header_bytes_64_def bytes_at_def halves low)
  have len: "sizeof_header \<le> length ?bs" using l assms(3) by (simp add: header_bytes_64_def sizeof_header_def)
  have id: "e_ident (read_header (take sizeof_header ?bs)) = ident"
    using l by (simp add: read_header_def bytes_at_def header_bytes_64_def EI_NIDENT_def sizeof_header_def)
  obtain a b c d r where i: "ident = a # b # c # d # r"
    using l by (auto simp: numeral_eq_Suc length_Suc_conv)
  have "elf_check_preamble (Some (read_header (take sizeof_header ?bs))) = 1"
    unfolding elf_check_preamble_def option.case id using assms(2) i by simp
  then have "fst (elf_main [f \<mapsto> ?bs] [prog, f]) = 0"
    using len by (simp add: elf_main_def Let_def elf_check_type_def elf_check_machine_def elf_check_version_def elf_check_entrypoint_def)
  then show ?thesis using fields by blast
qed

theorem elf_class_unchecked_witness:
  "e_phoff (read_header (header_bytes_64 (e_ident ex_header) 2 62 1 0x500400600 64 8192 (replicate 12 0))) = 5"
  using elf_class_unchecked [where ident = "e_ident ex_header" and rest = "replicate 12 0" and ty = 2 and machine = 62
      and version = 1 and entry = "0x500400600" and phoff = 64 and shoff = 8192]
  by (simp add: ex_header_def EI_NIDENT_def)

end
