(* ===== verification/Path_Names.thy ===== *)
theory Path_Names
  imports C_Text
begin

text \<open>
  The thread-safe \<^verbatim>\<open>dirname2\<close> and \<^verbatim>\<open>basename2\<close> of \<^verbatim>\<open>31-thread-safety-and-storage/exercises/31-2.c\<close>, as one
  thread runs them: each has a buffer of \<^verbatim>\<open>PATH_MAX + 1\<close> bytes in thread-specific storage, made by the first
  call. A pointer into the buffer or the path is an index; one in front of the first byte is out of bounds.
\<close>

section \<open>Thread-specific buffers\<close>

datatype halt = Exits string | Undefined cerr

record names_mem = cmem +
  dirname_once :: bool
  basename_once :: bool
  dirname_key :: "(ptr \<times> string) option"
  basename_key :: "(ptr \<times> string) option"

text \<open>A call of the thread library that returns 0 or an error number.\<close>

definition pthread_call :: "'s cmem_scheme \<Rightarrow> int \<times> 's cmem_scheme" where
  "pthread_call s = (if fails s (calls s) then ENOMEM else 0, s\<lparr>calls := Suc (calls s)\<rparr>)"

definition key_storage_destructor :: "ptr \<Rightarrow> 's cmem_scheme \<Rightarrow> 's cmem_scheme res" where
  "key_storage_destructor buf s = c_free buf s"

definition create_key :: "'s cmem_scheme \<Rightarrow> halt + 's cmem_scheme" where
  "create_key s = (let (rc, s1) = pthread_call s in
     if rc \<noteq> 0 then Inl (Exits ''pthread_key_create'') else Inr s1)"

text \<open>\<^verbatim>\<open>pthread_once\<close> runs the creation of the key at the first call.\<close>

definition once :: "bool \<Rightarrow> 's cmem_scheme \<Rightarrow> halt + 's cmem_scheme" where
  "once done s = (let (rc, s1) = pthread_call s in
     if rc \<noteq> 0 then Inl (Exits ''pthread_once'') else if done then Inr s1 else create_key s1)"

text \<open>The buffer of the thread: the one stored under the key or a new one, full of NUL bytes.\<close>

definition key_buffer :: "(ptr \<times> string) option \<Rightarrow> 's cmem_scheme \<Rightarrow> halt + (ptr \<times> string) \<times> 's cmem_scheme" where
  "key_buffer key s = (case key of Some b \<Rightarrow> Inr (b, s)
     | None \<Rightarrow>
         let (p, s1) = c_alloc s in
         if p = NULL then Inl (Exits ''calloc'')
         else let (rc, s2) = pthread_call s1 in
           if rc \<noteq> 0 then Inl (Exits ''pthread_set_specific'')
           else Inr ((p, replicate (PATH_MAX + 1) NUL), s2))"

section \<open>Scanning\<close>

text \<open>\<^verbatim>\<open>while (*temp) *temp++ = 0\<close>\<close>

fun clear_text :: "string \<Rightarrow> halt + string" where
  "clear_text [] = Inl (Undefined Out_Of_Bounds)"
| "clear_text (c # cs) = (if c = NUL then Inr (c # cs) else rbind (clear_text cs) (\<lambda>cs'. Inr (NUL # cs')))"

text \<open>\<^verbatim>\<open>while (P(*temp)) temp--\<close>, from the index in front of the argument.\<close>

fun back_while :: "(char \<Rightarrow> bool) \<Rightarrow> string \<Rightarrow> nat \<Rightarrow> halt + nat" where
  "back_while P buf 0 = Inl (Undefined Out_Of_Bounds)"
| "back_while P buf (Suc t) = (if P (buf ! t) then back_while P buf t else Inr t)"

text \<open>The same with the additional condition that the pointer is not at the start.\<close>

fun back_to_start :: "(char \<Rightarrow> bool) \<Rightarrow> string \<Rightarrow> nat \<Rightarrow> nat" where
  "back_to_start P buf 0 = 0"
| "back_to_start P buf (Suc t) = (if P (buf ! Suc t) then back_to_start P buf t else Suc t)"

definition slash :: char where "slash = CHR ''/''"

text \<open>\<^verbatim>\<open>strrchr\<close> for the slash.\<close>

fun last_slash :: "string \<Rightarrow> nat option" where
  "last_slash [] = None"
| "last_slash (c # cs) = (case last_slash cs of Some i \<Rightarrow> Some (Suc i) | None \<Rightarrow> if c = slash then Some 0 else None)"

section \<open>dirname2 and basename2\<close>

definition dirname_cut :: "string \<Rightarrow> halt + string" where
  "dirname_cut buf =
     (case last_slash (buf_text buf) of None \<Rightarrow> Inl (Undefined Null_Deref)
      | Some t0 \<Rightarrow>
          rbind (if buf ! Suc t0 = NUL \<and> t0 \<noteq> 0
                 then rbind (back_while (\<lambda>c. c = slash) buf (Suc t0)) (\<lambda>t1.
                      rbind (back_while (\<lambda>c. c \<noteq> slash) buf (Suc t1)) (\<lambda>t2.
                      Inr (back_to_start (\<lambda>c. c = slash) buf t2, buf)))
                 else if t0 \<noteq> 0 then Inr (t0, buf[t0 := NUL])
                 else Inr (t0, buf))
            (\<lambda>(t, buf). Inr (if t \<noteq> 0 then buf[Suc t := NUL] else buf)))"

definition dirname_text :: "string \<Rightarrow> string \<Rightarrow> halt + string" where
  "dirname_text buf0 path =
     rbind (clear_text buf0) (\<lambda>buf.
       if slash \<notin> set path then Inr (buf[0 := CHR ''.''])
       else dirname_cut (strncpy path PATH_MAX @ drop PATH_MAX buf))"

definition dirname2 :: "string \<Rightarrow> 's names_mem_scheme \<Rightarrow> halt + string \<times> 's names_mem_scheme" where
  "dirname2 path s =
     rbind (once (dirname_once s) s) (\<lambda>s1.
     rbind (key_buffer (dirname_key s1) s1) (\<lambda>((p, buf0), s2).
     rbind (dirname_text buf0 path) (\<lambda>buf.
       Inr (buf_text buf, s2\<lparr>dirname_once := True, dirname_key := Some (p, buf)\<rparr>))))"

text \<open>The copy loop: it stops at the end of the path or a slash, and its stores are checked against the buffer.\<close>

fun copy_name :: "string \<Rightarrow> string \<Rightarrow> halt + string" where
  "copy_name buf [] = Inr buf"
| "copy_name buf (c # cs) =
     (if c = slash then Inr buf
      else case buf of [] \<Rightarrow> Inl (Undefined Out_Of_Bounds)
        | b # bs \<Rightarrow> rbind (copy_name bs cs) (\<lambda>bs'. Inr (c # bs')))"

definition basename_start :: "string \<Rightarrow> halt + nat" where
  "basename_start path =
     (case last_slash path of None \<Rightarrow> Inl (Undefined Null_Deref)
      | Some t0 \<Rightarrow>
          if Suc t0 = length path
          then rbind (back_while (\<lambda>c. c = slash) path (Suc t0)) (\<lambda>t1.
                 let t2 = back_to_start (\<lambda>c. c \<noteq> slash) path t1 in
                 Inr (if path ! t2 = slash then Suc t2 else t2))
          else Inr (Suc t0))"

definition basename_text :: "string \<Rightarrow> string \<Rightarrow> halt + string" where
  "basename_text buf0 path =
     rbind (clear_text buf0) (\<lambda>buf.
       if slash \<notin> set path \<or> path = [slash] then Inr (strncpy path PATH_MAX @ drop PATH_MAX buf)
       else rbind (basename_start path) (\<lambda>t. copy_name buf (drop t path)))"

definition basename2 :: "string \<Rightarrow> 's names_mem_scheme \<Rightarrow> halt + string \<times> 's names_mem_scheme" where
  "basename2 path s =
     rbind (once (basename_once s) s) (\<lambda>s1.
     rbind (key_buffer (basename_key s1) s1) (\<lambda>((p, buf0), s2).
     rbind (basename_text buf0 path) (\<lambda>buf.
       Inr (buf_text buf, s2\<lparr>basename_once := True, basename_key := Some (p, buf)\<rparr>))))"

section \<open>Scanning lemmas\<close>

lemma back_while_stop:
  "a \<noteq> 0 \<Longrightarrow> a \<le> b \<Longrightarrow> \<not> P (buf ! (a - 1)) \<Longrightarrow> (\<And>i. a \<le> i \<Longrightarrow> i < b \<Longrightarrow> P (buf ! i)) \<Longrightarrow> back_while P buf b = Inr (a - 1)"
proof (induction b)
  case (Suc b)
  then show ?case by (cases "a = Suc b") simp_all
qed simp

lemma back_while_fall:
  "(\<And>i. i < b \<Longrightarrow> P (buf ! i)) \<Longrightarrow> back_while P buf b = Inl (Undefined Out_Of_Bounds)"
  by (induction b) simp_all

lemma back_to_start_stop:
  "a \<le> b \<Longrightarrow> a = 0 \<or> \<not> P (buf ! a) \<Longrightarrow> (\<And>i. a < i \<Longrightarrow> i \<le> b \<Longrightarrow> P (buf ! i)) \<Longrightarrow> back_to_start P buf b = a"
proof (induction b)
  case (Suc b)
  then show ?case by (cases "a = Suc b") simp_all
qed simp

lemma last_slash_append:
  "last_slash (xs @ ys) = (case last_slash ys of Some i \<Rightarrow> Some (length xs + i) | None \<Rightarrow> last_slash xs)"
  by (induction xs) (auto split: option.splits)

lemma last_slash_none [simp]: "last_slash xs = None \<longleftrightarrow> slash \<notin> set xs"
  by (induction xs) (auto split: option.splits)

lemma last_slash_name: "slash \<notin> set name \<Longrightarrow> last_slash (dir @ slash # name) = Some (length dir)"
  by (simp add: last_slash_append iffD2 [OF last_slash_none])

lemma last_slash_replicate: "0 < n \<Longrightarrow> last_slash (xs @ replicate n slash) = Some (length xs + n - 1)"
  using last_slash_append [of "xs @ replicate (n - 1) slash" "[slash]"]
  by (cases n) (simp_all flip: replicate_append_same)

lemma clear_text_run: "NUL \<notin> set t \<Longrightarrow> clear_text (t @ NUL # r) = Inr (replicate (length t) NUL @ NUL # r)"
  by (induction t) auto

lemma copy_name_run:
  "slash \<notin> set name \<Longrightarrow> length name \<le> length buf \<Longrightarrow> rest = [] \<or> hd rest = slash \<Longrightarrow>
    copy_name buf (name @ rest) = Inr (name @ drop (length name) buf)"
proof (induction name arbitrary: buf)
  case Nil
  then show ?case by (cases rest) auto
next
  case (Cons c name)
  then show ?case by (cases buf) auto
qed

lemma slash_not_NUL [simp]: "slash \<noteq> NUL" "NUL \<noteq> slash"
  by (simp_all add: slash_def NUL_def)

lemma buf_text_stop: "NUL \<notin> set t \<Longrightarrow> buf_text (t @ NUL # r) = t"
  by (auto simp: buf_text_def takeWhile_tail takeWhile_append2)

section \<open>The buffers\<close>

definition dirname_buf_ok :: "string \<Rightarrow> bool" where
  "dirname_buf_ok buf \<longleftrightarrow> length buf = PATH_MAX + 1 \<and> buf ! PATH_MAX = NUL"

text \<open>The buffer of \<^verbatim>\<open>basename2\<close> is a name followed by NUL bytes only.\<close>

definition basename_buf_ok :: "string \<Rightarrow> bool" where
  "basename_buf_ok buf \<longleftrightarrow> (\<exists>t. NUL \<notin> set t \<and> length t \<le> PATH_MAX \<and> buf = t @ replicate (PATH_MAX + 1 - length t) NUL)"

definition names_ok :: "'s names_mem_scheme \<Rightarrow> bool" where
  "names_ok s \<longleftrightarrow> ample s \<and> (\<forall>p buf. dirname_key s = Some (p, buf) \<longrightarrow> dirname_buf_ok buf) \<and>
     (\<forall>p buf. basename_key s = Some (p, buf) \<longrightarrow> basename_buf_ok buf)"

lemma fresh_buf_ok: "dirname_buf_ok (replicate (PATH_MAX + 1) NUL)" "basename_buf_ok (replicate (PATH_MAX + 1) NUL)"
  by (simp add: dirname_buf_ok_def nth_Cons split: nat.split) (simp add: basename_buf_ok_def exI [of _ "[]"])

lemma clear_dirname_buf:
  assumes "dirname_buf_ok buf"
  shows "\<exists>buf'. clear_text buf = Inr buf' \<and> length buf' = PATH_MAX + 1 \<and> drop PATH_MAX buf' = [NUL] \<and> buf' ! 0 = NUL"
proof -
  have len: "PATH_MAX < length buf" and n: "buf ! PATH_MAX = NUL" using assms by (auto simp: dirname_buf_ok_def)
  then have "NUL \<in> set buf" by (metis nth_mem)
  then obtain t r where b: "buf = t @ NUL # r" "NUL \<notin> set t" by (metis split_list_first)
  let ?b = "replicate (length t) NUL @ NUL # r"
  have l: "length ?b = PATH_MAX + 1" using b(1) assms by (simp add: dirname_buf_ok_def)
  have "?b ! PATH_MAX = NUL"
  proof (cases "PATH_MAX \<le> length t")
    case True
    then show ?thesis using l by (simp add: nth_append)
  next
    case False
    then have "?b ! PATH_MAX = (t @ NUL # r) ! PATH_MAX" by (simp add: nth_append)
    then show ?thesis using n b(1) by simp
  qed
  moreover have "drop PATH_MAX ?b = ?b ! PATH_MAX # drop (Suc PATH_MAX) ?b" using l by (intro Cons_nth_drop_Suc [symmetric]) simp
  ultimately have "drop PATH_MAX ?b = [NUL]" using l by simp
  moreover have "?b ! 0 = NUL" by (simp add: nth_append)
  ultimately show ?thesis using clear_text_run [OF b(2), of r] b(1) l by (intro exI [of _ ?b]) simp
qed

lemma clear_basename_buf: "basename_buf_ok buf \<Longrightarrow> clear_text buf = Inr (replicate (PATH_MAX + 1) NUL)"
proof -
  assume "basename_buf_ok buf"
  then obtain t where t: "NUL \<notin> set t" "length t \<le> PATH_MAX" "buf = t @ replicate (PATH_MAX + 1 - length t) NUL"
    by (auto simp: basename_buf_ok_def)
  have "replicate (PATH_MAX + 1 - length t) NUL = NUL # replicate (PATH_MAX - length t) NUL" using t(2) by (simp add: Suc_diff_le)
  then show ?thesis using t clear_text_run [OF t(1), of "replicate (PATH_MAX - length t) NUL"]
    by (simp flip: replicate_Suc replicate_add)
qed

lemma strncpy_path:
  assumes "length path \<le> PATH_MAX"
  shows "strncpy path PATH_MAX @ [NUL] = path @ replicate (PATH_MAX + 1 - length path) NUL"
proof -
  have "strncpy path PATH_MAX = path @ replicate (PATH_MAX - length path) NUL" using assms by (simp add: strncpy_def)
  then show ?thesis using assms by (simp add: Suc_diff_le replicate_append_same)
qed

text \<open>One call: with enough memory it returns the text of its buffer and keeps the buffers well-formed.\<close>

lemma dirname2_run:
  assumes "names_ok s" and "\<And>buf0. dirname_buf_ok buf0 \<Longrightarrow> \<exists>buf. dirname_text buf0 path = Inr buf \<and> dirname_buf_ok buf \<and> buf_text buf = res"
  shows "\<exists>s'. dirname2 path s = Inr (res, s') \<and> names_ok s' \<and> basename_key s' = basename_key s"
  using assms(1) assms(2) [OF fresh_buf_ok(1)] assms(2)
  by (cases "dirname_key s")
    (force simp: dirname2_def once_def create_key_def pthread_call_def key_buffer_def names_ok_def ample_def c_alloc_def)+

lemma basename2_run:
  assumes "names_ok s" and "\<And>buf0. basename_buf_ok buf0 \<Longrightarrow> \<exists>buf. basename_text buf0 path = Inr buf \<and> basename_buf_ok buf \<and> buf_text buf = res"
  shows "\<exists>s'. basename2 path s = Inr (res, s') \<and> names_ok s' \<and> dirname_key s' = dirname_key s"
  using assms(1) assms(2) [OF fresh_buf_ok(2)] assms(2)
  by (cases "basename_key s")
    (force simp: basename2_def once_def create_key_def pthread_call_def key_buffer_def names_ok_def ample_def c_alloc_def)+

section \<open>What they return\<close>

lemma dirname_text_cut:
  assumes "slash \<in> set path" and "length path \<le> PATH_MAX" and "NUL \<notin> set path" and "dirname_buf_ok buf0"
  shows "dirname_text buf0 path = dirname_cut (path @ replicate (PATH_MAX + 1 - length path) NUL)"
  using clear_dirname_buf [OF assms(4)] assms(1) strncpy_path [OF assms(2)] by (auto simp: dirname_text_def)

lemma buf_text_pad: "NUL \<notin> set path \<Longrightarrow> 0 < n \<Longrightarrow> buf_text (path @ replicate n NUL) = path"
  by (cases n) (simp_all add: buf_text_stop)

lemma buf_text_update: "NUL \<notin> set t \<Longrightarrow> length t < length buf \<Longrightarrow> take (length t) buf = t \<Longrightarrow> buf_text (buf[length t := NUL]) = t"
proof -
  assume a: "NUL \<notin> set t" "length t < length buf" "take (length t) buf = t"
  then have "buf[length t := NUL] = t @ NUL # drop (Suc (length t)) buf" by (simp add: upd_conv_take_nth_drop)
  then show ?thesis using a(1) by (simp add: buf_text_stop)
qed

lemma dirname_buf_update: "dirname_buf_ok buf \<Longrightarrow> dirname_buf_ok (buf[i := NUL])"
  by (cases "i < length buf") (simp_all add: dirname_buf_ok_def nth_list_update)

lemma dirname_text_split:
  assumes dir: "NUL \<notin> set dir" "2 \<le> length dir" "last dir \<noteq> slash" and name: "NUL \<notin> set name" "slash \<notin> set name" "name \<noteq> []"
    and len: "length dir + 1 + length name + n \<le> PATH_MAX" and buf0: "dirname_buf_ok buf0"
  shows "\<exists>buf. dirname_text buf0 (dir @ slash # name @ replicate n slash) = Inr buf \<and> dirname_buf_ok buf \<and> buf_text buf = dir"
proof -
  let ?path = "dir @ slash # name @ replicate n slash"
  let ?pad = "replicate (PATH_MAX + 1 - length ?path) NUL"
  let ?B = "?path @ ?pad" and ?d = "length dir"
  have nn: "NUL \<notin> set ?path" using dir(1) name(1) slash_not_NUL by auto
  have lp: "length ?path \<le> PATH_MAX" using len by simp
  have run: "dirname_text buf0 ?path = dirname_cut ?B" by (rule dirname_text_cut [OF _ lp nn buf0]) simp
  have lB: "length ?B = PATH_MAX + 1" using lp by simp
  have bt: "buf_text ?B = ?path" using lp by (intro buf_text_pad [OF nn]) simp
  have at_end: "?B ! length ?path = NUL" using lp by (simp only: nth_append_length_plus [of _ _ 0, simplified] nth_append) simp
  have last: "?B ! PATH_MAX = NUL"
    using lp lB nth_append [of ?path ?pad PATH_MAX] by (auto simp: nth_append)
  have fin: "dirname_buf_ok (?B[?d := NUL])" "buf_text (?B[?d := NUL]) = dir"
    "dirname_buf_ok (?B[?d := NUL, Suc ?d := NUL])" "buf_text (?B[?d := NUL, Suc ?d := NUL]) = dir"
  proof -
    have dl: "?d < PATH_MAX" "Suc ?d \<le> PATH_MAX" using len by simp_all
    have okB: "dirname_buf_ok ?B" unfolding dirname_buf_ok_def using lB last by (rule conjI)
    show "dirname_buf_ok (?B[?d := NUL])" "dirname_buf_ok (?B[?d := NUL, Suc ?d := NUL])"
      by (intro dirname_buf_update okB)+
    have "(?B[?d := NUL, Suc ?d := NUL]) = (?B[Suc ?d := NUL])[?d := NUL]" by (rule list_update_swap) simp
    moreover have tk: "take ?d ?B = dir" "take ?d (?B[Suc ?d := NUL]) = dir" by simp_all
    moreover have "?d < length ?B" "?d < length (?B[Suc ?d := NUL])" using lB dl(1) by simp_all
    ultimately show "buf_text (?B[?d := NUL]) = dir" "buf_text (?B[?d := NUL, Suc ?d := NUL]) = dir"
      using buf_text_update [OF dir(1), of ?B] buf_text_update [OF dir(1), of "?B[Suc ?d := NUL]"] by (simp_all only:)
  qed
  have "dirname_cut ?B = Inr (?B[?d := NUL, Suc ?d := NUL]) \<or> dirname_cut ?B = Inr (?B[?d := NUL])"
  proof (cases "n = 0")
    case True
    have "last_slash ?path = Some ?d" using True last_slash_name [OF name(2), of dir] by simp
    moreover have "?B ! Suc ?d \<noteq> NUL" using name(1,3) by (cases name) (auto simp: nth_append)
    moreover have "dir \<noteq> []" using dir(2) by auto
    ultimately show ?thesis unfolding dirname_cut_def bt by simp
  next
    case False
    let ?t = "?d + length name + n"
    have ls: "last_slash ?path = Some ?t"
      using last_slash_replicate [of n "dir @ slash # name"] False by simp
    have e: "?B ! Suc ?t = NUL" using at_end by (simp add: add.commute add.left_commute)
    have in_path: "?B ! i = ?path ! i" if "i < length ?path" for i using that by (simp only: nth_append if_True)
    have sl: "?B ! i = slash" if "?d + 1 + length name \<le> i" "i < Suc ?t" for i
      using that by (subst in_path) (auto simp: nth_append nth_Cons')
    have nm: "?B ! i \<noteq> slash" if "?d + 1 \<le> i" "i < ?d + 1 + length name" for i
    proof -
      have "?B ! i = name ! (i - (?d + 1))" using that by (subst in_path) (auto simp: nth_append nth_Cons')
      moreover have "i - (?d + 1) < length name" using that by linarith
      ultimately show ?thesis using name(2) nth_mem by metis
    qed
    have ds: "?B ! ?d = slash" by (subst in_path) (simp_all add: nth_append)
    have dl: "?B ! (?d - 1) \<noteq> slash"
    proof -
      have ne: "dir \<noteq> []" using dir(2) by auto
      have "?B ! (?d - 1) = last dir" using ne by (subst in_path) (auto simp: nth_append last_conv_nth)
      then show ?thesis using dir(3) by simp
    qed
    have "back_while (\<lambda>c. c = slash) ?B (Suc ?t) = Inr (?d + 1 + length name - 1)"
      using sl nm [of "?d + length name"] name(3) by (intro back_while_stop) (auto simp: Suc_le_eq)
    moreover have "back_while (\<lambda>c. c \<noteq> slash) ?B (Suc (?d + 1 + length name - 1)) = Inr (?d + 1 - 1)"
      using nm ds by (intro back_while_stop) auto
    moreover have "back_to_start (\<lambda>c. c = slash) ?B ?d = ?d - 1"
      using dl ds by (intro back_to_start_stop) (auto simp: le_less_Suc_eq order_antisym_conv)
    moreover have "Suc (?d - 1) = ?d" "?d - 1 \<noteq> 0" using dir(2) by simp_all
    ultimately show ?thesis using e False unfolding dirname_cut_def bt ls
      by (simp del: back_while.simps back_to_start.simps)
  qed
  then show ?thesis unfolding run using fin by metis
qed

lemma basename_text_split:
  assumes name: "NUL \<notin> set name" "slash \<notin> set name" "name \<noteq> []"
    and len: "length name \<le> PATH_MAX" and buf0: "basename_buf_ok buf0"
  shows "\<exists>buf. basename_text buf0 (dir @ slash # name @ replicate n slash) = Inr buf \<and> basename_buf_ok buf \<and> buf_text buf = name"
proof -
  let ?path = "dir @ slash # name @ replicate n slash" and ?d = "length dir"
  let ?buf = "name @ replicate (PATH_MAX + 1 - length name) NUL"
  have start: "basename_start ?path = Inr (Suc ?d)"
  proof (cases "n = 0")
    case True
    then show ?thesis using name(3) last_slash_name [OF name(2), of dir] by (simp add: basename_start_def)
  next
    case False
    let ?t = "?d + length name + n"
    have ls: "last_slash ?path = Some ?t" using last_slash_replicate [of n "dir @ slash # name"] False by simp
    have sl: "?path ! i = slash" if "?d + 1 + length name \<le> i" "i < Suc ?t" for i
      using that by (auto simp: nth_append nth_Cons')
    have nm: "?path ! i \<noteq> slash" if "?d + 1 \<le> i" "i < ?d + 1 + length name" for i
    proof -
      have "?path ! i = name ! (i - (?d + 1))" using that by (auto simp: nth_append nth_Cons')
      moreover have "i - (?d + 1) < length name" using that by linarith
      ultimately show ?thesis using name(2) nth_mem by metis
    qed
    have ds: "?path ! ?d = slash" by (simp add: nth_append)
    have "back_while (\<lambda>c. c = slash) ?path (Suc ?t) = Inr (?d + 1 + length name - 1)"
      using sl nm [of "?d + length name"] name(3) by (intro back_while_stop) (auto simp: Suc_le_eq)
    moreover have "back_to_start (\<lambda>c. c \<noteq> slash) ?path (?d + 1 + length name - 1) = ?d"
      using ds nm by (intro back_to_start_stop) auto
    ultimately show ?thesis using ds by (simp add: basename_start_def ls)
  qed
  have rest: "replicate n slash = [] \<or> hd (replicate n slash) = slash" by (cases n) simp_all
  have "copy_name (replicate (PATH_MAX + 1) NUL) (name @ replicate n slash) = Inr ?buf"
    using copy_name_run [OF name(2) _ rest, of "replicate (PATH_MAX + 1) NUL"] len by (simp del: replicate_Suc)
  moreover have "?path \<noteq> [slash]" using name(3) by (cases dir) auto
  ultimately have "basename_text buf0 ?path = Inr ?buf"
    using clear_basename_buf [OF buf0] start by (simp add: basename_text_def del: replicate_Suc)
  moreover have "basename_buf_ok ?buf" using name(1) len by (auto simp: basename_buf_ok_def)
  moreover have "buf_text ?buf = name" using len by (intro buf_text_pad [OF name(1)]) simp
  ultimately show ?thesis by blast
qed

lemma dirname_text_root:
  assumes "NUL \<notin> set name" and "slash \<notin> set name" and "name \<noteq> []" and "length name < PATH_MAX" and "dirname_buf_ok buf0"
  shows "\<exists>buf. dirname_text buf0 (slash # name) = Inr buf \<and> dirname_buf_ok buf \<and> buf_text buf = slash # name"
proof -
  let ?B = "(slash # name) @ replicate (PATH_MAX + 1 - length (slash # name)) NUL"
  have nn: "NUL \<notin> set (slash # name)" and lp: "length (slash # name) \<le> PATH_MAX" using assms(1,4) by simp_all
  have run: "dirname_text buf0 (slash # name) = dirname_cut ?B" by (rule dirname_text_cut [OF _ lp nn assms(5)]) simp
  have bt: "buf_text ?B = slash # name" using lp by (intro buf_text_pad [OF nn]) simp
  have "last_slash (slash # name) = Some 0" using last_slash_name [OF assms(2), of "[]"] by simp
  then have "dirname_cut ?B = Inr ?B" unfolding dirname_cut_def bt by simp
  moreover have "?B ! PATH_MAX = NUL" using lp by (subst nth_append) auto
  then have "dirname_buf_ok ?B" using lp by (simp add: dirname_buf_ok_def)
  ultimately show ?thesis using run bt by metis
qed

lemma dirname_text_relative:
  assumes "NUL \<notin> set name" and "slash \<notin> set name" and "name \<noteq> []" and "length name < PATH_MAX" and "dirname_buf_ok buf0"
  shows "dirname_text buf0 (name @ [slash]) = Inl (Undefined Out_Of_Bounds)"
proof -
  let ?path = "name @ [slash]"
  let ?B = "?path @ replicate (PATH_MAX + 1 - length ?path) NUL"
  have nn: "NUL \<notin> set ?path" and lp: "length ?path \<le> PATH_MAX" using assms(1,4) by simp_all
  have run: "dirname_text buf0 ?path = dirname_cut ?B" by (rule dirname_text_cut [OF _ lp nn assms(5)]) simp
  have bt: "buf_text ?B = ?path" using lp by (intro buf_text_pad [OF nn]) simp
  have ls: "last_slash ?path = Some (length name)" using last_slash_name [of "[]" name] by simp
  have at: "?B ! Suc (length name) = NUL" using assms(4) by (simp add: nth_append)
  have ch: "?B ! i \<noteq> slash" if "i < length name" for i using assms(2) that by (simp add: nth_append) (metis nth_mem)
  have sl: "?B ! length name = slash" by (simp add: nth_append)
  have "back_while (\<lambda>c. c = slash) ?B (Suc (length name)) = Inr (length name - 1)"
    using ch [of "length name - 1"] sl assms(3) by (intro back_while_stop) (auto simp: le_less_Suc_eq order_antisym_conv)
  moreover have "back_while (\<lambda>c. c \<noteq> slash) ?B (Suc (length name - 1)) = Inl (Undefined Out_Of_Bounds)"
    using ch assms(3) by (intro back_while_fall) simp
  ultimately show ?thesis unfolding run dirname_cut_def bt ls using at assms(3) by (simp del: back_while.simps)
qed

lemma basename_text_slashes:
  assumes "1 < n" and "basename_buf_ok buf0"
  shows "basename_text buf0 (replicate n slash) = Inl (Undefined Out_Of_Bounds)"
proof -
  have "last_slash (replicate n slash) = Some (n - 1)" using last_slash_replicate [of n "[]"] assms(1) by simp
  moreover have "back_while (\<lambda>c. c = slash) (replicate n slash) n = Inl (Undefined Out_Of_Bounds)"
    by (rule back_while_fall) simp
  ultimately have "basename_start (replicate n slash) = Inl (Undefined Out_Of_Bounds)"
    using assms(1) by (simp add: basename_start_def)
  moreover have "replicate n slash \<noteq> [slash]" using assms(1) by (auto dest: arg_cong [where f = length])
  ultimately show ?thesis using clear_basename_buf [OF assms(2)] assms(1) by (simp add: basename_text_def)
qed

section \<open>The contract\<close>

definition names_start :: names_mem where
  "names_start = \<lparr>calls = 0, fails = (\<lambda>_. False), live = {}, dirname_once = False, basename_once = False,
     dirname_key = None, basename_key = None\<rparr>"

lemma names_start_ok: "names_ok names_start"
  by (simp add: names_start_def names_ok_def ample_def)

text \<open>C39: For a directory of at least two characters, a name, and any number of slashes behind it, \<^verbatim>\<open>dirname2\<close>
  returns the directory and \<^verbatim>\<open>basename2\<close> the name, whatever the earlier calls left in the buffers.\<close>

theorem dirname_basename_split:
  assumes "names_ok s" and "NUL \<notin> set dir" and "2 \<le> length dir" and "last dir \<noteq> slash"
    and "NUL \<notin> set name" and "slash \<notin> set name" and "name \<noteq> []" and "length dir + 1 + length name + n \<le> PATH_MAX"
  shows "\<exists>s1 s2. dirname2 (dir @ slash # name @ replicate n slash) s = Inr (dir, s1) \<and>
    basename2 (dir @ slash # name @ replicate n slash) s1 = Inr (name, s2) \<and> names_ok s2"
proof -
  obtain s1 where s1: "dirname2 (dir @ slash # name @ replicate n slash) s = Inr (dir, s1)" "names_ok s1"
    using dirname2_run [OF assms(1), of _ dir] dirname_text_split [OF assms(2-8)] by blast
  have l: "length name \<le> PATH_MAX" using assms(8) by simp
  show ?thesis using s1 basename2_run [OF s1(2), of _ name] basename_text_split [OF assms(5-7) l] by blast
qed

theorem dirname_basename_split_witness:
  "\<exists>s1 s2. dirname2 ''/var/log/cool.txt//'' names_start = Inr (''/var/log'', s1) \<and>
    basename2 ''/var/log/cool.txt//'' s1 = Inr (''cool.txt'', s2) \<and> names_ok s2"
  using dirname_basename_split [OF names_start_ok, of "''/var/log''" "''cool.txt''" 2]
  by (simp add: slash_def NUL_def PATH_MAX_def numeral_2_eq_2)

text \<open>At the edges they go wrong: \<^verbatim>\<open>dirname2\<close> does not cut a file in the root directory, and runs in front of
  its buffer for a relative name with a slash behind it, as \<^verbatim>\<open>basename2\<close> does in front of a path of slashes.\<close>

theorem path_names_edges:
  assumes "names_ok s" and "NUL \<notin> set name" and "slash \<notin> set name" and "name \<noteq> []" and "length name < PATH_MAX"
  shows "(\<exists>s'. dirname2 (slash # name) s = Inr (slash # name, s')) \<and>
    dirname2 (name @ [slash]) s = Inl (Undefined Out_Of_Bounds) \<and>
    (\<forall>n > 1. basename2 (replicate n slash) s = Inl (Undefined Out_Of_Bounds))"
proof (intro conjI allI impI)
  show "\<exists>s'. dirname2 (slash # name) s = Inr (slash # name, s')"
    using dirname2_run [OF assms(1), of _ "slash # name"] dirname_text_root [OF assms(2-5)] by blast
  show "dirname2 (name @ [slash]) s = Inl (Undefined Out_Of_Bounds)"
    using assms(1) dirname_text_relative [OF assms(2-5)] fresh_buf_ok(1)
    by (cases "dirname_key s")
      (force simp: dirname2_def once_def create_key_def pthread_call_def key_buffer_def names_ok_def ample_def c_alloc_def)+
  fix n :: nat assume "1 < n"
  then show "basename2 (replicate n slash) s = Inl (Undefined Out_Of_Bounds)"
    using assms(1) basename_text_slashes fresh_buf_ok(2)
    by (cases "basename_key s")
      (force simp: basename2_def once_def create_key_def pthread_call_def key_buffer_def names_ok_def ample_def c_alloc_def)+
qed

theorem path_names_edges_witness:
  "(\<exists>s'. dirname2 ''/etc'' names_start = Inr (''/etc'', s')) \<and> dirname2 ''etc/'' names_start = Inl (Undefined Out_Of_Bounds) \<and>
    basename2 ''//'' names_start = Inl (Undefined Out_Of_Bounds)"
proof -
  have two: "''//'' = replicate 2 slash" by (simp add: slash_def numeral_2_eq_2)
  show ?thesis using path_names_edges [OF names_start_ok, of "''etc''"] unfolding two
    by (simp add: slash_def NUL_def PATH_MAX_def)
qed

end
