(* ===== verification/Watch_List.thy ===== *)
theory Watch_List
  imports Linked_List C_Text
begin

unbundle bit_operations_syntax

text \<open>
  The directory monitor of \<^verbatim>\<open>19-monitoring-file-events/exercises/19-1.c\<close>: a list of the watched descriptors,
  filled by a walk over the directory tree, and the handling of the events the kernel reports.

  The list is the doubly linked list of \<^verbatim>\<open>Linked_List\<close> without its mutex; a node's own fields are its
  \<open>lval\<close>. The kernel is a parameter \<open>inotify\<close> over a state of its own: what \<^verbatim>\<open>inotify_add_watch\<close> and
  \<^verbatim>\<open>inotify_rm_watch\<close> answer, the pathnames a walk of \<^verbatim>\<open>nftw\<close> reports (or none when it fails), whether the
  working directory still exists and the text of \<^verbatim>\<open>ctime\<close>.
\<close>

section \<open>Data\<close>

record watch =
  w_fd :: int
  w_name :: ptr
  w_text :: string

record wlist =
  wl_len :: int
  wl_first :: ptr
  wl_last :: ptr

record 'k inotify =
  ino_init :: "'k \<Rightarrow> int \<times> 'k"
  ino_add :: "string \<Rightarrow> 'k \<Rightarrow> int \<times> 'k"
  ino_rm :: "int \<Rightarrow> 'k \<Rightarrow> 'k"
  ino_walk :: "string \<Rightarrow> 'k \<Rightarrow> string list option"
  ino_cwd :: "'k \<Rightarrow> bool"
  ino_time :: "'k \<Rightarrow> string"

record event =
  ev_wd :: int
  ev_mask :: "32 word"
  ev_cookie :: "32 word"
  ev_name :: string

type_synonym wmem = "(watch, unit) lmem"

text \<open>The program's state: memory, \<^verbatim>\<open>TheList\<close>, \<^verbatim>\<open>InotifyBook\<close>, the log file and the kernel.\<close>

record 'k monitor =
  mon_mem :: wmem
  mon_list :: "wlist option"
  mon_fd :: int
  mon_cookie :: "8 word"
  mon_log :: string
  mon_kernel :: 'k

definition IN_MOVED_FROM :: "32 word" where "IN_MOVED_FROM = 0x40"

definition IN_MOVED_TO :: "32 word" where "IN_MOVED_TO = 0x80"

definition IN_CREATE :: "32 word" where "IN_CREATE = 0x100"

definition IN_DELETE :: "32 word" where "IN_DELETE = 0x200"

definition IN_IGNORED :: "32 word" where "IN_IGNORED = 0x8000"

definition IN_ISDIR :: "32 word" where "IN_ISDIR = 0x40000000"

definition LOG_LINE :: nat where "LOG_LINE = 4098"

definition wfields :: "watch lnode \<Rightarrow> watch" where
  "wfields n = (case lval n of Some w \<Rightarrow> w | None \<Rightarrow> \<lparr>w_fd = 0, w_name = NULL, w_text = []\<rparr>)"

section \<open>The list\<close>

definition create_list :: "wmem \<Rightarrow> wlist option \<times> wmem" where
  "create_list s = (let (p, s1) = c_alloc s in
     (if p = NULL then None else Some \<lparr>wl_len = 0, wl_first = NULL, wl_last = NULL\<rparr>, s1))"

text \<open>The \<^verbatim>\<open>calloc\<close> of the name is not checked: copying anything to NULL is an error.\<close>

definition add_watch :: "wlist option \<Rightarrow> int \<Rightarrow> string \<Rightarrow> wmem \<Rightarrow> (ptr \<times> wlist option \<times> wmem) res" where
  "add_watch list fd filename s =
     (case list of None \<Rightarrow> Inr (NULL, None, s)
      | Some l \<Rightarrow>
          let (node, s1) = node_alloc s in
          if node = NULL then Inr (NULL, list, s1)
          else let (name, s2) = c_alloc s1 in
            if name = NULL \<and> filename \<noteq> [] then Inl Null_Deref
            else rbind (node_upd node (\<lambda>n. n\<lparr>lval := Some \<lparr>w_fd = fd, w_name = name, w_text = filename\<rparr>\<rparr>) s2) (\<lambda>s3.
                 rbind (if wl_last l = NULL then Inr (l\<lparr>wl_first := node, wl_last := node\<rparr>, s3)
                        else rbind (node_upd (wl_last l) (\<lambda>n. n\<lparr>lnext := node\<rparr>) s3) (\<lambda>s4.
                             rbind (node_upd node (\<lambda>n. n\<lparr>lprev := wl_last l\<rparr>) s4) (\<lambda>s5.
                               Inr (l\<lparr>wl_last := node\<rparr>, s5))))
                   (\<lambda>(l1, s4). rbind (c_add (wl_len l1) 1) (\<lambda>len. Inr (node, Some (l1\<lparr>wl_len := len\<rparr>), s4)))))"

text \<open>The search loops: the second component of the state is whether the node was found.\<close>

definition watch_seek :: "int \<Rightarrow> wmem \<Rightarrow> ptr \<Rightarrow> (ptr \<times> bool) res" where
  "watch_seek fd s start =
     cwhile (\<lambda>(node, hit). node \<noteq> NULL \<and> \<not> hit)
       (\<lambda>(node, hit). rbind (node_get node s) (\<lambda>n.
          if w_fd (wfields n) = fd then Inr (node, True) else Inr (lnext n, False)))
       (start, False)"

definition watch_unlink :: "wlist \<Rightarrow> ptr \<Rightarrow> wmem \<Rightarrow> (wlist \<times> wmem) res" where
  "watch_unlink l node s =
     (if node = wl_first l \<and> node = wl_last l then Inr (l\<lparr>wl_first := NULL, wl_last := NULL\<rparr>, s)
      else rbind (node_get node s) (\<lambda>n.
        if node = wl_first l then
          rbind (node_upd (lnext n) (\<lambda>m. m\<lparr>lprev := NULL\<rparr>) s) (\<lambda>s1. Inr (l\<lparr>wl_first := lnext n\<rparr>, s1))
        else if node = wl_last l then
          rbind (node_upd (lprev n) (\<lambda>m. m\<lparr>lnext := NULL\<rparr>) s) (\<lambda>s1. Inr (l\<lparr>wl_last := lprev n\<rparr>, s1))
        else
          rbind (node_upd (lprev n) (\<lambda>m. m\<lparr>lnext := lnext n\<rparr>) s) (\<lambda>s1.
          rbind (node_upd (lnext n) (\<lambda>m. m\<lparr>lprev := lprev n\<rparr>) s1) (\<lambda>s2. Inr (l, s2)))))"

definition rm_watch ::
  "'k inotify \<Rightarrow> wlist option \<Rightarrow> int \<Rightarrow> wmem \<Rightarrow> 'k \<Rightarrow> (int \<times> wlist option \<times> wmem \<times> 'k) res" where
  "rm_watch ino list fd s k =
     (case list of None \<Rightarrow> Inr (-1, None, s, k)
      | Some l \<Rightarrow>
          rbind (watch_seek fd s (wl_first l)) (\<lambda>(node, hit).
          rbind (if hit then watch_unlink l node s else Inr (l, s)) (\<lambda>(l1, s1).
            if node = NULL then Inr (-1, Some l1, s1, k)
            else let k1 = ino_rm ino fd k in
              rbind (node_get node s1) (\<lambda>n.
              rbind (c_add (wl_len l1) (-1)) (\<lambda>len.
              rbind (c_free (w_name (wfields n)) s1) (\<lambda>s2.
              rbind (node_free node s2) (\<lambda>s3.
                Inr (w_fd (wfields n), Some (l1\<lparr>wl_len := len\<rparr>), s3, k1))))))))"

text \<open>-1 for an empty list, which the caller takes for a yes.\<close>

definition is_watched :: "wlist option \<Rightarrow> int \<Rightarrow> wmem \<Rightarrow> int res" where
  "is_watched list fd s =
     (case list of None \<Rightarrow> Inr (-1)
      | Some l \<Rightarrow>
          if wl_first l = NULL then Inr (-1)
          else rbind (watch_seek fd s (wl_first l)) (\<lambda>(node, hit). Inr (if hit then 1 else 0)))"

section \<open>Filling the list\<close>

definition func :: "'k inotify \<Rightarrow> string \<Rightarrow> 'k monitor \<Rightarrow> (int \<times> 'k monitor) res" where
  "func ino pathname st =
     (let (fd, k) = ino_add ino pathname (mon_kernel st); st1 = st\<lparr>mon_kernel := k\<rparr> in
      if fd = -1 then Inr (-1, st1)
      else rbind (is_watched (mon_list st1) fd (mon_mem st1)) (\<lambda>w.
        if w = 0
        then rbind (add_watch (mon_list st1) fd pathname (mon_mem st1)) (\<lambda>(node, list, s).
               Inr (if node = NULL then -1 else 0, st1\<lparr>mon_list := list, mon_mem := s\<rparr>))
        else Inr (0, st1)))"

definition inotify_setup :: "'k inotify \<Rightarrow> 'k monitor \<Rightarrow> int \<times> 'k monitor" where
  "inotify_setup ino st = (let (fd, k) = ino_init ino (mon_kernel st) in
     (if fd = -1 then -1 else 0, st\<lparr>mon_kernel := k, mon_fd := fd\<rparr>))"

text \<open>\<^verbatim>\<open>nftw\<close> calls \<^verbatim>\<open>func\<close> until it returns something other than 0.\<close>

fun walk_calls :: "'k inotify \<Rightarrow> string list \<Rightarrow> 'k monitor \<Rightarrow> (int \<times> 'k monitor) res" where
  "walk_calls ino [] st = Inr (0, st)"
| "walk_calls ino (p # ps) st =
     rbind (func ino p st) (\<lambda>(rc, st1). if rc \<noteq> 0 then Inr (rc, st1) else walk_calls ino ps st1)"

definition sync_directory :: "'k inotify \<Rightarrow> string \<Rightarrow> 'k monitor \<Rightarrow> (int \<times> 'k monitor) res" where
  "sync_directory ino dirname st =
     (case ino_walk ino dirname (mon_kernel st) of None \<Rightarrow> Inr (-1, st)
      | Some paths \<Rightarrow> rbind (walk_calls ino paths st) (\<lambda>(rc, st1). Inr (if rc = -1 then -1 else 0, st1)))"

section \<open>Events\<close>

definition gettime :: "'k inotify \<Rightarrow> 'k monitor \<Rightarrow> string" where
  "gettime ino st = take 24 (ino_time ino (mon_kernel st))"

text \<open>The format is applied before; at most \<^verbatim>\<open>LOG_LINE - 1\<close> characters are written.\<close>

definition write_event :: "string \<Rightarrow> 'k monitor \<Rightarrow> 'k monitor" where
  "write_event line st = st\<lparr>mon_log := mon_log st @ snprintf LOG_LINE line\<rparr>"

definition log_line :: "'k inotify \<Rightarrow> string \<Rightarrow> event \<Rightarrow> 'k monitor \<Rightarrow> 'k monitor" where
  "log_line ino what ev st = write_event (''['' @ gettime ino st @ ''] '' @ what @ '': '' @ ev_name ev @ newline) st"

definition has :: "event \<Rightarrow> 32 word \<Rightarrow> bool" where
  "has ev b \<longleftrightarrow> ev_mask ev AND b \<noteq> 0"

text \<open>The cookie is stored in eight bits. A deleted entry is looked up by the descriptor of its directory.\<close>

definition handle_event :: "'k inotify \<Rightarrow> string \<Rightarrow> event \<Rightarrow> 'k monitor \<Rightarrow> (int \<times> 'k monitor) res" where
  "handle_event ino dirname ev st =
     (if has ev IN_IGNORED then Inr (0, st)
      else if \<not> ino_cwd ino (mon_kernel st) then Inr (-1, st)
      else rbind
        (if has ev IN_DELETE then
           rbind (rm_watch ino (mon_list st) (ev_wd ev) (mon_mem st) (ino_rm ino (ev_wd ev) (mon_kernel st)))
             (\<lambda>(rc, list, s, k).
               let st1 = st\<lparr>mon_list := list, mon_mem := s, mon_kernel := k\<rparr> in
               Inr (log_line ino (if has ev IN_ISDIR then ''deleted directory'' else ''deleted file'') ev st1))
         else if has ev IN_CREATE then
           Inr (log_line ino (if has ev IN_ISDIR then ''created directory'' else ''created file'') ev st)
         else if has ev IN_MOVED_FROM then
           Inr (log_line ino ''directory moved from watch zone'' ev (st\<lparr>mon_cookie := ucast (ev_cookie ev)\<rparr>))
         else if has ev IN_MOVED_TO then
           Inr (log_line ino ''directory moved into watched directory'' ev st)
         else Inr st)
        (\<lambda>st1. rbind (sync_directory ino dirname st1) (\<lambda>(rc, st2). Inr (0, st2))))"

fun handle_events :: "'k inotify \<Rightarrow> string \<Rightarrow> event list \<Rightarrow> 'k monitor \<Rightarrow> (bool \<times> 'k monitor) res" where
  "handle_events ino dirname [] st = Inr (True, st)"
| "handle_events ino dirname (ev # evs) st =
     rbind (handle_event ino dirname ev st) (\<lambda>(rc, st1).
       if rc = -1 then Inr (False, st1) else handle_events ino dirname evs st1)"

text \<open>
  The main loop, over what the reads deliver. An empty or failed read ends the process; at the end of the
  list of reads the program waits for the next one.
\<close>

datatype watch_end = Stopped | Waiting | Died string

fun watch_loop :: "'k inotify \<Rightarrow> string \<Rightarrow> event list option list \<Rightarrow> 'k monitor \<Rightarrow> (watch_end \<times> 'k monitor) res" where
  "watch_loop ino dirname [] st = Inr (Waiting, st)"
| "watch_loop ino dirname (None # reads) st = Inr (Died ''read()'', st)"
| "watch_loop ino dirname (Some [] # reads) st = Inr (Died ''0 bytes read from inotify descriptor'', st)"
| "watch_loop ino dirname (Some (ev # evs) # reads) st =
     rbind (handle_events ino dirname (ev # evs) st) (\<lambda>(running, st1).
       if running then watch_loop ino dirname reads st1 else Inr (Stopped, st1))"

definition watch_main ::
  "'k inotify \<Rightarrow> bool \<Rightarrow> string \<Rightarrow> event list option list \<Rightarrow> 'k monitor \<Rightarrow> (watch_end \<times> 'k monitor) res" where
  "watch_main ino log_opens dirname reads st0 =
     (if \<not> log_opens then Inr (Died ''open()'', st0)
      else let (list, s) = create_list (mon_mem st0); st = st0\<lparr>mon_list := list, mon_mem := s\<rparr> in
        if list = None then Inr (Died ''create_list()'', st)
        else let (rc, st1) = inotify_setup ino st in
          if rc = -1 then Inr (Died ''setup()'', st1)
          else rbind (sync_directory ino dirname st1) (\<lambda>(rc, st2).
            if rc = -1 then Inr (Died ''nftw()'', st2) else watch_loop ino dirname reads st2))"

section \<open>The list operations\<close>

definition as_clist :: "wlist \<Rightarrow> clist" where
  "as_clist l = \<lparr>l_addr = NULL, l_mtx = NULL, l_count = wl_len l, l_first = wl_first l, l_last = wl_last l,
     l_elementSize = 0, l_locked = False\<rparr>"

lemma as_clist_simps [simp]:
  "l_count (as_clist l) = wl_len l" "l_first (as_clist l) = wl_first l" "l_last (as_clist l) = wl_last l"
  by (simp_all add: as_clist_def)

definition names :: "(ptr \<times> watch option) list \<Rightarrow> ptr list" where
  "names xs = map (\<lambda>x. w_name (the (snd x))) xs"

text \<open>A well-formed list of watches: linked both ways, and every node owns the block of its name.\<close>

definition watch_shape :: "wlist \<Rightarrow> wmem \<Rightarrow> (ptr \<times> watch option) list \<Rightarrow> bool" where
  "watch_shape l s xs \<longleftrightarrow> list_shape (as_clist l) s xs \<and> (\<forall>x \<in> set xs. snd x \<noteq> None) \<and>
     distinct (names xs) \<and> set (names xs) \<subseteq> live s \<and> set (names xs) \<inter> addrs xs = {}"

lemma watch_shapeD:
  assumes "watch_shape l s xs"
  shows "list_shape (as_clist l) s xs" and "\<forall>x \<in> set xs. snd x \<noteq> None" and "distinct (names xs)"
    and "set (names xs) \<subseteq> live s" and "set (names xs) \<inter> addrs xs = {}"
  using assms unfolding watch_shape_def by blast+

abbreviation watches :: "int \<Rightarrow> ptr \<times> watch option \<Rightarrow> bool" where
  "watches fd x \<equiv> w_fd (the (snd x)) = fd"

lemma watch_seek_miss:
  assumes "lseg (lnodes s) pv xs NULL" and "NULL \<notin> addrs xs" and "\<forall>x \<in> set xs. snd x \<noteq> None \<and> \<not> watches fd x"
  shows "watch_seek fd s (first_of xs NULL) = Inr (NULL, False)"
  using assms
proof (induction xs arbitrary: pv)
  case Nil
  then show ?case by (simp add: watch_seek_def)
next
  case (Cons x xs)
  obtain p w where x: "x = (p, Some w)" using Cons.prems(3) by (cases x) auto
  have "watch_seek fd s p = watch_seek fd s (first_of xs NULL)"
    using Cons.prems x unfolding watch_seek_def by (subst cwhile_go) (auto simp: node_get_def wfields_def)
  then show ?case using Cons x by auto
qed

lemma watch_seek_hit:
  assumes "lseg (lnodes s) pv (xs @ (p, Some w) # ys) NULL" and "NULL \<notin> addrs (xs @ (p, Some w) # ys)"
    and "\<forall>x \<in> set xs. snd x \<noteq> None \<and> \<not> watches fd x" and "w_fd w = fd"
  shows "watch_seek fd s (first_of (xs @ (p, Some w) # ys) NULL) = Inr (p, True)"
  using assms
proof (induction xs arbitrary: pv)
  case Nil
  then show ?case unfolding watch_seek_def by (subst cwhile_go) (auto simp: node_get_def wfields_def)
next
  case (Cons x xs)
  obtain q v where x: "x = (q, Some v)" using Cons.prems(3) by (cases x) auto
  have "watch_seek fd s q = watch_seek fd s (first_of (xs @ (p, Some w) # ys) NULL)"
    using Cons.prems x unfolding watch_seek_def by (subst cwhile_go) (auto simp: node_get_def wfields_def)
  then show ?case using Cons x by auto
qed

text \<open>The links are changed as \<^const>\<open>list_unlink\<close> changes them.\<close>

lemma node_upd_swap:
  assumes "p \<noteq> q" and "node_upd p f s = Inr s1" and "node_upd q g s1 = Inr s2"
  shows "rbind (node_upd q g s) (\<lambda>t. node_upd p f t) = Inr s2"
  using assms by (auto simp: node_upd_def node_get_def rbind_eq_Inr fun_upd_twist split: option.splits if_splits)

lemma list_unlink_watch:
  assumes "list_unlink (as_clist l) p s = Inr (c, s')" and "lnodes s p = Some n" and "p \<noteq> NULL" and "lnext n \<noteq> lprev n \<or> p = wl_first l \<or> p = wl_last l"
  shows "watch_unlink l p s = Inr (l\<lparr>wl_first := l_first c, wl_last := l_last c\<rparr>, s')"
proof -
  have g: "node_get p s = Inr n" using assms(2,3) by (simp add: node_get_def)
  consider "p = wl_first l" "p = wl_last l" | "p = wl_first l" "p \<noteq> wl_last l" | "p \<noteq> wl_first l" "p = wl_last l"
    | "p \<noteq> wl_first l" "p \<noteq> wl_last l" by blast
  then show ?thesis
  proof cases
    case 4
    obtain s1 where s1: "node_upd (lnext n) (\<lambda>m. m\<lparr>lprev := lprev n\<rparr>) s = Inr s1"
      "node_upd (lprev n) (\<lambda>m. m\<lparr>lnext := lnext n\<rparr>) s1 = Inr s'" and c: "c = as_clist l"
      using assms(1) 4 g by (auto simp: list_unlink_def Let_def rbind_eq_Inr)
    have ne: "lnext n \<noteq> lprev n" using assms(4) 4 by blast
    have "rbind (node_upd (lprev n) (\<lambda>m. m\<lparr>lnext := lnext n\<rparr>) s) (\<lambda>t. node_upd (lnext n) (\<lambda>m. m\<lparr>lprev := lprev n\<rparr>) t) = Inr s'"
      by (rule node_upd_swap [OF ne s1])
    then show ?thesis using 4 g c by (auto simp: watch_unlink_def rbind_eq_Inr)
  qed (use assms(1) g in \<open>auto simp: list_unlink_def watch_unlink_def Let_def rbind_eq_Inr split: if_splits\<close>)
qed

lemma rm_watch_hit:
  assumes "watch_shape l s (xs @ (p, Some w) # ys)" and "\<forall>x \<in> set xs. \<not> watches fd x" and "w_fd w = fd"
  shows "\<exists>l' s'. rm_watch ino (Some l) fd s k = Inr (fd, Some l', s', ino_rm ino fd k) \<and> watch_shape l' s' (xs @ ys) \<and>
    live s' = live s - {p, w_name w}"
proof -
  let ?zs = "xs @ (p, Some w) # ys"
  have sh: "list_shape (as_clist l) s ?zs" and vals: "\<forall>x \<in> set ?zs. snd x \<noteq> None"
    and nm: "distinct (names ?zs)" "set (names ?zs) \<subseteq> live s" "set (names ?zs) \<inter> addrs ?zs = {}"
    by (rule watch_shapeD [OF assms(1)])+
  have seg: "lseg (lnodes s) NULL ?zs NULL" "NULL \<notin> addrs ?zs" "wl_first l = first_of ?zs NULL" "wl_last l = last_of NULL ?zs"
    "distinct (map fst ?zs)" "addrs ?zs \<subseteq> live s" "mem_ok s" "wl_len l = int (length ?zs)" "int (length ?zs) \<le> INT_MAX"
    using sh unfolding list_shape_def as_clist_simps by - (elim conjE, assumption)+
  have pz: "p \<noteq> NULL" "p \<in> live s" using seg(2,6) by auto
  have wl: "w_name w \<in> live s" "w_name w \<noteq> p" "w_name w \<noteq> NULL"
    using nm(2,3) mem_ok_nz [OF seg(7)] by (auto simp: names_def)
  have seek: "watch_seek fd s (wl_first l) = Inr (p, True)"
    unfolding seg(3) using vals assms(2,3) by (intro watch_seek_hit [OF seg(1,2)]) auto
  obtain c N m where u: "list_unlink (as_clist l) p s = Inr (c, s\<lparr>lnodes := N\<rparr>)" "lseg N NULL (xs @ ys) NULL"
    "l_first c = first_of (xs @ ys) NULL" "l_last c = last_of NULL (xs @ ys)"
    and m: "N p = Some m" "lval m = Some w"
    using list_unlink_ok [OF sh] by (elim exE conjE) (rule that)
  have np: "lnodes s p = Some \<lparr>lnext = first_of ys NULL, lprev = last_of NULL xs, lval = Some w\<rparr>" by (rule lseg_node [OF seg(1)])
  have "first_of ys NULL \<noteq> last_of NULL xs \<or> p = wl_first l \<or> p = wl_last l"
  proof (cases "xs = [] \<or> ys = []")
    case True
    then show ?thesis using seg(3,4) by (elim disjE) simp_all
  next
    case False
    then have "first_of ys NULL \<in> addrs ys" "last_of NULL xs \<in> addrs xs" using first_of_in last_of_in by blast+
    moreover have "addrs xs \<inter> addrs ys = {}" using seg(5) by (auto simp: image_iff)
    ultimately show ?thesis by (metis disjoint_iff)
  qed
  then have un: "watch_unlink l p s = Inr (l\<lparr>wl_first := l_first c, wl_last := l_last c\<rparr>, s\<lparr>lnodes := N\<rparr>)"
    using list_unlink_watch [OF u(1) np pz(1)] by simp
  let ?l = "l\<lparr>wl_len := wl_len l - 1, wl_first := l_first c, wl_last := l_last c\<rparr>"
  let ?s = "s\<lparr>live := live s - {w_name w} - {p}, lnodes := N(p := None)\<rparr>"
  have len: "c_add (wl_len l) (- 1) = Inr (wl_len l - 1)"
    using seg(8,9) c_add_ok [of "wl_len l" "-1"] by (simp add: INT_MIN_def)
  have run: "rm_watch ino (Some l) fd s k = Inr (fd, Some ?l, ?s, ino_rm ino fd k)"
    using seek un m pz wl len assms(3) by (simp add: rm_watch_def node_get_def node_free_def c_free_def wfields_def)
  have out: "p \<notin> addrs (xs @ ys)" using seg(5) by auto
  have sg: "lseg (N(p := None)) NULL (xs @ ys) NULL" using u(2) out by simp
  have "w_name w \<notin> addrs (xs @ ys)" using nm(3) by (auto simp: names_def)
  moreover have "addrs (xs @ ys) \<subseteq> live s" using seg(6) by simp
  ultimately have "addrs (xs @ ys) \<subseteq> live s - {w_name w} - {p}" using out by blast
  moreover have "mem_ok ?s" using seg(7) by (simp add: mem_ok_def)
  ultimately have "list_shape (as_clist ?l) ?s (xs @ ys)"
    using sg u(3,4) seg(2,5,8,9) by (simp add: list_shape_def)
  moreover have split: "names ?zs = names xs @ w_name w # names ys" "names (xs @ ys) = names xs @ names ys"
    by (simp_all add: names_def)
  have n2: "set (names (xs @ ys)) \<subseteq> live s" "w_name w \<notin> set (names (xs @ ys))" "distinct (names (xs @ ys))"
    using nm(1,2) unfolding split by auto
  have n3: "p \<notin> set (names (xs @ ys))" "set (names (xs @ ys)) \<inter> addrs (xs @ ys) = {}"
    using nm(3) unfolding split by auto
  have "set (names (xs @ ys)) \<subseteq> live s - {w_name w} - {p}" using n2(1,2) n3(1) by blast
  ultimately have "watch_shape ?l ?s (xs @ ys)" using vals n2(3) n3(2) by (simp add: watch_shape_def)
  then show ?thesis using run by (intro exI [of _ ?l] exI [of _ ?s]) auto
qed

lemma rm_watch_miss:
  assumes "watch_shape l s xs" and "\<forall>x \<in> set xs. \<not> watches fd x"
  shows "rm_watch ino (Some l) fd s k = Inr (-1, Some l, s, k)"
proof -
  have "watch_seek fd s (wl_first l) = Inr (NULL, False)"
    using assms watch_seek_miss [of s NULL xs fd] by (auto simp: watch_shape_def list_shape_def)
  then show ?thesis by (simp add: rm_watch_def)
qed

lemma is_watched_run:
  assumes "watch_shape l s xs" and "xs \<noteq> []"
  shows "is_watched (Some l) fd s = Inr (if \<exists>x \<in> set xs. watches fd x then 1 else 0)"
proof -
  have seg: "lseg (lnodes s) NULL xs NULL" "NULL \<notin> addrs xs" "wl_first l = first_of xs NULL" and vals: "\<forall>x \<in> set xs. snd x \<noteq> None"
    using assms(1) by (simp_all add: watch_shape_def list_shape_def)
  have ne: "wl_first l \<noteq> NULL" using seg(2,3) assms(2) by (simp add: first_of_notin)
  show ?thesis
  proof (cases "\<exists>x \<in> set xs. watches fd x")
    case False
    then show ?thesis using watch_seek_miss [OF seg(1,2)] vals ne seg(3) by (simp add: is_watched_def)
  next
    case True
    obtain ys x zs where xs: "xs = ys @ x # zs" "watches fd x" "\<forall>y \<in> set ys. \<not> watches fd y"
      using split_list_first_prop [OF True] by blast
    obtain p w where x: "x = (p, Some w)" using vals xs(1) by (cases x) auto
    have "watch_seek fd s (wl_first l) = Inr (p, True)"
      using watch_seek_hit [of s NULL ys p w zs fd] seg xs x vals by auto
    then show ?thesis using ne True by (simp add: is_watched_def)
  qed
qed

lemma add_watch_run:
  assumes "watch_shape l s xs" and "ample s" and "int (length xs) + 1 \<le> INT_MAX"
  shows "\<exists>p nm l' s'. add_watch (Some l) fd f s = Inr (p, Some l', s') \<and>
    watch_shape l' s' (xs @ [(p, Some \<lparr>w_fd = fd, w_name = nm, w_text = f\<rparr>)]) \<and>
    live s' = live s \<union> {p, nm} \<and> {p, nm} \<inter> live s = {} \<and> p \<noteq> nm \<and> p \<noteq> NULL \<and> ample s'"
proof -
  let ?p = "Suc (calls s)" and ?nm = "Suc (Suc (calls s))"
  let ?w = "\<lparr>w_fd = fd, w_name = ?nm, w_text = f\<rparr>"
  let ?s3 = "s\<lparr>calls := ?nm, live := insert ?nm (insert ?p (live s)),
     lnodes := (lnodes s)(?p := Some \<lparr>lnext = NULL, lprev = NULL, lval = Some ?w\<rparr>)\<rparr>"
  have sh: "list_shape (as_clist l) s xs" and vals: "\<forall>x \<in> set xs. snd x \<noteq> None"
    and nm: "distinct (names xs)" "set (names xs) \<subseteq> live s" "set (names xs) \<inter> addrs xs = {}"
    by (rule watch_shapeD [OF assms(1)])+
  have mem: "mem_ok s" and al: "addrs xs \<subseteq> live s" using sh by (simp_all add: list_shape_def)
  have fresh: "?p \<notin> live s" "?nm \<notin> live s" using mem by (auto simp: mem_ok_def)
  have pa: "?p \<notin> addrs xs" using fresh(1) al by blast
  have nf: "\<not> fails s (calls s)" "\<not> fails s (Suc (calls s))" using assms(2) by (simp_all add: ample_def)
  have "mem_ok ?s3" using mem by (auto simp: mem_ok_def)
  then have sh3: "list_shape (as_clist l) ?s3 xs" using sh pa by (auto simp: list_shape_def)
  obtain c N where a: "list_append (as_clist l) ?p ?s3 = Inr (c, ?s3\<lparr>lnodes := N\<rparr>)"
    "list_shape c (?s3\<lparr>lnodes := N\<rparr>) (xs @ [(?p, Some ?w)])"
    using list_append_ok [OF sh3 pa, of "Some ?w"] assms(3) by auto
  let ?l = "\<lparr>wl_len = l_count c, wl_first = l_first c, wl_last = l_last c\<rparr>"
  have run: "add_watch (Some l) fd f s = Inr (?p, Some ?l, ?s3\<lparr>lnodes := N\<rparr>)"
  proof -
    have "node_upd ?p (\<lambda>n. n\<lparr>lval := Some ?w\<rparr>) ((new_node_mem s None)\<lparr>calls := ?nm, live := insert ?nm (insert ?p (live s))\<rparr>) = Inr ?s3"
      by (simp add: node_upd_def node_get_def)
    then show ?thesis using a(1) nf
      by (cases "wl_last l = NULL")
        (auto simp: add_watch_def node_alloc_ok c_alloc_def list_append_def rbind_eq_Inr as_clist_def)
  qed
  have "list_shape (as_clist ?l) (?s3\<lparr>lnodes := N\<rparr>) (xs @ [(?p, Some ?w)])"
    using a(2) by (simp add: list_shape_def)
  moreover have "?nm \<noteq> ?p" "?nm \<notin> addrs xs" "?p \<notin> set (names xs)" "?nm \<notin> set (names xs)" using fresh al nm(2) by auto
  ultimately have "watch_shape ?l (?s3\<lparr>lnodes := N\<rparr>) (xs @ [(?p, Some ?w)])"
    using vals nm by (auto simp: watch_shape_def names_def)
  moreover have "ample (?s3\<lparr>lnodes := N\<rparr>)" using assms(2) by (simp add: ample_def)
  ultimately show ?thesis using run fresh
    by (intro exI [of _ ?p] exI [of _ ?nm] exI [of _ ?l] exI [of _ "?s3\<lparr>lnodes := N\<rparr>"]) auto
qed

section \<open>The list the program keeps\<close>

text \<open>With an empty list no descriptor is ever added: \<^const>\<open>is_watched\<close> answers -1.\<close>

definition same_watches :: "'k monitor \<Rightarrow> 'k monitor \<Rightarrow> bool" where
  "same_watches st st' \<longleftrightarrow> mon_list st' = mon_list st \<and> mon_mem st' = mon_mem st"

definition no_watches :: "'k monitor \<Rightarrow> bool" where
  "no_watches st \<longleftrightarrow> mon_list st = Some \<lparr>wl_len = 0, wl_first = NULL, wl_last = NULL\<rparr>"

lemma same_watches_trans: "same_watches a b \<Longrightarrow> same_watches b c \<Longrightarrow> same_watches a c"
  by (simp add: same_watches_def)

lemma no_watches_same: "no_watches st \<Longrightarrow> same_watches st st' \<Longrightarrow> no_watches st'"
  by (simp add: no_watches_def same_watches_def)

lemma func_no_watches: "no_watches st \<Longrightarrow> \<exists>rc st'. func ino path st = Inr (rc, st') \<and> same_watches st st'"
  by (auto simp: func_def no_watches_def is_watched_def same_watches_def Let_def split: prod.split)

lemma walk_no_watches: "no_watches st \<Longrightarrow> \<exists>rc st'. walk_calls ino paths st = Inr (rc, st') \<and> same_watches st st'"
proof (induction paths arbitrary: st)
  case Nil
  then show ?case by (simp add: same_watches_def)
next
  case (Cons p paths)
  obtain rc st1 where 1: "func ino p st = Inr (rc, st1)" "same_watches st st1" using func_no_watches [OF Cons.prems] by blast
  obtain rc2 st2 where 2: "walk_calls ino paths st1 = Inr (rc2, st2)" "same_watches st1 st2"
    using Cons.IH [OF no_watches_same [OF Cons.prems 1(2)]] by blast
  show ?case using 1 2 same_watches_trans by (cases "rc = 0") auto
qed

lemma sync_no_watches: "no_watches st \<Longrightarrow> \<exists>rc st'. sync_directory ino dir st = Inr (rc, st') \<and> same_watches st st'"
proof (cases "ino_walk ino dir (mon_kernel st)")
  case (Some paths)
  assume "no_watches st"
  then obtain rc st' where "walk_calls ino paths st = Inr (rc, st')" "same_watches st st'" using walk_no_watches by blast
  then show ?thesis using Some by (simp add: sync_directory_def)
qed (simp add: sync_directory_def same_watches_def)

lemma handle_no_watches:
  assumes "no_watches st"
  shows "\<exists>rc st'. handle_event ino dir ev st = Inr (rc, st') \<and> same_watches st st'"
proof -
  have rm: "rm_watch ino (mon_list st) fd s k = Inr (-1, mon_list st, s, k)" for fd s k
    using assms by (simp add: no_watches_def rm_watch_def watch_seek_def)
  have sync: "\<exists>rc st'. rbind (sync_directory ino dir st1) (\<lambda>(rc, st2). Inr (0 :: int, st2)) = Inr (rc, st') \<and> same_watches st st'"
    if s1: "same_watches st st1" for st1
  proof -
    obtain rc st' where "sync_directory ino dir st1 = Inr (rc, st')" "same_watches st1 st'"
      using sync_no_watches [OF no_watches_same [OF assms s1]] by blast
    then show ?thesis using same_watches_trans [OF s1] by auto
  qed
  have log: "same_watches st1 (log_line ino what ev st1)" for what st1
    by (simp add: same_watches_def log_line_def write_event_def)
  show ?thesis
    unfolding handle_event_def Let_def rm
    using sync same_watches_trans log by (auto simp: same_watches_def log_line_def write_event_def)
qed

lemma events_no_watches:
  "no_watches st \<Longrightarrow> \<exists>go st'. handle_events ino dir evs st = Inr (go, st') \<and> same_watches st st'"
proof (induction evs arbitrary: st)
  case Nil
  then show ?case by (auto simp: same_watches_def)
next
  case (Cons ev evs)
  obtain rc st1 where 1: "handle_event ino dir ev st = Inr (rc, st1)" "same_watches st st1" using handle_no_watches [OF Cons.prems] by blast
  obtain go st2 where 2: "handle_events ino dir evs st1 = Inr (go, st2)" "same_watches st1 st2"
    using Cons.IH [OF no_watches_same [OF Cons.prems 1(2)]] by blast
  show ?case using 1 2 same_watches_trans by (cases "rc = -1") auto
qed

lemma loop_no_watches:
  "no_watches st \<Longrightarrow> \<exists>e st'. watch_loop ino dir reads st = Inr (e, st') \<and> same_watches st st'"
proof (induction ino dir reads st rule: watch_loop.induct)
  case (4 ino dir ev evs reads st)
  obtain go st1 where 1: "handle_events ino dir (ev # evs) st = Inr (go, st1)" "same_watches st st1"
    using events_no_watches [OF 4(2)] by blast
  show ?case
  proof (cases go)
    case True
    obtain e st2 where "watch_loop ino dir reads st1 = Inr (e, st2)" "same_watches st1 st2"
      using 4(1) [OF 1(1) refl True no_watches_same [OF 4(2) 1(2)]] by blast
    then show ?thesis using True 1 same_watches_trans [OF 1(2)] by auto
  next
    case False
    then show ?thesis using 1 by simp
  qed
qed (simp_all add: same_watches_def)

section \<open>Properties\<close>

definition ex_inotify :: "nat inotify" where
  "ex_inotify = \<lparr>ino_init = (\<lambda>k. (3, k)), ino_add = (\<lambda>p k. (int k, Suc k)), ino_rm = (\<lambda>fd k. k),
     ino_walk = (\<lambda>d k. Some [''/tmp'', ''/tmp/a'']), ino_cwd = (\<lambda>k. True), ino_time = (\<lambda>k. ''Thu Nov 19 12:46:00 2020'')\<rparr>"

definition ex_monitor :: "nat monitor" where
  "ex_monitor = \<lparr>mon_mem = \<lparr>calls = 0, fails = (\<lambda>_. False), live = {}, lnodes = (\<lambda>_. None), objs = (\<lambda>_. None)\<rparr>, mon_list = None,
     mon_fd = 0, mon_cookie = 0, mon_log = [], mon_kernel = 1\<rparr>"

text \<open>C38: Whatever the tree, the kernel and the events, the program's list of watches stays empty and its memory as it
  was: \<^verbatim>\<open>is_watched\<close> answers -1 for the empty list, and \<^verbatim>\<open>func\<close> takes this for a yes. (The file does not compile as
  it is: the code behind the loop uses a variable it does not declare.)\<close>

theorem watch_list_stays_empty:
  assumes "\<not> fails (mon_mem st0) (calls (mon_mem st0))"
  shows "\<exists>e st. watch_main ino log_opens dir reads st0 = Inr (e, st) \<and>
    (log_opens \<longrightarrow> mon_list st = Some \<lparr>wl_len = 0, wl_first = NULL, wl_last = NULL\<rparr> \<and> mon_mem st = snd (c_alloc (mon_mem st0)))"
proof (cases log_opens)
  case True
  define st where "st = st0\<lparr>mon_list := Some \<lparr>wl_len = 0, wl_first = NULL, wl_last = NULL\<rparr>, mon_mem := snd (c_alloc (mon_mem st0))\<rparr>"
  have nw: "no_watches st" by (simp add: st_def no_watches_def)
  obtain rc st1 where s1: "inotify_setup ino st = (rc, st1)" by (rule prod.exhaust)
  then have same1: "same_watches st st1" by (auto simp: inotify_setup_def same_watches_def split: prod.splits)
  note nw1 = no_watches_same [OF nw same1]
  obtain rc2 st2 where s2: "sync_directory ino dir st1 = Inr (rc2, st2)" "same_watches st1 st2" using sync_no_watches [OF nw1] by blast
  obtain e st3 where s3: "watch_loop ino dir reads st2 = Inr (e, st3)" "same_watches st2 st3"
    using loop_no_watches [OF no_watches_same [OF nw1 s2(2)]] by blast
  have create: "create_list (mon_mem st0) = (Some \<lparr>wl_len = 0, wl_first = NULL, wl_last = NULL\<rparr>, snd (c_alloc (mon_mem st0)))"
    using assms by (simp add: create_list_def c_alloc_def)
  have "watch_main ino log_opens dir reads st0 =
      (if rc = -1 then Inr (Died ''setup()'', st1) else if rc2 = -1 then Inr (Died ''nftw()'', st2) else Inr (e, st3))"
    using True s1 s2(1) s3(1) by (simp add: watch_main_def create st_def)
  moreover have "same_watches st st2" "same_watches st st3" using same1 s2(2) s3(2) same_watches_trans by blast+
  ultimately show ?thesis using same1 by (auto simp: same_watches_def st_def)
qed (simp add: watch_main_def)

theorem watch_list_stays_empty_witness:
  "\<exists>e st. watch_main ex_inotify True ''/tmp'' [Some [\<lparr>ev_wd = 1, ev_mask = 0x100, ev_cookie = 0, ev_name = ''b''\<rparr>]] ex_monitor = Inr (e, st) \<and>
    mon_list st = Some \<lparr>wl_len = 0, wl_first = NULL, wl_last = NULL\<rparr>"
  using watch_list_stays_empty [where ?st0.0 = ex_monitor and ino = ex_inotify and log_opens = True and dir = "''/tmp''"
    and reads = "[Some [\<lparr>ev_wd = 1, ev_mask = 0x100, ev_cookie = 0, ev_name = ''b''\<rparr>]]"]
  by (auto simp: ex_monitor_def)

text \<open>On a list that is not empty the operations work: a descriptor that is added is watched then, and removing it
  returns it, calls the kernel and gives the list and all memory back.\<close>

theorem watch_add_remove:
  assumes "watch_shape l s xs" and "ample s" and "int (length xs) + 1 \<le> INT_MAX" and "\<forall>x \<in> set xs. \<not> watches fd x"
  shows "\<exists>p l1 s1 l2 s2. add_watch (Some l) fd f s = Inr (p, Some l1, s1) \<and> p \<noteq> NULL \<and>
    is_watched (Some l1) fd s1 = Inr 1 \<and> rm_watch ino (Some l1) fd s1 k = Inr (fd, Some l2, s2, ino_rm ino fd k) \<and>
    watch_shape l2 s2 xs \<and> live s2 = live s"
proof -
  obtain p nm l1 s1 where a: "add_watch (Some l) fd f s = Inr (p, Some l1, s1)"
    "watch_shape l1 s1 (xs @ [(p, Some \<lparr>w_fd = fd, w_name = nm, w_text = f\<rparr>)])"
    "live s1 = live s \<union> {p, nm}" "{p, nm} \<inter> live s = {}" "p \<noteq> NULL"
    using add_watch_run [OF assms(1-3), of fd f] by (elim exE conjE) (rule that)
  have w: "is_watched (Some l1) fd s1 = Inr 1" using is_watched_run [OF a(2), of fd] by simp
  have fdw: "w_fd \<lparr>w_fd = fd, w_name = nm, w_text = f\<rparr> = fd" by simp
  obtain l2 s2 where r: "rm_watch ino (Some l1) fd s1 k = Inr (fd, Some l2, s2, ino_rm ino fd k)" "watch_shape l2 s2 (xs @ [])"
    "live s2 = live s1 - {p, w_name \<lparr>w_fd = fd, w_name = nm, w_text = f\<rparr>}"
    using rm_watch_hit [OF a(2) assms(4) fdw, of ino k] by (elim exE conjE) (rule that)
  have "live s2 = live s" using r(3) a(3,4) by auto
  then show ?thesis using a(1,5) w r(1,2) by auto
qed

theorem watch_add_remove_witness:
  "\<exists>p l1 s1 l2 s2. add_watch (Some \<lparr>wl_len = 0, wl_first = NULL, wl_last = NULL\<rparr>) 7 ''/tmp'' (mon_mem ex_monitor) = Inr (p, Some l1, s1) \<and>
    is_watched (Some l1) 7 s1 = Inr 1 \<and> rm_watch ex_inotify (Some l1) 7 s1 1 = Inr (7, Some l2, s2, 1) \<and> live s2 = {}"
  using watch_add_remove [where l = "\<lparr>wl_len = 0, wl_first = NULL, wl_last = NULL\<rparr>" and s = "mon_mem ex_monitor" and xs = "[]"
    and fd = 7 and f = "''/tmp''" and ino = ex_inotify and k = 1]
  by (auto simp: watch_shape_def list_shape_def names_def ex_monitor_def ex_inotify_def ample_def mem_ok_def INT_MAX_def)

end
