(* ===== verification/File_Service.thy ===== *)
theory File_Service
  imports C_Text
begin

text \<open>
  The file server over System V message queues: \<^verbatim>\<open>46-4-server.c\<close>, \<^verbatim>\<open>46-4-client.c\<close> and
  \<^verbatim>\<open>file_server_header.h\<close> of \<^verbatim>\<open>46-system-v-message-queues/exercises\<close>.

  The first part is the start and the end of the server, on the queues and the key file that all servers share.
  The second is one session: the client, the child that serves it and the client's queue, as the states between
  their system calls. \<open>session_step\<close> interleaves them. A call that blocks may be interrupted by the alarm, and where
  \<open>faults\<close> are allowed any call of the server may fail, as \<^verbatim>\<open>msgsnd\<close> does when the kernel is out of memory.
\<close>

section \<open>The server's queue and key file\<close>

definition SERVER_KEY_FILE :: string where "SERVER_KEY_FILE = ''/tmp/well_known_server_file''"

text \<open>The queues that exist, and the id in the key file when there is one.\<close>

record srv_world =
  sw_queues :: "int set"
  sw_key :: "int option"
  sw_syslog :: "string list"

datatype srv_end = Serving int | Ended_With string | Killed_By int | Exit_Failed string

text \<open>The handler of \<^verbatim>\<open>exit\<close>; a failing call calls \<^verbatim>\<open>exit\<close> again from inside it.\<close>

definition exitHandler :: "int \<Rightarrow> srv_world \<Rightarrow> string option \<times> srv_world" where
  "exitHandler serverId w =
     (if serverId \<notin> sw_queues w then (Some ''msgctl'', w)
      else let w1 = w\<lparr>sw_queues := sw_queues w - {serverId}\<rparr> in
        if sw_key w1 = None then (Some ''unlink'', w1) else (None, w1\<lparr>sw_key := None\<rparr>))"

definition exit_with :: "string \<Rightarrow> int \<Rightarrow> srv_world \<Rightarrow> srv_end \<times> srv_world" where
  "exit_with msg serverId w =
     (case exitHandler serverId w of (None, w1) \<Rightarrow> (Ended_With msg, w1) | (Some e, w1) \<Rightarrow> (Exit_Failed e, w1))"

text \<open>The handler of SIGTERM and SIGINT: clean up and die of the signal.\<close>

definition sigCleanup :: "int \<Rightarrow> int \<Rightarrow> srv_world \<Rightarrow> srv_end \<times> srv_world" where
  "sigCleanup sig serverId w =
     (if serverId \<notin> sw_queues w then exit_with ''msgctl'' serverId w
      else let w1 = w\<lparr>sw_queues := sw_queues w - {serverId}\<rparr> in
        if sw_key w1 = None then exit_with ''unlink'' serverId w1
        else (Killed_By sig, w1\<lparr>sw_key := None\<rparr>))"

text \<open>
  The start of \<^verbatim>\<open>main\<close> behind \<^verbatim>\<open>becomeDaemon\<close> and \<^verbatim>\<open>atexit\<close>. \<open>fresh\<close> is the id \<^verbatim>\<open>msgget\<close> returns, or -1; the
  key file is created exclusively; \<open>writes\<close> and \<open>closes\<close> say whether these calls succeed.
\<close>

definition server_start :: "int \<Rightarrow> bool \<Rightarrow> bool \<Rightarrow> srv_world \<Rightarrow> srv_end \<times> srv_world" where
  "server_start fresh writes closes w =
     (if fresh = -1 then exit_with ''msgget'' fresh w
      else let w1 = w\<lparr>sw_queues := insert fresh (sw_queues w)\<rparr> in
        if sw_key w1 \<noteq> None then exit_with ''open - server key file'' fresh w1
        else let w2 = w1\<lparr>sw_key := Some 0\<rparr> in
          if \<not> writes then exit_with ''write - server key file'' fresh w2
          else let w3 = w2\<lparr>sw_key := Some fresh\<rparr> in
            if \<not> closes then exit_with ''close - server key file'' fresh w3
            else (Serving fresh, w3))"

section \<open>A session\<close>

definition RESP_MSG_SIZE :: nat where "RESP_MSG_SIZE = 8192"

definition RESP_MT_FAILURE :: int where "RESP_MT_FAILURE = 1"

definition RESP_MT_DATA :: int where "RESP_MT_DATA = 2"

definition RESP_MT_END :: int where "RESP_MT_END = 3"

definition PATHNAME_MAX :: nat where "PATHNAME_MAX = 4096"

text \<open>A response is its type and its data bytes.\<close>

type_synonym response = "int \<times> string"

text \<open>Where the child of the server is: between reading a chunk and sending it it holds the chunk and the rest.\<close>

datatype server_pc =
    Idle
  | Opening string
  | Sending_Failure string
  | Reading string
  | Sending_Data string string
  | Sending_End
  | Finished int

text \<open>
  Where the client is: it counts the bytes and, in an \<^verbatim>\<open>int\<close>, the messages so far. At the end: status, output and
  diagnosis; \<open>Undefined\<close> when the counter overflows. The bytes are a \<^verbatim>\<open>ssize_t\<close>, which cannot overflow before the counter does.
\<close>

datatype client_pc =
    Requesting
  | Receiving_First
  | Receiving nat int
  | Terminated int string string
  | Undefined cerr

record session =
  s_request :: "string option"
  s_server :: server_pc
  s_queue :: "response list"
  s_alive :: bool
  s_client :: client_pc
  s_log :: "string list"

text \<open>A call on a queue goes on when it can; when it blocks, the alarm may go off.\<close>

datatype alarm = Quiet | Rings

definition fits :: "nat \<Rightarrow> response list \<Rightarrow> string \<Rightarrow> bool" where
  "fits qbytes q data \<longleftrightarrow> sum_list (map (\<lambda>m. length (snd m)) q) + length data \<le> qbytes \<and> length q < qbytes"

text \<open>
  The server's \<^verbatim>\<open>sendMessage\<close>: \<open>broken\<close> says that \<^verbatim>\<open>sigaction\<close> or \<^verbatim>\<open>msgsnd\<close> fails with an error other than \<^verbatim>\<open>EINTR\<close>.
  After a timeout the client's queue is logged and removed. None: still blocked.
\<close>

definition sendMessage :: "nat \<Rightarrow> bool \<Rightarrow> alarm \<Rightarrow> response \<Rightarrow> session \<Rightarrow> (int \<times> session) option" where
  "sendMessage qbytes broken al resp s =
     (if broken \<or> \<not> s_alive s then Some (-1, s)
      else if fits qbytes (s_queue s) (snd resp) then Some (0, s\<lparr>s_queue := s_queue s @ [resp]\<rparr>)
      else if al = Rings
      then Some (-1, s\<lparr>s_log := s_log s @ [''Client timed out''], s_alive := False, s_queue := []\<rparr>)
      else None)"

text \<open>The client's \<^verbatim>\<open>receiveMessage\<close>: the error is whether it timed out (\<^verbatim>\<open>EINTR\<close>).\<close>

definition receiveMessage :: "alarm \<Rightarrow> session \<Rightarrow> ((bool + response) \<times> session) option" where
  "receiveMessage al s =
     (if \<not> s_alive s then Some (Inl False, s)
      else case s_queue s of
          m # q \<Rightarrow> Some (Inr m, s\<lparr>s_queue := q\<rparr>)
        | [] \<Rightarrow> if al = Rings then Some (Inl True, s) else None)"

definition failure_msg :: response where
  "failure_msg = (RESP_MT_FAILURE, ''Couldn'' @ [CHR 0x27] @ ''t open'' @ [NUL])"

text \<open>The steps of \<^verbatim>\<open>serveRequest\<close>. \<open>fs\<close> gives the contents of a path that can be opened, \<open>broken\<close> whether the
  next call fails. The loop ends when \<^verbatim>\<open>read\<close> gives 0 or -1 and when a message cannot be sent; in each case the end of
  the file is sent.\<close>

definition after_send :: "server_pc \<Rightarrow> server_pc \<Rightarrow> string list \<Rightarrow> (int \<times> session) option \<Rightarrow> session option" where
  "after_send ok failed log r =
     (case r of None \<Rightarrow> None
      | Some (rc, s) \<Rightarrow> Some (if rc = -1 then s\<lparr>s_server := failed, s_log := s_log s @ log\<rparr> else s\<lparr>s_server := ok\<rparr>))"

definition server_step :: "(string \<Rightarrow> string option) \<Rightarrow> nat \<Rightarrow> bool \<Rightarrow> alarm \<Rightarrow> session \<Rightarrow> session option" where
  "server_step fs qbytes broken al s =
     (case s_server s of
        Idle \<Rightarrow> (case s_request s of None \<Rightarrow> None
          | Some path \<Rightarrow> Some (s\<lparr>s_request := None, s_server := Opening path\<rparr>))
      | Opening path \<Rightarrow> (case (if broken then None else fs path) of
            None \<Rightarrow> Some (s\<lparr>s_server := Sending_Failure path\<rparr>)
          | Some content \<Rightarrow> Some (s\<lparr>s_server := Reading content\<rparr>))
      | Sending_Failure path \<Rightarrow>
          map_option (\<lambda>t. t\<lparr>s_log := s_log t @ [''Could not open file: '' @ path @ newline]\<rparr>)
            (after_send (Finished 1) (Finished 1) [] (sendMessage qbytes broken al failure_msg s))
      | Reading rest \<Rightarrow>
          Some (s\<lparr>s_server := if broken \<or> rest = [] then Sending_End
                              else Sending_Data (take RESP_MSG_SIZE rest) (drop RESP_MSG_SIZE rest)\<rparr>)
      | Sending_Data data rest \<Rightarrow>
          after_send (Reading rest) Sending_End [''Unable to send file contents''] (sendMessage qbytes broken al (RESP_MT_DATA, data) s)
      | Sending_End \<Rightarrow> after_send (Finished 0) (Finished 0) [] (sendMessage qbytes broken al (RESP_MT_END, []) s)
      | Finished status \<Rightarrow> None)"

text \<open>The steps of the client. Every exit removes its queue; a removed queue makes that fail as well.\<close>

definition client_exit :: "int \<Rightarrow> string \<Rightarrow> string \<Rightarrow> session \<Rightarrow> session" where
  "client_exit status out err s = s\<lparr>s_client := Terminated (if s_alive s then status else 1) out err, s_alive := False, s_queue := []\<rparr>"

definition client_fails :: "bool \<Rightarrow> session \<Rightarrow> session" where
  "client_fails timeout s = client_exit 1 [] (if timeout then ''Server timed out. Exiting.'' @ newline else []) s"

definition report :: "nat \<Rightarrow> int \<Rightarrow> string" where
  "report bytes msgs = ''Received '' @ nat_text bytes @ '' bytes ('' @ int_text msgs @ '' messages)'' @ newline"

text \<open>The counter starts at 1 with the first message and is incremented after every other one.\<close>

definition client_took :: "nat \<Rightarrow> int \<Rightarrow> response \<Rightarrow> session \<Rightarrow> session" where
  "client_took bytes msgs m s =
     (let b = bytes + length (snd m) in
      case c_add msgs 1 of
        Inl e \<Rightarrow> s\<lparr>s_client := Undefined e\<rparr>
      | Inr n \<Rightarrow> if fst m = RESP_MT_DATA then s\<lparr>s_client := Receiving b n\<rparr> else client_exit 0 (report b n) [] s)"

text \<open>\<open>refused\<close>: the call fails for another reason than a timeout or a removed queue.\<close>

definition client_step :: "string \<Rightarrow> bool \<Rightarrow> alarm \<Rightarrow> session \<Rightarrow> session option" where
  "client_step path refused al s =
     (case s_client s of
        Requesting \<Rightarrow>
          if length path > PATHNAME_MAX - 1 then Some (client_exit 1 [] ''pathname too long'' s)
          else if refused then Some (client_fails (al = Rings) s)
          else if s_request s = None then Some (s\<lparr>s_request := Some path, s_client := Receiving_First\<rparr>)
          else None
      | Receiving_First \<Rightarrow>
          if refused then Some (client_fails False s)
          else (case receiveMessage al s of None \<Rightarrow> None
           | Some (Inl timeout, s1) \<Rightarrow> Some (client_fails timeout s1)
           | Some (Inr m, s1) \<Rightarrow>
               Some (if fst m = RESP_MT_FAILURE then client_exit 1 (buf_text (snd m) @ newline) [] s1
                     else client_took 0 0 m s1))
      | Receiving bytes msgs \<Rightarrow>
          if refused then Some (client_fails False s)
          else (case receiveMessage al s of None \<Rightarrow> None
           | Some (Inl timeout, s1) \<Rightarrow> Some (client_fails timeout s1)
           | Some (Inr m, s1) \<Rightarrow> Some (client_took bytes msgs m s1))
      | Terminated status out err \<Rightarrow> None
      | Undefined e \<Rightarrow> None)"

definition session_start :: session where
  "session_start = \<lparr>s_request = None, s_server = Idle, s_queue = [], s_alive = True, s_client = Requesting, s_log = []\<rparr>"

inductive session_step :: "(string \<Rightarrow> string option) \<Rightarrow> nat \<Rightarrow> bool \<Rightarrow> string \<Rightarrow> session \<Rightarrow> session \<Rightarrow> bool"
  for fs qbytes faults path where
  server: "server_step fs qbytes (faults \<and> b) al s = Some t \<Longrightarrow> session_step fs qbytes faults path s t"
| client: "client_step path refused al s = Some t \<Longrightarrow> session_step fs qbytes faults path s t"

inductive reached :: "(string \<Rightarrow> string option) \<Rightarrow> nat \<Rightarrow> bool \<Rightarrow> string \<Rightarrow> session \<Rightarrow> bool"
  for fs qbytes faults path where
  start: "reached fs qbytes faults path session_start"
| step: "reached fs qbytes faults path s \<Longrightarrow> session_step fs qbytes faults path s t \<Longrightarrow> reached fs qbytes faults path t"

text \<open>A step in which no call fails and no alarm goes off.\<close>

inductive quiet_step :: "(string \<Rightarrow> string option) \<Rightarrow> nat \<Rightarrow> string \<Rightarrow> session \<Rightarrow> session \<Rightarrow> bool" for fs qbytes path where
  quiet_server: "server_step fs qbytes False Quiet s = Some t \<Longrightarrow> quiet_step fs qbytes path s t"
| quiet_client: "client_step path False Quiet s = Some t \<Longrightarrow> quiet_step fs qbytes path s t"

section \<open>What a session sends\<close>

function chunks :: "string \<Rightarrow> string list" where
  "chunks xs = (if xs = [] then [] else take RESP_MSG_SIZE xs # chunks (drop RESP_MSG_SIZE xs))"
  by auto
termination by (relation "measure length") (auto simp: RESP_MSG_SIZE_def)

declare chunks.simps [simp del]

lemma chunks_Nil [simp]: "chunks [] = []"
  by (simp add: chunks.simps)

lemma chunks_more: "xs \<noteq> [] \<Longrightarrow> chunks xs = take RESP_MSG_SIZE xs # chunks (drop RESP_MSG_SIZE xs)"
  by (simp add: chunks.simps)

lemma concat_chunks: "concat (chunks xs) = xs"
  by (induction xs rule: chunks.induct) (subst chunks.simps, simp)

lemma length_chunks: "length (chunks xs) = (length xs + (RESP_MSG_SIZE - 1)) div RESP_MSG_SIZE"
proof (induction xs rule: chunks.induct)
  case (1 xs)
  show ?case
  proof (cases "xs = []")
    case False
    have "length (chunks xs) = Suc ((length xs - RESP_MSG_SIZE + (RESP_MSG_SIZE - 1)) div RESP_MSG_SIZE)"
      using 1 False by (simp add: chunks_more)
    also have "\<dots> = (length xs + (RESP_MSG_SIZE - 1)) div RESP_MSG_SIZE"
    proof -
      have l: "0 < length xs" "0 < RESP_MSG_SIZE" using False by (simp_all add: RESP_MSG_SIZE_def)
      then have "(length xs + (RESP_MSG_SIZE - 1)) div RESP_MSG_SIZE = Suc ((length xs + (RESP_MSG_SIZE - 1) - RESP_MSG_SIZE) div RESP_MSG_SIZE)"
        by (intro le_div_geq) linarith+
      moreover have "(length xs + (RESP_MSG_SIZE - 1) - RESP_MSG_SIZE) div RESP_MSG_SIZE
          = (length xs - RESP_MSG_SIZE + (RESP_MSG_SIZE - 1)) div RESP_MSG_SIZE"
        using l by (cases "RESP_MSG_SIZE \<le> length xs") simp_all
      ultimately show ?thesis by simp
    qed
    finally show ?thesis .
  qed (simp add: RESP_MSG_SIZE_def)
qed

text \<open>The first \<open>j\<close> blocks of a file.\<close>

definition data_upto :: "nat \<Rightarrow> string \<Rightarrow> response list" where
  "data_upto j c = map (Pair RESP_MT_DATA) (take j (chunks c))"

text \<open>What the server has sent by the time it is at each of its calls, as long as the client's queue is there.\<close>

definition all_sent :: "bool \<Rightarrow> string option \<Rightarrow> response list \<Rightarrow> bool" where
  "all_sent faults content sent \<longleftrightarrow>
     sent = [failure_msg] \<and> (faults \<or> content = None) \<or>
     (\<exists>c j. content = Some c \<and> sent = data_upto j c @ [(RESP_MT_END, [])] \<and> j \<le> length (chunks c) \<and> (faults \<or> j = length (chunks c))) \<or>
     faults \<and> (sent = [] \<or> (\<exists>c j. content = Some c \<and> j \<le> length (chunks c) \<and> sent = data_upto j c))"

fun sent_ok :: "bool \<Rightarrow> string option \<Rightarrow> server_pc \<Rightarrow> response list \<Rightarrow> bool" where
  "sent_ok faults content Idle sent \<longleftrightarrow> sent = []"
| "sent_ok faults content (Opening p) sent \<longleftrightarrow> sent = []"
| "sent_ok faults content (Sending_Failure p) sent \<longleftrightarrow> sent = [] \<and> (faults \<or> content = None)"
| "sent_ok faults content (Reading rest) sent \<longleftrightarrow>
     (\<exists>c j. content = Some c \<and> j \<le> length (chunks c) \<and> sent = data_upto j c \<and> chunks rest = drop j (chunks c))"
| "sent_ok faults content (Sending_Data data rest) sent \<longleftrightarrow>
     (\<exists>c j. content = Some c \<and> j < length (chunks c) \<and> sent = data_upto j c \<and> data = chunks c ! j \<and> chunks rest = drop (Suc j) (chunks c))"
| "sent_ok faults content Sending_End sent \<longleftrightarrow>
     (\<exists>c j. content = Some c \<and> j \<le> length (chunks c) \<and> sent = data_upto j c \<and> (faults \<or> j = length (chunks c)))"
| "sent_ok faults content (Finished status) sent \<longleftrightarrow> all_sent faults content sent"

lemma data_upto_Suc: "j < length (chunks c) \<Longrightarrow> data_upto (Suc j) c = data_upto j c @ [(RESP_MT_DATA, chunks c ! j)]"
  by (simp add: data_upto_def take_Suc_conv_app_nth)

lemma data_upto_type: "m \<in> set (data_upto j c) \<Longrightarrow> fst m = RESP_MT_DATA"
  by (auto simp: data_upto_def)

lemma split_upto:
  assumes "xs @ m # ys = data_upto j c" and "j \<le> length (chunks c)"
  shows "\<exists>i. i < j \<and> xs = data_upto i c \<and> m = (RESP_MT_DATA, chunks c ! i)"
proof -
  have "length xs < length (data_upto j c)" by (simp flip: assms(1))
  then have l: "length xs < j" using assms(2) by (simp add: data_upto_def)
  have "xs = take (length xs) (data_upto j c)" "m = data_upto j c ! length xs" by (simp_all add: assms(1) [symmetric])
  then show ?thesis using l assms(2) by (intro exI [of _ "length xs"]) (simp add: data_upto_def take_map)
qed

text \<open>A message the client takes is a failure notice, the next block or the end.\<close>

definition takes :: "bool \<Rightarrow> string option \<Rightarrow> response list \<Rightarrow> response \<Rightarrow> bool" where
  "takes faults content took m \<longleftrightarrow>
     m = failure_msg \<and> took = [] \<and> (faults \<or> content = None) \<or>
     (\<exists>c j. content = Some c \<and> j < length (chunks c) \<and> took = data_upto j c \<and> m = (RESP_MT_DATA, chunks c ! j)) \<or>
     (\<exists>c j. content = Some c \<and> j \<le> length (chunks c) \<and> took = data_upto j c \<and> m = (RESP_MT_END, []) \<and> (faults \<or> j = length (chunks c)))"

lemma takes_upto:
  assumes "took @ m # q = data_upto j c" and "content = Some c" and "j \<le> length (chunks c)"
  shows "takes faults content took m"
proof -
  obtain i where "i < j" "took = data_upto i c" "m = (RESP_MT_DATA, chunks c ! i)" using split_upto [OF assms(1,3)] by blast
  then show ?thesis using assms(2,3) unfolding takes_def by (metis order_less_le_trans)
qed

lemma takes_end:
  assumes "took @ m # q = data_upto j c @ [(RESP_MT_END, [])]" and "content = Some c" and "j \<le> length (chunks c)" and "faults \<or> j = length (chunks c)"
  shows "takes faults content took m"
proof (cases q rule: rev_cases)
  case Nil
  then show ?thesis using assms unfolding takes_def by auto
next
  case (snoc q' x)
  then have "took @ m # q' = data_upto j c" using assms(1) by simp
  then show ?thesis by (rule takes_upto) (use assms in simp_all)
qed

lemma sent_takes:
  assumes "sent_ok faults content pc (took @ m # q)"
  shows "takes faults content took m"
proof (cases pc)
  case (Finished status)
  then have "all_sent faults content (took @ m # q)" using assms by simp
  then consider "took @ m # q = [failure_msg]" "faults \<or> content = None"
    | c j where "content = Some c" "took @ m # q = data_upto j c @ [(RESP_MT_END, [])]" "j \<le> length (chunks c)" "faults \<or> j = length (chunks c)"
    | c j where "content = Some c" "j \<le> length (chunks c)" "took @ m # q = data_upto j c"
    unfolding all_sent_def by auto
  then show ?thesis
  proof cases
    case 1
    then show ?thesis by (cases took) (auto simp: takes_def)
  next
    case (2 c j)
    then show ?thesis by (intro takes_end)
  next
    case (3 c j)
    then show ?thesis by (intro takes_upto)
  qed
next
  case (Reading rest)
  then obtain c j where "content = Some c" "j \<le> length (chunks c)" "took @ m # q = data_upto j c" using assms by auto
  then show ?thesis by (intro takes_upto)
next
  case (Sending_Data data rest)
  then obtain c j where "content = Some c" "j < length (chunks c)" "took @ m # q = data_upto j c" using assms by auto
  then show ?thesis using takes_upto [of took m q j c content faults] by simp
next
  case Sending_End
  then obtain c j where "content = Some c" "j \<le> length (chunks c)" "took @ m # q = data_upto j c" using assms by auto
  then show ?thesis by (intro takes_upto)
qed (use assms in simp_all)

text \<open>What the client has taken so far, as its counters know it.\<close>

fun client_at :: "response list \<Rightarrow> client_pc \<Rightarrow> bool" where
  "client_at took Requesting \<longleftrightarrow> took = []"
| "client_at took Receiving_First \<longleftrightarrow> took = []"
| "client_at took (Receiving bytes msgs) \<longleftrightarrow> took \<noteq> [] \<and> (\<forall>m \<in> set took. fst m = RESP_MT_DATA) \<and>
     bytes = sum_list (map (\<lambda>m. length (snd m)) took) \<and> msgs = int (length took)"
| "client_at took (Terminated status out err) \<longleftrightarrow> False"
| "client_at took (Undefined e) \<longleftrightarrow> INT_MAX \<le> int (length took)"

definition counted :: "bool \<Rightarrow> string option \<Rightarrow> string \<Rightarrow> bool" where
  "counted faults content out \<longleftrightarrow> (\<exists>c j. content = Some c \<and> j \<le> length (chunks c) \<and>
     out = report (length (concat (take j (chunks c)))) (int j + 1) \<and> (faults \<or> j = length (chunks c)))"

definition complete :: "bool \<Rightarrow> string option \<Rightarrow> client_pc \<Rightarrow> bool" where
  "complete faults content pc \<longleftrightarrow> (\<forall>out err. pc = Terminated 0 out err \<longrightarrow> counted faults content out)"

definition session_inv :: "bool \<Rightarrow> (string \<Rightarrow> string option) \<Rightarrow> string \<Rightarrow> session \<Rightarrow> bool" where
  "session_inv faults fs path s \<longleftrightarrow>
     (s_request s = None \<or> s_request s = Some path) \<and> (\<forall>p. s_server s = Opening p \<longrightarrow> p = path) \<and>
     (s_client s = Requesting \<longrightarrow> s_request s = None \<and> s_server s = Idle \<and> s_queue s = []) \<and>
     (s_server s = Idle \<and> s_alive s \<and> s_client s \<noteq> Requesting \<longrightarrow> s_request s = Some path) \<and>
     (s_alive s \<longrightarrow> (\<exists>took. client_at took (s_client s) \<and> sent_ok faults (fs path) (s_server s) (took @ s_queue s))) \<and>
     complete faults (fs path) (s_client s)"

lemma take_chunks: "concat (take j (chunks xs)) = take (RESP_MSG_SIZE * j) xs"
proof (induction xs arbitrary: j rule: chunks.induct)
  case (1 xs)
  show ?case
  proof (cases "xs = [] \<or> j = 0")
    case False
    then obtain i where j: "j = Suc i" by (cases j) auto
    show ?thesis using False "1.IH" [of i] unfolding j by (simp add: chunks_more take_add)
  qed auto
qed

lemma bytes_upto: "sum_list (map (\<lambda>m. length (snd m)) (data_upto j c)) = length (concat (take j (chunks c)))"
  by (simp add: data_upto_def length_concat comp_def)

lemma length_upto: "j \<le> length (chunks c) \<Longrightarrow> length (data_upto j c) = j"
  by (simp add: data_upto_def)

lemma inv_start: "session_inv faults fs path session_start"
  by (simp add: session_inv_def session_start_def complete_def)

section \<open>The invariant\<close>

lemma client_exit_inv:
  assumes "session_inv faults fs path s" and "status = 0 \<Longrightarrow> s_alive s \<Longrightarrow> counted faults (fs path) out"
  shows "session_inv faults fs path (client_exit status out err s)"
  using assms by (auto simp: session_inv_def client_exit_def complete_def)

lemma client_fails_inv: "session_inv faults fs path s \<Longrightarrow> session_inv faults fs path (client_fails timeout s)"
  unfolding client_fails_def by (rule client_exit_inv) simp_all

lemma client_took_inv:
  assumes inv: "session_inv faults fs path s" and m: "s_queue s = m # q" "s_alive s" "fst m \<noteq> RESP_MT_FAILURE"
    and at: "s_client s = Receiving_First \<and> bytes = 0 \<and> msgs = 0 \<or> s_client s = Receiving bytes msgs"
  shows "session_inv faults fs path (client_took bytes msgs m (s\<lparr>s_queue := q\<rparr>))"
proof -
  obtain took where took: "sent_ok faults (fs path) (s_server s) (took @ m # q)" "client_at took (s_client s)"
    using inv m(1,2) by (auto simp: session_inv_def)
  have data: "\<forall>x \<in> set took. fst x = RESP_MT_DATA" "bytes = sum_list (map (\<lambda>m. length (snd m)) took)" "msgs = int (length took)"
    using took(2) at by (elim disjE conjE; simp)+
  have nr: "s_client s \<noteq> Requesting" using at by auto
  have sent: "sent_ok faults (fs path) (s_server s) ((took @ [m]) @ q)" using took(1) by simp
  have tk: "takes faults (fs path) took m" by (rule sent_takes [OF took(1)])
  show ?thesis
  proof (cases "c_add msgs 1")
    case (Inl e)
    then have "INT_MAX \<le> int (length (took @ [m]))" using data(3) by (simp add: c_add_def INT_MIN_def split: if_splits)
    then have at': "client_at (took @ [m]) (Undefined e)" by simp
    have t: "client_took bytes msgs m (s\<lparr>s_queue := q\<rparr>) = s\<lparr>s_queue := q, s_client := Undefined e\<rparr>"
      using Inl by (simp add: client_took_def Let_def)
    have "\<exists>took. client_at took (Undefined e) \<and> sent_ok faults (fs path) (s_server s) (took @ q)" using at' sent by blast
    then show ?thesis using inv nr unfolding t session_inv_def by (simp add: complete_def del: client_at.simps)
  next
    case (Inr n)
    then have n: "n = msgs + 1" by (simp add: c_add_def split: if_splits)
    show ?thesis
    proof (cases "fst m = RESP_MT_DATA")
      case True
      have "client_at (took @ [m]) (Receiving (bytes + length (snd m)) n)" using data True n by auto
      then have ex: "\<exists>took. client_at took (Receiving (bytes + length (snd m)) n) \<and> sent_ok faults (fs path) (s_server s) (took @ q)"
        using sent by blast
      have t: "client_took bytes msgs m (s\<lparr>s_queue := q\<rparr>) = s\<lparr>s_queue := q, s_client := Receiving (bytes + length (snd m)) n\<rparr>"
        using True Inr by (simp add: client_took_def Let_def)
      show ?thesis using inv ex nr unfolding t session_inv_def by (simp add: complete_def del: client_at.simps)
    next
      case False
      then obtain c j where e: "fs path = Some c" "j \<le> length (chunks c)" "took = data_upto j c" "m = (RESP_MT_END, [])" "faults \<or> j = length (chunks c)"
        using tk m(3) by (auto simp: takes_def failure_msg_def)
      have b: "bytes + length (snd m) = length (concat (take j (chunks c)))" "n = int j + 1"
        using data(2,3) n e(2-4) bytes_upto [of j c] length_upto [of j c] by simp_all
      have c: "counted faults (fs path) (report (bytes + length (snd m)) n)"
        unfolding counted_def b by (intro exI [of _ c] exI [of _ j]) (use e in simp)
      have "client_took bytes msgs m (s\<lparr>s_queue := q\<rparr>) = client_exit 0 (report (bytes + length (snd m)) n) [] s"
        using False Inr by (simp add: client_took_def Let_def client_exit_def)
      then show ?thesis using client_exit_inv [OF inv] c by simp
    qed
  qed
qed

lemma client_step_inv:
  assumes inv: "session_inv faults fs path s" and step: "client_step path refused al s = Some t"
  shows "session_inv faults fs path t"
proof (cases "s_client s")
  case Requesting
  consider "t = client_exit 1 [] ''pathname too long'' s" | "t = client_fails (al = Rings) s"
    | "t = s\<lparr>s_request := Some path, s_client := Receiving_First\<rparr>"
    using step Requesting by (auto simp: client_step_def split: if_splits)
  then show ?thesis
  proof cases
    case 1
    then show ?thesis using client_exit_inv [OF inv, of 1] by simp
  next
    case 2
    then show ?thesis using client_fails_inv [OF inv] by simp
  next
    case 3
    then show ?thesis using inv Requesting by (auto simp: session_inv_def complete_def)
  qed
next
  case Receiving_First
  consider (fail) timeout where "t = client_fails timeout s"
    | (msg) m q where "s_alive s" "s_queue s = m # q"
        "t = (if fst m = RESP_MT_FAILURE then client_exit 1 (buf_text (snd m) @ newline) [] (s\<lparr>s_queue := q\<rparr>)
              else client_took 0 0 m (s\<lparr>s_queue := q\<rparr>))"
    using step Receiving_First by (auto simp: client_step_def receiveMessage_def split: if_splits list.splits)
  then show ?thesis
  proof cases
    case fail
    then show ?thesis using client_fails_inv [OF inv] by simp
  next
    case msg
    show ?thesis
    proof (cases "fst m = RESP_MT_FAILURE")
      case True
      have "client_exit 1 (buf_text (snd m) @ newline) [] (s\<lparr>s_queue := q\<rparr>) = client_exit 1 (buf_text (snd m) @ newline) [] s"
        by (simp add: client_exit_def)
      then show ?thesis using client_exit_inv [OF inv, of 1] msg(3) True by simp
    next
      case False
      then show ?thesis using client_took_inv [OF inv msg(2,1) False, of 0 0] msg(3) Receiving_First by simp
    qed
  qed
next
  case (Receiving bytes msgs)
  consider (fail) timeout where "t = client_fails timeout s"
    | (msg) m q where "s_alive s" "s_queue s = m # q" "t = client_took bytes msgs m (s\<lparr>s_queue := q\<rparr>)"
    using step Receiving by (auto simp: client_step_def receiveMessage_def split: if_splits list.splits)
  then show ?thesis
  proof cases
    case fail
    then show ?thesis using client_fails_inv [OF inv] by simp
  next
    case msg
    obtain took where took: "sent_ok faults (fs path) (s_server s) (took @ m # q)" "took \<noteq> []"
      using inv msg(1,2) Receiving by (auto simp: session_inv_def)
    have "fst m \<noteq> RESP_MT_FAILURE"
      using sent_takes [OF took(1)] took(2) by (auto simp: takes_def RESP_MT_FAILURE_def RESP_MT_DATA_def RESP_MT_END_def)
    then show ?thesis using client_took_inv [OF inv msg(2,1)] msg(3) Receiving by simp
  qed
qed (use step in \<open>simp_all add: client_step_def\<close>)

lemma sendMessage_cases:
  assumes "sendMessage qbytes broken al m s = Some (rc, t)"
  shows "s_request t = s_request s" "s_server t = s_server s" "s_client t = s_client s"
    "s_alive t \<Longrightarrow> s_alive s \<and> (rc = 0 \<and> s_queue t = s_queue s @ [m] \<or> rc = -1 \<and> broken \<and> s_queue t = s_queue s)"
  using assms by (auto simp: sendMessage_def split: if_splits)

lemma send_inv:
  assumes inv: "session_inv faults fs path s" and send: "sendMessage qbytes broken al m s = Some (rc, t)" and "broken \<Longrightarrow> faults"
    and ok: "\<And>sent. sent_ok faults (fs path) (s_server s) sent \<Longrightarrow> sent_ok faults (fs path) ok (sent @ [m])"
    and failed: "\<And>sent. faults \<Longrightarrow> sent_ok faults (fs path) (s_server s) sent \<Longrightarrow> sent_ok faults (fs path) failed sent"
    and pc: "s_server s \<noteq> Idle" "ok \<noteq> Idle" "\<And>p. ok \<noteq> Opening p" "failed \<noteq> Idle" "\<And>p. failed \<noteq> Opening p"
  shows "session_inv faults fs path (t\<lparr>s_server := if rc = -1 then failed else ok, s_log := log\<rparr>)"
proof -
  note k = sendMessage_cases [OF send]
  have nr: "s_client s \<noteq> Requesting" using inv pc(1) by (auto simp: session_inv_def)
  have "\<exists>took. client_at took (s_client s) \<and> sent_ok faults (fs path) (if rc = -1 then failed else ok) (took @ s_queue t)" if alive: "s_alive t"
  proof -
    obtain took where took: "client_at took (s_client s)" "sent_ok faults (fs path) (s_server s) (took @ s_queue s)"
      using inv k(4) [OF alive] by (auto simp: session_inv_def)
    show ?thesis using k(4) [OF alive] ok [OF took(2)] failed [OF _ took(2)] assms(3) took(1) by (intro exI [of _ took]) auto
  qed
  then show ?thesis using inv k(1-3) nr pc(2-5) unfolding session_inv_def by auto
qed

lemma server_step_inv:
  assumes inv: "session_inv faults fs path s" and step: "server_step fs qbytes broken al s = Some t" and b: "broken \<Longrightarrow> faults"
  shows "session_inv faults fs path t"
proof (cases "s_server s")
  case Idle
  then obtain p where p: "s_request s = Some p" "t = s\<lparr>s_request := None, s_server := Opening p\<rparr>"
    using step by (auto simp: server_step_def split: option.splits)
  then show ?thesis using inv Idle by (auto simp: session_inv_def)
next
  case (Opening p)
  then have pp: "p = path" and nr: "s_client s \<noteq> Requesting" using inv by (auto simp: session_inv_def)
  consider "t = s\<lparr>s_server := Sending_Failure p\<rparr>" "faults \<or> fs path = None" | c where "fs path = Some c" "t = s\<lparr>s_server := Reading c\<rparr>"
    using step Opening pp b by (auto simp: server_step_def split: option.splits if_splits)
  then show ?thesis
  proof cases
    case 1
    then show ?thesis using inv Opening nr by (auto simp: session_inv_def)
  next
    case 2
    have "sent_ok faults (fs path) (Reading c) []" using 2(1) by (auto simp: data_upto_def intro!: exI [of _ 0])
    then show ?thesis using inv Opening nr 2(2) by (auto simp: session_inv_def simp del: sent_ok.simps(4))
  qed
next
  case (Sending_Failure p)
  obtain rc u where u: "sendMessage qbytes broken al failure_msg s = Some (rc, u)"
    "t = u\<lparr>s_server := if rc = -1 then Finished 1 else Finished 1, s_log := s_log u @ [''Could not open file: '' @ p @ newline]\<rparr>"
    using step Sending_Failure by (auto simp: server_step_def after_send_def split: option.splits)
  show ?thesis unfolding u(2) using Sending_Failure by (intro send_inv [OF inv u(1) b]) (auto simp: all_sent_def)
next
  case (Reading rest)
  have nr: "s_client s \<noteq> Requesting" using inv Reading by (auto simp: session_inv_def)
  let ?pc = "if broken \<or> rest = [] then Sending_End else Sending_Data (take RESP_MSG_SIZE rest) (drop RESP_MSG_SIZE rest)"
  have t: "t = s\<lparr>s_server := ?pc\<rparr>" using step Reading by (simp add: server_step_def)
  have "sent_ok faults (fs path) ?pc sent" if ok: "sent_ok faults (fs path) (Reading rest) sent" for sent
  proof -
    obtain c j where c: "fs path = Some c" "j \<le> length (chunks c)" "sent = data_upto j c" "chunks rest = drop j (chunks c)"
      using ok by auto
    show ?thesis
    proof (cases "broken \<or> rest = []")
      case True
      then have "faults \<or> j = length (chunks c)" using b c(2,4) by auto
      then show ?thesis using True c by auto
    next
      case False
      then have d: "take RESP_MSG_SIZE rest # chunks (drop RESP_MSG_SIZE rest) = drop j (chunks c)" using c(4) by (simp add: chunks_more)
      then have j: "j < length (chunks c)" by (metis drop_all leI list.distinct(1))
      then have "take RESP_MSG_SIZE rest = chunks c ! j" "chunks (drop RESP_MSG_SIZE rest) = drop (Suc j) (chunks c)"
        using d by (simp_all add: Cons_nth_drop_Suc [symmetric])
      then show ?thesis using False c(1,3) j by auto
    qed
  qed
  then show ?thesis using inv Reading nr unfolding t session_inv_def by (auto simp del: sent_ok.simps)
next
  case (Sending_Data data rest)
  obtain rc u where u: "sendMessage qbytes broken al (RESP_MT_DATA, data) s = Some (rc, u)"
    "t = u\<lparr>s_server := if rc = -1 then Sending_End else Reading rest, s_log := if rc = -1 then s_log u @ [''Unable to send file contents''] else s_log u\<rparr>"
    using step Sending_Data by (auto simp: server_step_def after_send_def split: option.splits if_splits)
  show ?thesis unfolding u(2)
  proof (rule send_inv [OF inv u(1) b])
    fix sent assume "sent_ok faults (fs path) (s_server s) sent"
    then obtain c j where c: "fs path = Some c" "j < length (chunks c)" "sent = data_upto j c" "data = chunks c ! j" "chunks rest = drop (Suc j) (chunks c)"
      using Sending_Data by auto
    then show "sent_ok faults (fs path) (Reading rest) (sent @ [(RESP_MT_DATA, data)])"
      by (auto simp: data_upto_Suc [symmetric] intro!: exI [of _ "Suc j"])
    show "faults \<Longrightarrow> sent_ok faults (fs path) Sending_End sent" using c by (auto intro!: exI [of _ j])
  qed (use Sending_Data in simp_all)
next
  case Sending_End
  obtain rc u where u: "sendMessage qbytes broken al (RESP_MT_END, []) s = Some (rc, u)"
    "t = u\<lparr>s_server := if rc = -1 then Finished 0 else Finished 0, s_log := s_log u\<rparr>"
    using step Sending_End by (auto simp: server_step_def after_send_def split: option.splits if_splits)
  show ?thesis unfolding u(2) using Sending_End by (intro send_inv [OF inv u(1) b]) (auto simp: all_sent_def)
qed (use step in \<open>simp add: server_step_def\<close>)

lemma session_step_inv: "session_step fs qbytes faults path s t \<Longrightarrow> session_inv faults fs path s \<Longrightarrow> session_inv faults fs path t"
  by (induction rule: session_step.induct) (auto intro: server_step_inv client_step_inv)

lemma reached_inv: "reached fs qbytes faults path s \<Longrightarrow> session_inv faults fs path s"
  by (induction rule: reached.induct) (auto intro: inv_start session_step_inv)

section \<open>Every session ends\<close>

fun server_weight :: "(string \<Rightarrow> string option) \<Rightarrow> string \<Rightarrow> server_pc \<Rightarrow> nat" where
  "server_weight fs path Idle = 3 * (case fs path of None \<Rightarrow> 0 | Some c \<Rightarrow> length c) + 5"
| "server_weight fs path (Opening p) = 3 * (case fs path of None \<Rightarrow> 0 | Some c \<Rightarrow> length c) + 4"
| "server_weight fs path (Sending_Failure p) = 2"
| "server_weight fs path (Reading rest) = 3 * length rest + 3"
| "server_weight fs path (Sending_Data data rest) = 3 * length rest + 5"
| "server_weight fs path Sending_End = 2"
| "server_weight fs path (Finished status) = 0"

fun client_weight :: "client_pc \<Rightarrow> nat" where
  "client_weight Requesting = 2"
| "client_weight Receiving_First = 1"
| "client_weight (Receiving bytes msgs) = 1"
| "client_weight (Terminated status out err) = 0"
| "client_weight (Undefined e) = 0"

definition session_weight :: "(string \<Rightarrow> string option) \<Rightarrow> string \<Rightarrow> session \<Rightarrow> nat" where
  "session_weight fs path s = server_weight fs path (s_server s) + length (s_queue s) + client_weight (s_client s)"

lemma sendMessage_weight: "sendMessage qbytes broken al m s = Some (rc, t) \<Longrightarrow> length (s_queue t) \<le> Suc (length (s_queue s)) \<and> s_client t = s_client s"
  by (auto simp: sendMessage_def split: if_splits)

lemma client_weight_less:
  "client_step path refused al s = Some t \<Longrightarrow> session_weight fs path t < session_weight fs path s"
  by (cases "s_client s")
    (auto simp: client_step_def client_fails_def client_exit_def client_took_def Let_def receiveMessage_def session_weight_def
      split: if_splits list.splits sum.splits)

lemma server_weight_less:
  assumes inv: "session_inv faults fs path s" and step: "server_step fs qbytes broken al s = Some t"
  shows "session_weight fs path t < session_weight fs path s"
proof (cases "s_server s")
  case (Opening p)
  then have "p = path" using inv by (simp add: session_inv_def)
  then show ?thesis using step Opening by (auto simp: server_step_def session_weight_def split: option.splits if_splits)
next
  case (Reading rest)
  then show ?thesis using step
    by (auto simp: server_step_def session_weight_def RESP_MSG_SIZE_def neq_Nil_conv)
qed (use step sendMessage_weight in \<open>fastforce simp: server_step_def after_send_def session_weight_def split: option.splits if_splits\<close>)+

lemma chunk_bound: "d \<in> set (chunks xs) \<Longrightarrow> length d \<le> RESP_MSG_SIZE"
  by (induction xs rule: chunks.induct) (subst (asm) (2) chunks.simps, auto split: if_splits)

text \<open>A file whose messages an \<^verbatim>\<open>int\<close> can count.\<close>

definition countable :: "string option \<Rightarrow> bool" where
  "countable content \<longleftrightarrow> (\<forall>c. content = Some c \<longrightarrow> int (length c) \<le> 8192 * (INT_MAX - 1))"

lemma countable_chunks: "countable (Some c) \<Longrightarrow> int (length (chunks c)) < INT_MAX"
  by (simp add: countable_def length_chunks RESP_MSG_SIZE_def INT_MAX_def)

lemma client_defined:
  assumes inv: "session_inv faults fs path s" and small: "countable (fs path)" and step: "client_step path refused al s = Some t"
  shows "s_client t \<noteq> Undefined e"
proof -
  have ok: "\<exists>n. c_add msgs 1 = Inr n"
    if m: "s_queue s = m # q" "s_alive s" "fst m \<noteq> RESP_MT_FAILURE" and at: "s_client s = Receiving_First \<and> msgs = 0 \<or> s_client s = Receiving bytes msgs"
    for m q bytes msgs
  proof -
    obtain took where took: "sent_ok faults (fs path) (s_server s) (took @ m # q)" "client_at took (s_client s)"
      using inv m(1,2) by (auto simp: session_inv_def)
    have n: "msgs = int (length took)" using took(2) at by (elim disjE conjE; simp)+
    obtain c where c: "fs path = Some c" "length took \<le> length (chunks c)"
      using sent_takes [OF took(1)] m(3) by (auto simp: takes_def failure_msg_def length_upto)
    then show ?thesis using n countable_chunks [of c] small by (simp add: c_add_def INT_MIN_def)
  qed
  have took: "s_client (client_took bytes msgs m u) \<noteq> Undefined e" if "\<exists>n. c_add msgs 1 = Inr n" for bytes msgs m u
    using that by (auto simp: client_took_def client_exit_def Let_def split: if_splits)
  have ended: "s_client (client_exit st out err u) \<noteq> Undefined e" "s_client (client_fails timeout u) \<noteq> Undefined e" for st out err u timeout
    by (simp_all add: client_exit_def client_fails_def)
  show ?thesis
  proof (cases "s_client s")
    case Requesting
    then show ?thesis using step ended by (auto simp: client_step_def split: if_splits)
  next
    case Receiving_First
    then consider timeout where "t = client_fails timeout s" | m u where "t = client_exit 1 (buf_text (snd m) @ newline) [] u"
      | m q u where "s_alive s" "s_queue s = m # q" "fst m \<noteq> RESP_MT_FAILURE" "t = client_took 0 0 m u"
      using step by (auto simp: client_step_def receiveMessage_def split: if_splits list.splits)
    then show ?thesis using took ok Receiving_First ended by cases auto
  next
    case (Receiving bytes msgs)
    then consider timeout where "t = client_fails timeout s" | m q u where "s_alive s" "s_queue s = m # q" "t = client_took bytes msgs m u"
      using step by (auto simp: client_step_def receiveMessage_def split: if_splits list.splits)
    then show ?thesis
    proof cases
      case 2
      obtain took where "sent_ok faults (fs path) (s_server s) (took @ m # q)" "took \<noteq> []"
        using inv 2 Receiving by (auto simp: session_inv_def)
      then have "fst m \<noteq> RESP_MT_FAILURE"
        using sent_takes [of faults "fs path" "s_server s" took m q] by (auto simp: takes_def RESP_MT_FAILURE_def RESP_MT_DATA_def RESP_MT_END_def)
      then show ?thesis using took ok [OF 2(2,1)] 2(3) Receiving by blast
    qed (use ended in simp)
  qed (use step in \<open>simp_all add: client_step_def\<close>)
qed

lemma server_keeps_client: "server_step fs qbytes broken al s = Some t \<Longrightarrow> s_client t = s_client s"
  by (cases "s_server s") (auto simp: server_step_def after_send_def dest: sendMessage_cases(3) split: option.splits if_splits)

lemma reached_defined: "reached fs qbytes faults path s \<Longrightarrow> countable (fs path) \<Longrightarrow> s_client s \<noteq> Undefined e"
proof (induction rule: reached.induct)
  case start
  show ?case by (simp add: session_start_def)
next
  case (step s t)
  from step.hyps(2) show ?case
  proof cases
    case (server b al)
    then show ?thesis using server_keeps_client step.IH step.prems by simp
  next
    case (client refused al)
    then show ?thesis using client_defined [OF reached_inv [OF step.hyps(1)] step.prems] by blast
  qed
qed

text \<open>The client can go on with a message, without its queue and at the start.\<close>

lemma client_goes_on:
  assumes inv: "session_inv faults fs path s" and wait: "\<And>st out err. s_client s \<noteq> Terminated st out err" "\<And>e. s_client s \<noteq> Undefined e"
    and "s_client s = Requesting \<or> \<not> s_alive s \<or> s_queue s \<noteq> []"
  shows "\<exists>t. client_step path False Quiet s = Some t"
  using assms(4)
proof (elim disjE)
  assume "s_client s = Requesting"
  then show ?thesis using inv by (auto simp: client_step_def session_inv_def)
next
  assume "\<not> s_alive s"
  then show ?thesis using wait inv by (cases "s_client s") (auto simp: client_step_def receiveMessage_def session_inv_def)
next
  assume "s_queue s \<noteq> []"
  then show ?thesis using wait inv
    by (cases "s_client s"; cases "s_queue s"; cases "s_alive s") (auto simp: client_step_def receiveMessage_def session_inv_def)
qed

lemma send_goes_on:
  assumes "s_queue s = []" "s_alive s" "RESP_MSG_SIZE \<le> qbytes" "length (snd m) \<le> RESP_MSG_SIZE"
  shows "sendMessage qbytes False Quiet m s = Some (0, s\<lparr>s_queue := [m]\<rparr>)"
  using assms by (simp add: sendMessage_def fits_def RESP_MSG_SIZE_def)

text \<open>While the client waits for an empty queue, the server can go on, or some call of the server has failed and it has left.\<close>

lemma server_goes_on:
  assumes inv: "session_inv faults fs path s" and cap: "RESP_MSG_SIZE \<le> qbytes" and q: "s_queue s = []" "s_alive s" "s_client s \<noteq> Requesting"
    and def: "\<And>e. s_client s \<noteq> Undefined e"
  shows "(\<exists>t. server_step fs qbytes False Quiet s = Some t) \<or> faults \<and> (\<exists>st. s_server s = Finished st)"
proof -
  obtain took where took: "client_at took (s_client s)" "sent_ok faults (fs path) (s_server s) took"
    using inv q by (auto simp: session_inv_def)
  have data: "\<forall>m \<in> set took. fst m = RESP_MT_DATA" using took(1) def by (cases "s_client s") auto
  note send = send_goes_on [OF q(1,2) cap]
  show ?thesis
  proof (cases "s_server s")
    case Idle
    then show ?thesis using inv q by (auto simp: server_step_def session_inv_def)
  next
    case (Opening p)
    then show ?thesis by (cases "fs p") (auto simp: server_step_def)
  next
    case (Sending_Failure p)
    have "length (snd failure_msg) \<le> RESP_MSG_SIZE" by (simp add: failure_msg_def RESP_MSG_SIZE_def)
    then show ?thesis using Sending_Failure send [of failure_msg] by (auto simp: server_step_def after_send_def)
  next
    case (Sending_Data d r)
    then obtain c j where "d = chunks c ! j" "j < length (chunks c)" using took(2) by auto
    then have "length d \<le> RESP_MSG_SIZE" using chunk_bound [of d c] by simp
    then show ?thesis using Sending_Data send [of "(RESP_MT_DATA, d)"] by (auto simp: server_step_def after_send_def)
  next
    case Sending_End
    then show ?thesis using send [of "(RESP_MT_END, [])"] by (auto simp: server_step_def after_send_def)
  next
    case (Finished st)
    then have "all_sent faults (fs path) took" using took(2) by simp
    then have "faults" using data
      by (auto simp: all_sent_def failure_msg_def RESP_MT_FAILURE_def RESP_MT_DATA_def RESP_MT_END_def)
    then show ?thesis using Finished by simp
  qed (auto simp: server_step_def)
qed

text \<open>How a session without faults and alarms ends for the client.\<close>

definition outcome :: "string option \<Rightarrow> client_pc" where
  "outcome content = (case content of
     None \<Rightarrow> Terminated 1 (''Couldn'' @ [CHR 0x27] @ ''t open'' @ newline) []
   | Some c \<Rightarrow> Terminated 0 (report (length c) (int ((length c + 8191) div 8192) + 1)) [])"

definition quiet_inv :: "(string \<Rightarrow> string option) \<Rightarrow> string \<Rightarrow> session \<Rightarrow> bool" where
  "quiet_inv fs path s \<longleftrightarrow> session_inv False fs path s \<and> (\<forall>e. s_client s \<noteq> Undefined e) \<and> (s_alive s \<or> s_client s = outcome (fs path))"

lemma counted_all: "counted False content out \<longleftrightarrow> (\<exists>c. content = Some c \<and> out = report (length c) (int ((length c + 8191) div 8192) + 1))"
  by (auto simp: counted_def concat_chunks length_chunks RESP_MSG_SIZE_def)

lemma quiet_server_alive:
  assumes "server_step fs qbytes False Quiet s = Some t"
  shows "s_alive t = s_alive s"
  using assms by (cases "s_server s")
    (auto simp: server_step_def after_send_def sendMessage_def split: option.splits if_splits)

lemma quiet_client_inv:
  assumes inv: "quiet_inv fs path s" and small: "countable (fs path)" and path: "length path < PATHNAME_MAX"
    and step: "client_step path False Quiet s = Some t"
  shows "quiet_inv fs path t"
proof -
  have si: "session_inv False fs path s" using inv by (simp add: quiet_inv_def)
  note ti = client_step_inv [OF si step] and def = client_defined [OF si small step]
  have alive: "s_alive s" using inv step by (auto simp: quiet_inv_def outcome_def client_step_def split: option.splits)
  have took: "s_alive (client_took bytes msgs m u) \<or> s_client (client_took bytes msgs m u) = outcome (fs path)"
    if t: "t = client_took bytes msgs m u" and u: "s_alive u" for bytes msgs m u
  proof (cases "c_add msgs 1")
    case (Inl e)
    then have "s_client t = Undefined e" using t by (simp add: client_took_def Let_def)
    with def [of e] show ?thesis by simp
  next
    case (Inr n)
    show ?thesis
    proof (cases "fst m = RESP_MT_DATA")
      case True
      then show ?thesis using Inr u by (simp add: client_took_def Let_def)
    next
      case False
      then have c: "s_client t = Terminated 0 (report (bytes + length (snd m)) n) []"
        using Inr u t by (simp add: client_took_def Let_def client_exit_def)
      then have "counted False (fs path) (report (bytes + length (snd m)) n)" using ti by (simp add: session_inv_def complete_def)
      then show ?thesis using c t by (auto simp: counted_all outcome_def)
    qed
  qed
  have "s_alive t \<or> s_client t = outcome (fs path)"
  proof (cases "s_client s")
    case Requesting
    then have "t = s\<lparr>s_request := Some path, s_client := Receiving_First\<rparr>"
      using step path by (auto simp: client_step_def split: if_splits)
    then show ?thesis using alive by simp
  next
    case Receiving_First
    then obtain m q where m: "s_queue s = m # q"
      "t = (if fst m = RESP_MT_FAILURE then client_exit 1 (buf_text (snd m) @ newline) [] (s\<lparr>s_queue := q\<rparr>) else client_took 0 0 m (s\<lparr>s_queue := q\<rparr>))"
      using step alive by (auto simp: client_step_def receiveMessage_def split: list.splits)
    show ?thesis
    proof (cases "fst m = RESP_MT_FAILURE")
      case True
      obtain took where "sent_ok False (fs path) (s_server s) (took @ m # q)" using si m(1) alive by (auto simp: session_inv_def)
      then have "takes False (fs path) took m" by (rule sent_takes)
      then have f: "m = failure_msg" "fs path = None"
        using True by (auto simp: takes_def RESP_MT_FAILURE_def RESP_MT_DATA_def RESP_MT_END_def)
      have "buf_text (snd failure_msg) = ''Couldn'' @ [CHR 0x27] @ ''t open''" by (simp add: failure_msg_def buf_text_def NUL_def)
      then show ?thesis using m(2) True f alive by (simp add: client_exit_def outcome_def)
    qed (use m(2) took alive in simp)
  next
    case (Receiving bytes msgs)
    then obtain m q where "t = client_took bytes msgs m (s\<lparr>s_queue := q\<rparr>)"
      using step alive by (auto simp: client_step_def receiveMessage_def split: list.splits)
    then show ?thesis using took alive by simp
  qed (use step in \<open>simp_all add: client_step_def\<close>)
  then show ?thesis using ti def by (simp add: quiet_inv_def)
qed

lemma quiet_run_inv:
  assumes "(quiet_step fs qbytes path)\<^sup>*\<^sup>* session_start s" and "countable (fs path)" and "length path < PATHNAME_MAX"
  shows "quiet_inv fs path s"
  using assms(1)
proof (induction rule: rtranclp_induct)
  case base
  show ?case using inv_start [of False fs path] by (simp add: quiet_inv_def session_start_def)
next
  case (step s t)
  from step(2) show ?case
  proof cases
    case quiet_server
    have "session_inv False fs path t" using server_step_inv [OF _ quiet_server] step(3) by (simp add: quiet_inv_def)
    then show ?thesis using quiet_server_alive [OF quiet_server] server_keeps_client [OF quiet_server] step(3) by (simp add: quiet_inv_def)
  qed (rule quiet_client_inv [OF step(3) assms(2,3)])
qed

lemma quiet_goes_on:
  assumes inv: "session_inv faults fs path s" and cap: "RESP_MSG_SIZE \<le> qbytes"
    and wait: "\<And>st out err. s_client s \<noteq> Terminated st out err" "\<And>e. s_client s \<noteq> Undefined e"
  shows "(\<exists>t. quiet_step fs qbytes path s t) \<or> faults \<and> (\<exists>st. s_server s = Finished st) \<and> s_alive s \<and> s_queue s = [] \<and> s_client s \<noteq> Requesting"
proof (cases "s_client s = Requesting \<or> \<not> s_alive s \<or> s_queue s \<noteq> []")
  case True
  then show ?thesis using client_goes_on [OF inv wait] quiet_step.quiet_client by blast
next
  case False
  then show ?thesis using server_goes_on [OF inv cap _ _ _ wait(2)] quiet_step.quiet_server by blast
qed

section \<open>Properties\<close>

definition ex_files :: "string \<Rightarrow> string option" where
  "ex_files path = (if path = ''/f'' then Some ''data'' else None)"

lemma quiet_session: "quiet_step fs qbytes path s t \<Longrightarrow> session_step fs qbytes faults path s t"
  by (induction rule: quiet_step.induct)
    (use session_step.server [of fs qbytes faults False Quiet] session_step.client [of path False Quiet] in auto)

lemma reach_server: "reached fs qbytes faults path s \<Longrightarrow> server_step fs qbytes False Quiet s = Some t \<Longrightarrow> reached fs qbytes faults path t"
  by (auto intro: reached.step quiet_session quiet_step.intros)

lemma reach_client: "reached fs qbytes faults path s \<Longrightarrow> client_step path False Quiet s = Some t \<Longrightarrow> reached fs qbytes faults path t"
  by (auto intro: reached.step session_step.client)

text \<open>C13: Whenever calls block, time out or find the queue gone: when the client ends with success it has counted whole blocks
  from the beginning of the file and one message more, the end. It has counted all of them, and so every byte, unless
  a call of the server fails in another way.\<close>

theorem file_service_complete:
  assumes "reached fs qbytes faults path s" and "s_client s = Terminated 0 out err"
  shows "\<exists>c j. fs path = Some c \<and> j \<le> (length c + 8191) div 8192 \<and> out = report (min (8192 * j) (length c)) (int j + 1) \<and>
    (\<not> faults \<longrightarrow> out = report (length c) (int ((length c + 8191) div 8192) + 1))"
proof -
  have "counted faults (fs path) out" using reached_inv [OF assms(1)] assms(2) by (auto simp: session_inv_def complete_def)
  then obtain c j where c: "fs path = Some c" "j \<le> length (chunks c)" "out = report (length (concat (take j (chunks c)))) (int j + 1)"
    "faults \<or> j = length (chunks c)" by (auto simp: counted_def)
  have "length (concat (take j (chunks c))) = min (8192 * j) (length c)" by (simp add: take_chunks RESP_MSG_SIZE_def mult.commute)
  moreover have "length (chunks c) = (length c + 8191) div 8192" by (simp add: length_chunks RESP_MSG_SIZE_def)
  moreover have "\<not> faults \<longrightarrow> concat (take j (chunks c)) = c" using c(4) by (auto simp: concat_chunks)
  ultimately show ?thesis using c by (intro exI [of _ c] exI [of _ j]) auto
qed

definition ex_session :: session where
  "ex_session = \<lparr>s_request = None, s_server = Finished 0, s_queue = [], s_alive = False,
     s_client = Terminated 0 (report 4 2) [], s_log = []\<rparr>"

lemma run_server: "(quiet_step fs qbytes path)\<^sup>*\<^sup>* u s \<Longrightarrow> server_step fs qbytes False Quiet s = Some t \<Longrightarrow> (quiet_step fs qbytes path)\<^sup>*\<^sup>* u t"
  by (auto intro: rtranclp.rtrancl_into_rtrancl quiet_step.intros)

lemma run_client: "(quiet_step fs qbytes path)\<^sup>*\<^sup>* u s \<Longrightarrow> client_step path False Quiet s = Some t \<Longrightarrow> (quiet_step fs qbytes path)\<^sup>*\<^sup>* u t"
  by (auto intro: rtranclp.rtrancl_into_rtrancl quiet_step.intros)

lemma run_reached: "(quiet_step fs qbytes path)\<^sup>*\<^sup>* session_start s \<Longrightarrow> reached fs qbytes faults path s"
  by (induction rule: rtranclp_induct) (auto intro: reached.intros quiet_session)

lemma ex_session_quiet: "(quiet_step ex_files 16384 ''/f'')\<^sup>*\<^sup>* session_start ex_session"
proof -
  let ?r = "(quiet_step ex_files 16384 ''/f'')\<^sup>*\<^sup>* session_start" and ?s = "session_start"
  have 1: "?r (?s\<lparr>s_request := Some ''/f'', s_client := Receiving_First\<rparr>)"
    by (rule run_client [OF rtranclp.rtrancl_refl]) (simp add: client_step_def session_start_def PATHNAME_MAX_def)
  have 2: "?r (?s\<lparr>s_server := Opening ''/f'', s_client := Receiving_First\<rparr>)"
    by (rule run_server [OF 1]) (simp add: server_step_def session_start_def)
  have 3: "?r (?s\<lparr>s_server := Reading ''data'', s_client := Receiving_First\<rparr>)"
    by (rule run_server [OF 2]) (simp add: server_step_def session_start_def ex_files_def)
  have 4: "?r (?s\<lparr>s_server := Sending_Data ''data'' [], s_client := Receiving_First\<rparr>)"
    by (rule run_server [OF 3]) (simp add: server_step_def session_start_def RESP_MSG_SIZE_def)
  have 5: "?r (?s\<lparr>s_server := Reading [], s_queue := [(RESP_MT_DATA, ''data'')], s_client := Receiving_First\<rparr>)"
    by (rule run_server [OF 4]) (simp add: server_step_def session_start_def after_send_def sendMessage_def fits_def)
  have 6: "?r (?s\<lparr>s_server := Sending_End, s_queue := [(RESP_MT_DATA, ''data'')], s_client := Receiving_First\<rparr>)"
    by (rule run_server [OF 5]) (simp add: server_step_def session_start_def)
  have 7: "?r (?s\<lparr>s_server := Finished 0, s_queue := [(RESP_MT_DATA, ''data''), (RESP_MT_END, [])], s_client := Receiving_First\<rparr>)"
    by (rule run_server [OF 6]) (simp add: server_step_def session_start_def after_send_def sendMessage_def fits_def)
  have 8: "?r (?s\<lparr>s_server := Finished 0, s_queue := [(RESP_MT_END, [])], s_client := Receiving 4 1\<rparr>)"
    by (rule run_client [OF 7])
      (simp add: client_step_def session_start_def receiveMessage_def client_took_def RESP_MT_DATA_def RESP_MT_FAILURE_def
        c_add_def INT_MIN_def INT_MAX_def)
  show ?thesis
    by (rule run_client [OF 8])
      (simp add: client_step_def session_start_def receiveMessage_def client_took_def client_exit_def ex_session_def
        c_add_def INT_MIN_def INT_MAX_def RESP_MT_DATA_def RESP_MT_END_def)
qed

lemma ex_session_reached: "reached ex_files 16384 False ''/f'' ex_session"
  by (rule run_reached [OF ex_session_quiet])

lemma ex_session_over: "\<not> quiet_step ex_files 16384 ''/f'' ex_session t"
  by (auto simp: ex_session_def server_step_def client_step_def elim!: quiet_step.cases)

theorem file_service_complete_witness:
  "\<exists>c. ex_files ''/f'' = Some c \<and> report 4 2 = report (length c) (int ((length c + 8191) div 8192) + 1)"
  using file_service_complete [OF ex_session_reached, of "report 4 2" "[]"] by (auto simp: ex_session_def)

text \<open>When a data message cannot be sent because \<^verbatim>\<open>msgsnd\<close> fails with an error other than a timeout, the server still sends
  the end: the client reports an empty file, and success.\<close>

theorem file_service_partial:
  assumes "fs path = Some c" and "c \<noteq> []" and "length path < PATHNAME_MAX" and "8192 \<le> qbytes"
  shows "\<exists>s. reached fs qbytes True path s \<and> s_client s = Terminated 0 (report 0 1) []"
proof -
  let ?r = "reached fs qbytes True path" and ?s = "session_start"
  let ?pc = "Sending_Data (take RESP_MSG_SIZE c) (drop RESP_MSG_SIZE c)"
  have 1: "?r (?s\<lparr>s_request := Some path, s_client := Receiving_First\<rparr>)"
    by (rule reach_client [OF reached.start]) (use assms(3) in \<open>simp add: client_step_def session_start_def PATHNAME_MAX_def\<close>)
  have 2: "?r (?s\<lparr>s_server := Opening path, s_client := Receiving_First\<rparr>)"
    by (rule reach_server [OF 1]) (simp add: server_step_def session_start_def)
  have 3: "?r (?s\<lparr>s_server := Reading c, s_client := Receiving_First\<rparr>)"
    by (rule reach_server [OF 2]) (simp add: server_step_def session_start_def assms(1))
  have 4: "?r (?s\<lparr>s_server := ?pc, s_client := Receiving_First\<rparr>)"
    by (rule reach_server [OF 3]) (simp add: server_step_def session_start_def assms(2))
  have "server_step fs qbytes (True \<and> True) Quiet (?s\<lparr>s_server := ?pc, s_client := Receiving_First\<rparr>) =
      Some (?s\<lparr>s_server := Sending_End, s_client := Receiving_First, s_log := [''Unable to send file contents'']\<rparr>)"
    by (simp add: server_step_def session_start_def after_send_def sendMessage_def)
  from reached.step [OF 4 session_step.server [OF this]]
  have 5: "?r (?s\<lparr>s_server := Sending_End, s_client := Receiving_First, s_log := [''Unable to send file contents'']\<rparr>)" .
  have 6: "?r (?s\<lparr>s_server := Finished 0, s_queue := [(RESP_MT_END, [])], s_client := Receiving_First, s_log := [''Unable to send file contents'']\<rparr>)"
    by (rule reach_server [OF 5]) (use assms(4) in \<open>simp add: server_step_def session_start_def after_send_def sendMessage_def fits_def\<close>)
  have "?r (?s\<lparr>s_server := Finished 0, s_queue := [], s_alive := False, s_client := Terminated 0 (report 0 1) [], s_log := [''Unable to send file contents'']\<rparr>)"
    by (rule reach_client [OF 6])
      (simp add: client_step_def session_start_def receiveMessage_def client_took_def client_exit_def c_add_def INT_MIN_def INT_MAX_def
        RESP_MT_DATA_def RESP_MT_FAILURE_def RESP_MT_END_def)
  then show ?thesis by (rule exI [where P = "\<lambda>s. ?r s \<and> s_client s = Terminated 0 (report 0 1) []", OF conjI]) simp
qed

theorem file_service_partial_witness:
  "\<exists>s. reached ex_files 16384 True ''/f'' s \<and> s_client s = Terminated 0 (report 0 1) []"
  by (rule file_service_partial [of _ _ "''data''"]) (simp_all add: ex_files_def PATHNAME_MAX_def)

text \<open>C14: With queues for at least one full message, a path that fits and a file whose messages an \<^verbatim>\<open>int\<close> can count. Every step of a
  session takes something off its weight, so that it cannot go on for ever. Where the client has not ended, someone can go on
  without a failing call and without an alarm; only after a failing call of the server can the client be left waiting for an
  end that was not sent, and then its alarm ends it. And without failing calls and alarms, every session that has come to its
  end has given the client the size of its file, or the notice that it cannot be opened.\<close>

theorem file_service_ends:
  assumes "8192 \<le> qbytes" and "length path < PATHNAME_MAX" and "\<forall>c. fs path = Some c \<longrightarrow> int (length c) \<le> 8192 * (INT_MAX - 1)"
  shows "(\<forall>s t. reached fs qbytes faults path s \<and> session_step fs qbytes faults path s t \<longrightarrow> session_weight fs path t < session_weight fs path s) \<and>
    (\<forall>s. reached fs qbytes faults path s \<longrightarrow> (\<exists>t. quiet_step fs qbytes path s t) \<or> (\<exists>status out err. s_client s = Terminated status out err) \<or>
      faults \<and> (\<exists>status. s_server s = Finished status) \<and>
      (\<exists>t. client_step path False Rings s = Some t \<and> s_client t = Terminated 1 [] (''Server timed out. Exiting.'' @ newline))) \<and>
    (\<forall>s. (quiet_step fs qbytes path)\<^sup>*\<^sup>* session_start s \<and> (\<forall>t. \<not> quiet_step fs qbytes path s t) \<longrightarrow>
      s_client s = (case fs path of
        None \<Rightarrow> Terminated 1 (''Couldn'' @ [CHR 0x27] @ ''t open'' @ newline) []
      | Some c \<Rightarrow> Terminated 0 (report (length c) (int ((length c + 8191) div 8192) + 1)) []))"
proof (intro conjI allI impI)
  have cap: "RESP_MSG_SIZE \<le> qbytes" and small: "countable (fs path)" using assms(1,3) by (simp_all add: RESP_MSG_SIZE_def countable_def)
  fix s
  {
    fix t assume "reached fs qbytes faults path s \<and> session_step fs qbytes faults path s t"
    then have inv: "session_inv faults fs path s" and step: "session_step fs qbytes faults path s t" using reached_inv by auto
    from step show "session_weight fs path t < session_weight fs path s"
      by cases (use server_weight_less [OF inv] client_weight_less in blast)+
  next
    assume r: "reached fs qbytes faults path s"
    have "\<exists>t. client_step path False Rings s = Some t \<and> s_client t = Terminated 1 [] (''Server timed out. Exiting.'' @ newline)"
      if "s_alive s" "s_queue s = []" "s_client s \<noteq> Requesting" "\<And>st out err. s_client s \<noteq> Terminated st out err"
      using that reached_defined [OF r small]
      by (cases "s_client s") (auto simp: client_step_def receiveMessage_def client_fails_def client_exit_def)
    then show "(\<exists>t. quiet_step fs qbytes path s t) \<or> (\<exists>status out err. s_client s = Terminated status out err) \<or>
        faults \<and> (\<exists>status. s_server s = Finished status) \<and>
        (\<exists>t. client_step path False Rings s = Some t \<and> s_client t = Terminated 1 [] (''Server timed out. Exiting.'' @ newline))"
      using quiet_goes_on [OF reached_inv [OF r] cap] reached_defined [OF r small] by blast
  next
    assume q: "(quiet_step fs qbytes path)\<^sup>*\<^sup>* session_start s \<and> (\<forall>t. \<not> quiet_step fs qbytes path s t)"
    then have inv: "quiet_inv fs path s" using quiet_run_inv small assms(2) by blast
    have "s_client s = outcome (fs path)"
    proof (cases "s_alive s")
      case True
      then have "s_client s \<noteq> Terminated st out err" for st out err using inv by (auto simp: quiet_inv_def session_inv_def)
      then show ?thesis using quiet_goes_on [of False fs path s qbytes] inv cap q by (auto simp: quiet_inv_def)
    qed (use inv in \<open>simp add: quiet_inv_def\<close>)
    then show "s_client s = (case fs path of
        None \<Rightarrow> Terminated 1 (''Couldn'' @ [CHR 0x27] @ ''t open'' @ newline) []
      | Some c \<Rightarrow> Terminated 0 (report (length c) (int ((length c + 8191) div 8192) + 1)) [])"
      by (simp add: outcome_def)
  }
qed

theorem file_service_ends_witness:
  "(quiet_step ex_files 16384 ''/f'')\<^sup>*\<^sup>* session_start ex_session \<and> (\<forall>t. \<not> quiet_step ex_files 16384 ''/f'' ex_session t) \<and>
    s_client ex_session = Terminated 0 (report (length ''data'') (int ((length ''data'' + 8191) div 8192) + 1)) [] \<and>
    (\<exists>t. session_step ex_files 16384 False ''/f'' session_start t \<and> session_weight ex_files ''/f'' t < session_weight ex_files ''/f'' session_start)"
proof -
  have "8192 \<le> (16384 :: nat)" "length ''/f'' < PATHNAME_MAX" "\<forall>c. ex_files ''/f'' = Some c \<longrightarrow> int (length c) \<le> 8192 * (INT_MAX - 1)"
    by (simp_all add: PATHNAME_MAX_def ex_files_def INT_MAX_def)
  note ends = file_service_ends [where fs = ex_files and path = "''/f''" and faults = False, OF this]
  have "client_step ''/f'' False Quiet session_start = Some (session_start\<lparr>s_request := Some ''/f'', s_client := Receiving_First\<rparr>)"
    by (simp add: client_step_def session_start_def PATHNAME_MAX_def)
  then have "session_step ex_files 16384 False ''/f'' session_start (session_start\<lparr>s_request := Some ''/f'', s_client := Receiving_First\<rparr>)"
    by (rule session_step.client)
  moreover have "ex_files ''/f'' = Some ''data''" by (simp add: ex_files_def)
  moreover have "s_client ex_session = (case ex_files ''/f'' of
        None \<Rightarrow> Terminated 1 (''Couldn'' @ [CHR 0x27] @ ''t open'' @ newline) []
      | Some c \<Rightarrow> Terminated 0 (report (length c) (int ((length c + 8191) div 8192) + 1)) [])"
    using conjunct2 [OF conjunct2 [OF ends]] ex_session_quiet ex_session_over by blast
  ultimately show ?thesis using conjunct1 [OF ends] reached.start ex_session_quiet ex_session_over unfolding option.case by fastforce
qed

text \<open>A second server that finds the key file of a running one exits, and its exit handler unlinks this key
  file: from then on no client finds the running server.\<close>

theorem second_server_unlinks_key:
  assumes "sw_key w = Some running" and "running \<in> sw_queues w" and "fresh \<noteq> -1" and "fresh \<notin> sw_queues w"
  shows "\<exists>w'. server_start fresh writes closes w = (Ended_With ''open - server key file'', w') \<and> sw_key w' = None \<and>
    sw_queues w' = sw_queues w"
  using assms by (auto simp: server_start_def exit_with_def exitHandler_def)

theorem second_server_unlinks_key_witness:
  "\<exists>w'. server_start 7 True True \<lparr>sw_queues = {3}, sw_key = Some 3, sw_syslog = []\<rparr> = (Ended_With ''open - server key file'', w') \<and>
    sw_key w' = None \<and> sw_queues w' = {3}"
  using second_server_unlinks_key [of "\<lparr>sw_queues = {3}, sw_key = Some 3, sw_syslog = []\<rparr>" 3 7 True True] by simp

end
