(* ===== verification/Spec2Isabelle.thy ===== *)
theory Spec2Isabelle
  imports Binary_Heap Sequence_Server File_Names Popen_Streams Process_Tree Mq_Files Current_Dir Exec_Path Flag_Transfer Sort_Algo Hash_Map_Laws Sem_Ops Keystore Search_Tree Reports File_Walk Elf_Header Path_Names Watch_List File_Service
begin

text \<open>
  A model of the C code of this repository: the support library under \<^verbatim>\<open>lib\<close> and the larger programs of the
  exercises that use it or stand alone. Pathnames in this text are relative to \<^verbatim>\<open>src\<close>.

  \<^bold>\<open>How C is modelled.\<close> A function is a HOL function that takes the state it reads and returns its result with the
  state it changes. Its value is \<open>Inr\<close> of the result or \<open>Inl\<close> of an error (\<open>Prelude.cerr\<close>): a failed \<^verbatim>\<open>assert\<close>,
  a lock the caller already holds, a loop that does not end, or undefined behaviour (a NULL or dangling pointer, an index
  outside its buffer, uninitialised memory, a signed overflow). A statement that a call gives \<open>Inr\<close> says that it
  returns, and that none of this happens. A struct is a record. Where code shares structs through pointers, there is a
  store from addresses to records (\<open>Prelude.cmem\<close> and its extensions), in which \<open>live\<close> is the set of allocated blocks
  and \<open>fails\<close> tells which calls of the allocator and of \<^verbatim>\<open>pthread_mutex_init\<close> fail; so leaks, double frees and every
  failure path are part of the statements. Fixed-width integers are words where the code relies on the wrap-around, and
  \<open>int\<close> with the overflow an error where it would be undefined. System calls and functions of the C library are
  definitions of their documented behaviour as far as the code uses them, or parameters where the environment decides.

  \<^bold>\<open>The library.\<close>
  \<^item> \<open>Prelude\<close>: errors and their sequencing, allocation, counted loops, \<^verbatim>\<open>while\<close> loops and a rule for their totality.
  \<^item> \<open>C_Text\<close>: characters, buffers, \<^verbatim>\<open>strtol\<close>, \<^verbatim>\<open>strncpy\<close> and the conversions of \<^verbatim>\<open>printf\<close>.
  \<^item> \<open>Byte_Order\<close>: fixed-width integers as bytes in memory and back, for the headers and messages read as structs.
  \<^item> \<open>Callbacks\<close>: the contracts of the callbacks as locales, with the repository's callbacks as their interpretations.
  \<^item> \<open>Darray\<close> (\<^verbatim>\<open>lib/ds/darray.c\<close>): the dynamic array. Every operation keeps the invariant and does to the list of
    elements what it should. After a failed \<^verbatim>\<open>realloc\<close> the next push is out of bounds.
  \<^item> \<open>Sifting\<close>, \<open>Binary_Heap\<close> (\<^verbatim>\<open>lib/ds/heap.c\<close>): the loops compute list functions that repair a heap with one defect; the
    max heap returns its maximum, the min heap does not keep its order.
  \<^item> \<open>Linked_List\<close> (\<^verbatim>\<open>lib/ds/list.c\<close>): nodes in a store, with a predicate for list segments that the other programs with
    doubly linked lists use too; splitting, joining, popping, copying and destroying.
  \<^item> \<open>Node_Lists\<close>: rewinding, walking, searching and freeing a list of bare nodes, for the programs that keep such a list
    without the struct around it.
  \<^item> \<open>Sort_Algo\<close> (\<^verbatim>\<open>lib/algo\<close>): the merge sorts and the bubble sort end, permute and sort.
  \<^item> \<open>Hashing\<close> (\<^verbatim>\<open>lib/hashing\<close>): the hash functions on words, against their textbook definitions.
  \<^item> \<open>Hash_Map\<close>, \<open>Hash_Map_Laws\<close> (\<^verbatim>\<open>lib/ds/hashmap.c\<close>): buckets of dynamic arrays of nodes; the operations refine those
    of a map, and a lookup that finds nothing keeps the mutex.
  \<^item> \<open>Lib_Text\<close> (\<^verbatim>\<open>lib/lib.c\<close>, \<^verbatim>\<open>lib/get_num.c\<close>): tokens, user and group lookups, number parsing.
  \<^item> \<open>Error_Functions\<close> (\<^verbatim>\<open>lib/error_functions.c\<close>, \<^verbatim>\<open>lib/ename.c.inc\<close>): what reaches the two output streams, in order.
  \<^item> \<open>Reports\<close> (\<^verbatim>\<open>lib/file_perms.c\<close>, \<^verbatim>\<open>lib/print_wait_status.c\<close>, \<^verbatim>\<open>lib/print_rlimit.c\<close>, \<^verbatim>\<open>lib/lib.c\<close>): the texts that
    describe files, processes and limits.
  \<^item> \<open>Sysv_Sem\<close> (\<^verbatim>\<open>lib/event_flags.c\<close>): System V semaphores; every event-flag call refines its operation on a table
    of flags that are set or clear, in every state the calls can reach where new semaphores are 0.
  \<^bold>\<open>The programs.\<close>
  \<^item> \<open>Sem_Ops\<close> (\<^verbatim>\<open>47-system-v-semaphores/svsem/svsem_op.c\<close>): the parser of semaphore operations and the loop that
    performs them.
  \<^item> \<open>Keystore\<close> (\<^verbatim>\<open>48-system-v-shared-memory/exercises/48-5.c\<close>): the store in shared memory behind one semaphore, as
    several processes use it: mutual exclusion, the map it stands for, and a deletion that keeps the semaphore.
  \<^item> \<open>Search_Tree\<close> (\<^verbatim>\<open>30-thread-synchronization/exercises/30-2.c\<close>): the tree with a mutex in every node.
  \<^item> \<open>File_Walk\<close> (\<^verbatim>\<open>18-directories-and-links/exercises/18-8.c\<close>): the tree walk, against the preorder and the postorder of
    the tree a finite file system gives.
  \<^item> \<open>Elf_Header\<close> (\<^verbatim>\<open>41-shared-libraries/experiments/read_elf_header.c\<close>): the header read from the bytes of a file of either
    byte order, and the report line by line.
  \<^item> \<open>Path_Names\<close> (\<^verbatim>\<open>31-thread-safety-and-storage/exercises/31-2.c\<close>): \<^verbatim>\<open>dirname2\<close> and \<^verbatim>\<open>basename2\<close>.
  \<^item> \<open>Watch_List\<close> (\<^verbatim>\<open>19-monitoring-file-events/exercises/19-1.c\<close>): the directory monitor and its list of watches.
  \<^item> \<open>File_Service\<close> (\<^verbatim>\<open>46-system-v-message-queues/exercises/46-4-*.c\<close>): a step relation that interleaves the client and
    the server's child through the queue, with or without failing calls of the server; what a client has counted when it ends
    with success, that every session ends, and how it ends when nothing fails.
  \<^item> \<open>Current_Dir\<close> (\<^verbatim>\<open>18-directories-and-links/exercises/18-5.c\<close>): the pathname of the working directory, found by climbing to the
    root; and what happens at a mounted file system.
  \<^item> \<open>Exec_Path\<close> (\<^verbatim>\<open>27-program-execution/exercises/27-2.c\<close>): a program looked for in the directories of \<^verbatim>\<open>$PATH\<close>.
  \<^item> \<open>Mq_Files\<close> (\<^verbatim>\<open>52-posix-message-queues/exercises/52-3-*.c\<close>): a file server on POSIX message queues with any number of
    clients: what they print, and that every run ends, for files without NUL characters.
  \<^item> \<open>Sequence_Server\<close> (\<^verbatim>\<open>44-pipes-and-fifos/exercises/44-6.c\<close> and its client): the server that hands out sequence numbers
    and keeps a backup of the last one, with its clients, its stop by a signal and its restart.
  \<^item> \<open>File_Names\<close> (\<^verbatim>\<open>14-file-systems/exercises/14-1.c\<close>): files with random names, created and removed in order.
  \<^item> \<open>Popen_Streams\<close> (\<^verbatim>\<open>44-pipes-and-fifos/exercises/44-2.c\<close>): \<^verbatim>\<open>popen\<close> and \<^verbatim>\<open>pclose\<close> with the list of open streams, the
    buffers of a stream and their copies in the child.
  \<^item> \<open>Process_Tree\<close> (\<^verbatim>\<open>12-system-process-info/exercises/12-2.c\<close>): the processes of \<^verbatim>\<open>/proc\<close> drawn as a forest.
  \<^item> \<open>Shm_Transfer\<close> (\<^verbatim>\<open>49-memory-mappings/exercises/49-2-*.c\<close>), \<open>Flag_Transfer\<close>
    (\<^verbatim>\<open>48-system-v-shared-memory/exercises/48-1-*.c\<close>): a writer and a reader that copy a file through shared memory, the one
    pair synchronised by two semaphores, the other by an event flag; what is delivered, and how they come to hang.
  \<^bold>\<open>How the parts interact.\<close> The heap, the merge sorts, the hash table use the dynamic array through its model, not
  through an abstraction of it; the list uses it for its sorts. The command of \<open>Sem_Ops\<close>, the store of \<open>Keystore\<close> and the two
  transfers use the semaphores of \<open>Sysv_Sem\<close>, \<open>Flag_Transfer\<close> through the event flags; \<open>File_Names\<close>, \<open>Popen_Streams\<close> and
  \<open>Process_Tree\<close> share \<open>Node_Lists\<close>, and \<open>Process_Tree\<close> the reading of \<^verbatim>\<open>/proc\<close> of \<open>Reports\<close>; the programs end through the
  error functions. The containers are generic in their callbacks,
  whose contracts are the locales of \<open>Callbacks\<close>.

  \<^bold>\<open>Bounds and fuel.\<close> Sizes are those of the code: \<^verbatim>\<open>MAX_SEMOPS\<close>, \<^verbatim>\<open>MAX_ITEMS\<close>, \<^verbatim>\<open>PATH_MAX\<close>, \<^verbatim>\<open>RESP_MSG_SIZE\<close> and the
  buffers are literal. A loop whose end depends on the shape of memory is \<open>Prelude.cwhile\<close>, whose value is the error
  \<open>Diverges\<close> when it never ends; theorems about it prove that it ends. Only \<open>File_Walk.t_nftw\<close> and
  \<open>Process_Tree.drawChildren\<close> have fuel, because a cycle of symbolic links, or of processes that are each other's parents, has no
  end: their theorems hold for every fuel that is at least the depth of the tree. The steps of a session of \<open>File_Service\<close> and
  of a run of \<open>Shm_Transfer\<close> or \<open>Mq_Files\<close> make its weight smaller, so that every session and every run ends.

  \<^bold>\<open>Not modelled.\<close>
  \<^item> Functions that only print for debugging (\<^verbatim>\<open>Darray_debug\<close>, \<^verbatim>\<open>Heap_debug\<close>, \<^verbatim>\<open>List_debug\<close>) and the self-tests in \<^verbatim>\<open>main\<close>.
  \<^item> The unit tests under \<^verbatim>\<open>tests\<close>, but for the comparison and the draining loop of the heap's test.
  \<^item> The examples of the book (the directories beside \<^verbatim>\<open>exercises\<close>) and the exercises that are a sequence of system calls
    with an \<^verbatim>\<open>errExit\<close> behind each: what they show is the behaviour of the kernel, which is not part of the repository.
  \<^item> Code that does not compile or is commented out: \<^verbatim>\<open>6-2.c\<close>, \<^verbatim>\<open>6-3.c\<close> (\<^verbatim>\<open>modenv\<close> is not declared), \<^verbatim>\<open>12-1.c\<close> and
    \<^verbatim>\<open>check_password_caps.c\<close>, the end of \<^verbatim>\<open>19-1.c\<close>, the statistics of \<^verbatim>\<open>18-7.c\<close>.
  \<^item> The chat programs: the server of \<^verbatim>\<open>46-6-server.c\<close> is only begun, and \<^verbatim>\<open>52-4-server.c\<close> uses functions on lists that are not in
    the repository.
  \<^item> Variants of modelled programs (\<^verbatim>\<open>44-4.c\<close>, \<^verbatim>\<open>47-5.c\<close>, \<^verbatim>\<open>52-2-server.c\<close>), short loops over files (\<^verbatim>\<open>4-1.c\<close>, \<^verbatim>\<open>4-2.c\<close>,
    \<^verbatim>\<open>5-3.c\<close>, \<^verbatim>\<open>5-4.c\<close>, \<^verbatim>\<open>seek_io.c\<close>) and the word lists of \<^verbatim>\<open>lib/wordlist.c\<close>.
  \<^item> In \<open>Shm_Transfer\<close>, the moments between the writer's \<^verbatim>\<open>open\<close>, \<^verbatim>\<open>ftruncate\<close> and \<^verbatim>\<open>mmap\<close>, which are one step.
  \<^item> A failing call in the start of the sequence server, before it serves, and the demonstrations in the \<^verbatim>\<open>main\<close> of \<^verbatim>\<open>44-2.c\<close>,
    \<^verbatim>\<open>31-2.c\<close> and \<^verbatim>\<open>27-2.c\<close>.
  \<^item> Signal handlers that interrupt the library, and the interleaving of threads inside the containers: one thread runs a
    function, and a lock it waits for while it holds it itself is an error. The programs whose processes communicate
    (\<open>Sysv_Sem\<close>, \<open>Keystore\<close>, \<open>File_Service\<close>, \<open>Sequence_Server\<close>, \<open>Mq_Files\<close>, \<open>Shm_Transfer\<close>, \<open>Flag_Transfer\<close>) are modelled with their
    interleaving.
\<close>

end
